(* ===== verification/Prelude.thy ===== *)
theory Prelude
  imports Main "HOL-Library.Word" "HOL-Library.List_Lexorder" "HOL-Library.Sublist"
    "HOL-Library.AList"
begin

text \<open>
  Shared vocabulary of the development.

  \<^item> Machine integers: \<open>u8\<close>, \<open>u32\<close> and \<open>u64\<close> are words of HOL-Library.Word, so that \<open>+\<close>
    wraps as Rust's \<open>wrapping_add\<close> does; \<open>saturating_sub\<close> and \<open>checked_add\<close> are written out.
    A \<open>usize\<close> that counts objects in memory is a \<open>nat\<close>.
  \<^item> Byte strings (\<open>Vec<u8>\<close>, \<open>Bytes\<close>) are lists of \<open>u8\<close> in lexicographic order, which is
    the order \<open>Ord for [u8]\<close> of Rust.
  \<^item> A \<open>HashMap\<close> is an association list without duplicate keys, changed by \<open>AList.update\<close> and
    \<open>AList.delete\<close>; a \<open>BTreeMap\<close> is an association list with strictly ascending keys, changed
    by \<open>bt_insert\<close> and \<open>AList.delete\<close>. Both are read with \<open>map_of\<close>.
    The locale \<open>kv_map\<close> states what a client of a map may rely on; it is interpreted on
    both representations.
  \<^item> The tombstone bit (bit 63 of a sequence number) and the mask that removes it, which every
    component applies to the sequence numbers it receives.
\<close>

section \<open>Machine integers and bytes\<close>

unbundle bit_operations_syntax

type_synonym u8 = "8 word"
type_synonym u32 = "32 word"
type_synonym u64 = "64 word"
type_synonym bytes = "u8 list"

named_theorems map_simps \<open>lookup laws of the map representations\<close>

definition U64_MAX :: u64 where
  "U64_MAX = - 1"

definition saturating_sub :: "u64 \<Rightarrow> u64 \<Rightarrow> u64" where
  "saturating_sub a b = (if a < b then 0 else a - b)"

definition checked_add :: "u64 \<Rightarrow> u64 \<Rightarrow> u64 option" where
  "checked_add a b = (if unat a + unat b < 2 ^ 64 then Some (a + b) else None)"

lemma U64_MAX_ge [simp]: "s \<le> U64_MAX"
  by (simp add: U64_MAX_def)

lemma saturating_sub_self [simp]: "saturating_sub a a = 0"
  by (simp add: saturating_sub_def)

lemma checked_add_Some: "checked_add a b = Some c \<Longrightarrow> unat c = unat a + unat b \<and> c = a + b"
  by (auto simp: checked_add_def unat_word_ariths split: if_splits)

section \<open>The tombstone bit\<close>

text \<open>\<open>contextra-types/src/types/domain/misc.rs\<close>: \<open>pub const TOMBSTONE_BIT: u64 = 1 << 63\<close>.\<close>

definition TOMBSTONE_BIT :: u64 where
  "TOMBSTONE_BIT = push_bit 63 1"

abbreviation mask_seq :: "u64 \<Rightarrow> u64" where
  "mask_seq s \<equiv> s AND NOT TOMBSTONE_BIT"

lemma mask_seq_idem [simp]: "mask_seq (mask_seq s) = mask_seq s"
  by (simp add: and.assoc)

lemma mask_seq_0 [simp]: "mask_seq 0 = 0"
  by simp

lemma mask_seq_le: "mask_seq s \<le> s"
  by (rule word_and_le2)

lemma bit_TOMBSTONE_BIT: "bit TOMBSTONE_BIT n \<longleftrightarrow> n = 63"
  unfolding TOMBSTONE_BIT_def push_bit_of_1 bit_exp_iff by auto

lemma bit_mask_seq: "bit (mask_seq s) n \<longleftrightarrow> bit s n \<and> n \<noteq> 63"
  by (auto simp: bit_simps bit_TOMBSTONE_BIT dest: bit_imp_le_length)

lemma TOMBSTONE_BIT_set_iff: "s AND TOMBSTONE_BIT \<noteq> 0 \<longleftrightarrow> bit s 63"
proof -
  have "s AND TOMBSTONE_BIT = (if bit s 63 then TOMBSTONE_BIT else 0)"
    by (rule bit_word_eqI) (auto simp: bit_simps bit_TOMBSTONE_BIT)
  moreover have "TOMBSTONE_BIT \<noteq> 0"
    by (simp add: TOMBSTONE_BIT_def)
  ultimately show ?thesis by simp
qed

lemma mask_seq_id: "s AND TOMBSTONE_BIT = 0 \<Longrightarrow> mask_seq s = s"
  by (rule bit_word_eqI) (use TOMBSTONE_BIT_set_iff [of s] in \<open>auto simp: bit_mask_seq\<close>)

lemma mask_seq_or [simp]: "mask_seq (s OR TOMBSTONE_BIT) = mask_seq s"
  by (rule bit_word_eqI) (auto simp: bit_simps bit_TOMBSTONE_BIT)

lemma mask_seq_neq_max [simp]: "mask_seq s \<noteq> U64_MAX"
proof
  assume "mask_seq s = U64_MAX"
  then have "bit (mask_seq s) 63 = bit (U64_MAX) 63" by simp
  then show False by (simp add: bit_mask_seq U64_MAX_def)
qed

section \<open>Maps\<close>

text \<open>Insertion into a \<open>BTreeMap\<close>: the keys stay strictly ascending.\<close>

fun bt_insert :: "'k::linorder \<Rightarrow> 'v \<Rightarrow> ('k \<times> 'v) list \<Rightarrow> ('k \<times> 'v) list" where
  "bt_insert k v [] = [(k, v)]"
| "bt_insert k v ((k', v') # m) =
     (if k < k' then (k, v) # (k', v') # m
      else if k = k' then (k, v) # m
      else (k', v') # bt_insert k v m)"

definition bt_wf :: "('k::linorder \<times> 'v) list \<Rightarrow> bool" where
  "bt_wf m \<longleftrightarrow> sorted_wrt (<) (map fst m)"

definition hm_wf :: "('k \<times> 'v) list \<Rightarrow> bool" where
  "hm_wf m \<longleftrightarrow> distinct (map fst m)"

lemma map_of_bt_insert [map_simps]: "map_of (bt_insert k v m) = (map_of m)(k \<mapsto> v)"
  by (induction k v m rule: bt_insert.induct) auto

lemma fst_set_bt_insert: "fst ` set (bt_insert k v m) = insert k (fst ` set m)"
  by (induction k v m rule: bt_insert.induct) auto

lemma bt_wf_Nil [simp]: "bt_wf []"
  by (simp add: bt_wf_def)

lemma bt_wf_Cons: "bt_wf ((k, v) # m) \<longleftrightarrow> (\<forall>x \<in> fst ` set m. k < x) \<and> bt_wf m"
  by (auto simp: bt_wf_def)

lemma bt_wf_insert [simp, intro]: "bt_wf m \<Longrightarrow> bt_wf (bt_insert k v m)"
proof (induction k v m rule: bt_insert.induct)
  case (1 k v)
  then show ?case by (simp add: bt_wf_Cons)
next
  case (2 k v k' v' m)
  show ?case
  proof (cases "k < k'")
    case True
    with 2 show ?thesis by (auto simp: bt_wf_Cons dest: less_trans)
  next
    case False
    with 2 show ?thesis by (auto simp: bt_wf_Cons fst_set_bt_insert)
  qed
qed

lemma sorted_wrt_less_distinct: "sorted_wrt (<) xs \<Longrightarrow> distinct xs" for xs :: "'k::linorder list"
  by (induction xs) auto

lemma bt_wf_distinct: "bt_wf m \<Longrightarrow> distinct (map fst m)"
  unfolding bt_wf_def by (rule sorted_wrt_less_distinct)

lemma bt_wf_hm_wf: "bt_wf m \<Longrightarrow> hm_wf m"
  unfolding hm_wf_def by (rule bt_wf_distinct)

lemma bt_wf_filter [intro]: "bt_wf m \<Longrightarrow> bt_wf (filter P m)"
  by (induction m) (auto simp: bt_wf_Cons)

lemma delete_eq_filter: "AList.delete k m = filter (\<lambda>e. fst e \<noteq> k) m"
  by (auto simp: AList.delete_eq intro: filter_cong)

lemma bt_wf_delete [simp, intro]: "bt_wf m \<Longrightarrow> bt_wf (AList.delete k m)"
  by (simp add: delete_eq_filter bt_wf_filter)

lemma map_of_delete [map_simps]: "map_of (AList.delete k m) = (map_of m)(k := None)"
  by (simp add: delete_conv')

lemma map_of_update [map_simps]: "map_of (AList.update k v m) = (map_of m)(k \<mapsto> v)"
  by (simp add: update_conv')

lemma hm_wf_Nil [simp]: "hm_wf []"
  by (simp add: hm_wf_def)

lemma hm_wf_update [simp, intro]: "hm_wf m \<Longrightarrow> hm_wf (AList.update k v m)"
  by (simp add: hm_wf_def distinct_update)

lemma hm_wf_delete [simp, intro]: "hm_wf m \<Longrightarrow> hm_wf (AList.delete k m)"
  by (simp add: hm_wf_def distinct_delete)

lemma hm_wf_filter [intro]: "hm_wf m \<Longrightarrow> hm_wf (filter P m)"
  by (simp add: hm_wf_def distinct_map_filter)

lemma hm_wf_lookup: "hm_wf m \<Longrightarrow> map_of m k = Some v \<longleftrightarrow> (k, v) \<in> set m"
  by (simp add: hm_wf_def)

lemma bt_wf_lookup: "bt_wf m \<Longrightarrow> map_of m k = Some v \<longleftrightarrow> (k, v) \<in> set m"
  by (simp add: bt_wf_distinct)

lemma map_of_filter_hm:
  "hm_wf m \<Longrightarrow> map_of (filter P m) k = (case map_of m k of None \<Rightarrow> None
     | Some v \<Rightarrow> if P (k, v) then Some v else None)"
proof (induction m)
  case Nil
  then show ?case by simp
next
  case (Cons e m)
  obtain k' v' where e: "e = (k', v')" by (cases e)
  from Cons.prems e have "k' \<notin> fst ` set m" and wf: "hm_wf m"
    by (auto simp: hm_wf_def)
  then have "map_of (filter P m) k' = None"
    by (auto simp: map_of_eq_None_iff)
  with Cons.IH [OF wf] e show ?case by auto
qed

text \<open>What a client may rely on, for either representation.\<close>

locale kv_map =
  fixes insert_op :: "'k \<Rightarrow> 'v \<Rightarrow> ('k \<times> 'v) list \<Rightarrow> ('k \<times> 'v) list"
    and remove_op :: "'k \<Rightarrow> ('k \<times> 'v) list \<Rightarrow> ('k \<times> 'v) list"
    and wf :: "('k \<times> 'v) list \<Rightarrow> bool"
  assumes wf_Nil: "wf []"
    and wf_insert: "wf m \<Longrightarrow> wf (insert_op k v m)"
    and wf_remove: "wf m \<Longrightarrow> wf (remove_op k m)"
    and lookup_insert: "map_of (insert_op k v m) = (map_of m)(k \<mapsto> v)"
    and lookup_remove: "map_of (remove_op k m) = (map_of m)(k := None)"
    and lookup_set: "wf m \<Longrightarrow> map_of m k = Some v \<longleftrightarrow> (k, v) \<in> set m"
begin

lemma set_insert:
  assumes "wf m"
  shows "set (insert_op k v m) = insert (k, v) {e \<in> set m. fst e \<noteq> k}"
proof -
  have "(k', v') \<in> set (insert_op k v m) \<longleftrightarrow> (k', v') \<in> insert (k, v) {e \<in> set m. fst e \<noteq> k}"
    for k' v'
    using lookup_set [OF wf_insert [OF assms], of k v k' v'] lookup_set [OF assms, of k' v']
    by (auto simp: lookup_insert split: if_splits)
  then show ?thesis by auto
qed

lemma set_remove:
  assumes "wf m"
  shows "set (remove_op k m) = {e \<in> set m. fst e \<noteq> k}"
proof -
  have "(k', v') \<in> set (remove_op k m) \<longleftrightarrow> (k', v') \<in> {e \<in> set m. fst e \<noteq> k}" for k' v'
    using lookup_set [OF wf_remove [OF assms], of k k' v'] lookup_set [OF assms, of k' v']
    by (auto simp: lookup_remove split: if_splits)
  then show ?thesis by auto
qed

lemma ball_insert:
  "wf m \<Longrightarrow> P (k, v) \<Longrightarrow> (\<forall>e \<in> set m. P e) \<Longrightarrow> \<forall>e \<in> set (insert_op k v m). P e"
  by (simp add: set_insert)

lemma ball_remove: "wf m \<Longrightarrow> (\<forall>e \<in> set m. P e) \<Longrightarrow> \<forall>e \<in> set (remove_op k m). P e"
  by (simp add: set_remove)

end

interpretation bt: kv_map bt_insert AList.delete bt_wf
  by unfold_locales (auto simp: map_simps bt_wf_distinct)

interpretation hm: kv_map AList.update AList.delete hm_wf
  by unfold_locales (auto simp: map_simps hm_wf_def distinct_update distinct_delete)

section \<open>Iterator idioms\<close>

text \<open>\<open>iter_mut().rfind(P)\<close> followed by an update of the element found.\<close>

fun update_last :: "('a \<Rightarrow> bool) \<Rightarrow> ('a \<Rightarrow> 'a) \<Rightarrow> 'a list \<Rightarrow> 'a list" where
  "update_last P f [] = []"
| "update_last P f (x # xs) =
     (if list_ex P xs then x # update_last P f xs
      else if P x then f x # xs else x # xs)"

lemma update_last_none: "\<not> list_ex P xs \<Longrightarrow> update_last P f xs = xs"
  by (cases xs) auto

lemma update_last_snoc:
  "update_last P f (xs @ [x]) = (if P x then xs @ [f x] else update_last P f xs @ [x])"
  by (induction xs) auto

lemma filter_update_last_same:
  assumes "\<And>x. P x \<Longrightarrow> Q x" and "\<And>x. P x \<Longrightarrow> Q (f x)"
  shows "filter Q (update_last P f xs) = update_last P f (filter Q xs)"
proof (induction xs)
  case Nil
  then show ?case by simp
next
  case (Cons x xs)
  have "list_ex P (filter Q xs) = list_ex P xs"
    using assms(1) by (auto simp: list_ex_iff)
  with Cons assms show ?case by (auto simp: update_last_none)
qed

lemma filter_update_last_other:
  assumes "\<And>x. P x \<Longrightarrow> \<not> Q x" and "\<And>x. P x \<Longrightarrow> \<not> Q (f x)"
  shows "filter Q (update_last P f xs) = filter Q xs"
  using assms by (induction xs) auto

lemma set_update_last: "set (update_last P f xs) \<subseteq> set xs \<union> f ` {x \<in> set xs. P x}"
  by (induction xs) auto

text \<open>\<open>iter().min()\<close>: \<open>None\<close> for no elements.\<close>

fun iter_min :: "'a::linorder list \<Rightarrow> 'a option" where
  "iter_min [] = None"
| "iter_min (x # xs) = Some (case iter_min xs of None \<Rightarrow> x | Some y \<Rightarrow> min x y)"

lemma iter_min_None [simp]: "iter_min xs = None \<longleftrightarrow> xs = []"
  by (cases xs) auto

lemma iter_min_Some: "iter_min xs = Some m \<longleftrightarrow> m \<in> set xs \<and> (\<forall>x \<in> set xs. m \<le> x)"
proof (induction xs arbitrary: m)
  case Nil
  then show ?case by simp
next
  case (Cons x xs)
  show ?case
  proof (cases "iter_min xs")
    case None
    then show ?thesis by auto
  next
    case (Some y)
    with Cons.IH [of y] show ?thesis by (auto simp: min_def intro: order.antisym)
  qed
qed

text \<open>\<open>Duration::as_nanos\<close> is a \<open>u128\<close>; it is compared as \<open>u64::try_from(..).unwrap_or(u64::MAX)\<close>.\<close>

definition clamp_u64 :: "nat \<Rightarrow> u64" where
  "clamp_u64 n = (if n < 2 ^ 64 then of_nat n else U64_MAX)"

text \<open>\<open>iter().position(P)\<close>, and \<open>Vec::swap_remove(i)\<close>, which moves the last element into the gap.\<close>

fun position :: "('a \<Rightarrow> bool) \<Rightarrow> 'a list \<Rightarrow> nat option" where
  "position P [] = None"
| "position P (x # xs) = (if P x then Some 0 else map_option Suc (position P xs))"

definition swap_remove :: "nat \<Rightarrow> 'a list \<Rightarrow> 'a list" where
  "swap_remove i xs = butlast (xs[i := last xs])"

lemma position_Some: "position P xs = Some i \<Longrightarrow> i < length xs \<and> P (xs ! i)"
  by (induction xs arbitrary: i) (auto split: if_splits)

lemma position_None [simp]: "position P xs = None \<longleftrightarrow> (\<forall>x \<in> set xs. \<not> P x)"
  by (induction xs) auto

lemma length_swap_remove [simp]: "length (swap_remove i xs) = length xs - 1"
  by (simp add: swap_remove_def)

text \<open>\<open>sort_unstable\<close> followed by \<open>dedup\<close>: strictly ascending.\<close>

lemma strict_sorted_remdups_adj: "sorted xs \<Longrightarrow> sorted_wrt (<) (remdups_adj xs)"
  by (induction xs rule: remdups_adj.induct) (auto simp: less_le)

end
