(* ===== verification/BinarySearch.thy ===== *)
theory BinarySearch
  imports Prelude
begin

text \<open>
  \<open>slice::binary_search_by_key\<close> of Rust's standard library, which the MemTable uses on the versions
  of a key and the SSTable reader on the index of a file. Its contract is the locale
  \<open>search_contract\<close>, whose client lemmas are the ways in which these components go on from a hit
  or a miss.
\<close>

section \<open>Binary search\<close>

text \<open>\<open>slice::binary_search_by_key\<close> of the standard library: \<open>Inl i\<close> for \<open>Ok(i)\<close>, \<open>Inr i\<close> for \<open>Err(i)\<close>.\<close>

function bs_loop :: "('a \<Rightarrow> 'b::linorder) \<Rightarrow> 'b \<Rightarrow> 'a list \<Rightarrow> nat \<Rightarrow> nat \<Rightarrow> nat" where
  "bs_loop f x xs base sz =
     (if sz \<le> 1 then base
      else let half = sz div 2; mid = base + half
           in bs_loop f x xs (if f (xs ! mid) > x then base else mid) (sz - half))"
  by auto
termination
  by (relation "measure (\<lambda>(f, x, xs, base, sz). sz)") auto

declare bs_loop.simps [simp del]

definition binary_search_by_key :: "('a \<Rightarrow> 'b::linorder) \<Rightarrow> 'b \<Rightarrow> 'a list \<Rightarrow> nat + nat" where
  "binary_search_by_key f x xs =
     (if xs = [] then Inr 0
      else let base = bs_loop f x xs 0 (length xs)
           in if f (xs ! base) = x then Inl base
              else Inr (if f (xs ! base) < x then base + 1 else base))"

section \<open>The contract of the binary search\<close>

lemma sorted_split_filter:
  fixes f :: "'a \<Rightarrow> 'b::linorder"
  assumes "sorted (map f xs)" and "n \<le> length xs" and "\<forall>j < n. f (xs ! j) \<le> x"
    and "\<forall>j. n \<le> j \<longrightarrow> j < length xs \<longrightarrow> x < f (xs ! j)"
  shows "take n xs = filter (\<lambda>v. f v \<le> x) xs \<and> drop n xs = filter (\<lambda>v. x < f v) xs"
proof -
  have low: "\<forall>v \<in> set (take n xs). f v \<le> x"
    using assms(2,3) by (auto simp: in_set_conv_nth)
  have high: "\<forall>v \<in> set (drop n xs). x < f v"
    using assms(2,4) by (auto simp: in_set_conv_nth)
  have "filter (\<lambda>v. f v \<le> x) (take n xs @ drop n xs) = take n xs"
    using low high by (auto simp: filter_id_conv filter_empty_conv not_le simp del: append_take_drop_id)
  moreover have "filter (\<lambda>v. x < f v) (take n xs @ drop n xs) = drop n xs"
    using low high by (auto simp: filter_id_conv filter_empty_conv not_less simp del: append_take_drop_id)
  ultimately show ?thesis by simp
qed

text \<open>\<open>Ok(i)\<close> is any position of an equal key, \<open>Err(i)\<close> the place where the key belongs.\<close>

locale search_contract =
  fixes search :: "('a \<Rightarrow> 'b::linorder) \<Rightarrow> 'b \<Rightarrow> 'a list \<Rightarrow> nat + nat"
  assumes found: "sorted (map f xs) \<Longrightarrow> search f x xs = Inl i \<Longrightarrow> i < length xs \<and> f (xs ! i) = x"
    and missing: "sorted (map f xs) \<Longrightarrow> search f x xs = Inr i \<Longrightarrow> i \<le> length xs \<and>
      (\<forall>j < i. f (xs ! j) < x) \<and> (\<forall>j. i \<le> j \<longrightarrow> j < length xs \<longrightarrow> x < f (xs ! j))"
begin

lemma missing_split:
  assumes "sorted (map f xs)" and "search f x xs = Inr i"
  shows "take i xs = filter (\<lambda>v. f v \<le> x) xs \<and> drop i xs = filter (\<lambda>v. x < f v) xs"
  using missing [OF assms] by (intro sorted_split_filter [OF assms(1)]) auto

text \<open>Skipping the equal keys behind a hit reaches the upper bound.\<close>

lemma found_split:
  assumes sorted: "sorted (map f xs)" and "search f x xs = Inl i"
  shows "take (i + 1 + length (takeWhile (\<lambda>v. f v = x) (drop (i + 1) xs))) xs = filter (\<lambda>v. f v \<le> x) xs \<and>
    drop (i + 1 + length (takeWhile (\<lambda>v. f v = x) (drop (i + 1) xs))) xs = filter (\<lambda>v. x < f v) xs"
proof -
  let ?l = "length (takeWhile (\<lambda>v. f v = x) (drop (i + 1) xs))"
  let ?n = "i + 1 + ?l"
  from found [OF assms] have i: "i < length xs" "f (xs ! i) = x" by auto
  have mono: "f (xs ! a) \<le> f (xs ! b)" if "a \<le> b" "b < length xs" for a b
    using sorted_nth_mono [OF sorted, of a b] that by simp
  have l: "?l \<le> length xs - (i + 1)" using length_takeWhile_le [of _ "drop (i + 1) xs"] by simp
  then have n: "?n \<le> length xs" using i(1) by simp
  have eq: "f (xs ! j) = x" if "i + 1 \<le> j" "j < ?n" for j
  proof -
    have "j - (i + 1) < ?l" using that by simp
    then have "drop (i + 1) xs ! (j - (i + 1)) \<in> set (takeWhile (\<lambda>v. f v = x) (drop (i + 1) xs))"
      by (metis nth_mem takeWhile_nth)
    then have "f (drop (i + 1) xs ! (j - (i + 1))) = x" by (blast dest: set_takeWhileD)
    then show ?thesis using that i(1) by (simp add: less_imp_le_nat)
  qed
  have "f (xs ! j) \<le> x" if "j < ?n" for j
  proof (cases "j \<le> i")
    case True
    then show ?thesis using mono [OF True i(1)] i(2) by simp
  next
    case False
    then show ?thesis using eq [of j] that by simp
  qed
  moreover have "x < f (xs ! j)" if "?n \<le> j" "j < length xs" for j
  proof -
    have "?l < length (drop (i + 1) xs)" using that by simp
    then have "f (drop (i + 1) xs ! ?l) \<noteq> x" by (rule nth_length_takeWhile)
    then have "f (xs ! ?n) \<noteq> x" using that i(1) by simp
    moreover have "x \<le> f (xs ! ?n)" using mono [of i ?n] i(2) that by simp
    ultimately show ?thesis using mono [of ?n j] that by (simp add: less_le_trans)
  qed
  ultimately show ?thesis using n by (intro sorted_split_filter [OF sorted]) auto
qed

end

lemma bs_loop_inv:
  "sorted (map f xs) \<Longrightarrow> 1 \<le> sz \<Longrightarrow> base + sz \<le> length xs \<Longrightarrow> (0 < base \<longrightarrow> f (xs ! base) \<le> x) \<Longrightarrow>
   (\<forall>j. base + sz \<le> j \<longrightarrow> j < length xs \<longrightarrow> x < f (xs ! j)) \<Longrightarrow>
   bs_loop f x xs base sz < length xs \<and>
   (0 < bs_loop f x xs base sz \<longrightarrow> f (xs ! bs_loop f x xs base sz) \<le> x) \<and>
   (\<forall>j. Suc (bs_loop f x xs base sz) \<le> j \<longrightarrow> j < length xs \<longrightarrow> x < f (xs ! j))"
proof (induction f x xs base sz rule: bs_loop.induct)
  case (1 f x xs base sz)
  show ?case
  proof (cases "sz \<le> 1")
    case True
    then have eq: "bs_loop f x xs base sz = base" by (simp add: bs_loop.simps [of f x xs base sz])
    from True 1(3) have "sz = 1" by simp
    with 1(4-6) show ?thesis unfolding eq by auto
  next
    case False
    let ?mid = "base + sz div 2"
    let ?base = "if f (xs ! ?mid) > x then base else ?mid"
    have mid: "?mid < length xs" using False 1(4) by simp
    have eq: "bs_loop f x xs base sz = bs_loop f x xs ?base (sz - sz div 2)"
      using False by (simp add: bs_loop.simps [of f x xs base sz] Let_def)
    have "x < f (xs ! j)" if "?base + (sz - sz div 2) \<le> j" "j < length xs" for j
    proof (cases "f (xs ! ?mid) > x")
      case True
      have "?mid \<le> j" using that(1) True by simp
      then have "f (xs ! ?mid) \<le> f (xs ! j)" using sorted_nth_mono [OF 1(2), of ?mid j] that(2) by simp
      with True show ?thesis by (rule less_le_trans)
    next
      case False
      with that 1(6) show ?thesis by simp
    qed
    moreover have "?base + (sz - sz div 2) \<le> length xs" "0 < ?base \<longrightarrow> f (xs ! ?base) \<le> x" "1 \<le> sz - sz div 2"
      using 1(4,5) False by (auto simp: not_less)
    ultimately show ?thesis unfolding eq
      by (intro 1(1) [OF False refl refl 1(2)]) blast+
  qed
qed

interpretation bs: search_contract binary_search_by_key
proof
  fix f :: "'a \<Rightarrow> 'b::linorder" and xs x i
  assume "sorted (map f xs)" "binary_search_by_key f x xs = Inl i"
  then show "i < length xs \<and> f (xs ! i) = x"
    using bs_loop_inv [of f xs "length xs" 0 x]
    by (auto simp: binary_search_by_key_def Let_def Suc_le_eq split: if_splits)
next
  fix f :: "'a \<Rightarrow> 'b::linorder" and xs x i
  assume s: "sorted (map f xs)" and r: "binary_search_by_key f x xs = Inr i"
  show "i \<le> length xs \<and> (\<forall>j < i. f (xs ! j) < x) \<and> (\<forall>j. i \<le> j \<longrightarrow> j < length xs \<longrightarrow> x < f (xs ! j))"
  proof (cases "xs = []")
    case True
    with r show ?thesis by (simp add: binary_search_by_key_def)
  next
    case False
    let ?b = "bs_loop f x xs 0 (length xs)"
    have b: "?b < length xs" "0 < ?b \<longrightarrow> f (xs ! ?b) \<le> x" "\<forall>j. Suc ?b \<le> j \<longrightarrow> j < length xs \<longrightarrow> x < f (xs ! j)"
      using bs_loop_inv [OF s, of "length xs" 0 x] False by (auto simp: Suc_le_eq)
    have mono: "f (xs ! a) \<le> f (xs ! c)" if "a \<le> c" "c < length xs" for a c
      using sorted_nth_mono [OF s, of a c] that by simp
    from r False have ne: "f (xs ! ?b) \<noteq> x" and i: "i = (if f (xs ! ?b) < x then ?b + 1 else ?b)"
      by (auto simp: binary_search_by_key_def Let_def split: if_splits)
    show ?thesis
    proof (cases "f (xs ! ?b) < x")
      case True
      have "f (xs ! j) < x" if "j < i" for j
      proof -
        have "j \<le> ?b" using that True i by simp
        from mono [OF this b(1)] True show ?thesis by (rule le_less_trans)
      qed
      moreover have "i = Suc ?b" using i True by simp
      ultimately show ?thesis using b(1,3) by simp
    next
      case False
      then have lt: "x < f (xs ! ?b)" using ne by (meson linorder_less_linear)
      then have zero: "?b = 0" using b(2) by (meson leD neq0_conv)
      have "x < f (xs ! j)" if "j < length xs" for j
      proof -
        have "f (xs ! ?b) \<le> f (xs ! j)" using mono [OF _ that, of ?b] zero by simp
        with lt show ?thesis by (rule less_le_trans)
      qed
      moreover have "i = 0" using i False zero by simp
      ultimately show ?thesis by simp
    qed
  qed
qed

end
