(* ===== verification/SeqLog.thy ===== *)
theory SeqLog
  imports Prelude
begin

text \<open>
  The versioned sequence log, \<open>crates/contextra-mvcc/src/seq_log.rs\<close>.

  A log keeps one entry per document version with the sequence number that inserted it and
  the one that deleted it, the pinned snapshots with the times of their pins, and the deletion
  sequence of each document that is deleted now. The clock is a parameter: an operation of the
  source that reads it takes the nanoseconds read as an argument.
\<close>

section \<open>State and operations\<close>

record seq_log_entry =
  e_doc_id :: u64
  e_insert_seq :: u64
  e_delete_seq :: "u64 option"

definition entry_is_visible :: "seq_log_entry \<Rightarrow> u64 \<Rightarrow> bool" where
  "entry_is_visible e as_of =
     (let as_of = mask_seq as_of;
          insert_seq = mask_seq (e_insert_seq e);
          delete_seq = map_option mask_seq (e_delete_seq e)
      in insert_seq \<le> as_of \<and> (case delete_seq of None \<Rightarrow> True | Some del \<Rightarrow> del > as_of))"

datatype seq_log_change = SL_Insert u64 u64 | SL_Delete u64 u64

fun change_seq :: "seq_log_change \<Rightarrow> u64" where
  "change_seq (SL_Insert doc seq) = seq"
| "change_seq (SL_Delete doc seq) = seq"

fun change_doc_id :: "seq_log_change \<Rightarrow> u64" where
  "change_doc_id (SL_Insert doc seq) = doc"
| "change_doc_id (SL_Delete doc seq) = doc"

record sequence_log =
  sl_entries :: "seq_log_entry list"
  sl_pinned :: "(u64 \<times> u64 list) list"
  sl_compacted_below :: "u64 option"
  sl_deletions :: "(u64 \<times> u64) list"
  sl_max_pin_duration :: nat

definition DEFAULT_MAX_PIN_DURATION :: nat where
  "DEFAULT_MAX_PIN_DURATION = 300000000000"

definition sequence_log_new :: sequence_log where
  "sequence_log_new =
     \<lparr>sl_entries = [], sl_pinned = [], sl_compacted_below = None, sl_deletions = [],
      sl_max_pin_duration = DEFAULT_MAX_PIN_DURATION\<rparr>"

definition set_max_pin_duration :: "sequence_log \<Rightarrow> nat \<Rightarrow> sequence_log" where
  "set_max_pin_duration l d = l\<lparr>sl_max_pin_duration := d\<rparr>"

definition pin_snapshot_at :: "sequence_log \<Rightarrow> u64 \<Rightarrow> u64 \<Rightarrow> sequence_log" where
  "pin_snapshot_at l seq_no at_nanos =
     (let seq_no = mask_seq seq_no;
          timestamps = (case map_of (sl_pinned l) seq_no of None \<Rightarrow> [] | Some ts \<Rightarrow> ts)
      in l\<lparr>sl_pinned := AList.update seq_no (timestamps @ [at_nanos]) (sl_pinned l)\<rparr>)"

definition unpin_snapshot :: "sequence_log \<Rightarrow> u64 \<Rightarrow> sequence_log" where
  "unpin_snapshot l seq_no =
     (let seq_no = mask_seq seq_no
      in case map_of (sl_pinned l) seq_no of
           None \<Rightarrow> l
         | Some timestamps \<Rightarrow>
             (if butlast timestamps = []
              then l\<lparr>sl_pinned := AList.delete seq_no (sl_pinned l)\<rparr>
              else l\<lparr>sl_pinned := AList.update seq_no (butlast timestamps) (sl_pinned l)\<rparr>))"

definition expired_pins_at :: "sequence_log \<Rightarrow> u64 \<Rightarrow> u64 list" where
  "expired_pins_at l now_nanos =
     (let max_nanos = clamp_u64 (sl_max_pin_duration l)
      in sort (map fst (filter (\<lambda>(seq_no, timestamps).
           list_ex (\<lambda>ts. saturating_sub now_nanos ts > max_nanos) timestamps) (sl_pinned l))))"

definition reap_expired_pins_at :: "sequence_log \<Rightarrow> u64 \<Rightarrow> sequence_log \<times> u64 list" where
  "reap_expired_pins_at l now_nanos =
     (let expired = expired_pins_at l now_nanos
      in (foldl unpin_snapshot l expired, expired))"

definition min_retention_seq :: "sequence_log \<Rightarrow> u64 option" where
  "min_retention_seq l = iter_min (map fst (sl_pinned l))"

definition deletion_seq :: "sequence_log \<Rightarrow> u64 \<Rightarrow> u64 option" where
  "deletion_seq l doc_id = map_of (sl_deletions l) doc_id"

abbreviation live_entry :: "u64 \<Rightarrow> seq_log_entry \<Rightarrow> bool" where
  "live_entry doc_id e \<equiv> e_doc_id e = doc_id \<and> e_delete_seq e = None"

definition record_insert :: "sequence_log \<Rightarrow> u64 \<Rightarrow> u64 \<Rightarrow> sequence_log" where
  "record_insert l doc_id seq =
     (let seq = mask_seq seq;
          closed = update_last (live_entry doc_id) (\<lambda>e. e\<lparr>e_delete_seq := Some seq\<rparr>) (sl_entries l)
      in l\<lparr>sl_entries := closed @
             [\<lparr>e_doc_id = doc_id, e_insert_seq = seq, e_delete_seq = None\<rparr>],
           sl_deletions := AList.delete doc_id (sl_deletions l)\<rparr>)"

definition record_delete :: "sequence_log \<Rightarrow> u64 \<Rightarrow> u64 \<Rightarrow> sequence_log" where
  "record_delete l doc_id seq =
     (let seq = mask_seq seq
      in if list_ex (live_entry doc_id) (sl_entries l)
         then l\<lparr>sl_entries := update_last (live_entry doc_id)
                  (\<lambda>e. e\<lparr>e_delete_seq := Some seq\<rparr>) (sl_entries l),
                sl_deletions := AList.update doc_id seq (sl_deletions l)\<rparr>
         else l)"

definition visible_step :: "u64 \<Rightarrow> u64 \<Rightarrow> bool \<times> bool \<Rightarrow> seq_log_entry \<Rightarrow> bool \<times> bool" where
  "visible_step doc_id seq_no st e =
     (let insert_seq = mask_seq (e_insert_seq e)
      in if e_doc_id e = doc_id \<and> insert_seq \<le> seq_no
         then (True, (case e_delete_seq e of
                        Some del \<Rightarrow> mask_seq del \<le> seq_no
                      | None \<Rightarrow> False))
         else st)"

definition is_visible :: "sequence_log \<Rightarrow> u64 \<Rightarrow> u64 \<Rightarrow> bool" where
  "is_visible l doc_id seq_no =
     (let seq_no = mask_seq seq_no;
          (inserted, deleted) = foldl (visible_step doc_id seq_no) (False, False) (sl_entries l)
      in inserted \<and> \<not> deleted)"

definition seq_log_compact :: "sequence_log \<Rightarrow> u64 \<Rightarrow> sequence_log" where
  "seq_log_compact l min_active_seqno =
     (let m = mask_seq min_active_seqno
      in l\<lparr>sl_compacted_below :=
             Some (case sl_compacted_below l of None \<Rightarrow> m | Some c \<Rightarrow> max c m),
           sl_entries := filter (\<lambda>e. case e_delete_seq e of
               Some del \<Rightarrow> mask_seq del \<ge> m
             | None \<Rightarrow> True) (sl_entries l),
           sl_deletions := filter (\<lambda>(_, del). mask_seq del \<ge> m) (sl_deletions l)\<rparr>)"

definition entry_changes :: "u64 \<Rightarrow> seq_log_entry \<Rightarrow> seq_log_change list" where
  "entry_changes snapshot_seq e =
     (if mask_seq (e_insert_seq e) > snapshot_seq
      then [SL_Insert (e_doc_id e) (mask_seq (e_insert_seq e))] else []) @
     (case e_delete_seq e of
        Some del \<Rightarrow> if mask_seq del > snapshot_seq then [SL_Delete (e_doc_id e) (mask_seq del)] else []
      | None \<Rightarrow> [])"

definition changes_since :: "sequence_log \<Rightarrow> u64 \<Rightarrow> seq_log_change list" where
  "changes_since l snapshot_seq =
     sort_key change_seq (concat (map (entry_changes (mask_seq snapshot_seq)) (sl_entries l)))"

definition seq_log_len :: "sequence_log \<Rightarrow> nat" where
  "seq_log_len l = length (sl_entries l)"

definition seq_log_is_empty :: "sequence_log \<Rightarrow> bool" where
  "seq_log_is_empty l = (sl_entries l = [])"

section \<open>Well-formed logs\<close>

text \<open>
  The versions of one document form a chain: each but the last is closed, and it is closed no
  later than the next one is inserted. \<open>log_wf l q\<close> says so of every document of \<open>l\<close>, that no
  sequence number stored is above \<open>q\<close> or carries the tombstone bit, and that \<open>deletions\<close>
  records for each document how its last version ended.
\<close>

definition doc_entries :: "u64 \<Rightarrow> seq_log_entry list \<Rightarrow> seq_log_entry list" where
  "doc_entries d es = filter (\<lambda>e. e_doc_id e = d) es"

definition entry_ok :: "u64 \<Rightarrow> seq_log_entry \<Rightarrow> bool" where
  "entry_ok q e \<longleftrightarrow>
     mask_seq (e_insert_seq e) = e_insert_seq e \<and> e_insert_seq e \<le> q \<and>
     (case e_delete_seq e of None \<Rightarrow> True
      | Some x \<Rightarrow> mask_seq x = x \<and> e_insert_seq e \<le> x \<and> x \<le> q)"

definition closed_before :: "seq_log_entry \<Rightarrow> seq_log_entry \<Rightarrow> bool" where
  "closed_before e e' \<longleftrightarrow> (\<exists>x. e_delete_seq e = Some x \<and> x \<le> e_insert_seq e')"

definition last_deletion :: "seq_log_entry list \<Rightarrow> u64 option" where
  "last_deletion es = (if es = [] then None else e_delete_seq (last es))"

definition log_wf :: "sequence_log \<Rightarrow> u64 \<Rightarrow> bool" where
  "log_wf l q \<longleftrightarrow>
     (\<forall>e \<in> set (sl_entries l). entry_ok q e) \<and>
     (\<forall>d. sorted_wrt closed_before (doc_entries d (sl_entries l))) \<and>
     (\<forall>d. map_of (sl_deletions l) d = last_deletion (doc_entries d (sl_entries l))) \<and>
     hm_wf (sl_deletions l)"

lemma doc_entries_append: "doc_entries d (xs @ ys) = doc_entries d xs @ doc_entries d ys"
  by (simp add: doc_entries_def)

lemma entry_ok_mono: "entry_ok q e \<Longrightarrow> q \<le> q' \<Longrightarrow> entry_ok q' e"
  by (auto simp: entry_ok_def split: option.splits)

lemma log_wf_new: "log_wf sequence_log_new q"
  by (simp add: log_wf_def sequence_log_new_def doc_entries_def last_deletion_def)

lemma set_doc_entries: "e \<in> set (doc_entries d es) \<longleftrightarrow> e \<in> set es \<and> e_doc_id e = d"
  by (auto simp: doc_entries_def)

text \<open>In a chain only the last version can be open.\<close>

lemma chain_open_last:
  assumes "sorted_wrt closed_before es" and "\<forall>e \<in> set es. e_doc_id e = d"
  shows "update_last (live_entry d) f es =
           (if es \<noteq> [] \<and> e_delete_seq (last es) = None then butlast es @ [f (last es)] else es)"
proof (cases es rule: rev_cases)
  case Nil
  then show ?thesis by simp
next
  case (snoc ys y)
  with assms have "\<forall>e \<in> set ys. e_delete_seq e \<noteq> None"
    by (auto simp: sorted_wrt_append closed_before_def)
  then have "\<not> list_ex (live_entry d) ys"
    by (auto simp: list_ex_iff)
  with snoc assms(2) show ?thesis
    by (simp add: update_last_snoc update_last_none)
qed

lemma doc_entries_close:
  "doc_entries d' (update_last (live_entry d) (\<lambda>e. e\<lparr>e_delete_seq := x\<rparr>) es) =
     (if d' = d then update_last (live_entry d) (\<lambda>e. e\<lparr>e_delete_seq := x\<rparr>) (doc_entries d es)
      else doc_entries d' es)"
  unfolding doc_entries_def
  by (cases "d' = d") (auto intro!: filter_update_last_same filter_update_last_other)

lemma entry_ok_close:
  assumes "\<forall>e \<in> set es. entry_ok q e" and "q \<le> s" and "mask_seq s = s"
  shows "\<forall>e \<in> set (update_last (live_entry d) (\<lambda>e. e\<lparr>e_delete_seq := Some s\<rparr>) es). entry_ok s e"
proof
  fix e
  assume "e \<in> set (update_last (live_entry d) (\<lambda>e. e\<lparr>e_delete_seq := Some s\<rparr>) es)"
  then consider "e \<in> set es"
    | e' where "e' \<in> set es" "live_entry d e'" "e = e'\<lparr>e_delete_seq := Some s\<rparr>"
    using set_update_last [of "live_entry d" "\<lambda>e. e\<lparr>e_delete_seq := Some s\<rparr>" es] by blast
  then show "entry_ok s e"
  proof cases
    case 1
    with assms show ?thesis by (auto intro: entry_ok_mono)
  next
    case 2
    with assms show ?thesis by (auto simp: entry_ok_def intro: order.trans)
  qed
qed

text \<open>Closing the open version of \<open>d\<close> at a sequence number that is not below any stored one.\<close>

lemma chain_close:
  assumes chain: "sorted_wrt closed_before es" and ok: "\<forall>e \<in> set es. entry_ok q e \<and> e_doc_id e = d"
    and "q \<le> s"
  defines "es' \<equiv> update_last (live_entry d) (\<lambda>e. e\<lparr>e_delete_seq := Some s\<rparr>) es"
  shows "sorted_wrt closed_before es'"
    and "es' = [] \<longleftrightarrow> es = []"
    and "\<forall>e \<in> set es'. \<exists>x. e_delete_seq e = Some x \<and> x \<le> s"
    and "es \<noteq> [] \<Longrightarrow> e_delete_seq (last es') =
           (case e_delete_seq (last es) of None \<Rightarrow> Some s | Some x \<Rightarrow> Some x)"
proof -
  have eq: "es' = (if es \<noteq> [] \<and> e_delete_seq (last es) = None
      then butlast es @ [(last es)\<lparr>e_delete_seq := Some s\<rparr>] else es)"
    unfolding es'_def using ok by (intro chain_open_last [OF chain]) auto
  show "sorted_wrt closed_before es'"
    using chain unfolding eq
    by (cases es rule: rev_cases) (auto simp: sorted_wrt_append closed_before_def)
  show "es' = [] \<longleftrightarrow> es = []"
    unfolding eq by auto
  show "es \<noteq> [] \<Longrightarrow> e_delete_seq (last es') =
      (case e_delete_seq (last es) of None \<Rightarrow> Some s | Some x \<Rightarrow> Some x)"
    unfolding eq by (auto split: option.splits)
  show "\<forall>e \<in> set es'. \<exists>x. e_delete_seq e = Some x \<and> x \<le> s"
  proof (cases es rule: rev_cases)
    case Nil
    then show ?thesis unfolding eq by simp
  next
    case (snoc ys y)
    have "\<exists>x. e_delete_seq e = Some x \<and> x \<le> s" if "e \<in> set ys" for e
    proof -
      from chain snoc that have "closed_before e y" by (auto simp: sorted_wrt_append)
      moreover from ok snoc have "e_insert_seq y \<le> q" by (auto simp: entry_ok_def)
      ultimately show ?thesis
        using \<open>q \<le> s\<close> by (auto simp: closed_before_def intro: order.trans)
    qed
    with snoc ok \<open>q \<le> s\<close> show ?thesis
      unfolding eq by (auto simp: entry_ok_def split: option.splits intro: order.trans)
  qed
qed

lemma log_wf_doc:
  assumes "log_wf l q"
  shows "sorted_wrt closed_before (doc_entries d (sl_entries l))"
    and "\<forall>e \<in> set (doc_entries d (sl_entries l)). entry_ok q e \<and> e_doc_id e = d"
    and "map_of (sl_deletions l) d = last_deletion (doc_entries d (sl_entries l))"
  using assms by (auto simp: log_wf_def set_doc_entries)

lemma record_insert_wf:
  assumes wf: "log_wf l q" and "q \<le> mask_seq seq"
  shows "log_wf (record_insert l d seq) (mask_seq seq)"
proof -
  let ?s = "mask_seq seq"
  let ?new = "\<lparr>e_doc_id = d, e_insert_seq = ?s, e_delete_seq = None\<rparr>"
  let ?closed = "update_last (live_entry d) (\<lambda>e. e\<lparr>e_delete_seq := Some ?s\<rparr>) (sl_entries l)"
  note doc = log_wf_doc [OF wf]
  have entries: "sl_entries (record_insert l d seq) = ?closed @ [?new]"
    and dels: "sl_deletions (record_insert l d seq) = AList.delete d (sl_deletions l)"
    by (simp_all add: record_insert_def Let_def)
  have ok: "\<forall>e \<in> set (?closed @ [?new]). entry_ok ?s e"
    using entry_ok_close [of "sl_entries l" q ?s d] wf assms(2)
    by (auto simp: log_wf_def entry_ok_def)
  have chain: "sorted_wrt closed_before (doc_entries d' (?closed @ [?new]))" for d'
    using chain_close [OF doc(1) doc(2) assms(2), of d] doc(1) [of d']
    by (auto simp: doc_entries_append doc_entries_close sorted_wrt_append closed_before_def)
      (auto simp: doc_entries_def)
  have "map_of (AList.delete d (sl_deletions l)) d' =
      last_deletion (doc_entries d' (?closed @ [?new]))" for d'
    using doc(3) [of d']
    by (auto simp: doc_entries_append doc_entries_close map_simps last_deletion_def)
      (auto simp: doc_entries_def)
  with ok chain wf show ?thesis
    by (auto simp: log_wf_def entries dels)
qed

lemma record_delete_wf:
  assumes wf: "log_wf l q" and "q \<le> mask_seq seq"
  shows "log_wf (record_delete l d seq) (mask_seq seq)"
proof (cases "list_ex (live_entry d) (sl_entries l)")
  case False
  with wf \<open>q \<le> mask_seq seq\<close> show ?thesis
    by (auto simp: record_delete_def log_wf_def intro: entry_ok_mono)
next
  case True
  let ?s = "mask_seq seq"
  let ?closed = "update_last (live_entry d) (\<lambda>e. e\<lparr>e_delete_seq := Some ?s\<rparr>) (sl_entries l)"
  note doc = log_wf_doc [OF wf]
  have entries: "sl_entries (record_delete l d seq) = ?closed"
    and dels: "sl_deletions (record_delete l d seq) = AList.update d ?s (sl_deletions l)"
    using True by (simp_all add: record_delete_def Let_def)
  have ok: "\<forall>e \<in> set ?closed. entry_ok ?s e"
    using entry_ok_close [of "sl_entries l" q ?s d] wf assms(2) by (auto simp: log_wf_def)
  note close = chain_close [OF doc(1) doc(2) assms(2), of d]
  have chain: "sorted_wrt closed_before (doc_entries d' ?closed)" for d'
    using close(1) doc(1) [of d'] by (auto simp: doc_entries_close)
  have open_last: "doc_entries d (sl_entries l) \<noteq> []"
      "e_delete_seq (last (doc_entries d (sl_entries l))) = None"
  proof -
    obtain e where e: "e \<in> set (doc_entries d (sl_entries l))" "e_delete_seq e = None"
      using True by (auto simp: list_ex_iff set_doc_entries)
    then obtain ys y where snoc: "doc_entries d (sl_entries l) = ys @ [y]"
      by (cases "doc_entries d (sl_entries l)" rule: rev_cases) auto
    with e doc(1) [of d] show "doc_entries d (sl_entries l) \<noteq> []"
        "e_delete_seq (last (doc_entries d (sl_entries l))) = None"
      by (auto simp: sorted_wrt_append closed_before_def)
  qed
  have "map_of (AList.update d ?s (sl_deletions l)) d' = last_deletion (doc_entries d' ?closed)" for d'
    using doc(3) [of d'] close(2,4) open_last
    by (auto simp: doc_entries_close map_simps last_deletion_def)
  with ok chain wf show ?thesis
    by (auto simp: log_wf_def entries dels)
qed

section \<open>Visibility\<close>

text \<open>\<open>is_visible\<close> scans the whole log and lets the last matching version decide.\<close>

lemma foldl_visible_step:
  "foldl (visible_step d s) st es =
     (let fs = filter (\<lambda>e. e_doc_id e = d \<and> mask_seq (e_insert_seq e) \<le> s) es
      in if fs = [] then st
         else (True, case e_delete_seq (last fs) of Some x \<Rightarrow> mask_seq x \<le> s | None \<Rightarrow> False))"
  by (induction es rule: rev_induct) (auto simp: visible_step_def Let_def)

lemma entry_is_visible_iff:
  "entry_is_visible e s \<longleftrightarrow> mask_seq (e_insert_seq e) \<le> mask_seq s \<and>
     (\<forall>x. e_delete_seq e = Some x \<longrightarrow> mask_seq s < mask_seq x)"
  by (auto simp: entry_is_visible_def Let_def split: option.splits)

text \<open>On a chain this is the same as asking whether any version is visible.\<close>

lemma is_visible_any:
  assumes wf: "log_wf l q"
  shows "is_visible l d s \<longleftrightarrow> (\<exists>e \<in> set (sl_entries l). e_doc_id e = d \<and> entry_is_visible e s)"
proof -
  let ?s = "mask_seq s"
  let ?es = "doc_entries d (sl_entries l)"
  let ?P = "\<lambda>e. e_insert_seq e \<le> ?s"
  note doc = log_wf_doc [OF wf, of d]
  have masked: "mask_seq (e_insert_seq e) = e_insert_seq e"
    if "e \<in> set (sl_entries l)" for e
    using wf that by (auto simp: log_wf_def entry_ok_def)
  have fs: "filter (\<lambda>e. e_doc_id e = d \<and> mask_seq (e_insert_seq e) \<le> ?s) (sl_entries l) = filter ?P ?es"
    unfolding doc_entries_def filter_filter using masked by (auto intro!: filter_cong)
  have vis: "entry_is_visible e s \<longleftrightarrow> ?P e \<and> (\<forall>x. e_delete_seq e = Some x \<longrightarrow> ?s < x)"
    if "e \<in> set ?es" for e
    using doc(2) that by (auto simp: entry_is_visible_iff entry_ok_def split: option.splits)
  have lastv: "(\<exists>e \<in> set ?es. entry_is_visible e s) \<longleftrightarrow>
      filter ?P ?es \<noteq> [] \<and> (\<forall>x. e_delete_seq (last (filter ?P ?es)) = Some x \<longrightarrow> ?s < x)"
  proof (cases "filter ?P ?es" rule: rev_cases)
    case Nil
    with vis show ?thesis by (auto simp: filter_empty_conv)
  next
    case (snoc ys y)
    have y: "y \<in> set ?es" "?P y"
      using arg_cong [OF snoc, of set] by auto
    have "\<not> entry_is_visible e s" if "e \<in> set ys" for e
    proof -
      have e: "e \<in> set ?es" using arg_cong [OF snoc, of set] that by auto
      have "sorted_wrt closed_before (ys @ [y])"
        using sorted_wrt_filter [OF doc(1), of ?P] by (simp add: snoc)
      with that have "closed_before e y" by (auto simp: sorted_wrt_append)
      with vis [OF e] y(2) show ?thesis by (auto simp: closed_before_def)
    qed
    moreover have "e \<in> set ys \<or> e = y" if "e \<in> set ?es" "?P e" for e
      using arg_cong [OF snoc, of set] that by auto
    ultimately have "(\<exists>e \<in> set ?es. entry_is_visible e s) \<longleftrightarrow> entry_is_visible y s"
      using vis y(1) by blast
    with vis [OF y(1)] y(2) snoc show ?thesis by simp
  qed
  have last_masked: "mask_seq x = x"
    if "filter ?P ?es \<noteq> []" "e_delete_seq (last (filter ?P ?es)) = Some x" for x
    using that(2) last_in_set [OF that(1)] doc(2) by (auto simp: entry_ok_def)
  have "is_visible l d s \<longleftrightarrow>
      filter ?P ?es \<noteq> [] \<and> (\<forall>x. e_delete_seq (last (filter ?P ?es)) = Some x \<longrightarrow> ?s < x)"
  proof (cases "filter ?P ?es = []")
    case True
    then show ?thesis by (simp add: is_visible_def foldl_visible_step fs)
  next
    case False
    with last_masked [OF False] show ?thesis
      by (cases "e_delete_seq (last (filter ?P ?es))")
        (simp_all add: is_visible_def foldl_visible_step fs not_le)
  qed
  with lastv show ?thesis by (auto simp: set_doc_entries)
qed

lemma entry_visible_close_iff:
  assumes "e_delete_seq e = None" and "mask_seq s < mask_seq x"
  shows "entry_is_visible (e\<lparr>e_delete_seq := Some x\<rparr>) s = entry_is_visible e s"
  using assms by (simp add: entry_is_visible_iff)

text \<open>Closing a version at \<open>x\<close> changes nothing for a reader below \<open>x\<close>.\<close>

lemma any_visible_close:
  assumes "mask_seq s < mask_seq x"
  shows "(\<exists>e \<in> set (update_last (live_entry d) (\<lambda>e. e\<lparr>e_delete_seq := Some x\<rparr>) es).
             e_doc_id e = d' \<and> entry_is_visible e s) \<longleftrightarrow>
         (\<exists>e \<in> set es. e_doc_id e = d' \<and> entry_is_visible e s)"
  by (induction es) (auto simp: entry_visible_close_iff [OF _ assms])

lemma record_insert_visible:
  assumes "log_wf l q" and "q \<le> mask_seq seq"
  shows "is_visible (record_insert l d seq) d' s =
           (if d' = d \<and> mask_seq seq \<le> mask_seq s then True else is_visible l d' s)"
proof -
  let ?close = "update_last (live_entry d) (\<lambda>e. e\<lparr>e_delete_seq := Some (mask_seq seq)\<rparr>)"
  note any = is_visible_any [OF record_insert_wf [OF assms], of d d' s] is_visible_any [OF assms(1), of d' s]
  have split: "(\<exists>e \<in> set (sl_entries (record_insert l d seq)). e_doc_id e = d' \<and> entry_is_visible e s) \<longleftrightarrow>
      (\<exists>e \<in> set (?close (sl_entries l)). e_doc_id e = d' \<and> entry_is_visible e s)
      \<or> d' = d \<and> mask_seq seq \<le> mask_seq s"
    by (auto simp: record_insert_def Let_def entry_is_visible_iff)
  show ?thesis
  proof (cases "mask_seq seq \<le> mask_seq s")
    case False
    then have "mask_seq s < mask_seq (mask_seq seq)" by simp
    from any_visible_close [OF this] False split any show ?thesis by simp
  next
    case True
    have "d' \<noteq> d \<Longrightarrow> (\<exists>e \<in> set (?close es). e_doc_id e = d' \<and> entry_is_visible e s) \<longleftrightarrow>
        (\<exists>e \<in> set es. e_doc_id e = d' \<and> entry_is_visible e s)" for es
      by (induction es) auto
    with True split any show ?thesis by auto
  qed
qed

lemma record_delete_visible:
  assumes wf: "log_wf l q" and q: "q \<le> mask_seq seq"
  shows "is_visible (record_delete l d seq) d' s =
           (if d' = d \<and> mask_seq seq \<le> mask_seq s then False else is_visible l d' s)"
proof -
  let ?x = "mask_seq seq"
  let ?close = "update_last (live_entry d) (\<lambda>e. e\<lparr>e_delete_seq := Some ?x\<rparr>)"
  note any = is_visible_any [OF record_delete_wf [OF assms], of d d' s] is_visible_any [OF wf, of d' s]
  have entries: "sl_entries (record_delete l d seq) = ?close (sl_entries l)"
    by (simp add: record_delete_def Let_def update_last_none)
  show ?thesis
  proof (cases "?x \<le> mask_seq s")
    case False
    then have "mask_seq s < mask_seq ?x" by simp
    from any_visible_close [OF this] False any show ?thesis by (simp add: entries)
  next
    case True
    have other: "d' \<noteq> d \<Longrightarrow> (\<exists>e \<in> set (?close es). e_doc_id e = d' \<and> entry_is_visible e s) \<longleftrightarrow>
        (\<exists>e \<in> set es. e_doc_id e = d' \<and> entry_is_visible e s)" for es
      by (induction es) auto
    note doc = log_wf_doc [OF wf, of d]
    have "\<not> entry_is_visible e s" if "e \<in> set (?close (sl_entries l))" "e_doc_id e = d" for e
    proof -
      from that have "e \<in> set (doc_entries d (?close (sl_entries l)))"
        by (simp add: set_doc_entries)
      then have "e \<in> set (?close (doc_entries d (sl_entries l)))"
        by (simp add: doc_entries_close)
      with chain_close(3) [OF doc(1,2) q] obtain x where "e_delete_seq e = Some x" "x \<le> ?x"
        by blast
      moreover have "mask_seq x \<le> x" by (rule mask_seq_le)
      ultimately show ?thesis
        using True by (auto simp: entry_is_visible_iff)
    qed
    with True other any entries show ?thesis by auto
  qed
qed

section \<open>Compaction\<close>

lemma seq_log_compact_entries:
  "sl_entries (seq_log_compact l m) =
     filter (\<lambda>e. \<forall>x. e_delete_seq e = Some x \<longrightarrow> mask_seq m \<le> mask_seq x) (sl_entries l)"
  by (auto simp: seq_log_compact_def Let_def intro!: filter_cong split: option.splits)

lemma seq_log_compact_wf:
  assumes wf: "log_wf l q"
  shows "log_wf (seq_log_compact l m) q"
proof -
  let ?keep = "\<lambda>e. \<forall>x. e_delete_seq e = Some x \<longrightarrow> mask_seq m \<le> mask_seq x"
  let ?es = "\<lambda>d. doc_entries d (sl_entries l)"
  have docs: "doc_entries d (filter ?keep (sl_entries l)) = filter ?keep (?es d)" for d
    by (simp add: doc_entries_def conj_commute)
  have last: "map_of (filter (\<lambda>(_, del). mask_seq m \<le> mask_seq del) (sl_deletions l)) d =
      last_deletion (filter ?keep (?es d))" for d
  proof -
    note doc = log_wf_doc [OF wf, of d]
    have hm: "hm_wf (sl_deletions l)" using wf by (simp add: log_wf_def)
    have masked: "mask_seq x = x" if "e \<in> set (?es d)" "e_delete_seq e = Some x" for e x
      using doc(2) that by (auto simp: entry_ok_def)
    show ?thesis
    proof (cases "?es d" rule: rev_cases)
      case Nil
      with doc(3) show ?thesis by (simp add: last_deletion_def map_of_filter_hm [OF hm])
    next
      case (snoc ys y)
      show ?thesis
      proof (cases "?keep y")
        case True
        with snoc doc(3) show ?thesis
          by (auto simp: last_deletion_def map_of_filter_hm [OF hm] split: option.splits)
      next
        case False
        then obtain x where x: "e_delete_seq y = Some x" "mask_seq x < mask_seq m" by auto
        have yok: "mask_seq x = x" "e_insert_seq y \<le> x"
          using doc(2) snoc x by (auto simp: entry_ok_def)
        have "\<not> ?keep e" if "e \<in> set ys" for e
        proof -
          from doc(1) snoc that have "closed_before e y" by (auto simp: sorted_wrt_append)
          then obtain z where "e_delete_seq e = Some z" "z \<le> e_insert_seq y"
            by (auto simp: closed_before_def)
          moreover have "mask_seq z \<le> z" by (rule mask_seq_le)
          ultimately show ?thesis
            using x yok by (auto simp: not_le intro: order.strict_trans1)
        qed
        then have "filter ?keep (?es d) = []"
          using False snoc by (auto simp: filter_empty_conv)
        moreover have "map_of (sl_deletions l) d = Some x"
          using doc(3) snoc x by (simp add: last_deletion_def)
        ultimately show ?thesis
          using x(2) by (simp add: last_deletion_def map_of_filter_hm [OF hm])
      qed
    qed
  qed
  show ?thesis
    unfolding log_wf_def seq_log_compact_entries docs
    using wf last
    by (auto simp: log_wf_def seq_log_compact_def Let_def sorted_wrt_filter intro: hm_wf_filter)
qed

lemma seq_log_compact_visible:
  assumes wf: "log_wf l q" and "mask_seq m \<le> mask_seq s"
  shows "is_visible (seq_log_compact l m) d s = is_visible l d s"
  unfolding is_visible_any [OF seq_log_compact_wf [OF wf]] is_visible_any [OF wf]
    seq_log_compact_entries
  using assms(2) by (auto simp: entry_is_visible_iff split: option.splits)

section \<open>Refinement of the recorded history\<close>

text \<open>
  The contract of the log: a document is visible at \<open>s\<close> when the last operation on it at or
  below \<open>s\<close> was an insertion. The operations arrive with sequence numbers that do not
  decrease (the commit gate of the engine hands them out); \<open>ops_ascending q\<close> says so.
\<close>

datatype log_op = LInsert u64 u64 | LDelete u64 u64 | LCompact u64

fun log_step :: "sequence_log \<Rightarrow> log_op \<Rightarrow> sequence_log" where
  "log_step l (LInsert d s) = record_insert l d s"
| "log_step l (LDelete d s) = record_delete l d s"
| "log_step l (LCompact m) = seq_log_compact l m"

fun ops_ascending :: "u64 \<Rightarrow> log_op list \<Rightarrow> bool" where
  "ops_ascending q [] = True"
| "ops_ascending q (LInsert d s # ops) = (q \<le> mask_seq s \<and> ops_ascending (mask_seq s) ops)"
| "ops_ascending q (LDelete d s # ops) = (q \<le> mask_seq s \<and> ops_ascending (mask_seq s) ops)"
| "ops_ascending q (LCompact m # ops) = ops_ascending q ops"

fun history_step :: "u64 \<Rightarrow> u64 \<Rightarrow> bool \<Rightarrow> log_op \<Rightarrow> bool" where
  "history_step d s v (LInsert d' x) = (if d = d' \<and> mask_seq x \<le> mask_seq s then True else v)"
| "history_step d s v (LDelete d' x) = (if d = d' \<and> mask_seq x \<le> mask_seq s then False else v)"
| "history_step d s v (LCompact m) = v"

definition history_visible :: "log_op list \<Rightarrow> u64 \<Rightarrow> u64 \<Rightarrow> bool" where
  "history_visible ops d s = foldl (history_step d s) False ops"

lemma run_refines:
  assumes "log_wf l q" and "ops_ascending q ops"
    and "\<forall>m. LCompact m \<in> set ops \<longrightarrow> mask_seq m \<le> mask_seq s"
  shows "is_visible (foldl log_step l ops) d s = foldl (history_step d s) (is_visible l d s) ops
    \<and> (\<exists>q'. q \<le> q' \<and> log_wf (foldl log_step l ops) q')"
  using assms
proof (induction ops arbitrary: l q)
  case Nil
  then show ?case by auto
next
  case (Cons a ops)
  show ?case
  proof (cases a)
    case (LInsert d' x)
    with Cons.prems have "q \<le> mask_seq x" by simp
    with LInsert Cons.prems Cons.IH [OF record_insert_wf [OF Cons.prems(1)], of x d']
    show ?thesis
      by (auto simp: record_insert_visible [OF Cons.prems(1)] intro: order.trans)
  next
    case (LDelete d' x)
    with Cons.prems have "q \<le> mask_seq x" by simp
    with LDelete Cons.prems Cons.IH [OF record_delete_wf [OF Cons.prems(1)], of x d']
    show ?thesis
      by (auto simp: record_delete_visible [OF Cons.prems(1)] intro: order.trans)
  next
    case (LCompact m)
    with Cons.prems Cons.IH [OF seq_log_compact_wf [OF Cons.prems(1)], of m]
    show ?thesis
      by (auto simp: seq_log_compact_visible [OF Cons.prems(1)])
  qed
qed

lemma is_visible_new [simp]: "\<not> is_visible sequence_log_new d s"
  by (simp add: is_visible_def sequence_log_new_def)

text \<open>C16: the sequence log refines the history of its operations. After any sequence of insertions,
  deletions and compactions whose sequence numbers do not decrease, a document is visible at a
  snapshot \<open>s\<close> that no compaction was above exactly when the last operation recorded for it
  at or below \<open>s\<close> is an insertion.
\<close>

theorem seq_log_refines_history:
  assumes "ops_ascending 0 ops" and "\<forall>m. LCompact m \<in> set ops \<longrightarrow> mask_seq m \<le> mask_seq s"
  shows "is_visible (foldl log_step sequence_log_new ops) d s = history_visible ops d s"
  using run_refines [OF log_wf_new assms, of d] by (simp add: history_visible_def)

theorem seq_log_refines_history_witness:
  "is_visible (foldl log_step sequence_log_new
     [LInsert 7 1, LDelete 7 4, LCompact 3, LInsert 7 6, LInsert 8 6]) 7 5 = False \<and>
   is_visible (foldl log_step sequence_log_new
     [LInsert 7 1, LDelete 7 4, LCompact 3, LInsert 7 6, LInsert 8 6]) 7 6 = True"
  by (subst (1 2) seq_log_refines_history)
    (auto simp: history_visible_def TOMBSTONE_BIT_def)

section \<open>Replay of changes\<close>

fun apply_change :: "u64 set \<Rightarrow> seq_log_change \<Rightarrow> u64 set" where
  "apply_change V (SL_Insert d s) = insert d V"
| "apply_change V (SL_Delete d s) = V - {d}"

fun is_insert :: "seq_log_change \<Rightarrow> bool" where
  "is_insert (SL_Insert d s) = True"
| "is_insert (SL_Delete d s) = False"

lemma foldl_apply_change:
  "d \<in> foldl apply_change V cs \<longleftrightarrow>
     (let ds = filter (\<lambda>c. change_doc_id c = d) cs
      in if ds = [] then d \<in> V else is_insert (last ds))"
proof (induction cs rule: rev_induct)
  case Nil
  then show ?case by simp
next
  case (snoc c cs)
  then show ?case by (cases c) (auto simp: Let_def)
qed

lemma change_doc_id_entry: "c \<in> set (entry_changes s e) \<Longrightarrow> change_doc_id c = e_doc_id e"
  by (auto simp: entry_changes_def split: option.splits if_splits)

lemma filter_doc_changes:
  "filter (\<lambda>c. change_doc_id c = d) (concat (map (entry_changes s) es)) =
     concat (map (entry_changes s) (doc_entries d es))"
  by (induction es) (auto simp: doc_entries_def filter_empty_conv change_doc_id_entry
      intro!: filter_True dest: change_doc_id_entry)

lemma change_seq_entry:
  "entry_ok q e \<Longrightarrow> c \<in> set (entry_changes s e) \<Longrightarrow>
     e_insert_seq e \<le> change_seq c \<and> (\<forall>x. e_delete_seq e = Some x \<longrightarrow> change_seq c \<le> x)"
  by (auto simp: entry_changes_def entry_ok_def split: option.splits if_splits)

lemma sorted_entry_changes: "entry_ok q e \<Longrightarrow> sorted (map change_seq (entry_changes s e))"
  by (auto simp: entry_changes_def entry_ok_def split: option.splits if_splits)

lemma sorted_doc_changes:
  assumes "sorted_wrt closed_before es" and "\<forall>e \<in> set es. entry_ok q e"
  shows "sorted (map change_seq (concat (map (entry_changes s) es)))"
  using assms
proof (induction es)
  case Nil
  then show ?case by simp
next
  case (Cons e es)
  have "change_seq c \<le> change_seq c'"
    if "c \<in> set (entry_changes s e)" "e' \<in> set es" "c' \<in> set (entry_changes s e')" for c e' c'
  proof -
    from Cons.prems that(2) obtain x where x: "e_delete_seq e = Some x" "x \<le> e_insert_seq e'"
      by (auto simp: closed_before_def)
    have "change_seq c \<le> x"
      using change_seq_entry [OF _ that(1)] Cons.prems(2) x(1) by auto
    also have "\<dots> \<le> e_insert_seq e'" by fact
    also have "\<dots> \<le> change_seq c'"
      using change_seq_entry [OF _ that(3)] Cons.prems(2) that(2) by auto
    finally show ?thesis .
  qed
  with Cons show ?case
    by (auto simp: sorted_append sorted_entry_changes)
qed

lemma last_doc_change:
  assumes "sorted_wrt closed_before es" and "\<forall>e \<in> set es. entry_ok q e" and "q \<le> t"
    and s: "mask_seq s = s" and t: "mask_seq t = t"
  defines "cs \<equiv> concat (map (entry_changes s) es)"
  shows "(if cs = [] then \<exists>e \<in> set es. entry_is_visible e s else is_insert (last cs)) \<longleftrightarrow>
         (\<exists>e \<in> set es. entry_is_visible e t)"
proof (cases es rule: rev_cases)
  case Nil
  then show ?thesis by (simp add: cs_def)
next
  case (snoc ys y)
  have y: "entry_ok q y" using assms(2) snoc by simp
  have closed: "\<exists>x. e_delete_seq e = Some x \<and> x \<le> e_insert_seq y \<and> entry_ok q e" if "e \<in> set ys" for e
    using assms(1,2) snoc that by (auto simp: sorted_wrt_append closed_before_def)
  have "e_insert_seq y \<le> t" using y \<open>q \<le> t\<close> by (auto simp: entry_ok_def)
  then have now: "(\<exists>e \<in> set es. entry_is_visible e t) \<longleftrightarrow> e_delete_seq y = None"
    using closed y \<open>q \<le> t\<close> t
    by (auto simp: snoc entry_is_visible_iff entry_ok_def split: option.splits) fastforce+
  show ?thesis
  proof (cases "s < e_insert_seq y")
    case True
    then have "entry_changes s y \<noteq> []" and "is_insert (last (entry_changes s y)) = (e_delete_seq y = None)"
      using y by (auto simp: entry_changes_def entry_ok_def split: option.splits)
    with now show ?thesis by (simp add: cs_def snoc)
  next
    case False
    then have "entry_changes s e = []" and nv: "\<not> entry_is_visible e s" if "e \<in> set ys" for e
      using closed [OF that] s
      by (auto simp: entry_changes_def entry_is_visible_iff entry_ok_def)
    then have "cs = entry_changes s y"
      by (auto simp: cs_def snoc)
    moreover have "(\<exists>e \<in> set es. entry_is_visible e s) = entry_is_visible y s"
      using nv by (auto simp: snoc)
    ultimately show ?thesis
      using False y s now
      by (auto simp: entry_changes_def entry_is_visible_iff entry_ok_def split: option.splits)
  qed
qed

text \<open>Replaying \<open>changes_since(s)\<close> on the documents visible at \<open>s\<close> gives the documents visible
  now (at any sequence number no operation was above). This is what an index that fell behind
  relies on when it catches up; in particular a document deleted and inserted again at the same
  sequence number ends up visible, because the sort is stable.
\<close>

theorem changes_since_replay:
  assumes wf: "log_wf l q" and "q \<le> mask_seq t"
  shows "foldl apply_change {d. is_visible l d s} (changes_since l s) = {d. is_visible l d t}"
proof -
  have "d \<in> foldl apply_change {d. is_visible l d s} (changes_since l s) \<longleftrightarrow> is_visible l d t" for d
  proof -
    let ?es = "doc_entries d (sl_entries l)"
    let ?cs = "concat (map (entry_changes (mask_seq s)) ?es)"
    note doc = log_wf_doc [OF wf, of d]
    have ok: "\<forall>e \<in> set ?es. entry_ok q e" using doc(2) by blast
    have mine: "filter (\<lambda>c. change_doc_id c = d) (changes_since l s) = ?cs"
      by (simp add: changes_since_def filter_sort filter_doc_changes
          sort_key_id_if_sorted [OF sorted_doc_changes [OF doc(1) ok]])
    have vis: "is_visible l d u = (\<exists>e \<in> set ?es. entry_is_visible e (mask_seq u))" for u
      by (auto simp: is_visible_any [OF wf] set_doc_entries entry_is_visible_iff)
    show ?thesis
      unfolding foldl_apply_change mine vis Let_def mem_Collect_eq
      using last_doc_change [OF doc(1) ok assms(2), of "mask_seq s"] by simp
  qed
  then show ?thesis by blast
qed

theorem changes_since_replay_witness:
  "let l = record_insert (record_delete (record_insert sequence_log_new 7 1) 7 4) 9 6
   in foldl apply_change {d. is_visible l d 2} (changes_since l 2) = {d. is_visible l d 6}"
proof -
  have "log_wf (record_insert (record_delete (record_insert sequence_log_new 7 1) 7 4) 9 6) (mask_seq 6)"
    by (rule record_insert_wf, rule record_delete_wf, rule record_insert_wf, rule log_wf_new [of 0])
      (simp_all add: TOMBSTONE_BIT_def)
  then show ?thesis
    unfolding Let_def by (rule changes_since_replay) simp
qed

section \<open>Pinned snapshots\<close>

definition pins_ok :: "sequence_log \<Rightarrow> bool" where
  "pins_ok l \<longleftrightarrow> hm_wf (sl_pinned l) \<and>
     (\<forall>e \<in> set (sl_pinned l). mask_seq (fst e) = fst e \<and> snd e \<noteq> [])"

lemma pins_ok_new: "pins_ok sequence_log_new"
  by (simp add: pins_ok_def sequence_log_new_def)

lemma pins_ok_pin: "pins_ok l \<Longrightarrow> pins_ok (pin_snapshot_at l s t)"
  by (auto simp: pins_ok_def pin_snapshot_at_def Let_def hm.set_insert)

lemma pins_ok_unpin: "pins_ok l \<Longrightarrow> pins_ok (unpin_snapshot l s)"
  by (auto simp: pins_ok_def unpin_snapshot_def Let_def hm.set_insert hm.set_remove
      split: option.splits)

lemma pins_ok_foldl_unpin: "pins_ok l \<Longrightarrow> pins_ok (foldl unpin_snapshot l xs)"
  by (induction xs arbitrary: l) (auto intro: pins_ok_unpin)

lemma pinned_pin:
  "map_of (sl_pinned (pin_snapshot_at l s t)) k =
     (if k = mask_seq s
      then Some ((case map_of (sl_pinned l) k of None \<Rightarrow> [] | Some ts \<Rightarrow> ts) @ [t])
      else map_of (sl_pinned l) k)"
  by (simp add: pin_snapshot_at_def Let_def map_simps)

lemma log_wf_pin [simp]: "log_wf (pin_snapshot_at l s t) q = log_wf l q"
  by (simp add: log_wf_def pin_snapshot_at_def Let_def)

definition pop_pin :: "u64 list option \<Rightarrow> u64 list option" where
  "pop_pin ts = (case ts of None \<Rightarrow> None
     | Some ts \<Rightarrow> if butlast ts = [] then None else Some (butlast ts))"

lemma pinned_unpin:
  "map_of (sl_pinned (unpin_snapshot l s)) k =
     (if k = mask_seq s then pop_pin (map_of (sl_pinned l) k) else map_of (sl_pinned l) k)"
  by (auto simp: unpin_snapshot_def Let_def map_simps pop_pin_def split: option.splits)

lemma pinned_foldl_unpin:
  assumes "distinct xs" and "\<forall>x \<in> set xs. mask_seq x = x"
  shows "map_of (sl_pinned (foldl unpin_snapshot l xs)) k =
     (if k \<in> set xs then pop_pin (map_of (sl_pinned l) k) else map_of (sl_pinned l) k)"
  using assms by (induction xs arbitrary: l) (auto simp: pinned_unpin)

lemma max_pin_unpin [simp]: "sl_max_pin_duration (unpin_snapshot l s) = sl_max_pin_duration l"
  by (simp add: unpin_snapshot_def Let_def split: option.splits)

lemma max_pin_foldl_unpin [simp]:
  "sl_max_pin_duration (foldl unpin_snapshot l xs) = sl_max_pin_duration l"
  by (induction xs arbitrary: l) auto

lemma expired_pins_iff:
  assumes "pins_ok l"
  shows "s \<in> set (expired_pins_at l now) \<longleftrightarrow>
     (\<exists>ts. map_of (sl_pinned l) s = Some ts \<and>
        (\<exists>t \<in> set ts. saturating_sub now t > clamp_u64 (sl_max_pin_duration l)))"
proof -
  have "hm_wf (sl_pinned l)" using assms by (simp add: pins_ok_def)
  then show ?thesis
    by (force simp: expired_pins_at_def Let_def list_ex_iff hm_wf_lookup)
qed

lemma expired_pins_distinct:
  assumes "pins_ok l"
  shows "distinct (expired_pins_at l now)" and "\<forall>x \<in> set (expired_pins_at l now). mask_seq x = x"
  using assms
  by (auto simp: expired_pins_at_def Let_def pins_ok_def hm_wf_def distinct_map_filter)

text \<open>Unpinning undoes pinning: the map of pins is as before.\<close>

lemma unpin_pin: "pins_ok l \<Longrightarrow>
    map_of (sl_pinned (unpin_snapshot (pin_snapshot_at l s t) s)) = map_of (sl_pinned l)"
  by (rule ext)
    (auto simp: pinned_unpin pinned_pin pop_pin_def pins_ok_def split: option.splits dest!: map_of_SomeD)

text \<open>A pinned snapshot stays readable through compaction at the retention floor. Compacting a
  log at \<open>min_retention_seq\<close> changes no answer of \<open>is_visible\<close> at any pinned sequence number,
  whatever else is pinned.
\<close>

theorem compaction_keeps_pinned:
  assumes "log_wf l q" and "pins_ok l" and "s \<in> dom (map_of (sl_pinned l))"
    and "min_retention_seq l = Some m"
  shows "is_visible (seq_log_compact l m) d s = is_visible l d s"
proof (rule seq_log_compact_visible [OF assms(1)])
  from assms(3) have "s \<in> fst ` set (sl_pinned l)" by (simp add: dom_map_of_conv_image_fst)
  with assms(4) have "m \<le> s" and m: "m \<in> fst ` set (sl_pinned l)"
    by (auto simp: min_retention_seq_def iter_min_Some)
  moreover from assms(2) m \<open>s \<in> fst ` set (sl_pinned l)\<close> have "mask_seq m = m" "mask_seq s = s"
    by (auto simp: pins_ok_def)
  ultimately show "mask_seq m \<le> mask_seq s" by simp
qed

theorem compaction_keeps_pinned_witness:
  "let l = pin_snapshot_at (pin_snapshot_at
             (record_delete (record_insert sequence_log_new 7 1) 7 4) 3 100) 9 200
   in min_retention_seq l = Some 3 \<and>
      is_visible (seq_log_compact l 3) 7 3 = is_visible l 7 3 \<and> is_visible l 7 3"
proof -
  let ?base = "record_delete (record_insert sequence_log_new 7 1) 7 4"
  let ?l = "pin_snapshot_at (pin_snapshot_at ?base 3 100) 9 200"
  have "log_wf ?base (mask_seq 4)"
    by (rule record_delete_wf, rule record_insert_wf, rule log_wf_new [of 0])
      (simp_all add: TOMBSTONE_BIT_def)
  then have wf: "log_wf ?l (mask_seq 4)"
    by (simp only: log_wf_pin)
  have pins: "sl_pinned ?l = [(3, [100]), (9, [200])]"
    by (simp add: pin_snapshot_at_def record_delete_def record_insert_def sequence_log_new_def
        Let_def TOMBSTONE_BIT_def)
  then have ok: "pins_ok ?l" and min: "min_retention_seq ?l = Some 3"
    by (simp_all add: pins_ok_def hm_wf_def min_retention_seq_def TOMBSTONE_BIT_def)
  have "is_visible (seq_log_compact ?l 3) 7 3 = is_visible ?l 7 3"
    by (rule compaction_keeps_pinned [OF wf ok _ min]) (simp add: pins)
  moreover have "is_visible ?l 7 3"
    by (simp add: is_visible_def visible_step_def pin_snapshot_at_def record_delete_def
        record_insert_def sequence_log_new_def Let_def TOMBSTONE_BIT_def)
  ultimately show ?thesis using min by (simp add: Let_def)
qed

text \<open>Reaping pops one time per expired snapshot, and the newest one. When a snapshot is pinned
  more than once and its oldest pin is expired, \<open>reap_expired_pins_at\<close> removes the most recent
  pin, keeps the expired one, and the snapshot is still expired afterwards.
\<close>

theorem reap_pops_newest:
  assumes ok: "pins_ok l" and ts: "map_of (sl_pinned l) s = Some (t0 # ts @ [t1])"
    and expired: "saturating_sub now t0 > clamp_u64 (sl_max_pin_duration l)"
  shows "map_of (sl_pinned (fst (reap_expired_pins_at l now))) s = Some (t0 # ts) \<and>
         s \<in> set (expired_pins_at (fst (reap_expired_pins_at l now)) now)"
proof -
  let ?l' = "fst (reap_expired_pins_at l now)"
  have l': "?l' = foldl unpin_snapshot l (expired_pins_at l now)"
    by (simp add: reap_expired_pins_at_def Let_def)
  have "s \<in> set (expired_pins_at l now)"
    using expired ts by (auto simp: expired_pins_iff [OF ok])
  then have "map_of (sl_pinned ?l') s = Some (t0 # ts)"
    unfolding l' pinned_foldl_unpin [OF expired_pins_distinct [OF ok]]
    by (simp add: ts pop_pin_def butlast_append)
  moreover have "pins_ok ?l'"
    unfolding l' using ok by (rule pins_ok_foldl_unpin)
  moreover have "sl_max_pin_duration ?l' = sl_max_pin_duration l"
    by (simp add: l')
  ultimately show ?thesis
    using expired by (auto simp: expired_pins_iff)
qed

theorem reap_pops_newest_witness:
  "let l = pin_snapshot_at (pin_snapshot_at (set_max_pin_duration sequence_log_new 500) 5 0) 5 900
   in map_of (sl_pinned l) 5 = Some [0, 900] \<and>
      map_of (sl_pinned (fst (reap_expired_pins_at l 1000))) 5 = Some [0] \<and>
      5 \<in> set (expired_pins_at (fst (reap_expired_pins_at l 1000)) 1000)"
proof -
  let ?l = "pin_snapshot_at (pin_snapshot_at (set_max_pin_duration sequence_log_new 500) 5 0) 5 900"
  have pins: "sl_pinned ?l = [(5, [0, 900])]" and dur: "sl_max_pin_duration ?l = 500"
    by (simp_all add: pin_snapshot_at_def set_max_pin_duration_def sequence_log_new_def
        Let_def TOMBSTONE_BIT_def)
  then have "pins_ok ?l" by (simp add: pins_ok_def hm_wf_def TOMBSTONE_BIT_def)
  moreover have ts: "map_of (sl_pinned ?l) 5 = Some (0 # [] @ [900])" by (simp add: pins)
  moreover have "saturating_sub 1000 0 > clamp_u64 (sl_max_pin_duration ?l)"
    by (simp add: dur clamp_u64_def saturating_sub_def)
  ultimately have "map_of (sl_pinned (fst (reap_expired_pins_at ?l 1000))) 5 = Some (0 # []) \<and>
      5 \<in> set (expired_pins_at (fst (reap_expired_pins_at ?l 1000)) 1000)"
    by (rule reap_pops_newest)
  with ts show ?thesis by (simp add: Let_def)
qed

end
