(* ===== verification/Retention.thy ===== *)
theory Retention
  imports Prelude
begin

text \<open>
  Version retention during compaction, \<open>crates/contextra-store/src/compaction/retention.rs\<close>.

  \<open>retain_key_versions\<close> filters the versions of one key, newest first, by the floor below which
  no reader can look. \<open>version_at\<close> is what a reader at a snapshot sees of such a list. The locale
  \<open>snapshot_floor\<close> is the interface to the component that computes the floor: whatever it
  protects, the floor is not above. Its client lemma is that compaction at the floor changes
  no protected read.
\<close>

fun retain_loop :: "('a \<Rightarrow> u64) \<Rightarrow> u64 \<Rightarrow> bool \<Rightarrow> 'a list \<Rightarrow> 'a list" where
  "retain_loop get_seq floor found [] = []"
| "retain_loop get_seq floor found (e # es) =
     (if mask_seq (get_seq e) > floor then e # retain_loop get_seq floor found es
      else if \<not> found then e # retain_loop get_seq floor True es
      else retain_loop get_seq floor found es)"

definition retain_key_versions :: "'a list \<Rightarrow> ('a \<Rightarrow> u64) \<Rightarrow> u64 \<Rightarrow> 'a list" where
  "retain_key_versions es get_seq floor = retain_loop get_seq floor False es"

text \<open>The version a reader at \<open>s\<close> sees: the first one, newest first, not above \<open>s\<close>.\<close>

definition version_at :: "('a \<Rightarrow> u64) \<Rightarrow> u64 \<Rightarrow> 'a list \<Rightarrow> 'a option" where
  "version_at get_seq s es = find (\<lambda>e. mask_seq (get_seq e) \<le> s) es"

lemma retain_loop_found:
  "retain_loop g f True es = filter (\<lambda>e. mask_seq (g e) > f) es"
  by (induction es) auto

lemma version_at_retain_loop:
  "f \<le> s \<Longrightarrow> version_at g s (retain_loop g f False es) = version_at g s es"
proof (induction es)
  case Nil
  then show ?case by simp
next
  case (Cons e es)
  show ?case
  proof (cases "mask_seq (g e) > f")
    case True
    with Cons show ?thesis by (simp add: version_at_def)
  next
    case False
    with Cons.prems have "mask_seq (g e) \<le> s" by simp
    with False show ?thesis by (simp add: version_at_def)
  qed
qed

lemma version_at_retain:
  "f \<le> s \<Longrightarrow> version_at g s (retain_key_versions es g f) = version_at g s es"
  by (simp add: retain_key_versions_def version_at_retain_loop)

lemma retain_loop_below:
  "length (filter (\<lambda>e. mask_seq (g e) \<le> f) (retain_loop g f False es)) =
     min 1 (length (filter (\<lambda>e. mask_seq (g e) \<le> f) es))"
proof (induction es)
  case Nil
  then show ?case by simp
next
  case (Cons e es)
  have "filter (\<lambda>e. mask_seq (g e) \<le> f) (filter (\<lambda>e. f < mask_seq (g e)) es) = []"
    by (auto simp: filter_empty_conv)
  with Cons show ?case by (auto simp: retain_loop_found)
qed

lemma retain_loop_above:
  "filter (\<lambda>e. mask_seq (g e) > f) (retain_loop g f b es) = filter (\<lambda>e. mask_seq (g e) > f) es"
  by (induction es arbitrary: b) auto

lemma retain_key_versions_idem:
  "retain_key_versions (retain_key_versions es g f) g f = retain_key_versions es g f"
proof -
  have found: "retain_loop g f True (retain_loop g f True xs) = retain_loop g f True xs" for xs
    by (simp add: retain_loop_found)
  have "retain_loop g f False (retain_loop g f False es) = retain_loop g f False es"
    by (induction es) (auto simp: found)
  then show ?thesis by (simp add: retain_key_versions_def)
qed

text \<open>Compaction at a floor keeps every read at or above the floor, drops nothing above the floor,
  and keeps exactly one version at or below it (none if there was none).
\<close>

theorem retain_key_versions_correct:
  "(\<forall>s. f \<le> s \<longrightarrow> version_at g s (retain_key_versions es g f) = version_at g s es) \<and>
   filter (\<lambda>e. mask_seq (g e) > f) (retain_key_versions es g f) = filter (\<lambda>e. mask_seq (g e) > f) es \<and>
   length (filter (\<lambda>e. mask_seq (g e) \<le> f) (retain_key_versions es g f)) =
     min 1 (length (filter (\<lambda>e. mask_seq (g e) \<le> f) es))"
  by (simp add: retain_key_versions_def version_at_retain_loop retain_loop_above retain_loop_below)

theorem retain_key_versions_correct_witness:
  "retain_key_versions [30, 20, 10, 5] (\<lambda>s. s) 10 = [30, 20, 10] \<and>
   version_at (\<lambda>s. s) 12 (retain_key_versions [30, 20, 10, 5] (\<lambda>s. s) 10) =
     version_at (\<lambda>s. s) 12 [30, 20, 10, 5 :: u64]"
proof
  show "retain_key_versions [30, 20, 10, 5] (\<lambda>s. s) 10 = [30, 20, 10 :: u64]"
    by (simp add: retain_key_versions_def TOMBSTONE_BIT_def)
  have "(10 :: u64) \<le> 12" by simp
  then show "version_at (\<lambda>s. s) 12 (retain_key_versions [30, 20, 10, 5] (\<lambda>s. s) 10) =
      version_at (\<lambda>s. s) 12 [30, 20, 10, 5 :: u64]"
    using retain_key_versions_correct [of 10 "\<lambda>s. s" "[30, 20, 10, 5]"] by blast
qed

text \<open>The interface to the component that knows which snapshots are in use.\<close>

locale snapshot_floor =
  fixes in_use :: "'r \<Rightarrow> u64 \<Rightarrow> bool"
    and gc_floor :: "'r \<Rightarrow> u64 \<Rightarrow> u64"
    and inv :: "'r \<Rightarrow> bool"
  assumes floor_le: "inv r \<Longrightarrow> in_use r s \<Longrightarrow> gc_floor r current \<le> s"
    and floor_current: "inv r \<Longrightarrow> (\<And>s. \<not> in_use r s) \<Longrightarrow> gc_floor r current = current"
begin

lemma compaction_keeps_read:
  "inv r \<Longrightarrow> in_use r s \<Longrightarrow>
     version_at g s (retain_key_versions es g (gc_floor r current)) = version_at g s es"
  by (rule version_at_retain) (rule floor_le)

lemma compaction_unused:
  assumes "inv r" and "\<And>s. \<not> in_use r s"
    and "\<forall>e \<in> set es. mask_seq (g e) \<le> current"
  shows "retain_key_versions es g (gc_floor r current) = take 1 es"
proof -
  have "gc_floor r current = current" using assms(1,2) by (rule floor_current)
  moreover have "filter (\<lambda>e. current < mask_seq (g e)) xs = []" if "set xs \<subseteq> set es" for xs
    using assms(3) that by (auto simp: filter_empty_conv not_less)
  ultimately show ?thesis
    using assms(3) by (cases es) (auto simp: retain_key_versions_def retain_loop_found not_less)
qed

end

end
