(* ===== verification/Snapshot.thy ===== *)
theory Snapshot
  imports Retention
begin

text \<open>
  The snapshot registry, \<open>crates/contextra-mvcc/src/snapshot.rs\<close>.

  The registry maps each sequence number in use to the list of its holders (guards and pins) and
  publishes the least one for compaction. A \<open>SnapshotGuard\<close> is a value here; dropping it is the
  call of \<open>guard_drop\<close>. The clock is a parameter, as in the sequence log.
\<close>

section \<open>State and operations\<close>

record snapshot_meta =
  sm_tenant :: "u64 option"
  sm_created_at :: u64

record snapshot_registry =
  sr_active :: "(u64 \<times> snapshot_meta list) list"
  sr_min_active :: u64

record snapshot_guard =
  sg_seq_no :: u64
  sg_created_at :: "u64 option"
  sg_tenant :: "u64 option"

definition registry_new :: snapshot_registry where
  "registry_new = \<lparr>sr_active = [], sr_min_active = U64_MAX\<rparr>"

definition update_min :: "snapshot_registry \<Rightarrow> snapshot_registry" where
  "update_min r = r\<lparr>sr_min_active :=
     (case sr_active r of [] \<Rightarrow> U64_MAX | (seq, _) # _ \<Rightarrow> seq)\<rparr>"

text \<open>\<open>active.entry(seq_no).or_default().push(meta)\<close>, then \<open>update_min\<close>.\<close>

definition push_meta :: "snapshot_registry \<Rightarrow> u64 \<Rightarrow> snapshot_meta \<Rightarrow> snapshot_registry" where
  "push_meta r seq m =
     (let metas = (case map_of (sr_active r) seq of None \<Rightarrow> [] | Some ms \<Rightarrow> ms)
      in update_min (r\<lparr>sr_active := bt_insert seq (metas @ [m]) (sr_active r)\<rparr>))"

definition register_for_tenant_at ::
  "snapshot_registry \<Rightarrow> u64 \<Rightarrow> u64 \<Rightarrow> u64 \<Rightarrow> snapshot_registry \<times> snapshot_guard" where
  "register_for_tenant_at r tenant seq_no at_nanos =
     (let seq_no = mask_seq seq_no
      in (push_meta r seq_no \<lparr>sm_tenant = Some tenant, sm_created_at = at_nanos\<rparr>,
          \<lparr>sg_seq_no = seq_no, sg_created_at = Some at_nanos, sg_tenant = Some tenant\<rparr>))"

definition register_at ::
  "snapshot_registry \<Rightarrow> u64 \<Rightarrow> u64 \<Rightarrow> snapshot_registry \<times> snapshot_guard" where
  "register_at r seq_no at_nanos =
     (let seq_no = mask_seq seq_no
      in (push_meta r seq_no \<lparr>sm_tenant = None, sm_created_at = at_nanos\<rparr>,
          \<lparr>sg_seq_no = seq_no, sg_created_at = Some at_nanos, sg_tenant = None\<rparr>))"

definition min_read_snapshot :: "snapshot_registry \<Rightarrow> u64 option" where
  "min_read_snapshot r = (if sr_min_active r = U64_MAX then None else Some (sr_min_active r))"

definition min_for_compaction :: "snapshot_registry \<Rightarrow> u64 \<Rightarrow> u64" where
  "min_for_compaction r current_seq =
     (case min_read_snapshot r of None \<Rightarrow> current_seq | Some s \<Rightarrow> s)"

definition in_revoked_range :: "u64 \<Rightarrow> u64 \<Rightarrow> u64 \<Rightarrow> u64 \<Rightarrow> bool" where
  "in_revoked_range start end gated seq \<longleftrightarrow> seq \<ge> start \<and> seq < end \<and> seq \<le> gated"

definition revoke_covering ::
  "snapshot_registry \<Rightarrow> u64 \<Rightarrow> u64 \<Rightarrow> u64 \<Rightarrow> u64 \<Rightarrow> snapshot_registry \<times> nat" where
  "revoke_covering r tenant start end gated =
     (let keep = (\<lambda>m. sm_tenant m \<noteq> Some tenant);
          swept = map (\<lambda>(seq, metas). (seq,
            if in_revoked_range start end gated seq then filter keep metas else metas)) (sr_active r);
          revoked = sum_list (map (\<lambda>(seq, metas).
            if in_revoked_range start end gated seq
            then length metas - length (filter keep metas) else 0) (sr_active r));
          kept = filter (\<lambda>(seq, metas).
            \<not> (in_revoked_range start end gated seq \<and> metas = [])) swept
      in (update_min (r\<lparr>sr_active := kept\<rparr>), revoked))"

definition pin_at :: "snapshot_registry \<Rightarrow> u64 \<Rightarrow> u64 \<Rightarrow> snapshot_registry" where
  "pin_at r seq_no at_nanos =
     push_meta r (mask_seq seq_no) \<lparr>sm_tenant = None, sm_created_at = at_nanos\<rparr>"

definition pin_for_tenant_at :: "snapshot_registry \<Rightarrow> u64 \<Rightarrow> u64 \<Rightarrow> u64 \<Rightarrow> snapshot_registry" where
  "pin_for_tenant_at r tenant seq_no at_nanos =
     push_meta r (mask_seq seq_no) \<lparr>sm_tenant = Some tenant, sm_created_at = at_nanos\<rparr>"

text \<open>Which holder a release removes: by creation time and tenant, then by creation time, then the last.\<close>

definition release_meta :: "u64 option \<Rightarrow> u64 option \<Rightarrow> snapshot_meta list \<Rightarrow> snapshot_meta list" where
  "release_meta tenant created_at metas =
     (case created_at of
        Some ts \<Rightarrow>
          (case position (\<lambda>m. sm_created_at m = ts \<and> (tenant = None \<or> sm_tenant m = tenant)) metas of
             Some pos \<Rightarrow> swap_remove pos metas
           | None \<Rightarrow>
               (case position (\<lambda>m. sm_created_at m = ts) metas of
                  Some pos \<Rightarrow> swap_remove pos metas
                | None \<Rightarrow> butlast metas))
      | None \<Rightarrow>
          (case tenant of
             Some t \<Rightarrow>
               (case position (\<lambda>m. sm_tenant m = Some t) metas of
                  Some pos \<Rightarrow> swap_remove pos metas
                | None \<Rightarrow> butlast metas)
           | None \<Rightarrow> butlast metas))"

definition release_for_tenant_at ::
  "snapshot_registry \<Rightarrow> u64 option \<Rightarrow> u64 \<Rightarrow> u64 option \<Rightarrow> snapshot_registry" where
  "release_for_tenant_at r tenant seq_no created_at =
     (let seq_no = mask_seq seq_no
      in update_min
           (case map_of (sr_active r) seq_no of
              None \<Rightarrow> r
            | Some metas \<Rightarrow>
                (let metas' = release_meta tenant created_at metas
                 in if metas' = [] then r\<lparr>sr_active := AList.delete seq_no (sr_active r)\<rparr>
                    else r\<lparr>sr_active := bt_insert seq_no metas' (sr_active r)\<rparr>)))"

definition release_at :: "snapshot_registry \<Rightarrow> u64 \<Rightarrow> u64 option \<Rightarrow> snapshot_registry" where
  "release_at r seq_no created_at = release_for_tenant_at r None seq_no created_at"

definition unpin :: "snapshot_registry \<Rightarrow> u64 \<Rightarrow> snapshot_registry" where
  "unpin r seq_no = release_at r seq_no None"

definition guard_drop :: "snapshot_registry \<Rightarrow> snapshot_guard \<Rightarrow> snapshot_registry" where
  "guard_drop r g = release_for_tenant_at r (sg_tenant g) (sg_seq_no g) (sg_created_at g)"

definition longest_step :: "u64 \<Rightarrow> u64 \<Rightarrow> (u64 \<times> u64) option \<Rightarrow> snapshot_meta \<Rightarrow> (u64 \<times> u64) option" where
  "longest_step now seq longest m =
     (let duration = saturating_sub now (sm_created_at m)
      in case longest of
           None \<Rightarrow> Some (seq, duration)
         | Some (_, max_duration) \<Rightarrow> if duration > max_duration then Some (seq, duration) else longest)"

definition longest_active_pin_at :: "snapshot_registry \<Rightarrow> u64 \<Rightarrow> (u64 \<times> u64) option" where
  "longest_active_pin_at r now =
     foldl (\<lambda>longest (seq, metas). foldl (longest_step now seq) longest metas) None (sr_active r)"

definition pin_expired :: "u64 \<Rightarrow> u64 \<Rightarrow> snapshot_meta \<Rightarrow> bool" where
  "pin_expired now max_nanos m \<longleftrightarrow> saturating_sub now (sm_created_at m) > max_nanos"

definition registry_reap_expired_pins_at ::
  "snapshot_registry \<Rightarrow> nat \<Rightarrow> u64 \<Rightarrow> snapshot_registry \<times> u64 list" where
  "registry_reap_expired_pins_at r max_pin_duration now =
     (let max_nanos = clamp_u64 max_pin_duration;
          swept = map (\<lambda>(seq, metas). (seq, filter (\<lambda>m. \<not> pin_expired now max_nanos m) metas)) (sr_active r);
          expired = concat (map (\<lambda>(seq, metas).
            map (\<lambda>_. seq) (filter (pin_expired now max_nanos) metas)) (sr_active r))
      in (update_min (r\<lparr>sr_active := filter (\<lambda>(seq, metas). metas \<noteq> []) swept\<rparr>),
          remdups_adj (sort expired)))"

section \<open>The registry invariant\<close>

definition metas_at :: "snapshot_registry \<Rightarrow> u64 \<Rightarrow> snapshot_meta list" where
  "metas_at r s = (case map_of (sr_active r) s of None \<Rightarrow> [] | Some ms \<Rightarrow> ms)"

definition reg_ok :: "snapshot_registry \<Rightarrow> bool" where
  "reg_ok r \<longleftrightarrow> bt_wf (sr_active r) \<and>
     (\<forall>e \<in> set (sr_active r). mask_seq (fst e) = fst e \<and> snd e \<noteq> []) \<and>
     sr_min_active r = (case sr_active r of [] \<Rightarrow> U64_MAX | e # _ \<Rightarrow> fst e)"

lemma update_min_active [simp]: "sr_active (update_min r) = sr_active r"
  by (simp add: update_min_def)

lemma metas_at_update_min [simp]: "metas_at (update_min r) s = metas_at r s"
  by (simp add: metas_at_def)

lemma reg_ok_update_min:
  "bt_wf (sr_active r) \<Longrightarrow> \<forall>e \<in> set (sr_active r). mask_seq (fst e) = fst e \<and> snd e \<noteq> [] \<Longrightarrow>
     reg_ok (update_min r)"
  by (auto simp: reg_ok_def update_min_def split: list.splits)

lemma reg_ok_new: "reg_ok registry_new"
  by (simp add: reg_ok_def registry_new_def)

lemma metas_at_new [simp]: "metas_at registry_new s = []"
  by (simp add: metas_at_def registry_new_def)

lemma reg_ok_push: "reg_ok r \<Longrightarrow> mask_seq s = s \<Longrightarrow> reg_ok (push_meta r s m)"
  unfolding push_meta_def Let_def
  by (rule reg_ok_update_min) (auto simp: reg_ok_def bt.set_insert)

lemma metas_at_push:
  "metas_at (push_meta r s m) k = (if k = s then metas_at r k @ [m] else metas_at r k)"
  by (simp add: metas_at_def push_meta_def Let_def map_simps)

lemma length_release_meta: "length (release_meta t c ms) = length ms - 1"
  by (simp add: release_meta_def split: option.splits)

lemma release_meta_Nil [simp]: "release_meta t c [] = []"
  by (simp add: length_release_meta flip: length_0_conv)

lemma reg_ok_release: "reg_ok r \<Longrightarrow> reg_ok (release_for_tenant_at r t s c)"
  unfolding release_for_tenant_at_def Let_def
  by (rule reg_ok_update_min)
    (auto simp: reg_ok_def bt.set_insert bt.set_remove split: option.splits)

lemma metas_at_release:
  "metas_at (release_for_tenant_at r t s c) k =
     (if k = mask_seq s then release_meta t c (metas_at r k) else metas_at r k)"
proof (cases "map_of (sr_active r) (mask_seq s)")
  case None
  then show ?thesis by (simp add: metas_at_def release_for_tenant_at_def)
next
  case (Some ms)
  then show ?thesis
    by (cases "release_meta t c ms = []") (simp_all add: metas_at_def release_for_tenant_at_def map_simps)
qed

lemma min_active_le:
  assumes "reg_ok r" and "metas_at r s \<noteq> []"
  shows "sr_min_active r \<le> s"
proof -
  from assms(2) obtain ms where "(s, ms) \<in> set (sr_active r)"
    by (auto simp: metas_at_def split: option.splits dest: map_of_SomeD)
  with assms(1) show ?thesis
    by (cases "sr_active r") (auto simp: reg_ok_def bt_wf_Cons less_imp_le bt_wf_def)
qed

lemma min_active_MAX:
  assumes "reg_ok r"
  shows "sr_min_active r = U64_MAX \<longleftrightarrow> (\<forall>s. metas_at r s = [])"
proof (cases "sr_active r")
  case Nil
  with assms show ?thesis by (simp add: reg_ok_def metas_at_def)
next
  case (Cons e es)
  with assms have "sr_min_active r = fst e" "mask_seq (fst e) = fst e" "metas_at r (fst e) \<noteq> []"
    by (auto simp: reg_ok_def metas_at_def)
  moreover from this(2) have "fst e \<noteq> U64_MAX" by (metis mask_seq_neq_max)
  ultimately show ?thesis by metis
qed

lemma min_active_held:
  assumes "reg_ok r" and "sr_min_active r \<noteq> U64_MAX"
  shows "metas_at r (sr_min_active r) \<noteq> []"
  using assms by (cases "sr_active r") (auto simp: reg_ok_def metas_at_def)

text \<open>The registry provides the floor that compaction relies on.\<close>

interpretation registry: snapshot_floor "\<lambda>r s. metas_at r s \<noteq> []" min_for_compaction reg_ok
proof
  fix r s current
  assume "reg_ok r" "metas_at r s \<noteq> []"
  with min_active_MAX [of r] min_active_le [of r s] show "min_for_compaction r current \<le> s"
    by (auto simp: min_for_compaction_def min_read_snapshot_def)
next
  fix r current
  assume "reg_ok r" "\<And>s. \<not> metas_at r s \<noteq> []"
  with min_active_MAX [of r] show "min_for_compaction r current = current"
    by (auto simp: min_for_compaction_def min_read_snapshot_def)
qed

section \<open>Live guards are protected\<close>

text \<open>
  The state of a run: the registry, the guards that are alive and the sequence numbers that are
  pinned. A guard is dropped once; a pin is released by an \<open>unpin\<close> of its sequence number.
\<close>

type_synonym snap_state = "snapshot_registry \<times> snapshot_guard list \<times> u64 list"

inductive snap_step :: "snap_state \<Rightarrow> snap_state \<Rightarrow> bool" where
  register: "register_at r s t = (r', g) \<Longrightarrow> snap_step (r, gs, ps) (r', g # gs, ps)"
| register_tenant: "register_for_tenant_at r tenant s t = (r', g) \<Longrightarrow>
     snap_step (r, gs, ps) (r', g # gs, ps)"
| drop_guard: "g \<in> set gs \<Longrightarrow> snap_step (r, gs, ps) (guard_drop r g, remove1 g gs, ps)"
| pin: "snap_step (r, gs, ps) (pin_at r s t, gs, mask_seq s # ps)"
| pin_tenant: "snap_step (r, gs, ps) (pin_for_tenant_at r tenant s t, gs, mask_seq s # ps)"
| unpin: "mask_seq s \<in> set ps \<Longrightarrow>
     snap_step (r, gs, ps) (Snapshot.unpin r s, gs, remove1 (mask_seq s) ps)"

inductive snap_reachable :: "snap_state \<Rightarrow> bool" where
  start: "snap_reachable (registry_new, [], [])"
| step: "snap_reachable x \<Longrightarrow> snap_step x y \<Longrightarrow> snap_reachable y"

inductive_cases snap_stepE: "snap_step x y"

definition guards_at :: "u64 \<Rightarrow> snapshot_guard list \<Rightarrow> nat" where
  "guards_at s gs = count_list (map sg_seq_no gs) s"

definition snap_inv :: "snap_state \<Rightarrow> bool" where
  "snap_inv x = (case x of (r, gs, ps) \<Rightarrow> reg_ok r \<and> (\<forall>g \<in> set gs. mask_seq (sg_seq_no g) = sg_seq_no g) \<and>
     (\<forall>s. length (metas_at r s) = guards_at s gs + count_list ps s))"

lemma count_list_remove1: "x \<in> set xs \<Longrightarrow> count_list (remove1 x xs) y = count_list xs y - (if x = y then 1 else 0)"
  by (induction xs) (auto simp: count_list_0_iff)

lemma guards_at_remove1:
  "g \<in> set gs \<Longrightarrow> guards_at s gs = guards_at s (remove1 g gs) + (if sg_seq_no g = s then 1 else 0)"
  by (induction gs) (auto simp: guards_at_def)

lemma count_list_pos: "x \<in> set xs \<Longrightarrow> 0 < count_list xs x"
  by (metis count_list_0_iff neq0_conv)

lemma snap_inv_held:
  "snap_inv (r, gs, ps) \<Longrightarrow> metas_at r s \<noteq> [] \<longleftrightarrow> s \<in> sg_seq_no ` set gs \<union> set ps"
proof -
  assume "snap_inv (r, gs, ps)"
  then have "length (metas_at r s) = guards_at s gs + count_list ps s"
    by (simp add: snap_inv_def)
  then have "metas_at r s = [] \<longleftrightarrow> guards_at s gs = 0 \<and> count_list ps s = 0"
    by (metis add_is_0 length_0_conv)
  then show ?thesis
    by (simp add: guards_at_def count_list_0_iff)
qed

lemma snap_step_inv:
  assumes "snap_step x y" and "snap_inv x"
  shows "snap_inv y"
  using assms
proof (cases rule: snap_step.cases)
  case (drop_guard g gs r ps)
  with assms(2) have g: "mask_seq (sg_seq_no g) = sg_seq_no g" by (simp add: snap_inv_def)
  have "length (metas_at (guard_drop r g) s) = guards_at s (remove1 g gs) + count_list ps s" for s
    using assms(2) drop_guard guards_at_remove1 [OF drop_guard(3), of s]
    by (auto simp: snap_inv_def guard_drop_def metas_at_release length_release_meta g)
  with drop_guard assms(2) show ?thesis
    by (auto simp: snap_inv_def guard_drop_def intro: reg_ok_release dest: notin_set_remove1)
next
  case (unpin s ps r gs)
  have "length (metas_at (Snapshot.unpin r s) k) = guards_at k gs + count_list (remove1 (mask_seq s) ps) k" for k
    using assms(2) unpin count_list_pos [OF unpin(3)]
    by (auto simp: snap_inv_def unpin_def release_at_def metas_at_release length_release_meta
        count_list_remove1)
  with unpin assms(2) show ?thesis
    by (auto simp: snap_inv_def unpin_def release_at_def intro: reg_ok_release)
qed (auto simp: snap_inv_def register_at_def register_for_tenant_at_def pin_at_def
    pin_for_tenant_at_def guards_at_def metas_at_push Let_def intro: reg_ok_push)

lemma snap_reachable_inv: "snap_reachable x \<Longrightarrow> snap_inv x"
proof (induction rule: snap_reachable.induct)
  case start
  show ?case by (simp add: snap_inv_def reg_ok_new guards_at_def)
next
  case (step x y)
  then show ?case by (blast intro: snap_step_inv)
qed

lemma snap_held:
  assumes "snap_reachable (r, gs, ps)"
  shows "reg_ok r" and "metas_at r s \<noteq> [] \<longleftrightarrow> s \<in> sg_seq_no ` set gs \<union> set ps"
  using snap_reachable_inv [OF assms] snap_inv_held [of r gs ps s] by (auto simp: snap_inv_def)



section \<open>Revocation and expiry\<close>

lemma fst_sweep: "fst \<circ> (\<lambda>(s, ms). (s, f s ms)) = fst"
  by auto

lemma sweep_ok:
  assumes "reg_ok r"
  shows "bt_wf (filter (\<lambda>(s, ms). Q s ms) (map (\<lambda>(s, ms). (s, f s ms)) (sr_active r)))"
proof -
  have "bt_wf (map (\<lambda>(s, ms). (s, f s ms)) (sr_active r))"
    using assms by (simp add: reg_ok_def bt_wf_def fst_sweep)
  then show ?thesis by (rule bt_wf_filter)
qed

lemma map_of_sweep:
  assumes "hm_wf m"
  shows "map_of (filter (\<lambda>(s, ms). Q s ms) (map (\<lambda>(s, ms). (s, f s ms)) m)) k =
     (case map_of m k of None \<Rightarrow> None | Some ms \<Rightarrow> if Q k (f k ms) then Some (f k ms) else None)"
proof -
  have "hm_wf (map (\<lambda>(s, ms). (s, f s ms)) m)" using assms by (simp add: hm_wf_def fst_sweep)
  moreover have "map_of (map (\<lambda>(s, ms). (s, f s ms)) m) k = map_option (f k) (map_of m k)"
    by (induction m) auto
  ultimately show ?thesis
    by (auto simp: map_of_filter_hm split: option.splits)
qed

lemma revoke_covering_ok:
  assumes "reg_ok r"
  shows "reg_ok (fst (revoke_covering r tenant start end gated))"
  unfolding revoke_covering_def Let_def fst_conv
proof (rule reg_ok_update_min, goal_cases)
  case 1
  show ?case by (simp add: sweep_ok [OF assms])
next
  case 2
  from assms show ?case by (auto simp: reg_ok_def split: if_splits)
qed

lemma metas_at_revoke:
  assumes "reg_ok r"
  shows "metas_at (fst (revoke_covering r tenant start end gated)) s =
     (if in_revoked_range start end gated s
      then filter (\<lambda>m. sm_tenant m \<noteq> Some tenant) (metas_at r s) else metas_at r s)"
proof -
  have "hm_wf (sr_active r)" using assms by (simp add: reg_ok_def bt_wf_hm_wf)
  then show ?thesis
    by (auto simp: metas_at_def revoke_covering_def Let_def map_of_sweep split: option.splits)
qed

text \<open>A revoked guard, when it is dropped, takes the registration of another tenant's live guard
  with it. Two tenants hold the same snapshot; the first one's registration is revoked; the second
  one is still registered. Dropping the first guard then finds no registration of its own and
  removes the one that is left, so the snapshot of the second, live, guard is no longer held.
\<close>

theorem revoked_guard_drop_unprotects:
  assumes ok: "reg_ok r" and free: "metas_at r (mask_seq s) = []" and "A \<noteq> B"
    and range: "in_revoked_range start end gated (mask_seq s)"
    and gA: "register_for_tenant_at r A s tA = (r1, gA)"
    and gB: "register_for_tenant_at r1 B s tB = (r2, gB)"
  defines "r3 \<equiv> fst (revoke_covering r2 A start end gated)"
  shows "metas_at r3 (sg_seq_no gB) = [\<lparr>sm_tenant = Some B, sm_created_at = tB\<rparr>] \<and>
         metas_at (guard_drop r3 gA) (sg_seq_no gB) = []"
proof -
  let ?s = "mask_seq s"
  from gA have r1: "r1 = push_meta r ?s \<lparr>sm_tenant = Some A, sm_created_at = tA\<rparr>"
    and gA': "gA = \<lparr>sg_seq_no = ?s, sg_created_at = Some tA, sg_tenant = Some A\<rparr>"
    by (auto simp: register_for_tenant_at_def Let_def)
  from gB have r2: "r2 = push_meta r1 ?s \<lparr>sm_tenant = Some B, sm_created_at = tB\<rparr>"
    and gB': "sg_seq_no gB = ?s"
    by (auto simp: register_for_tenant_at_def Let_def)
  have "reg_ok r2" unfolding r2 r1 using ok by (simp add: reg_ok_push)
  then have "metas_at r3 ?s = [\<lparr>sm_tenant = Some B, sm_created_at = tB\<rparr>]"
    using \<open>A \<noteq> B\<close> range free
    by (simp add: r3_def metas_at_revoke r2 r1 metas_at_push)
  then show ?thesis
    by (simp add: gB' gA' guard_drop_def metas_at_release flip: length_0_conv)
      (simp add: length_release_meta)
qed

theorem revoked_guard_drop_unprotects_witness:
  "let (r1, gA) = register_for_tenant_at registry_new 1 5 100;
       (r2, gB) = register_for_tenant_at r1 2 5 200;
       r3 = fst (revoke_covering r2 1 0 10 9)
   in sr_min_active r3 = 5 \<and> metas_at (guard_drop r3 gA) (sg_seq_no gB) = [] \<and>
      sr_min_active (guard_drop r3 gA) = U64_MAX"
proof -
  obtain r1 gA where a: "register_for_tenant_at registry_new 1 5 100 = (r1, gA)" by fastforce
  obtain r2 gB where b: "register_for_tenant_at r1 2 5 200 = (r2, gB)" by fastforce
  have range: "in_revoked_range 0 10 9 (mask_seq 5)"
    by (simp add: in_revoked_range_def TOMBSTONE_BIT_def)
  have "(1 :: u64) \<noteq> 2" by simp
  from revoked_guard_drop_unprotects [OF reg_ok_new metas_at_new this range a b]
  show ?thesis
    using a b
    by (auto simp: Let_def register_for_tenant_at_def push_meta_def update_min_def registry_new_def
        revoke_covering_def guard_drop_def release_for_tenant_at_def release_meta_def
        swap_remove_def in_revoked_range_def TOMBSTONE_BIT_def)
qed

lemma reap_ok:
  assumes "reg_ok r"
  shows "reg_ok (fst (registry_reap_expired_pins_at r d now))"
  unfolding registry_reap_expired_pins_at_def Let_def fst_conv
proof (rule reg_ok_update_min, goal_cases)
  case 1
  show ?case by (simp add: sweep_ok [OF assms])
next
  case 2
  from assms show ?case by (auto simp: reg_ok_def)
qed

text \<open>Reaping removes exactly the holders that are older than the limit, keeps the rest in order,
  keeps the registry well-formed, and reports in ascending order, each once, the sequence numbers
  that lost a holder.
\<close>

theorem registry_reap_correct:
  fixes d :: nat and now :: u64
  assumes ok: "reg_ok r"
  defines "res \<equiv> registry_reap_expired_pins_at r d now"
  shows "reg_ok (fst res) \<and>
     metas_at (fst res) s = filter (\<lambda>m. \<not> pin_expired now (clamp_u64 d) m) (metas_at r s) \<and>
     (s \<in> set (snd res) \<longleftrightarrow> (\<exists>m \<in> set (metas_at r s). pin_expired now (clamp_u64 d) m)) \<and>
     sorted_wrt (<) (snd res)"
proof (intro conjI)
  have hm: "hm_wf (sr_active r)" using ok by (simp add: reg_ok_def bt_wf_hm_wf)
  show "reg_ok (fst res)" unfolding res_def by (rule reap_ok [OF ok])
  show "metas_at (fst res) s = filter (\<lambda>m. \<not> pin_expired now (clamp_u64 d) m) (metas_at r s)"
    by (auto simp: res_def metas_at_def registry_reap_expired_pins_at_def Let_def
        map_of_sweep [OF hm] split: option.splits)
  have "s \<in> set (snd res) \<longleftrightarrow>
      (\<exists>ms. (s, ms) \<in> set (sr_active r) \<and> (\<exists>m \<in> set ms. pin_expired now (clamp_u64 d) m))"
    by (force simp: res_def registry_reap_expired_pins_at_def Let_def)
  then show "s \<in> set (snd res) \<longleftrightarrow> (\<exists>m \<in> set (metas_at r s). pin_expired now (clamp_u64 d) m)"
    by (cases "map_of (sr_active r) s") (auto simp: metas_at_def hm_wf_lookup [OF hm, symmetric])
  show "sorted_wrt (<) (snd res)"
    by (simp add: res_def registry_reap_expired_pins_at_def Let_def
        strict_sorted_remdups_adj)
qed

theorem registry_reap_correct_witness:
  "let r = pin_at (pin_at registry_new 5 0) 5 900
   in metas_at (fst (registry_reap_expired_pins_at r 500 1000)) 5 = [\<lparr>sm_tenant = None, sm_created_at = 900\<rparr>] \<and>
      5 \<in> set (snd (registry_reap_expired_pins_at r 500 1000))"
proof -
  let ?r = "pin_at (pin_at registry_new 5 0) 5 900"
  have m: "mask_seq 5 = 5" by (simp add: TOMBSTONE_BIT_def)
  have "reg_ok ?r" by (simp add: pin_at_def reg_ok_push reg_ok_new m)
  moreover have "metas_at ?r 5 =
      [\<lparr>sm_tenant = None, sm_created_at = 0\<rparr>, \<lparr>sm_tenant = None, sm_created_at = 900\<rparr>]"
    by (simp add: pin_at_def metas_at_push m)
  ultimately show ?thesis
    using registry_reap_correct [of ?r 500 1000 5]
    by (simp add: Let_def pin_expired_def saturating_sub_def clamp_u64_def)
qed

end
