(* ===== verification/CommitRegister.thy ===== *)
theory CommitRegister
  imports Prelude
begin

text \<open>
  The register of committed writes of the SSI validator: the first half of
  \<open>crates/contextra-mvcc/src/ssi.rs\<close>.

  \<open>read_set\<close> is what a transaction read; \<open>committed_writes\<close> is the register: the latest commit
  sequence of each exact key, and one bucket per commit sequence that holds the keys themselves or,
  once coarsened, prefixes of them. \<open>coarsen_keys_to_prefixes\<close> is called with two prefixes only;
  with none it divides by zero in the source.
\<close>

section \<open>Read sets\<close>

record read_set =
  rs_keys :: "(bytes \<times> u64) list"
  rs_prefixes :: "(bytes \<times> u64) list"
  rs_min_snapshot_seq :: "u64 option"

definition read_set_new :: read_set where
  "read_set_new = \<lparr>rs_keys = [], rs_prefixes = [], rs_min_snapshot_seq = None\<rparr>"

definition keep_least :: "bytes \<Rightarrow> u64 \<Rightarrow> (bytes \<times> u64) list \<Rightarrow> (bytes \<times> u64) list" where
  "keep_least k s m =
     (case map_of m k of
        None \<Rightarrow> AList.update k s m
      | Some e \<Rightarrow> if s < e then AList.update k s m else m)"

definition least_seq :: "u64 \<Rightarrow> u64 option \<Rightarrow> u64 option" where
  "least_seq s m = Some (case m of None \<Rightarrow> s | Some c \<Rightarrow> min c s)"

definition record_read :: "read_set \<Rightarrow> bytes \<Rightarrow> u64 \<Rightarrow> read_set" where
  "record_read rs key snapshot_seq =
     (let s = mask_seq snapshot_seq
      in rs\<lparr>rs_keys := keep_least key s (rs_keys rs),
            rs_min_snapshot_seq := least_seq s (rs_min_snapshot_seq rs)\<rparr>)"

definition record_prefix :: "read_set \<Rightarrow> bytes \<Rightarrow> u64 \<Rightarrow> read_set" where
  "record_prefix rs pfx snapshot_seq =
     (let s = mask_seq snapshot_seq
      in rs\<lparr>rs_prefixes := keep_least pfx s (rs_prefixes rs),
            rs_min_snapshot_seq := least_seq s (rs_min_snapshot_seq rs)\<rparr>)"

definition read_set_get :: "read_set \<Rightarrow> bytes \<Rightarrow> u64 option" where
  "read_set_get rs key = map_of (rs_keys rs) key"

definition read_set_is_empty :: "read_set \<Rightarrow> bool" where
  "read_set_is_empty rs \<longleftrightarrow> rs_keys rs = [] \<and> rs_prefixes rs = []"

definition read_set_len :: "read_set \<Rightarrow> nat" where
  "read_set_len rs = length (rs_keys rs) + length (rs_prefixes rs)"

definition read_set_clear :: "read_set \<Rightarrow> read_set" where
  "read_set_clear rs = rs\<lparr>rs_keys := [], rs_prefixes := [], rs_min_snapshot_seq := None\<rparr>"

text \<open>Well-formed read sets: the recorded minimum is the least sequence number in the set.\<close>

definition rs_ok :: "read_set \<Rightarrow> bool" where
  "rs_ok rs \<longleftrightarrow> hm_wf (rs_keys rs) \<and> hm_wf (rs_prefixes rs) \<and>
     rs_min_snapshot_seq rs = iter_min (map snd (rs_keys rs) @ map snd (rs_prefixes rs))"

lemma rs_ok_new: "rs_ok read_set_new"
  by (simp add: rs_ok_def read_set_new_def)

lemma hm_wf_keep_least: "hm_wf m \<Longrightarrow> hm_wf (keep_least k s m)"
  by (simp add: keep_least_def split: option.splits)

lemma map_of_keep_least:
  "map_of (keep_least k s m) k' = (if k' = k
     then Some (case map_of m k of None \<Rightarrow> s | Some e \<Rightarrow> min e s) else map_of m k')"
  by (auto simp: keep_least_def map_simps min_def split: option.splits)

lemma iter_min_eqI:
  assumes "\<And>m. m \<in> set xs \<Longrightarrow> \<exists>m' \<in> set ys. m' \<le> m" and "\<And>m. m \<in> set ys \<Longrightarrow> \<exists>m' \<in> set xs. m' \<le> m"
  shows "iter_min xs = iter_min ys"
proof (cases "iter_min xs")
  case None
  then have "xs = []" by simp
  with assms(2) have "ys = []" by (cases ys) auto
  with None show ?thesis by simp
next
  case (Some m)
  then have m: "m \<in> set xs" "\<forall>x \<in> set xs. m \<le> x" by (auto simp: iter_min_Some)
  obtain m' where m': "m' \<in> set ys" "m' \<le> m" using assms(1) m(1) by blast
  have "m \<le> y" if "y \<in> set ys" for y
    using assms(2) [OF that] m(2) by (meson order.trans)
  moreover have "m = m'" using calculation [OF m'(1)] m'(2) by (rule order.antisym)
  ultimately have "iter_min ys = Some m" using m'(1) by (auto simp: iter_min_Some)
  with Some show ?thesis by simp
qed

lemma set_snd_keep_least:
  assumes "hm_wf m"
  shows "x \<in> set (map snd (keep_least k s m)) \<Longrightarrow> x = s \<or> x \<in> set (map snd m)"
    and "x \<in> set (map snd m) \<Longrightarrow> \<exists>y \<in> set (map snd (keep_least k s m)). y \<le> x"
    and "\<exists>y \<in> set (map snd (keep_least k s m)). y \<le> s"
proof -
  have wf: "hm_wf (keep_least k s m)" using assms by (rule hm_wf_keep_least)
  have mem: "(k', v) \<in> set (keep_least k s m) \<longleftrightarrow> map_of (keep_least k s m) k' = Some v" for k' v
    using hm_wf_lookup [OF wf] by simp
  show "x \<in> set (map snd (keep_least k s m)) \<Longrightarrow> x = s \<or> x \<in> set (map snd m)"
    by (auto simp: mem map_of_keep_least min_def image_iff split: if_splits option.splits
        dest!: map_of_SomeD)
  show "\<exists>y \<in> set (map snd (keep_least k s m)). y \<le> s"
  proof -
    let ?y = "case map_of m k of None \<Rightarrow> s | Some e \<Rightarrow> min e s"
    have "(k, ?y) \<in> set (keep_least k s m)" by (simp add: mem map_of_keep_least)
    moreover have "?y \<le> s" by (simp split: option.splits)
    ultimately show ?thesis by force
  qed
  show "\<exists>y \<in> set (map snd (keep_least k s m)). y \<le> x" if "x \<in> set (map snd m)"
  proof -
    from that obtain k' where k': "map_of m k' = Some x"
      using hm_wf_lookup [OF assms] by auto
    let ?y = "if k' = k then min x s else x"
    have "(k', ?y) \<in> set (keep_least k s m)" using k' by (auto simp: mem map_of_keep_least)
    moreover have "?y \<le> x" by simp
    ultimately show ?thesis by force
  qed
qed

lemma iter_min_least_seq:
  "least_seq s (iter_min xs) = iter_min (s # xs)"
  by (simp add: least_seq_def min.commute split: option.splits)

lemma iter_min_keep_least:
  assumes "hm_wf m"
  shows "iter_min (map snd (keep_least k s m) @ xs) = iter_min (s # map snd m @ xs)"
    and "iter_min (xs @ map snd (keep_least k s m)) = iter_min (s # xs @ map snd m)"
proof -
  note 1 = set_snd_keep_least(1) [OF assms, of _ k s]
    and 2 = set_snd_keep_least(2) [OF assms, of _ k s]
    and 3 = set_snd_keep_least(3) [OF assms, of k s]
  have lower: "\<exists>y \<in> set (s # map snd m @ xs). y \<le> x"
    if "x \<in> set (map snd (keep_least k s m) @ xs)" for x
  proof -
    from that have "x \<in> set (s # map snd m @ xs)" using 1 [of x] by (simp only: set_append set_simps) blast
    then show ?thesis by blast
  qed
  have upper: "\<exists>y \<in> set (map snd (keep_least k s m) @ xs). y \<le> x"
    if "x \<in> set (s # map snd m @ xs)" for x
  proof -
    from that consider "x = s" | "x \<in> set (map snd m)" | "x \<in> set xs" by (simp only: set_append set_simps) blast
    then show ?thesis using 2 [of x] 3 by cases (simp only: set_append, blast)+
  qed
  show "iter_min (map snd (keep_least k s m) @ xs) = iter_min (s # map snd m @ xs)"
    by (rule iter_min_eqI) (fact lower, fact upper)
  have sets: "set (xs @ map snd (keep_least k s m)) = set (map snd (keep_least k s m) @ xs)"
    "set (s # xs @ map snd m) = set (s # map snd m @ xs)" by auto
  show "iter_min (xs @ map snd (keep_least k s m)) = iter_min (s # xs @ map snd m)"
    by (rule iter_min_eqI) (simp only: sets, fact lower, simp only: sets, fact upper)
qed

lemma rs_ok_record_read: "rs_ok rs \<Longrightarrow> rs_ok (record_read rs k s)"
  by (simp add: rs_ok_def record_read_def Let_def hm_wf_keep_least iter_min_least_seq
      iter_min_keep_least del: iter_min.simps)

lemma rs_ok_record_prefix: "rs_ok rs \<Longrightarrow> rs_ok (record_prefix rs k s)"
  by (simp add: rs_ok_def record_prefix_def Let_def hm_wf_keep_least iter_min_least_seq
      iter_min_keep_least del: iter_min.simps)

section \<open>Coarsening\<close>

fun chunks :: "nat \<Rightarrow> 'a list \<Rightarrow> 'a list list" where
  "chunks n xs = (if xs = [] \<or> n = 0 then [] else take n xs # chunks n (drop n xs))"

declare chunks.simps [simp del]

definition div_ceil :: "nat \<Rightarrow> nat \<Rightarrow> nat" where
  "div_ceil a b = (a + b - 1) div b"

text \<open>\<open>lcp.iter().zip(k.iter()).take_while(|(a, b)| a == b).count()\<close>\<close>

fun lcp_len :: "'a list \<Rightarrow> 'a list \<Rightarrow> nat" where
  "lcp_len (a # as) (b # bs) = (if a = b then Suc (lcp_len as bs) else 0)"
| "lcp_len _ _ = 0"

fun lcp_loop :: "bytes \<Rightarrow> bytes list \<Rightarrow> bytes" where
  "lcp_loop lcp [] = lcp"
| "lcp_loop lcp (k # rest) =
     (let lcp = take (lcp_len lcp k) lcp in if lcp = [] then lcp else lcp_loop lcp rest)"

fun chunk_prefixes :: "bytes list list \<Rightarrow> bytes list \<Rightarrow> bytes list" where
  "chunk_prefixes [] acc = acc"
| "chunk_prefixes ([] # cs) acc = chunk_prefixes cs acc"
| "chunk_prefixes ((first # rest) # cs) acc =
     (let lcp = lcp_loop first rest
      in chunk_prefixes cs (if lcp \<in> set acc then acc else acc @ [lcp]))"

definition coarsen_keys_to_prefixes :: "bytes list \<Rightarrow> nat \<Rightarrow> bytes list" where
  "coarsen_keys_to_prefixes keys max_prefixes =
     (if keys = [] then []
      else if length keys \<le> max_prefixes then keys
      else let sorted_keys = sort keys;
               chunk_size = div_ceil (length sorted_keys) max_prefixes
           in chunk_prefixes (chunks chunk_size sorted_keys) [])"

lemma concat_chunks: "0 < n \<Longrightarrow> concat (chunks n xs) = xs"
proof (induction n xs rule: chunks.induct)
  case (1 n xs)
  then show ?case by (simp add: chunks.simps [of n xs])
qed

lemma length_chunks: "0 < n \<Longrightarrow> length (chunks n xs) = div_ceil (length xs) n"
proof (induction n xs rule: chunks.induct)
  case (1 n xs)
  show ?case
  proof (cases "xs = []")
    case True
    with 1 show ?thesis by (simp add: chunks.simps div_ceil_def)
  next
    case False
    with 1 have len: "length (chunks n xs) = Suc (div_ceil (length xs - n) n)"
      by (simp add: chunks.simps [of n xs])
    have pos: "0 < length xs" using False by simp
    show ?thesis
    proof (cases "length xs \<le> n")
      case True
      have "length xs + n - 1 = (length xs - 1) + n" using pos by linarith
      moreover have "((length xs - 1) + n) div n = (length xs - 1) div n + 1"
        using 1(2) by (intro div_add_self2) simp
      moreover have "(length xs - 1) div n = 0" using True pos by (intro div_less) linarith
      ultimately have "(length xs + n - 1) div n = 1" by (simp only: add_0)
      with True len 1(2) show ?thesis by (simp add: div_ceil_def)
    next
      case False
      then have "length xs + n - 1 = (length xs - n + n - 1) + n" using 1(2) by linarith
      moreover have "((length xs - n + n - 1) + n) div n = (length xs - n + n - 1) div n + 1"
        using 1(2) by (intro div_add_self2) simp
      ultimately show ?thesis unfolding len div_ceil_def by (simp only: Suc_eq_plus1)
    qed
  qed
qed

lemma lcp_len_le: "lcp_len a b \<le> length a"
  by (induction a b rule: lcp_len.induct) auto

lemma prefix_lcp: "prefix (take (lcp_len a b) a) b"
  by (induction a b rule: lcp_len.induct) auto

lemma lcp_loop_prefix:
  "prefix (lcp_loop p ks) p \<and> (\<forall>k \<in> set ks. prefix (lcp_loop p ks) k)"
proof (induction ks arbitrary: p)
  case Nil
  then show ?case by simp
next
  case (Cons k ks)
  let ?p = "take (lcp_len p k) p"
  have "prefix ?p p" "prefix ?p k" by (simp_all add: take_is_prefix prefix_lcp)
  with Cons [of ?p] show ?case by (auto simp: Let_def intro: prefix_order.trans)
qed

lemma chunk_prefixes_cover:
  "(\<forall>k \<in> set (concat cs). \<exists>p \<in> set (chunk_prefixes cs ps). prefix p k) \<and>
   set ps \<subseteq> set (chunk_prefixes cs ps)"
proof (induction cs ps rule: chunk_prefixes.induct)
  case (3 first rest cs ps)
  let ?lcp = "lcp_loop first rest"
  let ?ps = "if ?lcp \<in> set ps then ps else ps @ [?lcp]"
  have IH: "\<forall>k \<in> set (concat cs). \<exists>p \<in> set (chunk_prefixes cs ?ps). prefix p k"
    and sub: "set ?ps \<subseteq> set (chunk_prefixes cs ?ps)"
    using 3 [OF refl] by simp_all
  have lcp: "prefix ?lcp k" if "k \<in> set (first # rest)" for k
    using lcp_loop_prefix [of first rest] that by auto
  have res: "chunk_prefixes ((first # rest) # cs) ps = chunk_prefixes cs ?ps" by (simp add: Let_def)
  have "?lcp \<in> set ?ps" "set ps \<subseteq> set ?ps" by auto
  with sub have mem: "?lcp \<in> set (chunk_prefixes cs ?ps)" "set ps \<subseteq> set (chunk_prefixes cs ?ps)" by auto
  have "\<exists>p \<in> set (chunk_prefixes cs ?ps). prefix p k" if "k \<in> set (concat ((first # rest) # cs))" for k
  proof (cases "k \<in> set (first # rest)")
    case True
    with lcp mem(1) show ?thesis by blast
  next
    case False
    with that have "k \<in> set (concat cs)" by simp
    with IH show ?thesis by blast
  qed
  with mem(2) show ?case unfolding res by blast
qed auto

lemma length_chunk_prefixes: "length (chunk_prefixes cs ps) \<le> length ps + length cs"
  by (induction cs ps rule: chunk_prefixes.induct) (auto simp: Let_def split: if_splits)

lemma coarsen_cover:
  assumes "k \<in> set keys" and "0 < n"
  shows "\<exists>p \<in> set (coarsen_keys_to_prefixes keys n). prefix p k"
proof (cases "length keys \<le> n")
  case True
  with assms show ?thesis by (auto simp: coarsen_keys_to_prefixes_def)
next
  case False
  let ?c = "div_ceil (length (sort keys)) n"
  have "n \<le> length keys + n - 1" using False by simp
  then have "0 < ?c" using assms(2) by (simp add: div_ceil_def div_greater_zero_iff)
  then have "k \<in> set (concat (chunks ?c (sort keys)))" using assms by (simp add: concat_chunks)
  then have "\<exists>p \<in> set (chunk_prefixes (chunks ?c (sort keys)) []). prefix p k"
    using chunk_prefixes_cover [of "chunks ?c (sort keys)" "[]"] by blast
  moreover have "keys \<noteq> []" using assms(1) by auto
  ultimately show ?thesis using False by (simp add: coarsen_keys_to_prefixes_def Let_def)
qed

lemma div_ceil_div_ceil: "0 < n \<Longrightarrow> 0 < a \<Longrightarrow> div_ceil a (div_ceil a n) \<le> n"
proof -
  assume "0 < n" "0 < a"
  let ?c = "div_ceil a n"
  have c: "0 < ?c" using \<open>0 < n\<close> \<open>0 < a\<close> by (simp add: div_ceil_def div_greater_zero_iff)
  have "a + n - 1 < Suc ?c * n"
    using dividend_less_div_times [OF \<open>0 < n\<close>, of "a + n - 1"] by (simp add: div_ceil_def add.commute)
  then have "a \<le> n * ?c" by (simp add: mult.commute)
  then have "a + ?c - 1 < Suc n * ?c" using c by simp
  then have "(a + ?c - 1) div ?c < Suc n" using c by (simp add: div_less_iff_less_mult)
  then show ?thesis by (simp add: div_ceil_def [of a ?c])
qed

lemma coarsen_length:
  assumes "0 < n"
  shows "length (coarsen_keys_to_prefixes keys n) \<le> n"
proof (cases "length keys \<le> n")
  case True
  then show ?thesis by (simp add: coarsen_keys_to_prefixes_def)
next
  case False
  let ?c = "div_ceil (length keys) n"
  have "n \<le> length keys + n - 1" using False by simp
  then have "0 < ?c" using assms by (simp add: div_ceil_def div_greater_zero_iff)
  then have "length (chunk_prefixes (chunks ?c (sort keys)) []) \<le> div_ceil (length keys) ?c"
    using length_chunk_prefixes [of "chunks ?c (sort keys)" "[]"] by (simp add: length_chunks)
  also have "\<dots> \<le> n" using assms False by (intro div_ceil_div_ceil) auto
  finally show ?thesis by (simp add: coarsen_keys_to_prefixes_def Let_def)
qed

end
