(* ===== verification/Ssi.thy ===== *)
theory Ssi
  imports CommitRegister SeqLog Snapshot
begin

text \<open>
  The SSI validator: the second half of \<open>crates/contextra-mvcc/src/ssi.rs\<close>.

  \<open>committed_writes\<close> is the register (\<open>CommittedWrites\<close>): a hash map from a key to its latest
  commit sequence, and a B-tree from commit sequences to buckets. The loops that change the
  register while they walk it are folds over the list of sequence numbers taken before.
  \<open>ssi_validator\<close> is \<open>SequenceLogSsiValidator\<close>; its locks disappear, since every operation holds
  the write lock of the register for its whole body. \<open>derive_doc_id\<close>, the hash from a key to a
  document id, is a parameter (it calls an external hash function). Metrics and tracing have no
  effect on the state and are left out.
\<close>

section \<open>The register of committed writes\<close>

datatype seq_bucket = Exact "bytes list" | Coarsened "bytes list" nat

record committed_writes =
  cw_keys :: "(bytes \<times> u64) list"
  cw_index :: "(u64 \<times> seq_bucket) list"

definition cw_new :: committed_writes where
  "cw_new = \<lparr>cw_keys = [], cw_index = []\<rparr>"

fun bucket_prefixes :: "seq_bucket \<Rightarrow> bytes list" where
  "bucket_prefixes (Exact ks) = []"
| "bucket_prefixes (Coarsened ps n) = ps"

fun bucket_keys :: "seq_bucket \<Rightarrow> bytes list" where
  "bucket_keys (Exact ks) = ks"
| "bucket_keys (Coarsened ps n) = []"

definition coarsened_prefix_count :: "committed_writes \<Rightarrow> nat" where
  "coarsened_prefix_count w = sum_list (map (\<lambda>(seq, b). length (bucket_prefixes b)) (cw_index w))"

definition tracked_count :: "committed_writes \<Rightarrow> nat" where
  "tracked_count w = length (cw_keys w) + coarsened_prefix_count w"

definition add_to_bucket :: "bytes \<Rightarrow> seq_bucket option \<Rightarrow> seq_bucket" where
  "add_to_bucket key entry =
     (case entry of
        None \<Rightarrow> Exact [key]
      | Some (Exact keys) \<Rightarrow> Exact (if key \<in> set keys then keys else keys @ [key])
      | Some (Coarsened ps n) \<Rightarrow> Coarsened ps (n + 1))"

definition cw_insert :: "bytes \<Rightarrow> u64 \<Rightarrow> committed_writes \<Rightarrow> committed_writes" where
  "cw_insert key commit_seq w =
     (let commit_seq = mask_seq commit_seq
      in w\<lparr>cw_keys := AList.update key commit_seq (cw_keys w),
           cw_index := bt_insert commit_seq (add_to_bucket key (map_of (cw_index w) commit_seq))
                         (cw_index w)\<rparr>)"

definition forget_key :: "u64 \<Rightarrow> (bytes \<times> u64) list \<Rightarrow> bytes \<Rightarrow> (bytes \<times> u64) list" where
  "forget_key seq m k = (if map_of m k = Some seq then AList.delete k m else m)"

fun coarsen_seqs :: "u64 list \<Rightarrow> committed_writes \<Rightarrow> nat \<Rightarrow> committed_writes \<times> nat" where
  "coarsen_seqs [] w n = (w, n)"
| "coarsen_seqs (seq # seqs) w n =
     (case map_of (cw_index w) seq of
        Some (Exact keys) \<Rightarrow>
          coarsen_seqs seqs
            (w\<lparr>cw_keys := foldl (forget_key seq) (cw_keys w) keys,
               cw_index := bt_insert seq
                 (Coarsened (coarsen_keys_to_prefixes keys 2) (length keys)) (cw_index w)\<rparr>)
            (Suc n)
      | _ \<Rightarrow> coarsen_seqs seqs w n)"

definition coarsen_oldest_buckets :: "committed_writes \<Rightarrow> committed_writes \<times> nat" where
  "coarsen_oldest_buckets w = coarsen_seqs (map fst (cw_index w)) w 0"

text \<open>One of the two buckets of a merge: its keys leave the exact map, its prefixes are kept.\<close>

fun absorb_bucket ::
  "(bytes \<times> u64) list \<times> bytes list \<times> nat \<Rightarrow> seq_bucket \<times> u64 \<Rightarrow>
   (bytes \<times> u64) list \<times> bytes list \<times> nat" where
  "absorb_bucket (keys, ps, total_keys) (Exact ks, seq) =
     (foldl (forget_key seq) keys ks, ps @ coarsen_keys_to_prefixes ks 2, total_keys + length ks)"
| "absorb_bucket (keys, ps, total_keys) (Coarsened p n, seq) = (keys, ps @ p, total_keys + n)"

fun merge_chunks :: "u64 list list \<Rightarrow> committed_writes \<Rightarrow> nat \<Rightarrow> committed_writes \<times> nat" where
  "merge_chunks [] w n = (w, n)"
| "merge_chunks ([s1, s2] # cs) w n =
     (let index = AList.delete s2 (AList.delete s1 (cw_index w))
      in case (map_of (cw_index w) s1, map_of (AList.delete s1 (cw_index w)) s2) of
        (Some b1, Some b2) \<Rightarrow>
          (let (keys, ps, total_keys) = foldl absorb_bucket (cw_keys w, [], 0) [(b1, s1), (b2, s2)]
           in merge_chunks cs
                (w\<lparr>cw_keys := keys,
                   cw_index := bt_insert s2 (Coarsened (coarsen_keys_to_prefixes ps 2) total_keys) index\<rparr>)
                (Suc n))
      | _ \<Rightarrow> merge_chunks cs (w\<lparr>cw_index := index\<rparr>) n)"
| "merge_chunks (_ # cs) w n = merge_chunks cs w n"

definition merge_adjacent_buckets :: "committed_writes \<Rightarrow> committed_writes \<times> nat" where
  "merge_adjacent_buckets w =
     (if length (cw_index w) < 2 then (w, 0)
      else merge_chunks (chunks 2 (map fst (cw_index w))) w 0)"

definition highest_old_seq :: "(u64 \<times> seq_bucket) list \<Rightarrow> u64 \<Rightarrow> bytes \<Rightarrow> u64 option" where
  "highest_old_seq index first_seq key =
     map_option fst (find (\<lambda>(old_seq, b). key \<in> set (bucket_keys b))
       (rev (filter (\<lambda>e. fst e < first_seq) index)))"

definition restore_key ::
  "(u64 \<times> seq_bucket) list \<Rightarrow> u64 \<Rightarrow> u64 \<Rightarrow> (bytes \<times> u64) list \<times> nat \<Rightarrow> bytes \<Rightarrow> (bytes \<times> u64) list \<times> nat" where
  "restore_key index first_seq seq acc key =
     (case acc of (keys, removed) \<Rightarrow>
        if map_of keys key = Some seq
        then (case highest_old_seq index first_seq key of
                Some old_seq \<Rightarrow> AList.update key old_seq keys
              | None \<Rightarrow> AList.delete key keys, removed + 1)
        else (keys, removed))"

definition forget_bucket ::
  "(u64 \<times> seq_bucket) list \<Rightarrow> u64 \<Rightarrow> (bytes \<times> u64) list \<times> nat \<Rightarrow> u64 \<times> seq_bucket \<Rightarrow> (bytes \<times> u64) list \<times> nat" where
  "forget_bucket index first_seq acc e =
     (case e of
        (seq, Exact keys) \<Rightarrow> foldl (restore_key index first_seq seq) acc keys
      | (seq, Coarsened ps n) \<Rightarrow> (fst acc, snd acc + n))"

definition remove_from_seq :: "committed_writes \<Rightarrow> u64 \<Rightarrow> committed_writes \<times> nat" where
  "remove_from_seq w first_seq =
     (let first_seq = mask_seq first_seq;
          affected = filter (\<lambda>e. first_seq \<le> fst e) (cw_index w);
          (keys, removed) = foldl (forget_bucket (cw_index w) first_seq) (cw_keys w, 0) affected
      in (\<lparr>cw_keys = keys,
           cw_index = foldl (\<lambda>m seq. AList.delete seq m) (cw_index w) (map fst affected)\<rparr>, removed))"

definition drop_key :: "u64 \<Rightarrow> (bytes \<times> u64) list \<times> nat \<Rightarrow> bytes \<Rightarrow> (bytes \<times> u64) list \<times> nat" where
  "drop_key seq acc key =
     (case acc of (keys, removed) \<Rightarrow>
        if map_of keys key = Some seq then (AList.delete key keys, removed + 1) else (keys, removed))"

definition drop_bucket ::
  "(bytes \<times> u64) list \<times> nat \<Rightarrow> u64 \<times> seq_bucket \<Rightarrow> (bytes \<times> u64) list \<times> nat" where
  "drop_bucket acc e =
     (case e of
        (seq, Exact keys) \<Rightarrow> foldl (drop_key seq) acc keys
      | (seq, Coarsened ps n) \<Rightarrow> (fst acc, snd acc + n))"

definition cw_prune_through :: "committed_writes \<Rightarrow> u64 \<Rightarrow> committed_writes \<times> nat" where
  "cw_prune_through w bound_seq =
     (let bound_seq = mask_seq bound_seq;
          affected = filter (\<lambda>e. fst e \<le> bound_seq) (cw_index w);
          (keys, removed) = foldl drop_bucket (cw_keys w, 0) affected
      in (\<lparr>cw_keys = keys,
           cw_index = foldl (\<lambda>m seq. AList.delete seq m) (cw_index w) (map fst affected)\<rparr>, removed))"

definition cw_get :: "committed_writes \<Rightarrow> bytes \<Rightarrow> u64 option" where
  "cw_get w key = map_of (cw_keys w) key"

section \<open>The validator\<close>

datatype ssi_conflict =
    SnapshotTooOld u64 bytes u64 u64
  | KeyModified u64 bytes u64 u64
  | CoarsenedMatch u64 bytes bytes u64 u64
  | DocModified u64 u64 u64 u64
  | RangeTooOld u64 bytes u64 u64
  | PhantomKey u64 bytes bytes u64 u64
  | PhantomPrefix u64 bytes bytes u64 u64
  | CapacityReached u64 nat nat

type_synonym ssi_result = "ssi_conflict + unit"

record ssi_validator =
  sv_writes :: committed_writes
  sv_seq_log :: "sequence_log option"
  sv_registry :: "snapshot_registry option"
  sv_pruned :: u64
  sv_max_tracked :: nat
  sv_max_pin :: nat

definition new_with_bounds :: "nat \<Rightarrow> ssi_validator" where
  "new_with_bounds max_tracked_keys =
     \<lparr>sv_writes = cw_new, sv_seq_log = None, sv_registry = None, sv_pruned = 0,
      sv_max_tracked = max_tracked_keys, sv_max_pin = DEFAULT_MAX_PIN_DURATION\<rparr>"

definition DEFAULT_MAX_TRACKED_COMMIT_KEYS :: nat where
  "DEFAULT_MAX_TRACKED_COMMIT_KEYS = 1000000"

definition with_sequence_log :: "sequence_log \<Rightarrow> ssi_validator" where
  "with_sequence_log l =
     \<lparr>sv_writes = cw_new, sv_seq_log = Some l, sv_registry = None, sv_pruned = 0,
      sv_max_tracked = DEFAULT_MAX_TRACKED_COMMIT_KEYS, sv_max_pin = DEFAULT_MAX_PIN_DURATION\<rparr>"

definition I64_MAX :: u64 where
  "I64_MAX = 2 ^ 63 - 1"

definition ssi_prune_through :: "ssi_validator \<Rightarrow> u64 \<Rightarrow> ssi_validator \<times> nat" where
  "ssi_prune_through v bound_seq =
     (if bound_seq = U64_MAX \<or> bound_seq AND TOMBSTONE_BIT \<noteq> 0 \<or> bound_seq \<ge> I64_MAX then (v, 0)
      else let (w, removed) = cw_prune_through (sv_writes v) bound_seq
           in (v\<lparr>sv_writes := w, sv_pruned := max (sv_pruned v) bound_seq\<rparr>, removed))"

definition forget_from :: "ssi_validator \<Rightarrow> u64 \<Rightarrow> ssi_validator \<times> nat" where
  "forget_from v first_seq =
     (let (w, removed) = remove_from_seq (sv_writes v) (mask_seq first_seq)
      in (v\<lparr>sv_writes := w\<rparr>, removed))"

text \<open>\<open>while writes.len() >= threshold && rounds < 10\<close>, with the rounds that are left.\<close>

fun coarsen_rounds :: "nat \<Rightarrow> nat \<Rightarrow> committed_writes \<Rightarrow> committed_writes" where
  "coarsen_rounds 0 threshold w = w"
| "coarsen_rounds (Suc rounds) threshold w =
     (if tracked_count w \<ge> threshold
      then let (w1, coarsened) = coarsen_oldest_buckets w;
               (w2, merged) = merge_adjacent_buckets w1
           in if coarsened = 0 \<and> merged = 0 then w2 else coarsen_rounds rounds threshold w2
      else w)"

definition check_and_coarsen_if_needed :: "ssi_validator \<Rightarrow> committed_writes \<Rightarrow> committed_writes" where
  "check_and_coarsen_if_needed v w = coarsen_rounds 10 (sv_max_tracked v * 80 div 100) w"

definition record_commit_key :: "ssi_validator \<Rightarrow> bytes \<Rightarrow> u64 \<Rightarrow> ssi_validator" where
  "record_commit_key v key commit_seq =
     v\<lparr>sv_writes := check_and_coarsen_if_needed v (cw_insert key (mask_seq commit_seq) (sv_writes v))\<rparr>"

definition insert_all :: "bytes list \<Rightarrow> u64 \<Rightarrow> committed_writes \<Rightarrow> committed_writes" where
  "insert_all keys commit_seq w = foldl (\<lambda>w key. cw_insert key commit_seq w) w keys"

definition record_commit_keys :: "ssi_validator \<Rightarrow> bytes list \<Rightarrow> u64 \<Rightarrow> ssi_validator" where
  "record_commit_keys v keys commit_seq =
     v\<lparr>sv_writes := check_and_coarsen_if_needed v (insert_all keys (mask_seq commit_seq) (sv_writes v))\<rparr>"

text \<open>The loops of the validation return at the first conflict: \<open>first_error\<close>.\<close>

fun first_error :: "('a \<Rightarrow> ('e + unit)) \<Rightarrow> 'a list \<Rightarrow> 'e + unit" where
  "first_error f [] = Inr ()"
| "first_error f (x # xs) = (case f x of Inl e \<Rightarrow> Inl e | Inr _ \<Rightarrow> first_error f xs)"

definition then_check :: "('e + unit) \<Rightarrow> ('e + unit) \<Rightarrow> 'e + unit" where
  "then_check a b = (case a of Inl e \<Rightarrow> Inl e | Inr _ \<Rightarrow> b)"

definition coarsened_point_check ::
  "committed_writes \<Rightarrow> u64 \<Rightarrow> bytes \<Rightarrow> u64 \<Rightarrow> ssi_result" where
  "coarsened_point_check w tx key snapshot_seq =
     first_error (\<lambda>(commit_seq, b).
        if commit_seq > snapshot_seq
        then first_error (\<lambda>p. if prefix p key
               then Inl (CoarsenedMatch tx key p commit_seq snapshot_seq) else Inr ()) (bucket_prefixes b)
        else Inr ()) (cw_index w)"

definition validate_sequence_log_for_key ::
  "(bytes \<Rightarrow> u64) \<Rightarrow> ssi_validator \<Rightarrow> u64 \<Rightarrow> bytes \<Rightarrow> u64 \<Rightarrow> ssi_result" where
  "validate_sequence_log_for_key derive_doc_id v tx key snapshot_seq =
     (case sv_seq_log v of
        None \<Rightarrow> Inr ()
      | Some l \<Rightarrow>
          first_error (\<lambda>change.
            if change_doc_id change = derive_doc_id key \<and> change_seq change > snapshot_seq
            then Inl (DocModified tx (derive_doc_id key) (change_seq change) snapshot_seq)
            else Inr ()) (changes_since l snapshot_seq))"

definition validate_point_read ::
  "(bytes \<Rightarrow> u64) \<Rightarrow> ssi_validator \<Rightarrow> committed_writes \<Rightarrow> u64 \<Rightarrow> u64 \<Rightarrow> bytes \<times> u64 \<Rightarrow> ssi_result" where
  "validate_point_read derive_doc_id v w tx pruned entry =
     (case entry of (key, snapshot_seq) \<Rightarrow>
        if snapshot_seq < pruned then Inl (SnapshotTooOld tx key snapshot_seq pruned)
        else then_check
          (case cw_get w key of
             Some commit_seq \<Rightarrow>
               if commit_seq > snapshot_seq
               then Inl (KeyModified tx key commit_seq snapshot_seq) else Inr ()
           | None \<Rightarrow> Inr ())
          (then_check (coarsened_point_check w tx key snapshot_seq)
             (validate_sequence_log_for_key derive_doc_id v tx key snapshot_seq)))"

definition validate_point_reads ::
  "(bytes \<Rightarrow> u64) \<Rightarrow> ssi_validator \<Rightarrow> committed_writes \<Rightarrow> u64 \<Rightarrow> (bytes \<times> u64) list \<Rightarrow> u64 \<Rightarrow> ssi_result" where
  "validate_point_reads derive_doc_id v w tx entries pruned =
     first_error (validate_point_read derive_doc_id v w tx pruned) entries"

definition validate_range_read ::
  "committed_writes \<Rightarrow> u64 \<Rightarrow> u64 \<Rightarrow> bytes \<times> u64 \<Rightarrow> ssi_result" where
  "validate_range_read w tx pruned entry =
     (case entry of (pfx, snapshot_seq) \<Rightarrow>
        if snapshot_seq < pruned then Inl (RangeTooOld tx pfx snapshot_seq pruned)
        else then_check
          (first_error (\<lambda>(committed_key, commit_seq).
             if prefix pfx committed_key \<and> commit_seq > snapshot_seq
             then Inl (PhantomKey tx committed_key pfx commit_seq snapshot_seq) else Inr ()) (cw_keys w))
          (first_error (\<lambda>(commit_seq, b).
             if commit_seq > snapshot_seq
             then first_error (\<lambda>cp. if prefix pfx cp \<or> prefix cp pfx
                    then Inl (PhantomPrefix tx cp pfx commit_seq snapshot_seq) else Inr ())
                    (bucket_prefixes b)
             else Inr ()) (cw_index w)))"

definition validate_range_reads ::
  "committed_writes \<Rightarrow> u64 \<Rightarrow> (bytes \<times> u64) list \<Rightarrow> u64 \<Rightarrow> ssi_result" where
  "validate_range_reads w tx pfxs pruned = first_error (validate_range_read w tx pruned) pfxs"

definition validate_internal ::
  "(bytes \<Rightarrow> u64) \<Rightarrow> ssi_validator \<Rightarrow> committed_writes \<Rightarrow> u64 \<Rightarrow> read_set \<Rightarrow> ssi_result" where
  "validate_internal derive_doc_id v w tx rs =
     (if read_set_is_empty rs then Inr ()
      else if tracked_count w \<ge> sv_max_tracked v
      then Inl (CapacityReached tx (tracked_count w) (sv_max_tracked v))
      else then_check
        (validate_point_reads derive_doc_id v w tx (sort_key fst (rs_keys rs)) (sv_pruned v))
        (validate_range_reads w tx (sort_key fst (rs_prefixes rs)) (sv_pruned v)))"

definition validate ::
  "(bytes \<Rightarrow> u64) \<Rightarrow> ssi_validator \<Rightarrow> u64 \<Rightarrow> read_set \<Rightarrow> ssi_result" where
  "validate derive_doc_id v tx rs = validate_internal derive_doc_id v (sv_writes v) tx rs"

definition validate_and_record ::
  "(bytes \<Rightarrow> u64) \<Rightarrow> ssi_validator \<Rightarrow> u64 \<Rightarrow> read_set \<Rightarrow> bytes list \<Rightarrow> u64 \<Rightarrow> ssi_validator \<times> ssi_result" where
  "validate_and_record derive_doc_id v tx rs write_keys commit_seq =
     (let commit_seq = mask_seq commit_seq
      in case validate_internal derive_doc_id v (sv_writes v) tx rs of
           Inl e \<Rightarrow> (v, Inl e)
         | Inr _ \<Rightarrow> (v\<lparr>sv_writes := insert_all write_keys commit_seq (sv_writes v)\<rparr>, Inr ()))"

section \<open>Diagnosis\<close>

record pruning_blocker_info =
  pb_min_unpruned_seq :: u64
  pb_pruned_through_seq :: u64
  pb_tracked_commit_keys :: nat
  pb_total_seq_buckets :: nat
  pb_coarsened_seq_buckets :: nat
  pb_max_tracked_keys :: nat
  pb_longest_active_snapshot_seq :: "u64 option"
  pb_longest_pin_duration :: "u64 option"
  pb_is_pin_expired :: bool

fun is_coarsened :: "seq_bucket \<Rightarrow> bool" where
  "is_coarsened (Exact ks) = False"
| "is_coarsened (Coarsened ps n) = True"

definition diagnose_pruning_blocker_at :: "ssi_validator \<Rightarrow> u64 \<Rightarrow> pruning_blocker_info option" where
  "diagnose_pruning_blocker_at v now_nanos =
     (case cw_index (sv_writes v) of
        [] \<Rightarrow> None
      | (min_unpruned_seq, _) # _ \<Rightarrow>
          (let longest_pin = Option.bind (sv_registry v) (\<lambda>reg. longest_active_pin_at reg now_nanos)
           in Some \<lparr>pb_min_unpruned_seq = min_unpruned_seq,
                pb_pruned_through_seq = sv_pruned v,
                pb_tracked_commit_keys = tracked_count (sv_writes v),
                pb_total_seq_buckets = length (cw_index (sv_writes v)),
                pb_coarsened_seq_buckets =
                  length (filter (\<lambda>(seq, b). is_coarsened b) (cw_index (sv_writes v))),
                pb_max_tracked_keys = sv_max_tracked v,
                pb_longest_active_snapshot_seq = map_option fst longest_pin,
                pb_longest_pin_duration = map_option snd longest_pin,
                pb_is_pin_expired = (case longest_pin of None \<Rightarrow> False
                   | Some (seq, dur) \<Rightarrow> unat dur > sv_max_pin v)\<rparr>))"

end
