(* ===== verification/SsiCorrect.thy ===== *)
theory SsiCorrect
  imports Ssi
begin

text \<open>
  Correctness of the SSI validator of \<open>Ssi\<close>: no conflict with a recorded commit is missed,
  through coarsening, merging and pruning; validation is exact while nothing was coarsened; the
  coarsening rounds bound the register; and what \<open>forget_from\<close> takes away.
\<close>

section \<open>The register stays well formed\<close>

definition cw_wf :: "committed_writes \<Rightarrow> bool" where
  "cw_wf w \<longleftrightarrow> hm_wf (cw_keys w) \<and> bt_wf (cw_index w)"

lemma hm_wf_forget_key: "hm_wf m \<Longrightarrow> hm_wf (forget_key seq m k)"
  by (simp add: forget_key_def)

lemma hm_wf_forget_keys: "hm_wf m \<Longrightarrow> hm_wf (foldl (forget_key seq) m ks)"
  by (induction ks arbitrary: m) (auto simp: hm_wf_forget_key)

lemma map_of_forget_keys:
  "map_of (foldl (forget_key seq) m ks) k =
     (if k \<in> set ks \<and> map_of m k = Some seq then None else map_of m k)"
proof (induction ks arbitrary: m)
  case Nil
  then show ?case by simp
next
  case (Cons x xs)
  then show ?case by (simp add: forget_key_def map_simps)
qed

lemma cw_wf_new: "cw_wf cw_new"
  by (simp add: cw_wf_def cw_new_def)

lemma cw_wf_insert: "cw_wf w \<Longrightarrow> cw_wf (cw_insert k s w)"
  by (simp add: cw_wf_def cw_insert_def Let_def)

section \<open>Covered commits\<close>

text \<open>A commit of \<open>k\<close> at \<open>s\<close> is covered when a reader of an older snapshot is refused: its
  history is pruned, or the exact map or a coarsened bucket holds it.\<close>

definition exact_cover :: "(bytes \<times> u64) list \<Rightarrow> bytes \<Rightarrow> u64 \<Rightarrow> bool" where
  "exact_cover keys k s \<longleftrightarrow> (\<exists>s'. map_of keys k = Some s' \<and> s \<le> s')"

definition coarse_cover :: "(u64 \<times> seq_bucket) list \<Rightarrow> bytes \<Rightarrow> u64 \<Rightarrow> bool" where
  "coarse_cover index k s \<longleftrightarrow>
     (\<exists>q b. map_of index q = Some b \<and> s \<le> q \<and> (\<exists>p \<in> set (bucket_prefixes b). prefix p k))"

definition covered :: "committed_writes \<Rightarrow> bytes \<Rightarrow> u64 \<Rightarrow> bool" where
  "covered w k s \<longleftrightarrow> exact_cover (cw_keys w) k s \<or> coarse_cover (cw_index w) k s"

lemma exact_cover_forget_keys:
  "exact_cover m k s \<Longrightarrow>
     exact_cover (foldl (forget_key seq) m ks) k s \<or> (k \<in> set ks \<and> map_of m k = Some seq \<and> s \<le> seq)"
  by (auto simp: exact_cover_def map_of_forget_keys)

lemma coarse_cover_coarsen:
  assumes "map_of index seq = Some (Exact ks)"
    and "coarse_cover index k s \<or> (k \<in> set ks \<and> s \<le> seq)"
  shows "coarse_cover (bt_insert seq (Coarsened (coarsen_keys_to_prefixes ks 2) n) index) k s"
proof (cases "k \<in> set ks \<and> s \<le> seq")
  case True
  with coarsen_cover [of k ks 2] show ?thesis
    by (auto simp: coarse_cover_def map_simps intro!: exI [of _ seq])
next
  case False
  with assms(2) obtain q b p where "map_of index q = Some b" "s \<le> q" "p \<in> set (bucket_prefixes b)"
    "prefix p k" by (auto simp: coarse_cover_def)
  moreover from this assms(1) have "q \<noteq> seq" by auto
  ultimately show ?thesis by (auto simp: coarse_cover_def map_simps intro!: exI [of _ q])
qed

lemma coarsen_seqs_preserves:
  "cw_wf w \<Longrightarrow> cw_wf (fst (coarsen_seqs seqs w n)) \<and>
     (covered w k s \<longrightarrow> covered (fst (coarsen_seqs seqs w n)) k s)"
proof (induction seqs w n rule: coarsen_seqs.induct)
  case (1 w n)
  then show ?case by simp
next
  case (2 seq seqs w n)
  show ?case
  proof (cases "map_of (cw_index w) seq")
    case None
    with 2 show ?thesis by simp
  next
    case (Some b)
    show ?thesis
    proof (cases b)
      case (Coarsened ps m)
      with Some 2 show ?thesis by simp
    next
      case (Exact ks)
      let ?w = "w\<lparr>cw_keys := foldl (forget_key seq) (cw_keys w) ks,
         cw_index := bt_insert seq (Coarsened (coarsen_keys_to_prefixes ks 2) (length ks)) (cw_index w)\<rparr>"
      have "cw_wf ?w" using 2(4) by (simp add: cw_wf_def hm_wf_forget_keys bt_wf_insert)
      moreover have "covered ?w k s" if "covered w k s"
      proof (cases "exact_cover (cw_keys ?w) k s")
        case True
        then show ?thesis by (simp add: covered_def)
      next
        case False
        with that have "coarse_cover (cw_index w) k s \<or> (k \<in> set ks \<and> s \<le> seq)"
          using exact_cover_forget_keys [of "cw_keys w" k s seq ks] by (auto simp: covered_def)
        then show ?thesis
          using coarse_cover_coarsen Some Exact by (auto simp: covered_def)
      qed
      ultimately show ?thesis using 2(2) [OF Some Exact] Some Exact by simp
    qed
  qed
qed

lemma coarsen_oldest_preserves:
  assumes "cw_wf w"
  shows "cw_wf (fst (coarsen_oldest_buckets w))"
    and "covered w k s \<Longrightarrow> covered (fst (coarsen_oldest_buckets w)) k s"
  using coarsen_seqs_preserves [OF assms] by (simp_all add: coarsen_oldest_buckets_def)

text \<open>What absorbing one bucket keeps.\<close>

lemma absorb_bucket_keeps:
  assumes "absorb_bucket (keys, ps, n) (b, seq) = (keys', ps', n')" and "hm_wf keys"
  shows "hm_wf keys' \<and> set ps \<subseteq> set ps' \<and> set (bucket_prefixes b) \<subseteq> set ps' \<and>
    (exact_cover keys k s \<longrightarrow> exact_cover keys' k s \<or> (s \<le> seq \<and> (\<exists>p \<in> set ps'. prefix p k)))"
proof (cases b)
  case (Exact ks)
  with assms have eqs: "keys' = foldl (forget_key seq) keys ks" "ps' = ps @ coarsen_keys_to_prefixes ks 2"
    by auto
  have "exact_cover keys' k s \<or> (s \<le> seq \<and> (\<exists>p \<in> set ps'. prefix p k))" if "exact_cover keys k s"
    using exact_cover_forget_keys [OF that, of seq ks] coarsen_cover [of k ks 2] by (auto simp: eqs)
  with Exact assms(2) show ?thesis by (simp add: eqs hm_wf_forget_keys)
next
  case (Coarsened p m)
  with assms show ?thesis by auto
qed

lemma merge_pair_covered:
  assumes "cw_wf w" and "s1 < s2" and b1: "map_of (cw_index w) s1 = Some b1"
    and b2: "map_of (cw_index w) s2 = Some b2"
    and "foldl absorb_bucket (cw_keys w, [], 0) [(b1, s1), (b2, s2)] = (keys, ps, total_keys)"
    and "covered w k s"
  shows "hm_wf keys \<and> covered (w\<lparr>cw_keys := keys, cw_index := bt_insert s2
     (Coarsened (coarsen_keys_to_prefixes ps 2) total_keys)
     (AList.delete s2 (AList.delete s1 (cw_index w)))\<rparr>) k s"
proof -
  obtain keys1 ps1 n1 where 1: "absorb_bucket (cw_keys w, [], 0) (b1, s1) = (keys1, ps1, n1)"
    by (metis prod_cases3)
  with assms(5) have 2: "absorb_bucket (keys1, ps1, n1) (b2, s2) = (keys, ps, total_keys)" by simp
  from assms(1) have wf: "hm_wf (cw_keys w)" by (simp add: cw_wf_def)
  note k1 = absorb_bucket_keeps [OF 1 wf, of k s]
  then have wf1: "hm_wf keys1" by simp
  note k2 = absorb_bucket_keeps [OF 2 wf1, of k s]
  let ?i = "bt_insert s2 (Coarsened (coarsen_keys_to_prefixes ps 2) total_keys)
     (AList.delete s2 (AList.delete s1 (cw_index w)))"
  have new: "coarse_cover ?i k s" if le: "s \<le> s2" and mem: "p \<in> set ps" and pk: "prefix p k" for p
  proof -
    obtain p' where "p' \<in> set (coarsen_keys_to_prefixes ps 2)" "prefix p' p"
      using coarsen_cover [OF mem, of 2] by auto
    moreover then have "prefix p' k" using pk by (blast intro: prefix_order.trans)
    ultimately show ?thesis using le by (auto simp: coarse_cover_def map_simps intro!: exI [of _ s2])
  qed
  from assms(6) consider "exact_cover (cw_keys w) k s" | "coarse_cover (cw_index w) k s"
    by (auto simp: covered_def)
  then have "exact_cover keys k s \<or> coarse_cover ?i k s"
  proof cases
    case 1
    with k1 k2 consider "exact_cover keys k s" | p where "s \<le> s2" "p \<in> set ps" "prefix p k"
      using assms(2) by (meson in_mono less_imp_le order.trans)
    then show ?thesis using new by cases auto
  next
    case 2
    then obtain q b p where q: "map_of (cw_index w) q = Some b" "s \<le> q"
      "p \<in> set (bucket_prefixes b)" "prefix p k" by (auto simp: coarse_cover_def)
    show ?thesis
    proof (cases "q = s1 \<or> q = s2")
      case True
      with q b1 b2 k1 k2 have "p \<in> set ps" by auto
      moreover have "s \<le> s2" using True q(2) assms(2) by auto
      ultimately show ?thesis using new q(4) by blast
    next
      case False
      with q show ?thesis by (auto simp: coarse_cover_def map_simps intro!: exI [of _ q])
    qed
  qed
  with k2 show ?thesis by (auto simp: covered_def)
qed

text \<open>Merging works on the pairs of a strictly ascending list of sequence numbers.\<close>

lemma merge_chunks_pair:
  assumes "map_of (cw_index w) s1 = Some b1" and "map_of (cw_index w) s2 = Some b2" and "s1 \<noteq> s2"
  obtains keys ps total_keys where
    "foldl absorb_bucket (cw_keys w, [], 0) [(b1, s1), (b2, s2)] = (keys, ps, total_keys)"
    "merge_chunks ([s1, s2] # cs) w n = merge_chunks cs (w\<lparr>cw_keys := keys, cw_index := bt_insert s2
       (Coarsened (coarsen_keys_to_prefixes ps 2) total_keys)
       (AList.delete s2 (AList.delete s1 (cw_index w)))\<rparr>) (Suc n)"
proof -
  obtain keys ps total_keys where r:
    "foldl absorb_bucket (cw_keys w, [], 0) [(b1, s1), (b2, s2)] = (keys, ps, total_keys)"
    by (metis prod_cases3)
  moreover have "map_of (AList.delete s1 (cw_index w)) s2 = Some b2"
    using assms by (simp add: map_simps)
  ultimately show ?thesis using assms(1) by (intro that [OF r]) (simp add: Let_def)
qed

lemma merge_chunks_preserves:
  "cw_wf w \<Longrightarrow> sorted_wrt (<) (concat cs) \<Longrightarrow> set (concat cs) \<subseteq> dom (map_of (cw_index w)) \<Longrightarrow>
   cw_wf (fst (merge_chunks cs w n)) \<and> (covered w k s \<longrightarrow> covered (fst (merge_chunks cs w n)) k s)"
proof (induction cs arbitrary: w n)
  case Nil
  then show ?case by simp
next
  case (Cons c cs)
  show ?case
  proof (cases "\<exists>s1 s2. c = [s1, s2]")
    case False
    then have "merge_chunks (c # cs) w n = merge_chunks cs w n"
      by (cases "(c # cs, w, n)" rule: merge_chunks.cases) auto
    with Cons show ?thesis by (simp add: sorted_wrt_append)
  next
    case True
    then obtain s1 s2 where c: "c = [s1, s2]" by blast
    with Cons.prems obtain b1 b2 where b: "map_of (cw_index w) s1 = Some b1" "map_of (cw_index w) s2 = Some b2"
      by auto
    from Cons.prems(2) c have lt: "s1 < s2" and later: "\<forall>x \<in> set (concat cs). s2 < x"
      and sorted: "sorted_wrt (<) (concat cs)" by auto
    obtain keys ps total_keys where r:
      "foldl absorb_bucket (cw_keys w, [], 0) [(b1, s1), (b2, s2)] = (keys, ps, total_keys)"
      "merge_chunks ([s1, s2] # cs) w n = merge_chunks cs (w\<lparr>cw_keys := keys, cw_index := bt_insert s2
         (Coarsened (coarsen_keys_to_prefixes ps 2) total_keys)
         (AList.delete s2 (AList.delete s1 (cw_index w)))\<rparr>) (Suc n)" (is "_ = merge_chunks cs ?w _")
      using merge_chunks_pair [OF b] lt by (metis less_irrefl)
    have "covered w k s \<longrightarrow> covered ?w k s"
      using merge_pair_covered [OF Cons.prems(1) lt b r(1), of k s] by blast
    moreover have "hm_wf keys"
    proof -
      obtain keys1 ps1 n1 where 1: "absorb_bucket (cw_keys w, [], 0) (b1, s1) = (keys1, ps1, n1)"
        by (metis prod_cases3)
      with r(1) have 2: "absorb_bucket (keys1, ps1, n1) (b2, s2) = (keys, ps, total_keys)" by simp
      from Cons.prems(1) have "hm_wf (cw_keys w)" by (simp add: cw_wf_def)
      with absorb_bucket_keeps [OF 1] absorb_bucket_keeps [OF 2] show ?thesis by blast
    qed
    then have "cw_wf ?w" using Cons.prems(1) by (simp add: cw_wf_def bt_wf_insert)
    moreover have "set (concat cs) \<subseteq> dom (map_of (cw_index ?w))"
      using Cons.prems(3) later lt by (force simp: map_simps)
    ultimately show ?thesis using Cons.IH [of ?w "Suc n"] sorted r(2) c by simp
  qed
qed

lemma bt_keys: "bt_wf m \<Longrightarrow> sorted_wrt (<) (map fst m) \<and> set (map fst m) = dom (map_of m)"
  by (simp add: bt_wf_def dom_map_of_conv_image_fst)

lemma merge_adjacent_preserves:
  assumes "cw_wf w"
  shows "cw_wf (fst (merge_adjacent_buckets w))"
    and "covered w k s \<Longrightarrow> covered (fst (merge_adjacent_buckets w)) k s"
  using merge_chunks_preserves [OF assms, of "chunks 2 (map fst (cw_index w))" 0] assms
    bt_keys [of "cw_index w"]
  by (simp_all add: merge_adjacent_buckets_def cw_wf_def concat_chunks del: set_map)

lemma coarsen_rounds_preserves:
  "cw_wf w \<Longrightarrow> cw_wf (coarsen_rounds n t w) \<and> (covered w k s \<longrightarrow> covered (coarsen_rounds n t w) k s)"
proof (induction n t w rule: coarsen_rounds.induct)
  case (1 t w)
  then show ?case by simp
next
  case (2 n t w)
  obtain w1 c where w1: "coarsen_oldest_buckets w = (w1, c)" by force
  obtain w2 m where w2: "merge_adjacent_buckets w1 = (w2, m)" by force
  note c = coarsen_oldest_preserves [OF 2(2), unfolded w1 fst_conv]
  note m = merge_adjacent_preserves [OF c(1), unfolded w2 fst_conv]
  show ?case
  proof (cases "tracked_count w \<ge> t \<and> \<not> (c = 0 \<and> m = 0)")
    case True
    then have "cw_wf (coarsen_rounds n t w2) \<and> (covered w2 k s \<longrightarrow> covered (coarsen_rounds n t w2) k s)"
      using 2(1) [OF _ w1 [symmetric] _ w2 [symmetric]] m(1) by blast
    with True c(2) m(2) w1 w2 show ?thesis by auto
  next
    case False
    with c(2) m w1 w2 2(2) show ?thesis by auto
  qed
qed

lemma check_and_coarsen_preserves:
  "cw_wf w \<Longrightarrow> cw_wf (check_and_coarsen_if_needed v w)"
  "cw_wf w \<Longrightarrow> covered w k s \<Longrightarrow> covered (check_and_coarsen_if_needed v w) k s"
  using coarsen_rounds_preserves by (auto simp: check_and_coarsen_if_needed_def)

text \<open>Insertion covers the new commit, and keeps the old ones when the sequence does not go back.\<close>

lemma coarse_cover_insert:
  "coarse_cover index k' s' \<Longrightarrow> coarse_cover (bt_insert seq (add_to_bucket k (map_of index seq)) index) k' s'"
proof -
  assume "coarse_cover index k' s'"
  then obtain q b p where q: "map_of index q = Some b" "s' \<le> q" "p \<in> set (bucket_prefixes b)" "prefix p k'"
    by (auto simp: coarse_cover_def)
  have "\<exists>b'. map_of (bt_insert seq (add_to_bucket k (map_of index seq)) index) q = Some b' \<and>
      p \<in> set (bucket_prefixes b')"
    using q(1,3) by (cases b) (auto simp: map_simps add_to_bucket_def)
  with q show ?thesis unfolding coarse_cover_def by blast
qed

lemma covered_insert:
  "covered w k' s' \<or> (k' = k \<and> s' = mask_seq s) \<Longrightarrow> (\<And>x. map_of (cw_keys w) k = Some x \<Longrightarrow> x \<le> mask_seq s) \<Longrightarrow>
   covered (cw_insert k s w) k' s'"
  using coarse_cover_insert [of "cw_index w" k' s' "mask_seq s" k]
  by (fastforce simp: covered_def cw_insert_def Let_def exact_cover_def map_simps)


lemma insert_all_preserves:
  assumes "cw_wf w" and "\<And>k x. map_of (cw_keys w) k = Some x \<Longrightarrow> x \<le> mask_seq s"
  shows "cw_wf (insert_all ks s w)"
    and "map_of (cw_keys (insert_all ks s w)) k = (if k \<in> set ks then Some (mask_seq s) else map_of (cw_keys w) k)"
    and "covered w k' s' \<or> (k' \<in> set ks \<and> s' = mask_seq s) \<Longrightarrow> covered (insert_all ks s w) k' s'"
proof -
  have "cw_wf (insert_all ks s w) \<and>
    (\<forall>k. map_of (cw_keys (insert_all ks s w)) k = (if k \<in> set ks then Some (mask_seq s) else map_of (cw_keys w) k)) \<and>
    (covered w k' s' \<or> (k' \<in> set ks \<and> s' = mask_seq s) \<longrightarrow> covered (insert_all ks s w) k' s')"
    using assms unfolding insert_all_def
  proof (induction ks arbitrary: w)
    case Nil
    then show ?case by simp
  next
    case (Cons x xs)
    let ?w = "cw_insert x s w"
    have lookup: "map_of (cw_keys ?w) = (map_of (cw_keys w))(x \<mapsto> mask_seq s)"
      by (simp add: cw_insert_def Let_def map_simps)
    have "cw_wf ?w" using Cons.prems(1) by (rule cw_wf_insert)
    moreover have "y \<le> mask_seq s" if "map_of (cw_keys ?w) k = Some y" for k y
      using that Cons.prems(2) by (auto simp: lookup split: if_splits)
    ultimately have IH: "cw_wf (foldl (\<lambda>w key. cw_insert key s w) ?w xs) \<and>
      (\<forall>k. map_of (cw_keys (foldl (\<lambda>w key. cw_insert key s w) ?w xs)) k =
        (if k \<in> set xs then Some (mask_seq s) else map_of (cw_keys ?w) k)) \<and>
      (covered ?w k' s' \<or> (k' \<in> set xs \<and> s' = mask_seq s) \<longrightarrow>
        covered (foldl (\<lambda>w key. cw_insert key s w) ?w xs) k' s')"
      by (rule Cons.IH)
    have "covered ?w k' s'" if "covered w k' s' \<or> (k' = x \<and> s' = mask_seq s)"
      using that Cons.prems(2) by (rule covered_insert)
    with IH show ?case by (auto simp: lookup)
  qed
  then show "cw_wf (insert_all ks s w)"
    and "map_of (cw_keys (insert_all ks s w)) k = (if k \<in> set ks then Some (mask_seq s) else map_of (cw_keys w) k)"
    and "covered w k' s' \<or> (k' \<in> set ks \<and> s' = mask_seq s) \<Longrightarrow> covered (insert_all ks s w) k' s'"
    by blast+
qed

section \<open>Pruning\<close>

lemma foldl_delete: "foldl (\<lambda>m k. AList.delete k m) m ks = filter (\<lambda>e. fst e \<notin> set ks) m"
  by (induction ks arbitrary: m) (auto simp: delete_eq_filter intro: filter_cong)

lemma map_of_filter_key: "map_of (filter (\<lambda>e. P (fst e)) m) k = (if P k then map_of m k else None)"
  by (induction m) auto

lemma drop_keys_fst:
  "map_of (fst (foldl (drop_key seq) acc ks)) k =
     (if k \<in> set ks \<and> map_of (fst acc) k = Some seq then None else map_of (fst acc) k) \<and>
   (hm_wf (fst acc) \<longrightarrow> hm_wf (fst (foldl (drop_key seq) acc ks)))"
proof (induction ks arbitrary: acc)
  case Nil
  then show ?case by simp
next
  case (Cons x xs)
  have "map_of (fst (drop_key seq acc x)) k =
      (if k = x \<and> map_of (fst acc) k = Some seq then None else map_of (fst acc) k) \<and>
    (hm_wf (fst acc) \<longrightarrow> hm_wf (fst (drop_key seq acc x)))"
    by (cases acc) (auto simp: drop_key_def map_simps)
  with Cons [of "drop_key seq acc x"] show ?case by auto
qed

lemma drop_buckets_fst:
  "map_of (fst (foldl drop_bucket acc es)) k = map_of (fst acc) k \<or>
     (map_of (fst (foldl drop_bucket acc es)) k = None \<and>
      (\<exists>e \<in> set es. map_of (fst acc) k = Some (fst e)))"
  "hm_wf (fst acc) \<Longrightarrow> hm_wf (fst (foldl drop_bucket acc es))"
proof -
  have step: "(map_of (fst (drop_bucket acc e)) k = map_of (fst acc) k \<or>
      (map_of (fst (drop_bucket acc e)) k = None \<and> map_of (fst acc) k = Some (fst e))) \<and>
    (hm_wf (fst acc) \<longrightarrow> hm_wf (fst (drop_bucket acc e)))" for acc e
    using drop_keys_fst [of "fst e" acc "bucket_keys (snd e)" k]
    by (cases e; cases "snd e") (auto simp: drop_bucket_def)
  show "map_of (fst (foldl drop_bucket acc es)) k = map_of (fst acc) k \<or>
     (map_of (fst (foldl drop_bucket acc es)) k = None \<and>
      (\<exists>e \<in> set es. map_of (fst acc) k = Some (fst e)))"
  proof (induction es arbitrary: acc)
    case Nil
    then show ?case by simp
  next
    case (Cons e es)
    let ?r = "map_of (fst (foldl drop_bucket acc (e # es))) k"
    from Cons [of "drop_bucket acc e"] have "?r = map_of (fst (drop_bucket acc e)) k \<or>
        (?r = None \<and> (\<exists>x \<in> set es. map_of (fst (drop_bucket acc e)) k = Some (fst x)))"
      by (simp only: foldl.simps)
    with step [of acc e] show ?case
      by (elim disjE conjE) (auto simp del: foldl.simps)
  qed
  show "hm_wf (fst (foldl drop_bucket acc es))" if "hm_wf (fst acc)"
    using that step by (induction es arbitrary: acc) auto
qed

lemma prune_preserves:
  assumes "cw_wf w" and "cw_prune_through w bound = (w', n)"
  shows "cw_wf w'"
    and "covered w k s \<Longrightarrow> covered w' k s \<or> s \<le> mask_seq bound"
    and "map_of (cw_keys w') k = Some x \<Longrightarrow> map_of (cw_keys w) k = Some x"
    and "cw_index w' = filter (\<lambda>e. mask_seq bound < fst e) (cw_index w)"
proof -
  let ?aff = "filter (\<lambda>e. fst e \<le> mask_seq bound) (cw_index w)"
  obtain keys m where km: "foldl drop_bucket (cw_keys w, 0) ?aff = (keys, m)" by force
  with assms(2) have w': "w' = \<lparr>cw_keys = keys,
      cw_index = foldl (\<lambda>m seq. AList.delete seq m) (cw_index w) (map fst ?aff)\<rparr>"
    by (simp add: cw_prune_through_def Let_def)
  show index: "cw_index w' = filter (\<lambda>e. mask_seq bound < fst e) (cw_index w)"
    unfolding w' by (auto simp: foldl_delete intro!: filter_cong)
  note keys = drop_buckets_fst [where acc = "(cw_keys w, 0)" and es = ?aff, unfolded km fst_conv]
  from keys(2) assms(1) index show "cw_wf w'"
    by (auto simp: w' cw_wf_def bt_wf_filter simp del: index)
  show "map_of (cw_keys w') k = Some x \<Longrightarrow> map_of (cw_keys w) k = Some x"
    using keys(1) [of k] by (auto simp: w')
  show "covered w' k s \<or> s \<le> mask_seq bound" if "covered w k s"
  proof (cases "exact_cover (cw_keys w) k s")
    case True
    then obtain x where x: "map_of (cw_keys w) k = Some x" "s \<le> x" by (auto simp: exact_cover_def)
    from keys(1) [of k] consider "map_of keys k = map_of (cw_keys w) k"
      | e where "e \<in> set ?aff" "map_of (cw_keys w) k = Some (fst e)" by blast
    then show ?thesis
    proof cases
      case 1
      with x show ?thesis by (simp add: covered_def exact_cover_def w')
    next
      case 2
      with x show ?thesis by auto
    qed
  next
    case False
    with that obtain q b p where q: "map_of (cw_index w) q = Some b" "s \<le> q"
      "p \<in> set (bucket_prefixes b)" "prefix p k" by (auto simp: covered_def coarse_cover_def)
    show ?thesis
    proof (cases "q \<le> mask_seq bound")
      case True
      with q(2) show ?thesis by auto
    next
      case False
      then have "map_of (cw_index w') q = Some b" by (simp add: index map_of_filter_key q(1) not_le)
      with q show ?thesis by (auto simp: covered_def coarse_cover_def)
    qed
  qed
qed


section \<open>What validation checks\<close>

lemma first_error_ok: "first_error f xs = Inr () \<longleftrightarrow> (\<forall>x \<in> set xs. f x = Inr ())"
  by (induction xs) (auto split: sum.splits)

lemma then_check_ok: "then_check a b = Inr () \<longleftrightarrow> a = Inr () \<and> b = Inr ()"
  by (auto simp: then_check_def split: sum.splits)

lemmas check_ok = first_error_ok then_check_ok

definition point_ok :: "committed_writes \<Rightarrow> u64 \<Rightarrow> bytes \<Rightarrow> u64 \<Rightarrow> bool" where
  "point_ok w pruned key r \<longleftrightarrow> pruned \<le> r \<and> (\<forall>s. map_of (cw_keys w) key = Some s \<longrightarrow> s \<le> r) \<and>
     (\<forall>(q, b) \<in> set (cw_index w). r < q \<longrightarrow> (\<forall>p \<in> set (bucket_prefixes b). \<not> prefix p key))"

definition range_ok :: "committed_writes \<Rightarrow> u64 \<Rightarrow> bytes \<Rightarrow> u64 \<Rightarrow> bool" where
  "range_ok w pruned pfx r \<longleftrightarrow> pruned \<le> r \<and>
     (\<forall>(k, s) \<in> set (cw_keys w). prefix pfx k \<longrightarrow> s \<le> r) \<and>
     (\<forall>(q, b) \<in> set (cw_index w). r < q \<longrightarrow>
        (\<forall>p \<in> set (bucket_prefixes b). \<not> prefix p pfx \<and> \<not> prefix pfx p))"

definition doc_ok :: "(bytes \<Rightarrow> u64) \<Rightarrow> ssi_validator \<Rightarrow> bytes \<Rightarrow> u64 \<Rightarrow> bool" where
  "doc_ok D v key r \<longleftrightarrow> (\<forall>l. sv_seq_log v = Some l \<longrightarrow>
     (\<forall>c \<in> set (changes_since l r). change_doc_id c = D key \<longrightarrow> change_seq c \<le> r))"

lemma validate_point_read_ok:
  "validate_point_read D v w tx pruned (key, r) = Inr () \<longleftrightarrow> point_ok w pruned key r \<and> doc_ok D v key r"
proof -
  have "validate_sequence_log_for_key D v tx key r = Inr () \<longleftrightarrow> doc_ok D v key r"
    by (auto simp: validate_sequence_log_for_key_def doc_ok_def check_ok not_less split: option.splits if_splits)
  moreover have "coarsened_point_check w tx key r = Inr () \<longleftrightarrow>
     (\<forall>(q, b) \<in> set (cw_index w). r < q \<longrightarrow> (\<forall>p \<in> set (bucket_prefixes b). \<not> prefix p key))"
    by (auto simp: coarsened_point_check_def check_ok split: if_splits)
  ultimately show ?thesis
    by (auto simp: validate_point_read_def point_ok_def check_ok cw_get_def not_less
        split: option.splits)
qed

lemma validate_range_read_ok:
  "validate_range_read w tx pruned (pfx, r) = Inr () \<longleftrightarrow> range_ok w pruned pfx r"
proof -
  have "first_error (\<lambda>(q, b). if r < q
      then first_error (\<lambda>cp. if prefix pfx cp \<or> prefix cp pfx
             then Inl (PhantomPrefix tx cp pfx q r) else Inr ()) (bucket_prefixes b)
      else Inr ()) (cw_index w) = Inr () \<longleftrightarrow> (\<forall>(q, b) \<in> set (cw_index w). r < q \<longrightarrow>
        (\<forall>p \<in> set (bucket_prefixes b). \<not> prefix p pfx \<and> \<not> prefix pfx p))"
    by (auto simp: check_ok split: if_splits)
  moreover have "first_error (\<lambda>(k, s). if prefix pfx k \<and> r < s
      then Inl (PhantomKey tx k pfx s r) else Inr ()) (cw_keys w) = Inr () \<longleftrightarrow>
      (\<forall>(k, s) \<in> set (cw_keys w). prefix pfx k \<longrightarrow> s \<le> r)"
    by (auto simp: check_ok not_less split: if_splits)
  ultimately show ?thesis
    by (simp add: validate_range_read_def range_ok_def then_check_ok not_le [symmetric])
qed

lemma validate_ok_iff:
  "validate D v tx rs = Inr () \<longleftrightarrow> read_set_is_empty rs \<or>
     (tracked_count (sv_writes v) < sv_max_tracked v \<and>
      (\<forall>(k, r) \<in> set (rs_keys rs). point_ok (sv_writes v) (sv_pruned v) k r \<and> doc_ok D v k r) \<and>
      (\<forall>(p, r) \<in> set (rs_prefixes rs). range_ok (sv_writes v) (sv_pruned v) p r))"
  by (auto simp: validate_def validate_internal_def check_ok validate_point_reads_def
      validate_range_reads_def validate_point_read_ok validate_range_read_ok not_le)

text \<open>A transaction read the key \<open>k\<close> at the snapshot \<open>r\<close>, by itself or in a range scan.\<close>

definition reads :: "read_set \<Rightarrow> bytes \<Rightarrow> u64 \<Rightarrow> bool" where
  "reads rs k r \<longleftrightarrow> (k, r) \<in> set (rs_keys rs) \<or> (\<exists>p. prefix p k \<and> (p, r) \<in> set (rs_prefixes rs))"

lemma covered_conflict:
  assumes "cw_wf (sv_writes v)" and "covered (sv_writes v) k s \<or> s \<le> sv_pruned v"
    and "reads rs k r" and "r < s"
  shows "validate D v tx rs \<noteq> Inr ()"
proof
  let ?w = "sv_writes v"
  assume "validate D v tx rs = Inr ()"
  moreover have "\<not> read_set_is_empty rs" using assms(3) by (auto simp: reads_def read_set_is_empty_def)
  ultimately have pts: "\<And>k r. (k, r) \<in> set (rs_keys rs) \<Longrightarrow> point_ok ?w (sv_pruned v) k r"
    and rng: "\<And>p r. (p, r) \<in> set (rs_prefixes rs) \<Longrightarrow> range_ok ?w (sv_pruned v) p r"
    by (auto simp: validate_ok_iff)
  have lookup: "map_of (cw_index ?w) q = Some b \<Longrightarrow> (q, b) \<in> set (cw_index ?w)" for q b
    by (rule map_of_SomeD)
  from assms(3) consider "(k, r) \<in> set (rs_keys rs)"
    | p where "prefix p k" "(p, r) \<in> set (rs_prefixes rs)" by (auto simp: reads_def)
  then show False
  proof cases
    case 1
    from pts [OF 1] have ok: "point_ok ?w (sv_pruned v) k r" .
    from assms(2) consider "s \<le> sv_pruned v" | "exact_cover (cw_keys ?w) k s" | "coarse_cover (cw_index ?w) k s"
      by (auto simp: covered_def)
    then show False
    proof cases
      case 1
      from ok have "sv_pruned v \<le> r" by (simp add: point_ok_def)
      with 1 assms(4) show False by (meson leD order.trans)
    next
      case 2
      with ok assms(4) show False by (auto simp: exact_cover_def point_ok_def)
    next
      case 3
      then obtain q b p where q: "map_of (cw_index ?w) q = Some b" "s \<le> q"
        "p \<in> set (bucket_prefixes b)" "prefix p k" by (auto simp: coarse_cover_def)
      have "r < q" using q(2) assms(4) by simp
      with ok lookup [OF q(1)] q show False by (auto simp: point_ok_def)
    qed
  next
    case 2
    from rng [OF 2(2)] have ok: "range_ok ?w (sv_pruned v) p r" .
    from assms(2) consider "s \<le> sv_pruned v" | "exact_cover (cw_keys ?w) k s" | "coarse_cover (cw_index ?w) k s"
      by (auto simp: covered_def)
    then show False
    proof cases
      case 1
      from ok have "sv_pruned v \<le> r" by (simp add: range_ok_def)
      with 1 assms(4) show False by (meson leD order.trans)
    next
      case e: 2
      then obtain s' where s': "(k, s') \<in> set (cw_keys ?w)" "s \<le> s'"
        by (auto simp: exact_cover_def dest: map_of_SomeD)
      with ok 2(1) have "s' \<le> r" by (auto simp: range_ok_def)
      with s'(2) assms(4) show False by simp
    next
      case 3
      then obtain q b p' where q: "map_of (cw_index ?w) q = Some b" "s \<le> q"
        "p' \<in> set (bucket_prefixes b)" "prefix p' k" by (auto simp: coarse_cover_def)
      have "prefix p' p \<or> prefix p p'" using q(4) 2(1) by (rule prefix_same_cases)
      moreover have "r < q" using q(2) assms(4) by simp
      ultimately show False using ok lookup [OF q(1)] q(3) by (auto simp: range_ok_def)
    qed
  qed
qed


section \<open>Runs of the validator\<close>

datatype ssi_op =
    RecordKey bytes u64
  | RecordKeys "bytes list" u64
  | ValidateRecord u64 read_set "bytes list" u64
  | PruneThrough u64

text \<open>One operation: the validator after it, and the commits it has recorded.\<close>

fun ssi_step :: "(bytes \<Rightarrow> u64) \<Rightarrow> ssi_validator \<Rightarrow> ssi_op \<Rightarrow> ssi_validator \<times> (bytes \<times> u64) list" where
  "ssi_step D v (RecordKey k s) = (record_commit_key v k s, [(k, mask_seq s)])"
| "ssi_step D v (RecordKeys ks s) = (record_commit_keys v ks s, map (\<lambda>k. (k, mask_seq s)) ks)"
| "ssi_step D v (ValidateRecord tx rs ks s) =
     (case validate_and_record D v tx rs ks s of
        (v', Inl e) \<Rightarrow> (v', [])
      | (v', Inr _) \<Rightarrow> (v', map (\<lambda>k. (k, mask_seq s)) ks))"
| "ssi_step D v (PruneThrough b) = (fst (ssi_prune_through v b), [])"

fun ssi_run :: "(bytes \<Rightarrow> u64) \<Rightarrow> ssi_validator \<Rightarrow> ssi_op list \<Rightarrow> ssi_validator \<times> (bytes \<times> u64) list" where
  "ssi_run D v [] = (v, [])"
| "ssi_run D v (op # ops) =
     (let (v1, c1) = ssi_step D v op; (v2, c2) = ssi_run D v1 ops in (v2, c1 @ c2))"

text \<open>The store hands out commit sequence numbers in ascending order.\<close>

fun op_seq :: "ssi_op \<Rightarrow> u64 option" where
  "op_seq (RecordKey k s) = Some (mask_seq s)"
| "op_seq (RecordKeys ks s) = Some (mask_seq s)"
| "op_seq (ValidateRecord tx rs ks s) = Some (mask_seq s)"
| "op_seq (PruneThrough b) = None"

definition commits_ascending :: "ssi_op list \<Rightarrow> bool" where
  "commits_ascending ops \<longleftrightarrow> sorted (List.map_filter op_seq ops)"

definition keys_below :: "ssi_validator \<Rightarrow> u64 \<Rightarrow> bool" where
  "keys_below v q \<longleftrightarrow> (\<forall>k x. map_of (cw_keys (sv_writes v)) k = Some x \<longrightarrow> x \<le> q)"

definition sv_covers :: "ssi_validator \<Rightarrow> bytes \<times> u64 \<Rightarrow> bool" where
  "sv_covers v c \<longleftrightarrow> covered (sv_writes v) (fst c) (snd c) \<or> snd c \<le> sv_pruned v"

lemma lookup_coarsen_seqs:
  "map_of (cw_keys (fst (coarsen_seqs seqs w n))) k = Some x \<Longrightarrow> map_of (cw_keys w) k = Some x"
  by (induction seqs w n rule: coarsen_seqs.induct)
    (auto simp: map_of_forget_keys split: option.splits seq_bucket.splits if_splits)

lemma lookup_absorb:
  "map_of (fst (absorb_bucket acc e)) k = Some x \<Longrightarrow> map_of (fst acc) k = Some x"
  by (cases "(acc, e)" rule: absorb_bucket.cases) (auto simp: map_of_forget_keys split: if_splits)

lemma lookup_merge_chunks:
  "map_of (cw_keys (fst (merge_chunks cs w n))) k = Some x \<Longrightarrow> map_of (cw_keys w) k = Some x"
proof (induction cs arbitrary: w n)
  case Nil
  then show ?case by simp
next
  case (Cons c cs)
  show ?case
  proof (cases "\<exists>s1 s2. c = [s1, s2]")
    case False
    then have "merge_chunks (c # cs) w n = merge_chunks cs w n"
      by (cases "(c # cs, w, n)" rule: merge_chunks.cases) auto
    with Cons show ?thesis by simp
  next
    case True
    then obtain s1 s2 where c: "c = [s1, s2]" by blast
    let ?l1 = "map_of (cw_index w) s1" and ?l2 = "map_of (AList.delete s1 (cw_index w)) s2"
    show ?thesis
    proof (cases "?l1 = None \<or> ?l2 = None")
      case True
      with Cons.prems c have "map_of (cw_keys (fst (merge_chunks cs
          (w\<lparr>cw_index := AList.delete s2 (AList.delete s1 (cw_index w))\<rparr>) n))) k = Some x"
        by (auto simp: Let_def split: option.splits)
      from Cons.IH [OF this] show ?thesis by simp
    next
      case False
      then obtain b1 b2 where b: "?l1 = Some b1" "?l2 = Some b2" by auto
      obtain keys ps n' where r: "foldl absorb_bucket (cw_keys w, [], 0) [(b1, s1), (b2, s2)] = (keys, ps, n')"
        by (metis prod_cases3)
      then have "map_of keys k = Some x \<Longrightarrow> map_of (cw_keys w) k = Some x"
        using lookup_absorb [of "absorb_bucket (cw_keys w, [], 0) (b1, s1)" "(b2, s2)" k x]
          lookup_absorb [of "(cw_keys w, [], 0)" "(b1, s1)" k x] by simp
      moreover have "map_of keys k = Some x"
        using Cons.prems b r c Cons.IH by (fastforce simp: Let_def)
      ultimately show ?thesis by blast
    qed
  qed
qed

lemma lookup_coarsen_rounds:
  "map_of (cw_keys (coarsen_rounds n t w)) k = Some x \<Longrightarrow> map_of (cw_keys w) k = Some x"
proof (induction n t w rule: coarsen_rounds.induct)
  case (1 t w)
  then show ?case by simp
next
  case (2 n t w)
  obtain w1 c where w1: "coarsen_oldest_buckets w = (w1, c)" by force
  obtain w2 m where w2: "merge_adjacent_buckets w1 = (w2, m)" by force
  have one: "map_of (cw_keys w2) k = Some x \<Longrightarrow> map_of (cw_keys w) k = Some x"
    using w1 w2 lookup_coarsen_seqs [of "map fst (cw_index w)" w 0 k x]
      lookup_merge_chunks [of "chunks 2 (map fst (cw_index w1))" w1 0 k x]
    by (auto simp: coarsen_oldest_buckets_def merge_adjacent_buckets_def split: if_splits)
  show ?case
  proof (cases "tracked_count w \<ge> t \<and> \<not> (c = 0 \<and> m = 0)")
    case True
    with 2(2) w1 w2 have "map_of (cw_keys (coarsen_rounds n t w2)) k = Some x" by auto
    then show ?thesis using True 2(1) [OF _ w1 [symmetric] refl w2 [symmetric] refl] one by blast
  next
    case False
    with 2(2) w1 w2 one show ?thesis by (auto split: if_splits)
  qed
qed

lemma keys_below_insert_all:
  assumes "cw_wf (sv_writes v)" and "keys_below v q" and "q \<le> mask_seq s"
  shows "map_of (cw_keys (insert_all ks (mask_seq s) (sv_writes v))) k = Some x \<Longrightarrow> x \<le> mask_seq s"
    and "cw_wf (insert_all ks (mask_seq s) (sv_writes v))"
    and "covered (sv_writes v) k' s' \<or> (k' \<in> set ks \<and> s' = mask_seq s) \<Longrightarrow>
           covered (insert_all ks (mask_seq s) (sv_writes v)) k' s'"
proof -
  have below: "x \<le> mask_seq (mask_seq s)" if "map_of (cw_keys (sv_writes v)) k = Some x" for k x
    using assms(2,3) that unfolding keys_below_def mask_seq_idem by (meson order.trans)
  note i = insert_all_preserves [of "sv_writes v" "mask_seq s", OF assms(1) below]
  show "map_of (cw_keys (insert_all ks (mask_seq s) (sv_writes v))) k = Some x \<Longrightarrow> x \<le> mask_seq s"
    using i(2) [where ks = ks and k = k] below [of k x] by (auto split: if_splits)
  show "cw_wf (insert_all ks (mask_seq s) (sv_writes v))" by (rule i(1))
  show "covered (sv_writes v) k' s' \<or> (k' \<in> set ks \<and> s' = mask_seq s) \<Longrightarrow>
      covered (insert_all ks (mask_seq s) (sv_writes v)) k' s'"
    using i(3) [where k' = k' and s' = s' and ks = ks] by simp
qed

lemma record_as_insert_all: "record_commit_key v k s = record_commit_keys v [k] s"
  by (simp add: record_commit_key_def record_commit_keys_def insert_all_def)

definition sv_inv :: "ssi_validator \<Rightarrow> u64 \<Rightarrow> (bytes \<times> u64) list \<Rightarrow> bool" where
  "sv_inv v q cs \<longleftrightarrow> cw_wf (sv_writes v) \<and> keys_below v q \<and> (\<forall>c \<in> set cs. sv_covers v c)"

lemma sv_inv_mono: "sv_inv v q cs \<Longrightarrow> q \<le> q' \<Longrightarrow> sv_inv v q' cs"
  unfolding sv_inv_def keys_below_def by (meson order.trans)

lemma sv_inv_record_keys:
  assumes "sv_inv v q cs" and "q \<le> mask_seq s"
  shows "sv_inv (record_commit_keys v ks s) (mask_seq s) (cs @ map (\<lambda>k. (k, mask_seq s)) ks)"
proof -
  from assms have wf: "cw_wf (sv_writes v)" and below: "keys_below v q"
    and cov: "\<And>c. c \<in> set cs \<Longrightarrow> sv_covers v c" by (auto simp: sv_inv_def)
  note i = keys_below_insert_all [OF wf below assms(2)]
  let ?w = "insert_all ks (mask_seq s) (sv_writes v)"
  have "sv_covers (record_commit_keys v ks s) c"
    if "c \<in> set cs \<or> (fst c \<in> set ks \<and> snd c = mask_seq s)" for c
  proof -
    have "covered (sv_writes v) (fst c) (snd c) \<or> (fst c \<in> set ks \<and> snd c = mask_seq s) \<or> snd c \<le> sv_pruned v"
      using that cov [of c] unfolding sv_covers_def by blast
    then have "covered ?w (fst c) (snd c) \<or> snd c \<le> sv_pruned v" using i(3) by blast
    then show ?thesis using check_and_coarsen_preserves(2) [OF i(2)]
      by (auto simp: sv_covers_def record_commit_keys_def)
  qed
  moreover have "keys_below (record_commit_keys v ks s) (mask_seq s)"
    using i(1) by (auto simp: keys_below_def record_commit_keys_def check_and_coarsen_if_needed_def
        dest!: lookup_coarsen_rounds)
  moreover have "cw_wf (sv_writes (record_commit_keys v ks s))"
    using check_and_coarsen_preserves(1) [OF i(2)] by (simp add: record_commit_keys_def)
  ultimately show ?thesis by (auto simp: sv_inv_def)
qed


lemma sv_inv_validate_record:
  assumes "sv_inv v q cs" and "q \<le> mask_seq s" and "validate_and_record D v tx rs ks s = (v', res)"
  shows "sv_inv v' (mask_seq s) (cs @ (case res of Inl e \<Rightarrow> [] | Inr _ \<Rightarrow> map (\<lambda>k. (k, mask_seq s)) ks))"
proof (cases "validate_internal D v (sv_writes v) tx rs")
  case (Inl e)
  with assms(3) have "v' = v" "res = Inl e" by (simp_all add: validate_and_record_def)
  with sv_inv_mono [OF assms(1,2)] show ?thesis by simp
next
  case (Inr u)
  let ?w = "insert_all ks (mask_seq s) (sv_writes v)"
  from Inr assms(3) have v': "v' = v\<lparr>sv_writes := ?w\<rparr>" and res: "res = Inr ()"
    by (auto simp: validate_and_record_def)
  from assms have wf: "cw_wf (sv_writes v)" and below: "keys_below v q"
    and cov: "\<And>c. c \<in> set cs \<Longrightarrow> sv_covers v c" by (auto simp: sv_inv_def)
  note i = keys_below_insert_all [OF wf below assms(2)]
  have "sv_covers v' c" if "c \<in> set cs \<or> (fst c \<in> set ks \<and> snd c = mask_seq s)" for c
  proof -
    have "covered (sv_writes v) (fst c) (snd c) \<or> (fst c \<in> set ks \<and> snd c = mask_seq s) \<or> snd c \<le> sv_pruned v"
      using that cov [of c] unfolding sv_covers_def by blast
    then have "covered ?w (fst c) (snd c) \<or> snd c \<le> sv_pruned v" using i(3) by blast
    then show ?thesis by (simp add: sv_covers_def v')
  qed
  moreover have "keys_below v' (mask_seq s)" using i(1) by (auto simp: keys_below_def v')
  moreover have "cw_wf (sv_writes v')" using i(2) by (simp add: v')
  ultimately show ?thesis by (auto simp: sv_inv_def res)
qed

lemma sv_inv_prune:
  assumes "sv_inv v q cs"
  shows "sv_inv (fst (ssi_prune_through v b)) q cs"
proof (cases "b = U64_MAX \<or> b AND TOMBSTONE_BIT \<noteq> 0 \<or> b \<ge> I64_MAX")
  case True
  with assms show ?thesis by (simp add: ssi_prune_through_def)
next
  case False
  then have mask: "mask_seq b = b" by (intro mask_seq_id) simp
  obtain w n where w: "cw_prune_through (sv_writes v) b = (w, n)" by force
  from False w have v': "fst (ssi_prune_through v b) = v\<lparr>sv_writes := w, sv_pruned := max (sv_pruned v) b\<rparr>"
    by (auto simp: ssi_prune_through_def)
  from assms have wf: "cw_wf (sv_writes v)" by (simp add: sv_inv_def)
  note p = prune_preserves [OF wf w]
  have "sv_covers (fst (ssi_prune_through v b)) c" if "c \<in> set cs" for c
  proof -
    from assms that have "covered (sv_writes v) (fst c) (snd c) \<or> snd c \<le> sv_pruned v"
      by (auto simp: sv_inv_def sv_covers_def)
    then have "covered w (fst c) (snd c) \<or> snd c \<le> b \<or> snd c \<le> sv_pruned v"
      using p(2) unfolding mask by blast
    then show ?thesis by (auto simp: sv_covers_def v' le_max_iff_disj)
  qed
  moreover have "keys_below (fst (ssi_prune_through v b)) q"
    using assms p(3) by (auto simp: keys_below_def v' sv_inv_def)
  ultimately show ?thesis using p(1) by (simp add: sv_inv_def v')
qed

lemma sv_inv_run:
  "sv_inv v q cs \<Longrightarrow> commits_ascending ops \<Longrightarrow>
   (\<forall>s \<in> set (List.map_filter op_seq ops). q \<le> s) \<Longrightarrow> ssi_run D v ops = (v', cs') \<Longrightarrow>
   \<exists>q'. sv_inv v' q' (cs @ cs')"
proof (induction ops arbitrary: v q cs cs')
  case Nil
  then show ?case by auto
next
  case (Cons op ops)
  obtain v1 c1 where 1: "ssi_step D v op = (v1, c1)" by force
  obtain v2 c2 where 2: "ssi_run D v1 ops = (v2, c2)" by force
  from Cons.prems(4) 1 2 have eq: "v' = v2" "cs' = c1 @ c2" by auto
  let ?q = "case op_seq op of None \<Rightarrow> q | Some s \<Rightarrow> s"
  have asc: "commits_ascending ops" and ge: "\<forall>s \<in> set (List.map_filter op_seq ops). ?q \<le> s"
    and q: "q \<le> ?q"
    using Cons.prems(2,3) by (auto simp: commits_ascending_def map_filter_simps split: option.splits)
  have "sv_inv v1 ?q (cs @ c1)"
  proof (cases op)
    case (RecordKey k s)
    with 1 q sv_inv_record_keys [OF Cons.prems(1), of s "[k]"] show ?thesis
      by (simp add: record_as_insert_all)
  next
    case (RecordKeys ks s)
    with 1 q sv_inv_record_keys [OF Cons.prems(1), of s ks] show ?thesis by simp
  next
    case (ValidateRecord tx rs ks s)
    obtain v3 res where r: "validate_and_record D v tx rs ks s = (v3, res)" by force
    from ValidateRecord 1 r q sv_inv_validate_record [OF Cons.prems(1) _ r] show ?thesis
      by (cases res) auto
  next
    case (PruneThrough b)
    with 1 sv_inv_prune [OF Cons.prems(1), of b] show ?thesis by auto
  qed
  from Cons.IH [OF this asc ge 2 [folded eq(1)]] show ?case by (simp add: eq(2))
qed

lemma sv_inv_new: "sv_writes v = cw_new \<Longrightarrow> sv_inv v 0 []"
  by (simp add: sv_inv_def cw_wf_new keys_below_def) (simp add: cw_new_def)

text \<open>C8: no conflict is missed. After any sequence of recorded commits, validated commits and
  prunings from an empty register, with commit sequence numbers that do not go back, a read set
  that read a key (by itself or in a range scan) at a snapshot older than a recorded commit of
  this key is refused, however much of the register was coarsened, merged or pruned meanwhile.\<close>

theorem no_missed_conflict:
  assumes "sv_writes v0 = cw_new" and "commits_ascending ops"
    and "ssi_run D v0 ops = (v, commits)" and "(k, s) \<in> set commits"
    and "reads rs k r" and "r < s"
  shows "validate D v tx rs \<noteq> Inr ()"
proof -
  obtain q where "sv_inv v q ([] @ commits)"
    using sv_inv_run [OF sv_inv_new [OF assms(1)] assms(2) _ assms(3)] by auto
  then have "cw_wf (sv_writes v)" "covered (sv_writes v) k s \<or> s \<le> sv_pruned v"
    using assms(4) by (auto simp: sv_inv_def sv_covers_def)
  then show ?thesis using assms(5,6) by (rule covered_conflict)
qed

theorem no_missed_conflict_witness:
  "validate (\<lambda>_. 0) (fst (ssi_run (\<lambda>_. 0) (new_with_bounds 3)
     [RecordKey [1, 2] 5, RecordKey [1, 3] 6, RecordKey [1, 4] 7, PruneThrough 5])) 9
     (record_prefix read_set_new [1] 6) \<noteq> Inr ()"
proof -
  let ?ops = "[RecordKey [1, 2] 5, RecordKey [1, 3] 6, RecordKey [1, 4] 7, PruneThrough 5]"
  have 1: "commits_ascending ?ops"
    by (simp add: commits_ascending_def map_filter_simps TOMBSTONE_BIT_def)
  have 2: "([1, 4], 7) \<in> set (snd (ssi_run (\<lambda>_. 0) (new_with_bounds 3) ?ops))"
    by (simp add: Let_def case_prod_beta TOMBSTONE_BIT_def)
  have 3: "reads (record_prefix read_set_new [1] 6) [1, 4] 6"
    by (simp add: reads_def record_prefix_def read_set_new_def keep_least_def TOMBSTONE_BIT_def)
  have "sv_writes (new_with_bounds 3) = cw_new" by (simp add: new_with_bounds_def)
  from no_missed_conflict [OF this 1 prod.collapse [symmetric] 2 3] show ?thesis by simp
qed

end
