(* ===== verification/SsiLimits.thy ===== *)
theory SsiLimits
  imports SsiCorrect "HOL-Library.Multiset"
begin

text \<open>
  Bounds and limits of the SSI validator: how far the coarsening rounds shrink the register, that
  validation does not depend on the order in which a hash map is iterated, that it is exact while
  nothing is coarsened, and two situations in which it is not what its comments promise.
\<close>

section \<open>How far coarsening shrinks the register\<close>

definition buckets_small :: "committed_writes \<Rightarrow> bool" where
  "buckets_small w \<longleftrightarrow> (\<forall>(q, b) \<in> set (cw_index w). length (bucket_prefixes b) \<le> 2)"

text \<open>Every exact entry is listed in the bucket of its sequence number.\<close>

definition keys_backed :: "committed_writes \<Rightarrow> bool" where
  "keys_backed w \<longleftrightarrow> (\<forall>k s. map_of (cw_keys w) k = Some s \<longrightarrow>
     (\<exists>b. map_of (cw_index w) s = Some b \<and> k \<in> set (bucket_keys b)))"

lemma prefix_count_small: "buckets_small w \<Longrightarrow> coarsened_prefix_count w \<le> 2 * length (cw_index w)"
proof -
  have "\<forall>(q, b) \<in> set m. length (bucket_prefixes b) \<le> 2 \<Longrightarrow>
      sum_list (map (\<lambda>(seq, b). length (bucket_prefixes b)) m) \<le> 2 * length m"
    for m :: "(u64 \<times> seq_bucket) list"
    by (induction m) auto
  then show "buckets_small w \<Longrightarrow> ?thesis" by (simp add: buckets_small_def coarsened_prefix_count_def)
qed

lemma length_card_dom: "hm_wf m \<Longrightarrow> length m = card (dom (map_of m))"
  by (metis distinct_card dom_map_of_conv_image_fst hm_wf_def length_map set_map)

lemma coarsen_seqs_lookup:
  "map_of (cw_index (fst (coarsen_seqs seqs w n))) q =
     (case map_of (cw_index w) q of
        Some (Exact ks) \<Rightarrow> if q \<in> set seqs then Some (Coarsened (coarsen_keys_to_prefixes ks 2) (length ks))
           else Some (Exact ks)
      | b \<Rightarrow> b)"
  by (induction seqs w n rule: coarsen_seqs.induct)
    (auto simp: map_simps split: option.splits seq_bucket.splits)

lemma coarsen_seqs_keys:
  "map_of (cw_keys (fst (coarsen_seqs seqs w n))) k = Some s \<Longrightarrow> s \<in> set seqs \<Longrightarrow>
     map_of (cw_index w) s = Some (Exact ks) \<Longrightarrow> k \<notin> set ks"
proof (induction seqs w n rule: coarsen_seqs.induct)
  case (1 w n)
  then show ?case by simp
next
  case (2 seq seqs w n)
  consider (none) "map_of (cw_index w) seq = None" | (coarse) ps m where "map_of (cw_index w) seq = Some (Coarsened ps m)"
    | (exact) ks' where "map_of (cw_index w) seq = Some (Exact ks')" by (metis not_None_eq seq_bucket.exhaust)
  then show ?case
  proof cases
    case none
    with 2(1) [OF none] 2(4-6) show ?thesis by auto
  next
    case coarse
    with 2(3) [OF coarse refl] 2(4-6) show ?thesis by auto
  next
    case exact
    note IH = 2(2) [OF exact refl]
    show ?thesis
    proof (cases "s = seq")
      case True
      let ?w = "w\<lparr>cw_keys := foldl (forget_key seq) (cw_keys w) ks',
         cw_index := bt_insert seq (Coarsened (coarsen_keys_to_prefixes ks' 2) (length ks')) (cw_index w)\<rparr>"
      have "map_of (cw_keys ?w) k = Some s"
        using 2(4) exact lookup_coarsen_seqs [of seqs ?w "Suc n" k s] by simp
      with True exact 2(6) show ?thesis by (auto simp: map_of_forget_keys split: if_splits)
    next
      case False
      with 2(4-6) IH exact show ?thesis by (simp add: map_simps)
    qed
  qed
qed

definition all_coarsened :: "committed_writes \<Rightarrow> bool" where
  "all_coarsened w \<longleftrightarrow> (\<forall>(q, b) \<in> set (cw_index w). is_coarsened b)"

lemma lookup_all: "hm_wf m \<Longrightarrow> (\<forall>(q, b) \<in> set m. P b) \<longleftrightarrow> (\<forall>q b. map_of m q = Some b \<longrightarrow> P b)"
  by (auto simp: hm_wf_def)

lemma coarsen_oldest_round:
  assumes wf: "cw_wf w" and "buckets_small w" and "keys_backed w"
    and r: "coarsen_oldest_buckets w = (w1, c)"
  shows "cw_wf w1 \<and> buckets_small w1 \<and> all_coarsened w1 \<and> cw_keys w1 = [] \<and>
    length (cw_index w1) = length (cw_index w)"
proof -
  have wf1: "cw_wf w1" using coarsen_oldest_preserves(1) [OF wf] r by simp
  have hm: "hm_wf (cw_index w)" "hm_wf (cw_index w1)"
    using wf wf1 by (simp_all add: cw_wf_def bt_wf_hm_wf)
  have dom: "\<And>q b. map_of (cw_index w) q = Some b \<Longrightarrow> q \<in> set (map fst (cw_index w))"
    by (force dest: map_of_SomeD)
  have lk: "map_of (cw_index w1) q = (case map_of (cw_index w) q of
      Some (Exact ks) \<Rightarrow> Some (Coarsened (coarsen_keys_to_prefixes ks 2) (length ks)) | b \<Rightarrow> b)" for q
    using r coarsen_seqs_lookup [of "map fst (cw_index w)" w 0 q] dom [of q]
    by (auto simp: coarsen_oldest_buckets_def split: option.splits seq_bucket.splits)
  have "buckets_small w1"
    using assms(2) unfolding buckets_small_def lookup_all [OF hm(1)] lookup_all [OF hm(2)]
    by (fastforce simp: lk coarsen_length split: option.splits seq_bucket.splits)
  moreover have "all_coarsened w1"
    unfolding all_coarsened_def lookup_all [OF hm(2)]
    by (auto simp: lk split: option.splits seq_bucket.splits)
  moreover have "dom (map_of (cw_index w1)) = dom (map_of (cw_index w))"
    by (auto simp: lk dom_def split: option.splits seq_bucket.splits)
  then have "length (cw_index w1) = length (cw_index w)" by (simp add: length_card_dom hm)
  moreover have "map_of (cw_keys w1) k = None" for k
  proof (cases "map_of (cw_keys w1) k")
    case (Some s)
    then have s: "map_of (cw_keys w) k = Some s"
      using r lookup_coarsen_seqs [of "map fst (cw_index w)" w 0 k s] by (simp add: coarsen_oldest_buckets_def)
    with assms(3) obtain b where b: "map_of (cw_index w) s = Some b" "k \<in> set (bucket_keys b)"
      by (auto simp: keys_backed_def)
    then obtain ks where ks: "b = Exact ks" by (cases b) auto
    from Some r b ks dom [OF b(1)] coarsen_seqs_keys [of "map fst (cw_index w)" w 0 k s ks] show ?thesis
      by (simp add: coarsen_oldest_buckets_def)
  qed simp
  then have "cw_keys w1 = []" by (metis empty_eq_map_of_iff ext)
  ultimately show ?thesis using wf1 by blast
qed


definition pairs_of :: "'a list list \<Rightarrow> nat" where
  "pairs_of cs = length (filter (\<lambda>c. length c = 2) cs)"

lemma pairs_of_chunks: "pairs_of (chunks 2 xs) = length xs div 2"
proof (induction xs rule: length_induct)
  case (1 xs)
  show ?case
  proof (cases "length xs < 2")
    case True
    then have "chunks 2 xs = (if xs = [] then [] else [xs])"
      by (subst chunks.simps) (simp add: chunks.simps [of 2 "[]"])
    with True show ?thesis by (simp add: pairs_of_def)
  next
    case False
    then have "chunks 2 xs = take 2 xs # chunks 2 (drop 2 xs)" by (subst chunks.simps) auto
    moreover have "pairs_of (chunks 2 (drop 2 xs)) = (length xs - 2) div 2"
      using 1 False by (metis length_drop diff_less linorder_not_less less_le_trans zero_less_numeral)
    ultimately show ?thesis using False by (auto simp: pairs_of_def le_div_geq)
  qed
qed

lemma merge_chunks_size:
  "cw_wf w \<Longrightarrow> sorted_wrt (<) (concat cs) \<Longrightarrow> set (concat cs) \<subseteq> dom (map_of (cw_index w)) \<Longrightarrow>
   merge_chunks cs w n = (w', m) \<Longrightarrow>
   length (cw_index w') + pairs_of cs = length (cw_index w) \<and> m = n + pairs_of cs \<and>
   (buckets_small w \<longrightarrow> buckets_small w') \<and> (all_coarsened w \<longrightarrow> all_coarsened w')"
proof (induction cs arbitrary: w n)
  case Nil
  then show ?case by (simp add: pairs_of_def)
next
  case (Cons c cs)
  show ?case
  proof (cases "\<exists>s1 s2. c = [s1, s2]")
    case False
    then have "merge_chunks (c # cs) w n = merge_chunks cs w n"
      by (cases "(c # cs, w, n)" rule: merge_chunks.cases) auto
    moreover have "length c \<noteq> 2" using False by (auto simp: length_Suc_conv numeral_2_eq_2)
    ultimately show ?thesis using Cons.IH [of w n] Cons.prems by (auto simp: sorted_wrt_append pairs_of_def)
  next
    case True
    then obtain s1 s2 where c: "c = [s1, s2]" by blast
    with Cons.prems obtain b1 b2 where b: "map_of (cw_index w) s1 = Some b1" "map_of (cw_index w) s2 = Some b2"
      by auto
    from Cons.prems(2) c have lt: "s1 < s2" and later: "\<forall>x \<in> set (concat cs). s2 < x"
      and sorted: "sorted_wrt (<) (concat cs)" by auto
    obtain keys ps total_keys where r:
      "foldl absorb_bucket (cw_keys w, [], 0) [(b1, s1), (b2, s2)] = (keys, ps, total_keys)"
      "merge_chunks ([s1, s2] # cs) w n = merge_chunks cs (w\<lparr>cw_keys := keys, cw_index := bt_insert s2
         (Coarsened (coarsen_keys_to_prefixes ps 2) total_keys)
         (AList.delete s2 (AList.delete s1 (cw_index w)))\<rparr>) (Suc n)" (is "_ = merge_chunks cs ?w _")
      using merge_chunks_pair [OF b] lt by (metis less_irrefl)
    have wf: "cw_wf ?w"
    proof -
      have "merge_chunks [[s1, s2]] w n = (?w, Suc n)"
        using b lt r(1) by (simp add: map_simps Let_def)
      moreover have "cw_wf (fst (merge_chunks [[s1, s2]] w n))"
        using merge_chunks_preserves [OF Cons.prems(1), of "[[s1, s2]]" n] lt b by auto
      ultimately show ?thesis by simp
    qed
    have hm: "hm_wf (cw_index w)" "hm_wf (cw_index ?w)"
      using Cons.prems(1) wf by (simp_all only: cw_wf_def bt_wf_hm_wf)
    have dom: "dom (map_of (cw_index ?w)) = dom (map_of (cw_index w)) - {s1}"
      using b lt by (auto simp: map_simps split: if_splits)
    have "card (dom (map_of (cw_index w)) - {s1}) + 1 = card (dom (map_of (cw_index w)))"
      using card.remove [OF finite_dom_map_of domI [of "map_of (cw_index w)", OF b(1)]] by (simp only: Suc_eq_plus1)
    then have len: "length (cw_index ?w) + 1 = length (cw_index w)"
      by (simp only: length_card_dom [OF hm(1)] length_card_dom [OF hm(2)] dom)
    have lookup: "map_of (cw_index ?w) q = Some x \<Longrightarrow>
        x = Coarsened (coarsen_keys_to_prefixes ps 2) total_keys \<or> map_of (cw_index w) q = Some x" for q x
      by (auto simp: map_simps split: if_splits)
    have small: "buckets_small w \<longrightarrow> buckets_small ?w"
      unfolding buckets_small_def lookup_all [OF hm(1)] lookup_all [OF hm(2)]
      using lookup by (fastforce simp: coarsen_length simp del: select_convs)
    have coarse: "all_coarsened w \<longrightarrow> all_coarsened ?w"
      unfolding all_coarsened_def lookup_all [OF hm(1)] lookup_all [OF hm(2)]
      using lookup by (fastforce simp del: select_convs)
    have "set (concat cs) \<subseteq> dom (map_of (cw_index ?w))"
    proof
      fix x assume x: "x \<in> set (concat cs)"
      with later lt have "x \<noteq> s1" by force
      moreover have "x \<in> dom (map_of (cw_index w))" using x Cons.prems(3) by auto
      ultimately show "x \<in> dom (map_of (cw_index ?w))" unfolding dom by simp
    qed
    from Cons.IH [OF wf sorted this, of "Suc n"] Cons.prems(4) r(2) len small coarse
    show ?thesis by (simp add: c pairs_of_def)
  qed
qed

lemma coarsen_round:
  assumes "cw_wf w" and "buckets_small w" and "keys_backed w"
    and "coarsen_oldest_buckets w = (w1, c)" and r: "merge_adjacent_buckets w1 = (w2, m)"
  shows "cw_wf w2 \<and> buckets_small w2 \<and> keys_backed w2 \<and> tracked_count w2 \<le> 2 * length (cw_index w2) \<and>
    length (cw_index w2) = div_ceil (length (cw_index w)) 2 \<and> m = length (cw_index w) div 2"
proof -
  from coarsen_oldest_round [OF assms(1-4)] have 1: "cw_wf w1" "buckets_small w1" "all_coarsened w1"
    "cw_keys w1 = []" "length (cw_index w1) = length (cw_index w)" by auto
  have wf2: "cw_wf w2" using merge_adjacent_preserves(1) [OF 1(1)] r by simp
  have "cw_keys w2 = []"
  proof -
    have "map_of (cw_keys w2) k = None" for k
      using r lookup_merge_chunks [of "chunks 2 (map fst (cw_index w1))" w1 0 k] 1(4)
      by (cases "map_of (cw_keys w2) k") (auto simp: merge_adjacent_buckets_def split: if_splits)
    then show ?thesis by (metis empty_eq_map_of_iff ext)
  qed
  moreover have "buckets_small w2 \<and> length (cw_index w2) + m = length (cw_index w) \<and> m = length (cw_index w) div 2"
  proof (cases "length (cw_index w1) < 2")
    case True
    with r 1 show ?thesis by (auto simp: merge_adjacent_buckets_def)
  next
    case False
    with r have "merge_chunks (chunks 2 (map fst (cw_index w1))) w1 0 = (w2, m)"
      by (simp add: merge_adjacent_buckets_def)
    from merge_chunks_size [OF 1(1) _ _ this] 1 bt_keys [of "cw_index w1"] show ?thesis
      by (simp add: concat_chunks pairs_of_chunks cw_wf_def del: set_map)
  qed
  moreover have "length (cw_index w2) = div_ceil (length (cw_index w)) 2"
    using calculation(2) by (simp add: div_ceil_def) linarith
  ultimately show ?thesis
    using wf2 prefix_count_small [of w2] by (simp add: keys_backed_def tracked_count_def)
qed


lemma div_ceil_two: "div_ceil (div_ceil a (2 ^ n)) 2 = div_ceil a (2 ^ Suc n)"
proof -
  have "(a + 2 ^ n - 1) div 2 ^ n + 1 = (a + 2 ^ Suc n - 1) div 2 ^ n"
  proof -
    have "a + 2 ^ Suc n - 1 = (a + 2 ^ n - 1) + 2 ^ n" by (simp add: mult_2)
    then show ?thesis using div_add_self2 [of "2 ^ n" "a + 2 ^ n - 1"] by simp
  qed
  then have "div_ceil (div_ceil a (2 ^ n)) 2 = (a + 2 ^ Suc n - 1) div 2 ^ n div 2"
    by (simp add: div_ceil_def)
  also have "\<dots> = (a + 2 ^ Suc n - 1) div 2 ^ Suc n" by (simp add: div_mult2_eq [symmetric] mult.commute)
  finally show ?thesis by (simp add: div_ceil_def)
qed

lemma div_ceil_mono: "a \<le> b \<Longrightarrow> div_ceil a n \<le> div_ceil b n"
  by (simp add: div_ceil_def div_le_mono)

lemma div_ceil_halves: "div_ceil (div_ceil a 2) (2 ^ n) = div_ceil a (2 ^ Suc n)"
proof (induction n)
  case 0
  then show ?case by (simp add: div_ceil_def)
next
  case (Suc n)
  then show ?case using div_ceil_two [of "div_ceil a 2" n] div_ceil_two [of a "Suc n"] by simp
qed

lemma coarsen_rounds_bound:
  "cw_wf w \<Longrightarrow> buckets_small w \<Longrightarrow> keys_backed w \<Longrightarrow> 0 < n \<Longrightarrow>
   tracked_count (coarsen_rounds n t w) < t \<or>
   tracked_count (coarsen_rounds n t w) \<le> 2 * max 1 (div_ceil (length (cw_index w)) (2 ^ n))"
proof (induction n t w rule: coarsen_rounds.induct)
  case (1 t w)
  then show ?case by simp
next
  case (2 n t w)
  obtain w1 c where w1: "coarsen_oldest_buckets w = (w1, c)" by force
  obtain w2 m where w2: "merge_adjacent_buckets w1 = (w2, m)" by force
  from coarsen_round [OF 2(2-4) w1 w2] have r: "cw_wf w2" "buckets_small w2" "keys_backed w2"
    "tracked_count w2 \<le> 2 * length (cw_index w2)"
    "length (cw_index w2) = div_ceil (length (cw_index w)) 2" "m = length (cw_index w) div 2" by blast+
  show ?case
  proof (cases "t \<le> tracked_count w")
    case False
    then show ?thesis by simp
  next
    case t: True
    show ?thesis
    proof (cases "c = 0 \<and> m = 0")
      case True
      then have "length (cw_index w) < 2" using r(6) by (simp add: div_eq_0_iff)
      then have "length (cw_index w2) \<le> 1" unfolding r(5) by (simp add: div_ceil_def)
      with r(4) have "tracked_count w2 \<le> 2 * max 1 (div_ceil (length (cw_index w)) (2 ^ Suc n))" by linarith
      with True t w1 w2 show ?thesis by simp
    next
      case False
      have eq: "coarsen_rounds (Suc n) t w = coarsen_rounds n t w2" using False t w1 w2 by auto
      show ?thesis
      proof (cases n)
        case 0
        have "tracked_count w2 \<le> 2 * max 1 (div_ceil (length (cw_index w)) 2)"
          using r(4) unfolding r(5) by linarith
        then show ?thesis using eq 0 by (simp del: coarsen_rounds.simps(2))
      next
        case (Suc n')
        with 2(1) [OF t w1 [symmetric] refl w2 [symmetric] refl False r(1-3)] show ?thesis
          unfolding eq r(5) div_ceil_halves by simp
      qed
    qed
  qed
qed

lemma keys_backed_insert:
  assumes "keys_backed w" and "\<And>b. map_of (cw_index w) (mask_seq s) = Some b \<Longrightarrow> \<not> is_coarsened b"
  shows "keys_backed (cw_insert k s w)"
  unfolding keys_backed_def
proof (intro allI impI)
  fix k' s'
  assume k': "map_of (cw_keys (cw_insert k s w)) k' = Some s'"
  let ?b = "add_to_bucket k (map_of (cw_index w) (mask_seq s))"
  have new: "k \<in> set (bucket_keys ?b)"
    "\<And>b x. map_of (cw_index w) (mask_seq s) = Some b \<Longrightarrow> x \<in> set (bucket_keys b) \<Longrightarrow> x \<in> set (bucket_keys ?b)"
    using assms(2) by (auto simp: add_to_bucket_def split: option.splits seq_bucket.splits)
  show "\<exists>b. map_of (cw_index (cw_insert k s w)) s' = Some b \<and> k' \<in> set (bucket_keys b)"
  proof (cases "k' = k")
    case True
    with k' new(1) show ?thesis by (simp add: cw_insert_def Let_def map_simps)
  next
    case False
    with k' have "map_of (cw_keys w) k' = Some s'" by (simp add: cw_insert_def Let_def map_simps)
    with assms(1) obtain b where "map_of (cw_index w) s' = Some b" "k' \<in> set (bucket_keys b)"
      by (auto simp: keys_backed_def)
    with new(2) show ?thesis by (auto simp: cw_insert_def Let_def map_simps)
  qed
qed

lemma buckets_small_insert:
  assumes "cw_wf w" and "buckets_small w"
  shows "buckets_small (cw_insert k s w)"
proof -
  have hm: "hm_wf (cw_index w)" "hm_wf (cw_index (cw_insert k s w))"
    using assms(1) cw_wf_insert [OF assms(1), of k s] by (simp_all only: cw_wf_def bt_wf_hm_wf)
  show ?thesis
    using assms(2) unfolding buckets_small_def lookup_all [OF hm(1)] lookup_all [OF hm(2)]
    by (fastforce simp: cw_insert_def Let_def map_simps add_to_bucket_def
        split: option.splits seq_bucket.splits if_splits)
qed

lemma length_index_insert:
  assumes "cw_wf w"
  shows "length (cw_index (cw_insert k s w)) \<le> Suc (length (cw_index w))"
proof -
  have hm: "hm_wf (cw_index w)" "hm_wf (cw_index (cw_insert k s w))"
    using assms cw_wf_insert [OF assms, of k s] by (simp_all only: cw_wf_def bt_wf_hm_wf)
  have "dom (map_of (cw_index (cw_insert k s w))) = insert (mask_seq s) (dom (map_of (cw_index w)))"
    by (simp add: cw_insert_def Let_def map_simps)
  then show ?thesis by (simp add: length_card_dom hm card_insert_if)
qed




section \<open>Independence of the iteration order\<close>

lemma sort_key_fst_eq:
  fixes xs ys :: "('a::linorder \<times> 'b) list"
  assumes "hm_wf xs" and "hm_wf ys" and "set xs = set ys"
  shows "sort_key fst xs = sort_key fst ys"
proof -
  have "distinct xs" "distinct ys" using assms(1,2) by (auto simp: hm_wf_def distinct_map)
  with assms(3) have "mset xs = mset ys" by (simp add: set_eq_iff_mset_eq_distinct)
  moreover have "inj_on fst (set xs)"
    using assms(1) by (simp add: hm_wf_def distinct_map)
  ultimately have "mset xs = mset (sort_key fst ys)" "inj_on fst (set xs)" by simp_all
  then show ?thesis by (rule sort_key_inj_key_eq) simp
qed

text \<open>Validation is deterministic. Its full result, the conflict reported included, does not
  depend on the order in which the hash maps of the read set are iterated; whether it passes does
  not depend on the order of the hash map of the register either.\<close>

theorem validate_deterministic:
  assumes "hm_wf (rs_keys rs)" and "hm_wf (rs_prefixes rs)"
    and "hm_wf (rs_keys rs')" and "hm_wf (rs_prefixes rs')"
    and "set (rs_keys rs) = set (rs_keys rs')" and "set (rs_prefixes rs) = set (rs_prefixes rs')"
    and "hm_wf (cw_keys (sv_writes v))" and "hm_wf keys" and "set keys = set (cw_keys (sv_writes v))"
  shows "validate D v tx rs' = validate D v tx rs \<and>
    (validate D (v\<lparr>sv_writes := (sv_writes v)\<lparr>cw_keys := keys\<rparr>\<rparr>) tx rs = Inr () \<longleftrightarrow>
     validate D v tx rs = Inr ())"
proof -
  have sorts: "sort_key fst (rs_keys rs') = sort_key fst (rs_keys rs)"
    "sort_key fst (rs_prefixes rs') = sort_key fst (rs_prefixes rs)"
    using assms by (auto intro!: sort_key_fst_eq)
  have "rs_keys rs' = [] \<longleftrightarrow> rs_keys rs = []" "rs_prefixes rs' = [] \<longleftrightarrow> rs_prefixes rs = []"
    using assms(5,6) by auto
  then have "read_set_is_empty rs' = read_set_is_empty rs" by (simp add: read_set_is_empty_def)
  then have 1: "validate D v tx rs' = validate D v tx rs"
    by (simp add: validate_def validate_internal_def sorts)
  have maps: "map_of keys = map_of (cw_keys (sv_writes v))"
    using assms(7-9) by (intro map_of_inject_set [THEN iffD2]) (auto simp: hm_wf_def)
  then have "length keys = length (cw_keys (sv_writes v))"
    by (simp add: length_card_dom assms(7,8))
  then have "tracked_count ((sv_writes v)\<lparr>cw_keys := keys\<rparr>) = tracked_count (sv_writes v)"
    by (simp add: tracked_count_def coarsened_prefix_count_def)
  moreover have "point_ok ((sv_writes v)\<lparr>cw_keys := keys\<rparr>) = point_ok (sv_writes v)"
    "range_ok ((sv_writes v)\<lparr>cw_keys := keys\<rparr>) = range_ok (sv_writes v)"
    by (simp_all add: fun_eq_iff point_ok_def range_ok_def maps assms(9))
  moreover have "doc_ok D (v\<lparr>sv_writes := (sv_writes v)\<lparr>cw_keys := keys\<rparr>\<rparr>) = doc_ok D v"
    by (simp add: fun_eq_iff doc_ok_def)
  ultimately show ?thesis using 1 by (simp add: validate_ok_iff)
qed

theorem validate_deterministic_witness:
  "validate (\<lambda>_. 0) (new_with_bounds 5) 1 (record_read (record_read read_set_new [2] 5) [1] 4) =
   validate (\<lambda>_. 0) (new_with_bounds 5) 1 (record_read (record_read read_set_new [1] 4) [2] 5)"
proof -
  let ?a = "record_read (record_read read_set_new [1] 4) [2] 5"
    and ?b = "record_read (record_read read_set_new [2] 5) [1] 4"
  have keys: "rs_keys ?a = [([1], 4), ([2], 5)]" "rs_keys ?b = [([2], 5), ([1], 4)]"
    "rs_prefixes ?a = []" "rs_prefixes ?b = []"
    by (simp_all add: record_read_def read_set_new_def keep_least_def Let_def TOMBSTONE_BIT_def)
  show ?thesis
    using validate_deterministic [of ?a ?b "new_with_bounds 5" "[]" "\<lambda>_. 0" 1]
    by (simp add: keys hm_wf_def new_with_bounds_def cw_new_def insert_commute)
qed

section \<open>Exactness while nothing is coarsened\<close>

fun is_validated :: "ssi_op \<Rightarrow> bool" where
  "is_validated (ValidateRecord tx rs ks s) = True"
| "is_validated _ = False"

definition exact_inv :: "ssi_validator \<Rightarrow> nat \<Rightarrow> (bytes \<times> u64) list \<Rightarrow> bool" where
  "exact_inv v m cs \<longleftrightarrow> sv_max_tracked v = m \<and> sv_pruned v = 0 \<and> sv_seq_log v = None \<and>
     (\<forall>q b. map_of (cw_index (sv_writes v)) q = Some b \<longrightarrow> \<not> is_coarsened b) \<and>
     dom (map_of (cw_keys (sv_writes v))) = fst ` set cs \<and>
     (\<forall>k x. map_of (cw_keys (sv_writes v)) k = Some x \<longrightarrow> (k, x) \<in> set cs)"

lemma exact_insert_all:
  "(\<forall>q b. map_of (cw_index w) q = Some b \<longrightarrow> \<not> is_coarsened b) \<Longrightarrow>
   (\<forall>q b. map_of (cw_index (insert_all ks s w)) q = Some b \<longrightarrow> \<not> is_coarsened b) \<and>
   map_of (cw_keys (insert_all ks s w)) k = (if k \<in> set ks then Some (mask_seq s) else map_of (cw_keys w) k)"
  unfolding insert_all_def
proof (induction ks arbitrary: w)
  case Nil
  then show ?case by simp
next
  case (Cons x xs)
  let ?w = "cw_insert x s w"
  have "\<forall>q b. map_of (cw_index ?w) q = Some b \<longrightarrow> \<not> is_coarsened b"
    using Cons.prems by (fastforce simp: cw_insert_def Let_def map_simps add_to_bucket_def
        split: option.splits seq_bucket.splits if_splits)
  from Cons.IH [OF this] show ?case by (auto simp: cw_insert_def Let_def map_simps)
qed

lemma exact_inv_step:
  assumes "exact_inv v m cs" and "is_validated op" and "ssi_step D v op = (v', cs')"
  shows "exact_inv v' m (cs @ cs')"
proof -
  from assms(2) obtain tx rs ks s where op: "op = ValidateRecord tx rs ks s" by (cases op) auto
  show ?thesis
  proof (cases "validate_internal D v (sv_writes v) tx rs")
    case (Inl e)
    with assms op show ?thesis by (simp add: validate_and_record_def)
  next
    case (Inr u)
    let ?w = "insert_all ks (mask_seq s) (sv_writes v)"
    from Inr assms(3) op have v': "v' = v\<lparr>sv_writes := ?w\<rparr>" and cs': "cs' = map (\<lambda>k. (k, mask_seq s)) ks"
      by (auto simp: validate_and_record_def)
    have "\<forall>q b. map_of (cw_index (sv_writes v)) q = Some b \<longrightarrow> \<not> is_coarsened b"
      using assms(1) by (simp add: exact_inv_def)
    note i = exact_insert_all [OF this, of ks "mask_seq s"]
    have "dom (map_of (cw_keys ?w)) = set ks \<union> dom (map_of (cw_keys (sv_writes v)))"
      using i by (auto simp: dom_def)
    also have "\<dots> = fst ` set (cs @ cs')"
      using assms(1) by (simp add: exact_inv_def cs' image_Un image_image Un_commute)
    finally have "dom (map_of (cw_keys ?w)) = fst ` set (cs @ cs')" .
    moreover have "\<forall>k x. map_of (cw_keys ?w) k = Some x \<longrightarrow> (k, x) \<in> set (cs @ cs')"
      using assms(1) i by (auto simp: exact_inv_def cs' split: if_splits)
    ultimately show ?thesis using assms(1) i by (simp add: exact_inv_def v')
  qed
qed

lemma exact_inv_run:
  "exact_inv v m cs \<Longrightarrow> list_all is_validated ops \<Longrightarrow> ssi_run D v ops = (v', cs') \<Longrightarrow> exact_inv v' m (cs @ cs')"
proof (induction ops arbitrary: v cs cs')
  case Nil
  then show ?case by simp
next
  case (Cons op ops)
  obtain v1 c1 where 1: "ssi_step D v op = (v1, c1)" by force
  obtain v2 c2 where 2: "ssi_run D v1 ops = (v2, c2)" by force
  from Cons.prems(3) 1 2 have eq: "v' = v2" "cs' = c1 @ c2" by auto
  from Cons.prems(2) have ops: "is_validated op" "list_all is_validated ops" by simp_all
  from Cons.IH [OF exact_inv_step [OF Cons.prems(1) ops(1) 1] ops(2) 2 [folded eq(1)]]
  show ?case by (simp add: eq(2))
qed

text \<open>Validation is exact while commits are only recorded by \<open>validate_and_record\<close>. A non-empty
  read set passes exactly when fewer than the maximal number of distinct keys were committed and
  no recorded commit of a key that it read is newer than its snapshot. Since this operation never
  coarsens, the register can only grow: from the moment when the maximum is reached, every
  non-empty read set is refused.\<close>

theorem validate_exact:
  assumes "list_all is_validated ops" and "commits_ascending ops"
    and "ssi_run D (new_with_bounds m) ops = (v, commits)"
  shows "validate D v tx rs = Inr () \<longleftrightarrow> read_set_is_empty rs \<or>
    (card (fst ` set commits) < m \<and> \<not> (\<exists>(k, s) \<in> set commits. \<exists>r. reads rs k r \<and> r < s))"
proof -
  have v0: "sv_writes (new_with_bounds m) = cw_new" by (simp add: new_with_bounds_def)
  have "exact_inv (new_with_bounds m) m []"
    by (simp add: exact_inv_def new_with_bounds_def cw_new_def)
  from exact_inv_run [OF this assms(1,3)] have inv: "exact_inv v m commits" by simp
  obtain q where "sv_inv v q ([] @ commits)"
    using sv_inv_run [OF sv_inv_new [OF v0] assms(2) _ assms(3)] by auto
  then have wf: "hm_wf (cw_keys (sv_writes v))" "hm_wf (cw_index (sv_writes v))"
    and cov: "\<forall>c \<in> set commits. sv_covers v c" and cwf: "cw_wf (sv_writes v)"
    by (auto simp: sv_inv_def cw_wf_def intro: bt_wf_hm_wf)
  let ?w = "sv_writes v"
  have exact: "\<forall>(q, b) \<in> set (cw_index ?w). bucket_prefixes b = []"
    using inv unfolding exact_inv_def lookup_all [OF wf(2)] by (metis bucket_prefixes.simps(1) is_coarsened.elims(3))
  have "coarsened_prefix_count ?w = 0"
    using exact by (induction "cw_index ?w") (auto simp: coarsened_prefix_count_def)
  then have count: "tracked_count ?w = card (fst ` set commits)"
    using inv by (simp add: tracked_count_def length_card_dom [OF wf(1)] exact_inv_def)
  have pt: "point_ok ?w 0 k r" if "\<not> (\<exists>s. (k, s) \<in> set commits \<and> r < s)" for k r
    using that inv exact by (fastforce simp: point_ok_def exact_inv_def not_less)
  have rg: "range_ok ?w 0 p r" if "\<not> (\<exists>k s. (k, s) \<in> set commits \<and> prefix p k \<and> r < s)" for p r
    using that inv exact hm_wf_lookup [OF wf(1)] by (fastforce simp: range_ok_def exact_inv_def not_less)
  have "validate D v tx rs = Inr ()"
    if "\<not> read_set_is_empty rs" "card (fst ` set commits) < m"
      "\<not> (\<exists>(k, s) \<in> set commits. \<exists>r. reads rs k r \<and> r < s)"
    using that inv pt rg by (fastforce simp: validate_ok_iff count exact_inv_def reads_def doc_ok_def)
  moreover have "\<not> (\<exists>(k, s) \<in> set commits. \<exists>r. reads rs k r \<and> r < s)" if "validate D v tx rs = Inr ()"
    using covered_conflict [OF cwf, of _ _ rs] cov that by (fastforce simp: sv_covers_def)
  moreover have "card (fst ` set commits) < m" if "validate D v tx rs = Inr ()" "\<not> read_set_is_empty rs"
    using that inv by (simp add: validate_ok_iff count exact_inv_def)
  moreover have "validate D v tx rs = Inr ()" if "read_set_is_empty rs"
    using that by (simp add: validate_ok_iff)
  ultimately show ?thesis by blast
qed

theorem validate_exact_witness:
  "let v = fst (ssi_run (\<lambda>_. 0) (new_with_bounds 2)
     [ValidateRecord 1 read_set_new [[1], [2]] 5]) in
   validate (\<lambda>_. 0) v 2 (record_read read_set_new [9] 8) \<noteq> Inr ()"
proof -
  let ?ops = "[ValidateRecord 1 read_set_new [[1], [2]] 5]"
  let ?rs = "record_read read_set_new [9] 8"
  let ?r = "ssi_run (\<lambda>_. 0) (new_with_bounds 2) ?ops"
  have commits: "snd ?r = [([1], 5), ([2], 5)]"
    by (simp add: validate_and_record_def validate_internal_def read_set_is_empty_def read_set_new_def
        TOMBSTONE_BIT_def)
  have "commits_ascending ?ops" by (simp add: commits_ascending_def map_filter_simps)
  then have "validate (\<lambda>_. 0) (fst ?r) 2 ?rs = Inr () \<longleftrightarrow> read_set_is_empty ?rs \<or>
      (card (fst ` set (snd ?r)) < 2 \<and> \<not> (\<exists>(k, s) \<in> set (snd ?r). \<exists>r. reads ?rs k r \<and> r < s))"
    by (intro validate_exact [where ops = ?ops and m = 2]) simp_all
  moreover have "\<not> read_set_is_empty ?rs"
    by (simp add: read_set_is_empty_def record_read_def read_set_new_def keep_least_def Let_def)
  ultimately show ?thesis unfolding commits by (simp add: Let_def del: ssi_run.simps)
qed


section \<open>Forgetting the commits of an aborted batch\<close>

text \<open>The latest bucket that lists a key; each exact entry shall name it.\<close>

definition latest_seq :: "(u64 \<times> seq_bucket) list \<Rightarrow> bytes \<Rightarrow> u64 option" where
  "latest_seq index k = map_option fst (find (\<lambda>(q, b). k \<in> set (bucket_keys b)) (rev index))"

definition latest_ok :: "committed_writes \<Rightarrow> bool" where
  "latest_ok w \<longleftrightarrow> (\<forall>k. map_of (cw_keys w) k = latest_seq (cw_index w) k)"

lemma find_rev_latest:
  "sorted_wrt (<) (map fst m) \<Longrightarrow>
   find P (rev m) = Some e \<longleftrightarrow> e \<in> set m \<and> P e \<and> (\<forall>e' \<in> set m. P e' \<longrightarrow> fst e' \<le> fst e)"
  for m :: "('k::linorder \<times> 'v) list"
proof (induction m rule: rev_induct)
  case Nil
  then show ?case by simp
next
  case (snoc x m)
  then have lt: "\<And>y. y \<in> set m \<Longrightarrow> fst y < fst x" by (auto simp: sorted_wrt_append)
  show ?case
  proof (cases "P x")
    case True
    then show ?thesis using lt by (fastforce dest: leD)
  next
    case False
    with snoc show ?thesis by (auto simp: sorted_wrt_append)
  qed
qed

lemma latest_seq_Some:
  assumes "bt_wf index"
  shows "latest_seq index k = Some q \<longleftrightarrow> (\<exists>b. (q, b) \<in> set index \<and> k \<in> set (bucket_keys b)) \<and>
    (\<forall>(q', b) \<in> set index. k \<in> set (bucket_keys b) \<longrightarrow> q' \<le> q)"
proof -
  note f = find_rev_latest [OF assms [unfolded bt_wf_def], of "\<lambda>(q, b). k \<in> set (bucket_keys b)"]
  have "latest_seq index k = Some q \<longleftrightarrow>
      (\<exists>b. find (\<lambda>(q, b). k \<in> set (bucket_keys b)) (rev index) = Some (q, b))"
    by (auto simp: latest_seq_def)
  then show ?thesis unfolding f by fastforce
qed

lemma highest_old_seq_latest:
  "highest_old_seq index f k = latest_seq (filter (\<lambda>e. fst e < f) index) k"
  by (simp add: highest_old_seq_def latest_seq_def)

lemma restore_keys_lookup:
  "highest_old_seq index f k \<noteq> Some seq \<Longrightarrow>
   map_of (fst (foldl (restore_key index f seq) acc ks)) k =
     (if k \<in> set ks \<and> map_of (fst acc) k = Some seq then highest_old_seq index f k else map_of (fst acc) k) \<and>
   (hm_wf (fst acc) \<longrightarrow> hm_wf (fst (foldl (restore_key index f seq) acc ks)))"
proof (induction ks arbitrary: acc)
  case Nil
  then show ?case by simp
next
  case (Cons x xs)
  have "map_of (fst (restore_key index f seq acc x)) k =
      (if k = x \<and> map_of (fst acc) k = Some seq then highest_old_seq index f k else map_of (fst acc) k) \<and>
    (hm_wf (fst acc) \<longrightarrow> hm_wf (fst (restore_key index f seq acc x)))"
    by (cases acc) (auto simp: restore_key_def map_simps split: option.splits)
  with Cons.IH [OF Cons.prems, of "restore_key index f seq acc x"] Cons.prems show ?case
    by (cases "k = x") auto
qed

lemma forget_buckets_lookup:
  "(\<And>e. e \<in> set es \<Longrightarrow> highest_old_seq index f k \<noteq> Some (fst e)) \<Longrightarrow>
   map_of (fst (foldl (forget_bucket index f) acc es)) k =
     (if \<exists>(q, b) \<in> set es. k \<in> set (bucket_keys b) \<and> map_of (fst acc) k = Some q
      then highest_old_seq index f k else map_of (fst acc) k) \<and>
   (hm_wf (fst acc) \<longrightarrow> hm_wf (fst (foldl (forget_bucket index f) acc es)))"
proof (induction es arbitrary: acc)
  case Nil
  then show ?case by simp
next
  case (Cons e es)
  obtain q b where e: "e = (q, b)" by force
  have "map_of (fst (forget_bucket index f acc e)) k =
      (if k \<in> set (bucket_keys b) \<and> map_of (fst acc) k = Some q
       then highest_old_seq index f k else map_of (fst acc) k) \<and>
    (hm_wf (fst acc) \<longrightarrow> hm_wf (fst (forget_bucket index f acc e)))"
    using restore_keys_lookup [of index f k q acc] Cons.prems [of e]
    by (cases b) (auto simp: forget_bucket_def e)
  moreover have "\<not> (\<exists>(q, b) \<in> set es. k \<in> set (bucket_keys b) \<and> highest_old_seq index f k = Some q)"
    using Cons.prems by fastforce
  ultimately show ?case using Cons.IH [of "forget_bucket index f acc e"] Cons.prems
    by (auto simp: e)
qed

text \<open>\<open>forget_from\<close> takes back a suffix of the commits. When the exact entries are the latest
  buckets that list their key, then after forgetting the sequence numbers from \<open>f\<close> on exactly the
  older buckets are left, and the exact entries are again the latest of the remaining buckets: an
  overwritten older commit of a key is restored.\<close>

theorem forget_from_restores:
  assumes "cw_wf (sv_writes v)" and "latest_ok (sv_writes v)"
  shows "cw_index (sv_writes (fst (forget_from v f))) =
      filter (\<lambda>e. fst e < mask_seq f) (cw_index (sv_writes v)) \<and>
    latest_ok (sv_writes (fst (forget_from v f)))"
proof -
  let ?w = "sv_writes v" and ?f = "mask_seq f"
  let ?aff = "filter (\<lambda>e. ?f \<le> fst e) (cw_index ?w)"
  let ?r = "foldl (forget_bucket (cw_index ?w) ?f) (cw_keys ?w, 0) ?aff"
  have w': "sv_writes (fst (forget_from v f)) = \<lparr>cw_keys = fst ?r,
      cw_index = foldl (\<lambda>m seq. AList.delete seq m) (cw_index ?w) (map fst ?aff)\<rparr>"
    by (simp add: forget_from_def remove_from_seq_def Let_def case_prod_beta)
  have index: "cw_index (sv_writes (fst (forget_from v f))) = filter (\<lambda>e. fst e < ?f) (cw_index ?w)"
    unfolding w' by (auto simp: foldl_delete not_le intro!: filter_cong)
  have bt: "bt_wf (cw_index ?w)" using assms(1) by (simp add: cw_wf_def)
  let ?old = "filter (\<lambda>e. fst e < ?f) (cw_index ?w)"
  have bt': "bt_wf ?old" using bt by (rule bt_wf_filter)
  have "highest_old_seq (cw_index ?w) ?f k \<noteq> Some (fst e)" if "e \<in> set ?aff" for e k
    using that by (auto simp: highest_old_seq_latest latest_seq_Some [OF bt'])
  note keys = forget_buckets_lookup [where es = ?aff and index = "cw_index ?w" and f = ?f
      and acc = "(cw_keys ?w, 0)", OF this]
  have "map_of (fst ?r) k = latest_seq ?old k" for k
  proof (cases "latest_seq (cw_index ?w) k")
    case None
    then have "latest_seq ?old k = None"
      using latest_seq_Some [OF bt, of k] latest_seq_Some [OF bt', of k]
      by (auto simp: latest_seq_def find_None_iff)
    moreover have "map_of (cw_keys ?w) k = None" using None assms(2) by (simp add: latest_ok_def)
    ultimately show ?thesis using keys [of k] by (simp add: highest_old_seq_latest)
  next
    case (Some s)
    then have s: "map_of (cw_keys ?w) k = Some s" using assms(2) by (simp add: latest_ok_def)
    from Some have mem: "\<exists>b. (s, b) \<in> set (cw_index ?w) \<and> k \<in> set (bucket_keys b)"
      "\<forall>(q', b) \<in> set (cw_index ?w). k \<in> set (bucket_keys b) \<longrightarrow> q' \<le> s"
      by (simp_all add: latest_seq_Some [OF bt])
    show ?thesis
    proof (cases "?f \<le> s")
      case True
      with mem(1) have "\<exists>(q, b) \<in> set ?aff. k \<in> set (bucket_keys b) \<and> map_of (cw_keys ?w) k = Some q"
        by (auto simp: s)
      with keys [of k] show ?thesis by (simp add: highest_old_seq_latest)
    next
      case False
      then have "latest_seq ?old k = Some s" using mem by (auto simp: latest_seq_Some [OF bt'] not_le)
      moreover have "\<not> (\<exists>(q, b) \<in> set ?aff. k \<in> set (bucket_keys b) \<and> map_of (cw_keys ?w) k = Some q)"
        using False by (auto simp: s)
      ultimately show ?thesis using keys [of k, THEN conjunct1] s by (simp only: if_False fst_conv)
    qed
  qed
  then show ?thesis using index by (simp add: latest_ok_def w')
qed

theorem forget_from_restores_witness:
  "let w = cw_insert [1] 7 (cw_insert [1] 5 cw_new)
   in cw_index (sv_writes (fst (forget_from ((new_with_bounds 9)\<lparr>sv_writes := w\<rparr>) 6))) = [(5, Exact [[1]])]"
proof -
  let ?w = "cw_insert [1] 7 (cw_insert [1] 5 cw_new)"
  have w: "?w = \<lparr>cw_keys = [([1], 7)], cw_index = [(5, Exact [[1]]), (7, Exact [[1]])]\<rparr>"
    by (simp add: cw_insert_def cw_new_def Let_def add_to_bucket_def TOMBSTONE_BIT_def)
  have "latest_ok ?w" by (auto simp: w latest_ok_def latest_seq_def)
  moreover have "cw_wf ?w" by (simp add: w cw_wf_def hm_wf_def bt_wf_def)
  ultimately show ?thesis
    using forget_from_restores [of "(new_with_bounds 9)\<lparr>sv_writes := ?w\<rparr>" 6]
    by (simp add: w TOMBSTONE_BIT_def)
qed

text \<open>After a merge, \<open>forget_from\<close> also loses older commits of other transactions. With a
  maximum of three tracked keys, two commits at 1 and 2 are merged into one bucket at 2; forgetting
  from 2 on drops the bucket, and a transaction that read the first key before its commit at 1
  passes validation: the promise of no false negatives holds only without \<open>forget_from\<close>.\<close>

theorem forget_from_merged_loses_commit:
  "let v = record_commit_key (record_commit_key (new_with_bounds 3) [1] 1) [2] 2;
       rs = record_read read_set_new [1] 0
   in validate (\<lambda>_. 0) v 9 rs = Inl (CoarsenedMatch 9 [1] [1] 2 0) \<and>
      validate (\<lambda>_. 0) (fst (forget_from v 2)) 9 rs = Inr ()"
proof -
  let ?v1 = "record_commit_key (new_with_bounds 3) [1] 1"
  let ?v = "record_commit_key ?v1 [2] 2"
  let ?rs = "record_read read_set_new [1] 0"
  let ?w1 = "\<lparr>cw_keys = [([1], 1)], cw_index = [(1, Exact [[1]])]\<rparr>"
  let ?w2 = "\<lparr>cw_keys = [([1], 1), ([2], 2)], cw_index = [(1, Exact [[1]]), (2, Exact [[2]])]\<rparr>"
  let ?w3 = "\<lparr>cw_keys = [], cw_index = [(1, Coarsened [[1]] 1), (2, Coarsened [[2]] 1)]\<rparr>"
  let ?w4 = "\<lparr>cw_keys = [], cw_index = [(2, Coarsened [[1], [2]] 2)]\<rparr>"
  have insert: "cw_insert [1] (mask_seq 1) cw_new = ?w1" "cw_insert [2] (mask_seq 2) ?w1 = ?w2"
    by (simp_all add: cw_insert_def cw_new_def Let_def add_to_bucket_def TOMBSTONE_BIT_def)
  have count: "tracked_count ?w1 = 1" "tracked_count ?w2 = 2" "tracked_count ?w4 = 2"
    by (simp_all add: tracked_count_def coarsened_prefix_count_def)
  have coarsen: "coarsen_oldest_buckets ?w2 = (?w3, 2)" "coarsen_oldest_buckets ?w4 = (?w4, 0)"
    by (simp_all add: coarsen_oldest_buckets_def forget_key_def coarsen_keys_to_prefixes_def)
  have pair: "chunks 2 [1, 2 :: u64] = [[1, 2]]"
    by (subst chunks.simps, simp, subst chunks.simps, simp)
  have merge: "merge_adjacent_buckets ?w3 = (?w4, 1)" "merge_adjacent_buckets ?w4 = (?w4, 0)"
    by (simp_all add: merge_adjacent_buckets_def pair coarsen_keys_to_prefixes_def)
  have ten: "(10 :: nat) = Suc (Suc 8)" and three: "(3 :: nat) * 80 div 100 = 2" by simp_all
  have rounds1: "coarsen_rounds 10 2 ?w1 = ?w1" unfolding ten by (simp only: coarsen_rounds.simps count) simp
  have rounds2: "coarsen_rounds 10 2 ?w2 = ?w4"
    unfolding ten by (simp only: coarsen_rounds.simps count coarsen merge Let_def prod.case) simp
  have "?v1 = (new_with_bounds 3)\<lparr>sv_writes := ?w1\<rparr>"
    using rounds1 by (simp add: record_commit_key_def new_with_bounds_def check_and_coarsen_if_needed_def insert
        del: coarsen_rounds.simps)
  then have v: "?v = (new_with_bounds 3)\<lparr>sv_writes := ?w4\<rparr>"
    using rounds2 by (simp add: record_commit_key_def new_with_bounds_def check_and_coarsen_if_needed_def insert
        del: coarsen_rounds.simps)
  have rs: "?rs = \<lparr>rs_keys = [([1], 0)], rs_prefixes = [], rs_min_snapshot_seq = Some 0\<rparr>"
    by (simp add: record_read_def read_set_new_def keep_least_def least_seq_def Let_def)
  have "validate (\<lambda>_. 0) ?v 9 ?rs = Inl (CoarsenedMatch 9 [1] [1] 2 0)"
    unfolding v rs by (simp add: validate_def validate_internal_def read_set_is_empty_def new_with_bounds_def count
        validate_point_reads_def validate_point_read_def coarsened_point_check_def then_check_def cw_get_def)
  moreover have "validate (\<lambda>_. 0) (fst (forget_from ?v 2)) 9 ?rs = Inr ()"
    unfolding v rs by (simp add: forget_from_def remove_from_seq_def Let_def forget_bucket_def TOMBSTONE_BIT_def
        new_with_bounds_def validate_ok_iff point_ok_def doc_ok_def tracked_count_def coarsened_prefix_count_def)
  ultimately show ?thesis by (simp add: Let_def)
qed

end
