(* ===== verification/Serializable.thy ===== *)
theory Serializable
  imports SsiCorrect
begin

text \<open>
  The contract between the commit path and the SSI validator, and what follows from it: the order
  of the commit sequence numbers is a serialization order of the transactions that were admitted.

  \<open>commit_txs\<close> is the commit protocol of the writers: validate the read set, and on success
  record the write keys under the commit sequence number, both under one lock.
\<close>

type_synonym committed_tx = "read_set \<times> bytes list \<times> u64"

fun commit_txs ::
  "('v \<Rightarrow> read_set \<Rightarrow> bool) \<Rightarrow> ('v \<Rightarrow> bytes list \<Rightarrow> u64 \<Rightarrow> 'v) \<Rightarrow> 'v \<Rightarrow> committed_tx list \<Rightarrow> committed_tx list" where
  "commit_txs ok record_op v [] = []"
| "commit_txs ok record_op v ((rs, ks, s) # txs) =
     (if ok v rs then (rs, ks, s) # commit_txs ok record_op (record_op v ks s) txs
      else commit_txs ok record_op v txs)"

text \<open>\<open>t\<close>, committed later, read no version that \<open>t0\<close> overwrites.\<close>

definition reads_after :: "committed_tx \<Rightarrow> committed_tx \<Rightarrow> bool" where
  "reads_after t0 t = (case (t0, t) of ((rs0, ks0, s0), (rs, ks, s)) \<Rightarrow>
     \<forall>k \<in> set ks0. \<forall>r. reads rs k r \<longrightarrow> s0 \<le> r)"

locale conflict_register =
  fixes ok :: "'v \<Rightarrow> read_set \<Rightarrow> bool"
    and record_op :: "'v \<Rightarrow> bytes list \<Rightarrow> u64 \<Rightarrow> 'v"
    and inv :: "'v \<Rightarrow> u64 \<Rightarrow> (bytes \<times> u64) list \<Rightarrow> bool"
  assumes inv_record: "inv v q cs \<Longrightarrow> q \<le> s \<Longrightarrow> mask_seq s = s \<Longrightarrow>
      inv (record_op v ks s) s (cs @ map (\<lambda>k. (k, s)) ks)"
    and inv_later: "inv v q cs \<Longrightarrow> q \<le> q' \<Longrightarrow> inv v q' cs"
    and refuse: "inv v q cs \<Longrightarrow> (k, s) \<in> set cs \<Longrightarrow> reads rs k r \<Longrightarrow> r < s \<Longrightarrow> \<not> ok v rs"
begin

lemma admitted_after_commits:
  "inv v q cs \<Longrightarrow> sorted (map (\<lambda>(rs, ks, s). s) txs) \<Longrightarrow>
   (\<forall>(rs, ks, s) \<in> set txs. q \<le> s \<and> mask_seq s = s) \<Longrightarrow>
   (rs, ks, s) \<in> set (commit_txs ok record_op v txs) \<Longrightarrow> (k, s0) \<in> set cs \<Longrightarrow> reads rs k r \<Longrightarrow> s0 \<le> r"
proof (induction txs arbitrary: v q cs)
  case Nil
  then show ?case by simp
next
  case (Cons t txs)
  obtain rs1 ks1 s1 where t: "t = (rs1, ks1, s1)" by (cases t)
  from Cons.prems t have ge: "q \<le> s1" "mask_seq s1 = s1" by auto
  have later: "\<forall>(rs, ks, s) \<in> set txs. s1 \<le> s \<and> mask_seq s = s" "sorted (map (\<lambda>(rs, ks, s). s) txs)"
    using Cons.prems(2,3) t by fastforce+
  show ?case
  proof (cases "ok v rs1")
    case True
    with Cons.prems(4) t consider "(rs, ks, s) = (rs1, ks1, s1)"
      | "(rs, ks, s) \<in> set (commit_txs ok record_op (record_op v ks1 s1) txs)" by auto
    then show ?thesis
    proof cases
      case 1
      with True refuse [OF Cons.prems(1,5), of rs1 r] Cons.prems(6) show ?thesis
        by (metis Pair_inject linorder_not_le)
    next
      case 2
      from Cons.IH [OF inv_record [OF Cons.prems(1) ge] later(2,1) 2] Cons.prems(5,6)
      show ?thesis by simp
    qed
  next
    case False
    with Cons.prems(4) t have "(rs, ks, s) \<in> set (commit_txs ok record_op v txs)" by simp
    from Cons.IH [OF inv_later [OF Cons.prems(1) ge(1)] later(2,1) this Cons.prems(5,6)] show ?thesis .
  qed
qed

lemma commit_order_serializes:
  "inv v q cs \<Longrightarrow> sorted (map (\<lambda>(rs, ks, s). s) txs) \<Longrightarrow>
   (\<forall>(rs, ks, s) \<in> set txs. q \<le> s \<and> mask_seq s = s) \<Longrightarrow>
   sorted_wrt reads_after (commit_txs ok record_op v txs)"
proof (induction txs arbitrary: v q cs)
  case Nil
  then show ?case by simp
next
  case (Cons t txs)
  obtain rs1 ks1 s1 where t: "t = (rs1, ks1, s1)" by (cases t)
  from Cons.prems t have ge: "q \<le> s1" "mask_seq s1 = s1" by auto
  have later: "\<forall>(rs, ks, s) \<in> set txs. s1 \<le> s \<and> mask_seq s = s" "sorted (map (\<lambda>(rs, ks, s). s) txs)"
    using Cons.prems(2,3) t by fastforce+
  show ?case
  proof (cases "ok v rs1")
    case True
    note inv1 = inv_record [OF Cons.prems(1) ge, of ks1]
    have "reads_after (rs1, ks1, s1) t'" if "t' \<in> set (commit_txs ok record_op (record_op v ks1 s1) txs)" for t'
    proof -
      obtain rs ks s where t': "t' = (rs, ks, s)" by (cases t')
      have "s1 \<le> r" if "k \<in> set ks1" "reads rs k r" for k r
        using admitted_after_commits [OF inv1 later(2,1) \<open>t' \<in> _\<close> [unfolded t'], of k s1 r] that by auto
      then show ?thesis by (simp add: reads_after_def t')
    qed
    with True t Cons.IH [OF inv1 later(2,1)] show ?thesis by simp
  next
    case False
    with t Cons.IH [OF inv_later [OF Cons.prems(1) ge(1)] later(2,1)] show ?thesis by simp
  qed
qed

end

section \<open>The validator provides the contract\<close>

definition validator_ok :: "(bytes \<Rightarrow> u64) \<Rightarrow> ssi_validator \<Rightarrow> read_set \<Rightarrow> bool" where
  "validator_ok D v rs \<longleftrightarrow> validate D v 0 rs = Inr ()"

interpretation ssi: conflict_register "validator_ok D" record_commit_keys sv_inv for D
proof
  fix v q cs s ks
  assume "sv_inv v q cs" "q \<le> s" "mask_seq s = s"
  then show "sv_inv (record_commit_keys v ks s) s (cs @ map (\<lambda>k. (k, s)) ks)"
    using sv_inv_record_keys [of v q cs s ks] by metis
next
  fix v q cs q'
  assume "sv_inv v q cs" "q \<le> q'"
  then show "sv_inv v q' cs" by (rule sv_inv_mono)
next
  fix v q cs k s rs r
  assume "sv_inv v q cs" "(k, s) \<in> set cs" "reads rs k r" "r < s"
  then show "\<not> validator_ok D v rs"
    unfolding validator_ok_def using covered_conflict [of v k s rs r D 0]
    by (fastforce simp: sv_inv_def sv_covers_def)
qed

text \<open>C7: serializability. When transactions commit in the order of their commit sequence numbers,
  each after its read set was validated and by recording its write keys, every admitted
  transaction has read, for every key (point reads and range scans), a snapshot that contains all
  the writes of the transactions admitted before it. The commit order is a serial order: no write
  skew and no phantom is admitted.\<close>

theorem serializable_commit_order:
  assumes "sv_writes v = cw_new"
    and "sorted (map (\<lambda>(rs, ks, s). s) txs)" and "\<forall>(rs, ks, s) \<in> set txs. mask_seq s = s"
  shows "sorted_wrt reads_after (commit_txs (validator_ok D) record_commit_keys v txs)"
  using ssi.commit_order_serializes [OF sv_inv_new [OF assms(1)] assms(2)] assms(3) by fastforce

theorem serializable_commit_order_witness:
  "sorted_wrt reads_after (commit_txs (validator_ok (\<lambda>_. 0)) record_commit_keys (new_with_bounds 100)
     [(record_read read_set_new [1] 0, [[2]], 1), (record_read read_set_new [2] 0, [[1]], 2)])"
  by (rule serializable_commit_order) (simp_all add: new_with_bounds_def TOMBSTONE_BIT_def)

end
