(* ===== verification/TxBuffer.thy ===== *)
theory TxBuffer
  imports CommitRegister
begin

text \<open>
  The buffer of uncommitted transactions, \<open>crates/contextra-mvcc/src/tx_buffer.rs\<close>.

  A \<open>tx_buffer\<close> has a list of transaction shards (operations with their time of creation, read
  sets, byte counters) and a list of key shards (which transaction has staged which key). Every
  operation locks one shard at a time; here the shard is taken out of the list and put back. A
  shard whose lock is not free when the reaper tries it is skipped: \<open>free\<close> says which are free.
  The payload type is a parameter with its size \<open>sz\<close> (\<open>StagedOpSize\<close>), the hash of a key a
  parameter \<open>hash\<close>. Byte counters are natural numbers.
\<close>

section \<open>Operations and shards\<close>

datatype 'a index_op = OpInsert u64 'a | OpDelete u64 "'a option"

fun op_doc_id :: "'a index_op \<Rightarrow> u64" where
  "op_doc_id (OpInsert doc_id data) = doc_id"
| "op_doc_id (OpDelete doc_id data) = doc_id"

definition STAGING_ENTRY_OVERHEAD_BYTES :: nat where
  "STAGING_ENTRY_OVERHEAD_BYTES = 32"

fun estimated_bytes :: "('a \<Rightarrow> nat) \<Rightarrow> 'a index_op \<Rightarrow> nat" where
  "estimated_bytes sz (OpInsert doc_id data) = STAGING_ENTRY_OVERHEAD_BYTES + sz data"
| "estimated_bytes sz (OpDelete doc_id (Some data)) = STAGING_ENTRY_OVERHEAD_BYTES + sz data"
| "estimated_bytes sz (OpDelete doc_id None) = STAGING_ENTRY_OVERHEAD_BYTES + 0"

record tx_config =
  cf_tx_timeout :: nat
  cf_max_active_tx :: nat
  cf_max_ops_per_tx :: nat
  cf_max_tx_staged_bytes :: nat
  cf_max_total_staged_bytes :: nat

definition default_config :: tx_config where
  "default_config =
     \<lparr>cf_tx_timeout = 30 * 1000000000, cf_max_active_tx = 64, cf_max_ops_per_tx = 10000,
      cf_max_tx_staged_bytes = 16 * 1024 * 1024, cf_max_total_staged_bytes = 256 * 1024 * 1024\<rparr>"

record 'a tx_shard =
  ts_ops :: "(u64 \<times> 'a index_op list \<times> u64) list"
  ts_read_sets :: "(u64 \<times> read_set) list"
  ts_staged :: "(u64 \<times> nat) list"

type_synonym key_shard = "(bytes \<times> (u64 \<times> bool) list) list"

record 'a tx_buffer =
  tb_shards :: "'a tx_shard list"
  tb_key_shards :: "key_shard list"
  tb_config :: tx_config
  tb_global :: nat

definition tx_shard_new :: "'a tx_shard" where
  "tx_shard_new = \<lparr>ts_ops = [], ts_read_sets = [], ts_staged = []\<rparr>"

definition tx_buffer_new :: "nat \<Rightarrow> tx_config \<Rightarrow> 'a tx_buffer" where
  "tx_buffer_new shard_count config =
     (let n = (if shard_count = 0 then 1 else shard_count)
      in \<lparr>tb_shards = replicate n tx_shard_new, tb_key_shards = replicate n [],
          tb_config = config, tb_global = 0\<rparr>)"

datatype tx_error =
    ShardOutOfBounds
  | ReadSetLimit nat u64
  | TxBudget u64 nat nat nat
  | GlobalBudget nat nat nat
  | TooManyOps u64 nat
  | NoPendingOps u64

text \<open>\<open>shards.get(idx)\<close>\<close>

definition get_at :: "'b list \<Rightarrow> nat \<Rightarrow> 'b option" where
  "get_at xs i = (if i < length xs then Some (xs ! i) else None)"

definition shard_idx :: "'a tx_buffer \<Rightarrow> u64 \<Rightarrow> nat" where
  "shard_idx tb tx =
     (if length (tb_shards tb) = 0 then 0 else unat tx mod length (tb_shards tb))"

definition key_shard_idx :: "(bytes \<Rightarrow> u64) \<Rightarrow> 'a tx_buffer \<Rightarrow> bytes \<Rightarrow> nat" where
  "key_shard_idx hash tb key =
     (if length (tb_key_shards tb) = 0 then 0 else unat (hash key) mod length (tb_key_shards tb))"

text \<open>\<open>entry(k).or_insert(v)\<close>\<close>

definition or_insert :: "'k \<Rightarrow> 'v \<Rightarrow> ('k \<times> 'v) list \<Rightarrow> ('k \<times> 'v) list" where
  "or_insert k v m = (case map_of m k of None \<Rightarrow> AList.update k v m | Some _ \<Rightarrow> m)"

definition lookup_or :: "'v \<Rightarrow> ('k \<times> 'v) list \<Rightarrow> 'k \<Rightarrow> 'v" where
  "lookup_or d m k = (case map_of m k of None \<Rightarrow> d | Some v \<Rightarrow> v)"

definition has_tx :: "'a tx_buffer \<Rightarrow> u64 \<Rightarrow> bool" where
  "has_tx tb tx =
     (case get_at (tb_shards tb) (shard_idx tb tx) of
        Some shard \<Rightarrow> map_of (ts_ops shard) tx \<noteq> None
      | None \<Rightarrow> False)"

definition set_shard :: "'a tx_buffer \<Rightarrow> u64 \<Rightarrow> 'a tx_shard \<Rightarrow> 'a tx_buffer" where
  "set_shard tb tx shard = tb\<lparr>tb_shards := (tb_shards tb)[shard_idx tb tx := shard]\<rparr>"

definition begin_at :: "'a tx_buffer \<Rightarrow> u64 \<Rightarrow> u64 \<Rightarrow> 'a tx_buffer" where
  "begin_at tb tx at_nanos =
     (case get_at (tb_shards tb) (shard_idx tb tx) of
        None \<Rightarrow> tb
      | Some shard \<Rightarrow> set_shard tb tx
          \<lparr>ts_ops = or_insert tx ([], at_nanos) (ts_ops shard),
           ts_read_sets = or_insert tx read_set_new (ts_read_sets shard),
           ts_staged = or_insert tx 0 (ts_staged shard)\<rparr>)"

definition register_read :: "'a tx_buffer \<Rightarrow> u64 \<Rightarrow> bytes \<Rightarrow> u64 \<Rightarrow> 'a tx_buffer" where
  "register_read tb tx key snapshot_seq =
     (case get_at (tb_shards tb) (shard_idx tb tx) of
        None \<Rightarrow> tb
      | Some shard \<Rightarrow> set_shard tb tx (shard\<lparr>ts_read_sets := AList.update tx
          (record_read (lookup_or read_set_new (ts_read_sets shard) tx) key snapshot_seq)
          (ts_read_sets shard)\<rparr>))"

definition try_register_read ::
  "'a tx_buffer \<Rightarrow> u64 \<Rightarrow> bytes \<Rightarrow> u64 \<Rightarrow> nat \<Rightarrow> 'a tx_buffer \<times> (tx_error + unit)" where
  "try_register_read tb tx key snapshot_seq max_keys =
     (case get_at (tb_shards tb) (shard_idx tb tx) of
        None \<Rightarrow> (tb, Inl ShardOutOfBounds)
      | Some shard \<Rightarrow>
          (let rs = lookup_or read_set_new (ts_read_sets shard) tx
           in if read_set_get rs key = None \<and> read_set_len rs \<ge> max_keys
              then (set_shard tb tx (shard\<lparr>ts_read_sets := or_insert tx read_set_new (ts_read_sets shard)\<rparr>),
                    Inl (ReadSetLimit max_keys tx))
              else (set_shard tb tx (shard\<lparr>ts_read_sets :=
                      AList.update tx (record_read rs key snapshot_seq) (ts_read_sets shard)\<rparr>), Inr ())))"

text \<open>The minimum over all read sets of all shards.\<close>

definition min_opt :: "u64 option \<Rightarrow> u64 option \<Rightarrow> u64 option" where
  "min_opt overall s = (case s of None \<Rightarrow> overall
     | Some min_seq \<Rightarrow> Some (case overall of None \<Rightarrow> min_seq | Some c \<Rightarrow> min c min_seq))"

definition tb_min_read_snapshot :: "'a tx_buffer \<Rightarrow> u64 option" where
  "tb_min_read_snapshot tb =
     foldl (\<lambda>overall shard.
        foldl (\<lambda>overall (tx, rs). min_opt overall (rs_min_snapshot_seq rs)) overall (ts_read_sets shard))
       None (tb_shards tb)"

definition get_read_set :: "'a tx_buffer \<Rightarrow> u64 \<Rightarrow> read_set option" where
  "get_read_set tb tx =
     Option.bind (get_at (tb_shards tb) (shard_idx tb tx)) (\<lambda>shard. map_of (ts_read_sets shard) tx)"

definition stage_bounded ::
  "('a \<Rightarrow> nat) \<Rightarrow> 'a tx_buffer \<Rightarrow> u64 \<Rightarrow> 'a index_op \<Rightarrow> u64 \<Rightarrow> 'a tx_buffer \<times> (tx_error + unit)" where
  "stage_bounded sz tb tx op now_nanos =
     (let op_bytes = estimated_bytes sz op
      in case get_at (tb_shards tb) (shard_idx tb tx) of
           None \<Rightarrow> (tb, Inl ShardOutOfBounds)
         | Some shard \<Rightarrow>
             (let staged = or_insert tx 0 (ts_staged shard);
                  curr = lookup_or 0 staged tx;
                  shard = shard\<lparr>ts_staged := staged\<rparr>
              in if curr + op_bytes > cf_max_tx_staged_bytes (tb_config tb)
                 then (set_shard tb tx shard, Inl (TxBudget tx curr op_bytes (cf_max_tx_staged_bytes (tb_config tb))))
                 else if tb_global tb + op_bytes > cf_max_total_staged_bytes (tb_config tb)
                 then (set_shard tb tx shard,
                       Inl (GlobalBudget (tb_global tb) op_bytes (cf_max_total_staged_bytes (tb_config tb))))
                 else
                   (let ops = or_insert tx ([], now_nanos) (ts_ops shard);
                        entry = lookup_or ([], now_nanos) ops tx;
                        shard = shard\<lparr>ts_ops := ops\<rparr>
                    in if length (fst entry) \<ge> cf_max_ops_per_tx (tb_config tb)
                       then (set_shard tb tx shard, Inl (TooManyOps tx (cf_max_ops_per_tx (tb_config tb))))
                       else ((set_shard tb tx
                                (shard\<lparr>ts_ops := AList.update tx (fst entry @ [op], snd entry) ops,
                                       ts_staged := AList.update tx (curr + op_bytes) staged\<rparr>))
                               \<lparr>tb_global := tb_global tb + op_bytes\<rparr>, Inr ()))))"

definition stage_many ::
  "('a \<Rightarrow> nat) \<Rightarrow> 'a tx_buffer \<Rightarrow> u64 \<Rightarrow> 'a index_op list \<Rightarrow> u64 \<Rightarrow> 'a tx_buffer \<times> (tx_error + unit)" where
  "stage_many sz tb tx ops_vec now_nanos =
     (let total_op_bytes = sum_list (map (estimated_bytes sz) ops_vec)
      in case get_at (tb_shards tb) (shard_idx tb tx) of
           None \<Rightarrow> (tb, Inl ShardOutOfBounds)
         | Some shard \<Rightarrow>
             (let staged = or_insert tx 0 (ts_staged shard);
                  curr = lookup_or 0 staged tx;
                  shard = shard\<lparr>ts_staged := staged\<rparr>
              in if curr + total_op_bytes > cf_max_tx_staged_bytes (tb_config tb)
                 then (set_shard tb tx shard,
                       Inl (TxBudget tx curr total_op_bytes (cf_max_tx_staged_bytes (tb_config tb))))
                 else if tb_global tb + total_op_bytes > cf_max_total_staged_bytes (tb_config tb)
                 then (set_shard tb tx shard,
                       Inl (GlobalBudget (tb_global tb) total_op_bytes (cf_max_total_staged_bytes (tb_config tb))))
                 else
                   (let ops = or_insert tx ([], now_nanos) (ts_ops shard);
                        entry = lookup_or ([], now_nanos) ops tx;
                        shard = shard\<lparr>ts_ops := ops\<rparr>
                    in if length (fst entry) + length ops_vec > cf_max_ops_per_tx (tb_config tb)
                       then (set_shard tb tx shard, Inl (TooManyOps tx (cf_max_ops_per_tx (tb_config tb))))
                       else ((set_shard tb tx
                                (shard\<lparr>ts_ops := AList.update tx (fst entry @ ops_vec, snd entry) ops,
                                       ts_staged := AList.update tx (curr + total_op_bytes) staged\<rparr>))
                               \<lparr>tb_global := tb_global tb + total_op_bytes\<rparr>, Inr ()))))"

definition validate_pending_ops :: "'a tx_buffer \<Rightarrow> u64 \<Rightarrow> tx_error + unit" where
  "validate_pending_ops tb tx =
     (case get_at (tb_shards tb) (shard_idx tb tx) of
        None \<Rightarrow> Inr ()
      | Some shard \<Rightarrow>
          (case map_of (ts_ops shard) tx of
             Some (ops, _) \<Rightarrow> if ops = [] then Inl (NoPendingOps tx) else Inr ()
           | None \<Rightarrow> Inr ()))"

definition remove_tx :: "'a tx_shard \<Rightarrow> u64 \<Rightarrow> 'a tx_shard" where
  "remove_tx shard tx =
     \<lparr>ts_ops = AList.delete tx (ts_ops shard),
      ts_read_sets = AList.delete tx (ts_read_sets shard),
      ts_staged = AList.delete tx (ts_staged shard)\<rparr>"

definition drain :: "'a tx_buffer \<Rightarrow> u64 \<Rightarrow> 'a tx_buffer \<times> 'a index_op list" where
  "drain tb tx =
     (case get_at (tb_shards tb) (shard_idx tb tx) of
        None \<Rightarrow> (tb, [])
      | Some shard \<Rightarrow>
          ((set_shard tb tx (remove_tx shard tx))
             \<lparr>tb_global := tb_global tb - lookup_or 0 (ts_staged shard) tx\<rparr>,
           (case map_of (ts_ops shard) tx of None \<Rightarrow> [] | Some (ops, _) \<Rightarrow> ops)))"

definition discard :: "'a tx_buffer \<Rightarrow> u64 \<Rightarrow> 'a tx_buffer" where
  "discard tb tx =
     (case get_at (tb_shards tb) (shard_idx tb tx) of
        None \<Rightarrow> tb
      | Some shard \<Rightarrow>
          (set_shard tb tx (remove_tx shard tx))
             \<lparr>tb_global := tb_global tb - lookup_or 0 (ts_staged shard) tx\<rparr>)"

definition tb_len :: "'a tx_buffer \<Rightarrow> nat" where
  "tb_len tb = sum_list (map (\<lambda>s. length (ts_ops s)) (tb_shards tb))"

definition tb_is_empty :: "'a tx_buffer \<Rightarrow> bool" where
  "tb_is_empty tb \<longleftrightarrow> (\<forall>s \<in> set (tb_shards tb). ts_ops s = [])"

definition get_ops :: "'a tx_buffer \<Rightarrow> u64 \<Rightarrow> 'a index_op list option" where
  "get_ops tb tx =
     Option.bind (get_at (tb_shards tb) (shard_idx tb tx)) (\<lambda>shard. map_option fst (map_of (ts_ops shard) tx))"

section \<open>Reaping orphans\<close>

text \<open>\<open>ops.retain(..)\<close>: the entries kept and the expired transactions, at most \<open>room\<close> of them.\<close>

fun retain_ops ::
  "u64 \<Rightarrow> u64 \<Rightarrow> nat \<Rightarrow> (u64 \<times> 'a index_op list \<times> u64) list \<Rightarrow>
   (u64 \<times> 'a index_op list \<times> u64) list \<times> u64 list" where
  "retain_ops now timeout room [] = ([], [])"
| "retain_ops now timeout room ((tx, ops, created) # es) =
     (if 0 < room \<and> saturating_sub now created > timeout
      then let (kept, expired) = retain_ops now timeout (room - 1) es in (kept, tx # expired)
      else let (kept, expired) = retain_ops now timeout room es in ((tx, ops, created) # kept, expired))"

definition release_tx :: "'a tx_shard \<times> nat \<Rightarrow> u64 \<Rightarrow> 'a tx_shard \<times> nat" where
  "release_tx acc tx =
     (case acc of (shard, global) \<Rightarrow>
        (shard\<lparr>ts_read_sets := AList.delete tx (ts_read_sets shard),
               ts_staged := AList.delete tx (ts_staged shard)\<rparr>,
         global - lookup_or 0 (ts_staged shard) tx))"

fun reap_shards ::
  "(nat \<Rightarrow> bool) \<Rightarrow> nat \<Rightarrow> u64 \<Rightarrow> u64 \<Rightarrow> nat \<Rightarrow> 'a tx_shard list \<Rightarrow> nat \<Rightarrow> u64 list \<Rightarrow>
   'a tx_shard list \<times> nat \<times> u64 list" where
  "reap_shards free limit now timeout i [] global expired = ([], global, expired)"
| "reap_shards free limit now timeout i (shard # shards) global expired =
     (if length expired \<ge> limit then (shard # shards, global, expired)
      else if free i
      then let (kept, gone) = retain_ops now timeout (limit - length expired) (ts_ops shard);
               (shard', global') = foldl release_tx (shard\<lparr>ts_ops := kept\<rparr>, global) gone;
               (shards', global'', expired') =
                 reap_shards free limit now timeout (Suc i) shards global' (expired @ gone)
           in (shard' # shards', global'', expired')
      else let (shards', global', expired') =
                 reap_shards free limit now timeout (Suc i) shards global expired
           in (shard # shards', global', expired'))"

definition reap_orphans_bounded_at ::
  "(nat \<Rightarrow> bool) \<Rightarrow> 'a tx_buffer \<Rightarrow> nat \<Rightarrow> u64 \<Rightarrow> 'a tx_buffer \<times> u64 list" where
  "reap_orphans_bounded_at free tb limit now_nanos =
     (let (shards, global, expired) =
            reap_shards free limit now_nanos (clamp_u64 (cf_tx_timeout (tb_config tb))) 0
              (tb_shards tb) (tb_global tb) []
      in (tb\<lparr>tb_shards := shards, tb_global := global\<rparr>, expired))"

section \<open>Key staging\<close>

type_synonym kv = "bytes \<times> bytes"

definition kv_size :: "kv \<Rightarrow> nat" where
  "kv_size d = length (fst d) + length (snd d)"

fun op_key :: "kv index_op \<Rightarrow> (bytes \<times> bool) option" where
  "op_key (OpInsert doc_id data) = Some (fst data, True)"
| "op_key (OpDelete doc_id (Some data)) = Some (fst data, False)"
| "op_key (OpDelete doc_id None) = None"

definition track_key_stage :: "(bytes \<Rightarrow> u64) \<Rightarrow> kv tx_buffer \<Rightarrow> u64 \<Rightarrow> bytes \<Rightarrow> bool \<Rightarrow> kv tx_buffer" where
  "track_key_stage hash tb tx key is_insert =
     (let idx = key_shard_idx hash tb key
      in case get_at (tb_key_shards tb) idx of
           None \<Rightarrow> tb
         | Some shard \<Rightarrow> tb\<lparr>tb_key_shards := (tb_key_shards tb)[idx :=
             AList.update key (AList.update tx is_insert (lookup_or [] shard key)) shard]\<rparr>)"

definition untrack_key :: "(bytes \<Rightarrow> u64) \<Rightarrow> u64 \<Rightarrow> kv tx_buffer \<Rightarrow> bytes \<Rightarrow> kv tx_buffer" where
  "untrack_key hash tx tb key =
     (let idx = key_shard_idx hash tb key
      in case get_at (tb_key_shards tb) idx of
           None \<Rightarrow> tb
         | Some shard \<Rightarrow>
             (case map_of shard key of
                None \<Rightarrow> tb
              | Some m \<Rightarrow>
                  (let m' = AList.delete tx m
                   in tb\<lparr>tb_key_shards := (tb_key_shards tb)[idx :=
                        if m' = [] then AList.delete key shard else AList.update key m' shard]\<rparr>)))"

definition untrack_key_ops_kv :: "(bytes \<Rightarrow> u64) \<Rightarrow> kv tx_buffer \<Rightarrow> u64 \<Rightarrow> kv index_op list \<Rightarrow> kv tx_buffer" where
  "untrack_key_ops_kv hash tb tx ops =
     foldl (\<lambda>tb op. case op_key op of None \<Rightarrow> tb | Some (key, _) \<Rightarrow> untrack_key hash tx tb key) tb ops"

definition stage_kv ::
  "(bytes \<Rightarrow> u64) \<Rightarrow> kv tx_buffer \<Rightarrow> u64 \<Rightarrow> kv index_op \<Rightarrow> u64 \<Rightarrow> kv tx_buffer \<times> (tx_error + unit)" where
  "stage_kv hash tb tx op now_nanos =
     (case op_key op of
        None \<Rightarrow> stage_bounded kv_size tb tx op now_nanos
      | Some (key, is_insert) \<Rightarrow>
          (let tb1 = track_key_stage hash tb tx key is_insert
           in case stage_bounded kv_size tb1 tx op now_nanos of
                (tb2, Inl e) \<Rightarrow> (untrack_key hash tx tb2 key, Inl e)
              | (tb2, Inr _) \<Rightarrow> (tb2, Inr ())))"

definition drain_kv :: "(bytes \<Rightarrow> u64) \<Rightarrow> kv tx_buffer \<Rightarrow> u64 \<Rightarrow> kv tx_buffer \<times> kv index_op list" where
  "drain_kv hash tb tx =
     (let (tb, ops) = drain tb tx
      in (if ops \<noteq> [] then untrack_key_ops_kv hash tb tx ops else tb, ops))"

definition discard_kv :: "(bytes \<Rightarrow> u64) \<Rightarrow> kv tx_buffer \<Rightarrow> u64 \<Rightarrow> kv tx_buffer" where
  "discard_kv hash tb tx =
     discard (case get_ops tb tx of None \<Rightarrow> tb | Some ops \<Rightarrow> untrack_key_ops_kv hash tb tx ops) tx"

definition is_key_staged_for_tx :: "kv tx_buffer \<Rightarrow> u64 \<Rightarrow> bytes \<Rightarrow> bool" where
  "is_key_staged_for_tx tb tx_id key =
     (case get_ops tb tx_id of
        None \<Rightarrow> False
      | Some ops \<Rightarrow> list_ex (\<lambda>op. case op of OpInsert _ data \<Rightarrow> fst data = key | OpDelete _ _ \<Rightarrow> False) ops)"

definition newest_step :: "(u64 option \<times> bool option) \<Rightarrow> u64 \<times> bool \<Rightarrow> u64 option \<times> bool option" where
  "newest_step st e =
     (case fst st of
        None \<Rightarrow> (Some (fst e), Some (snd e))
      | Some m \<Rightarrow> if fst e > m then (Some (fst e), Some (snd e)) else st)"

definition staged_status :: "(bytes \<Rightarrow> u64) \<Rightarrow> kv tx_buffer \<Rightarrow> bytes \<Rightarrow> bool option" where
  "staged_status hash tb key =
     Option.bind (get_at (tb_key_shards tb) (key_shard_idx hash tb key))
       (\<lambda>shard. Option.bind (map_of shard key) (\<lambda>m. snd (foldl newest_step (None, None) m)))"

end
