(* ===== verification/TxBufferCorrect.thy ===== *)
theory TxBufferCorrect
  imports TxBuffer
begin

text \<open>
  Correctness of the transaction buffer: the byte accounting and the budgets are invariants of
  every run, the shards together implement one map from transactions to their operations, and
  the reaper, the read floor and the key staging do what they promise, with the exceptions shown.
\<close>

section \<open>Sums over association lists\<close>

lemma lookup_or_simps [simp]:
  "lookup_or d [] k = d"
  "lookup_or d (AList.update k v m) k' = (if k' = k then v else lookup_or d m k')"
  "lookup_or d (AList.delete k m) k' = (if k' = k then d else lookup_or d m k')"
  by (simp_all add: lookup_or_def map_simps)

lemma or_insert_lookup [simp]:
  "map_of (or_insert k v m) = (map_of m)(k \<mapsto> lookup_or v m k)"
  by (auto simp: or_insert_def lookup_or_def map_simps split: option.splits)

lemma lookup_or_or_insert [simp]: "lookup_or d (or_insert k d m) k' = lookup_or d m k'"
  by (simp add: lookup_or_def split: option.splits)

lemma hm_wf_or_insert [simp, intro]: "hm_wf m \<Longrightarrow> hm_wf (or_insert k v m)"
  by (simp add: or_insert_def split: option.splits)

lemma sum_update:
  "hm_wf m \<Longrightarrow> sum_list (map snd (AList.update k v m)) + lookup_or 0 m k = sum_list (map snd m) + v"
  for v :: nat
  by (induction m) (auto simp: hm_wf_def lookup_or_def map_of_eq_None_iff split: option.splits)

lemma sum_delete:
  "hm_wf m \<Longrightarrow> sum_list (map snd (AList.delete k m)) + lookup_or 0 m k = sum_list (map snd m)"
  for m :: "('k \<times> nat) list"
proof (induction m)
  case Nil
  then show ?case by simp
next
  case (Cons e m)
  obtain k' v' where e: "e = (k', v')" by force
  from Cons.prems have wf: "hm_wf m" and new: "map_of m k' = None"
    by (auto simp: hm_wf_def e map_of_eq_None_iff)
  have "AList.delete k' m = m" using new by (simp add: delete_id map_of_eq_None_iff dom_map_of_conv_image_fst)
  with Cons.IH [OF wf] new show ?case by (cases "k = k'") (auto simp: e lookup_or_def)
qed

lemma sum_or_insert_0: "hm_wf m \<Longrightarrow> sum_list (map snd (or_insert k 0 m)) = sum_list (map snd m)"
  for m :: "('k \<times> nat) list"
  using sum_update [of m k 0] by (auto simp: or_insert_def lookup_or_def split: option.splits)

lemma sum_lookup:
  "hm_wf m \<Longrightarrow> finite A \<Longrightarrow> dom (map_of m) \<subseteq> A \<Longrightarrow> sum_list (map snd m) = (\<Sum>k\<in>A. lookup_or 0 m k)"
  for m :: "('k \<times> nat) list"
proof (induction m arbitrary: A)
  case Nil
  then show ?case by simp
next
  case (Cons e m)
  obtain k v where e: "e = (k, v)" by force
  from Cons.prems have wf: "hm_wf m" and new: "map_of m k = None" and k: "k \<in> A"
    by (auto simp: hm_wf_def e map_of_eq_None_iff)
  have sub: "dom (map_of m) \<subseteq> A - {k}" using Cons.prems(3) new by (auto simp: e)
  have "(\<Sum>x\<in>A. lookup_or 0 (e # m) x) = v + (\<Sum>x\<in>A - {k}. lookup_or 0 (e # m) x)"
    using k Cons.prems(2) by (simp add: sum.remove e lookup_or_def)
  also have "(\<Sum>x\<in>A - {k}. lookup_or 0 (e # m) x) = (\<Sum>x\<in>A - {k}. lookup_or 0 m x)"
    by (rule sum.cong) (auto simp: e lookup_or_def)
  also have "\<dots> = sum_list (map snd m)"
    using Cons.IH [OF wf _ sub] Cons.prems(2) by simp
  finally show ?case by (simp add: e)
qed

section \<open>The accounting invariant\<close>

definition bytes_of :: "('a \<Rightarrow> nat) \<Rightarrow> 'a index_op list \<Rightarrow> nat" where
  "bytes_of sz ops = sum_list (map (estimated_bytes sz) ops)"

definition ops_of :: "'a tx_shard \<Rightarrow> u64 \<Rightarrow> 'a index_op list" where
  "ops_of s tx = (case map_of (ts_ops s) tx of None \<Rightarrow> [] | Some (ops, _) \<Rightarrow> ops)"

definition staged_sum :: "'a tx_shard \<Rightarrow> nat" where
  "staged_sum s = sum_list (map snd (ts_staged s))"

definition shard_ok :: "('a \<Rightarrow> nat) \<Rightarrow> tx_config \<Rightarrow> 'a tx_shard \<Rightarrow> bool" where
  "shard_ok sz c s \<longleftrightarrow> hm_wf (ts_ops s) \<and> hm_wf (ts_read_sets s) \<and> hm_wf (ts_staged s) \<and>
     (\<forall>tx. lookup_or 0 (ts_staged s) tx = bytes_of sz (ops_of s tx) \<and>
           length (ops_of s tx) \<le> cf_max_ops_per_tx c \<and>
           bytes_of sz (ops_of s tx) \<le> cf_max_tx_staged_bytes c)"

definition tb_ok :: "('a \<Rightarrow> nat) \<Rightarrow> 'a tx_buffer \<Rightarrow> bool" where
  "tb_ok sz tb \<longleftrightarrow> tb_shards tb \<noteq> [] \<and>
     (\<forall>s \<in> set (tb_shards tb). shard_ok sz (tb_config tb) s) \<and>
     (\<forall>i < length (tb_shards tb). \<forall>tx. map_of (ts_ops (tb_shards tb ! i)) tx \<noteq> None \<longrightarrow>
        unat tx mod length (tb_shards tb) = i) \<and>
     tb_global tb = sum_list (map staged_sum (tb_shards tb)) \<and>
     tb_global tb \<le> cf_max_total_staged_bytes (tb_config tb)"

definition shard_at :: "'a tx_buffer \<Rightarrow> u64 \<Rightarrow> 'a tx_shard" where
  "shard_at tb tx = tb_shards tb ! shard_idx tb tx"

definition tx_ops :: "'a tx_buffer \<Rightarrow> u64 \<Rightarrow> 'a index_op list" where
  "tx_ops tb tx = ops_of (shard_at tb tx) tx"

lemma shard_idx_less: "tb_shards tb \<noteq> [] \<Longrightarrow> shard_idx tb tx < length (tb_shards tb)"
  by (simp add: shard_idx_def)

lemma get_shard: "tb_shards tb \<noteq> [] \<Longrightarrow> get_at (tb_shards tb) (shard_idx tb tx) = Some (shard_at tb tx)"
  by (simp add: get_at_def shard_idx_less shard_at_def)

lemma shard_at_in: "tb_shards tb \<noteq> [] \<Longrightarrow> shard_at tb tx \<in> set (tb_shards tb)"
  by (simp add: shard_at_def shard_idx_less)

lemma set_shard_simps [simp]:
  "tb_config (set_shard tb tx s) = tb_config tb"
  "tb_global (set_shard tb tx s) = tb_global tb"
  "tb_key_shards (set_shard tb tx s) = tb_key_shards tb"
  "length (tb_shards (set_shard tb tx s)) = length (tb_shards tb)"
  by (simp_all add: set_shard_def)

lemma shard_idx_cong: "length (tb_shards tb') = length (tb_shards tb) \<Longrightarrow> shard_idx tb' tx = shard_idx tb tx"
  by (simp add: shard_idx_def)

lemma shard_at_set_shard:
  assumes "tb_shards tb \<noteq> []"
  shows "shard_at (set_shard tb tx s\<lparr>tb_global := g\<rparr>) tx' = (if shard_idx tb tx' = shard_idx tb tx then s else shard_at tb tx')"
    and "shard_at (set_shard tb tx s) tx' = (if shard_idx tb tx' = shard_idx tb tx then s else shard_at tb tx')"
  using shard_idx_less [OF assms]
  by (auto simp: shard_at_def set_shard_def shard_idx_def nth_list_update)

lemma tx_ops_set_shard:
  assumes "tb_shards tb \<noteq> []" and "\<And>tx'. ops_of s tx' = (if tx' = tx then xs else ops_of (shard_at tb tx) tx')"
  shows "tx_ops (set_shard tb tx s\<lparr>tb_global := g\<rparr>) = (tx_ops tb)(tx := xs)"
    and "tx_ops (set_shard tb tx s) = (tx_ops tb)(tx := xs)"
proof -
  have "ops_of (if shard_idx tb x = shard_idx tb tx then s else shard_at tb x) x = ((tx_ops tb)(tx := xs)) x" for x
  proof (cases "shard_idx tb x = shard_idx tb tx")
    case True
    then have "shard_at tb x = shard_at tb tx" by (simp add: shard_at_def)
    with True assms(2) [of x] show ?thesis by (simp add: tx_ops_def)
  next
    case False
    then have "x \<noteq> tx" by blast
    with False show ?thesis by (simp add: tx_ops_def)
  qed
  then show "tx_ops (set_shard tb tx s\<lparr>tb_global := g\<rparr>) = (tx_ops tb)(tx := xs)"
    and "tx_ops (set_shard tb tx s) = (tx_ops tb)(tx := xs)"
    unfolding fun_eq_iff tx_ops_def shard_at_set_shard [OF assms(1)] by blast+
qed

text \<open>Replacing one shard keeps the invariant when the books of the shard balance.\<close>

lemma tb_ok_set_shard:
  assumes ok: "tb_ok sz tb" and s: "shard_ok sz (tb_config tb) s"
    and dom: "dom (map_of (ts_ops s)) \<subseteq> insert tx (dom (map_of (ts_ops (shard_at tb tx))))"
    and books: "g + staged_sum (shard_at tb tx) = tb_global tb + staged_sum s"
    and budget: "g \<le> cf_max_total_staged_bytes (tb_config tb)"
  shows "tb_ok sz (set_shard tb tx s\<lparr>tb_global := g\<rparr>)"
proof -
  let ?i = "shard_idx tb tx"
  have ne: "tb_shards tb \<noteq> []" using ok by (simp add: tb_ok_def)
  note i = shard_idx_less [OF ne, of tx]
  have "sum_list (map staged_sum ((tb_shards tb)[?i := s])) + staged_sum (shard_at tb tx) =
      sum_list (map staged_sum (tb_shards tb)) + staged_sum s"
  proof -
    have "staged_sum (shard_at tb tx) \<in> set (map staged_sum (tb_shards tb))"
      using shard_at_in [OF ne] by simp
    then have "staged_sum (shard_at tb tx) \<le> sum_list (map staged_sum (tb_shards tb))"
      by (rule member_le_sum_list) simp
    then show ?thesis using i by (simp add: map_update sum_list_update shard_at_def)
  qed
  moreover have "tb_global tb = sum_list (map staged_sum (tb_shards tb))" using ok by (simp add: tb_ok_def)
  ultimately have "g = sum_list (map staged_sum ((tb_shards tb)[?i := s]))" using books by simp
  moreover have "shard_ok sz (tb_config tb) s'" if "s' \<in> set ((tb_shards tb)[?i := s])" for s'
    using that ok s set_update_subset_insert [of "tb_shards tb" ?i s] by (auto simp: tb_ok_def)
  moreover have "unat tx' mod length (tb_shards tb) = j"
    if j: "j < length (tb_shards tb)" and tx': "map_of (ts_ops ((tb_shards tb)[?i := s] ! j)) tx' \<noteq> None" for j tx'
  proof (cases "j = ?i")
    case True
    with tx' i have "tx' \<in> dom (map_of (ts_ops s))" by auto
    with dom consider (new) "tx' = tx" | (old) "map_of (ts_ops (tb_shards tb ! ?i)) tx' \<noteq> None"
      unfolding shard_at_def by blast
    then show ?thesis
    proof cases
      case new
      with True ne show ?thesis by (simp add: shard_idx_def)
    next
      case old
      with ok i True show ?thesis unfolding tb_ok_def by blast
    qed
  next
    case False
    with tx' have "map_of (ts_ops (tb_shards tb ! j)) tx' \<noteq> None" by simp
    with ok j show ?thesis by (simp add: tb_ok_def)
  qed
  ultimately show ?thesis using ne budget by (simp add: tb_ok_def set_shard_def)
qed


lemma tb_ok_set_shard_same:
  assumes "tb_ok sz tb" and "shard_ok sz (tb_config tb) s"
    and "dom (map_of (ts_ops s)) \<subseteq> insert tx (dom (map_of (ts_ops (shard_at tb tx))))"
    and "staged_sum s = staged_sum (shard_at tb tx)"
  shows "tb_ok sz (set_shard tb tx s)"
proof -
  have "tb_ok sz (set_shard tb tx s\<lparr>tb_global := tb_global tb\<rparr>)"
    using assms by (intro tb_ok_set_shard) (simp_all add: tb_ok_def)
  moreover have "set_shard tb tx s\<lparr>tb_global := tb_global tb\<rparr> = set_shard tb tx s"
    by (simp add: set_shard_def)
  ultimately show ?thesis by simp
qed

lemma ops_of_cong: "ts_ops s = ts_ops s' \<Longrightarrow> ops_of s = ops_of s'"
  by (simp add: ops_of_def fun_eq_iff)

lemma lookup_entry: "fst (lookup_or ([], t) (ts_ops s) tx) = ops_of s tx"
  by (auto simp: lookup_or_def ops_of_def split: option.splits)

lemma tb_ok_shard_at: "tb_ok sz tb \<Longrightarrow> shard_ok sz (tb_config tb) (shard_at tb tx)"
  using shard_at_in by (auto simp: tb_ok_def)

section \<open>Each operation: accounting and effect on the staged operations\<close>

lemma begin_at_correct:
  assumes "tb_ok sz tb"
  shows "tb_ok sz (begin_at tb tx t) \<and> tx_ops (begin_at tb tx t) = tx_ops tb"
proof -
  let ?s = "shard_at tb tx"
  let ?s' = "\<lparr>ts_ops = or_insert tx ([], t) (ts_ops ?s), ts_read_sets = or_insert tx read_set_new (ts_read_sets ?s),
    ts_staged = or_insert tx 0 (ts_staged ?s)\<rparr>"
  have ne: "tb_shards tb \<noteq> []" using assms by (simp add: tb_ok_def)
  have eq: "begin_at tb tx t = set_shard tb tx ?s'" by (simp add: begin_at_def get_shard [OF ne])
  have ops: "ops_of ?s' tx' = ops_of ?s tx'" for tx'
    by (auto simp: ops_of_def lookup_or_def split: option.splits)
  have s: "shard_ok sz (tb_config tb) ?s" using assms by (rule tb_ok_shard_at)
  then have "shard_ok sz (tb_config tb) ?s'" by (simp add: shard_ok_def ops)
  moreover have "staged_sum ?s' = staged_sum ?s"
    using s by (simp add: staged_sum_def sum_or_insert_0 shard_ok_def)
  ultimately have "tb_ok sz (begin_at tb tx t)"
    unfolding eq by (intro tb_ok_set_shard_same [OF assms]) auto
  moreover have "tx_ops (begin_at tb tx t) = (tx_ops tb)(tx := tx_ops tb tx)"
    unfolding eq by (rule tx_ops_set_shard(2) [OF ne]) (auto simp: ops tx_ops_def)
  ultimately show ?thesis by simp
qed

lemma set_read_sets_correct:
  assumes "tb_ok sz tb" and "hm_wf m"
  shows "tb_ok sz (set_shard tb tx ((shard_at tb tx)\<lparr>ts_read_sets := m\<rparr>)) \<and>
    tx_ops (set_shard tb tx ((shard_at tb tx)\<lparr>ts_read_sets := m\<rparr>)) = tx_ops tb"
proof -
  let ?s = "shard_at tb tx" and ?s' = "(shard_at tb tx)\<lparr>ts_read_sets := m\<rparr>"
  have ne: "tb_shards tb \<noteq> []" using assms by (simp add: tb_ok_def)
  have ops: "ops_of ?s' = ops_of ?s" by (rule ops_of_cong) simp
  have "shard_ok sz (tb_config tb) ?s'"
    using tb_ok_shard_at [OF assms(1), of tx] assms(2) by (simp add: shard_ok_def ops)
  then have "tb_ok sz (set_shard tb tx ?s')"
    by (intro tb_ok_set_shard_same [OF assms(1)]) (auto simp: staged_sum_def)
  moreover have "tx_ops (set_shard tb tx ?s') = (tx_ops tb)(tx := tx_ops tb tx)"
    by (rule tx_ops_set_shard(2) [OF ne]) (auto simp: ops tx_ops_def)
  ultimately show ?thesis by simp
qed

lemma register_read_correct:
  assumes "tb_ok sz tb"
  shows "tb_ok sz (register_read tb tx k s) \<and> tx_ops (register_read tb tx k s) = tx_ops tb"
proof -
  have ne: "tb_shards tb \<noteq> []" using assms by (simp add: tb_ok_def)
  have "hm_wf (ts_read_sets (shard_at tb tx))"
    using tb_ok_shard_at [OF assms, of tx] by (simp add: shard_ok_def)
  then show ?thesis unfolding register_read_def get_shard [OF ne] option.case
    by (intro set_read_sets_correct [OF assms]) auto
qed

lemma try_register_read_correct:
  assumes "tb_ok sz tb" and "try_register_read tb tx k s n = (tb', r)"
  shows "tb_ok sz tb' \<and> tx_ops tb' = tx_ops tb"
proof -
  have ne: "tb_shards tb \<noteq> []" using assms by (simp add: tb_ok_def)
  have "hm_wf (ts_read_sets (shard_at tb tx))"
    using tb_ok_shard_at [OF assms(1), of tx] by (simp add: shard_ok_def)
  then show ?thesis using assms(2)
    by (auto simp: try_register_read_def get_shard [OF ne] Let_def set_read_sets_correct [OF assms(1)]
        split: if_splits)
qed

text \<open>Staging a single operation is staging a batch of one.\<close>

lemma stage_bounded_many: "stage_bounded sz tb tx op t = stage_many sz tb tx [op] t"
proof -
  have le: "n \<le> length xs \<longleftrightarrow> n < length xs + length [op]" for n and xs :: "'a index_op list"
    by (simp add: less_Suc_eq_le)
  have one: "sum_list (map (estimated_bytes sz) [op]) = estimated_bytes sz op" by simp
  show ?thesis unfolding stage_bounded_def stage_many_def one le by (rule refl)
qed

lemma stage_many_correct:
  assumes ok: "tb_ok sz tb" and r: "stage_many sz tb tx ops t = (tb', r)"
  shows "tb_ok sz tb' \<and> tx_ops tb' = (if r = Inr () then (tx_ops tb)(tx := tx_ops tb tx @ ops) else tx_ops tb)"
proof -
  let ?s = "shard_at tb tx" and ?c = "tb_config tb" and ?b = "bytes_of sz ops"
  let ?staged = "or_insert tx 0 (ts_staged ?s)" and ?ops = "or_insert tx ([], t) (ts_ops ?s)"
  let ?curr = "lookup_or 0 (ts_staged ?s) tx" and ?old = "ops_of ?s tx"
  let ?s1 = "?s\<lparr>ts_staged := ?staged\<rparr>" and ?s2 = "?s\<lparr>ts_staged := ?staged, ts_ops := ?ops\<rparr>"
  have ne: "tb_shards tb \<noteq> []" using ok by (simp add: tb_ok_def)
  have s: "shard_ok sz ?c ?s" using ok by (rule tb_ok_shard_at)
  have old: "tx_ops tb tx = ?old" by (simp add: tx_ops_def)
  have ops1: "ops_of ?s1 tx' = ops_of ?s tx'" "ops_of ?s2 tx' = ops_of ?s tx'" for tx'
    by (auto simp: ops_of_def lookup_or_def split: option.splits)
  have s12: "shard_ok sz ?c ?s1" "shard_ok sz ?c ?s2" using s by (simp_all add: shard_ok_def ops1)
  have sum1: "staged_sum ?s1 = staged_sum ?s" "staged_sum ?s2 = staged_sum ?s"
    using s by (simp_all add: staged_sum_def sum_or_insert_0 shard_ok_def)
  have keep: "tb_ok sz (set_shard tb tx ?s1) \<and> tx_ops (set_shard tb tx ?s1) = tx_ops tb"
    "tb_ok sz (set_shard tb tx ?s2) \<and> tx_ops (set_shard tb tx ?s2) = tx_ops tb"
    using tx_ops_set_shard(2) [OF ne, of ?s1 tx ?old] tx_ops_set_shard(2) [OF ne, of ?s2 tx ?old]
    by (auto simp: ops1 old [symmetric] sum1 intro!: tb_ok_set_shard_same [OF ok] s12)
  consider (err1) "?curr + ?b > cf_max_tx_staged_bytes ?c"
    | (err2) "\<not> ?curr + ?b > cf_max_tx_staged_bytes ?c" "tb_global tb + ?b > cf_max_total_staged_bytes ?c"
    | (err3) "\<not> ?curr + ?b > cf_max_tx_staged_bytes ?c" "\<not> tb_global tb + ?b > cf_max_total_staged_bytes ?c"
        "length ?old + length ops > cf_max_ops_per_tx ?c"
    | (good) "\<not> ?curr + ?b > cf_max_tx_staged_bytes ?c" "\<not> tb_global tb + ?b > cf_max_total_staged_bytes ?c"
        "\<not> length ?old + length ops > cf_max_ops_per_tx ?c" by blast
  then show ?thesis
  proof cases
    case err1
    with r keep(1) show ?thesis
      by (auto simp: stage_many_def get_shard [OF ne] Let_def bytes_of_def [symmetric])
  next
    case err2
    with r keep(1) show ?thesis
      by (auto simp: stage_many_def get_shard [OF ne] Let_def bytes_of_def [symmetric])
  next
    case err3
    with r keep(2) show ?thesis
      by (auto simp: stage_many_def get_shard [OF ne] Let_def bytes_of_def [symmetric] lookup_entry)
  next
    case good
    let ?e = "lookup_or ([], t) (ts_ops ?s) tx"
    let ?s3 = "?s\<lparr>ts_ops := AList.update tx (fst ?e @ ops, snd ?e) ?ops, ts_staged := AList.update tx (?curr + ?b) ?staged\<rparr>"
    have eq: "tb' = set_shard tb tx ?s3\<lparr>tb_global := tb_global tb + ?b\<rparr>" and res: "r = Inr ()"
      using good r by (auto simp: stage_many_def get_shard [OF ne] Let_def bytes_of_def [symmetric] lookup_entry)
    have ops3: "ops_of ?s3 tx' = (if tx' = tx then ?old @ ops else ops_of ?s tx')" for tx'
      by (auto simp: ops_of_def lookup_or_def map_simps split: option.splits)
    have wf: "hm_wf (ts_ops ?s)" "hm_wf (ts_staged ?s)" "?curr = bytes_of sz ?old"
      using s by (auto simp: shard_ok_def)
    have s3: "shard_ok sz ?c ?s3"
      using s good wf(3) unfolding shard_ok_def ops3 by (auto simp: bytes_of_def)
    have "staged_sum ?s3 = staged_sum ?s + ?b"
      using sum_update [of ?staged tx "?curr + ?b"] wf(2) by (simp add: staged_sum_def sum_or_insert_0)
    then have "tb_ok sz tb'" unfolding eq
      using good(2) by (intro tb_ok_set_shard [OF ok s3]) (auto simp: map_simps)
    moreover have "tx_ops tb' = (tx_ops tb)(tx := ?old @ ops)"
      unfolding eq by (rule tx_ops_set_shard(1) [OF ne]) (simp add: ops3)
    ultimately show ?thesis by (simp add: res old)
  qed
qed

lemma remove_tx_books:
  assumes "shard_ok sz c s"
  shows "shard_ok sz c (remove_tx s tx)" and "staged_sum (remove_tx s tx) + lookup_or 0 (ts_staged s) tx = staged_sum s"
    and "ops_of (remove_tx s tx) tx' = (if tx' = tx then [] else ops_of s tx')"
proof -
  show ops: "ops_of (remove_tx s tx) tx' = (if tx' = tx then [] else ops_of s tx')" for tx'
    by (simp add: ops_of_def remove_tx_def map_simps)
  show "staged_sum (remove_tx s tx) + lookup_or 0 (ts_staged s) tx = staged_sum s"
    using assms sum_delete [of "ts_staged s" tx] by (simp add: shard_ok_def staged_sum_def remove_tx_def)
  show "shard_ok sz c (remove_tx s tx)"
    using assms unfolding shard_ok_def ops by (auto simp: remove_tx_def bytes_of_def)
qed

lemma discard_correct:
  assumes ok: "tb_ok sz tb"
  shows "tb_ok sz (discard tb tx) \<and> tx_ops (discard tb tx) = (tx_ops tb)(tx := [])"
proof -
  let ?s = "shard_at tb tx"
  have ne: "tb_shards tb \<noteq> []" using ok by (simp add: tb_ok_def)
  have s: "shard_ok sz (tb_config tb) ?s" using ok by (rule tb_ok_shard_at)
  note r = remove_tx_books [OF s, of tx]
  have eq: "discard tb tx = set_shard tb tx (remove_tx ?s tx)\<lparr>tb_global := tb_global tb - lookup_or 0 (ts_staged ?s) tx\<rparr>"
    by (simp add: discard_def get_shard [OF ne])
  have "staged_sum ?s \<le> tb_global tb"
    using ok shard_at_in [OF ne] by (auto simp: tb_ok_def intro!: member_le_sum_list)
  then have "tb_ok sz (discard tb tx)"
    unfolding eq using r(1,2) ok
    by (intro tb_ok_set_shard) (auto simp: remove_tx_def map_simps tb_ok_def)
  moreover have "tx_ops (discard tb tx) = (tx_ops tb)(tx := [])"
    unfolding eq by (rule tx_ops_set_shard(1) [OF ne]) (simp add: r(3))
  ultimately show ?thesis by simp
qed

lemma drain_correct:
  assumes "tb_ok sz tb"
  shows "drain tb tx = (discard tb tx, tx_ops tb tx)"
  using assms by (simp add: drain_def discard_def tb_ok_def get_shard tx_ops_def ops_of_def)


section \<open>The reaper\<close>

lemma retain_ops_lookup:
  "hm_wf m \<Longrightarrow> retain_ops now timeout room m = (kept, gone) \<Longrightarrow>
   hm_wf kept \<and> distinct gone \<and> set gone \<subseteq> dom (map_of m) \<and> length gone \<le> room \<and>
   map_of kept = map_of m |` (- set gone) \<and>
   (\<forall>tx \<in> set gone. \<exists>ops created. map_of m tx = Some (ops, created) \<and> saturating_sub now created > timeout)"
proof (induction now timeout room m arbitrary: kept gone rule: retain_ops.induct)
  case (1 now timeout room)
  then show ?case by simp
next
  case (2 now timeout room tx ops created es)
  from 2(3) have wf: "hm_wf es" and new: "map_of es tx = None"
    by (auto simp: hm_wf_def map_of_eq_None_iff)
  show ?case
  proof (cases "0 < room \<and> saturating_sub now created > timeout")
    case True
    obtain k g where r: "retain_ops now timeout (room - 1) es = (k, g)" by force
    from 2(4) True r have eq: "kept = k" "gone = tx # g" by auto
    from 2(1) [OF True wf r] have IH: "hm_wf k" "distinct g" "set g \<subseteq> dom (map_of es)" "length g \<le> room - 1"
      "map_of k = map_of es |` (- set g)"
      "\<forall>tx \<in> set g. \<exists>ops created. map_of es tx = Some (ops, created) \<and> saturating_sub now created > timeout"
      by blast+
    have "tx \<notin> set g" using IH(3) new by auto
    then have "distinct gone" using IH(2) eq(2) by simp
    moreover have "map_of kept = map_of ((tx, ops, created) # es) |` (- set gone)"
      using IH(5) new unfolding eq by (auto simp: fun_eq_iff restrict_map_def)
    moreover have "set gone \<subseteq> dom (map_of ((tx, ops, created) # es))" "length gone \<le> room"
      using IH(3,4) True by (auto simp: eq)
    moreover have "\<forall>x \<in> set gone. \<exists>ops' created'. map_of ((tx, ops, created) # es) x = Some (ops', created') \<and>
        saturating_sub now created' > timeout"
      using IH(6) True new unfolding eq by auto
    ultimately show ?thesis using IH(1) eq(1) by blast
  next
    case False
    obtain k g where r: "retain_ops now timeout room es = (k, g)" by force
    from 2(4) False r have eq: "kept = (tx, ops, created) # k" "gone = g" by auto
    from 2(2) [OF False wf r] have IH: "hm_wf k" "distinct g" "set g \<subseteq> dom (map_of es)" "length g \<le> room"
      "map_of k = map_of es |` (- set g)"
      "\<forall>tx \<in> set g. \<exists>ops created. map_of es tx = Some (ops, created) \<and> saturating_sub now created > timeout"
      by blast+
    have tx: "tx \<notin> set g" using IH(3) new by auto
    have "map_of k tx = None" using IH(5) new by (simp add: restrict_map_def)
    then have "hm_wf kept" using IH(1) unfolding eq by (simp add: hm_wf_def map_of_eq_None_iff)
    moreover have "map_of kept = map_of ((tx, ops, created) # es) |` (- set gone)"
      using IH(5) tx unfolding eq by (auto simp: fun_eq_iff restrict_map_def)
    moreover have "distinct gone" "length gone \<le> room" "set gone \<subseteq> dom (map_of ((tx, ops, created) # es))"
      using IH(2-4) unfolding eq by auto
    moreover have "\<forall>x \<in> set gone. \<exists>ops' created'. map_of ((tx, ops, created) # es) x = Some (ops', created') \<and>
        saturating_sub now created' > timeout"
      using IH(6) tx unfolding eq by auto
    ultimately show ?thesis by blast
  qed
qed

lemma release_txs:
  "hm_wf (ts_staged s) \<Longrightarrow> hm_wf (ts_read_sets s) \<Longrightarrow> staged_sum s \<le> g \<Longrightarrow>
   foldl release_tx (s, g) txs = (s', g') \<Longrightarrow>
   hm_wf (ts_staged s') \<and> hm_wf (ts_read_sets s') \<and> ts_ops s' = ts_ops s \<and> staged_sum s' \<le> g' \<and>
   g' + staged_sum s = g + staged_sum s' \<and> g' \<le> g \<and>
   (\<forall>tx. lookup_or 0 (ts_staged s') tx = (if tx \<in> set txs then 0 else lookup_or 0 (ts_staged s) tx))"
proof (induction txs arbitrary: s g)
  case Nil
  then show ?case by simp
next
  case (Cons tx txs)
  let ?s = "s\<lparr>ts_read_sets := AList.delete tx (ts_read_sets s), ts_staged := AList.delete tx (ts_staged s)\<rparr>"
  let ?g = "g - lookup_or 0 (ts_staged s) tx"
  have sum: "staged_sum ?s + lookup_or 0 (ts_staged s) tx = staged_sum s"
    using sum_delete [OF Cons.prems(1), of tx] by (simp add: staged_sum_def)
  have "release_tx (s, g) tx = (?s, ?g)" by (simp add: release_tx_def)
  with Cons.prems(4) have "foldl release_tx (?s, ?g) txs = (s', g')" by simp
  moreover have "staged_sum ?s \<le> ?g" using sum Cons.prems(3) by linarith
  ultimately have IH: "hm_wf (ts_staged s')" "hm_wf (ts_read_sets s')" "ts_ops s' = ts_ops ?s" "staged_sum s' \<le> g'"
    "g' + staged_sum ?s = ?g + staged_sum s'" "g' \<le> ?g"
    "\<forall>x. lookup_or 0 (ts_staged s') x = (if x \<in> set txs then 0 else lookup_or 0 (ts_staged ?s) x)"
    using Cons.IH [of ?s ?g] Cons.prems(1,2) by simp_all
  have "g' + staged_sum s = g + staged_sum s'" "g' \<le> g" using IH(5,6) sum Cons.prems(3) by linarith+
  with IH(1-4,7) show ?case by simp
qed

lemma reap_shard:
  assumes s: "shard_ok sz c s" and r: "retain_ops now timeout room (ts_ops s) = (kept, gone)"
    and f: "foldl release_tx (s\<lparr>ts_ops := kept\<rparr>, g) gone = (s', g')" and g: "staged_sum s \<le> g"
  shows "shard_ok sz c s' \<and> g' + staged_sum s = g + staged_sum s' \<and> g' \<le> g \<and>
    map_of (ts_ops s') = map_of (ts_ops s) |` (- set gone) \<and> set gone \<subseteq> dom (map_of (ts_ops s)) \<and>
    (\<forall>tx. ops_of s' tx = (if tx \<in> set gone then [] else ops_of s tx))"
proof -
  from s have wf: "hm_wf (ts_ops s)" "hm_wf (ts_staged s)" "hm_wf (ts_read_sets s)" by (auto simp: shard_ok_def)
  note k = retain_ops_lookup [OF wf(1) r]
  let ?s = "s\<lparr>ts_ops := kept\<rparr>"
  have sum: "staged_sum ?s = staged_sum s" by (simp add: staged_sum_def)
  from release_txs [OF _ _ _ f] wf g have rel: "hm_wf (ts_staged s')" "hm_wf (ts_read_sets s')" "ts_ops s' = kept"
    "g' \<le> g" "g' + staged_sum s = g + staged_sum s'"
    "\<forall>tx. lookup_or 0 (ts_staged s') tx = (if tx \<in> set gone then 0 else lookup_or 0 (ts_staged s) tx)"
    by (auto simp: sum)
  have ops: "ops_of s' tx = (if tx \<in> set gone then [] else ops_of s tx)" for tx
    using k by (simp add: ops_of_def rel(3) restrict_map_def)
  have "shard_ok sz c s'"
    using s k rel unfolding shard_ok_def ops by (auto simp: bytes_of_def)
  with k rel ops show ?thesis by simp
qed

lemma reap_shards_correct:
  "(\<forall>s \<in> set shards. shard_ok sz c s) \<Longrightarrow> sum_list (map staged_sum shards) \<le> g \<Longrightarrow>
   reap_shards free limit now timeout i shards g expired = (shards', g', expired') \<Longrightarrow>
   length shards' = length shards \<and> (\<forall>s \<in> set shards'. shard_ok sz c s) \<and>
   g' + sum_list (map staged_sum shards) = g + sum_list (map staged_sum shards') \<and> g' \<le> g \<and>
   (\<exists>gones. length gones = length shards \<and> expired' = expired @ concat gones \<and>
      (\<forall>j < length shards. set (gones ! j) \<subseteq> dom (map_of (ts_ops (shards ! j))) \<and>
         map_of (ts_ops (shards' ! j)) = map_of (ts_ops (shards ! j)) |` (- set (gones ! j)) \<and>
         (\<forall>tx. ops_of (shards' ! j) tx = (if tx \<in> set (gones ! j) then [] else ops_of (shards ! j) tx))))"
proof (induction shards arbitrary: i g expired shards' g' expired')
  case Nil
  then show ?case by auto
next
  case (Cons s shards)
  have wf: "shard_ok sz c s" "\<forall>s \<in> set shards. shard_ok sz c s" using Cons.prems(1) by auto
  consider (stop) "limit \<le> length expired" | (skip) "\<not> limit \<le> length expired" "\<not> free i"
    | (reap) "\<not> limit \<le> length expired" "free i" by blast
  then show ?case
  proof cases
    case stop
    with Cons.prems(3) have eq: "shards' = s # shards" "g' = g" "expired' = expired" by auto
    show ?thesis unfolding eq using Cons.prems(1)
      by (intro conjI exI [of _ "replicate (length (s # shards)) []"])
        (auto simp: restrict_map_def simp del: nth_Cons_Suc replicate.simps)
  next
    case skip
    obtain sh2 g2 e2 where r: "reap_shards free limit now timeout (Suc i) shards g expired = (sh2, g2, e2)"
      by (metis prod_cases3)
    with skip Cons.prems(3) have eq: "shards' = s # sh2" "g' = g2" "expired' = e2" by auto
    from Cons.IH [OF wf(2) _ r] Cons.prems(2) obtain gones where IH: "length sh2 = length shards"
      "\<forall>s \<in> set sh2. shard_ok sz c s" "g2 + sum_list (map staged_sum shards) = g + sum_list (map staged_sum sh2)"
      "g2 \<le> g" "length gones = length shards" "e2 = expired @ concat gones"
      "\<forall>j < length shards. set (gones ! j) \<subseteq> dom (map_of (ts_ops (shards ! j))) \<and>
         map_of (ts_ops (sh2 ! j)) = map_of (ts_ops (shards ! j)) |` (- set (gones ! j)) \<and>
         (\<forall>tx. ops_of (sh2 ! j) tx = (if tx \<in> set (gones ! j) then [] else ops_of (shards ! j) tx))"
      by auto
    show ?thesis unfolding eq using IH wf(1)
      by (intro conjI exI [of _ "[] # gones"]) (auto simp: nth_Cons' restrict_map_def)
  next
    case reap
    obtain kept gone where k: "retain_ops now timeout (limit - length expired) (ts_ops s) = (kept, gone)" by force
    obtain s1 g1 where f: "foldl release_tx (s\<lparr>ts_ops := kept\<rparr>, g) gone = (s1, g1)" by force
    obtain sh2 g2 e2 where r: "reap_shards free limit now timeout (Suc i) shards g1 (expired @ gone) = (sh2, g2, e2)"
      by (metis prod_cases3)
    with reap Cons.prems(3) k f have eq: "shards' = s1 # sh2" "g' = g2" "expired' = e2" by auto
    have le: "staged_sum s \<le> g" using Cons.prems(2) by simp
    note one = reap_shard [OF wf(1) k f le]
    have "sum_list (map staged_sum shards) \<le> g1" using one Cons.prems(2) by simp
    from Cons.IH [OF wf(2) this r] obtain gones where IH: "length sh2 = length shards"
      "\<forall>s \<in> set sh2. shard_ok sz c s" "g2 + sum_list (map staged_sum shards) = g1 + sum_list (map staged_sum sh2)"
      "g2 \<le> g1" "length gones = length shards" "e2 = (expired @ gone) @ concat gones"
      "\<forall>j < length shards. set (gones ! j) \<subseteq> dom (map_of (ts_ops (shards ! j))) \<and>
         map_of (ts_ops (sh2 ! j)) = map_of (ts_ops (shards ! j)) |` (- set (gones ! j)) \<and>
         (\<forall>tx. ops_of (sh2 ! j) tx = (if tx \<in> set (gones ! j) then [] else ops_of (shards ! j) tx))"
      by blast
    show ?thesis unfolding eq using IH one
      by (intro conjI exI [of _ "gone # gones"]) (auto simp: nth_Cons')
  qed
qed

end
