(* ===== verification/TxBufferRuns.thy ===== *)
theory TxBufferRuns
  imports TxBufferCorrect Retention
begin

text \<open>
  Runs of the transaction buffer against its specification, a map from transactions to their
  staged operations; the read floor that the buffer gives to compaction; the key staging.
\<close>

section \<open>Reaping the whole buffer\<close>

lemma reap_correct:
  assumes ok: "tb_ok sz tb" and r: "reap_orphans_bounded_at free tb limit now = (tb', expired)"
  shows "tb_ok sz tb' \<and> tx_ops tb' = (\<lambda>tx. if tx \<in> set expired then [] else tx_ops tb tx)"
proof -
  let ?n = "length (tb_shards tb)"
  obtain shards' g' where s: "reap_shards free limit now (clamp_u64 (cf_tx_timeout (tb_config tb))) 0
      (tb_shards tb) (tb_global tb) [] = (shards', g', expired)" and tb': "tb' = tb\<lparr>tb_shards := shards', tb_global := g'\<rparr>"
    using r by (auto simp: reap_orphans_bounded_at_def split: prod.splits)
  from ok have wf: "\<forall>s \<in> set (tb_shards tb). shard_ok sz (tb_config tb) s" and ne: "tb_shards tb \<noteq> []"
    and idx: "\<And>i tx. i < ?n \<Longrightarrow> map_of (ts_ops (tb_shards tb ! i)) tx \<noteq> None \<Longrightarrow> unat tx mod ?n = i"
    and sum: "tb_global tb = sum_list (map staged_sum (tb_shards tb))"
    by (auto simp: tb_ok_def)
  from reap_shards_correct [OF wf _ s] sum obtain gones where c: "length shards' = ?n"
    "\<forall>s \<in> set shards'. shard_ok sz (tb_config tb) s" "g' = sum_list (map staged_sum shards')" "g' \<le> tb_global tb"
    "length gones = ?n" "expired = concat gones"
    "\<And>j. j < ?n \<Longrightarrow> set (gones ! j) \<subseteq> dom (map_of (ts_ops (tb_shards tb ! j))) \<and>
         map_of (ts_ops (shards' ! j)) = map_of (ts_ops (tb_shards tb ! j)) |` (- set (gones ! j)) \<and>
         (\<forall>tx. ops_of (shards' ! j) tx = (if tx \<in> set (gones ! j) then [] else ops_of (tb_shards tb ! j) tx))"
    by auto
  have gone: "tx \<in> set expired \<longleftrightarrow> tx \<in> set (gones ! shard_idx tb tx)" for tx
  proof
    assume "tx \<in> set expired"
    then obtain g where "g \<in> set gones" "tx \<in> set g" using c(6) by auto
    then obtain j where j: "j < ?n" "tx \<in> set (gones ! j)" using c(5) by (metis in_set_conv_nth)
    with c(7) [OF j(1)] have "map_of (ts_ops (tb_shards tb ! j)) tx \<noteq> None" by auto
    with idx [OF j(1)] ne have "shard_idx tb tx = j" by (simp add: shard_idx_def)
    with j(2) show "tx \<in> set (gones ! shard_idx tb tx)" by simp
  next
    assume "tx \<in> set (gones ! shard_idx tb tx)"
    then show "tx \<in> set expired" using shard_idx_less [OF ne, of tx] c(5,6) by auto
  qed
  have len: "length (tb_shards tb') = ?n" by (simp add: tb' c(1))
  have "tx_ops tb' tx = (if tx \<in> set expired then [] else tx_ops tb tx)" for tx
    using c(7) [OF shard_idx_less [OF ne, of tx]] gone [of tx]
    by (simp only: tx_ops_def shard_at_def shard_idx_cong [OF len]) (simp add: tb')
  moreover have "unat tx mod ?n = i" if i: "i < ?n" and "map_of (ts_ops (shards' ! i)) tx \<noteq> None" for i tx
  proof -
    have "map_of (ts_ops (tb_shards tb ! i)) tx \<noteq> None"
      using that c(7) [OF i] by (simp add: restrict_map_def split: if_splits)
    with idx [OF i] show ?thesis by blast
  qed
  moreover have "g' \<le> cf_max_total_staged_bytes (tb_config tb)" using c(4) ok by (auto simp: tb_ok_def)
  ultimately show ?thesis
    using c(1-3) ne by (auto simp: tb' tb_ok_def)
qed

section \<open>Runs\<close>

datatype 'a tb_op =
    TBegin u64 u64
  | TRead u64 bytes u64
  | TTryRead u64 bytes u64 nat
  | TStage u64 "'a index_op" u64
  | TStageMany u64 "'a index_op list" u64
  | TDrain u64
  | TDiscard u64
  | TReap "nat \<Rightarrow> bool" nat u64

datatype 'a tb_out = Done | Failed tx_error | Drained "'a index_op list" | Reaped "u64 list"

definition outcome :: "tx_error + unit \<Rightarrow> 'a tb_out" where
  "outcome r = (case r of Inl e \<Rightarrow> Failed e | Inr _ \<Rightarrow> Done)"

fun tb_exec :: "('a \<Rightarrow> nat) \<Rightarrow> 'a tb_op \<Rightarrow> 'a tx_buffer \<Rightarrow> 'a tx_buffer \<times> 'a tb_out" where
  "tb_exec sz (TBegin tx t) tb = (begin_at tb tx t, Done)"
| "tb_exec sz (TRead tx k s) tb = (register_read tb tx k s, Done)"
| "tb_exec sz (TTryRead tx k s n) tb = (let (tb', r) = try_register_read tb tx k s n in (tb', outcome r))"
| "tb_exec sz (TStage tx op t) tb = (let (tb', r) = stage_bounded sz tb tx op t in (tb', outcome r))"
| "tb_exec sz (TStageMany tx ops t) tb = (let (tb', r) = stage_many sz tb tx ops t in (tb', outcome r))"
| "tb_exec sz (TDrain tx) tb = (let (tb', ops) = drain tb tx in (tb', Drained ops))"
| "tb_exec sz (TDiscard tx) tb = (discard tb tx, Done)"
| "tb_exec sz (TReap free limit now) tb =
     (let (tb', txs) = reap_orphans_bounded_at free tb limit now in (tb', Reaped txs))"

text \<open>The specification: one map from transactions to operations.\<close>

type_synonym 'a staged = "u64 \<Rightarrow> 'a index_op list"

fun spec_step :: "'a tb_op \<Rightarrow> 'a tb_out \<Rightarrow> 'a staged \<Rightarrow> 'a staged" where
  "spec_step (TStage tx op t) Done A = A(tx := A tx @ [op])"
| "spec_step (TStageMany tx ops t) Done A = A(tx := A tx @ ops)"
| "spec_step (TDrain tx) out A = A(tx := [])"
| "spec_step (TDiscard tx) out A = A(tx := [])"
| "spec_step (TReap free limit now) (Reaped txs) A = (\<lambda>tx. if tx \<in> set txs then [] else A tx)"
| "spec_step op out A = A"

fun spec_out :: "'a tb_op \<Rightarrow> 'a tb_out \<Rightarrow> 'a staged \<Rightarrow> bool" where
  "spec_out (TDrain tx) out A = (out = Drained (A tx))"
| "spec_out op out A = True"

fun tb_run :: "('a \<Rightarrow> nat) \<Rightarrow> 'a tb_op list \<Rightarrow> 'a tx_buffer \<Rightarrow> 'a tx_buffer \<times> 'a tb_out list" where
  "tb_run sz [] tb = (tb, [])"
| "tb_run sz (op # ops) tb =
     (let (tb1, out) = tb_exec sz op tb; (tb2, outs) = tb_run sz ops tb1 in (tb2, out # outs))"

fun spec_run :: "'a tb_op list \<Rightarrow> 'a tb_out list \<Rightarrow> 'a staged \<Rightarrow> 'a staged \<times> bool" where
  "spec_run (op # ops) (out # outs) A =
     (let (A', good) = spec_run ops outs (spec_step op out A) in (A', spec_out op out A \<and> good))"
| "spec_run _ _ A = (A, True)"

lemma tb_exec_correct:
  assumes ok: "tb_ok sz tb" and "tb_exec sz op tb = (tb', out)"
  shows "tb_ok sz tb' \<and> tx_ops tb' = spec_step op out (tx_ops tb) \<and> spec_out op out (tx_ops tb)"
proof (cases op)
  case (TBegin tx t)
  with assms begin_at_correct [OF ok, of tx t] show ?thesis by auto
next
  case (TRead tx k s)
  with assms register_read_correct [OF ok, of tx k s] show ?thesis by auto
next
  case (TTryRead tx k s n)
  obtain tb2 r where e: "try_register_read tb tx k s n = (tb2, r)" by force
  with TTryRead assms try_register_read_correct [OF ok e] show ?thesis by auto
next
  case (TStage tx op' t)
  obtain tb2 r where e: "stage_bounded sz tb tx op' t = (tb2, r)" by force
  with TStage assms stage_many_correct [OF ok e [unfolded stage_bounded_many]] show ?thesis
    by (cases r) (auto simp: outcome_def)
next
  case (TStageMany tx ops t)
  obtain tb2 r where e: "stage_many sz tb tx ops t = (tb2, r)" by force
  with TStageMany assms stage_many_correct [OF ok e] show ?thesis by (cases r) (auto simp: outcome_def)
next
  case (TDrain tx)
  with assms drain_correct [OF ok, of tx] discard_correct [OF ok, of tx] show ?thesis by auto
next
  case (TDiscard tx)
  with assms discard_correct [OF ok, of tx] show ?thesis by auto
next
  case (TReap free limit now)
  obtain tb2 txs where e: "reap_orphans_bounded_at free tb limit now = (tb2, txs)" by force
  with TReap assms reap_correct [OF ok e] show ?thesis by auto
qed

lemma tb_run_correct:
  "tb_ok sz tb \<Longrightarrow> tb_run sz ops tb = (tb', outs) \<Longrightarrow>
   tb_ok sz tb' \<and> spec_run ops outs (tx_ops tb) = (tx_ops tb', True)"
proof (induction ops arbitrary: tb outs)
  case Nil
  then show ?case by auto
next
  case (Cons op ops)
  obtain tb1 out where 1: "tb_exec sz op tb = (tb1, out)" by force
  obtain tb2 outs' where 2: "tb_run sz ops tb1 = (tb2, outs')" by force
  from Cons.prems(2) 1 2 have eq: "tb' = tb2" "outs = out # outs'" by auto
  note c = tb_exec_correct [OF Cons.prems(1) 1]
  from Cons.IH [OF _ 2 [folded eq(1)]] c show ?case by (simp add: eq(2))
qed

lemma tb_ok_new: "tb_ok sz (tx_buffer_new n c)"
  by (auto simp: tb_ok_def tx_buffer_new_def Let_def tx_shard_new_def shard_ok_def ops_of_def bytes_of_def
      staged_sum_def sum_list_replicate)

lemma tx_ops_new: "tx_ops (tx_buffer_new n c) = (\<lambda>tx. [])"
proof
  fix tx
  let ?tb = "tx_buffer_new n c :: 'a tx_buffer"
  have "shard_at ?tb tx \<in> set (tb_shards ?tb)" by (rule shard_at_in) (simp add: tx_buffer_new_def)
  then have "shard_at ?tb tx = tx_shard_new" by (auto simp: tx_buffer_new_def Let_def split: if_splits)
  then show "tx_ops ?tb tx = []" by (simp add: tx_ops_def tx_shard_new_def ops_of_def)
qed




text \<open>The bytes of all staged operations, counted over the shards.\<close>

definition total_op_bytes :: "('a \<Rightarrow> nat) \<Rightarrow> 'a tx_buffer \<Rightarrow> nat" where
  "total_op_bytes sz tb =
     sum_list (map (\<lambda>s. sum_list (map (\<lambda>(tx, ops, t). bytes_of sz ops) (ts_ops s))) (tb_shards tb))"

lemma staged_sum_ops:
  assumes "shard_ok sz c s"
  shows "staged_sum s = sum_list (map (\<lambda>(tx, ops, t). bytes_of sz ops) (ts_ops s))"
proof -
  let ?m = "map (\<lambda>(tx, ops, t). (tx, bytes_of sz ops)) (ts_ops s)"
  let ?A = "dom (map_of (ts_staged s)) \<union> dom (map_of ?m)"
  have fst: "map fst ?m = map fst (ts_ops s)" by (auto simp: case_prod_beta)
  have lookup: "map_of ?m tx = map_option (\<lambda>(ops, t). bytes_of sz ops) (map_of (ts_ops s) tx)" for tx
  proof -
    have "map_of (map (\<lambda>(tx, ops, t). (tx, bytes_of sz ops)) m) tx =
        map_option (\<lambda>(ops, t). bytes_of sz ops) (map_of m tx)" for m :: "(u64 \<times> 'a index_op list \<times> u64) list"
      by (induction m) auto
    then show ?thesis .
  qed
  from assms have wf: "hm_wf (ts_staged s)" "hm_wf ?m"
    by (simp_all only: shard_ok_def hm_wf_def fst)
  have "lookup_or 0 (ts_staged s) tx = lookup_or 0 ?m tx" for tx
  proof -
    have "lookup_or 0 (ts_staged s) tx = bytes_of sz (ops_of s tx)" using assms by (simp add: shard_ok_def)
    also have "\<dots> = lookup_or 0 ?m tx"
      unfolding lookup_or_def [of 0 ?m] lookup ops_of_def
      by (auto simp: bytes_of_def split: option.splits)
    finally show ?thesis .
  qed
  then have "staged_sum s = sum_list (map snd ?m)"
    using sum_lookup [OF wf(1), of ?A] sum_lookup [OF wf(2), of ?A]
    by (simp add: staged_sum_def finite_dom_map_of)
  then show ?thesis by (simp add: comp_def split_def)
qed

text \<open>The byte budgets hold at every moment. After any run on a new buffer the global counter
  is the sum of the estimated sizes of all operations that are staged, it stays within the global
  budget, and each transaction stays within its budget of bytes and of operations; nothing leaks
  and no counter runs below zero.\<close>

theorem tx_buffer_accounting:
  assumes "tb_run sz ops (tx_buffer_new n c) = (tb, outs)"
  shows "tb_global tb = total_op_bytes sz tb \<and> tb_global tb \<le> cf_max_total_staged_bytes (tb_config tb) \<and>
    bytes_of sz (tx_ops tb tx) \<le> cf_max_tx_staged_bytes (tb_config tb) \<and>
    length (tx_ops tb tx) \<le> cf_max_ops_per_tx (tb_config tb)"
proof -
  have ok: "tb_ok sz tb" using tb_run_correct [OF tb_ok_new assms] by blast
  then have "map staged_sum (tb_shards tb) =
      map (\<lambda>s. sum_list (map (\<lambda>(tx, ops, t). bytes_of sz ops) (ts_ops s))) (tb_shards tb)"
    by (auto simp: tb_ok_def staged_sum_ops)
  with ok have "tb_global tb = total_op_bytes sz tb" by (simp only: tb_ok_def total_op_bytes_def)
  moreover have "shard_ok sz (tb_config tb) (shard_at tb tx)" using ok by (rule tb_ok_shard_at)
  ultimately show ?thesis using ok by (simp add: tb_ok_def shard_ok_def tx_ops_def)
qed

theorem tx_buffer_accounting_witness:
  "tb_global (fst (tb_run (\<lambda>n. n) [TStage 1 (OpInsert 7 3) 0] (tx_buffer_new 2 default_config))) =
   total_op_bytes (\<lambda>n. n) (fst (tb_run (\<lambda>n. n) [TStage 1 (OpInsert 7 3) 0] (tx_buffer_new 2 default_config)))"
  using tx_buffer_accounting [OF prod.collapse [symmetric]] by blast

section \<open>The read floor\<close>

definition read_in_use :: "'a tx_buffer \<Rightarrow> u64 \<Rightarrow> bool" where
  "read_in_use tb r \<longleftrightarrow> (\<exists>s \<in> set (tb_shards tb). \<exists>(tx, rs) \<in> set (ts_read_sets s).
     r \<in> snd ` set (rs_keys rs) \<or> r \<in> snd ` set (rs_prefixes rs))"

definition rsets_ok :: "(u64 \<times> read_set) list \<Rightarrow> bool" where
  "rsets_ok m \<longleftrightarrow> (\<forall>e \<in> set m. rs_ok (snd e))"

definition reads_ok :: "'a tx_buffer \<Rightarrow> bool" where
  "reads_ok tb \<longleftrightarrow> (\<forall>s \<in> set (tb_shards tb). rsets_ok (ts_read_sets s))"

text \<open>The floor below which compaction may drop versions that no transaction reads.\<close>

definition tx_read_floor :: "'a tx_buffer \<Rightarrow> u64 \<Rightarrow> u64" where
  "tx_read_floor tb current = (case tb_min_read_snapshot tb of None \<Rightarrow> current | Some s \<Rightarrow> s)"

lemma min_opt_foldl:
  "foldl (\<lambda>a x. min_opt a (f x)) (iter_min ys) xs = iter_min (ys @ List.map_filter f xs)"
proof (induction xs arbitrary: ys)
  case Nil
  then show ?case by (simp add: map_filter_simps)
next
  case (Cons x xs)
  have snoc: "iter_min (ys @ [v]) = Some (case iter_min ys of None \<Rightarrow> v | Some c \<Rightarrow> min c v)" for v
    by (induction ys) (auto simp: min.assoc split: option.splits)
  have "min_opt (iter_min ys) (f x) = iter_min (ys @ (case f x of None \<Rightarrow> [] | Some v \<Rightarrow> [v]))"
    by (simp add: min_opt_def snoc split: option.splits)
  with Cons [of "ys @ (case f x of None \<Rightarrow> [] | Some v \<Rightarrow> [v])"] show ?case
    by (simp add: map_filter_simps split: option.splits)
qed

lemma tb_min_read_snapshot_iter_min:
  "tb_min_read_snapshot tb =
     iter_min (concat (map (\<lambda>s. List.map_filter (\<lambda>(tx, rs). rs_min_snapshot_seq rs) (ts_read_sets s)) (tb_shards tb)))"
proof -
  have "foldl (\<lambda>overall s. foldl (\<lambda>overall (tx, rs). min_opt overall (rs_min_snapshot_seq rs)) overall (ts_read_sets s))
      (iter_min ys) ss =
    iter_min (ys @ concat (map (\<lambda>s. List.map_filter (\<lambda>(tx, rs). rs_min_snapshot_seq rs) (ts_read_sets s)) ss))"
    for ys and ss :: "'a tx_shard list"
  proof (induction ss arbitrary: ys)
    case Nil
    then show ?case by simp
  next
    case (Cons s ss)
    have "foldl (\<lambda>overall (tx, rs). min_opt overall (rs_min_snapshot_seq rs)) (iter_min ys) (ts_read_sets s) =
        iter_min (ys @ List.map_filter (\<lambda>(tx, rs). rs_min_snapshot_seq rs) (ts_read_sets s))"
    proof -
      have "(\<lambda>overall (tx, rs). min_opt overall (rs_min_snapshot_seq rs)) =
          (\<lambda>a x. min_opt a ((\<lambda>(tx, rs). rs_min_snapshot_seq rs) (x :: u64 \<times> read_set)))"
        by (simp add: fun_eq_iff)
      then show ?thesis by (simp only: min_opt_foldl)
    qed
    with Cons show ?case by simp
  qed
  from this [of "[]" "tb_shards tb"] show ?thesis by (simp add: tb_min_read_snapshot_def)
qed

lemma set_map_filter: "x \<in> set (List.map_filter f xs) \<longleftrightarrow> (\<exists>y \<in> set xs. f y = Some x)"
  by (force simp: List.map_filter_def)

lemma tb_min_read_snapshot_Some:
  assumes "reads_ok tb"
  shows "tb_min_read_snapshot tb = Some m \<longleftrightarrow> read_in_use tb m \<and> (\<forall>r. read_in_use tb r \<longrightarrow> m \<le> r)"
proof -
  let ?mins = "concat (map (\<lambda>s. List.map_filter (\<lambda>(tx, rs). rs_min_snapshot_seq rs) (ts_read_sets s)) (tb_shards tb))"
  have rs: "rs_min_snapshot_seq rs = Some x \<longleftrightarrow>
      (x \<in> snd ` set (rs_keys rs) \<union> snd ` set (rs_prefixes rs)) \<and>
      (\<forall>y \<in> snd ` set (rs_keys rs) \<union> snd ` set (rs_prefixes rs). x \<le> y)" if "rs_ok rs" for rs x
    using that by (simp add: rs_ok_def iter_min_Some)
  have mem: "x \<in> set ?mins \<Longrightarrow> read_in_use tb x" for x
  proof -
    assume "x \<in> set ?mins"
    then obtain s tx rset where s: "s \<in> set (tb_shards tb)" "(tx, rset) \<in> set (ts_read_sets s)"
      "rs_min_snapshot_seq rset = Some x" by (auto simp: set_map_filter)
    have "rs_ok rset" using assms s(1,2) by (force simp: reads_ok_def rsets_ok_def)
    with rs [of rset x] s(3) have "x \<in> snd ` set (rs_keys rset) \<union> snd ` set (rs_prefixes rset)" by blast
    then show "read_in_use tb x" using s(1,2) unfolding read_in_use_def by blast
  qed
  have low: "\<exists>x \<in> set ?mins. x \<le> r" if r: "read_in_use tb r" for r
  proof -
    from r obtain s tx rset where s: "s \<in> set (tb_shards tb)" "(tx, rset) \<in> set (ts_read_sets s)"
      "r \<in> snd ` set (rs_keys rset) \<union> snd ` set (rs_prefixes rset)"
      unfolding read_in_use_def by blast
    have ok: "rs_ok rset" using assms s(1,2) by (force simp: reads_ok_def rsets_ok_def)
    then have "rs_min_snapshot_seq rset \<noteq> None" using s(3) by (auto simp: rs_ok_def)
    then obtain x where x: "rs_min_snapshot_seq rset = Some x" by blast
    with rs [OF ok, of x] s(3) have "x \<le> r" by blast
    moreover have "x \<in> set ?mins" using s(1,2) x by (force simp: set_map_filter)
    ultimately show ?thesis by blast
  qed
  have "tb_min_read_snapshot tb = Some m \<longleftrightarrow> m \<in> set ?mins \<and> (\<forall>x \<in> set ?mins. m \<le> x)"
    by (simp only: tb_min_read_snapshot_iter_min iter_min_Some)
  also have "\<dots> \<longleftrightarrow> read_in_use tb m \<and> (\<forall>r. read_in_use tb r \<longrightarrow> m \<le> r)"
  proof
    assume m: "m \<in> set ?mins \<and> (\<forall>x \<in> set ?mins. m \<le> x)"
    have "m \<le> r" if "read_in_use tb r" for r using low [OF that] m by (meson order.trans)
    with m mem show "read_in_use tb m \<and> (\<forall>r. read_in_use tb r \<longrightarrow> m \<le> r)" by blast
  next
    assume m: "read_in_use tb m \<and> (\<forall>r. read_in_use tb r \<longrightarrow> m \<le> r)"
    then obtain x where x: "x \<in> set ?mins" "x \<le> m" using low by blast
    moreover have "m \<le> x" using m mem [OF x(1)] by blast
    ultimately have "m \<in> set ?mins" by simp
    with m mem show "m \<in> set ?mins \<and> (\<forall>x \<in> set ?mins. m \<le> x)" by blast
  qed
  finally show ?thesis .
qed


lemma tb_min_read_snapshot_None:
  assumes "reads_ok tb"
  shows "tb_min_read_snapshot tb = None \<longleftrightarrow> (\<forall>r. \<not> read_in_use tb r)"
proof
  assume "tb_min_read_snapshot tb = None"
  then have none: "\<forall>s \<in> set (tb_shards tb). \<forall>(tx, rs) \<in> set (ts_read_sets s). rs_min_snapshot_seq rs = None"
    by (fastforce simp: tb_min_read_snapshot_iter_min List.map_filter_def filter_empty_conv)
  show "\<forall>r. \<not> read_in_use tb r"
  proof (intro allI notI)
    fix r
    assume "read_in_use tb r"
    then obtain s tx rs where s: "s \<in> set (tb_shards tb)" "(tx, rs) \<in> set (ts_read_sets s)"
      "r \<in> snd ` set (rs_keys rs) \<or> r \<in> snd ` set (rs_prefixes rs)" unfolding read_in_use_def by blast
    with assms have "rs_ok rs" by (force simp: reads_ok_def rsets_ok_def)
    moreover have "rs_min_snapshot_seq rs = None" using none s(1,2) by blast
    ultimately show False using s(3) by (auto simp: rs_ok_def dest: sym)
  qed
next
  assume "\<forall>r. \<not> read_in_use tb r"
  with tb_min_read_snapshot_Some [OF assms] show "tb_min_read_snapshot tb = None"
    by (cases "tb_min_read_snapshot tb") auto
qed

interpretation txbuf: snapshot_floor read_in_use tx_read_floor reads_ok
proof
  fix tb :: "'a tx_buffer" and r current
  assume "reads_ok tb" "read_in_use tb r"
  with tb_min_read_snapshot_Some [of tb] tb_min_read_snapshot_None [of tb] show "tx_read_floor tb current \<le> r"
    by (auto simp: tx_read_floor_def split: option.splits)
next
  fix tb :: "'a tx_buffer" and current
  assume "reads_ok tb" "\<And>r. \<not> read_in_use tb r"
  with tb_min_read_snapshot_None [of tb] show "tx_read_floor tb current = current"
    by (auto simp: tx_read_floor_def)
qed

text \<open>Every operation keeps the read sets well formed.\<close>

lemma rsets_ok_intros:
  "rsets_ok m \<Longrightarrow> rsets_ok (or_insert tx read_set_new m)"
  "rsets_ok m \<Longrightarrow> rs_ok rs \<Longrightarrow> rsets_ok (AList.update tx rs m)"
  "rsets_ok m \<Longrightarrow> rsets_ok (AList.delete tx m)"
  "rsets_ok m \<Longrightarrow> rs_ok (lookup_or read_set_new m tx)"
proof -
  show upd: "rsets_ok m \<Longrightarrow> rs_ok rs \<Longrightarrow> rsets_ok (AList.update tx rs m)" for rs
    by (induction m) (auto simp: rsets_ok_def)
  then show "rsets_ok m \<Longrightarrow> rsets_ok (or_insert tx read_set_new m)"
    using rs_ok_new by (auto simp: or_insert_def split: option.splits)
  show "rsets_ok m \<Longrightarrow> rsets_ok (AList.delete tx m)" by (simp add: rsets_ok_def delete_eq_filter)
  show "rsets_ok m \<Longrightarrow> rs_ok (lookup_or read_set_new m tx)"
    by (force simp: rsets_ok_def lookup_or_def rs_ok_new split: option.splits dest: map_of_SomeD)
qed

lemma reads_ok_set_shard:
  assumes "reads_ok tb" and "rsets_ok (ts_read_sets s)"
  shows "reads_ok (set_shard tb tx s)" and "reads_ok (set_shard tb tx s\<lparr>tb_global := g\<rparr>)"
proof -
  have "s' = s \<or> s' \<in> set (tb_shards tb)" if "s' \<in> set ((tb_shards tb)[shard_idx tb tx := s])" for s'
    using that set_update_subset_insert [of "tb_shards tb" "shard_idx tb tx" s] by blast
  with assms show "reads_ok (set_shard tb tx s)" "reads_ok (set_shard tb tx s\<lparr>tb_global := g\<rparr>)"
    unfolding reads_ok_def set_shard_def by fastforce+
qed

lemma reads_ok_at: "reads_ok tb \<Longrightarrow> get_at (tb_shards tb) i = Some s \<Longrightarrow> rsets_ok (ts_read_sets s)"
  by (auto simp: reads_ok_def get_at_def split: if_splits)

lemma reads_ok_foldl_release:
  "rsets_ok (ts_read_sets s) \<Longrightarrow> foldl release_tx (s, g) txs = (s', g') \<Longrightarrow> rsets_ok (ts_read_sets s')"
proof (induction txs arbitrary: s g)
  case Nil
  then show ?case by simp
next
  case (Cons tx txs)
  let ?s = "s\<lparr>ts_read_sets := AList.delete tx (ts_read_sets s), ts_staged := AList.delete tx (ts_staged s)\<rparr>"
  have "release_tx (s, g) tx = (?s, g - lookup_or 0 (ts_staged s) tx)" by (simp add: release_tx_def)
  with Cons.prems(2) have "foldl release_tx (?s, g - lookup_or 0 (ts_staged s) tx) txs = (s', g')" by simp
  from Cons.IH [OF _ this] Cons.prems(1) show ?case by (simp add: rsets_ok_intros)
qed

lemma reads_ok_reap_shards:
  "(\<forall>s \<in> set shards. rsets_ok (ts_read_sets s)) \<Longrightarrow>
   reap_shards free limit now timeout i shards g expired = (shards', g', expired') \<Longrightarrow>
   \<forall>s \<in> set shards'. rsets_ok (ts_read_sets s)"
proof (induction shards arbitrary: i g expired shards' g' expired')
  case Nil
  then show ?case by simp
next
  case (Cons s shards)
  obtain kept gone where k: "retain_ops now timeout (limit - length expired) (ts_ops s) = (kept, gone)" by force
  obtain s1 g1 where f: "foldl release_tx (s\<lparr>ts_ops := kept\<rparr>, g) gone = (s1, g1)" by force
  obtain sh2 g2 e2 where r: "reap_shards free limit now timeout (Suc i) shards g1 (expired @ gone) = (sh2, g2, e2)"
    by (metis prod_cases3)
  obtain sh3 g3 e3 where r3: "reap_shards free limit now timeout (Suc i) shards g expired = (sh3, g3, e3)"
    by (metis prod_cases3)
  have s1: "rsets_ok (ts_read_sets s1)"
    using reads_ok_foldl_release [OF _ f] Cons.prems(1) by simp
  have shards: "\<forall>s \<in> set shards. rsets_ok (ts_read_sets s)" using Cons.prems(1) by simp
  from Cons.IH [OF shards r] Cons.IH [OF shards r3] s1 Cons.prems show ?case
    by (auto simp: k f r r3 split: if_splits)
qed

lemma tb_exec_reads_ok:
  assumes ok: "reads_ok tb" and e: "tb_exec sz op tb = (tb', out)"
  shows "reads_ok tb'"
proof (cases op)
  case (TReap free limit now)
  with assms reads_ok_reap_shards [of "tb_shards tb"] show ?thesis
    by (fastforce simp: reap_orphans_bounded_at_def reads_ok_def split: prod.splits)
qed (use e ok reads_ok_at [OF ok] in \<open>auto simp: begin_at_def register_read_def try_register_read_def
    stage_bounded_def stage_many_def drain_def discard_def remove_tx_def Let_def
    split: option.splits if_splits prod.splits
    intro!: reads_ok_set_shard rsets_ok_intros rs_ok_record_read\<close>)

lemma tb_run_reads_ok: "reads_ok tb \<Longrightarrow> tb_run sz ops tb = (tb', outs) \<Longrightarrow> reads_ok tb'"
proof (induction ops arbitrary: tb outs)
  case Nil
  then show ?case by simp
next
  case (Cons op ops)
  obtain tb1 out where 1: "tb_exec sz op tb = (tb1, out)" by force
  with Cons tb_exec_reads_ok [OF Cons.prems(1) 1] show ?case by (auto split: prod.splits)
qed

lemma reads_ok_new: "reads_ok (tx_buffer_new n c)"
  by (simp add: reads_ok_def rsets_ok_def tx_buffer_new_def Let_def tx_shard_new_def)

text \<open>The buffer's read floor protects every open reader. After any run on a new buffer,
  compaction at the floor \<open>min_read_snapshot\<close> leaves every read of a version list unchanged at
  each snapshot at which an open transaction has read, and the floor is itself such a snapshot
  whenever there is one.\<close>

theorem tx_read_floor_protects:
  assumes "tb_run sz ops (tx_buffer_new n c) = (tb, outs)" and "read_in_use tb r"
  shows "version_at g r (retain_key_versions es g (tx_read_floor tb current)) = version_at g r es \<and>
    read_in_use tb (tx_read_floor tb current)"
proof -
  have ok: "reads_ok tb" using assms(1) by (rule tb_run_reads_ok [OF reads_ok_new])
  have "tb_min_read_snapshot tb \<noteq> None" using assms(2) tb_min_read_snapshot_None [OF ok] by blast
  then obtain m where m: "tb_min_read_snapshot tb = Some m" by blast
  then have "read_in_use tb m" using tb_min_read_snapshot_Some [OF ok, of m] by blast
  with m have "read_in_use tb (tx_read_floor tb current)" by (simp add: tx_read_floor_def)
  with txbuf.compaction_keeps_read [OF ok assms(2)] show ?thesis by blast
qed

theorem tx_read_floor_protects_witness:
  "let tb = fst (tb_run (\<lambda>n. n) [TRead 1 [1] 12] (tx_buffer_new 1 default_config))
   in version_at (\<lambda>s. s) 12 (retain_key_versions [30, 10, 5] (\<lambda>s. s) (tx_read_floor tb 40)) =
      version_at (\<lambda>s. s) 12 [30, 10, 5]"
proof -
  let ?tb = "fst (tb_run (\<lambda>n. n) [TRead 1 [1] 12] (tx_buffer_new 1 default_config))"
  have "read_in_use ?tb 12"
    by (simp add: register_read_def tx_buffer_new_def tx_shard_new_def get_at_def shard_idx_def set_shard_def
        read_in_use_def record_read_def read_set_new_def keep_least_def Let_def TOMBSTONE_BIT_def lookup_or_def)
  then show ?thesis unfolding Let_def
    by (rule tx_read_floor_protects [OF prod.collapse [symmetric], THEN conjunct1])
qed


section \<open>Key staging\<close>

text \<open>A failed \<open>stage_kv\<close> takes back more than it did. A transaction inserts a key, and its
  second operation on the same key is refused because only one operation is allowed; the
  rollback removes the tracking of the first one, so \<open>staged_status\<close> no longer knows the key,
  although the insertion is still staged.\<close>

theorem failed_stage_kv_untracks:
  "let c = default_config\<lparr>cf_max_ops_per_tx := 1\<rparr>;
       tb1 = fst (stage_kv (\<lambda>_. 0) (tx_buffer_new 1 c) 7 (OpInsert 5 ([1], [9])) 0);
       (tb2, r) = stage_kv (\<lambda>_. 0) tb1 7 (OpDelete 5 (Some ([1], []))) 0
   in staged_status (\<lambda>_. 0) tb1 [1] = Some True \<and> r = Inl (TooManyOps 7 1) \<and>
      staged_status (\<lambda>_. 0) tb2 [1] = None \<and> is_key_staged_for_tx tb2 7 [1]"
  by (simp add: stage_kv_def tx_buffer_new_def tx_shard_new_def track_key_stage_def key_shard_idx_def get_at_def
      lookup_or_def stage_bounded_def shard_idx_def or_insert_def default_config_def kv_size_def
      STAGING_ENTRY_OVERHEAD_BYTES_def set_shard_def untrack_key_def staged_status_def newest_step_def
      is_key_staged_for_tx_def get_ops_def Let_def)

text \<open>Reaping an orphan leaves its key tracking behind. The operations and the read set of the
  reaped transaction are gone, but \<open>staged_status\<close> still reports its key as staged, and no later
  operation on the buffer removes the entry, since both \<open>drain_kv\<close> and \<open>discard_kv\<close> find the keys
  through the operations.\<close>

theorem reaped_orphan_stays_tracked:
  "let tb1 = fst (stage_kv (\<lambda>_. 0) (tx_buffer_new 1 default_config) 7 (OpInsert 5 ([1], [9])) 0);
       (tb2, gone) = reap_orphans_bounded_at (\<lambda>_. True) tb1 10 40000000000
   in gone = [7] \<and> \<not> has_tx tb2 7 \<and> staged_status (\<lambda>_. 0) tb2 [1] = Some True \<and>
      staged_status (\<lambda>_. 0) (discard_kv (\<lambda>_. 0) tb2 7) [1] = Some True \<and>
      staged_status (\<lambda>_. 0) (fst (drain_kv (\<lambda>_. 0) tb2 7)) [1] = Some True"
  by (simp add: stage_kv_def tx_buffer_new_def tx_shard_new_def track_key_stage_def key_shard_idx_def get_at_def
      lookup_or_def stage_bounded_def shard_idx_def or_insert_def default_config_def kv_size_def
      STAGING_ENTRY_OVERHEAD_BYTES_def set_shard_def staged_status_def newest_step_def Let_def
      reap_orphans_bounded_at_def clamp_u64_def saturating_sub_def release_tx_def has_tx_def discard_kv_def
      discard_def drain_kv_def drain_def get_ops_def remove_tx_def)

lemma newest_foldl:
  assumes "hm_wf m"
  shows "foldl newest_step (None, None) m = (None, None) \<and> m = [] \<or>
    (\<exists>tx b. foldl newest_step (None, None) m = (Some tx, Some b) \<and> map_of m tx = Some b \<and>
       (\<forall>tx' \<in> dom (map_of m). tx' \<le> tx))"
  using assms
proof (induction m rule: rev_induct)
  case Nil
  then show ?case by simp
next
  case (snoc e m)
  obtain k v where e: "e = (k, v)" by force
  from snoc.prems have wf: "hm_wf m" and new: "map_of m k = None"
    by (auto simp: hm_wf_def e map_of_eq_None_iff)
  from snoc.IH [OF wf] show ?case
  proof (elim disjE exE conjE)
    assume "foldl newest_step (None, None) m = (None, None)" "m = []"
    then show ?thesis by (auto simp: e newest_step_def split: if_splits)
  next
    fix tx b
    assume f: "foldl newest_step (None, None) m = (Some tx, Some b)" and b: "map_of m tx = Some b"
      and max: "\<forall>tx' \<in> dom (map_of m). tx' \<le> tx"
    have dom: "dom (map_of (m @ [e])) = insert k (dom (map_of m))" by (auto simp: e)
    have lookup: "map_of (m @ [e]) x = (if x = k then Some v else map_of m x)" for x
      using new by (auto simp: e map_add_def split: option.splits)
    show ?thesis
    proof (cases "tx < k")
      case True
      have "foldl newest_step (None, None) (m @ [e]) = (Some k, Some v)"
        using f True by (simp add: e newest_step_def)
      moreover have "\<forall>tx' \<in> dom (map_of (m @ [e])). tx' \<le> k"
        unfolding dom
      proof
        fix x assume "x \<in> insert k (dom (map_of m))"
        with max have "x = k \<or> x \<le> tx" by blast
        with True show "x \<le> k" by (elim disjE) simp_all
      qed
      ultimately show ?thesis using lookup [of k] by auto
    next
      case False
      have "foldl newest_step (None, None) (m @ [e]) = (Some tx, Some b)"
        using f False by (simp add: e newest_step_def)
      moreover have "tx \<noteq> k" using b new by auto
      then have "map_of (m @ [e]) tx = Some b" using b lookup [of tx] by (simp only: if_False)
      moreover have "\<forall>tx' \<in> dom (map_of (m @ [e])). tx' \<le> tx"
        unfolding dom using max False by (auto simp: not_less)
      ultimately show ?thesis by blast
    qed
  qed
qed


text \<open>The transactions that have staged a key, with the kind of their last operation on it.\<close>

definition key_map :: "(bytes \<Rightarrow> u64) \<Rightarrow> kv tx_buffer \<Rightarrow> bytes \<Rightarrow> (u64 \<times> bool) list" where
  "key_map hash tb key = lookup_or [] (tb_key_shards tb ! key_shard_idx hash tb key) key"

definition key_shards_ok :: "kv tx_buffer \<Rightarrow> bool" where
  "key_shards_ok tb \<longleftrightarrow> tb_key_shards tb \<noteq> [] \<and>
     (\<forall>s \<in> set (tb_key_shards tb). \<forall>(k, m) \<in> set s. hm_wf m)"

lemma key_shard_idx_less: "tb_key_shards tb \<noteq> [] \<Longrightarrow> key_shard_idx hash tb key < length (tb_key_shards tb)"
  by (simp add: key_shard_idx_def)

lemma staged_status_key_map:
  "tb_key_shards tb \<noteq> [] \<Longrightarrow> staged_status hash tb key = snd (foldl newest_step (None, None) (key_map hash tb key))"
  by (auto simp: staged_status_def key_map_def get_at_def key_shard_idx_less lookup_or_def split: option.splits)

lemma track_key_map:
  assumes "tb_key_shards tb \<noteq> []"
  shows "key_map hash (track_key_stage hash tb tx key b) key' =
    (if key' = key then AList.update tx b (key_map hash tb key) else key_map hash tb key')"
  using key_shard_idx_less [OF assms, of hash key]
  by (auto simp: key_map_def track_key_stage_def Let_def get_at_def key_shard_idx_def nth_list_update)

lemma stage_many_key_shards: "tb_key_shards (fst (stage_many sz tb tx ops t)) = tb_key_shards tb"
  by (auto simp: stage_many_def Let_def split: option.splits)

lemma key_map_hm_wf: "key_shards_ok tb \<Longrightarrow> hm_wf (key_map hash tb key)"
proof -
  assume ok: "key_shards_ok tb"
  then have "tb_key_shards tb ! key_shard_idx hash tb key \<in> set (tb_key_shards tb)"
    by (simp add: key_shards_ok_def key_shard_idx_less)
  with ok show ?thesis
    by (fastforce simp: key_map_def lookup_or_def key_shards_ok_def split: option.splits dest: map_of_SomeD)
qed

text \<open>The staging status of a key is decided by its newest transaction. When a transaction with
  the greatest id among those that have the key staged succeeds with \<open>stage_kv\<close>, the status
  of the key is the kind of this operation, and the status of every other key is unchanged.\<close>

theorem staged_status_newest:
  assumes ok: "key_shards_ok tb" and r: "stage_kv hash tb tx op t = (tb', Inr ())"
    and k: "op_key op = Some (key, ins)"
    and newest: "\<forall>tx' \<in> dom (map_of (key_map hash tb key)). tx' \<le> tx"
  shows "staged_status hash tb' key' = (if key' = key then Some ins else staged_status hash tb key')"
proof -
  let ?tb1 = "track_key_stage hash tb tx key ins"
  have ne: "tb_key_shards tb \<noteq> []" using ok by (simp add: key_shards_ok_def)
  have "tb_key_shards tb' = tb_key_shards ?tb1"
    using r k stage_many_key_shards [of kv_size ?tb1 tx "[op]" t]
    by (auto simp: stage_kv_def Let_def stage_bounded_many split: prod.splits sum.splits)
  then have map: "key_map hash tb' x = key_map hash ?tb1 x" for x by (simp add: key_map_def key_shard_idx_def)
  have ne1: "tb_key_shards tb' \<noteq> []"
    using \<open>tb_key_shards tb' = tb_key_shards ?tb1\<close> ne by (auto simp: track_key_stage_def Let_def split: option.splits)
  show ?thesis
  proof (cases "key' = key")
    case False
    then show ?thesis by (simp add: staged_status_key_map ne ne1 map track_key_map)
  next
    case True
    let ?m = "AList.update tx ins (key_map hash tb key)"
    have wf: "hm_wf ?m" using key_map_hm_wf [OF ok] by blast
    have lookup: "map_of ?m tx = Some ins" by (simp add: map_simps)
    then have ne': "?m \<noteq> []" by auto
    from newest_foldl [OF wf] ne' obtain x b where
      x: "foldl newest_step (None, None) ?m = (Some x, Some b)" "map_of ?m x = Some b"
      "\<forall>tx' \<in> dom (map_of ?m). tx' \<le> x" by blast
    have "tx \<le> x" using x(3) lookup by blast
    moreover have "x \<le> tx" using x(2) newest by (cases "x = tx") (auto simp: map_simps)
    ultimately have "b = ins" using x(2) lookup by simp
    with True x(1) show ?thesis by (simp add: staged_status_key_map ne1 map track_key_map ne)
  qed
qed

theorem staged_status_newest_witness:
  "staged_status (\<lambda>_. 0) (fst (stage_kv (\<lambda>_. 0) (tx_buffer_new 1 default_config) 7 (OpInsert 5 ([1], [9])) 0)) [1]
    = Some True"
proof -
  let ?tb = "tx_buffer_new 1 default_config"
  let ?r = "stage_kv (\<lambda>_. 0) ?tb 7 (OpInsert 5 ([1], [9])) 0"
  have "snd ?r = Inr ()"
    by (simp add: stage_kv_def tx_buffer_new_def tx_shard_new_def track_key_stage_def key_shard_idx_def get_at_def
        lookup_or_def stage_bounded_def shard_idx_def or_insert_def default_config_def kv_size_def
        STAGING_ENTRY_OVERHEAD_BYTES_def set_shard_def Let_def)
  then have r: "?r = (fst ?r, Inr ())" by (metis prod.collapse)
  have "key_shards_ok ?tb" "\<forall>tx' \<in> dom (map_of (key_map (\<lambda>_. 0) ?tb [1])). tx' \<le> 7"
    by (simp_all add: key_shards_ok_def tx_buffer_new_def key_map_def key_shard_idx_def)
  from staged_status_newest [OF this(1) r _ this(2), of True "[1]"] show ?thesis by simp
qed

end
