(* ===== verification/MemTable.thy ===== *)
theory MemTable
  imports BinarySearch
begin

text \<open>
  The MemTable of the LSM tree, \<open>crates/contextra-store/src/memtable.rs\<close>.

  Sixteen shards, each a B-tree from a key to its version list, ascending by sequence number.
  \<open>shard_for\<close> places user keys by their first two bytes, so that it is monotone, and reserved
  system keys by a hash of the rest. An entry is a tuple of a sequence number (with the tombstone
  bit), a value and a transaction id, as in the source. The shard locks and atomics become one state.
  A reader and a writer that work on different shards at the same time are not modelled.
\<close>

definition is_tombstone :: "u64 \<Rightarrow> bool" where
  "is_tombstone seq \<longleftrightarrow> seq AND TOMBSTONE_BIT \<noteq> 0"

datatype bound = Included bytes | Excluded bytes | Unbounded

fun is_valid_range_bounds :: "bound \<Rightarrow> bound \<Rightarrow> bool" where
  "is_valid_range_bounds (Included s) (Included e) = (s \<le> e)"
| "is_valid_range_bounds (Included s) (Excluded e) = (s < e)"
| "is_valid_range_bounds (Excluded s) (Included e) = (s < e)"
| "is_valid_range_bounds (Excluded s) (Excluded e) = (s < e)"
| "is_valid_range_bounds _ _ = True"

text \<open>Membership in \<open>range((start, end))\<close>.\<close>

fun above :: "bound \<Rightarrow> bytes \<Rightarrow> bool" where
  "above (Included s) k = (s \<le> k)"
| "above (Excluded s) k = (s < k)"
| "above Unbounded k = True"

fun below :: "bound \<Rightarrow> bytes \<Rightarrow> bool" where
  "below (Included e) k = (k \<le> e)"
| "below (Excluded e) k = (k < e)"
| "below Unbounded k = True"

type_synonym version = "u64 \<times> bytes \<times> u64"
type_synonym mem_map = "(bytes \<times> version list) list"

definition SHARD_COUNT :: nat where
  "SHARD_COUNT = 16"

text \<open>The reserved prefixes, in ASCII codes.\<close>

definition RESERVED_PREFIXES :: "bytes list" where
  "RESERVED_PREFIXES =
     [[95, 95, 99, 111, 108, 58],
      [95, 95, 99, 111, 108, 95, 105, 100, 120, 58],
      [95, 95, 109, 101, 116, 97, 58],
      [95, 95, 114, 101, 108, 58],
      [95, 95, 105, 100, 120, 58],
      [95, 95, 103, 114, 97, 112, 104, 58],
      [95, 95, 116, 120, 116, 58],
      [95, 95, 100, 111, 99, 105, 100, 58],
      [95, 95, 116, 120, 95, 105, 110, 116, 101, 110, 116, 58],
      [95, 95, 107, 118, 95, 115, 112, 105, 108, 108, 58],
      [95, 95, 115, 101, 115, 115, 105, 111, 110, 95, 100, 97, 103, 58],
      [95, 95, 109, 97, 105, 110, 116, 101, 110, 97, 110, 99, 101, 95, 105, 110, 116, 101, 110, 116, 58]]"

definition UNDERSCORES :: bytes where
  "UNDERSCORES = [95, 95]"

definition matching_reserved_prefix :: "bytes \<Rightarrow> bytes option" where
  "matching_reserved_prefix key =
     (if \<not> prefix UNDERSCORES key then None
      else case find (\<lambda>p. prefix p key) RESERVED_PREFIXES of
             Some p \<Rightarrow> Some p
           | None \<Rightarrow> Some UNDERSCORES)"

definition hash_remainder :: "bytes \<Rightarrow> nat" where
  "hash_remainder remainder =
     unat (foldl (\<lambda>hash byte. (hash XOR ucast byte) * 0x100000001b3) (0xcbf29ce484222325 :: u64) remainder)
       mod SHARD_COUNT"

definition shard_for :: "bytes \<Rightarrow> nat" where
  "shard_for key =
     (case matching_reserved_prefix key of
        Some p \<Rightarrow> hash_remainder (drop (length p) key)
      | None \<Rightarrow>
          (let b0 = (case key of [] \<Rightarrow> 0 | b # _ \<Rightarrow> unat b);
               b1 = (case key of _ # b # _ \<Rightarrow> unat b | _ \<Rightarrow> 0);
               val = b0 * 256 + b1
           in val * SHARD_COUNT div 65536))"

text \<open>\<open>a..=b\<close>\<close>

definition shard_range_for_prefix :: "bytes \<Rightarrow> nat list" where
  "shard_range_for_prefix pfx =
     (case pfx of
        [] \<Rightarrow> [0..<Suc (SHARD_COUNT - 1)]
      | b # rest \<Rightarrow>
          if b = 95 then [0..<Suc (SHARD_COUNT - 1)]
          else if rest \<noteq> [] then [shard_for pfx..<Suc (shard_for pfx)]
          else [shard_for [b, 0]..<Suc (shard_for [b, 255])])"

fun bound_key :: "bound \<Rightarrow> bytes option" where
  "bound_key (Included k) = Some k"
| "bound_key (Excluded k) = Some k"
| "bound_key Unbounded = None"

definition first_is_underscore :: "bound \<Rightarrow> bool" where
  "first_is_underscore b =
     (case bound_key b of Some (c # _) \<Rightarrow> c = 95 | _ \<Rightarrow> False)"

definition shard_range_for_bounds :: "bound \<Rightarrow> bound \<Rightarrow> nat list" where
  "shard_range_for_bounds start end' =
     (let is_system =
            (if first_is_underscore start then True
             else if first_is_underscore end' then True
             else case (bound_key start, bound_key end') of
                    (Some s, Some e) \<Rightarrow> s \<le> UNDERSCORES \<and> e \<ge> UNDERSCORES
                  | _ \<Rightarrow> True)
      in if is_system then [0..<Suc (SHARD_COUNT - 1)]
         else [(case bound_key start of Some s \<Rightarrow> shard_for s | None \<Rightarrow> 0)..<
               Suc (case bound_key end' of Some e \<Rightarrow> shard_for e | None \<Rightarrow> SHARD_COUNT - 1)])"

section \<open>Operations\<close>

definition STAGING_ENTRY_OVERHEAD_BYTES :: nat where
  "STAGING_ENTRY_OVERHEAD_BYTES = 32"

definition INTERNAL_BASE :: u64 where
  "INTERNAL_BASE = U64_MAX - 1000000"

record mem_table =
  mt_shards :: "mem_map list"
  mt_size :: nat
  mt_min_tx :: u64
  mt_max_tx :: u64

definition mem_table_new :: mem_table where
  "mem_table_new =
     \<lparr>mt_shards = replicate SHARD_COUNT [], mt_size = 0, mt_min_tx = U64_MAX, mt_max_tx = 0\<rparr>"

definition raw_seq :: "version \<Rightarrow> u64" where
  "raw_seq v = mask_seq (fst v)"

definition insert_at :: "nat \<Rightarrow> 'a \<Rightarrow> 'a list \<Rightarrow> 'a list" where
  "insert_at i x xs = take i xs @ x # drop i xs"

text \<open>\<open>while pos < len && raw(versions[pos]) == raw_seq { pos += 1 }\<close>\<close>

definition skip_equal :: "u64 \<Rightarrow> version list \<Rightarrow> nat \<Rightarrow> nat" where
  "skip_equal raw versions pos = pos + length (takeWhile (\<lambda>v. raw_seq v = raw) (drop pos versions))"

definition insert_version :: "version \<Rightarrow> version list \<Rightarrow> version list" where
  "insert_version v versions =
     (if versions = [] \<or> raw_seq (last versions) \<le> raw_seq v then versions @ [v]
      else case binary_search_by_key raw_seq (raw_seq v) versions of
             Inl i \<Rightarrow> insert_at (skip_equal (raw_seq v) versions (i + 1)) v versions
           | Inr i \<Rightarrow> insert_at i v versions)"

definition mt_put :: "mem_table \<Rightarrow> bytes \<Rightarrow> bytes \<Rightarrow> u64 \<Rightarrow> u64 \<Rightarrow> mem_table" where
  "mt_put mt key val seq_no tx_id =
     (let additional_size = length key + length val + STAGING_ENTRY_OVERHEAD_BYTES;
          i = shard_for key;
          entries = mt_shards mt ! i;
          versions = (case map_of entries key of None \<Rightarrow> [] | Some vs \<Rightarrow> vs)
      in mt\<lparr>mt_shards := (mt_shards mt)[i := bt_insert key (insert_version (seq_no, val, tx_id) versions) entries],
            mt_size := mt_size mt + additional_size,
            mt_min_tx := (if tx_id \<ge> mt_min_tx mt then mt_min_tx mt else tx_id),
            mt_max_tx := (if tx_id \<le> mt_max_tx mt then mt_max_tx mt else tx_id)\<rparr>)"

definition tx_range :: "mem_table \<Rightarrow> u64 \<times> u64" where
  "tx_range mt = (mt_min_tx mt, mt_max_tx mt)"

text \<open>\<open>retain\<close> on the entries of a shard; the freed bytes and the transactions that stay are sums
  and lists over the entries, in the order in which the closure meets them.\<close>

definition entry_bytes :: "bytes \<Rightarrow> version \<Rightarrow> nat" where
  "entry_bytes key v = length key + length (fst (snd v)) + STAGING_ENTRY_OVERHEAD_BYTES"

definition retain_tx :: "u64 \<Rightarrow> mem_map \<Rightarrow> mem_map" where
  "retain_tx tx_id entries =
     filter (\<lambda>e. snd e \<noteq> []) (map (\<lambda>(key, vs). (key, filter (\<lambda>v. snd (snd v) \<noteq> tx_id) vs)) entries)"

definition freed_bytes :: "u64 \<Rightarrow> mem_map \<Rightarrow> nat" where
  "freed_bytes tx_id entries =
     sum_list (map (\<lambda>(key, vs). sum_list (map (entry_bytes key) (filter (\<lambda>v. snd (snd v) = tx_id) vs))) entries)"

definition txs_of :: "mem_map \<Rightarrow> u64 list" where
  "txs_of entries = concat (map (\<lambda>(key, vs). map (\<lambda>v. snd (snd v)) vs) entries)"

definition rollback :: "mem_table \<Rightarrow> u64 \<Rightarrow> mem_table" where
  "rollback mt tx_id =
     (let shards = map (retain_tx tx_id) (mt_shards mt);
          total_freed_size = sum_list (map (freed_bytes tx_id) (mt_shards mt));
          txs = concat (map txs_of shards);
          new_min_tx = foldl min U64_MAX txs;
          new_max_tx = foldl max 0 txs
      in \<lparr>mt_shards = shards,
          mt_size = (if total_freed_size > 0 then mt_size mt - total_freed_size else mt_size mt),
          mt_min_tx = (if txs = [] then U64_MAX else new_min_tx),
          mt_max_tx = (if txs = [] then 0 else new_max_tx)\<rparr>)"

definition mt_get :: "mem_table \<Rightarrow> bytes \<Rightarrow> (bytes \<times> u64) option" where
  "mt_get mt key =
     (case map_of (mt_shards mt ! shard_for key) key of
        None \<Rightarrow> None
      | Some versions \<Rightarrow>
          if versions = [] then None
          else (case last versions of (seq, val, tx) \<Rightarrow> Some (val, seq)))"

text \<open>\<open>while last + 1 < len && raw(versions[last + 1]) == target { last += 1 }\<close>, and the index to start
  from: \<open>None\<close> for the early return.\<close>

definition search_index :: "u64 \<Rightarrow> version list \<Rightarrow> nat option" where
  "search_index target versions =
     (case binary_search_by_key raw_seq target versions of
        Inl i \<Rightarrow> Some (skip_equal target versions (i + 1) - 1)
      | Inr i \<Rightarrow> if i = 0 then None else Some (i - 1))"

definition tx_visible :: "u64 \<Rightarrow> version \<Rightarrow> bool" where
  "tx_visible max_tx v \<longleftrightarrow> snd (snd v) \<le> max_tx \<or> snd (snd v) \<ge> INTERNAL_BASE"

definition get_at_seq :: "mem_table \<Rightarrow> bytes \<Rightarrow> u64 \<Rightarrow> u64 \<Rightarrow> (bytes \<times> u64 \<times> u64) option" where
  "get_at_seq mt key seq_no max_tx =
     (case map_of (mt_shards mt ! shard_for key) key of
        None \<Rightarrow> None
      | Some versions \<Rightarrow>
          (case search_index (mask_seq seq_no) versions of
             None \<Rightarrow> None
           | Some idx \<Rightarrow>
               (case find (tx_visible max_tx) (rev (take (Suc idx) versions)) of
                  None \<Rightarrow> None
                | Some (s, v, tx) \<Rightarrow> Some (v, s, tx))))"

definition mt_is_empty :: "mem_table \<Rightarrow> bool" where
  "mt_is_empty mt \<longleftrightarrow> (\<forall>entries \<in> set (mt_shards mt). entries = [])"

definition mt_iter :: "mem_table \<Rightarrow> (bytes \<times> bytes \<times> u64 \<times> u64) list" where
  "mt_iter mt =
     sort_key fst (concat (map (\<lambda>entries. concat (map (\<lambda>(k, versions).
        map (\<lambda>(seq, val, tx). (k, val, seq, tx)) versions) entries)) (mt_shards mt)))"

definition iter_latest :: "mem_table \<Rightarrow> (bytes \<times> bytes \<times> u64 \<times> u64) list" where
  "iter_latest mt =
     sort_key fst (concat (map (\<lambda>entries. concat (map (\<lambda>(k, versions).
        if versions = [] then []
        else (case last versions of (seq, val, tx) \<Rightarrow> [(k, val, seq, tx)])) entries)) (mt_shards mt)))"

section \<open>Scans\<close>

type_synonym scan_pred = "bytes \<Rightarrow> u64 \<Rightarrow> u64 \<Rightarrow> bool"
type_synonym scan_target = "(bytes \<times> bytes \<times> u64) list"

definition best_step ::
  "scan_pred \<Rightarrow> u64 \<Rightarrow> u64 \<Rightarrow> bytes \<Rightarrow> (bytes \<times> u64) option \<Rightarrow> version \<Rightarrow> (bytes \<times> u64) option" where
  "best_step pred max_seq max_tx k best v =
     (case v of (seq, val, tx) \<Rightarrow>
        if mask_seq seq \<le> max_seq \<and> tx_visible max_tx v \<and> pred k (mask_seq seq) tx
        then (case best of
                Some (_, best_seq) \<Rightarrow> if mask_seq seq > mask_seq best_seq then Some (val, seq) else best
              | None \<Rightarrow> Some (val, seq))
        else best)"

definition merge_target :: "bytes \<Rightarrow> (bytes \<times> u64) option \<Rightarrow> scan_target \<Rightarrow> scan_target" where
  "merge_target k best target =
     (case best of
        None \<Rightarrow> target
      | Some (val, seq) \<Rightarrow>
          (case map_of target k of
             None \<Rightarrow> bt_insert k (val, seq) target
           | Some (_, seq') \<Rightarrow>
               if mask_seq seq > mask_seq seq' then bt_insert k (val, seq) target else target))"

definition scan_entries ::
  "scan_pred \<Rightarrow> u64 \<Rightarrow> u64 \<Rightarrow> mem_map \<Rightarrow> scan_target \<Rightarrow> scan_target" where
  "scan_entries pred max_seq max_tx entries target =
     foldl (\<lambda>target (k, versions).
        merge_target k (foldl (best_step pred max_seq max_tx k) None versions) target) target entries"

definition scan_prefix_into_matching ::
  "mem_table \<Rightarrow> bytes \<Rightarrow> u64 \<Rightarrow> u64 \<Rightarrow> scan_pred \<Rightarrow> scan_target \<Rightarrow> scan_target" where
  "scan_prefix_into_matching mt pfx seq_no max_tx pred target =
     foldl (\<lambda>target i.
        scan_entries pred (mask_seq seq_no) max_tx
          (takeWhile (\<lambda>e. prefix pfx (fst e)) (filter (\<lambda>e. pfx \<le> fst e) (mt_shards mt ! i))) target)
       target (shard_range_for_prefix pfx)"

definition scan_range_into_matching ::
  "mem_table \<Rightarrow> bound \<Rightarrow> bound \<Rightarrow> u64 \<Rightarrow> u64 \<Rightarrow> scan_pred \<Rightarrow> scan_target \<Rightarrow> scan_target" where
  "scan_range_into_matching mt start end' seq_no max_tx pred target =
     (if \<not> is_valid_range_bounds start end' then target
      else foldl (\<lambda>target i.
        scan_entries pred (mask_seq seq_no) max_tx
          (filter (\<lambda>e. above start (fst e) \<and> below end' (fst e)) (mt_shards mt ! i)) target)
       target (shard_range_for_bounds start end'))"

end
