(* ===== verification/MemTableCorrect.thy ===== *)
theory MemTableCorrect
  imports MemTable "HOL-Library.Multiset"
begin

text \<open>
  Correctness of the MemTable: it refines the log of its writes.
\<close>

section \<open>Version lists are stable sorts of the writes\<close>

lemma insert_version_split:
  assumes "sorted (map raw_seq vs)"
  shows "insert_version v vs = filter (\<lambda>w. raw_seq w \<le> raw_seq v) vs @ v # filter (\<lambda>w. raw_seq v < raw_seq w) vs"
proof (cases "vs = [] \<or> raw_seq (last vs) \<le> raw_seq v")
  case True
  have "raw_seq w \<le> raw_seq v" if "w \<in> set vs" for w
  proof -
    from that obtain j where j: "j < length vs" "w = vs ! j" by (auto simp: in_set_conv_nth)
    then have "map raw_seq vs ! j \<le> map raw_seq vs ! (length vs - 1)"
      by (intro sorted_nth_mono [OF assms]) auto
    moreover have ne: "vs \<noteq> []" using that by auto
    then have "last vs = vs ! (length vs - 1)" by (rule last_conv_nth)
    ultimately have "raw_seq w \<le> raw_seq (last vs)" using j by simp
    moreover have "vs \<noteq> []" using that by auto
    ultimately show ?thesis using True by (meson order.trans)
  qed
  then have "filter (\<lambda>w. raw_seq w \<le> raw_seq v) vs = vs" "filter (\<lambda>w. raw_seq v < raw_seq w) vs = []"
    by (auto simp: filter_id_conv filter_empty_conv not_less)
  with True show ?thesis by (simp add: insert_version_def)
next
  case False
  then show ?thesis
    using bs.found_split [OF assms, of "raw_seq v"] bs.missing_split [OF assms, of "raw_seq v"]
    by (auto simp: insert_version_def insert_at_def skip_equal_def split: sum.splits)
qed

lemma insert_version_sort: "insert_version v (sort_key raw_seq xs) = sort_key raw_seq (xs @ [v])"
proof -
  let ?vs = "sort_key raw_seq xs"
  let ?ys = "filter (\<lambda>w. raw_seq w \<le> raw_seq v) ?vs @ v # filter (\<lambda>w. raw_seq v < raw_seq w) ?vs"
  have "sort_key raw_seq (xs @ [v]) = ?ys"
  proof (rule properties_for_sort_key)
    have "mset (filter (\<lambda>w. raw_seq w \<le> raw_seq v) ?vs) + mset (filter (\<lambda>w. raw_seq v < raw_seq w) ?vs) = mset xs"
      by (simp add: not_le [symmetric] multiset_partition [symmetric])
    then show "mset ?ys = mset (xs @ [v])" by simp
    show "filter (\<lambda>x. raw_seq k = raw_seq x) ?ys = filter (\<lambda>x. raw_seq k = raw_seq x) (xs @ [v])"
      if "k \<in> set ?ys" for k
    proof -
      have "filter (\<lambda>x. raw_seq k = raw_seq x) ?vs = filter (\<lambda>x. raw_seq k = raw_seq x) xs"
        using sort_key_stable [of raw_seq "raw_seq k" xs] by (simp only: eq_commute [of "raw_seq k"])
      moreover have "filter (\<lambda>x. raw_seq k = raw_seq x) (filter (\<lambda>w. raw_seq w \<le> raw_seq v) ?vs) =
          (if raw_seq k \<le> raw_seq v then filter (\<lambda>x. raw_seq k = raw_seq x) ?vs else [])"
        by (auto simp: filter_empty_conv intro!: filter_cong)
      moreover have "filter (\<lambda>x. raw_seq k = raw_seq x) (filter (\<lambda>w. raw_seq v < raw_seq w) ?vs) =
          (if raw_seq v < raw_seq k then filter (\<lambda>x. raw_seq k = raw_seq x) ?vs else [])"
        by (auto simp: filter_empty_conv intro!: filter_cong)
      ultimately show ?thesis by auto
    qed
    show "sorted (map raw_seq ?ys)"
    proof -
      have "sorted (map raw_seq (filter P ?vs))" for P by (rule sorted_filter) simp
      then show ?thesis by (auto simp: sorted_append intro: less_imp_le order.trans)
    qed
  qed
  moreover have "sorted (map raw_seq ?vs)" by simp
  ultimately show ?thesis using insert_version_split by simp
qed


section \<open>The log of a MemTable\<close>

text \<open>The specification: the writes that are not rolled back, in the order of their arrival.\<close>

type_synonym mem_log = "(bytes \<times> version) list"

definition log_versions :: "mem_log \<Rightarrow> bytes \<Rightarrow> version list" where
  "log_versions log k = sort_key raw_seq (map snd (filter (\<lambda>e. fst e = k) log))"

definition flat :: "mem_map \<Rightarrow> mem_log" where
  "flat entries = concat (map (\<lambda>(k, vs). map (Pair k) vs) entries)"

definition versions_of :: "mem_map \<Rightarrow> bytes \<Rightarrow> version list" where
  "versions_of entries k = (case map_of entries k of None \<Rightarrow> [] | Some vs \<Rightarrow> vs)"

definition mt_ok :: "mem_log \<Rightarrow> mem_table \<Rightarrow> bool" where
  "mt_ok log mt \<longleftrightarrow> length (mt_shards mt) = SHARD_COUNT \<and>
     (\<forall>i < SHARD_COUNT. bt_wf (mt_shards mt ! i) \<and>
        (\<forall>k vs. map_of (mt_shards mt ! i) k = Some vs \<longrightarrow> shard_for k = i \<and> vs \<noteq> [])) \<and>
     (\<forall>k. versions_of (mt_shards mt ! shard_for k) k = log_versions log k) \<and>
     mset (concat (map flat (mt_shards mt))) = mset log \<and>
     mt_size mt = sum_list (map (\<lambda>(k, v). entry_bytes k v) log) \<and>
     mt_min_tx mt = foldl min U64_MAX (map (\<lambda>(k, v). snd (snd v)) log) \<and>
     mt_max_tx mt = foldl max 0 (map (\<lambda>(k, v). snd (snd v)) log)"

lemma hash_remainder_less: "hash_remainder r < SHARD_COUNT"
  by (simp add: hash_remainder_def SHARD_COUNT_def)

lemma byte_less: "unat (b :: u8) < 256"
  using unsigned_less [of b, where 'a = nat] by simp

definition user_val :: "bytes \<Rightarrow> nat" where
  "user_val key = (case key of [] \<Rightarrow> 0 | b # _ \<Rightarrow> unat b) * 256 + (case key of _ # b # _ \<Rightarrow> unat b | _ \<Rightarrow> 0)"

lemma user_val_less: "user_val key < 65536"
proof -
  have "(case key of [] \<Rightarrow> 0 | b # _ \<Rightarrow> unat b) < 256" "(case key of _ # b # _ \<Rightarrow> unat b | _ \<Rightarrow> 0) < 256"
    using byte_less by (auto split: list.splits)
  then show ?thesis by (simp add: user_val_def)
qed

lemma shard_for_user:
  "matching_reserved_prefix key = None \<Longrightarrow> shard_for key = user_val key * 16 div 65536"
  by (simp add: shard_for_def user_val_def Let_def SHARD_COUNT_def)

lemma shard_for_less: "shard_for key < SHARD_COUNT"
proof (cases "matching_reserved_prefix key")
  case None
  with user_val_less [of key] show ?thesis by (simp add: shard_for_user SHARD_COUNT_def)
next
  case (Some p)
  then show ?thesis by (simp add: shard_for_def hash_remainder_less)
qed

lemma mset_flat_insert:
  "bt_wf m \<Longrightarrow> mset (flat (bt_insert k vs m)) + mset (map (Pair k) (versions_of m k)) =
     mset (flat m) + mset (map (Pair k) vs)"
proof (induction k vs m rule: bt_insert.induct)
  case (1 k v)
  then show ?case by (simp add: flat_def versions_of_def)
next
  case (2 k v k' v' m)
  have later: "map_of m k' = None"
    using 2(2) by (auto simp: bt_wf_Cons map_of_eq_None_iff)
  consider "k < k'" | "k = k'" | "k' < k" by (meson linorder_less_linear)
  then show ?case
  proof cases
    case 1
    have "map_of ((k', v') # m) k = None"
      using 1 2(2) by (auto simp: bt_wf_Cons map_of_eq_None_iff)
    with 1 show ?thesis by (simp add: flat_def versions_of_def)
  next
    case 2
    then show ?thesis by (simp add: flat_def versions_of_def)
  next
    case 3
    with 2(1) 2(2) show ?thesis by (auto simp: flat_def versions_of_def bt_wf_Cons)
  qed
qed

lemma log_versions_snoc: "log_versions (log @ [(k, v)]) k' =
    (if k' = k then insert_version v (log_versions log k) else log_versions log k')"
  by (simp add: log_versions_def insert_version_sort)

lemma mset_concat_update:
  "i < length xs \<Longrightarrow> mset (concat (map f (xs[i := x]))) + mset (f (xs ! i)) = mset (concat (map f xs)) + mset (f x)"
  by (simp add: upd_conv_take_nth_drop)
    (metis (no_types, lifting) add.assoc add.commute append_take_drop_id concat.simps(2) concat_append
      id_take_nth_drop list.simps(9) map_append mset_append)

lemma mt_put_ok:
  assumes "mt_ok log mt"
  shows "mt_ok (log @ [(k, (s, val, t))]) (mt_put mt k val s t)"
proof -
  let ?i = "shard_for k" and ?v = "(s, val, t)"
  let ?m = "mt_shards mt ! ?i"
  let ?vs = "insert_version ?v (versions_of ?m k)"
  let ?m' = "bt_insert k ?vs ?m"
  have i: "?i < SHARD_COUNT" by (rule shard_for_less)
  from assms have len: "length (mt_shards mt) = SHARD_COUNT"
    and shards: "\<And>i. i < SHARD_COUNT \<Longrightarrow> bt_wf (mt_shards mt ! i)"
      "\<And>i k vs. i < SHARD_COUNT \<Longrightarrow> map_of (mt_shards mt ! i) k = Some vs \<Longrightarrow> shard_for k = i \<and> vs \<noteq> []"
    and lookup: "\<And>k. versions_of (mt_shards mt ! shard_for k) k = log_versions log k"
    and entries: "mset (concat (map flat (mt_shards mt))) = mset log"
    by (auto simp: mt_ok_def)
  have put: "mt_shards (mt_put mt k val s t) = (mt_shards mt)[?i := ?m']"
    by (simp add: mt_put_def Let_def versions_of_def)
  have nth: "(mt_shards mt)[?i := ?m'] ! j = (if j = ?i then ?m' else mt_shards mt ! j)"
    if "j < SHARD_COUNT" for j using that len by (simp add: nth_list_update)
  have ins: "mset ?vs = add_mset ?v (mset (versions_of ?m k))" "?vs \<noteq> []"
  proof -
    have "?vs = sort_key raw_seq (map snd (filter (\<lambda>e. fst e = k) log) @ [?v])"
      by (simp add: lookup log_versions_def insert_version_sort)
    then show "mset ?vs = add_mset ?v (mset (versions_of ?m k))" by (simp add: lookup log_versions_def)
    then show "?vs \<noteq> []" by (metis add_mset_not_empty mset.simps(1))
  qed
  have "\<forall>j < SHARD_COUNT. bt_wf ((mt_shards mt)[?i := ?m'] ! j) \<and>
      (\<forall>k vs. map_of ((mt_shards mt)[?i := ?m'] ! j) k = Some vs \<longrightarrow> shard_for k = j \<and> vs \<noteq> [])"
  proof (intro allI impI)
    fix j assume j: "j < SHARD_COUNT"
    have "shard_for k' = j \<and> vs \<noteq> []"
      if "map_of ((mt_shards mt)[?i := ?m'] ! j) k' = Some vs" for k' vs
    proof (cases "j = ?i \<and> k' = k")
      case True
      with that ins(2) show ?thesis by (simp add: nth [OF i] map_simps)
    next
      case False
      with that have "map_of (mt_shards mt ! j) k' = Some vs"
        by (cases "j = ?i") (auto simp: nth [OF j] nth [OF i] map_simps split: if_splits)
      with shards(2) [OF j] show ?thesis by blast
    qed
    moreover have "bt_wf ((mt_shards mt)[?i := ?m'] ! j)"
      using shards(1) [OF j] shards(1) [OF i] by (simp add: nth [OF j] bt_wf_insert)
    ultimately show "bt_wf ((mt_shards mt)[?i := ?m'] ! j) \<and>
        (\<forall>k vs. map_of ((mt_shards mt)[?i := ?m'] ! j) k = Some vs \<longrightarrow> shard_for k = j \<and> vs \<noteq> [])" by blast
  qed
  moreover have "versions_of ((mt_shards mt)[?i := ?m'] ! shard_for k') k' = log_versions (log @ [(k, ?v)]) k'" for k'
  proof -
    have "versions_of ((mt_shards mt)[?i := ?m'] ! shard_for k') k' =
        (if k' = k then ?vs else versions_of (mt_shards mt ! shard_for k') k')"
      unfolding nth [OF shard_for_less] by (cases "k' = k") (auto simp: versions_of_def map_simps)
    then show ?thesis by (simp only: lookup log_versions_snoc)
  qed
  moreover have "mset (concat (map flat ((mt_shards mt)[?i := ?m']))) = mset (log @ [(k, ?v)])"
  proof -
    have "mset (concat (map flat ((mt_shards mt)[?i := ?m']))) + mset (flat ?m) = mset log + mset (flat ?m')"
      using mset_concat_update [of ?i "mt_shards mt" flat ?m'] i len entries by simp
    moreover have "mset (flat ?m') = add_mset (k, ?v) (mset (flat ?m))"
      using mset_flat_insert [OF shards(1) [OF i], of k ?vs] ins(1) by simp
    ultimately show ?thesis by simp
  qed
  moreover have "mt_size (mt_put mt k val s t) = sum_list (map (\<lambda>(k, v). entry_bytes k v) (log @ [(k, ?v)]))"
    using assms by (simp add: mt_ok_def mt_put_def Let_def entry_bytes_def)
  moreover have "mt_min_tx (mt_put mt k val s t) = foldl min U64_MAX (map (\<lambda>(k, v). snd (snd v)) (log @ [(k, ?v)]))"
    "mt_max_tx (mt_put mt k val s t) = foldl max 0 (map (\<lambda>(k, v). snd (snd v)) (log @ [(k, ?v)]))"
  proof -
    have "(if t \<ge> a then a else t) = min a t" "(if t \<le> b then b else t) = max b t" for a b :: u64
      by (auto simp: min_def max_def)
    then show "mt_min_tx (mt_put mt k val s t) = foldl min U64_MAX (map (\<lambda>(k, v). snd (snd v)) (log @ [(k, ?v)]))"
      "mt_max_tx (mt_put mt k val s t) = foldl max 0 (map (\<lambda>(k, v). snd (snd v)) (log @ [(k, ?v)]))"
      using assms by (simp_all add: mt_ok_def mt_put_def Let_def)
  qed
  moreover have "length ((mt_shards mt)[?i := ?m']) = SHARD_COUNT" using len by simp
  ultimately show ?thesis unfolding mt_ok_def put by blast
qed


section \<open>Rollback\<close>

lemma map_of_retain_tx:
  "bt_wf m \<Longrightarrow> map_of (retain_tx t m) k = (case map_of m k of None \<Rightarrow> None
     | Some vs \<Rightarrow> (let vs' = filter (\<lambda>v. snd (snd v) \<noteq> t) vs in if vs' = [] then None else Some vs'))"
proof -
  assume wf: "bt_wf m"
  let ?m = "map (\<lambda>(key, vs). (key, filter (\<lambda>v. snd (snd v) \<noteq> t) vs)) m"
  have keys: "map fst ?m = map fst m" by (simp add: case_prod_beta)
  have "hm_wf ?m" using wf unfolding hm_wf_def keys by (rule bt_wf_distinct)
  moreover have "map_of ?m k = map_option (filter (\<lambda>v. snd (snd v) \<noteq> t)) (map_of m k)"
    by (simp add: map_of_map)
  ultimately show ?thesis
    by (auto simp: retain_tx_def map_of_filter_hm Let_def split: option.splits)
qed

lemma flat_retain_tx: "flat (retain_tx t m) = filter (\<lambda>e. snd (snd (snd e)) \<noteq> t) (flat m)"
proof -
  have drop_empty: "flat (filter (\<lambda>e. snd e \<noteq> []) xs) = flat xs" for xs by (induction xs) (auto simp: flat_def)
  have "flat (map (\<lambda>(key, vs). (key, filter (\<lambda>v. snd (snd v) \<noteq> t) vs)) m) = filter (\<lambda>e. snd (snd (snd e)) \<noteq> t) (flat m)"
    by (induction m) (auto simp: flat_def filter_map comp_def)
  then show ?thesis by (simp add: retain_tx_def drop_empty)
qed

lemma bt_wf_retain_tx: "bt_wf m \<Longrightarrow> bt_wf (retain_tx t m)"
proof -
  assume "bt_wf m"
  then have "bt_wf (map (\<lambda>(key, vs). (key, filter (\<lambda>v. snd (snd v) \<noteq> t) vs)) m)"
    by (simp add: bt_wf_def case_prod_beta comp_def)
  then show ?thesis unfolding retain_tx_def by (rule bt_wf_filter)
qed

lemma log_versions_filter:
  "log_versions (filter (\<lambda>e. P (snd e)) log) k = filter P (log_versions log k)"
proof -
  have "map snd (filter (\<lambda>e. fst e = k) (filter (\<lambda>e. P (snd e)) log)) = filter P (map snd (filter (\<lambda>e. fst e = k) log))"
    by (induction log) auto
  then show ?thesis by (simp add: log_versions_def filter_sort)
qed

lemma freed_flat: "freed_bytes t m = sum_list (map (\<lambda>(k, v). entry_bytes k v) (filter (\<lambda>e. snd (snd (snd e)) = t) (flat m)))"
  by (induction m) (auto simp: freed_bytes_def flat_def filter_map comp_def)

lemma txs_flat: "txs_of m = map (\<lambda>(k, v). snd (snd v)) (flat m)"
  by (induction m) (auto simp: txs_of_def flat_def comp_def)

lemma sum_list_mset_cong: "mset xs = mset ys \<Longrightarrow> sum_list (map f xs) = sum_list (map f ys)"
  for f :: "'a \<Rightarrow> nat"
  by (metis mset_map sum_mset_sum_list)

lemma foldl_min_max_set:
  fixes a :: "'a::linorder"
  shows "foldl min a xs = Min (insert a (set xs))" and "foldl max a xs = Max (insert a (set xs))"
proof -
  have "(\<lambda>x s :: 'a. min s x) = min" "(\<lambda>x s :: 'a. max s x) = max"
    by (auto simp: fun_eq_iff min.commute max.commute)
  then have "foldl min a xs = fold min xs a" "foldl max a xs = fold max xs a"
    by (simp_all add: foldl_conv_fold)
  then show "foldl min a xs = Min (insert a (set xs))" and "foldl max a xs = Max (insert a (set xs))"
    using Min.set_eq_fold [of a xs] Max.set_eq_fold [of a xs] by simp_all
qed

lemma mset_concat_map_cong:
  "(\<And>x. x \<in> set xs \<Longrightarrow> f (h x) = filter P (f x)) \<Longrightarrow> concat (map f (map h xs)) = filter P (concat (map f xs))"
  by (induction xs) auto

lemma rollback_ok:
  assumes "mt_ok log mt"
  shows "mt_ok (filter (\<lambda>e. snd (snd (snd e)) \<noteq> t) log) (rollback mt t)"
proof -
  let ?P = "\<lambda>e :: bytes \<times> version. snd (snd (snd e)) \<noteq> t"
  let ?shards = "map (retain_tx t) (mt_shards mt)" and ?log = "filter ?P log"
  from assms have len: "length (mt_shards mt) = SHARD_COUNT"
    and shards: "\<And>i. i < SHARD_COUNT \<Longrightarrow> bt_wf (mt_shards mt ! i)"
      "\<And>i k vs. i < SHARD_COUNT \<Longrightarrow> map_of (mt_shards mt ! i) k = Some vs \<Longrightarrow> shard_for k = i \<and> vs \<noteq> []"
    and lookup: "\<And>k. versions_of (mt_shards mt ! shard_for k) k = log_versions log k"
    and entries: "mset (concat (map flat (mt_shards mt))) = mset log"
    and size: "mt_size mt = sum_list (map (\<lambda>(k, v). entry_bytes k v) log)"
    by (auto simp: mt_ok_def)
  have nth: "?shards ! j = retain_tx t (mt_shards mt ! j)" if "j < SHARD_COUNT" for j using that len by simp
  have roll: "mt_shards (rollback mt t) = ?shards" by (simp add: rollback_def Let_def)
  have 1: "\<forall>j < SHARD_COUNT. bt_wf (?shards ! j) \<and>
      (\<forall>k vs. map_of (?shards ! j) k = Some vs \<longrightarrow> shard_for k = j \<and> vs \<noteq> [])"
    using shards by (auto simp: nth bt_wf_retain_tx map_of_retain_tx Let_def split: option.splits if_splits)
  have 2: "versions_of (?shards ! shard_for k) k = log_versions ?log k" for k
  proof -
    have "versions_of (?shards ! shard_for k) k = filter (\<lambda>v. snd (snd v) \<noteq> t) (versions_of (mt_shards mt ! shard_for k) k)"
      using shards(1) [OF shard_for_less]
      by (auto simp: nth shard_for_less versions_of_def map_of_retain_tx Let_def split: option.splits)
    then show ?thesis using log_versions_filter [of "\<lambda>v. snd (snd v) \<noteq> t" log k] by (simp add: lookup)
  qed
  have flats: "concat (map flat ?shards) = filter ?P (concat (map flat (mt_shards mt)))"
    by (rule mset_concat_map_cong) (rule flat_retain_tx)
  then have 3: "mset (concat (map flat ?shards)) = mset ?log"
    using entries by (metis mset_filter)
  let ?b = "\<lambda>(k, v). entry_bytes k v"
  have "sum_list (map (freed_bytes t) (mt_shards mt)) =
      sum_list (map ?b (filter (\<lambda>e. \<not> ?P e) (concat (map flat (mt_shards mt)))))"
  proof -
    have "sum_list (map (freed_bytes t) ms) = sum_list (map ?b (filter (\<lambda>e. \<not> ?P e) (concat (map flat ms))))" for ms
      by (induction ms) (auto simp: freed_flat)
    then show ?thesis .
  qed
  also have "\<dots> = sum_list (map ?b (filter (\<lambda>e. \<not> ?P e) log))"
    by (rule sum_list_mset_cong) (metis entries mset_filter)
  finally have freed: "sum_list (map (freed_bytes t) (mt_shards mt)) = sum_list (map ?b (filter (\<lambda>e. \<not> ?P e) log))" .
  have "sum_list (map ?b log) = sum_list (map ?b ?log) + sum_list (map ?b (filter (\<lambda>e. \<not> ?P e) log))"
    by (induction log) auto
  with size freed have 4: "mt_size (rollback mt t) = sum_list (map ?b ?log)"
    by (auto simp: rollback_def Let_def)
  have txs: "concat (map txs_of ?shards) = map (\<lambda>(k, v). snd (snd v)) (concat (map flat ?shards))"
    unfolding map_concat map_map by (simp add: comp_def txs_flat)
  have set_txs: "set (concat (map txs_of ?shards)) = set (map (\<lambda>(k, v). snd (snd v)) ?log)"
    unfolding txs set_map using mset_eq_setD [OF 3] by simp
  have 5: "mt_min_tx (rollback mt t) = foldl min U64_MAX (map (\<lambda>(k, v). snd (snd v)) ?log)"
    "mt_max_tx (rollback mt t) = foldl max 0 (map (\<lambda>(k, v). snd (snd v)) ?log)"
  proof -
    let ?txs = "concat (map txs_of ?shards)"
    have "mt_min_tx (rollback mt t) = foldl min U64_MAX ?txs" "mt_max_tx (rollback mt t) = foldl max 0 ?txs"
      unfolding rollback_def Let_def
      by (cases "?txs = []", simp_all only: mem_table.simps if_True if_False foldl.simps simp_thms)+
    then show "mt_min_tx (rollback mt t) = foldl min U64_MAX (map (\<lambda>(k, v). snd (snd v)) ?log)"
      "mt_max_tx (rollback mt t) = foldl max 0 (map (\<lambda>(k, v). snd (snd v)) ?log)"
      by (simp_all only: foldl_min_max_set set_txs)
  qed
  have "length ?shards = SHARD_COUNT" using len by simp
  with 1 2 3 4 5 show ?thesis unfolding mt_ok_def roll by blast
qed


lemma mt_ok_new: "mt_ok [] mem_table_new"
  by (auto simp: mt_ok_def mem_table_new_def log_versions_def versions_of_def flat_def shard_for_less
      concat_replicate_trivial)

section \<open>Point reads\<close>

definition last_version :: "version list \<Rightarrow> version option" where
  "last_version vs = (if vs = [] then None else Some (last vs))"

text \<open>What a reader shall see: the latest write not above the snapshot that is visible to it.\<close>

definition log_read :: "mem_log \<Rightarrow> bytes \<Rightarrow> u64 \<Rightarrow> u64 \<Rightarrow> version option" where
  "log_read log k seq_no max_tx =
     last_version (filter (\<lambda>v. raw_seq v \<le> mask_seq seq_no \<and> tx_visible max_tx v) (log_versions log k))"

lemma find_rev_last: "find P (rev xs) = last_version (filter P xs)"
  by (induction xs rule: rev_induct) (auto simp: last_version_def)

lemma search_index_split:
  assumes "sorted (map raw_seq vs)"
  shows "(case search_index x vs of None \<Rightarrow> [] | Some idx \<Rightarrow> take (Suc idx) vs) = filter (\<lambda>v. raw_seq v \<le> x) vs"
proof (cases "binary_search_by_key raw_seq x vs")
  case (Inl i)
  with bs.found_split [OF assms Inl] show ?thesis by (simp add: search_index_def skip_equal_def)
next
  case (Inr i)
  with bs.missing_split [OF assms Inr] show ?thesis by (cases i) (auto simp: search_index_def)
qed

lemma get_at_seq_versions:
  assumes "map_of (mt_shards mt ! shard_for k) k = Some vs" and "sorted (map raw_seq vs)"
  shows "get_at_seq mt k s m = map_option (\<lambda>(seq, val, tx). (val, seq, tx))
    (last_version (filter (\<lambda>v. raw_seq v \<le> mask_seq s \<and> tx_visible m v) vs))"
proof -
  have eq: "filter (tx_visible m) (filter (\<lambda>v. raw_seq v \<le> mask_seq s) vs) =
      filter (\<lambda>v. raw_seq v \<le> mask_seq s \<and> tx_visible m v) vs"
    by (simp add: conj_commute)
  show ?thesis
  proof (cases "search_index (mask_seq s) vs")
    case None
    with search_index_split [OF assms(2), of "mask_seq s"] have "filter (\<lambda>v. raw_seq v \<le> mask_seq s) vs = []" by simp
    then have "filter (\<lambda>v. raw_seq v \<le> mask_seq s \<and> tx_visible m v) vs = []" unfolding eq [symmetric] by simp
    with None assms(1) show ?thesis by (simp add: get_at_seq_def last_version_def)
  next
    case (Some idx)
    with search_index_split [OF assms(2), of "mask_seq s"]
    have "take (Suc idx) vs = filter (\<lambda>v. raw_seq v \<le> mask_seq s) vs" by simp
    with Some assms(1) eq show ?thesis
      by (auto simp: get_at_seq_def find_rev_last split: option.splits)
  qed
qed

lemma get_at_seq_log:
  assumes "mt_ok log mt"
  shows "get_at_seq mt k s m = map_option (\<lambda>(seq, val, tx). (val, seq, tx)) (log_read log k s m)"
proof -
  from assms have lookup: "versions_of (mt_shards mt ! shard_for k) k = log_versions log k" by (simp add: mt_ok_def)
  show ?thesis
  proof (cases "map_of (mt_shards mt ! shard_for k) k")
    case None
    with lookup have "log_versions log k = []" by (simp add: versions_of_def)
    with None show ?thesis by (simp add: get_at_seq_def log_read_def last_version_def)
  next
    case (Some vs)
    with lookup have vs: "vs = log_versions log k" by (simp add: versions_of_def)
    then have "sorted (map raw_seq vs)" by (simp add: log_versions_def)
    from get_at_seq_versions [OF Some this] show ?thesis by (simp add: log_read_def vs)
  qed
qed

lemma mt_get_log:
  assumes "mt_ok log mt"
  shows "mt_get mt k = map_option (\<lambda>(seq, val, tx). (val, seq)) (last_version (log_versions log k))"
proof -
  from assms have "versions_of (mt_shards mt ! shard_for k) k = log_versions log k" by (simp add: mt_ok_def)
  then show ?thesis
    by (auto simp: mt_get_def versions_of_def last_version_def split: option.splits prod.splits)
qed

section \<open>Runs\<close>

datatype mem_op = MPut bytes bytes u64 u64 | MRollback u64

fun mem_step :: "mem_table \<Rightarrow> mem_op \<Rightarrow> mem_table" where
  "mem_step mt (MPut k val s t) = mt_put mt k val s t"
| "mem_step mt (MRollback t) = rollback mt t"

fun log_apply :: "mem_log \<Rightarrow> mem_op \<Rightarrow> mem_log" where
  "log_apply log (MPut k val s t) = log @ [(k, (s, val, t))]"
| "log_apply log (MRollback t) = filter (\<lambda>e. snd (snd (snd e)) \<noteq> t) log"

lemma mem_run_ok: "mt_ok log mt \<Longrightarrow> mt_ok (foldl log_apply log ops) (foldl mem_step mt ops)"
proof (induction ops arbitrary: log mt)
  case Nil
  then show ?case by simp
next
  case (Cons op ops)
  have "mt_ok (log_apply log op) (mem_step mt op)"
    using mt_put_ok [OF Cons.prems] rollback_ok [OF Cons.prems] by (cases op) auto
  from Cons.IH [OF this] show ?case by simp
qed

definition mem_run :: "mem_op list \<Rightarrow> mem_table" where
  "mem_run ops = foldl mem_step mem_table_new ops"

definition log_of :: "mem_op list \<Rightarrow> mem_log" where
  "log_of ops = foldl log_apply [] ops"

lemma mem_run_log: "mt_ok (log_of ops) (mem_run ops)"
  unfolding mem_run_def log_of_def by (rule mem_run_ok [OF mt_ok_new])

text \<open>C15: the MemTable refines the log of its writes. After any sequence of writes, with sequence
  numbers in any order, and rollbacks, a point read at a snapshot returns the write of this key
  with the greatest sequence number (the last one of equals) that is not above the snapshot and
  whose transaction the reader may see, and never a write of a rolled back transaction; and a
  plain read returns the write with the greatest sequence number.\<close>

theorem mem_table_refines_log:
  "get_at_seq (mem_run ops) k s m =
     map_option (\<lambda>(seq, val, tx). (val, seq, tx)) (log_read (log_of ops) k s m) \<and>
   mt_get (mem_run ops) k =
     map_option (\<lambda>(seq, val, tx). (val, seq)) (last_version (log_versions (log_of ops) k))"
  using get_at_seq_log [OF mem_run_log] mt_get_log [OF mem_run_log] by blast

section \<open>The whole iteration\<close>

lemma filter_flat: "bt_wf m \<Longrightarrow> filter (\<lambda>e. fst e = k) (flat m) = map (Pair k) (versions_of m k)"
proof (induction m)
  case Nil
  then show ?case by (simp add: flat_def versions_of_def)
next
  case (Cons e m)
  obtain k' vs where e: "e = (k', vs)" by force
  with Cons.prems have wf: "bt_wf m" and new: "map_of m k' = None"
    by (auto simp: bt_wf_Cons map_of_eq_None_iff)
  have "filter (\<lambda>e. fst e = k) (map (Pair k') vs) = (if k' = k then map (Pair k) vs else [])"
    by (auto simp: filter_map comp_def)
  with Cons.IH [OF wf] new show ?case by (auto simp: e flat_def versions_of_def)
qed

lemma concat_map_single:
  "i < length xs \<Longrightarrow> (\<And>j. j < length xs \<Longrightarrow> j \<noteq> i \<Longrightarrow> f (xs ! j) = []) \<Longrightarrow> concat (map f xs) = f (xs ! i)"
proof -
  assume i: "i < length xs" and none: "\<And>j. j < length xs \<Longrightarrow> j \<noteq> i \<Longrightarrow> f (xs ! j) = []"
  have "concat (map f (take i xs)) = []" "concat (map f (drop (Suc i) xs)) = []"
    using i none by (auto simp: in_set_conv_nth)
  moreover have "xs = take i xs @ xs ! i # drop (Suc i) xs" using i by (rule id_take_nth_drop)
  ultimately show "concat (map f xs) = f (xs ! i)"
    by (metis append_Nil append_Nil2 concat.simps(2) concat_append list.simps(9) map_append)
qed

lemma filter_entries:
  assumes "mt_ok log mt"
  shows "filter (\<lambda>e. fst e = k) (concat (map flat (mt_shards mt))) = map (Pair k) (log_versions log k)"
proof -
  from assms have len: "length (mt_shards mt) = SHARD_COUNT"
    and shards: "\<And>i. i < SHARD_COUNT \<Longrightarrow> bt_wf (mt_shards mt ! i)"
      "\<And>i k vs. i < SHARD_COUNT \<Longrightarrow> map_of (mt_shards mt ! i) k = Some vs \<Longrightarrow> shard_for k = i \<and> vs \<noteq> []"
    and lookup: "versions_of (mt_shards mt ! shard_for k) k = log_versions log k"
    by (auto simp: mt_ok_def)
  let ?f = "\<lambda>m. filter (\<lambda>e. fst e = k) (flat m)"
  have "?f (mt_shards mt ! j) = []" if "j < length (mt_shards mt)" "j \<noteq> shard_for k" for j
  proof -
    have "map_of (mt_shards mt ! j) k = None" using shards(2) [of j k] that len by (cases "map_of (mt_shards mt ! j) k") auto
    with filter_flat [OF shards(1), of j k] that len show ?thesis by (simp add: versions_of_def)
  qed
  then have "concat (map ?f (mt_shards mt)) = ?f (mt_shards mt ! shard_for k)"
    by (intro concat_map_single) (simp_all add: len shard_for_less)
  then show ?thesis
    using filter_flat [OF shards(1) [OF shard_for_less], of k k] lookup
    by (simp add: filter_concat comp_def)
qed

lemma mt_iter_flat:
  "mt_iter mt = map (\<lambda>(k, seq, val, tx). (k, val, seq, tx)) (sort_key fst (concat (map flat (mt_shards mt))))"
proof -
  let ?g = "\<lambda>(k, seq, val, tx). (k :: bytes, val :: bytes, seq :: u64, tx :: u64)"
  have "concat (map (\<lambda>(k, versions). map (\<lambda>(seq, val, tx). (k, val, seq, tx)) versions) m) = map ?g (flat m)" for m
    by (induction m) (auto simp: flat_def)
  then have "mt_iter mt = sort_key fst (map ?g (concat (map flat (mt_shards mt))))"
    by (simp add: mt_iter_def map_concat comp_def)
  also have "\<dots> = map ?g (sort_key (fst \<circ> ?g) (concat (map flat (mt_shards mt))))"
  proof (rule properties_for_sort_key)
    let ?xs = "concat (map flat (mt_shards mt))"
    show "mset (map ?g (sort_key (fst \<circ> ?g) ?xs)) = mset (map ?g ?xs)" by simp
    show "filter (\<lambda>x. fst k = fst x) (map ?g (sort_key (fst \<circ> ?g) ?xs)) = filter (\<lambda>x. fst k = fst x) (map ?g ?xs)" for k
      using sort_key_stable [of "fst \<circ> ?g" "fst k" ?xs] by (simp add: filter_map comp_def eq_commute [of "fst k"])
    have "sorted (map (fst \<circ> ?g) (sort_key (fst \<circ> ?g) ?xs))" by (rule sorted_sort_key)
    then show "sorted (map fst (map ?g (sort_key (fst \<circ> ?g) ?xs)))" by simp
  qed
  also have "fst \<circ> ?g = fst" by (auto simp: fun_eq_iff)
  finally show ?thesis .
qed

text \<open>The books of the MemTable are exact. After any run, the size is the sum of the sizes of
  the writes that are not rolled back (it never saturates), and the transaction range is exactly
  the minimum and maximum of their transactions; the whole iteration is sorted by key, holds
  exactly these writes, and lists the versions of each key in ascending order.\<close>

theorem mem_table_books:
  "mt_size (mem_run ops) = sum_list (map (\<lambda>(k, v). entry_bytes k v) (log_of ops)) \<and>
   tx_range (mem_run ops) = (Min (insert U64_MAX (set (map (\<lambda>(k, v). snd (snd v)) (log_of ops)))),
                             Max (insert 0 (set (map (\<lambda>(k, v). snd (snd v)) (log_of ops))))) \<and>
   sorted (map fst (mt_iter (mem_run ops))) \<and>
   mset (mt_iter (mem_run ops)) = mset (map (\<lambda>(k, seq, val, tx). (k, val, seq, tx)) (log_of ops)) \<and>
   filter (\<lambda>e. fst e = k) (mt_iter (mem_run ops)) =
     map (\<lambda>(seq, val, tx). (k, val, seq, tx)) (log_versions (log_of ops) k)"
proof -
  let ?mt = "mem_run ops" and ?log = "log_of ops"
  let ?g = "\<lambda>(k, seq, val, tx). (k :: bytes, val :: bytes, seq :: u64, tx :: u64)"
  let ?xs = "concat (map flat (mt_shards ?mt))"
  note ok = mem_run_log [of ops]
  have fst_g: "fst \<circ> ?g = fst" by (auto simp: fun_eq_iff)
  have "sorted (map fst (mt_iter ?mt))" unfolding mt_iter_flat map_map fst_g by (rule sorted_sort_key)
  moreover have "mset (mt_iter ?mt) = mset (map ?g ?log)"
    using ok by (simp add: mt_iter_flat mt_ok_def)
  moreover have "filter (\<lambda>e. fst e = k) (mt_iter ?mt) = map (\<lambda>(seq, val, tx). (k, val, seq, tx)) (log_versions ?log k)"
  proof -
    have "filter (\<lambda>e. fst e = k) (mt_iter ?mt) = map ?g (filter (\<lambda>e. fst e = k) (sort_key fst ?xs))"
      unfolding mt_iter_flat filter_map comp_def by (simp add: case_prod_beta)
    also have "filter (\<lambda>e. fst e = k) (sort_key fst ?xs) = map (Pair k) (log_versions ?log k)"
      using sort_key_stable [of fst k ?xs] filter_entries [OF ok, of k] by simp
    finally show ?thesis by (simp add: comp_def case_prod_beta)
  qed
  ultimately show ?thesis
    using ok by (simp add: mt_ok_def tx_range_def foldl_min_max_set del: set_map)
qed

end
