(* ===== verification/MemTableScan.thy ===== *)
theory MemTableScan
  imports MemTableCorrect
begin

text \<open>
  Scans of the MemTable: the shard ranges leave out no shard that can hold a key of the scan, and a
  scan returns for each of its keys what a point read returns, as long as no two versions of the
  key have the same sequence number.
\<close>

section \<open>Byte order\<close>

lemma prefix_le: "prefix p k \<Longrightarrow> p \<le> k" for p :: bytes
proof (induction p arbitrary: k)
  case Nil
  then show ?case by simp
next
  case (Cons b p)
  then show ?case by (cases k) auto
qed

lemma prefix_between: "prefix p k2 \<Longrightarrow> p \<le> k1 \<Longrightarrow> k1 \<le> k2 \<Longrightarrow> prefix p k1" for p :: bytes
proof (induction p arbitrary: k1 k2)
  case Nil
  then show ?case by simp
next
  case (Cons b p)
  then obtain k2' where k2: "k2 = b # k2'" "prefix p k2'" by (cases k2) auto
  from Cons.prems(2) obtain b1 k1' where k1: "k1 = b1 # k1'" by (cases k1) auto
  from Cons.prems(2,3) k1 k2 have "b1 = b" "p \<le> k1'" "k1' \<le> k2'" by auto
  with Cons.IH [OF k2(2)] k1 show ?case by simp
qed

lemma user_val_mono:
  assumes "k1 \<le> k2"
  shows "user_val k1 \<le> user_val k2"
proof (cases k1)
  case Nil
  then show ?thesis by (simp add: user_val_def)
next
  case (Cons b1 r1)
  with assms obtain b2 r2 where k2: "k2 = b2 # r2" by (cases k2) auto
  have second: "(case k of _ # b # _ \<Rightarrow> unat b | _ \<Rightarrow> 0) \<le> 255" for k :: bytes
    using byte_less by (auto split: list.splits simp: less_Suc_eq_le [symmetric] numeral_eq_Suc)
  from assms Cons k2 consider "b1 < b2" | "b1 = b2" "r1 \<le> r2" by auto
  then show ?thesis
  proof cases
    case 1
    then have "unat b1 < unat b2" by (simp add: word_less_nat_alt)
    with Cons k2 second [of k1] show ?thesis by (simp add: user_val_def)
  next
    case 2
    then have "(case r1 of [] \<Rightarrow> 0 | b # _ \<Rightarrow> unat b) \<le> (case r2 of [] \<Rightarrow> 0 | b # _ \<Rightarrow> unat b)"
      by (auto split: list.splits simp: word_le_nat_alt [symmetric] less_imp_le)
    with Cons k2 2 show ?thesis by (auto simp: user_val_def split: list.splits)
  qed
qed

lemma reserved_iff: "matching_reserved_prefix k = None \<longleftrightarrow> \<not> prefix UNDERSCORES k"
  by (simp add: matching_reserved_prefix_def split: option.splits)

lemma shard_for_mono:
  assumes "k1 \<le> k2" and "\<not> prefix UNDERSCORES k1" and "\<not> prefix UNDERSCORES k2"
  shows "shard_for k1 \<le> shard_for k2"
  using assms user_val_mono [OF assms(1)]
  by (simp add: shard_for_user reserved_iff div_le_mono)

lemma not_reserved: "k = [] \<or> hd k \<noteq> 95 \<Longrightarrow> \<not> prefix UNDERSCORES k"
  by (cases k) (auto simp: UNDERSCORES_def)

section \<open>Shard ranges\<close>

lemma all_shards: "shard_for k \<in> set [0..<Suc (SHARD_COUNT - 1)]"
  using shard_for_less [of k] by (simp add: SHARD_COUNT_def)

lemma prefix_range_covers:
  assumes "prefix pfx k"
  shows "shard_for k \<in> set (shard_range_for_prefix pfx)"
proof (cases pfx)
  case Nil
  then show ?thesis using all_shards by (simp add: shard_range_for_prefix_def)
next
  case (Cons b rest)
  with assms obtain k' where k: "k = b # rest @ k'" by (auto elim: prefixE)
  consider "b = 95" | "b \<noteq> 95" "rest \<noteq> []" | "b \<noteq> 95" "rest = []" by blast
  then show ?thesis
  proof cases
    case 1
    then show ?thesis using all_shards by (simp add: shard_range_for_prefix_def Cons)
  next
    case 2
    have nr: "\<not> prefix UNDERSCORES k" "\<not> prefix UNDERSCORES pfx" using 2 k Cons by (auto intro!: not_reserved)
    have "user_val k = user_val pfx" using 2(2) k Cons by (cases rest) (simp_all add: user_val_def)
    with nr have "shard_for k = shard_for pfx" by (simp add: shard_for_user reserved_iff)
    with 2 show ?thesis by (simp add: shard_range_for_prefix_def Cons)
  next
    case 3
    have nr: "\<not> prefix UNDERSCORES k" "\<not> prefix UNDERSCORES [b, 0]" "\<not> prefix UNDERSCORES [b, 255]"
      using 3 k by (auto intro!: not_reserved)
    have "user_val [b, 0] \<le> user_val k" using 3 k by (simp add: user_val_def)
    moreover have "user_val k \<le> user_val [b, 255]"
    proof -
      have "(case k of _ # b # _ \<Rightarrow> unat b | _ \<Rightarrow> 0) \<le> 255"
        using byte_less by (auto split: list.splits simp: less_Suc_eq_le [symmetric] numeral_eq_Suc)
      then show ?thesis using 3 k by (simp add: user_val_def)
    qed
    ultimately have "shard_for [b, 0] \<le> shard_for k" "shard_for k \<le> shard_for [b, 255]"
      using nr by (simp_all add: shard_for_user reserved_iff div_le_mono)
    with 3 show ?thesis by (auto simp: shard_range_for_prefix_def Cons)
  qed
qed

lemma above_le: "above b k \<Longrightarrow> bound_key b = Some s \<Longrightarrow> s \<le> k"
  by (cases b) (auto intro: less_imp_le)

lemma below_le: "below b k \<Longrightarrow> bound_key b = Some e \<Longrightarrow> k \<le> e"
  by (cases b) (auto intro: less_imp_le)

lemma bounds_range_covers:
  assumes "above start k" and "below end' k"
  shows "shard_for k \<in> set (shard_range_for_bounds start end')"
proof (cases "\<exists>s e. bound_key start = Some s \<and> bound_key end' = Some e \<and> \<not> first_is_underscore start \<and>
    \<not> first_is_underscore end' \<and> \<not> (s \<le> UNDERSCORES \<and> e \<ge> UNDERSCORES)")
  case False
  then have "shard_range_for_bounds start end' = [0..<Suc (SHARD_COUNT - 1)]"
    by (auto simp: shard_range_for_bounds_def Let_def split: option.splits)
  then show ?thesis using all_shards by simp
next
  case True
  then obtain s e where se: "bound_key start = Some s" "bound_key end' = Some e"
    "\<not> first_is_underscore start" "\<not> first_is_underscore end'" "\<not> (s \<le> UNDERSCORES \<and> e \<ge> UNDERSCORES)" by blast
  have le: "s \<le> k" "k \<le> e" using above_le [OF assms(1) se(1)] below_le [OF assms(2) se(2)] by auto
  have nr: "\<not> prefix UNDERSCORES s" "\<not> prefix UNDERSCORES e"
    using se(1-4) by (auto simp: first_is_underscore_def intro!: not_reserved split: list.splits)
      (simp_all add: UNDERSCORES_def)
  have "\<not> prefix UNDERSCORES k"
  proof
    assume k: "prefix UNDERSCORES k"
    then have "UNDERSCORES \<le> k" by (rule prefix_le)
    then have "UNDERSCORES \<le> e" using le(2) by (rule order.trans)
    with se(5) have "UNDERSCORES \<le> s" by (simp add: not_le)
    with k le(1) have "prefix UNDERSCORES s" using prefix_between by blast
    with nr(1) show False by blast
  qed
  with nr le have "shard_for s \<le> shard_for k" "shard_for k \<le> shard_for e" by (simp_all add: shard_for_mono)
  moreover have "shard_range_for_bounds start end' = [shard_for s..<Suc (shard_for e)]"
    using se by (auto simp: shard_range_for_bounds_def)
  ultimately show ?thesis by auto
qed

text \<open>No shard is missed. A key with a given prefix lies in one of the shards that a scan of
  this prefix visits, and a key between two bounds lies in one of the shards that a range scan
  of these bounds visits, for user keys, reserved system keys and ranges that hold both.\<close>

theorem shard_ranges_cover:
  "(prefix pfx k \<longrightarrow> shard_for k \<in> set (shard_range_for_prefix pfx)) \<and>
   (above start k \<and> below end' k \<longrightarrow> shard_for k \<in> set (shard_range_for_bounds start end'))"
  using prefix_range_covers bounds_range_covers by blast

theorem shard_ranges_cover_witness:
  "shard_for [97, 98] \<in> set (shard_range_for_prefix [97]) \<and>
   shard_for [95, 95, 99] \<in> set (shard_range_for_bounds (Included [65]) (Excluded [122]))"
  using shard_ranges_cover [of "[97]" "[97, 98]" Unbounded Unbounded]
    shard_ranges_cover [of "[]" "[95, 95, 99]" "Included [65]" "Excluded [122]"] by simp


section \<open>Scans return the point reads\<close>

definition merge_read :: "(bytes \<times> u64) option \<Rightarrow> (bytes \<times> u64) option \<Rightarrow> (bytes \<times> u64) option" where
  "merge_read best old = (case best of None \<Rightarrow> old
     | Some (val, seq) \<Rightarrow> (case old of None \<Rightarrow> Some (val, seq)
         | Some (val', seq') \<Rightarrow> if mask_seq seq > mask_seq seq' then Some (val, seq) else old))"

lemma merge_read_None: "merge_read None old = old" "merge_read b None = b"
  by (auto simp: merge_read_def split: option.splits)

lemma map_of_merge_target:
  "map_of (merge_target k best target) k' = (if k' = k then merge_read best (map_of target k) else map_of target k')"
  by (auto simp: merge_target_def merge_read_def map_simps split: option.splits)

lemma map_of_scan_entries:
  "hm_wf entries \<Longrightarrow> map_of (scan_entries pred ms mx entries target) k =
     merge_read (case map_of entries k of None \<Rightarrow> None | Some vs \<Rightarrow> foldl (best_step pred ms mx k) None vs)
       (map_of target k)"
  unfolding scan_entries_def
proof (induction entries arbitrary: target)
  case Nil
  then show ?case by (simp add: merge_read_def)
next
  case (Cons e entries)
  obtain k' vs where e: "e = (k', vs)" by force
  from Cons.prems have wf: "hm_wf entries" and new: "map_of entries k' = None"
    by (auto simp: hm_wf_def e map_of_eq_None_iff)
  show ?case
    using Cons.IH [OF wf, of "merge_target k' (foldl (best_step pred ms mx k') None vs) target"] new
    by (auto simp: e map_of_merge_target merge_read_def split: option.splits)
qed

text \<open>Over versions with different sequence numbers, ascending, the best is the last of the visible ones that
  pass the test.\<close>

definition scanned :: "scan_pred \<Rightarrow> u64 \<Rightarrow> u64 \<Rightarrow> bytes \<Rightarrow> version \<Rightarrow> bool" where
  "scanned pred ms mx k v \<longleftrightarrow> raw_seq v \<le> ms \<and> tx_visible mx v \<and> pred k (raw_seq v) (snd (snd v))"

definition last_scanned :: "scan_pred \<Rightarrow> u64 \<Rightarrow> u64 \<Rightarrow> bytes \<Rightarrow> version list \<Rightarrow> (bytes \<times> u64) option" where
  "last_scanned pred ms mx k vs =
     map_option (\<lambda>(seq, val, tx). (val, seq)) (last_version (filter (scanned pred ms mx k) vs))"

lemma best_step_last:
  assumes "sorted_wrt (<) (map raw_seq vs)"
  shows "foldl (best_step pred ms mx k) None vs = last_scanned pred ms mx k vs"
  unfolding last_scanned_def
  using assms
proof (induction vs rule: rev_induct)
  case Nil
  then show ?case by (simp add: last_version_def)
next
  case (snoc v vs)
  obtain seq val tx where v: "v = (seq, val, tx)" by (metis prod_cases3)
  from snoc.prems have sorted: "sorted_wrt (<) (map raw_seq vs)" and lt: "\<And>w. w \<in> set vs \<Longrightarrow> raw_seq w < raw_seq v"
    by (auto simp: sorted_wrt_append)
  let ?F = "filter (scanned pred ms mx k) vs"
  let ?f = "best_step pred ms mx k"
  note IH = snoc.IH [OF sorted]
  show ?case
  proof (cases "scanned pred ms mx k v")
    case False
    then have "?f best v = best" for best by (auto simp: best_step_def scanned_def v raw_seq_def)
    then have "foldl ?f None (vs @ [v]) = foldl ?f None vs" by simp
    moreover have "filter (scanned pred ms mx k) (vs @ [v]) = ?F" using False by auto
    ultimately show ?thesis using IH by simp
  next
    case True
    have "?f (foldl ?f None vs) v = Some (val, seq)"
    proof (cases "?F = []")
      case empty: True
      have "foldl ?f None vs = None" unfolding IH empty by (simp add: last_version_def)
      then show ?thesis using True by (simp add: best_step_def scanned_def v raw_seq_def)
    next
      case False
      obtain seq' val' tx' where l: "last ?F = (seq', val', tx')" by (cases "last ?F") blast
      have f: "foldl ?f None vs = Some (val', seq')" unfolding IH last_version_def if_not_P [OF False] l by simp
      have "last ?F \<in> set vs" by (rule subsetD [OF filter_is_subset last_in_set [OF False]])
      from lt [OF this, unfolded l v] have "mask_seq seq' < mask_seq seq" unfolding raw_seq_def fst_conv .
      with True show ?thesis unfolding f by (simp add: best_step_def scanned_def v raw_seq_def)
    qed
    with True show ?thesis by (simp add: last_version_def v)
  qed
qed

lemma fold_shards:
  assumes F: "\<And>i target. i \<in> set is \<Longrightarrow> map_of (F target i) k =
      merge_read (if i = i0 then b else None) (map_of target k)" and "distinct is"
  shows "map_of (foldl F target is) k = (if i0 \<in> set is then merge_read b (map_of target k) else map_of target k)"
  using assms
proof (induction "is" arbitrary: target)
  case Nil
  then show ?case by simp
next
  case (Cons i "is")
  have "map_of (foldl F (F target i) is) k =
      (if i0 \<in> set is then merge_read b (map_of (F target i) k) else map_of (F target i) k)"
    using Cons.prems by (intro Cons.IH) auto
  moreover have "map_of (F target i) k = merge_read (if i = i0 then b else None) (map_of target k)"
    using Cons.prems(1) by simp
  ultimately show ?case using Cons.prems(2) by (auto simp: merge_read_None)
qed

lemma filter_key_lookup: "map_of (filter (\<lambda>e. P (fst e)) m) k = (if P k then map_of m k else None)"
  by (induction m) auto

lemma prefix_run_filter:
  fixes p :: bytes
  assumes "bt_wf m"
  shows "takeWhile (\<lambda>e. prefix p (fst e)) (filter (\<lambda>e. p \<le> fst e) m) = filter (\<lambda>e. prefix p (fst e)) m"
  using assms
proof (induction m)
  case Nil
  then show ?case by simp
next
  case (Cons e m)
  from Cons.prems have wf: "bt_wf m" and lt: "\<And>e'. e' \<in> set m \<Longrightarrow> fst e < fst e'"
    by (cases e, auto simp: bt_wf_Cons)+
  consider "p \<le> fst e" "\<not> prefix p (fst e)" | "\<not> p \<le> fst e" | "p \<le> fst e" "prefix p (fst e)" by blast
  then show ?case
  proof cases
    case 1
    have "\<not> prefix p (fst e')" if "e' \<in> set m" for e'
      using 1 lt [OF that] prefix_between [of p "fst e'" "fst e"] by (blast intro: less_imp_le)
    then have "filter (\<lambda>e. prefix p (fst e)) m = []" by (simp add: filter_empty_conv)
    with 1 show ?thesis by simp
  next
    case 2
    then have "\<not> prefix p (fst e)" using prefix_le by blast
    with 2 Cons.IH [OF wf] show ?thesis by simp
  next
    case 3
    with Cons.IH [OF wf] show ?thesis by simp
  qed
qed

definition distinct_seqs :: "mem_log \<Rightarrow> bytes \<Rightarrow> bool" where
  "distinct_seqs log k \<longleftrightarrow> distinct (map (\<lambda>e. raw_seq (snd e)) (filter (\<lambda>e. fst e = k) log))"

lemma log_versions_strict:
  assumes "distinct_seqs log k"
  shows "sorted_wrt (<) (map raw_seq (log_versions log k))"
proof -
  let ?vs = "log_versions log k"
  have "mset ?vs = mset (map snd (filter (\<lambda>e. fst e = k) log))" by (simp add: log_versions_def)
  then have "mset (map raw_seq ?vs) = mset (map (\<lambda>e. raw_seq (snd e)) (filter (\<lambda>e. fst e = k) log))"
    by (metis (no_types, lifting) comp_apply list.map_comp map_eq_conv mset_map)
  then have "distinct (map raw_seq ?vs)" using assms mset_eq_imp_distinct_iff unfolding distinct_seqs_def by blast
  moreover have "sorted (map raw_seq ?vs)" by (simp add: log_versions_def)
  ultimately show ?thesis by (simp add: strict_sorted_iff)
qed

lemma shard_scan:
  assumes ok: "mt_ok log mt" and strict: "distinct_seqs log k" and i: "i < SHARD_COUNT"
  shows "(case map_of (mt_shards mt ! i) k of None \<Rightarrow> None
      | Some vs \<Rightarrow> foldl (best_step pred ms mx k) None vs) =
    (if i = shard_for k then last_scanned pred ms mx k (log_versions log k) else None)"
proof (cases "i = shard_for k")
  case False
  with ok i show ?thesis by (auto simp: mt_ok_def split: option.splits)
next
  case True
  have lookup: "versions_of (mt_shards mt ! shard_for k) k = log_versions log k" using ok by (simp add: mt_ok_def)
  show ?thesis
  proof (cases "map_of (mt_shards mt ! shard_for k) k")
    case None
    with lookup have "log_versions log k = []" by (simp add: versions_of_def)
    with True None show ?thesis by (simp add: last_scanned_def last_version_def)
  next
    case (Some vs)
    with lookup have vs: "vs = log_versions log k" by (simp add: versions_of_def)
    then have "sorted_wrt (<) (map raw_seq vs)" using log_versions_strict [OF strict] by simp
    from best_step_last [OF this] show ?thesis using True Some by (simp add: vs)
  qed
qed

lemma scan_shards:
  assumes ok: "mt_ok log mt" and strict: "distinct_seqs log k"
    and range: "\<And>i. i \<in> set is \<Longrightarrow> i < SHARD_COUNT" and dist: "distinct is"
    and cover: "P k \<Longrightarrow> shard_for k \<in> set is"
  shows "map_of (foldl (\<lambda>target i. scan_entries pred ms mx
      (filter (\<lambda>e. P (fst e)) (mt_shards mt ! i)) target) target is) k =
    merge_read (if P k then last_scanned pred ms mx k (log_versions log k) else None) (map_of target k)"
proof -
  let ?r = "last_scanned pred ms mx k (log_versions log k)"
  let ?b = "if P k then ?r else None"
  have step: "map_of (scan_entries pred ms mx (filter (\<lambda>e. P (fst e)) (mt_shards mt ! i)) target) k =
      merge_read (if i = shard_for k then ?b else None) (map_of target k)"
    if i: "i \<in> set is" for i target
  proof -
    have wf: "hm_wf (filter (\<lambda>e. P (fst e)) (mt_shards mt ! i))"
      using ok range [OF i] by (auto simp: mt_ok_def intro!: bt_wf_hm_wf bt_wf_filter)
    note lookup = filter_key_lookup [of P "mt_shards mt ! i" k]
    show ?thesis
    proof (cases "P k")
      case True
      show ?thesis
        unfolding map_of_scan_entries [OF wf] lookup if_P [OF True] shard_scan [OF ok strict range [OF i]] ..
    next
      case False
      then show ?thesis unfolding map_of_scan_entries [OF wf] lookup by simp
    qed
  qed
  from fold_shards [of "is" _ k "shard_for k" ?b target, OF step dist]
  show ?thesis using cover by (auto simp: merge_read_None)
qed

lemma upto_shard: "j < SHARD_COUNT \<Longrightarrow> i \<in> set [a..<Suc j] \<Longrightarrow> i < SHARD_COUNT"
  by auto

lemma last_shard: "SHARD_COUNT - 1 < SHARD_COUNT"
  by (simp add: SHARD_COUNT_def)

lemma prefix_range_shape: "\<exists>a b. b < SHARD_COUNT \<and> shard_range_for_prefix pfx = [a..<Suc b]"
proof (cases pfx)
  case Nil
  then show ?thesis using last_shard by (auto simp only: shard_range_for_prefix_def list.case)
next
  case (Cons b rest)
  consider "b = 95" | "b \<noteq> 95" "rest \<noteq> []" | "b \<noteq> 95" "rest = []" by blast
  then show ?thesis
  proof cases
    case 1
    then have "shard_range_for_prefix pfx = [0..<Suc (SHARD_COUNT - 1)]"
      by (simp add: shard_range_for_prefix_def Cons)
    then show ?thesis using last_shard by blast
  next
    case 2
    then have "shard_range_for_prefix pfx = [shard_for pfx..<Suc (shard_for pfx)]"
      by (simp add: shard_range_for_prefix_def Cons)
    then show ?thesis using shard_for_less by blast
  next
    case 3
    then have "shard_range_for_prefix pfx = [shard_for [b, 0]..<Suc (shard_for [b, 255])]"
      by (simp add: shard_range_for_prefix_def Cons)
    then show ?thesis using shard_for_less by blast
  qed
qed

lemma if_both: "P x \<Longrightarrow> P y \<Longrightarrow> P (if c then x else y)"
  by simp

lemma bounds_range_shape: "\<exists>a b. b < SHARD_COUNT \<and> shard_range_for_bounds start end' = [a..<Suc b]"
proof -
  have e: "(case bound_key end' of Some e \<Rightarrow> shard_for e | None \<Rightarrow> SHARD_COUNT - 1) < SHARD_COUNT"
    using shard_for_less last_shard by (cases "bound_key end'") simp_all
  show ?thesis
    unfolding shard_range_for_bounds_def Let_def
    by (rule if_both) (use e last_shard in blast)+
qed

lemma scan_prefix_into:
  assumes ok: "mt_ok log mt" and strict: "distinct_seqs log k"
  shows "map_of (scan_prefix_into_matching mt pfx s mx pred target) k =
    merge_read (if prefix pfx k then last_scanned pred (mask_seq s) mx k (log_versions log k) else None) (map_of target k)"
proof -
  obtain a b where shape: "b < SHARD_COUNT" "shard_range_for_prefix pfx = [a..<Suc b]"
    using prefix_range_shape by blast
  have range: "i < SHARD_COUNT" if "i \<in> set (shard_range_for_prefix pfx)" for i
    using upto_shard [OF shape(1)] that unfolding shape(2) by blast
  have dist: "distinct (shard_range_for_prefix pfx)" by (simp add: shape(2))
  have run: "takeWhile (\<lambda>e. prefix pfx (fst e)) (filter (\<lambda>e. pfx \<le> fst e) (mt_shards mt ! i)) =
      filter (\<lambda>e. prefix pfx (fst e)) (mt_shards mt ! i)" if "i \<in> set (shard_range_for_prefix pfx)" for i
    using ok range [OF that] by (simp add: mt_ok_def prefix_run_filter)
  have "scan_prefix_into_matching mt pfx s mx pred target =
      foldl (\<lambda>target i. scan_entries pred (mask_seq s) mx
        (filter (\<lambda>e. prefix pfx (fst e)) (mt_shards mt ! i)) target) target (shard_range_for_prefix pfx)"
    unfolding scan_prefix_into_matching_def by (rule foldl_cong) (simp_all add: run)
  then show ?thesis by (simp only: scan_shards [OF ok strict range dist prefix_range_covers])
qed

lemma scan_range_into:
  assumes ok: "mt_ok log mt" and strict: "distinct_seqs log k" and valid: "is_valid_range_bounds start end'"
  shows "map_of (scan_range_into_matching mt start end' s mx pred target) k =
    merge_read (if above start k \<and> below end' k then last_scanned pred (mask_seq s) mx k (log_versions log k) else None)
      (map_of target k)"
proof -
  obtain a b where shape: "b < SHARD_COUNT" "shard_range_for_bounds start end' = [a..<Suc b]"
    using bounds_range_shape by blast
  have range: "i < SHARD_COUNT" if "i \<in> set (shard_range_for_bounds start end')" for i
    using upto_shard [OF shape(1)] that unfolding shape(2) by blast
  have dist: "distinct (shard_range_for_bounds start end')" by (simp add: shape(2))
  show ?thesis
    unfolding scan_range_into_matching_def using valid
    scan_shards [OF ok strict range dist, where P = "\<lambda>k. above start k \<and> below end' k"]
      bounds_range_covers [of start k end']
    by simp
qed

text \<open>Without a test the last version is what a point read returns.\<close>

lemma last_scanned_read:
  assumes "mt_ok log mt"
  shows "last_scanned (\<lambda>_ _ _. True) (mask_seq s) mx k (log_versions log k) =
    map_option (\<lambda>(val, seq, tx). (val, seq)) (get_at_seq mt k s mx)"
proof -
  have "scanned (\<lambda>_ _ _. True) (mask_seq s) mx k = (\<lambda>v. raw_seq v \<le> mask_seq s \<and> tx_visible mx v)"
    by (auto simp: fun_eq_iff scanned_def)
  then show ?thesis unfolding get_at_seq_log [OF assms]
    by (simp add: last_scanned_def log_read_def option.map_comp comp_def split_def)
qed

text \<open>Scans agree with point reads. After any run of the MemTable, a prefix scan and a range scan
  into an empty target hold, for every key of the prefix or range whose writes have different
  sequence numbers, exactly what a point read of this key at the same snapshot returns, and
  nothing for keys outside.\<close>

theorem scans_agree_with_reads:
  assumes "distinct_seqs (log_of ops) k" and "is_valid_range_bounds start end'"
  shows "map_of (scan_prefix_into_matching (mem_run ops) pfx s mx (\<lambda>_ _ _. True) []) k =
      (if prefix pfx k then map_option (\<lambda>(val, seq, tx). (val, seq)) (get_at_seq (mem_run ops) k s mx) else None) \<and>
    map_of (scan_range_into_matching (mem_run ops) start end' s mx (\<lambda>_ _ _. True) []) k =
      (if above start k \<and> below end' k
       then map_option (\<lambda>(val, seq, tx). (val, seq)) (get_at_seq (mem_run ops) k s mx) else None)"
  by (simp add: scan_prefix_into [OF mem_run_log assms(1)] scan_range_into [OF mem_run_log assms]
      last_scanned_read [OF mem_run_log] merge_read_None)

theorem scans_agree_with_reads_witness:
  "map_of (scan_prefix_into_matching (mem_run [MPut [97, 98] [1] 5 1, MPut [97, 98] [2] 3 1]) [97] 4 9
     (\<lambda>_ _ _. True) []) [97, 98] =
   map_option (\<lambda>(val, seq, tx). (val, seq))
     (get_at_seq (mem_run [MPut [97, 98] [1] 5 1, MPut [97, 98] [2] 3 1]) [97, 98] 4 9)"
proof -
  have "distinct_seqs (log_of [MPut [97, 98] [1] 5 1, MPut [97, 98] [2] 3 1]) [97, 98]"
    by (simp add: distinct_seqs_def log_of_def raw_seq_def TOMBSTONE_BIT_def)
  from scans_agree_with_reads [OF this, of Unbounded Unbounded "[97]" 4 9] show ?thesis by simp
qed

definition diverging_versions :: "version list" where
  "diverging_versions = [(5, [1], 1), (5 OR TOMBSTONE_BIT, [], 1)]"

lemma diverging_shard: "shard_for [97, 98] = 6"
  by (simp add: shard_for_def matching_reserved_prefix_def UNDERSCORES_def SHARD_COUNT_def)

lemma diverging_state:
  "mt_shards (mem_run [MPut [97, 98] [1] 5 1, MPut [97, 98] [] (5 OR TOMBSTONE_BIT) 1]) ! 6 =
    [([97, 98], diverging_versions)]"
  by (simp add: mem_run_def mem_table_new_def mt_put_def diverging_shard SHARD_COUNT_def insert_version_def
      raw_seq_def TOMBSTONE_BIT_def diverging_versions_def)

lemma diverging_index: "search_index 5 diverging_versions = Some 1"
  by (simp add: search_index_def binary_search_by_key_def bs_loop.simps skip_equal_def raw_seq_def
      TOMBSTONE_BIT_def diverging_versions_def)

text \<open>With two versions of one sequence number, reads and scans disagree. A value and, under
  the same sequence number, a tombstone that arrives later: the point read returns the later
  one, the tombstone, and the scan the earlier one, the value.\<close>

theorem equal_seqs_diverge:
  "let mt = mem_run [MPut [97, 98] [1] 5 1, MPut [97, 98] [] (5 OR TOMBSTONE_BIT) 1]
   in get_at_seq mt [97, 98] 5 9 = Some ([], 5 OR TOMBSTONE_BIT, 1) \<and>
      map_of (scan_prefix_into_matching mt [97, 98] 5 9 (\<lambda>_ _ _. True) []) [97, 98] = Some ([1], 5)"
proof -
  let ?mt = "mem_run [MPut [97, 98] [1] 5 1, MPut [97, 98] [] (5 OR TOMBSTONE_BIT) 1]"
  have five: "mask_seq 5 = 5" by (simp add: TOMBSTONE_BIT_def)
  have "get_at_seq ?mt [97, 98] 5 9 = Some ([], 5 OR TOMBSTONE_BIT, 1)"
    unfolding get_at_seq_def diverging_shard diverging_state five
    by (simp add: diverging_index) (simp add: diverging_versions_def tx_visible_def)
  moreover have "shard_range_for_prefix [97, 98] = [6]"
    by (simp add: shard_range_for_prefix_def diverging_shard)
  then have "map_of (scan_prefix_into_matching ?mt [97, 98] 5 9 (\<lambda>_ _ _. True) []) [97, 98] = Some ([1], 5)"
    by (simp add: scan_prefix_into_matching_def diverging_state scan_entries_def)
      (simp add: diverging_versions_def best_step_def merge_target_def tx_visible_def TOMBSTONE_BIT_def)
  ultimately show ?thesis by (simp add: Let_def)
qed

end
