(* ===== verification/ByteCodec.thy ===== *)
theory ByteCodec
  imports Prelude
begin

text \<open>
  Little-endian integers in byte buffers and bounds-checked slices, as the file formats of
  \<open>crates/contextra-store/src/sstable\<close> use them: \<open>put_u16_le\<close>, \<open>put_u32_le\<close> and \<open>put_u64_le\<close> of the
  writers, \<open>u16::from_le_bytes\<close> and so on of the readers, and \<open>slice.get(a..b)\<close>.

  A \<open>usize\<close> that is a position in a buffer is a \<open>nat\<close>. The readers guard their sums with
  \<open>checked_add\<close>; the summands are lengths of buffers and integers below \<open>2 ^ 34\<close>, so that on a 64-bit
  platform these sums do not overflow and the error branches for it cannot be taken.
  The locale \<open>fixed_codec\<close> is the contract of one integer width: what a reader finds at a position
  where a writer has put an integer. It is interpreted for the three widths.
\<close>

section \<open>Little-endian integers\<close>

fun put_le :: "nat \<Rightarrow> nat \<Rightarrow> bytes" where
  "put_le 0 n = []"
| "put_le (Suc k) n = word_of_nat n # put_le k (n div 256)"

fun get_le :: "bytes \<Rightarrow> nat" where
  "get_le [] = 0"
| "get_le (b # bs) = unat b + 256 * get_le bs"

lemma length_put_le [simp]: "length (put_le k n) = k"
  by (induction k arbitrary: n) auto

lemma get_put_le: "n < 256 ^ k \<Longrightarrow> get_le (put_le k n) = n"
proof (induction k arbitrary: n)
  case 0
  then show ?case by simp
next
  case (Suc k)
  then have "n div 256 < 256 ^ k" by (simp add: less_mult_imp_div_less mult.commute)
  with Suc.IH show ?case by (simp add: unat_of_nat)
qed

lemma get_le_less: "get_le bs < 256 ^ length bs"
proof (induction bs)
  case Nil
  then show ?case by simp
next
  case (Cons b bs)
  have "unat b < 256" using unsigned_less [of b, where 'a = nat] by simp
  moreover have "Suc (get_le bs) \<le> 256 ^ length bs" using Cons by simp
  then have "256 * Suc (get_le bs) \<le> 256 * 256 ^ length bs" by (rule mult_le_mono2)
  ultimately show ?case by simp
qed

section \<open>Slices\<close>

text \<open>\<open>buf.get(a..b)\<close>\<close>

definition slice :: "bytes \<Rightarrow> nat \<Rightarrow> nat \<Rightarrow> bytes option" where
  "slice bs a b = (if a \<le> b \<and> b \<le> length bs then Some (take (b - a) (drop a bs)) else None)"

lemma slice_mid: "length p = a \<Longrightarrow> a + length m = b \<Longrightarrow> slice (p @ m @ q) a b = Some m"
  by (auto simp: slice_def)

lemma slice_length: "slice bs a b = Some m \<Longrightarrow> length m = b - a"
  by (auto simp: slice_def split: if_splits)

lemma slice_append: "slice p a b = Some m \<Longrightarrow> slice (p @ q) a b = Some m"
  by (auto simp: slice_def split: if_splits)

lemma slice_prepend: "slice q a b = Some m \<Longrightarrow> slice (p @ q) (length p + a) (length p + b) = Some m"
  by (auto simp: slice_def split: if_splits)

definition read_le :: "nat \<Rightarrow> bytes \<Rightarrow> nat \<Rightarrow> nat option" where
  "read_le k bs a = map_option get_le (slice bs a (a + k))"

section \<open>The contract of an integer width\<close>

locale fixed_codec =
  fixes width :: nat
    and put :: "'a \<Rightarrow> bytes"
    and get :: "nat \<Rightarrow> 'a"
    and valid :: "'a \<Rightarrow> bool"
  assumes put_width: "length (put x) = width"
    and get_put: "valid x \<Longrightarrow> get (get_le (put x)) = x"
begin

lemma read_mid:
  "valid x \<Longrightarrow> length p = a \<Longrightarrow> map_option get (read_le width (p @ put x @ q) a) = Some x"
  using slice_mid [of p a "put x" "a + width" q] by (simp add: read_le_def put_width get_put)

lemma read_array:
  assumes "\<forall>x \<in> set xs. valid x" and "i < length xs" and "length p = a"
  shows "map_option get (read_le width (p @ concat (map put xs) @ q) (a + i * width)) = Some (xs ! i)"
proof -
  have "xs = take i xs @ xs ! i # drop (Suc i) xs" using assms(2) by (rule id_take_nth_drop)
  then have split: "p @ concat (map put xs) @ q =
      (p @ concat (map put (take i xs))) @ put (xs ! i) @ (concat (map put (drop (Suc i) xs)) @ q)"
    by (metis append.assoc concat.simps(2) concat_append list.simps(9) map_append)
  have "length (concat (map put ys)) = length ys * width" for ys
    by (induction ys) (simp_all add: put_width)
  then have "length (p @ concat (map put (take i xs))) = a + i * width"
    using assms(2,3) by simp
  with read_mid [of "xs ! i" "p @ concat (map put (take i xs))" "a + i * width"] show ?thesis
    using assms(1,2) unfolding split by simp
qed

lemma array_length: "length (concat (map put xs)) = length xs * width"
  by (induction xs) (simp_all add: put_width)

end

definition put_u16 :: "nat \<Rightarrow> bytes" where
  "put_u16 n = put_le 2 n"

definition put_u32 :: "nat \<Rightarrow> bytes" where
  "put_u32 n = put_le 4 n"

definition put_u64 :: "u64 \<Rightarrow> bytes" where
  "put_u64 w = put_le 8 (unat w)"

interpretation le16: fixed_codec 2 put_u16 "\<lambda>n. n" "\<lambda>n. n < 2 ^ 16"
  by unfold_locales (simp_all add: put_u16_def get_put_le)

interpretation le32: fixed_codec 4 put_u32 "\<lambda>n. n" "\<lambda>n. n < 2 ^ 32"
  by unfold_locales (simp_all add: put_u32_def get_put_le)

lemma unat_less_64: "unat w < 256 ^ 8" for w :: u64
  using unsigned_less [of w, where 'a = nat] by simp

interpretation le64: fixed_codec 8 put_u64 "word_of_nat :: nat \<Rightarrow> u64" "\<lambda>_. True"
  by unfold_locales (simp_all add: put_u64_def get_put_le [OF unat_less_64])

lemma read_u64_mid: "length p = a \<Longrightarrow> read_le 8 (p @ put_u64 w @ q) a = Some (unat w)"
  using slice_mid [of p a "put_u64 w" "a + 8" q]
  by (simp add: read_le_def le64.put_width) (simp add: put_u64_def get_put_le [OF unat_less_64])

end
