(* ===== verification/Bloom.thy ===== *)
theory Bloom
  imports ByteCodec
begin

text \<open>
  The Bloom filter of an SSTable, \<open>crates/contextra-store/src/sstable/bloom.rs\<close>.

  BLAKE3 is a third-party hash and a parameter. \<open>new\<close> computes the number of bits and of hash
  functions in floating point from the expected number of keys; the two results, before they are
  rounded and clamped, are parameters of \<open>bloom_new\<close>. The index expression \<open>bits[i]\<close> never leaves the
  vector for a filter that satisfies \<open>bloom_ok\<close>, which \<open>new\<close>, \<open>insert\<close> and \<open>from_bytes\<close> establish.
\<close>

datatype sst_error =
    Storage_error
  | Parse_error
  | Invalid_input
  | Checksum_mismatch
  | Memory_budget_exceeded
  | Internal_error

record bloom_filter =
  bl_bits :: "u64 list"
  bl_num_hashes :: nat
  bl_num_bits :: nat

definition MAX_BITS :: nat where
  "MAX_BITS = 128 * 1024 * 1024 * 8"

definition next_multiple_of :: "nat \<Rightarrow> nat \<Rightarrow> nat" where
  "next_multiple_of n k = (if n mod k = 0 then n else n + (k - n mod k))"

definition clamp :: "nat \<Rightarrow> nat \<Rightarrow> nat \<Rightarrow> nat" where
  "clamp n lo hi = (if n < lo then lo else if n > hi then hi else n)"

definition bloom_new :: "nat \<Rightarrow> nat \<Rightarrow> bloom_filter" where
  "bloom_new m hashes =
     (let num_bits = clamp (next_multiple_of m 64) 64 MAX_BITS
      in \<lparr>bl_bits = replicate (num_bits div 64) 0, bl_num_hashes = clamp hashes 1 16, bl_num_bits = num_bits\<rparr>)"

definition hash_pair :: "(bytes \<Rightarrow> bytes) \<Rightarrow> bytes \<Rightarrow> u64 \<times> u64" where
  "hash_pair blake3 key =
     (let b = blake3 key in (word_of_nat (get_le (take 8 b)), word_of_nat (get_le (take 8 (drop 8 b))) OR 1))"

definition bit_idx :: "u64 \<times> u64 \<Rightarrow> nat \<Rightarrow> nat \<Rightarrow> nat" where
  "bit_idx h num_bits i = unat (fst h + of_nat i * snd h) mod num_bits"

definition set_bit_at :: "nat \<Rightarrow> u64 list \<Rightarrow> u64 list" where
  "set_bit_at j bits = bits[j div 64 := bits ! (j div 64) OR push_bit (j mod 64) 1]"

definition bit_at :: "u64 list \<Rightarrow> nat \<Rightarrow> bool" where
  "bit_at bits j \<longleftrightarrow> bits ! (j div 64) AND push_bit (j mod 64) 1 \<noteq> 0"

definition bloom_insert :: "(bytes \<Rightarrow> bytes) \<Rightarrow> bloom_filter \<Rightarrow> bytes \<Rightarrow> bloom_filter" where
  "bloom_insert blake3 bl key =
     (let h = hash_pair blake3 key
      in bl\<lparr>bl_bits := foldl (\<lambda>bits i. set_bit_at (bit_idx h (bl_num_bits bl) i) bits)
                        (bl_bits bl) [0..<bl_num_hashes bl]\<rparr>)"

definition may_contain :: "(bytes \<Rightarrow> bytes) \<Rightarrow> bloom_filter \<Rightarrow> bytes \<Rightarrow> bool" where
  "may_contain blake3 bl key =
     (if bl_num_bits bl = 0 then True
      else (let h = hash_pair blake3 key
            in \<forall>i \<in> set [0..<bl_num_hashes bl]. bit_at (bl_bits bl) (bit_idx h (bl_num_bits bl) i)))"

definition to_bytes :: "bloom_filter \<Rightarrow> bytes" where
  "to_bytes bl =
     put_u64 (of_nat (bl_num_hashes bl)) @ put_u64 (of_nat (bl_num_bits bl)) @ concat (map put_u64 (bl_bits bl))"

definition from_bytes :: "bytes \<Rightarrow> sst_error + bloom_filter" where
  "from_bytes data =
     (if length data < 16 then Inl Storage_error
      else let num_hashes = get_le (take 8 data); num_bits = get_le (take 8 (drop 8 data))
           in if num_hashes = 0 \<or> num_hashes > 64 then Inl Storage_error
              else if num_bits > 128 * 1024 * 1024 * 8 then Inl Storage_error
              else let required_words = (num_bits + 63) div 64;
                       required_bytes = 16 + required_words * 8
                   in if length data < required_bytes then Inl Storage_error
                      else Inr \<lparr>bl_bits = map (\<lambda>i. word_of_nat (get_le (take 8 (drop (16 + 8 * i) data))))
                                            [0..<required_words],
                                bl_num_hashes = num_hashes, bl_num_bits = num_bits\<rparr>)"

section \<open>Bits\<close>

lemma bit_at_iff: "bit_at bits j \<longleftrightarrow> bit (bits ! (j div 64)) (j mod 64)"
proof -
  have "w AND push_bit n 1 \<noteq> 0 \<longleftrightarrow> bit w n" if "n < 64" for w :: u64 and n
  proof -
    have "w AND push_bit n 1 = (if bit w n then push_bit n 1 else 0)"
      by (rule bit_word_eqI) (auto simp: bit_simps)
    moreover have "bit (push_bit n 1 :: u64) n" using that by (simp add: bit_simps)
    then have "push_bit n 1 \<noteq> (0 :: u64)" by (metis bit_0_eq bot_apply bot_bool_def)
    ultimately show ?thesis by simp
  qed
  then show ?thesis by (simp add: bit_at_def)
qed

lemma bit_at_set:
  assumes "j div 64 < length bits"
  shows "bit_at (set_bit_at j bits) i \<longleftrightarrow> i = j \<or> bit_at bits i"
proof (cases "i div 64 = j div 64")
  case False
  then show ?thesis by (auto simp: bit_at_iff set_bit_at_def)
next
  case True
  then have "i = j \<longleftrightarrow> i mod 64 = j mod 64" by (metis div_mod_decomp)
  with True assms show ?thesis
    by (auto simp: bit_at_iff set_bit_at_def bit_simps)
qed

lemma length_set_bit_at [simp]: "length (set_bit_at j bits) = length bits"
  by (simp add: set_bit_at_def)

text \<open>The contract of a bit vector: setting one bit changes no other one and keeps the size. Both
  vectors of the file format, of 64-bit words and of bytes, satisfy it.\<close>

locale bit_vector =
  fixes set_op :: "nat \<Rightarrow> 'b \<Rightarrow> 'b"
    and test :: "'b \<Rightarrow> nat \<Rightarrow> bool"
    and cap :: "'b \<Rightarrow> nat"
  assumes test_set: "j < cap b \<Longrightarrow> test (set_op j b) i \<longleftrightarrow> i = j \<or> test b i"
    and cap_set: "cap (set_op j b) = cap b"
begin

lemma fold_set:
  assumes "\<And>i. i \<in> set js \<Longrightarrow> f i < cap b"
  shows "cap (foldl (\<lambda>b i. set_op (f i) b) b js) = cap b"
    and "test (foldl (\<lambda>b i. set_op (f i) b) b js) j \<longleftrightarrow> j \<in> f ` set js \<or> test b j"
proof -
  have "cap (foldl (\<lambda>b i. set_op (f i) b) b js) = cap b \<and>
    (test (foldl (\<lambda>b i. set_op (f i) b) b js) j \<longleftrightarrow> j \<in> f ` set js \<or> test b j)"
    using assms
  proof (induction js arbitrary: b)
    case Nil
    then show ?case by simp
  next
    case (Cons i js)
    then have "cap (set_op (f i) b) = cap b" "f i < cap b" by (simp_all add: cap_set)
    moreover from this Cons.IH [of "set_op (f i) b"] Cons.prems
    have "cap (foldl (\<lambda>b i. set_op (f i) b) (set_op (f i) b) js) = cap b \<and>
        (test (foldl (\<lambda>b i. set_op (f i) b) (set_op (f i) b) js) j \<longleftrightarrow> j \<in> f ` set js \<or> test (set_op (f i) b) j)"
      by simp
    ultimately show ?case by (auto simp: test_set)
  qed
  then show "cap (foldl (\<lambda>b i. set_op (f i) b) b js) = cap b"
    and "test (foldl (\<lambda>b i. set_op (f i) b) b js) j \<longleftrightarrow> j \<in> f ` set js \<or> test b j" by blast+
qed

lemma fold_keys:
  assumes "\<And>k i. k \<in> set ks \<Longrightarrow> i \<in> set js \<Longrightarrow> f k i < cap b"
  shows "cap (foldl (\<lambda>b k. foldl (\<lambda>b i. set_op (f k i) b) b js) b ks) = cap b"
    and "test (foldl (\<lambda>b k. foldl (\<lambda>b i. set_op (f k i) b) b js) b ks) j \<longleftrightarrow>
      (\<exists>k \<in> set ks. j \<in> f k ` set js) \<or> test b j"
proof -
  let ?F = "\<lambda>b ks. foldl (\<lambda>b k. foldl (\<lambda>b i. set_op (f k i) b) b js) b ks"
  have "cap (?F b ks) = cap b \<and> (test (?F b ks) j \<longleftrightarrow> (\<exists>k \<in> set ks. j \<in> f k ` set js) \<or> test b j)"
    using assms
  proof (induction ks arbitrary: b)
    case Nil
    then show ?case by simp
  next
    case (Cons k ks)
    let ?b = "foldl (\<lambda>b i. set_op (f k i) b) b js"
    have k: "\<And>i. i \<in> set js \<Longrightarrow> f k i < cap b" using Cons.prems by simp
    have "cap (?F ?b ks) = cap ?b \<and> (test (?F ?b ks) j \<longleftrightarrow> (\<exists>k \<in> set ks. j \<in> f k ` set js) \<or> test ?b j)"
    proof (rule Cons.IH)
      have "cap ?b = cap b" by (rule fold_set(1)) (rule k)
      then show "\<And>k i. k \<in> set ks \<Longrightarrow> i \<in> set js \<Longrightarrow> f k i < cap ?b" using Cons.prems by simp
    qed
    moreover have "cap ?b = cap b" by (rule fold_set(1)) (rule k)
    moreover have "test ?b j \<longleftrightarrow> j \<in> f k ` set js \<or> test b j" by (rule fold_set(2)) (rule k)
    ultimately show ?case by (simp add: disj_ac)
  qed
  then show "cap (?F b ks) = cap b"
    and "test (?F b ks) j \<longleftrightarrow> (\<exists>k \<in> set ks. j \<in> f k ` set js) \<or> test b j" by blast+
qed

end

interpretation word_bits: bit_vector set_bit_at bit_at "\<lambda>bits. length bits * 64"
  by unfold_locales (simp_all add: bit_at_set less_mult_imp_div_less)

section \<open>Well-formed filters\<close>

definition bloom_ok :: "bloom_filter \<Rightarrow> bool" where
  "bloom_ok bl \<longleftrightarrow> length (bl_bits bl) * 64 = bl_num_bits bl \<and> 64 \<le> bl_num_bits bl \<and> bl_num_bits bl \<le> MAX_BITS \<and>
     1 \<le> bl_num_hashes bl \<and> bl_num_hashes bl \<le> 16"

lemma bloom_ok_new: "bloom_ok (bloom_new m hashes)"
proof -
  have "next_multiple_of m 64 mod 64 = 0"
    unfolding next_multiple_of_def by presburger
  then have "clamp (next_multiple_of m 64) 64 MAX_BITS mod 64 = 0" by (simp add: clamp_def MAX_BITS_def)
  then have "clamp (next_multiple_of m 64) 64 MAX_BITS div 64 * 64 = clamp (next_multiple_of m 64) 64 MAX_BITS"
    by (simp add: mod_0_imp_dvd)
  moreover have "64 \<le> clamp (next_multiple_of m 64) 64 MAX_BITS" "clamp (next_multiple_of m 64) 64 MAX_BITS \<le> MAX_BITS"
    by (auto simp: clamp_def MAX_BITS_def)
  moreover have "1 \<le> clamp hashes 1 16" "clamp hashes 1 16 \<le> 16" by (auto simp: clamp_def)
  ultimately show ?thesis by (simp add: bloom_ok_def bloom_new_def Let_def)
qed

lemma bit_idx_bound:
  assumes "bloom_ok bl"
  shows "bit_idx h (bl_num_bits bl) i < length (bl_bits bl) * 64"
  using assms by (simp add: bit_idx_def bloom_ok_def)

lemma bloom_insert_bits:
  assumes "bloom_ok bl"
  shows "length (bl_bits (bloom_insert blake3 bl key)) = length (bl_bits bl) \<and>
    (bit_at (bl_bits (bloom_insert blake3 bl key)) j \<longleftrightarrow>
      j \<in> bit_idx (hash_pair blake3 key) (bl_num_bits bl) ` {0..<bl_num_hashes bl} \<or> bit_at (bl_bits bl) j)"
  using word_bits.fold_set [where js = "[0..<bl_num_hashes bl]" and b = "bl_bits bl"
      and f = "bit_idx (hash_pair blake3 key) (bl_num_bits bl)", OF bit_idx_bound [OF assms]]
  by (simp add: bloom_insert_def Let_def)

lemma bloom_ok_insert: "bloom_ok bl \<Longrightarrow> bloom_ok (bloom_insert blake3 bl key)"
  using bloom_insert_bits [of bl blake3 key] by (simp add: bloom_ok_def bloom_insert_def Let_def)

lemma bloom_insert_sizes [simp]:
  "bl_num_bits (bloom_insert blake3 bl key) = bl_num_bits bl"
  "bl_num_hashes (bloom_insert blake3 bl key) = bl_num_hashes bl"
  by (simp_all add: bloom_insert_def Let_def)

lemma may_contain_insert:
  assumes "bloom_ok bl" and "k = key \<or> may_contain blake3 bl k"
  shows "may_contain blake3 (bloom_insert blake3 bl key) k"
  using assms(2) bloom_insert_bits [OF assms(1)]
  by (auto simp: may_contain_def Let_def)

lemma bloom_ok_fold: "bloom_ok bl \<Longrightarrow> bloom_ok (foldl (bloom_insert blake3) bl ks)"
  by (induction ks arbitrary: bl) (simp_all add: bloom_ok_insert)

lemma may_contain_fold:
  "bloom_ok bl \<Longrightarrow> k \<in> set ks \<or> may_contain blake3 bl k \<Longrightarrow>
     may_contain blake3 (foldl (bloom_insert blake3) bl ks) k"
proof (induction ks arbitrary: bl)
  case Nil
  then show ?case by simp
next
  case (Cons key ks)
  then have "k \<in> set ks \<or> may_contain blake3 (bloom_insert blake3 bl key) k"
    by (auto intro: may_contain_insert)
  with Cons.IH [OF bloom_ok_insert [OF Cons.prems(1)]] show ?case by simp
qed

section \<open>Serialization\<close>

lemma from_to_bytes:
  assumes "bloom_ok bl"
  shows "from_bytes (to_bytes bl) = Inr bl"
proof -
  let ?k = "of_nat (bl_num_hashes bl) :: u64" and ?n = "of_nat (bl_num_bits bl) :: u64"
  let ?ws = "concat (map put_u64 (bl_bits bl))"
  have small: "bl_num_hashes bl < 2 ^ 64" "bl_num_bits bl < 2 ^ 64"
    using assms by (simp_all add: bloom_ok_def MAX_BITS_def)
  have len: "length (put_u64 w) = 8" for w by (rule le64.put_width)
  have head: "get_le (take 8 (to_bytes bl)) = bl_num_hashes bl" "get_le (take 8 (drop 8 (to_bytes bl))) = bl_num_bits bl"
    using small by (simp_all add: to_bytes_def len) (simp_all add: put_u64_def get_put_le unat_of_nat)
  have total_length: "length (to_bytes bl) = 16 + 8 * length (bl_bits bl)"
    by (simp add: to_bytes_def len le64.array_length)
  have words: "(bl_num_bits bl + 63) div 64 = length (bl_bits bl)" using assms by (simp add: bloom_ok_def) linarith
  have word: "word_of_nat (get_le (take 8 (drop (16 + 8 * i) (to_bytes bl)))) = bl_bits bl ! i"
    if "i < length (bl_bits bl)" for i
  proof -
    have eq: "to_bytes bl = (put_u64 ?k @ put_u64 ?n) @ ?ws @ []" by (simp add: to_bytes_def)
    have "map_option word_of_nat (read_le 8 (to_bytes bl) (16 + i * 8)) = Some (bl_bits bl ! i)"
      unfolding eq using that by (intro le64.read_array) (simp_all add: len)
    then show ?thesis by (auto simp: read_le_def slice_def mult.commute split: if_splits)
  qed
  have "map (\<lambda>i. word_of_nat (get_le (take 8 (drop (16 + 8 * i) (to_bytes bl))))) [0..<length (bl_bits bl)] =
      bl_bits bl"
    by (rule nth_equalityI) (simp_all add: word)
  with assms show ?thesis
    by (simp add: from_bytes_def Let_def head words total_length bloom_ok_def MAX_BITS_def)
qed

text \<open>No false negatives, on disk either. A filter of any size and any number of hash functions
  into which keys were inserted is read back from its serialization unchanged, and it reports
  every one of these keys, whatever the hash function is.\<close>

theorem bloom_no_false_negatives:
  "\<exists>bl. from_bytes (to_bytes (foldl (bloom_insert blake3) (bloom_new m hashes) ks)) = Inr bl \<and>
     (\<forall>k \<in> set ks. may_contain blake3 bl k)"
  using from_to_bytes [OF bloom_ok_fold [OF bloom_ok_new]] may_contain_fold [OF bloom_ok_new] by blast

theorem bloom_no_false_negatives_witness:
  "\<exists>bl. from_bytes (to_bytes (foldl (bloom_insert (\<lambda>k. k @ replicate 32 0)) (bloom_new 100 7) [[1], [2, 3]])) = Inr bl \<and>
     may_contain (\<lambda>k. k @ replicate 32 0) bl [2, 3]"
  using bloom_no_false_negatives [of "\<lambda>k. k @ replicate 32 0" 100 7 "[[1], [2, 3]]"] by auto

end
