(* ===== verification/Block.thy ===== *)
theory Block
  imports Bloom "HOL-Library.Monad_Syntax"
begin

text \<open>
  Data blocks of an SSTable: the writer (\<open>BlockBuilder\<close> in \<open>sstable/builder.rs\<close>), the trailer, the
  filter and the entries as the readers decode them (\<open>sstable/reader.rs\<close>, \<open>sstable/stream.rs\<close>), and
  the binary searches (\<open>sstable/block_search.rs\<close>).

  Every error of these functions is \<open>ContextraError::Storage\<close>, which is \<open>None\<close> here. BLAKE3 is a
  parameter. \<open>is_v3\<close> is \<open>format_version >= 3\<close>, as the callers compute it.
\<close>

type_synonym entry = "bytes \<times> bytes \<times> u64 \<times> u64"

section \<open>Writing a block\<close>

record block_builder =
  bb_data :: bytes
  bb_offsets :: "nat list"
  bb_block_size :: nat
  bb_key_hashes :: "(u64 \<times> u64) list"
  bb_v3_bloom :: "u64 list"
  bb_version :: nat

definition new_with_version :: "nat \<Rightarrow> nat \<Rightarrow> block_builder" where
  "new_with_version block_size format_version =
     \<lparr>bb_data = [], bb_offsets = [], bb_block_size = clamp block_size 512 (64 * 1024), bb_key_hashes = [],
      bb_v3_bloom = replicate 4 0, bb_version = format_version\<rparr>"

definition byte_or_zero :: "bytes \<Rightarrow> nat \<Rightarrow> u8" where
  "byte_or_zero bs i = (if i < length bs then bs ! i else 0)"

text \<open>The 16-bit chunk \<open>i\<close> of a digest.\<close>

definition chunk16 :: "bytes \<Rightarrow> nat \<Rightarrow> nat" where
  "chunk16 digest i = get_le [byte_or_zero digest (i * 2), byte_or_zero digest (i * 2 + 1)]"

definition update_bloom :: "(bytes \<Rightarrow> bytes) \<Rightarrow> block_builder \<Rightarrow> bytes \<Rightarrow> block_builder" where
  "update_bloom blake3 bb key =
     (if bb_version bb \<ge> 4 then bb\<lparr>bb_key_hashes := bb_key_hashes bb @ [hash_pair blake3 key]\<rparr>
      else bb\<lparr>bb_v3_bloom := foldl (\<lambda>bits i. set_bit_at (chunk16 (blake3 key) i mod 256) bits)
                             (bb_v3_bloom bb) [0..<8]\<rparr>)"

definition bb_add ::
  "(bytes \<Rightarrow> bytes) \<Rightarrow> block_builder \<Rightarrow> bytes \<Rightarrow> bytes \<Rightarrow> u64 \<Rightarrow> u64 \<Rightarrow> block_builder \<times> bool" where
  "bb_add blake3 bb key val seq_no tx_id =
     (let projected_n = length (bb_offsets bb) + 1;
          projected_total_len =
            (if bb_version bb \<ge> 4
             then length (bb_data bb) + length key + length val + 22 +
                  next_multiple_of (projected_n * 10) 64 div 8 + projected_n * 4 + 8
             else length (bb_data bb) + length key + length val + 22 + 32 + projected_n * 4 + 4)
      in if bb_data bb \<noteq> [] \<and> projected_total_len > bb_block_size bb then (bb, False)
         else if length key \<ge> 2 ^ 16 then (bb, False)
         else if length val \<ge> 2 ^ 32 then (bb, False)
         else if length (bb_data bb) \<ge> 2 ^ 32 then (bb, False)
         else ((update_bloom blake3 bb key)
                 \<lparr>bb_offsets := bb_offsets bb @ [length (bb_data bb)],
                  bb_data := bb_data bb @ put_u16 (length key) @ key @ put_u64 seq_no @ put_u64 tx_id @
                             put_u32 (length val) @ val\<rparr>, True))"

definition current_size :: "block_builder \<Rightarrow> nat" where
  "current_size bb =
     (let n = length (bb_offsets bb)
      in if bb_version bb \<ge> 4
         then length (bb_data bb) + (if n = 0 then 64 else next_multiple_of (n * 10) 64) div 8 + n * 4 + 8
         else length (bb_data bb) + 32 + n * 4 + 4)"

definition bb_is_empty :: "block_builder \<Rightarrow> bool" where
  "bb_is_empty bb \<longleftrightarrow> bb_offsets bb = []"

definition set_bit8 :: "nat \<Rightarrow> bytes \<Rightarrow> bytes" where
  "set_bit8 j bits = bits[j div 8 := bits ! (j div 8) OR push_bit (j mod 8) 1]"

text \<open>\<open>u32::try_from(n).unwrap_or(u32::MAX)\<close>\<close>

definition clamp_u32 :: "nat \<Rightarrow> nat" where
  "clamp_u32 n = (if n < 2 ^ 32 then n else 2 ^ 32 - 1)"

definition block_bloom :: "nat \<Rightarrow> (u64 \<times> u64) list \<Rightarrow> bytes" where
  "block_bloom num_bits key_hashes =
     foldl (\<lambda>bloom h. foldl (\<lambda>bloom i. set_bit8 (bit_idx h num_bits i) bloom) bloom [0..<7])
       (replicate (num_bits div 8) 0) key_hashes"

definition build :: "block_builder \<Rightarrow> bytes" where
  "build bb =
     (let n = length (bb_offsets bb)
      in if bb_version bb \<ge> 4
         then (let num_bits = (if n = 0 then 64 else next_multiple_of (n * 10) 64);
                   bloom_len = num_bits div 8
               in bb_data bb @ block_bloom num_bits (bb_key_hashes bb) @ concat (map put_u32 (bb_offsets bb)) @
                  put_u32 (clamp_u32 bloom_len) @ put_u32 (clamp_u32 n))
         else bb_data bb @ concat (map put_u64 (bb_v3_bloom bb)) @ concat (map put_u32 (bb_offsets bb)) @
              put_u32 (clamp_u32 n))"

section \<open>Reading a block\<close>

definition parse_block_trailer :: "bytes \<Rightarrow> nat \<Rightarrow> (nat \<times> nat \<times> bytes) option" where
  "parse_block_trailer blk format_version =
     (let n = length blk
      in if format_version \<ge> 4
         then if n < 8 then None
              else do {
                num_offsets \<leftarrow> read_le 4 blk (n - 4);
                bloom_len \<leftarrow> read_le 4 blk (n - 8);
                (let offsets_len = num_offsets * 4;
                     offsets_start = n - 8 - offsets_len;
                     bloom_start = offsets_start - bloom_len
                 in if n < 8 + offsets_len + bloom_len then None
                    else do {
                      bloom \<leftarrow> slice blk bloom_start offsets_start;
                      Some (num_offsets, offsets_start, bloom)})}
         else if format_version = 3
         then if n < 36 then None
              else do {
                num_offsets \<leftarrow> read_le 4 blk (n - 4);
                (let offsets_len = num_offsets * 4;
                     offsets_start = n - 4 - offsets_len;
                     bloom_start = offsets_start - 32
                 in if n < offsets_len + 36 then None
                    else do {
                      bloom \<leftarrow> slice blk bloom_start offsets_start;
                      Some (num_offsets, offsets_start, bloom)})}
         else if n < 10 then None
              else do {
                num_offsets \<leftarrow> read_le 2 blk (n - 2);
                (let offsets_len = num_offsets * 2;
                     offsets_start = n - 2 - offsets_len;
                     bloom_start = offsets_start - 8
                 in if n < offsets_len + 10 then None
                    else do {
                      bloom \<leftarrow> slice blk bloom_start offsets_start;
                      Some (num_offsets, offsets_start, bloom)})})"

definition bit8_at :: "bytes \<Rightarrow> nat \<Rightarrow> bool" where
  "bit8_at bits j \<longleftrightarrow> bits ! (j div 8) AND push_bit (j mod 8) 1 \<noteq> 0"

definition may_contain_key_in_block_bloom :: "(bytes \<Rightarrow> bytes) \<Rightarrow> bytes \<Rightarrow> bytes \<Rightarrow> nat \<Rightarrow> bool" where
  "may_contain_key_in_block_bloom blake3 bloom key format_version =
     (if format_version \<ge> 4
      then (let m = length bloom * 8
            in if m = 0 then True
               else (let h = hash_pair blake3 key
                     in \<forall>i \<in> set [0..<7].
                          (let j = bit_idx h m i in j div 8 < length bloom \<and> bit8_at bloom j)))
      else if format_version = 3
      then if length bloom < 32 then False
           else (let bloom_words = map (\<lambda>w. word_of_nat (get_le (take 8 (drop (w * 8) bloom)))) [0..<4]
                 in \<forall>i \<in> set [0..<8]. bit_at bloom_words (chunk16 (blake3 key) i mod 256))
      else if length bloom < 8 then False
           else (let w = word_of_nat (get_le (take 8 bloom)) :: u64
                 in \<forall>i \<in> set [0..<4]. w AND push_bit (chunk16 (blake3 key) i mod 64) 1 \<noteq> 0))"

definition get_entry_at_index :: "bytes \<Rightarrow> nat \<Rightarrow> nat \<Rightarrow> bool \<Rightarrow> (nat \<times> nat) option" where
  "get_entry_at_index blk offsets_start idx is_v3 =
     do {
       entry_off \<leftarrow> (if is_v3 then read_le 4 blk (offsets_start + idx * 4)
                     else read_le 2 blk (offsets_start + idx * 2));
       k_len \<leftarrow> read_le 2 blk entry_off;
       Some (entry_off, k_len)}"

definition get_entry_key_at_index :: "bytes \<Rightarrow> nat \<Rightarrow> nat \<Rightarrow> bool \<Rightarrow> bytes option" where
  "get_entry_key_at_index blk offsets_start idx is_v3 =
     do {
       (entry_off, k_len) \<leftarrow> get_entry_at_index blk offsets_start idx is_v3;
       slice blk (entry_off + 2) (entry_off + 2 + k_len)}"

text \<open>The fields of the entry at an index, as \<open>SstableStream::next\<close>, \<open>get_at\<close> and \<open>iter\<close> read them.\<close>

definition read_entry :: "bytes \<Rightarrow> nat \<Rightarrow> nat \<Rightarrow> bool \<Rightarrow> entry option" where
  "read_entry blk offsets_start idx is_v3 =
     do {
       (entry_off, k_len) \<leftarrow> get_entry_at_index blk offsets_start idx is_v3;
       key \<leftarrow> slice blk (entry_off + 2) (entry_off + 2 + k_len);
       seq_no \<leftarrow> read_le 8 blk (entry_off + 2 + k_len);
       tx_id \<leftarrow> read_le 8 blk (entry_off + 2 + k_len + 8);
       v_len \<leftarrow> read_le 4 blk (entry_off + 2 + k_len + 16);
       (let ep_val = entry_off + 2 + k_len + 20
        in if ep_val + v_len > length blk then None
           else Some (key, take v_len (drop ep_val blk), word_of_nat seq_no, word_of_nat tx_id))}"

section \<open>Searching a block\<close>

function search_loop :: "(nat \<Rightarrow> bytes option) \<Rightarrow> bytes \<Rightarrow> nat \<Rightarrow> nat \<Rightarrow> nat option" where
  "search_loop key_at key low high =
     (if low < high
      then (let mid = low + (high - low) div 2
            in case key_at mid of
                 None \<Rightarrow> None
               | Some entry_key \<Rightarrow>
                   if entry_key < key then search_loop key_at key (mid + 1) high
                   else search_loop key_at key low mid)
      else Some low)"
  by auto
termination
  by (relation "measure (\<lambda>(key_at, key, low, high). high - low)") auto

declare search_loop.simps [simp del]

definition binary_search_first_index_in_block ::
  "bytes \<Rightarrow> nat \<Rightarrow> nat \<Rightarrow> bytes \<Rightarrow> bool \<Rightarrow> nat option option" where
  "binary_search_first_index_in_block blk offsets_start num_offsets key is_v3 =
     (if num_offsets = 0 then Some None
      else do {
        low \<leftarrow> search_loop (\<lambda>i. get_entry_key_at_index blk offsets_start i is_v3) key 0 num_offsets;
        if low < num_offsets
        then do {
          entry_key \<leftarrow> get_entry_key_at_index blk offsets_start low is_v3;
          if entry_key = key then Some (Some low) else Some None}
        else Some None})"

text \<open>\<open>while first > 0 { .. first -= 1 .. }\<close>\<close>

fun rewind :: "(nat \<Rightarrow> bytes option) \<Rightarrow> bytes \<Rightarrow> nat \<Rightarrow> nat option" where
  "rewind key_at key 0 = Some 0"
| "rewind key_at key (Suc n) =
     (case key_at n of
        None \<Rightarrow> None
      | Some prev_key \<Rightarrow> if prev_key = key then rewind key_at key n else Some (Suc n))"

function index_loop :: "(nat \<Rightarrow> bytes option) \<Rightarrow> bytes \<Rightarrow> nat \<Rightarrow> nat \<Rightarrow> (nat + nat) option" where
  "index_loop key_at key low high =
     (if low < high
      then (let mid = low + (high - low) div 2
            in case key_at mid of
                 None \<Rightarrow> None
               | Some entry_key \<Rightarrow>
                   if entry_key < key then index_loop key_at key (mid + 1) high
                   else if entry_key > key then index_loop key_at key low mid
                   else map_option Inl (rewind key_at key mid))
      else Some (Inr low))"
  by auto
termination
  by (relation "measure (\<lambda>(key_at, key, low, high). high - low)") auto

declare index_loop.simps [simp del]

text \<open>\<open>Inl i\<close> for \<open>Ok(i)\<close>, \<open>Inr i\<close> for \<open>Err(i)\<close>.\<close>

definition binary_search_index_in_block ::
  "bytes \<Rightarrow> nat \<Rightarrow> nat \<Rightarrow> bytes \<Rightarrow> bool \<Rightarrow> (nat + nat) option" where
  "binary_search_index_in_block blk offsets_start num_offsets key is_v3 =
     (if num_offsets = 0 then Some (Inr 0)
      else index_loop (\<lambda>i. get_entry_key_at_index blk offsets_start i is_v3) key 0 num_offsets)"

definition binary_search_entry_in_block ::
  "bytes \<Rightarrow> nat \<Rightarrow> nat \<Rightarrow> bytes \<Rightarrow> bool \<Rightarrow> (nat \<times> nat) option option" where
  "binary_search_entry_in_block blk offsets_start num_offsets key is_v3 =
     do {
       found \<leftarrow> binary_search_first_index_in_block blk offsets_start num_offsets key is_v3;
       case found of
         Some idx \<Rightarrow> map_option Some (get_entry_at_index blk offsets_start idx is_v3)
       | None \<Rightarrow> Some None}"

definition block_binary_search :: "bytes \<Rightarrow> nat \<Rightarrow> nat \<Rightarrow> bytes \<Rightarrow> bool \<Rightarrow> nat option option" where
  "block_binary_search blk offsets_start num_offsets key is_v3 =
     do {
       found \<leftarrow> binary_search_first_index_in_block blk offsets_start num_offsets key is_v3;
       case found of
         Some idx \<Rightarrow> map_option (\<lambda>e. Some (fst e)) (get_entry_at_index blk offsets_start idx is_v3)
       | None \<Rightarrow> Some None}"

end
