(* ===== verification/BlockCorrect.thy ===== *)
theory BlockCorrect
  imports Block
begin

text \<open>
  A block gives back what was written: after any sequence of accepted entries the trailer, every
  entry, the filter and the searches of the built block are those of the list of entries.
\<close>

section \<open>What the builder holds\<close>

fun enc_entry :: "entry \<Rightarrow> bytes" where
  "enc_entry (k, v, s, t) = put_u16 (length k) @ k @ put_u64 s @ put_u64 t @ put_u32 (length v) @ v"

definition entry_start :: "entry list \<Rightarrow> nat \<Rightarrow> nat" where
  "entry_start es i = length (concat (map enc_entry (take i es)))"

definition v3_bits :: "(bytes \<Rightarrow> bytes) \<Rightarrow> u64 list \<Rightarrow> bytes \<Rightarrow> u64 list" where
  "v3_bits blake3 bits key = foldl (\<lambda>bits i. set_bit_at (chunk16 (blake3 key) i mod 256) bits) bits [0..<8]"

definition bb_ok :: "(bytes \<Rightarrow> bytes) \<Rightarrow> entry list \<Rightarrow> block_builder \<Rightarrow> bool" where
  "bb_ok blake3 es bb \<longleftrightarrow>
     bb_data bb = concat (map enc_entry es) \<and>
     bb_offsets bb = map (entry_start es) [0..<length es] \<and>
     (\<forall>(k, v, s, t) \<in> set es. length k < 2 ^ 16 \<and> length v < 2 ^ 32) \<and>
     (\<forall>off \<in> set (bb_offsets bb). off < 2 ^ 32) \<and>
     (if bb_version bb \<ge> 4 then bb_key_hashes bb = map (\<lambda>e. hash_pair blake3 (fst e)) es
      else bb_v3_bloom bb = foldl (v3_bits blake3) (replicate 4 0) (map fst es))"

lemma bb_ok_new: "bb_ok blake3 [] (new_with_version sz v)"
  by (simp add: bb_ok_def new_with_version_def)

lemma entry_start_append: "i \<le> length es \<Longrightarrow> entry_start (es @ es') i = entry_start es i"
  by (simp add: entry_start_def)

lemma bb_add_ok:
  assumes "bb_ok blake3 es bb" and "bb_add blake3 bb k v s t = (bb', True)"
  shows "bb_ok blake3 (es @ [(k, v, s, t)]) bb'" and "bb_version bb' = bb_version bb"
    and "bb_block_size bb' = bb_block_size bb"
proof -
  from assms(2) have lens: "length k < 2 ^ 16" "length v < 2 ^ 32" "length (bb_data bb) < 2 ^ 32"
    and bb': "bb' = (update_bloom blake3 bb k)
                 \<lparr>bb_offsets := bb_offsets bb @ [length (bb_data bb)],
                  bb_data := bb_data bb @ enc_entry (k, v, s, t)\<rparr>"
    by (auto simp: bb_add_def Let_def split: if_splits)
  show v: "bb_version bb' = bb_version bb" "bb_block_size bb' = bb_block_size bb"
    by (simp_all add: bb' update_bloom_def)
  have starts: "map (entry_start (es @ [(k, v, s, t)])) [0..<length (es @ [(k, v, s, t)])] =
      map (entry_start es) [0..<length es] @ [length (concat (map enc_entry es))]"
    by (simp add: entry_start_append cong: map_cong) (simp add: entry_start_def)
  show "bb_ok blake3 (es @ [(k, v, s, t)]) bb'"
    using assms(1) lens unfolding bb_ok_def starts v
    by (auto simp: bb' update_bloom_def v3_bits_def)
qed

lemma enc_entry_length: "length (enc_entry (k, v, s, t)) = length k + length v + 22"
  by (simp add: le16.put_width le64.put_width le32.put_width)

lemma entries_length: "22 * length es \<le> length (concat (map enc_entry es))"
proof (induction es)
  case Nil
  then show ?case by simp
next
  case (Cons e es)
  obtain k v s t where "e = (k, v, s, t)" by (cases e) blast
  with Cons enc_entry_length [of k v s t] show ?case by (simp del: enc_entry.simps)
qed

lemma bb_ok_count:
  assumes "bb_ok blake3 es bb"
  shows "length es * 22 < 2 ^ 32 + 22"
proof (cases "es = []")
  case False
  then have "entry_start es (length es - 1) \<in> set (bb_offsets bb)"
    using assms by (cases es) (auto simp: bb_ok_def)
  then have "entry_start es (length es - 1) < 2 ^ 32" using assms unfolding bb_ok_def by blast
  moreover have "22 * (length es - 1) \<le> entry_start es (length es - 1)"
    using entries_length [of "take (length es - 1) es"] by (simp add: entry_start_def)
  ultimately show ?thesis by linarith
qed simp

section \<open>Reading entries\<close>

lemma read_array_entry:
  assumes "blk = p @ enc_entry (k, v, s, t) @ q" and "length p = off" and "length k < 2 ^ 16" and "length v < 2 ^ 32"
  shows "read_le 2 blk off = Some (length k)" and "slice blk (off + 2) (off + 2 + length k) = Some k"
    and "map_option word_of_nat (read_le 8 blk (off + 2 + length k)) = Some s"
    and "map_option word_of_nat (read_le 8 blk (off + 2 + length k + 8)) = Some t"
    and "read_le 4 blk (off + 2 + length k + 16) = Some (length v)"
    and "off + 2 + length k + 20 + length v \<le> length blk"
    and "take (length v) (drop (off + 2 + length k + 20) blk) = v"
proof -
  note w [simp] = le16.put_width le32.put_width le64.put_width
  show "read_le 2 blk off = Some (length k)"
    using le16.read_mid [of "length k" p off "k @ put_u64 s @ put_u64 t @ put_u32 (length v) @ v @ q"] assms
    by (simp add: option.map_ident)
  have "blk = (p @ put_u16 (length k)) @ k @ (put_u64 s @ put_u64 t @ put_u32 (length v) @ v @ q)"
    by (simp add: assms(1))
  then show "slice blk (off + 2) (off + 2 + length k) = Some k"
    using slice_mid [of "p @ put_u16 (length k)" "off + 2" k "off + 2 + length k"] assms(2) by simp
  have "blk = (p @ put_u16 (length k) @ k) @ put_u64 s @ (put_u64 t @ put_u32 (length v) @ v @ q)"
    by (simp add: assms(1))
  then show "map_option word_of_nat (read_le 8 blk (off + 2 + length k)) = Some s"
    using le64.read_mid [where x = s and p = "p @ put_u16 (length k) @ k" and a = "off + 2 + length k"] assms(2) by simp
  have "blk = (p @ put_u16 (length k) @ k @ put_u64 s) @ put_u64 t @ (put_u32 (length v) @ v @ q)"
    by (simp add: assms(1))
  then show "map_option word_of_nat (read_le 8 blk (off + 2 + length k + 8)) = Some t"
    using le64.read_mid [where x = t and p = "p @ put_u16 (length k) @ k @ put_u64 s" and a = "off + 2 + length k + 8"] assms(2) by simp
  have "blk = (p @ put_u16 (length k) @ k @ put_u64 s @ put_u64 t) @ put_u32 (length v) @ (v @ q)"
    by (simp add: assms(1))
  then show "read_le 4 blk (off + 2 + length k + 16) = Some (length v)"
    using le32.read_mid [of "length v" "p @ put_u16 (length k) @ k @ put_u64 s @ put_u64 t" "off + 2 + length k + 16" "v @ q"]
      assms(2,4)
    by (simp add: option.map_ident)
  have blk: "blk = (p @ put_u16 (length k) @ k @ put_u64 s @ put_u64 t @ put_u32 (length v)) @ v @ q"
    by (simp add: assms(1))
  have len: "length (p @ put_u16 (length k) @ k @ put_u64 s @ put_u64 t @ put_u32 (length v)) = off + 2 + length k + 20"
    using assms(2) by simp
  show "off + 2 + length k + 20 + length v \<le> length blk" using arg_cong [OF blk, of length] len by simp
  show "take (length v) (drop (off + 2 + length k + 20) blk) = v" unfolding blk len [symmetric] by simp
qed

definition block_bits :: "block_builder \<Rightarrow> bytes" where
  "block_bits bb =
     (if bb_version bb \<ge> 4
      then block_bloom (if bb_offsets bb = [] then 64 else next_multiple_of (length (bb_offsets bb) * 10) 64) (bb_key_hashes bb)
      else concat (map put_u64 (bb_v3_bloom bb)))"

definition block_tail :: "block_builder \<Rightarrow> bytes" where
  "block_tail bb = (if bb_version bb \<ge> 4 then put_u32 (clamp_u32 (length (block_bits bb))) else []) @
     put_u32 (clamp_u32 (length (bb_offsets bb)))"

lemma length_block_bloom [simp]: "length (block_bloom n hs) = n div 8"
proof -
  have inner: "length (foldl (\<lambda>bloom i. set_bit8 (f i) bloom) b is) = length b" for f b and "is" :: "nat list"
    by (induction "is" arbitrary: b) (simp_all add: set_bit8_def)
  have "length (foldl (\<lambda>bloom h. foldl (\<lambda>bloom i. set_bit8 (bit_idx h n i) bloom) bloom [0..<7]) b hs) = length b" for b
    by (induction hs arbitrary: b) (simp_all add: inner del: upt_rec_numeral)
  then show ?thesis by (simp add: block_bloom_def)
qed

lemma build_split:
  "build bb = bb_data bb @ block_bits bb @ concat (map put_u32 (bb_offsets bb)) @ block_tail bb"
  by (simp add: build_def block_bits_def block_tail_def Let_def)

definition offsets_at :: "block_builder \<Rightarrow> nat" where
  "offsets_at bb = length (bb_data bb) + length (block_bits bb)"

lemma offset_read:
  assumes "bb_ok blake3 es bb" and "i < length es"
  shows "read_le 4 (build bb) (offsets_at bb + i * 4) = Some (entry_start es i)"
proof -
  have blk: "build bb = (bb_data bb @ block_bits bb) @ concat (map put_u32 (bb_offsets bb)) @ block_tail bb"
    by (simp add: build_split)
  have nth: "bb_offsets bb ! i = entry_start es i" and len: "i < length (bb_offsets bb)"
    using assms by (simp_all add: bb_ok_def)
  have small: "\<forall>off \<in> set (bb_offsets bb). off < 2 ^ 32" using assms(1) unfolding bb_ok_def by blast
  have "length (bb_data bb @ block_bits bb) = offsets_at bb" by (simp add: offsets_at_def)
  from le32.read_array [OF small len this, of "block_tail bb"] show ?thesis
    unfolding blk [symmetric] nth option.map_ident .
qed

lemma entry_in_block:
  assumes "bb_ok blake3 es bb" and "i < length es"
  obtains q where "build bb = concat (map enc_entry (take i es)) @ enc_entry (es ! i) @ q"
proof -
  have "concat (map enc_entry (take i es @ es ! i # drop (Suc i) es)) =
      concat (map enc_entry (take i es)) @ enc_entry (es ! i) @ concat (map enc_entry (drop (Suc i) es))"
    by (simp only: map_append list.map concat_append concat.simps)
  then have "concat (map enc_entry es) =
      concat (map enc_entry (take i es)) @ enc_entry (es ! i) @ concat (map enc_entry (drop (Suc i) es))"
    unfolding id_take_nth_drop [OF assms(2), symmetric] .
  note entries = this
  have "bb_data bb = concat (map enc_entry es)" using assms(1) by (simp add: bb_ok_def)
  then have "build bb = concat (map enc_entry (take i es)) @ enc_entry (es ! i) @
      (concat (map enc_entry (drop (Suc i) es)) @ block_bits bb @ concat (map put_u32 (bb_offsets bb)) @ block_tail bb)"
    unfolding build_split entries by simp
  then show thesis by (rule that)
qed

lemma read_entry_build:
  assumes ok: "bb_ok blake3 es bb" and i: "i < length es"
  shows "get_entry_key_at_index (build bb) (offsets_at bb) i True = Some (fst (es ! i))"
    and "read_entry (build bb) (offsets_at bb) i True = Some (es ! i)"
    and "get_entry_at_index (build bb) (offsets_at bb) i True = Some (entry_start es i, length (fst (es ! i)))"
proof -
  obtain k v s t where e: "es ! i = (k, v, s, t)" by (cases "es ! i") blast
  have "es ! i \<in> set es" using i by simp
  then have b: "length k < 2 ^ 16" "length v < 2 ^ 32" using ok e unfolding bb_ok_def by fastforce+
  obtain q where blk: "build bb = concat (map enc_entry (take i es)) @ enc_entry (k, v, s, t) @ q"
    using entry_in_block [OF ok i] e by metis
  note r = read_array_entry [OF blk entry_start_def [symmetric] b]
  note off = offset_read [OF ok i]
  show at: "get_entry_at_index (build bb) (offsets_at bb) i True = Some (entry_start es i, length (fst (es ! i)))"
    by (simp add: get_entry_at_index_def off r(1) e)
  show "get_entry_key_at_index (build bb) (offsets_at bb) i True = Some (fst (es ! i))"
    using r(2) by (simp add: get_entry_key_at_index_def at e)
  obtain zs where zs: "read_le 8 (build bb) (entry_start es i + 2 + length k) = Some zs" "word_of_nat zs = s"
    using r(3) unfolding map_option_eq_Some by blast
  obtain zt where zt: "read_le 8 (build bb) (entry_start es i + 2 + length k + 8) = Some zt" "word_of_nat zt = t"
    using r(4) unfolding map_option_eq_Some by blast
  have fits: "\<not> length (build bb) < entry_start es i + 2 + length k + 20 + length v" using r(6) by simp
  show "read_entry (build bb) (offsets_at bb) i True = Some (es ! i)"
    unfolding read_entry_def at e fst_conv Let_def
    by (simp only: Option.bind.bind_lunit prod.case zs zt r(2,5,7) if_not_P [OF fits])
qed

section \<open>The trailer\<close>

lemma parse_v4:
  assumes "length blk = a + n * 4 + 8" and "read_le 4 blk (length blk - 4) = Some n"
    and "read_le 4 blk (length blk - 8) = Some l" and "slice blk (a - l) a = Some bits" and "l \<le> a" and "4 \<le> v"
  shows "parse_block_trailer blk v = Some (n, a, bits)"
proof -
  have "length blk - 8 - n * 4 = a" "\<not> length blk < 8" "\<not> length blk < 8 + n * 4 + l"
    using assms(1,5) by simp_all
  with assms(2-4,6) show ?thesis
    unfolding parse_block_trailer_def Let_def by (simp only: if_True if_False Option.bind.bind_lunit)
qed

lemma parse_v3:
  assumes "length blk = a + n * 4 + 4" and "read_le 4 blk (length blk - 4) = Some n"
    and "slice blk (a - 32) a = Some bits" and "32 \<le> a"
  shows "parse_block_trailer blk 3 = Some (n, a, bits)"
proof -
  have "length blk - 4 - n * 4 = a" "\<not> length blk < 36" "\<not> length blk < n * 4 + 36" "\<not> (4::nat) \<le> 3"
    using assms(1,4) by simp_all
  with assms(2,3) show ?thesis
    unfolding parse_block_trailer_def Let_def
    by (simp only: if_True if_False Option.bind.bind_lunit simp_thms)
qed

lemma parse_build:
  assumes ok: "bb_ok blake3 es bb" and v: "3 \<le> bb_version bb"
  shows "parse_block_trailer (build bb) (bb_version bb) = Some (length es, offsets_at bb, block_bits bb)"
proof -
  note w [simp] = le16.put_width le32.put_width le64.put_width
  let ?n = "length (build bb)"
  have n: "length (bb_offsets bb) = length es" using ok by (simp add: bb_ok_def)
  have small: "length es < 2 ^ 32" using bb_ok_count [OF ok] by simp
  have arr: "length (concat (map put_u32 (bb_offsets bb))) = length es * 4" by (simp add: le32.array_length n)
  show ?thesis
  proof (cases "bb_version bb \<ge> 4")
    case True
    have bits: "length (block_bits bb) < 2 ^ 32"
    proof -
      have "next_multiple_of (length es * 10) 64 \<le> length es * 10 + 64" by (simp add: next_multiple_of_def)
      then have "next_multiple_of (length es * 10) 64 < 2 ^ 32 * 8" using bb_ok_count [OF ok] by simp
      then have "next_multiple_of (length es * 10) 64 div 8 < 2 ^ 32" by (rule less_mult_imp_div_less)
      then show ?thesis using True by (simp add: block_bits_def n)
    qed
    let ?pre = "bb_data bb @ block_bits bb @ concat (map put_u32 (bb_offsets bb))"
    have b1: "build bb = ?pre @ put_u32 (length (block_bits bb)) @ put_u32 (length es)"
      and b2: "build bb = (?pre @ put_u32 (length (block_bits bb))) @ put_u32 (length es) @ []"
      using True bits small by (simp_all add: build_split block_tail_def clamp_u32_def n)
    have len: "?n = length (bb_data bb) + length (block_bits bb) + length es * 4 + 8"
      using arr by (simp add: b1)
    have "read_le 4 (build bb) (?n - 8) = Some (length (block_bits bb))"
      using le32.read_mid [of "length (block_bits bb)" ?pre "?n - 8" "put_u32 (length es)"] bits arr len
      unfolding b1 [symmetric] by (simp add: option.map_ident)
    moreover have "read_le 4 (build bb) (?n - 4) = Some (length es)"
      using le32.read_mid [of "length es" "?pre @ put_u32 (length (block_bits bb))" "?n - 4" "[]"] small arr len
      unfolding b2 [symmetric] by (simp add: option.map_ident)
    moreover have "slice (build bb) (length (bb_data bb)) (offsets_at bb) = Some (block_bits bb)"
      unfolding build_split by (rule slice_mid) (simp_all add: offsets_at_def)
    moreover have "length (bb_data bb) = offsets_at bb - length (block_bits bb)" "length (block_bits bb) \<le> offsets_at bb"
      "?n = offsets_at bb + length es * 4 + 8"
      using len by (simp_all add: offsets_at_def)
    ultimately show ?thesis using True by (intro parse_v4 [where l = "length (block_bits bb)"]) simp_all
  next
    case False
    with v have v3: "bb_version bb = 3" by simp
    have "length (v3_bits blake3 b k) = length b" for b k
    proof -
      have "length (foldl (\<lambda>bits i. set_bit_at (f i) bits) b is) = length b" for f and "is" :: "nat list"
        by (induction "is" arbitrary: b) simp_all
      then show ?thesis unfolding v3_bits_def by this
    qed
    then have "length (foldl (v3_bits blake3) b ks) = length b" for b ks
      by (induction ks arbitrary: b) simp_all
    then have bits: "length (block_bits bb) = 32"
      using ok False by (simp add: block_bits_def le64.array_length bb_ok_def)
    let ?pre = "bb_data bb @ block_bits bb @ concat (map put_u32 (bb_offsets bb))"
    have b1: "build bb = ?pre @ put_u32 (length es) @ []"
      using False small by (simp add: build_split block_tail_def clamp_u32_def n)
    have len: "?n = length (bb_data bb) + 32 + length es * 4 + 4"
      using arr bits by (simp add: b1)
    have "read_le 4 (build bb) (?n - 4) = Some (length es)"
      using le32.read_mid [of "length es" ?pre "?n - 4" "[]"] small arr len bits
      unfolding b1 [symmetric] by (simp add: option.map_ident)
    moreover have "slice (build bb) (length (bb_data bb)) (offsets_at bb) = Some (block_bits bb)"
      unfolding build_split by (rule slice_mid) (simp_all add: offsets_at_def)
    moreover have "length (bb_data bb) = offsets_at bb - 32" "32 \<le> offsets_at bb" "?n = offsets_at bb + length es * 4 + 4"
      using len bits by (simp_all add: offsets_at_def)
    ultimately show ?thesis unfolding v3 by (intro parse_v3) simp_all
  qed
qed

section \<open>The filter of a block\<close>

lemma bit8_at_iff: "bit8_at bits j \<longleftrightarrow> bit (bits ! (j div 8)) (j mod 8)"
proof -
  have "w AND push_bit n 1 \<noteq> 0 \<longleftrightarrow> bit w n" if "n < 8" for w :: u8 and n
  proof -
    have "w AND push_bit n 1 = (if bit w n then push_bit n 1 else 0)"
      by (rule bit_word_eqI) (auto simp: bit_simps)
    moreover have "bit (push_bit n 1 :: u8) n" using that by (simp add: bit_simps)
    then have "push_bit n 1 \<noteq> (0 :: u8)" by (metis bit_0_eq bot_apply bot_bool_def)
    ultimately show ?thesis by simp
  qed
  then show ?thesis by (simp add: bit8_at_def)
qed

lemma bit8_at_set:
  assumes "j div 8 < length bits"
  shows "bit8_at (set_bit8 j bits) i \<longleftrightarrow> i = j \<or> bit8_at bits i"
proof (cases "i div 8 = j div 8")
  case False
  then show ?thesis by (auto simp: bit8_at_iff set_bit8_def)
next
  case True
  then have "i = j \<longleftrightarrow> i mod 8 = j mod 8" by (metis div_mod_decomp)
  with True assms show ?thesis by (auto simp: bit8_at_iff set_bit8_def bit_simps)
qed

interpretation byte_bits: bit_vector set_bit8 bit8_at "\<lambda>bits. length bits * 8"
proof unfold_locales
  show "bit8_at (set_bit8 j b) i \<longleftrightarrow> i = j \<or> bit8_at b i" if "j < length b * 8" for j i b
    using that by (intro bit8_at_set less_mult_imp_div_less)
qed (simp add: set_bit8_def)

lemma next_multiple_ge: "m \<le> next_multiple_of m k"
  by (simp add: next_multiple_of_def)

lemma next_multiple_dvd: "0 < k \<Longrightarrow> k dvd next_multiple_of m k"
proof -
  assume k: "0 < k"
  have "m + (k - m mod k) = m div k * k + k"
    using mod_less_divisor [OF k, of m] div_mult_mod_eq [of m k] by linarith
  then show ?thesis by (auto simp: next_multiple_of_def dvd_eq_mod_eq_0)
qed

lemma bloom_v4:
  assumes ok: "bb_ok blake3 es bb" and v: "4 \<le> bb_version bb" and e: "e \<in> set es"
  shows "may_contain_key_in_block_bloom blake3 (block_bits bb) (fst e) (bb_version bb)"
proof -
  let ?n = "if bb_offsets bb = [] then 64 else next_multiple_of (length (bb_offsets bb) * 10) 64"
  let ?hs = "bb_key_hashes bb"
  have "64 dvd next_multiple_of m 64" for m by (rule next_multiple_dvd) simp
  then have "64 dvd ?n" by simp
  then obtain q where q: "?n = 64 * q" by (rule dvdE)
  have n8: "?n div 8 * 8 = ?n" unfolding q by simp
  have "m \<le> next_multiple_of m 64" for m by (rule next_multiple_ge)
  then have "0 < next_multiple_of m 64" if "0 < m" for m by (rule less_le_trans [OF that])
  then have pos: "0 < ?n" by simp
  have h: "hash_pair blake3 (fst e) \<in> set ?hs" using ok v e by (simp add: bb_ok_def)
  have cap: "bit_idx h ?n i < length (replicate (?n div 8) (0 :: u8)) * 8" for h i
    using pos unfolding length_replicate n8 by (simp add: bit_idx_def)
  have "bit8_at (block_bloom ?n ?hs) (bit_idx (hash_pair blake3 (fst e)) ?n i)" if "i \<in> set [0..<7]" for i
    unfolding block_bloom_def
    using byte_bits.fold_keys(2) [of ?hs "[0..<7]" "\<lambda>h. bit_idx h ?n" "replicate (?n div 8) 0"] cap h that by blast
  moreover have "bit_idx h ?n i div 8 < length (block_bloom ?n ?hs)" for h i
    using cap by (simp add: less_mult_imp_div_less)
  moreover have "block_bits bb = block_bloom ?n ?hs" using v by (simp add: block_bits_def)
  ultimately show ?thesis
    using v pos n8 unfolding may_contain_key_in_block_bloom_def Let_def by auto
qed


lemma v3_words:
  assumes ok: "bb_ok blake3 es bb" and v: "bb_version bb = 3"
  shows "length (bb_v3_bloom bb) = 4"
    and "k \<in> set (map fst es) \<Longrightarrow> i < 8 \<Longrightarrow> bit_at (bb_v3_bloom bb) (chunk16 (blake3 k) i mod 256)"
proof -
  let ?f = "\<lambda>k i. chunk16 (blake3 k) i mod 256"
  have words: "bb_v3_bloom bb = foldl (\<lambda>b k. foldl (\<lambda>b i. set_bit_at (?f k i) b) b [0..<8]) (replicate 4 0) (map fst es)"
    using ok v by (simp add: bb_ok_def v3_bits_def [abs_def] del: upt_rec_numeral)
  have cap: "?f k i < length (replicate 4 (0 :: u64)) * 64" for k i by simp
  show "length (bb_v3_bloom bb) = 4"
    using word_bits.fold_keys(1) [of "map fst es" "[0..<8]" ?f "replicate 4 0", OF cap] words by simp
  show "bit_at (bb_v3_bloom bb) (?f k i)" if "k \<in> set (map fst es)" and "i < 8"
  proof -
    have "i \<in> set [0..<8]" using that(2) by simp
    then show ?thesis
      unfolding words using word_bits.fold_keys(2) [of "map fst es" "[0..<8]" ?f "replicate 4 0", OF cap] that(1)
      by blast
  qed
qed

lemma bloom_v3:
  assumes ok: "bb_ok blake3 es bb" and v: "bb_version bb = 3" and e: "e \<in> set es"
  shows "may_contain_key_in_block_bloom blake3 (block_bits bb) (fst e) 3"
proof -
  let ?bits = "concat (map put_u64 (bb_v3_bloom bb))"
  note len = v3_words(1) [OF ok v]
  have bits: "block_bits bb = ?bits" using v by (simp add: block_bits_def)
  have size: "length ?bits = 32" by (simp add: le64.array_length len)
  have "word_of_nat (get_le (take 8 (drop (w * 8) ?bits))) = bb_v3_bloom bb ! w" if "w < 4" for w
  proof -
    have "map_option word_of_nat (read_le 8 ([] @ ?bits @ []) (0 + w * 8)) = Some (bb_v3_bloom bb ! w)"
      by (rule le64.read_array) (use that len in simp_all)
    then show ?thesis using that size by (auto simp: read_le_def slice_def split: if_splits)
  qed
  then have "map (\<lambda>w. word_of_nat (get_le (take 8 (drop (w * 8) ?bits)))) [0..<4] = bb_v3_bloom bb"
    by (intro nth_equalityI) (simp_all add: len)
  with v3_words(2) [OF ok v] e show ?thesis
    unfolding may_contain_key_in_block_bloom_def Let_def bits size by simp
qed

section \<open>The size of a block\<close>

text \<open>\<open>current_size\<close> is the size of the built block, and a block of two or more entries does not
  exceed the size limit of its builder.\<close>

lemma current_size_build:
  assumes ok: "bb_ok blake3 es bb" and v: "3 \<le> bb_version bb"
  shows "length (build bb) = current_size bb"
proof -
  have n: "length (concat (map put_u32 (bb_offsets bb))) = length (bb_offsets bb) * 4" by (rule le32.array_length)
  show ?thesis
  proof (cases "bb_version bb \<ge> 4")
    case True
    then show ?thesis
      by (auto simp: build_split block_bits_def block_tail_def n current_size_def Let_def le32.put_width)
  next
    case False
    with v have "bb_version bb = 3" by simp
    from v3_words(1) [OF ok this] False show ?thesis
      by (simp add: build_split block_bits_def block_tail_def n current_size_def Let_def le32.put_width le64.array_length)
  qed
qed

lemma bb_add_size:
  assumes ok: "bb_ok blake3 es bb" and v: "3 \<le> bb_version bb" and add: "bb_add blake3 bb k val s t = (bb', True)"
  shows "es \<noteq> [] \<Longrightarrow> length (build bb') \<le> bb_block_size bb"
    and "es = [] \<Longrightarrow> length (build bb') \<le> length k + length val + 62"
proof -
  note ok' = bb_add_ok [OF ok add]
  have size: "length (build bb') = current_size bb'" using current_size_build [OF ok'(1)] ok'(2) v by simp
  have parts: "length (bb_data bb') = length (bb_data bb) + length k + length val + 22"
    "length (bb_offsets bb') = length (bb_offsets bb) + 1"
    using ok ok'(1) enc_entry_length [of k val s t] by (simp_all add: bb_ok_def del: enc_entry.simps)
  show "length (build bb') \<le> bb_block_size bb" if ne: "es \<noteq> []"
  proof -
    have "bb_data bb \<noteq> []"
    proof -
      obtain e es' where "es = e # es'" using ne by (cases es) simp_all
      moreover obtain k v s t where "e = (k, v, s, t)" by (cases e) blast
      ultimately have "length (bb_data bb) \<ge> 22"
        using ok enc_entry_length [of k v s t] by (simp add: bb_ok_def del: enc_entry.simps)
      then show ?thesis by auto
    qed
    with add have "(if bb_version bb \<ge> 4
             then length (bb_data bb) + length k + length val + 22 +
                  next_multiple_of ((length (bb_offsets bb) + 1) * 10) 64 div 8 + (length (bb_offsets bb) + 1) * 4 + 8
             else length (bb_data bb) + length k + length val + 22 + 32 + (length (bb_offsets bb) + 1) * 4 + 4)
        \<le> bb_block_size bb"
      unfolding bb_add_def Let_def by (auto split: if_splits)
    then show ?thesis using v ok'(2) unfolding size current_size_def Let_def parts by (auto split: if_splits)
  qed
  show "length (build bb') \<le> length k + length val + 62" if "es = []"
  proof -
    have "bb_data bb = []" "bb_offsets bb = []" using ok that by (simp_all add: bb_ok_def)
    then show ?thesis
      using parts unfolding size current_size_def Let_def by (simp add: next_multiple_of_def)
  qed
qed

section \<open>Searching\<close>

text \<open>The bounds of a search over ascending keys: everything before \<open>low\<close> is smaller than the key and
  nothing from \<open>high\<close> on is.\<close>

definition search_inv :: "bytes list \<Rightarrow> bytes \<Rightarrow> nat \<Rightarrow> nat \<Rightarrow> bool" where
  "search_inv ks key low high \<longleftrightarrow> low \<le> high \<and> high \<le> length ks \<and> (\<forall>i < low. ks ! i < key) \<and>
     (\<forall>i. high \<le> i \<and> i < length ks \<longrightarrow> key \<le> ks ! i)"

lemma search_inv_init: "search_inv ks key 0 (length ks)"
  by (auto simp: search_inv_def)

lemma search_inv_right:
  assumes "search_inv ks key low high" and "sorted ks" and "mid < high" and "low \<le> mid" and "ks ! mid < key"
  shows "search_inv ks key (mid + 1) high"
proof -
  have "ks ! i < key" if "i \<le> mid" for i
  proof -
    have "ks ! i \<le> ks ! mid" using assms that by (intro sorted_nth_mono) (simp_all add: search_inv_def)
    then show ?thesis using assms(5) by simp
  qed
  with assms show ?thesis by (auto simp: search_inv_def less_Suc_eq_le)
qed

lemma search_inv_left:
  assumes "search_inv ks key low high" and "sorted ks" and "mid < high" and "low \<le> mid" and "key \<le> ks ! mid"
  shows "search_inv ks key low mid"
proof -
  have "key \<le> ks ! i" if "mid \<le> i" "i < length ks" for i
    using sorted_nth_mono [OF assms(2) that] assms(5) by simp
  with assms show ?thesis by (auto simp: search_inv_def)
qed

lemma mid_bounds: "low < high \<Longrightarrow> low \<le> low + (high - low) div 2 \<and> low + (high - low) div 2 < high" for low high :: nat
  by simp

lemma search_loop_run:
  assumes keys: "\<And>i. i < length ks \<Longrightarrow> key_at i = Some (ks ! i)" and sorted: "sorted ks"
  shows "search_inv ks key low high \<Longrightarrow> \<exists>r. search_loop key_at key low high = Some r \<and> search_inv ks key r r"
proof (induction "high - low" arbitrary: low high rule: less_induct)
  case less
  show ?case
  proof (cases "low < high")
    case False
    with less.prems have "low = high" by (simp add: search_inv_def)
    with less.prems show ?thesis by (subst search_loop.simps) simp
  next
    case True
    let ?mid = "low + (high - low) div 2"
    note mid = mid_bounds [OF True]
    have at: "key_at ?mid = Some (ks ! ?mid)" using mid less.prems by (intro keys) (simp add: search_inv_def)
    show ?thesis
    proof (cases "ks ! ?mid < key")
      case lt: True
      have "search_inv ks key (?mid + 1) high"
        using search_inv_right [OF less.prems sorted] mid lt by blast
      with less.hyps [of high "?mid + 1"] True
      have "\<exists>r. search_loop key_at key (?mid + 1) high = Some r \<and> search_inv ks key r r" by simp
      then show ?thesis using True at lt by (subst search_loop.simps) (simp add: Let_def)
    next
      case False
      have "search_inv ks key low ?mid"
        using search_inv_left [OF less.prems sorted] mid False by (simp add: not_less)
      with less.hyps [of ?mid low] mid True
      have "\<exists>r. search_loop key_at key low ?mid = Some r \<and> search_inv ks key r r" by simp
      then show ?thesis using True at False by (subst search_loop.simps) (simp add: Let_def)
    qed
  qed
qed

lemma position_eq:
  "i < length xs \<Longrightarrow> P (xs ! i) \<Longrightarrow> (\<And>j. j < i \<Longrightarrow> \<not> P (xs ! j)) \<Longrightarrow> position P xs = Some i"
proof (induction xs arbitrary: i)
  case Nil
  then show ?case by simp
next
  case (Cons x xs)
  show ?case
  proof (cases i)
    case 0
    with Cons.prems show ?thesis by simp
  next
    case (Suc n)
    have "\<not> P x" using Cons.prems(3) [of 0] Suc by simp
    moreover have "position P xs = Some n"
      using Cons.prems Suc Cons.prems(3) [of "Suc _"] by (intro Cons.IH) auto
    ultimately show ?thesis using Suc by simp
  qed
qed

lemma search_position:
  assumes inv: "search_inv ks key r r" and sorted: "sorted ks"
  shows "position (\<lambda>k. k = key) ks = (if r < length ks \<and> ks ! r = key then Some r else None)"
proof (cases "r < length ks \<and> ks ! r = key")
  case True
  have "position (\<lambda>k. k = key) ks = Some r"
    using True inv by (intro position_eq) (auto simp: search_inv_def)
  with True show ?thesis by simp
next
  case False
  have "ks ! i \<noteq> key" if i: "i < length ks" for i
  proof
    assume eq: "ks ! i = key"
    have "\<not> i < r" using inv eq unfolding search_inv_def by force
    then have "r \<le> i" "r < length ks" using i by simp_all
    then have "key \<le> ks ! r" "ks ! r \<le> ks ! i"
      using inv sorted_nth_mono [OF sorted _ i] by (simp_all add: search_inv_def)
    with eq False \<open>r < length ks\<close> show False by simp
  qed
  then have "\<forall>x \<in> set ks. x \<noteq> key" by (metis in_set_conv_nth)
  then have "position (\<lambda>k. k = key) ks = None" by simp
  with False show ?thesis by (simp only: if_False)
qed

lemma rewind_run:
  assumes keys: "\<And>i. i < length ks \<Longrightarrow> key_at i = Some (ks ! i)" and sorted: "sorted ks"
  shows "n < length ks \<Longrightarrow> ks ! n = key \<Longrightarrow> rewind key_at key n = position (\<lambda>k. k = key) ks"
proof (induction n)
  case 0
  then show ?case by (simp add: position_eq [of 0])
next
  case (Suc n)
  show ?case
  proof (cases "ks ! n = key")
    case True
    with Suc keys show ?thesis by simp
  next
    case False
    have "ks ! j \<noteq> key" if "j < Suc n" for j
    proof -
      have "ks ! j \<le> ks ! n" "ks ! n \<le> ks ! Suc n"
        using Suc.prems that by (auto intro: sorted_nth_mono [OF sorted])
      with False Suc.prems(2) show ?thesis by auto
    qed
    then have "position (\<lambda>k. k = key) ks = Some (Suc n)" using Suc.prems by (intro position_eq) simp_all
    with False Suc.prems keys show ?thesis by simp
  qed
qed

lemma index_loop_run:
  assumes keys: "\<And>i. i < length ks \<Longrightarrow> key_at i = Some (ks ! i)" and sorted: "sorted ks"
  shows "search_inv ks key low high \<Longrightarrow> (\<forall>i. high \<le> i \<and> i < length ks \<longrightarrow> ks ! i \<noteq> key) \<Longrightarrow>
    \<exists>r. index_loop key_at key low high = Some (case position (\<lambda>k. k = key) ks of Some i \<Rightarrow> Inl i | None \<Rightarrow> Inr r) \<and>
      (position (\<lambda>k. k = key) ks = None \<longrightarrow> search_inv ks key r r)"
proof (induction "high - low" arbitrary: low high rule: less_induct)
  case less
  let ?p = "position (\<lambda>k. k = key) ks"
  let ?goal = "\<lambda>low high. \<exists>r. index_loop key_at key low high = Some (case ?p of Some i \<Rightarrow> Inl i | None \<Rightarrow> Inr r) \<and>
      (?p = None \<longrightarrow> search_inv ks key r r)"
  show "?goal low high"
  proof (cases "low < high")
    case False
    with less.prems have eq: "low = high" by (simp add: search_inv_def)
    then have "index_loop key_at key low high = Some (Inr low)" by (subst index_loop.simps) simp
    moreover have inv: "search_inv ks key low low" using less.prems eq by simp
    moreover have "?p = None" using search_position [OF inv sorted] less.prems(2) eq by auto
    ultimately show ?thesis by (intro exI [of _ low]) (simp del: position_None)
  next
    case True
    let ?mid = "low + (high - low) div 2"
    note mid = mid_bounds [OF True]
    have len: "?mid < length ks" using mid less.prems(1) by (simp add: search_inv_def)
    note at = keys [OF len]
    consider "ks ! ?mid < key" | "key < ks ! ?mid" | "ks ! ?mid = key" by force
    then show ?thesis
    proof cases
      case 1
      have "search_inv ks key (?mid + 1) high"
        using search_inv_right [OF less.prems(1) sorted] mid 1 by blast
      with less.hyps [of high "?mid + 1"] less.prems(2) True have "?goal (?mid + 1) high" by simp
      moreover have "index_loop key_at key low high = index_loop key_at key (?mid + 1) high"
        using True at 1 by (subst index_loop.simps) (simp add: Let_def)
      ultimately show ?thesis by simp
    next
      case 2
      have "search_inv ks key low ?mid"
        using search_inv_left [OF less.prems(1) sorted] mid 2 by (simp add: less_imp_le)
      moreover have "ks ! i \<noteq> key" if "?mid \<le> i" "i < length ks" for i
        using sorted_nth_mono [OF sorted that] 2 by auto
      ultimately have "?goal low ?mid" using less.hyps [of ?mid low] mid True by simp
      moreover have "index_loop key_at key low high = index_loop key_at key low ?mid"
      proof -
        have "\<not> ks ! ?mid < key" using 2 by (simp add: less_imp_le not_less)
        with True at 2 show ?thesis by (subst index_loop.simps) (simp add: Let_def)
      qed
      ultimately show ?thesis by simp
    next
      case 3
      have "index_loop key_at key low high = map_option Inl (rewind key_at key ?mid)"
        using True at 3 by (subst index_loop.simps) (simp add: Let_def)
      also have "rewind key_at key ?mid = ?p" by (rule rewind_run [OF keys sorted len 3])
      finally have run: "index_loop key_at key low high = map_option Inl ?p" .
      have "ks ! ?mid \<in> set ks" using len by simp
      then have "?p \<noteq> None" using 3 by auto
      then obtain i where "?p = Some i" by blast
      with run show ?thesis by simp
    qed
  qed
qed

lemma search_inv_count:
  assumes "search_inv ks key r r"
  shows "length (filter (\<lambda>k. k < key) ks) = r"
proof -
  have "filter (\<lambda>k. k < key) (take r ks) = take r ks"
    using assms by (auto simp: filter_id_conv in_set_conv_nth search_inv_def)
  moreover have "filter (\<lambda>k. k < key) (drop r ks) = []"
    using assms by (auto simp: filter_empty_conv in_set_conv_nth search_inv_def not_less)
  ultimately have "filter (\<lambda>k. k < key) (take r ks @ drop r ks) = take r ks" by (simp only: filter_append append_Nil2)
  then show ?thesis using assms by (simp add: search_inv_def)
qed

lemma block_search_first:
  assumes "bb_ok blake3 es bb" and "sorted (map fst es)"
  shows "binary_search_first_index_in_block (build bb) (offsets_at bb) (length es) key True =
    Some (position (\<lambda>k. k = key) (map fst es))"
proof (cases "es = []")
  case True
  then show ?thesis by (simp add: binary_search_first_index_in_block_def)
next
  case False
  let ?ks = "map fst es" and ?at = "\<lambda>i. get_entry_key_at_index (build bb) (offsets_at bb) i True"
  have keys: "?at i = Some (?ks ! i)" if "i < length ?ks" for i
    using read_entry_build(1) [OF assms(1)] that by simp
  obtain r where r: "search_loop ?at key 0 (length ?ks) = Some r" "search_inv ?ks key r r"
    using search_loop_run [OF keys assms(2) search_inv_init] by blast
  show ?thesis
  proof (cases "r < length es")
    case True
    with keys r False search_position [OF r(2) assms(2)] show ?thesis
      by (simp add: binary_search_first_index_in_block_def del: position_None)
  next
    case r_end: False
    with r False search_position [OF r(2) assms(2)] show ?thesis
      by (simp add: binary_search_first_index_in_block_def del: position_None)
  qed
qed

lemma block_search_index:
  assumes "bb_ok blake3 es bb" and "sorted (map fst es)"
  shows "binary_search_index_in_block (build bb) (offsets_at bb) (length es) key True =
    Some (case position (\<lambda>k. k = key) (map fst es) of Some i \<Rightarrow> Inl i
          | None \<Rightarrow> Inr (length (filter (\<lambda>k. k < key) (map fst es))))"
proof (cases "es = []")
  case True
  then show ?thesis by (simp add: binary_search_index_in_block_def)
next
  case False
  let ?ks = "map fst es" and ?at = "\<lambda>i. get_entry_key_at_index (build bb) (offsets_at bb) i True"
  have keys: "?at i = Some (?ks ! i)" if "i < length ?ks" for i
    using read_entry_build(1) [OF assms(1)] that by simp
  obtain r where r: "index_loop ?at key 0 (length ?ks) =
      Some (case position (\<lambda>k. k = key) ?ks of Some i \<Rightarrow> Inl i | None \<Rightarrow> Inr r)"
    "position (\<lambda>k. k = key) ?ks = None \<longrightarrow> search_inv ?ks key r r"
    using index_loop_run [OF keys assms(2) search_inv_init] by fastforce
  have "binary_search_index_in_block (build bb) (offsets_at bb) (length es) key True =
      index_loop ?at key 0 (length ?ks)"
    using False by (simp add: binary_search_index_in_block_def)
  moreover have "length (filter (\<lambda>k. k < key) ?ks) = r" if "position (\<lambda>k. k = key) ?ks = None"
    using r(2) that by (intro search_inv_count) blast
  ultimately show ?thesis
    unfolding r(1) by (cases "position (\<lambda>k. k = key) ?ks") (simp_all del: position_None filter_map)
qed

section \<open>Properties\<close>

text \<open>A block from a list of entries, \<open>None\<close> when an entry is refused.\<close>

fun bb_add_all :: "(bytes \<Rightarrow> bytes) \<Rightarrow> block_builder \<Rightarrow> entry list \<Rightarrow> block_builder option" where
  "bb_add_all blake3 bb [] = Some bb"
| "bb_add_all blake3 bb ((k, v, s, t) # es) =
     (case bb_add blake3 bb k v s t of (bb', added) \<Rightarrow> if added then bb_add_all blake3 bb' es else None)"

lemma bb_add_all_ok:
  "bb_ok blake3 es bb \<Longrightarrow> bb_add_all blake3 bb es' = Some bb' \<Longrightarrow>
     bb_ok blake3 (es @ es') bb' \<and> bb_version bb' = bb_version bb"
proof (induction es' arbitrary: es bb)
  case Nil
  then show ?case by simp
next
  case (Cons e es')
  obtain k v s t where e: "e = (k, v, s, t)" by (cases e) blast
  with Cons.prems(2) obtain bb1 where add: "bb_add blake3 bb k v s t = (bb1, True)"
    and rest: "bb_add_all blake3 bb1 es' = Some bb'" by (auto split: prod.splits if_splits)
  from Cons.IH [OF bb_add_ok(1) [OF Cons.prems(1) add] rest] bb_add_ok(2) [OF Cons.prems(1) add] show ?case
    by (simp add: e)
qed

lemma block_contents:
  assumes "3 \<le> v" and "bb_add_all blake3 (new_with_version sz v) es = Some bb"
  shows "bb_ok blake3 es bb" and "bb_version bb = v"
    and "parse_block_trailer (build bb) v = Some (length es, offsets_at bb, block_bits bb)"
proof -
  show ok: "bb_ok blake3 es bb" and ver: "bb_version bb = v"
    using bb_add_all_ok [OF bb_ok_new assms(2)] by (simp_all add: new_with_version_def)
  show "parse_block_trailer (build bb) v = Some (length es, offsets_at bb, block_bits bb)"
    using parse_build [OF ok] assms(1) ver by simp
qed

lemma block_bloom_passes:
  assumes "bb_ok blake3 es bb" and "3 \<le> bb_version bb" and "e \<in> set es"
  shows "may_contain_key_in_block_bloom blake3 (block_bits bb) (fst e) (bb_version bb)"
proof (cases "bb_version bb = 3")
  case True
  then show ?thesis using bloom_v3 [OF assms(1) True assms(3)] by simp
next
  case False
  then show ?thesis using bloom_v4 [OF assms(1) _ assms(3)] assms(2) by simp
qed

text \<open>A block reads back as written, in both formats that are written. Its trailer has the number of
  entries, every entry is decoded to the entry that was added at this place, and its filter lets
  every key pass that was added, whatever the hash function is.\<close>

theorem block_round_trip:
  assumes "3 \<le> v" and "bb_add_all blake3 (new_with_version sz v) es = Some bb"
  shows "\<exists>start bloom. parse_block_trailer (build bb) v = Some (length es, start, bloom) \<and>
    map (\<lambda>i. read_entry (build bb) start i True) [0..<length es] = map Some es \<and>
    (\<forall>e \<in> set es. may_contain_key_in_block_bloom blake3 bloom (fst e) v)"
proof (intro exI conjI)
  note block = block_contents [OF assms]
  show "parse_block_trailer (build bb) v = Some (length es, offsets_at bb, block_bits bb)" by (rule block(3))
  show "map (\<lambda>i. read_entry (build bb) (offsets_at bb) i True) [0..<length es] = map Some es"
    by (rule nth_equalityI) (simp_all add: read_entry_build(2) [OF block(1)])
  show "\<forall>e \<in> set es. may_contain_key_in_block_bloom blake3 (block_bits bb) (fst e) v"
    using block_bloom_passes [OF block(1)] assms(1) block(2) by simp
qed

definition example_entries :: "entry list" where
  "example_entries = [([97], [1], 7, 2), ([97], [], 3, 1), ([98, 99], [2, 3], 5, 2)]"

lemma example_block:
  "\<exists>bb. bb_add_all (\<lambda>k. k @ replicate 32 0) (new_with_version 4096 4) example_entries = Some bb"
  by (simp add: example_entries_def bb_add_def new_with_version_def update_bloom_def Let_def clamp_def
      next_multiple_of_def put_u16_def put_u32_def put_u64_def)

theorem block_round_trip_witness:
  "\<exists>bb start bloom. parse_block_trailer (build bb) 4 = Some (3, start, bloom) \<and>
    read_entry (build bb) start 1 True = Some ([97], [], 3, 1) \<and>
    may_contain_key_in_block_bloom (\<lambda>k. k @ replicate 32 0) bloom [98, 99] 4"
proof -
  obtain bb where bb: "bb_add_all (\<lambda>k. k @ replicate 32 0) (new_with_version 4096 4) example_entries = Some bb"
    using example_block by blast
  have "(3 :: nat) \<le> 4" by simp
  from block_round_trip [OF this bb] obtain start bloom where
    parse: "parse_block_trailer (build bb) 4 = Some (length example_entries, start, bloom)" and
    entries: "map (\<lambda>i. read_entry (build bb) start i True) [0..<length example_entries] = map Some example_entries" and
    pass: "\<forall>e \<in> set example_entries. may_contain_key_in_block_bloom (\<lambda>k. k @ replicate 32 0) bloom (fst e) 4"
    by blast
  have "length example_entries = 3" by (simp add: example_entries_def)
  moreover from arg_cong [OF entries, of "\<lambda>xs. xs ! 1"] have "read_entry (build bb) start 1 True = Some ([97], [], 3, 1)"
    by (simp add: example_entries_def)
  moreover from pass have "may_contain_key_in_block_bloom (\<lambda>k. k @ replicate 32 0) bloom [98, 99] 4"
    by (simp add: example_entries_def)
  ultimately show ?thesis using parse by (intro exI conjI) simp_all
qed

text \<open>Both binary searches over a block with ascending keys return the first entry of the key, and
  for a key that is not in the block nothing, or the number of the smaller keys.\<close>

theorem block_search_correct:
  assumes "3 \<le> v" and "bb_add_all blake3 (new_with_version sz v) es = Some bb" and "sorted (map fst es)"
  shows "\<exists>start bloom. parse_block_trailer (build bb) v = Some (length es, start, bloom) \<and>
    binary_search_first_index_in_block (build bb) start (length es) key True =
      Some (position (\<lambda>k. k = key) (map fst es)) \<and>
    binary_search_index_in_block (build bb) start (length es) key True =
      Some (case position (\<lambda>k. k = key) (map fst es) of
              Some i \<Rightarrow> Inl i
            | None \<Rightarrow> Inr (length (filter (\<lambda>k. k < key) (map fst es))))"
  using block_contents [OF assms(1,2)] block_search_first [OF _ assms(3)] block_search_index [OF _ assms(3)] by blast

theorem block_search_correct_witness:
  "\<exists>bb start. binary_search_first_index_in_block (build bb) start 3 [98, 99] True = Some (Some 2) \<and>
    binary_search_index_in_block (build bb) start 3 [98] True = Some (Inr 2)"
proof -
  obtain bb where bb: "bb_add_all (\<lambda>k. k @ replicate 32 0) (new_with_version 4096 4) example_entries = Some bb"
    using example_block by blast
  have three: "(3 :: nat) \<le> 4" by simp
  have "sorted (map fst example_entries)" by (simp add: example_entries_def)
  note search = block_search_correct [OF three bb this]
  obtain start bloom where parse: "parse_block_trailer (build bb) 4 = Some (length example_entries, start, bloom)"
    and found: "binary_search_first_index_in_block (build bb) start 3 [98, 99] True = Some (Some 2)"
    using search [of "[98, 99]"] by (auto simp: example_entries_def numeral_eq_Suc)
  moreover have "binary_search_index_in_block (build bb) start 3 [98] True = Some (Inr 2)"
  proof -
    have "position (\<lambda>k. k = [98]) (map fst example_entries) = None"
      "length (filter (\<lambda>k. k < [98]) (map fst example_entries)) = 2" "length example_entries = 3"
      by (simp_all add: example_entries_def)
    then show ?thesis using search [of "[98]"] parse by (auto simp del: position_None)
  qed
  ultimately show ?thesis by blast
qed

end
