(* ===== verification/SstFile.thy ===== *)
theory SstFile
  imports BinarySearch Block
begin

text \<open>
  SSTable files: the writer \<open>SstableBuilder\<close> (\<open>sstable/builder.rs\<close>), the reader \<open>SstableReader\<close>
  (\<open>sstable/reader.rs\<close>, \<open>sstable/reader_ext.rs\<close>) and the stream of the compaction (\<open>sstable/stream.rs\<close>).

  A file is the list of its bytes; writes to it succeed, and a read outside of it is an error, as
  \<open>read_exact_at\<close> reports it. CRC32, BLAKE3 and AES-GCM are third-party code and parameters: a key
  manager is the pair of its encryption, which picks the nonce for the \<open>i\<close>-th block of a file, and
  its decryption. The block cache returns the block that it was given for a file and an offset and
  is left out. A \<open>u64\<close> that is a position in a file is a \<open>nat\<close>; the checks against \<open>2 ^ 64\<close> are written out.
\<close>

section \<open>Results\<close>

definition bind_res :: "'e + 'a \<Rightarrow> ('a \<Rightarrow> 'e + 'b) \<Rightarrow> 'e + 'b" where
  "bind_res r f = (case r of Inl e \<Rightarrow> Inl e | Inr x \<Rightarrow> f x)"

definition ok_or :: "'e \<Rightarrow> 'a option \<Rightarrow> 'e + 'a" where
  "ok_or e r = (case r of None \<Rightarrow> Inl e | Some x \<Rightarrow> Inr x)"

lemma bind_res_simps [simp]: "bind_res (Inl e) f = Inl e" "bind_res (Inr x) f = f x"
  by (simp_all add: bind_res_def)

lemma bind_res_Inr: "bind_res r f = Inr y \<longleftrightarrow> (\<exists>x. r = Inr x \<and> f x = Inr y)"
  by (cases r) auto

lemma ok_or_simps [simp]: "ok_or e None = Inl e" "ok_or e (Some x) = Inr x"
  by (simp_all add: ok_or_def)

section \<open>The writer\<close>

record key_manager =
  km_seal :: "nat \<Rightarrow> bytes \<Rightarrow> (bytes \<times> bytes) option"
  km_open :: "bytes \<Rightarrow> bytes \<Rightarrow> bytes option"

record sst_meta =
  sm_first_key :: bytes
  sm_last_key :: bytes
  sm_file_size :: nat
  sm_min_tx :: u64
  sm_max_tx :: u64
  sm_min_seq :: u64
  sm_max_seq :: u64

record sst_builder =
  sb_file :: bytes
  sb_block :: block_builder
  sb_index :: "(bytes \<times> nat) list"
  sb_first_key :: "bytes option"
  sb_last_key :: "bytes option"
  sb_prev_seq :: "u64 option"
  sb_offset :: nat
  sb_km :: "key_manager option"
  sb_bloom :: bloom_filter
  sb_key_count :: nat
  sb_min_tx :: u64
  sb_max_tx :: u64
  sb_min_seq :: u64
  sb_max_seq :: u64
  sb_version :: nat

definition BLOCK_SIZE :: nat where
  "BLOCK_SIZE = 4096"

definition MAX_VALUE_SIZE :: nat where
  "MAX_VALUE_SIZE = 134217728"

definition SSTABLE_MAGIC_MFSX :: nat where
  "SSTABLE_MAGIC_MFSX = 0x5853464D"

definition SSTABLE_MAGIC_LEGACY :: nat where
  "SSTABLE_MAGIC_LEGACY = 0x4D465354"

text \<open>\<open>m\<close> and \<open>hashes\<close> are the sizes that \<open>BloomFilter::new(100_000, 0.01)\<close> computes.\<close>

definition sst_create :: "nat \<Rightarrow> nat \<Rightarrow> key_manager option \<Rightarrow> sst_builder" where
  "sst_create m hashes km =
     \<lparr>sb_file = [], sb_block = new_with_version BLOCK_SIZE 4, sb_index = [], sb_first_key = None,
      sb_last_key = None, sb_prev_seq = None, sb_offset = 0, sb_km = km, sb_bloom = bloom_new m hashes,
      sb_key_count = 0, sb_min_tx = U64_MAX, sb_max_tx = 0, sb_min_seq = U64_MAX, sb_max_seq = 0,
      sb_version = 4\<rparr>"

definition set_format_version :: "sst_builder \<Rightarrow> nat \<Rightarrow> sst_builder" where
  "set_format_version sb v = sb\<lparr>sb_version := v, sb_block := new_with_version BLOCK_SIZE v\<rparr>"

text \<open>A block as it stands in the file: checksum and contents, encrypted as a whole.\<close>

definition seal_block :: "(bytes \<Rightarrow> u32) \<Rightarrow> key_manager option \<Rightarrow> nat \<Rightarrow> bytes \<Rightarrow> sst_error + bytes" where
  "seal_block crc32 km i block_data =
     (let block = put_u32 (unat (crc32 block_data)) @ block_data
      in case km of
           None \<Rightarrow> Inr block
         | Some m \<Rightarrow> (case km_seal m i block of
                        None \<Rightarrow> Inl Internal_error
                      | Some (encrypted, nonce) \<Rightarrow> Inr (nonce @ encrypted)))"

definition flush_block :: "(bytes \<Rightarrow> u32) \<Rightarrow> sst_builder \<Rightarrow> sst_error + sst_builder" where
  "flush_block crc32 sb =
     (if bb_is_empty (sb_block sb) then Inr sb
      else bind_res (ok_or Storage_error (sb_last_key sb)) (\<lambda>last_key.
           bind_res (seal_block crc32 (sb_km sb) (length (sb_index sb)) (build (sb_block sb))) (\<lambda>block.
             if sb_offset sb + length block \<ge> 2 ^ 64 then Inl Storage_error
             else Inr (sb\<lparr>sb_block := new_with_version BLOCK_SIZE (sb_version sb),
                          sb_file := sb_file sb @ block,
                          sb_index := sb_index sb @ [(last_key, sb_offset sb)],
                          sb_offset := sb_offset sb + length block\<rparr>))))"

text \<open>The entry goes into the block; everything that \<open>add\<close> notes afterwards.\<close>

definition note_entry :: "(bytes \<Rightarrow> bytes) \<Rightarrow> entry \<Rightarrow> sst_builder \<Rightarrow> sst_builder" where
  "note_entry blake3 e sb =
     (case e of (key, val, seq_no, tx_id) \<Rightarrow>
        (let raw_seq = mask_seq seq_no
         in sb\<lparr>sb_bloom := bloom_insert blake3 (sb_bloom sb) key,
               sb_key_count := sb_key_count sb + 1,
               sb_min_tx := min (sb_min_tx sb) tx_id,
               sb_max_tx := max (sb_max_tx sb) tx_id,
               sb_min_seq := min (sb_min_seq sb) raw_seq,
               sb_max_seq := max (sb_max_seq sb) raw_seq,
               sb_last_key := Some key,
               sb_prev_seq := Some raw_seq\<rparr>))"

definition add_order_ok :: "sst_builder \<Rightarrow> bytes \<Rightarrow> u64 \<Rightarrow> bool" where
  "add_order_ok sb key raw_seq =
     (case sb_last_key sb of
        None \<Rightarrow> True
      | Some prev_k \<Rightarrow>
          if key < prev_k then False
          else if key = prev_k
          then (case sb_prev_seq sb of None \<Rightarrow> True | Some prev_s \<Rightarrow> \<not> raw_seq \<ge> prev_s)
          else True)"

definition sst_add ::
  "(bytes \<Rightarrow> bytes) \<Rightarrow> (bytes \<Rightarrow> u32) \<Rightarrow> sst_builder \<Rightarrow> entry \<Rightarrow> sst_error + sst_builder" where
  "sst_add blake3 crc32 sb e =
     (case e of (key, val, seq_no, tx_id) \<Rightarrow>
        if key = [] then Inl Invalid_input
        else if length key > 65535 \<or> length val > MAX_VALUE_SIZE then Inl Invalid_input
        else if \<not> add_order_ok sb key (mask_seq seq_no) then Inl Invalid_input
        else (let sb1 = (case sb_first_key sb of None \<Rightarrow> sb\<lparr>sb_first_key := Some key\<rparr> | Some _ \<Rightarrow> sb)
              in case bb_add blake3 (sb_block sb1) key val seq_no tx_id of
                   (block, True) \<Rightarrow> Inr (note_entry blake3 e (sb1\<lparr>sb_block := block\<rparr>))
                 | (_, False) \<Rightarrow>
                     bind_res (flush_block crc32 sb1) (\<lambda>sb2.
                       case bb_add blake3 (sb_block sb2) key val seq_no tx_id of
                         (block, True) \<Rightarrow> Inr (note_entry blake3 e (sb2\<lparr>sb_block := block\<rparr>))
                       | (_, False) \<Rightarrow> Inl Storage_error)))"

definition index_entry :: "bytes \<times> nat \<Rightarrow> bytes" where
  "index_entry e = put_u16 (length (fst e)) @ fst e @ put_u64 (of_nat (snd e))"

definition with_crc :: "(bytes \<Rightarrow> u32) \<Rightarrow> bytes \<Rightarrow> bytes" where
  "with_crc crc32 payload = put_u32 (unat (crc32 payload)) @ payload"

definition sst_trailer :: "sst_builder \<Rightarrow> nat \<Rightarrow> nat \<Rightarrow> bytes" where
  "sst_trailer sb bloom_offset index_offset =
     put_u64 (sb_min_tx sb) @ put_u64 (sb_max_tx sb) @ put_u64 (sb_min_seq sb) @ put_u64 (sb_max_seq sb) @
     put_u64 (of_nat bloom_offset) @ put_u64 (of_nat index_offset) @ put_u16 (sb_version sb) @
     put_u32 SSTABLE_MAGIC_MFSX"

definition sst_finish :: "(bytes \<Rightarrow> u32) \<Rightarrow> sst_builder \<Rightarrow> sst_error + bytes \<times> sst_meta" where
  "sst_finish crc32 sb0 =
     bind_res (flush_block crc32 sb0) (\<lambda>sb.
       if list_ex (\<lambda>e. length (fst e) \<ge> 2 ^ 16) (sb_index sb) then Inl Invalid_input
       else (let index_offset = sb_offset sb;
                 index_bytes = with_crc crc32 (concat (map index_entry (sb_index sb)));
                 bloom_offset = index_offset + length index_bytes
             in if bloom_offset \<ge> 2 ^ 64 then Inl Storage_error
                else (let bloom_bytes = with_crc crc32 (to_bytes (sb_bloom sb));
                          file = sb_file sb @ index_bytes @ bloom_bytes @ sst_trailer sb bloom_offset index_offset
                      in Inr (file,
                           \<lparr>sm_first_key = (case sb_first_key sb of None \<Rightarrow> [] | Some k \<Rightarrow> k),
                            sm_last_key = (case sb_last_key sb of None \<Rightarrow> [] | Some k \<Rightarrow> k),
                            sm_file_size = length file,
                            sm_min_tx = (if sb_key_count sb = 0 then 0 else sb_min_tx sb),
                            sm_max_tx = (if sb_key_count sb = 0 then 0 else sb_max_tx sb),
                            sm_min_seq = (if sb_key_count sb = 0 then 0 else sb_min_seq sb),
                            sm_max_seq = (if sb_key_count sb = 0 then 0 else sb_max_seq sb)\<rparr>))))"

fun sst_add_all ::
  "(bytes \<Rightarrow> bytes) \<Rightarrow> (bytes \<Rightarrow> u32) \<Rightarrow> sst_builder \<Rightarrow> entry list \<Rightarrow> sst_error + sst_builder" where
  "sst_add_all blake3 crc32 sb [] = Inr sb"
| "sst_add_all blake3 crc32 sb (e # es) =
     bind_res (sst_add blake3 crc32 sb e) (\<lambda>sb'. sst_add_all blake3 crc32 sb' es)"

section \<open>The reader\<close>

record sst_reader =
  rd_file :: bytes
  rd_index :: "(bytes \<times> nat) list"
  rd_meta :: sst_meta
  rd_index_offset :: nat
  rd_km :: "key_manager option"
  rd_bloom :: "bloom_filter option"
  rd_has_crc :: bool
  rd_version :: nat

text \<open>The checksum in front of a payload, \<open>too_short\<close> and \<open>mismatch\<close> the errors.\<close>

definition strip_crc :: "(bytes \<Rightarrow> u32) \<Rightarrow> bytes \<Rightarrow> sst_error + bytes" where
  "strip_crc crc32 data =
     (if length data < 4 then Inl Storage_error
      else if get_le (take 4 data) \<noteq> unat (crc32 (drop 4 data)) then Inl Checksum_mismatch
      else Inr (drop 4 data))"

definition read_block_at_file ::
  "(bytes \<Rightarrow> u32) \<Rightarrow> bytes \<Rightarrow> nat \<Rightarrow> nat \<Rightarrow> key_manager option \<Rightarrow> bool \<Rightarrow> sst_error + bytes" where
  "read_block_at_file crc32 file offset next_offset km has_crc =
     (let len = next_offset - offset
      in if len > 16 * 1024 * 1024 then Inl Storage_error
         else bind_res (ok_or Storage_error (slice file offset (offset + len))) (\<lambda>data.
              bind_res (case km of
                          None \<Rightarrow> Inr data
                        | Some m \<Rightarrow>
                            if length data < 12 then Inl Storage_error
                            else ok_or Internal_error (km_open m (drop 12 data) (take 12 data))) (\<lambda>block_data.
                if has_crc then strip_crc crc32 block_data else Inr block_data)))"

text \<open>The index, from position \<open>pos\<close> on.\<close>

function parse_index :: "bytes \<Rightarrow> nat \<Rightarrow> nat \<Rightarrow> sst_error + (bytes \<times> nat) list" where
  "parse_index index_bytes index_offset pos =
     (if pos + 10 \<le> length index_bytes
      then (let key_len = get_le (take 2 (drop pos index_bytes));
                pos1 = pos + 2
            in if pos1 + key_len + 8 > length index_bytes then Inl Parse_error
               else (let key = take key_len (drop pos1 index_bytes);
                         pos2 = pos1 + key_len;
                         offset = get_le (take 8 (drop pos2 index_bytes))
                     in if offset > index_offset then Inl Storage_error
                        else bind_res (parse_index index_bytes index_offset (pos2 + 8))
                               (\<lambda>rest. Inr ((key, offset) # rest))))
      else if pos \<noteq> length index_bytes then Inl Parse_error
      else Inr [])"
  by auto
termination
  by (relation "measure (\<lambda>(b, o', pos). length b - pos)") auto

declare parse_index.simps [simp del]

text \<open>Format version and whether the magic number was found, from the last 54 bytes.\<close>

definition detect_format :: "bytes \<Rightarrow> nat \<times> bool" where
  "detect_format trailer_data =
     (if length trailer_data \<ge> 54 \<and> get_le (take 4 (drop 50 trailer_data)) = SSTABLE_MAGIC_MFSX
      then (get_le (take 2 (drop 48 trailer_data)), True)
      else if length trailer_data \<ge> 52 \<and> get_le (take 4 (drop 48 trailer_data)) = SSTABLE_MAGIC_MFSX
      then (0, True)
      else (0, False))"

definition trailer_size :: "bool \<Rightarrow> nat \<Rightarrow> nat" where
  "trailer_size is_mfsx format_version = (if is_mfsx then if format_version \<ge> 1 then 54 else 52 else 12)"

definition read_bloom :: "(bytes \<Rightarrow> u32) \<Rightarrow> bytes \<Rightarrow> bool \<Rightarrow> nat \<Rightarrow> nat \<Rightarrow> sst_error + bloom_filter" where
  "read_bloom crc32 file is_mfsx format_version bloom_offset =
     (let bloom_end = (if is_mfsx then length file - (if format_version \<ge> 1 then 54 else 52) else length file - 20)
      in bind_res (ok_or Storage_error (slice file bloom_offset (bloom_offset + (bloom_end - bloom_offset)))) (\<lambda>raw.
         bind_res (if is_mfsx then strip_crc crc32 raw else Inr raw) from_bytes))"

definition read_index :: "(bytes \<Rightarrow> u32) \<Rightarrow> bytes \<Rightarrow> bool \<Rightarrow> nat \<Rightarrow> nat \<Rightarrow> sst_error + (bytes \<times> nat) list" where
  "read_index crc32 file is_mfsx index_offset index_end =
     bind_res (ok_or Storage_error (slice file index_offset (index_offset + (index_end - index_offset)))) (\<lambda>raw.
     bind_res (if is_mfsx then strip_crc crc32 raw else Inr raw) (\<lambda>index_bytes.
       parse_index index_bytes index_offset 0))"

text \<open>The first key is read from the first block.\<close>

definition read_first_key ::
  "(bytes \<Rightarrow> u32) \<Rightarrow> bytes \<Rightarrow> (bytes \<times> nat) list \<Rightarrow> nat \<Rightarrow> key_manager option \<Rightarrow> bool \<Rightarrow> sst_error + bytes" where
  "read_first_key crc32 file index index_offset km has_crc =
     (if index = [] then Inr []
      else (let offset = snd (index ! 0);
                next_offset = (if length index > 1 then snd (index ! 1) else index_offset)
            in bind_res (read_block_at_file crc32 file offset next_offset km has_crc) (\<lambda>block.
               if length block < 2 then Inl Parse_error
               else (let k_len = get_le (take 2 block)
                     in if length block < 2 + k_len then Inl Parse_error
                        else Inr (take k_len (drop 2 block))))))"

definition sst_open :: "(bytes \<Rightarrow> u32) \<Rightarrow> key_manager option \<Rightarrow> bytes \<Rightarrow> sst_error + sst_reader" where
  "sst_open crc32 km file =
     (let file_size = length file
      in if file_size < 12 then Inl Storage_error
         else (let trailer_data = drop (file_size - 54) file;
                   trailer_len = length trailer_data;
                   (format_version, is_mfsx) = detect_format trailer_data
               in if is_mfsx \<and> format_version > 4 then Inl Storage_error
                  else (let base = (if format_version \<ge> 1 then 0 else 2);
                            field = (\<lambda>i. ok_or Parse_error (read_le 8 trailer_data (base + i)))
                        in bind_res
                             (if is_mfsx
                              then bind_res (field 0) (\<lambda>min_tx. bind_res (field 8) (\<lambda>max_tx.
                                   bind_res (field 16) (\<lambda>min_seq. bind_res (field 24) (\<lambda>max_seq.
                                   bind_res (field 32) (\<lambda>bloom_offset. bind_res (field 40) (\<lambda>index_offset.
                                     Inr (min_tx, max_tx, min_seq, max_seq, bloom_offset, index_offset)))))))
                              else if trailer_len \<ge> 54
                              then if get_le (take 4 (drop 50 trailer_data)) = SSTABLE_MAGIC_LEGACY
                                   then Inr (0, 0, 0, 0, 0, get_le (take 8 (drop 42 trailer_data)))
                                   else Inl Storage_error
                              else Inl Storage_error)
                             (\<lambda>(min_tx, max_tx, min_seq, max_seq, bloom_offset, index_offset).
                              let has_bloom = bloom_offset > 0;
                                  trailer_offset = file_size - trailer_size is_mfsx format_version
                              in if index_offset > trailer_offset \<or>
                                    (has_bloom \<and> (bloom_offset < index_offset \<or> bloom_offset > trailer_offset))
                                 then Inl Storage_error
                                 else bind_res
                                   (if has_bloom
                                    then bind_res (read_bloom crc32 file is_mfsx format_version bloom_offset)
                                           (\<lambda>bl. Inr (Some bl))
                                    else Inr None)
                                   (\<lambda>bloom.
                                    let index_end = (if has_bloom then bloom_offset
                                                     else file_size - trailer_size is_mfsx format_version)
                                    in bind_res (read_index crc32 file is_mfsx index_offset index_end) (\<lambda>index.
                                       bind_res (read_first_key crc32 file index index_offset km is_mfsx) (\<lambda>first_key.
                                         Inr \<lparr>rd_file = file, rd_index = index,
                                              rd_meta = \<lparr>sm_first_key = first_key,
                                                sm_last_key = (if index = [] then [] else fst (last index)),
                                                sm_file_size = file_size,
                                                sm_min_tx = word_of_nat min_tx, sm_max_tx = word_of_nat max_tx,
                                                sm_min_seq = word_of_nat min_seq, sm_max_seq = word_of_nat max_seq\<rparr>,
                                              rd_index_offset = index_offset, rd_km = km, rd_bloom = bloom,
                                              rd_has_crc = is_mfsx, rd_version = format_version\<rparr>)))))))"

definition next_offset :: "sst_reader \<Rightarrow> nat \<Rightarrow> nat" where
  "next_offset rd idx =
     (if idx + 1 < length (rd_index rd) then snd (rd_index rd ! (idx + 1)) else rd_index_offset rd)"

text \<open>The block of an index entry: its bytes, the number and place of its offsets, its filter.\<close>

definition load_block :: "(bytes \<Rightarrow> u32) \<Rightarrow> sst_reader \<Rightarrow> nat \<Rightarrow> sst_error + bytes \<times> nat \<times> nat \<times> bytes" where
  "load_block crc32 rd idx =
     bind_res (read_block_at_file crc32 (rd_file rd) (snd (rd_index rd ! idx)) (next_offset rd idx)
                 (rd_km rd) (rd_has_crc rd)) (\<lambda>block_data.
     bind_res (ok_or Storage_error (parse_block_trailer block_data (rd_version rd))) (\<lambda>(n, start, bloom).
       Inr (block_data, n, start, bloom)))"

section \<open>Point reads\<close>

definition entry_visible :: "u64 \<Rightarrow> u64 \<Rightarrow> entry \<Rightarrow> bool" where
  "entry_visible max_seq_raw max_tx e =
     (case e of (key, val, seq_no, tx_id) \<Rightarrow>
        mask_seq seq_no \<le> max_seq_raw \<and> (tx_id \<le> max_tx \<or> tx_id \<ge> U64_MAX - 1000000))"

text \<open>The entries of the block from \<open>i\<close> on, as long as they have the key; \<open>room\<close> counts those left.\<close>

fun scan_key ::
  "bytes \<Rightarrow> nat \<Rightarrow> bool \<Rightarrow> bytes \<Rightarrow> u64 \<Rightarrow> u64 \<Rightarrow> nat \<Rightarrow> nat \<Rightarrow> entry option option" where
  "scan_key blk start is_v3 key max_seq_raw max_tx i 0 = Some None"
| "scan_key blk start is_v3 key max_seq_raw max_tx i (Suc room) =
     do {
       entry_key \<leftarrow> get_entry_key_at_index blk start i is_v3;
       if entry_key \<noteq> key then Some None
       else do {
         e \<leftarrow> read_entry blk start i is_v3;
         if entry_visible max_seq_raw max_tx e then Some (Some e)
         else scan_key blk start is_v3 key max_seq_raw max_tx (i + 1) room}}"

text \<open>The blocks from \<open>idx\<close> on; \<open>room\<close> counts those left.\<close>

fun get_blocks ::
  "(bytes \<Rightarrow> bytes) \<Rightarrow> (bytes \<Rightarrow> u32) \<Rightarrow> sst_reader \<Rightarrow> bytes \<Rightarrow> u64 \<Rightarrow> u64 \<Rightarrow> nat \<Rightarrow> nat \<Rightarrow>
   sst_error + entry option" where
  "get_blocks blake3 crc32 rd key max_seq_raw max_tx idx 0 = Inr None"
| "get_blocks blake3 crc32 rd key max_seq_raw max_tx idx (Suc room) =
     bind_res (load_block crc32 rd idx) (\<lambda>(blk, n, start, bloom).
     bind_res
       (if may_contain_key_in_block_bloom blake3 bloom key (rd_version rd)
        then ok_or Storage_error (do {
               found \<leftarrow> binary_search_first_index_in_block blk start n key (rd_version rd \<ge> 3);
               case found of
                 None \<Rightarrow> Some None
               | Some first \<Rightarrow> scan_key blk start (rd_version rd \<ge> 3) key max_seq_raw max_tx first (n - first)})
        else Inr None)
       (\<lambda>hit. case hit of
          Some e \<Rightarrow> Inr (Some e)
        | None \<Rightarrow> if fst (rd_index rd ! idx) \<noteq> key then Inr None
                  else get_blocks blake3 crc32 rd key max_seq_raw max_tx (idx + 1) room))"

text \<open>\<open>while start_idx > 0 && index[start_idx - 1].0 >= key { start_idx -= 1 }\<close>\<close>

fun rewind_index :: "(bytes \<times> nat) list \<Rightarrow> bytes \<Rightarrow> nat \<Rightarrow> nat" where
  "rewind_index index key 0 = 0"
| "rewind_index index key (Suc i) = (if fst (index ! i) \<ge> key then rewind_index index key i else Suc i)"

definition search_start :: "(bytes \<times> nat) list \<Rightarrow> bytes \<Rightarrow> nat" where
  "search_start index key =
     rewind_index index key (case binary_search_by_key fst key index of Inl i \<Rightarrow> i | Inr i \<Rightarrow> i)"

definition get_at ::
  "(bytes \<Rightarrow> bytes) \<Rightarrow> (bytes \<Rightarrow> u32) \<Rightarrow> sst_reader \<Rightarrow> bytes \<Rightarrow> u64 \<Rightarrow> u64 \<Rightarrow>
   sst_error + (bytes \<times> u64 \<times> u64) option" where
  "get_at blake3 crc32 rd key max_seq max_tx =
     (if (case rd_bloom rd of None \<Rightarrow> False | Some bl \<Rightarrow> \<not> may_contain blake3 bl key) then Inr None
      else if key < sm_first_key (rd_meta rd) \<or> key > sm_last_key (rd_meta rd) then Inr None
      else (let start_idx = search_start (rd_index rd) key
            in bind_res (get_blocks blake3 crc32 rd key (mask_seq max_seq) max_tx start_idx
                           (length (rd_index rd) - start_idx))
                 (\<lambda>r. Inr (map_option snd r))))"

definition sst_get ::
  "(bytes \<Rightarrow> bytes) \<Rightarrow> (bytes \<Rightarrow> u32) \<Rightarrow> sst_reader \<Rightarrow> bytes \<Rightarrow> sst_error + (bytes \<times> u64 \<times> u64) option" where
  "sst_get blake3 crc32 rd key = get_at blake3 crc32 rd key U64_MAX U64_MAX"

section \<open>Iteration\<close>

fun read_entries :: "bytes \<Rightarrow> nat \<Rightarrow> bool \<Rightarrow> nat list \<Rightarrow> entry list option" where
  "read_entries blk start is_v3 [] = Some []"
| "read_entries blk start is_v3 (i # is') =
     do {
       e \<leftarrow> read_entry blk start i is_v3;
       es \<leftarrow> read_entries blk start is_v3 is';
       Some (e # es)}"

fun iter_blocks :: "(bytes \<Rightarrow> u32) \<Rightarrow> sst_reader \<Rightarrow> nat list \<Rightarrow> sst_error + (bytes \<times> bytes \<times> u64) list" where
  "iter_blocks crc32 rd [] = Inr []"
| "iter_blocks crc32 rd (idx # idxs) =
     bind_res (load_block crc32 rd idx) (\<lambda>(blk, n, start, bloom).
     bind_res (ok_or Storage_error (read_entries blk start (rd_version rd \<ge> 3) [0..<n])) (\<lambda>es.
     bind_res (iter_blocks crc32 rd idxs) (\<lambda>rest.
       Inr (map (\<lambda>(k, v, s, t). (k, v, s)) es @ rest))))"

definition sst_iter :: "(bytes \<Rightarrow> u32) \<Rightarrow> sst_reader \<Rightarrow> sst_error + (bytes \<times> bytes \<times> u64) list" where
  "sst_iter crc32 rd = iter_blocks crc32 rd [0..<length (rd_index rd)]"

text \<open>The stream of the compaction.\<close>

record sst_stream =
  ss_block_idx :: nat
  ss_entry_idx :: nat
  ss_current :: "bytes option"
  ss_num_offsets :: nat
  ss_offsets_start :: nat

definition sst_stream_new :: sst_stream where
  "sst_stream_new =
     \<lparr>ss_block_idx = 0, ss_entry_idx = 0, ss_current = None, ss_num_offsets = 0, ss_offsets_start = 0\<rparr>"

definition stream_yield :: "sst_reader \<Rightarrow> bytes \<Rightarrow> sst_stream \<Rightarrow> sst_error + sst_stream \<times> entry option" where
  "stream_yield rd blk st =
     bind_res (ok_or Storage_error (read_entry blk (ss_offsets_start st) (ss_entry_idx st) (rd_version rd \<ge> 3)))
       (\<lambda>e. Inr (st\<lparr>ss_entry_idx := ss_entry_idx st + 1\<rparr>, Some e))"

function stream_load :: "(bytes \<Rightarrow> u32) \<Rightarrow> sst_reader \<Rightarrow> sst_stream \<Rightarrow> sst_error + sst_stream \<times> entry option" where
  "stream_load crc32 rd st =
     (if ss_block_idx st \<ge> length (rd_index rd) then Inr (st, None)
      else bind_res (load_block crc32 rd (ss_block_idx st)) (\<lambda>(blk, n, start, bloom).
             let st' = st\<lparr>ss_block_idx := ss_block_idx st + 1, ss_entry_idx := 0, ss_num_offsets := n,
                          ss_offsets_start := start, ss_current := Some blk\<rparr>
             in if 0 < n then stream_yield rd blk st' else stream_load crc32 rd (st'\<lparr>ss_current := None\<rparr>)))"
  by auto
termination
  by (relation "measure (\<lambda>(c, rd, st). length (rd_index rd) - ss_block_idx st)") auto

declare stream_load.simps [simp del]

definition stream_next :: "(bytes \<Rightarrow> u32) \<Rightarrow> sst_reader \<Rightarrow> sst_stream \<Rightarrow> sst_error + sst_stream \<times> entry option" where
  "stream_next crc32 rd st =
     (if rd_index rd = [] then Inr (st, None)
      else (case ss_current st of
              None \<Rightarrow> stream_load crc32 rd st
            | Some blk \<Rightarrow>
                if ss_entry_idx st \<ge> ss_num_offsets st then stream_load crc32 rd st
                else stream_yield rd blk st))"

end
