(* ===== verification/SstWrite.thy ===== *)
theory SstWrite
  imports SstFile BlockCorrect
begin

text \<open>
  What a sequence of accepted \<open>add\<close> calls leaves behind: the entries in ascending order, split over
  blocks that were sealed into the file and the open block, with the index, the Bloom filter and the
  bounds of the sequence numbers and transactions to match.
\<close>

section \<open>The order of entries\<close>

text \<open>Ascending keys, and for one key strictly descending sequence numbers.\<close>

definition entry_before :: "entry \<Rightarrow> entry \<Rightarrow> bool" where
  "entry_before e1 e2 \<longleftrightarrow> fst e1 < fst e2 \<or>
     fst e1 = fst e2 \<and> mask_seq (fst (snd (snd e2))) < mask_seq (fst (snd (snd e1)))"

abbreviation entries_sorted :: "entry list \<Rightarrow> bool" where
  "entries_sorted es \<equiv> sorted_wrt entry_before es"

lemma entry_before_trans: "entry_before e1 e2 \<Longrightarrow> entry_before e2 e3 \<Longrightarrow> entry_before e1 e3"
  by (auto simp: entry_before_def)

lemma entries_sorted_keys: "entries_sorted es \<Longrightarrow> sorted (map fst es)"
  by (induction es) (auto simp: entry_before_def intro: less_imp_le)

lemma entries_sorted_snoc:
  assumes "entries_sorted es" and "es \<noteq> [] \<Longrightarrow> entry_before (last es) e"
  shows "entries_sorted (es @ [e])"
proof (cases es rule: rev_cases)
  case Nil
  then show ?thesis by simp
next
  case (snoc es' l)
  with assms entry_before_trans [of _ l e] show ?thesis by (auto simp: sorted_wrt_append)
qed

definition entry_valid :: "entry \<Rightarrow> bool" where
  "entry_valid e \<longleftrightarrow> fst e \<noteq> [] \<and> length (fst e) \<le> 65535 \<and> length (fst (snd e)) \<le> MAX_VALUE_SIZE"

abbreviation seq_of :: "entry \<Rightarrow> u64" where
  "seq_of e \<equiv> fst (snd (snd e))"

abbreviation tx_of :: "entry \<Rightarrow> u64" where
  "tx_of e \<equiv> snd (snd (snd e))"

section \<open>What the builder notes\<close>

definition noted :: "(bytes \<Rightarrow> bytes) \<Rightarrow> bloom_filter \<Rightarrow> entry list \<Rightarrow> sst_builder \<Rightarrow> bool" where
  "noted blake3 bl es sb \<longleftrightarrow>
     entries_sorted es \<and> (\<forall>e \<in> set es. entry_valid e) \<and>
     sb_first_key sb = (if es = [] then None else Some (fst (hd es))) \<and>
     sb_last_key sb = (if es = [] then None else Some (fst (last es))) \<and>
     sb_prev_seq sb = (if es = [] then None else Some (mask_seq (seq_of (last es)))) \<and>
     sb_bloom sb = foldl (bloom_insert blake3) bl (map fst es) \<and>
     sb_key_count sb = length es \<and>
     sb_min_tx sb = foldl min U64_MAX (map tx_of es) \<and>
     sb_max_tx sb = foldl max 0 (map tx_of es) \<and>
     sb_min_seq sb = foldl min U64_MAX (map (\<lambda>e. mask_seq (seq_of e)) es) \<and>
     sb_max_seq sb = foldl max 0 (map (\<lambda>e. mask_seq (seq_of e)) es)"

lemma flush_block_noted:
  "flush_block crc32 sb = Inr sb' \<Longrightarrow> noted blake3 bl es sb \<Longrightarrow> noted blake3 bl es sb'"
  by (auto simp: flush_block_def noted_def bind_res_Inr split: if_splits)

text \<open>The two ways in which \<open>add\<close> succeeds: into the open block, or into a new one after a flush.\<close>

lemma sst_add_cases:
  assumes "sst_add blake3 crc32 sb (k, v, s, t) = Inr sb'"
  obtains sb1 sb2 bb where
    "entry_valid (k, v, s, t)" and "add_order_ok sb k (mask_seq s)"
    and "sb1 = (case sb_first_key sb of None \<Rightarrow> sb\<lparr>sb_first_key := Some k\<rparr> | Some _ \<Rightarrow> sb)"
    and "sb2 = sb1 \<or> flush_block crc32 sb1 = Inr sb2"
    and "bb_add blake3 (sb_block sb2) k v s t = (bb, True)"
    and "sb' = note_entry blake3 (k, v, s, t) (sb2\<lparr>sb_block := bb\<rparr>)"
proof -
  let ?sb1 = "case sb_first_key sb of None \<Rightarrow> sb\<lparr>sb_first_key := Some k\<rparr> | Some _ \<Rightarrow> sb"
  have ok: "entry_valid (k, v, s, t)" "add_order_ok sb k (mask_seq s)"
    using assms by (auto simp: sst_add_def entry_valid_def split: if_splits)
  then have run: "(case bb_add blake3 (sb_block ?sb1) k v s t of
                   (block, True) \<Rightarrow> Inr (note_entry blake3 (k, v, s, t) (?sb1\<lparr>sb_block := block\<rparr>))
                 | (_, False) \<Rightarrow>
                     bind_res (flush_block crc32 ?sb1) (\<lambda>sb2.
                       case bb_add blake3 (sb_block sb2) k v s t of
                         (block, True) \<Rightarrow> Inr (note_entry blake3 (k, v, s, t) (sb2\<lparr>sb_block := block\<rparr>))
                       | (_, False) \<Rightarrow> Inl Storage_error)) = Inr sb'"
    using assms unfolding sst_add_def Let_def entry_valid_def by (auto split: if_splits)
  obtain bb added where add: "bb_add blake3 (sb_block ?sb1) k v s t = (bb, added)" by force
  show thesis
  proof (cases added)
    case True
    with run add show thesis by (intro that [OF ok refl, of ?sb1 bb]) simp_all
  next
    case False
    with run add obtain sb2 where sb2: "flush_block crc32 ?sb1 = Inr sb2"
      and rest: "(case bb_add blake3 (sb_block sb2) k v s t of
                         (block, True) \<Rightarrow> Inr (note_entry blake3 (k, v, s, t) (sb2\<lparr>sb_block := block\<rparr>))
                       | (_, False) \<Rightarrow> Inl Storage_error) = Inr sb'"
      by (auto simp: bind_res_Inr)
    obtain bb' added' where add': "bb_add blake3 (sb_block sb2) k v s t = (bb', added')" by force
    with rest have "added'" by (cases added') simp_all
    with rest add' sb2 show thesis by (intro that [OF ok refl, of sb2 bb']) simp_all
  qed
qed

lemma sst_add_noted:
  assumes "sst_add blake3 crc32 sb e = Inr sb'" and "noted blake3 bl es sb"
  shows "noted blake3 bl (es @ [e]) sb'"
proof -
  obtain k v s t where e: "e = (k, v, s, t)" by (cases e) blast
  obtain sb1 sb2 bb where add: "entry_valid (k, v, s, t)" "add_order_ok sb k (mask_seq s)"
    and sb1: "sb1 = (case sb_first_key sb of None \<Rightarrow> sb\<lparr>sb_first_key := Some k\<rparr> | Some _ \<Rightarrow> sb)"
    and sb2: "sb2 = sb1 \<or> flush_block crc32 sb1 = Inr sb2"
    and sb': "sb' = note_entry blake3 (k, v, s, t) (sb2\<lparr>sb_block := bb\<rparr>)"
    using sst_add_cases [OF assms(1) [unfolded e]] by metis
  let ?noted1 = "\<lambda>sb. noted blake3 bl es (sb\<lparr>sb_first_key := (if es = [] then None else Some (fst (hd es)))\<rparr>)
      \<and> sb_first_key sb = Some (fst (hd (es @ [e])))"
  have n1: "?noted1 sb1"
    using assms(2) by (cases "es = []") (auto simp: sb1 noted_def e)
  have n2: "?noted1 sb2"
    using sb2
  proof
    assume "flush_block crc32 sb1 = Inr sb2"
    with n1 show ?thesis by (auto simp: flush_block_def noted_def bind_res_Inr split: if_splits)
  qed (use n1 in simp)
  have order: "entry_before (last es) e" if "es \<noteq> []"
    using add(2) assms(2) that
    by (auto simp: add_order_ok_def noted_def entry_before_def e not_le not_less split: if_splits)
  have "entries_sorted (es @ [e])"
    using assms(2) order by (intro entries_sorted_snoc) (simp_all add: noted_def)
  then show ?thesis
    using n2 add(1) by (simp add: noted_def sb' note_entry_def e Let_def)
qed

section \<open>What stands in the file\<close>

text \<open>The size of a block is bounded by the limit of the builder, or by the one entry that it holds.\<close>

definition block_sized :: "entry list \<Rightarrow> block_builder \<Rightarrow> bool" where
  "block_sized es bb \<longleftrightarrow> bb_block_size bb = BLOCK_SIZE \<and>
     (es \<noteq> [] \<longrightarrow> length (build bb) \<le> BLOCK_SIZE \<or>
       (\<exists>k v s t. es = [(k, v, s, t)] \<and> length (build bb) \<le> length k + length v + 62))"

lemma bb_add_sized:
  assumes "bb_ok blake3 es bb" and "3 \<le> bb_version bb" and "block_sized es bb" and "bb_add blake3 bb k v s t = (bb', True)"
  shows "block_sized (es @ [(k, v, s, t)]) bb'"
  using bb_add_size [OF assms(1,2,4)] bb_add_ok(3) [OF assms(1,4)] assms(3)
  by (cases "es = []") (auto simp: block_sized_def)

lemma block_sized_new: "block_sized [] (new_with_version BLOCK_SIZE v)"
  by (simp add: block_sized_def new_with_version_def BLOCK_SIZE_def clamp_def)

definition good_block :: "(bytes \<Rightarrow> bytes) \<Rightarrow> nat \<Rightarrow> entry list \<times> block_builder \<Rightarrow> bool" where
  "good_block blake3 v b \<longleftrightarrow> fst b \<noteq> [] \<and> bb_ok blake3 (fst b) (snd b) \<and> bb_version (snd b) = v \<and>
     block_sized (fst b) (snd b)"

definition block_index :: "(entry list \<times> block_builder) list \<Rightarrow> bytes list \<Rightarrow> (bytes \<times> nat) list" where
  "block_index blks sealed =
     map (\<lambda>i. (fst (last (fst (blks ! i))), length (concat (take i sealed)))) [0..<length blks]"

definition sealed_as ::
  "(bytes \<Rightarrow> u32) \<Rightarrow> key_manager option \<Rightarrow> (entry list \<times> block_builder) list \<Rightarrow> bytes list \<Rightarrow> bool" where
  "sealed_as crc32 km blks sealed \<longleftrightarrow> length sealed = length blks \<and>
     (\<forall>i < length blks. seal_block crc32 km i (build (snd (blks ! i))) = Inr (sealed ! i))"

definition stored ::
  "(bytes \<Rightarrow> bytes) \<Rightarrow> (bytes \<Rightarrow> u32) \<Rightarrow> key_manager option \<Rightarrow> nat \<Rightarrow> (entry list \<times> block_builder) list \<Rightarrow>
   bytes list \<Rightarrow> entry list \<Rightarrow> sst_builder \<Rightarrow> bool" where
  "stored blake3 crc32 km v blks sealed cur sb \<longleftrightarrow>
     (\<forall>b \<in> set blks. good_block blake3 v b) \<and> bb_ok blake3 cur (sb_block sb) \<and>
     3 \<le> v \<and> block_sized cur (sb_block sb) \<and>
     bb_version (sb_block sb) = v \<and> sb_version sb = v \<and> sb_km sb = km \<and>
     sealed_as crc32 km blks sealed \<and>
     sb_file sb = concat sealed \<and> sb_offset sb = length (concat sealed) \<and> sb_offset sb < 2 ^ 64 \<and>
     sb_index sb = block_index blks sealed"

lemma block_index_snoc:
  assumes "length sealed = length blks"
  shows "block_index (blks @ [b]) (sealed @ [s]) = block_index blks sealed @ [(fst (last (fst b)), length (concat sealed))]"
proof -
  have "map (\<lambda>i. (fst (last (fst ((blks @ [b]) ! i))), length (concat (take i (sealed @ [s]))))) [0..<length blks] =
      block_index blks sealed"
    unfolding block_index_def by (rule map_cong) (simp_all add: nth_append assms)
  with assms show ?thesis by (simp add: block_index_def)
qed

lemma flush_block_stored:
  assumes "stored blake3 crc32 km v blks sealed cur sb" and "flush_block crc32 sb = Inr sb'"
    and "cur \<noteq> [] \<Longrightarrow> sb_last_key sb = Some (fst (last cur))"
  obtains blks' sealed' where "stored blake3 crc32 km v blks' sealed' [] sb'"
    and "concat (map fst blks') = concat (map fst blks) @ cur"
proof (cases "cur = []")
  case True
  then have "bb_offsets (sb_block sb) = []" using assms(1) by (simp add: stored_def bb_ok_def)
  then have "sb' = sb" using assms(2) by (simp add: flush_block_def bb_is_empty_def)
  with True assms(1) that [of blks sealed] show thesis by simp
next
  case False
  then have ne: "bb_offsets (sb_block sb) \<noteq> []" using assms(1) by (simp add: stored_def bb_ok_def)
  have len: "length (sb_index sb) = length blks" using assms(1) by (simp add: stored_def block_index_def)
  from assms(2,3) False ne obtain s where seal: "seal_block crc32 km (length blks) (build (sb_block sb)) = Inr s"
    and fits: "sb_offset sb + length s < 2 ^ 64"
    and sb': "sb' = sb\<lparr>sb_block := new_with_version BLOCK_SIZE (sb_version sb), sb_file := sb_file sb @ s,
      sb_index := sb_index sb @ [(fst (last cur), sb_offset sb)], sb_offset := sb_offset sb + length s\<rparr>"
    using assms(1) len
    by (auto simp: flush_block_def bb_is_empty_def bind_res_Inr stored_def split: if_splits)
  have "good_block blake3 v (cur, sb_block sb)" using assms(1) False by (simp add: good_block_def stored_def)
  moreover have "sealed_as crc32 km (blks @ [(cur, sb_block sb)]) (sealed @ [s])"
    using assms(1) seal by (auto simp: sealed_as_def stored_def nth_append less_Suc_eq)
  moreover have "length sealed = length blks" using assms(1) by (simp add: stored_def sealed_as_def)
  ultimately have "stored blake3 crc32 km v (blks @ [(cur, sb_block sb)]) (sealed @ [s]) [] sb'"
    using assms(1) fits bb_ok_new [of blake3 BLOCK_SIZE v] block_sized_new [of v]
    by (auto simp: stored_def sb' block_index_snoc) (simp_all add: new_with_version_def)
  then show thesis by (rule that) simp
qed

lemma sst_add_stored:
  assumes add: "sst_add blake3 crc32 sb e = Inr sb'" and inv: "stored blake3 crc32 km v blks sealed cur sb"
    and last: "cur \<noteq> [] \<Longrightarrow> sb_last_key sb = Some (fst (last cur))"
  obtains blks' sealed' cur' where "stored blake3 crc32 km v blks' sealed' cur' sb'"
    and "concat (map fst blks') @ cur' = concat (map fst blks) @ cur @ [e]" and "cur' \<noteq> []"
    and "last cur' = e"
proof -
  obtain k v' s t where e: "e = (k, v', s, t)" by (cases e) blast
  obtain sb1 sb2 bb where
    sb1: "sb1 = (case sb_first_key sb of None \<Rightarrow> sb\<lparr>sb_first_key := Some k\<rparr> | Some _ \<Rightarrow> sb)"
    and sb2: "sb2 = sb1 \<or> flush_block crc32 sb1 = Inr sb2"
    and bb: "bb_add blake3 (sb_block sb2) k v' s t = (bb, True)"
    and sb': "sb' = note_entry blake3 (k, v', s, t) (sb2\<lparr>sb_block := bb\<rparr>)"
    using sst_add_cases [OF add [unfolded e]] by metis
  have inv1: "stored blake3 crc32 km v blks sealed cur sb1"
    using inv by (cases "sb_first_key sb") (simp_all add: sb1 stored_def)
  have last1: "cur \<noteq> [] \<Longrightarrow> sb_last_key sb1 = Some (fst (last cur))"
    using last by (cases "sb_first_key sb") (simp_all add: sb1)
  obtain blks' sealed' cur' where inv2: "stored blake3 crc32 km v blks' sealed' cur' sb2"
    and ents: "concat (map fst blks') @ cur' = concat (map fst blks) @ cur"
    using sb2
  proof
    assume "sb2 = sb1"
    with inv1 that show thesis by blast
  next
    assume "flush_block crc32 sb1 = Inr sb2"
    from flush_block_stored [OF inv1 this last1] that show thesis by (metis append_Nil2)
  qed
  have ok2: "bb_ok blake3 cur' (sb_block sb2)" "3 \<le> bb_version (sb_block sb2)" "block_sized cur' (sb_block sb2)"
    using inv2 by (simp_all add: stored_def)
  note ok = bb_add_ok [OF ok2(1) bb] bb_add_sized [OF ok2 bb]
  have "stored blake3 crc32 km v blks' sealed' (cur' @ [e]) sb'"
    using inv2 ok by (simp add: stored_def sb' note_entry_def Let_def e)
  with ents show thesis by (intro that [of blks' sealed' "cur' @ [e]"]) simp_all
qed

lemma sst_add_all_inv:
  assumes "sst_add_all blake3 crc32 sb es' = Inr sb'"
    and "noted blake3 bl es sb" and "stored blake3 crc32 km v blks sealed cur sb"
    and "concat (map fst blks) @ cur = es"
  shows "noted blake3 bl (es @ es') sb' \<and>
    (\<exists>blks sealed cur. stored blake3 crc32 km v blks sealed cur sb' \<and> concat (map fst blks) @ cur = es @ es')"
  using assms
proof (induction es' arbitrary: sb es blks sealed cur)
  case Nil
  then show ?case by auto
next
  case (Cons e es')
  from Cons.prems(1) obtain sb1 where add: "sst_add blake3 crc32 sb e = Inr sb1"
    and rest: "sst_add_all blake3 crc32 sb1 es' = Inr sb'" by (auto simp: bind_res_Inr)
  have last: "sb_last_key sb = Some (fst (last cur))" if "cur \<noteq> []"
    using Cons.prems(2,4) that by (auto simp: noted_def)
  obtain blks1 sealed1 cur1 where st: "stored blake3 crc32 km v blks1 sealed1 cur1 sb1"
    and ents: "concat (map fst blks1) @ cur1 = concat (map fst blks) @ cur @ [e]"
    using sst_add_stored [OF add Cons.prems(3) last] by metis
  have "concat (map fst blks1) @ cur1 = es @ [e]" using ents Cons.prems(4) by auto
  from Cons.IH [OF rest sst_add_noted [OF add Cons.prems(2)] st this] show ?case by simp
qed

text \<open>A new file, in format \<open>v\<close>, with all entries, and closed.\<close>

definition sst_write ::
  "(bytes \<Rightarrow> bytes) \<Rightarrow> (bytes \<Rightarrow> u32) \<Rightarrow> key_manager option \<Rightarrow> nat \<Rightarrow> nat \<Rightarrow> nat \<Rightarrow> entry list \<Rightarrow>
   sst_error + bytes \<times> sst_meta" where
  "sst_write blake3 crc32 km m hashes v es =
     bind_res (sst_add_all blake3 crc32 (set_format_version (sst_create m hashes km) v) es) (sst_finish crc32)"

lemma sst_new_inv:
  "noted blake3 (bloom_new m hashes) [] (set_format_version (sst_create m hashes km) v)"
  "3 \<le> v \<Longrightarrow> stored blake3 crc32 km v [] [] [] (set_format_version (sst_create m hashes km) v)"
  by (simp_all add: noted_def stored_def set_format_version_def sst_create_def sealed_as_def block_index_def
      bb_ok_new block_sized_new) (simp_all add: new_with_version_def)

text \<open>The closed file: sealed blocks, index, Bloom filter, trailer.\<close>

lemma sst_write_layout:
  assumes "sst_write blake3 crc32 km m hashes v es = Inr (file, meta)" and v: "3 \<le> v"
  obtains blks sealed sb ib where
    "concat (map fst blks) = es" and "\<forall>b \<in> set blks. good_block blake3 v b" and "sealed_as crc32 km blks sealed"
    and "noted blake3 (bloom_new m hashes) es sb" and "sb_version sb = v"
    and "ib = with_crc crc32 (concat (map index_entry (block_index blks sealed)))"
    and "length (concat sealed) + length ib < 2 ^ 64"
    and "file = concat sealed @ ib @ with_crc crc32 (to_bytes (foldl (bloom_insert blake3) (bloom_new m hashes) (map fst es))) @
      sst_trailer sb (length (concat sealed) + length ib) (length (concat sealed))"
    and "meta = \<lparr>sm_first_key = (if es = [] then [] else fst (hd es)), sm_last_key = (if es = [] then [] else fst (last es)),
      sm_file_size = length file, sm_min_tx = (if es = [] then 0 else sb_min_tx sb),
      sm_max_tx = (if es = [] then 0 else sb_max_tx sb), sm_min_seq = (if es = [] then 0 else sb_min_seq sb),
      sm_max_seq = (if es = [] then 0 else sb_max_seq sb)\<rparr>"
proof -
  from assms(1) obtain sb0 where add: "sst_add_all blake3 crc32 (set_format_version (sst_create m hashes km) v) es = Inr sb0"
    and fin: "sst_finish crc32 sb0 = Inr (file, meta)" by (auto simp: sst_write_def bind_res_Inr)
  have new: "concat (map fst []) @ [] = ([] :: entry list)" by simp
  from sst_add_all_inv [OF add sst_new_inv(1) sst_new_inv(2) [OF v] new] obtain blks0 sealed0 cur where
    noted0: "noted blake3 (bloom_new m hashes) es sb0" and st0: "stored blake3 crc32 km v blks0 sealed0 cur sb0"
    and ents0: "concat (map fst blks0) @ cur = es" by auto
  have last: "cur \<noteq> [] \<Longrightarrow> sb_last_key sb0 = Some (fst (last cur))" using noted0 ents0 by (auto simp: noted_def)
  from fin obtain sb where flush: "flush_block crc32 sb0 = Inr sb" by (auto simp: sst_finish_def bind_res_Inr)
  obtain blks sealed where st: "stored blake3 crc32 km v blks sealed [] sb" and ents: "concat (map fst blks) = es"
    using flush_block_stored [OF st0 flush last] ents0 by metis
  have noted: "noted blake3 (bloom_new m hashes) es sb" by (rule flush_block_noted [OF flush noted0])
  let ?ib = "with_crc crc32 (concat (map index_entry (block_index blks sealed)))"
  have parts: "sb_index sb = block_index blks sealed" "sb_file sb = concat sealed" "sb_offset sb = length (concat sealed)"
    "sb_bloom sb = foldl (bloom_insert blake3) (bloom_new m hashes) (map fst es)" "sb_version sb = v"
    "sb_key_count sb = length es" "\<forall>b \<in> set blks. good_block blake3 v b" "sealed_as crc32 km blks sealed"
    "sb_first_key sb = (if es = [] then None else Some (fst (hd es)))"
    "sb_last_key sb = (if es = [] then None else Some (fst (last es)))"
    using st noted by (simp_all add: stored_def noted_def)
  have small: "length (concat sealed) + length ?ib < 2 ^ 64"
    and fl: "file = concat sealed @ ?ib @ with_crc crc32 (to_bytes (sb_bloom sb)) @
      sst_trailer sb (length (concat sealed) + length ?ib) (length (concat sealed))"
    and meta: "meta = \<lparr>sm_first_key = (if es = [] then [] else fst (hd es)), sm_last_key = (if es = [] then [] else fst (last es)),
      sm_file_size = length file, sm_min_tx = (if es = [] then 0 else sb_min_tx sb),
      sm_max_tx = (if es = [] then 0 else sb_max_tx sb), sm_min_seq = (if es = [] then 0 else sb_min_seq sb),
      sm_max_seq = (if es = [] then 0 else sb_max_seq sb)\<rparr>"
    using fin flush unfolding sst_finish_def by (auto simp: Let_def parts(1-3,6,9,10) split: if_splits)
  show thesis
    by (rule that [OF ents parts(7,8) noted parts(5) refl small]) (simp_all add: fl parts(4) meta)
qed

end
