(* ===== verification/SstRead.thy ===== *)
theory SstRead
  imports SstWrite
begin

text \<open>
  Reading a closed SSTable: opening it finds the index, the Bloom filter and the bounds that were
  written, and every block of the index is decoded to its entries. The assumptions on third-party
  code are that decryption inverts encryption and that the nonce and the authentication tag have
  12 and 16 bytes; nothing is assumed of the checksum and of the hash.
\<close>

section \<open>Blocks\<close>

definition km_ok :: "key_manager option \<Rightarrow> bool" where
  "km_ok km \<longleftrightarrow> (\<forall>m i b c n. km = Some m \<longrightarrow> km_seal m i b = Some (c, n) \<longrightarrow>
     length n = 12 \<and> length c = length b + 16 \<and> km_open m c n = Some b)"

definition MAX_BLOCK :: nat where
  "MAX_BLOCK = 16 * 1024 * 1024"

lemma strip_with_crc: "strip_crc crc32 (with_crc crc32 payload) = Inr payload"
proof -
  have len: "length (put_u32 n) = 4" for n by (rule le32.put_width)
  have "unat (crc32 payload) < 256 ^ 4" using unsigned_less [of "crc32 payload", where 'a = nat] by simp
  then have "get_le (put_u32 (unat (crc32 payload))) = unat (crc32 payload)" by (simp add: put_u32_def get_put_le)
  then show ?thesis by (simp add: strip_crc_def with_crc_def len)
qed

lemma read_sealed:
  assumes "seal_block crc32 km i blk = Inr s" and "km_ok km" and "length s \<le> MAX_BLOCK" and "length p = off"
  shows "read_block_at_file crc32 (p @ s @ q) off (off + length s) km True = Inr blk"
proof -
  have slice: "slice (p @ s @ q) off (off + length s) = Some s" using assms(4) by (intro slice_mid) simp_all
  have fits: "\<not> length s > 16 * 1024 * 1024" using assms(3) by (simp add: MAX_BLOCK_def)
  show ?thesis
  proof (cases km)
    case None
    with assms(1) have "s = with_crc crc32 blk" by (simp add: seal_block_def with_crc_def)
    then show ?thesis
      using slice fits strip_with_crc by (simp add: read_block_at_file_def None Let_def)
  next
    case (Some m)
    with assms(1) obtain c n where seal: "km_seal m i (with_crc crc32 blk) = Some (c, n)" and s: "s = n @ c"
      by (auto simp: seal_block_def with_crc_def Let_def split: option.splits prod.splits)
    with assms(2) Some have n: "length n = 12" "km_open m c n = Some (with_crc crc32 blk)"
      unfolding km_ok_def by blast+
    with slice fits strip_with_crc show ?thesis by (simp add: read_block_at_file_def Some Let_def s)
  qed
qed

section \<open>The index\<close>

lemma length_index_entry: "length (index_entry e) = length (fst e) + 10"
  by (simp add: index_entry_def le16.put_width le64.put_width)

lemma parse_index_step:
  assumes "pos + 10 \<le> length buf" and "get_le (take 2 (drop pos buf)) = n" and "pos + 2 + n + 8 \<le> length buf"
    and "take n (drop (pos + 2) buf) = key" and "get_le (take 8 (drop (pos + 2 + n) buf)) = off"
    and "off \<le> index_offset" and "parse_index buf index_offset (pos + 2 + n + 8) = Inr rest"
  shows "parse_index buf index_offset pos = Inr ((key, off) # rest)"
  using assms by (subst parse_index.simps) (simp add: Let_def)

lemma parse_index_entries:
  assumes "\<forall>e \<in> set idx. length (fst e) < 2 ^ 16 \<and> snd e \<le> index_offset" and "index_offset < 2 ^ 64"
  shows "parse_index (p @ concat (map index_entry idx)) index_offset (length p) = Inr idx"
  using assms(1)
proof (induction idx arbitrary: p)
  case Nil
  then show ?case by (subst parse_index.simps) simp
next
  case (Cons e idx)
  obtain key off where e: "e = (key, off)" by force
  have key: "length key < 2 ^ 16" and off: "off \<le> index_offset" using Cons.prems by (simp_all add: e)
  let ?buf = "p @ concat (map index_entry (e # idx))" and ?rest = "concat (map index_entry idx)"
  have w: "length (put_u16 n) = 2" "length (put_u64 x) = 8" for n x by (rule le16.put_width, rule le64.put_width)
  have buf: "?buf = p @ put_u16 (length key) @ key @ put_u64 (of_nat off) @ ?rest"
    by (simp add: e index_entry_def)
  have l1: "get_le (take 2 (drop (length p) ?buf)) = length key"
    unfolding buf using key w(1) by (simp add: put_u16_def get_put_le)
  have l2: "take (length key) (drop (length p + 2) ?buf) = key"
    unfolding buf using w(1) by simp
  have l3: "get_le (take 8 (drop (length p + 2 + length key) ?buf)) = off"
  proof -
    have "?buf = (p @ put_u16 (length key) @ key) @ put_u64 (of_nat off) @ ?rest" unfolding buf by simp
    moreover have "length (p @ put_u16 (length key) @ key) = length p + 2 + length key" by (simp add: w)
    ultimately have "drop (length p + 2 + length key) ?buf = put_u64 (of_nat off) @ ?rest"
      by (metis append_eq_conv_conj)
    moreover have "get_le (put_u64 (of_nat off)) = off"
      using off assms(2) by (simp add: put_u64_def get_put_le unat_of_nat)
    ultimately show ?thesis using w(2) by simp
  qed
  have len: "length ?buf = length p + 2 + length key + 8 + length ?rest" unfolding buf by (simp add: w)
  have next_pos: "length p + 2 + length key + 8 = length (p @ index_entry e)" by (simp add: length_index_entry e)
  have "parse_index ((p @ index_entry e) @ ?rest) index_offset (length (p @ index_entry e)) = Inr idx"
    using Cons.prems by (intro Cons.IH) simp
  then have rest: "parse_index ?buf index_offset (length p + 2 + length key + 8) = Inr idx"
    unfolding next_pos by simp
  have c1: "length p + 10 \<le> length ?buf" and c2: "length p + 2 + length key + 8 \<le> length ?buf"
    using len by simp_all
  from parse_index_step [OF c1 l1 c2 l2 l3 off rest] show ?case by (simp add: e)
qed

section \<open>Opening\<close>

lemma length_trailer: "length (sst_trailer sb a b) = 54"
  by (simp add: sst_trailer_def le16.put_width le32.put_width le64.put_width)

lemma trailer_fields:
  assumes "v < 2 ^ 16" and "sb_version sb = v" and "a < 2 ^ 64" and "b < 2 ^ 64"
  shows "detect_format (sst_trailer sb a b) = (v, True)"
    and "read_le 8 (sst_trailer sb a b) 0 = Some (unat (sb_min_tx sb))"
    and "read_le 8 (sst_trailer sb a b) 8 = Some (unat (sb_max_tx sb))"
    and "read_le 8 (sst_trailer sb a b) 16 = Some (unat (sb_min_seq sb))"
    and "read_le 8 (sst_trailer sb a b) 24 = Some (unat (sb_max_seq sb))"
    and "read_le 8 (sst_trailer sb a b) 32 = Some a"
    and "read_le 8 (sst_trailer sb a b) 40 = Some b"
proof -
  let ?t = "sst_trailer sb a b"
  note w [simp] = le16.put_width le32.put_width le64.put_width
  have "get_le (put_u16 v) = v" using assms(1) by (simp add: put_u16_def get_put_le)
  moreover have "get_le (put_u32 SSTABLE_MAGIC_MFSX) = SSTABLE_MAGIC_MFSX"
    by (simp add: put_u32_def get_put_le SSTABLE_MAGIC_MFSX_def)
  ultimately show "detect_format ?t = (v, True)"
    using length_trailer [of sb a b]
    by (simp add: detect_format_def) (simp add: sst_trailer_def assms(2))
  note r = read_u64_mid
  show "read_le 8 ?t 0 = Some (unat (sb_min_tx sb))"
    unfolding sst_trailer_def using r [of "[]" 0 "sb_min_tx sb"] by simp
  show "read_le 8 ?t 8 = Some (unat (sb_max_tx sb))"
    unfolding sst_trailer_def by (rule r [of "put_u64 (sb_min_tx sb)"]) simp
  show "read_le 8 ?t 16 = Some (unat (sb_min_seq sb))"
    unfolding sst_trailer_def
    using r [of "put_u64 (sb_min_tx sb) @ put_u64 (sb_max_tx sb)" 16 "sb_min_seq sb"] by simp
  show "read_le 8 ?t 24 = Some (unat (sb_max_seq sb))"
    unfolding sst_trailer_def
    using r [of "put_u64 (sb_min_tx sb) @ put_u64 (sb_max_tx sb) @ put_u64 (sb_min_seq sb)" 24 "sb_max_seq sb"] by simp
  have a: "unat (of_nat a :: u64) = a" and b: "unat (of_nat b :: u64) = b"
    using assms(3,4) by (simp_all add: unat_of_nat)
  show "read_le 8 ?t 32 = Some a"
    unfolding sst_trailer_def
    using r [of "put_u64 (sb_min_tx sb) @ put_u64 (sb_max_tx sb) @ put_u64 (sb_min_seq sb) @ put_u64 (sb_max_seq sb)" 32
        "of_nat a"] a by simp
  show "read_le 8 ?t 40 = Some b"
    unfolding sst_trailer_def
    using r [of "put_u64 (sb_min_tx sb) @ put_u64 (sb_max_tx sb) @ put_u64 (sb_min_seq sb) @ put_u64 (sb_max_seq sb) @
        put_u64 (of_nat a)" 40 "of_nat b"] b by simp
qed

text \<open>A closed file with the blocks \<open>blks\<close>, sealed as \<open>sealed\<close>.\<close>

definition index_bytes :: "(bytes \<Rightarrow> u32) \<Rightarrow> (entry list \<times> block_builder) list \<Rightarrow> bytes list \<Rightarrow> bytes" where
  "index_bytes crc32 blks sealed = with_crc crc32 (concat (map index_entry (block_index blks sealed)))"

definition file_of ::
  "(bytes \<Rightarrow> u32) \<Rightarrow> (entry list \<times> block_builder) list \<Rightarrow> bytes list \<Rightarrow> bloom_filter \<Rightarrow> sst_builder \<Rightarrow> bytes" where
  "file_of crc32 blks sealed bl sb =
     concat sealed @ index_bytes crc32 blks sealed @ with_crc crc32 (to_bytes bl) @
     sst_trailer sb (length (concat sealed) + length (index_bytes crc32 blks sealed)) (length (concat sealed))"

text \<open>What must hold of the pieces of a file that is to be read back.\<close>

definition file_ok ::
  "(bytes \<Rightarrow> bytes) \<Rightarrow> (bytes \<Rightarrow> u32) \<Rightarrow> key_manager option \<Rightarrow> nat \<Rightarrow> (entry list \<times> block_builder) list \<Rightarrow>
   bytes list \<Rightarrow> bloom_filter \<Rightarrow> sst_builder \<Rightarrow> bool" where
  "file_ok blake3 crc32 km v blks sealed bl sb \<longleftrightarrow>
     (\<forall>b \<in> set blks. good_block blake3 v b) \<and> sealed_as crc32 km blks sealed \<and> km_ok km \<and> bloom_ok bl \<and>
     sb_version sb = v \<and> 3 \<le> v \<and> v \<le> 4 \<and>
     length (concat sealed) + length (index_bytes crc32 blks sealed) < 2 ^ 64"

lemma length_with_crc: "length (with_crc crc32 b) = length b + 4"
  by (simp add: with_crc_def le32.put_width)

lemma block_index_bounds:
  assumes "\<forall>b \<in> set blks. good_block blake3 v b" and "length sealed = length blks"
  shows "\<forall>e \<in> set (block_index blks sealed). length (fst e) < 2 ^ 16 \<and> snd e \<le> length (concat sealed)"
proof
  fix e assume "e \<in> set (block_index blks sealed)"
  then obtain i where i: "i < length blks" and e: "e = (fst (last (fst (blks ! i))), length (concat (take i sealed)))"
    by (auto simp: block_index_def)
  have "good_block blake3 v (blks ! i)" using assms(1) i by simp
  then have "fst (blks ! i) \<noteq> []" "\<forall>(k, v, s, t) \<in> set (fst (blks ! i)). length k < 2 ^ 16"
    by (auto simp: good_block_def bb_ok_def)
  then have "length (fst (last (fst (blks ! i)))) < 2 ^ 16" using last_in_set by (fastforce simp: split_beta)
  moreover have "length (concat (take i sealed)) \<le> length (concat sealed)"
    by (metis append_take_drop_id concat_append length_append le_add1)
  ultimately show "length (fst e) < 2 ^ 16 \<and> snd e \<le> length (concat sealed)" by (simp add: e)
qed

lemma file_sections:
  assumes ok: "file_ok blake3 crc32 km v blks sealed bl sb"
  shows "read_bloom crc32 (file_of crc32 blks sealed bl sb) True v
      (length (concat sealed) + length (index_bytes crc32 blks sealed)) = Inr bl"
    and "read_index crc32 (file_of crc32 blks sealed bl sb) True (length (concat sealed))
      (length (concat sealed) + length (index_bytes crc32 blks sealed)) = Inr (block_index blks sealed)"
proof -
  let ?ib = "index_bytes crc32 blks sealed" and ?bb = "with_crc crc32 (to_bytes bl)"
  let ?t = "sst_trailer sb (length (concat sealed) + length ?ib) (length (concat sealed))"
  let ?file = "file_of crc32 blks sealed bl sb"
  have v: "1 \<le> v" using ok by (simp add: file_ok_def)
  have tail: "length ?file - 54 - (length (concat sealed) + length ?ib) = length ?bb"
    by (simp add: file_of_def length_trailer)
  have "?file = (concat sealed @ ?ib) @ ?bb @ ?t" by (simp add: file_of_def)
  then have "slice ?file (length (concat sealed) + length ?ib) (length (concat sealed) + length ?ib + length ?bb) = Some ?bb"
    using slice_mid [of "concat sealed @ ?ib" _ ?bb] by simp
  moreover have "from_bytes (to_bytes bl) = Inr bl" using ok by (simp add: file_ok_def from_to_bytes)
  ultimately show "read_bloom crc32 ?file True v (length (concat sealed) + length ?ib) = Inr bl"
    unfolding read_bloom_def Let_def if_P [OF TrueI] if_P [OF v] tail by (simp add: strip_with_crc)
  have "?file = concat sealed @ ?ib @ ?bb @ ?t" by (simp add: file_of_def)
  then have "slice ?file (length (concat sealed)) (length (concat sealed) + length ?ib) = Some ?ib"
    using slice_mid [of "concat sealed" _ ?ib] by simp
  moreover have "parse_index (concat (map index_entry (block_index blks sealed))) (length (concat sealed)) 0 =
      Inr (block_index blks sealed)"
    using parse_index_entries [where p = "[]" and idx = "block_index blks sealed" and index_offset = "length (concat sealed)"]
      block_index_bounds ok by (auto simp: file_ok_def sealed_as_def)
  ultimately show "read_index crc32 ?file True (length (concat sealed)) (length (concat sealed) + length ?ib) =
      Inr (block_index blks sealed)"
    by (simp add: read_index_def index_bytes_def strip_with_crc)
qed

lemma read_block_of_file:
  assumes ok: "file_ok blake3 crc32 km v blks sealed bl sb" and i: "i < length blks" and small: "length (sealed ! i) \<le> MAX_BLOCK"
    and off: "off = length (concat (take i sealed))" and next_off: "nxt = length (concat (take (Suc i) sealed))"
  shows "read_block_at_file crc32 (file_of crc32 blks sealed bl sb) off nxt km True = Inr (build (snd (blks ! i)))"
proof -
  have len: "length sealed = length blks" and seal: "seal_block crc32 km i (build (snd (blks ! i))) = Inr (sealed ! i)"
    using ok i by (simp_all add: file_ok_def sealed_as_def)
  have "concat sealed = concat (take i sealed) @ sealed ! i @ concat (drop (Suc i) sealed)"
    using arg_cong [OF id_take_nth_drop [of i sealed], of concat] i len by simp
  then obtain q where fl: "file_of crc32 blks sealed bl sb = concat (take i sealed) @ sealed ! i @ q"
    by (simp add: file_of_def)
  have "nxt = off + length (sealed ! i)" using i len by (simp add: off next_off take_Suc_conv_app_nth)
  then show ?thesis
    unfolding fl using read_sealed [OF seal _ small] ok off by (simp add: file_ok_def)
qed

lemma block_start:
  assumes "bb_ok blake3 es bb" and "es \<noteq> []"
  shows "2 + length (fst (hd es)) \<le> length (build bb)" and "get_le (take 2 (build bb)) = length (fst (hd es))"
    and "take (length (fst (hd es))) (drop 2 (build bb)) = fst (hd es)"
proof -
  obtain e es' where "es = e # es'" using assms(2) by (cases es) simp_all
  moreover obtain k v s t where "e = (k, v, s, t)" by (cases e) blast
  ultimately have es: "es = (k, v, s, t) # es'" by simp
  have k: "length k < 2 ^ 16" using assms(1) by (simp add: bb_ok_def es)
  have b: "build bb = put_u16 (length k) @ k @ (put_u64 s @ put_u64 t @ put_u32 (length v) @ v @
      concat (map enc_entry es') @ block_bits bb @ concat (map put_u32 (bb_offsets bb)) @ block_tail bb)"
    using assms(1) by (simp add: build_split bb_ok_def es)
  have w: "length (put_u16 n) = 2" for n by (rule le16.put_width)
  show "2 + length (fst (hd es)) \<le> length (build bb)" unfolding b by (simp add: es w)
  show "get_le (take 2 (build bb)) = length (fst (hd es))"
    unfolding b using k by (simp add: es w) (simp add: put_u16_def get_put_le)
  show "take (length (fst (hd es))) (drop 2 (build bb)) = fst (hd es)" unfolding b by (simp add: es w)
qed

lemma read_first_key_of_file:
  assumes ok: "file_ok blake3 crc32 km v blks sealed bl sb" and small: "\<forall>s \<in> set sealed. length s \<le> MAX_BLOCK"
  shows "read_first_key crc32 (file_of crc32 blks sealed bl sb) (block_index blks sealed) (length (concat sealed)) km True =
    Inr (if blks = [] then [] else fst (hd (fst (hd blks))))"
proof (cases "blks = []")
  case True
  then show ?thesis by (simp add: read_first_key_def block_index_def)
next
  case False
  have len: "length sealed = length blks" using ok by (simp add: file_ok_def sealed_as_def)
  have good: "fst (hd blks) \<noteq> []" "bb_ok blake3 (fst (hd blks)) (snd (hd blks))"
    using ok False by (simp_all add: file_ok_def good_block_def)
  have zero: "blks ! 0 = hd blks" using False by (simp add: hd_conv_nth)
  have off: "snd (block_index blks sealed ! 0) = 0" and ne: "block_index blks sealed \<noteq> []"
    using False by (simp_all add: block_index_def)
  have nxt: "(if length (block_index blks sealed) > 1 then snd (block_index blks sealed ! 1) else length (concat sealed)) =
      length (concat (take (Suc 0) sealed))"
  proof (cases "1 < length blks")
    case True
    then show ?thesis by (simp add: block_index_def)
  next
    case False
    then have "take (Suc 0) sealed = sealed" using len by simp
    with False show ?thesis by (simp add: block_index_def)
  qed
  have "length (sealed ! 0) \<le> MAX_BLOCK" using small len False by simp
  from read_block_of_file [OF ok _ this, of 0 "length (concat (take (Suc 0) sealed))"] False
  have "read_block_at_file crc32 (file_of crc32 blks sealed bl sb) 0 (length (concat (take (Suc 0) sealed))) km True =
      Inr (build (snd (hd blks)))" by (simp add: zero)
  note block = this
  show ?thesis
    unfolding read_first_key_def Let_def if_not_P [OF ne] off nxt block bind_res_simps
    using block_start [OF good(2,1)] False by simp
qed

definition opened ::
  "(bytes \<Rightarrow> u32) \<Rightarrow> key_manager option \<Rightarrow> nat \<Rightarrow> (entry list \<times> block_builder) list \<Rightarrow> bytes list \<Rightarrow>
   bloom_filter \<Rightarrow> sst_builder \<Rightarrow> sst_reader" where
  "opened crc32 km v blks sealed bl sb =
     (let file = file_of crc32 blks sealed bl sb; index = block_index blks sealed
      in \<lparr>rd_file = file, rd_index = index,
          rd_meta = \<lparr>sm_first_key = (if blks = [] then [] else fst (hd (fst (hd blks)))),
            sm_last_key = (if blks = [] then [] else fst (last index)), sm_file_size = length file,
            sm_min_tx = sb_min_tx sb, sm_max_tx = sb_max_tx sb, sm_min_seq = sb_min_seq sb, sm_max_seq = sb_max_seq sb\<rparr>,
          rd_index_offset = length (concat sealed), rd_km = km, rd_bloom = Some bl, rd_has_crc = True, rd_version = v\<rparr>)"

text \<open>Everything but the first block can always be read.\<close>

lemma sst_open_sections:
  assumes ok: "file_ok blake3 crc32 km v blks sealed bl sb"
  shows "sst_open crc32 km (file_of crc32 blks sealed bl sb) =
    bind_res (read_first_key crc32 (file_of crc32 blks sealed bl sb) (block_index blks sealed) (length (concat sealed)) km True)
      (\<lambda>k. Inr (let rd = opened crc32 km v blks sealed bl sb in rd\<lparr>rd_meta := (rd_meta rd)\<lparr>sm_first_key := k\<rparr>\<rparr>))"
proof -
  let ?file = "file_of crc32 blks sealed bl sb" and ?io = "length (concat sealed)"
  let ?bo = "length (concat sealed) + length (index_bytes crc32 blks sealed)"
  let ?t = "sst_trailer sb ?bo ?io"
  have v: "v < 2 ^ 16" "v \<le> 4" "1 \<le> v" and ver: "sb_version sb = v" and bo: "?bo < 2 ^ 64" "?io < 2 ^ 64"
    using ok by (simp_all add: file_ok_def)
  note fields = trailer_fields [OF v(1) ver bo]
  have t: "drop (length ?file - 54) ?file = ?t"
    using length_trailer [of sb ?bo ?io] by (simp add: file_of_def)
  have big: "\<not> length ?file < 12" by (simp add: file_of_def length_trailer)
  have pos: "0 < ?bo" by (simp add: index_bytes_def length_with_crc)
  have offsets: "\<not> (?io > length ?file - 54 \<or> True \<and> (?bo < ?io \<or> ?bo > length ?file - 54))"
    by (simp add: file_of_def length_trailer)
  have idx: "block_index blks sealed = [] \<longleftrightarrow> blks = []" by (simp add: block_index_def)
  show ?thesis
    using v(2,3) pos offsets
    unfolding sst_open_def Let_def t fields(1) if_not_P [OF big]
    by (simp add: fields file_sections [OF ok] trailer_size_def opened_def Let_def idx)
qed

lemma sst_open_file:
  assumes ok: "file_ok blake3 crc32 km v blks sealed bl sb" and small: "\<forall>s \<in> set sealed. length s \<le> MAX_BLOCK"
  shows "sst_open crc32 km (file_of crc32 blks sealed bl sb) = Inr (opened crc32 km v blks sealed bl sb)"
  unfolding sst_open_sections [OF ok] read_first_key_of_file [OF ok small]
  by (simp add: opened_def Let_def)

lemma sst_open_oversized:
  assumes ok: "file_ok blake3 crc32 km v [b] [s] bl sb" and "length s > MAX_BLOCK"
  shows "sst_open crc32 km (file_of crc32 [b] [s] bl sb) = Inl Storage_error"
  unfolding sst_open_sections [OF ok] using assms(2)
  by (simp add: read_first_key_def block_index_def read_block_at_file_def MAX_BLOCK_def)

end
