(* ===== verification/SstQuery.thy ===== *)
theory SstQuery
  imports SstRead
begin

text \<open>
  Queries of an opened SSTable against the list of the entries that were written: the point read,
  the iteration and the stream of the compaction.
\<close>

section \<open>Loading a block\<close>

definition readable ::
  "(bytes \<Rightarrow> bytes) \<Rightarrow> (bytes \<Rightarrow> u32) \<Rightarrow> (entry list \<times> block_builder) list \<Rightarrow> sst_reader \<Rightarrow> bool" where
  "readable blake3 crc32 blks rd \<longleftrightarrow>
     3 \<le> rd_version rd \<and> (\<forall>b \<in> set blks. good_block blake3 (rd_version rd) b) \<and>
     map fst (rd_index rd) = map (\<lambda>b. fst (last (fst b))) blks \<and>
     (\<forall>i < length blks. load_block crc32 rd i =
        Inr (build (snd (blks ! i)), length (fst (blks ! i)), offsets_at (snd (blks ! i)), block_bits (snd (blks ! i))))"

lemma readable_length: "readable blake3 crc32 blks rd \<Longrightarrow> length (rd_index rd) = length blks"
  unfolding readable_def by (metis length_map)

lemma readable_block:
  assumes "readable blake3 crc32 blks rd" and "i < length blks"
  shows "bb_ok blake3 (fst (blks ! i)) (snd (blks ! i))" and "fst (blks ! i) \<noteq> []"
    and "bb_version (snd (blks ! i)) = rd_version rd" and "3 \<le> rd_version rd"
    and "fst (rd_index rd ! i) = fst (last (fst (blks ! i)))"
proof -
  have "good_block blake3 (rd_version rd) (blks ! i)" using assms by (simp add: readable_def)
  then show "bb_ok blake3 (fst (blks ! i)) (snd (blks ! i))" "fst (blks ! i) \<noteq> []"
    "bb_version (snd (blks ! i)) = rd_version rd" by (simp_all add: good_block_def)
  show "3 \<le> rd_version rd" using assms(1) by (simp add: readable_def)
  have "map fst (rd_index rd) ! i = map (\<lambda>b. fst (last (fst b))) blks ! i" using assms(1) by (simp add: readable_def)
  then show "fst (rd_index rd ! i) = fst (last (fst (blks ! i)))"
    using assms(2) readable_length [OF assms(1)] by simp
qed

lemma opened_readable:
  assumes ok: "file_ok blake3 crc32 km v blks sealed bl sb" and small: "\<forall>s \<in> set sealed. length s \<le> MAX_BLOCK"
  shows "readable blake3 crc32 blks (opened crc32 km v blks sealed bl sb)"
proof -
  let ?rd = "opened crc32 km v blks sealed bl sb"
  have len: "length sealed = length blks" and v: "3 \<le> v" and good: "\<forall>b \<in> set blks. good_block blake3 v b"
    using ok by (simp_all add: file_ok_def sealed_as_def)
  have keys: "map fst (rd_index ?rd) = map (\<lambda>b. fst (last (fst b))) blks"
    by (rule nth_equalityI) (simp_all add: opened_def Let_def block_index_def)
  have "load_block crc32 ?rd i = Inr (build (snd (blks ! i)), length (fst (blks ! i)), offsets_at (snd (blks ! i)),
      block_bits (snd (blks ! i)))" if i: "i < length blks" for i
  proof -
    have off: "snd (rd_index ?rd ! i) = length (concat (take i sealed))"
      using i by (simp add: opened_def Let_def block_index_def)
    have nxt: "next_offset ?rd i = length (concat (take (Suc i) sealed))"
    proof (cases "i + 1 < length blks")
      case True
      then show ?thesis by (simp add: next_offset_def opened_def Let_def block_index_def)
    next
      case False
      then have "take (Suc i) sealed = sealed" using i len by simp
      with False show ?thesis by (simp add: next_offset_def opened_def Let_def block_index_def)
    qed
    have "length (sealed ! i) \<le> MAX_BLOCK" using small i len by simp
    note read = read_block_of_file [OF ok i this refl refl]
    have "good_block blake3 v (blks ! i)" using good i by simp
    then have "parse_block_trailer (build (snd (blks ! i))) v =
        Some (length (fst (blks ! i)), offsets_at (snd (blks ! i)), block_bits (snd (blks ! i)))"
      using parse_build [of blake3 "fst (blks ! i)" "snd (blks ! i)"] v by (simp add: good_block_def)
    then show ?thesis
      unfolding load_block_def off nxt using read by (simp add: opened_def Let_def)
  qed
  with keys v good show ?thesis by (simp add: readable_def opened_def Let_def)
qed

section \<open>Point reads\<close>

lemma find_append: "find P (xs @ ys) = (case find P xs of None \<Rightarrow> find P ys | Some x \<Rightarrow> Some x)"
  by (induction xs) auto

lemma find_None: "\<forall>x \<in> set xs. \<not> P x \<Longrightarrow> find P xs = None"
  by (simp add: find_None_iff)

text \<open>In a block: from the first entry of a key, the search for a visible version.\<close>

lemma scan_key_run:
  assumes ok: "bb_ok blake3 es bb"
  shows "i + room = length es \<Longrightarrow>
    scan_key (build bb) (offsets_at bb) True key ms mx i room =
      Some (find (entry_visible ms mx) (takeWhile (\<lambda>e. fst e = key) (drop i es)))"
proof (induction room arbitrary: i)
  case 0
  then show ?case by simp
next
  case (Suc room)
  then have i: "i < length es" by simp
  note read = read_entry_build [OF ok i]
  have d: "drop i es = es ! i # drop (Suc i) es" using i by (rule Cons_nth_drop_Suc [symmetric])
  have "scan_key (build bb) (offsets_at bb) True key ms mx (i + 1) room =
      Some (find (entry_visible ms mx) (takeWhile (\<lambda>e. fst e = key) (drop (Suc i) es)))"
    using Suc.IH [of "i + 1"] Suc.prems by simp
  then show ?case by (simp add: read d)
qed

lemma position_drop:
  assumes "position (\<lambda>k. k = key) (map fst es) = Some i" and "sorted (map fst es)"
  shows "find P (takeWhile (\<lambda>e. fst e = key) (drop i es)) = find (\<lambda>e. fst e = key \<and> P e) es"
  using assms
proof (induction es arbitrary: i)
  case Nil
  then show ?case by simp
next
  case (Cons e es)
  show ?case
  proof (cases "fst e = key")
    case True
    with Cons.prems(1) have "i = 0" by simp
    have "find P (takeWhile (\<lambda>e. fst e = key) es') = find (\<lambda>e. fst e = key \<and> P e) es'"
      if "sorted (map fst es')" "\<forall>e \<in> set es'. key \<le> fst e" for es' :: "(_ \<times> 'b) list"
      using that
    proof (induction es')
      case Nil
      then show ?case by simp
    next
      case (Cons e' es')
      show ?case
      proof (cases "fst e' = key")
        case True
        with Cons show ?thesis by auto
      next
        case False
        with Cons.prems have "\<forall>e \<in> set (e' # es'). fst e \<noteq> key" by force
        then have "find (\<lambda>e. fst e = key \<and> P e) (e' # es') = None" by (intro find_None) blast
        with False show ?thesis by (simp only: takeWhile.simps if_False find.simps)
      qed
    qed
    from this [of "e # es"] Cons.prems(2) True \<open>i = 0\<close> show ?thesis by simp
  next
    case False
    with Cons.prems obtain j where "i = Suc j" "position (\<lambda>k. k = key) (map fst es) = Some j" by auto
    with Cons False show ?thesis by simp
  qed
qed

lemma block_lookup:
  assumes ok: "bb_ok blake3 es bb" and sorted: "sorted (map fst es)"
  shows "do {
      found \<leftarrow> binary_search_first_index_in_block (build bb) (offsets_at bb) (length es) key True;
      case found of
        None \<Rightarrow> Some None
      | Some first \<Rightarrow> scan_key (build bb) (offsets_at bb) True key ms mx first (length es - first)} =
    Some (find (\<lambda>e. fst e = key \<and> entry_visible ms mx e) es)"
proof (cases "position (\<lambda>k. k = key) (map fst es)")
  case None
  then have "find (\<lambda>e. fst e = key \<and> entry_visible ms mx e) es = None"
    by (intro find_None) auto
  with None show ?thesis by (simp add: block_search_first [OF ok sorted] del: position_None)
next
  case (Some i)
  then have i: "i < length es" using position_Some [OF Some] by simp
  then have "i + (length es - i) = length es" by simp
  from scan_key_run [OF ok this, of key ms mx] position_drop [OF Some sorted] Some show ?thesis
    by (simp add: block_search_first [OF ok sorted])
qed

text \<open>Over the blocks, from the first one that can hold the key.\<close>

definition entries_from :: "(entry list \<times> block_builder) list \<Rightarrow> nat \<Rightarrow> entry list" where
  "entries_from blks i = concat (map fst (drop i blks))"

lemma entries_from_step: "i < length blks \<Longrightarrow> entries_from blks i = fst (blks ! i) @ entries_from blks (Suc i)"
  by (simp add: entries_from_def Cons_nth_drop_Suc [symmetric])

lemma get_blocks_run:
  assumes rd: "readable blake3 crc32 blks rd"
  shows "idx + room = length blks \<Longrightarrow> sorted (map fst (entries_from blks idx)) \<Longrightarrow>
    (idx < length blks \<Longrightarrow> key \<le> fst (last (fst (blks ! idx)))) \<Longrightarrow>
    get_blocks blake3 crc32 rd key ms mx idx room =
      Inr (find (\<lambda>e. fst e = key \<and> entry_visible ms mx e) (entries_from blks idx))"
proof (induction room arbitrary: idx)
  case 0
  then show ?case by (simp add: entries_from_def)
next
  case (Suc room)
  let ?P = "\<lambda>e. fst e = key \<and> entry_visible ms mx e"
  from Suc.prems(1) have i: "idx < length blks" by simp
  let ?es = "fst (blks ! idx)" and ?bb = "snd (blks ! idx)"
  note block = readable_block [OF rd i]
  have step: "entries_from blks idx = ?es @ entries_from blks (Suc idx)" by (rule entries_from_step [OF i])
  have sorted: "sorted (map fst ?es)" "sorted (map fst (entries_from blks (Suc idx)))"
    "\<forall>e \<in> set ?es. \<forall>e' \<in> set (entries_from blks (Suc idx)). fst e \<le> fst e'"
    using Suc.prems(2) unfolding step by (auto simp: sorted_append)
  have is_v3: "rd_version rd \<ge> 3" by (rule block(4))
  have hit: "(if may_contain_key_in_block_bloom blake3 (block_bits ?bb) key (rd_version rd)
        then ok_or Storage_error (do {
               found \<leftarrow> binary_search_first_index_in_block (build ?bb) (offsets_at ?bb) (length ?es) key (rd_version rd \<ge> 3);
               case found of
                 None \<Rightarrow> Some None
               | Some first \<Rightarrow> scan_key (build ?bb) (offsets_at ?bb) (rd_version rd \<ge> 3) key ms mx first (length ?es - first)})
        else Inr None) = Inr (find ?P ?es)"
  proof (cases "may_contain_key_in_block_bloom blake3 (block_bits ?bb) key (rd_version rd)")
    case True
    then show ?thesis using is_v3 block_lookup [OF block(1) sorted(1)] by simp
  next
    case False
    have "fst e \<noteq> key" if "e \<in> set ?es" for e
      using block_bloom_passes [OF block(1) _ that] block(3,4) False by auto
    then have "find ?P ?es = None" by (intro find_None) blast
    with False show ?thesis by simp
  qed
  have load: "load_block crc32 rd idx = Inr (build ?bb, length ?es, offsets_at ?bb, block_bits ?bb)"
    using rd i by (simp add: readable_def)
  have rest: "get_blocks blake3 crc32 rd key ms mx (idx + 1) room = Inr (find ?P (entries_from blks (Suc idx)))"
    if last: "fst (last ?es) = key"
  proof -
    have "key \<le> fst (last (fst (blks ! Suc idx)))" if j: "Suc idx < length blks"
    proof -
      have "last ?es \<in> set ?es" "last (fst (blks ! Suc idx)) \<in> set (entries_from blks (Suc idx))"
        using block(2) readable_block(2) [OF rd j] entries_from_step [OF j] by simp_all
      with sorted(3) last show ?thesis by blast
    qed
    with Suc.IH [of "Suc idx"] Suc.prems(1) sorted(2) show ?thesis by simp
  qed
  have none: "find ?P (entries_from blks (Suc idx)) = None" if ne: "fst (last ?es) \<noteq> key"
  proof -
    have "key < fst (last ?es)" using Suc.prems(3) [OF i] ne by simp
    then have "\<forall>e \<in> set (entries_from blks (Suc idx)). key < fst e"
      using sorted(3) last_in_set [OF block(2)] by (blast intro: less_le_trans)
    then show ?thesis by (intro find_None) auto
  qed
  show ?case
    unfolding get_blocks.simps load bind_res_simps prod.case hit block(5) step find_append
    using rest none by (auto split: option.splits)
qed

text \<open>The first block to look at: the earliest one whose last key is not below the key.\<close>

lemma rewind_index_run:
  "rewind_index index key i \<le> i \<and>
   (0 < rewind_index index key i \<longrightarrow> fst (index ! (rewind_index index key i - 1)) < key) \<and>
   (\<forall>j. rewind_index index key i \<le> j \<and> j < i \<longrightarrow> key \<le> fst (index ! j))"
  by (induction i) (auto simp: not_le less_Suc_eq)

lemma search_start_run:
  assumes sorted: "sorted (map fst index)"
  shows "search_start index key \<le> length index" and "j < search_start index key \<Longrightarrow> fst (index ! j) < key"
    and "search_start index key < length index \<Longrightarrow> key \<le> fst (index ! search_start index key)"
proof -
  let ?i = "case binary_search_by_key fst key index of Inl i \<Rightarrow> i | Inr i \<Rightarrow> i"
  let ?r = "search_start index key"
  have i: "?i \<le> length index" "?i < length index \<longrightarrow> key \<le> fst (index ! ?i)"
  proof -
    have "?i \<le> length index \<and> (?i < length index \<longrightarrow> key \<le> fst (index ! ?i))"
    proof (cases "binary_search_by_key fst key index")
      case (Inl i)
      with bs.found [OF sorted Inl] show ?thesis by simp
    next
      case (Inr i)
      with bs.missing [OF sorted Inr] show ?thesis by (auto intro: less_imp_le)
    qed
    then show "?i \<le> length index" "?i < length index \<longrightarrow> key \<le> fst (index ! ?i)" by blast+
  qed
  have r: "?r \<le> ?i" "0 < ?r \<longrightarrow> fst (index ! (?r - 1)) < key" "\<forall>j. ?r \<le> j \<and> j < ?i \<longrightarrow> key \<le> fst (index ! j)"
    using rewind_index_run [of index key ?i] by (simp_all add: search_start_def)
  show "?r \<le> length index" using r(1) i(1) by simp
  show "fst (index ! j) < key" if "j < ?r"
  proof -
    have "fst (index ! j) \<le> fst (index ! (?r - 1))"
      using sorted_nth_mono [OF sorted, of j "?r - 1"] that r(1) i(1) by simp
    with r(2) that show ?thesis by (auto intro: le_less_trans)
  qed
  show "key \<le> fst (index ! ?r)" if "?r < length index"
    using that r(1,3) i by (cases "?r = ?i") auto
qed

lemma last_key_max:
  assumes "sorted (map fst es)" and "e \<in> set es"
  shows "fst e \<le> fst (last es)"
proof -
  from assms(2) obtain xs ys where "es = xs @ e # ys" by (auto simp: in_set_conv_decomp)
  with assms(1) show ?thesis by (cases ys rule: rev_cases) (auto simp: sorted_append)
qed

lemma index_keys_sorted:
  assumes rd: "readable blake3 crc32 blks rd" and sorted: "sorted (map fst (concat (map fst blks)))"
  shows "sorted (map fst (rd_index rd))"
proof -
  have "sorted (map (\<lambda>b. fst (last (fst b))) bs)"
    if "\<forall>b \<in> set bs. fst b \<noteq> []" "sorted (map fst (concat (map fst bs)))" for bs :: "(entry list \<times> block_builder) list"
    using that
  proof (induction bs)
    case Nil
    then show ?case by simp
  next
    case (Cons b bs)
    have "fst (last (fst b)) \<le> fst (last (fst b'))" if "b' \<in> set bs" for b'
    proof -
      have "last (fst b) \<in> set (fst b)" "last (fst b') \<in> set (fst b')"
        using Cons.prems(1) that by simp_all
      then have "last (fst b) \<in> set (fst b)" "last (fst b') \<in> set (concat (map fst bs))"
        using that by (auto intro: bexI [of _ b'])
      with Cons.prems(2) show ?thesis by (auto simp: sorted_append)
    qed
    with Cons show ?case by (auto simp: sorted_append)
  qed
  moreover have "\<forall>b \<in> set blks. fst b \<noteq> []" using rd by (auto simp: readable_def good_block_def)
  ultimately show ?thesis using rd sorted unfolding readable_def by metis
qed

lemma get_blocks_all:
  assumes rd: "readable blake3 crc32 blks rd" and sorted: "sorted (map fst (concat (map fst blks)))"
  shows "get_blocks blake3 crc32 rd key ms mx (search_start (rd_index rd) key)
      (length (rd_index rd) - search_start (rd_index rd) key) =
    Inr (find (\<lambda>e. fst e = key \<and> entry_visible ms mx e) (concat (map fst blks)))"
proof -
  let ?s = "search_start (rd_index rd) key" and ?P = "\<lambda>e. fst e = key \<and> entry_visible ms mx e"
  note len = readable_length [OF rd]
  note start = search_start_run [OF index_keys_sorted [OF rd sorted], where key = key, unfolded len]
  have split: "concat (map fst blks) = concat (map fst (take ?s blks)) @ entries_from blks ?s"
    unfolding entries_from_def by (metis append_take_drop_id concat_append map_append)
  have "fst e \<noteq> key" if "e \<in> set (concat (map fst (take ?s blks)))" for e
  proof -
    from that obtain b where "b \<in> set (take ?s blks)" and b: "e \<in> set (fst b)" by auto
    then obtain j where "j < length (take ?s blks)" "take ?s blks ! j = b" by (auto simp: in_set_conv_nth)
    with b have j: "j < ?s" "j < length blks" and e: "e \<in> set (fst (blks ! j))" by auto
    have "sorted (map fst (fst (blks ! j)))"
    proof -
      have "concat (map fst blks) = concat (map fst (take j blks)) @ fst (blks ! j) @ entries_from blks (Suc j)"
        unfolding entries_from_step [OF j(2), symmetric] unfolding entries_from_def
        by (metis append_take_drop_id concat_append map_append)
      with sorted show ?thesis by (simp add: sorted_append)
    qed
    from last_key_max [OF this e] have "fst e \<le> fst (rd_index rd ! j)"
      using readable_block(5) [OF rd j(2)] by simp
    also have "\<dots> < key" by (rule start(2) [OF j(1)])
    finally show ?thesis by simp
  qed
  then have none: "find ?P (concat (map fst (take ?s blks))) = None" by (intro find_None) blast
  have "sorted (map fst (entries_from blks ?s))" using sorted unfolding split by (simp add: sorted_append)
  moreover have "?s + (length blks - ?s) = length blks" using start(1) by simp
  moreover have "key \<le> fst (last (fst (blks ! ?s)))" if "?s < length blks"
    using start(3) [OF that] readable_block(5) [OF rd that] by simp
  ultimately have "get_blocks blake3 crc32 rd key ms mx ?s (length blks - ?s) = Inr (find ?P (entries_from blks ?s))"
    by (intro get_blocks_run [OF rd])
  then show ?thesis unfolding len split find_append none by simp
qed

section \<open>Iteration and streams\<close>

lemma read_entries_run:
  assumes ok: "bb_ok blake3 es bb"
  shows "\<forall>i \<in> set is. i < length es \<Longrightarrow>
    read_entries (build bb) (offsets_at bb) True is = Some (map (\<lambda>i. es ! i) is)"
  by (induction "is") (simp_all add: read_entry_build(2) [OF ok])

lemma iter_blocks_run:
  assumes rd: "readable blake3 crc32 blks rd"
  shows "\<forall>i \<in> set is. i < length blks \<Longrightarrow>
    iter_blocks crc32 rd is = Inr (map (\<lambda>(k, v, s, t). (k, v, s)) (concat (map (\<lambda>i. fst (blks ! i)) is)))"
proof (induction "is")
  case Nil
  then show ?case by simp
next
  case (Cons i "is")
  then have i: "i < length blks" by simp
  note block = readable_block [OF rd i]
  have load: "load_block crc32 rd i = Inr (build (snd (blks ! i)), length (fst (blks ! i)),
      offsets_at (snd (blks ! i)), block_bits (snd (blks ! i)))"
    using rd i by (simp add: readable_def)
  have "read_entries (build (snd (blks ! i))) (offsets_at (snd (blks ! i))) True [0..<length (fst (blks ! i))] =
      Some (fst (blks ! i))"
    using read_entries_run [OF block(1), of "[0..<length (fst (blks ! i))]"] by (simp add: map_nth)
  with Cons block(4) show ?case by (simp add: load)
qed

text \<open>The stream: how much of the file is still ahead of it.\<close>

definition stream_ok :: "(entry list \<times> block_builder) list \<Rightarrow> sst_stream \<Rightarrow> bool" where
  "stream_ok blks st \<longleftrightarrow> ss_block_idx st \<le> length blks \<and>
     (case ss_current st of
        None \<Rightarrow> True
      | Some blk \<Rightarrow> 0 < ss_block_idx st \<and>
          (let b = blks ! (ss_block_idx st - 1)
           in blk = build (snd b) \<and> ss_num_offsets st = length (fst b) \<and> ss_offsets_start st = offsets_at (snd b)))"

definition stream_rest :: "(entry list \<times> block_builder) list \<Rightarrow> sst_stream \<Rightarrow> entry list" where
  "stream_rest blks st =
     (case ss_current st of None \<Rightarrow> []
      | Some blk \<Rightarrow> drop (ss_entry_idx st) (fst (blks ! (ss_block_idx st - 1)))) @
     entries_from blks (ss_block_idx st)"

lemma stream_yield_run:
  assumes rd: "readable blake3 crc32 blks rd" and st: "stream_ok blks st" and cur: "ss_current st = Some blk"
    and i: "ss_entry_idx st < ss_num_offsets st"
  shows "\<exists>e st'. stream_yield rd blk st = Inr (st', Some e) \<and> stream_ok blks st' \<and> stream_rest blks st = e # stream_rest blks st'"
proof -
  let ?j = "ss_block_idx st - 1"
  let ?es = "fst (blks ! ?j)" and ?bb = "snd (blks ! ?j)"
  have j: "?j < length blks" and blk: "blk = build ?bb" "ss_num_offsets st = length ?es" "ss_offsets_start st = offsets_at ?bb"
    using st cur by (auto simp: stream_ok_def Let_def)
  note block = readable_block [OF rd j]
  have i': "ss_entry_idx st < length ?es" using i blk(2) by simp
  have "stream_yield rd blk st = Inr (st\<lparr>ss_entry_idx := ss_entry_idx st + 1\<rparr>, Some (?es ! ss_entry_idx st))"
    using read_entry_build(2) [OF block(1) i'] block(4) blk by (simp add: stream_yield_def)
  moreover have "stream_ok blks (st\<lparr>ss_entry_idx := ss_entry_idx st + 1\<rparr>)"
    using st cur by (simp add: stream_ok_def Let_def)
  moreover have "stream_rest blks st = ?es ! ss_entry_idx st # stream_rest blks (st\<lparr>ss_entry_idx := ss_entry_idx st + 1\<rparr>)"
    using i' cur by (simp add: stream_rest_def Cons_nth_drop_Suc [symmetric])
  ultimately show ?thesis by blast
qed

lemma stream_load_run:
  assumes rd: "readable blake3 crc32 blks rd"
  shows "ss_block_idx st \<le> length blks \<Longrightarrow>
    (case entries_from blks (ss_block_idx st) of
       [] \<Rightarrow> stream_load crc32 rd st = Inr (st, None)
     | e # es \<Rightarrow> \<exists>st'. stream_load crc32 rd st = Inr (st', Some e) \<and> stream_ok blks st' \<and> stream_rest blks st' = es)"
proof (cases "ss_block_idx st < length blks")
  case False
  assume "ss_block_idx st \<le> length blks"
  with False show ?thesis
    using readable_length [OF rd] by (subst stream_load.simps) (simp add: entries_from_def)
next
  case True
  let ?j = "ss_block_idx st"
  let ?es = "fst (blks ! ?j)" and ?bb = "snd (blks ! ?j)"
  note block = readable_block [OF rd True]
  have load: "load_block crc32 rd ?j = Inr (build ?bb, length ?es, offsets_at ?bb, block_bits ?bb)"
    using rd True by (simp add: readable_def)
  let ?st = "st\<lparr>ss_block_idx := ?j + 1, ss_entry_idx := 0, ss_num_offsets := length ?es,
      ss_offsets_start := offsets_at ?bb, ss_current := Some (build ?bb)\<rparr>"
  have "stream_ok blks ?st" using True by (simp add: stream_ok_def)
  moreover have pos: "0 < length ?es" using block(2) by simp
  ultimately obtain e st' where y: "stream_yield rd (build ?bb) ?st = Inr (st', Some e)" "stream_ok blks st'"
    "stream_rest blks ?st = e # stream_rest blks st'"
    using stream_yield_run [OF rd, of ?st "build ?bb"] by auto
  have run: "stream_load crc32 rd st = Inr (st', Some e)"
    using True readable_length [OF rd] pos y(1) by (subst stream_load.simps) (simp add: load Let_def)
  have "entries_from blks ?j = stream_rest blks ?st"
    by (simp add: stream_rest_def entries_from_step [OF True])
  with y run show ?thesis by simp
qed

lemma stream_next_run:
  assumes rd: "readable blake3 crc32 blks rd" and st: "stream_ok blks st"
  shows "case stream_rest blks st of
      [] \<Rightarrow> \<exists>st'. stream_next crc32 rd st = Inr (st', None) \<and> stream_ok blks st' \<and> stream_rest blks st' = []
    | e # es \<Rightarrow> \<exists>st'. stream_next crc32 rd st = Inr (st', Some e) \<and> stream_ok blks st' \<and> stream_rest blks st' = es"
proof (cases "blks = []")
  case True
  then have "rd_index rd = []" using readable_length [OF rd] by simp
  moreover have "stream_rest blks st = []" using st True by (auto simp: stream_rest_def stream_ok_def entries_from_def split: option.splits)
  ultimately show ?thesis using st by (simp add: stream_next_def)
next
  case False
  then have ne: "rd_index rd \<noteq> []" using readable_length [OF rd] by auto
  have idx: "ss_block_idx st \<le> length blks" using st by (simp add: stream_ok_def)
  have load: "case stream_rest blks st of
      [] \<Rightarrow> \<exists>st'. stream_load crc32 rd st = Inr (st', None) \<and> stream_ok blks st' \<and> stream_rest blks st' = []
    | e # es \<Rightarrow> \<exists>st'. stream_load crc32 rd st = Inr (st', Some e) \<and> stream_ok blks st' \<and> stream_rest blks st' = es"
    if rest: "stream_rest blks st = entries_from blks (ss_block_idx st)"
    using stream_load_run [OF rd idx] st rest by (auto split: list.splits)
  show ?thesis
  proof (cases "ss_current st")
    case None
    then have rest: "stream_rest blks st = entries_from blks (ss_block_idx st)"
      and nxt: "stream_next crc32 rd st = stream_load crc32 rd st" using ne by (simp_all add: stream_rest_def stream_next_def)
    show ?thesis unfolding nxt by (rule load [OF rest])
  next
    case (Some blk)
    show ?thesis
    proof (cases "ss_entry_idx st \<ge> ss_num_offsets st")
      case True
      have "ss_num_offsets st = length (fst (blks ! (ss_block_idx st - 1)))"
        using st Some by (simp add: stream_ok_def Let_def)
      with True Some have rest: "stream_rest blks st = entries_from blks (ss_block_idx st)"
        and nxt: "stream_next crc32 rd st = stream_load crc32 rd st" using ne
        by (simp_all add: stream_rest_def stream_next_def)
      show ?thesis unfolding nxt by (rule load [OF rest])
    next
      case False
      then obtain e st' where "stream_yield rd blk st = Inr (st', Some e)" "stream_ok blks st'"
        "stream_rest blks st = e # stream_rest blks st'"
        using stream_yield_run [OF rd st Some] by auto
      with False Some ne show ?thesis by (simp add: stream_next_def)
    qed
  qed
qed

text \<open>The results of \<open>n\<close> calls of \<open>next_entry\<close>.\<close>

fun stream_take :: "(bytes \<Rightarrow> u32) \<Rightarrow> sst_reader \<Rightarrow> nat \<Rightarrow> sst_stream \<Rightarrow> sst_error + entry option list" where
  "stream_take crc32 rd 0 st = Inr []"
| "stream_take crc32 rd (Suc n) st =
     bind_res (stream_next crc32 rd st) (\<lambda>(st', r). bind_res (stream_take crc32 rd n st') (\<lambda>rs. Inr (r # rs)))"

lemma stream_take_run:
  assumes rd: "readable blake3 crc32 blks rd"
  shows "stream_ok blks st \<Longrightarrow> stream_take crc32 rd n st =
    Inr (map Some (take n (stream_rest blks st)) @ replicate (n - length (stream_rest blks st)) None)"
proof (induction n arbitrary: st)
  case 0
  then show ?case by simp
next
  case (Suc n)
  show ?case
  proof (cases "stream_rest blks st")
    case Nil
    with stream_next_run [OF rd Suc.prems] obtain st' where
      "stream_next crc32 rd st = Inr (st', None)" "stream_ok blks st'" "stream_rest blks st' = []" by auto
    with Suc.IH [of st'] Nil show ?thesis by simp
  next
    case (Cons e es)
    with stream_next_run [OF rd Suc.prems] obtain st' where
      "stream_next crc32 rd st = Inr (st', Some e)" "stream_ok blks st'" "stream_rest blks st' = es" by auto
    with Suc.IH [of st'] Cons show ?thesis by simp
  qed
qed

end
