(* ===== verification/SstCorrect.thy ===== *)
theory SstCorrect
  imports SstQuery
begin

text \<open>
  The properties of SSTable files: what was written is read back, by point reads, by iteration and
  by the stream of the compaction; which entries the writer accepts; and the values that it
  accepts and that no reader can read back.
\<close>

section \<open>Closed files\<close>

definition READABLE_VALUE :: nat where
  "READABLE_VALUE = 15 * 1024 * 1024"

lemma seal_length:
  assumes "seal_block crc32 km i blk = Inr s" and "km_ok km"
  shows "length s \<le> length blk + 32"
proof (cases km)
  case None
  with assms(1) have "s = with_crc crc32 blk" by (simp add: seal_block_def with_crc_def)
  then show ?thesis by (simp add: length_with_crc)
next
  case (Some m)
  with assms(1) obtain c n where "km_seal m i (with_crc crc32 blk) = Some (c, n)" and s: "s = n @ c"
    by (auto simp: seal_block_def with_crc_def Let_def split: option.splits prod.splits)
  with assms(2) Some have "length n = 12" "length c = length (with_crc crc32 blk) + 16"
    unfolding km_ok_def by blast+
  then show ?thesis by (simp add: s length_with_crc)
qed

lemma written_file:
  assumes km: "km_ok km" and v: "3 \<le> v" "v \<le> 4" and wr: "sst_write blake3 crc32 km m hashes v es = Inr (file, meta)"
  obtains blks sealed sb where "concat (map fst blks) = es" and "noted blake3 (bloom_new m hashes) es sb"
    and "file = file_of crc32 blks sealed (sb_bloom sb) sb" and "file_ok blake3 crc32 km v blks sealed (sb_bloom sb) sb"
    and "meta = \<lparr>sm_first_key = (if es = [] then [] else fst (hd es)), sm_last_key = (if es = [] then [] else fst (last es)),
      sm_file_size = length file, sm_min_tx = (if es = [] then 0 else sb_min_tx sb),
      sm_max_tx = (if es = [] then 0 else sb_max_tx sb), sm_min_seq = (if es = [] then 0 else sb_min_seq sb),
      sm_max_seq = (if es = [] then 0 else sb_max_seq sb)\<rparr>"
proof -
  obtain blks sealed sb ib where l: "concat (map fst blks) = es" "\<forall>b \<in> set blks. good_block blake3 v b"
    "sealed_as crc32 km blks sealed" "noted blake3 (bloom_new m hashes) es sb" "sb_version sb = v"
    and ib: "ib = with_crc crc32 (concat (map index_entry (block_index blks sealed)))"
    and small: "length (concat sealed) + length ib < 2 ^ 64"
    and fl: "file = concat sealed @ ib @ with_crc crc32 (to_bytes (foldl (bloom_insert blake3) (bloom_new m hashes) (map fst es))) @
      sst_trailer sb (length (concat sealed) + length ib) (length (concat sealed))"
    and meta: "meta = \<lparr>sm_first_key = (if es = [] then [] else fst (hd es)), sm_last_key = (if es = [] then [] else fst (last es)),
      sm_file_size = length file, sm_min_tx = (if es = [] then 0 else sb_min_tx sb),
      sm_max_tx = (if es = [] then 0 else sb_max_tx sb), sm_min_seq = (if es = [] then 0 else sb_min_seq sb),
      sm_max_seq = (if es = [] then 0 else sb_max_seq sb)\<rparr>"
    by (rule sst_write_layout [OF wr v(1)])
  have bloom: "sb_bloom sb = foldl (bloom_insert blake3) (bloom_new m hashes) (map fst es)"
    using l(4) by (simp add: noted_def)
  have "bloom_ok (sb_bloom sb)" unfolding bloom by (rule bloom_ok_fold [OF bloom_ok_new])
  then have "file_ok blake3 crc32 km v blks sealed (sb_bloom sb) sb"
    using l km v small by (simp add: file_ok_def index_bytes_def ib)
  moreover have "file = file_of crc32 blks sealed (sb_bloom sb) sb"
    by (simp add: fl file_of_def index_bytes_def ib bloom)
  ultimately show thesis using l(1,4) meta by (intro that)
qed

lemma sealed_small:
  assumes ok: "file_ok blake3 crc32 km v blks sealed bl sb"
    and valid: "\<forall>e \<in> set (concat (map fst blks)). entry_valid e \<and> length (fst (snd e)) \<le> READABLE_VALUE"
  shows "\<forall>s \<in> set sealed. length s \<le> MAX_BLOCK"
proof
  fix s assume "s \<in> set sealed"
  then obtain i where i: "i < length blks" "s = sealed ! i"
    using ok by (auto simp: file_ok_def sealed_as_def in_set_conv_nth)
  let ?es = "fst (blks ! i)" and ?bb = "snd (blks ! i)"
  have seal: "length s \<le> length (build ?bb) + 32"
    using ok i by (intro seal_length [of crc32 km i]) (simp_all add: file_ok_def sealed_as_def)
  have "block_sized ?es ?bb" "?es \<noteq> []" using ok i(1) by (simp_all add: file_ok_def good_block_def)
  then consider "length (build ?bb) \<le> BLOCK_SIZE"
    | k v s t where "?es = [(k, v, s, t)]" "length (build ?bb) \<le> length k + length v + 62"
    by (auto simp: block_sized_def)
  then show "length s \<le> MAX_BLOCK"
  proof cases
    case 1
    with seal show ?thesis by (simp add: BLOCK_SIZE_def MAX_BLOCK_def)
  next
    case (2 k v s' t)
    have "blks ! i \<in> set blks" using i(1) by simp
    then have "(k, v, s', t) \<in> set (concat (map fst blks))" using 2(1) by force
    from bspec [OF valid this] have "length k \<le> 65535" "length v \<le> READABLE_VALUE" by (simp_all add: entry_valid_def)
    with seal 2(2) show ?thesis by (simp add: MAX_BLOCK_def READABLE_VALUE_def)
  qed
qed

lemma written_readable:
  assumes km: "km_ok km" and v: "v = 3 \<or> v = 4" and wr: "sst_write blake3 crc32 km m hashes v es = Inr (file, meta)"
    and vals: "\<forall>e \<in> set es. length (fst (snd e)) \<le> READABLE_VALUE"
  obtains rd blks where "sst_open crc32 km file = Inr rd" and "readable blake3 crc32 blks rd"
    and "concat (map fst blks) = es" and "entries_sorted es" and "rd_bloom rd = Some (foldl (bloom_insert blake3) (bloom_new m hashes) (map fst es))"
    and "sm_first_key (rd_meta rd) = (if es = [] then [] else fst (hd es))"
    and "sm_last_key (rd_meta rd) = (if es = [] then [] else fst (last es))"
    and "es \<noteq> [] \<longrightarrow> rd_meta rd = meta"
proof -
  have v': "3 \<le> v" "v \<le> 4" using v by auto
  obtain blks sealed sb where ents: "concat (map fst blks) = es" and noted: "noted blake3 (bloom_new m hashes) es sb"
    and fl: "file = file_of crc32 blks sealed (sb_bloom sb) sb" and ok: "file_ok blake3 crc32 km v blks sealed (sb_bloom sb) sb"
    and meta: "meta = \<lparr>sm_first_key = (if es = [] then [] else fst (hd es)), sm_last_key = (if es = [] then [] else fst (last es)),
      sm_file_size = length file, sm_min_tx = (if es = [] then 0 else sb_min_tx sb),
      sm_max_tx = (if es = [] then 0 else sb_max_tx sb), sm_min_seq = (if es = [] then 0 else sb_min_seq sb),
      sm_max_seq = (if es = [] then 0 else sb_max_seq sb)\<rparr>"
    by (rule written_file [OF km v' wr])
  let ?rd = "opened crc32 km v blks sealed (sb_bloom sb) sb"
  have "\<forall>e \<in> set (concat (map fst blks)). entry_valid e \<and> length (fst (snd e)) \<le> READABLE_VALUE"
    using noted vals by (simp add: ents noted_def)
  note small = sealed_small [OF ok this]
  have good: "\<forall>b \<in> set blks. fst b \<noteq> []" using ok by (auto simp: file_ok_def good_block_def)
  have blks: "blks = [] \<longleftrightarrow> es = []" using ents good by (cases blks) auto
  have first: "fst (hd (fst (hd blks))) = fst (hd es)" if "es \<noteq> []"
    using that ents good blks by (cases blks) auto
  have last: "fst (last (block_index blks sealed)) = fst (last es)" if "es \<noteq> []"
  proof -
    have "blks \<noteq> []" using that blks by simp
    then have "fst (last (block_index blks sealed)) = fst (last (fst (last blks)))"
      by (simp add: block_index_def last_map last_conv_nth)
    moreover have "last es = last (fst (last blks))"
      using ents good \<open>blks \<noteq> []\<close> by (cases blks rule: rev_cases) auto
    ultimately show ?thesis by simp
  qed
  show thesis
  proof (rule that [of ?rd blks])
    show "sst_open crc32 km file = Inr ?rd" unfolding fl by (rule sst_open_file [OF ok small])
    show "readable blake3 crc32 blks ?rd" by (rule opened_readable [OF ok small])
    show "concat (map fst blks) = es" "entries_sorted es" using ents noted by (simp_all add: noted_def)
    show "rd_bloom ?rd = Some (foldl (bloom_insert blake3) (bloom_new m hashes) (map fst es))"
      using noted by (simp add: opened_def Let_def noted_def)
    show "sm_first_key (rd_meta ?rd) = (if es = [] then [] else fst (hd es))"
      "sm_last_key (rd_meta ?rd) = (if es = [] then [] else fst (last es))"
      using first last blks by (simp_all add: opened_def Let_def)
    show "es \<noteq> [] \<longrightarrow> rd_meta ?rd = meta"
      using first last blks by (simp add: opened_def Let_def meta fl)
  qed
qed

end
