(* ===== verification/SstAccept.thy ===== *)
theory SstAccept
  imports SstCorrect
begin

text \<open>
  Which entries the writer accepts: exactly the ascending ones within the limits, as long as the
  file does not outgrow 64-bit offsets. Stated for files without encryption, where sealing a block
  cannot fail.
\<close>

section \<open>The cost of an entry in the file\<close>

definition entry_cost :: "entry \<Rightarrow> nat" where
  "entry_cost e = 2 * length (fst e) + length (fst (snd e)) + 80"

definition cost :: "entry list \<Rightarrow> nat" where
  "cost es = sum_list (map entry_cost es)"

lemma cost_simps [simp]: "cost [] = 0" "cost (e # es) = entry_cost e + cost es" "cost (es @ es') = cost es + cost es'"
  by (simp_all add: cost_def)

lemma data_cost: "length (concat (map enc_entry es)) + 58 * length es + sum_list (map (length \<circ> fst) es) = cost es"
proof (induction es)
  case Nil
  then show ?case by simp
next
  case (Cons e es)
  obtain k v s t where e: "e = (k, v, s, t)" by (cases e) blast
  from Cons show ?case
    using enc_entry_length [of k v s t] by (simp add: e entry_cost_def del: enc_entry.simps)
qed

lemma build_cost:
  assumes ok: "bb_ok blake3 es bb" and v: "3 \<le> bb_version bb" and ne: "es \<noteq> []"
  shows "length (build bb) + sum_list (map (length \<circ> fst) es) + 14 \<le> cost es"
proof -
  have n: "1 \<le> length es" using ne by (cases es) auto
  have "bb_offsets bb \<noteq> []" "length (bb_offsets bb) = length es" "bb_data bb = concat (map enc_entry es)"
    using ok ne by (simp_all add: bb_ok_def)
  moreover have "next_multiple_of (length es * 10) 64 div 8 \<le> length es * 2 + 8"
  proof -
    have "next_multiple_of (length es * 10) 64 \<le> length es * 10 + 64" by (simp add: next_multiple_of_def)
    also have "\<dots> \<le> (length es * 2 + 8) * 8" by simp
    finally show ?thesis using div_le_mono [of _ "(length es * 2 + 8) * 8" 8] by fastforce
  qed
  ultimately have "length (build bb) \<le> length (concat (map enc_entry es)) + 6 * length es + 36"
    unfolding current_size_build [OF ok v] current_size_def Let_def using n by auto
  with data_cost [of es] n show ?thesis by linarith
qed

lemma seal_None: "seal_block crc32 None i blk = Inr (with_crc crc32 blk)"
  by (simp add: seal_block_def with_crc_def)

text \<open>What is in the file and in the index costs at most as much as the entries.\<close>

lemma stored_cost:
  assumes good: "\<forall>b \<in> set blks. good_block blake3 v b" and v: "3 \<le> v" and sealed: "sealed_as crc32 None blks sealed"
  shows "length (concat sealed) + sum_list (map (\<lambda>b. length (fst (last (fst b))) + 10) blks) \<le> cost (concat (map fst blks))"
proof -
  have s: "sealed = map (\<lambda>b. with_crc crc32 (build (snd b))) blks"
    using sealed by (intro nth_equalityI) (simp_all add: sealed_as_def seal_None)
  have "length (with_crc crc32 (build (snd b))) + (length (fst (last (fst b))) + 10) \<le> cost (fst b)"
    if "b \<in> set blks" for b
  proof -
    have g: "fst b \<noteq> []" "bb_ok blake3 (fst b) (snd b)" "3 \<le> bb_version (snd b)"
      using good that v by (auto simp: good_block_def)
    have "length (fst (last (fst b))) \<le> sum_list (map (length \<circ> fst) (fst b))"
      using elem_le_sum_list [of "length (fst b) - 1" "map (length \<circ> fst) (fst b)"] g(1)
      by (simp add: last_conv_nth)
    with build_cost [OF g(2,3,1)] show ?thesis by (simp add: length_with_crc)
  qed
  then have "sum_list (map (\<lambda>b. length (with_crc crc32 (build (snd b))) + (length (fst (last (fst b))) + 10)) blks)
      \<le> sum_list (map (\<lambda>b. cost (fst b)) blks)" by (rule sum_list_mono)
  moreover have "sum_list (map (\<lambda>b. cost (fst b)) bs) = cost (concat (map fst bs))" for bs :: "(entry list \<times> block_builder) list"
    by (induction bs) simp_all
  ultimately show ?thesis by (simp add: s length_concat comp_def sum_list_addf)
qed

section \<open>Acceptance of one entry\<close>

lemma add_order_ok_iff:
  assumes "noted blake3 bl es sb"
  shows "add_order_ok sb k (mask_seq s) \<longleftrightarrow> es = [] \<or> entry_before (last es) (k, v, s, t)"
  using assms by (auto simp: add_order_ok_def noted_def entry_before_def not_le)

lemma bb_add_empty:
  assumes "bb_data bb = []" and "entry_valid (k, v, s, t)"
  shows "\<exists>bb'. bb_add blake3 bb k v s t = (bb', True)"
  using assms by (simp add: bb_add_def entry_valid_def MAX_VALUE_SIZE_def Let_def)

lemma flush_block_succeeds:
  assumes st: "stored blake3 crc32 None v blks sealed cur sb" and ne: "cur \<noteq> []"
    and last: "sb_last_key sb = Some k"
    and small: "cost (concat (map fst blks) @ cur) < 2 ^ 64"
  shows "\<exists>sb'. flush_block crc32 sb = Inr sb' \<and> bb_data (sb_block sb') = []"
proof -
  have parts: "bb_ok blake3 cur (sb_block sb)" "3 \<le> bb_version (sb_block sb)" "sb_offset sb = length (concat sealed)"
    "sb_km sb = None" "\<forall>b \<in> set blks. good_block blake3 v b" "3 \<le> v" "sealed_as crc32 None blks sealed"
    using st by (auto simp: stored_def)
  have "sb_offset sb + length (with_crc crc32 (build (sb_block sb))) < 2 ^ 64"
    using stored_cost [OF parts(5-7)] build_cost [OF parts(1,2) ne] small by (simp add: parts(3) length_with_crc)
  moreover have "bb_offsets (sb_block sb) \<noteq> []" using parts(1) ne by (simp add: bb_ok_def)
  ultimately show ?thesis
    by (simp add: flush_block_def bb_is_empty_def last parts(4) seal_None new_with_version_def)
qed

lemma sst_add_succeeds:
  assumes noted: "noted blake3 bl es sb" and st: "stored blake3 crc32 None v blks sealed cur sb"
    and ents: "concat (map fst blks) @ cur = es" and small: "cost es < 2 ^ 64"
    and valid: "entry_valid e" and order: "es = [] \<or> entry_before (last es) e"
  shows "\<exists>sb'. sst_add blake3 crc32 sb e = Inr sb'"
proof -
  obtain k val s t where e: "e = (k, val, s, t)" by (cases e) blast
  let ?sb1 = "case sb_first_key sb of None \<Rightarrow> sb\<lparr>sb_first_key := Some k\<rparr> | Some _ \<Rightarrow> sb"
  have ord: "add_order_ok sb k (mask_seq s)" using add_order_ok_iff [OF noted] order e by simp
  have blk: "sb_block ?sb1 = sb_block sb" "sb_last_key ?sb1 = sb_last_key sb" by (cases "sb_first_key sb"; simp)+
  have st1: "stored blake3 crc32 None v blks sealed cur ?sb1"
    using st by (cases "sb_first_key sb") (simp_all add: stored_def)
  obtain bb added where add: "bb_add blake3 (sb_block ?sb1) k val s t = (bb, added)" by force
  have len: "k \<noteq> []" "\<not> (length k > 65535 \<or> length val > MAX_VALUE_SIZE)"
    using valid by (simp_all add: e entry_valid_def)
  show ?thesis
  proof (cases added)
    case True
    with add len ord show ?thesis by (simp add: sst_add_def e Let_def)
  next
    case False
    have "bb_data (sb_block ?sb1) \<noteq> []"
      using bb_add_empty [of "sb_block ?sb1" k val s t blake3] valid add False by (auto simp: e)
    then have cur: "cur \<noteq> []" using st1 by (auto simp: stored_def bb_ok_def)
    then have "sb_last_key ?sb1 = Some (fst (last es))" using noted ents by (auto simp: blk noted_def)
    from flush_block_succeeds [OF st1 cur this] small ents obtain sb2 where
      flush: "flush_block crc32 ?sb1 = Inr sb2" and "bb_data (sb_block sb2) = []" by auto
    from bb_add_empty [OF this(2) valid [unfolded e], of blake3] obtain bb' where
      "bb_add blake3 (sb_block sb2) k val s t = (bb', True)" by blast
    with add False len ord flush show ?thesis by (simp add: sst_add_def e Let_def)
  qed
qed

lemma sst_add_refuses:
  assumes noted: "noted blake3 bl es sb" and bad: "\<not> (entry_valid e \<and> (es = [] \<or> entry_before (last es) e))"
  shows "sst_add blake3 crc32 sb e = Inl Invalid_input"
proof -
  obtain k val s t where e: "e = (k, val, s, t)" by (cases e) blast
  show ?thesis
    using bad add_order_ok_iff [OF noted, of k s val t] by (auto simp: sst_add_def e entry_valid_def)
qed

lemma sst_add_all_accepts:
  assumes "noted blake3 bl es sb" and "stored blake3 crc32 None v blks sealed cur sb"
    and "concat (map fst blks) @ cur = es" and "cost (es @ es') < 2 ^ 64"
  shows "if entries_sorted (es @ es') \<and> (\<forall>e \<in> set es'. entry_valid e)
     then \<exists>sb'. sst_add_all blake3 crc32 sb es' = Inr sb'
     else sst_add_all blake3 crc32 sb es' = Inl Invalid_input"
  using assms
proof (induction es' arbitrary: es sb blks sealed cur)
  case Nil
  then show ?case by (simp add: noted_def)
next
  case (Cons e es')
  show ?case
  proof (cases "entry_valid e \<and> (es = [] \<or> entry_before (last es) e)")
    case True
    have "cost es < 2 ^ 64" using Cons.prems(4) by simp
    from sst_add_succeeds [OF Cons.prems(1-3) this, of e] True obtain sb1 where
      add: "sst_add blake3 crc32 sb e = Inr sb1" by blast
    have last: "cur \<noteq> [] \<Longrightarrow> sb_last_key sb = Some (fst (last cur))"
      using Cons.prems(1,3) by (auto simp: noted_def)
    obtain blks1 sealed1 cur1 where st: "stored blake3 crc32 None v blks1 sealed1 cur1 sb1"
      and ents: "concat (map fst blks1) @ cur1 = concat (map fst blks) @ cur @ [e]"
      using sst_add_stored [OF add Cons.prems(2) last] by metis
    have "concat (map fst blks1) @ cur1 = es @ [e]" using ents Cons.prems(3) by auto
    from Cons.IH [OF sst_add_noted [OF add Cons.prems(1)] st this] Cons.prems(4) True add show ?thesis
      by simp
  next
    case False
    have "\<not> (entries_sorted (es @ e # es') \<and> (\<forall>e \<in> set (e # es'). entry_valid e))"
    proof
      assume both: "entries_sorted (es @ e # es') \<and> (\<forall>e \<in> set (e # es'). entry_valid e)"
      then have "\<forall>x \<in> set es. entry_before x e" by (simp add: sorted_wrt_append)
      then have "es = [] \<or> entry_before (last es) e" using last_in_set by blast
      with False both show False by simp
    qed
    with sst_add_refuses [OF Cons.prems(1) False] show ?thesis by simp
  qed
qed

section \<open>Acceptance of a file\<close>

lemma index_cost:
  "length (concat (map index_entry (block_index blks sealed))) = sum_list (map (\<lambda>b. length (fst (last (fst b))) + 10) blks)"
proof -
  have "map (length \<circ> index_entry) (block_index blks sealed) = map (\<lambda>b. length (fst (last (fst b))) + 10) blks"
    by (rule nth_equalityI) (simp_all add: block_index_def length_index_entry)
  then show ?thesis by (simp add: length_concat)
qed

lemma sst_finish_succeeds:
  assumes noted: "noted blake3 bl es sb0" and st0: "stored blake3 crc32 None v blks0 sealed0 cur0 sb0"
    and ents0: "concat (map fst blks0) @ cur0 = es" and small: "cost es + 4 < 2 ^ 64"
  shows "\<exists>r. sst_finish crc32 sb0 = Inr r"
proof -
  have last: "cur0 \<noteq> [] \<Longrightarrow> sb_last_key sb0 = Some (fst (last cur0))" using noted ents0 by (auto simp: noted_def)
  obtain sb where flush: "flush_block crc32 sb0 = Inr sb"
  proof (cases "cur0 = []")
    case True
    then have "bb_is_empty (sb_block sb0)" using st0 by (simp add: stored_def bb_ok_def bb_is_empty_def)
    with that show thesis by (simp add: flush_block_def)
  next
    case False
    from flush_block_succeeds [OF st0 False last [OF False]] small ents0 that show thesis by auto
  qed
  obtain blks sealed where st: "stored blake3 crc32 None v blks sealed [] sb" and ents: "concat (map fst blks) = es"
    using flush_block_stored [OF st0 flush last] ents0 by metis
  have parts: "\<forall>b \<in> set blks. good_block blake3 v b" "3 \<le> v" "sealed_as crc32 None blks sealed"
    "sb_index sb = block_index blks sealed" "sb_offset sb = length (concat sealed)"
    using st by (simp_all add: stored_def)
  have "\<forall>e \<in> set (block_index blks sealed). length (fst e) < 2 ^ 16"
    using block_index_bounds [OF parts(1), of sealed] parts(3) unfolding sealed_as_def by blast
  then have keys: "\<not> list_ex (\<lambda>e. length (fst e) \<ge> 2 ^ 16) (sb_index sb)"
    unfolding list_ex_iff parts(4) by (auto simp: not_le)
  have "sb_offset sb + length (with_crc crc32 (concat (map index_entry (sb_index sb)))) < 2 ^ 64"
    using stored_cost [OF parts(1-3)] small unfolding parts(4,5) length_with_crc index_cost ents by linarith
  with keys show ?thesis unfolding sst_finish_def flush bind_res_simps by (simp add: Let_def)
qed

text \<open>What the writer accepts, and what it answers otherwise.\<close>

lemma sst_write_cases:
  assumes "3 \<le> v" and "cost es + 4 < 2 ^ 64"
  shows "if entries_sorted es \<and> (\<forall>e \<in> set es. entry_valid e)
     then \<exists>file meta. sst_write blake3 crc32 None m hashes v es = Inr (file, meta)
     else sst_write blake3 crc32 None m hashes v es = Inl Invalid_input"
proof -
  let ?sb = "set_format_version (sst_create m hashes None) v"
  have new: "concat (map fst []) @ [] = ([] :: entry list)" by simp
  note inv = sst_new_inv(1) [of blake3 m hashes None v] sst_new_inv(2) [OF assms(1), of blake3 crc32 None m hashes]
  have all: "if entries_sorted es \<and> (\<forall>e \<in> set es. entry_valid e)
     then \<exists>sb'. sst_add_all blake3 crc32 ?sb es = Inr sb' else sst_add_all blake3 crc32 ?sb es = Inl Invalid_input"
    using sst_add_all_accepts [OF inv new, of es] assms(2) by simp
  show ?thesis
  proof (cases "entries_sorted es \<and> (\<forall>e \<in> set es. entry_valid e)")
    case True
    with all obtain sb where add: "sst_add_all blake3 crc32 ?sb es = Inr sb" by auto
    from sst_add_all_inv [OF add inv new] obtain blks sealed cur where "noted blake3 (bloom_new m hashes) es sb"
      "stored blake3 crc32 None v blks sealed cur sb" "concat (map fst blks) @ cur = es" by auto
    from sst_finish_succeeds [OF this assms(2)] add True show ?thesis by (auto simp: sst_write_def)
  next
    case False
    with all show ?thesis by (simp add: sst_write_def)
  qed
qed

end
