(* ===== verification/SstProps.thy ===== *)
theory SstProps
  imports SstAccept
begin

text \<open>
  What SSTable files promise: point reads, iteration and the stream give back what was written, the
  writer accepts exactly the ascending entries within the limits, and the gap between the limit of
  the writer and the limit of the reader.
\<close>

section \<open>Accepted entries\<close>

lemma sst_write_succeeds:
  assumes "entries_sorted es" and "\<forall>e \<in> set es. entry_valid e" and "3 \<le> v" and "cost es + 4 < 2 ^ 64"
  obtains bs meta where "sst_write blake3 crc32 None m hashes v es = Inr (bs, meta)"
  using sst_write_cases [OF assms(3,4), of blake3 crc32 m hashes] assms(1,2) by auto

text \<open>An example: two versions of one key, a tombstone among them, and another key.\<close>

definition example_entries :: "entry list" where
  "example_entries = [([97], [1], 2 OR TOMBSTONE_BIT, 0), ([97], [7], 1, 0), ([98], [2], 1, 0)]"

lemma example_written:
  obtains bs meta where "sst_write (\<lambda>k. k @ replicate 32 0) (\<lambda>b. of_nat (length b)) None 64 3 4 example_entries = Inr (bs, meta)"
proof -
  have sorted: "entries_sorted example_entries"
    by (simp add: example_entries_def entry_before_def TOMBSTONE_BIT_def)
  have valid: "\<forall>e \<in> set example_entries. entry_valid e"
    by (simp add: example_entries_def entry_valid_def MAX_VALUE_SIZE_def)
  have small: "cost example_entries + 4 < 2 ^ 64" by (simp add: example_entries_def entry_cost_def)
  have "3 \<le> (4 :: nat)" by simp
  from sorted valid this small show thesis by (rule sst_write_succeeds) (rule that)
qed

lemma example_small: "\<forall>e \<in> set example_entries. length (fst (snd e)) \<le> READABLE_VALUE"
  by (simp add: example_entries_def READABLE_VALUE_def)

lemma km_ok_None [simp]: "km_ok None"
  by (simp add: km_ok_def)

section \<open>Reading what was written\<close>

lemma written_point_read:
  assumes "km_ok km" and "v = 3 \<or> v = 4" and "sst_write blake3 crc32 km m hashes v es = Inr (file, meta)"
    and "\<forall>e \<in> set es. length (fst (snd e)) \<le> READABLE_VALUE"
  shows "\<exists>rd. sst_open crc32 km file = Inr rd \<and>
    get_at blake3 crc32 rd key ms mx =
      Inr (map_option snd (find (\<lambda>e. fst e = key \<and> entry_visible (mask_seq ms) mx e) es))"
proof -
  let ?P = "\<lambda>e. fst e = key \<and> entry_visible (mask_seq ms) mx e"
  obtain rd blks where opn: "sst_open crc32 km file = Inr rd" and rd: "readable blake3 crc32 blks rd"
    and ents: "concat (map fst blks) = es" and sorted: "entries_sorted es"
    and bloom: "rd_bloom rd = Some (foldl (bloom_insert blake3) (bloom_new m hashes) (map fst es))"
    and range: "sm_first_key (rd_meta rd) = (if es = [] then [] else fst (hd es))"
      "sm_last_key (rd_meta rd) = (if es = [] then [] else fst (last es))" and "es \<noteq> [] \<longrightarrow> rd_meta rd = meta"
    by (rule written_readable [OF assms])
  have keys: "sorted (map fst es)" using sorted by (rule entries_sorted_keys)
  let ?bl = "foldl (bloom_insert blake3) (bloom_new m hashes) (map fst es)"
  have absent: "find ?P es = None" if "\<forall>e \<in> set es. fst e \<noteq> key" using that by (intro find_None) blast
  have "get_at blake3 crc32 rd key ms mx = Inr (map_option snd (find ?P es))"
  proof (cases "may_contain blake3 ?bl key")
    case False
    then have "key \<notin> set (map fst es)" using may_contain_fold [OF bloom_ok_new] by blast
    then have "\<forall>e \<in> set es. fst e \<noteq> key" by auto
    with False show ?thesis by (simp add: get_at_def bloom absent)
  next
    case bl: True
    show ?thesis
    proof (cases "key < sm_first_key (rd_meta rd) \<or> key > sm_last_key (rd_meta rd)")
      case True
      have "\<forall>e \<in> set es. fst e \<noteq> key"
      proof
        fix e assume e: "e \<in> set es"
        then have "fst (hd es) \<le> fst e" using keys by (cases es) auto
        moreover have "fst e \<le> fst (last es)" by (rule last_key_max [OF keys e])
        moreover have "es \<noteq> []" using e by auto
        ultimately show "fst e \<noteq> key" using True by (auto simp: range)
      qed
      with True bl show ?thesis by (simp add: get_at_def bloom absent)
    next
      case False
      have "get_blocks blake3 crc32 rd key (mask_seq ms) mx (search_start (rd_index rd) key)
          (length (rd_index rd) - search_start (rd_index rd) key) = Inr (find ?P es)"
        using get_blocks_all [OF rd] keys by (simp add: ents)
      with False bl show ?thesis unfolding get_at_def Let_def by (simp add: bloom)
    qed
  qed
  with opn show ?thesis by blast
qed

text \<open>C12: point reads of an SSTable. A file in either format that was written from accepted entries,
  encrypted or not, with values of at most 15 MiB, opens, and a point read returns the first entry
  of the key that is visible at the snapshot and to the transaction, which is the newest one since
  the entries of a key stand newest first. No Bloom filter, key range, index or block filter hides
  an entry.\<close>

theorem sst_point_reads:
  assumes "km_ok km" and "v = 3 \<or> v = 4" and "sst_write blake3 crc32 km m hashes v es = Inr (file, meta)"
    and "\<forall>e \<in> set es. length (fst (snd e)) \<le> READABLE_VALUE"
  shows "\<exists>rd. sst_open crc32 km file = Inr rd \<and>
    get_at blake3 crc32 rd key ms mx =
      Inr (map_option snd (find (\<lambda>e. fst e = key \<and> entry_visible (mask_seq ms) mx e) es))"
  by (rule written_point_read [OF assms])

lemma sst_point_reads_witness:
  "\<exists>bs meta rd. sst_write (\<lambda>k. k @ replicate 32 0) (\<lambda>b. of_nat (length b)) None 64 3 4 example_entries = Inr (bs, meta) \<and>
     sst_open (\<lambda>b. of_nat (length b)) None bs = Inr rd \<and>
     get_at (\<lambda>k. k @ replicate 32 0) (\<lambda>b. of_nat (length b)) rd [97] 1 0 = Inr (Some ([7], 1, 0))"
proof -
  obtain bs meta where w: "sst_write (\<lambda>k. k @ replicate 32 0) (\<lambda>b. of_nat (length b)) None 64 3 4 example_entries = Inr (bs, meta)"
    by (rule example_written)
  have "find (\<lambda>e. fst e = [97] \<and> entry_visible (mask_seq 1) 0 e) example_entries = Some ([97], [7], 1, 0)"
    by (simp add: example_entries_def entry_visible_def TOMBSTONE_BIT_def word_le_nat_alt)
  with sst_point_reads [OF km_ok_None disjI2 [OF refl] w example_small, of "[97]" 1 0] show ?thesis
    unfolding w by auto
qed

text \<open>C13: an SSTable reads back as written. Iteration returns all entries in order, the stream of the
  compaction returns them one by one and then nothing any more, and the metadata of the
  opened file is what the writer returned.\<close>

theorem sst_round_trip:
  assumes "km_ok km" and "v = 3 \<or> v = 4" and "sst_write blake3 crc32 km m hashes v es = Inr (file, meta)"
    and "\<forall>e \<in> set es. length (fst (snd e)) \<le> READABLE_VALUE"
  shows "\<exists>rd. sst_open crc32 km file = Inr rd \<and>
    sst_iter crc32 rd = Inr (map (\<lambda>(k, v, s, t). (k, v, s)) es) \<and>
    stream_take crc32 rd n sst_stream_new = Inr (map Some (take n es) @ replicate (n - length es) None) \<and>
    (es \<noteq> [] \<longrightarrow> rd_meta rd = meta)"
proof -
  obtain rd blks where opn: "sst_open crc32 km file = Inr rd" and rd: "readable blake3 crc32 blks rd"
    and ents: "concat (map fst blks) = es" and "entries_sorted es"
    and "rd_bloom rd = Some (foldl (bloom_insert blake3) (bloom_new m hashes) (map fst es))"
    and "sm_first_key (rd_meta rd) = (if es = [] then [] else fst (hd es))"
      "sm_last_key (rd_meta rd) = (if es = [] then [] else fst (last es))" and meta: "es \<noteq> [] \<longrightarrow> rd_meta rd = meta"
    by (rule written_readable [OF assms])
  have "map (\<lambda>i. fst (blks ! i)) [0..<length blks] = map fst blks" by (rule nth_equalityI) simp_all
  then have "sst_iter crc32 rd = Inr (map (\<lambda>(k, v, s, t). (k, v, s)) es)"
    using iter_blocks_run [OF rd, of "[0..<length blks]"] readable_length [OF rd] ents by (simp add: sst_iter_def)
  moreover have "stream_ok blks sst_stream_new" "stream_rest blks sst_stream_new = es"
    using ents by (simp_all add: stream_ok_def stream_rest_def sst_stream_new_def entries_from_def)
  then have "stream_take crc32 rd n sst_stream_new = Inr (map Some (take n es) @ replicate (n - length es) None)"
    using stream_take_run [OF rd] by simp
  ultimately show ?thesis using opn meta by blast
qed

lemma sst_round_trip_witness:
  "\<exists>bs meta rd. sst_write (\<lambda>k. k @ replicate 32 0) (\<lambda>b. of_nat (length b)) None 64 3 4 example_entries = Inr (bs, meta) \<and>
     sst_open (\<lambda>b. of_nat (length b)) None bs = Inr rd \<and>
     sst_iter (\<lambda>b. of_nat (length b)) rd =
       Inr [([97], [1], 2 OR TOMBSTONE_BIT), ([97], [7], 1), ([98], [2], 1)]"
proof -
  obtain bs meta where w: "sst_write (\<lambda>k. k @ replicate 32 0) (\<lambda>b. of_nat (length b)) None 64 3 4 example_entries = Inr (bs, meta)"
    by (rule example_written)
  from sst_round_trip [OF km_ok_None disjI2 [OF refl] w example_small, of 0] w show ?thesis
    by (auto simp: example_entries_def)
qed

text \<open>What the writer accepts. Without encryption, and while all offsets fit into 64 bits, a file is
  written exactly if the keys ascend, the versions of a key strictly descend, no key is empty and
  keys and values are within their limits; otherwise the writer reports invalid input.\<close>

theorem sst_write_accepts:
  assumes "3 \<le> v" and "cost es + 4 < 2 ^ 64"
  shows "if entries_sorted es \<and> (\<forall>e \<in> set es. entry_valid e)
     then \<exists>file meta. sst_write blake3 crc32 None m hashes v es = Inr (file, meta)
     else sst_write blake3 crc32 None m hashes v es = Inl Invalid_input"
  by (rule sst_write_cases [OF assms])

lemma sst_write_accepts_witness:
  "(\<exists>bs meta. sst_write (\<lambda>k. k @ replicate 32 0) (\<lambda>b. of_nat (length b)) None 64 3 4 [([97], [1], 2, 0), ([98], [], 1, 0)] = Inr (bs, meta)) \<and>
   sst_write (\<lambda>k. k @ replicate 32 0) (\<lambda>b. of_nat (length b)) None 64 3 4 [([98], [1], 2, 0), ([97], [], 1, 0)] = Inl Invalid_input"
  using sst_write_accepts [of 4 "[([97], [1], 2, 0), ([98], [], 1, 0)]" "\<lambda>k. k @ replicate 32 0" "\<lambda>b. of_nat (length b)" 64 3]
    sst_write_accepts [of 4 "[([98], [1], 2, 0), ([97], [], 1, 0)]" "\<lambda>k. k @ replicate 32 0" "\<lambda>b. of_nat (length b)" 64 3]
  by (simp add: entry_before_def entry_valid_def MAX_VALUE_SIZE_def entry_cost_def)

section \<open>Values between the two limits\<close>

text \<open>A value that is written and cannot be read. The writer takes values of up to 128 MiB, the reader
  takes blocks of up to 16 MiB: a file with a value in between is written without an error and
  does not open.\<close>

theorem oversized_value_unreadable:
  assumes "k \<noteq> []" and "length k \<le> 65535" and "16 * 1024 * 1024 < length val" and "length val \<le> MAX_VALUE_SIZE"
  shows "\<exists>bs meta. sst_write blake3 crc32 None m hashes 4 [(k, val, s, t)] = Inr (bs, meta) \<and>
    sst_open crc32 None bs = Inl Storage_error"
proof -
  let ?e = "(k, val, s, t)"
  have "cost [?e] + 4 < 2 ^ 64" using assms(2,4) by (simp add: entry_cost_def MAX_VALUE_SIZE_def)
  then obtain bs meta where wr: "sst_write blake3 crc32 None m hashes 4 [?e] = Inr (bs, meta)"
    using assms by (rule_tac sst_write_succeeds [of "[?e]" 4 blake3 crc32 m hashes]) (auto simp: entry_valid_def)
  obtain blks sealed sb where ents: "concat (map fst blks) = [?e]"
    and fl: "bs = file_of crc32 blks sealed (sb_bloom sb) sb" and ok: "file_ok blake3 crc32 None 4 blks sealed (sb_bloom sb) sb"
    by (rule written_file [OF km_ok_None _ _ wr]) auto
  have ne: "\<forall>b \<in> set blks. fst b \<noteq> []" using ok by (auto simp: file_ok_def good_block_def)
  obtain b where b: "blks = [b]" "fst b = [?e]"
    using ents ne by (cases blks; cases "tl blks") (auto simp: append_eq_Cons_conv)
  have g: "bb_ok blake3 [?e] (snd b)" "3 \<le> bb_version (snd b)"
    using ok b by (auto simp: file_ok_def good_block_def)
  have "length val \<le> length (build (snd b))"
    using g(1) enc_entry_length [of k val s t] unfolding current_size_build [OF g] current_size_def Let_def
    by (auto simp: bb_ok_def simp del: enc_entry.simps)
  moreover obtain x where x: "sealed = [x]" "x = with_crc crc32 (build (snd b))"
    using ok b by (cases sealed) (auto simp: file_ok_def sealed_as_def seal_None)
  ultimately have "length x > MAX_BLOCK" using assms(3) by (simp add: length_with_crc MAX_BLOCK_def)
  from sst_open_oversized [OF ok [unfolded b(1) x(1)] this] have "sst_open crc32 None bs = Inl Storage_error"
    by (simp add: fl b(1) x(1))
  with wr show ?thesis by blast
qed

lemma oversized_value_unreadable_witness:
  "\<exists>bs meta. sst_write (\<lambda>k. k @ replicate 32 0) (\<lambda>b. 0) None 64 3 4 [([97], replicate (17 * 1024 * 1024) 0, 1, 0)] = Inr (bs, meta) \<and>
     sst_open (\<lambda>b. 0) None bs = Inl Storage_error"
  by (rule oversized_value_unreadable) (simp_all add: MAX_VALUE_SIZE_def)

end
