(* ===== verification/SstScan.thy ===== *)
theory SstScan
  imports SstProps MemTableScan
begin

text \<open>
  The scans of an SSTable (\<open>sstable/reader_ext.rs\<close>) and \<open>lookup_metrics\<close> (\<open>sstable/reader.rs\<close>).
  Both scans walk over the entries of a block and decide from the key alone whether the entry is
  returned, passed over, or ends the scan; \<open>prefix_step\<close> and \<open>range_step\<close> are these decisions.
\<close>

section \<open>The scans\<close>

datatype scan_step = Take | Skip | Stop

definition prefix_step :: "bytes \<Rightarrow> bytes \<Rightarrow> scan_step" where
  "prefix_step pfx entry_key =
     (if \<not> prefix pfx entry_key \<and> entry_key > pfx then Stop
      else if prefix pfx entry_key then Take else Skip)"

definition range_step :: "bound \<Rightarrow> bound \<Rightarrow> bytes \<Rightarrow> scan_step" where
  "range_step s e entry_key =
     (if \<not> above s entry_key then Skip
      else if \<not> below e entry_key then Stop else Take)"

text \<open>The entries of a block lower \<open>i\<close> on, and whether the scan ends there; \<open>room\<close> counts those left.\<close>

fun scan_block ::
  "(bytes \<Rightarrow> scan_step) \<Rightarrow> bytes \<Rightarrow> nat \<Rightarrow> bool \<Rightarrow> nat \<Rightarrow> nat \<Rightarrow> (entry list \<times> bool) option" where
  "scan_block step blk start is_v3 i 0 = Some ([], False)"
| "scan_block step blk start is_v3 i (Suc room) =
     do {
       entry_key \<leftarrow> get_entry_key_at_index blk start i is_v3;
       case step entry_key of
         Stop \<Rightarrow> Some ([], True)
       | Skip \<Rightarrow> scan_block step blk start is_v3 (i + 1) room
       | Take \<Rightarrow> do {
           e \<leftarrow> read_entry blk start i is_v3;
           (es, broke) \<leftarrow> scan_block step blk start is_v3 (i + 1) room;
           Some (e # es, broke)}}"

text \<open>The first entry of a block that a scan from a key on looks at.\<close>

definition block_start_i :: "bytes option \<Rightarrow> bytes \<Rightarrow> nat \<Rightarrow> nat \<Rightarrow> bool \<Rightarrow> nat option" where
  "block_start_i lower blk start n is_v3 =
     (case lower of
        None \<Rightarrow> Some 0
      | Some key \<Rightarrow> map_option (\<lambda>r. case r of Inl i \<Rightarrow> i | Inr i \<Rightarrow> i)
                      (binary_search_index_in_block blk start n key is_v3))"

fun scan_blocks ::
  "(bytes \<Rightarrow> scan_step) \<Rightarrow> bytes option \<Rightarrow> (bytes \<Rightarrow> u32) \<Rightarrow> sst_reader \<Rightarrow> nat list \<Rightarrow> sst_error + entry list" where
  "scan_blocks step lower crc32 rd [] = Inr []"
| "scan_blocks step lower crc32 rd (idx # idxs) =
     bind_res (load_block crc32 rd idx) (\<lambda>(blk, n, start, bloom).
     bind_res (ok_or Storage_error (block_start_i lower blk start n (rd_version rd \<ge> 3))) (\<lambda>i.
     bind_res (ok_or Storage_error (scan_block step blk start (rd_version rd \<ge> 3) i (n - i))) (\<lambda>(es, broke).
       if broke then Inr es
       else bind_res (scan_blocks step lower crc32 rd idxs) (\<lambda>rest. Inr (es @ rest)))))"

definition prefix_start :: "(bytes \<times> nat) list \<Rightarrow> bytes \<Rightarrow> nat" where
  "prefix_start index pfx =
     rewind_index index pfx (case binary_search_by_key fst pfx index of
                               Inl i \<Rightarrow> i
                             | Inr i \<Rightarrow> if i > 0 then i - 1 else 0)"

definition scan_prefix :: "(bytes \<Rightarrow> u32) \<Rightarrow> sst_reader \<Rightarrow> bytes \<Rightarrow> sst_error + entry list" where
  "scan_prefix crc32 rd pfx =
     scan_blocks (prefix_step pfx) (Some pfx) crc32 rd [prefix_start (rd_index rd) pfx..<length (rd_index rd)]"

definition scan_range :: "(bytes \<Rightarrow> u32) \<Rightarrow> sst_reader \<Rightarrow> bound \<Rightarrow> bound \<Rightarrow> sst_error + entry list" where
  "scan_range crc32 rd s e =
     scan_blocks (range_step s e) (bound_key s) crc32 rd [0..<length (rd_index rd)]"

text \<open>The four stages of a point lookup: file filter, key range, block filter, found.\<close>

definition lookup_metrics ::
  "(bytes \<Rightarrow> bytes) \<Rightarrow> (bytes \<Rightarrow> u32) \<Rightarrow> sst_reader \<Rightarrow> bytes \<Rightarrow> bool \<times> bool \<times> bool \<times> bool" where
  "lookup_metrics blake3 crc32 rd key =
     (let whole_bloom_passed = (case rd_bloom rd of Some bl \<Rightarrow> may_contain blake3 bl key | None \<Rightarrow> True)
      in if key < sm_first_key (rd_meta rd) \<or> key > sm_last_key (rd_meta rd)
         then (whole_bloom_passed, False, False, False)
         else (let idx = (case binary_search_by_key fst key (rd_index rd) of Inl i \<Rightarrow> i | Inr i \<Rightarrow> i)
               in if idx \<ge> length (rd_index rd) then (whole_bloom_passed, True, False, False)
                  else (case load_block crc32 rd idx of
                          Inl _ \<Rightarrow> (whole_bloom_passed, True, False, False)
                        | Inr (blk, n, start, bloom) \<Rightarrow>
                            if \<not> may_contain_key_in_block_bloom blake3 bloom key (rd_version rd)
                            then (whole_bloom_passed, True, False, False)
                            else (case binary_search_entry_in_block blk start n key (rd_version rd \<ge> 3) of
                                    Some (Some _) \<Rightarrow> (whole_bloom_passed, True, True, True)
                                  | _ \<Rightarrow> (whole_bloom_passed, True, True, False)))))"

section \<open>A scan is a filter\<close>

definition taken :: "(bytes \<Rightarrow> scan_step) \<Rightarrow> entry list \<Rightarrow> entry list" where
  "taken step es = filter (\<lambda>e. step (fst e) = Take) es"

definition stops :: "(bytes \<Rightarrow> scan_step) \<Rightarrow> entry list \<Rightarrow> bool" where
  "stops step es \<longleftrightarrow> (\<exists>e \<in> set es. step (fst e) = Stop)"

lemma taken_append: "taken step (es @ es') = taken step es @ taken step es'"
  by (simp add: taken_def)

lemma taken_skipped: "\<forall>e \<in> set es. step (fst e) = Skip \<Longrightarrow> taken step es = [] \<and> \<not> stops step es"
  by (auto simp: taken_def stops_def filter_empty_conv)

lemma sorted_smaller_prefix:
  "sorted xs \<Longrightarrow> j < length (filter (\<lambda>x. x < k) xs) \<Longrightarrow> xs ! j < k" for k :: "'a :: linorder"
proof (induction xs arbitrary: j)
  case (Cons x xs)
  show ?case
  proof (cases "x < k")
    case True
    with Cons show ?thesis by (cases j) simp_all
  next
    case False
    with Cons.prems(1) have "\<forall>y \<in> set (x # xs). \<not> y < k" by (auto simp: not_less intro: order_trans)
    then have "filter (\<lambda>x. x < k) (x # xs) = []" by (simp only: filter_empty_conv)
    with Cons.prems(2) show ?thesis by simp
  qed
qed simp

lemma position_first: "position P xs = Some i \<Longrightarrow> j < i \<Longrightarrow> \<not> P (xs ! j)"
proof (induction xs arbitrary: i j)
  case (Cons x xs)
  then show ?case by (cases j) (auto split: if_splits)
qed simp

text \<open>
  The decision of a scan fits the order of the keys when nothing is taken behind a stop, and when
  the keys below the start are neither taken nor stop the scan.
\<close>

locale ordered_step =
  fixes step :: "bytes \<Rightarrow> scan_step" and lower :: "bytes option"
  assumes stop_final: "step k1 = Stop \<Longrightarrow> k1 \<le> k2 \<Longrightarrow> step k2 \<noteq> Take"
    and below_start: "lower = Some k \<Longrightarrow> k1 < k \<Longrightarrow> step k1 = Skip"
begin

lemma taken_after_stop:
  assumes "step k = Stop" and "\<forall>e \<in> set es. k \<le> fst e"
  shows "taken step es = []"
  using assms stop_final by (auto simp: taken_def filter_empty_conv)

lemma scan_block_run:
  assumes ok: "bb_ok blake3 es bb" and sorted: "sorted (map fst es)"
  shows "i + room = length es \<Longrightarrow>
    scan_block step (build bb) (offsets_at bb) True i room = Some (taken step (drop i es), stops step (drop i es))"
proof (induction room arbitrary: i)
  case 0
  then show ?case by (simp add: taken_def stops_def)
next
  case (Suc room)
  then have i: "i < length es" by simp
  note read = read_entry_build [OF ok i]
  have d: "drop i es = es ! i # drop (Suc i) es" using i by (rule Cons_nth_drop_Suc [symmetric])
  have IH: "scan_block step (build bb) (offsets_at bb) True (Suc i) room =
      Some (taken step (drop (Suc i) es), stops step (drop (Suc i) es))"
    using Suc.IH [of "i + 1"] Suc.prems by simp
  show ?case
  proof (cases "step (fst (es ! i))")
    case Stop
    have "sorted (map fst (drop i es))" using sorted by (simp add: drop_map [symmetric] sorted_wrt_drop)
    then have "taken step (drop (Suc i) es) = []"
      unfolding d by (intro taken_after_stop [OF Stop]) auto
    with Stop show ?thesis unfolding d by (simp add: read(1) taken_def stops_def)
  qed (simp_all add: read IH d taken_def stops_def)
qed

lemma block_start_run:
  assumes ok: "bb_ok blake3 es bb" and sorted: "sorted (map fst es)"
  obtains i where "block_start_i lower (build bb) (offsets_at bb) (length es) True = Some i"
    and "i \<le> length es" and "\<forall>e \<in> set (take i es). step (fst e) = Skip"
proof (cases "lower")
  case None
  then show thesis using that [of 0] by (simp add: block_start_i_def)
next
  case (Some k)
  let ?n = "length (filter (\<lambda>k'. k' < k) (map fst es))"
  have low: "\<forall>e \<in> set (take i es). step (fst e) = Skip" if "\<forall>j < i. fst (es ! j) < k" for i
  proof
    fix e assume "e \<in> set (take i es)"
    then obtain j where "j < i" "j < length es" "es ! j = e" by (auto simp: in_set_conv_nth)
    with that have "fst e < k" by blast
    with below_start [OF Some] show "step (fst e) = Skip" .
  qed
  show thesis
  proof (cases "position (\<lambda>k'. k' = k) (map fst es)")
    case None
    have le: "?n \<le> length es" using length_filter_le [of _ "map fst es"] by simp
    have count: "\<forall>j < ?n. fst (es ! j) < k"
    proof (intro allI impI)
      fix j assume "j < ?n"
      with sorted_smaller_prefix [OF sorted this] le show "fst (es ! j) < k" by simp
    qed
    with None Some show thesis
      using that [of ?n] low [OF count] le block_search_index [OF ok sorted, of k]
      by (simp add: block_start_i_def del: position_None filter_map)
  next
    case pos: (Some i)
    have "\<forall>j < i. fst (es ! j) < k"
    proof (intro allI impI)
      fix j assume j: "j < i"
      have i: "i < length es" "fst (es ! i) = k" using position_Some [OF pos] by auto
      have "fst (es ! j) \<noteq> k" using i(1) j position_first [OF pos j] by simp
      moreover have "fst (es ! j) \<le> fst (es ! i)" using sorted_nth_mono [OF sorted, of j i] i j by simp
      ultimately show "fst (es ! j) < k" using i(2) by simp
    qed
    with pos Some show thesis
      using that [of i] low [of i] block_search_index [OF ok sorted, of k] position_Some [OF pos]
      by (simp add: block_start_i_def)
  qed
qed

text \<open>Over the blocks, from one in front of which every entry is skipped or stands below the start.\<close>

lemma scan_blocks_run:
  assumes rd: "readable blake3 crc32 blks rd"
  shows "idx \<le> length blks \<Longrightarrow> sorted (map fst (entries_from blks idx)) \<Longrightarrow>
    scan_blocks step lower crc32 rd [idx..<length blks] = Inr (taken step (entries_from blks idx))"
proof (induction "length blks - idx" arbitrary: idx)
  case 0
  then show ?case by (simp add: entries_from_def taken_def)
next
  case (Suc n)
  then have i: "idx < length blks" by simp
  let ?es = "fst (blks ! idx)" and ?bb = "snd (blks ! idx)"
  note block = readable_block [OF rd i]
  have split: "entries_from blks idx = ?es @ entries_from blks (Suc idx)" by (rule entries_from_step [OF i])
  have sorted: "sorted (map fst ?es)" "sorted (map fst (entries_from blks (Suc idx)))"
    "\<forall>e \<in> set ?es. \<forall>e' \<in> set (entries_from blks (Suc idx)). fst e \<le> fst e'"
    using Suc.prems(2) unfolding split by (auto simp: sorted_append)
  have load: "load_block crc32 rd idx = Inr (build ?bb, length ?es, offsets_at ?bb, block_bits ?bb)"
    using rd i by (simp add: readable_def)
  obtain j where j: "block_start_i lower (build ?bb) (offsets_at ?bb) (length ?es) True = Some j" "j \<le> length ?es"
    "\<forall>e \<in> set (take j ?es). step (fst e) = Skip"
    by (rule block_start_run [OF block(1) sorted(1)])
  have "j + (length ?es - j) = length ?es" using j(2) by simp
  note run = scan_block_run [OF block(1) sorted(1) this]
  have taken: "taken step (drop j ?es) = taken step ?es"
  proof -
    have "taken step (take j ?es @ drop j ?es) = taken step (drop j ?es)"
      unfolding taken_append using taken_skipped [OF j(3)] by simp
    then show ?thesis by simp
  qed
  have IH: "scan_blocks step lower crc32 rd [Suc idx..<length blks] = Inr (taken step (entries_from blks (Suc idx)))"
    using Suc.hyps(1) [of "Suc idx"] Suc.hyps(2) i sorted(2) by simp
  have stopped: "taken step (entries_from blks (Suc idx)) = []" if stop: "stops step (drop j ?es)"
  proof -
    from stop obtain e where e: "e \<in> set (drop j ?es)" "step (fst e) = Stop" by (auto simp: stops_def)
    then have "e \<in> set ?es" by (meson in_set_dropD)
    with e(2) sorted(3) show ?thesis by (intro taken_after_stop) blast+
  qed
  have "[idx..<length blks] = idx # [Suc idx..<length blks]" using i by (rule upt_conv_Cons)
  moreover have "3 \<le> rd_version rd" by (rule block(4))
  ultimately show ?case
    unfolding split using stopped by (simp add: load j(1) run IH taken taken_append)
qed

end

section \<open>The two scans\<close>

interpretation prefix_scan: ordered_step "prefix_step pfx" "Some pfx" for pfx
proof unfold_locales
  show "prefix_step pfx k2 \<noteq> Take" if "prefix_step pfx k1 = Stop" "k1 \<le> k2" for k1 k2
    using that prefix_between [of pfx k2 k1] by (auto simp: prefix_step_def less_imp_le split: if_splits)
  show "prefix_step pfx k1 = Skip" if "Some pfx = Some k" "k1 < k" for k k1
    using that prefix_le [of pfx k1] by (auto simp: prefix_step_def)
qed

interpretation range_scan: ordered_step "range_step s e" "bound_key s" for s e
proof unfold_locales
  show "range_step s e k2 \<noteq> Take" if "range_step s e k1 = Stop" "k1 \<le> k2" for k1 k2
    using that by (cases e) (auto simp: range_step_def split: if_splits)
  show "range_step s e k1 = Skip" if "bound_key s = Some k" "k1 < k" for k k1
    using that by (cases s) (auto simp: range_step_def)
qed

lemma scan_range_run:
  assumes "readable blake3 crc32 blks rd" and "sorted (map fst (concat (map fst blks)))"
  shows "scan_range crc32 rd s e = Inr (taken (range_step s e) (concat (map fst blks)))"
  using range_scan.scan_blocks_run [OF assms(1), of 0] assms(2)
  by (simp add: scan_range_def readable_length [OF assms(1)] entries_from_def)

lemma below_block:
  assumes rd: "readable blake3 crc32 blks rd" and sorted: "sorted (map fst (concat (map fst blks)))"
    and i: "i \<le> length blks" and low: "\<forall>j < i. fst (rd_index rd ! j) < k"
  shows "\<forall>e \<in> set (concat (map fst (take i blks))). fst e < k"
proof
  fix e assume "e \<in> set (concat (map fst (take i blks)))"
  then obtain b where "b \<in> set (take i blks)" and b: "e \<in> set (fst b)" by auto
  then obtain j where "j < length (take i blks)" "take i blks ! j = b" by (auto simp: in_set_conv_nth)
  with b have j: "j < i" "j < length blks" and e: "e \<in> set (fst (blks ! j))" by auto
  have "concat (map fst blks) = concat (map fst (take j blks)) @ fst (blks ! j) @ entries_from blks (Suc j)"
    unfolding entries_from_step [OF j(2), symmetric] unfolding entries_from_def
    by (metis append_take_drop_id concat_append map_append)
  with sorted have "sorted (map fst (fst (blks ! j)))" by (simp add: sorted_append)
  from last_key_max [OF this e] have "fst e \<le> fst (rd_index rd ! j)" unfolding readable_block(5) [OF rd j(2)] .
  with low j(1) show "fst e < k" by (blast intro: le_less_trans)
qed

lemma prefix_start_run:
  assumes sorted: "sorted (map fst index)"
  shows "prefix_start index pfx \<le> length index" and "\<forall>j < prefix_start index pfx. fst (index ! j) < pfx"
proof -
  let ?i = "case binary_search_by_key fst pfx index of Inl i \<Rightarrow> i | Inr i \<Rightarrow> if i > 0 then i - 1 else 0"
  let ?r = "prefix_start index pfx"
  have i: "?i \<le> length index"
    using bs.found [OF sorted, of pfx] bs.missing [OF sorted, of pfx]
    by (cases "binary_search_by_key fst pfx index") auto
  have r: "?r \<le> ?i" "0 < ?r \<longrightarrow> fst (index ! (?r - 1)) < pfx"
    using rewind_index_run [of index pfx ?i] by (simp_all add: prefix_start_def)
  show "?r \<le> length index" using r(1) i by simp
  show "\<forall>j < ?r. fst (index ! j) < pfx"
  proof (intro allI impI)
    fix j assume "j < ?r"
    then have "fst (index ! j) \<le> fst (index ! (?r - 1))"
      using sorted_nth_mono [OF sorted, of j "?r - 1"] r(1) i by simp
    with r(2) \<open>j < ?r\<close> show "fst (index ! j) < pfx" by (auto intro: le_less_trans)
  qed
qed

lemma scan_prefix_run:
  assumes rd: "readable blake3 crc32 blks rd" and sorted: "sorted (map fst (concat (map fst blks)))"
  shows "scan_prefix crc32 rd pfx = Inr (taken (prefix_step pfx) (concat (map fst blks)))"
proof -
  let ?s = "prefix_start (rd_index rd) pfx"
  note len = readable_length [OF rd]
  note start = prefix_start_run [OF index_keys_sorted [OF rd sorted], of pfx, unfolded len]
  have split: "concat (map fst blks) = concat (map fst (take ?s blks)) @ entries_from blks ?s"
    unfolding entries_from_def by (metis append_take_drop_id concat_append map_append)
  have "\<forall>e \<in> set (concat (map fst (take ?s blks))). prefix_step pfx (fst e) = Skip"
    using below_block [OF rd sorted start] prefix_scan.below_start by blast
  note none = taken_skipped [OF this]
  have "sorted (map fst (entries_from blks ?s))" using sorted unfolding split by (simp add: sorted_append)
  from prefix_scan.scan_blocks_run [OF rd start(1) this] show ?thesis
    unfolding split taken_append using none by (simp add: scan_prefix_def len)
qed

section \<open>The lookup stages\<close>

lemma lookup_block:
  assumes ok: "bb_ok blake3 es bb" and sorted: "sorted (map fst es)"
  shows "(case binary_search_entry_in_block (build bb) (offsets_at bb) (length es) key True of
      Some (Some _) \<Rightarrow> True | _ \<Rightarrow> False) \<longleftrightarrow> key \<in> fst ` set es"
proof (cases "position (\<lambda>k. k = key) (map fst es)")
  case None
  then have "key \<notin> fst ` set es" by auto
  with None show ?thesis
    by (simp add: binary_search_entry_in_block_def block_search_first [OF ok sorted] del: position_None)
next
  case (Some i)
  then have i: "i < length es" "fst (es ! i) = key" using position_Some [OF Some] by auto
  from read_entry_build(1) [OF ok i(1)] obtain r where "get_entry_at_index (build bb) (offsets_at bb) i True = Some r"
    by (auto simp: get_entry_key_at_index_def bind_eq_Some_conv)
  with Some i show ?thesis
    by (force simp: binary_search_entry_in_block_def block_search_first [OF ok sorted])
qed

lemma lookup_metrics_run:
  assumes rd: "readable blake3 crc32 blks rd" and ents: "concat (map fst blks) = es" and sorted: "sorted (map fst es)"
    and bloom: "rd_bloom rd = Some (foldl (bloom_insert blake3) (bloom_new m hashes) (map fst es))"
    and range: "sm_first_key (rd_meta rd) = (if es = [] then [] else fst (hd es))"
      "sm_last_key (rd_meta rd) = (if es = [] then [] else fst (last es))"
  shows "lookup_metrics blake3 crc32 rd key = (True, True, True, True) \<longleftrightarrow> key \<in> fst ` set es"
proof -
  let ?idx = "case binary_search_by_key fst key (rd_index rd) of Inl i \<Rightarrow> i | Inr i \<Rightarrow> i"
  let ?es = "fst (blks ! ?idx)" and ?bb = "snd (blks ! ?idx)"
  note len = readable_length [OF rd]
  have sorted': "sorted (map fst (concat (map fst blks)))" using sorted ents by simp
  note index = index_keys_sorted [OF rd sorted']
  have block: "bb_ok blake3 ?es ?bb" "sorted (map fst ?es)" "set ?es \<subseteq> set es"
    "load_block crc32 rd ?idx = Inr (build ?bb, length ?es, offsets_at ?bb, block_bits ?bb)"
    if i: "?idx < length blks"
  proof -
    have "concat (map fst blks) = concat (map fst (take ?idx blks)) @ ?es @ entries_from blks (Suc ?idx)"
      unfolding entries_from_step [OF i, symmetric] unfolding entries_from_def
      by (metis append_take_drop_id concat_append map_append)
    with sorted' ents show "sorted (map fst ?es)" "set ?es \<subseteq> set es" by (auto simp: sorted_append)
    show "bb_ok blake3 ?es ?bb" by (rule readable_block(1) [OF rd i])
    show "load_block crc32 rd ?idx = Inr (build ?bb, length ?es, offsets_at ?bb, block_bits ?bb)"
      using rd i by (simp add: readable_def)
  qed
  have v: "3 \<le> rd_version rd" using rd by (simp add: readable_def)
  show ?thesis
  proof (cases "key \<in> fst ` set es")
    case False
    have "lookup_metrics blake3 crc32 rd key \<noteq> (True, True, True, True)"
    proof (cases "?idx < length blks")
      case True
      have "key \<notin> fst ` set ?es" using False block(3) [OF True] by blast
      then show ?thesis
        using lookup_block [OF block(1,2) [OF True], of key] True v
        by (auto simp: lookup_metrics_def Let_def block(4) [OF True] len split: option.splits)
    qed (simp add: lookup_metrics_def Let_def len)
    with False show ?thesis by simp
  next
    case True
    then have ne: "es \<noteq> []" by auto
    have bounds: "\<not> (key < sm_first_key (rd_meta rd) \<or> key > sm_last_key (rd_meta rd))"
    proof -
      from True obtain e where e: "e \<in> set es" "fst e = key" by blast
      have "fst (hd es) \<le> fst e" using sorted e(1) by (cases es) auto
      moreover have "fst e \<le> fst (last es)" by (rule last_key_max [OF sorted e(1)])
      ultimately show ?thesis using e(2) ne by (auto simp: range)
    qed
    have passed: "may_contain blake3 (foldl (bloom_insert blake3) (bloom_new m hashes) (map fst es)) key"
      using True by (intro may_contain_fold [OF bloom_ok_new]) simp
    have hit: "?idx < length blks \<and> key \<in> fst ` set ?es"
    proof (cases "binary_search_by_key fst key (rd_index rd)")
      case (Inl i)
      with bs.found [OF index Inl] len have i: "i < length blks" "fst (rd_index rd ! i) = key" by auto
      then have "key = fst (last (fst (blks ! i)))" using readable_block(5) [OF rd i(1)] by simp
      with i(1) readable_block(2) [OF rd i(1)] Inl show ?thesis by simp
    next
      case (Inr i)
      with bs.missing [OF index Inr] len have i: "i \<le> length blks" "\<forall>j < i. fst (rd_index rd ! j) < key"
        "\<forall>j. i \<le> j \<longrightarrow> j < length blks \<longrightarrow> key < fst (rd_index rd ! j)" by auto
      have split: "es = concat (map fst (take i blks)) @ entries_from blks i"
        unfolding entries_from_def ents [symmetric] by (metis append_take_drop_id concat_append map_append)
      have "key \<notin> fst ` set (concat (map fst (take i blks)))"
        using below_block [OF rd sorted' i(1,2)] by blast
      then have rest: "key \<in> fst ` set (entries_from blks i)"
        using True unfolding split set_append image_Un by blast
      then have j: "i < length blks" using i(1) by (cases "i = length blks") (auto simp: entries_from_def)
      have "sorted (map fst (entries_from blks i))" using sorted unfolding split by (simp add: sorted_append)
      then have "\<forall>e \<in> set (entries_from blks (Suc i)). fst (last (fst (blks ! i))) \<le> fst e"
        unfolding entries_from_step [OF j] using readable_block(2) [OF rd j] by (auto simp: sorted_append)
      moreover have "key < fst (last (fst (blks ! i)))" using i(3) [rule_format, OF le_refl j] readable_block(5) [OF rd j] by simp
      ultimately have "key \<notin> fst ` set (entries_from blks (Suc i))" by force
      with rest j Inr show ?thesis unfolding entries_from_step [OF j] by auto
    qed
    then have i: "?idx < length blks" and key: "key \<in> fst ` set ?es" by blast+
    from key obtain e where "e \<in> set ?es" "fst e = key" by blast
    with block_bloom_passes [OF block(1) [OF i] _ \<open>e \<in> set ?es\<close>] readable_block(3,4) [OF rd i]
    have "may_contain_key_in_block_bloom blake3 (block_bits ?bb) key (rd_version rd)" by simp
    with lookup_block [OF block(1,2) [OF i], of key] key i v bounds passed True show ?thesis
      by (auto simp: lookup_metrics_def Let_def block(4) [OF i] len bloom split: option.splits)
  qed
qed

section \<open>Properties\<close>

lemma written_scans:
  assumes "km_ok km" and "v = 3 \<or> v = 4" and "sst_write blake3 crc32 km m hashes v es = Inr (bs, meta)"
    and "\<forall>e \<in> set es. length (fst (snd e)) \<le> READABLE_VALUE"
  shows "\<exists>rd. sst_open crc32 km bs = Inr rd \<and>
    scan_prefix crc32 rd pfx = Inr (filter (\<lambda>e. prefix pfx (fst e)) es) \<and>
    scan_range crc32 rd s t = Inr (filter (\<lambda>e. above s (fst e) \<and> below t (fst e)) es) \<and>
    (lookup_metrics blake3 crc32 rd key = (True, True, True, True) \<longleftrightarrow> key \<in> fst ` set es)"
proof -
  obtain rd blks where opn: "sst_open crc32 km bs = Inr rd" and rd: "readable blake3 crc32 blks rd"
    and ents: "concat (map fst blks) = es" and sorted: "entries_sorted es"
    and bloom: "rd_bloom rd = Some (foldl (bloom_insert blake3) (bloom_new m hashes) (map fst es))"
    and range: "sm_first_key (rd_meta rd) = (if es = [] then [] else fst (hd es))"
      "sm_last_key (rd_meta rd) = (if es = [] then [] else fst (last es))" and "es \<noteq> [] \<longrightarrow> rd_meta rd = meta"
    by (rule written_readable [OF assms])
  have keys: "sorted (map fst es)" using sorted by (rule entries_sorted_keys)
  have "taken (prefix_step pfx) es = filter (\<lambda>e. prefix pfx (fst e)) es"
    "taken (range_step s t) es = filter (\<lambda>e. above s (fst e) \<and> below t (fst e)) es"
    by (auto simp: taken_def prefix_step_def range_step_def intro!: filter_cong)
  with scan_prefix_run [OF rd] scan_range_run [OF rd] lookup_metrics_run [OF rd ents keys bloom range] opn keys
  show ?thesis by (auto simp: ents)
qed

text \<open>C20: scans and lookup stages of a file. Of a file that was written from accepted entries a prefix
  scan returns all entries with the prefix, a range scan all entries between the two bounds, tombstones and
  all versions included, both in the order of the file; and the lookup stages report a hit exactly
  for the keys in the file.\<close>

theorem sst_scans:
  assumes "km_ok km" and "v = 3 \<or> v = 4" and "sst_write blake3 crc32 km m hashes v es = Inr (bs, meta)"
    and "\<forall>e \<in> set es. length (fst (snd e)) \<le> READABLE_VALUE"
  shows "\<exists>rd. sst_open crc32 km bs = Inr rd \<and>
    scan_prefix crc32 rd pfx = Inr (filter (\<lambda>e. prefix pfx (fst e)) es) \<and>
    scan_range crc32 rd s t = Inr (filter (\<lambda>e. above s (fst e) \<and> below t (fst e)) es) \<and>
    (lookup_metrics blake3 crc32 rd key = (True, True, True, True) \<longleftrightarrow> key \<in> fst ` set es)"
  by (rule written_scans [OF assms])

lemma sst_scans_witness:
  "\<exists>bs meta rd. sst_write (\<lambda>k. k @ replicate 32 0) (\<lambda>b. of_nat (length b)) None 64 3 4 example_entries = Inr (bs, meta) \<and>
     sst_open (\<lambda>b. of_nat (length b)) None bs = Inr rd \<and>
     scan_prefix (\<lambda>b. of_nat (length b)) rd [98] = Inr [([98], [2], 1, 0)]"
proof -
  obtain bs meta where w: "sst_write (\<lambda>k. k @ replicate 32 0) (\<lambda>b. of_nat (length b)) None 64 3 4 example_entries = Inr (bs, meta)"
    by (rule example_written)
  have "filter (\<lambda>e. prefix [98] (fst e)) example_entries = [([98], [2], 1, 0)]" by (simp add: example_entries_def)
  with sst_scans [OF km_ok_None disjI2 [OF refl] w example_small, where pfx = "[98]" and s = Unbounded and t = Unbounded and key = "[]"] show ?thesis
    unfolding w by auto
qed

end
