(* ===== verification/Compact.thy ===== *)
theory Compact
  imports SstFile Retention
begin

text \<open>
  The multi-way merge of the compaction, \<open>merge_sstables_inner\<close> of \<open>compaction/engine.rs\<close>.

  The streams deliver entries in file order; a heap holds the next entry of each stream, smallest
  key first, then the largest sequence number, then the youngest source. What is popped goes through
  the optional merge operator and the retention rule into the builder of the output file, and the stream it came from
  refills the heap. The stream and the builder are parameters (\<open>next_entry\<close>, \<open>add\<close>), so that the
  same definitions run on files and on plain lists.

  What the loop sees of its surroundings is an environment over the number of entries popped so
  far: whether the compaction was cancelled, how waiting for memory ended, and how long the merge
  operator took. Sleeping, the pressure signal and the limit of the output rate only delay the loop and
  are left out.
\<close>

section \<open>The heap\<close>

type_synonym heap_item = "entry \<times> nat"

definition entry_raw :: "entry \<Rightarrow> u64" where
  "entry_raw e = mask_seq (fst (snd (snd e)))"

definition entry_tombstone :: "entry \<Rightarrow> bool" where
  "entry_tombstone e \<longleftrightarrow> fst (snd (snd e)) AND TOMBSTONE_BIT \<noteq> 0"

text \<open>\<open>Ord\<close> of the heap: \<open>a\<close> is greater than \<open>b\<close> and leaves the heap before it.\<close>

definition item_before :: "heap_item \<Rightarrow> heap_item \<Rightarrow> bool" where
  "item_before a b \<longleftrightarrow>
     fst (fst a) < fst (fst b) \<or>
     fst (fst a) = fst (fst b) \<and>
       (entry_raw (fst a) > entry_raw (fst b) \<or> entry_raw (fst a) = entry_raw (fst b) \<and> snd a > snd b)"

fun greatest_item :: "heap_item \<Rightarrow> heap_item list \<Rightarrow> heap_item" where
  "greatest_item x [] = x"
| "greatest_item x (y # ys) = (if item_before y x then greatest_item y ys else greatest_item x ys)"

text \<open>\<open>BinaryHeap::peek\<close> and \<open>BinaryHeap::pop\<close> over the list of the items.\<close>

fun heap_peek :: "heap_item list \<Rightarrow> heap_item option" where
  "heap_peek [] = None"
| "heap_peek (x # xs) = Some (greatest_item x xs)"

definition heap_pop :: "heap_item list \<Rightarrow> (heap_item \<times> heap_item list) option" where
  "heap_pop h = map_option (\<lambda>x. (x, remove1 x h)) (heap_peek h)"

section \<open>The loop\<close>

datatype merge_error =
    Sst_failure sst_error
  | Cancelled
  | Memory_budget_exceeded
  | Remainder_by_zero

datatype memory_wait = Has_capacity | Wait_timed_out | Wait_cancelled

record merge_env =
  en_cancelled :: "nat \<Rightarrow> bool"
  en_memory :: "nat \<Rightarrow> memory_wait"
  en_elapsed :: "nat \<Rightarrow> nat"

record merge_config =
  mc_floor :: u64
  mc_full :: bool
  mc_encrypted :: bool
  mc_threshold :: nat
  mc_timeout :: nat
  mc_merge_op :: "(bytes \<Rightarrow> bytes \<Rightarrow> bytes option) option"

record ('s, 'b) merge_state =
  ms_streams :: "'s list"
  ms_heap :: "heap_item list"
  ms_builder :: 'b
  ms_last_key :: "bytes option"
  ms_floor :: bool
  ms_count :: nat

definition lift_res :: "sst_error + 'a \<Rightarrow> merge_error + 'a" where
  "lift_res r = (case r of Inl e \<Rightarrow> Inl (Sst_failure e) | Inr x \<Rightarrow> Inr x)"

text \<open>The next entry of a stream goes to the heap.\<close>

definition fetch ::
  "('s \<Rightarrow> sst_error + 's \<times> entry option) \<Rightarrow> nat \<Rightarrow> ('s, 'b) merge_state \<Rightarrow> merge_error + ('s, 'b) merge_state" where
  "fetch next_entry src st =
     bind_res (lift_res (next_entry (ms_streams st ! src))) (\<lambda>(s, r).
       Inr (st\<lparr>ms_streams := (ms_streams st)[src := s],
               ms_heap := (case r of None \<Rightarrow> ms_heap st | Some e \<Rightarrow> (e, src) # ms_heap st)\<rparr>))"

text \<open>The merge of an entry with the next one of its key: whether it took place, and whether it failed.\<close>

definition try_merge ::
  "merge_config \<Rightarrow> merge_env \<Rightarrow> ('s \<Rightarrow> sst_error + 's \<times> entry option) \<Rightarrow> ('b \<Rightarrow> entry \<Rightarrow> sst_error + 'b) \<Rightarrow>
   entry \<Rightarrow> ('s, 'b) merge_state \<Rightarrow> merge_error + ('s, 'b) merge_state \<times> bool \<times> bool" where
  "try_merge cfg env next_entry add item st =
     (case mc_merge_op cfg of
        None \<Rightarrow> Inr (st, False, False)
      | Some merge \<Rightarrow>
          if \<not> mc_encrypted cfg \<and> \<not> entry_tombstone item \<and> entry_raw item < mc_floor cfg
          then (case heap_pop (ms_heap st) of
                  None \<Rightarrow> Inr (st, False, False)
                | Some ((next_item, src), heap) \<Rightarrow>
                    if fst next_item = fst item \<and> \<not> entry_tombstone next_item \<and> entry_raw next_item < mc_floor cfg \<and>
                       \<not> list_ex (\<lambda>h. fst (fst h) = fst item \<and> entry_tombstone (fst h)) (ms_heap st)
                    then (case (if mc_timeout cfg > 0 \<and> en_elapsed env (ms_count st) > mc_timeout cfg then None
                                else merge (fst (snd next_item)) (fst (snd item))) of
                            None \<Rightarrow> Inr (st, False, True)
                          | Some merged_val \<Rightarrow>
                              bind_res (fetch next_entry src (st\<lparr>ms_heap := heap\<rparr>)) (\<lambda>st1.
                              bind_res (lift_res (add (ms_builder st1) (fst item, merged_val, snd (snd item)))) (\<lambda>b.
                                Inr (st1\<lparr>ms_builder := b, ms_last_key := Some (fst item), ms_floor := True\<rparr>, True, False))))
                    else Inr (st, False, False))
          else Inr (st, False, False))"

definition gc_tombstone :: "merge_config \<Rightarrow> entry \<Rightarrow> bool" where
  "gc_tombstone cfg e \<longleftrightarrow> entry_tombstone e \<and> mc_full cfg \<and> entry_raw e < mc_floor cfg"

text \<open>The retention rule.\<close>

definition retain_item ::
  "merge_config \<Rightarrow> ('b \<Rightarrow> entry \<Rightarrow> sst_error + 'b) \<Rightarrow> entry \<Rightarrow> bool \<Rightarrow> ('s, 'b) merge_state \<Rightarrow>
   merge_error + ('s, 'b) merge_state" where
  "retain_item cfg add item failed_merge_keep st =
     (let (keep, floor_emitted) =
            (if entry_raw item > mc_floor cfg then (True, ms_floor st)
             else if \<not> ms_floor st then (True, if \<not> failed_merge_keep then True else ms_floor st)
             else (False, ms_floor st));
          st1 = st\<lparr>ms_floor := floor_emitted\<rparr>
      in if \<not> keep then Inr st1
         else (let st2 = st1\<lparr>ms_last_key := Some (fst item)\<rparr>
               in if gc_tombstone cfg item then Inr st2
                  else bind_res (lift_res (add (ms_builder st2) item)) (\<lambda>b. Inr (st2\<lparr>ms_builder := b\<rparr>))))"

text \<open>One round of \<open>while let Some(item) = heap.pop()\<close>; \<open>None\<close> when the heap is empty.\<close>

definition merge_step ::
  "merge_config \<Rightarrow> merge_env \<Rightarrow> ('s \<Rightarrow> sst_error + 's \<times> entry option) \<Rightarrow> ('b \<Rightarrow> entry \<Rightarrow> sst_error + 'b) \<Rightarrow>
   ('s, 'b) merge_state \<Rightarrow> merge_error + ('s, 'b) merge_state option" where
  "merge_step cfg env next_entry add st =
     (case heap_pop (ms_heap st) of
        None \<Rightarrow> Inr None
      | Some ((item, src), heap) \<Rightarrow>
          if en_cancelled env (ms_count st) then Inl Cancelled
          else (let n = ms_count st + 1
                in if mc_threshold cfg = 0 then Inl Remainder_by_zero
                   else if n mod mc_threshold cfg = 0 \<and> en_memory env n = Wait_timed_out then Inl Memory_budget_exceeded
                   else if n mod mc_threshold cfg = 0 \<and> en_memory env n = Wait_cancelled then Inl Cancelled
                   else (let st1 = st\<lparr>ms_heap := heap, ms_count := n,
                                      ms_floor := (if ms_last_key st \<noteq> Some (fst item) then False else ms_floor st)\<rparr>
                         in bind_res (try_merge cfg env next_entry add item st1) (\<lambda>(st2, merged, failed).
                            bind_res (if merged then Inr st2 else retain_item cfg add item failed st2) (\<lambda>st3.
                            bind_res (fetch next_entry src st3) (\<lambda>st4. Inr (Some st4)))))))"

partial_function (option) merge_loop ::
  "merge_config \<Rightarrow> merge_env \<Rightarrow> ('s \<Rightarrow> sst_error + 's \<times> entry option) \<Rightarrow> ('b \<Rightarrow> entry \<Rightarrow> sst_error + 'b) \<Rightarrow>
   ('s, 'b) merge_state \<Rightarrow> (merge_error + 'b) option" where
  "merge_loop cfg env next_entry add st =
     (case merge_step cfg env next_entry add st of
        Inl e \<Rightarrow> Some (Inl e)
      | Inr None \<Rightarrow> Some (Inr (ms_builder st))
      | Inr (Some st') \<Rightarrow> merge_loop cfg env next_entry add st')"

declare merge_loop.simps [code]

fun fetch_all ::
  "('s \<Rightarrow> sst_error + 's \<times> entry option) \<Rightarrow> nat list \<Rightarrow> ('s, 'b) merge_state \<Rightarrow> merge_error + ('s, 'b) merge_state" where
  "fetch_all next_entry [] st = Inr st"
| "fetch_all next_entry (i # is') st = bind_res (fetch next_entry i st) (fetch_all next_entry is')"

definition merge_streams ::
  "merge_config \<Rightarrow> merge_env \<Rightarrow> ('s \<Rightarrow> sst_error + 's \<times> entry option) \<Rightarrow> ('b \<Rightarrow> entry \<Rightarrow> sst_error + 'b) \<Rightarrow>
   's list \<Rightarrow> 'b \<Rightarrow> (merge_error + 'b) option" where
  "merge_streams cfg env next_entry add streams builder =
     (case fetch_all next_entry [0..<length streams]
             \<lparr>ms_streams = streams, ms_heap = [], ms_builder = builder, ms_last_key = None, ms_floor = False,
              ms_count = 0\<rparr> of
        Inl e \<Rightarrow> Some (Inl e)
      | Inr st \<Rightarrow> merge_loop cfg env next_entry add st)"

section \<open>On files\<close>

definition file_next :: "(bytes \<Rightarrow> u32) \<Rightarrow> sst_reader \<times> sst_stream \<Rightarrow> sst_error + (sst_reader \<times> sst_stream) \<times> entry option" where
  "file_next crc32 s = bind_res (stream_next crc32 (fst s) (snd s)) (\<lambda>(st, r). Inr ((fst s, st), r))"

text \<open>The bytes of the output and its metadata; on an error the partial output is removed.\<close>

definition merge_sstables ::
  "(bytes \<Rightarrow> bytes) \<Rightarrow> (bytes \<Rightarrow> u32) \<Rightarrow> nat \<Rightarrow> nat \<Rightarrow> key_manager option \<Rightarrow> merge_config \<Rightarrow> merge_env \<Rightarrow>
   sst_reader list \<Rightarrow> (merge_error + bytes \<times> sst_meta) option" where
  "merge_sstables blake3 crc32 m hashes km cfg env inputs =
     map_option (\<lambda>r. bind_res r (\<lambda>b. lift_res (sst_finish crc32 b)))
       (merge_streams (cfg\<lparr>mc_encrypted := (km \<noteq> None)\<rparr>) env (file_next crc32) (sst_add blake3 crc32)
          (map (\<lambda>rd. (rd, sst_stream_new)) inputs) (sst_create m hashes km))"

end
