(* ===== verification/CompactCorrect.thy ===== *)
theory CompactCorrect
  imports Compact SstScan "HOL-Library.Multiset"
begin

text \<open>
  The merge of the compaction as a function of the contents of its inputs: the popped entries are
  the inputs in one order, and what reaches the output is, key by key, what the retention keeps.
  The contract of a stream is the locale \<open>entry_source\<close>; it is interpreted on the streams of files
  and on lists.
\<close>

section \<open>The order of the heap\<close>

lemma item_before_irrefl: "\<not> item_before a a"
  by (simp add: item_before_def)

lemma item_before_trans: "item_before a b \<Longrightarrow> item_before b c \<Longrightarrow> item_before a c"
  by (auto simp: item_before_def)

lemma item_before_asym: "item_before a b \<Longrightarrow> \<not> item_before b a"
  by (auto simp: item_before_def)

lemma item_before_total: "snd a \<noteq> snd b \<Longrightarrow> item_before a b \<or> item_before b a"
  by (auto simp: item_before_def)

lemma not_before_trans: "\<not> item_before a b \<Longrightarrow> item_before a c \<Longrightarrow> item_before b c"
  unfolding item_before_def by (auto simp: not_less)

lemma greatest_item_in: "greatest_item x xs \<in> set (x # xs)"
proof (induction xs arbitrary: x)
  case Nil
  then show ?case by simp
next
  case (Cons z xs)
  show ?case using Cons.IH [of x] Cons.IH [of z] by (cases "item_before z x") (simp_all, blast)
qed

lemma greatest_item_max:
  "\<not> item_before x (greatest_item x xs) \<and> (\<forall>y \<in> set xs. \<not> item_before y (greatest_item x xs))"
proof (induction xs arbitrary: x)
  case Nil
  then show ?case by (simp add: item_before_irrefl)
next
  case (Cons z xs)
  show ?case
  proof (cases "item_before z x")
    case True
    have "\<not> item_before x (greatest_item z xs)"
      using Cons.IH [of z] True item_before_trans by blast
    with Cons.IH [of z] True show ?thesis unfolding greatest_item.simps by simp
  next
    case False
    have "\<not> item_before z (greatest_item x xs)"
      using Cons.IH [of x] False not_before_trans by blast
    with Cons.IH [of x] False show ?thesis unfolding greatest_item.simps by simp
  qed
qed

lemma heap_pop_Some:
  assumes "heap_pop h = Some (x, h')"
  shows "x \<in> set h" and "mset h = add_mset x (mset h')" and "\<forall>y \<in> set h. \<not> item_before y x"
proof -
  obtain z zs where h: "h = z # zs" "x = greatest_item z zs" "h' = remove1 x h"
    using assms by (cases h) (auto simp: heap_pop_def)
  show x: "x \<in> set h" using greatest_item_in h by simp
  show "mset h = add_mset x (mset h')" using x h(3) by simp
  show "\<forall>y \<in> set h. \<not> item_before y x" using greatest_item_max [of z zs] unfolding h(1,2) by simp
qed

lemma heap_pop_None: "heap_pop h = None \<longleftrightarrow> h = []"
  by (cases h) (simp_all add: heap_pop_def)

lemma entry_raw_less: "entry_before a b \<Longrightarrow> item_before (a, i) (b, i)"
  by (auto simp: entry_before_def item_before_def entry_raw_def)

section \<open>What reaches the output\<close>

definition floor_seen :: "bytes option \<Rightarrow> bool \<Rightarrow> entry \<Rightarrow> bool" where
  "floor_seen lk fe e \<longleftrightarrow> lk = Some (fst e) \<and> fe"

definition keeps :: "merge_config \<Rightarrow> bool \<Rightarrow> entry \<Rightarrow> bool" where
  "keeps cfg fe e \<longleftrightarrow> entry_raw e > mc_floor cfg \<or> \<not> fe"

definition next_key :: "merge_config \<Rightarrow> bytes option \<Rightarrow> bool \<Rightarrow> entry \<Rightarrow> bytes option" where
  "next_key cfg lk fe e = (if keeps cfg fe e then Some (fst e) else lk)"

definition next_floor :: "merge_config \<Rightarrow> bool \<Rightarrow> entry \<Rightarrow> bool" where
  "next_floor cfg fe e \<longleftrightarrow> fe \<or> \<not> entry_raw e > mc_floor cfg"

definition written :: "merge_config \<Rightarrow> bool \<Rightarrow> entry \<Rightarrow> entry list" where
  "written cfg fe e = (if keeps cfg fe e \<and> \<not> gc_tombstone cfg e then [e] else [])"

fun emit :: "merge_config \<Rightarrow> bytes option \<Rightarrow> bool \<Rightarrow> entry list \<Rightarrow> entry list" where
  "emit cfg lk fe [] = []"
| "emit cfg lk fe (e # es) =
     (let fe1 = floor_seen lk fe e
      in written cfg fe1 e @ emit cfg (next_key cfg lk fe1 e) (next_floor cfg fe1 e) es)"

lemmas emit_defs = floor_seen_def keeps_def next_key_def next_floor_def written_def

fun add_list :: "('b \<Rightarrow> entry \<Rightarrow> sst_error + 'b) \<Rightarrow> 'b \<Rightarrow> entry list \<Rightarrow> sst_error + 'b" where
  "add_list add b [] = Inr b"
| "add_list add b (e # es) = bind_res (add b e) (\<lambda>b'. add_list add b' es)"

lemma add_list_append: "add_list add b (es @ es') = bind_res (add_list add b es) (\<lambda>b'. add_list add b' es')"
  by (induction es arbitrary: b) (simp_all add: bind_res_def split: sum.split)

lemma sst_add_all_list: "sst_add_all blake3 crc32 sb es = add_list (sst_add blake3 crc32) sb es"
  by (induction es arbitrary: sb) simp_all

lemma lift_res_simps [simp]: "lift_res (Inl e) = Inl (Sst_failure e)" "lift_res (Inr x) = Inr x"
  by (simp_all add: lift_res_def)

lemma lift_res_bind: "lift_res (bind_res r f) = bind_res (lift_res r) (\<lambda>x. lift_res (f x))"
  by (cases r) simp_all

text \<open>Key by key, the output is what the retention keeps, less the collected tombstones.\<close>

lemma emit_versions:
  assumes "sorted (map fst es)" and "\<forall>k'. lk = Some k' \<longrightarrow> (\<forall>e \<in> set es. k' \<le> fst e)"
  shows "filter (\<lambda>e. fst e = k) (emit cfg lk fe es) =
    filter (\<lambda>e. \<not> gc_tombstone cfg e)
      (retain_loop (\<lambda>e. fst (snd (snd e))) (mc_floor cfg) (lk = Some k \<and> fe) (filter (\<lambda>e. fst e = k) es))"
  using assms
proof (induction es arbitrary: lk fe)
  case Nil
  then show ?case by simp
next
  case (Cons e es)
  have s: "sorted (map fst es)" "\<forall>e' \<in> set es. fst e \<le> fst e'" using Cons.prems(1) by auto
  let ?fe = "floor_seen lk fe e"
  have "\<forall>k'. next_key cfg lk ?fe e = Some k' \<longrightarrow> (\<forall>e \<in> set es. k' \<le> fst e)"
    using s(2) Cons.prems(2) by (auto simp: next_key_def)
  note IH = Cons.IH [OF s(1) this]
  have passed: "filter (\<lambda>e. fst e = k) es = []" if "lk = Some k" "fst e \<noteq> k"
  proof -
    have "k < fst e" using Cons.prems(2) that by (auto simp: le_less)
    with s(2) show ?thesis by (auto simp: filter_empty_conv)
  qed
  show ?case
  proof (cases "fst e = k")
    case True
    then show ?thesis using IH by (auto simp: emit_defs entry_raw_def)
  next
    case False
    then show ?thesis using IH passed by (cases "lk = Some k") (auto simp: emit_defs)
  qed
qed

lemma emit_subset: "set (emit cfg lk fe es) \<subseteq> set es"
  by (induction es arbitrary: lk fe) (auto simp: Let_def written_def split: if_splits)

lemma emit_sorted: "sorted (map fst es) \<Longrightarrow> sorted (map fst (emit cfg lk fe es))"
proof (induction es arbitrary: lk fe)
  case Nil
  then show ?case by simp
next
  case (Cons e es)
  have "\<forall>e' \<in> set (emit cfg lk' fe' es). fst e \<le> fst e'" for lk' fe'
    using emit_subset [of cfg lk' fe' es] Cons.prems by auto
  with Cons show ?case by (auto simp: Let_def written_def)
qed

section \<open>The loop\<close>

text \<open>What a source has yet to deliver, head of the heap included.\<close>

definition head_of :: "entry list list \<Rightarrow> nat \<Rightarrow> heap_item multiset" where
  "head_of pend i = (case pend ! i of [] \<Rightarrow> {#} | e # _ \<Rightarrow> {#(e, i)#})"

definition heads :: "entry list list \<Rightarrow> heap_item multiset" where
  "heads pend = (\<Sum>i < length pend. head_of pend i)"

definition tagged :: "entry list list \<Rightarrow> heap_item multiset" where
  "tagged pend = (\<Sum>i < length pend. mset (map (\<lambda>e. (e, i)) (pend ! i)))"

lemma in_head: "x \<in># head_of pend i \<longleftrightarrow> snd x = i \<and> pend ! i \<noteq> [] \<and> fst x = hd (pend ! i)"
  by (cases "pend ! i"; cases x) (auto simp: head_of_def)

lemma in_heads: "x \<in># heads pend \<longleftrightarrow> snd x < length pend \<and> pend ! snd x \<noteq> [] \<and> fst x = hd (pend ! snd x)"
proof -
  have "x \<in># heads pend \<longleftrightarrow> (\<exists>i < length pend. x \<in># head_of pend i)"
    by (auto simp: heads_def set_mset_sum)
  also have "\<dots> \<longleftrightarrow> snd x < length pend \<and> pend ! snd x \<noteq> [] \<and> fst x = hd (pend ! snd x)"
    by (auto simp: in_head)
  finally show ?thesis .
qed

lemma in_tagged: "x \<in># tagged pend \<longleftrightarrow> snd x < length pend \<and> fst x \<in> set (pend ! snd x)"
  by (cases x) (auto simp: tagged_def set_mset_sum)

lemma sum_weights_update:
  fixes f :: "nat \<Rightarrow> 'a \<Rightarrow> 'm :: comm_monoid_add"
  assumes "i < length xs"
  shows "(\<Sum>j < length xs. f j (xs[i := y] ! j)) + f i (xs ! i) = (\<Sum>j < length xs. f j (xs ! j)) + f i y"
proof -
  have i: "i \<in> {..<length xs}" using assms by simp
  have "(\<Sum>j \<in> {..<length xs} - {i}. f j (xs[i := y] ! j)) = (\<Sum>j \<in> {..<length xs} - {i}. f j (xs ! j))"
    by (rule sum.cong) auto
  then show ?thesis
    unfolding sum.remove [OF finite_lessThan i] using assms by (simp add: ac_simps)
qed

lemma advance:
  assumes i: "i < length pend" and p: "pend ! i = e # es"
  shows "heads (pend[i := es]) + {#(e, i)#} = heads pend + (case es of [] \<Rightarrow> {#} | e' # _ \<Rightarrow> {#(e', i)#})"
    and "tagged pend = add_mset (e, i) (tagged (pend[i := es]))"
proof -
  show "heads (pend[i := es]) + {#(e, i)#} = heads pend + (case es of [] \<Rightarrow> {#} | e' # _ \<Rightarrow> {#(e', i)#})"
    using sum_weights_update [OF i, of "\<lambda>i p. case p of [] \<Rightarrow> {#} | e # _ \<Rightarrow> {#(e, i)#}" es]
    by (simp add: heads_def head_of_def p)
  have "tagged (pend[i := es]) + mset (map (\<lambda>e. (e, i)) (pend ! i)) = tagged pend + mset (map (\<lambda>e. (e, i)) es)"
    using sum_weights_update [OF i, of "\<lambda>i p. mset (map (\<lambda>e. (e, i)) p)" es] by (simp add: tagged_def)
  then show "tagged pend = add_mset (e, i) (tagged (pend[i := es]))" by (simp add: p)
qed

definition quiet :: "merge_config \<Rightarrow> merge_env \<Rightarrow> bool" where
  "quiet cfg env \<longleftrightarrow> mc_merge_op cfg = None \<and> 0 < mc_threshold cfg \<and>
     (\<forall>n. \<not> en_cancelled env n \<and> en_memory env n = Has_capacity)"

locale entry_source =
  fixes next_entry :: "'s \<Rightarrow> sst_error + 's \<times> entry option"
    and gives :: "'s \<Rightarrow> entry list \<Rightarrow> bool"
  assumes exhausted: "gives s [] \<Longrightarrow> \<exists>s'. next_entry s = Inr (s', None) \<and> gives s' []"
    and delivers: "gives s (e # es) \<Longrightarrow> \<exists>s'. next_entry s = Inr (s', Some e) \<and> gives s' es"
begin

lemma fetch_run:
  assumes "i < length (ms_streams st)" and "gives (ms_streams st ! i) es"
  shows "\<exists>s'. gives s' (tl es) \<and> fetch next_entry i st =
    Inr (st\<lparr>ms_streams := (ms_streams st)[i := s'],
            ms_heap := (case es of [] \<Rightarrow> [] | e # _ \<Rightarrow> [(e, i)]) @ ms_heap st\<rparr>)"
proof (cases es)
  case Nil
  with exhausted assms(2) obtain s' where "next_entry (ms_streams st ! i) = Inr (s', None)" "gives s' []" by blast
  with Nil show ?thesis by (intro exI [of _ s']) (simp add: fetch_def)
next
  case (Cons e es')
  with delivers assms(2) obtain s' where "next_entry (ms_streams st ! i) = Inr (s', Some e)" "gives s' es'" by blast
  with Cons show ?thesis by (intro exI [of _ s']) (simp add: fetch_def)
qed

definition merge_inv :: "entry list list \<Rightarrow> ('s, 'b) merge_state \<Rightarrow> bool" where
  "merge_inv pend st \<longleftrightarrow> length pend = length (ms_streams st) \<and> mset (ms_heap st) = heads pend \<and>
     (\<forall>i < length pend. entries_sorted (pend ! i) \<and> gives (ms_streams st ! i) (tl (pend ! i)))"

text \<open>What leaves the heap precedes everything that is left.\<close>

lemma popped_first:
  assumes inv: "merge_inv pend st" and pop: "heap_pop (ms_heap st) = Some ((e, i), h)"
  obtains es where "i < length pend" and "pend ! i = e # es"
    and "\<forall>y. y \<in># tagged (pend[i := es]) \<longrightarrow> item_before (e, i) y"
proof -
  note popped = heap_pop_Some [OF pop]
  have heap: "set (ms_heap st) = set_mset (heads pend)" using inv by (metis merge_inv_def set_mset_mset)
  then have "(e, i) \<in># heads pend" using popped(1) by blast
  then have i: "i < length pend" "pend ! i \<noteq> []" "e = hd (pend ! i)" by (simp_all add: in_heads)
  then have p: "pend ! i = e # tl (pend ! i)" by simp
  have first: "item_before (e, i) y" if y: "y \<in># tagged (pend[i := tl (pend ! i)])" for y
  proof -
    obtain e' j where yj: "y = (e', j)" by (cases y)
    with y have j: "j < length pend" and e': "e' \<in> set (pend[i := tl (pend ! i)] ! j)" by (simp_all add: in_tagged)
    have sorted: "entries_sorted (pend ! j)" using inv j by (simp add: merge_inv_def)
    show ?thesis
    proof (cases "j = i")
      case True
      with e' i(1) have "e' \<in> set (tl (pend ! i))" by simp
      moreover have "entries_sorted (e # tl (pend ! i))" using sorted True p by simp
      ultimately have "entry_before e e'" by simp
      with True yj show ?thesis by (simp add: entry_raw_less)
    next
      case False
      then have in_j: "e' \<in> set (pend ! j)" using e' by simp
      then have ne: "pend ! j \<noteq> []" by auto
      then have "(hd (pend ! j), j) \<in> set (ms_heap st)" using heap j by (simp add: in_heads)
      then have "\<not> item_before (hd (pend ! j), j) (e, i)" using popped(3) by blast
      with False have h: "item_before (e, i) (hd (pend ! j), j)"
        using item_before_total [of "(e, i)" "(hd (pend ! j), j)"] by auto
      show ?thesis
      proof (cases "e' = hd (pend ! j)")
        case True
        with h yj show ?thesis by simp
      next
        case False
        obtain f fs where pj: "pend ! j = f # fs" using ne by (cases "pend ! j") auto
        with False in_j sorted have "entry_before f e'" by auto
        from item_before_trans [OF _ entry_raw_less [OF this]] h pj yj show ?thesis by auto
      qed
    qed
  qed
  show thesis by (rule that [OF i(1) p]) (use first in blast)
qed

lemma pending_popped:
  assumes inv: "merge_inv pend st" and "tagged pend \<noteq> {#}"
  obtains e i h where "heap_pop (ms_heap st) = Some ((e, i), h)"
proof -
  obtain x where "x \<in># tagged pend" using assms(2) by blast
  then have "snd x < length pend" "pend ! snd x \<noteq> []" by (auto simp: in_tagged)
  then have "(hd (pend ! snd x), snd x) \<in># heads pend" by (simp add: in_heads)
  then have "ms_heap st \<noteq> []" using inv by (auto simp: merge_inv_def)
  then have "heap_pop (ms_heap st) \<noteq> None" by (simp add: heap_pop_None)
  with that show thesis by (metis not_None_eq surj_pair)
qed

lemma refill_inv:
  assumes inv: "merge_inv pend st" and pop: "heap_pop (ms_heap st) = Some ((e, i), h)"
    and i: "i < length pend" and p: "pend ! i = e # es"
    and st3: "ms_streams st3 = ms_streams st" "ms_heap st3 = h"
  shows "\<exists>st'. fetch next_entry i st3 = Inr st' \<and> merge_inv (pend[i := es]) st' \<and>
    ms_builder st' = ms_builder st3 \<and> ms_last_key st' = ms_last_key st3 \<and> ms_floor st' = ms_floor st3"
proof -
  have len: "length pend = length (ms_streams st)" using inv by (simp add: merge_inv_def)
  have "gives (ms_streams st ! i) (tl (pend ! i))" using inv i unfolding merge_inv_def by blast
  then have "gives (ms_streams st3 ! i) es" using st3 p by simp
  from fetch_run [OF _ this] i len st3 obtain s' where s': "gives s' (tl es)" and
    f: "fetch next_entry i st3 = Inr (st3\<lparr>ms_streams := (ms_streams st)[i := s'],
          ms_heap := (case es of [] \<Rightarrow> [] | e # _ \<Rightarrow> [(e, i)]) @ h\<rparr>)" by auto
  let ?C = "mset (case es of [] \<Rightarrow> [] | e # _ \<Rightarrow> [(e, i)])"
  have heap: "heads pend = add_mset (e, i) (mset h)"
    using heap_pop_Some(2) [OF pop] inv by (simp add: merge_inv_def)
  have C: "(case es of [] \<Rightarrow> {#} | e' # _ \<Rightarrow> {#(e', i)#}) = ?C" by (cases es) simp_all
  have "heads (pend[i := es]) + {#(e, i)#} = (?C + mset h) + {#(e, i)#}"
    unfolding advance(1) [OF i p] C heap by simp
  then have "mset ((case es of [] \<Rightarrow> [] | e # _ \<Rightarrow> [(e, i)]) @ h) = heads (pend[i := es])"
    by (simp only: add_right_cancel mset_append)
  moreover have "entries_sorted es" using inv i p unfolding merge_inv_def by force
  ultimately have "merge_inv (pend[i := es]) (st3\<lparr>ms_streams := (ms_streams st)[i := s'],
          ms_heap := (case es of [] \<Rightarrow> [] | e # _ \<Rightarrow> [(e, i)]) @ h\<rparr>)"
    using inv s' len i by (auto simp: merge_inv_def nth_list_update)
  with f show ?thesis by simp
qed

text \<open>All inputs can be put into the order of the heap.\<close>

lemma merge_order:
  fixes st :: "('s, 'b) merge_state"
  assumes "merge_inv pend st"
  obtains P where "sorted_wrt item_before P" and "mset P = tagged pend"
proof -
  have "\<exists>P. sorted_wrt item_before P \<and> mset P = tagged pend"
    using assms
  proof (induction "size (tagged pend)" arbitrary: pend st)
    case 0
    then show ?case by (intro exI [of _ "[]"]) simp
  next
    case (Suc n)
    obtain e i h where pop: "heap_pop (ms_heap st) = Some ((e, i), h)"
      using pending_popped [OF Suc.prems] Suc.hyps(2) by (metis nat.simps(3) size_empty)
    obtain es where i: "i < length pend" and p: "pend ! i = e # es"
      and first: "\<forall>y. y \<in># tagged (pend[i := es]) \<longrightarrow> item_before (e, i) y"
      by (rule popped_first [OF Suc.prems pop])
    note tag = advance(2) [OF i p]
    obtain st' :: "('s, 'b) merge_state" where st': "merge_inv (pend[i := es]) st'"
      using refill_inv [OF Suc.prems pop i p, of "st\<lparr>ms_heap := h\<rparr>"] by auto
    have "n = size (tagged (pend[i := es]))" using Suc.hyps(2) tag by simp
    from Suc.hyps(1) [OF this st'] obtain P where
      P: "sorted_wrt item_before P" "mset P = tagged (pend[i := es])" by blast
    have "\<forall>y \<in> set P. item_before (e, i) y" using first P(2) by (metis set_mset_mset)
    with P tag show ?case by (intro exI [of _ "(e, i) # P"]) simp
  qed
  with that show thesis by blast
qed

lemma retain_item_run:
  "retain_item cfg add e False st =
     bind_res (lift_res (add_list add (ms_builder st) (written cfg (ms_floor st) e))) (\<lambda>b.
       Inr (st\<lparr>ms_builder := b, ms_last_key := next_key cfg (ms_last_key st) (ms_floor st) e,
               ms_floor := next_floor cfg (ms_floor st) e\<rparr>))"
  by (cases "add (ms_builder st) e") (auto simp: retain_item_def emit_defs Let_def)

lemma merge_step_quiet:
  assumes q: "quiet cfg env" and pop: "heap_pop (ms_heap st) = Some ((e, i), h)"
  shows "merge_step cfg env next_entry add st =
    bind_res (retain_item cfg add e False (st\<lparr>ms_heap := h, ms_count := ms_count st + 1,
        ms_floor := floor_seen (ms_last_key st) (ms_floor st) e\<rparr>)) (\<lambda>st3.
      bind_res (fetch next_entry i st3) (\<lambda>st4. Inr (Some st4)))"
  using q by (simp add: quiet_def merge_step_def pop try_merge_def Let_def floor_seen_def)

text \<open>The whole loop: it ends, and what it adds to the output is \<open>emit\<close> of the inputs in that order.\<close>

lemma merge_loop_run:
  assumes "merge_inv pend st" and q: "quiet cfg env" and "sorted_wrt item_before P" and "mset P = tagged pend"
  shows "merge_loop cfg env next_entry add st =
      Some (lift_res (add_list add (ms_builder st) (emit cfg (ms_last_key st) (ms_floor st) (map fst P))))"
  using assms(1,3,4)
proof (induction P arbitrary: pend st)
  case Nil
  have "x \<notin># heads pend" for x
    using Nil.prems(3) in_heads [of x pend] in_tagged [of x pend] by auto
  then have "ms_heap st = []" using Nil.prems(1) by (metis merge_inv_def multiset_nonemptyE mset_zero_iff)
  then have "heap_pop (ms_heap st) = None" by (simp add: heap_pop_None)
  then have "merge_step cfg env next_entry add st = Inr None" by (simp add: merge_step_def)
  then show ?case by (simp add: merge_loop.simps)
next
  case (Cons x P)
  from Cons.prems(3) have "tagged pend \<noteq> {#}" by auto
  then obtain e i h where pop: "heap_pop (ms_heap st) = Some ((e, i), h)"
    by (rule pending_popped [OF Cons.prems(1)])
  obtain es where i: "i < length pend" and p: "pend ! i = e # es"
    and first: "\<forall>y. y \<in># tagged (pend[i := es]) \<longrightarrow> item_before (e, i) y"
    by (rule popped_first [OF Cons.prems(1) pop])
  note tag = advance(2) [OF i p]
  have x: "x = (e, i)"
  proof (rule ccontr)
    assume ne: "x \<noteq> (e, i)"
    have all: "add_mset x (mset P) = add_mset (e, i) (tagged (pend[i := es]))" using Cons.prems(3) tag by simp
    then have "x \<in># tagged (pend[i := es])" "(e, i) \<in># mset P" using ne by (metis insert_noteq_member)+
    then have "item_before (e, i) x" using first by blast
    moreover have "item_before x (e, i)"
      using \<open>(e, i) \<in># mset P\<close> Cons.prems(2) by (simp only: sorted_wrt.simps set_mset_mset)
    ultimately show False by (blast dest: item_before_asym)
  qed
  then have P: "sorted_wrt item_before P" "mset P = tagged (pend[i := es])" using Cons.prems(2,3) tag by simp_all
  let ?fe = "floor_seen (ms_last_key st) (ms_floor st) e"
  let ?st1 = "st\<lparr>ms_heap := h, ms_count := ms_count st + 1, ms_floor := ?fe\<rparr>"
  show ?case
  proof (cases "add_list add (ms_builder st) (written cfg ?fe e)")
    case (Inl err)
    then have "merge_step cfg env next_entry add st = Inl (Sst_failure err)"
      unfolding merge_step_quiet [OF q pop] retain_item_run by simp
    with Inl show ?thesis by (simp add: merge_loop.simps x Let_def add_list_append)
  next
    case (Inr b)
    let ?st3 = "?st1\<lparr>ms_builder := b, ms_last_key := next_key cfg (ms_last_key st) ?fe e, ms_floor := next_floor cfg ?fe e\<rparr>"
    have kept: "retain_item cfg add e False ?st1 = Inr ?st3"
      unfolding retain_item_run using Inr by simp
    from refill_inv [OF Cons.prems(1) pop i p, of ?st3] obtain st' where
      f: "fetch next_entry i ?st3 = Inr st'" and inv': "merge_inv (pend[i := es]) st'"
      and st': "ms_builder st' = b" "ms_last_key st' = next_key cfg (ms_last_key st) ?fe e" "ms_floor st' = next_floor cfg ?fe e"
      by auto
    have "merge_step cfg env next_entry add st = Inr (Some st')"
      unfolding merge_step_quiet [OF q pop] kept bind_res_simps f ..
    then have "merge_loop cfg env next_entry add st = merge_loop cfg env next_entry add st'"
      by (subst merge_loop.simps) simp
    also have "\<dots> = Some (lift_res (add_list add b (emit cfg (ms_last_key st') (ms_floor st') (map fst P))))"
      using Cons.IH [OF inv' P] st'(1) by simp
    also have "\<dots> = Some (lift_res (add_list add (ms_builder st) (emit cfg (ms_last_key st) (ms_floor st) (map fst (x # P)))))"
      unfolding st' x using Inr by (simp add: Let_def add_list_append)
    finally show ?thesis .
  qed
qed

end

end
