(* ===== verification/CompactProps.thy ===== *)
theory CompactProps
  imports CompactCorrect
begin

text \<open>
  What the compaction promises: merging files ends, leaves of every key what the retention keeps, and
  changes no read at a snapshot that is not below the floor. And what goes wrong with a merge
  operator, which sees only the heads of the streams.
\<close>

section \<open>From the heap to the output\<close>

definition entry_le :: "entry \<Rightarrow> entry \<Rightarrow> bool" where
  "entry_le a b \<longleftrightarrow> fst a < fst b \<or> fst a = fst b \<and> entry_raw a \<ge> entry_raw b"

lemma item_before_le: "item_before a b \<Longrightarrow> entry_le (fst a) (fst b)"
  by (auto simp: item_before_def entry_le_def)

lemma tagged_contents: "image_mset fst (tagged pend) = mset (concat pend)"
proof -
  have "image_mset fst (\<Sum>i < n. mset (map (\<lambda>e. (e, i)) (f i))) = (\<Sum>i < n. mset (f i))"
    for n and f :: "nat \<Rightarrow> entry list" by (induction n) (simp_all add: multiset.map_comp comp_def)
  moreover have "(\<Sum>i < length pend. mset (pend ! i)) = mset (concat pend)"
    by (simp add: mset_concat sum_list_sum_nth lessThan_atLeast0)
  ultimately show ?thesis unfolding tagged_def by simp
qed

lemma ordered_contents:
  assumes "sorted_wrt item_before P" and "mset P = tagged pend"
  shows "sorted_wrt entry_le (map fst P)" and "mset (map fst P) = mset (concat pend)"
proof -
  show "sorted_wrt entry_le (map fst P)"
    unfolding sorted_wrt_map by (rule sorted_wrt_mono_rel [OF _ assms(1)]) (rule item_before_le)
  show "mset (map fst P) = mset (concat pend)" using assms(2) tagged_contents by simp
qed

lemma entry_le_sorted: "sorted_wrt entry_le es \<Longrightarrow> sorted (map fst es)"
  unfolding sorted_map by (rule sorted_wrt_mono_rel) (auto simp: entry_le_def)

context entry_source
begin

lemma fetch_all_run:
  fixes st :: "('s, 'b) merge_state"
  shows "distinct is \<Longrightarrow> \<forall>i \<in> set is. i < length (ms_streams st) \<and> gives (ms_streams st ! i) (cs ! i) \<Longrightarrow>
    \<exists>st'. fetch_all next_entry is st = Inr st' \<and> length (ms_streams st') = length (ms_streams st) \<and>
      (\<forall>j. j \<in> set is \<longrightarrow> gives (ms_streams st' ! j) (tl (cs ! j))) \<and>
      (\<forall>j. j \<notin> set is \<longrightarrow> ms_streams st' ! j = ms_streams st ! j) \<and>
      mset (ms_heap st') = mset (ms_heap st) + (\<Sum>i \<in> set is. head_of cs i) \<and>
      ms_builder st' = ms_builder st \<and> ms_last_key st' = ms_last_key st \<and> ms_floor st' = ms_floor st"
proof (induction "is" arbitrary: st)
  case Nil
  then show ?case by simp
next
  case (Cons i "is")
  then have i: "i < length (ms_streams st)" "gives (ms_streams st ! i) (cs ! i)" "i \<notin> set is" by simp_all
  from fetch_run [OF i(1,2)] obtain s' where s': "gives s' (tl (cs ! i))" and
    f: "fetch next_entry i st = Inr (st\<lparr>ms_streams := (ms_streams st)[i := s'],
        ms_heap := (case cs ! i of [] \<Rightarrow> [] | e # _ \<Rightarrow> [(e, i)]) @ ms_heap st\<rparr>)" (is "_ = Inr ?st1") by blast
  have h: "mset (case cs ! i of [] \<Rightarrow> [] | e # _ \<Rightarrow> [(e, i)]) = head_of cs i"
    by (cases "cs ! i") (simp_all add: head_of_def)
  have "\<forall>j \<in> set is. j < length (ms_streams ?st1) \<and> gives (ms_streams ?st1 ! j) (cs ! j)"
    using Cons.prems i(3) by (auto simp: nth_list_update)
  from Cons.IH [OF _ this] Cons.prems(1) obtain st' where
    st': "fetch_all next_entry is ?st1 = Inr st'" "length (ms_streams st') = length (ms_streams ?st1)"
      "\<forall>j. j \<in> set is \<longrightarrow> gives (ms_streams st' ! j) (tl (cs ! j))"
      "\<forall>j. j \<notin> set is \<longrightarrow> ms_streams st' ! j = ms_streams ?st1 ! j"
      "mset (ms_heap st') = mset (ms_heap ?st1) + (\<Sum>i \<in> set is. head_of cs i)"
      "ms_builder st' = ms_builder st" "ms_last_key st' = ms_last_key st" "ms_floor st' = ms_floor st" by auto
  have "gives (ms_streams st' ! i) (tl (cs ! i))" using st'(4) i(1,3) s' by simp
  with st' i(3) h f show ?case by (intro exI [of _ st']) auto
qed

lemma merge_streams_run:
  assumes len: "length contents = length streams"
    and src: "\<forall>i < length streams. gives (streams ! i) (contents ! i) \<and> entries_sorted (contents ! i)" and q: "quiet cfg env"
  shows "\<exists>all. mset all = mset (concat contents) \<and> sorted_wrt entry_le all \<and>
    merge_streams cfg env next_entry add streams builder =
      Some (lift_res (add_list add builder (emit cfg None False all)))"
proof -
  let ?st = "\<lparr>ms_streams = streams, ms_heap = [], ms_builder = builder, ms_last_key = None, ms_floor = False,
              ms_count = 0\<rparr>"
  have "\<forall>i \<in> set [0..<length streams]. i < length (ms_streams ?st) \<and> gives (ms_streams ?st ! i) (contents ! i)"
    using src by simp
  from fetch_all_run [OF distinct_upt this] obtain st where
    st: "fetch_all next_entry [0..<length streams] ?st = Inr st" "length (ms_streams st) = length streams"
      "\<forall>j < length streams. gives (ms_streams st ! j) (tl (contents ! j))"
      "mset (ms_heap st) = (\<Sum>i < length streams. head_of contents i)"
      "ms_builder st = builder" "ms_last_key st = None" "\<not> ms_floor st"
    by (auto simp: lessThan_atLeast0)
  have inv: "merge_inv contents st" using st src len by (simp add: merge_inv_def heads_def)
  obtain P where P: "sorted_wrt item_before P" "mset P = tagged contents" by (rule merge_order [OF inv])
  have "merge_streams cfg env next_entry add streams builder =
      Some (lift_res (add_list add builder (emit cfg None False (map fst P))))"
    using merge_loop_run [OF inv q P, of add] st by (simp add: merge_streams_def)
  with ordered_contents [OF P] show ?thesis by blast
qed

end

section \<open>Files as sources\<close>

definition file_gives :: "(bytes \<Rightarrow> bytes) \<Rightarrow> (bytes \<Rightarrow> u32) \<Rightarrow> sst_reader \<times> sst_stream \<Rightarrow> entry list \<Rightarrow> bool" where
  "file_gives blake3 crc32 s es \<longleftrightarrow>
     (\<exists>blks. readable blake3 crc32 blks (fst s) \<and> stream_ok blks (snd s) \<and> stream_rest blks (snd s) = es)"

interpretation sst_source: entry_source "file_next crc32" "file_gives blake3 crc32" for blake3 crc32
proof unfold_locales
  fix s
  assume "file_gives blake3 crc32 s []"
  then obtain blks where b: "readable blake3 crc32 blks (fst s)" "stream_ok blks (snd s)" "stream_rest blks (snd s) = []"
    by (auto simp: file_gives_def)
  with stream_next_run [OF b(1,2)] show "\<exists>s'. file_next crc32 s = Inr (s', None) \<and> file_gives blake3 crc32 s' []"
    by (auto simp: file_next_def file_gives_def)
next
  fix s e es
  assume "file_gives blake3 crc32 s (e # es)"
  then obtain blks where b: "readable blake3 crc32 blks (fst s)" "stream_ok blks (snd s)" "stream_rest blks (snd s) = e # es"
    by (auto simp: file_gives_def)
  with stream_next_run [OF b(1,2)] show "\<exists>s'. file_next crc32 s = Inr (s', Some e) \<and> file_gives blake3 crc32 s' es"
    by (auto simp: file_next_def file_gives_def)
qed

text \<open>An input of the compaction: an opened file that the writer has written.\<close>

definition sst_input :: "(bytes \<Rightarrow> bytes) \<Rightarrow> (bytes \<Rightarrow> u32) \<Rightarrow> sst_reader \<Rightarrow> entry list \<Rightarrow> bool" where
  "sst_input blake3 crc32 rd es \<longleftrightarrow>
     (\<exists>km v m hashes bs meta. km_ok km \<and> (v = 3 \<or> v = 4) \<and>
        sst_write blake3 crc32 km m hashes v es = Inr (bs, meta) \<and>
        (\<forall>e \<in> set es. length (fst (snd e)) \<le> READABLE_VALUE) \<and> sst_open crc32 km bs = Inr rd)"

lemma sst_input_gives:
  assumes "sst_input blake3 crc32 rd es"
  shows "file_gives blake3 crc32 (rd, sst_stream_new) es" and "entries_sorted es"
    and "\<forall>e \<in> set es. entry_valid e \<and> length (fst (snd e)) \<le> READABLE_VALUE"
proof -
  from assms obtain km v m hashes bs meta where w: "km_ok km" "v = 3 \<or> v = 4"
    "sst_write blake3 crc32 km m hashes v es = Inr (bs, meta)"
    "\<forall>e \<in> set es. length (fst (snd e)) \<le> READABLE_VALUE" "sst_open crc32 km bs = Inr rd"
    unfolding sst_input_def by blast
  obtain rd' blks where "sst_open crc32 km bs = Inr rd'" "readable blake3 crc32 blks rd'"
    "concat (map fst blks) = es" and s: "entries_sorted es"
    by (rule written_readable [OF w(1-4)])
  with w(5) show "file_gives blake3 crc32 (rd, sst_stream_new) es"
    unfolding file_gives_def
    by (intro exI [of _ blks]) (simp add: stream_ok_def stream_rest_def sst_stream_new_def entries_from_def)
  show "entries_sorted es" by (rule s)
  have "3 \<le> v" "v \<le> 4" using w(2) by auto
  from written_file [OF w(1) this w(3)] obtain sb where "noted blake3 (bloom_new m hashes) es sb" by metis
  with w(4) show "\<forall>e \<in> set es. entry_valid e \<and> length (fst (snd e)) \<le> READABLE_VALUE"
    by (simp add: noted_def)
qed

lemma merge_sstables_run:
  assumes q: "quiet cfg env" and inp: "list_all2 (sst_input blake3 crc32) inputs contents"
  shows "\<exists>all. mset all = mset (concat contents) \<and> sorted_wrt entry_le all \<and>
    merge_sstables blake3 crc32 m hashes km cfg env inputs =
      Some (lift_res (sst_write blake3 crc32 km m hashes 4 (emit cfg None False all)))"
proof -
  let ?cfg = "cfg\<lparr>mc_encrypted := (km \<noteq> None)\<rparr>" and ?streams = "map (\<lambda>rd. (rd, sst_stream_new)) inputs"
  have len: "length contents = length ?streams" using inp by (simp add: list_all2_lengthD)
  have src: "\<forall>i < length ?streams. file_gives blake3 crc32 (?streams ! i) (contents ! i) \<and> entries_sorted (contents ! i)"
    using sst_input_gives(1,2) [OF list_all2_nthD [OF inp]] by simp
  have q': "quiet ?cfg env" using q by (simp add: quiet_def)
  have emit: "emit ?cfg lk fe es = emit cfg lk fe es" for lk fe es
    by (induction es arbitrary: lk fe) (simp_all add: Let_def emit_defs gc_tombstone_def)
  have new: "set_format_version (sst_create m hashes km) 4 = sst_create m hashes km"
    by (simp add: set_format_version_def sst_create_def)
  from sst_source.merge_streams_run [OF len src q', of "sst_add blake3 crc32" "sst_create m hashes km"]
  show ?thesis
    unfolding emit by (elim ex_forward)
      (auto simp: merge_sstables_def sst_write_def new sst_add_all_list lift_res_bind)
qed

section \<open>Reads of the output\<close>

text \<open>The newest version of a key among the entries of all inputs, at a snapshot.\<close>

definition newest :: "bytes \<Rightarrow> u64 \<Rightarrow> entry list \<Rightarrow> entry option" where
  "newest k s es = find (\<lambda>e. fst e = k \<and> entry_raw e \<le> s \<and>
     (\<forall>e' \<in> set es. fst e' = k \<and> entry_raw e' \<le> s \<longrightarrow> entry_raw e' \<le> entry_raw e)) es"

abbreviation versions_distinct :: "entry list \<Rightarrow> bool" where
  "versions_distinct es \<equiv> distinct (map (\<lambda>e. (fst e, entry_raw e)) es)"

lemma find_unique: "x \<in> set xs \<Longrightarrow> P x \<Longrightarrow> \<forall>y \<in> set xs. P y \<longrightarrow> y = x \<Longrightarrow> find P xs = Some x"
proof (induction xs)
  case (Cons a xs)
  show ?case
  proof (cases "P a")
    case True
    with Cons.prems(3) have "a = x" by (metis list.set_intros(1))
    with True show ?thesis by simp
  next
    case False
    with Cons.prems(1,2) have "x \<in> set xs" by auto
    moreover have "\<forall>y \<in> set xs. P y \<longrightarrow> y = x" using Cons.prems(3) by (simp only: list.set insert_iff) blast
    ultimately have "find P xs = Some x" using Cons.IH Cons.prems(2) by blast
    with False show ?thesis by simp
  qed
qed simp

lemma find_split: "find P xs = Some x \<Longrightarrow> \<exists>ys zs. xs = ys @ x # zs \<and> P x \<and> (\<forall>y \<in> set ys. \<not> P y)"
proof (induction xs)
  case (Cons a xs)
  show ?case
  proof (cases "P a")
    case True
    with Cons.prems show ?thesis by (intro exI [of _ "[]"] exI [of _ xs]) simp
  next
    case False
    with Cons obtain ys zs where "xs = ys @ x # zs \<and> P x \<and> (\<forall>y \<in> set ys. \<not> P y)" by auto
    with False show ?thesis by (intro exI [of _ "a # ys"] exI [of _ zs]) simp
  qed
qed simp

lemma strictly_sorted:
  assumes "sorted_wrt entry_le es" and "versions_distinct es"
  shows "entries_sorted es"
  using assms
proof (induction es)
  case (Cons e es)
  have "entry_before e e'" if e': "e' \<in> set es" for e'
  proof -
    have "entry_le e e'" using Cons.prems(1) e' by simp
    moreover have "(fst e, entry_raw e) \<noteq> (fst e', entry_raw e')" using Cons.prems(2) e' by auto
    ultimately show ?thesis by (auto simp: entry_le_def entry_before_def entry_raw_def)
  qed
  with Cons show ?case by simp
qed simp

lemma find_newest:
  assumes sorted: "entries_sorted all" and all: "mset all = mset es" and dist: "versions_distinct es"
  shows "find (\<lambda>e. fst e = k \<and> entry_raw e \<le> s) all = newest k s es"
proof (cases "find (\<lambda>e. fst e = k \<and> entry_raw e \<le> s) all")
  case None
  then have "\<forall>e \<in> set es. \<not> (fst e = k \<and> entry_raw e \<le> s)"
    using mset_eq_setD [OF all] by (auto simp: find_None_iff)
  then have "newest k s es = None" unfolding newest_def by (intro find_None) blast
  with None show ?thesis by simp
next
  case (Some e)
  then obtain xs ys where split: "all = xs @ e # ys" and xs: "\<forall>y \<in> set xs. \<not> (fst y = k \<and> entry_raw y \<le> s)"
    and e: "fst e = k" "entry_raw e \<le> s" using find_split [OF Some] by blast
  have max: "\<forall>e' \<in> set es. fst e' = k \<and> entry_raw e' \<le> s \<longrightarrow> entry_raw e' \<le> entry_raw e"
  proof (intro ballI impI)
    fix e' assume "e' \<in> set es" "fst e' = k \<and> entry_raw e' \<le> s"
    then have "e' = e \<or> e' \<in> set ys" using mset_eq_setD [OF all] xs split by auto
    then show "entry_raw e' \<le> entry_raw e"
    proof
      assume "e' \<in> set ys"
      then have "entry_before e e'" using sorted unfolding split by (simp add: sorted_wrt_append)
      moreover have "fst e' = fst e" using \<open>fst e' = k \<and> entry_raw e' \<le> s\<close> e(1) by simp
      ultimately show ?thesis by (simp add: entry_before_def entry_raw_def less_imp_le)
    qed simp
  qed
  have in_es: "e \<in> set es" using mset_eq_setD [OF all] split by auto
  have unique: "y = e" if y: "y \<in> set es" "fst y = k \<and> entry_raw y \<le> s \<and>
      (\<forall>e' \<in> set es. fst e' = k \<and> entry_raw e' \<le> s \<longrightarrow> entry_raw e' \<le> entry_raw y)" for y
  proof -
    have "entry_raw e \<le> entry_raw y" using y(2) in_es e by blast
    moreover have "entry_raw y \<le> entry_raw e" using max y by blast
    ultimately have "(fst y, entry_raw y) = (fst e, entry_raw e)" using y(2) e by simp
    then show ?thesis using dist y(1) in_es unfolding distinct_map inj_on_def by blast
  qed
  have "newest k s es = Some e"
    unfolding newest_def
  proof (rule find_unique [OF in_es])
    show "fst e = k \<and> entry_raw e \<le> s \<and>
      (\<forall>e' \<in> set es. fst e' = k \<and> entry_raw e' \<le> s \<longrightarrow> entry_raw e' \<le> entry_raw e)" using e max by blast
    show "\<forall>y \<in> set es. (fst y = k \<and> entry_raw y \<le> s \<and>
      (\<forall>e' \<in> set es. fst e' = k \<and> entry_raw e' \<le> s \<longrightarrow> entry_raw e' \<le> entry_raw y)) \<longrightarrow> y = e"
    proof (intro ballI impI)
      fix y assume "y \<in> set es" "fst y = k \<and> entry_raw y \<le> s \<and>
        (\<forall>e' \<in> set es. fst e' = k \<and> entry_raw e' \<le> s \<longrightarrow> entry_raw e' \<le> entry_raw y)"
      then show "y = e" by (rule unique)
    qed
  qed
  with Some show ?thesis by simp
qed

text \<open>Retention and collection of tombstones, seen by a read that is not below the floor.\<close>

lemma find_retained:
  assumes "sorted_wrt (\<lambda>a b. entry_raw a > entry_raw b) es" and "mc_floor cfg \<le> s"
  shows "find (\<lambda>e. entry_raw e \<le> s) (filter (\<lambda>e. \<not> gc_tombstone cfg e)
      (retain_loop (\<lambda>e. fst (snd (snd e))) (mc_floor cfg) False es)) =
    (case find (\<lambda>e. entry_raw e \<le> s) es of None \<Rightarrow> None | Some e \<Rightarrow> if gc_tombstone cfg e then None else Some e)"
  using assms(1)
proof (induction es)
  case Nil
  then show ?case by simp
next
  case (Cons e es)
  show ?case
  proof (cases "entry_raw e > mc_floor cfg")
    case True
    then have "\<not> gc_tombstone cfg e" by (auto simp: gc_tombstone_def)
    with True Cons show ?thesis by (simp add: entry_raw_def)
  next
    case False
    then have "entry_raw e \<le> s" using assms(2) by simp
    moreover have "retain_loop (\<lambda>e. fst (snd (snd e))) (mc_floor cfg) True es = []"
      unfolding retain_loop_found using Cons.prems False
      by (auto simp: filter_empty_conv entry_raw_def [symmetric] not_less)
    ultimately show ?thesis using False by (simp add: entry_raw_def)
  qed
qed

lemma find_key_filter: "find (\<lambda>e. fst e = k \<and> Q e) es = find Q (filter (\<lambda>e. fst e = k) es)"
  by (induction es) auto

lemma key_versions_strict: "entries_sorted es \<Longrightarrow>
    sorted_wrt (\<lambda>a b. entry_raw a > entry_raw b) (filter (\<lambda>e. fst e = k) es)"
  by (induction es) (auto simp: entry_before_def entry_raw_def)

lemma emit_strict: "entries_sorted es \<Longrightarrow> entries_sorted (emit cfg lk fe es)"
proof (induction es arbitrary: lk fe)
  case (Cons e es)
  have "\<forall>e' \<in> set (emit cfg lk' fe' es). entry_before e e'" for lk' fe'
    using emit_subset [of cfg lk' fe' es] Cons.prems by auto
  with Cons show ?case by (auto simp: Let_def written_def)
qed simp

lemma emit_cost: "cost (emit cfg lk fe es) \<le> cost es"
proof (induction es arbitrary: lk fe)
  case (Cons e es)
  show ?case
    using Cons.IH [of "next_key cfg lk (floor_seen lk fe e) e" "next_floor cfg (floor_seen lk fe e) e"]
    by (simp add: Let_def written_def)
qed simp

lemma cost_mset: "mset es = mset es' \<Longrightarrow> cost es = cost es'"
  unfolding cost_def by (metis mset_map sum_mset_sum_list)

lemma emit_newest:
  assumes sorted: "entries_sorted all" and all: "mset all = mset es" and dist: "versions_distinct es"
    and s: "mc_floor cfg \<le> s"
  shows "find (\<lambda>e. fst e = k \<and> entry_raw e \<le> s) (emit cfg None False all) =
    (case newest k s es of None \<Rightarrow> None | Some e \<Rightarrow> if gc_tombstone cfg e then None else Some e)"
proof -
  have "filter (\<lambda>e. fst e = k) (emit cfg None False all) = filter (\<lambda>e. \<not> gc_tombstone cfg e)
      (retain_loop (\<lambda>e. fst (snd (snd e))) (mc_floor cfg) False (filter (\<lambda>e. fst e = k) all))"
    using emit_versions [OF entries_sorted_keys [OF sorted], of None k cfg False] by simp
  with find_retained [OF key_versions_strict [OF sorted] s] find_newest [OF assms(1-3)]
  show ?thesis by (simp add: find_key_filter)
qed

text \<open>An example: two files with three versions of a key and another key, compacted at the floor 4.\<close>

lemma sst_input_exists:
  assumes "entries_sorted es" and "\<forall>e \<in> set es. entry_valid e" and "cost es + 4 < 2 ^ 64"
    and "\<forall>e \<in> set es. length (fst (snd e)) \<le> READABLE_VALUE"
  shows "\<exists>rd. sst_input blake3 crc32 rd es"
proof -
  have "3 \<le> (4 :: nat)" by simp
  obtain bs meta where w: "sst_write blake3 crc32 None 64 3 4 es = Inr (bs, meta)"
    by (rule sst_write_succeeds [OF assms(1,2) \<open>3 \<le> 4\<close> assms(3)])
  obtain rd blks where "sst_open crc32 None bs = Inr rd" "readable blake3 crc32 blks rd"
    by (rule written_readable [OF km_ok_None disjI2 [OF refl] w assms(4)])
  with w assms(4) show ?thesis
    unfolding sst_input_def by (intro exI [of _ rd] exI [of _ None] exI [of _ 4] exI [of _ 64] exI [of _ 3] exI [of _ bs] exI [of _ meta]) simp
qed

definition example_contents :: "entry list list" where
  "example_contents = [[([97], [1], 3, 0), ([97], [9], 2, 0)], [([97], [7], 5, 0), ([98], [2], 1 OR TOMBSTONE_BIT, 0)]]"

definition example_config :: merge_config where
  "example_config = \<lparr>mc_floor = 4, mc_full = True, mc_encrypted = False, mc_threshold = 1000, mc_timeout = 0,
     mc_merge_op = None\<rparr>"

definition quiet_env :: merge_env where
  "quiet_env = \<lparr>en_cancelled = (\<lambda>_. False), en_memory = (\<lambda>_. Has_capacity), en_elapsed = (\<lambda>_. 0)\<rparr>"

lemma example_quiet: "quiet example_config quiet_env"
  by (simp add: quiet_def example_config_def quiet_env_def)

lemma example_raw: "mask_seq (1 OR TOMBSTONE_BIT) = 1" "mask_seq 1 = 1" "mask_seq 2 = 2" "mask_seq 3 = 3" "mask_seq 5 = 5"
  by (simp_all add: TOMBSTONE_BIT_def)

lemma example_inputs:
  obtains inputs where "list_all2 (sst_input blake3 crc32) inputs example_contents"
proof -
  have "\<exists>rd. sst_input blake3 crc32 rd es" if "es \<in> set example_contents" for es
    using that
    by (intro sst_input_exists)
      (auto simp: example_contents_def entry_before_def example_raw entry_valid_def MAX_VALUE_SIZE_def
        READABLE_VALUE_def entry_cost_def)
  then obtain f where "\<forall>es \<in> set example_contents. sst_input blake3 crc32 (f es) es" by metis
  then have "list_all2 (sst_input blake3 crc32) (map f example_contents) example_contents"
    by (simp add: list_all2_conv_all_nth)
  then show thesis by (rule that)
qed

section \<open>Properties\<close>

text \<open>C19: the compaction ends and keeps what the retention keeps. For inputs that were written as files, without a merge operator
  and undisturbed, the merge ends, and its result is that of writing a list of entries with ascending keys.
  Of each key the list has the versions of all inputs, newest first, as \<open>retain_key_versions\<close> leaves
  them at the floor, without the tombstones that a full compaction collects. \<close>

theorem compaction_retains:
  assumes "quiet cfg env" and "list_all2 (sst_input blake3 crc32) inputs contents"
  shows "\<exists>all out. mset all = mset (concat contents) \<and> sorted_wrt entry_le all \<and> sorted (map fst out) \<and>
    (\<forall>k. filter (\<lambda>e. fst e = k) out = filter (\<lambda>e. \<not> gc_tombstone cfg e)
       (retain_key_versions (filter (\<lambda>e. fst e = k) all) (\<lambda>e. fst (snd (snd e))) (mc_floor cfg))) \<and>
    merge_sstables blake3 crc32 m hashes km cfg env inputs = Some (lift_res (sst_write blake3 crc32 km m hashes 4 out))"
proof -
  obtain all where all: "mset all = mset (concat contents)" "sorted_wrt entry_le all"
    "merge_sstables blake3 crc32 m hashes km cfg env inputs =
      Some (lift_res (sst_write blake3 crc32 km m hashes 4 (emit cfg None False all)))"
    using merge_sstables_run [OF assms] by blast
  have keys: "sorted (map fst all)" using all(2) by (rule entry_le_sorted)
  have "filter (\<lambda>e. fst e = k) (emit cfg None False all) = filter (\<lambda>e. \<not> gc_tombstone cfg e)
      (retain_key_versions (filter (\<lambda>e. fst e = k) all) (\<lambda>e. fst (snd (snd e))) (mc_floor cfg))" for k
    using emit_versions [OF keys, of None k cfg False] by (simp add: retain_key_versions_def)
  with all emit_sorted [OF keys] show ?thesis by blast
qed

lemma compaction_retains_witness:
  "\<exists>inputs out. merge_sstables (\<lambda>k. k @ replicate 32 0) (\<lambda>b. of_nat (length b)) 64 3 None example_config quiet_env inputs =
      Some (lift_res (sst_write (\<lambda>k. k @ replicate 32 0) (\<lambda>b. of_nat (length b)) None 64 3 4 out)) \<and>
    sorted (map fst out)"
proof -
  obtain inputs where "list_all2 (sst_input (\<lambda>k. k @ replicate 32 0) (\<lambda>b. of_nat (length b))) inputs example_contents"
    by (rule example_inputs)
  from compaction_retains [OF example_quiet this] show ?thesis by blast
qed

text \<open>C9: the compaction changes no read. Inputs in which no key has two versions with one sequence number
  are merged without an error, and the output opens and answers every read at a
  snapshot that is not below the floor with the newest version of all inputs at this snapshot; where this
  is a tombstone that a full compaction has collected, the key is not found.\<close>

theorem compaction_keeps_reads:
  assumes "quiet cfg env" and "list_all2 (sst_input blake3 crc32) inputs contents"
    and "versions_distinct (concat contents)" and "cost (concat contents) + 4 < 2 ^ 64"
  shows "\<exists>bs meta rd. merge_sstables blake3 crc32 m hashes None cfg env inputs = Some (Inr (bs, meta)) \<and>
    sst_open crc32 None bs = Inr rd \<and>
    (\<forall>k s. mc_floor cfg \<le> mask_seq s \<longrightarrow> get_at blake3 crc32 rd k s U64_MAX =
       Inr (case newest k (mask_seq s) (concat contents) of
              None \<Rightarrow> None
            | Some e \<Rightarrow> if gc_tombstone cfg e then None else Some (snd e)))"
proof -
  obtain all where all: "mset all = mset (concat contents)" "sorted_wrt entry_le all" and
    run: "merge_sstables blake3 crc32 m hashes None cfg env inputs =
      Some (lift_res (sst_write blake3 crc32 None m hashes 4 (emit cfg None False all)))"
    using merge_sstables_run [OF assms(1,2)] by blast
  let ?out = "emit cfg None False all"
  have "mset (map (\<lambda>e. (fst e, entry_raw e)) all) = mset (map (\<lambda>e. (fst e, entry_raw e)) (concat contents))"
    using all(1) by (simp only: mset_map)
  then have "versions_distinct all" using assms(3) mset_eq_imp_distinct_iff by blast
  with all(2) have sorted: "entries_sorted all" by (rule strictly_sorted)
  have valid: "\<forall>e \<in> set ?out. entry_valid e \<and> length (fst (snd e)) \<le> READABLE_VALUE"
  proof
    fix e assume "e \<in> set ?out"
    then have "e \<in> set (concat contents)" using emit_subset mset_eq_setD [OF all(1)] by blast
    then obtain c where "c \<in> set contents" "e \<in> set c" by auto
    then obtain i where "i < length contents" "e \<in> set (contents ! i)" by (metis in_set_conv_nth)
    with list_all2_nthD2 [OF assms(2)] sst_input_gives(3)
    show "entry_valid e \<and> length (fst (snd e)) \<le> READABLE_VALUE" by blast
  qed
  have "cost ?out + 4 < 2 ^ 64" using emit_cost [of cfg None False all] cost_mset [OF all(1)] assms(4) by simp
  then obtain bs meta where w: "sst_write blake3 crc32 None m hashes 4 ?out = Inr (bs, meta)"
    using sst_write_succeeds [OF emit_strict [OF sorted], of cfg None False 4 blake3 crc32 m hashes] valid by auto
  have small: "\<forall>e \<in> set ?out. length (fst (snd e)) \<le> READABLE_VALUE" using valid by blast
  note read = written_point_read [OF km_ok_None disjI2 [OF refl] w small]
  obtain rd where rd: "sst_open crc32 None bs = Inr rd" using read by blast
  have "get_at blake3 crc32 rd k s U64_MAX = Inr (case newest k (mask_seq s) (concat contents) of
      None \<Rightarrow> None | Some e \<Rightarrow> if gc_tombstone cfg e then None else Some (snd e))"
    if "mc_floor cfg \<le> mask_seq s" for k s
  proof -
    have "(\<lambda>e. fst e = k \<and> entry_visible (mask_seq s) U64_MAX e) = (\<lambda>e. fst e = k \<and> entry_raw e \<le> mask_seq s)"
      by (auto simp: fun_eq_iff entry_visible_def entry_raw_def U64_MAX_def)
    with read [of k s U64_MAX] rd emit_newest [OF sorted all(1) assms(3) that]
    show ?thesis by (auto split: option.splits)
  qed
  with rd show ?thesis unfolding run w lift_res_simps by blast
qed

lemma compaction_keeps_reads_witness:
  "\<exists>inputs bs meta rd.
     merge_sstables (\<lambda>k. k @ replicate 32 0) (\<lambda>b. of_nat (length b)) 64 3 None example_config quiet_env inputs = Some (Inr (bs, meta)) \<and>
     sst_open (\<lambda>b. of_nat (length b)) None bs = Inr rd \<and>
     get_at (\<lambda>k. k @ replicate 32 0) (\<lambda>b. of_nat (length b)) rd [97] 5 U64_MAX = Inr (Some ([7], 5, 0)) \<and>
     get_at (\<lambda>k. k @ replicate 32 0) (\<lambda>b. of_nat (length b)) rd [98] 5 U64_MAX = Inr None"
proof -
  obtain inputs where inp: "list_all2 (sst_input (\<lambda>k. k @ replicate 32 0) (\<lambda>b. of_nat (length b))) inputs example_contents"
    by (rule example_inputs)
  have "versions_distinct (concat example_contents)" "cost (concat example_contents) + 4 < 2 ^ 64"
    by (simp_all add: example_contents_def entry_raw_def example_raw entry_cost_def)
  note keeps = compaction_keeps_reads [OF example_quiet inp this, of 64 3]
  have floor: "mc_floor example_config \<le> mask_seq 5" by (simp add: example_config_def example_raw word_le_nat_alt)
  have n: "newest [97] (mask_seq 5) (concat example_contents) = Some ([97], [7], 5, 0)"
    "newest [98] (mask_seq 5) (concat example_contents) = Some ([98], [2], 1 OR TOMBSTONE_BIT, 0)"
    by (simp_all add: newest_def example_contents_def entry_raw_def example_raw word_le_nat_alt)
  have g: "\<not> gc_tombstone example_config ([97], [7], 5, 0)"
    "gc_tombstone example_config ([98], [2], 1 OR TOMBSTONE_BIT, 0)"
    by (simp_all add: gc_tombstone_def entry_tombstone_def entry_raw_def example_raw example_config_def
        TOMBSTONE_BIT_def word_less_nat_alt)
  from keeps obtain bs meta rd where
    run: "merge_sstables (\<lambda>k. k @ replicate 32 0) (\<lambda>b. of_nat (length b)) 64 3 None example_config quiet_env inputs = Some (Inr (bs, meta))"
    "sst_open (\<lambda>b. of_nat (length b)) None bs = Inr rd"
    and read: "\<forall>k s. mc_floor example_config \<le> mask_seq s \<longrightarrow>
       get_at (\<lambda>k. k @ replicate 32 0) (\<lambda>b. of_nat (length b)) rd k s U64_MAX =
       Inr (case newest k (mask_seq s) (concat example_contents) of None \<Rightarrow> None
            | Some e \<Rightarrow> if gc_tombstone example_config e then None else Some (snd e))"
    by blast
  note read5 = read [rule_format, OF floor]
  have "get_at (\<lambda>k. k @ replicate 32 0) (\<lambda>b. of_nat (length b)) rd [97] 5 U64_MAX = Inr (Some ([7], 5, 0))"
    unfolding read5 n(1) using g(1) by simp
  moreover have "get_at (\<lambda>k. k @ replicate 32 0) (\<lambda>b. of_nat (length b)) rd [98] 5 U64_MAX = Inr None"
    unfolding read5 n(2) using g(2) by simp
  ultimately show ?thesis using run by blast
qed

section \<open>Merge operators\<close>

text \<open>Streams and output as plain lists.\<close>

fun list_next :: "entry list \<Rightarrow> sst_error + entry list \<times> entry option" where
  "list_next [] = Inr ([], None)"
| "list_next (e # es) = Inr (es, Some e)"

definition list_add :: "entry list \<Rightarrow> entry \<Rightarrow> sst_error + entry list" where
  "list_add out e = Inr (out @ [e])"

interpretation list_source: entry_source list_next "(=)"
  by unfold_locales simp_all

definition appending :: "merge_config" where
  "appending = example_config\<lparr>mc_floor := 10, mc_merge_op := Some (\<lambda>existing new. Some (existing @ new))\<rparr>"

text \<open>A merge operator resurrects deleted data and loses updates. When the head of a stream leaves the heap, the next entry
  of the same stream is not in it yet, and the operator is applied to the head of another
  stream instead. A value written after a deletion is merged with the value that was
  deleted, and of three successive values the middle one is dropped unmerged.\<close>

theorem merge_operator_skips_versions:
  "merge_streams appending quiet_env list_next list_add
     [[([107], old, 3, t)], [([107], new, 5, t), ([107], [], 4 OR TOMBSTONE_BIT, t)]] [] =
   Some (Inr [([107], old @ new, 5, t)]) \<and>
   merge_streams appending quiet_env list_next list_add
     [[([107], old, 3, t)], [([107], new, 5, t), ([107], mid, 4, t)]] [] =
   Some (Inr [([107], old @ new, 5, t)])"
  by (simp add: merge_streams_def fetch_def merge_loop.simps merge_step_def heap_pop_def item_before_def
      entry_raw_def entry_tombstone_def try_merge_def retain_item_def list_add_def appending_def example_config_def
      quiet_env_def TOMBSTONE_BIT_def upt_rec word_less_nat_alt)

end
