(* ===== verification/CompactPick.thy ===== *)
theory CompactPick
  imports SstFile
begin

text \<open>
  Which files the compaction merges: the size-tiered selection and the adaptive planner of
  \<open>compaction/adaptive.rs\<close>.

  A file is its metadata. Ratios of sizes and of operation counts are computed in floating point;
  the comparisons with the configured ratios are parameters. A sum of file sizes is a natural
  number; the sources add in 64 bits, which no set of files exceeds.
\<close>

section \<open>Size-tiered selection\<close>

definition compute_key_overlap_score :: "sst_meta list \<Rightarrow> nat" where
  "compute_key_overlap_score window =
     (if length window < 2 then 0
      else (let sorted = sort_key sm_first_key window
            in length (filter (\<lambda>i. sm_first_key (sorted ! (i + 1)) \<le> sm_last_key (sorted ! i))
                 [0..<length sorted - 1])))"

definition window_of :: "sst_meta list \<Rightarrow> nat \<times> nat \<Rightarrow> sst_meta list" where
  "window_of ssts r = take (snd r - fst r) (drop (fst r) ssts)"

definition window_size :: "sst_meta list \<Rightarrow> nat" where
  "window_size window = sum_list (map sm_file_size window)"

text \<open>\<open>ratio <= size_ratio\<close> for the largest and the smallest file of the window.\<close>

definition in_tier :: "(nat \<Rightarrow> nat \<Rightarrow> bool) \<Rightarrow> sst_meta list \<Rightarrow> bool" where
  "in_tier within window =
     (let sizes = map sm_file_size window
      in within (if sizes = [] then 1 else max (Max (set sizes)) 1) (if sizes = [] then 1 else max (Min (set sizes)) 1))"

definition is_better :: "nat \<times> nat \<times> nat \<Rightarrow> nat \<times> nat \<times> nat \<Rightarrow> bool" where
  "is_better a b =
     (case (a, b) of ((overlap, win_len, win_size), (best_overlap, best_len, best_size)) \<Rightarrow>
        overlap > best_overlap \<or>
        (overlap = best_overlap \<and> win_len > best_len) \<or>
        (overlap = best_overlap \<and> win_len = best_len \<and> win_size < best_size))"

definition score_of :: "sst_meta list \<Rightarrow> nat \<times> nat \<Rightarrow> nat \<times> nat \<times> nat" where
  "score_of ssts r =
     (compute_key_overlap_score (window_of ssts r), snd r - fst r, window_size (window_of ssts r))"

definition tier_step ::
  "(nat \<Rightarrow> nat \<Rightarrow> bool) \<Rightarrow> sst_meta list \<Rightarrow> nat \<times> nat \<Rightarrow> (nat \<times> nat) option \<times> nat \<times> nat \<times> nat \<Rightarrow>
   (nat \<times> nat) option \<times> nat \<times> nat \<times> nat" where
  "tier_step within ssts r best =
     (if in_tier within (window_of ssts r) \<and> is_better (score_of ssts r) (snd best)
      then (Some r, score_of ssts r) else best)"

definition tier_ranges :: "nat \<Rightarrow> nat \<Rightarrow> (nat \<times> nat) list" where
  "tier_ranges n min_tier = concat (map (\<lambda>s. map (\<lambda>e. (s, e)) [s + min_tier..<Suc n]) [0..<n])"

definition best_tier_range ::
  "(nat \<Rightarrow> nat \<Rightarrow> bool) \<Rightarrow> sst_meta list \<Rightarrow> nat \<Rightarrow> (nat \<times> nat) option" where
  "best_tier_range within ssts min_tier =
     fst (fold (tier_step within ssts) (tier_ranges (length ssts) min_tier) (None, 0, 0, unat U64_MAX))"

text \<open>The fallback compares windows of one length by their overlap and then by their size.\<close>

definition fallback_step ::
  "sst_meta list \<Rightarrow> nat \<Rightarrow> nat \<Rightarrow> nat option \<times> nat \<times> nat \<Rightarrow> nat option \<times> nat \<times> nat" where
  "fallback_step ssts min_tier start best =
     (let window = window_of ssts (start, start + min_tier);
          total_size = window_size window;
          overlap = compute_key_overlap_score window
      in case best of (_, best_overlap, min_size) \<Rightarrow>
           if overlap > best_overlap \<or> (overlap = best_overlap \<and> total_size < min_size)
           then (Some start, overlap, total_size) else best)"

definition best_fallback_start :: "sst_meta list \<Rightarrow> nat \<Rightarrow> nat option" where
  "best_fallback_start ssts min_tier =
     fst (fold (fallback_step ssts min_tier) [0..<Suc (length ssts - min_tier)] (None, 0, unat U64_MAX))"

definition select_stcs_candidates ::
  "(nat \<Rightarrow> nat \<Rightarrow> bool) \<Rightarrow> sst_meta list \<Rightarrow> nat \<Rightarrow> sst_meta list option" where
  "select_stcs_candidates within ssts min_tier =
     (if length ssts < min_tier then None
      else (case best_tier_range within ssts min_tier of
              Some r \<Rightarrow> Some (window_of ssts r)
            | None \<Rightarrow>
                if length ssts \<ge> min_tier * 2
                then map_option (\<lambda>start. window_of ssts (start, start + min_tier)) (best_fallback_start ssts min_tier)
                else None))"

section \<open>The adaptive planner\<close>

record workload_metrics =
  wm_read_count :: u64
  wm_write_count :: u64
  wm_last_seq_no :: u64

definition workload_new :: workload_metrics where
  "workload_new = \<lparr>wm_read_count = 0, wm_write_count = 0, wm_last_seq_no = 0\<rparr>"

definition record_read :: "workload_metrics \<Rightarrow> workload_metrics" where
  "record_read m = m\<lparr>wm_read_count := wm_read_count m + 1\<rparr>"

definition record_write :: "u64 \<Rightarrow> workload_metrics \<Rightarrow> workload_metrics" where
  "record_write seq_no m =
     m\<lparr>wm_write_count := wm_write_count m + 1, wm_last_seq_no := max (wm_last_seq_no m) seq_no\<rparr>"

datatype strategy = WriteOptimizedSTCS | ReadOptimizedAggressive | Balanced

definition validate_tombstone_safety :: "sst_meta list \<Rightarrow> u64 \<Rightarrow> bool \<Rightarrow> bool" where
  "validate_tombstone_safety candidates min_active_seqno is_full =
     (if is_full \<and> min_active_seqno > 0
      then (if list_ex (\<lambda>sst. mask_seq (sm_max_seq sst) \<ge> min_active_seqno \<and> sm_max_seq sst AND TOMBSTONE_BIT \<noteq> 0) candidates
            then True else True)
      else True)"

text \<open>
  \<open>read_heavy\<close> and \<open>write_heavy\<close> compare the share of the reads among all operations with the
  threshold and with its complement.
\<close>

definition plan_compaction ::
  "(nat \<Rightarrow> nat \<Rightarrow> bool) \<Rightarrow> (u64 \<Rightarrow> u64 \<Rightarrow> bool) \<Rightarrow> (u64 \<Rightarrow> u64 \<Rightarrow> bool) \<Rightarrow> nat \<Rightarrow> workload_metrics \<Rightarrow> sst_meta list \<Rightarrow> u64 \<Rightarrow>
   (strategy \<times> sst_meta list \<times> bool) option" where
  "plan_compaction within read_heavy write_heavy min_tier metrics ssts min_active_seqno =
     (if length ssts < 2 then None
      else (let reads = wm_read_count metrics; writes = wm_write_count metrics;
                plan = (if read_heavy reads writes
                        then (let candidates = sort_key (\<lambda>sst. mask_seq (sm_max_seq sst)) ssts
                              in Some (ReadOptimizedAggressive, candidates, length candidates = length ssts))
                        else (case select_stcs_candidates within ssts min_tier of
                                Some c \<Rightarrow>
                                  if length c \<ge> 2
                                  then Some (if write_heavy reads writes then WriteOptimizedSTCS else Balanced,
                                             c, length c = length ssts)
                                  else None
                              | None \<Rightarrow> None))
            in case plan of
                 None \<Rightarrow> None
               | Some (strategy, candidates, is_full) \<Rightarrow>
                   if \<not> validate_tombstone_safety candidates min_active_seqno is_full then None
                   else Some (strategy, candidates, is_full)))"

section \<open>The selected window\<close>

definition eligible :: "(nat \<Rightarrow> nat \<Rightarrow> bool) \<Rightarrow> sst_meta list \<Rightarrow> nat \<Rightarrow> nat \<times> nat \<Rightarrow> bool" where
  "eligible within ssts min_tier r \<longleftrightarrow>
     fst r < length ssts \<and> fst r + min_tier \<le> snd r \<and> snd r \<le> length ssts \<and> in_tier within (window_of ssts r)"

lemma set_tier_ranges: "r \<in> set (tier_ranges n m) \<longleftrightarrow> fst r < n \<and> fst r + m \<le> snd r \<and> snd r \<le> n"
  by (cases r) (auto simp: tier_ranges_def image_iff simp del: upt_Suc)

lemma better_weak: "\<not> is_better w b \<Longrightarrow> is_better b' b \<Longrightarrow> \<not> is_better w b'"
  by (auto simp: is_better_def split: prod.splits)

lemma better_irrefl: "\<not> is_better b b"
  by (auto simp: is_better_def split: prod.splits)

definition tier_inv :: "(nat \<Rightarrow> nat \<Rightarrow> bool) \<Rightarrow> sst_meta list \<Rightarrow> (nat \<times> nat) list \<Rightarrow> (nat \<times> nat) option \<times> nat \<times> nat \<times> nat \<Rightarrow> bool" where
  "tier_inv within ssts seen best \<longleftrightarrow>
     (\<forall>r \<in> set seen. in_tier within (window_of ssts r) \<longrightarrow> \<not> is_better (score_of ssts r) (snd best)) \<and>
     (case fst best of
        None \<Rightarrow> snd best = (0, 0, unat U64_MAX)
      | Some r \<Rightarrow> r \<in> set seen \<and> in_tier within (window_of ssts r) \<and> snd best = score_of ssts r)"

lemma tier_step_inv:
  assumes "tier_inv within ssts seen best"
  shows "tier_inv within ssts (seen @ [r]) (tier_step within ssts r best)"
  using assms better_weak [of _ "snd best" "score_of ssts r"] better_irrefl [of "score_of ssts r"]
  unfolding tier_inv_def tier_step_def by (auto split: option.splits)

lemma tier_fold_inv:
  "tier_inv within ssts seen best \<Longrightarrow> tier_inv within ssts (seen @ rs) (fold (tier_step within ssts) rs best)"
proof (induction rs arbitrary: seen best)
  case (Cons r rs)
  from Cons.IH [OF tier_step_inv [OF Cons.prems]] show ?case by simp
qed simp

lemma unat_U64_MAX: "unat U64_MAX = 2 ^ 64 - 1"
  by (simp add: U64_MAX_def unsigned_minus_1_eq_mask mask_eq_exp_minus_1)

lemma better_than_none:
  "eligible within ssts m r \<Longrightarrow> is_better (score_of ssts r) (0, 0, unat U64_MAX)"
  by (cases "snd r - fst r") (auto simp: is_better_def score_of_def window_of_def window_size_def unat_U64_MAX)

lemma best_tier_range_cases:
  "case best_tier_range within ssts m of
     None \<Rightarrow> \<forall>r. \<not> eligible within ssts m r
   | Some r \<Rightarrow> eligible within ssts m r \<and>
       (\<forall>r'. eligible within ssts m r' \<longrightarrow> \<not> is_better (score_of ssts r') (score_of ssts r))"
proof -
  let ?best = "fold (tier_step within ssts) (tier_ranges (length ssts) m) (None, 0, 0, unat U64_MAX)"
  have "tier_inv within ssts [] (None, 0, 0, unat U64_MAX)" by (simp add: tier_inv_def)
  from tier_fold_inv [OF this, of "tier_ranges (length ssts) m"]
  have inv: "tier_inv within ssts (tier_ranges (length ssts) m) ?best" by simp
  have mem: "eligible within ssts m r \<longleftrightarrow> r \<in> set (tier_ranges (length ssts) m) \<and> in_tier within (window_of ssts r)" for r
    by (auto simp: eligible_def set_tier_ranges)
  show ?thesis
  proof (cases "fst ?best")
    case None
    with inv have start: "snd ?best = (0, 0, unat U64_MAX)" by (simp add: tier_inv_def)
    have "\<forall>r. eligible within ssts m r \<longrightarrow> \<not> is_better (score_of ssts r) (snd ?best)"
      using inv unfolding tier_inv_def mem by blast
    then have "\<forall>r. eligible within ssts m r \<longrightarrow> \<not> is_better (score_of ssts r) (0, 0, unat U64_MAX)"
      unfolding start .
    with better_than_none None show ?thesis by (auto simp: best_tier_range_def)
  next
    case (Some r)
    with inv show ?thesis by (auto simp: best_tier_range_def tier_inv_def mem)
  qed
qed

lemma fallback_run:
  assumes "fold (fallback_step ssts m) starts (st, ov, sz) = (st', ov', sz')"
  shows "(st' = st \<or> (\<exists>s \<in> set starts. st' = Some s)) \<and>
    (st \<noteq> None \<or> (\<exists>s \<in> set starts. window_size (window_of ssts (s, s + m)) < sz) \<and> ov = 0 \<longrightarrow> st' \<noteq> None)"
  using assms
proof (induction starts arbitrary: st ov sz)
  case (Cons s starts)
  show ?case
    using Cons.IH [of "fst (fallback_step ssts m s (st, ov, sz))" "fst (snd (fallback_step ssts m s (st, ov, sz)))"
        "snd (snd (fallback_step ssts m s (st, ov, sz)))"] Cons.prems
    by (auto simp: fallback_step_def Let_def split: if_splits)
qed simp

lemma window_size_le: "window_size (window_of ssts r) \<le> window_size ssts"
proof -
  have drop: "window_size (drop n xs) \<le> window_size xs" for n xs
    using window_size_def sum_list_append [of "map sm_file_size (take n xs)" "map sm_file_size (drop n xs)"]
    by (metis append_take_drop_id le_add2 map_append)
  have "window_size (take n xs) \<le> window_size xs" for n xs
    using window_size_def sum_list_append [of "map sm_file_size (take n xs)" "map sm_file_size (drop n xs)"]
    by (metis append_take_drop_id le_add1 map_append)
  with drop show ?thesis unfolding window_of_def by (meson order_trans)
qed

text \<open>The size-tiered selection. It returns neighbouring files. When some window of enough files is within the size ratio, the
  selected one is such a window, and no other one has a greater key overlap, or the same overlap and more files, or
  the same and a smaller size. Otherwise, with at least twice the minimal number of files, it is a window of the minimal number;
  and only otherwise nothing is selected.\<close>

theorem stcs_selection_optimal:
  assumes "window_size ssts < unat U64_MAX"
  shows "case select_stcs_candidates within ssts m of
      None \<Rightarrow> (\<forall>r. \<not> eligible within ssts m r) \<and> length ssts < 2 * m \<or> length ssts < m
    | Some c \<Rightarrow> \<exists>s e. s \<le> e \<and> e \<le> length ssts \<and> m \<le> e - s \<and> c = take (e - s) (drop s ssts) \<and>
        (eligible within ssts m (s, e) \<and>
           (\<forall>r. eligible within ssts m r \<longrightarrow> \<not> is_better (score_of ssts r) (score_of ssts (s, e))) \<or>
         (\<forall>r. \<not> eligible within ssts m r) \<and> e - s = m \<and> 2 * m \<le> length ssts)"
proof (cases "length ssts < m")
  case True
  then show ?thesis by (simp add: select_stcs_candidates_def)
next
  case enough: False
  show ?thesis
  proof (cases "best_tier_range within ssts m")
    case (Some r)
    with best_tier_range_cases [of within ssts m] have r: "eligible within ssts m r"
      "\<forall>r'. eligible within ssts m r' \<longrightarrow> \<not> is_better (score_of ssts r') (score_of ssts r)" by simp_all
    obtain s e where se: "r = (s, e)" by (cases r)
    have "s \<le> e" "e \<le> length ssts" "m \<le> e - s" using r(1) by (auto simp: eligible_def se)
    moreover have "select_stcs_candidates within ssts m = Some (take (e - s) (drop s ssts))"
      using Some enough by (simp add: select_stcs_candidates_def window_of_def se)
    ultimately show ?thesis using r unfolding se by (simp only: option.case) blast
  next
    case None
    with best_tier_range_cases [of within ssts m] have none: "\<forall>r. \<not> eligible within ssts m r" by simp
    show ?thesis
    proof (cases "2 * m \<le> length ssts")
      case False
      with None enough none show ?thesis by (simp add: select_stcs_candidates_def)
    next
      case True
      obtain st ov sz where f: "fold (fallback_step ssts m) [0..<Suc (length ssts - m)] (None, 0, unat U64_MAX) = (st, ov, sz)"
        by (metis prod_cases3)
      have "window_size (window_of ssts (0, 0 + m)) < unat U64_MAX"
        using window_size_le [of ssts "(0, 0 + m)"] assms by simp
      then have "\<exists>s \<in> set [0..<Suc (length ssts - m)]. window_size (window_of ssts (s, s + m)) < unat U64_MAX"
        by (intro bexI [of _ 0]) (simp_all del: upt_Suc)
      with fallback_run [OF f] obtain s where s: "st = Some s" "s \<in> set [0..<Suc (length ssts - m)]" by auto
      then have "s + m \<le> length ssts" using enough by auto
      moreover have "select_stcs_candidates within ssts m = Some (take (s + m - s) (drop s ssts))"
        using s(1) f None enough True
        by (simp add: select_stcs_candidates_def best_fallback_start_def window_of_def mult.commute del: upt_Suc)
      ultimately show ?thesis using none True
        by (simp del: diff_add_inverse) (intro exI [of _ s] exI [of _ "s + m"], simp)
    qed
  qed
qed

definition example_files :: "sst_meta list" where
  "example_files = map (\<lambda>(k, n). \<lparr>sm_first_key = [k], sm_last_key = [k + 1], sm_file_size = n, sm_min_tx = 0, sm_max_tx = 9,
     sm_min_seq = 0, sm_max_seq = 9\<rparr>) [(1, 10), (2, 12), (9, 1000)]"

lemma stcs_selection_optimal_witness:
  "\<exists>c. select_stcs_candidates (\<lambda>a b. a \<le> 4 * b) example_files 2 = Some c \<and> 2 \<le> length c"
proof -
  have "window_size example_files < unat U64_MAX"
    by (simp add: window_size_def example_files_def unat_U64_MAX)
  note optimal = stcs_selection_optimal [OF this, of "\<lambda>a b. a \<le> 4 * b" 2]
  have "eligible (\<lambda>a b. a \<le> 4 * b) example_files 2 (0, 2)" "length example_files = 3"
    by (simp_all add: eligible_def in_tier_def window_of_def example_files_def)
  then have "select_stcs_candidates (\<lambda>a b. a \<le> 4 * b) example_files 2 \<noteq> None"
    using optimal by (cases "select_stcs_candidates (\<lambda>a b. a \<le> 4 * b) example_files 2") auto
  with optimal show ?thesis by (auto split: option.splits)
qed

section \<open>The check for tombstones\<close>

text \<open>The check that is to keep a full compaction from dropping tombstones in use accepts everything.\<close>

lemma tombstone_validation_vacuous: "validate_tombstone_safety candidates min_active_seqno is_full"
  by (simp add: validate_tombstone_safety_def)

end
