(* ===== verification/RadixTree.thy ===== *)
theory RadixTree
  imports Prelude "HOL-Library.Sublist"
begin

text \<open>
  The compressed prefix tree of the KV cache, \<open>contextra-kvcache/src/radix.rs\<close>: a token sequence is
  stored with the id of its block, an insertion splits a node where two sequences part, and a query
  finds the longest stored prefix that the reuse policy accepts. The tree refines a map from
  sequences to block ids. The guard that counts the users of a block is not part of this theory.
\<close>

section \<open>The tree\<close>

type_synonym token = "32 word"

datatype reuse_policy = Always | CostBased nat | Never

fun should_reuse :: "reuse_policy \<Rightarrow> nat \<Rightarrow> bool" where
  "should_reuse Always matched_len = (matched_len > 0)"
| "should_reuse (CostBased min_prefix_len) matched_len = (matched_len \<ge> min_prefix_len)"
| "should_reuse Never matched_len = False"

datatype radix_node = Node (node_tokens: "token list") (node_block: "u64 option") (node_children: "radix_node list")

record radix_tree =
  rt_children :: "radix_node list"
  rt_total :: nat

record prefix_match =
  pm_tokens :: "token list"
  pm_len :: nat
  pm_block :: u64

fun lcp_len :: "token list \<Rightarrow> token list \<Rightarrow> nat" where
  "lcp_len (x # xs) (y # ys) = (if x = y then Suc (lcp_len xs ys) else 0)"
| "lcp_len _ _ = 0"

definition radix_new :: radix_tree where
  "radix_new = \<lparr>rt_children = [], rt_total = 0\<rparr>"

text \<open>The new children, and the new number of entries.\<close>

fun insert_into_vec :: "radix_node list \<Rightarrow> token list \<Rightarrow> u64 \<Rightarrow> nat \<Rightarrow> radix_node list \<times> nat" where
  "insert_into_vec [] tokens block_id cnt = ([Node tokens (Some block_id) []], cnt + 1)"
| "insert_into_vec (Node toks blk children # nodes) tokens block_id cnt =
     (let lcp = lcp_len toks tokens
      in if lcp = 0
         then (let (nodes', cnt') = insert_into_vec nodes tokens block_id cnt
               in (Node toks blk children # nodes', cnt'))
         else if lcp = length toks
         then (let remaining = drop lcp tokens
               in if remaining = []
                  then (Node toks (Some block_id) children # nodes, if blk = None then cnt + 1 else cnt)
                  else (let (children', cnt') = insert_into_vec children remaining block_id cnt
                        in (Node toks blk children' # nodes, cnt')))
         else (let old_child = Node (drop lcp toks) blk children;
                   query_remaining = drop lcp tokens
               in if query_remaining = []
                  then (Node (take lcp toks) (Some block_id) [old_child] # nodes, cnt + 1)
                  else (Node (take lcp toks) None [old_child, Node query_remaining (Some block_id) []] # nodes,
                        cnt + 1)))"

datatype radix_error = Empty_sequence

definition radix_insert :: "radix_tree \<Rightarrow> token list \<Rightarrow> u64 \<Rightarrow> radix_error + radix_tree" where
  "radix_insert t tokens block_id =
     (if tokens = [] then Inl Empty_sequence
      else (let (children, cnt) = insert_into_vec (rt_children t) tokens block_id (rt_total t)
            in Inr \<lparr>rt_children = children, rt_total = cnt\<rparr>))"

fun matched_child :: "radix_node list \<Rightarrow> token list \<Rightarrow> (radix_node \<times> nat) option" where
  "matched_child [] remaining = None"
| "matched_child (node # nodes) remaining =
     (let lcp = lcp_len (node_tokens node) remaining
      in if lcp > 0 then Some (node, lcp) else matched_child nodes remaining)"

lemma matched_child_pos: "matched_child nodes remaining = Some (node, lcp) \<Longrightarrow> 0 < lcp"
  by (induction nodes) (auto simp: Let_def split: if_splits)

function prefix_loop ::
  "reuse_policy \<Rightarrow> radix_node list \<Rightarrow> token list \<Rightarrow> token list \<Rightarrow> prefix_match option \<Rightarrow> prefix_match option" where
  "prefix_loop policy nodes remaining accumulated best =
     (if remaining = [] then best
      else (case matched_child nodes remaining of
              None \<Rightarrow> best
            | Some (node, lcp) \<Rightarrow>
                (let accumulated' = accumulated @ take lcp (node_tokens node)
                 in if lcp = length (node_tokens node)
                    then prefix_loop policy (node_children node) (drop lcp remaining) accumulated'
                           (case node_block node of
                              None \<Rightarrow> best
                            | Some block_id \<Rightarrow>
                                if should_reuse policy (length accumulated')
                                then Some \<lparr>pm_tokens = accumulated', pm_len = length accumulated', pm_block = block_id\<rparr>
                                else best)
                    else best)))"
  by auto
termination
  by (relation "measure (\<lambda>(p, n, remaining, a, b). length remaining)") (auto dest: matched_child_pos)

declare prefix_loop.simps [simp del]

definition find_longest_prefix :: "radix_tree \<Rightarrow> token list \<Rightarrow> reuse_policy \<Rightarrow> prefix_match option" where
  "find_longest_prefix t tokens policy =
     (if tokens = [] \<or> policy = Never then None
      else prefix_loop policy (rt_children t) tokens [] None)"

fun remove_from_vec :: "radix_node list \<Rightarrow> token list \<Rightarrow> nat \<Rightarrow> radix_node list \<times> nat \<times> u64 option" where
  "remove_from_vec [] tokens cnt = ([], cnt, None)"
| "remove_from_vec (Node toks blk children # nodes) tokens cnt =
     (let lcp = lcp_len toks tokens
      in if lcp = length toks
         then (let remaining = drop lcp tokens
               in if remaining = []
                  then (case blk of
                          Some block_id \<Rightarrow> (Node toks None children # nodes, cnt - 1, Some block_id)
                        | None \<Rightarrow> (Node toks blk children # nodes, cnt, None))
                  else (let (children', cnt', r) = remove_from_vec children remaining cnt
                        in (Node toks blk children' # nodes, cnt', r)))
         else (let (nodes', cnt', r) = remove_from_vec nodes tokens cnt
               in (Node toks blk children # nodes', cnt', r)))"

definition radix_remove :: "radix_tree \<Rightarrow> token list \<Rightarrow> radix_tree \<times> u64 option" where
  "radix_remove t tokens =
     (if tokens = [] then (t, None)
      else (let (children, cnt, r) = remove_from_vec (rt_children t) tokens (rt_total t)
            in (\<lparr>rt_children = children, rt_total = cnt\<rparr>, r)))"

definition radix_len :: "radix_tree \<Rightarrow> nat" where
  "radix_len t = rt_total t"

definition radix_is_empty :: "radix_tree \<Rightarrow> bool" where
  "radix_is_empty t \<longleftrightarrow> rt_total t = 0"

definition radix_clear :: "radix_tree \<Rightarrow> radix_tree" where
  "radix_clear t = t\<lparr>rt_children := [], rt_total := 0\<rparr>"

section \<open>The map it stores\<close>

text \<open>Tokens of a node are never empty, and siblings begin with different tokens.\<close>

fun nodes_ok :: "radix_node list \<Rightarrow> bool" where
  "nodes_ok [] \<longleftrightarrow> True"
| "nodes_ok (Node toks blk children # nodes) \<longleftrightarrow>
     toks \<noteq> [] \<and> nodes_ok children \<and> (\<forall>n \<in> set nodes. hd (node_tokens n) \<noteq> hd toks) \<and> nodes_ok nodes"

fun radix_map :: "radix_node list \<Rightarrow> token list \<Rightarrow> u64 option" where
  "radix_map [] ts = None"
| "radix_map (Node toks blk children # nodes) ts =
     (if prefix toks ts
      then (if ts = toks then blk else radix_map children (drop (length toks) ts))
      else radix_map nodes ts)"

lemma lcp_le: "lcp_len xs ys \<le> length xs" "lcp_len xs ys \<le> length ys"
  by (induction xs ys rule: lcp_len.induct) auto

lemma take_lcp: "take (lcp_len xs ys) xs = take (lcp_len xs ys) ys"
  by (induction xs ys rule: lcp_len.induct) auto

lemma lcp_full: "lcp_len xs ys = length xs \<longleftrightarrow> prefix xs ys"
  by (induction xs ys rule: lcp_len.induct) auto

lemma lcp_zero: "xs \<noteq> [] \<Longrightarrow> ys \<noteq> [] \<Longrightarrow> lcp_len xs ys = 0 \<longleftrightarrow> hd xs \<noteq> hd ys"
  by (cases xs; cases ys) auto

lemma lcp_parts: "lcp_len xs ys < length xs \<Longrightarrow> lcp_len xs ys < length ys \<Longrightarrow>
    xs ! lcp_len xs ys \<noteq> ys ! lcp_len xs ys"
  by (induction xs ys rule: lcp_len.induct) auto

lemma nodes_ok_tokens: "nodes_ok nodes \<Longrightarrow> n \<in> set nodes \<Longrightarrow> node_tokens n \<noteq> []"
  by (induction nodes rule: nodes_ok.induct) auto

lemma radix_map_head: "nodes_ok nodes \<Longrightarrow> \<forall>n \<in> set nodes. hd (node_tokens n) \<noteq> hd ts \<Longrightarrow> radix_map nodes ts = None"
proof (induction nodes ts rule: radix_map.induct)
  case (2 toks blk children nodes ts)
  then have "\<not> prefix toks ts" by (auto simp: prefix_def)
  with 2 show ?case by auto
qed simp

lemma radix_map_Nil: "nodes_ok nodes \<Longrightarrow> radix_map nodes [] = None"
  by (induction nodes rule: nodes_ok.induct) auto

lemma split_map:
  assumes "p \<noteq> []" and "q \<noteq> []" and "\<forall>n \<in> set nodes. hd (node_tokens n) \<noteq> hd p" and "nodes_ok nodes"
    and "r = [] \<or> hd r \<noteq> hd q"
  shows "radix_map ((if r = [] then Node p (Some block_id) [Node q blk children]
        else Node p None [Node q blk children, Node r (Some block_id) []]) # nodes) =
    (radix_map (Node (p @ q) blk children # nodes))(p @ r \<mapsto> block_id)"
proof
  fix ts
  show "radix_map ((if r = [] then Node p (Some block_id) [Node q blk children]
        else Node p None [Node q blk children, Node r (Some block_id) []]) # nodes) ts =
    ((radix_map (Node (p @ q) blk children # nodes))(p @ r \<mapsto> block_id)) ts"
  proof (cases "prefix p ts")
    case False
    then have "\<not> prefix (p @ q) ts" "ts \<noteq> p @ r" by (auto simp: prefix_def)
    with False show ?thesis by simp
  next
    case True
    then obtain u where u: "ts = p @ u" by (auto simp: prefix_def)
    have other: "radix_map nodes (p @ u) = None"
      using assms(1,3) by (intro radix_map_head [OF assms(4)]) simp
    have "\<not> prefix q r" using assms(2,5) by (cases q; cases r) auto
    with assms(2) other show ?thesis unfolding u by (auto simp: prefix_def)
  qed
qed

lemma insert_run:
  assumes "nodes_ok nodes" and "tokens \<noteq> []" and "insert_into_vec nodes tokens block_id cnt = (nodes', cnt')"
  shows "nodes_ok nodes' \<and> radix_map nodes' = (radix_map nodes)(tokens \<mapsto> block_id) \<and>
    cnt' = (if radix_map nodes tokens = None then cnt + 1 else cnt) \<and>
    hd ` node_tokens ` set nodes' = insert (hd tokens) (hd ` node_tokens ` set nodes)"
  using assms
proof (induction nodes tokens block_id cnt arbitrary: nodes' cnt' rule: insert_into_vec.induct)
  case (1 tokens block_id cnt)
  then show ?case by (auto simp: fun_eq_iff)
next
  case (2 toks blk children nodes tokens block_id cnt)
  let ?lcp = "lcp_len toks tokens"
  have ok: "toks \<noteq> []" "nodes_ok children" "\<forall>n \<in> set nodes. hd (node_tokens n) \<noteq> hd toks" "nodes_ok nodes"
    using 2(3) by simp_all
  consider "?lcp = 0" | "?lcp \<noteq> 0" "?lcp = length toks" | "?lcp \<noteq> 0" "?lcp \<noteq> length toks" by blast
  then show ?case
  proof cases
    case 1
    then have hd: "hd toks \<noteq> hd tokens" using lcp_zero [OF ok(1) 2(4)] by simp
    then have np: "\<not> prefix toks tokens" using ok(1) by (auto simp: prefix_def)
    obtain ns t where i: "insert_into_vec nodes tokens block_id cnt = (ns, t)" by fastforce
    from 2(1) [OF refl 1 ok(4) 2(4) i] have IH: "nodes_ok ns" "radix_map ns = (radix_map nodes)(tokens \<mapsto> block_id)"
      "t = (if radix_map nodes tokens = None then cnt + 1 else cnt)"
      "hd ` node_tokens ` set ns = insert (hd tokens) (hd ` node_tokens ` set nodes)" by auto
    have res: "nodes' = Node toks blk children # ns" "cnt' = t" using 2(5) 1 i by simp_all
    have "hd toks \<notin> hd ` node_tokens ` set ns" using IH(4) ok(3) hd by auto
    then have "\<forall>n \<in> set ns. hd (node_tokens n) \<noteq> hd toks" by (metis imageI)
    then have "nodes_ok nodes'" using ok IH(1) unfolding res by simp
    moreover have "radix_map nodes' = (radix_map (Node toks blk children # nodes))(tokens \<mapsto> block_id)"
      using IH(2) np unfolding res by (auto simp: fun_eq_iff)
    ultimately show ?thesis using IH(3,4) np unfolding res by auto
  next
    case 2: 2
    note full = this
    then have pre: "prefix toks tokens" by (simp add: lcp_full)
    then have hd: "hd tokens = hd toks" using ok(1) by (auto simp: prefix_def)
    show ?thesis
    proof (cases "drop ?lcp tokens = []")
      case True
      then have "tokens = toks" using pre full by (auto simp: prefix_def)
      then show ?thesis using "2.prems" full ok by (auto simp: fun_eq_iff)
    next
      case False
      obtain ch t where i: "insert_into_vec children (drop ?lcp tokens) block_id cnt = (ch, t)" by fastforce
      from "2.IH"(2) [OF refl full refl False ok(2) False i] have IH: "nodes_ok ch"
        "radix_map ch = (radix_map children)(drop ?lcp tokens \<mapsto> block_id)"
        "t = (if radix_map children (drop ?lcp tokens) = None then cnt + 1 else cnt)" by auto
      have res: "nodes' = Node toks blk ch # nodes" "cnt' = t" using "2.prems"(3) full False i by simp_all
      have ne: "tokens \<noteq> toks" using False full by auto
      have "radix_map nodes' = (radix_map (Node toks blk children # nodes))(tokens \<mapsto> block_id)"
        unfolding res using IH(2) pre ne full by (auto simp: fun_eq_iff prefix_def)
      with IH(1,3) ok pre ne full hd show ?thesis unfolding res by auto
    qed
  next
    case 3
    let ?p = "take ?lcp toks" and ?q = "drop ?lcp toks" and ?r = "drop ?lcp tokens"
    have less: "?lcp < length toks" using 3(2) lcp_le(1) [of toks tokens] by simp
    have p: "?p \<noteq> []" "?q \<noteq> []" "?p @ ?q = toks" "hd ?p = hd toks" using 3(1) less ok(1) by (simp_all add: hd_take)
    have p4: "?p @ ?r = tokens" unfolding take_lcp by simp
    have r: "?r = [] \<or> hd ?r \<noteq> hd ?q"
      using lcp_parts [OF less] less by (cases "?lcp < length tokens") (simp_all add: hd_drop_conv_nth)
    have hd: "hd tokens = hd toks" using p p4 by (metis hd_append2)
    have res: "nodes' = (if ?r = [] then Node ?p (Some block_id) [Node ?q blk children]
        else Node ?p None [Node ?q blk children, Node ?r (Some block_id) []]) # nodes" "cnt' = cnt + 1"
      using "2.prems"(3) 3 by (auto simp: Let_def split: if_splits)
    have map: "radix_map nodes' = (radix_map (Node toks blk children # nodes))(tokens \<mapsto> block_id)"
      unfolding res using split_map [OF p(1,2) _ ok(4) r, of block_id blk children] ok(3) p(3,4) p4 by simp
    have "\<not> prefix toks tokens" using 3(2) by (simp add: lcp_full)
    moreover have "radix_map nodes tokens = None" using ok(3) hd by (intro radix_map_head [OF ok(4)]) simp
    ultimately have "radix_map (Node toks blk children # nodes) tokens = None" by simp
    moreover have "nodes_ok nodes'" unfolding res using ok p r by auto
    ultimately show ?thesis using map res(2) hd p(4) unfolding res(1) by auto
  qed
qed

section \<open>Removal\<close>

lemma remove_run:
  assumes "nodes_ok nodes" and "tokens \<noteq> []" and "remove_from_vec nodes tokens cnt = (nodes', cnt', r)"
  shows "nodes_ok nodes' \<and> r = radix_map nodes tokens \<and> radix_map nodes' = (radix_map nodes)(tokens := None) \<and>
    cnt' = (if radix_map nodes tokens = None then cnt else cnt - 1) \<and> map node_tokens nodes' = map node_tokens nodes"
  using assms
proof (induction nodes tokens cnt arbitrary: nodes' cnt' r rule: remove_from_vec.induct)
  case (1 tokens cnt)
  then show ?case by (auto simp: fun_eq_iff)
next
  case (2 toks blk children nodes tokens cnt)
  let ?lcp = "lcp_len toks tokens"
  have ok: "toks \<noteq> []" "nodes_ok children" "\<forall>n \<in> set nodes. hd (node_tokens n) \<noteq> hd toks" "nodes_ok nodes"
    using "2.prems"(1) by simp_all
  show ?case
  proof (cases "?lcp = length toks")
    case False
    then have np: "\<not> prefix toks tokens" by (simp add: lcp_full)
    obtain ns t q where i: "remove_from_vec nodes tokens cnt = (ns, t, q)" by (metis prod_cases3)
    from "2.IH"(2) [OF refl False ok(4) "2.prems"(2) i] have IH: "nodes_ok ns" "q = radix_map nodes tokens"
      "radix_map ns = (radix_map nodes)(tokens := None)" "t = (if radix_map nodes tokens = None then cnt else cnt - 1)"
      "map node_tokens ns = map node_tokens nodes" by auto
    have "\<forall>n \<in> set ns. hd (node_tokens n) \<noteq> hd toks"
    proof
      fix n assume "n \<in> set ns"
      then have "node_tokens n \<in> set (map node_tokens nodes)" unfolding IH(5) [symmetric] by simp
      with ok(3) show "hd (node_tokens n) \<noteq> hd toks" by auto
    qed
    with IH np ok i False "2.prems"(3) show ?thesis by (auto simp: fun_eq_iff)
  next
    case True
    then have pre: "prefix toks tokens" by (simp add: lcp_full)
    show ?thesis
    proof (cases "drop ?lcp tokens = []")
      case end_: True
      then have "tokens = toks" using pre True by (auto simp: prefix_def)
      then show ?thesis using "2.prems" True ok end_ by (auto simp: fun_eq_iff split: option.splits)
    next
      case False
      obtain ch t q where i: "remove_from_vec children (drop ?lcp tokens) cnt = (ch, t, q)" by (metis prod_cases3)
      from "2.IH"(1) [OF refl True refl False ok(2) False i] have IH: "nodes_ok ch"
        "q = radix_map children (drop ?lcp tokens)" "radix_map ch = (radix_map children)(drop ?lcp tokens := None)"
        "t = (if radix_map children (drop ?lcp tokens) = None then cnt else cnt - 1)" by auto
      have ne: "tokens \<noteq> toks" using False True by auto
      have res: "nodes' = Node toks blk ch # nodes" "cnt' = t" "r = q" using "2.prems"(3) True False i by simp_all
      have "radix_map nodes' = (radix_map (Node toks blk children # nodes))(tokens := None)"
        unfolding res using IH(3) pre ne True by (auto simp: fun_eq_iff prefix_def)
      with IH(1,2,4) ok pre ne True show ?thesis unfolding res by auto
    qed
  qed
qed

section \<open>Search\<close>

text \<open>The longest prefix of a sequence that a map stores and the policy accepts.\<close>

definition longest_match :: "(token list \<Rightarrow> u64 option) \<Rightarrow> reuse_policy \<Rightarrow> token list \<Rightarrow> prefix_match option" where
  "longest_match M policy tokens =
     (case filter (\<lambda>n. M (take n tokens) \<noteq> None \<and> should_reuse policy n) (rev [1..<Suc (length tokens)]) of
        [] \<Rightarrow> None
      | n # _ \<Rightarrow> Some \<lparr>pm_tokens = take n tokens, pm_len = n, pm_block = the (M (take n tokens))\<rparr>)"

definition match_of :: "(token list \<Rightarrow> u64 option) \<Rightarrow> token list \<Rightarrow> nat \<Rightarrow> prefix_match" where
  "match_of M tokens n = \<lparr>pm_tokens = take n tokens, pm_len = n, pm_block = the (M (take n tokens))\<rparr>"

text \<open>The best match among the prefixes longer than \<open>d\<close>.\<close>

definition match_from :: "(token list \<Rightarrow> u64 option) \<Rightarrow> reuse_policy \<Rightarrow> token list \<Rightarrow> nat \<Rightarrow> prefix_match option \<Rightarrow> prefix_match option" where
  "match_from M policy tokens d best =
     (case filter (\<lambda>n. M (take n tokens) \<noteq> None \<and> should_reuse policy n) (rev [Suc d..<Suc (length tokens)]) of
        [] \<Rightarrow> best
      | n # _ \<Rightarrow> Some (match_of M tokens n))"

lemma match_from_none:
  assumes "\<forall>n. d < n \<and> n \<le> length tokens \<longrightarrow> M (take n tokens) = None"
  shows "match_from M policy tokens d best = best"
proof -
  have "filter (\<lambda>n. M (take n tokens) \<noteq> None \<and> should_reuse policy n) (rev [Suc d..<Suc (length tokens)]) = []"
    using assms by (auto simp: filter_empty_conv simp del: upt_Suc)
  then show ?thesis by (simp add: match_from_def del: upt_Suc)
qed

lemma match_from_step:
  assumes "d < e" and "e \<le> length tokens" and "\<forall>n. d < n \<and> n < e \<longrightarrow> M (take n tokens) = None"
  shows "match_from M policy tokens d best =
    match_from M policy tokens e (if M (take e tokens) \<noteq> None \<and> should_reuse policy e then Some (match_of M tokens e) else best)"
proof -
  have "[Suc d..<Suc (length tokens)] = [Suc d..<e] @ e # [Suc e..<Suc (length tokens)]"
    using assms(1,2) upt_add_eq_append [of "Suc d" e "Suc (length tokens) - e"] upt_conv_Cons [of e "Suc (length tokens)"]
    by (simp del: upt_Suc)
  moreover have "filter (\<lambda>n. M (take n tokens) \<noteq> None \<and> should_reuse policy n) (rev [Suc d..<e]) = []"
    using assms(3) by (auto simp: filter_empty_conv)
  ultimately show ?thesis unfolding match_from_def
    by (cases "filter (\<lambda>n. M (take n tokens) \<noteq> None \<and> should_reuse policy n) (rev [Suc e..<Suc (length tokens)])")
      (simp_all add: filter_append del: upt_Suc)
qed

lemma matched_child_run:
  assumes "nodes_ok nodes" and "ts \<noteq> []"
  shows "case matched_child nodes ts of
      None \<Rightarrow> (\<forall>n \<in> set nodes. hd (node_tokens n) \<noteq> hd ts)
    | Some (node, lcp) \<Rightarrow> lcp = lcp_len (node_tokens node) ts \<and> 0 < lcp \<and> node_tokens node \<noteq> [] \<and>
        nodes_ok (node_children node) \<and>
        (\<forall>us. us \<noteq> [] \<and> hd us = hd ts \<longrightarrow> radix_map nodes us =
           (if prefix (node_tokens node) us
            then (if us = node_tokens node then node_block node
                  else radix_map (node_children node) (drop (length (node_tokens node)) us))
            else None))"
  using assms(1)
proof (induction nodes rule: nodes_ok.induct)
  case 1
  then show ?case by simp
next
  case (2 toks blk children nodes)
  then have ok: "toks \<noteq> []" "nodes_ok children" "\<forall>n \<in> set nodes. hd (node_tokens n) \<noteq> hd toks" "nodes_ok nodes"
    by simp_all
  show ?case
  proof (cases "lcp_len toks ts = 0")
    case True
    then have hd: "hd toks \<noteq> hd ts" using lcp_zero [OF ok(1) assms(2)] by simp
    then have "\<not> prefix toks us" if "us \<noteq> []" "hd us = hd ts" for us using ok(1) that by (auto simp: prefix_def)
    with True 2 hd show ?thesis by (auto split: option.splits)
  next
    case False
    then have "hd toks = hd ts" using lcp_zero [OF ok(1) assms(2)] by simp
    then have "radix_map nodes us = None" if "us \<noteq> []" "hd us = hd ts" for us
      using ok(3) that by (intro radix_map_head [OF ok(4)]) simp
    with False ok show ?thesis by (simp add: Let_def)
  qed
qed

lemma prefix_loop_run:
  assumes "nodes_ok nodes" and "accumulated = take d tokens" and "remaining = drop d tokens" and "d \<le> length tokens"
    and "\<forall>us. us \<noteq> [] \<longrightarrow> M (take d tokens @ us) = radix_map nodes us"
  shows "prefix_loop policy nodes remaining accumulated best = match_from M policy tokens d best"
  using assms
proof (induction policy nodes remaining accumulated best arbitrary: d rule: prefix_loop.induct)
  case (1 policy nodes remaining accumulated best)
  note nodes = "1.prems"(5)
  have M: "M (take n tokens) = radix_map nodes (take (n - d) remaining)" if "d < n" "n \<le> length tokens" for n
  proof -
    have "take n tokens = take d tokens @ take (n - d) (drop d tokens)"
      using that by (metis take_add le_add_diff_inverse less_imp_le)
    moreover have "take (n - d) (drop d tokens) \<noteq> []" using that by simp
    ultimately show ?thesis using nodes "1.prems"(3) by metis
  qed
  show ?case
  proof (cases "remaining = []")
    case True
    then have "match_from M policy tokens d best = best" using "1.prems"(3,4) by (intro match_from_none) auto
    with True show ?thesis by (subst prefix_loop.simps) simp
  next
    case ne: False
    note child = matched_child_run [OF "1.prems"(1) ne]
    show ?thesis
    proof (cases "matched_child nodes remaining")
      case None
      have "\<forall>n. d < n \<and> n \<le> length tokens \<longrightarrow> M (take n tokens) = None"
      proof (intro allI impI)
        fix n assume n: "d < n \<and> n \<le> length tokens"
        have "radix_map nodes (take (n - d) remaining) = None"
          using child None n ne by (intro radix_map_head [OF "1.prems"(1)]) (simp add: hd_take)
        with M n show "M (take n tokens) = None" by simp
      qed
      from match_from_none [OF this] None ne show ?thesis by (subst prefix_loop.simps) simp
    next
      case (Some r)
      obtain node lcp where r: "r = (node, lcp)" by (cases r)
      let ?toks = "node_tokens node"
      from child Some r have lcp: "lcp = lcp_len ?toks remaining" "0 < lcp" "?toks \<noteq> []" and ok: "nodes_ok (node_children node)"
        and look: "\<And>us. us \<noteq> [] \<Longrightarrow> hd us = hd remaining \<Longrightarrow> radix_map nodes us =
           (if prefix ?toks us then (if us = ?toks then node_block node else radix_map (node_children node) (drop (length ?toks) us))
            else None)" by simp_all
      have look_take: "M (take n tokens) = (if prefix ?toks (take (n - d) remaining)
          then (if take (n - d) remaining = ?toks then node_block node
                else radix_map (node_children node) (drop (length ?toks) (take (n - d) remaining))) else None)"
        if "d < n" "n \<le> length tokens" for n
        using M [OF that] look [of "take (n - d) remaining"] that ne by (simp add: hd_take)
      show ?thesis
      proof (cases "lcp = length ?toks")
        case False
        then have np: "\<not> prefix ?toks remaining" using lcp(1) lcp_full by simp
        have "\<forall>n. d < n \<and> n \<le> length tokens \<longrightarrow> M (take n tokens) = None"
          using look_take np by (metis prefix_order.order_trans take_is_prefix)
        from match_from_none [OF this] False Some r ne show ?thesis by (subst prefix_loop.simps) simp
      next
        case True
        then have pre: "prefix ?toks remaining" using lcp(1) lcp_full by simp
        then obtain rest where rest: "remaining = ?toks @ rest" by (auto simp: prefix_def)
        let ?e = "d + lcp"
        have e: "d < ?e" "?e \<le> length tokens" "take ?e tokens = accumulated @ ?toks" "drop ?e tokens = rest"
        proof -
          have "tokens = accumulated @ ?toks @ rest" using "1.prems"(2,3) rest by (metis append_take_drop_id)
          moreover have "length accumulated = d" using "1.prems"(2,4) by simp
          ultimately show "take ?e tokens = accumulated @ ?toks" "drop ?e tokens = rest" "?e \<le> length tokens"
            using True by auto
          show "d < ?e" using lcp(2) by simp
        qed
        have small: "\<forall>n. d < n \<and> n < ?e \<longrightarrow> M (take n tokens) = None"
        proof (intro allI impI)
          fix n assume n: "d < n \<and> n < ?e"
          have "length (take (n - d) remaining) < length ?toks" using n True by (simp add: min_less_iff_disj) arith
          then have "\<not> prefix ?toks (take (n - d) remaining)" using prefix_length_le leD by blast
          with look_take [of n] n e(2) show "M (take n tokens) = None" by simp
        qed
        have at: "M (take ?e tokens) = node_block node"
          using look_take [OF e(1,2)] rest True by simp
        have inv: "\<forall>us. us \<noteq> [] \<longrightarrow> M (take ?e tokens @ us) = radix_map (node_children node) us"
        proof (intro allI impI)
          fix us :: "token list" assume "us \<noteq> []"
          then have "M (take d tokens @ ?toks @ us) = radix_map nodes (?toks @ us)" using nodes lcp(3) by simp
          also have "\<dots> = radix_map (node_children node) us"
            using look [of "?toks @ us"] \<open>us \<noteq> []\<close> lcp(3) rest by simp
          finally show "M (take ?e tokens @ us) = radix_map (node_children node) us" using e(3) "1.prems"(2) by simp
        qed
        have acc: "accumulated @ take lcp ?toks = take ?e tokens" using e(3) True by simp
        have rem: "drop lcp remaining = drop ?e tokens" using e(4) rest True by simp
        note IH = "1.IH" [OF ne Some r [symmetric] refl True ok acc rem e(2) inv]
        have best: "(case node_block node of None \<Rightarrow> best | Some block_id \<Rightarrow>
              if should_reuse policy (length (accumulated @ take lcp ?toks))
              then Some \<lparr>pm_tokens = accumulated @ take lcp ?toks, pm_len = length (accumulated @ take lcp ?toks), pm_block = block_id\<rparr>
              else best) =
            (if M (take ?e tokens) \<noteq> None \<and> should_reuse policy ?e then Some (match_of M tokens ?e) else best)"
          unfolding acc at using e(2) at by (auto simp: match_of_def split: option.splits)
        have "prefix_loop policy nodes remaining accumulated best = prefix_loop policy (node_children node) (drop lcp remaining)
            (accumulated @ take lcp ?toks) (case node_block node of None \<Rightarrow> best | Some block_id \<Rightarrow>
              if should_reuse policy (length (accumulated @ take lcp ?toks))
              then Some \<lparr>pm_tokens = accumulated @ take lcp ?toks, pm_len = length (accumulated @ take lcp ?toks), pm_block = block_id\<rparr>
              else best)"
          by (subst prefix_loop.simps) (simp only: ne if_False Some r option.case prod.case Let_def if_P [OF True])
        also have "\<dots> = match_from M policy tokens ?e
            (if M (take ?e tokens) \<noteq> None \<and> should_reuse policy ?e then Some (match_of M tokens ?e) else best)"
          unfolding best [symmetric] by (rule IH)
        also have "\<dots> = match_from M policy tokens d best"
          by (rule match_from_step [OF e(1,2) small, symmetric])
        finally show ?thesis .
      qed
    qed
  qed
qed

lemma find_run:
  assumes "nodes_ok (rt_children t)"
  shows "find_longest_prefix t tokens policy = longest_match (radix_map (rt_children t)) policy tokens"
proof -
  have never: "longest_match M Never tokens = None" for M by (simp add: longest_match_def del: upt_Suc)
  have "prefix_loop policy (rt_children t) tokens [] None = match_from (radix_map (rt_children t)) policy tokens 0 None"
    by (rule prefix_loop_run [OF assms]) simp_all
  also have "\<dots> = longest_match (radix_map (rt_children t)) policy tokens"
    unfolding match_from_def longest_match_def match_of_def by (simp del: upt_Suc)
  finally show ?thesis using never by (cases "tokens = []") (auto simp: find_longest_prefix_def longest_match_def)
qed

section \<open>Runs\<close>

datatype radix_op = Insert "token list" u64 | Remove "token list" | Clear

fun radix_step :: "radix_op \<Rightarrow> radix_tree \<Rightarrow> radix_tree" where
  "radix_step (Insert tokens block_id) t = (case radix_insert t tokens block_id of Inl _ \<Rightarrow> t | Inr t' \<Rightarrow> t')"
| "radix_step (Remove tokens) t = fst (radix_remove t tokens)"
| "radix_step Clear t = radix_clear t"

fun map_step :: "radix_op \<Rightarrow> (token list \<Rightarrow> u64 option) \<Rightarrow> token list \<Rightarrow> u64 option" where
  "map_step (Insert tokens block_id) M = (if tokens = [] then M else M(tokens \<mapsto> block_id))"
| "map_step (Remove tokens) M = M(tokens := None)"
| "map_step Clear M = Map.empty"

definition refines :: "radix_tree \<Rightarrow> (token list \<Rightarrow> u64 option) \<Rightarrow> bool" where
  "refines t M \<longleftrightarrow> nodes_ok (rt_children t) \<and> radix_map (rt_children t) = M \<and> finite (dom M) \<and> rt_total t = card (dom M)"

lemma refines_new: "refines radix_new Map.empty"
  by (auto simp: refines_def radix_new_def fun_eq_iff)

lemma refines_step:
  assumes "refines t M"
  shows "refines (radix_step op t) (map_step op M)"
proof (cases op)
  case (Insert tokens block_id)
  show ?thesis
  proof (cases "tokens = []")
    case True
    with Insert assms show ?thesis by (simp add: radix_insert_def)
  next
    case False
    obtain ch n where i: "insert_into_vec (rt_children t) tokens block_id (rt_total t) = (ch, n)" by fastforce
    from insert_run [OF _ False i] assms have run: "nodes_ok ch" "radix_map ch = M(tokens \<mapsto> block_id)"
      "n = (if M tokens = None then rt_total t + 1 else rt_total t)" by (auto simp: refines_def)
    have "n = card (insert tokens (dom M))"
      using run(3) assms by (auto simp: refines_def card_insert_if)
    with run i Insert False assms show ?thesis by (simp add: refines_def radix_insert_def)
  qed
next
  case (Remove tokens)
  show ?thesis
  proof (cases "tokens = []")
    case True
    then have "M tokens = None" using assms radix_map_Nil by (auto simp: refines_def)
    then have "M(tokens := None) = M" by (auto simp: fun_eq_iff)
    with True Remove assms show ?thesis by (simp add: radix_remove_def)
  next
    case False
    obtain ch n r where i: "remove_from_vec (rt_children t) tokens (rt_total t) = (ch, n, r)" by (metis prod_cases3)
    from remove_run [OF _ False i] assms have run: "nodes_ok ch" "radix_map ch = M(tokens := None)"
      "n = (if M tokens = None then rt_total t else rt_total t - 1)" by (auto simp: refines_def)
    have "n = card (dom M - {tokens})"
      using run(3) assms by (auto simp: refines_def card_Diff_singleton_if)
    with run i Remove False assms show ?thesis by (simp add: refines_def radix_remove_def)
  qed
next
  case Clear
  then show ?thesis by (auto simp: refines_def radix_clear_def fun_eq_iff)
qed

lemma refines_run: "refines t M \<Longrightarrow> refines (fold radix_step ops t) (fold map_step ops M)"
  by (induction ops arbitrary: t M) (simp_all add: refines_step)

section \<open>Property\<close>

text \<open>C17: the prefix tree refines a map. After any insertions, removals and clearings the tree has as many entries as the
  map that the same operations make, a removal returns what the map has for the sequence, and a search returns the longest
  non-empty prefix of the query that the map stores and that is long enough for the policy, with its block.\<close>

theorem radix_tree_refines_map:
  "let t = fold radix_step ops radix_new; M = fold map_step ops Map.empty
   in radix_len t = card (dom M) \<and> (radix_is_empty t \<longleftrightarrow> M = Map.empty) \<and>
      snd (radix_remove t tokens) = M tokens \<and>
      find_longest_prefix t tokens policy = longest_match M policy tokens"
proof -
  let ?t = "fold radix_step ops radix_new" and ?M = "fold map_step ops Map.empty"
  have r: "refines ?t ?M" by (rule refines_run [OF refines_new])
  then have ok: "nodes_ok (rt_children ?t)" and map: "radix_map (rt_children ?t) = ?M" and
    cnt: "finite (dom ?M)" "rt_total ?t = card (dom ?M)" by (simp_all add: refines_def)
  have "snd (radix_remove ?t tokens) = ?M tokens"
  proof (cases "tokens = []")
    case True
    then show ?thesis using radix_map_Nil [OF ok] map by (simp add: radix_remove_def)
  next
    case False
    obtain ch n q where i: "remove_from_vec (rt_children ?t) tokens (rt_total ?t) = (ch, n, q)" by (metis prod_cases3)
    from remove_run [OF ok False i] map False i show ?thesis by (simp add: radix_remove_def)
  qed
  then show ?thesis using find_run [OF ok] map cnt
    unfolding Let_def radix_len_def radix_is_empty_def by simp
qed

end
