(* ===== verification/EraseSaga.thy ===== *)
theory EraseSaga
  imports Prelude "HOL-Library.AList"
begin

text \<open>
  The erasure saga, \<open>contextra-erasure/src/saga\<close>: its state machine (\<open>machine.rs\<close>), the driver
  (\<open>driver.rs\<close>), the retention matrix and the orchestration of an erasure (\<open>core.rs\<close>).

  The parts that the saga calls - journal, gate, key vault, storage layers, measurement, report,
  ledger, snapshots, observer - are the traits of \<open>seams.rs\<close>. A call is an effect; what it answers is
  decided by an environment, a function of all calls and answers so far, so that every behaviour of
  the parts is one environment. The log keeps the calls with their answers. The barriers and the clock
  are left out, one operation runs at a time, and the keyed hash of the open requests is a parameter.
\<close>

section \<open>The state machine\<close>

datatype saga_state =
    Requested | Gated | KeyDestroyed | Purging | Verifying | Completed | Restricted | Lifted | Pending | Refused

fun is_terminal :: "saga_state \<Rightarrow> bool" where
  "is_terminal Completed = True"
| "is_terminal Refused = True"
| "is_terminal Lifted = True"
| "is_terminal _ = False"

text \<open>The allowed transitions in the order of the \<open>match\<close>; staying is always allowed.\<close>

definition transitions :: "(saga_state \<times> saga_state) list" where
  "transitions =
     [(Requested, Gated), (Requested, Restricted), (Requested, Refused), (Requested, Pending),
      (Gated, KeyDestroyed), (Gated, Purging), (Gated, Pending),
      (KeyDestroyed, Purging), (KeyDestroyed, Pending),
      (Purging, Verifying), (Purging, Pending), (Verifying, Completed), (Verifying, Pending),
      (Restricted, Lifted), (Restricted, Gated), (Restricted, Pending),
      (Pending, Gated), (Pending, KeyDestroyed), (Pending, Purging), (Pending, Verifying)]"

definition can_transition_to :: "saga_state \<Rightarrow> saga_state \<Rightarrow> bool" where
  "can_transition_to a b \<longleftrightarrow> (a, b) \<in> set transitions \<or> a = b"

type_synonym erasure_id = bytes
type_synonym layer_id = bytes

datatype pending_reason = Io | SlaExceeded | LayerFailed layer_id | WitnessMissing | DiskReserve | Other_reason

datatype erasure_error = Invalid_transition saga_state saga_state | Residue | Corrupt | Slot_missing | Internal | Other_error

record erase_saga =
  es_id :: erasure_id
  es_state :: saga_state
  es_reason :: "pending_reason option"

definition with_id :: "erasure_id \<Rightarrow> erase_saga" where
  "with_id eid = \<lparr>es_id = eid, es_state = Requested, es_reason = None\<rparr>"

definition with_state :: "erasure_id \<Rightarrow> saga_state \<Rightarrow> erase_saga" where
  "with_state eid s = \<lparr>es_id = eid, es_state = s, es_reason = None\<rparr>"

definition transition_with_reason ::
  "erase_saga \<Rightarrow> saga_state \<Rightarrow> pending_reason option \<Rightarrow> erasure_error + erase_saga" where
  "transition_with_reason saga next_state reason =
     (if \<not> can_transition_to (es_state saga) next_state then Inl (Invalid_transition (es_state saga) next_state)
      else Inr (saga\<lparr>es_state := next_state, es_reason := reason\<rparr>))"

definition transition_to :: "erase_saga \<Rightarrow> saga_state \<Rightarrow> erasure_error + erase_saga" where
  "transition_to saga next_state = transition_with_reason saga next_state None"

section \<open>The driver\<close>

datatype saga_event = Advance erasure_id | SetPending erasure_id pending_reason | Complete erasure_id

datatype step_outcome = Advanced saga_state | Is_pending pending_reason | Terminal saga_state

definition reason_or_io :: "pending_reason option \<Rightarrow> pending_reason" where
  "reason_or_io r = (case r of Some x \<Rightarrow> x | None \<Rightarrow> Io)"

fun next_of :: "saga_state \<Rightarrow> saga_state option" where
  "next_of Requested = Some Gated"
| "next_of Gated = Some KeyDestroyed"
| "next_of KeyDestroyed = Some Purging"
| "next_of Purging = Some Verifying"
| "next_of Verifying = Some Completed"
| "next_of _ = None"

definition driver_step :: "erase_saga \<Rightarrow> erase_saga \<times> (erasure_error + step_outcome)" where
  "driver_step saga =
     (if is_terminal (es_state saga) then (saga, Inr (Terminal (es_state saga)))
      else (case next_of (es_state saga) of
              Some s \<Rightarrow> (case transition_to saga s of
                           Inl e \<Rightarrow> (saga, Inl e)
                         | Inr saga' \<Rightarrow> (saga', Inr (Advanced (es_state saga'))))
            | None \<Rightarrow>
                if es_state saga = Pending then (saga, Inr (Is_pending (reason_or_io (es_reason saga))))
                else (saga, Inr (Terminal (es_state saga)))))"

fun process_event :: "erase_saga \<Rightarrow> saga_event \<Rightarrow> erase_saga \<times> (erasure_error + step_outcome)" where
  "process_event saga (Advance eid) = (if eid \<noteq> es_id saga then (saga, Inl Internal) else driver_step saga)"
| "process_event saga (SetPending eid reason) =
     (if eid \<noteq> es_id saga then (saga, Inl Internal)
      else (case transition_with_reason saga Pending (Some reason) of
              Inl e \<Rightarrow> (saga, Inl e) | Inr saga' \<Rightarrow> (saga', Inr (Is_pending reason))))"
| "process_event saga (Complete eid) =
     (if eid \<noteq> es_id saga then (saga, Inl Internal)
      else (case transition_to saga Completed of
              Inl e \<Rightarrow> (saga, Inl e) | Inr saga' \<Rightarrow> (saga', Inr (Terminal Completed))))"

section \<open>Retention\<close>

datatype retention_code =
    NoObligation | ObligationExpired | ObligationActive | LegalClaimsPending
  | DataSubjectRequestedRestriction | OperatorOverride

datatype erase_mode = Erase | Restrict
datatype refusal_reason = RetentionObligation | InvalidParameters
datatype retention_decision = ProceedErase | ProceedRestrict | Refuse refusal_reason

fun evaluate_retention :: "erase_mode \<Rightarrow> retention_code \<Rightarrow> retention_decision" where
  "evaluate_retention Restrict _ = ProceedRestrict"
| "evaluate_retention Erase NoObligation = ProceedErase"
| "evaluate_retention Erase ObligationExpired = ProceedErase"
| "evaluate_retention Erase OperatorOverride = ProceedErase"
| "evaluate_retention Erase ObligationActive = Refuse RetentionObligation"
| "evaluate_retention Erase LegalClaimsPending = Refuse RetentionObligation"
| "evaluate_retention Erase DataSubjectRequestedRestriction = Refuse InvalidParameters"

section \<open>Requests and calls\<close>

datatype erase_target = KeyRange bytes bytes | ExactKeys "bytes list"
datatype timing = Now | Batched

record attestation =
  at_code :: retention_code
  at_by :: bytes

record erase_request =
  er_id :: erasure_id
  er_target :: erase_target
  er_mode :: erase_mode
  er_attestation :: attestation
  er_timing :: timing

datatype phase = Intent_phase | Gate_phase | KeyDestroy_phase | Purge_phase | Verify_phase

datatype erasure_status =
    St saga_state
  | St_pending phase pending_reason
  | St_refused refusal_reason

datatype observed_phase = Obs_gated | Obs_restricted | Obs_completed

type_synonym layer_scope = nat

datatype effect =
    Resolve layer_id erase_target
  | Append_intent erasure_id erase_target attestation
  | Append_state erasure_id saga_state "pending_reason option"
  | Add_gate erasure_id erase_target
  | On_gate layer_id layer_scope
  | Destroy_highest_key erase_target
  | Verify_key_absent erase_target
  | Revoke_covering erase_target nat
  | Purge_layer layer_id layer_scope
  | Witness_layer layer_id erase_target
  | Sign_report erasure_id erase_target attestation "nat list"
  | Record_completed erasure_id erase_target nat
  | Compact_gate erasure_id
  | On_erased erasure_id erase_target observed_phase

type_synonym answer = "erasure_error + nat"
type_synonym call_log = "(effect \<times> answer) list"
type_synonym environment = "call_log \<Rightarrow> effect \<Rightarrow> answer"

record active_entry =
  ae_saga :: erase_saga
  ae_target :: erase_target
  ae_attestation :: attestation
  ae_scopes :: "(layer_id \<times> layer_scope) list"
  ae_gated_seq :: nat

record erasure_core =
  ec_active :: "(erasure_id \<times> active_entry) list"
  ec_open :: "(bytes \<times> erasure_id) list"
  ec_log :: call_log

record erasure_deps =
  ed_layers :: "layer_id list"
  ed_priorities :: "layer_id \<Rightarrow> nat option"
  ed_observer :: bool
  ed_min_free :: nat
  ed_hash :: "bytes \<Rightarrow> bytes"

text \<open>Actions on the core that answer with an error or a result, in the order of their calls.\<close>

type_synonym 'a action = "erasure_core \<Rightarrow> erasure_core \<times> (erasure_error + 'a)"

definition act_return :: "'a \<Rightarrow> 'a action" where
  "act_return x c = (c, Inr x)"

definition act_bind :: "'a action \<Rightarrow> ('a \<Rightarrow> 'b action) \<Rightarrow> 'b action" where
  "act_bind m f c = (case m c of (c', Inl e) \<Rightarrow> (c', Inl e) | (c', Inr x) \<Rightarrow> f x c')"

definition act_res :: "erasure_error + 'a \<Rightarrow> 'a action" where
  "act_res r c = (c, r)"

definition call :: "environment \<Rightarrow> effect \<Rightarrow> nat action" where
  "call env eff c = (let r = env (ec_log c) eff in (c\<lparr>ec_log := ec_log c @ [(eff, r)]\<rparr>, r))"

text \<open>Errors of the observer do not stop the saga.\<close>

definition notify_observer ::
  "environment \<Rightarrow> erasure_deps \<Rightarrow> erasure_id \<Rightarrow> erase_target \<Rightarrow> observed_phase \<Rightarrow> unit action" where
  "notify_observer env deps eid target phase c =
     (if ed_observer deps then (fst (call env (On_erased eid target phase) c), Inr ()) else (c, Inr ()))"

definition set_active :: "erasure_id \<Rightarrow> active_entry \<Rightarrow> unit action" where
  "set_active eid entry c = (c\<lparr>ec_active := AList.update eid entry (ec_active c)\<rparr>, Inr ())"

definition set_open :: "bytes \<Rightarrow> erasure_id \<Rightarrow> unit action" where
  "set_open key eid c = (c\<lparr>ec_open := AList.update key eid (ec_open c)\<rparr>, Inr ())"

definition remove_open :: "bytes \<Rightarrow> unit action" where
  "remove_open key c = (c\<lparr>ec_open := AList.delete key (ec_open c)\<rparr>, Inr ())"

fun canonical_target_bytes :: "erase_target \<Rightarrow> bytes" where
  "canonical_target_bytes (ExactKeys keys) = concat keys"
| "canonical_target_bytes (KeyRange start_key end_key) = start_key @ end_key"

text \<open>\<open>"ctx/erasure-open/v1"\<close> in ASCII codes.\<close>

definition derive_open_key :: "(bytes \<Rightarrow> bytes) \<Rightarrow> erase_target \<Rightarrow> u8 \<Rightarrow> bytes" where
  "derive_open_key hash target mode_byte =
     hash ([99, 116, 120, 47, 101, 114, 97, 115, 117, 114, 101, 45, 111, 112, 101, 110, 47, 118, 49] @
       canonical_target_bytes target @ [mode_byte])"

datatype reserve_check = Sufficient nat | Insufficient nat nat

definition check_disk_reserve :: "nat \<Rightarrow> nat \<Rightarrow> reserve_check" where
  "check_disk_reserve available required =
     (if available \<ge> required then Sufficient available else Insufficient available required)"

definition status_of :: "erase_saga \<Rightarrow> erasure_status" where
  "status_of saga =
     (case es_state saga of
        Pending \<Rightarrow> St_pending Purge_phase (reason_or_io (es_reason saga))
      | Refused \<Rightarrow> St_refused RetentionObligation
      | s \<Rightarrow> St s)"

section \<open>Purge and verification\<close>

text \<open>The saga goes to \<open>Pending\<close>, in the journal and in the map.\<close>

definition suspend ::
  "environment \<Rightarrow> erasure_id \<Rightarrow> (erase_saga \<Rightarrow> active_entry) \<Rightarrow> erase_saga \<Rightarrow> pending_reason \<Rightarrow> unit action" where
  "suspend env eid entry saga reason =
     act_bind (act_res (transition_with_reason saga Pending (Some reason))) (\<lambda>saga'.
     act_bind (call env (Append_state eid Pending (Some reason))) (\<lambda>_.
       set_active eid (entry saga')))"

text \<open>The layer that failed, if one did.\<close>

fun purge_layers ::
  "environment \<Rightarrow> (layer_id \<times> layer_scope) list \<Rightarrow> layer_id list \<Rightarrow> layer_id option action" where
  "purge_layers env scopes [] c = (c, Inr None)"
| "purge_layers env scopes (l # ls) c =
     (case map_of scopes l of
        None \<Rightarrow> purge_layers env scopes ls c
      | Some scope \<Rightarrow>
          (case call env (Purge_layer l scope) c of
             (c', Inl _) \<Rightarrow> (c', Inr (Some l))
           | (c', Inr _) \<Rightarrow> purge_layers env scopes ls c'))"

text \<open>The witnesses, or nothing when residue was found.\<close>

fun witness_layers :: "environment \<Rightarrow> erase_target \<Rightarrow> layer_id list \<Rightarrow> nat list \<Rightarrow> nat list option action" where
  "witness_layers env target [] ws c = (c, Inr (Some ws))"
| "witness_layers env target (l # ls) ws c =
     (case call env (Witness_layer l target) c of
        (c', Inr w) \<Rightarrow> witness_layers env target ls (ws @ [w]) c'
      | (c', Inl e) \<Rightarrow> if e = Residue \<or> e = Corrupt then (c', Inr None) else (c', Inl e))"

definition priority_of :: "erasure_deps \<Rightarrow> layer_id \<Rightarrow> nat" where
  "priority_of deps l = (case ed_priorities deps l of None \<Rightarrow> 5 | Some p \<Rightarrow> p)"

definition entry_of ::
  "erase_target \<Rightarrow> attestation \<Rightarrow> (layer_id \<times> layer_scope) list \<Rightarrow> nat \<Rightarrow> erase_saga \<Rightarrow> active_entry" where
  "entry_of target att scopes gated_seq saga =
     \<lparr>ae_saga = saga, ae_target = target, ae_attestation = att, ae_scopes = scopes, ae_gated_seq = gated_seq\<rparr>"

text \<open>Step 6 after the measurement: report, ledger, \<open>Completed\<close>.\<close>

definition complete_flow ::
  "environment \<Rightarrow> erasure_deps \<Rightarrow> erasure_id \<Rightarrow> erase_target \<Rightarrow> attestation \<Rightarrow> nat \<Rightarrow>
   (layer_id \<times> layer_scope) list \<Rightarrow> bytes \<Rightarrow> erase_saga \<Rightarrow> nat list \<Rightarrow> erasure_status action" where
  "complete_flow env deps eid target att gated_seq scopes open_key saga2 witnesses =
     act_bind (call env (Sign_report eid target att witnesses)) (\<lambda>_.
     act_bind (call env (Record_completed eid target gated_seq)) (\<lambda>_.
     act_bind (act_res (transition_to saga2 Completed)) (\<lambda>saga3.
     act_bind (call env (Append_state eid Completed None)) (\<lambda>_.
     act_bind (call env (Compact_gate eid)) (\<lambda>_.
     act_bind (notify_observer env deps eid target Obs_completed) (\<lambda>_.
     act_bind (set_active eid (entry_of target att scopes gated_seq saga3)) (\<lambda>_.
     act_bind (remove_open open_key) (\<lambda>_.
       act_return (St Completed)))))))))"

text \<open>Step 6: the measurement of every layer.\<close>

definition verify_flow ::
  "environment \<Rightarrow> erasure_deps \<Rightarrow> erasure_id \<Rightarrow> erase_target \<Rightarrow> attestation \<Rightarrow> nat \<Rightarrow>
   (layer_id \<times> layer_scope) list \<Rightarrow> bytes \<Rightarrow> erase_saga \<Rightarrow> erasure_status action" where
  "verify_flow env deps eid target att gated_seq scopes open_key saga1 =
     act_bind (act_res (transition_to saga1 Verifying)) (\<lambda>saga2.
     act_bind (call env (Append_state eid Verifying None)) (\<lambda>_.
     act_bind (witness_layers env target (ed_layers deps) []) (\<lambda>ws.
       case ws of
         None \<Rightarrow> act_bind (suspend env eid (entry_of target att scopes gated_seq) saga2 WitnessMissing)
                    (\<lambda>_. act_return (St_pending Verify_phase WitnessMissing))
       | Some witnesses \<Rightarrow> complete_flow env deps eid target att gated_seq scopes open_key saga2 witnesses)))"

text \<open>Step 5: the layers are purged in the order of their priorities; then step 6.\<close>

definition purge_flow ::
  "environment \<Rightarrow> erasure_deps \<Rightarrow> erasure_id \<Rightarrow> erase_target \<Rightarrow> attestation \<Rightarrow> nat \<Rightarrow>
   (layer_id \<times> layer_scope) list \<Rightarrow> bytes \<Rightarrow> erase_saga \<Rightarrow> erasure_status action" where
  "purge_flow env deps eid target att gated_seq scopes open_key saga0 =
     act_bind (act_res (transition_to saga0 Purging)) (\<lambda>saga1.
     act_bind (call env (Append_state eid Purging None)) (\<lambda>_.
     act_bind (call env (Revoke_covering target gated_seq)) (\<lambda>_.
     act_bind (purge_layers env scopes (sort_key (priority_of deps) (ed_layers deps))) (\<lambda>failed.
       case failed of
         Some l \<Rightarrow> act_bind (suspend env eid (entry_of target att scopes gated_seq) saga1 (LayerFailed l))
                     (\<lambda>_. act_return (St_pending Purge_phase (LayerFailed l)))
       | None \<Rightarrow> verify_flow env deps eid target att gated_seq scopes open_key saga1))))"

definition execute_purge_and_verify ::
  "environment \<Rightarrow> erasure_deps \<Rightarrow> erasure_id \<Rightarrow> erase_target \<Rightarrow> attestation \<Rightarrow> nat \<Rightarrow>
   (layer_id \<times> layer_scope) list \<Rightarrow> bytes \<Rightarrow> erasure_status action" where
  "execute_purge_and_verify env deps eid target att gated_seq scopes open_key c =
     (let saga0 = (case map_of (ec_active c) eid of Some e \<Rightarrow> ae_saga e | None \<Rightarrow> with_id eid)
      in case check_disk_reserve (ed_min_free deps) 0 of
           Insufficient _ _ \<Rightarrow>
             act_bind (suspend env eid (entry_of target att scopes gated_seq) saga0 DiskReserve)
               (\<lambda>_. act_return (St_pending Purge_phase DiskReserve)) c
         | Sufficient _ \<Rightarrow> purge_flow env deps eid target att gated_seq scopes open_key saga0 c)"

section \<open>Erasure\<close>

text \<open>\<open>Inl\<close> the layer whose \<open>resolve\<close> failed.\<close>

fun resolve_layers ::
  "environment \<Rightarrow> erase_target \<Rightarrow> layer_id list \<Rightarrow> (layer_id \<times> layer_scope) list \<Rightarrow>
   (layer_id + (layer_id \<times> layer_scope) list) action" where
  "resolve_layers env target [] scopes c = (c, Inr (Inr scopes))"
| "resolve_layers env target (l # ls) scopes c =
     (case call env (Resolve l target) c of
        (c', Inl _) \<Rightarrow> (c', Inr (Inl l))
      | (c', Inr scope) \<Rightarrow> resolve_layers env target ls (scopes @ [(l, scope)]) c')"

fun gate_layers ::
  "environment \<Rightarrow> (layer_id \<times> layer_scope) list \<Rightarrow> layer_id list \<Rightarrow> layer_id option action" where
  "gate_layers env scopes [] c = (c, Inr None)"
| "gate_layers env scopes (l # ls) c =
     (case map_of scopes l of
        None \<Rightarrow> gate_layers env scopes ls c
      | Some scope \<Rightarrow>
          (case call env (On_gate l scope) c of
             (c', Inl _) \<Rightarrow> (c', Inr (Some l))
           | (c', Inr _) \<Rightarrow> gate_layers env scopes ls c'))"

definition refuse_flow :: "erase_request \<Rightarrow> refusal_reason \<Rightarrow> (erasure_id \<times> erasure_status) action" where
  "refuse_flow req reason =
     act_bind (act_res (transition_to (with_id (er_id req)) Refused)) (\<lambda>saga.
     act_bind (set_active (er_id req) \<lparr>ae_saga = saga, ae_target = er_target req, ae_attestation = er_attestation req,
                                        ae_scopes = [], ae_gated_seq = 0\<rparr>) (\<lambda>_.
       act_return (er_id req, St_refused reason)))"

definition restrict_flow ::
  "environment \<Rightarrow> erasure_deps \<Rightarrow> erase_request \<Rightarrow> bytes \<Rightarrow> (erasure_id \<times> erasure_status) action" where
  "restrict_flow env deps req open_key =
     act_bind (act_res (transition_to (with_id (er_id req)) Restricted)) (\<lambda>saga.
     act_bind (call env (Append_intent (er_id req) (er_target req) (er_attestation req))) (\<lambda>_.
     act_bind (call env (Add_gate (er_id req) (er_target req))) (\<lambda>gated_seq.
     act_bind (call env (Append_state (er_id req) Restricted None)) (\<lambda>_.
     act_bind (notify_observer env deps (er_id req) (er_target req) Obs_restricted) (\<lambda>_.
     act_bind (set_active (er_id req) \<lparr>ae_saga = saga, ae_target = er_target req, ae_attestation = er_attestation req,
                                        ae_scopes = [], ae_gated_seq = gated_seq\<rparr>) (\<lambda>_.
     act_bind (set_open open_key (er_id req)) (\<lambda>_.
       act_return (er_id req, St Restricted))))))))"

text \<open>Step 4: the key is destroyed, and its absence is checked.\<close>

definition destroy_flow ::
  "environment \<Rightarrow> erasure_deps \<Rightarrow> erase_request \<Rightarrow> (layer_id \<times> layer_scope) list \<Rightarrow> nat \<Rightarrow> erase_saga \<Rightarrow>
   (erasure_status + nat \<times> (layer_id \<times> layer_scope) list) action" where
  "destroy_flow env deps req scopes gated_seq saga1 =
     (let eid = er_id req; target = er_target req; entry = entry_of target (er_attestation req) scopes gated_seq
      in act_bind (call env (Destroy_highest_key target)) (\<lambda>_.
         act_bind (call env (Verify_key_absent target)) (\<lambda>absent.
           if absent = 0
           then act_bind (suspend env eid entry saga1 Io) (\<lambda>_. act_return (Inl (St_pending KeyDestroy_phase Io)))
           else act_bind (act_res (transition_to saga1 KeyDestroyed)) (\<lambda>saga2.
                act_bind (call env (Append_state eid KeyDestroyed None)) (\<lambda>_.
                act_bind (notify_observer env deps eid target Obs_gated) (\<lambda>_.
                act_bind (set_active eid (entry saga2)) (\<lambda>_.
                  act_return (Inr (gated_seq, scopes)))))))))"

text \<open>Steps 2 and 3: intent, gate, and the gate told to the layers.\<close>

definition intent_flow ::
  "environment \<Rightarrow> erasure_deps \<Rightarrow> erase_request \<Rightarrow> (layer_id \<times> layer_scope) list \<Rightarrow>
   (erasure_status + nat \<times> (layer_id \<times> layer_scope) list) action" where
  "intent_flow env deps req scopes =
     (let eid = er_id req; target = er_target req; att = er_attestation req
      in act_bind (call env (Append_intent eid target att)) (\<lambda>_.
         act_bind (call env (Add_gate eid target)) (\<lambda>gated_seq.
         act_bind (act_res (transition_to (with_id eid) Gated)) (\<lambda>saga1.
         act_bind (call env (Append_state eid Gated None)) (\<lambda>_.
         act_bind (gate_layers env scopes (ed_layers deps)) (\<lambda>failed.
           case failed of
             Some l \<Rightarrow> act_bind (suspend env eid (entry_of target att scopes gated_seq) saga1 (LayerFailed l))
                         (\<lambda>_. act_return (Inl (St_pending Gate_phase (LayerFailed l))))
           | None \<Rightarrow> destroy_flow env deps req scopes gated_seq saga1))))))"

text \<open>Steps 1 to 4, up to the destroyed key: the sequence number of the gate and the scopes, or the status it stopped with.\<close>

definition gate_flow ::
  "environment \<Rightarrow> erasure_deps \<Rightarrow> erase_request \<Rightarrow>
   (erasure_status + nat \<times> (layer_id \<times> layer_scope) list) action" where
  "gate_flow env deps req =
     (let eid = er_id req; target = er_target req
      in act_bind (resolve_layers env target (ed_layers deps) []) (\<lambda>resolved.
           case resolved of
             Inl l \<Rightarrow> act_bind (suspend env eid (entry_of target (er_attestation req) [] 0) (with_id eid) (LayerFailed l))
                        (\<lambda>_. act_return (Inl (St_pending Intent_phase (LayerFailed l))))
           | Inr scopes \<Rightarrow> intent_flow env deps req scopes))"

definition execute_erase_flow ::
  "environment \<Rightarrow> erasure_deps \<Rightarrow> erase_request \<Rightarrow> bytes \<Rightarrow> (erasure_id \<times> erasure_status) action" where
  "execute_erase_flow env deps req open_key =
     (case evaluate_retention (er_mode req) (at_code (er_attestation req)) of
        Refuse reason \<Rightarrow> refuse_flow req reason
      | ProceedRestrict \<Rightarrow> restrict_flow env deps req open_key
      | ProceedErase \<Rightarrow>
          act_bind (gate_flow env deps req) (\<lambda>r.
            case r of
              Inl status \<Rightarrow> act_return (er_id req, status)
            | Inr (gated_seq, scopes) \<Rightarrow>
                act_bind (set_open open_key (er_id req)) (\<lambda>_.
                  if er_timing req = Now
                  then (\<lambda>c. case execute_purge_and_verify env deps (er_id req) (er_target req) (er_attestation req)
                                   gated_seq scopes open_key c of
                              (c', Inr status) \<Rightarrow> (c', Inr (er_id req, status))
                            | (c', Inl _) \<Rightarrow> (c', Inr (er_id req, St Gated)))
                  else act_return (er_id req, St Gated))))"

definition mode_byte :: "erase_mode \<Rightarrow> u8" where
  "mode_byte mode = (case mode of Erase \<Rightarrow> 1 | Restrict \<Rightarrow> 2)"

text \<open>The receipt: the id of the erasure and its status.\<close>

definition erase :: "environment \<Rightarrow> erasure_deps \<Rightarrow> erase_request \<Rightarrow> (erasure_id \<times> erasure_status) action" where
  "erase env deps req c =
     (let open_key = derive_open_key (ed_hash deps) (er_target req) (mode_byte (er_mode req))
      in case Option.bind (map_of (ec_open c) open_key) (\<lambda>eid. map_option (\<lambda>e. (eid, e)) (map_of (ec_active c) eid)) of
           Some (existing_id, entry) \<Rightarrow> (c, Inr (existing_id, status_of (ae_saga entry)))
         | None \<Rightarrow> execute_erase_flow env deps req open_key c)"

section \<open>Purge windows and recovery\<close>

record window_outcome =
  wo_purged :: nat
  wo_pending :: nat

definition purge_candidates :: "erasure_core \<Rightarrow> (erasure_id \<times> active_entry) list" where
  "purge_candidates c =
     filter (\<lambda>(eid, e). es_state (ae_saga e) = KeyDestroyed \<or> es_state (ae_saga e) = Purging) (ec_active c)"

fun purge_window_loop ::
  "environment \<Rightarrow> erasure_deps \<Rightarrow> (erasure_id \<times> active_entry) list \<Rightarrow> window_outcome \<Rightarrow> erasure_core \<Rightarrow>
   erasure_core \<times> window_outcome" where
  "purge_window_loop env deps [] out c = (c, out)"
| "purge_window_loop env deps ((eid, e) # es) out c =
     (case execute_purge_and_verify env deps eid (ae_target e) (ae_attestation e) (ae_gated_seq e) (ae_scopes e)
             (derive_open_key (ed_hash deps) (ae_target e) 1) c of
        (c', r) \<Rightarrow> purge_window_loop env deps es
          (case r of
             Inr (St Completed) \<Rightarrow> out\<lparr>wo_purged := wo_purged out + 1\<rparr>
           | Inr (St_pending _ _) \<Rightarrow> out\<lparr>wo_pending := wo_pending out + 1\<rparr>
           | _ \<Rightarrow> out) c')"

definition run_purge_window :: "environment \<Rightarrow> erasure_deps \<Rightarrow> erasure_core \<Rightarrow> erasure_core \<times> window_outcome" where
  "run_purge_window env deps c =
     purge_window_loop env deps (purge_candidates c) \<lparr>wo_purged = 0, wo_pending = 0\<rparr> c"

fun recovery_step :: "saga_state \<Rightarrow> saga_state option" where
  "recovery_step Requested = Some Gated"
| "recovery_step Gated = Some KeyDestroyed"
| "recovery_step KeyDestroyed = Some Purging"
| "recovery_step Purging = Some Verifying"
| "recovery_step Verifying = Some Completed"
| "recovery_step Pending = Some Purging"
| "recovery_step _ = None"

text \<open>\<open>open_sagas\<close> is what the journal has reconstructed; \<open>"recovery"\<close> in ASCII codes.\<close>

fun recover_and_resume :: "environment \<Rightarrow> erase_saga list \<Rightarrow> erasure_id list \<Rightarrow> erasure_id list action" where
  "recover_and_resume env [] resumed c = (c, Inr resumed)"
| "recover_and_resume env (saga # sagas) resumed c =
     (case recovery_step (es_state saga) of
        None \<Rightarrow> recover_and_resume env sagas resumed c
      | Some next_step \<Rightarrow>
          act_bind (act_res (transition_to saga next_step)) (\<lambda>saga'.
          act_bind (call env (Append_state (es_id saga) next_step None)) (\<lambda>_.
          act_bind (set_active (es_id saga)
            \<lparr>ae_saga = saga', ae_target = ExactKeys [es_id saga],
             ae_attestation = \<lparr>at_code = NoObligation, at_by = [114, 101, 99, 111, 118, 101, 114, 121]\<rparr>,
             ae_scopes = [], ae_gated_seq = 0\<rparr>) (\<lambda>_.
            recover_and_resume env sagas (resumed @ [es_id saga])))) c)"

definition erasure_status_query :: "erasure_core \<Rightarrow> erasure_id \<Rightarrow> erasure_error + saga_state \<times> erasure_status \<times> nat" where
  "erasure_status_query c eid =
     (case map_of (ec_active c) eid of
        Some e \<Rightarrow> Inr (es_state (ae_saga e), status_of (ae_saga e), ae_gated_seq e)
      | None \<Rightarrow> Inl Slot_missing)"

end
