(* ===== verification/EraseSagaCorrect.thy ===== *)
theory EraseSagaCorrect
  imports EraseSaga "HOL-Library.Sublist"
begin

text \<open>
  What an erasure that is reported as gated or completed has done: the calls of the specified steps, in
  their order, each answered with success. And three ways around these steps: the recovery after a
  restart, two targets with one open key, and the check of the disk reserve.
\<close>

section \<open>What was called\<close>

definition answered :: "effect \<times> answer \<Rightarrow> bool" where
  "answered p \<longleftrightarrow>
     (case fst p of
        On_erased _ _ _ \<Rightarrow> True
      | Verify_key_absent _ \<Rightarrow> (\<exists>x. snd p = Inr x \<and> x \<noteq> 0)
      | _ \<Rightarrow> (\<exists>x. snd p = Inr x))"

text \<open>Between two states exactly these calls were made, and they succeeded.\<close>

definition performed :: "erasure_core \<Rightarrow> effect list \<Rightarrow> erasure_core \<Rightarrow> bool" where
  "performed c effs c' \<longleftrightarrow>
     (\<exists>new. ec_log c' = ec_log c @ new \<and> map fst new = effs \<and> (\<forall>p \<in> set new. answered p))"

lemma performed_refl: "ec_log c' = ec_log c \<Longrightarrow> performed c [] c'"
  by (simp add: performed_def)

lemma performed_trans: "performed c a c1 \<Longrightarrow> performed c1 b c' \<Longrightarrow> performed c (a @ b) c'"
  unfolding performed_def by (elim exE) (rule_tac x = "new @ newa" in exI, auto)

lemma act_bind_Inr: "act_bind m f c = (c', Inr y) \<longleftrightarrow> (\<exists>c1 x. m c = (c1, Inr x) \<and> f x c1 = (c', Inr y))"
  by (auto simp: act_bind_def split: prod.splits sum.splits)

lemma act_return_Inr: "act_return x c = (c', Inr y) \<longleftrightarrow> c' = c \<and> y = x"
  by (auto simp: act_return_def)

lemma act_res_Inr: "act_res r c = (c', Inr y) \<longleftrightarrow> c' = c \<and> r = Inr y"
  by (auto simp: act_res_def)

lemmas act_Inr = act_bind_Inr act_return_Inr act_res_Inr

lemma call_performed:
  assumes "call env eff c = (c', Inr x)" and "\<forall>t. eff = Verify_key_absent t \<longrightarrow> x \<noteq> 0"
  shows "performed c [eff] c'"
proof -
  have "env (ec_log c) eff = Inr x" "ec_log c' = ec_log c @ [(eff, Inr x)]"
    using assms(1) by (auto simp: call_def Let_def)
  moreover have "answered (eff, Inr x)" using assms(2) by (cases eff) (auto simp: answered_def)
  ultimately show ?thesis by (simp add: performed_def)
qed

lemma call_core: "call env eff c = (c', r) \<Longrightarrow> ec_active c' = ec_active c \<and> ec_open c' = ec_open c"
  by (auto simp: call_def Let_def)

lemma notify_performed:
  assumes "notify_observer env deps eid target phase c = (c', r)"
  shows "performed c (if ed_observer deps then [On_erased eid target phase] else []) c'"
proof (cases "ed_observer deps")
  case True
  then have "c' = fst (call env (On_erased eid target phase) c)" using assms by (simp add: notify_observer_def)
  with True show ?thesis by (simp add: performed_def call_def Let_def answered_def)
next
  case False
  with assms show ?thesis by (simp add: notify_observer_def performed_def)
qed

lemma set_performed:
  "set_active eid entry c = (c', r) \<Longrightarrow> performed c [] c'"
  "set_open key eid c = (c', r) \<Longrightarrow> performed c [] c'"
  "remove_open key c = (c', r) \<Longrightarrow> performed c [] c'"
  by (auto simp: set_active_def set_open_def remove_open_def intro!: performed_refl)

lemma purge_layers_performed:
  "purge_layers env scopes ls c = (c', Inr None) \<Longrightarrow> \<forall>l \<in> set ls. map_of scopes l \<noteq> None \<Longrightarrow>
   performed c (map (\<lambda>l. Purge_layer l (the (map_of scopes l))) ls) c'"
proof (induction ls arbitrary: c)
  case Nil
  then show ?case by (simp add: performed_refl)
next
  case (Cons l ls)
  then obtain scope where scope: "map_of scopes l = Some scope" by auto
  with Cons.prems(1) obtain c1 x where c1: "call env (Purge_layer l scope) c = (c1, Inr x)"
    "purge_layers env scopes ls c1 = (c', Inr None)" by (auto split: prod.splits sum.splits)
  from performed_trans [OF call_performed [OF c1(1)] Cons.IH [OF c1(2)]] Cons.prems(2) scope show ?case by simp
qed

lemma gate_layers_performed:
  "gate_layers env scopes ls c = (c', Inr None) \<Longrightarrow> \<forall>l \<in> set ls. map_of scopes l \<noteq> None \<Longrightarrow>
   performed c (map (\<lambda>l. On_gate l (the (map_of scopes l))) ls) c'"
proof (induction ls arbitrary: c)
  case Nil
  then show ?case by (simp add: performed_refl)
next
  case (Cons l ls)
  then obtain scope where scope: "map_of scopes l = Some scope" by auto
  with Cons.prems(1) obtain c1 x where c1: "call env (On_gate l scope) c = (c1, Inr x)"
    "gate_layers env scopes ls c1 = (c', Inr None)" by (auto split: prod.splits sum.splits)
  from performed_trans [OF call_performed [OF c1(1)] Cons.IH [OF c1(2)]] Cons.prems(2) scope show ?case by simp
qed

lemma witness_layers_performed:
  "witness_layers env target ls ws c = (c', Inr (Some ws')) \<Longrightarrow>
   performed c (map (\<lambda>l. Witness_layer l target) ls) c'"
proof (induction ls arbitrary: ws c)
  case Nil
  then show ?case by (simp add: performed_refl)
next
  case (Cons l ls)
  then obtain c1 w where c1: "call env (Witness_layer l target) c = (c1, Inr w)"
    "witness_layers env target ls (ws @ [w]) c1 = (c', Inr (Some ws'))" by (auto split: prod.splits sum.splits if_splits)
  from performed_trans [OF call_performed [OF c1(1)] Cons.IH [OF c1(2)]] show ?case by simp
qed

lemma resolve_layers_performed:
  "resolve_layers env target ls scopes c = (c', Inr (Inr scopes')) \<Longrightarrow>
   performed c (map (\<lambda>l. Resolve l target) ls) c' \<and> map fst scopes' = map fst scopes @ ls"
proof (induction ls arbitrary: scopes c)
  case Nil
  then show ?case by (auto intro: performed_refl)
next
  case (Cons l ls)
  then obtain c1 s where c1: "call env (Resolve l target) c = (c1, Inr s)"
    "resolve_layers env target ls (scopes @ [(l, s)]) c1 = (c', Inr (Inr scopes'))" by (auto split: prod.splits sum.splits)
  from Cons.IH [OF c1(2)] performed_trans [OF call_performed [OF c1(1)], of "map (\<lambda>l. Resolve l target) ls" c']
  show ?case by simp
qed

section \<open>The steps\<close>

definition observed :: "erasure_deps \<Rightarrow> erasure_id \<Rightarrow> erase_target \<Rightarrow> observed_phase \<Rightarrow> effect list" where
  "observed deps eid target phase = (if ed_observer deps then [On_erased eid target phase] else [])"

text \<open>Steps 1 to 4: intent, gate, destroyed key.\<close>

definition gate_script ::
  "erasure_deps \<Rightarrow> erase_request \<Rightarrow> (layer_id \<times> layer_scope) list \<Rightarrow> effect list" where
  "gate_script deps req scopes =
     map (\<lambda>l. Resolve l (er_target req)) (ed_layers deps) @
     [Append_intent (er_id req) (er_target req) (er_attestation req), Add_gate (er_id req) (er_target req),
      Append_state (er_id req) Gated None] @
     map (\<lambda>l. On_gate l (the (map_of scopes l))) (ed_layers deps) @
     [Destroy_highest_key (er_target req), Verify_key_absent (er_target req), Append_state (er_id req) KeyDestroyed None] @
     observed deps (er_id req) (er_target req) Obs_gated"

text \<open>Steps 5 and 6: purge in the order of the priorities, measurement, report, ledger.\<close>

definition purge_script ::
  "erasure_deps \<Rightarrow> erase_request \<Rightarrow> nat \<Rightarrow> (layer_id \<times> layer_scope) list \<Rightarrow> nat list \<Rightarrow> effect list" where
  "purge_script deps req seq scopes ws =
     [Append_state (er_id req) Purging None, Revoke_covering (er_target req) seq] @
     map (\<lambda>l. Purge_layer l (the (map_of scopes l))) (sort_key (priority_of deps) (ed_layers deps)) @
     [Append_state (er_id req) Verifying None] @
     map (\<lambda>l. Witness_layer l (er_target req)) (ed_layers deps) @
     [Sign_report (er_id req) (er_target req) (er_attestation req) ws, Record_completed (er_id req) (er_target req) seq,
      Append_state (er_id req) Completed None, Compact_gate (er_id req)] @
     observed deps (er_id req) (er_target req) Obs_completed"

lemma scopes_cover: "map fst scopes = ls \<Longrightarrow> \<forall>l \<in> set ls. map_of scopes l \<noteq> None"
  by (auto simp: map_of_eq_None_iff)

lemma destroy_flow_performed:
  assumes "destroy_flow env deps req scopes seq saga1 c = (c', Inr (Inr (seq', scopes')))"
    and "es_state saga1 = Gated" "es_id saga1 = er_id req"
  shows "performed c ([Destroy_highest_key (er_target req), Verify_key_absent (er_target req),
      Append_state (er_id req) KeyDestroyed None] @ observed deps (er_id req) (er_target req) Obs_gated) c'"
    and "seq' = seq" "scopes' = scopes"
    and "map_of (ec_active c') (er_id req) = Some (entry_of (er_target req) (er_attestation req) scopes seq
      \<lparr>es_id = er_id req, es_state = KeyDestroyed, es_reason = None\<rparr>)"
proof -
  let ?id = "er_id req" and ?t = "er_target req"
  obtain c1 c2 c3 c4 x1 x2 x3 saga2 u where
    e: "call env (Destroy_highest_key ?t) c = (c1, Inr x1)" "call env (Verify_key_absent ?t) c1 = (c2, Inr x2)" "x2 \<noteq> 0"
      "transition_to saga1 KeyDestroyed = Inr saga2" "call env (Append_state ?id KeyDestroyed None) c2 = (c3, Inr x3)"
      "notify_observer env deps ?id ?t Obs_gated c3 = (c4, u)"
      "set_active ?id (entry_of ?t (er_attestation req) scopes seq saga2) c4 = (c', Inr ())"
    and same: "seq' = seq" "scopes' = scopes"
    using assms(1) unfolding destroy_flow_def Let_def
    by (auto simp: act_Inr split: if_splits)
  show "seq' = seq" "scopes' = scopes" by (rule same)+
  have "performed c [Destroy_highest_key ?t, Verify_key_absent ?t, Append_state ?id KeyDestroyed None] c3"
    using performed_trans [OF call_performed [OF e(1)] performed_trans [OF call_performed [OF e(2)] call_performed [OF e(5)]]] e(3)
    by simp
  moreover have "performed c3 (observed deps ?id ?t Obs_gated) c'"
    using performed_trans [OF notify_performed [OF e(6)] set_performed(1) [OF e(7)]] by (simp add: observed_def)
  ultimately show "performed c ([Destroy_highest_key ?t, Verify_key_absent ?t, Append_state ?id KeyDestroyed None] @
      observed deps ?id ?t Obs_gated) c'" by (rule performed_trans)
  have "saga2 = \<lparr>es_id = ?id, es_state = KeyDestroyed, es_reason = None\<rparr>"
    using e(4) assms(2,3) by (cases saga1) (auto simp: transition_to_def transition_with_reason_def split: if_splits)
  with e(7) show "map_of (ec_active c') ?id = Some (entry_of ?t (er_attestation req) scopes seq
      \<lparr>es_id = ?id, es_state = KeyDestroyed, es_reason = None\<rparr>)"
    by (auto simp: set_active_def update_conv')
qed

lemma intent_flow_performed:
  assumes "intent_flow env deps req scopes c = (c', Inr (Inr (seq', scopes')))" and "map fst scopes = ed_layers deps"
  shows "performed c ([Append_intent (er_id req) (er_target req) (er_attestation req), Add_gate (er_id req) (er_target req),
        Append_state (er_id req) Gated None] @
      map (\<lambda>l. On_gate l (the (map_of scopes l))) (ed_layers deps) @
      [Destroy_highest_key (er_target req), Verify_key_absent (er_target req),
       Append_state (er_id req) KeyDestroyed None] @ observed deps (er_id req) (er_target req) Obs_gated) c'"
    and "scopes' = scopes"
    and "map_of (ec_active c') (er_id req) = Some (entry_of (er_target req) (er_attestation req) scopes seq'
      \<lparr>es_id = er_id req, es_state = KeyDestroyed, es_reason = None\<rparr>)"
proof -
  let ?id = "er_id req" and ?t = "er_target req"
  obtain c1 c2 c3 c4 x1 x3 seq saga1 where
    e: "call env (Append_intent ?id ?t (er_attestation req)) c = (c1, Inr x1)" "call env (Add_gate ?id ?t) c1 = (c2, Inr seq)"
      "transition_to (with_id ?id) Gated = Inr saga1" "call env (Append_state ?id Gated None) c2 = (c3, Inr x3)"
      "gate_layers env scopes (ed_layers deps) c3 = (c4, Inr None)"
      "destroy_flow env deps req scopes seq saga1 c4 = (c', Inr (Inr (seq', scopes')))"
    using assms(1) unfolding intent_flow_def Let_def by (auto simp: act_Inr split: option.splits)
  have saga1: "es_state saga1 = Gated" "es_id saga1 = ?id"
    using e(3) by (auto simp: transition_to_def transition_with_reason_def with_id_def split: if_splits)
  note d = destroy_flow_performed [OF e(6) saga1]
  have "performed c [Append_intent ?id ?t (er_attestation req), Add_gate ?id ?t, Append_state ?id Gated None] c3"
    using performed_trans [OF call_performed [OF e(1)] performed_trans [OF call_performed [OF e(2)] call_performed [OF e(4)]]]
    by simp
  from performed_trans [OF this performed_trans [OF gate_layers_performed [OF e(5) scopes_cover [OF assms(2)]] d(1)]]
  show "performed c ([Append_intent ?id ?t (er_attestation req), Add_gate ?id ?t, Append_state ?id Gated None] @
      map (\<lambda>l. On_gate l (the (map_of scopes l))) (ed_layers deps) @
      [Destroy_highest_key ?t, Verify_key_absent ?t, Append_state ?id KeyDestroyed None] @
      observed deps ?id ?t Obs_gated) c'" by simp
  show "scopes' = scopes" by (rule d(3))
  show "map_of (ec_active c') ?id = Some (entry_of ?t (er_attestation req) scopes seq'
      \<lparr>es_id = ?id, es_state = KeyDestroyed, es_reason = None\<rparr>)" using d(2,4) by simp
qed

lemma gate_flow_performed:
  assumes "gate_flow env deps req c = (c', Inr (Inr (seq, scopes)))"
  shows "performed c (gate_script deps req scopes) c'" and "map fst scopes = ed_layers deps"
    and "map_of (ec_active c') (er_id req) = Some (entry_of (er_target req) (er_attestation req) scopes seq
      \<lparr>es_id = er_id req, es_state = KeyDestroyed, es_reason = None\<rparr>)"
proof -
  obtain c1 scopes1 where
    resolve: "resolve_layers env (er_target req) (ed_layers deps) [] c = (c1, Inr (Inr scopes1))"
    and intent: "intent_flow env deps req scopes1 c1 = (c', Inr (Inr (seq, scopes)))"
    using assms unfolding gate_flow_def Let_def
    by (clarsimp simp: act_bind_Inr) (case_tac x; auto simp: act_Inr)
  from resolve_layers_performed [OF resolve]
  have r: "performed c (map (\<lambda>l. Resolve l (er_target req)) (ed_layers deps)) c1" "map fst scopes1 = ed_layers deps" by simp_all
  note i = intent_flow_performed [OF intent r(2)]
  from performed_trans [OF r(1) i(1)] i(2) show "performed c (gate_script deps req scopes) c'"
    by (simp add: gate_script_def)
  from i(2) r(2) show "map fst scopes = ed_layers deps" by simp
  from i(2,3) show "map_of (ec_active c') (er_id req) = Some (entry_of (er_target req) (er_attestation req) scopes seq
      \<lparr>es_id = er_id req, es_state = KeyDestroyed, es_reason = None\<rparr>)" by simp
qed

lemma complete_flow_performed:
  assumes "complete_flow env deps eid target att seq scopes key saga2 ws c = (c', Inr status)" and "es_state saga2 = Verifying"
  shows "performed c ([Sign_report eid target att ws, Record_completed eid target seq, Append_state eid Completed None,
      Compact_gate eid] @ observed deps eid target Obs_completed) c'" and "status = St Completed"
proof -
  obtain c1 c2 c3 c4 c5 c6 x1 x2 x3 x4 u saga3 where
    e: "call env (Sign_report eid target att ws) c = (c1, Inr x1)" "call env (Record_completed eid target seq) c1 = (c2, Inr x2)"
      "call env (Append_state eid Completed None) c2 = (c3, Inr x3)" "call env (Compact_gate eid) c3 = (c4, Inr x4)"
      "notify_observer env deps eid target Obs_completed c4 = (c5, u)"
      "set_active eid (entry_of target att scopes seq saga3) c5 = (c6, Inr ())" "remove_open key c6 = (c', Inr ())"
    and st: "status = St Completed"
    using assms(1) unfolding complete_flow_def by (auto simp: act_Inr)
  show "status = St Completed" by (rule st)
  have "performed c [Sign_report eid target att ws, Record_completed eid target seq, Append_state eid Completed None,
      Compact_gate eid] c4"
    using performed_trans [OF performed_trans [OF call_performed [OF e(1)] call_performed [OF e(2)]]
        performed_trans [OF call_performed [OF e(3)] call_performed [OF e(4)]]] by simp
  moreover have "performed c4 (observed deps eid target Obs_completed) c'"
    using performed_trans [OF notify_performed [OF e(5)] performed_trans [OF set_performed(1) [OF e(6)] set_performed(3) [OF e(7)]]]
    by (simp add: observed_def)
  ultimately show "performed c ([Sign_report eid target att ws, Record_completed eid target seq,
      Append_state eid Completed None, Compact_gate eid] @ observed deps eid target Obs_completed) c'"
    by (rule performed_trans)
qed

text \<open>Residue ends in \<open>Pending\<close>: the measurements of a completed flow all succeeded.\<close>

lemma verify_flow_performed:
  assumes "verify_flow env deps eid target att seq scopes key saga1 c = (c', Inr (St Completed))" and "es_state saga1 = Purging"
  shows "\<exists>ws. performed c ([Append_state eid Verifying None] @ map (\<lambda>l. Witness_layer l target) (ed_layers deps) @
      [Sign_report eid target att ws, Record_completed eid target seq, Append_state eid Completed None,
       Compact_gate eid] @ observed deps eid target Obs_completed) c'"
proof -
  obtain c1 c2 x1 ws saga2 where
    e: "transition_to saga1 Verifying = Inr saga2" "call env (Append_state eid Verifying None) c = (c1, Inr x1)"
      "witness_layers env target (ed_layers deps) [] c1 = (c2, Inr (Some ws))"
      "complete_flow env deps eid target att seq scopes key saga2 ws c2 = (c', Inr (St Completed))"
    using assms(1) unfolding verify_flow_def by (auto simp: act_Inr split: option.split_asm)
  have saga2: "es_state saga2 = Verifying"
    using e(1) by (auto simp: transition_to_def transition_with_reason_def split: if_splits)
  from performed_trans [OF performed_trans [OF call_performed [OF e(2)] witness_layers_performed [OF e(3)]]
      complete_flow_performed(1) [OF e(4) saga2]]
  show ?thesis by auto
qed

lemma purge_and_verify_performed:
  assumes "execute_purge_and_verify env deps eid target att seq scopes key c = (c', Inr (St Completed))"
    and "map_of (ec_active c) eid = Some e" and "map fst scopes = ed_layers deps"
  shows "\<exists>ws. performed c ([Append_state eid Purging None, Revoke_covering target seq] @
      map (\<lambda>l. Purge_layer l (the (map_of scopes l))) (sort_key (priority_of deps) (ed_layers deps)) @
      [Append_state eid Verifying None] @ map (\<lambda>l. Witness_layer l target) (ed_layers deps) @
      [Sign_report eid target att ws, Record_completed eid target seq, Append_state eid Completed None,
       Compact_gate eid] @ observed deps eid target Obs_completed) c'"
proof -
  obtain c1 c2 c3 x1 x2 saga1 where
    e: "transition_to (ae_saga e) Purging = Inr saga1" "call env (Append_state eid Purging None) c = (c1, Inr x1)"
      "call env (Revoke_covering target seq) c1 = (c2, Inr x2)"
      "purge_layers env scopes (sort_key (priority_of deps) (ed_layers deps)) c2 = (c3, Inr None)"
      "verify_flow env deps eid target att seq scopes key saga1 c3 = (c', Inr (St Completed))"
    using assms(1,2) unfolding execute_purge_and_verify_def purge_flow_def Let_def check_disk_reserve_def
    by (auto simp: act_Inr split: option.split_asm)
  have saga1: "es_state saga1 = Purging"
    using e(1) by (auto simp: transition_to_def transition_with_reason_def split: if_splits)
  have cover: "\<forall>l \<in> set (sort_key (priority_of deps) (ed_layers deps)). map_of scopes l \<noteq> None"
    using scopes_cover [OF assms(3)] by simp
  obtain ws where "performed c3 ([Append_state eid Verifying None] @ map (\<lambda>l. Witness_layer l target) (ed_layers deps) @
      [Sign_report eid target att ws, Record_completed eid target seq, Append_state eid Completed None,
       Compact_gate eid] @ observed deps eid target Obs_completed) c'"
    using verify_flow_performed [OF e(5) saga1] by blast
  from performed_trans [OF performed_trans [OF performed_trans [OF call_performed [OF e(2)] call_performed [OF e(3)]]
        purge_layers_performed [OF e(4) cover]] this]
  show ?thesis by auto
qed

section \<open>The log only grows, by calls of one kind\<close>

definition only_calls :: "(effect \<Rightarrow> bool) \<Rightarrow> 'a action \<Rightarrow> bool" where
  "only_calls P m \<longleftrightarrow> (\<forall>c. \<exists>new. ec_log (fst (m c)) = ec_log c @ new \<and> (\<forall>p \<in> set new. P (fst p)))"

named_theorems calls

lemma only_callsD:
  assumes "only_calls P m" and "m c = (c', r)"
  obtains new where "ec_log c' = ec_log c @ new" "\<forall>p \<in> set new. P (fst p)"
  using assms unfolding only_calls_def by (metis fst_conv)

lemma log_prefix: "only_calls P m \<Longrightarrow> m c = (c', r) \<Longrightarrow> prefix (ec_log c) (ec_log c')"
  by (erule (1) only_callsD) simp

lemma calls_step:
  "ec_log c1 = ec_log c @ new \<Longrightarrow> \<forall>p \<in> set new. P (fst p) \<Longrightarrow>
   \<exists>new. ec_log c' = ec_log c1 @ new \<and> (\<forall>p \<in> set new. P (fst p)) \<Longrightarrow>
   \<exists>new. ec_log c' = ec_log c @ new \<and> (\<forall>p \<in> set new. P (fst p))"
  by (elim exE conjE) (rule_tac x = "new @ newa" in exI, auto)

lemma calls_bind [calls]:
  assumes "only_calls P m" and "\<And>x. only_calls P (f x)"
  shows "only_calls P (act_bind m f)"
  unfolding only_calls_def
proof
  fix c
  obtain c1 r where m: "m c = (c1, r)" by (cases "m c")
  from only_callsD [OF assms(1) m] obtain new where new: "ec_log c1 = ec_log c @ new" "\<forall>p \<in> set new. P (fst p)" by blast
  show "\<exists>new. ec_log (fst (act_bind m f c)) = ec_log c @ new \<and> (\<forall>p \<in> set new. P (fst p))"
  proof (cases r)
    case (Inl e)
    with m new show ?thesis by (simp add: act_bind_def)
  next
    case (Inr x)
    then have "act_bind m f c = f x c1" using m by (simp add: act_bind_def)
    with calls_step [OF new] assms(2) [of x] show ?thesis unfolding only_calls_def by metis
  qed
qed

lemma calls_call [calls]: "P eff \<Longrightarrow> only_calls P (call env eff)"
  by (simp add: only_calls_def call_def Let_def)

lemma calls_pure [calls]:
  "only_calls P (act_return x)" "only_calls P (act_res r)" "only_calls P (set_active eid entry)"
  "only_calls P (set_open key eid)" "only_calls P (remove_open key)"
  by (simp_all add: only_calls_def act_return_def act_res_def set_active_def set_open_def remove_open_def)

lemma calls_notify [calls]: "P (On_erased eid target phase) \<Longrightarrow> only_calls P (notify_observer env deps eid target phase)"
  by (simp add: only_calls_def notify_observer_def call_def Let_def)

lemma calls_suspend [calls]: "\<forall>s r. P (Append_state eid s r) \<Longrightarrow> only_calls P (suspend env eid entry saga reason)"
  unfolding suspend_def by (intro calls) simp

lemma call_log: "call env eff c = (c', r) \<Longrightarrow> ec_log c' = ec_log c @ [(eff, r)]"
  by (auto simp: call_def Let_def)

lemma calls_purge_layers [calls]:
  assumes "\<And>l s. map_of scopes l = Some s \<Longrightarrow> P (Purge_layer l s)"
  shows "only_calls P (purge_layers env scopes ls)"
  unfolding only_calls_def
proof
  show "\<exists>new. ec_log (fst (purge_layers env scopes ls c)) = ec_log c @ new \<and> (\<forall>p \<in> set new. P (fst p))" for c
  proof (induction ls arbitrary: c)
    case (Cons l ls)
    show ?case
    proof (cases "map_of scopes l")
      case (Some scope)
      obtain c1 r where c1: "call env (Purge_layer l scope) c = (c1, r)" by (cases "call env (Purge_layer l scope) c")
      have P: "\<forall>p \<in> set [(Purge_layer l scope, r)]. P (fst p)" using assms [OF Some] by simp
      show ?thesis using Some c1 calls_step [OF call_log [OF c1] P Cons.IH] call_log [OF c1] P
        by (cases r) auto
    qed (simp add: Cons.IH)
  qed simp
qed

lemma calls_witness_layers [calls]:
  assumes "\<And>l. P (Witness_layer l target)"
  shows "only_calls P (witness_layers env target ls ws)"
  unfolding only_calls_def
proof
  show "\<exists>new. ec_log (fst (witness_layers env target ls ws c)) = ec_log c @ new \<and> (\<forall>p \<in> set new. P (fst p))" for c
  proof (induction ls arbitrary: ws c)
    case (Cons l ls)
    obtain c1 r where c1: "call env (Witness_layer l target) c = (c1, r)" by (cases "call env (Witness_layer l target) c")
    have P: "\<forall>p \<in> set [(Witness_layer l target, r)]. P (fst p)" using assms by simp
    show ?case using c1 calls_step [OF call_log [OF c1] P Cons.IH] call_log [OF c1] P
      by (cases r) auto
  qed simp
qed

text \<open>Whatever destroys data: the vault, and the purge of a layer.\<close>

definition destroys :: "effect \<Rightarrow> bool" where
  "destroys eff \<longleftrightarrow> (case eff of Destroy_highest_key _ \<Rightarrow> True | Purge_layer _ _ \<Rightarrow> True | _ \<Rightarrow> False)"

lemma calls_purge:
  assumes P: "\<And>eff. \<not> destroys eff \<Longrightarrow> P eff" and "\<And>l s. map_of scopes l = Some s \<Longrightarrow> P (Purge_layer l s)"
  shows "only_calls P (execute_purge_and_verify env deps eid target att seq scopes key)"
proof -
  have complete: "only_calls P (complete_flow env deps eid target att seq scopes key saga ws)" for saga ws
    unfolding complete_flow_def by (intro calls P) (simp_all add: destroys_def)
  have suspend: "only_calls P (suspend env eid entry saga reason)" for entry saga reason
    by (intro calls allI P) (simp add: destroys_def)
  have verify: "only_calls P (verify_flow env deps eid target att seq scopes key saga)" for saga
    unfolding verify_flow_def
    by (intro calls P) (auto simp: destroys_def split: option.split intro!: calls_bind calls_pure complete suspend)
  have "only_calls P (purge_flow env deps eid target att seq scopes key saga)" for saga
    unfolding purge_flow_def
    by (intro calls)
      (auto simp: destroys_def split: option.split intro!: calls_bind calls_pure verify suspend assms(2) intro: P)
  then show ?thesis
    by (auto simp: only_calls_def execute_purge_and_verify_def check_disk_reserve_def Let_def)
qed

section \<open>The receipt is evidence\<close>

definition open_key_of :: "erasure_deps \<Rightarrow> erase_request \<Rightarrow> bytes" where
  "open_key_of deps req = derive_open_key (ed_hash deps) (er_target req) (mode_byte (er_mode req))"

lemma destroy_flow_suspended:
  "destroy_flow env deps req scopes seq saga c = (c', Inr (Inl status)) \<Longrightarrow> \<exists>p r. status = St_pending p r"
  unfolding destroy_flow_def Let_def by (auto simp: act_Inr split: if_split_asm)

lemma intent_flow_suspended:
  assumes "intent_flow env deps req scopes c = (c', Inr (Inl status))"
  shows "\<exists>p r. status = St_pending p r"
proof -
  have option_case: "(case failed of Some l \<Rightarrow> f l | None \<Rightarrow> g) d = y \<Longrightarrow> (\<exists>l. f l d = y) \<or> g d = y"
    for failed :: "layer_id option" and f :: "layer_id \<Rightarrow> (erasure_status + nat \<times> (layer_id \<times> layer_scope) list) action" and g d y
    by (cases failed) auto
  show ?thesis
    using assms unfolding intent_flow_def Let_def act_bind_Inr
    by (elim exE conjE) (drule option_case, auto simp: act_Inr dest: destroy_flow_suspended)
qed

lemma suspended_status:
  assumes "gate_flow env deps req c = (c', Inr (Inl status))"
  shows "\<exists>p r. status = St_pending p r"
  using assms unfolding gate_flow_def Let_def
  by (clarsimp simp: act_bind_Inr) (case_tac x; auto simp: act_Inr dest: intent_flow_suspended)

lemma erase_outcome:
  assumes "map_of (ec_open c) (open_key_of deps req) = None"
    and "erase env deps req c = (c', Inr (eid, status))" and "status = St Gated \<or> status = St Completed"
  obtains c1 c2 seq scopes r where
    "gate_flow env deps req c = (c1, Inr (Inr (seq, scopes)))" "ec_log c2 = ec_log c1" "ec_active c2 = ec_active c1"
    "er_timing req = Now \<Longrightarrow>
       execute_purge_and_verify env deps (er_id req) (er_target req) (er_attestation req) seq scopes
         (open_key_of deps req) c2 = (c', r) \<and> (status = St Completed \<longrightarrow> r = Inr (St Completed))"
    "er_timing req \<noteq> Now \<Longrightarrow> c' = c2 \<and> status = St Gated" "eid = er_id req"
proof -
  let ?key = "open_key_of deps req"
  have flow: "execute_erase_flow env deps req ?key c = (c', Inr (eid, status))"
    using assms(1,2) by (simp add: erase_def Let_def open_key_of_def)
  have "evaluate_retention (er_mode req) (at_code (er_attestation req)) = ProceedErase"
    using flow assms(3) unfolding execute_erase_flow_def
    by (auto simp: refuse_flow_def restrict_flow_def act_Inr split: retention_decision.splits)
  with flow have "act_bind (gate_flow env deps req) (\<lambda>r.
            case r of
              Inl status \<Rightarrow> act_return (er_id req, status)
            | Inr (gated_seq, scopes) \<Rightarrow>
                act_bind (set_open ?key (er_id req)) (\<lambda>_.
                  if er_timing req = Now
                  then (\<lambda>c. case execute_purge_and_verify env deps (er_id req) (er_target req) (er_attestation req)
                                   gated_seq scopes ?key c of
                              (c', Inr status) \<Rightarrow> (c', Inr (er_id req, status))
                            | (c', Inl _) \<Rightarrow> (c', Inr (er_id req, St Gated)))
                  else act_return (er_id req, St Gated))) c = (c', Inr (eid, status))"
    unfolding execute_erase_flow_def by simp
  then obtain c1 g where g: "gate_flow env deps req c = (c1, Inr g)"
    and rest: "(case g of
              Inl status \<Rightarrow> act_return (er_id req, status)
            | Inr (gated_seq, scopes) \<Rightarrow>
                act_bind (set_open ?key (er_id req)) (\<lambda>_.
                  if er_timing req = Now
                  then (\<lambda>c. case execute_purge_and_verify env deps (er_id req) (er_target req) (er_attestation req)
                                   gated_seq scopes ?key c of
                              (c', Inr status) \<Rightarrow> (c', Inr (er_id req, status))
                            | (c', Inl _) \<Rightarrow> (c', Inr (er_id req, St Gated)))
                  else act_return (er_id req, St Gated))) c1 = (c', Inr (eid, status))"
    by (auto simp only: act_bind_Inr)
  show thesis
  proof (cases g)
    case (Inl s)
    with rest g assms(3) suspended_status [of env deps req c c1 s] show thesis by (auto simp: act_Inr)
  next
    case (Inr p)
    then obtain seq scopes where p: "g = Inr (seq, scopes)" by (cases p) auto
    let ?c2 = "c1\<lparr>ec_open := AList.update ?key (er_id req) (ec_open c1)\<rparr>"
    let ?r = "snd (execute_purge_and_verify env deps (er_id req) (er_target req) (er_attestation req) seq scopes ?key ?c2)"
    show thesis
    proof (rule that [of c1 seq scopes ?c2 ?r])
      show "gate_flow env deps req c = (c1, Inr (Inr (seq, scopes)))" using g p by simp
      show "er_timing req = Now \<Longrightarrow>
         execute_purge_and_verify env deps (er_id req) (er_target req) (er_attestation req) seq scopes ?key ?c2 = (c', ?r) \<and>
         (status = St Completed \<longrightarrow> ?r = Inr (St Completed))"
        using rest p by (auto simp: act_Inr set_open_def split: prod.splits sum.splits)
      show "er_timing req \<noteq> Now \<Longrightarrow> c' = ?c2 \<and> status = St Gated" "eid = er_id req"
        using rest p by (auto simp: act_Inr set_open_def split: prod.splits sum.splits if_splits)
    qed simp_all
  qed
qed

text \<open>C10:
  The receipt of an erasure that was not open before is evidence of what was done. A receipt
  \<open>Gated\<close> is only given when every layer was resolved, intent and gate are in the journal, every
  layer has accepted the gate, the highest key was destroyed and its absence was confirmed, in this
  order. A receipt \<open>Completed\<close> is only given when afterwards every layer was purged in the order of the
  priorities, every layer was measured free of residue, and the report was signed and recorded before
  the journal names the erasure completed. Whatever the parts answer, no other calls were made.\<close>

theorem saga_receipt_is_evidence:
  assumes "map_of (ec_open c) (open_key_of deps req) = None"
    and "erase env deps req c = (c', Inr (eid, status))"
  shows "(status = St Gated \<longrightarrow>
      (\<exists>c1 scopes. performed c (gate_script deps req scopes) c1 \<and> prefix (ec_log c1) (ec_log c'))) \<and>
    (status = St Completed \<longrightarrow>
      (\<exists>seq scopes ws. performed c (gate_script deps req scopes @ purge_script deps req seq scopes ws) c'))"
proof (intro conjI impI)
  assume st: "status = St Gated"
  then obtain c1 c2 seq scopes r where o: "gate_flow env deps req c = (c1, Inr (Inr (seq, scopes)))" "ec_log c2 = ec_log c1"
    "er_timing req = Now \<Longrightarrow>
       execute_purge_and_verify env deps (er_id req) (er_target req) (er_attestation req) seq scopes
         (open_key_of deps req) c2 = (c', r)"
    "er_timing req \<noteq> Now \<Longrightarrow> c' = c2"
    using erase_outcome [OF assms] by metis
  have "prefix (ec_log c1) (ec_log c')"
    using o(2-4) by (metis log_prefix calls_purge [of "\<lambda>_. True"] prefix_order.refl)
  with gate_flow_performed(1) [OF o(1)]
  show "\<exists>c1 scopes. performed c (gate_script deps req scopes) c1 \<and> prefix (ec_log c1) (ec_log c')" by blast
next
  assume st: "status = St Completed"
  then obtain c1 c2 seq scopes where o: "gate_flow env deps req c = (c1, Inr (Inr (seq, scopes)))"
    "ec_log c2 = ec_log c1" "ec_active c2 = ec_active c1"
    "execute_purge_and_verify env deps (er_id req) (er_target req) (er_attestation req) seq scopes
         (open_key_of deps req) c2 = (c', Inr (St Completed))"
    using erase_outcome [OF assms] by (metis saga_state.distinct erasure_status.inject(1))
  note g = gate_flow_performed [OF o(1)]
  from g(3) o(3) have "map_of (ec_active c2) (er_id req) = Some (entry_of (er_target req) (er_attestation req) scopes seq
      \<lparr>es_id = er_id req, es_state = KeyDestroyed, es_reason = None\<rparr>)" by simp
  from purge_and_verify_performed [OF o(4) this g(2)] obtain ws where
    "performed c2 (purge_script deps req seq scopes ws) c'" by (auto simp: purge_script_def)
  then have "performed c1 (purge_script deps req seq scopes ws) c'" using o(2) by (simp add: performed_def)
  from performed_trans [OF g(1) this]
  show "\<exists>seq scopes ws. performed c (gate_script deps req scopes @ purge_script deps req seq scopes ws) c'" by blast
qed

definition willing_env :: environment where
  "willing_env = (\<lambda>_ _. Inr 1)"

definition example_deps :: erasure_deps where
  "example_deps = \<lparr>ed_layers = [[1], [2]], ed_priorities = (\<lambda>l. if l = [2] then Some 1 else None), ed_observer = True,
     ed_min_free = 1024, ed_hash = (\<lambda>bs. bs)\<rparr>"

definition example_request :: "erase_target \<Rightarrow> erase_request" where
  "example_request target = \<lparr>er_id = [7], er_target = target, er_mode = Erase,
     er_attestation = \<lparr>at_code = NoObligation, at_by = [8]\<rparr>, er_timing = Now\<rparr>"

definition empty_core :: erasure_core where
  "empty_core = \<lparr>ec_active = [], ec_open = [], ec_log = []\<rparr>"

lemma example_erased:
  "snd (erase willing_env example_deps (example_request (ExactKeys [[1], [2]])) empty_core) = Inr ([7], St Completed)"
  by code_simp

lemma saga_receipt_is_evidence_witness:
  "\<exists>c' seq scopes ws.
     erase willing_env example_deps (example_request (ExactKeys [[1], [2]])) empty_core = (c', Inr ([7], St Completed)) \<and>
     performed empty_core (gate_script example_deps (example_request (ExactKeys [[1], [2]])) scopes @
       purge_script example_deps (example_request (ExactKeys [[1], [2]])) seq scopes ws) c'"
proof -
  let ?req = "example_request (ExactKeys [[1], [2]])"
  obtain c' where e: "erase willing_env example_deps ?req empty_core = (c', Inr ([7], St Completed))"
    using example_erased by (metis prod.collapse)
  have fresh: "map_of (ec_open empty_core) (open_key_of example_deps ?req) = None" by (simp add: empty_core_def)
  from saga_receipt_is_evidence [OF fresh e] e show ?thesis by blast
qed

section \<open>The driver\<close>

lemma terminal_absorbing: "is_terminal s \<Longrightarrow> can_transition_to s s' \<longleftrightarrow> s' = s"
  by (cases s; cases s') (auto simp: can_transition_to_def transitions_def)

lemma completed_only_from_verifying: "can_transition_to s Completed \<longleftrightarrow> s = Verifying \<or> s = Completed"
  by (cases s) (auto simp: can_transition_to_def transitions_def)

lemma key_destroyed_only_gated:
  "can_transition_to s KeyDestroyed \<longleftrightarrow> s = Gated \<or> s = Pending \<or> s = KeyDestroyed"
  by (cases s) (auto simp: can_transition_to_def transitions_def)

text \<open>The machine allows a way to \<open>Completed\<close> that was never gated.\<close>

lemma completed_without_gate:
  "can_transition_to Requested Pending \<and> can_transition_to Pending Verifying \<and> can_transition_to Verifying Completed"
  by (simp add: can_transition_to_def transitions_def)

fun steps_left :: "saga_state \<Rightarrow> nat" where
  "steps_left Requested = 5"
| "steps_left Gated = 4"
| "steps_left KeyDestroyed = 3"
| "steps_left Purging = 2"
| "steps_left Verifying = 1"
| "steps_left _ = 0"

definition run_driver :: "erase_saga \<Rightarrow> saga_event list \<Rightarrow> erase_saga" where
  "run_driver saga events = foldl (\<lambda>s ev. fst (process_event s ev)) saga events"

lemma advance_step:
  "fst (process_event saga (Advance (es_id saga))) =
     (case next_of (es_state saga) of Some s \<Rightarrow> saga\<lparr>es_state := s, es_reason := None\<rparr> | None \<Rightarrow> saga)"
  by (cases "es_state saga")
    (simp_all add: driver_step_def transition_to_def transition_with_reason_def can_transition_to_def transitions_def)

lemma advance_stuck: "next_of (es_state saga) = None \<Longrightarrow> run_driver saga (replicate n (Advance (es_id saga))) = saga"
  by (induction n) (simp_all add: run_driver_def advance_step del: process_event.simps)

lemma advance_moves:
  "next_of (es_state saga) = Some s \<Longrightarrow>
   run_driver saga (replicate (Suc n) (Advance (es_id saga))) =
     run_driver (saga\<lparr>es_state := s, es_reason := None\<rparr>) (replicate n (Advance (es_id saga)))"
  by (simp add: run_driver_def advance_step del: process_event.simps)

lemma advance_completes:
  "next_of (es_state saga) \<noteq> None \<Longrightarrow> steps_left (es_state saga) \<le> n \<Longrightarrow>
   run_driver saga (replicate n (Advance (es_id saga))) = saga\<lparr>es_state := Completed, es_reason := None\<rparr>"
proof (induction n arbitrary: saga)
  case 0
  then show ?case by (cases "es_state saga") auto
next
  case (Suc n)
  then obtain s where s: "next_of (es_state saga) = Some s" by auto
  let ?saga = "saga\<lparr>es_state := s, es_reason := None\<rparr>"
  show ?case
  proof (cases "next_of s = None")
    case True
    with s have "s = Completed" by (cases "es_state saga") auto
    with s advance_moves [OF s, of n] advance_stuck [of ?saga n] show ?thesis by simp
  next
    case False
    with s Suc.prems(2) have "steps_left s \<le> n" by (cases "es_state saga") auto
    with Suc.IH [of ?saga] False s advance_moves [OF s, of n] show ?thesis by simp
  qed
qed

definition erase_path :: "saga_state list" where
  "erase_path = [Requested, Gated, KeyDestroyed, Purging, Verifying, Completed]"

text \<open>C24:
  The driver makes progress and stops. From every state on the way of an erasure, as many \<open>Advance\<close>
  events as there are steps left - five from \<open>Requested\<close> - bring the saga to \<open>Completed\<close>, and
  every further one changes nothing. In every other state \<open>Advance\<close> changes nothing at all, however
  often it is repeated: so a saga in \<open>Pending\<close> is never resumed by the driver.\<close>

theorem saga_driver_progress:
  "(es_state saga \<in> set (butlast erase_path) \<and> steps_left (es_state saga) \<le> n \<longrightarrow>
      run_driver saga (replicate n (Advance (es_id saga))) = saga\<lparr>es_state := Completed, es_reason := None\<rparr>) \<and>
   (es_state saga \<notin> set (butlast erase_path) \<longrightarrow>
      run_driver saga (replicate n (Advance (es_id saga))) = saga)"
proof (cases "next_of (es_state saga)")
  case None
  then have "es_state saga \<notin> set (butlast erase_path)" by (auto simp: erase_path_def)
  with advance_stuck [OF None] show ?thesis by simp
next
  case (Some s)
  then have "es_state saga \<in> set (butlast erase_path)" by (cases "es_state saga") (auto simp: erase_path_def)
  with advance_completes [of saga n] Some show ?thesis by simp
qed

lemma saga_driver_progress_witness:
  "run_driver (with_id [7]) (replicate 5 (Advance [7])) = \<lparr>es_id = [7], es_state = Completed, es_reason = None\<rparr> \<and>
   run_driver (with_state [7] Pending) (replicate 9 (Advance [7])) = with_state [7] Pending"
  using saga_driver_progress [of "with_id [7]" 5] saga_driver_progress [of "with_state [7] Pending" 9]
  by (simp add: with_id_def with_state_def erase_path_def)

section \<open>Recovery\<close>

definition journaled_steps :: "erase_saga list \<Rightarrow> effect list" where
  "journaled_steps sagas =
     List.map_filter (\<lambda>s. map_option (\<lambda>next_step. Append_state (es_id s) next_step None) (recovery_step (es_state s))) sagas"

definition scopeless :: "erasure_core \<Rightarrow> bool" where
  "scopeless c \<longleftrightarrow> (\<forall>(eid, e) \<in> set (ec_active c). ae_scopes e = [])"

lemma alist_update_subset: "set (AList.update k v xs) \<subseteq> insert (k, v) (set xs)"
  by (induction xs) auto

lemma scopeless_update:
  "scopeless c \<Longrightarrow> ae_scopes e = [] \<Longrightarrow> scopeless (c\<lparr>ec_active := AList.update eid e (ec_active c)\<rparr>)"
  unfolding scopeless_def using alist_update_subset [of eid e "ec_active c"] by auto

lemma set_active_scopeless:
  assumes "set_active eid e c = (c', r)" and "scopeless c" and "ae_scopes e = []"
  shows "scopeless c'"
  using assms by (auto simp: set_active_def intro: scopeless_update)

lemma recover_performed:
  "recover_and_resume env sagas done c = (c', Inr ids) \<Longrightarrow>
   performed c (journaled_steps sagas) c' \<and> (scopeless c \<longrightarrow> scopeless c')"
proof (induction sagas arbitrary: "done" c)
  case Nil
  then show ?case by (simp add: journaled_steps_def performed_refl)
next
  case (Cons saga sagas)
  show ?case
  proof (cases "recovery_step (es_state saga)")
    case None
    with Cons show ?thesis by (simp add: journaled_steps_def)
  next
    case (Some next_step)
    with Cons.prems obtain c1 c2 x entry where
      e: "call env (Append_state (es_id saga) next_step None) c = (c1, Inr x)" "ae_scopes entry = []"
        "set_active (es_id saga) entry c1 = (c2, Inr ())"
        "recover_and_resume env sagas (done @ [es_id saga]) c2 = (c', Inr ids)"
      by (clarsimp simp: act_Inr) (rule that [rotated 2], assumption, assumption, assumption, simp)
    have "scopeless c \<Longrightarrow> scopeless c2"
      using set_active_scopeless [OF e(3) _ e(2)] call_core [OF e(1)] by (simp add: scopeless_def)
    with Cons.IH [OF e(4)] performed_trans [OF performed_trans [OF call_performed [OF e(1)] set_performed(1) [OF e(3)]]] Some
    show ?thesis by (auto simp: journaled_steps_def)
  qed
qed

lemma window_loop_calls:
  "\<forall>(eid, e) \<in> set es. ae_scopes e = [] \<Longrightarrow>
   \<exists>new. ec_log (fst (purge_window_loop env deps es out c)) = ec_log c @ new \<and> (\<forall>p \<in> set new. \<not> destroys (fst p))"
proof (induction es arbitrary: out c)
  case (Cons ee es)
  obtain eid e where ee: "ee = (eid, e)" by (cases ee)
  with Cons.prems have scopes: "ae_scopes e = []" by simp
  let ?run = "execute_purge_and_verify env deps eid (ae_target e) (ae_attestation e) (ae_gated_seq e) (ae_scopes e)
             (derive_open_key (ed_hash deps) (ae_target e) 1)"
  have only: "only_calls (\<lambda>eff. \<not> destroys eff) ?run" by (rule calls_purge) (simp_all add: scopes)
  obtain c1 r where run: "?run c = (c1, r)" by (cases "?run c")
  from only_callsD [OF only run] obtain new where new: "ec_log c1 = ec_log c @ new" "\<forall>p \<in> set new. \<not> destroys (fst p)" by blast
  have IH: "\<exists>new. ec_log (fst (purge_window_loop env deps es out' c1)) = ec_log c1 @ new \<and> (\<forall>p \<in> set new. \<not> destroys (fst p))"
    for out' using Cons.IH Cons.prems by simp
  show ?case unfolding ee purge_window_loop.simps run by (simp only: prod.case) (rule calls_step [OF new IH])
qed simp

text \<open>C23:
  The recovery after a restart carries no step out. It only writes into the journal, for every open saga,
  the state that the step after its last known one would have reached: a saga found \<open>Gated\<close> is
  journaled \<open>KeyDestroyed\<close>, one found \<open>Verifying\<close> is journaled \<open>Completed\<close>. And since the scopes are not
  recovered either, a purge window that follows destroys no key and purges no layer, whatever the parts answer.\<close>

theorem recovery_destroys_nothing:
  assumes "ec_active c = []" and "recover_and_resume env sagas [] c = (c1, Inr ids)"
  shows "performed c (journaled_steps sagas) c1 \<and>
    (\<exists>new. ec_log (fst (run_purge_window env' deps c1)) = ec_log c1 @ new \<and> (\<forall>p \<in> set new. \<not> destroys (fst p)))"
proof -
  from recover_performed [OF assms(2)] assms(1) have "performed c (journaled_steps sagas) c1" "scopeless c1"
    by (auto simp: scopeless_def)
  moreover from this(2) have "\<forall>(eid, e) \<in> set (purge_candidates c1). ae_scopes e = []"
    by (auto simp: scopeless_def purge_candidates_def)
  ultimately show ?thesis unfolding run_purge_window_def by (blast intro: window_loop_calls)
qed

text \<open>A saga found \<open>Gated\<close> after a crash, and one found \<open>Verifying\<close>: both end \<open>Completed\<close>.\<close>

lemma recovery_destroys_nothing_witness:
  "\<exists>c1 new.
     recover_and_resume willing_env [with_state [7] Gated, with_state [8] Verifying] [] empty_core = (c1, Inr [[7], [8]]) \<and>
     performed empty_core [Append_state [7] KeyDestroyed None, Append_state [8] Completed None] c1 \<and>
     map_option (\<lambda>e. es_state (ae_saga e)) (map_of (ec_active (fst (run_purge_window willing_env example_deps c1))) [7]) =
       Some Completed \<and>
     ec_log (fst (run_purge_window willing_env example_deps c1)) = ec_log c1 @ new \<and> (\<forall>p \<in> set new. \<not> destroys (fst p))"
proof -
  let ?sagas = "[with_state [7] Gated, with_state [8] Verifying]"
  define c1 where "c1 = fst (recover_and_resume willing_env ?sagas [] empty_core)"
  have r: "recover_and_resume willing_env ?sagas [] empty_core = (c1, Inr [[7], [8]])"
    unfolding c1_def by code_simp
  have steps: "journaled_steps ?sagas = [Append_state [7] KeyDestroyed None, Append_state [8] Completed None]" by code_simp
  have "map_option (\<lambda>e. es_state (ae_saga e)) (map_of (ec_active (fst (run_purge_window willing_env example_deps c1))) [7]) =
       Some Completed" unfolding c1_def by code_simp
  with recovery_destroys_nothing [OF _ r, of willing_env example_deps] r steps show ?thesis by (auto simp: empty_core_def)
qed

section \<open>Open erasures\<close>

text \<open>Two erasures with different targets can share an open key, because the keys of a target are joined
  without their lengths. The second request is then answered with the erasure of the first
  and its status, and nothing is called: its target is neither gated nor purged. The keys
  \<open>[1], [2]\<close>, the key \<open>[1, 2]\<close> and the range from \<open>[1]\<close> to \<open>[2]\<close> are such targets.\<close>

theorem open_key_collision:
  assumes "canonical_target_bytes (er_target req) = canonical_target_bytes other" and "er_mode req = mode"
    and "map_of (ec_open c) (derive_open_key (ed_hash deps) other (mode_byte mode)) = Some eid"
    and "map_of (ec_active c) eid = Some entry"
  shows "erase env deps req c = (c, Inr (eid, status_of (ae_saga entry)))"
  using assms by (simp add: erase_def derive_open_key_def Let_def)

definition batched_request :: "erasure_id \<Rightarrow> erase_target \<Rightarrow> erase_request" where
  "batched_request eid target = (example_request target)\<lparr>er_id := eid, er_timing := Batched\<rparr>"

lemma open_key_collision_witness:
  "\<exists>c1. erase willing_env example_deps (batched_request [7] (ExactKeys [[1], [2]])) empty_core = (c1, Inr ([7], St Gated)) \<and>
     erase willing_env example_deps (batched_request [8] (ExactKeys [[1, 2]])) c1 = (c1, Inr ([7], St KeyDestroyed)) \<and>
     erase willing_env example_deps (batched_request [9] (KeyRange [1] [2])) c1 = (c1, Inr ([7], St KeyDestroyed))"
proof -
  let ?first = "ExactKeys [[1], [2]]"
  define c1 where "c1 = fst (erase willing_env example_deps (batched_request [7] ?first) empty_core)"
  have first: "erase willing_env example_deps (batched_request [7] ?first) empty_core = (c1, Inr ([7], St Gated))"
    unfolding c1_def by code_simp
  have opened: "map_of (ec_open c1) (derive_open_key (ed_hash example_deps) ?first (mode_byte Erase)) = Some [7]"
    unfolding c1_def by code_simp
  obtain entry where entry: "map_of (ec_active c1) [7] = Some entry" "status_of (ae_saga entry) = St KeyDestroyed"
  proof -
    have "map_option (\<lambda>e. status_of (ae_saga e)) (map_of (ec_active c1) [7]) = Some (St KeyDestroyed)"
      unfolding c1_def by code_simp
    with that show thesis by auto
  qed
  have same: "canonical_target_bytes (er_target (batched_request [8] (ExactKeys [[1, 2]]))) = canonical_target_bytes ?first"
    "canonical_target_bytes (er_target (batched_request [9] (KeyRange [1] [2]))) = canonical_target_bytes ?first"
    "er_mode (batched_request [8] (ExactKeys [[1, 2]])) = Erase" "er_mode (batched_request [9] (KeyRange [1] [2])) = Erase"
    by (simp_all add: batched_request_def example_request_def)
  from open_key_collision [OF same(1) same(3) opened entry(1)] open_key_collision [OF same(2) same(4) opened entry(1)] first entry(2)
  show ?thesis by auto
qed

lemma disk_reserve_never_insufficient: "check_disk_reserve available 0 = Sufficient available"
  by (simp add: check_disk_reserve_def)

end
