(* ===== verification/Lsm.thy ===== *)
theory Lsm
  imports TxBuffer Ssi Snapshot SstScan CompactProps
begin

text \<open>
  The storage engine, \<open>contextra-store/src/lsm\<close>: its state (\<open>engine.rs\<close>), the read path and the scans
  (\<open>ops/read.rs\<close>, \<open>scan.rs\<close>), the write path with the commit of a single transaction (\<open>ops/write.rs\<close>,
  \<open>commit.rs\<close>), flush and the swap of a compaction (\<open>ops/compaction.rs\<close>, \<open>compaction/engine.rs\<close>),
  and the rollback to a transaction (\<open>recovery.rs\<close>).

  The engine is put together from the models of its parts: MemTables, SSTable files, staging buffer,
  validator and snapshot registry. One operation runs at a time, so the locks are left out and a commit
  takes the path without a group. What the journal, the manifest and the memory budget answer is an
  argument of the operation. The block cache, metrics, observers and the deletion of files are left out.
\<close>

section \<open>The engine\<close>

datatype lsm_error =
    Invalid
  | Storage
  | Limit_exceeded
  | Over_budget
  | Staging tx_error
  | Conflict ssi_conflict
  | File_error sst_error
  | Merge_error merge_error

record lsm_params =
  lp_blake3 :: "bytes \<Rightarrow> bytes"
  lp_crc32 :: "bytes \<Rightarrow> u32"
  lp_bits :: nat
  lp_hashes :: nat
  lp_km :: "key_manager option"
  lp_key_hash :: "bytes \<Rightarrow> u64"
  lp_doc_id :: "bytes \<Rightarrow> u64"

record lsm =
  ls_mem :: mem_table
  ls_imm :: "mem_table list"
  ls_ssts :: "sst_reader list"
  ls_txb :: "kv tx_buffer"
  ls_ssi :: ssi_validator
  ls_registry :: snapshot_registry
  ls_next_seq :: u64
  ls_committed_tx :: u64
  ls_applied_seq :: u64
  ls_locks :: "(bytes \<times> u64) list"

text \<open>An engine in an empty directory.\<close>

definition lsm_new :: "kv tx_buffer \<Rightarrow> ssi_validator \<Rightarrow> lsm" where
  "lsm_new txb ssi =
     \<lparr>ls_mem = mem_table_new, ls_imm = [], ls_ssts = [], ls_txb = txb, ls_ssi = ssi, ls_registry = registry_new,
      ls_next_seq = 1, ls_committed_tx = 0, ls_applied_seq = 0, ls_locks = []\<rparr>"

definition MAX_KEY_SIZE :: nat where
  "MAX_KEY_SIZE = 65535"

definition MAX_BATCH_SIZE :: nat where
  "MAX_BATCH_SIZE = 10000"

definition MAX_SCAN_MERGE_ACCUMULATOR :: nat where
  "MAX_SCAN_MERGE_ACCUMULATOR = 100000"

definition MIN_ENTRIES_FOR_SSTABLE_REBUILD :: nat where
  "MIN_ENTRIES_FOR_SSTABLE_REBUILD = 8"

definition validate_key :: "bytes \<Rightarrow> bool" where
  "validate_key key \<longleftrightarrow> key \<noteq> [] \<and> length key \<le> MAX_KEY_SIZE"

definition validate_value :: "bytes \<Rightarrow> bool" where
  "validate_value val \<longleftrightarrow> length val \<le> MAX_VALUE_SIZE"

section \<open>Point reads\<close>

definition live_value :: "bytes \<times> u64 \<times> u64 \<Rightarrow> bytes option" where
  "live_value r = (case r of (val, seq, tx) \<Rightarrow> if seq AND TOMBSTONE_BIT \<noteq> 0 then None else Some val)"

fun get_from_mems :: "mem_table list \<Rightarrow> bytes \<Rightarrow> u64 \<Rightarrow> u64 \<Rightarrow> (bytes \<times> u64 \<times> u64) option" where
  "get_from_mems [] key seq_no snapshot_tx = None"
| "get_from_mems (mt # mts) key seq_no snapshot_tx =
     (case get_at_seq mt key seq_no snapshot_tx of
        Some r \<Rightarrow> Some r
      | None \<Rightarrow> get_from_mems mts key seq_no snapshot_tx)"

definition sst_skipped :: "sst_meta \<Rightarrow> u64 \<Rightarrow> u64 \<Rightarrow> bool" where
  "sst_skipped m seq_no snapshot_tx \<longleftrightarrow>
     (sm_min_tx m < INTERNAL_BASE \<and> snapshot_tx < sm_min_tx m) \<or> seq_no < sm_min_seq m"

fun get_from_ssts ::
  "lsm_params \<Rightarrow> sst_reader list \<Rightarrow> bytes \<Rightarrow> u64 \<Rightarrow> u64 \<Rightarrow> lsm_error + (bytes \<times> u64 \<times> u64) option" where
  "get_from_ssts p [] key seq_no snapshot_tx = Inr None"
| "get_from_ssts p (rd # rds) key seq_no snapshot_tx =
     (if sst_skipped (rd_meta rd) seq_no snapshot_tx then get_from_ssts p rds key seq_no snapshot_tx
      else case SstFile.get_at (lp_blake3 p) (lp_crc32 p) rd key seq_no snapshot_tx of
             Inl e \<Rightarrow> Inl (File_error e)
           | Inr (Some r) \<Rightarrow> Inr (Some r)
           | Inr None \<Rightarrow> get_from_ssts p rds key seq_no snapshot_tx)"

text \<open>MemTable, immutable MemTables from the newest to the oldest, SSTables from the newest to the oldest.\<close>

definition lsm_get_at_seq :: "lsm_params \<Rightarrow> lsm \<Rightarrow> bytes \<Rightarrow> u64 \<Rightarrow> lsm_error + bytes option" where
  "lsm_get_at_seq p st key seq_no =
     (if \<not> validate_key key then Inl Invalid
      else case get_from_mems (ls_mem st # rev (ls_imm st)) key seq_no (ls_committed_tx st) of
             Some r \<Rightarrow> Inr (live_value r)
           | None \<Rightarrow>
               (case get_from_ssts p (rev (ls_ssts st)) key seq_no (ls_committed_tx st) of
                  Inl e \<Rightarrow> Inl e
                | Inr r \<Rightarrow> Inr (Option.bind r live_value)))"

definition lsm_get :: "lsm_params \<Rightarrow> lsm \<Rightarrow> bytes \<Rightarrow> lsm_error + bytes option" where
  "lsm_get p st key =
     (if \<not> validate_key key then Inl Invalid else lsm_get_at_seq p st key (ls_applied_seq st))"

definition get_at_seq_tracked ::
  "lsm_params \<Rightarrow> lsm \<Rightarrow> u64 \<Rightarrow> bytes \<Rightarrow> u64 \<Rightarrow> lsm \<times> (lsm_error + bytes option)" where
  "get_at_seq_tracked p st tx key snapshot_seq =
     (if \<not> validate_key key then (st, Inl Invalid)
      else (let registered_seq = min snapshot_seq (ls_applied_seq st);
                st' = st\<lparr>ls_txb := register_read (ls_txb st) tx key registered_seq\<rparr>
            in (st', lsm_get_at_seq p st' key snapshot_seq)))"

definition get_tracked :: "lsm_params \<Rightarrow> lsm \<Rightarrow> u64 \<Rightarrow> bytes \<Rightarrow> lsm \<times> (lsm_error + bytes option)" where
  "get_tracked p st tx key =
     (if \<not> validate_key key then (st, Inl Invalid) else get_at_seq_tracked p st tx key (ls_applied_seq st))"

section \<open>Scans\<close>

datatype scan_mode = By_prefix bytes | By_range bound bound

text \<open>The least string above all strings with the prefix; there is none above \<open>0xFF\<close> alone.\<close>

function upper_bound_for_prefix :: "bytes \<Rightarrow> bytes option" where
  "upper_bound_for_prefix ub =
     (if ub = [] then None
      else if last ub < 0xFF then Some (butlast ub @ [last ub + 1])
      else upper_bound_for_prefix (butlast ub))"
  by auto
termination by (relation "measure length") auto

declare upper_bound_for_prefix.simps [simp del]

definition check_in_range :: "bytes \<Rightarrow> bound \<Rightarrow> bound \<Rightarrow> bool" where
  "check_in_range k start end' \<longleftrightarrow> above start k \<and> below end' k"

definition prefix_misses_file :: "sst_meta \<Rightarrow> bytes \<Rightarrow> bool" where
  "prefix_misses_file m pfx \<longleftrightarrow>
     sm_first_key m \<noteq> [] \<and> sm_last_key m \<noteq> [] \<and>
     (pfx > sm_last_key m \<or>
      (case upper_bound_for_prefix pfx of Some prefix_end \<Rightarrow> sm_first_key m \<ge> prefix_end | None \<Rightarrow> False))"

text \<open>The entries of one file; \<open>None\<close> when the file is passed over.\<close>

definition scan_file :: "lsm_params \<Rightarrow> scan_mode \<Rightarrow> sst_reader \<Rightarrow> (sst_error + entry list) option" where
  "scan_file p mode rd =
     (case mode of
        By_prefix pfx \<Rightarrow>
          if prefix_misses_file (rd_meta rd) pfx then None else Some (SstScan.scan_prefix (lp_crc32 p) rd pfx)
      | By_range start end' \<Rightarrow> Some (SstScan.scan_range (lp_crc32 p) rd start end'))"

text \<open>\<open>map.entry(k).or_insert_with(..)\<close>, then the newer version.\<close>

definition take_newer :: "bytes \<Rightarrow> bytes \<Rightarrow> u64 \<Rightarrow> scan_target \<Rightarrow> scan_target" where
  "take_newer k val seq m =
     (case map_of m k of
        None \<Rightarrow> bt_insert k (val, seq) m
      | Some (_, old) \<Rightarrow> if mask_seq seq > mask_seq old then bt_insert k (val, seq) m else m)"

fun collect_entries ::
  "scan_pred \<Rightarrow> bool \<Rightarrow> u64 \<Rightarrow> entry list \<Rightarrow> scan_target \<Rightarrow> lsm_error + scan_target" where
  "collect_entries pred check last_tx [] m = Inr m"
| "collect_entries pred check last_tx ((k, val, seq, tx) # es) m =
     (if (tx \<le> last_tx \<or> tx \<ge> INTERNAL_BASE) \<and> pred k (mask_seq seq) tx
      then let m' = take_newer k val seq m
           in if check \<and> length m' > MAX_SCAN_MERGE_ACCUMULATOR then Inl Limit_exceeded
              else collect_entries pred check last_tx es m'
      else collect_entries pred check last_tx es m)"

fun collect_files ::
  "lsm_params \<Rightarrow> scan_mode \<Rightarrow> scan_pred \<Rightarrow> bool \<Rightarrow> u64 \<Rightarrow> sst_reader list \<Rightarrow> scan_target \<Rightarrow> lsm_error + scan_target" where
  "collect_files p mode pred check last_tx [] m = Inr m"
| "collect_files p mode pred check last_tx (rd # rds) m =
     (case scan_file p mode rd of
        None \<Rightarrow> collect_files p mode pred check last_tx rds m
      | Some (Inl e) \<Rightarrow> Inl (File_error e)
      | Some (Inr es) \<Rightarrow>
          bind_res (collect_entries pred check last_tx es m) (collect_files p mode pred check last_tx rds))"

definition scan_memtable :: "scan_mode \<Rightarrow> scan_pred \<Rightarrow> u64 \<Rightarrow> mem_table \<Rightarrow> scan_target \<Rightarrow> scan_target" where
  "scan_memtable mode pred last_tx mt m =
     (case mode of
        By_prefix pfx \<Rightarrow> scan_prefix_into_matching mt pfx U64_MAX last_tx pred m
      | By_range start end' \<Rightarrow> scan_range_into_matching mt start end' U64_MAX last_tx pred m)"

fun collect_mems :: "scan_mode \<Rightarrow> scan_pred \<Rightarrow> bool \<Rightarrow> u64 \<Rightarrow> mem_table list \<Rightarrow> scan_target \<Rightarrow> lsm_error + scan_target" where
  "collect_mems mode pred check last_tx [] m = Inr m"
| "collect_mems mode pred check last_tx (mt # mts) m =
     (let m' = scan_memtable mode pred last_tx mt m
      in if check \<and> length m' > MAX_SCAN_MERGE_ACCUMULATOR then Inl Limit_exceeded
         else collect_mems mode pred check last_tx mts m')"

definition mode_empty :: "scan_mode \<Rightarrow> bool" where
  "mode_empty mode = (case mode of By_range s e \<Rightarrow> \<not> is_valid_range_bounds s e | By_prefix _ \<Rightarrow> False)"

definition collect_visible_entries ::
  "lsm_params \<Rightarrow> lsm \<Rightarrow> scan_mode \<Rightarrow> scan_pred \<Rightarrow> bool \<Rightarrow> lsm_error + scan_target" where
  "collect_visible_entries p st mode pred check =
     (if mode_empty mode then Inr []
      else bind_res (collect_files p mode pred check (ls_committed_tx st) (ls_ssts st) [])
             (collect_mems mode pred check (ls_committed_tx st) (ls_imm st @ [ls_mem st])))"

definition live_entries :: "scan_target \<Rightarrow> (bytes \<times> bytes) list" where
  "live_entries m = map (\<lambda>(k, val, seq). (k, val)) (filter (\<lambda>(k, val, seq). seq AND TOMBSTONE_BIT = 0) m)"

definition scan_prefix_at :: "lsm_params \<Rightarrow> lsm \<Rightarrow> bytes \<Rightarrow> u64 \<Rightarrow> lsm_error + (bytes \<times> bytes) list" where
  "scan_prefix_at p st pfx seq_no =
     bind_res (collect_visible_entries p st (By_prefix pfx) (\<lambda>k raw_seq _. raw_seq \<le> seq_no \<and> prefix pfx k) False)
       (\<lambda>m. Inr (live_entries m))"

definition lsm_scan_prefix :: "lsm_params \<Rightarrow> lsm \<Rightarrow> bytes \<Rightarrow> lsm_error + (bytes \<times> bytes) list" where
  "lsm_scan_prefix p st pfx = scan_prefix_at p st pfx U64_MAX"

definition scan_prefix_tracked ::
  "lsm_params \<Rightarrow> lsm \<Rightarrow> u64 \<Rightarrow> bytes \<Rightarrow> lsm \<times> (lsm_error + (bytes \<times> bytes) list)" where
  "scan_prefix_tracked p st tx pfx =
     (case scan_prefix_at p st pfx (ls_applied_seq st) of
        Inl e \<Rightarrow> (st, Inl e)
      | Inr results \<Rightarrow>
          (st\<lparr>ls_txb := foldl (\<lambda>tb (k, _). register_read tb tx k (ls_applied_seq st)) (ls_txb st) results\<rparr>, Inr results))"

text \<open>\<open>None\<close> is no limit; a limit of 0 is never reached.\<close>

definition take_limit :: "nat option \<Rightarrow> 'a list \<Rightarrow> 'a list" where
  "take_limit limit xs = (case limit of None \<Rightarrow> xs | Some lim \<Rightarrow> if lim = 0 then xs else take lim xs)"

definition lsm_scan :: "lsm_params \<Rightarrow> lsm \<Rightarrow> bound \<Rightarrow> bound \<Rightarrow> nat option \<Rightarrow> lsm_error + (bytes \<times> bytes) list" where
  "lsm_scan p st start end' limit =
     bind_res (collect_visible_entries p st (By_range start end') (\<lambda>k _ _. check_in_range k start end') False)
       (\<lambda>m. Inr (take_limit limit (live_entries m)))"

text \<open>A page and the cursor of the next one.\<close>

definition page_of :: "nat \<Rightarrow> (bytes \<times> bytes) list \<Rightarrow> (bytes \<times> bytes) list \<times> bytes option" where
  "page_of limit live =
     (let results = take_limit (Some limit) live
      in (results, if length results = limit \<and> length live > limit then Some (fst (last results)) else None))"

definition scan_bounded ::
  "lsm_params \<Rightarrow> lsm \<Rightarrow> bound \<Rightarrow> bound \<Rightarrow> nat \<Rightarrow> bytes option \<Rightarrow>
   lsm_error + (bytes \<times> bytes) list \<times> bytes option" where
  "scan_bounded p st start end' limit cursor =
     (let effective_start = (case cursor of Some c \<Rightarrow> Excluded c | None \<Rightarrow> start)
      in bind_res (collect_visible_entries p st (By_range effective_start end')
                     (\<lambda>k _ _. check_in_range k effective_start end') True)
           (\<lambda>m. Inr (page_of limit (live_entries m))))"

definition scan_prefix_bounded ::
  "lsm_params \<Rightarrow> lsm \<Rightarrow> bytes \<Rightarrow> nat \<Rightarrow> bytes option \<Rightarrow>
   lsm_error + (bytes \<times> bytes) list \<times> bytes option" where
  "scan_prefix_bounded p st pfx limit cursor =
     bind_res (collect_visible_entries p st (By_prefix pfx)
                 (\<lambda>k _ _. (case cursor of Some cb \<Rightarrow> \<not> k \<le> cb | None \<Rightarrow> True) \<and> prefix pfx k) True)
       (\<lambda>m. Inr (page_of limit (live_entries
          (filter (\<lambda>e. case cursor of Some cb \<Rightarrow> fst e > cb | None \<Rightarrow> True) m))))"

end
