(* ===== verification/LsmWrite.thy ===== *)
theory LsmWrite
  imports Lsm
begin

text \<open>
  The storage engine, continued: staging, commit, flush, compaction and rollback. What the parts outside
  the model answer is an argument: \<open>memory_ok\<close> the memory budget, \<open>now\<close> the clock, \<open>wal_ok\<close> and a
  \<open>wal_outcome\<close> the journal, \<open>manifest_ok\<close> the manifest, \<open>pick\<close> the planner.
\<close>

section \<open>Staging\<close>

definition stage_result :: "lsm \<Rightarrow> kv tx_buffer \<times> (tx_error + unit) \<Rightarrow> 'a \<Rightarrow> lsm \<times> (lsm_error + 'a)" where
  "stage_result st r x =
     (st\<lparr>ls_txb := fst r\<rparr>, case snd r of Inl e \<Rightarrow> Inl (Staging e) | Inr _ \<Rightarrow> Inr x)"

definition lsm_put ::
  "lsm_params \<Rightarrow> bool \<Rightarrow> u64 \<Rightarrow> lsm \<Rightarrow> u64 \<Rightarrow> bytes \<Rightarrow> bytes \<Rightarrow> lsm \<times> (lsm_error + unit)" where
  "lsm_put p memory_ok now st tx key val =
     (if \<not> validate_key key \<or> \<not> validate_value val then (st, Inl Invalid)
      else if \<not> memory_ok then (st, Inl Storage)
      else stage_result st (stage_kv (lp_key_hash p) (ls_txb st) tx (OpInsert (lp_doc_id p key) (key, val)) now) ())"

definition lsm_delete ::
  "lsm_params \<Rightarrow> bool \<Rightarrow> u64 \<Rightarrow> lsm \<Rightarrow> u64 \<Rightarrow> bytes \<Rightarrow> lsm \<times> (lsm_error + unit)" where
  "lsm_delete p memory_ok now st tx key =
     (if \<not> validate_key key then (st, Inl Invalid)
      else if \<not> memory_ok then (st, Inl Storage)
      else stage_result st (stage_kv (lp_key_hash p) (ls_txb st) tx (OpDelete (lp_doc_id p key) (Some (key, []))) now) ())"

definition lsm_delete_many ::
  "lsm_params \<Rightarrow> bool \<Rightarrow> u64 \<Rightarrow> lsm \<Rightarrow> u64 \<Rightarrow> bytes list \<Rightarrow> lsm \<times> (lsm_error + nat)" where
  "lsm_delete_many p memory_ok now st tx keys =
     (if length keys > MAX_BATCH_SIZE \<or> \<not> list_all validate_key keys then (st, Inl Invalid)
      else if \<not> memory_ok then (st, Inl Storage)
      else if keys = [] then (st, Inr 0)
      else stage_result st (stage_many kv_size (ls_txb st) tx
             (map (\<lambda>key. OpDelete (lp_doc_id p key) (Some (key, []))) keys) now) (length keys))"

definition lsm_delete_prefix ::
  "lsm_params \<Rightarrow> bool \<Rightarrow> u64 \<Rightarrow> lsm \<Rightarrow> u64 \<Rightarrow> bytes \<Rightarrow> lsm \<times> (lsm_error + nat)" where
  "lsm_delete_prefix p memory_ok now st tx pfx =
     (case lsm_scan_prefix p st pfx of
        Inl e \<Rightarrow> (st, Inl e)
      | Inr found \<Rightarrow> lsm_delete_many p memory_ok now st tx (map fst found))"

definition release_lock :: "u64 \<Rightarrow> bytes \<Rightarrow> lsm \<Rightarrow> lsm" where
  "release_lock tx key st =
     (if map_of (ls_locks st) key = Some tx then st\<lparr>ls_locks := AList.delete key (ls_locks st)\<rparr> else st)"

definition put_if_absent ::
  "lsm_params \<Rightarrow> bool \<Rightarrow> u64 \<Rightarrow> lsm \<Rightarrow> u64 \<Rightarrow> bytes \<Rightarrow> bytes \<Rightarrow> lsm \<times> (lsm_error + bool)" where
  "put_if_absent p memory_ok now st tx key val =
     (if \<not> validate_key key \<or> \<not> validate_value val then (st, Inl Invalid)
      else if \<not> memory_ok then (st, Inl Storage)
      else if staged_status (lp_key_hash p) (ls_txb st) key = Some True then (st, Inr False)
      else if map_of (ls_locks st) key \<notin> {None, Some tx} then (st, Inr False)
      else (let st1 = (if map_of (ls_locks st) key = None then st\<lparr>ls_locks := AList.update key tx (ls_locks st)\<rparr> else st)
            in case lsm_get_at_seq p st1 key (ls_next_seq st1) of
                 Inl e \<Rightarrow> (release_lock tx key st1, Inl e)
               | Inr (Some _) \<Rightarrow> (release_lock tx key st1, Inr False)
               | Inr None \<Rightarrow>
                   (case stage_kv (lp_key_hash p) (ls_txb st1) tx (OpInsert (lp_doc_id p key) (key, val)) now of
                      (tb, Inl e) \<Rightarrow> (release_lock tx key (st1\<lparr>ls_txb := tb\<rparr>), Inl (Staging e))
                    | (tb, Inr _) \<Rightarrow> (st1\<lparr>ls_txb := tb\<rparr>, Inr True))))"

definition cleanup_intent_locks :: "(u64 \<Rightarrow> bool) \<Rightarrow> lsm \<Rightarrow> lsm" where
  "cleanup_intent_locks pred st = st\<lparr>ls_locks := filter (\<lambda>e. \<not> pred (snd e)) (ls_locks st)\<rparr>"

definition lsm_rollback :: "lsm_params \<Rightarrow> lsm \<Rightarrow> u64 \<Rightarrow> lsm" where
  "lsm_rollback p st tx =
     cleanup_intent_locks (\<lambda>t. t = tx) (st\<lparr>ls_txb := discard_kv (lp_key_hash p) (ls_txb st) tx\<rparr>)"

section \<open>Commit\<close>

type_synonym mem_update = "bytes \<times> bytes \<times> u64"

text \<open>A sequence number for every operation; a deletion without a key takes one as well.\<close>

fun number_ops :: "kv index_op list \<Rightarrow> u64 \<Rightarrow> mem_update list \<times> u64" where
  "number_ops [] seq = ([], seq)"
| "number_ops (op # ops) seq =
     (let (ups, seq') = number_ops ops (seq + 1)
      in (case op of
            OpInsert _ (key, val) \<Rightarrow> (key, val, seq) # ups
          | OpDelete _ (Some (key, _)) \<Rightarrow> (key, [], seq OR TOMBSTONE_BIT) # ups
          | OpDelete _ None \<Rightarrow> ups, seq'))"

text \<open>The end of the transaction takes a number too; the keys are recorded before the journal is written.\<close>

definition prepare_commit_ops :: "lsm \<Rightarrow> kv index_op list \<Rightarrow> lsm \<times> mem_update list \<times> u64" where
  "prepare_commit_ops st ops =
     (let (ups, tx_end_seq_no) = number_ops ops (ls_next_seq st)
      in (st\<lparr>ls_next_seq := tx_end_seq_no + 1,
             ls_ssi := foldl (\<lambda>v (key, _, seq). record_commit_key v key (mask_seq seq)) (ls_ssi st) ups\<rparr>,
          ups, case ups of [] \<Rightarrow> 0 | (_, _, seq) # _ \<Rightarrow> mask_seq seq))"

definition apply_mem_updates :: "lsm \<Rightarrow> mem_update list \<Rightarrow> u64 \<Rightarrow> lsm" where
  "apply_mem_updates st ups tx =
     (let max_seq = foldl (\<lambda>m (_, _, seq). max m (mask_seq seq)) 0 ups
      in st\<lparr>ls_mem := foldl (\<lambda>mt (key, val, seq). mt_put mt key val seq tx) (ls_mem st) ups,
            ls_applied_seq := max (ls_applied_seq st) max_seq\<rparr>)"

definition advance_visibility :: "lsm \<Rightarrow> u64 \<Rightarrow> lsm" where
  "advance_visibility st tx =
     (if tx = 0 then st
      else if tx < INTERNAL_BASE then st\<lparr>ls_committed_tx := max (ls_committed_tx st) tx\<rparr> else st)"

datatype wal_outcome = Appended | Prepare_failed | Append_failed

text \<open>When the journal refuses the batch before the guard exists, the recorded keys stay recorded. When the append
  fails, the commit truncates the journal under a lock that it holds, and never answers (\<open>commit_append_returns\<close> in
  \<open>WalTrust\<close> shows this for the shared append); the state is then the one after its caller gave up and the guard was dropped.\<close>

definition single_commit_path :: "wal_outcome \<Rightarrow> lsm \<Rightarrow> u64 \<Rightarrow> mem_update list \<Rightarrow> u64 \<Rightarrow> lsm \<times> (lsm_error + unit) option" where
  "single_commit_path wal st tx ups first_seq =
     (case wal of
        Prepare_failed \<Rightarrow> (st, Some (Inl Storage))
      | Append_failed \<Rightarrow>
          (if first_seq > 0 then st\<lparr>ls_ssi := fst (forget_from (ls_ssi st) first_seq)\<rparr> else st, None)
      | Appended \<Rightarrow> (advance_visibility (apply_mem_updates st ups tx) tx, Some (Inr ())))"

text \<open>The guard releases the locks of the transaction on every way out after the budget check.\<close>

definition lsm_commit :: "lsm_params \<Rightarrow> bool \<Rightarrow> wal_outcome \<Rightarrow> lsm \<Rightarrow> u64 \<Rightarrow> lsm \<times> (lsm_error + unit) option" where
  "lsm_commit p memory_ok wal st tx =
     (if \<not> memory_ok then (st, Some (Inl Storage))
      else (let read_set = get_read_set (ls_txb st) tx;
                (tb, ops) = drain_kv (lp_key_hash p) (ls_txb st) tx;
                st1 = cleanup_intent_locks (\<lambda>t. t = tx) (st\<lparr>ls_txb := tb\<rparr>)
            in if ops = [] then (st1, Some (Inr ()))
               else case (case read_set of
                            Some rs \<Rightarrow> if read_set_is_empty rs then Inr () else validate (lp_doc_id p) (ls_ssi st1) tx rs
                          | None \<Rightarrow> Inr ()) of
                      Inl e \<Rightarrow> (st1, Some (Inl (Conflict e)))
                    | Inr _ \<Rightarrow> (let (st2, ups, first_seq) = prepare_commit_ops st1 ops
                               in single_commit_path wal st2 tx ups first_seq)))"

section \<open>Flush\<close>

text \<open>\<open>key_map.entry(k).or_default().push(v)\<close>\<close>

definition group_versions :: "entry list \<Rightarrow> (bytes \<times> (bytes \<times> u64 \<times> u64) list) list" where
  "group_versions es =
     foldl (\<lambda>m (k, v). bt_insert k (lookup_or [] m k @ [v]) m) [] es"

text \<open>A stable sort by descending sequence numbers.\<close>

definition newest_first :: "(bytes \<times> u64 \<times> u64) list \<Rightarrow> (bytes \<times> u64 \<times> u64) list" where
  "newest_first vs = rev (sort_key (\<lambda>v. mask_seq (fst (snd v))) (rev vs))"

definition flush_entries :: "u64 \<Rightarrow> mem_table list \<Rightarrow> entry list" where
  "flush_entries floor_seq mts =
     concat (map (\<lambda>(k, versions).
       map (\<lambda>v. (k, v)) (retain_key_versions (newest_first versions) (\<lambda>v. fst (snd v)) floor_seq))
       (group_versions (concat (map mt_iter mts))))"

definition write_file :: "lsm_params \<Rightarrow> entry list \<Rightarrow> lsm_error + sst_reader" where
  "write_file p es =
     (case sst_write (lp_blake3 p) (lp_crc32 p) (lp_km p) (lp_bits p) (lp_hashes p) 4 es of
        Inl e \<Rightarrow> Inl (File_error e)
      | Inr (bs, meta) \<Rightarrow>
          (case sst_open (lp_crc32 p) (lp_km p) bs of Inl e \<Rightarrow> Inl Storage | Inr rd \<Rightarrow> Inr rd))"

definition sort_files :: "sst_reader list \<Rightarrow> sst_reader list" where
  "sort_files = sort_key (\<lambda>rd. mask_seq (sm_max_seq (rd_meta rd)))"

definition rotate :: "lsm \<Rightarrow> lsm" where
  "rotate st = (if mt_is_empty (ls_mem st) then st else st\<lparr>ls_mem := mem_table_new, ls_imm := ls_imm st @ [ls_mem st]\<rparr>)"

definition install_file :: "lsm \<Rightarrow> sst_reader \<Rightarrow> lsm" where
  "install_file st rd =
     (let st' = advance_visibility (st\<lparr>ls_imm := []\<rparr>) (sm_max_tx (rd_meta rd));
          prune_bound = min (case tb_min_read_snapshot (ls_txb st') of None \<Rightarrow> U64_MAX | Some s \<Rightarrow> s)
                            (sr_min_active (ls_registry st'))
      in st'\<lparr>ls_ssts := sort_files (ls_ssts st' @ [rd]), ls_ssi := fst (ssi_prune_through (ls_ssi st') prune_bound)\<rparr>)"

definition lsm_flush :: "lsm_params \<Rightarrow> bool \<Rightarrow> bool \<Rightarrow> lsm \<Rightarrow> lsm \<times> (lsm_error + unit)" where
  "lsm_flush p wal_ok manifest_ok st =
     (if mt_is_empty (ls_mem st) \<and> ls_imm st = [] then (st, Inr ())
      else if \<not> mt_is_empty (ls_mem st) \<and> \<not> wal_ok then (st, Inl Storage)
      else (let st1 = rotate st
            in case write_file p (flush_entries (sr_min_active (ls_registry st1)) (ls_imm st1)) of
                 Inl e \<Rightarrow> (st1, Inl e)
               | Inr rd \<Rightarrow> if manifest_ok then (install_file st1 rd, Inr ()) else (st1, Inl Storage)))"

section \<open>Compaction\<close>

text \<open>The files that are merged in ascending order of their sequence numbers, with their places: \<open>Arc::ptr_eq\<close>
  compares the places.\<close>

definition input_order :: "sst_reader list \<Rightarrow> (sst_reader \<times> nat) list" where
  "input_order window = sort_key (\<lambda>e. mask_seq (sm_max_seq (rd_meta (fst e)))) (zip window [0..<length window])"

text \<open>The planner picks the files from \<open>start\<close> on, \<open>n\<close> of them; fewer than two are not merged.\<close>

definition maybe_compact ::
  "lsm_params \<Rightarrow> (sst_meta list \<Rightarrow> (nat \<times> nat) option) \<Rightarrow> nat \<Rightarrow> merge_config \<Rightarrow> merge_env \<Rightarrow> bool \<Rightarrow> bool \<Rightarrow> lsm \<Rightarrow>
   (lsm \<times> (lsm_error + bool)) option" where
  "maybe_compact p pick min_tier cfg env memory_ok manifest_ok st =
     (if length (ls_ssts st) < min_tier then Some (st, Inr False)
      else case pick (map rd_meta (ls_ssts st)) of
             None \<Rightarrow> Some (st, Inr False)
           | Some (start, n) \<Rightarrow>
               (if n < 2 then Some (st, Inr False)
                else if \<not> memory_ok then Some (st, Inl Over_budget)
                else let window = take n (drop start (ls_ssts st));
                         order = input_order window; inputs = map fst order
                     in map_option (\<lambda>r.
                          case r of
                            Inl e \<Rightarrow> (st, Inl (Merge_error e))
                          | Inr (bs, meta) \<Rightarrow>
                              (case sst_open (lp_crc32 p) (lp_km p) bs of
                                 Inl e \<Rightarrow> (st, Inl (File_error e))
                               | Inr rd \<Rightarrow>
                                   if map snd order \<noteq> [0..<length window] then (st, Inr False)
                                   else if \<not> manifest_ok then (st, Inl Storage)
                                   else (st\<lparr>ls_ssts := sort_files
                                           (take start (ls_ssts st) @ rd # drop (start + n) (ls_ssts st))\<rparr>, Inr True)))
                        (merge_sstables (lp_blake3 p) (lp_crc32 p) (lp_bits p) (lp_hashes p) (lp_km p)
                           (cfg\<lparr>mc_floor := sr_min_active (ls_registry st),
                                mc_full := (length window = length (ls_ssts st))\<rparr>) env inputs)))"

section \<open>Rollback to a transaction\<close>

definition prune_memtable_above_tx :: "u64 \<Rightarrow> mem_table \<Rightarrow> mem_table" where
  "prune_memtable_above_tx target mt =
     foldl MemTable.rollback mt (remdups (filter (\<lambda>tx. tx > target) (map (\<lambda>(k, v, s, tx). tx) (mt_iter mt))))"

text \<open>The stream of a file up to its end, at most \<open>fuel\<close> entries.\<close>

fun read_stream :: "(bytes \<Rightarrow> u32) \<Rightarrow> nat \<Rightarrow> sst_reader \<Rightarrow> sst_stream \<Rightarrow> sst_error + entry list" where
  "read_stream crc32 0 rd ss = Inr []"
| "read_stream crc32 (Suc fuel) rd ss =
     bind_res (stream_next crc32 rd ss) (\<lambda>(ss', r).
       case r of None \<Rightarrow> Inr [] | Some e \<Rightarrow> bind_res (read_stream crc32 fuel rd ss') (\<lambda>es. Inr (e # es)))"

text \<open>The entries of a file that spans the target: into a new file, or into the MemTable when they are few.\<close>

definition salvage ::
  "lsm_params \<Rightarrow> bool \<Rightarrow> u64 \<Rightarrow> sst_reader \<Rightarrow> mem_table \<times> sst_reader list \<Rightarrow>
   (mem_table \<times> sst_reader list) \<times> (lsm_error + unit)" where
  "salvage p manifest_ok target rd acc =
     (case read_stream (lp_crc32 p) (length (rd_file rd)) rd sst_stream_new of
        Inl e \<Rightarrow> (acc, Inl (File_error e))
      | Inr es \<Rightarrow>
          (let surviving = filter (\<lambda>(k, v, s, tx). tx \<le> target) es
           in if length surviving \<ge> MIN_ENTRIES_FOR_SSTABLE_REBUILD
              then case write_file p surviving of
                     Inl e \<Rightarrow> (acc, Inl e)
                   | Inr rd' \<Rightarrow> if manifest_ok then ((fst acc, snd acc @ [rd']), Inr ()) else (acc, Inl Storage)
              else ((foldl (\<lambda>mt (k, v, s, tx). mt_put mt k v s tx) (fst acc) surviving, snd acc), Inr ())))"

fun salvage_all ::
  "lsm_params \<Rightarrow> bool \<Rightarrow> u64 \<Rightarrow> sst_reader list \<Rightarrow> mem_table \<times> sst_reader list \<Rightarrow>
   (mem_table \<times> sst_reader list) \<times> (lsm_error + unit)" where
  "salvage_all p manifest_ok target [] acc = (acc, Inr ())"
| "salvage_all p manifest_ok target (rd # rds) acc =
     (case salvage p manifest_ok target rd acc of
        (acc', Inl e) \<Rightarrow> (acc', Inl e)
      | (acc', Inr _) \<Rightarrow> salvage_all p manifest_ok target rds acc')"

definition max_seq_of :: "lsm \<Rightarrow> u64" where
  "max_seq_of st =
     foldl max (foldl max 0 (map (\<lambda>rd. mask_seq (sm_max_seq (rd_meta rd))) (ls_ssts st)))
       (map (\<lambda>(k, v, s, tx). mask_seq s) (concat (map mt_iter (ls_mem st # ls_imm st))))"

text \<open>The sequence counter and the visible transaction are set back, \<open>last_applied_seq\<close> is not.\<close>

definition rollback_to_tx :: "lsm_params \<Rightarrow> bool \<Rightarrow> bool \<Rightarrow> lsm \<Rightarrow> u64 \<Rightarrow> lsm \<times> (lsm_error + unit)" where
  "rollback_to_tx p wal_ok manifest_ok st target =
     (let st1 = cleanup_intent_locks (\<lambda>t. t > target) st
      in if \<not> wal_ok then (st1, Inl Storage)
         else let st2 = st1\<lparr>ls_mem := prune_memtable_above_tx target (ls_mem st1),
                            ls_imm := map (prune_memtable_above_tx target) (ls_imm st1)\<rparr>;
                  above_target = (\<lambda>rd. sm_min_tx (rd_meta rd) > target);
                  spans_target = (\<lambda>rd. sm_min_tx (rd_meta rd) \<le> target \<and> sm_max_tx (rd_meta rd) > target);
                  kept = filter (\<lambda>rd. \<not> above_target rd \<and> \<not> spans_target rd) (ls_ssts st2)
              in (case salvage_all p manifest_ok target (filter spans_target (ls_ssts st2)) (ls_mem st2, kept) of
                    ((mt, ssts), Inl e) \<Rightarrow> (st2\<lparr>ls_mem := mt, ls_ssts := ssts\<rparr>, Inl e)
                  | ((mt, ssts), Inr _) \<Rightarrow>
                      (let st3 = st2\<lparr>ls_mem := mt, ls_ssts := sort_files ssts\<rparr>
                       in (cleanup_intent_locks (\<lambda>t. \<not> t \<le> target)
                             (st3\<lparr>ls_next_seq := max_seq_of st3 + 1, ls_committed_tx := target\<rparr>), Inr ()))))"

section \<open>Checkpoints and statistics\<close>

definition pin_checkpoint :: "u64 \<Rightarrow> lsm \<Rightarrow> u64 \<Rightarrow> lsm" where
  "pin_checkpoint now st seq_no = st\<lparr>ls_registry := pin_at (ls_registry st) seq_no now\<rparr>"

definition unpin_checkpoint :: "lsm \<Rightarrow> u64 \<Rightarrow> lsm" where
  "unpin_checkpoint st seq_no = st\<lparr>ls_registry := unpin (ls_registry st) seq_no\<rparr>"

definition last_seq_no :: "lsm \<Rightarrow> u64" where
  "last_seq_no st = saturating_sub (ls_next_seq st) 1"

definition last_tx_id :: "lsm \<Rightarrow> u64" where
  "last_tx_id st = ls_committed_tx st"

record storage_stats =
  num_segments :: nat
  total_size_bytes :: nat
  memtable_size_bytes :: nat

definition lsm_stats :: "lsm \<Rightarrow> storage_stats" where
  "lsm_stats st =
     \<lparr>num_segments = length (ls_ssts st),
      total_size_bytes = sum_list (map (\<lambda>rd. sm_file_size (rd_meta rd)) (ls_ssts st)),
      memtable_size_bytes = mt_size (ls_mem st) + sum_list (map mt_size (ls_imm st))\<rparr>"

end
