(* ===== verification/LsmSource.thy ===== *)
theory LsmSource
  imports LsmWrite
begin

text \<open>
  The sources of versions of the storage engine. A MemTable and an SSTable answer a point read by the newest of
  the versions they hold; \<open>version_source\<close> is this contract, and its client is the search through a list
  of sources, which returns the newest version of all when newer sources hold the greater
  sequence numbers.
\<close>

section \<open>The newest version\<close>

lemma newest_None: "newest k s es = None \<longleftrightarrow> (\<forall>e \<in> set es. \<not> (fst e = k \<and> entry_raw e \<le> s))"
proof
  assume none: "newest k s es = None"
  show "\<forall>e \<in> set es. \<not> (fst e = k \<and> entry_raw e \<le> s)"
  proof (rule ccontr)
    assume "\<not> ?thesis"
    then have ne: "entry_raw ` {e \<in> set es. fst e = k \<and> entry_raw e \<le> s} \<noteq> {}" by blast
    have fin: "finite (entry_raw ` {e \<in> set es. fst e = k \<and> entry_raw e \<le> s})" by simp
    from Max_in [OF fin ne] obtain e where "e \<in> set es" "fst e = k" "entry_raw e \<le> s"
      and e: "entry_raw e = Max (entry_raw ` {e \<in> set es. fst e = k \<and> entry_raw e \<le> s})" by auto
    moreover have "\<forall>e' \<in> set es. fst e' = k \<and> entry_raw e' \<le> s \<longrightarrow> entry_raw e' \<le> entry_raw e"
      unfolding e using fin by auto
    ultimately show False using none unfolding newest_def find_None_iff by blast
  qed
next
  assume "\<forall>e \<in> set es. \<not> (fst e = k \<and> entry_raw e \<le> s)"
  then show "newest k s es = None" unfolding newest_def by (auto simp: find_None_iff)
qed

definition is_newest :: "bytes \<Rightarrow> u64 \<Rightarrow> entry list \<Rightarrow> entry \<Rightarrow> bool" where
  "is_newest k s es e \<longleftrightarrow> e \<in> set es \<and> fst e = k \<and> entry_raw e \<le> s \<and>
     (\<forall>e' \<in> set es. fst e' = k \<and> entry_raw e' \<le> s \<longrightarrow> entry_raw e' \<le> entry_raw e)"

lemma newest_is: "newest k s es = Some e \<Longrightarrow> is_newest k s es e"
  by (auto simp: newest_def is_newest_def find_Some_iff)

lemma same_version:
  "versions_distinct es \<Longrightarrow> e \<in> set es \<Longrightarrow> e' \<in> set es \<Longrightarrow> fst e = fst e' \<Longrightarrow> entry_raw e = entry_raw e' \<Longrightarrow> e = e'"
  by (auto simp: distinct_map inj_on_def)

lemma newest_eqI: "versions_distinct es \<Longrightarrow> is_newest k s es e \<Longrightarrow> newest k s es = Some e"
proof -
  assume dist: "versions_distinct es" and e: "is_newest k s es e"
  obtain e' where e': "newest k s es = Some e'" using e newest_None [of k s es]
    by (cases "newest k s es") (auto simp: is_newest_def)
  from newest_is [OF e'] e have "entry_raw e' = entry_raw e" by (fastforce simp: is_newest_def)
  with same_version [OF dist] newest_is [OF e'] e have "e' = e" by (auto simp: is_newest_def)
  with e' show ?thesis by simp
qed

lemma newest_Some: "versions_distinct es \<Longrightarrow> newest k s es = Some e \<longleftrightarrow> is_newest k s es e"
  using newest_is newest_eqI by blast

lemma newest_set: "versions_distinct es \<Longrightarrow> versions_distinct es' \<Longrightarrow> set es = set es' \<Longrightarrow> newest k s es = newest k s es'"
proof -
  assume d: "versions_distinct es" "versions_distinct es'" and same: "set es = set es'"
  show ?thesis
  proof (cases "newest k s es'")
    case None
    then have "newest k s es = None" unfolding newest_None same .
    with None show ?thesis by simp
  next
    case (Some e)
    from newest_is [OF this] have "is_newest k s es e" unfolding is_newest_def same .
    with newest_eqI [OF d(1)] Some show ?thesis by simp
  qed
qed

text \<open>A list of greater sequence numbers takes precedence.\<close>

definition seqs_below :: "entry list \<Rightarrow> entry list \<Rightarrow> bool" where
  "seqs_below xs ys \<longleftrightarrow> (\<forall>x \<in> set xs. \<forall>y \<in> set ys. entry_raw x < entry_raw y)"

lemma versions_distinct_append: "seqs_below xs ys \<Longrightarrow> versions_distinct xs \<Longrightarrow> versions_distinct ys \<Longrightarrow> versions_distinct (xs @ ys)"
  by (fastforce simp: seqs_below_def)

lemma newest_append:
  assumes "seqs_below xs ys" and "versions_distinct xs" and "versions_distinct ys"
  shows "newest k s (xs @ ys) = (case newest k s ys of Some e \<Rightarrow> Some e | None \<Rightarrow> newest k s xs)"
proof (cases "newest k s ys")
  case None
  then have ys: "\<forall>e \<in> set ys. \<not> (fst e = k \<and> entry_raw e \<le> s)" by (simp add: newest_None)
  show ?thesis
  proof (cases "newest k s xs")
    case None
    with ys have "newest k s (xs @ ys) = None" unfolding newest_None by auto
    with None \<open>newest k s ys = None\<close> show ?thesis by simp
  next
    case (Some e)
    from newest_is [OF this] ys have "is_newest k s (xs @ ys) e" unfolding is_newest_def set_append by blast
    with newest_eqI [OF versions_distinct_append [OF assms]] Some \<open>newest k s ys = None\<close> show ?thesis by simp
  qed
next
  case (Some e)
  from newest_is [OF this] have e: "is_newest k s ys e" .
  then have "\<forall>x \<in> set xs. entry_raw x \<le> entry_raw e"
    using assms(1) by (auto simp: seqs_below_def is_newest_def intro: less_imp_le)
  with e have "is_newest k s (xs @ ys) e" unfolding is_newest_def set_append by blast
  with newest_eqI [OF versions_distinct_append [OF assms]] Some show ?thesis by simp
qed

section \<open>Sources\<close>

definition tx_seen :: "u64 \<Rightarrow> entry \<Rightarrow> bool" where
  "tx_seen tx e \<longleftrightarrow> tx_of e \<le> tx \<or> tx_of e \<ge> INTERNAL_BASE"

text \<open>Layers from the oldest to the newest, and what the search through them finds.\<close>

definition layered :: "entry list list \<Rightarrow> bool" where
  "layered ess \<longleftrightarrow> sorted_wrt seqs_below ess \<and> (\<forall>es \<in> set ess. versions_distinct es)"

lemma layered_append:
  "layered (xs @ ys) \<longleftrightarrow> layered xs \<and> layered ys \<and> (\<forall>x \<in> set xs. \<forall>y \<in> set ys. seqs_below x y)"
  by (auto simp: layered_def sorted_wrt_append)

lemma layered_snoc: "layered (ess @ [es]) \<longleftrightarrow> layered ess \<and> versions_distinct es \<and> seqs_below (concat ess) es"
proof -
  have "(\<forall>x \<in> set ess. seqs_below x es) \<longleftrightarrow> seqs_below (concat ess) es" by (auto simp: seqs_below_def)
  then show ?thesis unfolding layered_append unfolding layered_def by auto
qed

lemma layered_distinct: "layered ess \<Longrightarrow> versions_distinct (concat ess)"
proof (induction ess rule: rev_induct)
  case (snoc es ess)
  then show ?case using versions_distinct_append [of "concat ess" es] by (simp add: layered_snoc)
qed simp

fun look_first :: "('s \<Rightarrow> lsm_error + 'r option) \<Rightarrow> 's list \<Rightarrow> lsm_error + 'r option" where
  "look_first look [] = Inr None"
| "look_first look (x # xs) =
     (case look x of Inl e \<Rightarrow> Inl e | Inr (Some r) \<Rightarrow> Inr (Some r) | Inr None \<Rightarrow> look_first look xs)"

locale version_source =
  fixes holds :: "'s \<Rightarrow> entry list \<Rightarrow> bool"
    and look :: "bytes \<Rightarrow> u64 \<Rightarrow> u64 \<Rightarrow> 's \<Rightarrow> lsm_error + (bytes \<times> u64 \<times> u64) option"
  assumes look_newest: "holds src es \<Longrightarrow> versions_distinct es \<Longrightarrow> \<forall>e \<in> set es. tx_seen tx e \<Longrightarrow>
    look k s tx src = Inr (map_option snd (newest k (mask_seq s) es))"
begin

lemma look_layers:
  "list_all2 holds srcs ess \<Longrightarrow> layered ess \<Longrightarrow> \<forall>e \<in> set (concat ess). tx_seen tx e \<Longrightarrow>
   look_first (look k s tx) (rev srcs) = Inr (map_option snd (newest k (mask_seq s) (concat ess)))"
proof (induction ess arbitrary: srcs rule: rev_induct)
  case Nil
  then show ?case by (simp add: newest_def)
next
  case (snoc es ess)
  then obtain srcs' src where srcs: "srcs = srcs' @ [src]" "list_all2 holds srcs' ess" "holds src es"
    by (auto simp: list_all2_append2 list_all2_Cons2)
  have parts: "layered ess" "versions_distinct es" "seqs_below (concat ess) es"
    using snoc.prems(2) by (simp_all add: layered_snoc)
  note IH = snoc.IH [OF srcs(2) parts(1)]
  have "look k s tx src = Inr (map_option snd (newest k (mask_seq s) es))"
    using look_newest [OF srcs(3) parts(2)] snoc.prems(3) by simp
  moreover have "newest k (mask_seq s) (concat (ess @ [es])) =
      (case newest k (mask_seq s) es of Some e \<Rightarrow> Some e | None \<Rightarrow> newest k (mask_seq s) (concat ess))"
    using newest_append [OF parts(3) layered_distinct [OF parts(1)] parts(2)] by simp
  ultimately show ?case using IH snoc.prems(3) srcs(1) by (cases "newest k (mask_seq s) es") simp_all
qed

end

section \<open>MemTables\<close>

definition entries_of :: "mem_log \<Rightarrow> entry list" where
  "entries_of log = map (\<lambda>(k, s, v, t). (k, v, s, t)) log"

definition mem_holds :: "mem_table \<Rightarrow> entry list \<Rightarrow> bool" where
  "mem_holds mt es \<longleftrightarrow> (\<exists>log. mt_ok log mt \<and> es = entries_of log)"

definition mem_look :: "bytes \<Rightarrow> u64 \<Rightarrow> u64 \<Rightarrow> mem_table \<Rightarrow> lsm_error + (bytes \<times> u64 \<times> u64) option" where
  "mem_look k s tx mt = Inr (get_at_seq mt k s tx)"

lemma set_log_versions: "v \<in> set (log_versions log k) \<longleftrightarrow> (k, v) \<in> set log"
  by (force simp: log_versions_def)

lemma entries_of_in: "(k, val, s, t) \<in> set (entries_of log) \<longleftrightarrow> (k, (s, val, t)) \<in> set log"
  by (force simp: entries_of_def)

lemma log_last_newest:
  assumes dist: "versions_distinct (entries_of log)" and seen: "\<forall>e \<in> set (entries_of log). tx_seen tx e"
  shows "map_option (\<lambda>(seq, val, tx). (k, val, seq, tx)) 
      (last_version (filter (\<lambda>v. raw_seq v \<le> s \<and> tx_visible tx v) (log_versions log k))) = newest k s (entries_of log)"
proof (cases "last_version (filter (\<lambda>v. raw_seq v \<le> s \<and> tx_visible tx v) (log_versions log k))")
  case None
  have "\<not> (fst e = k \<and> entry_raw e \<le> s)" if e: "e \<in> set (entries_of log)" for e
  proof
    assume le: "fst e = k \<and> entry_raw e \<le> s"
    obtain val q t where e': "e = (k, val, q, t)" using le by (cases e) auto
    with e le bspec [OF seen e] have "(q, val, t) \<in> set (filter (\<lambda>v. raw_seq v \<le> s \<and> tx_visible tx v) (log_versions log k))"
      by (auto simp: set_log_versions entries_of_in raw_seq_def entry_raw_def tx_visible_def tx_seen_def)
    with None show False by (auto simp: last_version_def filter_empty_conv split: if_splits)
  qed
  then have "newest k (s) (entries_of log) = None" by (simp add: newest_None)
  with None show ?thesis by simp
next
  case (Some v)
  let ?vs = "filter (\<lambda>v. raw_seq v \<le> s \<and> tx_visible tx v) (log_versions log k)"
  obtain q val t where v: "v = (q, val, t)" by (cases v) auto
  have ne: "?vs \<noteq> []" and last: "v = last ?vs" using Some by (auto simp: last_version_def split: if_splits)
  have sorted: "sorted (map raw_seq ?vs)" by (simp add: log_versions_def sorted_filter)
  have le: "raw_seq w \<le> raw_seq v" if w: "w \<in> set ?vs" for w
  proof -
    from w obtain i where i: "i < length ?vs" "w = ?vs ! i" unfolding in_set_conv_nth by blast
    have "map raw_seq ?vs ! i \<le> map raw_seq ?vs ! (length ?vs - 1)"
      using sorted by (rule sorted_nth_mono) (use i in auto)
    with i ne last show ?thesis by (simp add: last_conv_nth)
  qed
  have "v \<in> set ?vs" unfolding last using ne by (rule last_in_set)
  then have mem: "(k, val, q, t) \<in> set (entries_of log)" "entry_raw (k, val, q, t) \<le> s"
    by (auto simp: v set_log_versions entries_of_in raw_seq_def entry_raw_def)
  have "entry_raw e \<le> entry_raw (k, val, q, t)"
    if e: "e \<in> set (entries_of log)" "fst e = k" "entry_raw e \<le> s" for e
  proof -
    obtain val' q' t' where e': "e = (k, val', q', t')" using e(2) by (cases e) auto
    with e bspec [OF seen e(1)] have "(q', val', t') \<in> set ?vs"
      by (auto simp: set_log_versions entries_of_in raw_seq_def entry_raw_def tx_visible_def tx_seen_def)
    from le [OF this] show ?thesis by (simp add: e' v raw_seq_def entry_raw_def)
  qed
  with mem have "is_newest k (s) (entries_of log) (k, val, q, t)" by (simp add: is_newest_def)
  from newest_eqI [OF dist this] Some show ?thesis by (simp add: v)
qed

lemma log_read_newest:
  assumes "versions_distinct (entries_of log)" and "\<forall>e \<in> set (entries_of log). tx_seen tx e"
  shows "map_option (\<lambda>(seq, val, tx). (k, val, seq, tx)) (log_read log k s tx) = newest k (mask_seq s) (entries_of log)"
  unfolding log_read_def by (rule log_last_newest [OF assms])

interpretation mem_source: version_source mem_holds mem_look
proof
  fix mt es tx k s
  assume "mem_holds mt es" and dist: "versions_distinct es" and seen: "\<forall>e \<in> set es. tx_seen tx e"
  then obtain log where log: "mt_ok log mt" and es: "es = entries_of log" by (auto simp: mem_holds_def)
  have "map_option (\<lambda>(seq, val, tx). (val, seq, tx)) (log_read log k s tx) =
      map_option snd (map_option (\<lambda>(seq, val, tx). (k, val, seq, tx)) (log_read log k s tx))"
    by (cases "log_read log k s tx") auto
  with log_read_newest [OF dist [unfolded es] seen [unfolded es]] get_at_seq_log [OF log, of k s tx]
  show "mem_look k s tx mt = Inr (map_option snd (newest k (mask_seq s) es))" by (simp add: mem_look_def es)
qed

lemma get_from_mems_look:
  "look_first (mem_look k s tx) mts = Inr (get_from_mems mts k s tx)"
  by (induction mts) (auto simp: mem_look_def split: option.splits)

section \<open>SSTables\<close>

definition sst_look ::
  "lsm_params \<Rightarrow> bytes \<Rightarrow> u64 \<Rightarrow> u64 \<Rightarrow> sst_reader \<Rightarrow> lsm_error + (bytes \<times> u64 \<times> u64) option" where
  "sst_look p k s tx rd =
     (if sst_skipped (rd_meta rd) s tx then Inr None
      else case SstFile.get_at (lp_blake3 p) (lp_crc32 p) rd k s tx of Inl e \<Rightarrow> Inl (File_error e) | Inr r \<Rightarrow> Inr r)"

lemma get_from_ssts_look:
  "get_from_ssts p rds k s tx = look_first (sst_look p k s tx) rds"
  by (induction rds) (auto simp: sst_look_def split: sum.splits option.splits)

lemma sst_input_read:
  assumes "sst_input blake3 crc32 rd es"
  shows "SstFile.get_at blake3 crc32 rd k s tx = Inr (map_option snd (find (\<lambda>e. fst e = k \<and> entry_visible (mask_seq s) tx e) es))"
proof -
  from assms obtain km v m hashes bs meta where w: "km_ok km" "v = 3 \<or> v = 4"
    "sst_write blake3 crc32 km m hashes v es = Inr (bs, meta)"
    "\<forall>e \<in> set es. length (fst (snd e)) \<le> READABLE_VALUE" and opn: "sst_open crc32 km bs = Inr rd"
    unfolding sst_input_def by blast
  from written_point_read [OF w, of k s tx] opn show ?thesis by simp
qed

lemma sst_input_meta:
  assumes "sst_input blake3 crc32 rd es" and "es \<noteq> []"
  shows "sm_min_seq (rd_meta rd) = foldl min U64_MAX (map entry_raw es)"
    and "sm_max_seq (rd_meta rd) = foldl max 0 (map entry_raw es)"
    and "sm_min_tx (rd_meta rd) = foldl min U64_MAX (map tx_of es)"
    and "sm_max_tx (rd_meta rd) = foldl max 0 (map tx_of es)"
    and "sm_first_key (rd_meta rd) = fst (hd es)" and "sm_last_key (rd_meta rd) = fst (last es)"
proof -
  from assms(1) obtain km v m hashes bs meta where w: "km_ok km" "v = 3 \<or> v = 4"
    "sst_write blake3 crc32 km m hashes v es = Inr (bs, meta)"
    "\<forall>e \<in> set es. length (fst (snd e)) \<le> READABLE_VALUE" and opn: "sst_open crc32 km bs = Inr rd"
    unfolding sst_input_def by blast
  have v: "3 \<le> v" "v \<le> 4" using w(2) by auto
  obtain rd' where "sst_open crc32 km bs = Inr rd'" "es \<noteq> [] \<longrightarrow> rd_meta rd' = meta"
    by (rule written_readable [OF w])
  with opn assms(2) have meta: "rd_meta rd = meta" by simp
  obtain sb where noted: "noted blake3 (bloom_new m hashes) es sb"
    and m: "meta = \<lparr>sm_first_key = (if es = [] then [] else fst (hd es)), sm_last_key = (if es = [] then [] else fst (last es)),
      sm_file_size = length bs, sm_min_tx = (if es = [] then 0 else sb_min_tx sb),
      sm_max_tx = (if es = [] then 0 else sb_max_tx sb), sm_min_seq = (if es = [] then 0 else sb_min_seq sb),
      sm_max_seq = (if es = [] then 0 else sb_max_seq sb)\<rparr>"
    by (rule written_file [OF w(1) v w(3)])
  have raw: "map (\<lambda>e. mask_seq (seq_of e)) es = map entry_raw es" by (simp add: entry_raw_def)
  show "sm_min_seq (rd_meta rd) = foldl min U64_MAX (map entry_raw es)"
    "sm_max_seq (rd_meta rd) = foldl max 0 (map entry_raw es)"
    "sm_min_tx (rd_meta rd) = foldl min U64_MAX (map tx_of es)"
    "sm_max_tx (rd_meta rd) = foldl max 0 (map tx_of es)"
    "sm_first_key (rd_meta rd) = fst (hd es)" "sm_last_key (rd_meta rd) = fst (last es)"
    using noted assms(2) unfolding meta m noted_def raw by simp_all
qed

interpretation sst_source: version_source "sst_input (lp_blake3 p) (lp_crc32 p)" "sst_look p" for p
proof
  fix rd es tx k s
  assume inp: "sst_input (lp_blake3 p) (lp_crc32 p) rd es" and dist: "versions_distinct es"
    and seen: "\<forall>e \<in> set es. tx_seen tx e"
  show "sst_look p k s tx rd = Inr (map_option snd (newest k (mask_seq s) es))"
  proof (cases "es = []")
    case True
    with sst_input_read [OF inp] show ?thesis by (simp add: sst_look_def newest_def)
  next
    case False
    note meta = sst_input_meta [OF inp False]
    have min_in: "foldl min U64_MAX xs \<in> insert U64_MAX (set xs)" "\<forall>x \<in> set xs. foldl min U64_MAX xs \<le> x" for xs
      unfolding foldl_min_max_set using Min_in [of "insert U64_MAX (set xs)"] by auto
    show ?thesis
    proof (cases "sst_skipped (rd_meta rd) s tx")
      case True
      have "\<not> (sm_min_tx (rd_meta rd) < INTERNAL_BASE \<and> tx < sm_min_tx (rd_meta rd))"
      proof
        assume *: "sm_min_tx (rd_meta rd) < INTERNAL_BASE \<and> tx < sm_min_tx (rd_meta rd)"
        have "U64_MAX \<ge> INTERNAL_BASE" by simp
        with * have "sm_min_tx (rd_meta rd) \<noteq> U64_MAX" by (metis not_le)
        with min_in(1) [of "map tx_of es"] obtain e where e: "e \<in> set es" "sm_min_tx (rd_meta rd) = tx_of e"
          unfolding meta(3) by auto
        with bspec [OF seen e(1)] * show False by (auto simp: tx_seen_def)
      qed
      with True have "s < sm_min_seq (rd_meta rd)" by (simp add: sst_skipped_def)
      moreover have "\<forall>e \<in> set es. sm_min_seq (rd_meta rd) \<le> entry_raw e" unfolding meta(1) using min_in(2) by fastforce
      ultimately have "\<forall>e \<in> set es. s < entry_raw e" by fastforce
      then have "\<forall>e \<in> set es. \<not> entry_raw e \<le> mask_seq s"
        using le_less_trans [OF mask_seq_le] not_le by blast
      then have "newest k (mask_seq s) es = None" unfolding newest_None by blast
      with True show ?thesis by (simp add: sst_look_def)
    next
      case nskip: False
      have "find (\<lambda>e. fst e = k \<and> entry_visible (mask_seq s) tx e) es = find (\<lambda>e. fst e = k \<and> entry_raw e \<le> mask_seq s) es"
      proof (rule find_cong [OF refl])
        fix e assume "e \<in> set es"
        with seen have "tx_seen tx e" by blast
        then show "(fst e = k \<and> entry_visible (mask_seq s) tx e) = (fst e = k \<and> entry_raw e \<le> mask_seq s)"
          unfolding tx_seen_def entry_visible_def entry_raw_def INTERNAL_BASE_def by (cases e) fastforce
      qed
      also have "\<dots> = newest k (mask_seq s) es" by (rule find_newest [OF sst_input_gives(2) [OF inp] refl dist])
      finally show ?thesis using nskip sst_input_read [OF inp, of k s tx] by (simp add: sst_look_def)
    qed
  qed
qed

end
