(* ===== verification/LsmState.thy ===== *)
theory LsmState
  imports LsmSource TxBufferRuns
begin

text \<open>
  The contents of the storage engine. \<open>in_layers\<close> relates the files and MemTables to lists of entries in layers,
  from the oldest to the newest; point reads return the newest version of all layers, and sorting the files
  by their greatest sequence number keeps the layers in order.
\<close>

section \<open>Values of versions\<close>

definition value_of :: "entry option \<Rightarrow> bytes option" where
  "value_of r = Option.bind r (\<lambda>e. live_value (snd e))"

lemma value_of_simps [simp]:
  "value_of None = None"
  "value_of (Some (k, val, seq, tx)) = (if seq AND TOMBSTONE_BIT \<noteq> 0 then None else Some val)"
  by (simp_all add: value_of_def live_value_def)

lemma value_of_map: "Option.bind (map_option snd r) live_value = value_of r"
  by (cases r) (simp_all add: value_of_def)

lemma value_of_tombstone: "value_of (Some e) = None \<longleftrightarrow> entry_tombstone e"
  by (cases e) (simp add: entry_tombstone_def)

definition seqs_upto :: "u64 \<Rightarrow> entry list \<Rightarrow> bool" where
  "seqs_upto n es \<longleftrightarrow> (\<forall>e \<in> set es. entry_raw e \<le> n)"

text \<open>At and above the greatest sequence number every snapshot sees the same.\<close>

lemma newest_above:
  assumes "versions_distinct es" and "seqs_upto s es" and "seqs_upto s' es"
  shows "newest k s es = newest k s' es"
proof -
  have "is_newest k s es e = is_newest k s' es e" for e
    using assms(2,3) unfolding is_newest_def seqs_upto_def by blast
  then show ?thesis using newest_Some [OF assms(1)] by (metis not_Some_eq)
qed

lemma newest_subset:
  assumes dist: "versions_distinct ys" "versions_distinct xs" and sub: "set xs \<subseteq> set ys"
    and dom: "\<And>e. e \<in> set ys \<Longrightarrow> fst e = k \<Longrightarrow> entry_raw e \<le> s \<Longrightarrow>
      \<exists>e' \<in> set xs. fst e' = k \<and> entry_raw e' \<le> s \<and> entry_raw e \<le> entry_raw e'"
  shows "newest k s xs = newest k s ys"
proof (cases "newest k s ys")
  case None
  then have "newest k s xs = None" using sub unfolding newest_None by blast
  with None show ?thesis by simp
next
  case (Some e)
  then have e: "is_newest k s ys e" by (rule newest_is)
  then obtain e' where e': "e' \<in> set xs" "fst e' = k" "entry_raw e' \<le> s" "entry_raw e \<le> entry_raw e'"
    using dom unfolding is_newest_def by blast
  then have "entry_raw e' \<le> entry_raw e" using e sub unfolding is_newest_def by blast
  with e'(4) have "entry_raw e' = entry_raw e" by simp
  then have "e' = e" using same_version [OF dist(1), of e' e] e e'(1,2) sub unfolding is_newest_def by blast
  then have "is_newest k s xs e" using e e' sub unfolding is_newest_def by blast
  with newest_eqI [OF dist(2)] Some show ?thesis by simp
qed

section \<open>Layers\<close>

lemma layered_flat: "layered (xs @ ys) \<Longrightarrow> seqs_below (concat xs) (concat ys)"
  by (auto simp: layered_append seqs_below_def)

lemma newest_layers:
  assumes "layered (xs @ ys)"
  shows "newest k s (concat (xs @ ys)) =
    (case newest k s (concat ys) of Some e \<Rightarrow> Some e | None \<Rightarrow> newest k s (concat xs))"
  using assms newest_append [OF layered_flat [OF assms]] layered_distinct
  by (simp add: layered_append)

lemma seqs_below_mono: "seqs_below xs ys \<Longrightarrow> set xs' \<subseteq> set xs \<Longrightarrow> set ys' \<subseteq> set ys \<Longrightarrow> seqs_below xs' ys'"
  unfolding seqs_below_def by blast

lemma layered_replace:
  assumes "layered (a @ w @ b)" and "versions_distinct out" and "set out \<subseteq> set (concat w)"
  shows "layered (a @ [out] @ b)"
proof -
  have "seqs_below x out" if "x \<in> set a" for x
    using assms that unfolding layered_append seqs_below_def by fastforce
  moreover have "seqs_below out y" if "y \<in> set b" for y
    using assms that unfolding layered_append seqs_below_def by fastforce
  ultimately show ?thesis using assms unfolding layered_append by (auto simp: layered_def)
qed

lemma sorted_wrt_insort:
  "sorted_wrt R ys \<Longrightarrow> \<forall>y \<in> set ys. R z y \<Longrightarrow> \<forall>y \<in> set ys. f y < f z \<longrightarrow> R y z \<Longrightarrow> sorted_wrt R (insort_key f z ys)"
  by (induction ys) (auto simp: set_insort_key not_le)

lemma sorted_wrt_sort_key:
  assumes "sorted_wrt R zs" and "\<And>x y. x \<in> set zs \<Longrightarrow> y \<in> set zs \<Longrightarrow> R x y \<Longrightarrow> f y < f x \<Longrightarrow> R y x"
  shows "sorted_wrt R (sort_key f zs)"
  using assms
proof (induction zs)
  case (Cons z zs)
  have "sorted_wrt R (insort_key f z (sort_key f zs))"
  proof (rule sorted_wrt_insort)
    show "sorted_wrt R (sort_key f zs)" using Cons by auto
    show "\<forall>y \<in> set (sort_key f zs). R z y" using Cons.prems(1) by simp
    show "\<forall>y \<in> set (sort_key f zs). f y < f z \<longrightarrow> R y z" using Cons.prems by auto
  qed
  then show ?case by (simp add: sort_key_simps)
qed simp

lemma map_sort_key: "map g (sort_key (\<lambda>x. f (g x)) xs) = sort_key f (map g xs)"
proof -
  have ins: "map g (insort_key (\<lambda>x. f (g x)) x xs) = insort_key f (g x) (map g xs)" for x xs by (induction xs) auto
  show ?thesis by (induction xs) (auto simp: ins)
qed

abbreviation file_key :: "sst_reader \<Rightarrow> u64" where
  "file_key rd \<equiv> mask_seq (sm_max_seq (rd_meta rd))"

lemma sst_input_key:
  assumes "sst_input b3 crc rd es" and "es \<noteq> []"
  shows "\<exists>e \<in> set es. entry_raw e = file_key rd" and "\<forall>e \<in> set es. entry_raw e \<le> file_key rd"
proof -
  have max: "sm_max_seq (rd_meta rd) = Max (insert 0 (entry_raw ` set es))"
    unfolding sst_input_meta(2) [OF assms] foldl_min_max_set by simp
  then have "sm_max_seq (rd_meta rd) \<in> insert 0 (entry_raw ` set es)" by (metis Max_in finite.insertI finite_imageI finite_set insert_not_empty)
  then have "file_key rd = sm_max_seq (rd_meta rd)" by (auto simp: entry_raw_def)
  moreover have bound: "\<forall>e \<in> set es. entry_raw e \<le> sm_max_seq (rd_meta rd)" unfolding max by simp
  moreover have "\<exists>e \<in> set es. entry_raw e = sm_max_seq (rd_meta rd)"
  proof (cases "sm_max_seq (rd_meta rd) \<in> entry_raw ` set es")
    case False
    then have "sm_max_seq (rd_meta rd) = 0" using \<open>sm_max_seq (rd_meta rd) \<in> insert 0 (entry_raw ` set es)\<close> by simp
    with bound assms(2) show ?thesis by (cases es) auto
  qed auto
  ultimately show "\<exists>e \<in> set es. entry_raw e = file_key rd" "\<forall>e \<in> set es. entry_raw e \<le> file_key rd" by simp_all
qed

lemma sort_files_layers:
  assumes inp: "list_all2 (sst_input b3 crc) rds cs" and lay: "layered (cs @ ms)"
  shows "\<exists>cs'. list_all2 (sst_input b3 crc) (sort_files rds) cs' \<and> layered (cs' @ ms) \<and> mset cs' = mset cs"
proof -
  let ?zs = "zip rds cs" and ?R = "\<lambda>x y. seqs_below (snd x) (snd y)" and ?f = "\<lambda>x. file_key (fst x)"
  let ?cs = "map snd (sort_key ?f ?zs)"
  have len: "length rds = length cs" using inp by (rule list_all2_lengthD)
  have inz: "sst_input b3 crc (fst z) (snd z)" if "z \<in> set ?zs" for z
    using inp that unfolding list_all2_iff by (cases z) auto
  have sorted: "sorted_wrt ?R ?zs"
  proof -
    have "sorted_wrt seqs_below cs" using lay unfolding layered_append unfolding layered_def by blast
    then have "sorted_wrt seqs_below (map snd ?zs)" using len by simp
    then show ?thesis by (simp only: sorted_wrt_map)
  qed
  have "sorted_wrt ?R (sort_key ?f ?zs)"
  proof (rule sorted_wrt_sort_key [OF sorted])
    fix x y assume xy: "x \<in> set ?zs" "y \<in> set ?zs" "?R x y" "?f y < ?f x"
    show "?R y x"
    proof (cases "snd x = [] \<or> snd y = []")
      case False
      with sst_input_key(1) [OF inz [OF xy(1)]] sst_input_key(1) [OF inz [OF xy(2)]] xy(3,4)
      have False unfolding seqs_below_def by (metis less_asym)
      then show ?thesis ..
    qed (auto simp: seqs_below_def)
  qed
  then have sorted': "sorted_wrt seqs_below ?cs" by (simp only: sorted_wrt_map)
  have "mset ?cs = mset (map snd ?zs)" by (simp only: mset_map mset_sort)
  then have same: "mset ?cs = mset cs" using len by simp
  then have set: "set ?cs = set cs" by (rule mset_eq_setD)
  have "sort_files rds = map fst (sort_key ?f ?zs)"
    unfolding sort_files_def map_sort_key [of fst file_key ?zs] using len by simp
  moreover have "list_all2 (sst_input b3 crc) (map fst (sort_key ?f ?zs)) ?cs"
    unfolding list_all2_map1 list_all2_map2 list_all2_same using inz by simp
  moreover have "layered (?cs @ ms)"
  proof -
    note parts = lay [unfolded layered_append]
    have "layered ?cs" using parts sorted' unfolding layered_def set by blast
    with parts show ?thesis unfolding layered_append set by blast
  qed
  ultimately show ?thesis using same by auto
qed

section \<open>The state\<close>

definition in_layers :: "lsm_params \<Rightarrow> lsm \<Rightarrow> entry list list \<Rightarrow> entry list list \<Rightarrow> bool" where
  "in_layers p st cs ms \<longleftrightarrow>
     list_all2 (sst_input (lp_blake3 p) (lp_crc32 p)) (ls_ssts st) cs \<and>
     list_all2 mem_holds (ls_imm st @ [ls_mem st]) ms \<and> layered (cs @ ms) \<and>
     (\<forall>e \<in> set (concat (cs @ ms)). tx_seen (ls_committed_tx st) e)"

text \<open>A point read returns the newest version of all layers.\<close>

lemma in_layers_read:
  assumes st: "in_layers p st cs ms" and "validate_key k"
  shows "lsm_get_at_seq p st k s = Inr (value_of (newest k (mask_seq s) (concat (cs @ ms))))"
proof -
  let ?tx = "ls_committed_tx st"
  have lay: "layered (cs @ ms)" "layered cs" "layered ms" using st by (simp_all add: in_layers_def layered_append)
  have seen: "\<forall>e \<in> set (concat cs). tx_seen ?tx e" "\<forall>e \<in> set (concat ms). tx_seen ?tx e"
    using st by (auto simp: in_layers_def)
  have inp: "list_all2 (sst_input (lp_blake3 p) (lp_crc32 p)) (ls_ssts st) cs"
    "list_all2 mem_holds (ls_imm st @ [ls_mem st]) ms" using st by (simp_all add: in_layers_def)
  have m: "get_from_mems (ls_mem st # rev (ls_imm st)) k s ?tx = map_option snd (newest k (mask_seq s) (concat ms))"
    using mem_source.look_layers [OF inp(2) lay(3) seen(2), of k s] get_from_mems_look [of k s ?tx "ls_mem st # rev (ls_imm st)"]
    by simp
  have f: "get_from_ssts p (rev (ls_ssts st)) k s ?tx = Inr (map_option snd (newest k (mask_seq s) (concat cs)))"
    unfolding get_from_ssts_look by (rule sst_source.look_layers [OF inp(1) lay(2) seen(1)])
  show ?thesis
    unfolding lsm_get_at_seq_def m f newest_layers [OF lay(1)] using assms(2) value_of_map
    by (cases "newest k (mask_seq s) (concat ms)") (simp_all add: value_of_def)
qed

text \<open>Two collections of versions that no snapshot from \<open>F\<close> on can tell apart.\<close>

definition agree_from :: "u64 \<Rightarrow> entry list \<Rightarrow> entry list \<Rightarrow> bool" where
  "agree_from F xs ys \<longleftrightarrow> (\<forall>k s. F \<le> s \<longrightarrow> value_of (newest k s xs) = value_of (newest k s ys))"

lemma agree_from_refl: "agree_from F xs xs"
  by (simp add: agree_from_def)

lemma agree_from_trans: "agree_from F xs ys \<Longrightarrow> agree_from F' ys zs \<Longrightarrow> agree_from (max F F') xs zs"
  by (simp add: agree_from_def)

lemma agree_from_mono: "agree_from F xs ys \<Longrightarrow> F \<le> F' \<Longrightarrow> agree_from F' xs ys"
  unfolding agree_from_def by (meson order_trans)

lemma agree_from_append:
  assumes "agree_from F xs ys" and "seqs_below xs es" "seqs_below ys es"
    and "versions_distinct xs" "versions_distinct ys" "versions_distinct es"
  shows "agree_from F (xs @ es) (ys @ es)"
  using assms(1) unfolding agree_from_def
    newest_append [OF assms(2,4,6)] newest_append [OF assms(3,5,6)] by (simp split: option.split)

text \<open>Layers in the middle are replaced by one that says the same to each of these snapshots.\<close>

lemma agree_from_replace:
  assumes lay: "layered (a @ w @ b)" and dist: "versions_distinct out" and sub: "set out \<subseteq> set (concat w)"
    and same: "\<And>k s. F \<le> s \<Longrightarrow> newest k s out = newest k s (concat w) \<or>
      a = [] \<and> value_of (newest k s out) = value_of (newest k s (concat w))"
  shows "agree_from F (concat (a @ [out] @ b)) (concat (a @ w @ b))"
  unfolding agree_from_def
proof (intro allI impI)
  fix k s assume "F \<le> s"
  have lay': "layered (a @ [out] @ b)" by (rule layered_replace [OF lay dist sub])
  have parts: "layered ([out] @ b)" "layered (w @ b)" using lay lay' by (simp_all add: layered_append)
  have none: "newest k s (concat []) = None" by (simp add: newest_def)
  have one: "concat [out] = out" by simp
  note unfolded = newest_layers [OF lay'] newest_layers [OF lay] newest_layers [OF parts(1)] newest_layers [OF parts(2)] one
  show "value_of (newest k s (concat (a @ [out] @ b))) = value_of (newest k s (concat (a @ w @ b)))"
    using same [OF \<open>F \<le> s\<close>, of k]
  proof
    assume "newest k s out = newest k s (concat w)"
    then show ?thesis unfolding unfolded by (simp only:)
  next
    assume *: "a = [] \<and> value_of (newest k s out) = value_of (newest k s (concat w))"
    then have "newest k s (concat a) = None" using none by simp
    then have "(case newest k s xs of Some e \<Rightarrow> Some e | None \<Rightarrow> newest k s (concat a)) = newest k s xs" for xs
      by (cases "newest k s xs") simp_all
    with * show ?thesis unfolding unfolded by (cases "newest k s (concat b)") simp_all
  qed
qed

end
