(* ===== verification/LsmLayers.thy ===== *)
theory LsmLayers
  imports LsmState
begin

text \<open>
  What the steps of the storage engine do to the layers: a commit appends to the MemTable, a flush turns
  MemTables into a file, a compaction turns neighbouring files into one.
\<close>

section \<open>MemTables\<close>

lemma mem_holds_new: "mem_holds mem_table_new []"
  using mt_ok_new by (auto simp: mem_holds_def entries_of_def)

lemma mem_holds_put: "mem_holds mt es \<Longrightarrow> mem_holds (mt_put mt k val s t) (es @ [(k, val, s, t)])"
proof -
  assume "mem_holds mt es"
  then obtain log where "mt_ok log mt" "es = entries_of log" by (auto simp: mem_holds_def)
  then have "mt_ok (log @ [(k, (s, val, t))]) (mt_put mt k val s t)"
    "es @ [(k, val, s, t)] = entries_of (log @ [(k, (s, val, t))])"
    by (simp_all add: mt_put_ok entries_of_def)
  then show ?thesis unfolding mem_holds_def by blast
qed

definition tagged_updates :: "u64 \<Rightarrow> mem_update list \<Rightarrow> entry list" where
  "tagged_updates tx ups = map (\<lambda>(k, val, s). (k, val, s, tx)) ups"

lemma mem_holds_puts:
  "mem_holds mt es \<Longrightarrow>
   mem_holds (foldl (\<lambda>mt (k, val, s). mt_put mt k val s tx) mt ups) (es @ tagged_updates tx ups)"
proof (induction ups arbitrary: mt es)
  case (Cons u ups)
  obtain k val s where u: "u = (k, val, s)" by (cases u) auto
  from Cons.IH [OF mem_holds_put [OF Cons.prems]] show ?case by (simp add: u tagged_updates_def)
qed (simp add: tagged_updates_def)

lemma mem_holds_iter:
  assumes "mem_holds mt es"
  shows "mset (mt_iter mt) = mset es"
proof -
  from assms obtain log where log: "mt_ok log mt" "es = entries_of log" by (auto simp: mem_holds_def)
  then have "mset (sort_key fst (concat (map flat (mt_shards mt)))) = mset log" by (simp add: mt_ok_def)
  then have "mset (map (\<lambda>(k, s, v, t). (k, v, s, t)) (sort_key fst (concat (map flat (mt_shards mt))))) =
      mset (entries_of log)" unfolding entries_of_def mset_map by (simp only:)
  then show ?thesis by (simp only: log(2) mt_iter_flat)
qed

lemma mem_holds_iters:
  "list_all2 mem_holds mts ms \<Longrightarrow> mset (concat (map mt_iter mts)) = mset (concat ms)"
  by (induction rule: list_all2_induct) (simp_all add: mem_holds_iter)

lemma mem_holds_empty:
  assumes "mem_holds mt es"
  shows "mt_is_empty mt \<longleftrightarrow> es = []"
proof -
  from assms obtain log where log: "mt_ok log mt" "es = entries_of log" by (auto simp: mem_holds_def)
  have nonempty: "flat entries \<noteq> []" if shard: "entries \<in> set (mt_shards mt)" and ne: "entries \<noteq> []" for entries
  proof -
    have "length (mt_shards mt) = SHARD_COUNT" using log(1) unfolding mt_ok_def by blast
    with shard obtain i where i: "i < SHARD_COUNT" "entries = mt_shards mt ! i" unfolding in_set_conv_nth by auto
    obtain k vs rest where e: "entries = (k, vs) # rest" using ne by (cases entries) auto
    then have "map_of (mt_shards mt ! i) k = Some vs" using i(2) by (metis map_of_Cons_code(2))
    then have "vs \<noteq> []" using log(1) i(1) unfolding mt_ok_def by blast
    then show ?thesis by (simp add: e flat_def)
  qed
  have "concat (map flat (mt_shards mt)) = [] \<longleftrightarrow> mt_is_empty mt"
  proof
    assume "concat (map flat (mt_shards mt)) = []"
    with nonempty show "mt_is_empty mt" unfolding mt_is_empty_def concat_eq_Nil_conv by auto
  qed (auto simp: mt_is_empty_def flat_def)
  moreover have "concat (map flat (mt_shards mt)) = [] \<longleftrightarrow> log = []"
    using log(1) unfolding mt_ok_def by (metis mset_zero_iff)
  ultimately show ?thesis by (simp add: log(2) entries_of_def)
qed

section \<open>Flush\<close>

lemma group_versions_wf: "bt_wf (group_versions es)"
proof (induction es rule: rev_induct)
  case (snoc e es)
  then show ?case by (cases e) (simp add: group_versions_def)
qed (simp add: group_versions_def)

lemma group_versions_lookup:
  "map_of (group_versions es) k =
     (if filter (\<lambda>e. fst e = k) es = [] then None else Some (map snd (filter (\<lambda>e. fst e = k) es)))"
proof (induction es rule: rev_induct)
  case (snoc e es)
  then show ?case by (cases e) (auto simp: group_versions_def map_simps lookup_or_def)
qed (simp add: group_versions_def)

lemma in_group_versions:
  "(k, vs) \<in> set (group_versions es) \<longleftrightarrow> vs = map snd (filter (\<lambda>e. fst e = k) es) \<and> vs \<noteq> []"
proof -
  have "distinct (map fst (group_versions es))"
    using group_versions_wf [of es] unfolding bt_wf_def by (metis strict_sorted_iff)
  then have "(k, vs) \<in> set (group_versions es) \<longleftrightarrow> map_of (group_versions es) k = Some vs" by simp
  then show ?thesis unfolding group_versions_lookup by auto
qed

abbreviation version_raw :: "bytes \<times> u64 \<times> u64 \<Rightarrow> u64" where
  "version_raw v \<equiv> mask_seq (fst (snd v))"

lemma newest_first_sorted: "sorted_wrt (\<lambda>a b. version_raw a \<ge> version_raw b) (newest_first vs)"
proof -
  have "sorted_wrt (\<lambda>a b. version_raw a \<le> version_raw b) (sort_key version_raw (rev vs))"
    using sorted_sort_key [of version_raw "rev vs"] unfolding sorted_map .
  then show ?thesis unfolding newest_first_def sorted_wrt_rev .
qed

lemma set_newest_first [simp]: "set (newest_first vs) = set vs"
  by (simp add: newest_first_def)

lemma retain_loop_subset: "set (retain_loop g f found es) \<subseteq> set es"
  by (induction es arbitrary: found) auto

lemma retain_key_versions_dominate:
  assumes "sorted_wrt (\<lambda>a b. mask_seq (g a) \<ge> mask_seq (g b)) es" and "f \<le> s"
    and "v \<in> set es" and "mask_seq (g v) \<le> s"
  shows "\<exists>v' \<in> set (retain_key_versions es g f). mask_seq (g v') \<le> s \<and> mask_seq (g v) \<le> mask_seq (g v')"
proof -
  have "version_at g s es \<noteq> None" using assms(3,4) by (auto simp: version_at_def find_None_iff)
  then obtain v' where at: "version_at g s es = Some v'" by blast
  from find_split [OF at [unfolded version_at_def]] obtain xs ys where
    split: "es = xs @ v' # ys" "\<forall>y \<in> set xs. \<not> mask_seq (g y) \<le> s" "mask_seq (g v') \<le> s" by blast
  have "mask_seq (g v) \<le> mask_seq (g v')"
    using assms(1,3,4) split unfolding split(1) by (auto simp: sorted_wrt_append)
  moreover have "v' \<in> set (retain_key_versions es g f)"
    using version_at_retain [OF assms(2), of g es] at unfolding version_at_def by (metis find_Some_iff nth_mem)
  ultimately show ?thesis using split(3) by blast
qed

lemma in_flush_entries:
  "(k, v) \<in> set (flush_entries f mts) \<longleftrightarrow>
   v \<in> set (retain_key_versions (newest_first (map snd (filter (\<lambda>e. fst e = k) (concat (map mt_iter mts)))))
     (\<lambda>v. fst (snd v)) f)" (is "?l \<longleftrightarrow> _")
proof -
  let ?ret = "\<lambda>vs. retain_key_versions vs (\<lambda>v. fst (snd v)) f"
  have nil: "?ret [] = []" "newest_first [] = []" by (simp_all add: retain_key_versions_def newest_first_def)
  have "?l \<longleftrightarrow> (\<exists>vs. (k, vs) \<in> set (group_versions (concat (map mt_iter mts))) \<and> v \<in> set (?ret (newest_first vs)))"
    unfolding flush_entries_def by fastforce
  then show ?thesis unfolding in_group_versions using nil by (metis empty_iff list.set(1))
qed

lemma flush_entries_reads:
  assumes X: "mset (concat (map mt_iter mts)) = mset X" and dist: "versions_distinct X"
    and out: "versions_distinct (flush_entries f mts)" and s: "f \<le> s \<or> seqs_upto s X"
  shows "set (flush_entries f mts) \<subseteq> set X" and "newest k s (flush_entries f mts) = newest k s X"
proof -
  let ?out = "flush_entries f mts"
  have same: "set (concat (map mt_iter mts)) = set X" using X by (rule mset_eq_setD)
  show sub: "set ?out \<subseteq> set X"
  proof
    fix e assume e: "e \<in> set ?out"
    obtain k v where kv: "e = (k, v)" by (cases e)
    have "v \<in> snd ` set (filter (\<lambda>e. fst e = k) (concat (map mt_iter mts)))"
      using e retain_loop_subset unfolding kv in_flush_entries retain_key_versions_def by fastforce
    then show "e \<in> set X" unfolding kv using same by auto
  qed
  have at: "newest k t ?out = newest k t X" if t: "f \<le> t" for t
  proof (rule newest_subset [OF dist out sub])
    fix e assume e: "e \<in> set X" "fst e = k" "entry_raw e \<le> t"
    let ?vs = "newest_first (map snd (filter (\<lambda>e. fst e = k) (concat (map mt_iter mts))))"
    have "snd e \<in> set ?vs" using e(1,2) same by auto
    from retain_key_versions_dominate [OF newest_first_sorted t this] e(3)
    obtain v where v: "v \<in> set (retain_key_versions ?vs (\<lambda>v. fst (snd v)) f)"
      "version_raw v \<le> t" "version_raw (snd e) \<le> version_raw v"
      by (auto simp: entry_raw_def)
    then have "(k, v) \<in> set ?out" unfolding in_flush_entries by blast
    with v show "\<exists>e' \<in> set ?out. fst e' = k \<and> entry_raw e' \<le> t \<and> entry_raw e \<le> entry_raw e'"
      by (intro bexI [of _ "(k, v)"]) (simp_all add: entry_raw_def)
  qed
  show "newest k s ?out = newest k s X"
  proof (cases "f \<le> s")
    case False
    with s have up: "seqs_upto s X" by blast
    with False have up: "seqs_upto s X" "seqs_upto f X" unfolding seqs_upto_def by (meson linear order_trans)+
    then have "seqs_upto s ?out" "seqs_upto f ?out" using sub unfolding seqs_upto_def by blast+
    from newest_above [OF out this] newest_above [OF dist up] at [OF order_refl] show ?thesis by simp
  qed (rule at)
qed

section \<open>Files\<close>

lemma written_file_holds:
  assumes km: "km_ok (lp_km p)" and small: "\<forall>e \<in> set es. length (fst (snd e)) \<le> READABLE_VALUE"
    and w: "sst_write (lp_blake3 p) (lp_crc32 p) (lp_km p) (lp_bits p) (lp_hashes p) 4 es = Inr (bs, meta)"
    and opn: "sst_open (lp_crc32 p) (lp_km p) bs = Inr rd"
  shows "sst_input (lp_blake3 p) (lp_crc32 p) rd es"
  unfolding sst_input_def using assms by blast

lemma write_file_holds:
  assumes "km_ok (lp_km p)" and "\<forall>e \<in> set es. length (fst (snd e)) \<le> READABLE_VALUE"
    and "write_file p es = Inr rd"
  shows "sst_input (lp_blake3 p) (lp_crc32 p) rd es"
  using assms by (auto simp: write_file_def split: sum.splits intro!: written_file_holds)

lemma entries_sorted_distinct: "entries_sorted es \<Longrightarrow> versions_distinct es"
proof (induction es)
  case (Cons e es)
  then have "(fst e, entry_raw e) \<noteq> (fst e', entry_raw e')" if "e' \<in> set es" for e'
    using that by (auto simp: entry_before_def entry_raw_def)
  with Cons show ?case by auto
qed simp

lemma sst_input_distinct: "sst_input b3 crc rd es \<Longrightarrow> versions_distinct es"
  using sst_input_gives(2) by (rule entries_sorted_distinct)

text \<open>The output of a merge, read at a snapshot that is not below the floor or above all versions.\<close>

lemma merged_reads:
  assumes "quiet cfg env" and inp: "list_all2 (sst_input b3 crc) inputs contents"
    and dist: "versions_distinct (concat contents)"
  obtains out where "merge_sstables b3 crc m hashes km cfg env inputs = Some (lift_res (sst_write b3 crc km m hashes 4 out))"
    and "set out \<subseteq> set (concat contents)" and "versions_distinct out"
    and "\<And>k s. mc_floor cfg \<le> s \<or> seqs_upto s (concat contents) \<Longrightarrow>
      newest k s out = newest k s (concat contents) \<or>
      mc_full cfg \<and> value_of (newest k s out) = value_of (newest k s (concat contents))"
proof -
  obtain all where all: "mset all = mset (concat contents)" "sorted_wrt entry_le all" and
    run: "merge_sstables b3 crc m hashes km cfg env inputs =
      Some (lift_res (sst_write b3 crc km m hashes 4 (emit cfg None False all)))"
    using merge_sstables_run [OF assms(1,2)] by blast
  let ?out = "emit cfg None False all"
  have "mset (map (\<lambda>e. (fst e, entry_raw e)) all) = mset (map (\<lambda>e. (fst e, entry_raw e)) (concat contents))"
    using all(1) by (simp only: mset_map)
  then have "versions_distinct all" using dist mset_eq_imp_distinct_iff by blast
  with all(2) have sorted: "entries_sorted all" by (rule strictly_sorted)
  have sub: "set ?out \<subseteq> set (concat contents)" using emit_subset mset_eq_setD [OF all(1)] by blast
  have sorted_out: "entries_sorted ?out" by (rule emit_strict [OF sorted])
  then have dist_out: "versions_distinct ?out" by (rule entries_sorted_distinct)
  have at: "newest k s ?out = newest k s (concat contents) \<or>
      mc_full cfg \<and> value_of (newest k s ?out) = value_of (newest k s (concat contents))"
    if "mc_floor cfg \<le> s" for k s
    using emit_newest [OF sorted all(1) dist that, of k] find_newest [OF sorted_out refl dist_out, of k s]
    by (auto simp: gc_tombstone_def entry_tombstone_def split: option.splits if_splits)
  have "newest k s ?out = newest k s (concat contents) \<or>
      mc_full cfg \<and> value_of (newest k s ?out) = value_of (newest k s (concat contents))"
    if "mc_floor cfg \<le> s \<or> seqs_upto s (concat contents)" for k s
  proof (cases "mc_floor cfg \<le> s")
    case False
    with that have up: "seqs_upto s (concat contents)" by blast
    with False have up: "seqs_upto s (concat contents)" "seqs_upto (mc_floor cfg) (concat contents)"
      unfolding seqs_upto_def by (meson linear order_trans)+
    then have "seqs_upto s ?out" "seqs_upto (mc_floor cfg) ?out" using sub unfolding seqs_upto_def by blast+
    from newest_above [OF dist_out this] newest_above [OF dist up] at [OF order_refl] show ?thesis by simp
  qed (rule at)
  from that [OF run sub dist_out this] show thesis .
qed

section \<open>Commit\<close>

lemma mask_seq_small: "unat s < 2 ^ 63 \<Longrightarrow> s AND TOMBSTONE_BIT = 0 \<and> mask_seq s = s"
proof -
  assume small: "unat s < 2 ^ 63"
  have "\<not> bit s 63"
  proof
    assume "bit s 63"
    then have "bit (unat s) 63" by (simp add: bit_unsigned_iff)
    then show False using small by (simp add: bit_iff_odd)
  qed
  then have "s AND TOMBSTONE_BIT = 0" using TOMBSTONE_BIT_set_iff by blast
  then show ?thesis using mask_seq_id by blast
qed

definition seqs_between :: "u64 \<Rightarrow> u64 \<Rightarrow> entry list \<Rightarrow> bool" where
  "seqs_between n m es \<longleftrightarrow> sorted_wrt (\<lambda>a b. entry_raw a < entry_raw b) es \<and>
     (\<forall>e \<in> set es. n \<le> entry_raw e \<and> entry_raw e < m)"

lemma unat_Suc: "unat n + k < 2 ^ 64 \<Longrightarrow> 0 < k \<Longrightarrow> unat (n + 1 :: u64) = unat n + 1"
  by (subst unat_add_lem [THEN iffD1]) auto

lemma number_ops_seqs:
  "unat n + length ops \<le> 2 ^ 63 \<Longrightarrow> number_ops ops n = (ups, m) \<Longrightarrow>
   unat m = unat n + length ops \<and> seqs_between n m (tagged_updates tx ups)"
proof (induction ops arbitrary: n ups m)
  case Nil
  then show ?case by (simp add: tagged_updates_def seqs_between_def)
next
  case (Cons op ops)
  obtain ups' where rest: "number_ops ops (n + 1) = (ups', m)"
    and ups: "ups = (case op of OpInsert _ (key, val) \<Rightarrow> (key, val, n) # ups'
       | OpDelete _ (Some (key, _)) \<Rightarrow> (key, [], n OR TOMBSTONE_BIT) # ups' | OpDelete _ None \<Rightarrow> ups')"
    using Cons.prems(2) by (auto simp: split: prod.splits index_op.splits option.splits)
  have n: "unat n < 2 ^ 63" using Cons.prems(1) by simp
  have n1: "unat (n + 1) = unat n + 1" using Cons.prems(1) by (intro unat_Suc [of _ 1]) simp_all
  with Cons.IH [OF _ rest] Cons.prems(1) have IH: "unat m = unat n + length (op # ops)"
    "seqs_between (n + 1) m (tagged_updates tx ups')" by simp_all
  have bounds: "n < m" "\<And>x. n + 1 \<le> x \<Longrightarrow> n < x" using IH(1) n1 by (simp_all add: word_less_nat_alt word_le_nat_alt)
  have keep: "seqs_between n m (tagged_updates tx ups')"
    using IH(2) bounds(2) unfolding seqs_between_def by (auto intro: less_imp_le)
  have new: "seqs_between n m (e # tagged_updates tx ups')" if "entry_raw e = n" for e
    using keep IH(2) bounds that unfolding seqs_between_def by auto
  have raw: "entry_raw (k, v, n, t) = n" "entry_raw (k, v, n OR TOMBSTONE_BIT, t) = n" for k v t
    using mask_seq_small [OF n] by (simp_all add: entry_raw_def)
  have "tagged_updates tx ups = tagged_updates tx ups' \<or>
      (\<exists>e. entry_raw e = n \<and> tagged_updates tx ups = e # tagged_updates tx ups')"
    unfolding ups using raw by (auto simp: tagged_updates_def split: index_op.splits option.splits prod.splits)
  with keep new IH(1) show ?case by auto
qed

lemma seqs_between_distinct: "seqs_between n m es \<Longrightarrow> versions_distinct es"
  unfolding seqs_between_def by (induction es) auto

text \<open>The database after the operations of a transaction.\<close>

type_synonym db = "bytes \<Rightarrow> bytes option"

fun apply_op :: "kv index_op \<Rightarrow> db \<Rightarrow> db" where
  "apply_op (OpInsert _ (key, val)) db = db(key := Some val)"
| "apply_op (OpDelete _ (Some (key, _))) db = db(key := None)"
| "apply_op (OpDelete _ None) db = db"

definition db_at :: "u64 \<Rightarrow> entry list \<Rightarrow> db" where
  "db_at s es = (\<lambda>k. value_of (newest k s es))"

lemma db_at_snoc:
  assumes "versions_distinct H" and "seqs_below H [e]" and "entry_raw e \<le> s"
  shows "db_at s (H @ [e]) = (db_at s H)(fst e := value_of (Some e))"
proof
  fix k
  have "newest k s [e] = (if fst e = k then Some e else None)"
    using assms(3) by (auto simp: newest_def)
  then show "db_at s (H @ [e]) k = ((db_at s H)(fst e := value_of (Some e))) k"
    unfolding db_at_def newest_append [OF assms(2,1), of k s, simplified] by auto
qed

lemma number_ops_db:
  "unat n + length ops \<le> 2 ^ 63 \<Longrightarrow> number_ops ops n = (ups, m) \<Longrightarrow> versions_distinct H \<Longrightarrow>
   \<forall>e \<in> set H. entry_raw e < n \<Longrightarrow> seqs_upto s (tagged_updates tx ups) \<Longrightarrow>
   db_at s (H @ tagged_updates tx ups) = fold apply_op ops (db_at s H)"
proof (induction ops arbitrary: n ups m H)
  case Nil
  then show ?case by (simp add: tagged_updates_def)
next
  case (Cons op ops)
  obtain ups' where rest: "number_ops ops (n + 1) = (ups', m)"
    and ups: "ups = (case op of OpInsert _ (key, val) \<Rightarrow> (key, val, n) # ups'
       | OpDelete _ (Some (key, _)) \<Rightarrow> (key, [], n OR TOMBSTONE_BIT) # ups' | OpDelete _ None \<Rightarrow> ups')"
    using Cons.prems(2) by (auto simp: split: prod.splits index_op.splits option.splits)
  have n: "unat n < 2 ^ 63" using Cons.prems(1) by simp
  have n1: "unat (n + 1) = unat n + 1" using Cons.prems(1) by (intro unat_Suc [of _ 1]) simp_all
  then have "n < n + 1" by (simp add: word_less_nat_alt)
  then have below: "\<forall>e \<in> set H. entry_raw e < n + 1" using Cons.prems(4) by fastforce
  have room: "unat (n + 1) + length ops \<le> 2 ^ 63" using Cons.prems(1) n1 by simp
  have step: "db_at s (H @ e # tagged_updates tx ups') = fold apply_op ops ((db_at s H)(fst e := value_of (Some e)))"
    if e: "entry_raw e = n" and ups: "tagged_updates tx ups = e # tagged_updates tx ups'" for e
  proof -
    have low: "seqs_below H [e]" using Cons.prems(4) e by (simp add: seqs_below_def)
    have "versions_distinct (H @ [e])" using versions_distinct_append [OF low Cons.prems(3)] by simp
    moreover have "\<forall>e' \<in> set (H @ [e]). entry_raw e' < n + 1" using below e \<open>n < n + 1\<close> by auto
    moreover have up: "seqs_upto s (tagged_updates tx ups')" "entry_raw e \<le> s"
      using Cons.prems(5) unfolding ups by (simp_all add: seqs_upto_def)
    ultimately have "db_at s ((H @ [e]) @ tagged_updates tx ups') = fold apply_op ops (db_at s (H @ [e]))"
      by (intro Cons.IH [OF room rest])
    then show ?thesis unfolding db_at_snoc [OF Cons.prems(3) low up(2)] by simp
  qed
  have raw: "entry_raw (k, v, n, t) = n" "entry_raw (k, v, n OR TOMBSTONE_BIT, t) = n"
    "n AND TOMBSTONE_BIT = 0" "(n OR TOMBSTONE_BIT) AND TOMBSTONE_BIT \<noteq> 0" for k v t
    using mask_seq_small [OF n] TOMBSTONE_BIT_set_iff [of "n OR TOMBSTONE_BIT"]
    by (simp_all add: entry_raw_def bit_or_iff bit_TOMBSTONE_BIT)
  consider (insert) d k v where "op = OpInsert d (k, v)" | (delete) d k v where "op = OpDelete d (Some (k, v))"
    | (nothing) d where "op = OpDelete d None"
    by (cases op) (metis (full_types) not_None_eq surj_pair)+
  then show ?case
  proof cases
    case insert
    then have "tagged_updates tx ups = (k, v, n, tx) # tagged_updates tx ups'" by (simp add: ups tagged_updates_def)
    from step [OF raw(1) this] this raw(3) insert show ?thesis by simp
  next
    case delete
    then have "tagged_updates tx ups = (k, [], n OR TOMBSTONE_BIT, tx) # tagged_updates tx ups'" by (simp add: ups tagged_updates_def)
    from step [OF raw(2) this] this raw(4) delete show ?thesis by simp
  next
    case nothing
    with Cons.IH [OF room rest Cons.prems(3) below] Cons.prems(5) ups show ?thesis by simp
  qed
qed

end
