(* ===== verification/LsmStage.thy ===== *)
theory LsmStage
  imports TxBufferRuns
begin

text \<open>
  The staging operations that also track the keys: they stage, drain and discard what the plain ones do,
  and they keep the configuration.
\<close>

lemma tb_ok_key_shards [simp]:
  "tb_ok sz (tb\<lparr>tb_key_shards := ks\<rparr>) = tb_ok sz tb" "tx_ops (tb\<lparr>tb_key_shards := ks\<rparr>) = tx_ops tb"
  by (simp_all add: tb_ok_def tx_ops_def fun_eq_iff shard_at_def shard_idx_def)

lemma same_key_shards: "\<exists>ks. tb = tb\<lparr>tb_key_shards := ks\<rparr>"
  by (rule exI [of _ "tb_key_shards tb"]) simp

lemma track_key_shards: "\<exists>ks. track_key_stage hash tb tx key ins = tb\<lparr>tb_key_shards := ks\<rparr>"
  using same_key_shards [of tb] by (auto simp: track_key_stage_def Let_def split: option.split)

lemma untrack_key_shards: "\<exists>ks. untrack_key hash tx tb key = tb\<lparr>tb_key_shards := ks\<rparr>"
  using same_key_shards [of tb] by (auto simp: untrack_key_def Let_def split: option.split)

lemma untrack_ops_shards: "\<exists>ks. untrack_key_ops_kv hash tb tx ops = tb\<lparr>tb_key_shards := ks\<rparr>"
proof (induction ops rule: rev_induct)
  case Nil
  then show ?case using same_key_shards by (simp add: untrack_key_ops_kv_def)
next
  case (snoc op ops)
  then obtain ks where ks: "untrack_key_ops_kv hash tb tx ops = tb\<lparr>tb_key_shards := ks\<rparr>" ..
  have step: "untrack_key_ops_kv hash tb tx (ops @ [op]) =
      (case op_key op of None \<Rightarrow> tb\<lparr>tb_key_shards := ks\<rparr> | Some (key, _) \<Rightarrow> untrack_key hash tx (tb\<lparr>tb_key_shards := ks\<rparr>) key)"
    using ks by (simp add: untrack_key_ops_kv_def)
  show ?case
  proof (cases "op_key op")
    case (Some kb)
    then show ?thesis
      using step untrack_key_shards [of hash tx "tb\<lparr>tb_key_shards := ks\<rparr>" "fst kb"] by (cases kb) auto
  qed (use step in auto)
qed

lemma set_shard_config [simp]: "tb_config (set_shard tb tx s) = tb_config tb"
  by (simp add: set_shard_def)

lemma stage_many_config: "tb_config (fst (stage_many sz tb tx ops t)) = tb_config tb"
  by (auto simp: stage_many_def Let_def split: option.split)

lemma discard_config: "tb_config (discard tb tx) = tb_config tb"
  by (auto simp: discard_def Let_def split: option.split)

lemma register_read_config: "tb_config (register_read tb tx k s) = tb_config tb"
  by (auto simp: register_read_def Let_def split: option.split)

text \<open>One contract for the three: the well-formedness, the operations that are staged, the configuration.\<close>

definition stages :: "kv tx_buffer \<Rightarrow> kv tx_buffer \<Rightarrow> (u64 \<Rightarrow> kv index_op list) \<Rightarrow> bool" where
  "stages tb tb' g \<longleftrightarrow> tb_ok kv_size tb' \<and> tx_ops tb' = g \<and> tb_config tb' = tb_config tb"

lemma stage_many_stages:
  "tb_ok kv_size tb \<Longrightarrow> stage_many kv_size tb tx ops t = (tb', r) \<Longrightarrow>
   stages tb tb' (if r = Inr () then (tx_ops tb)(tx := tx_ops tb tx @ ops) else tx_ops tb)"
  using stage_many_correct [of kv_size tb tx ops t tb' r] stage_many_config [of kv_size tb tx ops t]
  by (simp add: stages_def)

lemma stage_kv_stages:
  assumes ok: "tb_ok kv_size tb" and r: "stage_kv hash tb tx op t = (tb', r)"
  shows "stages tb tb' (if r = Inr () then (tx_ops tb)(tx := tx_ops tb tx @ [op]) else tx_ops tb)"
proof (cases "op_key op")
  case None
  with r stage_many_stages [OF ok] show ?thesis by (simp add: stage_kv_def stage_bounded_many)
next
  case (Some kb)
  obtain key ins where kb: "kb = (key, ins)" by (cases kb)
  obtain ks where ks: "track_key_stage hash tb tx key ins = tb\<lparr>tb_key_shards := ks\<rparr>" using track_key_shards by blast
  obtain tb2 r2 where r2: "stage_many kv_size (tb\<lparr>tb_key_shards := ks\<rparr>) tx [op] t = (tb2, r2)" by (cases "stage_many kv_size (tb\<lparr>tb_key_shards := ks\<rparr>) tx [op] t")
  have two: "stages tb tb2 (if r2 = Inr () then (tx_ops tb)(tx := tx_ops tb tx @ [op]) else tx_ops tb)"
    using stage_many_stages [OF _ r2] ok by (simp add: stages_def)
  show ?thesis
  proof (cases r2)
    case (Inl e)
    then have "tb' = untrack_key hash tx tb2 key \<and> r = Inl e"
      using r Some kb ks r2 by (simp add: stage_kv_def stage_bounded_many)
    then show ?thesis using untrack_key_shards [of hash tx tb2 key] two Inl by (auto simp: stages_def)
  next
    case (Inr u)
    then have "tb' = tb2 \<and> r = Inr ()" using r Some kb ks r2 by (simp add: stage_kv_def stage_bounded_many)
    with two Inr show ?thesis by simp
  qed
qed

lemma drain_kv_stages:
  assumes "tb_ok kv_size tb" and "drain_kv hash tb tx = (tb', ops)"
  shows "ops = tx_ops tb tx" and "stages tb tb' ((tx_ops tb)(tx := []))"
proof -
  have d: "drain tb tx = (discard tb tx, tx_ops tb tx)" using assms(1) by (rule drain_correct)
  then show ops: "ops = tx_ops tb tx" using assms(2) by (simp add: drain_kv_def split: if_splits)
  have "stages tb (discard tb tx) ((tx_ops tb)(tx := []))"
    using discard_correct [OF assms(1)] discard_config [of tb tx] by (simp add: stages_def)
  then show "stages tb tb' ((tx_ops tb)(tx := []))"
    using assms(2) untrack_ops_shards [of hash "discard tb tx" tx "tx_ops tb tx"]
    by (auto simp: drain_kv_def d stages_def split: if_splits)
qed

lemma discard_kv_stages:
  assumes "tb_ok kv_size tb"
  shows "stages tb (discard_kv hash tb tx) ((tx_ops tb)(tx := []))"
proof -
  obtain ks where ks: "(case get_ops tb tx of None \<Rightarrow> tb | Some ops \<Rightarrow> untrack_key_ops_kv hash tb tx ops) = tb\<lparr>tb_key_shards := ks\<rparr>"
  proof (cases "get_ops tb tx")
    case None
    then have "(case get_ops tb tx of None \<Rightarrow> tb | Some ops \<Rightarrow> untrack_key_ops_kv hash tb tx ops) = tb\<lparr>tb_key_shards := tb_key_shards tb\<rparr>"
      by simp
    then show ?thesis by (rule that)
  next
    case (Some ops)
    with that untrack_ops_shards [of hash tb tx ops] show ?thesis by auto
  qed
  have ok: "tb_ok kv_size (tb\<lparr>tb_key_shards := ks\<rparr>)" using assms by simp
  show ?thesis unfolding discard_kv_def ks
    using discard_correct [OF ok] discard_config [of "tb\<lparr>tb_key_shards := ks\<rparr>" tx] by (simp add: stages_def)
qed

lemma register_read_stages: "tb_ok kv_size tb \<Longrightarrow> stages tb (register_read tb tx k s) (tx_ops tb)"
  by (simp add: stages_def register_read_correct register_read_config)

end
