(* ===== verification/LsmInv.thy ===== *)
theory LsmInv
  imports LsmLayers LsmStage
begin

text \<open>
  The storage engine keeps the history of the committed operations: the invariant \<open>holds_history\<close>, which says that every
  snapshot from a floor \<open>F\<close> on reads from the files and MemTables what it would read from the history,
  and that commit, rotation, flush and compaction keep it.
\<close>

definition op_readable :: "kv index_op \<Rightarrow> bool" where
  "op_readable op = (case op of OpInsert _ d \<Rightarrow> length (snd d) \<le> READABLE_VALUE | OpDelete _ _ \<Rightarrow> True)"

definition holds_history :: "lsm_params \<Rightarrow> lsm \<Rightarrow> entry list \<Rightarrow> u64 \<Rightarrow> bool" where
  "holds_history p st H F \<longleftrightarrow>
     (\<exists>cs ms. in_layers p st cs ms \<and> set (concat (cs @ ms)) \<subseteq> set H \<and> agree_from F (concat (cs @ ms)) H) \<and>
     versions_distinct H \<and> seqs_upto (ls_applied_seq st) H \<and>
     (\<forall>e \<in> set H. length (fst (snd e)) \<le> READABLE_VALUE) \<and>
     F \<le> ls_applied_seq st \<and> ls_applied_seq st < ls_next_seq st \<and> unat (ls_next_seq st) < 2 ^ 63"

text \<open>The parts of the state on which it depends.\<close>

lemma holds_history_frame:
  assumes "holds_history p st H F"
    and "ls_mem st' = ls_mem st" "ls_imm st' = ls_imm st" "ls_ssts st' = ls_ssts st"
    and "ls_committed_tx st' = ls_committed_tx st" "ls_applied_seq st' = ls_applied_seq st"
    and "ls_next_seq st \<le> ls_next_seq st'" "unat (ls_next_seq st') < 2 ^ 63"
  shows "holds_history p st' H F"
  using assms unfolding holds_history_def in_layers_def by (auto intro: less_le_trans)

lemma history_seqs:
  assumes "holds_history p st H F"
  shows "mask_seq (ls_applied_seq st) = ls_applied_seq st" and "mask_seq (ls_next_seq st) = ls_next_seq st"
    and "seqs_upto (ls_next_seq st) H"
proof -
  have "unat (ls_next_seq st) < 2 ^ 63" "unat (ls_applied_seq st) < unat (ls_next_seq st)"
    "seqs_upto (ls_applied_seq st) H" "ls_applied_seq st < ls_next_seq st"
    using assms by (simp_all add: holds_history_def word_less_nat_alt)
  then show "mask_seq (ls_applied_seq st) = ls_applied_seq st" "mask_seq (ls_next_seq st) = ls_next_seq st"
    "seqs_upto (ls_next_seq st) H"
    using mask_seq_small by (auto simp: seqs_upto_def)
qed

lemma history_read:
  assumes "holds_history p st H F" and "validate_key k" and "F \<le> s" and "mask_seq s = s"
  shows "lsm_get_at_seq p st k s = Inr (db_at s H k)"
proof -
  from assms(1) obtain cs ms where "in_layers p st cs ms" "agree_from F (concat (cs @ ms)) H"
    unfolding holds_history_def by blast
  then show ?thesis using in_layers_read [of p st cs ms k s] assms(2-4) by (simp add: agree_from_def db_at_def)
qed

lemma db_at_above:
  assumes "versions_distinct H" and "seqs_upto s H" and "seqs_upto s' H"
  shows "db_at s H = db_at s' H"
  unfolding db_at_def using newest_above [OF assms] by simp

lemma history_top: "holds_history p st H F \<Longrightarrow> ls_applied_seq st \<le> s \<Longrightarrow> db_at s H = db_at (ls_applied_seq st) H"
  by (rule db_at_above) (auto simp: holds_history_def seqs_upto_def intro: order_trans)

section \<open>Commit\<close>

lemma number_ops_small:
  "\<forall>op \<in> set ops. op_readable op \<Longrightarrow> \<forall>u \<in> set (fst (number_ops ops n)). length (fst (snd u)) \<le> READABLE_VALUE"
proof (induction ops arbitrary: n)
  case (Cons op ops)
  obtain ups m where rest: "number_ops ops (n + 1) = (ups, m)" by (cases "number_ops ops (n + 1)")
  have "\<forall>u \<in> set ups. length (fst (snd u)) \<le> READABLE_VALUE" using Cons.IH [of "n + 1"] Cons.prems rest by simp
  moreover have "op_readable op" using Cons.prems by simp
  ultimately show ?case
    by (fastforce simp: rest op_readable_def split: index_op.splits option.splits prod.splits)
qed simp

lemma number_ops_readable:
  assumes "\<forall>op \<in> set ops. op_readable op" and "number_ops ops n = (ups, m)"
  shows "\<forall>e \<in> set (tagged_updates tx ups). length (fst (snd e)) \<le> READABLE_VALUE \<and> tx_of e = tx"
  using number_ops_small [OF assms(1), of n] assms(2) by (fastforce simp: tagged_updates_def)

lemma committed_seen:
  "tx_of e = tx \<Longrightarrow> tx_seen (ls_committed_tx (advance_visibility st tx)) e"
  by (auto simp: tx_seen_def advance_visibility_def not_less)

lemma advance_visibility_simps [simp]:
  "ls_mem (advance_visibility st tx) = ls_mem st" "ls_imm (advance_visibility st tx) = ls_imm st"
  "ls_ssts (advance_visibility st tx) = ls_ssts st" "ls_applied_seq (advance_visibility st tx) = ls_applied_seq st"
  "ls_next_seq (advance_visibility st tx) = ls_next_seq st" "ls_txb (advance_visibility st tx) = ls_txb st"
  "ls_registry (advance_visibility st tx) = ls_registry st" "ls_locks (advance_visibility st tx) = ls_locks st"
  "ls_ssi (advance_visibility st tx) = ls_ssi st"
  by (simp_all add: advance_visibility_def)

lemma advance_seen: "tx_seen (ls_committed_tx st) e \<Longrightarrow> tx_seen (ls_committed_tx (advance_visibility st tx)) e"
  unfolding tx_seen_def advance_visibility_def by (auto intro: order_trans)

lemma in_layers_advance: "in_layers p st cs ms \<Longrightarrow> in_layers p (advance_visibility st tx) cs ms"
  unfolding in_layers_def using advance_seen by auto

lemma in_layers_append:
  assumes st: "in_layers p st cs ms" and new: "seqs_below (concat (cs @ ms)) es" "versions_distinct es"
    and seen: "\<forall>e \<in> set es. tx_seen (ls_committed_tx st) e" and mem: "\<And>xs. mem_holds (ls_mem st) xs \<Longrightarrow> mem_holds mt (xs @ es)"
  obtains ms' where "in_layers p (st\<lparr>ls_mem := mt\<rparr>) cs ms'" and "concat (cs @ ms') = concat (cs @ ms) @ es"
proof -
  from st obtain ms1 m where ms: "ms = ms1 @ [m]" and hold: "list_all2 mem_holds (ls_imm st) ms1" "mem_holds (ls_mem st) m"
    by (auto simp: in_layers_def list_all2_append1 list_all2_Cons1)
  have lay: "layered ((cs @ ms1) @ [m])" using st by (simp add: in_layers_def ms)
  have m: "layered (cs @ ms1)" "versions_distinct m" "seqs_below (concat (cs @ ms1)) m" using lay by (simp_all only: layered_snoc)
  have below: "seqs_below m es" "seqs_below (concat (cs @ ms1)) es" using new(1) by (auto simp: ms seqs_below_def)
  have "layered ((cs @ ms1) @ [m @ es])"
    unfolding layered_snoc using m versions_distinct_append [OF below(1) m(2) new(2)] below(2) by (auto simp: seqs_below_def)
  then have "in_layers p (st\<lparr>ls_mem := mt\<rparr>) cs (ms1 @ [m @ es])"
    using st hold(1) mem [OF hold(2)] seen by (auto simp: in_layers_def ms list_all2_appendI)
  with that show thesis by (simp add: ms)
qed

lemma foldl_max_raws:
  "foldl (\<lambda>m (_, _, seq). max m (mask_seq seq)) a ups = foldl max a (map (\<lambda>(_, _, seq). mask_seq seq) ups)"
  by (induction ups arbitrary: a) auto

lemma history_commit:
  assumes hist: "holds_history p st H F" and ops: "number_ops ops (ls_next_seq st) = (ups, m)"
    and room: "unat (ls_next_seq st) + length ops + 1 < 2 ^ 63" and small: "\<forall>op \<in> set ops. op_readable op"
    and st': "st' = advance_visibility (apply_mem_updates (st\<lparr>ls_next_seq := m + 1, ls_ssi := ssi\<rparr>) ups tx) tx"
  shows "holds_history p st' (H @ tagged_updates tx ups) F"
    and "db_at (ls_applied_seq st') (H @ tagged_updates tx ups) = fold apply_op ops (db_at (ls_applied_seq st) H)"
    and "s < ls_next_seq st \<Longrightarrow> db_at s (H @ tagged_updates tx ups) = db_at s H"
    and "unat (ls_next_seq st') = unat (ls_next_seq st) + length ops + 1"
proof -
  let ?es = "tagged_updates tx ups" and ?n = "ls_next_seq st"
  note h = hist [unfolded holds_history_def]
  have dist: "versions_distinct H" and up: "seqs_upto (ls_applied_seq st) H" and an: "ls_applied_seq st < ?n" using h by blast+
  have seqs: "unat m = unat ?n + length ops" "seqs_between ?n m ?es"
    using number_ops_seqs [OF _ ops] room by auto
  have m1: "unat (m + 1) = unat m + 1" using room seqs(1) by (intro unat_Suc [of _ 1]) simp_all
  show next': "unat (ls_next_seq st') = unat ?n + length ops + 1"
    using m1 seqs(1) by (simp add: st' apply_mem_updates_def Let_def)
  have dist_es: "versions_distinct ?es" by (rule seqs_between_distinct [OF seqs(2)])
  have below: "seqs_below H ?es"
    using up an seqs(2) unfolding seqs_below_def seqs_upto_def seqs_between_def by (meson le_less_trans less_le_trans)
  have dist': "versions_distinct (H @ ?es)" by (rule versions_distinct_append [OF below dist dist_es])
  let ?max = "foldl max 0 (map (\<lambda>(_, _, seq). mask_seq seq) ups)"
  have applied: "ls_applied_seq st' = max (ls_applied_seq st) ?max"
    by (simp add: st' apply_mem_updates_def Let_def foldl_max_raws)
  have raws: "entry_raw ` set ?es = (\<lambda>(_, _, seq). mask_seq seq) ` set ups"
    by (force simp: tagged_updates_def entry_raw_def image_iff)
  have max: "?max = Max (insert 0 (entry_raw ` set ?es))" unfolding foldl_min_max_set raws set_map ..
  have up_es: "seqs_upto ?max ?es" unfolding max seqs_upto_def by simp
  then have up': "seqs_upto (ls_applied_seq st') (H @ ?es)"
    using up unfolding applied by (auto simp: seqs_upto_def le_max_iff_disj)
  have "?max < m + 1"
  proof -
    have "?max \<in> insert 0 (entry_raw ` set ?es)" unfolding max by (rule Max_in) auto
    moreover have "m < m + 1" "0 < m + 1" using m1 by (simp_all add: word_less_nat_alt)
    ultimately show ?thesis using seqs(2) unfolding seqs_between_def by (auto intro: less_trans)
  qed
  moreover have "ls_applied_seq st < m + 1"
    using an m1 seqs(1) by (simp add: word_less_nat_alt)
  ultimately have an': "ls_applied_seq st' < ls_next_seq st'"
    unfolding applied by (simp add: st' apply_mem_updates_def Let_def)
  obtain cs ms where st: "in_layers p st cs ms" and sub: "set (concat (cs @ ms)) \<subseteq> set H"
    and agree: "agree_from F (concat (cs @ ms)) H" using h by blast
  have below': "seqs_below (concat (cs @ ms)) ?es" by (rule seqs_below_mono [OF below sub order_refl])
  have tagged: "\<forall>e \<in> set ?es. length (fst (snd e)) \<le> READABLE_VALUE \<and> tx_of e = tx"
    by (rule number_ops_readable [OF small ops])
  let ?st1 = "advance_visibility (st\<lparr>ls_next_seq := m + 1, ls_ssi := ssi, ls_applied_seq := ls_applied_seq st'\<rparr>) tx"
  let ?mt = "foldl (\<lambda>mt (k, val, s). mt_put mt k val s tx) (ls_mem st) ups"
  have st1: "in_layers p ?st1 cs ms" using in_layers_advance st by (simp add: in_layers_def)
  have eq: "st' = ?st1\<lparr>ls_mem := ?mt\<rparr>"
    unfolding applied unfolding st' apply_mem_updates_def Let_def foldl_max_raws advance_visibility_def by simp
  have seen: "\<forall>e \<in> set ?es. tx_seen (ls_committed_tx ?st1) e" using committed_seen tagged by blast
  have put: "mem_holds (ls_mem ?st1) xs \<Longrightarrow> mem_holds ?mt (xs @ ?es)" for xs
    using mem_holds_puts [of "ls_mem st" xs tx ups] by simp
  obtain ms' where ms': "in_layers p st' cs ms'" "concat (cs @ ms') = concat (cs @ ms) @ ?es"
    by (rule in_layers_append [OF st1 below' dist_es seen put, folded eq])
  have lay: "layered (cs @ ms)" using st by (simp add: in_layers_def)
  have "agree_from F (concat (cs @ ms')) (H @ ?es)"
    unfolding ms'(2) by (rule agree_from_append [OF agree below' below layered_distinct [OF lay] dist dist_es])
  moreover have "set (concat (cs @ ms')) \<subseteq> set (H @ ?es)" unfolding ms'(2) using sub by auto
  moreover have "F \<le> ls_applied_seq st'" using h unfolding applied by (simp add: le_max_iff_disj)
  ultimately show "holds_history p st' (H @ ?es) F"
    unfolding holds_history_def using ms'(1) dist' up' h tagged an' next' room by auto
  have "db_at (ls_applied_seq st') H = db_at (ls_applied_seq st) H"
    by (rule history_top [OF hist]) (simp add: applied)
  moreover have "db_at (ls_applied_seq st') (H @ ?es) = fold apply_op ops (db_at (ls_applied_seq st') H)"
  proof (rule number_ops_db [OF _ ops dist])
    show "unat ?n + length ops \<le> 2 ^ 63" using room by simp
    show "\<forall>e \<in> set H. entry_raw e < ?n" using up an unfolding seqs_upto_def by (meson le_less_trans)
    show "seqs_upto (ls_applied_seq st') ?es" using up' by (simp add: seqs_upto_def)
  qed
  ultimately show "db_at (ls_applied_seq st') (H @ ?es) = fold apply_op ops (db_at (ls_applied_seq st) H)" by simp
  assume "s < ?n"
  then have "newest k s ?es = None" for k
    using seqs(2) unfolding newest_None seqs_between_def by (meson less_le_trans not_le)
  then show "db_at s (H @ ?es) = db_at s H"
    unfolding db_at_def newest_append [OF below dist dist_es] by simp
qed

section \<open>Flush\<close>

definition floor_after :: "lsm \<Rightarrow> u64 \<Rightarrow> u64" where
  "floor_after st F = max F (min (sr_min_active (ls_registry st)) (ls_applied_seq st))"

lemma floor_after_applied: "F \<le> ls_applied_seq st \<Longrightarrow> floor_after st F \<le> ls_applied_seq st"
  by (simp add: floor_after_def)

lemma floor_after_ge: "F \<le> floor_after st F"
  by (simp add: floor_after_def)

lemma floor_after_reads:
  assumes "floor_after st F \<le> s" and "seqs_upto (ls_applied_seq st) H" and "set xs \<subseteq> set H"
  shows "sr_min_active (ls_registry st) \<le> s \<or> seqs_upto s xs"
  using assms unfolding floor_after_def seqs_upto_def by (auto simp: min_le_iff_disj intro: order_trans)

lemma history_rotate:
  assumes "holds_history p st H F"
  shows "holds_history p (rotate st) H F"
proof (cases "mt_is_empty (ls_mem st)")
  case False
  obtain cs ms where st: "in_layers p st cs ms" and rest: "set (concat (cs @ ms)) \<subseteq> set H" "agree_from F (concat (cs @ ms)) H"
    using assms unfolding holds_history_def by blast
  have "layered ((cs @ ms) @ [[]])" unfolding layered_snoc using st by (simp add: in_layers_def seqs_below_def)
  moreover have "list_all2 mem_holds ((ls_imm st @ [ls_mem st]) @ [mem_table_new]) (ms @ [[]])"
    using st mem_holds_new by (intro list_all2_appendI) (simp_all add: in_layers_def)
  ultimately have "in_layers p (rotate st) cs (ms @ [[]])" using st False by (auto simp: in_layers_def rotate_def)
  moreover have "concat (cs @ ms @ [[]]) = concat (cs @ ms)" by simp
  ultimately have "\<exists>cs ms. in_layers p (rotate st) cs ms \<and> set (concat (cs @ ms)) \<subseteq> set H \<and> agree_from F (concat (cs @ ms)) H"
    using rest by metis
  then show ?thesis using assms False by (simp add: holds_history_def rotate_def)
qed (simp add: assms rotate_def)

text \<open>After the rotation the active MemTable is empty.\<close>

lemma rotated_layers:
  assumes "in_layers p (rotate st) cs ms"
  obtains ms1 where "ms = ms1 @ [[]]" and "list_all2 mem_holds (ls_imm (rotate st)) ms1"
    and "mem_holds (ls_mem (rotate st)) []"
proof -
  obtain ms1 m where ms: "ms = ms1 @ [m]" "list_all2 mem_holds (ls_imm (rotate st)) ms1" "mem_holds (ls_mem (rotate st)) m"
    using assms by (auto simp: in_layers_def list_all2_append1 list_all2_Cons1)
  have "mt_is_empty (ls_mem (rotate st))" by (simp add: rotate_def mt_is_empty_def mem_table_new_def)
  with mem_holds_empty [OF ms(3)] ms that show thesis by simp
qed

text \<open>The layers \<open>w\<close> go to the file of \<open>out\<close>.\<close>

lemma history_install:
  assumes hist: "holds_history p st H F" and lay: "layered (a @ w @ b @ ms)"
    and seen: "\<forall>e \<in> set (concat (a @ w @ b @ ms)). tx_seen (ls_committed_tx st) e"
    and all: "set (concat (a @ w @ b @ ms)) \<subseteq> set H" "agree_from F (concat (a @ w @ b @ ms)) H"
    and files: "list_all2 (sst_input (lp_blake3 p) (lp_crc32 p)) files (a @ [out] @ b)"
    and mems: "list_all2 mem_holds (ls_imm st' @ [ls_mem st']) ms" and ssts: "ls_ssts st' = sort_files files"
    and out: "set out \<subseteq> set (concat w)" "versions_distinct out"
    and same: "\<And>k s. floor_after st F \<le> s \<Longrightarrow> newest k s out = newest k s (concat w) \<or>
      a = [] \<and> value_of (newest k s out) = value_of (newest k s (concat w))"
    and frame: "\<And>e. tx_seen (ls_committed_tx st) e \<Longrightarrow> tx_seen (ls_committed_tx st') e"
      "ls_applied_seq st' = ls_applied_seq st" "ls_next_seq st' = ls_next_seq st"
  shows "holds_history p st' H (floor_after st F)"
proof -
  let ?F = "floor_after st F"
  have lay': "layered ((a @ [out] @ b) @ ms)" using layered_replace [OF lay out(2,1)] by simp
  obtain cs where cs: "list_all2 (sst_input (lp_blake3 p) (lp_crc32 p)) (ls_ssts st') cs" "layered (cs @ ms)"
    "mset cs = mset (a @ [out] @ b)" using sort_files_layers [OF files lay'] unfolding ssts by blast
  have set: "set (concat (cs @ ms)) = set (concat ((a @ [out] @ b) @ ms))"
    using mset_eq_setD [OF cs(3)] by auto
  have sub: "set (concat (cs @ ms)) \<subseteq> set (concat (a @ w @ b @ ms))" unfolding set using out(1) by auto
  have "agree_from ?F (concat (a @ [out] @ (b @ ms))) (concat (a @ w @ (b @ ms)))"
    using lay out same by (intro agree_from_replace) auto
  moreover have "newest k s (concat (cs @ ms)) = newest k s (concat (a @ [out] @ (b @ ms)))" for k s
    using set by (intro newest_set layered_distinct cs(2)) (use lay' in simp_all)
  ultimately have 1: "agree_from ?F (concat (cs @ ms)) (concat (a @ w @ b @ ms))" by (simp only: agree_from_def)
  have 2: "agree_from ?F (concat (a @ w @ b @ ms)) H" by (rule agree_from_mono [OF all(2) floor_after_ge])
  have "agree_from ?F (concat (cs @ ms)) H" using agree_from_trans [OF 1 2] by (simp only: max.idem)
  moreover have "in_layers p st' cs ms"
  proof -
    have "\<forall>e \<in> set (concat (cs @ ms)). tx_seen (ls_committed_tx st') e" using frame(1) seen sub by blast
    with cs mems show ?thesis unfolding in_layers_def by blast
  qed
  moreover have "set (concat (cs @ ms)) \<subseteq> set H" using sub all(1) by (rule subset_trans)
  ultimately show ?thesis
    using hist frame(2,3) floor_after_applied unfolding holds_history_def by auto
qed

lemma history_flush:
  assumes hist: "holds_history p st H F" and km: "km_ok (lp_km p)" and r: "lsm_flush p wal_ok manifest_ok st = (st', r)"
  shows "holds_history p st' H F \<or> holds_history p st' H (floor_after st F)"
proof -
  let ?st1 = "rotate st"
  have rot: "holds_history p ?st1 H F" by (rule history_rotate [OF hist])
  have same: "ls_registry ?st1 = ls_registry st" "ls_applied_seq ?st1 = ls_applied_seq st" by (simp_all add: rotate_def)
  show ?thesis
  proof (cases "\<exists>rd. st' = install_file ?st1 rd \<and>
      write_file p (flush_entries (sr_min_active (ls_registry ?st1)) (ls_imm ?st1)) = Inr rd")
    case False
    then have "st' = st \<or> st' = ?st1" using r by (auto simp: lsm_flush_def Let_def split: if_splits sum.splits)
    with hist rot show ?thesis by auto
  next
    case True
    let ?out = "flush_entries (sr_min_active (ls_registry ?st1)) (ls_imm ?st1)"
    from True obtain rd where st': "st' = install_file ?st1 rd" and w: "write_file p ?out = Inr rd" by blast
    obtain cs ms where st: "in_layers p ?st1 cs ms" and sub: "set (concat (cs @ ms)) \<subseteq> set H"
      and agree: "agree_from F (concat (cs @ ms)) H" using rot unfolding holds_history_def by blast
    obtain ms1 where ms: "ms = ms1 @ [[]]" and imm: "list_all2 mem_holds (ls_imm ?st1) ms1"
      and mem: "mem_holds (ls_mem ?st1) []" by (rule rotated_layers [OF st])
    have X: "mset (concat (map mt_iter (ls_imm ?st1))) = mset (concat ms1)" by (rule mem_holds_iters [OF imm])
    have "layered ms1" using st by (auto simp: in_layers_def ms layered_append)
    then have dist: "versions_distinct (concat ms1)" by (rule layered_distinct)
    have small: "\<forall>e \<in> set ?out. length (fst (snd e)) \<le> READABLE_VALUE"
    proof
      fix e assume e: "e \<in> set ?out"
      obtain k v where kv: "e = (k, v)" by (cases e)
      have "v \<in> snd ` set (filter (\<lambda>e. fst e = k) (concat (map mt_iter (ls_imm ?st1))))"
        using e retain_loop_subset unfolding kv in_flush_entries retain_key_versions_def by fastforce
      then have "e \<in> set (concat ms1)" using mset_eq_setD [OF X] by (auto simp: kv)
      then have "e \<in> set H" using sub by (auto simp: ms)
      then show "length (fst (snd e)) \<le> READABLE_VALUE" using hist by (simp add: holds_history_def)
    qed
    have inp: "sst_input (lp_blake3 p) (lp_crc32 p) rd ?out" by (rule write_file_holds [OF km small w])
    have dist_out: "versions_distinct ?out" by (rule sst_input_distinct [OF inp])
    note reads = flush_entries_reads [OF X dist dist_out]
    have "set ?out \<subseteq> set (concat ms1)" using reads(1) by blast
    moreover have "newest k s ?out = newest k s (concat ms1)" if "floor_after ?st1 F \<le> s" for k s
    proof -
      have "seqs_upto (ls_applied_seq ?st1) H" "set (concat ms1) \<subseteq> set H" using rot sub by (auto simp: holds_history_def ms)
      with floor_after_reads [OF that] show ?thesis by (intro reads(2))
    qed
    ultimately have "holds_history p st' H (floor_after ?st1 F)"
      using st sub agree ms mem inp dist_out
      by (intro history_install [OF rot, where a = cs and w = ms1 and b = "[]" and ms = "[[]]" and files = "ls_ssts ?st1 @ [rd]" and out = ?out])
        (auto simp: st' install_file_def Let_def in_layers_def list_all2_appendI advance_seen)
    then show ?thesis using same by (simp add: floor_after_def)
  qed
qed

section \<open>Compaction\<close>

lemma input_order_files: "map fst (input_order window) = sort_files window"
  using map_sort_key [of fst file_key "zip window [0..<length window]"] by (simp add: input_order_def sort_files_def)

lemma window_split: "xs = take i xs @ take n (drop i xs) @ drop (i + n) xs"
  by (metis append_take_drop_id drop_drop add.commute)

lemma history_compact:
  assumes hist: "holds_history p st H F" and km: "km_ok (lp_km p)" and q: "quiet cfg env"
  obtains st' r where "maybe_compact p pick min_tier cfg env memory_ok manifest_ok st = Some (st', r)"
    and "holds_history p st' H F \<or> holds_history p st' H (floor_after st F)"
    and "\<exists>fs. st' = st\<lparr>ls_ssts := fs\<rparr>"
proof -
  have self: "\<exists>fs. st = st\<lparr>ls_ssts := fs\<rparr>" by (rule exI [of _ "ls_ssts st"]) simp
  show thesis
  proof (cases "length (ls_ssts st) < min_tier \<or> pick (map rd_meta (ls_ssts st)) = None \<or>
      (\<exists>i n. pick (map rd_meta (ls_ssts st)) = Some (i, n) \<and> (n < 2 \<or> \<not> memory_ok))")
    case True
    then have "\<exists>r. maybe_compact p pick min_tier cfg env memory_ok manifest_ok st = Some (st, r)"
      by (auto simp: maybe_compact_def split: option.splits)
    with hist self that show thesis by blast
  next
    case False
    then obtain i n where pick: "pick (map rd_meta (ls_ssts st)) = Some (i, n)" "\<not> n < 2" memory_ok
      and enough: "\<not> length (ls_ssts st) < min_tier" by auto
    let ?window = "take n (drop i (ls_ssts st))"
    let ?inputs = "sort_files ?window"
    let ?cfg = "cfg\<lparr>mc_floor := sr_min_active (ls_registry st), mc_full := (length ?window = length (ls_ssts st))\<rparr>"
    have q': "quiet ?cfg env" using q by (simp add: quiet_def)
    obtain cs ms where st: "in_layers p st cs ms" and sub: "set (concat (cs @ ms)) \<subseteq> set H"
      and agree: "agree_from F (concat (cs @ ms)) H" using hist unfolding holds_history_def by blast
    let ?a = "take i cs" and ?w = "take n (drop i cs)" and ?b = "drop (i + n) cs"
    have cs: "cs = ?a @ ?w @ ?b" by (rule window_split)
    have all: "list_all2 (sst_input (lp_blake3 p) (lp_crc32 p)) (ls_ssts st) cs" using st by (simp add: in_layers_def)
    then have win: "list_all2 (sst_input (lp_blake3 p) (lp_crc32 p)) ?window ?w" by (simp add: list_all2_takeI list_all2_dropI)
    have lay: "layered (?a @ ?w @ ?b @ ms)" using st cs by (metis append.assoc in_layers_def)
    then have "layered ?w" by (simp add: layered_append)
    then have dist: "versions_distinct (concat ?w)" by (rule layered_distinct)
    obtain win' where win': "list_all2 (sst_input (lp_blake3 p) (lp_crc32 p)) ?inputs win'" "mset win' = mset ?w" "layered win'"
      using sort_files_layers [OF win, of "[]"] \<open>layered ?w\<close> by auto
    obtain out where run: "merge_sstables (lp_blake3 p) (lp_crc32 p) (lp_bits p) (lp_hashes p) (lp_km p) ?cfg env ?inputs =
        Some (lift_res (sst_write (lp_blake3 p) (lp_crc32 p) (lp_km p) (lp_bits p) (lp_hashes p) 4 out))"
      and out: "set out \<subseteq> set (concat win')" "versions_distinct out"
      and reads: "\<And>k s. mc_floor ?cfg \<le> s \<or> seqs_upto s (concat win') \<Longrightarrow> newest k s out = newest k s (concat win') \<or>
        mc_full ?cfg \<and> value_of (newest k s out) = value_of (newest k s (concat win'))"
      using merged_reads [OF q' win'(1) layered_distinct [OF win'(3)], of "lp_bits p" "lp_hashes p" "lp_km p"] by blast
    have set: "set (concat win') = set (concat ?w)" using mset_eq_setD [OF win'(2)] by simp
    then have new: "newest k s (concat win') = newest k s (concat ?w)" for k s
      by (intro newest_set layered_distinct win'(3) \<open>layered ?w\<close>)
    let ?call = "maybe_compact p pick min_tier cfg env memory_ok manifest_ok st"
    have call: "?call = Some (case lift_res (sst_write (lp_blake3 p) (lp_crc32 p) (lp_km p) (lp_bits p) (lp_hashes p) 4 out) of
        Inl e \<Rightarrow> (st, Inl (Merge_error e))
      | Inr (bs, meta) \<Rightarrow>
          (case sst_open (lp_crc32 p) (lp_km p) bs of
             Inl e \<Rightarrow> (st, Inl (File_error e))
           | Inr rd \<Rightarrow>
               if map snd (input_order ?window) \<noteq> [0..<length ?window] then (st, Inr False)
               else if \<not> manifest_ok then (st, Inl Storage)
               else (st\<lparr>ls_ssts := sort_files (take i (ls_ssts st) @ rd # drop (i + n) (ls_ssts st))\<rparr>, Inr True)))"
      using pick(2,3) enough
      by (simp only: maybe_compact_def Let_def pick(1) option.case prod.case if_False not_True_eq_False input_order_files run option.map(2))
    show thesis
    proof (cases "\<exists>bs meta rd. sst_write (lp_blake3 p) (lp_crc32 p) (lp_km p) (lp_bits p) (lp_hashes p) 4 out = Inr (bs, meta) \<and>
        sst_open (lp_crc32 p) (lp_km p) bs = Inr rd \<and> manifest_ok \<and> map snd (input_order ?window) = [0..<length ?window]")
      case False
      then have "\<exists>r. ?call = Some (st, r)" unfolding call by (auto simp: lift_res_def split: sum.splits prod.splits)
      with hist self that show thesis by blast
    next
      case True
      then obtain bs meta rd where w: "sst_write (lp_blake3 p) (lp_crc32 p) (lp_km p) (lp_bits p) (lp_hashes p) 4 out = Inr (bs, meta)"
        and opn: "sst_open (lp_crc32 p) (lp_km p) bs = Inr rd" and ok: manifest_ok "map snd (input_order ?window) = [0..<length ?window]" by blast
      let ?files = "take i (ls_ssts st) @ rd # drop (i + n) (ls_ssts st)"
      let ?st' = "st\<lparr>ls_ssts := sort_files ?files\<rparr>"
      have sub_w: "set (concat ?w) \<subseteq> set H"
      proof -
        have "set (concat ?w) \<subseteq> set (concat cs)" by (subst (2) cs) auto
        with sub show ?thesis by auto
      qed
      have "\<forall>e \<in> set out. length (fst (snd e)) \<le> READABLE_VALUE"
        using out(1) set sub_w hist unfolding holds_history_def by blast
      then have inp: "sst_input (lp_blake3 p) (lp_crc32 p) rd out" by (rule written_file_holds [OF km _ w opn])
      have files: "list_all2 (sst_input (lp_blake3 p) (lp_crc32 p)) ?files (?a @ [out] @ ?b)"
        using all inp by (auto intro!: list_all2_appendI list_all2_takeI list_all2_dropI)
      have same: "newest k s out = newest k s (concat ?w) \<or>
          ?a = [] \<and> value_of (newest k s out) = value_of (newest k s (concat ?w))" if "floor_after st F \<le> s" for k s
      proof -
        have "seqs_upto (ls_applied_seq st) H" using hist by (simp add: holds_history_def)
        from floor_after_reads [OF that this, of "concat win'"] sub_w set reads [of s k]
        have "newest k s out = newest k s (concat ?w) \<or>
            mc_full ?cfg \<and> value_of (newest k s out) = value_of (newest k s (concat ?w))" by (simp add: new)
        moreover have "?a = []" if "mc_full ?cfg"
          using that list_all2_lengthD [OF all] by (cases cs) (auto simp: min_def split: if_splits)
        ultimately show ?thesis by blast
      qed
      have "holds_history p ?st' H (floor_after st F)"
      proof (rule history_install [OF hist lay, where files = ?files and out = out])
        show "\<forall>e \<in> set (concat (?a @ ?w @ ?b @ ms)). tx_seen (ls_committed_tx st) e"
          using st cs by (metis append.assoc in_layers_def)
        show "set (concat (?a @ ?w @ ?b @ ms)) \<subseteq> set H" using sub cs by (metis append.assoc)
        show "agree_from F (concat (?a @ ?w @ ?b @ ms)) H" using agree cs by (metis append.assoc)
        show "list_all2 mem_holds (ls_imm ?st' @ [ls_mem ?st']) ms" using st by (simp add: in_layers_def)
        show "set out \<subseteq> set (concat ?w)" using out(1) set by simp
      qed (use files out(2) same in simp_all)
      moreover have "?call = Some (?st', Inr True)" unfolding call w opn lift_res_simps using ok opn by simp
      ultimately show thesis using that by blast
    qed
  qed
qed

end
