(* ===== verification/LsmRun.thy ===== *)
theory LsmRun
  imports LsmInv
begin

text \<open>
  Runs of the storage engine and what they promise: a database that commits replace as a whole, the staged
  operations of every transaction, and the databases that pinned snapshots keep.
\<close>

section \<open>Operations\<close>

datatype lsm_op =
    Do_put bool u64 u64 bytes bytes
  | Do_put_if_absent bool u64 u64 bytes bytes
  | Do_delete bool u64 u64 bytes
  | Do_delete_many bool u64 u64 "bytes list"
  | Do_get bytes
  | Do_get_tracked u64 bytes
  | Do_get_at bytes u64
  | Do_pin u64
  | Do_unpin u64
  | Do_rollback u64
  | Do_commit bool wal_outcome u64
  | Do_flush bool bool
  | Do_compact "sst_meta list \<Rightarrow> (nat \<times> nat) option" nat merge_config merge_env bool bool

datatype lsm_out =
    Accepted
  | Counted nat
  | Flagged bool
  | Found "bytes option"
  | Pinned u64
  | Refused lsm_error
  | Hangs

definition answer :: "('a \<Rightarrow> lsm_out) \<Rightarrow> lsm_error + 'a \<Rightarrow> lsm_out" where
  "answer f r = (case r of Inl e \<Rightarrow> Refused e | Inr x \<Rightarrow> f x)"

text \<open>A snapshot pins the last sequence number.\<close>

fun lsm_exec :: "lsm_params \<Rightarrow> lsm_op \<Rightarrow> lsm \<Rightarrow> lsm \<times> lsm_out" where
  "lsm_exec p (Do_put ok now tx k v) st = map_prod id (answer (\<lambda>_. Accepted)) (lsm_put p ok now st tx k v)"
| "lsm_exec p (Do_put_if_absent ok now tx k v) st = map_prod id (answer Flagged) (put_if_absent p ok now st tx k v)"
| "lsm_exec p (Do_delete ok now tx k) st = map_prod id (answer (\<lambda>_. Accepted)) (lsm_delete p ok now st tx k)"
| "lsm_exec p (Do_delete_many ok now tx ks) st = map_prod id (answer Counted) (lsm_delete_many p ok now st tx ks)"
| "lsm_exec p (Do_get k) st = (st, answer Found (lsm_get p st k))"
| "lsm_exec p (Do_get_tracked tx k) st = map_prod id (answer Found) (get_tracked p st tx k)"
| "lsm_exec p (Do_get_at k s) st = (st, answer Found (lsm_get_at_seq p st k s))"
| "lsm_exec p (Do_pin now) st = (pin_checkpoint now st (last_seq_no st), Pinned (last_seq_no st))"
| "lsm_exec p (Do_unpin s) st = (unpin_checkpoint st s, Accepted)"
| "lsm_exec p (Do_rollback tx) st = (lsm_rollback p st tx, Accepted)"
| "lsm_exec p (Do_commit ok wal tx) st =
     map_prod id (\<lambda>r. case r of None \<Rightarrow> Hangs | Some x \<Rightarrow> answer (\<lambda>_. Accepted) x) (lsm_commit p ok wal st tx)"
| "lsm_exec p (Do_flush wal_ok manifest_ok) st = map_prod id (answer (\<lambda>_. Accepted)) (lsm_flush p wal_ok manifest_ok st)"
| "lsm_exec p (Do_compact pick min_tier cfg env memory_ok manifest_ok) st =
     (case maybe_compact p pick min_tier cfg env memory_ok manifest_ok st of
        None \<Rightarrow> (st, Hangs)
      | Some r \<Rightarrow> map_prod id (answer Flagged) r)"

fun lsm_run :: "lsm_params \<Rightarrow> lsm_op list \<Rightarrow> lsm \<Rightarrow> lsm \<times> lsm_out list" where
  "lsm_run p [] st = (st, [])"
| "lsm_run p (op # ops) st =
     (let (st1, out) = lsm_exec p op st; (st2, outs) = lsm_run p ops st1 in (st2, out # outs))"

text \<open>What the theorems ask of the operations: values that files can give back, and compactions
  without a merge operator that are left to run.\<close>

fun op_admitted :: "lsm_op \<Rightarrow> bool" where
  "op_admitted (Do_put ok now tx k v) \<longleftrightarrow> length v \<le> READABLE_VALUE"
| "op_admitted (Do_put_if_absent ok now tx k v) \<longleftrightarrow> length v \<le> READABLE_VALUE"
| "op_admitted (Do_compact pick min_tier cfg env memory_ok manifest_ok) \<longleftrightarrow> quiet cfg env"
| "op_admitted _ \<longleftrightarrow> True"

section \<open>The specification\<close>

record lsm_spec =
  sp_db :: db
  sp_staged :: "u64 \<Rightarrow> kv index_op list"
  sp_pins :: "(u64 \<times> db) list"

definition spec_new :: lsm_spec where
  "spec_new = \<lparr>sp_db = (\<lambda>_. None), sp_staged = (\<lambda>_. []), sp_pins = []\<rparr>"

fun drop_pin :: "u64 \<Rightarrow> (u64 \<times> db) list \<Rightarrow> (u64 \<times> db) list" where
  "drop_pin s [] = []"
| "drop_pin s (d # ds) = (if fst d = s then ds else d # drop_pin s ds)"

definition spec_stage :: "u64 \<Rightarrow> kv index_op list \<Rightarrow> lsm_spec \<Rightarrow> lsm_spec" where
  "spec_stage tx ops sp = sp\<lparr>sp_staged := (sp_staged sp)(tx := sp_staged sp tx @ ops)\<rparr>"

definition op_put :: "lsm_params \<Rightarrow> bytes \<Rightarrow> bytes \<Rightarrow> kv index_op" where
  "op_put p k v = OpInsert (lp_doc_id p k) (k, v)"

definition op_del :: "lsm_params \<Rightarrow> bytes \<Rightarrow> kv index_op" where
  "op_del p k = OpDelete (lp_doc_id p k) (Some (k, []))"

fun lsm_spec_step :: "lsm_params \<Rightarrow> lsm_op \<Rightarrow> lsm_out \<Rightarrow> lsm_spec \<Rightarrow> lsm_spec" where
  "lsm_spec_step p (Do_put ok now tx k v) out sp = (if out = Accepted then spec_stage tx [op_put p k v] sp else sp)"
| "lsm_spec_step p (Do_put_if_absent ok now tx k v) out sp =
     (if out = Flagged True then spec_stage tx [op_put p k v] sp else sp)"
| "lsm_spec_step p (Do_delete ok now tx k) out sp = (if out = Accepted then spec_stage tx [op_del p k] sp else sp)"
| "lsm_spec_step p (Do_delete_many ok now tx ks) out sp =
     (if out = Counted (length ks) then spec_stage tx (map (op_del p) ks) sp else sp)"
| "lsm_spec_step p (Do_pin now) out sp =
     (case out of Pinned s \<Rightarrow> sp\<lparr>sp_pins := (s, sp_db sp) # sp_pins sp\<rparr> | _ \<Rightarrow> sp)"
| "lsm_spec_step p (Do_unpin s) out sp = sp\<lparr>sp_pins := drop_pin (mask_seq s) (sp_pins sp)\<rparr>"
| "lsm_spec_step p (Do_rollback tx) out sp = sp\<lparr>sp_staged := (sp_staged sp)(tx := [])\<rparr>"
| "lsm_spec_step p (Do_commit ok wal tx) out sp =
     (if \<not> ok then sp
      else sp\<lparr>sp_staged := (sp_staged sp)(tx := []),
              sp_db := (if out = Accepted then fold apply_op (sp_staged sp tx) (sp_db sp) else sp_db sp)\<rparr>)"
| "lsm_spec_step p _ out sp = sp"

definition found_in :: "db \<Rightarrow> bytes \<Rightarrow> lsm_out" where
  "found_in d k = (if validate_key k then Found (d k) else Refused Invalid)"

fun lsm_spec_out :: "lsm_op \<Rightarrow> lsm_out \<Rightarrow> lsm_spec \<Rightarrow> bool" where
  "lsm_spec_out (Do_put_if_absent ok now tx k v) out sp \<longleftrightarrow> (out = Flagged True \<longrightarrow> sp_db sp k = None)"
| "lsm_spec_out (Do_get k) out sp \<longleftrightarrow> out = found_in (sp_db sp) k"
| "lsm_spec_out (Do_get_tracked tx k) out sp \<longleftrightarrow> out = found_in (sp_db sp) k"
| "lsm_spec_out (Do_get_at k s) out sp \<longleftrightarrow> (\<forall>(s', d) \<in> set (sp_pins sp). s' = s \<longrightarrow> out = found_in d k)"
| "lsm_spec_out (Do_commit ok wal tx) out sp \<longleftrightarrow> 
     (out = Accepted \<longrightarrow> ok \<and> (wal = Appended \<or> sp_staged sp tx = [])) \<and> (out = Hangs \<longrightarrow> wal = Append_failed)"
| "lsm_spec_out (Do_compact pick min_tier cfg env memory_ok manifest_ok) out sp \<longleftrightarrow> out \<noteq> Hangs"
| "lsm_spec_out _ out sp \<longleftrightarrow> True"

fun lsm_spec_run :: "lsm_params \<Rightarrow> lsm_op list \<Rightarrow> lsm_out list \<Rightarrow> lsm_spec \<Rightarrow> lsm_spec \<times> bool" where
  "lsm_spec_run p (op # ops) (out # outs) sp =
     (let (sp', ok) = lsm_spec_run p ops outs (lsm_spec_step p op out sp) in (sp', lsm_spec_out op out sp \<and> ok))"
| "lsm_spec_run p ops outs sp = (sp, ops = [] \<and> outs = [])"

section \<open>The invariant\<close>

definition staging_ok :: "lsm \<Rightarrow> (u64 \<Rightarrow> kv index_op list) \<Rightarrow> bool" where
  "staging_ok st g \<longleftrightarrow> tb_ok kv_size (ls_txb st) \<and> tx_ops (ls_txb st) = g \<and> (\<forall>tx. \<forall>op \<in> set (g tx). op_readable op)"

definition pins_ok :: "lsm \<Rightarrow> entry list \<Rightarrow> u64 \<Rightarrow> (u64 \<times> db) list \<Rightarrow> bool" where
  "pins_ok st H F pins \<longleftrightarrow> reg_ok (ls_registry st) \<and>
     (\<forall>s. length (metas_at (ls_registry st) s) = count_list (map fst pins) s) \<and>
     (\<forall>(s, d) \<in> set pins. F \<le> s \<and> s < ls_next_seq st \<and> d = db_at s H)"

definition lsm_inv :: "lsm_params \<Rightarrow> lsm \<Rightarrow> entry list \<Rightarrow> u64 \<Rightarrow> lsm_spec \<Rightarrow> bool" where
  "lsm_inv p st H F sp \<longleftrightarrow> holds_history p st H F \<and> sp_db sp = db_at (ls_applied_seq st) H \<and>
     staging_ok st (sp_staged sp) \<and> pins_ok st H F (sp_pins sp)"

lemmas lsm_inv_defs = lsm_inv_def staging_ok_def pins_ok_def holds_history_def in_layers_def

lemma inv_frame [simp]:
  "lsm_inv p (st\<lparr>ls_locks := l\<rparr>) H F sp = lsm_inv p st H F sp"
  "lsm_inv p (st\<lparr>ls_ssi := v\<rparr>) H F sp = lsm_inv p st H F sp"
  by (simp_all add: lsm_inv_defs)

lemma inv_stage:
  "lsm_inv p st H F sp \<Longrightarrow> stages (ls_txb st) tb g \<Longrightarrow> \<forall>tx. \<forall>op \<in> set (g tx). op_readable op \<Longrightarrow>
   lsm_inv p (st\<lparr>ls_txb := tb\<rparr>) H F (sp\<lparr>sp_staged := g\<rparr>)"
  by (simp add: lsm_inv_defs stages_def)

lemma inv_staged:
  "lsm_inv p st H F sp \<Longrightarrow> tb_ok kv_size (ls_txb st) \<and> tx_ops (ls_txb st) = sp_staged sp \<and>
   (\<forall>tx. \<forall>op \<in> set (sp_staged sp tx). op_readable op)"
  by (auto simp: lsm_inv_def staging_ok_def)

text \<open>A new snapshot from what is now held.\<close>

definition same_files :: "lsm \<Rightarrow> lsm \<Rightarrow> bool" where
  "same_files st st' \<longleftrightarrow> ls_txb st' = ls_txb st \<and> ls_registry st' = ls_registry st \<and>
     ls_applied_seq st' = ls_applied_seq st \<and> ls_next_seq st' = ls_next_seq st"

lemma inv_files:
  assumes inv: "lsm_inv p st H F sp" and F': "holds_history p st' H F \<or> holds_history p st' H (floor_after st F)"
    and same: "same_files st st'"
  shows "\<exists>F'. lsm_inv p st' H F' sp"
  using F'
proof
  assume "holds_history p st' H F"
  with inv same have "lsm_inv p st' H F sp" by (simp add: lsm_inv_def staging_ok_def pins_ok_def same_files_def)
  then show ?thesis ..
next
  assume hist: "holds_history p st' H (floor_after st F)"
  have "floor_after st F \<le> s" if s: "(s, d) \<in> set (sp_pins sp)" for s d
  proof -
    have pins: "reg_ok (ls_registry st)" "length (metas_at (ls_registry st) s) = count_list (map fst (sp_pins sp)) s" "F \<le> s"
      using inv s by (auto simp: lsm_inv_def pins_ok_def)
    have "s \<in> set (map fst (sp_pins sp))" using s by force
    then have "metas_at (ls_registry st) s \<noteq> []" using pins(2) by (metis count_list_0_iff length_0_conv)
    then have "sr_min_active (ls_registry st) \<le> s" by (rule min_active_le [OF pins(1)])
    with pins(3) show ?thesis by (auto simp: floor_after_def min_le_iff_disj)
  qed
  with inv same hist have "lsm_inv p st' H (floor_after st F) sp"
    by (auto simp: lsm_inv_def staging_ok_def pins_ok_def same_files_def)
  then show ?thesis ..
qed

lemma inv_new: "lsm_inv p (lsm_new (tx_buffer_new n c) ssi) [] 0 spec_new"
proof -
  let ?st = "lsm_new (tx_buffer_new n c) ssi"
  have "in_layers p ?st [] [[]] \<and> set (concat ([] @ [[]])) \<subseteq> set [] \<and> agree_from 0 (concat ([] @ [[]])) []"
    using mem_holds_new by (simp add: in_layers_def lsm_new_def layered_def agree_from_refl)
  then have "holds_history p ?st [] 0"
    unfolding holds_history_def by (intro conjI exI) (auto simp: lsm_new_def seqs_upto_def)
  moreover have "db_at s [] = (\<lambda>_. None)" for s by (simp add: db_at_def newest_def)
  ultimately show ?thesis
    using tb_ok_new [of kv_size n c] tx_ops_new [of n c] reg_ok_new
    by (simp add: lsm_inv_def staging_ok_def pins_ok_def lsm_new_def spec_new_def)
qed

section \<open>One operation\<close>

definition step_to :: "lsm_params \<Rightarrow> nat \<Rightarrow> lsm \<Rightarrow> lsm \<Rightarrow> lsm_spec \<Rightarrow> bool" where
  "step_to p cap st st' sp' \<longleftrightarrow> (\<exists>H F. lsm_inv p st' H F sp') \<and>
     unat (ls_next_seq st') \<le> unat (ls_next_seq st) + cap + 1 \<and> tb_config (ls_txb st') = tb_config (ls_txb st)"

lemma step_to_refl: "lsm_inv p st H F sp \<Longrightarrow> step_to p cap st st sp"
  by (auto simp: step_to_def)

lemma step_to_locks [simp]:
  "step_to p cap st (st'\<lparr>ls_locks := l\<rparr>) sp = step_to p cap st st' sp"
  "step_to p cap (st\<lparr>ls_locks := l\<rparr>) st' sp = step_to p cap st st' sp"
  by (simp_all add: step_to_def)

lemma step_to_ssi [simp]: "step_to p cap st (st'\<lparr>ls_ssi := v\<rparr>) sp = step_to p cap st st' sp"
  by (simp add: step_to_def)

lemma step_to_stage:
  assumes inv: "lsm_inv p st H F sp" and st: "stages (ls_txb st) tb g" and small: "\<forall>tx. \<forall>op \<in> set (g tx). op_readable op"
  shows "step_to p cap st (st\<lparr>ls_txb := tb\<rparr>) (sp\<lparr>sp_staged := g\<rparr>)"
proof -
  have "lsm_inv p (st\<lparr>ls_txb := tb\<rparr>) H F (sp\<lparr>sp_staged := g\<rparr>)" by (rule inv_stage [OF inv st small])
  then show ?thesis using st unfolding step_to_def stages_def by auto
qed

lemma spec_stage_Nil [simp]: "spec_stage tx [] sp = sp"
  by (simp add: spec_stage_def)

lemma same_staged: "sp\<lparr>sp_staged := sp_staged sp\<rparr> = (sp :: lsm_spec)"
  by simp

text \<open>Staging, whether it succeeds or not.\<close>

lemma staged_step:
  assumes inv: "lsm_inv p st H F sp" and small: "\<forall>op \<in> set ops. op_readable op"
    and st: "stages (ls_txb st) tb (if r = Inr () then (tx_ops (ls_txb st))(tx := tx_ops (ls_txb st) tx @ ops) else tx_ops (ls_txb st))"
  shows "step_to p cap st (st\<lparr>ls_txb := tb\<rparr>) (if r = Inr () then spec_stage tx ops sp else sp)"
proof -
  note stg = inv_staged [OF inv]
  let ?g = "if r = Inr () then (sp_staged sp)(tx := sp_staged sp tx @ ops) else sp_staged sp"
  have eq: "tx_ops (ls_txb st) = sp_staged sp" using stg by blast
  have "stages (ls_txb st) tb ?g" using st unfolding eq .
  moreover have "\<forall>tx. \<forall>op \<in> set (?g tx). op_readable op" using stg small by auto
  ultimately have "step_to p cap st (st\<lparr>ls_txb := tb\<rparr>) (sp\<lparr>sp_staged := ?g\<rparr>)" by (rule step_to_stage [OF inv])
  then show ?thesis by (cases "r = Inr ()") (simp_all add: spec_stage_def)
qed

lemma answer_simps [simp]: "answer f (Inl e) = Refused e" "answer f (Inr x) = f x"
  by (simp_all add: answer_def)

lemma exec_put:
  assumes inv: "lsm_inv p st H F sp" and "length v \<le> READABLE_VALUE"
    and ex: "lsm_exec p (Do_put ok now tx k v) st = (st', out)"
  shows "step_to p cap st st' (if out = Accepted then spec_stage tx [op_put p k v] sp else sp)"
proof (cases "validate_key k \<and> validate_value v \<and> ok")
  case True
  obtain tb r where r: "stage_kv (lp_key_hash p) (ls_txb st) tx (op_put p k v) now = (tb, r)"
    by (cases "stage_kv (lp_key_hash p) (ls_txb st) tx (op_put p k v) now")
  have "st' = st\<lparr>ls_txb := tb\<rparr> \<and> (out = Accepted \<longleftrightarrow> r = Inr ())"
    using ex True r by (auto simp: lsm_put_def stage_result_def op_put_def split: sum.splits)
  moreover have "op_readable (op_put p k v)" using assms(2) by (simp add: op_readable_def op_put_def)
  ultimately show ?thesis
    using staged_step [OF inv _ stage_kv_stages [OF _ r]] inv_staged [OF inv] by simp
next
  case False
  then have "st' = st \<and> out \<noteq> Accepted" using ex by (auto simp: lsm_put_def split: if_splits)
  then show ?thesis using step_to_refl [OF inv] by simp
qed

lemma exec_delete:
  assumes inv: "lsm_inv p st H F sp" and ex: "lsm_exec p (Do_delete ok now tx k) st = (st', out)"
  shows "step_to p cap st st' (if out = Accepted then spec_stage tx [op_del p k] sp else sp)"
proof (cases "validate_key k \<and> ok")
  case True
  obtain tb r where r: "stage_kv (lp_key_hash p) (ls_txb st) tx (op_del p k) now = (tb, r)"
    by (cases "stage_kv (lp_key_hash p) (ls_txb st) tx (op_del p k) now")
  have "st' = st\<lparr>ls_txb := tb\<rparr> \<and> (out = Accepted \<longleftrightarrow> r = Inr ())"
    using ex True r by (auto simp: lsm_delete_def stage_result_def op_del_def split: sum.splits)
  moreover have "op_readable (op_del p k)" by (simp add: op_readable_def op_del_def)
  ultimately show ?thesis
    using staged_step [OF inv _ stage_kv_stages [OF _ r]] inv_staged [OF inv] by simp
next
  case False
  then have "st' = st \<and> out \<noteq> Accepted" using ex by (auto simp: lsm_delete_def split: if_splits)
  then show ?thesis using step_to_refl [OF inv] by simp
qed

lemma exec_delete_many:
  assumes inv: "lsm_inv p st H F sp" and ex: "lsm_exec p (Do_delete_many ok now tx ks) st = (st', out)"
  shows "step_to p cap st st' (if out = Counted (length ks) then spec_stage tx (map (op_del p) ks) sp else sp)"
proof (cases "length ks \<le> MAX_BATCH_SIZE \<and> list_all validate_key ks \<and> ok \<and> ks \<noteq> []")
  case True
  obtain tb r where r: "stage_many kv_size (ls_txb st) tx (map (op_del p) ks) now = (tb, r)"
    by (cases "stage_many kv_size (ls_txb st) tx (map (op_del p) ks) now")
  have dels: "map (\<lambda>key. OpDelete (lp_doc_id p key) (Some (key, []))) ks = map (op_del p) ks" by (simp add: op_del_def)
  have "st' = st\<lparr>ls_txb := tb\<rparr> \<and> (out = Counted (length ks) \<longleftrightarrow> r = Inr ())"
    using ex True r unfolding lsm_exec.simps lsm_delete_many_def dels by (auto simp: stage_result_def split: sum.splits)
  moreover have "\<forall>op \<in> set (map (op_del p) ks). op_readable op" by (simp add: op_readable_def op_del_def)
  ultimately show ?thesis
    using staged_step [OF inv _ stage_many_stages [OF _ r]] inv_staged [OF inv] by simp
next
  case False
  then have "st' = st \<and> (out = Counted (length ks) \<longrightarrow> ks = [])" using ex by (auto simp: lsm_delete_many_def split: if_splits)
  then show ?thesis using step_to_refl [OF inv] by auto
qed

lemma inv_read:
  assumes inv: "lsm_inv p st H F sp" and "validate_key k"
  shows "lsm_get_at_seq p st k (ls_applied_seq st) = Inr (sp_db sp k)" and "lsm_get_at_seq p st k (ls_next_seq st) = Inr (sp_db sp k)"
    and "(s, d) \<in> set (sp_pins sp) \<Longrightarrow> lsm_get_at_seq p st k s = Inr (d k)"
proof -
  have hist: "holds_history p st H F" and db: "sp_db sp = db_at (ls_applied_seq st) H"
    using inv by (simp_all add: lsm_inv_def)
  note seqs = history_seqs [OF hist]
  have F: "F \<le> ls_applied_seq st" "ls_applied_seq st < ls_next_seq st" and n: "unat (ls_next_seq st) < 2 ^ 63"
    using hist by (simp_all add: holds_history_def)
  show "lsm_get_at_seq p st k (ls_applied_seq st) = Inr (sp_db sp k)"
    using history_read [OF hist assms(2) F(1) seqs(1)] db by simp
  show "lsm_get_at_seq p st k (ls_next_seq st) = Inr (sp_db sp k)"
    using history_read [OF hist assms(2) _ seqs(2)] history_top [OF hist, of "ls_next_seq st"] F db by simp
  assume "(s, d) \<in> set (sp_pins sp)"
  then have s: "F \<le> s" "s < ls_next_seq st" "d = db_at s H" using inv by (auto simp: lsm_inv_def pins_ok_def)
  then have "unat s < 2 ^ 63" using n by (simp add: word_less_nat_alt)
  then have "mask_seq s = s" using mask_seq_small by blast
  with history_read [OF hist assms(2) s(1)] s(3) show "lsm_get_at_seq p st k s = Inr (d k)" by simp
qed

lemma release_lock_frame: "\<exists>l. release_lock tx k st = st\<lparr>ls_locks := l\<rparr>"
proof -
  have "st = st\<lparr>ls_locks := ls_locks st\<rparr>" by simp
  then show ?thesis unfolding release_lock_def by metis
qed

lemma step_to_release [simp]: "step_to p cap st (release_lock tx k st') sp = step_to p cap st st' sp"
  using release_lock_frame [of tx k st'] by auto

text \<open>The decision of \<open>put_if_absent\<close> once the key is locked.\<close>

lemma exec_put_if_absent:
  assumes inv: "lsm_inv p st H F sp" and v: "length v \<le> READABLE_VALUE"
    and ex: "lsm_exec p (Do_put_if_absent ok now tx k v) st = (st', out)"
  shows "step_to p cap st st' (if out = Flagged True then spec_stage tx [op_put p k v] sp else sp)"
    and "out = Flagged True \<longrightarrow> sp_db sp k = None"
proof -
  let ?free = "staged_status (lp_key_hash p) (ls_txb st) k \<noteq> Some True \<and> map_of (ls_locks st) k \<in> {None, Some tx}"
  let ?st1 = "if map_of (ls_locks st) k = None then st\<lparr>ls_locks := AList.update k tx (ls_locks st)\<rparr> else st"
  have "(step_to p cap st st' (if out = Flagged True then spec_stage tx [op_put p k v] sp else sp)) \<and>
      (out = Flagged True \<longrightarrow> sp_db sp k = None)"
  proof (cases "validate_key k \<and> validate_value v \<and> ok \<and> ?free")
    case False
    then have "st' = st \<and> out \<noteq> Flagged True" using ex by (auto simp: put_if_absent_def split: if_splits)
    then show ?thesis using step_to_refl [OF inv] by simp
  next
    case True
    obtain l where l: "?st1 = st\<lparr>ls_locks := l\<rparr>" by (cases "map_of (ls_locks st) k = None") (auto intro: that [of "ls_locks st"])
    have inv1: "lsm_inv p ?st1 H F sp" unfolding l using inv by simp
    have read: "lsm_get_at_seq p ?st1 k (ls_next_seq ?st1) = Inr (sp_db sp k)" using inv_read(2) [OF inv1] True by blast
    obtain tb r where r: "stage_kv (lp_key_hash p) (ls_txb ?st1) tx (op_put p k v) now = (tb, r)"
      by (cases "stage_kv (lp_key_hash p) (ls_txb ?st1) tx (op_put p k v) now")
    have put: "OpInsert (lp_doc_id p k) (k, v) = op_put p k v" by (simp add: op_put_def)
    have call: "put_if_absent p ok now st tx k v =
        (case sp_db sp k of
           Some _ \<Rightarrow> (release_lock tx k ?st1, Inr False)
         | None \<Rightarrow> (case r of Inl e \<Rightarrow> (release_lock tx k (?st1\<lparr>ls_txb := tb\<rparr>), Inl (Staging e))
                        | Inr _ \<Rightarrow> (?st1\<lparr>ls_txb := tb\<rparr>, Inr True)))"
      using True unfolding put_if_absent_def Let_def read put r by (simp split: option.split sum.split)
    have "op_readable (op_put p k v)" using v by (simp add: op_readable_def op_put_def)
    then have "step_to p cap ?st1 (?st1\<lparr>ls_txb := tb\<rparr>) (if r = Inr () then spec_stage tx [op_put p k v] sp else sp)"
      using staged_step [OF inv1 _ stage_kv_stages [OF _ r]] inv_staged [OF inv1] by simp
    then have staged: "step_to p cap st (?st1\<lparr>ls_txb := tb\<rparr>) (if r = Inr () then spec_stage tx [op_put p k v] sp else sp)"
      unfolding l by simp
    have kept: "step_to p cap st ?st1 sp" using step_to_refl [OF inv] unfolding l by simp
    show ?thesis
    proof (cases "sp_db sp k")
      case (Some x)
      then have "st' = release_lock tx k ?st1 \<and> out = Flagged False" using ex call by simp
      with kept show ?thesis by simp
    next
      case None
      then show ?thesis using ex call staged by (cases r) auto
    qed
  qed
  then show "step_to p cap st st' (if out = Flagged True then spec_stage tx [op_put p k v] sp else sp)"
    "out = Flagged True \<longrightarrow> sp_db sp k = None" by blast+
qed

lemma exec_get: "lsm_inv p st H F sp \<Longrightarrow> lsm_exec p (Do_get k) st = (st, found_in (sp_db sp) k)"
  using inv_read(1) [of p st H F sp k] by (simp add: lsm_get_def found_in_def)

lemma exec_get_at:
  "lsm_inv p st H F sp \<Longrightarrow> (s, d) \<in> set (sp_pins sp) \<Longrightarrow> lsm_exec p (Do_get_at k s) st = (st, found_in d k)"
  using inv_read(3) [of p st H F sp k s d] by (cases "validate_key k") (simp_all add: found_in_def lsm_get_at_seq_def)

lemma exec_get_tracked:
  assumes inv: "lsm_inv p st H F sp" and ex: "lsm_exec p (Do_get_tracked tx k) st = (st', out)"
  shows "step_to p cap st st' sp" and "out = found_in (sp_db sp) k"
proof -
  let ?tb = "register_read (ls_txb st) tx k (min (ls_applied_seq st) (ls_applied_seq st))"
  have stg: "stages (ls_txb st) ?tb (sp_staged sp)"
    using register_read_stages inv_staged [OF inv] by metis
  have step: "step_to p cap st (st\<lparr>ls_txb := ?tb\<rparr>) sp"
    using step_to_stage [OF inv stg] inv_staged [OF inv] by simp
  have inv': "lsm_inv p (st\<lparr>ls_txb := ?tb\<rparr>) H F sp" using inv_stage [OF inv stg] inv_staged [OF inv] by simp
  have "validate_key k \<Longrightarrow> st' = st\<lparr>ls_txb := ?tb\<rparr> \<and> out = answer Found (lsm_get_at_seq p (st\<lparr>ls_txb := ?tb\<rparr>) k (ls_applied_seq (st\<lparr>ls_txb := ?tb\<rparr>)))"
    using ex by (auto simp: get_tracked_def get_at_seq_tracked_def Let_def)
  moreover have "\<not> validate_key k \<Longrightarrow> st' = st \<and> out = Refused Invalid" using ex by (auto simp: get_tracked_def)
  ultimately show "step_to p cap st st' sp" "out = found_in (sp_db sp) k"
    using step step_to_refl [OF inv] inv_read(1) [OF inv'] by (cases "validate_key k"; simp add: found_in_def)+
qed

text \<open>Snapshots.\<close>

lemma exec_pin:
  assumes inv: "lsm_inv p st H F sp"
  shows "step_to p cap st (pin_checkpoint now st (last_seq_no st)) (sp\<lparr>sp_pins := (last_seq_no st, sp_db sp) # sp_pins sp\<rparr>)"
proof -
  let ?s = "last_seq_no st" and ?n = "ls_next_seq st"
  have hist: "holds_history p st H F" using inv by (simp add: lsm_inv_def)
  have n: "ls_applied_seq st < ?n" "F \<le> ls_applied_seq st" "unat ?n < 2 ^ 63" using hist by (simp_all add: holds_history_def)
  then have "0 < unat ?n" by (simp add: word_less_nat_alt)
  then have u: "unat ?s = unat ?n - 1"
    by (simp add: last_seq_no_def saturating_sub_def word_less_nat_alt unat_sub word_le_nat_alt)
  have s: "?s < ?n" "ls_applied_seq st \<le> ?s" "unat ?s < 2 ^ 63"
    using u n \<open>0 < unat ?n\<close> by (simp_all add: word_less_nat_alt word_le_nat_alt)
  then have mask: "mask_seq ?s = ?s" using mask_seq_small by blast
  have db: "sp_db sp = db_at ?s H" using inv history_top [OF hist s(2)] by (simp add: lsm_inv_def)
  have reg: "reg_ok (ls_registry st)" using inv by (simp add: lsm_inv_def pins_ok_def)
  have "lsm_inv p (pin_checkpoint now st ?s) H F (sp\<lparr>sp_pins := (?s, sp_db sp) # sp_pins sp\<rparr>)"
    using inv reg_ok_push [OF reg mask] s(1,2) n(2) db
    unfolding lsm_inv_defs by (auto simp: pin_checkpoint_def pin_at_def mask metas_at_push intro: order_trans)
  then show ?thesis unfolding step_to_def by (auto simp: pin_checkpoint_def)
qed

lemma count_drop_pin: "count_list (map fst (drop_pin s ps)) t = count_list (map fst ps) t - (if t = s then 1 else 0)"
  by (induction ps) (auto simp: count_list_0_iff)

lemma set_drop_pin: "set (drop_pin s ps) \<subseteq> set ps"
  by (induction ps) auto

lemma exec_unpin:
  assumes inv: "lsm_inv p st H F sp"
  shows "step_to p cap st (unpin_checkpoint st s) (sp\<lparr>sp_pins := drop_pin (mask_seq s) (sp_pins sp)\<rparr>)"
proof -
  have reg: "reg_ok (ls_registry st)" using inv by (simp add: lsm_inv_def pins_ok_def)
  have "pins_ok (unpin_checkpoint st s) H F (drop_pin (mask_seq s) (sp_pins sp))"
    using inv reg_ok_release [OF reg] set_drop_pin [of "mask_seq s" "sp_pins sp"]
    unfolding lsm_inv_def pins_ok_def
    by (auto simp: unpin_checkpoint_def unpin_def release_at_def metas_at_release length_release_meta count_drop_pin)
  then have "lsm_inv p (unpin_checkpoint st s) H F (sp\<lparr>sp_pins := drop_pin (mask_seq s) (sp_pins sp)\<rparr>)"
    using inv by (simp add: lsm_inv_def staging_ok_def holds_history_def in_layers_def unpin_checkpoint_def)
  then show ?thesis unfolding step_to_def by (auto simp: unpin_checkpoint_def)
qed

lemma exec_rollback:
  assumes inv: "lsm_inv p st H F sp"
  shows "step_to p cap st (lsm_rollback p st tx) (sp\<lparr>sp_staged := (sp_staged sp)(tx := [])\<rparr>)"
proof -
  have "stages (ls_txb st) (discard_kv (lp_key_hash p) (ls_txb st) tx) ((sp_staged sp)(tx := []))"
    using discard_kv_stages inv_staged [OF inv] by metis
  from step_to_stage [OF inv this] inv_staged [OF inv] show ?thesis
    by (simp add: lsm_rollback_def cleanup_intent_locks_def)
qed

text \<open>Files.\<close>

lemma flush_same_files: "lsm_flush p wal_ok manifest_ok st = (st', r) \<Longrightarrow> same_files st st'"
  by (auto simp: lsm_flush_def same_files_def rotate_def install_file_def Let_def split: if_splits sum.splits)

lemma same_files_step: "\<exists>F'. lsm_inv p st' H F' sp \<Longrightarrow> same_files st st' \<Longrightarrow> step_to p cap st st' sp"
  by (auto simp: step_to_def same_files_def)

lemma exec_flush:
  assumes inv: "lsm_inv p st H F sp" and km: "km_ok (lp_km p)" and r: "lsm_flush p wal_ok manifest_ok st = (st', r)"
  shows "step_to p cap st st' sp"
proof -
  have "holds_history p st H F" using inv by (simp add: lsm_inv_def)
  from inv_files [OF inv history_flush [OF this km r] flush_same_files [OF r]]
  show ?thesis by (rule same_files_step) (rule flush_same_files [OF r])
qed

lemma exec_compact:
  assumes inv: "lsm_inv p st H F sp" and km: "km_ok (lp_km p)" and q: "quiet cfg env"
    and ex: "lsm_exec p (Do_compact pick min_tier cfg env memory_ok manifest_ok) st = (st', out)"
  shows "step_to p cap st st' sp" and "out \<noteq> Hangs"
proof -
  have hist: "holds_history p st H F" using inv by (simp add: lsm_inv_def)
  obtain st1 r where run: "maybe_compact p pick min_tier cfg env memory_ok manifest_ok st = Some (st1, r)"
    and keep: "holds_history p st1 H F \<or> holds_history p st1 H (floor_after st F)"
    and files: "\<exists>fs. st1 = st\<lparr>ls_ssts := fs\<rparr>" by (rule history_compact [OF hist km q])
  have st': "st' = st1" "out \<noteq> Hangs" using ex by (auto simp: run answer_def split: sum.splits)
  have same: "same_files st st1" using files by (auto simp: same_files_def)
  from same_files_step [OF inv_files [OF inv keep same] same] show "step_to p cap st st' sp" unfolding st' .
  show "out \<noteq> Hangs" by (rule st'(2))
qed

text \<open>A commit that fails after its sequence numbers are taken.\<close>

lemma inv_skip:
  assumes inv: "lsm_inv p st H F sp" and next': "ls_next_seq st \<le> n" "unat n < 2 ^ 63"
  shows "lsm_inv p (st\<lparr>ls_next_seq := n, ls_ssi := v\<rparr>) H F sp"
proof -
  have "holds_history p (st\<lparr>ls_next_seq := n, ls_ssi := v\<rparr>) H F"
    using inv next' by - (rule holds_history_frame [of p st H F], simp_all add: lsm_inv_def)
  then show ?thesis using inv next' by (auto simp: lsm_inv_def staging_ok_def pins_ok_def)
qed

lemma inv_commit:
  assumes inv: "lsm_inv p st H F sp" and ops: "number_ops ops (ls_next_seq st) = (ups, m)"
    and room: "unat (ls_next_seq st) + length ops + 1 < 2 ^ 63" and small: "\<forall>op \<in> set ops. op_readable op"
    and st': "st' = advance_visibility (apply_mem_updates (st\<lparr>ls_next_seq := m + 1, ls_ssi := v\<rparr>) ups tx) tx"
  shows "lsm_inv p st' (H @ tagged_updates tx ups) F (sp\<lparr>sp_db := fold apply_op ops (sp_db sp)\<rparr>)"
    and "unat (ls_next_seq st') = unat (ls_next_seq st) + length ops + 1"
proof -
  have hist: "holds_history p st H F" and db: "sp_db sp = db_at (ls_applied_seq st) H"
    and pins: "pins_ok st H F (sp_pins sp)" using inv by (simp_all add: lsm_inv_def)
  note commit = history_commit [OF hist ops room small st']
  show next': "unat (ls_next_seq st') = unat (ls_next_seq st) + length ops + 1" by (rule commit(4))
  then have "ls_next_seq st < ls_next_seq st'" by (simp add: word_less_nat_alt)
  then have "pins_ok st' (H @ tagged_updates tx ups) F (sp_pins sp)"
    using pins commit(3) unfolding pins_ok_def st' apply_mem_updates_def Let_def by (auto intro: less_trans)
  moreover have "staging_ok st' (sp_staged sp)"
    using inv by (simp add: lsm_inv_def staging_ok_def st' apply_mem_updates_def Let_def)
  ultimately show "lsm_inv p st' (H @ tagged_updates tx ups) F (sp\<lparr>sp_db := fold apply_op ops (sp_db sp)\<rparr>)"
    using commit(1,2) db unfolding lsm_inv_def by simp
qed

lemma single_commit_failed:
  assumes "single_commit_path wal st tx ups fs = (st', r)" and "wal \<noteq> Appended"
  shows "r = (if wal = Append_failed then None else Some (Inl Storage)) \<and> (\<exists>v. st' = st\<lparr>ls_ssi := v\<rparr>)"
proof -
  have self: "st = st\<lparr>ls_ssi := ls_ssi st\<rparr>" by simp
  consider "wal = Prepare_failed" | "wal = Append_failed" using assms(2) by (cases wal) blast+
  then show ?thesis
  proof cases
    case 1
    then have "st' = st \<and> r = Some (Inl Storage)" using assms(1) by (simp add: single_commit_path_def)
    with 1 show ?thesis by (auto intro!: exI [of _ "ls_ssi st"])
  next
    case 2
    then have "r = None \<and> st' = (if fs > 0 then st\<lparr>ls_ssi := fst (forget_from (ls_ssi st) fs)\<rparr> else st)"
      using assms(1) by (simp add: single_commit_path_def)
    with 2 self show ?thesis by metis
  qed
qed

lemma exec_commit:
  assumes inv: "lsm_inv p st H F sp" and cap: "length (sp_staged sp tx) \<le> cap"
    and room: "unat (ls_next_seq st) + cap + 1 < 2 ^ 63"
    and ex: "lsm_exec p (Do_commit ok wal tx) st = (st', out)"
  shows "step_to p cap st st' (lsm_spec_step p (Do_commit ok wal tx) out sp)"
    and "lsm_spec_out (Do_commit ok wal tx) out sp"
proof -
  obtain r where r: "lsm_commit p ok wal st tx = (st', r)" and out: "out = (case r of None \<Rightarrow> Hangs | Some x \<Rightarrow> answer (\<lambda>_. Accepted) x)"
    using ex by (cases "lsm_commit p ok wal st tx") auto
  have "step_to p cap st st' (lsm_spec_step p (Do_commit ok wal tx) out sp) \<and> lsm_spec_out (Do_commit ok wal tx) out sp"
  proof (cases ok)
    case False
    then have "st' = st \<and> out = Refused Storage" using r out by (auto simp: lsm_commit_def answer_def)
    with False show ?thesis using step_to_refl [OF inv] by simp
  next
    case True
    let ?g = "(sp_staged sp)(tx := [])" and ?ops = "sp_staged sp tx"
    obtain tb ops where d: "drain_kv (lp_key_hash p) (ls_txb st) tx = (tb, ops)" by (cases "drain_kv (lp_key_hash p) (ls_txb st) tx")
    note stg = inv_staged [OF inv]
    have ops: "ops = ?ops" and tb: "stages (ls_txb st) tb ?g" using drain_kv_stages [OF _ d] stg by auto
    have small: "\<forall>tx'. \<forall>op \<in> set (?g tx'). op_readable op" "\<forall>op \<in> set ?ops. op_readable op" using stg by auto
    let ?st1 = "cleanup_intent_locks (\<lambda>t. t = tx) (st\<lparr>ls_txb := tb\<rparr>)" and ?sp1 = "sp\<lparr>sp_staged := ?g\<rparr>"
    have inv1: "lsm_inv p ?st1 H F ?sp1" unfolding cleanup_intent_locks_def inv_frame by (rule inv_stage [OF inv tb small(1)])
    have step1: "step_to p cap st ?st1 ?sp1" unfolding cleanup_intent_locks_def step_to_locks by (rule step_to_stage [OF inv tb small(1)])
    have config: "tb_config (ls_txb ?st1) = tb_config (ls_txb st)" using tb by (simp add: cleanup_intent_locks_def stages_def)
    have n: "ls_next_seq ?st1 = ls_next_seq st" by (simp add: cleanup_intent_locks_def)
    let ?check = "case get_read_set (ls_txb st) tx of
        Some rs \<Rightarrow> if read_set_is_empty rs then Inr () else validate (lp_doc_id p) (ls_ssi ?st1) tx rs | None \<Rightarrow> Inr ()"
    have call: "lsm_commit p ok wal st tx =
        (if ?ops = [] then (?st1, Some (Inr ()))
         else case ?check of
                Inl e \<Rightarrow> (?st1, Some (Inl (Conflict e)))
              | Inr _ \<Rightarrow> (let (st2, ups, fs) = prepare_commit_ops ?st1 ?ops in single_commit_path wal st2 tx ups fs))"
      using True d ops unfolding lsm_commit_def Let_def by simp
    show ?thesis
    proof (cases "?ops = [] \<or> (\<exists>e. ?check = Inl e)")
      case stop: True
      then have "st' = ?st1 \<and> (out = Accepted \<longrightarrow> ?ops = []) \<and> out \<noteq> Hangs" using r out call by (auto simp: answer_def split: if_splits)
      with step1 True show ?thesis by auto
    next
      case False
      obtain ups m where num: "number_ops ?ops (ls_next_seq ?st1) = (ups, m)" by (cases "number_ops ?ops (ls_next_seq ?st1)")
      obtain v fs where prep: "prepare_commit_ops ?st1 ?ops = (?st1\<lparr>ls_next_seq := m + 1, ls_ssi := v\<rparr>, ups, fs)"
        by (simp add: prepare_commit_ops_def num)
      let ?st2 = "?st1\<lparr>ls_next_seq := m + 1, ls_ssi := v\<rparr>"
      have last: "single_commit_path wal ?st2 tx ups fs = (st', r)"
        using r False unfolding call prep by (auto split: sum.splits)
      have room1: "unat (ls_next_seq ?st1) + length ?ops + 1 < 2 ^ 63" using room cap n by simp
      have small2: "\<forall>op \<in> set ?ops. op_readable op" by (rule small(2))
      note commit = inv_commit [OF inv1 num room1 small2 refl, of v tx]
      have next2: "unat (m + 1) = unat (ls_next_seq ?st1) + length ?ops + 1"
        using commit(2) by (simp add: apply_mem_updates_def Let_def)
      show ?thesis
      proof (cases "wal = Appended")
        case wal: True
        let ?st3 = "advance_visibility (apply_mem_updates ?st2 ups tx) tx"
        have st': "st' = ?st3" "out = Accepted" using last wal out by (auto simp: single_commit_path_def answer_def)
        have "ls_next_seq ?st3 = m + 1" "ls_txb ?st3 = ls_txb ?st1" by (simp_all add: apply_mem_updates_def Let_def)
        then have "step_to p cap st ?st3 (?sp1\<lparr>sp_db := fold apply_op ?ops (sp_db ?sp1)\<rparr>)"
          using commit(1) next2 n cap config unfolding step_to_def by auto
        then show ?thesis using True wal st' by simp
      next
        case wal: False
        obtain v' where st': "r = (if wal = Append_failed then None else Some (Inl Storage))" "st' = ?st1\<lparr>ls_next_seq := m + 1, ls_ssi := v'\<rparr>"
          using single_commit_failed [OF last wal] by auto
        have "ls_next_seq ?st1 \<le> m + 1" "unat (m + 1) < 2 ^ 63" using next2 room1 by (simp_all add: word_le_nat_alt)
        from inv_skip [OF inv1 this] have "lsm_inv p st' H F ?sp1" unfolding st' .
        moreover have "ls_next_seq st' = m + 1" "ls_txb st' = ls_txb ?st1" by (simp_all add: st')
        ultimately have "step_to p cap st st' ?sp1" using next2 n cap config unfolding step_to_def by auto
        then show ?thesis using True out st'(1) by (simp add: answer_def split: if_splits)
      qed
    qed
  qed
  then show "step_to p cap st st' (lsm_spec_step p (Do_commit ok wal tx) out sp)"
    "lsm_spec_out (Do_commit ok wal tx) out sp" by blast+
qed

section \<open>Runs\<close>

lemma exec_correct:
  assumes inv: "lsm_inv p st H F sp" and km: "km_ok (lp_km p)" and adm: "op_admitted op"
    and cap: "cf_max_ops_per_tx (tb_config (ls_txb st)) = cap" and room: "unat (ls_next_seq st) + cap + 1 < 2 ^ 63"
    and ex: "lsm_exec p op st = (st', out)"
  shows "step_to p cap st st' (lsm_spec_step p op out sp) \<and> lsm_spec_out op out sp"
proof (cases op)
  case (Do_commit ok wal tx)
  have ok: "tb_ok kv_size (ls_txb st)" and stg: "tx_ops (ls_txb st) = sp_staged sp" using inv_staged [OF inv] by auto
  have "length (tx_ops (ls_txb st) tx) \<le> cf_max_ops_per_tx (tb_config (ls_txb st))"
    using tb_ok_shard_at [OF ok, of tx] by (simp add: shard_ok_def tx_ops_def)
  then have "length (sp_staged sp tx) \<le> cap" using cap stg by simp
  from exec_commit [OF inv this room ex [unfolded Do_commit]] show ?thesis unfolding Do_commit by blast
next
  case (Do_get_at k s)
  then have "st' = st" using ex by simp
  with Do_get_at exec_get_at [OF inv, of s _ k] ex step_to_refl [OF inv] show ?thesis by auto
next
  case (Do_put ok now tx k v)
  with exec_put [OF inv] ex adm show ?thesis by (simp del: lsm_exec.simps)
next
  case (Do_put_if_absent ok now tx k v)
  with exec_put_if_absent [OF inv] ex adm show ?thesis by (simp del: lsm_exec.simps)
next
  case (Do_delete ok now tx k)
  with exec_delete [OF inv] ex show ?thesis by (simp del: lsm_exec.simps)
next
  case (Do_delete_many ok now tx ks)
  with exec_delete_many [OF inv] ex show ?thesis by (simp del: lsm_exec.simps)
next
  case (Do_get k)
  with exec_get [OF inv, of k] ex step_to_refl [OF inv] show ?thesis by (simp del: lsm_exec.simps)
next
  case (Do_get_tracked tx k)
  with exec_get_tracked [OF inv] ex show ?thesis by (simp del: lsm_exec.simps)
next
  case (Do_pin now)
  with exec_pin [OF inv] ex show ?thesis by auto
next
  case (Do_unpin s)
  with exec_unpin [OF inv] ex show ?thesis by auto
next
  case (Do_rollback tx)
  with exec_rollback [OF inv] ex show ?thesis by auto
next
  case (Do_flush wal_ok manifest_ok)
  with ex obtain r where "lsm_flush p wal_ok manifest_ok st = (st', r)"
    by (cases "lsm_flush p wal_ok manifest_ok st") auto
  with Do_flush exec_flush [OF inv km] show ?thesis by simp
next
  case (Do_compact pick min_tier cfg env memory_ok manifest_ok)
  with exec_compact [OF inv km] ex adm show ?thesis by (simp del: lsm_exec.simps)
qed

text \<open>A run takes at most \<open>cap + 1\<close> sequence numbers for an operation.\<close>

lemma run_correct:
  "lsm_inv p st H F sp \<Longrightarrow> km_ok (lp_km p) \<Longrightarrow> \<forall>op \<in> set ops. op_admitted op \<Longrightarrow>
   cf_max_ops_per_tx (tb_config (ls_txb st)) = cap \<Longrightarrow>
   unat (ls_next_seq st) + length ops * (cap + 1) < 2 ^ 63 \<Longrightarrow> lsm_run p ops st = (st', outs) \<Longrightarrow>
   \<exists>H F sp'. lsm_spec_run p ops outs sp = (sp', True) \<and> lsm_inv p st' H F sp'"
proof (induction ops arbitrary: st H F sp outs)
  case Nil
  then show ?case by auto
next
  case (Cons op ops)
  obtain st1 out outs' where ex: "lsm_exec p op st = (st1, out)" and rest: "lsm_run p ops st1 = (st', outs')"
    and outs: "outs = out # outs'"
    using Cons.prems(6) by (cases "lsm_exec p op st"; cases "lsm_run p ops (fst (lsm_exec p op st))") auto
  have adm: "op_admitted op" using Cons.prems(3) by simp
  have room: "unat (ls_next_seq st) + cap + 1 < 2 ^ 63" using Cons.prems(5) by simp
  from exec_correct [OF Cons.prems(1,2) adm Cons.prems(4) room ex]
  have step: "step_to p cap st st1 (lsm_spec_step p op out sp)" "lsm_spec_out op out sp" by blast+
  then obtain H1 F1 where inv1: "lsm_inv p st1 H1 F1 (lsm_spec_step p op out sp)"
    and next1: "unat (ls_next_seq st1) \<le> unat (ls_next_seq st) + cap + 1" and config: "tb_config (ls_txb st1) = tb_config (ls_txb st)"
    unfolding step_to_def by blast
  have "unat (ls_next_seq st1) + length ops * (cap + 1) < 2 ^ 63" using Cons.prems(5) next1 by simp
  from Cons.IH [OF inv1 Cons.prems(2) _ _ this rest] Cons.prems(3,4) config
  obtain H' F' sp' where "lsm_spec_run p ops outs' (lsm_spec_step p op out sp) = (sp', True)" "lsm_inv p st' H' F' sp'" by auto
  with step(2) show ?case by (auto simp: outs)
qed

text \<open>What the runs of the properties start from and end in.\<close>

lemma run_reaches:
  assumes "km_ok (lp_km p)" and "\<forall>op \<in> set ops. op_admitted op"
    and "1 + length ops * (cf_max_ops_per_tx c + 1) < 2 ^ 63"
    and "lsm_run p ops (lsm_new (tx_buffer_new n c) ssi) = (st, outs)"
  obtains H F sp where "lsm_spec_run p ops outs spec_new = (sp, True)" and "lsm_inv p st H F sp"
proof -
  have "unat (ls_next_seq (lsm_new (tx_buffer_new n c) ssi)) = 1" by (simp add: lsm_new_def)
  then have room: "unat (ls_next_seq (lsm_new (tx_buffer_new n c) ssi)) + length ops * (cf_max_ops_per_tx c + 1) < 2 ^ 63"
    using assms(3) by simp
  have cap: "cf_max_ops_per_tx (tb_config (ls_txb (lsm_new (tx_buffer_new n c) ssi))) = cf_max_ops_per_tx c"
    by (simp add: lsm_new_def tx_buffer_new_def)
  from run_correct [OF inv_new assms(1,2) cap room assms(4)] that show thesis by blast
qed

section \<open>A run\<close>

definition example_params :: lsm_params where
  "example_params =
     \<lparr>lp_blake3 = (\<lambda>k. k @ replicate 32 0), lp_crc32 = (\<lambda>b. of_nat (length b)), lp_bits = 64, lp_hashes = 3,
      lp_km = None, lp_key_hash = (\<lambda>_. 0), lp_doc_id = (\<lambda>_. 0)\<rparr>"

definition example_start :: lsm where
  "example_start = lsm_new (tx_buffer_new 1 default_config) (new_with_bounds 100)"

definition example_ops :: "lsm_op list" where
  "example_ops =
     [Do_put True 0 1 [107] [5], Do_commit True Appended 1, Do_flush True True, Do_delete True 0 2 [107],
      Do_commit True Appended 2, Do_compact (\<lambda>ms. Some (0, 2)) 1 example_config quiet_env True True, Do_get [107]]"

lemma example_admitted: "\<forall>op \<in> set example_ops. op_admitted op"
  using example_quiet by (simp add: example_ops_def READABLE_VALUE_def)

lemma example_km: "km_ok (lp_km example_params)"
  using km_ok_None by (simp add: example_params_def)

lemma example_room: "1 + length example_ops * (cf_max_ops_per_tx default_config + 1) < 2 ^ 63"
  by (simp add: example_ops_def default_config_def)

end
