(* ===== verification/LsmScan.thy ===== *)
theory LsmScan
  imports LsmRun MemTableScan
begin

text \<open>
  Scans of the storage engine: what is collected from the files and the MemTables is, key by key, the newest of
  the versions that pass the test, so a scan returns the live part of the database in the order of the keys.
\<close>

section \<open>What a target holds\<close>

definition read_of :: "entry option \<Rightarrow> (bytes \<times> u64) option" where
  "read_of r = map_option (\<lambda>e. (fst (snd e), seq_of e)) r"

lemma read_of_simps [simp]: "read_of None = None" "read_of (Some (k, v, s, t)) = Some (v, s)"
  by (simp_all add: read_of_def)

lemma newest_merge:
  assumes dist: "versions_distinct (xs @ ys)"
  shows "read_of (newest k s (xs @ ys)) = merge_read (read_of (newest k s ys)) (read_of (newest k s xs))"
proof -
  have d: "versions_distinct xs" "versions_distinct ys" using dist by auto
  note eq = newest_eqI [OF dist]
  show ?thesis
  proof (cases "newest k s xs")
    case None
    then have "newest k s (xs @ ys) = newest k s ys"
    proof (cases "newest k s ys")
      case None
      with \<open>newest k s xs = None\<close> have "newest k s (xs @ ys) = None" unfolding newest_None by auto
      with None show ?thesis by simp
    next
      case (Some e)
      with newest_is [OF this] \<open>newest k s xs = None\<close> have "is_newest k s (xs @ ys) e"
        unfolding newest_None is_newest_def by auto
      with eq Some show ?thesis by simp
    qed
    with None show ?thesis by (simp add: merge_read_None)
  next
    case (Some e)
    note e = newest_is [OF Some]
    show ?thesis
    proof (cases "newest k s ys")
      case None
      with e have "is_newest k s (xs @ ys) e" unfolding newest_None is_newest_def by auto
      with eq None Some show ?thesis by (simp add: merge_read_None)
    next
      case (Some e')
      note e' = newest_is [OF Some]
      obtain v q t v' q' t' where parts: "e = (k, v, q, t)" "e' = (k, v', q', t')"
        using e e' by (cases e; cases e') (auto simp: is_newest_def)
      show ?thesis
      proof (cases "entry_raw e < entry_raw e'")
        case True
        with e e' have "is_newest k s (xs @ ys) e'" unfolding is_newest_def by force
        with eq have "newest k s (xs @ ys) = Some e'" by blast
        with True Some \<open>newest k s xs = Some e\<close> show ?thesis by (simp add: parts merge_read_def entry_raw_def)
      next
        case False
        with e e' have "is_newest k s (xs @ ys) e" unfolding is_newest_def by force
        with eq have "newest k s (xs @ ys) = Some e" by blast
        with False Some \<open>newest k s xs = Some e\<close> show ?thesis by (simp add: parts merge_read_def entry_raw_def)
      qed
    qed
  qed
qed

definition holds_newest :: "scan_target \<Rightarrow> entry list \<Rightarrow> bool" where
  "holds_newest m xs \<longleftrightarrow> bt_wf m \<and> (\<forall>k. map_of m k = read_of (newest k U64_MAX xs))"

lemma holds_newest_Nil: "holds_newest [] []"
  by (simp add: holds_newest_def newest_def)

text \<open>The test of the scan on an entry, and the keys of the mode.\<close>

definition passes :: "scan_pred \<Rightarrow> entry \<Rightarrow> bool" where
  "passes pred e \<longleftrightarrow> pred (fst e) (entry_raw e) (tx_of e)"

definition in_mode :: "scan_mode \<Rightarrow> bytes \<Rightarrow> bool" where
  "in_mode mode k = (case mode of By_prefix pfx \<Rightarrow> prefix pfx k | By_range s t \<Rightarrow> above s k \<and> below t k)"

section \<open>Files\<close>

lemma map_of_take_newer:
  "map_of (take_newer k val seq m) k' = (if k' = k then merge_read (Some (val, seq)) (map_of m k) else map_of m k')"
  by (auto simp: take_newer_def merge_read_def map_simps split: option.splits)

lemma take_newer_wf: "bt_wf m \<Longrightarrow> bt_wf (take_newer k val seq m)"
  by (auto simp: take_newer_def split: option.splits)

lemma take_newer_newest:
  assumes m: "holds_newest m xs" and dist: "versions_distinct (xs @ [(k, val, seq, tx)])"
  shows "holds_newest (take_newer k val seq m) (xs @ [(k, val, seq, tx)])"
  unfolding holds_newest_def
proof (intro conjI allI)
  show "bt_wf (take_newer k val seq m)" using m take_newer_wf by (simp add: holds_newest_def)
  fix k'
  have "newest k' U64_MAX [(k, val, seq, tx)] = (if k' = k then Some (k, val, seq, tx) else None)"
    by (auto simp: newest_def)
  then show "map_of (take_newer k val seq m) k' = read_of (newest k' U64_MAX (xs @ [(k, val, seq, tx)]))"
    using m newest_merge [OF dist, of k' U64_MAX]
    by (auto simp: map_of_take_newer holds_newest_def merge_read_None)
qed

lemma collect_entries_newest:
  "collect_entries pred check tx es m = Inr m' \<Longrightarrow> holds_newest m xs \<Longrightarrow> \<forall>e \<in> set es. tx_seen tx e \<Longrightarrow>
   versions_distinct (xs @ filter (passes pred) es) \<Longrightarrow> holds_newest m' (xs @ filter (passes pred) es)"
proof (induction es arbitrary: m xs)
  case Nil
  then show ?case by simp
next
  case (Cons e es)
  obtain k v q t where e: "e = (k, v, q, t)" by (cases e)
  have seen: "t \<le> tx \<or> t \<ge> INTERNAL_BASE" using Cons.prems(3) by (simp add: e tx_seen_def)
  show ?case
  proof (cases "passes pred e")
    case True
    then have step: "collect_entries pred check tx es (take_newer k v q m) = Inr m'"
      using Cons.prems(1) seen by (auto simp: e passes_def entry_raw_def Let_def split: if_splits)
    have "versions_distinct (xs @ [e])" "versions_distinct ((xs @ [e]) @ filter (passes pred) es)"
      using Cons.prems(4) True by auto
    with Cons.IH [OF step take_newer_newest [OF Cons.prems(2)]] Cons.prems(3) True show ?thesis by (simp add: e)
  next
    case False
    then have "collect_entries pred check tx es m = Inr m'"
      using Cons.prems(1) by (auto simp: e passes_def entry_raw_def)
    with Cons.IH [OF this Cons.prems(2)] Cons.prems(3,4) False show ?thesis by simp
  qed
qed

lemma collect_entries_total: "\<exists>m'. collect_entries pred False tx es m = Inr m'"
  by (induction es arbitrary: m) (auto simp: Let_def)

lemma collect_entries_limit: "collect_entries pred check tx es m = Inl e \<Longrightarrow> check \<and> e = Limit_exceeded"
  by (induction pred check tx es m rule: collect_entries.induct) (auto simp: Let_def split: if_splits)

lemma prefix_below_bound: "upper_bound_for_prefix p = Some u \<Longrightarrow> prefix p k \<Longrightarrow> k < u"
proof (induction p rule: upper_bound_for_prefix.induct)
  case (1 p)
  show ?case
  proof (cases "p \<noteq> [] \<and> last p < 0xFF")
    case True
    then have p: "p = butlast p @ [last p]" and u: "u = butlast p @ [last p + 1]"
      using "1.prems"(1) by (simp_all add: upper_bound_for_prefix.simps [of p])
    obtain r where "k = p @ r" using "1.prems"(2) by (auto simp: prefix_def)
    then have k: "k = butlast p @ (last p # r)" by (subst (asm) p) simp
    have "last p < last p + 1" using True by (simp add: word_less_nat_alt unat_word_ariths)
    then have "last p # r < [last p + 1]" by simp
    then show ?thesis unfolding k u list_less_def by (rule lexord_append_leftI)
  next
    case False
    then have "p \<noteq> []" "upper_bound_for_prefix (butlast p) = Some u"
      using "1.prems"(1) by (simp_all add: upper_bound_for_prefix.simps [of p] split: if_splits)
    moreover have "prefix (butlast p) k" using "1.prems"(2) prefixeq_butlast prefix_order.trans by blast
    ultimately show ?thesis using "1.IH" False by blast
  qed
qed

text \<open>A file that is passed over has no key with the prefix.\<close>

lemma missed_file:
  assumes inp: "sst_input b3 crc rd es" and miss: "prefix_misses_file (rd_meta rd) pfx"
  shows "filter (\<lambda>e. prefix pfx (fst e)) es = []"
proof (cases "es = []")
  case False
  have keys: "sorted (map fst es)" using sst_input_gives(2) [OF inp] by (rule entries_sorted_keys)
  have first: "fst (hd es) \<le> fst e" if "e \<in> set es" for e
    using keys that False by (cases es) auto
  have last: "fst e \<le> fst (last es)" if "e \<in> set es" for e
  proof -
    have "sorted (map fst (butlast es @ [last es]))" using keys False by simp
    moreover have "e \<in> set (butlast es) \<or> e = last es" using that False by (metis append_butlast_last_id in_set_conv_decomp rotate1.simps(2) set_ConsD set_rotate1)
    ultimately show ?thesis by (auto simp: sorted_append simp del: append_butlast_last_id)
  qed
  note meta = sst_input_meta(5,6) [OF inp False]
  have "\<not> prefix pfx (fst e)" if e: "e \<in> set es" for e
  proof
    assume p: "prefix pfx (fst e)"
    from miss consider "pfx > fst (last es)" | u where "upper_bound_for_prefix pfx = Some u" "fst (hd es) \<ge> u"
      unfolding prefix_misses_file_def meta by (auto split: option.splits)
    then show False
    proof cases
      case 1
      with prefix_le [OF p] last [OF e] show ?thesis by (meson not_le order_trans)
    next
      case 2
      with prefix_below_bound [OF 2(1) p] first [OF e] show ?thesis by (meson leD le_less_trans)
    qed
  qed
  then show ?thesis by (simp add: filter_empty_conv)
qed simp

lemma scan_file_gives:
  assumes inp: "sst_input (lp_blake3 p) (lp_crc32 p) rd es"
  shows "case scan_file p mode rd of
      None \<Rightarrow> filter (\<lambda>e. in_mode mode (fst e)) es = []
    | Some r \<Rightarrow> r = Inr (filter (\<lambda>e. in_mode mode (fst e)) es)"
proof -
  from inp obtain km v m hashes bs meta where w: "km_ok km" "v = 3 \<or> v = 4"
    "sst_write (lp_blake3 p) (lp_crc32 p) km m hashes v es = Inr (bs, meta)"
    "\<forall>e \<in> set es. length (fst (snd e)) \<le> READABLE_VALUE" and opn: "sst_open (lp_crc32 p) km bs = Inr rd"
    unfolding sst_input_def by blast
  have "SstScan.scan_prefix (lp_crc32 p) rd pfx = Inr (filter (\<lambda>e. prefix pfx (fst e)) es)"
    "SstScan.scan_range (lp_crc32 p) rd s t = Inr (filter (\<lambda>e. above s (fst e) \<and> below t (fst e)) es)" for pfx s t
    using written_scans [OF w, of pfx s t] opn by auto
  then show ?thesis using missed_file [OF inp] by (auto simp: scan_file_def in_mode_def split: scan_mode.split)
qed

definition wanted :: "scan_mode \<Rightarrow> scan_pred \<Rightarrow> entry \<Rightarrow> bool" where
  "wanted mode pred e \<longleftrightarrow> in_mode mode (fst e) \<and> passes pred e"

lemma filter_wanted: "filter (passes pred) (filter (\<lambda>e. in_mode mode (fst e)) es) = filter (wanted mode pred) es"
  by (auto simp: wanted_def intro: filter_cong)

lemma collect_files_newest:
  "list_all2 (sst_input (lp_blake3 p) (lp_crc32 p)) rds cs \<Longrightarrow> holds_newest m xs \<Longrightarrow>
   \<forall>e \<in> set (concat cs). tx_seen tx e \<Longrightarrow> versions_distinct (xs @ filter (wanted mode pred) (concat cs)) \<Longrightarrow>
   (case collect_files p mode pred check tx rds m of
      Inl e \<Rightarrow> check \<and> e = Limit_exceeded
    | Inr m' \<Rightarrow> holds_newest m' (xs @ filter (wanted mode pred) (concat cs)))"
proof (induction rds cs arbitrary: m xs rule: list_all2_induct)
  case Nil
  then show ?case by simp
next
  case (Cons rd rds es cs)
  note gives = scan_file_gives [OF Cons.hyps(1), of mode]
  have all: "versions_distinct ((xs @ filter (wanted mode pred) es) @ filter (wanted mode pred) (concat cs))"
    using Cons.prems(3) by (simp only: concat.simps filter_append append_assoc)
  then have "versions_distinct (xs @ filter (wanted mode pred) es)"
    by (simp only: map_append distinct_append)
  note dist = this all
  have seen: "\<forall>e \<in> set es. tx_seen tx e" "\<forall>e \<in> set (concat cs). tx_seen tx e" using Cons.prems(2) by auto
  have split: "xs @ filter (wanted mode pred) (concat (es # cs)) =
      (xs @ filter (wanted mode pred) es) @ filter (wanted mode pred) (concat cs)" by simp
  show ?case
  proof (cases "scan_file p mode rd")
    case None
    then have "filter (wanted mode pred) es = []" using gives by (auto simp: wanted_def filter_empty_conv)
    then have "xs @ filter (wanted mode pred) es = xs" by simp
    with Cons.IH [OF Cons.prems(1) seen(2)] None dist(2) show ?thesis by (simp only: collect_files.simps option.case split)
  next
    case (Some r)
    let ?es = "filter (\<lambda>e. in_mode mode (fst e)) es"
    have r: "r = Inr ?es" using gives Some by simp
    show ?thesis
    proof (cases "collect_entries pred check tx ?es m")
      case (Inl e)
      with Some r collect_entries_limit [OF Inl] show ?thesis by simp
    next
      case (Inr m1)
      have "\<forall>e \<in> set ?es. tx_seen tx e" using seen(1) by simp
      from collect_entries_newest [OF Inr Cons.prems(1) this] dist(1)
      have "holds_newest m1 (xs @ filter (wanted mode pred) es)" by (simp only: filter_wanted)
      from Cons.IH [OF this seen(2) dist(2)] Some r Inr show ?thesis
        by (simp only: collect_files.simps option.case sum.case bind_res_simps split)
    qed
  qed
qed

section \<open>MemTables\<close>

lemma mask_le_max: "mask_seq x \<le> mask_seq U64_MAX"
  by (simp add: U64_MAX_def word_and_le1)

lemma read_of_version:
  "read_of (map_option (\<lambda>(seq, val, tx). (k, val, seq, tx)) r) = map_option (\<lambda>(seq, val, tx). (val, seq)) r"
  by (cases r) auto

lemma last_scanned_newest:
  assumes dist: "versions_distinct (entries_of log)" and seen: "\<forall>e \<in> set (entries_of log). tx_seen tx e"
  shows "last_scanned pred (mask_seq U64_MAX) tx k (log_versions log k) =
    read_of (newest k U64_MAX (filter (passes pred) (entries_of log)))"
proof -
  let ?P = "\<lambda>(k, v). pred k (raw_seq v) (snd (snd v))"
  let ?log = "filter ?P log"
  have ents: "entries_of ?log = filter (passes pred) (entries_of log)"
    unfolding entries_of_def by (induction log) (auto simp: passes_def entry_raw_def raw_seq_def)
  have "map snd (filter (\<lambda>e. fst e = k) ?log) = filter (\<lambda>v. pred k (raw_seq v) (snd (snd v))) (map snd (filter (\<lambda>e. fst e = k) log))"
    by (induction log) auto
  then have log: "log_versions ?log k = filter (\<lambda>v. pred k (raw_seq v) (snd (snd v))) (log_versions log k)"
    by (simp add: log_versions_def filter_sort)
  have "raw_seq v \<le> U64_MAX \<longleftrightarrow> raw_seq v \<le> mask_seq U64_MAX" for v
    using mask_le_max by (simp add: raw_seq_def)
  then have "filter (scanned pred (mask_seq U64_MAX) tx k) (log_versions log k) =
      filter (\<lambda>v. raw_seq v \<le> U64_MAX \<and> tx_visible tx v) (log_versions ?log k)"
    unfolding log by (auto simp: scanned_def intro: filter_cong)
  moreover have N: "map_option (\<lambda>(seq, val, tx). (k, val, seq, tx))
      (last_version (filter (\<lambda>v. raw_seq v \<le> U64_MAX \<and> tx_visible tx v) (log_versions ?log k))) =
    newest k U64_MAX (entries_of ?log)"
    using dist seen unfolding ents by (intro log_last_newest [of ?log, unfolded ents]) (auto simp: distinct_map_filter)
  have "read_of (newest k U64_MAX (entries_of ?log)) = map_option (\<lambda>(seq, val, tx). (val, seq))
      (last_version (filter (\<lambda>v. raw_seq v \<le> U64_MAX \<and> tx_visible tx v) (log_versions ?log k)))"
    unfolding N [symmetric] by (rule read_of_version)
  ultimately show ?thesis unfolding last_scanned_def ents by simp
qed

lemma foldl_wf: "bt_wf target \<Longrightarrow> (\<And>t i. bt_wf t \<Longrightarrow> bt_wf (F t i)) \<Longrightarrow> bt_wf (foldl F target is)"
  by (induction "is" arbitrary: target) auto

lemma merge_target_wf: "bt_wf target \<Longrightarrow> bt_wf (merge_target k best target)"
  by (auto simp: merge_target_def split: option.split)

lemma scan_entries_wf: "bt_wf target \<Longrightarrow> bt_wf (scan_entries pred ms mx entries target)"
  unfolding scan_entries_def by (erule foldl_wf) (auto intro: merge_target_wf split: prod.split)

lemma scan_memtable_wf: "bt_wf m \<Longrightarrow> bt_wf (scan_memtable mode pred tx mt m)"
  by (auto simp: scan_memtable_def scan_prefix_into_matching_def scan_range_into_matching_def
      split: scan_mode.split intro!: foldl_wf scan_entries_wf)

lemma invalid_range: "\<not> is_valid_range_bounds s t \<Longrightarrow> \<not> (above s k \<and> below t k)"
  by (cases s; cases t; simp; meson not_le le_less_trans less_le_trans order_trans less_trans less_asym)

lemma scan_memtable_newest:
  assumes mt: "mem_holds mt es" and m: "holds_newest m xs" and seen: "\<forall>e \<in> set es. tx_seen tx e"
    and de: "versions_distinct es" and dist: "versions_distinct (xs @ filter (wanted mode pred) es)" and valid: "\<not> mode_empty mode"
  shows "holds_newest (scan_memtable mode pred tx mt m) (xs @ filter (wanted mode pred) es)"
  unfolding holds_newest_def
proof (intro conjI allI)
  show "bt_wf (scan_memtable mode pred tx mt m)" using m scan_memtable_wf by (simp add: holds_newest_def)
  fix k
  from mt obtain log where log: "mt_ok log mt" and es: "es = entries_of log" by (auto simp: mem_holds_def)
  have strict: "distinct_seqs log k"
  proof -
    have "map (\<lambda>e. (fst e, entry_raw e)) es = map (\<lambda>(k, v). (k, raw_seq v)) log"
      unfolding es entries_of_def by (auto simp: entry_raw_def raw_seq_def)
    then have "distinct (map (\<lambda>(k, v). (k, raw_seq v)) log)" using de by simp
    then show ?thesis unfolding distinct_seqs_def by (auto simp: distinct_map inj_on_def)
  qed
  have "map_of (scan_memtable mode pred tx mt m) k =
      merge_read (if in_mode mode k then last_scanned pred (mask_seq U64_MAX) tx k (log_versions log k) else None) (map_of m k)"
    using scan_prefix_into [OF log strict] scan_range_into [OF log strict] valid
    by (auto simp: scan_memtable_def in_mode_def mode_empty_def split: scan_mode.split)
  also have "(if in_mode mode k then last_scanned pred (mask_seq U64_MAX) tx k (log_versions log k) else None) =
      read_of (newest k U64_MAX (filter (wanted mode pred) es))"
  proof (cases "in_mode mode k")
    case True
    have "newest k U64_MAX (filter (wanted mode pred) es) = newest k U64_MAX (filter (passes pred) es)"
    proof (rule newest_subset)
      fix e assume "e \<in> set (filter (passes pred) es)" "fst e = k"
      then have "e \<in> set (filter (wanted mode pred) es)" using True by (simp add: wanted_def)
      moreover assume "entry_raw e \<le> U64_MAX"
      ultimately show "\<exists>e' \<in> set (filter (wanted mode pred) es). fst e' = k \<and> entry_raw e' \<le> U64_MAX \<and> entry_raw e \<le> entry_raw e'"
        using \<open>fst e = k\<close> by blast
    qed (use de in \<open>auto simp: distinct_map_filter wanted_def\<close>)
    then show ?thesis using True last_scanned_newest [OF de [unfolded es] seen [unfolded es], of pred k] by (simp add: es)
  next
    case False
    then have "newest k U64_MAX (filter (wanted mode pred) es) = None" by (auto simp: newest_None wanted_def)
    with False show ?thesis by simp
  qed
  also have "merge_read \<dots> (map_of m k) = read_of (newest k U64_MAX (xs @ filter (wanted mode pred) es))"
    using newest_merge [OF dist, of k U64_MAX] m by (simp add: holds_newest_def)
  finally show "map_of (scan_memtable mode pred tx mt m) k = read_of (newest k U64_MAX (xs @ filter (wanted mode pred) es))" .
qed

lemma collect_mems_newest:
  "list_all2 mem_holds mts ms \<Longrightarrow> holds_newest m xs \<Longrightarrow> \<forall>e \<in> set (concat ms). tx_seen tx e \<Longrightarrow>
   \<forall>es \<in> set ms. versions_distinct es \<Longrightarrow> versions_distinct (xs @ filter (wanted mode pred) (concat ms)) \<Longrightarrow>
   \<not> mode_empty mode \<Longrightarrow>
   (case collect_mems mode pred check tx mts m of
      Inl e \<Rightarrow> check \<and> e = Limit_exceeded
    | Inr m' \<Rightarrow> holds_newest m' (xs @ filter (wanted mode pred) (concat ms)))"
proof (induction mts ms arbitrary: m xs rule: list_all2_induct)
  case Nil
  then show ?case by simp
next
  case (Cons mt mts es ms)
  have all: "versions_distinct ((xs @ filter (wanted mode pred) es) @ filter (wanted mode pred) (concat ms))"
    using Cons.prems(4) by (simp only: concat.simps filter_append append_assoc)
  then have one: "versions_distinct (xs @ filter (wanted mode pred) es)" by (simp only: map_append distinct_append)
  have seen: "\<forall>e \<in> set es. tx_seen tx e" "\<forall>e \<in> set (concat ms). tx_seen tx e" using Cons.prems(2) by auto
  have de: "versions_distinct es" "\<forall>es \<in> set ms. versions_distinct es" using Cons.prems(3) by simp_all
  have split: "xs @ filter (wanted mode pred) (concat (es # ms)) =
      (xs @ filter (wanted mode pred) es) @ filter (wanted mode pred) (concat ms)" by simp
  let ?m = "scan_memtable mode pred tx mt m"
  have "holds_newest ?m (xs @ filter (wanted mode pred) es)"
    by (rule scan_memtable_newest [OF Cons.hyps(1) Cons.prems(1) seen(1) de(1) one Cons.prems(5)])
  note IH = Cons.IH [OF this seen(2) de(2) all Cons.prems(5)]
  show ?case
  proof (cases "check \<and> length ?m > MAX_SCAN_MERGE_ACCUMULATOR")
    case True
    then show ?thesis by (simp add: Let_def)
  next
    case False
    then show ?thesis using IH by (simp only: collect_mems.simps Let_def if_False split)
  qed
qed

section \<open>The result of a scan\<close>

lemma collect_newest:
  assumes st: "in_layers p st cs ms" and valid: "\<not> mode_empty mode"
  shows "case collect_visible_entries p st mode pred check of
      Inl e \<Rightarrow> check \<and> e = Limit_exceeded
    | Inr m \<Rightarrow> holds_newest m (filter (wanted mode pred) (concat (cs @ ms)))"
proof -
  let ?tx = "ls_committed_tx st"
  have lay: "layered (cs @ ms)" and inp: "list_all2 (sst_input (lp_blake3 p) (lp_crc32 p)) (ls_ssts st) cs"
    and mem: "list_all2 mem_holds (ls_imm st @ [ls_mem st]) ms" using st by (simp_all add: in_layers_def)
  have seen: "\<forall>e \<in> set (concat cs). tx_seen ?tx e" "\<forall>e \<in> set (concat ms). tx_seen ?tx e"
    using st by (auto simp: in_layers_def)
  have "versions_distinct (concat (cs @ ms))" by (rule layered_distinct [OF lay])
  then have "versions_distinct (filter (wanted mode pred) (concat (cs @ ms)))" by (rule distinct_map_filter)
  then have all: "versions_distinct (filter (wanted mode pred) (concat cs) @ filter (wanted mode pred) (concat ms))"
    by (simp only: concat_append filter_append)
  then have one: "versions_distinct ([] @ filter (wanted mode pred) (concat cs))" by (simp only: map_append distinct_append append_Nil)
  have de: "\<forall>es \<in> set ms. versions_distinct es" using lay by (simp add: layered_def)
  have join: "filter (wanted mode pred) (concat (cs @ ms)) =
      filter (wanted mode pred) (concat cs) @ filter (wanted mode pred) (concat ms)" by simp
  note files = collect_files_newest [OF inp holds_newest_Nil seen(1) one, of check]
  show ?thesis
  proof (cases "collect_files p mode pred check ?tx (ls_ssts st) []")
    case (Inl e)
    with files valid show ?thesis by (simp add: collect_visible_entries_def)
  next
    case (Inr m)
    then have "holds_newest m (filter (wanted mode pred) (concat cs))" using files by simp
    from collect_mems_newest [OF mem this seen(2) de all valid, of check]
    show ?thesis using valid Inr by (simp only: collect_visible_entries_def if_False bind_res_simps join)
  qed
qed

lemma newest_cong:
  assumes "versions_distinct xs" and "versions_distinct ys" and same: "\<And>e. is_newest k s xs e \<longleftrightarrow> is_newest k t ys e"
  shows "newest k s xs = newest k t ys"
proof (cases "newest k t ys")
  case None
  have "newest k s xs \<noteq> Some e" for e using newest_is [of k s xs e] same [of e] newest_eqI [OF assms(2), of k t e] None by auto
  then have "newest k s xs = None" by (metis not_None_eq)
  with None show ?thesis by simp
next
  case (Some e)
  with newest_is [OF this] same newest_eqI [OF assms(1)] show ?thesis by simp
qed

text \<open>The entries of a database under the keys with \<open>R\<close>, in ascending order.\<close>

definition is_scan :: "(bytes \<Rightarrow> bool) \<Rightarrow> db \<Rightarrow> (bytes \<times> bytes) list \<Rightarrow> bool" where
  "is_scan R d xs \<longleftrightarrow> sorted_wrt (<) (map fst xs) \<and> (\<forall>k v. (k, v) \<in> set xs \<longleftrightarrow> R k \<and> d k = Some v)"

lemma live_entries_scan:
  assumes m: "holds_newest m (filter (wanted mode pred) xs)" and dist: "versions_distinct xs"
    and pred: "\<And>k raw tx. pred k raw tx \<longleftrightarrow> Q k \<and> raw \<le> s"
  shows "is_scan (\<lambda>k. in_mode mode k \<and> Q k) (db_at s xs) (live_entries m)"
proof -
  let ?ys = "filter (wanted mode pred) xs"
  have dy: "versions_distinct ?ys" using dist by (simp add: distinct_map_filter)
  have newest: "newest k U64_MAX ?ys = (if in_mode mode k \<and> Q k then newest k s xs else None)" for k
  proof (cases "in_mode mode k \<and> Q k")
    case True
    have "is_newest k U64_MAX ?ys e \<longleftrightarrow> is_newest k s xs e" for e
      using True unfolding is_newest_def by (auto simp: wanted_def passes_def pred)
    from newest_cong [OF dy dist this] True show ?thesis by simp
  next
    case False
    then have "newest k U64_MAX ?ys = None" by (auto simp: newest_None wanted_def passes_def pred)
    with False show ?thesis by (simp only: if_False)
  qed
  have wf: "bt_wf m" and look: "\<And>k. map_of m k = read_of (newest k U64_MAX ?ys)" using m by (simp_all add: holds_newest_def)
  have "sorted_wrt (<) (map fst (filter (\<lambda>(k, val, seq). seq AND TOMBSTONE_BIT = 0) m))"
    using bt_wf_filter [OF wf] unfolding bt_wf_def .
  moreover have "map fst (live_entries m) = map fst (filter (\<lambda>(k, val, seq). seq AND TOMBSTONE_BIT = 0) m)"
    by (auto simp: live_entries_def)
  moreover have "(k, v) \<in> set (live_entries m) \<longleftrightarrow> (in_mode mode k \<and> Q k) \<and> db_at s xs k = Some v" for k v
  proof -
    have "(k, v) \<in> set (live_entries m) \<longleftrightarrow> (\<exists>q. (k, v, q) \<in> set m \<and> q AND TOMBSTONE_BIT = 0)"
      by (force simp: live_entries_def)
    also have "\<dots> \<longleftrightarrow> (\<exists>q. map_of m k = Some (v, q) \<and> q AND TOMBSTONE_BIT = 0)"
      using wf by (auto simp: bt_wf_def strict_sorted_iff)
    also have "\<dots> \<longleftrightarrow> (in_mode mode k \<and> Q k) \<and> db_at s xs k = Some v"
      unfolding look newest db_at_def by (cases "newest k s xs") (auto split: if_splits)
    finally show ?thesis .
  qed
  ultimately show ?thesis by (simp add: is_scan_def)
qed

lemma is_scan_unique: "is_scan R d xs \<Longrightarrow> is_scan R d ys \<Longrightarrow> xs = ys"
proof -
  assume xs: "is_scan R d xs" and ys: "is_scan R d ys"
  then have set: "set xs = set ys" by (auto simp: is_scan_def)
  have inj: "distinct (map fst xs)" "distinct (map fst ys)" using xs ys by (simp_all add: is_scan_def strict_sorted_iff)
  have "map fst xs = map fst ys"
    using xs ys set by (intro sorted_distinct_set_unique) (auto simp: is_scan_def strict_sorted_iff)
  moreover have "map_of xs = map_of ys" using map_of_inject_set [OF inj] set by simp
  ultimately have "map (\<lambda>k. (k, the (map_of xs k))) (map fst xs) = map (\<lambda>k. (k, the (map_of ys k))) (map fst ys)" by simp
  moreover have "map (\<lambda>k. (k, the (map_of zs k))) (map fst zs) = zs" if "distinct (map fst zs)" for zs :: "(bytes \<times> bytes) list"
    using that by (auto simp: comp_def intro: map_idI)
  ultimately show "xs = ys" using inj by simp
qed

lemma is_scan_agree:
  assumes "is_scan R d xs" and "\<And>k. R k \<Longrightarrow> d k = d' k" and "\<And>k. R k \<longleftrightarrow> R' k"
  shows "is_scan R' d' xs"
  using assms unfolding is_scan_def by auto

text \<open>A scan that no limit stops, against the history.\<close>

lemma history_collect:
  assumes hist: "holds_history p st H F" and s: "F \<le> s" and pred: "\<And>k raw tx. pred k raw tx \<longleftrightarrow> Q k \<and> raw \<le> s"
  shows "case collect_visible_entries p st mode pred check of
      Inl e \<Rightarrow> check \<and> e = Limit_exceeded
    | Inr m \<Rightarrow> is_scan (\<lambda>k. in_mode mode k \<and> Q k) (db_at s H) (live_entries m)"
proof (cases "mode_empty mode")
  case True
  then have "\<not> in_mode mode k" for k
    using invalid_range by (auto simp: mode_empty_def in_mode_def split: scan_mode.splits)
  with True show ?thesis by (simp add: collect_visible_entries_def is_scan_def live_entries_def)
next
  case False
  from hist obtain cs ms where st: "in_layers p st cs ms" and agree: "agree_from F (concat (cs @ ms)) H"
    unfolding holds_history_def by blast
  have dist: "versions_distinct (concat (cs @ ms))" by (rule layered_distinct) (use st in \<open>simp add: in_layers_def\<close>)
  have same: "db_at s (concat (cs @ ms)) = db_at s H" using agree s by (auto simp: agree_from_def db_at_def fun_eq_iff)
  from collect_newest [OF st False, where pred = pred and check = check] live_entries_scan [OF _ dist pred, of _ mode]
  show ?thesis unfolding same by (auto split: sum.splits)
qed

text \<open>The scans of a state with the invariant.\<close>

lemma inv_scans:
  assumes inv: "lsm_inv p st H F sp"
  shows "\<exists>xs. lsm_scan_prefix p st pfx = Inr xs \<and> is_scan (prefix pfx) (sp_db sp) xs"
    and "(s, d) \<in> set (sp_pins sp) \<Longrightarrow> \<exists>xs. scan_prefix_at p st pfx s = Inr xs \<and> is_scan (prefix pfx) d xs"
    and "\<exists>xs. is_scan (\<lambda>k. above a k \<and> below b k) (sp_db sp) xs \<and>
       (\<forall>limit. lsm_scan p st a b limit = Inr (if limit = None \<or> limit = Some 0 then xs else take (the limit) xs))"
proof -
  have hist: "holds_history p st H F" using inv by (simp add: lsm_inv_def)
  then have F: "F \<le> ls_applied_seq st" by (simp add: holds_history_def)
  have top: "db_at U64_MAX H = sp_db sp" "F \<le> U64_MAX" using history_top [OF hist, of U64_MAX] inv by (simp_all add: lsm_inv_def U64_MAX_def)
  have at: "\<exists>xs. scan_prefix_at p st pfx s = Inr xs \<and> is_scan (prefix pfx) (db_at s H) xs" if "F \<le> s" for s
  proof -
    have "case collect_visible_entries p st (By_prefix pfx) (\<lambda>k raw _. raw \<le> s \<and> prefix pfx k) False of
        Inl e \<Rightarrow> False \<and> e = Limit_exceeded
      | Inr m \<Rightarrow> is_scan (\<lambda>k. in_mode (By_prefix pfx) k \<and> prefix pfx k) (db_at s H) (live_entries m)"
      by (rule history_collect [OF hist that]) blast
    then show ?thesis by (auto simp: scan_prefix_at_def in_mode_def split: sum.splits)
  qed
  show "\<exists>xs. lsm_scan_prefix p st pfx = Inr xs \<and> is_scan (prefix pfx) (sp_db sp) xs"
    unfolding lsm_scan_prefix_def using at [OF top(2)] by (simp only: top(1))
  show "\<exists>xs. scan_prefix_at p st pfx s = Inr xs \<and> is_scan (prefix pfx) d xs" if "(s, d) \<in> set (sp_pins sp)"
    using at [of s] inv that by (auto simp: lsm_inv_def pins_ok_def)
  show "\<exists>xs. is_scan (\<lambda>k. above a k \<and> below b k) (sp_db sp) xs \<and>
      (\<forall>limit. lsm_scan p st a b limit = Inr (if limit = None \<or> limit = Some 0 then xs else take (the limit) xs))"
  proof -
    have "case collect_visible_entries p st (By_range a b) (\<lambda>k _ _. check_in_range k a b) False of
        Inl e \<Rightarrow> False \<and> e = Limit_exceeded
      | Inr m \<Rightarrow> is_scan (\<lambda>k. in_mode (By_range a b) k \<and> check_in_range k a b) (db_at U64_MAX H) (live_entries m)"
      by (rule history_collect [OF hist top(2)]) (simp add: U64_MAX_def)
    then obtain m where m: "collect_visible_entries p st (By_range a b) (\<lambda>k _ _. check_in_range k a b) False = Inr m"
      "is_scan (\<lambda>k. above a k \<and> below b k) (sp_db sp) (live_entries m)"
      by (auto simp: in_mode_def check_in_range_def top(1) split: sum.splits)
    moreover have "lsm_scan p st a b limit = Inr (if limit = None \<or> limit = Some 0 then live_entries m else take (the limit) (live_entries m))" for limit
      by (cases limit) (simp_all add: lsm_scan_def m(1) take_limit_def)
    ultimately show ?thesis by blast
  qed
qed

text \<open>C4: scans agree with point reads. After any run, a prefix scan and a range scan return, in ascending order of the
  keys, exactly the keys of the prefix or range that the database of the committed transactions holds, with the
  values that point reads return, and a prefix scan at a pinned snapshot those of the database when it
  was pinned; a range scan with a limit returns the first of them, all of them for the limit 0.\<close>

theorem scans_return_database:
  assumes "km_ok (lp_km p)" and "\<forall>op \<in> set ops. op_admitted op"
    and "1 + length ops * (cf_max_ops_per_tx c + 1) < 2 ^ 63"
    and "lsm_run p ops (lsm_new (tx_buffer_new n c) ssi) = (st, outs)"
  shows "\<exists>sp. lsm_spec_run p ops outs spec_new = (sp, True) \<and>
    (\<forall>k. validate_key k \<longrightarrow> lsm_get p st k = Inr (sp_db sp k)) \<and>
    (\<exists>xs. lsm_scan_prefix p st pfx = Inr xs \<and> is_scan (prefix pfx) (sp_db sp) xs) \<and>
    (\<forall>(s, d) \<in> set (sp_pins sp). \<exists>xs. scan_prefix_at p st pfx s = Inr xs \<and> is_scan (prefix pfx) d xs) \<and>
    (\<exists>xs. is_scan (\<lambda>k. above a k \<and> below b k) (sp_db sp) xs \<and>
       (\<forall>limit. lsm_scan p st a b limit = Inr (if limit = None \<or> limit = Some 0 then xs else take (the limit) xs)))"
proof -
  obtain H F sp where run: "lsm_spec_run p ops outs spec_new = (sp, True)" and inv: "lsm_inv p st H F sp"
    by (rule run_reaches [OF assms])
  have "\<forall>k. validate_key k \<longrightarrow> lsm_get p st k = Inr (sp_db sp k)"
    using inv_read(1) [OF inv] by (simp add: lsm_get_def)
  with run inv_scans [OF inv] show ?thesis by (intro exI [of _ sp] conjI ballI) auto
qed

lemma scans_return_database_witness:
  "\<exists>st outs sp xs. lsm_run example_params example_ops example_start = (st, outs) \<and>
     lsm_spec_run example_params example_ops outs spec_new = (sp, True) \<and>
     lsm_scan_prefix example_params st [107] = Inr xs \<and> is_scan (prefix [107]) (sp_db sp) xs"
proof -
  obtain st outs where run: "lsm_run example_params example_ops example_start = (st, outs)"
    by (cases "lsm_run example_params example_ops example_start")
  from scans_return_database [OF example_km example_admitted example_room run [unfolded example_start_def],
      of "[107]" Unbounded Unbounded] run show ?thesis by blast
qed

section \<open>Pages\<close>

text \<open>A client that asks for page after page, each from the cursor of the last; \<open>None\<close> when the fuel is used up.\<close>

fun all_pages ::
  "nat \<Rightarrow> (bytes option \<Rightarrow> lsm_error + (bytes \<times> bytes) list \<times> bytes option) \<Rightarrow> bytes option \<Rightarrow>
   (lsm_error + (bytes \<times> bytes) list) option" where
  "all_pages 0 page cursor = None"
| "all_pages (Suc fuel) page cursor =
     (case page cursor of
        Inl e \<Rightarrow> Some (Inl e)
      | Inr (xs, None) \<Rightarrow> Some (Inr xs)
      | Inr (xs, Some c) \<Rightarrow>
          map_option (\<lambda>r. bind_res r (\<lambda>ys. Inr (xs @ ys))) (all_pages fuel page (Some c)))"

definition after :: "bytes option \<Rightarrow> (bytes \<times> bytes) list \<Rightarrow> (bytes \<times> bytes) list" where
  "after cursor xs = filter (\<lambda>e. case cursor of None \<Rightarrow> True | Some c \<Rightarrow> c < fst e) xs"

lemma drop_after:
  fixes xs :: "(bytes \<times> bytes) list"
  assumes "sorted_wrt (<) (map fst xs)" and "0 < n" and "n \<le> length xs"
  shows "filter (\<lambda>e. fst (last (take n xs)) < fst e) xs = drop n xs"
proof -
  let ?l = "last (take n xs)"
  have ne: "take n xs \<noteq> []" using assms(2,3) by auto
  have split: "map fst xs = map fst (take n xs) @ map fst (drop n xs)" by (simp flip: map_append)
  then have s: "sorted_wrt (<) (map fst (take n xs))" "\<forall>a \<in> set (take n xs). \<forall>b \<in> set (drop n xs). fst a < fst b"
    using assms(1) by (auto simp: sorted_wrt_append)
  have "sorted_wrt (<) (map fst (butlast (take n xs) @ [?l]))" using s(1) ne by simp
  then have "\<forall>e \<in> set (butlast (take n xs)). fst e < fst ?l" by (simp add: sorted_wrt_append del: append_butlast_last_id)
  moreover have "set (take n xs) = insert ?l (set (butlast (take n xs)))"
    using ne by (metis append_butlast_last_id list.simps(15) rotate1.simps(2) set_rotate1)
  ultimately have "filter (\<lambda>e. fst ?l < fst e) (take n xs) = []"
    by (auto simp: filter_empty_conv dest: less_asym)
  moreover have "filter (\<lambda>e. fst ?l < fst e) (drop n xs) = drop n xs"
    using s(2) last_in_set [OF ne] by (auto simp: filter_id_conv)
  ultimately show ?thesis by (metis append_Nil append_take_drop_id filter_append)
qed

lemma all_pages_run:
  assumes sorted: "sorted_wrt (<) (map fst xs)" and lim: "0 < limit"
    and page: "\<And>c. c = None \<or> (\<exists>k \<in> fst ` set xs. c = Some k) \<Longrightarrow> page c = Inl err \<or> page c = Inr (page_of limit (after c xs))"
  shows "c = None \<or> (\<exists>k \<in> fst ` set xs. c = Some k) \<Longrightarrow> length (after c xs) < fuel \<Longrightarrow>
    all_pages fuel page c = Some (Inl err) \<or> all_pages fuel page c = Some (Inr (after c xs))"
proof (induction fuel arbitrary: c)
  case (Suc fuel)
  let ?live = "after c xs"
  show ?case
  proof (cases "page c = Inl err")
    case False
    then have p: "page c = Inr (page_of limit ?live)" using page [OF Suc.prems(1)] by blast
    show ?thesis
    proof (cases "length ?live > limit")
      case False
      then have "page_of limit ?live = (?live, None)" using lim by (simp add: page_of_def take_limit_def)
      then show ?thesis by (simp add: p)
    next
      case True
      let ?c = "fst (last (take limit ?live))"
      have sorted': "sorted_wrt (<) (map fst ?live)"
        using sorted unfolding after_def sorted_wrt_map by (rule sorted_wrt_filter)
      have ne: "take limit ?live \<noteq> []" using True lim by auto
      have in_live: "last (take limit ?live) \<in> set ?live" using last_in_set [OF ne] set_take_subset by fastforce
      then have in_xs: "?c \<in> fst ` set xs" by (auto simp: after_def)
      have "after (Some ?c) xs = filter (\<lambda>e. ?c < fst e) ?live"
        using in_live unfolding after_def by (auto intro!: filter_cong dest: less_trans split: option.splits)
      also have "\<dots> = drop limit ?live" using drop_after [OF sorted' lim] True by simp
      finally have next': "after (Some ?c) xs = drop limit ?live" .
      have "page_of limit ?live = (take limit ?live, Some ?c)"
        using True lim by (simp add: page_of_def take_limit_def Let_def)
      then have step: "all_pages (Suc fuel) page c =
          map_option (\<lambda>r. bind_res r (\<lambda>ys. Inr (take limit ?live @ ys))) (all_pages fuel page (Some ?c))" by (simp add: p)
      have "length (after (Some ?c) xs) < fuel" using next' True lim Suc.prems(2) by simp
      from Suc.IH [OF _ this] in_xs show ?thesis unfolding step next' by auto
    qed
  qed simp
qed simp

lemma after_scan:
  assumes "is_scan R d xs"
  shows "is_scan (\<lambda>k. R k \<and> (case c of None \<Rightarrow> True | Some x \<Rightarrow> x < k)) d (after c xs)"
  unfolding is_scan_def
proof (intro conjI allI)
  show "sorted_wrt (<) (map fst (after c xs))"
    using assms unfolding is_scan_def after_def sorted_wrt_map by (metis sorted_wrt_filter)
  fix k v
  have e: "(k, v) \<in> set xs \<longleftrightarrow> R k \<and> d k = Some v" using assms by (simp add: is_scan_def)
  show "(k, v) \<in> set (after c xs) \<longleftrightarrow> (R k \<and> (case c of None \<Rightarrow> True | Some x \<Rightarrow> x < k)) \<and> d k = Some v"
    by (cases c) (simp_all add: after_def e conj_ac)
qed

lemma page_cases:
  assumes "is_scan R d xs" and c: "c = None \<or> (\<exists>k \<in> fst ` set xs. c = Some k)"
    and R': "\<And>k. R' k \<longleftrightarrow> R k \<and> (case c of None \<Rightarrow> True | Some x \<Rightarrow> x < k)"
    and r: "case r of Inl e \<Rightarrow> e = Limit_exceeded | Inr m \<Rightarrow> is_scan R' d (live_entries m)"
  shows "bind_res r (\<lambda>m. Inr (page_of limit (live_entries m))) = Inl Limit_exceeded \<or>
    bind_res r (\<lambda>m. Inr (page_of limit (live_entries m))) = Inr (page_of limit (after c xs))"
proof (cases r)
  case (Inr m)
  have "is_scan (\<lambda>k. R k \<and> (case c of None \<Rightarrow> True | Some x \<Rightarrow> x < k)) d (live_entries m)"
    by (rule is_scan_agree [OF _ refl R']) (use r Inr in simp)
  then have "live_entries m = after c xs" by (rule is_scan_unique [OF _ after_scan [OF assms(1)]])
  with Inr show ?thesis by simp
qed (use r in simp)

text \<open>Every page is cut out of the whole scan.\<close>

lemma history_pages:
  assumes full: "is_scan R d xs" and lim: "0 < limit"
    and page: "\<And>c. c = None \<or> (\<exists>k \<in> fst ` set xs. c = Some k) \<Longrightarrow>
      page c = Inl Limit_exceeded \<or> page c = Inr (page_of limit (after c xs))"
  shows "all_pages (Suc (length xs)) page None \<in> {Some (Inl Limit_exceeded), Some (Inr xs)}"
proof -
  have "sorted_wrt (<) (map fst xs)" using full by (simp add: is_scan_def)
  moreover have "after None xs = xs" by (simp add: after_def)
  ultimately show ?thesis using all_pages_run [OF _ lim page, where c = None and fuel = "Suc (length xs)"] by simp
qed

lemma range_pages:
  assumes hist: "holds_history p st H F" and lim: "0 < limit"
  shows "\<exists>xs. lsm_scan p st a b None = Inr xs \<and>
    all_pages (Suc (length xs)) (scan_bounded p st a b limit) None \<in> {Some (Inl Limit_exceeded), Some (Inr xs)}"
proof -
  let ?d = "db_at U64_MAX H"
  have F: "F \<le> U64_MAX" by (simp add: U64_MAX_def)
  have collect: "case collect_visible_entries p st (By_range a' b) (\<lambda>k _ _. check_in_range k a' b) check of
      Inl e \<Rightarrow> check \<and> e = Limit_exceeded
    | Inr m \<Rightarrow> is_scan (\<lambda>k. in_mode (By_range a' b) k \<and> check_in_range k a' b) ?d (live_entries m)" for a' check
    by (rule history_collect [OF hist F]) (simp add: U64_MAX_def)
  obtain m where m: "collect_visible_entries p st (By_range a b) (\<lambda>k _ _. check_in_range k a b) False = Inr m"
    using collect [where a' = a and check = False] by (auto split: sum.splits)
  let ?xs = "live_entries m"
  have xs: "is_scan (\<lambda>k. above a k \<and> below b k) ?d ?xs"
    using collect [where a' = a and check = False] unfolding m by (simp add: in_mode_def check_in_range_def)
  have "all_pages (Suc (length ?xs)) (scan_bounded p st a b limit) None \<in> {Some (Inl Limit_exceeded), Some (Inr ?xs)}"
  proof (rule history_pages [OF xs lim])
    fix c assume c: "c = None \<or> (\<exists>k \<in> fst ` set ?xs. c = Some k)"
    let ?a = "case c of Some x \<Rightarrow> Excluded x | None \<Rightarrow> a"
    have "above a x" if "c = Some x" for x using c that xs by (auto simp: is_scan_def)
    then have "above a k" if "c = Some x" "x < k" for x k
      using that by (cases a) (auto intro: less_imp_le order_trans less_trans le_less_trans)
    then have R': "(in_mode (By_range ?a b) k \<and> check_in_range k ?a b) \<longleftrightarrow>
        (above a k \<and> below b k) \<and> (case c of None \<Rightarrow> True | Some x \<Rightarrow> x < k)" for k
      by (cases c) (auto simp: in_mode_def check_in_range_def)
    have "case collect_visible_entries p st (By_range ?a b) (\<lambda>k _ _. check_in_range k ?a b) True of
        Inl e \<Rightarrow> e = Limit_exceeded
      | Inr m \<Rightarrow> is_scan (\<lambda>k. in_mode (By_range ?a b) k \<and> check_in_range k ?a b) ?d (live_entries m)"
      using collect [where a' = ?a and check = True] by (simp split: sum.splits)
    from page_cases [OF xs c R' this]
    show "scan_bounded p st a b limit c = Inl Limit_exceeded \<or> scan_bounded p st a b limit c = Inr (page_of limit (after c ?xs))"
      by (simp add: scan_bounded_def Let_def)
  qed
  moreover have "lsm_scan p st a b None = Inr ?xs" by (simp add: lsm_scan_def m take_limit_def)
  ultimately show ?thesis by blast
qed

lemma live_entries_filter: "live_entries (filter (\<lambda>e. P (fst e)) m) = filter (\<lambda>e. P (fst e)) (live_entries m)"
  by (induction m) (auto simp: live_entries_def)

lemma prefix_pages:
  assumes hist: "holds_history p st H F" and lim: "0 < limit"
  shows "\<exists>xs. lsm_scan_prefix p st pfx = Inr xs \<and>
    all_pages (Suc (length xs)) (scan_prefix_bounded p st pfx limit) None \<in> {Some (Inl Limit_exceeded), Some (Inr xs)}"
proof -
  let ?d = "db_at U64_MAX H" and ?pass = "\<lambda>c k. case c of Some cb \<Rightarrow> \<not> k \<le> cb | None \<Rightarrow> True"
  have F: "F \<le> U64_MAX" by (simp add: U64_MAX_def)
  obtain m where m: "collect_visible_entries p st (By_prefix pfx) (\<lambda>k raw _. raw \<le> U64_MAX \<and> prefix pfx k) False = Inr m"
    and "is_scan (\<lambda>k. in_mode (By_prefix pfx) k \<and> prefix pfx k) ?d (live_entries m)"
    using history_collect [OF hist F, where pred = "\<lambda>k raw _. raw \<le> U64_MAX \<and> prefix pfx k" and Q = "prefix pfx" and mode = "By_prefix pfx" and check = False]
    by (auto split: sum.splits)
  then have xs: "is_scan (prefix pfx) ?d (live_entries m)" by (simp add: in_mode_def)
  let ?xs = "live_entries m"
  have "all_pages (Suc (length ?xs)) (scan_prefix_bounded p st pfx limit) None \<in> {Some (Inl Limit_exceeded), Some (Inr ?xs)}"
  proof (rule history_pages [OF xs lim])
    fix c assume c: "c = None \<or> (\<exists>k \<in> fst ` set ?xs. c = Some k)"
    let ?r = "collect_visible_entries p st (By_prefix pfx) (\<lambda>k _ _. ?pass c k \<and> prefix pfx k) True"
    have r: "case ?r of
        Inl e \<Rightarrow> True \<and> e = Limit_exceeded
      | Inr m \<Rightarrow> is_scan (\<lambda>k. in_mode (By_prefix pfx) k \<and> (?pass c k \<and> prefix pfx k)) ?d (live_entries m)"
      by (rule history_collect [OF hist F]) (simp add: U64_MAX_def)
    have R': "(in_mode (By_prefix pfx) k \<and> (?pass c k \<and> prefix pfx k)) \<longleftrightarrow>
        prefix pfx k \<and> (case c of None \<Rightarrow> True | Some x \<Rightarrow> x < k)" for k
      by (cases c) (auto simp: in_mode_def not_le)
    have kept: "live_entries (filter (\<lambda>e. case c of Some cb \<Rightarrow> fst e > cb | None \<Rightarrow> True) m') = live_entries m'"
      if "?r = Inr m'" for m'
    proof -
      have "is_scan (\<lambda>k. in_mode (By_prefix pfx) k \<and> (?pass c k \<and> prefix pfx k)) ?d (live_entries m')" using r that by simp
      then have "\<forall>e \<in> set (live_entries m'). case c of Some cb \<Rightarrow> fst e > cb | None \<Rightarrow> True"
        by (cases c) (auto simp: is_scan_def not_le)
      then show ?thesis
        using live_entries_filter [of "\<lambda>k. case c of Some cb \<Rightarrow> k > cb | None \<Rightarrow> True" m'] by (simp add: filter_id_conv)
    qed
    have "scan_prefix_bounded p st pfx limit c = bind_res ?r (\<lambda>m. Inr (page_of limit (live_entries m)))"
      unfolding scan_prefix_bounded_def using kept by (cases ?r) simp_all
    with page_cases [OF xs c R', of ?r limit] r
    show "scan_prefix_bounded p st pfx limit c = Inl Limit_exceeded \<or>
        scan_prefix_bounded p st pfx limit c = Inr (page_of limit (after c ?xs))"
      by (auto split: sum.splits)
  qed
  moreover have "lsm_scan_prefix p st pfx = Inr ?xs" by (simp only: lsm_scan_prefix_def scan_prefix_at_def m bind_res_simps)
  ultimately show ?thesis by blast
qed



end
