(* ===== verification/LsmCorrect.thy ===== *)
theory LsmCorrect
  imports LsmScan
begin

text \<open>
  What the storage engine promises over its runs: it refines a database of committed transactions with pinned
  snapshots, and a snapshot reads the same whatever follows.
\<close>

section \<open>Refinement\<close>

text \<open>C1: the storage engine refines a database. Every run of staging, commits (which may fail at the budget, at
  validation or in the journal), rollbacks, flushes, compactions, snapshots and reads answers as the
  specification does: a read returns the database of the committed transactions, in the order of their
  commits and all or nothing, a read at a pinned snapshot the database when it was pinned,
  \<open>put_if_absent\<close> stages only a key that has no committed value, and compactions end. The run is short
  enough for the 63 bits of a sequence number.\<close>

theorem lsm_refines_database:
  assumes "km_ok (lp_km p)" and "\<forall>op \<in> set ops. op_admitted op"
    and "1 + length ops * (cf_max_ops_per_tx c + 1) < 2 ^ 63"
    and "lsm_run p ops (lsm_new (tx_buffer_new n c) ssi) = (st, outs)"
  shows "\<exists>sp. lsm_spec_run p ops outs spec_new = (sp, True) \<and>
    (\<forall>k. lsm_exec p (Do_get k) st = (st, found_in (sp_db sp) k)) \<and>
    (\<forall>k. \<forall>(s, d) \<in> set (sp_pins sp). lsm_exec p (Do_get_at k s) st = (st, found_in d k))"
proof -
  obtain H F sp where run: "lsm_spec_run p ops outs spec_new = (sp, True)" and inv: "lsm_inv p st H F sp"
    by (rule run_reaches [OF assms])
  then show ?thesis using exec_get [OF inv] exec_get_at [OF inv] by blast
qed

lemma lsm_refines_database_witness:
  "\<exists>st outs sp. lsm_run example_params example_ops example_start = (st, outs) \<and>
     lsm_spec_run example_params example_ops outs spec_new = (sp, True) \<and>
     lsm_exec example_params (Do_get [107]) st = (st, found_in (sp_db sp) [107])"
proof -
  obtain st outs where run: "lsm_run example_params example_ops example_start = (st, outs)"
    by (cases "lsm_run example_params example_ops example_start")
  from lsm_refines_database [OF example_km example_admitted example_room run [unfolded example_start_def]] run show ?thesis by blast
qed

section \<open>Snapshots\<close>

lemma lsm_run_append:
  "lsm_run p (xs @ ys) st = (case lsm_run p xs st of (st', o1) \<Rightarrow> case lsm_run p ys st' of (st'', o2) \<Rightarrow> (st'', o1 @ o2))"
  by (induction xs arbitrary: st) (auto split: prod.splits)

lemma lsm_run_length: "lsm_run p xs st = (st', os) \<Longrightarrow> length xs = length os"
  by (induction xs arbitrary: st os) (auto split: prod.splits)

lemma spec_run_append:
  "length xs = length o1 \<Longrightarrow>
   fst (lsm_spec_run p (xs @ ys) (o1 @ o2) sp) = fst (lsm_spec_run p ys o2 (fst (lsm_spec_run p xs o1 sp)))"
  by (induction xs o1 arbitrary: sp rule: list_induct2) (simp_all add: case_prod_beta)

lemma spec_run_pins:
  "(s, d) \<in> set (sp_pins sp) \<Longrightarrow> \<forall>s. Do_unpin s \<notin> set ops \<Longrightarrow> (s, d) \<in> set (sp_pins (fst (lsm_spec_run p ops outs sp)))"
proof (induction p ops outs sp rule: lsm_spec_run.induct)
  case (1 p op ops out outs sp)
  have "(s, d) \<in> set (sp_pins (lsm_spec_step p op out sp))"
    using "1.prems" by (cases op) (auto simp: spec_stage_def split: lsm_out.splits)
  with "1.IH" "1.prems"(2) show ?case by (simp add: case_prod_beta)
qed auto

text \<open>C5: a snapshot is stable. What a read returns when a snapshot is pinned, the read at the snapshot
  returns after any further commits, flushes and compactions until pins are released.\<close>

theorem snapshot_reads_stable:
  assumes "km_ok (lp_km p)" and "\<forall>op \<in> set (ops1 @ ops2). op_admitted op" and "\<forall>s. Do_unpin s \<notin> set ops2"
    and "1 + (length ops1 + 1 + length ops2) * (cf_max_ops_per_tx c + 1) < 2 ^ 63"
    and "lsm_run p ops1 (lsm_new (tx_buffer_new n c) ssi) = (st1, outs1)"
    and "lsm_exec p (Do_pin now) st1 = (st2, Pinned s)" and "lsm_run p ops2 st2 = (st3, outs2)"
  shows "lsm_get_at_seq p st3 k s = lsm_get p st1 k"
proof -
  let ?st0 = "lsm_new (tx_buffer_new n c) ssi" and ?cap = "cf_max_ops_per_tx c"
  have cap: "cf_max_ops_per_tx (tb_config (ls_txb ?st0)) = ?cap" by (simp add: lsm_new_def tx_buffer_new_def)
  have one: "unat (ls_next_seq ?st0) = 1" by (simp add: lsm_new_def)
  have adm: "\<forall>op \<in> set ops1. op_admitted op" "\<forall>op \<in> set (ops1 @ Do_pin now # ops2). op_admitted op"
    using assms(2) by auto
  have room1: "unat (ls_next_seq ?st0) + length ops1 * (?cap + 1) < 2 ^ 63" unfolding one
    by (rule le_less_trans [OF _ assms(4)]) (simp add: algebra_simps)
  obtain H F sp1 where "lsm_spec_run p ops1 outs1 spec_new = (sp1, True)" and inv1: "lsm_inv p st1 H F sp1"
    using run_correct [OF inv_new assms(1) adm(1) cap room1 assms(5)] by blast
  have all: "lsm_run p (ops1 @ Do_pin now # ops2) ?st0 = (st3, outs1 @ Pinned s # outs2)"
    using assms(5-7) by (simp add: lsm_run_append del: lsm_exec.simps)
  have room2: "unat (ls_next_seq ?st0) + length (ops1 @ Do_pin now # ops2) * (?cap + 1) < 2 ^ 63"
    unfolding one using assms(4) by (simp add: add.commute)
  obtain H' F' sp3 where spec: "lsm_spec_run p (ops1 @ Do_pin now # ops2) (outs1 @ Pinned s # outs2) spec_new = (sp3, True)"
    and inv3: "lsm_inv p st3 H' F' sp3"
    using run_correct [OF inv_new assms(1) adm(2) cap room2 all] by blast
  from spec_run_append [OF lsm_run_length [OF assms(5)], of p "Do_pin now # ops2" "Pinned s # outs2" spec_new] spec \<open>lsm_spec_run p ops1 outs1 spec_new = (sp1, True)\<close>
  have sp3: "sp3 = fst (lsm_spec_run p ops2 outs2 (sp1\<lparr>sp_pins := (s, sp_db sp1) # sp_pins sp1\<rparr>))"
    by (simp add: case_prod_beta)
  have "(s, sp_db sp1) \<in> set (sp_pins sp3)" unfolding sp3 by (rule spec_run_pins) (use assms(3) in simp_all)
  then show ?thesis
    using inv_read(3) [OF inv3, of k s] inv_read(1) [OF inv1, of k]
    by (cases "validate_key k") (simp_all add: lsm_get_def lsm_get_at_seq_def)
qed

lemma snapshot_reads_stable_witness:
  "\<exists>st1 outs1 st2 s st3 outs2. lsm_run example_params (take 2 example_ops) example_start = (st1, outs1) \<and>
     lsm_exec example_params (Do_pin 0) st1 = (st2, Pinned s) \<and>
     lsm_run example_params (drop 2 example_ops) st2 = (st3, outs2) \<and>
     lsm_get_at_seq example_params st3 [107] s = lsm_get example_params st1 [107]"
proof -
  obtain st1 outs1 where run1: "lsm_run example_params (take 2 example_ops) example_start = (st1, outs1)"
    by (cases "lsm_run example_params (take 2 example_ops) example_start")
  obtain st2 s where pin: "lsm_exec example_params (Do_pin 0) st1 = (st2, Pinned s)" by simp
  obtain st3 outs2 where run2: "lsm_run example_params (drop 2 example_ops) st2 = (st3, outs2)"
    by (cases "lsm_run example_params (drop 2 example_ops) st2")
  have adm: "\<forall>op \<in> set (take 2 example_ops @ drop 2 example_ops). op_admitted op"
    using example_admitted by simp
  have "\<forall>s. Do_unpin s \<notin> set (drop 2 example_ops)" by (simp add: example_ops_def)
  moreover have "1 + (length (take 2 example_ops) + 1 + length (drop 2 example_ops)) * (cf_max_ops_per_tx default_config + 1) < 2 ^ 63"
    by (simp add: example_ops_def default_config_def)
  ultimately have "lsm_get_at_seq example_params st3 [107] s = lsm_get example_params st1 [107]"
    by (rule snapshot_reads_stable [OF example_km adm _ _ run1 [unfolded example_start_def] pin run2])
  with run1 pin run2 show ?thesis by blast
qed

end
