(* ===== verification/LsmRollback.thy ===== *)
theory LsmRollback
  imports LsmRun
begin

text \<open>
  The rollback to a transaction: the versions that are left are those of the transactions up to the target, each
  as often as it was held. Which values a key has afterwards is another matter: a file with transactions on both
  sides is emptied into the MemTable when few of its versions are left, and the versions that flushes and
  compactions dropped do not come back.
\<close>

section \<open>The versions of a file\<close>

lemma sealed_longer:
  assumes "seal_block crc32 km i blk = Inr s" and "km_ok km"
  shows "length blk \<le> length s"
proof (cases km)
  case None
  with assms(1) have "s = with_crc crc32 blk" by (simp add: seal_block_def with_crc_def)
  then show ?thesis by (simp add: length_with_crc)
next
  case (Some m)
  with assms(1) obtain c n where seal: "km_seal m i (with_crc crc32 blk) = Some (c, n)" and s: "s = n @ c"
    by (auto simp: seal_block_def with_crc_def Let_def split: option.splits prod.splits)
  with assms(2) Some have "length c = length (with_crc crc32 blk) + 16" unfolding km_ok_def by blast
  then show ?thesis by (simp add: s length_with_crc)
qed

lemma block_longer: "bb_ok blake3 es bb \<Longrightarrow> length es \<le> length (build bb)"
  using entries_length [of es] by (auto simp: bb_ok_def build_def Let_def)

lemma file_longer:
  assumes "file_ok blake3 crc32 km v blks sealed bl sb"
  shows "length (concat (map fst blks)) \<le> length (file_of crc32 blks sealed bl sb)"
proof -
  have each: "length (fst (blks ! i)) \<le> length (sealed ! i)" if "i < length blks" for i
  proof -
    have "seal_block crc32 km i (build (snd (blks ! i))) = Inr (sealed ! i)" "km_ok km" "bb_ok blake3 (fst (blks ! i)) (snd (blks ! i))"
      using assms that by (auto simp: file_ok_def sealed_as_def good_block_def)
    with sealed_longer block_longer show "length (fst (blks ! i)) \<le> length (sealed ! i)" by (meson order_trans)
  qed
  have len: "length sealed = length blks" using assms by (simp add: file_ok_def sealed_as_def)
  have "list_all2 (\<lambda>b s. length (fst b) \<le> length s) blks sealed" using each len by (simp add: list_all2_conv_all_nth)
  then have "length (concat (map fst blks)) \<le> length (concat sealed)" by (induction rule: list_all2_induct) simp_all
  then show ?thesis by (simp add: file_of_def)
qed

lemma sst_input_length:
  assumes "sst_input blake3 crc32 rd es"
  shows "length es \<le> length (rd_file rd)"
proof -
  from assms obtain km v m hashes bs meta where km: "km_ok km" and "v = 3 \<or> v = 4"
    and wr: "sst_write blake3 crc32 km m hashes v es = Inr (bs, meta)"
    and vals: "\<forall>e \<in> set es. length (fst (snd e)) \<le> READABLE_VALUE" and opn: "sst_open crc32 km bs = Inr rd"
    unfolding sst_input_def by blast
  then have v: "3 \<le> v" "v \<le> 4" by auto
  obtain blks sealed sb where ents: "concat (map fst blks) = es" and noted: "noted blake3 (bloom_new m hashes) es sb"
    and bs: "bs = file_of crc32 blks sealed (sb_bloom sb) sb" and ok: "file_ok blake3 crc32 km v blks sealed (sb_bloom sb) sb"
    by (rule written_file [OF km v wr])
  have "\<forall>e \<in> set (concat (map fst blks)). entry_valid e \<and> length (fst (snd e)) \<le> READABLE_VALUE"
    using noted vals by (simp add: ents noted_def)
  from sst_open_file [OF ok sealed_small [OF ok this]] opn
  have "rd = opened crc32 km v blks sealed (sb_bloom sb) sb" by (simp add: bs)
  then show ?thesis using file_longer [OF ok] by (simp add: opened_def Let_def ents)
qed

lemma read_stream_gives:
  "file_gives blake3 crc32 (rd, ss) es \<Longrightarrow> length es \<le> fuel \<Longrightarrow> read_stream crc32 fuel rd ss = Inr es"
proof (induction fuel arbitrary: ss es)
  case (Suc fuel)
  show ?case
  proof (cases es)
    case Nil
    with CompactProps.sst_source.exhausted [of blake3 crc32 "(rd, ss)"] Suc.prems(1) show ?thesis
      by (auto simp: file_next_def bind_res_def split: sum.splits prod.splits)
  next
    case (Cons e es')
    with CompactProps.sst_source.delivers [of blake3 crc32 "(rd, ss)" e es'] Suc.prems(1) obtain s'
      where s': "file_next crc32 (rd, ss) = Inr (s', Some e)" "file_gives blake3 crc32 s' es'" by blast
    then obtain ss' where "s' = (rd, ss')" "stream_next crc32 rd ss = Inr (ss', Some e)"
      by (auto simp: file_next_def bind_res_def split: sum.splits prod.splits)
    with Suc.IH [of ss' es'] s'(2) Suc.prems(2) Cons show ?thesis by simp
  qed
qed simp

lemma sst_input_stream:
  assumes "sst_input blake3 crc32 rd es"
  shows "read_stream crc32 (length (rd_file rd)) rd sst_stream_new = Inr es"
  by (rule read_stream_gives [OF sst_input_gives(1) [OF assms] sst_input_length [OF assms]])

section \<open>MemTables\<close>

lemma mem_holds_rollback:
  assumes "mem_holds mt es"
  shows "mem_holds (MemTable.rollback mt t) (filter (\<lambda>e. tx_of e \<noteq> t) es)"
proof -
  from assms obtain log where log: "mt_ok log mt" "es = entries_of log" by (auto simp: mem_holds_def)
  have "filter (\<lambda>e. tx_of e \<noteq> t) (entries_of log) = entries_of (filter (\<lambda>e. snd (snd (snd e)) \<noteq> t) log)"
    by (induction log) (auto simp: entries_of_def)
  with rollback_ok [OF log(1), of t] log(2) show ?thesis unfolding mem_holds_def by blast
qed

lemma mem_holds_rollbacks:
  "mem_holds mt es \<Longrightarrow> mem_holds (foldl MemTable.rollback mt ts) (filter (\<lambda>e. tx_of e \<notin> set ts) es)"
proof (induction ts arbitrary: mt es)
  case (Cons t ts)
  from Cons.IH [OF mem_holds_rollback [OF Cons.prems, of t]] show ?case by (simp add: conj_ac)
qed simp

definition upto_tx :: "u64 \<Rightarrow> entry list \<Rightarrow> entry list" where
  "upto_tx target es = filter (\<lambda>e. tx_of e \<le> target) es"

lemma mem_holds_prune:
  assumes "mem_holds mt es"
  shows "mem_holds (prune_memtable_above_tx target mt) (upto_tx target es)"
proof -
  let ?ts = "remdups (filter (\<lambda>tx. tx > target) (map (\<lambda>(k, v, s, tx). tx) (mt_iter mt)))"
  have "set (mt_iter mt) = set es" by (rule mset_eq_setD [OF mem_holds_iter [OF assms]])
  then have ts: "set ?ts = {t \<in> tx_of ` set es. t > target}" by (force simp: image_iff)
  have "filter (\<lambda>e. tx_of e \<notin> set ?ts) es = upto_tx target es"
    unfolding upto_tx_def ts by (rule filter_cong) (auto simp: not_less)
  with mem_holds_rollbacks [OF assms, of ?ts] show ?thesis by (simp add: prune_memtable_above_tx_def)
qed

lemma mem_holds_put_all:
  "mem_holds mt es \<Longrightarrow> mem_holds (foldl (\<lambda>mt (k, v, s, tx). mt_put mt k v s tx) mt xs) (es @ xs)"
proof (induction xs arbitrary: mt es)
  case (Cons x xs)
  obtain k v s t where "x = (k, v, s, t)" by (cases x) auto
  with Cons.IH [OF mem_holds_put [OF Cons.prems, of k v s t]] show ?case by simp
qed simp

section \<open>What is left\<close>

lemma upto_tx_append [simp]: "upto_tx t (xs @ ys) = upto_tx t xs @ upto_tx t ys"
  by (simp add: upto_tx_def)

lemma upto_tx_all: "\<forall>e \<in> set es. tx_of e \<le> t \<Longrightarrow> upto_tx t es = es"
  by (simp add: upto_tx_def filter_id_conv)

lemma upto_tx_none: "\<forall>e \<in> set es. \<not> tx_of e \<le> t \<Longrightarrow> upto_tx t es = []"
  by (simp add: upto_tx_def filter_empty_conv)

lemma upto_tx_eq: "filter (\<lambda>(k, v, s, tx). tx \<le> t) es = upto_tx t es"
  unfolding upto_tx_def by (rule filter_cong) auto

abbreviation above_file :: "u64 \<Rightarrow> sst_reader \<Rightarrow> bool" where
  "above_file t rd \<equiv> sm_min_tx (rd_meta rd) > t"

abbreviation spanning_file :: "u64 \<Rightarrow> sst_reader \<Rightarrow> bool" where
  "spanning_file t rd \<equiv> sm_min_tx (rd_meta rd) \<le> t \<and> sm_max_tx (rd_meta rd) > t"

lemma sst_input_txs:
  assumes "sst_input b3 crc rd es" and "e \<in> set es"
  shows "sm_min_tx (rd_meta rd) \<le> tx_of e" and "tx_of e \<le> sm_max_tx (rd_meta rd)"
proof -
  have ne: "es \<noteq> []" using assms(2) by auto
  show "sm_min_tx (rd_meta rd) \<le> tx_of e" "tx_of e \<le> sm_max_tx (rd_meta rd)"
    unfolding sst_input_meta(3,4) [OF assms(1) ne] foldl_min_max_set using assms(2) by simp_all
qed

lemma rollback_parts:
  assumes "list_all2 (sst_input b3 crc) rds cs"
  shows "\<exists>ks ws. list_all2 (sst_input b3 crc) (filter (\<lambda>rd. \<not> above_file t rd \<and> \<not> spanning_file t rd) rds) ks \<and>
    list_all2 (sst_input b3 crc) (filter (spanning_file t) rds) ws \<and>
    mset (upto_tx t (concat cs)) = mset (concat ks) + mset (upto_tx t (concat ws))"
  using assms
proof (induction rule: list_all2_induct)
  case (Cons rd rds es cs)
  then obtain ks ws where IH: "list_all2 (sst_input b3 crc) (filter (\<lambda>rd. \<not> above_file t rd \<and> \<not> spanning_file t rd) rds) ks"
    "list_all2 (sst_input b3 crc) (filter (spanning_file t) rds) ws"
    "mset (upto_tx t (concat cs)) = mset (concat ks) + mset (upto_tx t (concat ws))" by blast
  note txs = sst_input_txs [OF Cons.hyps(1)]
  consider "above_file t rd" | "spanning_file t rd" | "\<not> above_file t rd" "\<not> spanning_file t rd" by blast
  then show ?case
  proof cases
    case 1
    then have "upto_tx t es = []" using txs(1) by (intro upto_tx_none) (auto simp: not_le intro: less_le_trans)
    with 1 IH show ?thesis by - (rule exI [of _ ks], rule exI [of _ ws], (simp add: not_le [symmetric]))
  next
    case 2
    with IH Cons.hyps(1) show ?thesis
      by - (rule exI [of _ ks], rule exI [of _ "es # ws"], (simp add: not_le [symmetric]))
  next
    case 3
    then have "sm_max_tx (rd_meta rd) \<le> t" by auto
    then have "upto_tx t es = es" by (intro upto_tx_all ballI) (rule order_trans [OF txs(2)])
    with 3 IH Cons.hyps(1) show ?thesis
      by - (rule exI [of _ "es # ks"], rule exI [of _ ws], simp)
  qed
qed (auto simp: upto_tx_def)

lemma sort_files_holds:
  assumes "list_all2 (sst_input b3 crc) rds cs"
  shows "\<exists>cs'. list_all2 (sst_input b3 crc) (sort_files rds) cs' \<and> mset (concat cs') = mset (concat cs)"
proof -
  let ?zs = "sort_key (\<lambda>x. file_key (fst x)) (zip rds cs)"
  have len: "length rds = length cs" using assms by (rule list_all2_lengthD)
  have "sort_files rds = map fst ?zs" unfolding sort_files_def map_sort_key [of fst file_key "zip rds cs"] using len by simp
  moreover have "list_all2 (sst_input b3 crc) (map fst ?zs) (map snd ?zs)"
    unfolding list_all2_map1 list_all2_map2 list_all2_same using assms by (auto simp: list_all2_iff)
  moreover have "mset (concat (map snd ?zs)) = mset (concat cs)"
  proof -
    have "mset (map snd ?zs) = mset (map snd (zip rds cs))" by (simp only: mset_map mset_sort)
    then have same: "mset (map snd ?zs) = mset cs" using len by simp
    show ?thesis by (simp only: mset_concat sum_mset_sum_list [symmetric] mset_map [of mset] same)
  qed
  ultimately show ?thesis by auto
qed

lemma salvage_holds:
  assumes "km_ok (lp_km p)" and inp: "sst_input (lp_blake3 p) (lp_crc32 p) rd es"
    and acc: "mem_holds mt X" "list_all2 (sst_input (lp_blake3 p) (lp_crc32 p)) rds cs"
    and run: "salvage p manifest_ok target rd (mt, rds) = ((mt', rds'), Inr ())"
  shows "\<exists>X' cs'. mem_holds mt' X' \<and> list_all2 (sst_input (lp_blake3 p) (lp_crc32 p)) rds' cs' \<and>
    mset X' + mset (concat cs') = mset X + mset (concat cs) + mset (upto_tx target es)"
proof -
  note stream = sst_input_stream [OF inp]
  show ?thesis
  proof (cases "length (upto_tx target es) \<ge> MIN_ENTRIES_FOR_SSTABLE_REBUILD")
    case True
    then obtain rd' where wr: "write_file p (upto_tx target es) = Inr rd'" and out: "mt' = mt" "rds' = rds @ [rd']"
      using run by (auto simp: salvage_def stream upto_tx_eq Let_def split: sum.splits if_splits)
    have "\<forall>e \<in> set (upto_tx target es). length (fst (snd e)) \<le> READABLE_VALUE"
      using sst_input_gives(3) [OF inp] by (auto simp: upto_tx_def)
    from write_file_holds [OF assms(1) this wr] acc show ?thesis
      by - (rule exI [of _ X], rule exI [of _ "cs @ [upto_tx target es]"], (simp add: out list_all2_appendI))
  next
    case False
    then have "mt' = foldl (\<lambda>mt (k, v, s, tx). mt_put mt k v s tx) mt (upto_tx target es)" "rds' = rds"
      using run by (auto simp: salvage_def stream upto_tx_eq Let_def)
    with mem_holds_put_all [OF acc(1), of "upto_tx target es"] acc(2) show ?thesis
      by - (rule exI [of _ "X @ upto_tx target es"], rule exI [of _ cs], simp)
  qed
qed

lemma salvage_all_holds:
  assumes km: "km_ok (lp_km p)"
  shows "list_all2 (sst_input (lp_blake3 p) (lp_crc32 p)) spans ws \<Longrightarrow> mem_holds mt X \<Longrightarrow>
    list_all2 (sst_input (lp_blake3 p) (lp_crc32 p)) rds cs \<Longrightarrow>
    salvage_all p manifest_ok target spans (mt, rds) = ((mt', rds'), Inr ()) \<Longrightarrow>
    \<exists>X' cs'. mem_holds mt' X' \<and> list_all2 (sst_input (lp_blake3 p) (lp_crc32 p)) rds' cs' \<and>
      mset X' + mset (concat cs') = mset X + mset (concat cs) + mset (upto_tx target (concat ws))"
proof (induction spans ws arbitrary: mt X rds cs rule: list_all2_induct)
  case (Cons rd spans es ws)
  obtain mt1 rds1 where one: "salvage p manifest_ok target rd (mt, rds) = ((mt1, rds1), Inr ())"
    and rest: "salvage_all p manifest_ok target spans (mt1, rds1) = ((mt', rds'), Inr ())"
    using Cons.prems(3) by (auto split: prod.splits sum.splits)
  from salvage_holds [OF km Cons.hyps(1) Cons.prems(1,2) one] obtain X1 cs1 where X1: "mem_holds mt1 X1"
    "list_all2 (sst_input (lp_blake3 p) (lp_crc32 p)) rds1 cs1"
    "mset X1 + mset (concat cs1) = mset X + mset (concat cs) + mset (upto_tx target es)" by blast
  from Cons.IH [OF X1(1,2) rest] X1(3) show ?case by (metis (no_types, lifting) add.assoc concat.simps(2) mset_append upto_tx_append)
qed (auto simp: upto_tx_def)

text \<open>The versions that files and MemTables hold together.\<close>

definition holds_versions :: "lsm_params \<Rightarrow> lsm \<Rightarrow> entry list \<Rightarrow> bool" where
  "holds_versions p st es \<longleftrightarrow>
     (\<exists>cs ms. list_all2 (sst_input (lp_blake3 p) (lp_crc32 p)) (ls_ssts st) cs \<and>
        list_all2 mem_holds (ls_imm st @ [ls_mem st]) ms \<and> mset (concat (cs @ ms)) = mset es)"

lemma foldl_max_le: "m \<le> foldl max m xs" "x \<in> set xs \<Longrightarrow> x \<le> foldl max m xs" for x :: "'a::linorder"
  unfolding foldl_min_max_set by simp_all

lemma max_seq_of_bound:
  assumes "holds_versions p st es" and "e \<in> set es"
  shows "entry_raw e \<le> max_seq_of st" and "max_seq_of st \<le> mask_seq (max_seq_of st)"
proof -
  let ?f = "foldl max 0 (map (\<lambda>rd. mask_seq (sm_max_seq (rd_meta rd))) (ls_ssts st))"
    and ?ms = "map (\<lambda>(k, v, s, tx). mask_seq s) (concat (map mt_iter (ls_mem st # ls_imm st)))"
  obtain cs ms where cs: "list_all2 (sst_input (lp_blake3 p) (lp_crc32 p)) (ls_ssts st) cs"
    and ms: "list_all2 mem_holds (ls_imm st @ [ls_mem st]) ms" and es: "mset (concat (cs @ ms)) = mset es"
    using assms(1) by (auto simp: holds_versions_def)
  have "e \<in> set (concat cs) \<or> e \<in> set (concat ms)" using assms(2) mset_eq_setD [OF es] by auto
  then show "entry_raw e \<le> max_seq_of st"
  proof
    assume "e \<in> set (concat cs)"
    then obtain c where "c \<in> set cs" "e \<in> set c" by auto
    then obtain i where i: "i < length cs" "e \<in> set (cs ! i)" unfolding in_set_conv_nth [of c cs] by blast
    then have "sst_input (lp_blake3 p) (lp_crc32 p) (ls_ssts st ! i) (cs ! i)" "i < length (ls_ssts st)"
      using cs by (auto simp: list_all2_conv_all_nth)
    with sst_input_key(2) i(2) have "entry_raw e \<le> file_key (ls_ssts st ! i)" by fastforce
    also have "\<dots> \<le> ?f" using \<open>i < length (ls_ssts st)\<close> by (intro foldl_max_le(2)) auto
    also have "\<dots> \<le> max_seq_of st" unfolding max_seq_of_def by (rule foldl_max_le(1))
    finally show ?thesis .
  next
    assume "e \<in> set (concat ms)"
    moreover have "set (concat (map mt_iter (ls_mem st # ls_imm st))) = set (concat ms)"
      using mset_eq_setD [OF mem_holds_iters [OF ms]] by auto
    ultimately have "e \<in> set (concat (map mt_iter (ls_mem st # ls_imm st)))" by simp
    then have "(\<lambda>(k, v, s, tx). mask_seq s) e \<in> set ?ms" unfolding set_map by (rule imageI)
    then have "entry_raw e \<in> set ?ms" by (cases e) (simp add: entry_raw_def)
    then show ?thesis unfolding max_seq_of_def by (rule foldl_max_le(2))
  qed
  have mask: "x \<le> mask_seq x \<longleftrightarrow> x = mask_seq x" for x using mask_seq_le [of x] by auto
  have "max_seq_of st \<in> insert 0 (range mask_seq)"
  proof -
    have fold: "foldl max m xs \<in> insert m (set xs)" for m :: u64 and xs
      by (induction xs arbitrary: m) (auto simp: max_def)
    have "?f \<in> insert 0 (range mask_seq)" using fold [of 0 "map (\<lambda>rd. mask_seq (sm_max_seq (rd_meta rd))) (ls_ssts st)"] by auto
    moreover have "set ?ms \<subseteq> range mask_seq" by auto
    ultimately show ?thesis unfolding max_seq_of_def using fold [of ?f ?ms] by auto
  qed
  then show "max_seq_of st \<le> mask_seq (max_seq_of st)" unfolding mask by auto
qed

lemma less_Suc_word: "n \<noteq> U64_MAX \<Longrightarrow> n < n + (1 :: u64)"
proof -
  assume "n \<noteq> U64_MAX"
  then have "unat n \<noteq> unat U64_MAX" by (metis word_unat_eq_iff)
  then have "unat n + 1 < 2 ^ 64" using unsigned_less [of n, where 'a = nat] by (simp add: U64_MAX_def unsigned_minus_1_eq_mask mask_eq_exp_minus_1)
  then have "unat (n + 1) = unat n + 1" by (rule unat_Suc) simp
  then show ?thesis by (simp add: word_less_nat_alt)
qed

lemma rollback_result:
  assumes "rollback_to_tx p wal_ok manifest_ok st target = (st', Inr ())"
  obtains ssts where "salvage_all p manifest_ok target (filter (spanning_file target) (ls_ssts st))
      (prune_memtable_above_tx target (ls_mem st),
       filter (\<lambda>rd. \<not> above_file target rd \<and> \<not> spanning_file target rd) (ls_ssts st)) = ((ls_mem st', ssts), Inr ())"
    and "ls_ssts st' = sort_files ssts" and "ls_imm st' = map (prune_memtable_above_tx target) (ls_imm st)"
    and "ls_next_seq st' = max_seq_of st' + 1" and "ls_committed_tx st' = target"
    and "ls_locks st' = filter (\<lambda>l. snd l \<le> target) (ls_locks st)"
    and "ls_applied_seq st' = ls_applied_seq st" and "ls_txb st' = ls_txb st" and "ls_ssi st' = ls_ssi st"
    and "ls_registry st' = ls_registry st"
proof -
  let ?acc = "(prune_memtable_above_tx target (ls_mem st),
    filter (\<lambda>rd. \<not> above_file target rd \<and> \<not> spanning_file target rd) (ls_ssts st))"
  obtain mt ssts r where sv: "salvage_all p manifest_ok target (filter (spanning_file target) (ls_ssts st)) ?acc = ((mt, ssts), r)"
    by (cases "salvage_all p manifest_ok target (filter (spanning_file target) (ls_ssts st)) ?acc") auto
  have wal_ok and r: "r = Inr ()"
    using assms sv by (auto simp: rollback_to_tx_def Let_def cleanup_intent_locks_def split: if_splits sum.splits)
  let ?st1 = "(cleanup_intent_locks (\<lambda>t. t > target) st)
    \<lparr>ls_mem := mt, ls_imm := map (prune_memtable_above_tx target) (ls_imm st), ls_ssts := sort_files ssts\<rparr>"
  have locks: "filter (\<lambda>l. \<not> target < snd l \<and> snd l \<le> target) (ls_locks st) = filter (\<lambda>l. snd l \<le> target) (ls_locks st)"
    by (rule filter_cong) auto
  have st': "ls_mem st' = mt" "ls_ssts st' = sort_files ssts" "ls_imm st' = map (prune_memtable_above_tx target) (ls_imm st)"
    "ls_next_seq st' = max_seq_of st' + 1" "ls_committed_tx st' = target" "ls_locks st' = filter (\<lambda>l. snd l \<le> target) (ls_locks st)"
    "ls_applied_seq st' = ls_applied_seq st" "ls_txb st' = ls_txb st" "ls_ssi st' = ls_ssi st" "ls_registry st' = ls_registry st"
    using assms sv \<open>wal_ok\<close>
    by (auto simp: rollback_to_tx_def Let_def cleanup_intent_locks_def r locks max_seq_of_def)
  show thesis by (rule that [OF _ st'(2-)]) (use sv r st'(1) in simp)
qed

lemma rollback_succeeds:
  assumes "salvage_all p manifest_ok target (filter (spanning_file target) (ls_ssts st))
      (prune_memtable_above_tx target (ls_mem st),
       filter (\<lambda>rd. \<not> above_file target rd \<and> \<not> spanning_file target rd) (ls_ssts st)) = ((mt, ssts), Inr ())"
  obtains st' where "rollback_to_tx p True manifest_ok st target = (st', Inr ())"
    and "ls_mem st' = mt" and "ls_ssts st' = sort_files ssts" and "ls_imm st' = map (prune_memtable_above_tx target) (ls_imm st)"
    and "ls_next_seq st' = max_seq_of st' + 1" and "ls_committed_tx st' = target"
    and "ls_locks st' = filter (\<lambda>l. snd l \<le> target) (ls_locks st)"
    and "ls_applied_seq st' = ls_applied_seq st" and "ls_txb st' = ls_txb st" and "ls_ssi st' = ls_ssi st"
    and "ls_registry st' = ls_registry st"
proof -
  obtain st' where run: "rollback_to_tx p True manifest_ok st target = (st', Inr ())"
    using assms by (simp add: rollback_to_tx_def Let_def cleanup_intent_locks_def)
  from run show thesis
  proof (rule rollback_result)
    fix ssts'
    assume "salvage_all p manifest_ok target (filter (spanning_file target) (ls_ssts st))
        (prune_memtable_above_tx target (ls_mem st),
         filter (\<lambda>rd. \<not> above_file target rd \<and> \<not> spanning_file target rd) (ls_ssts st)) = ((ls_mem st', ssts'), Inr ())"
    then have "ls_mem st' = mt" "ssts' = ssts" using assms by auto
    moreover assume "ls_ssts st' = sort_files ssts'" "ls_imm st' = map (prune_memtable_above_tx target) (ls_imm st)"
      "ls_next_seq st' = max_seq_of st' + 1" "ls_committed_tx st' = target"
      "ls_locks st' = filter (\<lambda>l. snd l \<le> target) (ls_locks st)" "ls_applied_seq st' = ls_applied_seq st"
      "ls_txb st' = ls_txb st" "ls_ssi st' = ls_ssi st" "ls_registry st' = ls_registry st"
    ultimately show thesis using that [OF run] by simp
  qed
qed

end
