(* ===== verification/LsmRollbackProps.thy ===== *)
theory LsmRollbackProps
  imports LsmRollback
begin

text \<open>
  What a rollback to a transaction keeps, and three runs in which a successful rollback leaves the storage engine in
  a state that no run of the transactions up to the target gives: a value of the target is gone, an older value
  covers a newer one, and the validation misses a conflict.
\<close>

section \<open>Transactions of one small put\<close>

definition idle :: "(u64 \<times> read_set) list \<Rightarrow> kv tx_buffer" where
  "idle rs = \<lparr>tb_shards = [\<lparr>ts_ops = [], ts_read_sets = rs, ts_staged = []\<rparr>], tb_key_shards = [[]],
     tb_config = default_config, tb_global = 0\<rparr>"

definition busy :: "(u64 \<times> read_set) list \<Rightarrow> u64 \<Rightarrow> u64 \<Rightarrow> u8 \<Rightarrow> u8 \<Rightarrow> kv tx_buffer" where
  "busy rs tx d a b =
     \<lparr>tb_shards = [\<lparr>ts_ops = [(tx, [OpInsert d ([a], [b])], 0)], ts_read_sets = rs, ts_staged = [(tx, 34)]\<rparr>],
      tb_key_shards = [[([a], [(tx, True)])]], tb_config = default_config, tb_global = 34\<rparr>"

lemmas buffer_defs = idle_def busy_def default_config_def TxBuffer.get_at_def shard_idx_def key_shard_idx_def
  or_insert_def lookup_or_def set_shard_def Let_def

lemma idle_new: "tx_buffer_new 1 default_config = idle []"
  by (simp add: tx_buffer_new_def tx_shard_new_def idle_def)

lemma idle_put: "stage_kv h (idle rs) tx (OpInsert d ([a], [b])) 0 = (busy rs tx d a b, Inr ())"
  by (simp add: stage_kv_def track_key_stage_def stage_bounded_def kv_size_def
      TxBuffer.STAGING_ENTRY_OVERHEAD_BYTES_def buffer_defs)

lemma busy_drain: "drain_kv h (busy rs tx d a b) tx = (idle (AList.delete tx rs), [OpInsert d ([a], [b])])"
  by (simp add: drain_kv_def drain_def remove_tx_def untrack_key_ops_kv_def untrack_key_def kv_size_def
      TxBuffer.STAGING_ENTRY_OVERHEAD_BYTES_def buffer_defs)

lemma busy_read_set: "get_read_set (busy rs tx d a b) tx = map_of rs tx"
  by (simp add: get_read_set_def buffer_defs)

lemma idle_read:
  "register_read (idle rs) tx k s =
     idle (AList.update tx (record_read (lookup_or read_set_new rs tx) k s) rs)"
  by (simp add: register_read_def buffer_defs)

definition with_commit :: "u64 \<Rightarrow> u8 \<Rightarrow> u8 \<Rightarrow> (u64 \<times> read_set) list \<Rightarrow> lsm \<Rightarrow> lsm" where
  "with_commit tx a b rs st =
     st\<lparr>ls_mem := mt_put (ls_mem st) [a] [b] (ls_next_seq st) tx,
        ls_txb := idle (AList.delete tx rs),
        ls_ssi := record_commit_key (ls_ssi st) [a] (mask_seq (ls_next_seq st)),
        ls_next_seq := ls_next_seq st + 2,
        ls_committed_tx := max (ls_committed_tx st) tx,
        ls_applied_seq := max (ls_applied_seq st) (mask_seq (ls_next_seq st))\<rparr>"

lemma small_put:
  assumes "ls_txb st = idle rs"
  shows "lsm_exec p (Do_put True 0 tx [a] [b]) st = (st\<lparr>ls_txb := busy rs tx (lp_doc_id p [a]) a b\<rparr>, Accepted)"
  by (simp add: lsm_put_def validate_key_def validate_value_def MAX_KEY_SIZE_def MAX_VALUE_SIZE_def stage_result_def
      assms idle_put)

lemma put_refused:
  assumes "ls_txb st = idle rs" and "ls_locks st = []" and "map_of rs tx = Some r" and "\<not> read_set_is_empty r"
    and "validate (lp_doc_id p) (ls_ssi st) tx r = Inl e"
  shows "lsm_run p [Do_put True 0 tx [a] [b], Do_commit True Appended tx] st =
    (st\<lparr>ls_txb := idle (AList.delete tx rs)\<rparr>, [Accepted, Refused (Conflict e)])"
proof -
  have "lsm_exec p (Do_commit True Appended tx) (st\<lparr>ls_txb := busy rs tx (lp_doc_id p [a]) a b\<rparr>) =
      (st\<lparr>ls_txb := idle (AList.delete tx rs)\<rparr>, Refused (Conflict e))"
    using assms by (simp add: lsm_commit_def busy_drain busy_read_set cleanup_intent_locks_def answer_def)
  then show ?thesis by (simp add: small_put [OF assms(1)] del: lsm_exec.simps)
qed

lemma put_commit:
  assumes "ls_txb st = idle rs" and "ls_locks st = []" and "tx \<noteq> 0" and "tx < INTERNAL_BASE"
    and "case map_of rs tx of None \<Rightarrow> True | Some r \<Rightarrow> validate (lp_doc_id p) (ls_ssi st) tx r = Inr ()"
  shows "lsm_run p (Do_put True 0 tx [a] [b] # Do_commit True Appended tx # ops) st =
    map_prod id (\<lambda>outs. Accepted # Accepted # outs) (lsm_run p ops (with_commit tx a b rs st))"
proof -
  note put = small_put [OF assms(1), of p tx a b]
  have "lsm_exec p (Do_commit True Appended tx) (st\<lparr>ls_txb := busy rs tx (lp_doc_id p [a]) a b\<rparr>) =
      (with_commit tx a b rs st, Accepted)"
    using assms by (auto simp: lsm_commit_def busy_drain busy_read_set cleanup_intent_locks_def prepare_commit_ops_def
        single_commit_path_def apply_mem_updates_def advance_visibility_def with_commit_def Let_def split: option.splits)
  then show ?thesis by (simp add: put case_prod_beta map_prod_def del: lsm_exec.simps)
qed

lemma start_fields:
  "ls_mem example_start = mem_table_new" "ls_imm example_start = []" "ls_ssts example_start = []"
  "ls_txb example_start = idle []" "ls_ssi example_start = new_with_bounds 100" "ls_registry example_start = registry_new"
  "ls_next_seq example_start = 1" "ls_committed_tx example_start = 0" "ls_applied_seq example_start = 0"
  "ls_locks example_start = []"
  by (simp_all add: example_start_def lsm_new_def idle_new [unfolded One_nat_def])

definition two_puts :: "lsm_op list" where
  "two_puts =
     [Do_put True 0 1 [107] [1], Do_commit True Appended 1, Do_put True 0 2 [107] [2], Do_commit True Appended 2]"

definition two_commits :: lsm where
  "two_commits = with_commit 2 107 2 [] (with_commit 1 107 1 [] example_start)"

lemma user_txs: "(1 :: u64) < INTERNAL_BASE" "(2 :: u64) < INTERNAL_BASE" "(3 :: u64) < INTERNAL_BASE" "(4 :: u64) < INTERNAL_BASE"
  "(7 :: u64) < INTERNAL_BASE" "(8 :: u64) < INTERNAL_BASE" "(9 :: u64) < INTERNAL_BASE"
  by (simp_all add: INTERNAL_BASE_def U64_MAX_def word_less_nat_alt)

lemma run_two_puts:
  "lsm_run example_params (two_puts @ ops) example_start =
     map_prod id (\<lambda>outs. Accepted # Accepted # Accepted # Accepted # outs) (lsm_run example_params ops two_commits)"
proof -
  let ?st = "with_commit 1 107 1 [] example_start"
  have 1: "lsm_run example_params (Do_put True 0 1 [107] [1] # Do_commit True Appended 1 # ops) example_start =
      map_prod id (\<lambda>outs. Accepted # Accepted # outs) (lsm_run example_params ops ?st)" for ops
    by (rule put_commit) (simp_all add: start_fields user_txs)
  have 2: "lsm_run example_params (Do_put True 0 2 [107] [2] # Do_commit True Appended 2 # ops) ?st =
      map_prod id (\<lambda>outs. Accepted # Accepted # outs) (lsm_run example_params ops two_commits)"
    unfolding two_commits_def
    by (rule put_commit) (simp_all add: start_fields user_txs with_commit_def)
  show ?thesis unfolding two_puts_def append_Cons append_Nil 1 2 by (simp add: map_prod_def case_prod_beta)
qed

lemma mask_small [simp]: "mask_seq 2 = 2" "mask_seq 5 = 5" "mask_seq 7 = 7"
  by (simp_all add: TOMBSTONE_BIT_def)

lemma mask_small' [simp]: "mask_seq 1 = 1" "mask_seq 3 = 3"
  by (simp_all add: TOMBSTONE_BIT_def)

lemma live_small: "live_value (v, 1, t) = Some v" "live_value (v, 3, t) = Some v" "live_value (v, 5, t) = Some v"
  by (simp_all add: live_value_def TOMBSTONE_BIT_def)

lemma two_commits_fields:
  "ls_mem two_commits = mt_put (mt_put mem_table_new [107] [1] 1 1) [107] [2] 3 2" "ls_imm two_commits = []"
  "ls_ssts two_commits = []" "ls_txb two_commits = idle []"
  "ls_ssi two_commits = record_commit_key (record_commit_key (new_with_bounds 100) [107] 1) [107] 3"
  "ls_registry two_commits = registry_new" "ls_next_seq two_commits = 5" "ls_committed_tx two_commits = 2"
  "ls_applied_seq two_commits = 3" "ls_locks two_commits = []"
  by (simp_all add: two_commits_def with_commit_def start_fields)

lemmas mem_table_defs = mt_put_def mem_table_new_def SHARD_COUNT_def shard_for_def matching_reserved_prefix_def
  UNDERSCORES_def insert_version_def MemTable.STAGING_ENTRY_OVERHEAD_BYTES_def raw_seq_def

lemma concat_one: "i < n \<Longrightarrow> f [] = [] \<Longrightarrow> concat (map f ((replicate n [])[i := es])) = f es"
  by (induction n arbitrary: i) (auto split: nat.splits)

lemma two_commits_iter: "mt_iter (ls_mem two_commits) = [([107], [1], 1, 1), ([107], [2], 3, 2)]"
  by (simp add: two_commits_fields mem_table_defs mt_iter_def concat_one Let_def)

section \<open>A value that is gone\<close>

lemma example_write:
  assumes "entries_sorted es" and "\<forall>e \<in> set es. entry_valid e \<and> length (fst (snd e)) \<le> READABLE_VALUE" and "cost es + 4 < 2 ^ 64"
  obtains rd where "write_file example_params es = Inr rd" and "sst_input (lp_blake3 example_params) (lp_crc32 example_params) rd es"
proof -
  let ?b3 = "lp_blake3 example_params" and ?crc = "lp_crc32 example_params"
  have km: "lp_km example_params = None" by (simp add: example_params_def)
  obtain bs meta where wr: "sst_write ?b3 ?crc None (lp_bits example_params) (lp_hashes example_params) 4 es = Inr (bs, meta)"
    using sst_write_cases [of 4 es ?b3 ?crc] assms by fastforce
  obtain rd where "sst_open ?crc None bs = Inr rd"
    using written_readable [OF km_ok_None _ wr] assms(2) by auto
  with wr have w: "write_file example_params es = Inr rd" by (simp add: write_file_def km)
  moreover have "sst_input ?b3 ?crc rd es"
    by (rule write_file_holds [OF _ _ w]) (use assms(2) km_ok_None km in simp_all)
  ultimately show thesis by (rule that)
qed

definition overwritten :: entry where
  "overwritten = ([107], [2], 3, 2)"

lemma max_facts: "U64_MAX \<noteq> 0" "\<not> U64_MAX < n" "\<not> (3 :: u64) \<le> 1" "\<not> (2 :: u64) \<le> 1"
  by (simp add: U64_MAX_def, simp add: not_less, simp_all add: word_le_nat_alt)

lemma small_bounds: "min U64_MAX n = n" "min (3 :: u64) 9 = 3" "max (3 :: u64) 9 = 9" "min (3 :: u64) 1 = 1" "max (3 :: u64) 1 = 3"
  by (simp, simp_all add: min_def max_def word_le_nat_alt)

lemma two_commits_flush: "flush_entries U64_MAX [ls_mem two_commits] = [overwritten]"
  by (simp add: flush_entries_def group_versions_def two_commits_iter lookup_or_def newest_first_def
      retain_key_versions_def overwritten_def)
    (simp add: max_facts)

lemma two_commits_holds: "mem_holds (ls_mem two_commits) [([107], [1], 1, 1), overwritten]"
  using mem_holds_put [OF mem_holds_put [OF mem_holds_new], of "[107]" "[1]" 1 1 "[107]" "[2]" 3 2]
  by (simp add: two_commits_fields overwritten_def)

lemma empty_table: "mt_is_empty mem_table_new" "mt_iter mem_table_new = []" "get_at_seq mem_table_new k s t = None"
proof -
  show "mt_is_empty mem_table_new" using mem_holds_empty [OF mem_holds_new] by simp
  show "mt_iter mem_table_new = []" using mem_holds_iter [OF mem_holds_new] by simp
  show "get_at_seq mem_table_new k s t = None"
    using mem_source.look_newest [OF mem_holds_new, of t k s] by (simp add: mem_look_def newest_def)
qed

lemma one_version:
  assumes "sst_input b3 crc rd [(k, v, s, t)]"
  shows "sm_min_tx (rd_meta rd) = t" and "sm_max_tx (rd_meta rd) = t" and "sm_min_seq (rd_meta rd) = mask_seq s"
    and "sm_max_seq (rd_meta rd) = mask_seq s"
  using sst_input_meta(1-4) [OF assms] by (auto simp: entry_raw_def min_def max_def intro: order_antisym)

text \<open>A flush of one MemTable.\<close>

lemma small_flush:
  assumes "mem_holds (ls_mem st) X" and "X \<noteq> []" and "ls_imm st = []" and "ls_registry st = registry_new"
    and "flush_entries U64_MAX [ls_mem st] = es" and "entries_sorted es"
    and "\<forall>e \<in> set es. entry_valid e \<and> length (fst (snd e)) \<le> READABLE_VALUE" and "cost es + 4 < 2 ^ 64"
  obtains rd st' where "sst_input (lp_blake3 example_params) (lp_crc32 example_params) rd es"
    and "lsm_exec example_params (Do_flush True True) st = (st', Accepted)"
    and "ls_mem st' = mem_table_new" and "ls_imm st' = []" and "ls_ssts st' = sort_files (ls_ssts st @ [rd])"
    and "ls_committed_tx st' = ls_committed_tx (advance_visibility st (sm_max_tx (rd_meta rd)))"
    and "ls_locks st' = ls_locks st" and "ls_txb st' = ls_txb st" and "ls_next_seq st' = ls_next_seq st"
    and "ls_applied_seq st' = ls_applied_seq st" and "ls_registry st' = registry_new"
proof -
  let ?p = example_params
  obtain rd where rd: "write_file ?p es = Inr rd" "sst_input (lp_blake3 ?p) (lp_crc32 ?p) rd es"
    by (rule example_write [OF assms(6-8)])
  have ne: "\<not> mt_is_empty (ls_mem st)" using mem_holds_empty [OF assms(1)] assms(2) by simp
  have "sr_min_active registry_new = U64_MAX" by (simp add: registry_new_def)
  then have fl: "lsm_flush ?p True True st = (install_file (LsmWrite.rotate st) rd, Inr ())"
    by (simp add: lsm_flush_def ne LsmWrite.rotate_def assms(3-5) rd(1))
  show thesis
  proof (rule that [OF rd(2)])
    show "lsm_exec ?p (Do_flush True True) st = (install_file (LsmWrite.rotate st) rd, Accepted)"
      by (simp add: fl answer_def)
  qed (use ne assms(3,4) in
        \<open>simp_all add: install_file_def LsmWrite.rotate_def Let_def advance_visibility_def split: if_splits\<close>)
qed

lemmas small_file = entry_valid_def MAX_VALUE_SIZE_def READABLE_VALUE_def entry_cost_def

lemma two_commits_flushed:
  obtains rd st where "sst_input (lp_blake3 example_params) (lp_crc32 example_params) rd [overwritten]"
    and "lsm_exec example_params (Do_flush True True) two_commits = (st, Accepted)"
    and "ls_mem st = mem_table_new" and "ls_imm st = []" and "ls_ssts st = [rd]"
  by (rule small_flush [OF two_commits_holds _ _ _ two_commits_flush])
    (simp_all add: two_commits_fields(2-) overwritten_def small_file sort_files_def)


section \<open>A conflict that is missed\<close>

lemma coarsen_small: "tracked_count w < threshold \<Longrightarrow> coarsen_rounds n threshold w = w"
  by (cases n) simp_all

definition lost_update :: "lsm_op list" where
  "lost_update =
     [Do_get_tracked 7 [107], Do_put True 0 8 [107] [9], Do_commit True Appended 8,
      Do_put True 0 7 [107] [7], Do_commit True Appended 7]"

abbreviation read_107 :: "u64 \<Rightarrow> read_set" where
  "read_107 s \<equiv> \<lparr>rs_keys = [([107], s)], rs_prefixes = [], rs_min_snapshot_seq = Some s\<rparr>"

lemma tracked_get:
  assumes "ls_txb st = idle []" and "mem_holds (ls_mem st) [([107], [1], 1, 1)]" and "ls_committed_tx st = 1"
    and "1 \<le> ls_applied_seq st" and "mask_seq (ls_applied_seq st) = ls_applied_seq st"
  shows "lsm_exec p (Do_get_tracked 7 [107]) st =
    (st\<lparr>ls_txb := idle [(7, read_107 (ls_applied_seq st))]\<rparr>, Found (Some [1]))"
proof -
  have "get_at_seq (ls_mem st) [107] (ls_applied_seq st) 1 = Some ([1], 1, 1)"
    using mem_source.look_newest [OF assms(2), of 1 "[107]" "ls_applied_seq st"] assms(4,5)
    by (simp add: mem_look_def newest_def entry_raw_def tx_seen_def)
  then show ?thesis
    by (simp add: get_tracked_def get_at_seq_tracked_def lsm_get_at_seq_def validate_key_def MAX_KEY_SIZE_def assms
        idle_read lookup_or_def record_read_def keep_least_def least_seq_def read_set_new_def live_small Let_def)
qed

lemmas register_defs = record_commit_key_def new_with_bounds_def check_and_coarsen_if_needed_def coarsen_small cw_insert_def
  cw_new_def Let_def add_to_bucket_def tracked_count_def coarsened_prefix_count_def

text \<open>After the transactions 1 and 2 and a rollback to 1.\<close>

lemma two_commits_rolled:
  obtains st where "rollback_to_tx example_params True True two_commits 1 = (st, Inr ())"
    and "mem_holds (ls_mem st) [([107], [1], 1, 1)]" and "ls_ssts st = []" and "ls_imm st = []" and "ls_txb st = idle []"
    and "ls_ssi st = ls_ssi two_commits" and "ls_next_seq st = 2" and "ls_committed_tx st = 1" and "ls_applied_seq st = 3"
    and "ls_locks st = []"
proof -
  let ?mt = "prune_memtable_above_tx 1 (ls_mem two_commits)"
  have held: "mem_holds ?mt [([107], [1], 1, 1)]"
    using mem_holds_prune [OF two_commits_holds, of 1] by (simp add: upto_tx_def overwritten_def max_facts)
  from mem_holds_iter [OF this] have iter: "mt_iter ?mt = [([107], [1], 1, 1)]" by simp
  show thesis
  proof (rule rollback_succeeds [of example_params True 1 two_commits ?mt "[]"])
    show "salvage_all example_params True 1 (filter (spanning_file 1) (ls_ssts two_commits))
        (?mt, filter (\<lambda>rd. \<not> above_file 1 rd \<and> \<not> spanning_file 1 rd) (ls_ssts two_commits)) = ((?mt, []), Inr ())"
      by (simp add: two_commits_fields)
    fix st
    assume st: "rollback_to_tx example_params True True two_commits 1 = (st, Inr ())" "ls_mem st = ?mt"
      "ls_ssts st = sort_files []" "ls_imm st = map (prune_memtable_above_tx 1) (ls_imm two_commits)"
      "ls_next_seq st = max_seq_of st + 1" "ls_committed_tx st = 1"
      "ls_locks st = filter (\<lambda>l. snd l \<le> 1) (ls_locks two_commits)" "ls_applied_seq st = ls_applied_seq two_commits"
      "ls_txb st = ls_txb two_commits" "ls_ssi st = ls_ssi two_commits"
    show thesis
      by (rule that [OF st(1)]) (simp_all add: st(2-) held iter max_seq_of_def sort_files_def two_commits_fields(2-))
  qed
qed

lemma lost_update_run:
  assumes "ls_txb st = idle []" and "mem_holds (ls_mem st) [([107], [1], 1, 1)]" and "ls_committed_tx st = 1"
    and "1 \<le> ls_applied_seq st" and "mask_seq (ls_applied_seq st) = ls_applied_seq st" and "ls_locks st = []"
  shows "snd (lsm_run p lost_update st) = [Found (Some [1]), Accepted, Accepted, Accepted,
    (case validate (lp_doc_id p) (record_commit_key (ls_ssi st) [107] (mask_seq (ls_next_seq st))) 7
        (read_107 (ls_applied_seq st)) of Inl e \<Rightarrow> Refused (Conflict e) | Inr _ \<Rightarrow> Accepted)]" (is "_ = [_, _, _, _, ?last]")
proof -
  let ?rs = "[(7, read_107 (ls_applied_seq st))]" and ?tail = "[Do_put True 0 7 [107] [7], Do_commit True Appended 7]"
  let ?st1 = "st\<lparr>ls_txb := idle ?rs\<rparr>" and ?st2 = "with_commit 8 107 9 ?rs (st\<lparr>ls_txb := idle ?rs\<rparr>)"
  have st2: "ls_txb ?st2 = idle ?rs" "ls_locks ?st2 = []"
    "ls_ssi ?st2 = record_commit_key (ls_ssi st) [107] (mask_seq (ls_next_seq st))" by (simp_all add: with_commit_def assms(6))
  have 1: "lsm_run p (Do_put True 0 8 [107] [9] # Do_commit True Appended 8 # ?tail) ?st1 =
      map_prod id (\<lambda>outs. Accepted # Accepted # outs) (lsm_run p ?tail ?st2)"
    by (rule put_commit) (simp_all add: user_txs assms(6))
  have "snd (lsm_run p ?tail ?st2) = [Accepted, ?last]"
  proof (cases "validate (lp_doc_id p) (ls_ssi ?st2) 7 (read_107 (ls_applied_seq st))")
    case (Inl e)
    have "lsm_run p ?tail ?st2 = (?st2\<lparr>ls_txb := idle (AList.delete 7 ?rs)\<rparr>, [Accepted, Refused (Conflict e)])"
      by (rule put_refused [OF st2(1,2) _ _ Inl]) (simp_all add: read_set_is_empty_def)
    with Inl show ?thesis by (simp add: st2(3) del: lsm_run.simps)
  next
    case (Inr u)
    have "lsm_run p (Do_put True 0 7 [107] [7] # Do_commit True Appended 7 # []) ?st2 =
        map_prod id (\<lambda>outs. Accepted # Accepted # outs) (lsm_run p [] (with_commit 7 107 7 ?rs ?st2))"
      by (rule put_commit [OF st2(1,2)]) (use Inr in \<open>simp_all add: user_txs\<close>)
    with Inr show ?thesis by (simp add: st2(3) del: lsm_run.simps(2))
  qed
  then show ?thesis unfolding lost_update_def lsm_run.simps(2) [of p "Do_get_tracked 7 [107]"] tracked_get [OF assms(1-5)] Let_def prod.case 1
    by (simp add: case_prod_beta del: lsm_run.simps)
qed

lemmas validate_defs = validate_def validate_internal_def read_set_is_empty_def then_check_def validate_point_reads_def
  validate_point_read_def validate_range_reads_def cw_get_def coarsened_point_check_def validate_sequence_log_for_key_def

text \<open>After a rollback the validation misses conflicts. A rollback sets the sequence numbers back and leaves
  the snapshot of the readers where it was, so the next commits take numbers below it: when a transaction reads a
  key, another overwrites it and commits, and the first writes what it made of the value it read, its commit is
  accepted and the other update is lost. Where the rolled-back transaction never ran, the same operations end
  with a conflict.\<close>

theorem rollback_misses_conflict:
  "(\<exists>st st'. lsm_run example_params two_puts example_start = (st, replicate 4 Accepted) \<and>
      rollback_to_tx example_params True True st 1 = (st', Inr ()) \<and>
      snd (lsm_run example_params lost_update st') = [Found (Some [1]), Accepted, Accepted, Accepted, Accepted]) \<and>
   snd (lsm_run example_params (take 2 two_puts @ lost_update) example_start) =
     [Accepted, Accepted, Found (Some [1]), Accepted, Accepted, Accepted, Refused (Conflict (KeyModified 7 [107] 3 1))]"
proof
  obtain st where st: "rollback_to_tx example_params True True two_commits 1 = (st, Inr ())"
    "mem_holds (ls_mem st) [([107], [1], 1, 1)]" "ls_txb st = idle []" "ls_ssi st = ls_ssi two_commits" "ls_next_seq st = 2"
    "ls_committed_tx st = 1" "ls_applied_seq st = 3" "ls_locks st = []"
    by (rule two_commits_rolled)
  have "lsm_run example_params two_puts example_start = (two_commits, replicate 4 Accepted)"
    using run_two_puts [of "[]"] by (simp add: numeral_eq_Suc)
  moreover have "snd (lsm_run example_params lost_update st) = [Found (Some [1]), Accepted, Accepted, Accepted, Accepted]"
  proof -
    have "validate (lp_doc_id example_params) (record_commit_key (ls_ssi st) [107] (mask_seq (ls_next_seq st))) 7
        (read_107 (ls_applied_seq st)) = Inr ()"
      by (simp add: st two_commits_fields register_defs validate_defs word_less_nat_alt)
    with lost_update_run [of st example_params] show ?thesis by (simp add: st word_le_nat_alt)
  qed
  ultimately show "\<exists>st st'. lsm_run example_params two_puts example_start = (st, replicate 4 Accepted) \<and>
      rollback_to_tx example_params True True st 1 = (st', Inr ()) \<and>
      snd (lsm_run example_params lost_update st') = [Found (Some [1]), Accepted, Accepted, Accepted, Accepted]"
    using st(1) by blast
  show "snd (lsm_run example_params (take 2 two_puts @ lost_update) example_start) =
     [Accepted, Accepted, Found (Some [1]), Accepted, Accepted, Accepted, Refused (Conflict (KeyModified 7 [107] 3 1))]"
  proof -
    let ?st = "with_commit 1 107 1 [] example_start"
    have st: "ls_txb ?st = idle []" "mem_holds (ls_mem ?st) [([107], [1], 1, 1)]" "ls_committed_tx ?st = 1"
      "ls_applied_seq ?st = 1" "ls_locks ?st = []" "ls_next_seq ?st = 3" "ls_ssi ?st = record_commit_key (new_with_bounds 100) [107] 1"
      using mem_holds_put [OF mem_holds_new, of "[107]" "[1]" 1 1] by (simp_all add: with_commit_def start_fields)
    have "validate (lp_doc_id example_params) (record_commit_key (ls_ssi ?st) [107] (mask_seq (ls_next_seq ?st))) 7
        (read_107 (ls_applied_seq ?st)) = Inl (KeyModified 7 [107] 3 1)"
      by (simp add: st register_defs validate_defs word_less_nat_alt)
    moreover have "lsm_run example_params (Do_put True 0 1 [107] [1] # Do_commit True Appended 1 # lost_update) example_start =
        map_prod id (\<lambda>outs. Accepted # Accepted # outs) (lsm_run example_params lost_update ?st)"
      by (rule put_commit) (simp_all add: start_fields user_txs)
    ultimately show ?thesis
      using lost_update_run [of ?st example_params] by (simp add: st two_puts_def del: lsm_run.simps)
  qed
qed

section \<open>An older value that covers a newer one\<close>

definition older_puts :: "lsm_op list" where
  "older_puts =
     [Do_put True 0 9 [108] [1], Do_commit True Appended 9, Do_put True 0 3 [107] [1], Do_commit True Appended 3,
      Do_flush True True, Do_put True 0 4 [107] [2], Do_commit True Appended 4, Do_get [107], Do_flush True True]"

definition older_file :: "entry list" where
  "older_file = [([107], [1], 3, 3), ([108], [1], 1, 9)]"

lemma older_first:
  obtains rd st where "sst_input (lp_blake3 example_params) (lp_crc32 example_params) rd older_file"
    and "lsm_run example_params (take 5 older_puts @ ops) example_start =
      map_prod id (\<lambda>outs. replicate 5 Accepted @ outs) (lsm_run example_params ops st)"
    and "ls_mem st = mem_table_new" and "ls_imm st = []" and "ls_ssts st = [rd]" and "ls_committed_tx st = 9"
    and "ls_locks st = []" and "ls_txb st = idle []" and "ls_next_seq st = 5" and "ls_applied_seq st = 3"
    and "ls_registry st = registry_new"
proof -
  let ?p = example_params and ?a = "with_commit 9 108 1 [] example_start"
  let ?b = "with_commit 3 107 1 [] ?a"
  have 1: "lsm_run ?p (Do_put True 0 9 [108] [1] # Do_commit True Appended 9 # ops) example_start =
      map_prod id (\<lambda>outs. Accepted # Accepted # outs) (lsm_run ?p ops ?a)" for ops
    by (rule put_commit) (simp_all add: start_fields user_txs)
  have 2: "lsm_run ?p (Do_put True 0 3 [107] [1] # Do_commit True Appended 3 # ops) ?a =
      map_prod id (\<lambda>outs. Accepted # Accepted # outs) (lsm_run ?p ops ?b)" for ops
    by (rule put_commit) (simp_all add: start_fields user_txs with_commit_def)
  have b: "ls_mem ?b = mt_put (mt_put mem_table_new [108] [1] 1 9) [107] [1] 3 3" "ls_imm ?b = []" "ls_ssts ?b = []"
    "ls_committed_tx ?b = 9" "ls_locks ?b = []" "ls_txb ?b = idle []" "ls_next_seq ?b = 5" "ls_applied_seq ?b = 3"
    "ls_registry ?b = registry_new"
    by (simp_all add: with_commit_def start_fields max_def word_le_nat_alt)
  have held: "mem_holds (ls_mem ?b) [([108], [1], 1, 9), ([107], [1], 3, 3)]"
    using mem_holds_put [OF mem_holds_put [OF mem_holds_new], of "[108]" "[1]" 1 9 "[107]" "[1]" 3 3] by (simp add: b(1))
  have iter: "mt_iter (ls_mem ?b) = older_file"
    by (simp add: b(1) mem_table_defs mt_iter_def concat_one Let_def older_file_def)
  have fl: "flush_entries U64_MAX [ls_mem ?b] = older_file"
    by (simp add: flush_entries_def group_versions_def iter older_file_def lookup_or_def newest_first_def
        retain_key_versions_def max_facts)
  show thesis
  proof (rule small_flush [OF held _ b(2,9) fl])
    fix rd st
    assume st: "sst_input (lp_blake3 ?p) (lp_crc32 ?p) rd older_file" "lsm_exec ?p (Do_flush True True) ?b = (st, Accepted)"
      "ls_mem st = mem_table_new" "ls_imm st = []" "ls_ssts st = sort_files (ls_ssts ?b @ [rd])"
      "ls_committed_tx st = ls_committed_tx (advance_visibility ?b (sm_max_tx (rd_meta rd)))"
      "ls_locks st = ls_locks ?b" "ls_txb st = ls_txb ?b" "ls_next_seq st = ls_next_seq ?b"
      "ls_applied_seq st = ls_applied_seq ?b" "ls_registry st = registry_new"
    have "sm_max_tx (rd_meta rd) = 9"
      using sst_input_meta(4) [OF st(1)] by (simp add: older_file_def max_def word_le_nat_alt)
    then have tx: "ls_committed_tx st = 9" by (simp add: st(6) advance_visibility_def user_txs b(4))
    have "lsm_run ?p (take 5 older_puts @ ops) example_start =
        map_prod id (\<lambda>outs. replicate 5 Accepted @ outs) (lsm_run ?p ops st)"
      by (simp add: older_puts_def 1 2 lsm_run.simps(2) [of ?p "Do_flush True True"] st(2) case_prod_beta map_prod_def
          numeral_eq_Suc del: lsm_exec.simps lsm_run.simps(2))
    then show thesis by (rule that [OF st(1)]) (simp_all add: st(3-5,7-) tx b sort_files_def)
  qed (simp_all add: older_file_def small_file entry_before_def max_facts)
qed

text \<open>A rollback can cover a newer value by an older one. The transaction numbers need not follow the order of the
  commits. When a file holds transactions on both sides of the target, the few versions that are left of it go to the
  MemTable, which is read before every file: a key that a later file gave a newer value, of a transaction that is
  also kept, has the older value after the rollback.\<close>

theorem rollback_returns_older:
  "\<exists>st st'. lsm_run example_params older_puts example_start =
       (st, replicate 7 Accepted @ [Found (Some [2]), Accepted]) \<and>
     rollback_to_tx example_params True True st 5 = (st', Inr ()) \<and>
     lsm_get example_params st' [107] = Inr (Some [1])"
proof (rule older_first)
  let ?p = example_params
  fix rd1 st1
  assume rd1: "sst_input (lp_blake3 ?p) (lp_crc32 ?p) rd1 older_file"
    and run1: "lsm_run ?p (take 5 older_puts @ drop 5 older_puts) example_start =
      map_prod id (\<lambda>outs. replicate 5 Accepted @ outs) (lsm_run ?p (drop 5 older_puts) st1)"
    and st1: "ls_mem st1 = mem_table_new" "ls_imm st1 = []" "ls_ssts st1 = [rd1]" "ls_committed_tx st1 = 9"
      "ls_locks st1 = []" "ls_txb st1 = idle []" "ls_next_seq st1 = 5" "ls_applied_seq st1 = 3" "ls_registry st1 = registry_new"
  let ?st2 = "with_commit 4 107 2 [] st1"
  have run2: "lsm_run ?p (Do_put True 0 4 [107] [2] # Do_commit True Appended 4 # ops) st1 =
      map_prod id (\<lambda>outs. Accepted # Accepted # outs) (lsm_run ?p ops ?st2)" for ops
    by (rule put_commit) (simp_all add: st1 user_txs)
  have st2: "ls_mem ?st2 = mt_put mem_table_new [107] [2] 5 4" "ls_imm ?st2 = []" "ls_ssts ?st2 = [rd1]"
    "ls_committed_tx ?st2 = 9" "ls_applied_seq ?st2 = 5" "ls_registry ?st2 = registry_new"
    by (simp_all add: with_commit_def st1 max_def word_le_nat_alt)
  have held: "mem_holds (ls_mem ?st2) [([107], [2], 5, 4)]"
    using mem_holds_put [OF mem_holds_new, of "[107]" "[2]" 5 4] by (simp add: st2(1))
  have "get_at_seq (ls_mem ?st2) [107] 5 9 = Some ([2], 5, 4)"
    using mem_source.look_newest [OF held, of 9 "[107]" 5]
    by (simp add: mem_look_def newest_def entry_raw_def tx_seen_def word_le_nat_alt)
  then have get2: "lsm_exec ?p (Do_get [107]) ?st2 = (?st2, Found (Some [2]))"
    by (simp add: lsm_get_def lsm_get_at_seq_def validate_key_def MAX_KEY_SIZE_def st2(2,4,5) live_small answer_def)
  have fl: "flush_entries U64_MAX [ls_mem ?st2] = [([107], [2], 5, 4)]"
    using mem_holds_iter [OF held]
    by (simp add: flush_entries_def group_versions_def lookup_or_def newest_first_def retain_key_versions_def max_facts)
  show ?thesis
  proof (rule small_flush [OF held _ st2(2,6) fl])
    fix rd2 st3
    assume rd2: "sst_input (lp_blake3 ?p) (lp_crc32 ?p) rd2 [([107], [2], 5, 4)]"
      and flush: "lsm_exec ?p (Do_flush True True) ?st2 = (st3, Accepted)"
      and st3: "ls_mem st3 = mem_table_new" "ls_imm st3 = []" "ls_ssts st3 = sort_files (ls_ssts ?st2 @ [rd2])"
        "ls_applied_seq st3 = ls_applied_seq ?st2"
    note m2 = one_version [OF rd2]
    have m1: "sm_min_tx (rd_meta rd1) = 3" "sm_max_tx (rd_meta rd1) = 9" "sm_max_seq (rd_meta rd1) = 3"
      using sst_input_meta [OF rd1] by (simp_all add: older_file_def entry_raw_def small_bounds)
    have files: "ls_ssts st3 = [rd1, rd2]" by (simp add: st3(3) st2(3) sort_files_def m1 m2 word_le_nat_alt)
    have run: "lsm_run ?p older_puts example_start = (st3, replicate 7 Accepted @ [Found (Some [2]), Accepted])"
      using run1 by (simp add: older_puts_def run2 lsm_run.simps(2) [of ?p "Do_get [107]"] lsm_run.simps(2) [of ?p "Do_flush True True"]
          get2 flush case_prod_beta map_prod_def numeral_eq_Suc del: lsm_exec.simps lsm_run.simps(2))
    have prune: "prune_memtable_above_tx 5 mem_table_new = mem_table_new"
      by (simp add: prune_memtable_above_tx_def empty_table)
    have left: "upto_tx 5 older_file = [([107], [1], 3, 3)]" by (simp add: upto_tx_def older_file_def word_le_nat_alt)
    have "salvage ?p True 5 rd1 (mem_table_new, [rd2]) = ((mt_put mem_table_new [107] [1] 3 3, [rd2]), Inr ())"
      by (simp add: salvage_def sst_input_stream [OF rd1] upto_tx_eq left MIN_ENTRIES_FOR_SSTABLE_REBUILD_def)
    then have sv: "salvage_all ?p True 5 (filter (spanning_file 5) (ls_ssts st3))
        (prune_memtable_above_tx 5 (ls_mem st3), filter (\<lambda>rd. \<not> above_file 5 rd \<and> \<not> spanning_file 5 rd) (ls_ssts st3)) =
        ((mt_put mem_table_new [107] [1] 3 3, [rd2]), Inr ())"
      by (simp add: files m1 m2 st3(1) prune word_le_nat_alt word_less_nat_alt)
    obtain st4 where rolled: "rollback_to_tx ?p True True st3 5 = (st4, Inr ())" and st4: "ls_mem st4 = mt_put mem_table_new [107] [1] 3 3"
      "ls_committed_tx st4 = 5" "ls_applied_seq st4 = 5"
      by (rule rollback_succeeds [OF sv]) (simp add: st3(4) st2(5))
    have "get_at_seq (mt_put mem_table_new [107] [1] 3 3) [107] 5 5 = Some ([1], 3, 3)"
      using mem_source.look_newest [OF mem_holds_put [OF mem_holds_new], of "[107]" "[1]" 3 3 5 "[107]" 5]
      by (simp add: mem_look_def newest_def entry_raw_def tx_seen_def word_le_nat_alt)
    then have "lsm_get ?p st4 [107] = Inr (Some [1])"
      by (simp add: lsm_get_def lsm_get_at_seq_def validate_key_def MAX_KEY_SIZE_def st4 live_small)
    with run rolled show ?thesis by blast
  qed (simp_all add: small_file)
qed

section \<open>What is kept\<close>

text \<open>C6: a rollback to a transaction keeps exactly the versions of the transactions up to the target. When it
  succeeds, the files and MemTables hold each version of such a transaction as often as before and no other,
  no later transaction holds a lock, the target is the last visible transaction, and the next sequence number
  is above every version that is left.\<close>

theorem rollback_keeps_exactly:
  assumes "km_ok (lp_km p)" and "holds_versions p st es"
    and "rollback_to_tx p wal_ok manifest_ok st target = (st', Inr ())"
  shows "holds_versions p st' (filter (\<lambda>e. tx_of e \<le> target) es) \<and> ls_committed_tx st' = target \<and>
    (\<forall>(key, tx) \<in> set (ls_locks st'). tx \<le> target) \<and>
    (\<forall>e \<in> set es. tx_of e \<le> target \<longrightarrow> entry_raw e < ls_next_seq st')"
proof -
  let ?inp = "sst_input (lp_blake3 p) (lp_crc32 p)"
  obtain cs ms where cs: "list_all2 ?inp (ls_ssts st) cs"
    and ms: "list_all2 mem_holds (ls_imm st @ [ls_mem st]) ms" and es: "mset (concat (cs @ ms)) = mset es"
    using assms(2) by (auto simp: holds_versions_def)
  then obtain ims m where m: "ms = ims @ [m]" and imm: "list_all2 mem_holds (ls_imm st) ims" and mem: "mem_holds (ls_mem st) m"
    by (auto simp: list_all2_append1 list_all2_Cons1)
  from assms(3) show ?thesis
  proof (rule rollback_result)
    fix ssts
    assume sv: "salvage_all p manifest_ok target (filter (spanning_file target) (ls_ssts st))
        (prune_memtable_above_tx target (ls_mem st),
         filter (\<lambda>rd. \<not> above_file target rd \<and> \<not> spanning_file target rd) (ls_ssts st)) = ((ls_mem st', ssts), Inr ())"
      and st': "ls_ssts st' = sort_files ssts" "ls_imm st' = map (prune_memtable_above_tx target) (ls_imm st)"
        "ls_next_seq st' = max_seq_of st' + 1" "ls_committed_tx st' = target"
        "ls_locks st' = filter (\<lambda>l. snd l \<le> target) (ls_locks st)"
    obtain ks ws where parts: "list_all2 ?inp (filter (\<lambda>rd. \<not> above_file target rd \<and> \<not> spanning_file target rd) (ls_ssts st)) ks"
      "list_all2 ?inp (filter (spanning_file target) (ls_ssts st)) ws"
      "mset (upto_tx target (concat cs)) = mset (concat ks) + mset (upto_tx target (concat ws))"
      using rollback_parts [OF cs, of target] by blast
    obtain X cs' where X: "mem_holds (ls_mem st') X" "list_all2 ?inp ssts cs'"
      "mset X + mset (concat cs') = mset (upto_tx target m) + mset (concat ks) + mset (upto_tx target (concat ws))"
      using salvage_all_holds [OF assms(1) parts(2) mem_holds_prune [OF mem] parts(1) sv] by blast
    obtain cs'' where cs'': "list_all2 ?inp (sort_files ssts) cs''" "mset (concat cs'') = mset (concat cs')"
      using sort_files_holds [OF X(2)] by blast
    have imm': "list_all2 mem_holds (ls_imm st') (map (upto_tx target) ims)"
      using imm unfolding st'(2) list_all2_map1 list_all2_map2
      by (rule list_all2_mono) (rule mem_holds_prune)
    have flat: "concat (map (upto_tx target) ims) = upto_tx target (concat ims)" by (induction ims) (simp_all add: upto_tx_def)
    have "mset (concat (cs'' @ map (upto_tx target) ims @ [X])) = mset (upto_tx target (concat (cs @ ms)))"
      using X(3) parts(3) cs''(2) by (simp add: flat m ac_simps)
    also have "\<dots> = mset (upto_tx target es)" using es by (simp only: upto_tx_def mset_filter)
    finally have held: "holds_versions p st' (upto_tx target es)"
      using cs''(1) imm' X(1) unfolding holds_versions_def st'(1)
      by (intro exI [of _ cs''] exI [of _ "map (upto_tx target) ims @ [X]"]) (simp add: list_all2_appendI)
    have "entry_raw e < ls_next_seq st'" if "e \<in> set es" "tx_of e \<le> target" for e
    proof -
      have "e \<in> set (upto_tx target es)" using that by (simp add: upto_tx_def)
      note b = max_seq_of_bound [OF held this]
      have "max_seq_of st' = mask_seq (max_seq_of st')" using b(2) mask_seq_le [of "max_seq_of st'"] by auto
      then have "max_seq_of st' \<noteq> U64_MAX" by (metis mask_seq_neq_max)
      then have "max_seq_of st' < max_seq_of st' + 1" by (rule less_Suc_word)
      with b(1) show ?thesis by (simp add: st'(3))
    qed
    with held show ?thesis by (auto simp: st'(4,5) upto_tx_def)
  qed
qed

lemma rollback_keeps_exactly_witness:
  "\<exists>st. rollback_to_tx example_params True True two_commits 1 = (st, Inr ()) \<and>
     holds_versions example_params st [([107], [1], 1, 1)] \<and> ls_committed_tx st = 1 \<and> 1 < ls_next_seq st"
proof -
  obtain st where run: "rollback_to_tx example_params True True two_commits 1 = (st, Inr ())"
    by (rule two_commits_rolled)
  have "list_all2 mem_holds (ls_imm two_commits @ [ls_mem two_commits]) [[([107], [1], 1, 1), overwritten]]"
    using two_commits_holds by (simp add: two_commits_fields(2-))
  then have "holds_versions example_params two_commits [([107], [1], 1, 1), overwritten]"
    unfolding holds_versions_def
    by - (rule exI [of _ "[]"], rule exI [of _ "[[([107], [1], 1, 1), overwritten]]"], simp add: two_commits_fields(2-))
  from rollback_keeps_exactly [OF example_km this run] run show ?thesis
    by (simp add: overwritten_def max_facts entry_raw_def)
qed

end
