(* ===== verification/Wal.thy ===== *)
theory Wal
  imports SstFile
begin

text \<open>
  Entries of the write-ahead log and how a log is scanned, \<open>contextra-store/src/wal\<close>: the frames
  (\<open>encode.rs\<close>), the chain of HMACs (\<open>contextra-crypto/src/wal_crypto.rs\<close>) and the two scans.

  \<open>scan_stream\<close> is the scan of \<open>io.rs\<close>: it decrypts and verifies the chain. \<open>scan_slice\<close> is the scan of the
  mapped file in \<open>replay.rs\<close>. Its decryption and its verification are compiled only under the feature
  \<open>wal-integrity\<close>, which the manifest of the crate does not declare: what is compiled reads
  every frame as a plain entry and verifies nothing but its CRC. Every replay runs this scan.

  CRC32, HMAC and the cipher are parameters; a file is the list of its bytes, and the reads succeed.
\<close>

section \<open>Entries\<close>

datatype wal_parse_error =
    HeaderTooShort
  | CrcMismatch u32 u32
  | PayloadTruncated
  | OversizedKey
  | OversizedValue nat
  | UnknownOp u8
  | InvalidCommittedByte u8
  | TrailingBytes

datatype wal_error =
    WalSerialization
  | WalCorruption nat
  | WalStorage
  | WalInvalid
  | WalCrypto

datatype wal_op =
    Put u64 bytes bytes
  | Delete u64 bytes
  | TxEnd u64 bool

primrec op_tx_id :: "wal_op \<Rightarrow> u64" where
  "op_tx_id (Put tx key val) = tx"
| "op_tx_id (Delete tx key) = tx"
| "op_tx_id (TxEnd tx committed) = tx"

primrec is_tx_end :: "wal_op \<Rightarrow> bool" where
  "is_tx_end (Put tx key val) = False"
| "is_tx_end (Delete tx key) = False"
| "is_tx_end (TxEnd tx committed) = True"

record wal_entry =
  we_op :: wal_op
  we_seq :: u64
  we_checksum :: bytes
  we_prev :: bytes

text \<open>\<open>b"MFW2"\<close> and \<open>b"MFW3"\<close>\<close>

definition WAL_V2_HEADER :: bytes where
  "WAL_V2_HEADER = [77, 70, 87, 50]"

definition WAL_V3_HEADER :: bytes where
  "WAL_V3_HEADER = [77, 70, 87, 51]"

datatype wal_version = V1 | V2 | V3

definition MAX_WAL_ENTRY_SIZE :: nat where
  "MAX_WAL_ENTRY_SIZE = 67108864"

definition MAX_REPLAY_KEY :: nat where
  "MAX_REPLAY_KEY = 1048576"

abbreviation zero_hmac :: bytes where
  "zero_hmac \<equiv> replicate 32 0"

section \<open>The chain of HMACs\<close>

text \<open>What is not in the repository, and the keys of a log.\<close>

record wal_params =
  wp_crc32 :: "bytes \<Rightarrow> u32"
  wp_hmac :: "bytes \<Rightarrow> bytes \<Rightarrow> bytes"
  wp_km :: "key_manager option"
  wp_km_key :: bytes
  wp_fallback_key :: "bytes option"
  wp_legacy_key :: "bytes option"

definition get_integrity_key :: "wal_params \<Rightarrow> wal_error + bytes" where
  "get_integrity_key p =
     (case wp_km p of
        Some _ \<Rightarrow> Inr (wp_km_key p)
      | None \<Rightarrow> (case wp_fallback_key p of Some key \<Rightarrow> Inr key | None \<Rightarrow> Inl WalStorage))"

text \<open>\<open>b"contextra-wal-v1"\<close>\<close>

definition HMAC_DOMAIN :: bytes where
  "HMAC_DOMAIN = [99, 111, 110, 116, 101, 120, 116, 114, 97, 45, 119, 97, 108, 45, 118, 49]"

definition wal_hmac :: "wal_params \<Rightarrow> bytes \<Rightarrow> bytes list \<Rightarrow> wal_error + bytes" where
  "wal_hmac p key parts =
     (if key = [] \<or> length key > 10000 then Inl WalCrypto
      else Inr (wp_hmac p key (HMAC_DOMAIN @ concat parts)))"

definition flag_byte :: "bool \<Rightarrow> u8" where
  "flag_byte b = (if b then 1 else 0)"

definition compute_checksum_v3 :: "wal_params \<Rightarrow> wal_op \<Rightarrow> u64 \<Rightarrow> bytes \<Rightarrow> bytes \<Rightarrow> wal_error + bytes" where
  "compute_checksum_v3 p op seq key prev =
     wal_hmac p key ([prev, put_u64 seq, put_u64 (op_tx_id op)] @
       (case op of
          Put tx k v \<Rightarrow> [[0], put_u32 (length k), k, put_u32 (length v), v]
        | Delete tx k \<Rightarrow> [[1], put_u32 (length k), k]
        | TxEnd tx committed \<Rightarrow> [[2], [flag_byte committed]]))"

definition compute_checksum_v2 :: "wal_params \<Rightarrow> wal_op \<Rightarrow> u64 \<Rightarrow> bytes \<Rightarrow> bytes \<Rightarrow> wal_error + bytes" where
  "compute_checksum_v2 p op seq key prev =
     wal_hmac p key ([prev, put_u64 seq] @
       (case op of
          Put tx k v \<Rightarrow> [[0], k, v]
        | Delete tx k \<Rightarrow> [[1], k]
        | TxEnd tx committed \<Rightarrow> [[2], [flag_byte committed]]))"

definition try_new :: "wal_params \<Rightarrow> wal_op \<Rightarrow> u64 \<Rightarrow> bytes \<Rightarrow> bytes \<Rightarrow> wal_error + wal_entry" where
  "try_new p op seq key prev =
     bind_res (compute_checksum_v3 p op seq key prev) (\<lambda>checksum.
       Inr \<lparr>we_op = op, we_seq = seq, we_checksum = checksum, we_prev = prev\<rparr>)"

record wal_snapshot =
  sn_tx_id :: u64
  sn_seq_no :: u64
  sn_op_type :: u8
  sn_key :: bytes
  sn_value :: bytes
  sn_checksum :: bytes
  sn_prev_hmac :: bytes

definition snapshot_of :: "wal_entry \<Rightarrow> wal_snapshot" where
  "snapshot_of e =
     (let (op_type, key, val) =
        (case we_op e of
           Put tx k v \<Rightarrow> (0, k, v)
         | Delete tx k \<Rightarrow> (1, k, [])
         | TxEnd tx committed \<Rightarrow> (2, [], [flag_byte committed]))
      in \<lparr>sn_tx_id = op_tx_id (we_op e), sn_seq_no = we_seq e, sn_op_type = op_type, sn_key = key, sn_value = val,
          sn_checksum = we_checksum e, sn_prev_hmac = we_prev e\<rparr>)"

record integrity_verifier =
  iv_last_hmac :: bytes
  iv_key :: bytes
  iv_last_seq :: "u64 option"

definition verifier_new :: "bytes \<Rightarrow> integrity_verifier" where
  "verifier_new key = \<lparr>iv_last_hmac = zero_hmac, iv_key = key, iv_last_seq = None\<rparr>"

definition seq_follows :: "integrity_verifier \<Rightarrow> u64 \<Rightarrow> bool" where
  "seq_follows iv seq =
     (case iv_last_seq iv of None \<Rightarrow> True | Some s \<Rightarrow> \<not> seq \<le> s \<and> \<not> seq > s + 1)"

definition committed_flag :: "bytes \<Rightarrow> u8" where
  "committed_flag val = (if (case val of [] \<Rightarrow> 0 | b # _ \<Rightarrow> b) \<noteq> 0 then 1 else 0)"

definition verify_and_update_v3 ::
  "wal_params \<Rightarrow> integrity_verifier \<Rightarrow> wal_snapshot \<Rightarrow> nat \<Rightarrow> wal_error + integrity_verifier" where
  "verify_and_update_v3 p iv sn offset =
     (if sn_op_type sn > 2 \<or> \<not> seq_follows iv (sn_seq_no sn) then Inl (WalCorruption offset)
      else bind_res (wal_hmac p (iv_key iv) ([iv_last_hmac iv, put_u64 (sn_seq_no sn), put_u64 (sn_tx_id sn)] @
             (if sn_op_type sn = 0
              then [[0], put_u32 (length (sn_key sn)), sn_key sn, put_u32 (length (sn_value sn)), sn_value sn]
              else if sn_op_type sn = 1 then [[1], put_u32 (length (sn_key sn)), sn_key sn]
              else [[2], [committed_flag (sn_value sn)]])))
           (\<lambda>computed.
             if computed \<noteq> sn_checksum sn \<or> sn_prev_hmac sn \<noteq> iv_last_hmac iv then Inl (WalCorruption offset)
             else Inr (iv\<lparr>iv_last_hmac := computed, iv_last_seq := Some (sn_seq_no sn)\<rparr>)))"

definition verify_and_update_v2 ::
  "wal_params \<Rightarrow> integrity_verifier \<Rightarrow> wal_snapshot \<Rightarrow> nat \<Rightarrow> wal_error + integrity_verifier" where
  "verify_and_update_v2 p iv sn offset =
     (if sn_op_type sn > 2 \<or> \<not> seq_follows iv (sn_seq_no sn) then Inl (WalCorruption offset)
      else bind_res (wal_hmac p (iv_key iv) ([iv_last_hmac iv, put_u64 (sn_seq_no sn), [sn_op_type sn]] @
             (if sn_op_type sn = 0 then [sn_key sn, sn_value sn]
              else if sn_op_type sn = 1 then [sn_key sn]
              else [[committed_flag (sn_value sn)]])))
           (\<lambda>computed.
             if computed \<noteq> sn_checksum sn \<or> sn_prev_hmac sn \<noteq> iv_last_hmac iv then Inl (WalCorruption offset)
             else Inr (iv\<lparr>iv_last_hmac := computed, iv_last_seq := Some (sn_seq_no sn)\<rparr>)))"

definition skip_hmac_verify_legacy :: "integrity_verifier \<Rightarrow> wal_snapshot \<Rightarrow> integrity_verifier" where
  "skip_hmac_verify_legacy iv sn = iv\<lparr>iv_last_hmac := sn_checksum sn, iv_last_seq := Some (sn_seq_no sn)\<rparr>"

definition verify_version ::
  "wal_params \<Rightarrow> wal_version \<Rightarrow> integrity_verifier \<Rightarrow> wal_snapshot \<Rightarrow> nat \<Rightarrow> wal_error + integrity_verifier" where
  "verify_version p ver iv sn offset =
     (case ver of
        V3 \<Rightarrow> verify_and_update_v3 p iv sn offset
      | V2 \<Rightarrow> verify_and_update_v2 p iv sn offset
      | V1 \<Rightarrow> Inr (skip_hmac_verify_legacy iv sn))"

text \<open>The verifier and whether it already uses the legacy key.\<close>

definition verify_entry ::
  "wal_params \<Rightarrow> bool \<Rightarrow> wal_version \<Rightarrow> integrity_verifier \<times> bool \<Rightarrow> wal_entry \<Rightarrow> nat \<Rightarrow>
   wal_error + integrity_verifier \<times> bool" where
  "verify_entry p allow_legacy ver acc e offset =
     (case verify_version p ver (fst acc) (snapshot_of e) offset of
        Inr iv \<Rightarrow> Inr (iv, snd acc)
      | Inl err \<Rightarrow>
          (if \<not> snd acc \<and> allow_legacy
           then bind_res (ok_or WalStorage (wp_legacy_key p)) (\<lambda>key.
                  case verify_version p ver ((verifier_new key)\<lparr>iv_last_hmac := iv_last_hmac (fst acc)\<rparr>) (snapshot_of e) offset of
                    Inr iv \<Rightarrow> Inr (iv, True)
                  | Inl _ \<Rightarrow> Inl err)
           else Inl err))"

section \<open>Frames\<close>

definition op_size :: "wal_op \<Rightarrow> nat" where
  "op_size op =
     (case op of
        Put tx key val \<Rightarrow> 1 + 8 + 4 + length key + 4 + length val
      | Delete tx key \<Rightarrow> 1 + 8 + 4 + length key
      | TxEnd tx committed \<Rightarrow> 1 + 8 + 1)"

definition op_bytes :: "wal_op \<Rightarrow> bytes" where
  "op_bytes op =
     (case op of
        Put tx key val \<Rightarrow> [0] @ put_u64 tx @ put_u32 (length key) @ key @ put_u32 (length val) @ val
      | Delete tx key \<Rightarrow> [1] @ put_u64 tx @ put_u32 (length key) @ key
      | TxEnd tx committed \<Rightarrow> [2] @ put_u64 tx @ [flag_byte committed])"

definition to_bytes :: "wal_params \<Rightarrow> wal_entry \<Rightarrow> wal_error + bytes" where
  "to_bytes p e =
     (let total_payload_size = 4 + (8 + 32 + 32 + op_size (we_op e));
          payload = put_u64 (we_seq e) @ we_checksum e @ we_prev e @ op_bytes (we_op e)
      in if total_payload_size > MAX_WAL_ENTRY_SIZE then Inl WalSerialization
         else Inr (put_u32 total_payload_size @ put_u32 (unat (wp_crc32 p payload)) @ payload))"

definition parse_put :: "bytes \<Rightarrow> wal_parse_error + wal_op \<times> nat" where
  "parse_put rem =
     bind_res (ok_or PayloadTruncated (slice rem 0 8)) (\<lambda>tx_bytes.
     bind_res (ok_or PayloadTruncated (slice rem 8 12)) (\<lambda>klen_bytes.
       let key_len = get_le klen_bytes; key_end = 12 + key_len
       in if key_len > MAX_REPLAY_KEY then Inl OversizedKey
          else bind_res (ok_or PayloadTruncated (slice rem 12 key_end)) (\<lambda>key.
               bind_res (ok_or PayloadTruncated (slice rem key_end (key_end + 4))) (\<lambda>vlen_bytes.
                 let val_len = get_le vlen_bytes; val_start = key_end + 4; val_end = val_start + val_len
                 in if val_len > MAX_WAL_ENTRY_SIZE then Inl (OversizedValue MAX_WAL_ENTRY_SIZE)
                    else bind_res (ok_or PayloadTruncated (slice rem val_start val_end)) (\<lambda>val.
                           Inr (Put (word_of_nat (get_le tx_bytes)) key val, val_end))))))"

definition parse_delete :: "bytes \<Rightarrow> wal_parse_error + wal_op \<times> nat" where
  "parse_delete rem =
     bind_res (ok_or PayloadTruncated (slice rem 0 8)) (\<lambda>tx_bytes.
     bind_res (ok_or PayloadTruncated (slice rem 8 12)) (\<lambda>klen_bytes.
       let key_len = get_le klen_bytes; key_end = 12 + key_len
       in if key_len > MAX_REPLAY_KEY then Inl OversizedKey
          else bind_res (ok_or PayloadTruncated (slice rem 12 key_end)) (\<lambda>key.
                 Inr (Delete (word_of_nat (get_le tx_bytes)) key, key_end))))"

definition parse_tx_end :: "bytes \<Rightarrow> wal_parse_error + wal_op \<times> nat" where
  "parse_tx_end rem =
     bind_res (ok_or PayloadTruncated (slice rem 0 8)) (\<lambda>tx_bytes.
     bind_res (ok_or PayloadTruncated (slice rem 8 9)) (\<lambda>flag.
       if hd flag > 1 then Inl (InvalidCommittedByte (hd flag))
       else Inr (TxEnd (word_of_nat (get_le tx_bytes)) (hd flag = 1), 9)))"

definition parse_op :: "u8 \<Rightarrow> bytes \<Rightarrow> wal_parse_error + wal_op \<times> nat" where
  "parse_op op_type rem =
     (if op_type = 0 then parse_put rem
      else if op_type = 1 then parse_delete rem
      else if op_type = 2 then parse_tx_end rem
      else Inl (UnknownOp op_type))"

text \<open>\<open>data\<close> is what follows the length prefix of a frame.\<close>

definition from_bytes_classified :: "wal_params \<Rightarrow> bytes \<Rightarrow> wal_parse_error + wal_entry" where
  "from_bytes_classified p data =
     bind_res (ok_or HeaderTooShort (slice data 0 4)) (\<lambda>crc_bytes.
       let payload = drop 4 data; stored = word_of_nat (get_le crc_bytes); computed = wp_crc32 p payload
       in if stored \<noteq> computed then Inl (CrcMismatch stored computed)
          else bind_res (ok_or PayloadTruncated (slice payload 0 8)) (\<lambda>seq_bytes.
               bind_res (ok_or PayloadTruncated (slice payload 8 40)) (\<lambda>checksum.
               bind_res (ok_or PayloadTruncated (slice payload 40 72)) (\<lambda>prev_hmac.
               bind_res (ok_or PayloadTruncated (slice payload 72 73)) (\<lambda>op_type.
                 let remaining = drop 73 payload
                 in bind_res (parse_op (hd op_type) remaining) (\<lambda>(op, read_bytes).
                      if length remaining > read_bytes then Inl TrailingBytes
                      else Inr \<lparr>we_op = op, we_seq = word_of_nat (get_le seq_bytes),
                                we_checksum = checksum, we_prev = prev_hmac\<rparr>))))))"

definition handle_wal_entry_parse_error :: "wal_parse_error \<Rightarrow> nat \<Rightarrow> nat \<Rightarrow> nat \<Rightarrow> wal_error option" where
  "handle_wal_entry_parse_error err chunk_start pos file_size =
     (case err of
        CrcMismatch stored computed \<Rightarrow> Some (WalCorruption chunk_start)
      | _ \<Rightarrow> if pos \<ge> file_size then None else Some (WalCorruption chunk_start))"

section \<open>The scan of the mapped file\<close>

datatype frame = Frame_none | Frame_bad wal_error | Frame bytes

text \<open>\<open>rest\<close> is the slice from \<open>pos\<close> on.\<close>

definition slice_frame :: "nat \<Rightarrow> nat \<Rightarrow> bytes \<Rightarrow> nat \<Rightarrow> nat \<Rightarrow> frame" where
  "slice_frame file_size slice_len rest pos entries_count =
     (if pos + 4 > slice_len then Frame_none
      else let len = get_le (take 4 rest)
           in if len > MAX_WAL_ENTRY_SIZE
              then if pos + 4 + len > file_size
                   then if entries_count = 0 \<and> file_size > 64 then Frame_bad (WalCorruption pos) else Frame_none
                   else Frame_bad (WalCorruption pos)
              else if pos + 4 + len > file_size \<or> pos + 4 + len > slice_len
              then if entries_count = 0 \<and> file_size > 64 then Frame_bad (WalCorruption pos) else Frame_none
              else Frame (take len (drop 4 rest)))"

text \<open>The version of a file and the length of its header.\<close>

definition detect_version :: "bytes \<Rightarrow> nat \<Rightarrow> wal_version \<times> nat" where
  "detect_version bs file_size =
     (if file_size \<ge> 4 \<and> length bs \<ge> 4
      then if take 4 bs = WAL_V3_HEADER then (V3, 4)
           else if take 4 bs = WAL_V2_HEADER then (V2, 4)
           else (V1, 0)
      else (V1, 0))"

function slice_loop :: "wal_params \<Rightarrow> nat \<Rightarrow> nat \<Rightarrow> bytes \<Rightarrow> nat \<Rightarrow> nat \<Rightarrow> wal_error + (wal_entry \<times> nat) list" where
  "slice_loop p file_size slice_len rest pos entries_count =
     (if pos \<ge> slice_len then Inr []
      else case slice_frame file_size slice_len rest pos entries_count of
             Frame_none \<Rightarrow> Inr []
           | Frame_bad e \<Rightarrow> Inl e
           | Frame data \<Rightarrow>
               (let pos' = pos + 4 + length data
                in case from_bytes_classified p data of
                     Inl err \<Rightarrow>
                       (case handle_wal_entry_parse_error err pos pos' file_size of
                          Some e \<Rightarrow> Inl e
                        | None \<Rightarrow> Inr [])
                   | Inr entry \<Rightarrow>
                       bind_res (slice_loop p file_size slice_len (drop (4 + length data) rest) pos' (entries_count + 1))
                         (\<lambda>es. Inr ((entry, pos') # es))))"
  by pat_completeness auto
termination
  by (relation "measure (\<lambda>(p, file_size, slice_len, rest, pos, n). slice_len - pos)") auto

declare slice_loop.simps [simp del]

definition scan_entries_from_slice ::
  "wal_params \<Rightarrow> bytes \<Rightarrow> nat \<Rightarrow> wal_error + (wal_entry \<times> nat) list \<times> wal_version" where
  "scan_entries_from_slice p bs file_size =
     (if file_size = 0 \<or> bs = [] then Inr ([], V1)
      else let (ver, start) = detect_version bs file_size
           in bind_res (slice_loop p file_size (length bs) (drop start bs) start 0) (\<lambda>es. Inr (es, ver)))"

text \<open>\<open>replay\<close> and every replay at the opening of a log map the file as it is.\<close>

definition replay_mmap :: "wal_params \<Rightarrow> bytes \<Rightarrow> wal_error + (wal_entry \<times> nat) list \<times> wal_version" where
  "replay_mmap p bs =
     (if length bs = 0 then Inr ([], V1) else scan_entries_from_slice p bs (length bs))"

definition replay :: "wal_params \<Rightarrow> bytes \<Rightarrow> wal_error + (wal_entry \<times> nat) list" where
  "replay p bs = bind_res (replay_mmap p bs) (\<lambda>(es, ver). Inr es)"

definition replay_from :: "wal_params \<Rightarrow> bytes \<Rightarrow> u64 \<Rightarrow> wal_error + wal_entry list" where
  "replay_from p bs since =
     bind_res (replay p bs) (\<lambda>es. Inr (map fst (filter (\<lambda>(e, pos). we_seq e > since) es)))"

section \<open>The scan of the stream\<close>

definition stream_frame :: "nat \<Rightarrow> bytes \<Rightarrow> nat \<Rightarrow> nat \<Rightarrow> frame" where
  "stream_frame file_size rest pos entries_count =
     (if length rest < 4 then Frame_none
      else let len = get_le (take 4 rest)
           in if len > MAX_WAL_ENTRY_SIZE
              then if pos + 4 + len > file_size
                   then if entries_count = 0 \<and> file_size > 64 then Frame_bad (WalCorruption pos) else Frame_none
                   else Frame_bad (WalCorruption pos)
              else if pos + 4 + len > file_size
              then if entries_count = 0 \<and> file_size > 64 then Frame_bad (WalCorruption pos) else Frame_none
              else if length rest < 4 + len then Frame_none
              else Frame (take len (drop 4 rest)))"

text \<open>The entries of a decrypted batch.\<close>

function batch_loop ::
  "wal_params \<Rightarrow> bool \<Rightarrow> wal_version \<Rightarrow> nat \<Rightarrow> integrity_verifier \<times> bool \<Rightarrow> bytes \<Rightarrow>
   wal_error + wal_entry list \<times> (integrity_verifier \<times> bool)" where
  "batch_loop p allow ver start acc inner =
     (if inner = [] then Inr ([], acc)
      else if length inner < 4 then Inl (WalCorruption start)
      else let inner_len = get_le (take 4 inner)
           in if length inner < 4 + inner_len then Inl (WalCorruption start)
              else case from_bytes_classified p (take inner_len (drop 4 inner)) of
                     Inl _ \<Rightarrow> Inl (WalCorruption start)
                   | Inr e \<Rightarrow>
                       bind_res (verify_entry p allow ver acc e start) (\<lambda>acc'.
                         bind_res (batch_loop p allow ver start acc' (drop (4 + inner_len) inner)) (\<lambda>(es, acc'').
                           Inr (e # es, acc''))))"
  by pat_completeness auto
termination
  by (relation "measure (\<lambda>(p, allow, ver, start, acc, inner). length inner)") auto

declare batch_loop.simps [simp del]

text \<open>A frame that ends at \<open>pos\<close>: \<open>None\<close> when it is taken for a torn tail.\<close>

definition open_batch :: "key_manager \<Rightarrow> nat \<Rightarrow> nat \<Rightarrow> nat \<Rightarrow> bytes \<Rightarrow> wal_error + bytes option" where
  "open_batch km start pos file_size raw =
     (if length raw < 12 then if pos \<ge> file_size then Inr None else Inl WalStorage
      else case km_open km (drop 12 raw) (take 12 raw) of
             Some plain \<Rightarrow> Inr (Some plain)
           | None \<Rightarrow> if pos \<ge> file_size then Inr None else Inl (WalCorruption start))"

definition open_legacy :: "wal_params \<Rightarrow> wal_version \<Rightarrow> nat \<Rightarrow> nat \<Rightarrow> nat \<Rightarrow> bytes \<Rightarrow> wal_error + bytes option" where
  "open_legacy p ver start pos file_size raw =
     (case wp_km p of
        None \<Rightarrow> Inr (Some raw)
      | Some km \<Rightarrow>
          (if length raw < 12 then Inl WalStorage
           else case km_open km (drop 12 raw) (take 12 raw) of
                  Some plain \<Rightarrow> Inr (Some plain)
                | None \<Rightarrow> if ver = V1 then Inl WalStorage
                          else if pos \<ge> file_size then Inr None
                          else Inl (WalCorruption start)))"

definition single_entry ::
  "wal_params \<Rightarrow> bool \<Rightarrow> wal_version \<Rightarrow> nat \<Rightarrow> nat \<Rightarrow> nat \<Rightarrow> integrity_verifier \<times> bool \<Rightarrow> bytes \<Rightarrow>
   wal_error + (wal_entry \<times> (integrity_verifier \<times> bool)) option" where
  "single_entry p allow ver start pos file_size acc data =
     (case from_bytes_classified p data of
        Inl err \<Rightarrow>
          (if wp_km p \<noteq> None \<and> ver \<noteq> V1 then Inl (WalCorruption start)
           else case handle_wal_entry_parse_error err start pos file_size of
                  Some e \<Rightarrow> Inl e
                | None \<Rightarrow> Inr None)
      | Inr e \<Rightarrow> bind_res (verify_entry p allow ver acc e start) (\<lambda>acc'. Inr (Some (e, acc'))))"

definition stream_entries ::
  "wal_params \<Rightarrow> bool \<Rightarrow> wal_version \<Rightarrow> nat \<Rightarrow> nat \<Rightarrow> nat \<Rightarrow> integrity_verifier \<times> bool \<Rightarrow> bytes \<Rightarrow>
   wal_error + (wal_entry list \<times> (integrity_verifier \<times> bool)) option" where
  "stream_entries p allow ver start pos file_size acc raw =
     (case (wp_km p, ver = V2 \<or> ver = V3) of
        (Some km, True) \<Rightarrow>
          bind_res (open_batch km start pos file_size raw) (\<lambda>r.
            case r of
              None \<Rightarrow> Inr None
            | Some plain \<Rightarrow> bind_res (batch_loop p allow ver start acc plain) (\<lambda>x. Inr (Some x)))
      | _ \<Rightarrow>
          bind_res (open_legacy p ver start pos file_size raw) (\<lambda>r.
            case r of
              None \<Rightarrow> Inr None
            | Some data \<Rightarrow>
                bind_res (single_entry p allow ver start pos file_size acc data) (\<lambda>x.
                  Inr (map_option (\<lambda>(e, acc'). ([e], acc')) x))))"

function stream_loop ::
  "wal_params \<Rightarrow> bool \<Rightarrow> wal_version \<Rightarrow> nat \<Rightarrow> bytes \<Rightarrow> nat \<Rightarrow> nat \<Rightarrow> integrity_verifier \<times> bool \<Rightarrow>
   wal_error + (wal_entry \<times> nat) list \<times> bool" where
  "stream_loop p allow ver file_size rest pos entries_count acc =
     (if pos \<ge> file_size then Inr ([], snd acc)
      else case stream_frame file_size rest pos entries_count of
             Frame_none \<Rightarrow> Inr ([], snd acc)
           | Frame_bad e \<Rightarrow> Inl e
           | Frame raw \<Rightarrow>
               (let pos' = pos + 4 + length raw
                in bind_res (stream_entries p allow ver pos pos' file_size acc raw) (\<lambda>r.
                     case r of
                       None \<Rightarrow> Inr ([], snd acc)
                     | Some (es, acc') \<Rightarrow>
                         bind_res (stream_loop p allow ver file_size (drop (4 + length raw) rest) pos'
                                     (entries_count + length es) acc')
                           (\<lambda>(es', legacy). Inr (map (\<lambda>e. (e, pos')) es @ es', legacy)))))"
  by pat_completeness auto
termination
  by (relation "measure (\<lambda>(p, allow, ver, file_size, rest, pos, n, acc). file_size - pos)") auto

declare stream_loop.simps [simp del]

text \<open>The entries with the ends of their frames, the version, and whether the legacy key was used.\<close>

definition scan_stream ::
  "wal_params \<Rightarrow> bool \<Rightarrow> bytes \<Rightarrow> nat \<Rightarrow> wal_error + (wal_entry \<times> nat) list \<times> wal_version \<times> bool" where
  "scan_stream p allow bs file_size =
     (if file_size = 0 then Inr ([], V1, False)
      else bind_res (get_integrity_key p) (\<lambda>key.
             let (ver, start) = detect_version bs file_size
             in bind_res (stream_loop p allow ver file_size (drop start bs) start 0 (verifier_new key, False))
                  (\<lambda>(es, legacy). Inr (es, ver, legacy))))"

end
