(* ===== verification/WalFile.thy ===== *)
theory WalFile
  imports Wal MemTable
begin

text \<open>
  The handle of a write-ahead log, \<open>contextra-store/src/wal\<close>: preparing a batch (\<open>hmac.rs\<close>), appending,
  truncating and sealing (\<open>io.rs\<close>, \<open>flusher.rs\<close>), opening and healing (\<open>mod.rs\<close>), and the append of
  a commit (\<open>lsm/group_commit.rs\<close>).

  The actor that writes handles one command at a time, so a command is a function on the handle; what the
  operating system answers is an argument. The file is opened for appending: a write goes to its end.
  A lock that is taken by the caller itself is never released: such a call does not return, which is \<open>None\<close>.
  Left out are the delays of the actor, the files beside the log (keys, identifiers, backups, markers) and
  the migration of logs with the legacy key.
\<close>

instantiation wal_version :: linorder
begin

definition version_rank :: "wal_version \<Rightarrow> nat" where
  "version_rank v = (case v of V1 \<Rightarrow> 0 | V2 \<Rightarrow> 1 | V3 \<Rightarrow> 2)"

definition less_eq_wal_version :: "wal_version \<Rightarrow> wal_version \<Rightarrow> bool" where
  "less_eq_wal_version a b \<longleftrightarrow> version_rank a \<le> version_rank b"

definition less_wal_version :: "wal_version \<Rightarrow> wal_version \<Rightarrow> bool" where
  "less_wal_version a b \<longleftrightarrow> version_rank a < version_rank b"

instance
  by standard (auto simp: less_eq_wal_version_def less_wal_version_def version_rank_def split: wal_version.splits)

end

record wal =
  wl_file :: bytes
  wl_size :: nat
  wl_header :: bool
  wl_hmac :: bytes
  wl_nonce :: nat
  wl_allow_legacy :: bool
  wl_legacy_used :: bool
  wl_flusher :: bool
  wl_sealed :: bool
  wl_truncate_lock :: bool
  wl_poisoned :: bool

section \<open>Preparing a batch\<close>

fun chain_entries :: "wal_params \<Rightarrow> bytes \<Rightarrow> bytes \<Rightarrow> (wal_op \<times> u64) list \<Rightarrow> wal_error + wal_entry list \<times> bytes" where
  "chain_entries p key chain [] = Inr ([], chain)"
| "chain_entries p key chain ((op, seq) # ops) =
     bind_res (try_new p op seq key chain) (\<lambda>e.
       bind_res (chain_entries p key (we_checksum e) ops) (\<lambda>(es, h). Inr (e # es, h)))"

definition prepare_batch :: "wal_params \<Rightarrow> wal \<Rightarrow> (wal_op \<times> u64) list \<Rightarrow> wal \<times> (wal_error + wal_entry list \<times> bytes)" where
  "prepare_batch p w ops =
     (if wl_sealed w then (w, Inl WalStorage)
      else case bind_res (get_integrity_key p) (\<lambda>key. chain_entries p key (wl_hmac w) ops) of
             Inl e \<Rightarrow> (w, Inl e)
           | Inr (es, h) \<Rightarrow> (w\<lparr>wl_hmac := h\<rparr>, Inr (es, wl_hmac w)))"

definition rollback_hmac :: "wal \<Rightarrow> bytes \<Rightarrow> wal" where
  "rollback_hmac w h = w\<lparr>wl_hmac := h\<rparr>"

section \<open>The bytes of a batch\<close>

abbreviation MAX_PLAINTEXT :: nat where
  "MAX_PLAINTEXT \<equiv> MAX_WAL_ENTRY_SIZE - 28"

definition seal_frame :: "nat \<Rightarrow> key_manager \<Rightarrow> nat \<Rightarrow> bytes \<Rightarrow> wal_error + bytes" where
  "seal_frame limit km n plain =
     (case km_seal km n plain of
        None \<Rightarrow> Inl WalCrypto
      | Some (encrypted, nonce) \<Rightarrow>
          (let chunk_len = 12 + length encrypted
           in if chunk_len \<ge> 2 ^ 32 \<or> chunk_len > limit then Inl (if limit < 2 ^ 32 then WalInvalid else WalStorage)
              else Inr (put_u32 chunk_len @ nonce @ encrypted)))"

text \<open>\<open>n\<close> is the counter of the nonces; the result has the counter after the last encryption. The limit of a frame
  is checked when a batch is appended; a rewritten frame only has to have a length of 32 bits.\<close>

definition seal_then :: "nat \<Rightarrow> key_manager \<Rightarrow> nat \<Rightarrow> bytes \<Rightarrow> (nat \<Rightarrow> nat \<times> (wal_error + bytes)) \<Rightarrow> nat \<times> (wal_error + bytes)" where
  "seal_then limit km n plain cont =
     (case seal_frame limit km n plain of
        Inl e \<Rightarrow> (n + 1, Inl e)
      | Inr bs \<Rightarrow> (let (n', r) = cont (n + 1) in (n', bind_res r (\<lambda>more. Inr (bs @ more)))))"

text \<open>A frame is closed before it outgrows the limit and after the end of a transaction.\<close>

fun seal_batch :: "key_manager \<Rightarrow> nat \<Rightarrow> bytes \<Rightarrow> (bool \<times> bytes) list \<Rightarrow> nat \<times> (wal_error + bytes)" where
  "seal_batch km n current [] = (if current = [] then (n, Inr []) else seal_then MAX_WAL_ENTRY_SIZE km n current (\<lambda>n'. (n', Inr [])))"
| "seal_batch km n current ((ends, bs) # rest) =
     (if current \<noteq> [] \<and> length current + length bs > MAX_PLAINTEXT
      then seal_then MAX_WAL_ENTRY_SIZE km n current (\<lambda>n'.
             if ends then seal_then MAX_WAL_ENTRY_SIZE km n' bs (\<lambda>n''. seal_batch km n'' [] rest) else seal_batch km n' bs rest)
      else if ends then seal_then MAX_WAL_ENTRY_SIZE km n (current @ bs) (\<lambda>n'. seal_batch km n' [] rest)
      else seal_batch km n (current @ bs) rest)"

fun serialize_entries :: "wal_params \<Rightarrow> wal_entry list \<Rightarrow> wal_error + (bool \<times> bytes) list" where
  "serialize_entries p [] = Inr []"
| "serialize_entries p (e # es) =
     bind_res (to_bytes p e) (\<lambda>bs.
       if wp_km p \<noteq> None \<and> length bs > MAX_PLAINTEXT then Inl WalInvalid
       else bind_res (serialize_entries p es) (\<lambda>r. Inr ((is_tx_end (we_op e), bs) # r)))"

definition prepare_append_payload :: "wal_params \<Rightarrow> wal \<Rightarrow> wal_entry list \<Rightarrow> wal \<times> (wal_error + bytes \<times> bytes)" where
  "prepare_append_payload p w es =
     (if wl_sealed w then (w, Inl WalStorage)
      else if es = [] then (w, Inr ([], zero_hmac))
      else case serialize_entries p es of
             Inl e \<Rightarrow> (w, Inl e)
           | Inr parts \<Rightarrow>
               (case wp_km p of
                  None \<Rightarrow> (w, Inr (concat (map snd parts), we_checksum (last es)))
                | Some km \<Rightarrow>
                    (let (n, r) = seal_batch km (wl_nonce w) [] parts
                     in (w\<lparr>wl_nonce := n\<rparr>, bind_res r (\<lambda>bs. Inr (bs, we_checksum (last es)))))))"

section \<open>Append\<close>

text \<open>All bytes are written and synced, the writing fails after some bytes, or the sync fails.\<close>

datatype write_outcome = Written | Write_failed nat | Sync_failed

definition flusher_append :: "wal \<Rightarrow> bytes \<Rightarrow> bytes \<Rightarrow> write_outcome \<Rightarrow> wal \<times> (wal_error + unit)" where
  "flusher_append w payload last_hmac_val io =
     (if wl_poisoned w then (w, Inl WalStorage)
      else let write_header = (\<not> wl_header w \<and> wl_size w = 0);
               bs = (if write_header then WAL_V3_HEADER else []) @ payload
           in case io of
                Write_failed n \<Rightarrow> (w\<lparr>wl_file := wl_file w @ take n bs, wl_poisoned := True\<rparr>, Inl WalStorage)
              | Sync_failed \<Rightarrow> (w\<lparr>wl_file := wl_file w @ bs, wl_poisoned := True\<rparr>, Inl WalStorage)
              | Written \<Rightarrow>
                  (w\<lparr>wl_file := wl_file w @ bs, wl_header := (wl_header w \<or> write_header),
                     wl_size := wl_size w + length bs, wl_hmac := last_hmac_val\<rparr>, Inr ()))"

definition append_batch_locked :: "wal_params \<Rightarrow> wal \<Rightarrow> wal_entry list \<Rightarrow> write_outcome \<Rightarrow> wal \<times> (wal_error + unit)" where
  "append_batch_locked p w es io =
     (if wl_poisoned w then (w, Inl WalStorage)
      else if es = [] then (w, Inr ())
      else case prepare_append_payload p w es of
             (w1, Inl e) \<Rightarrow> (w1, Inl e)
           | (w1, Inr (payload, h)) \<Rightarrow>
               (if \<not> wl_flusher w1 then (w1, Inl WalStorage) else flusher_append w1 payload h io))"

definition append_batch ::
  "wal_params \<Rightarrow> wal \<Rightarrow> wal_entry list \<Rightarrow> write_outcome \<Rightarrow> (wal \<times> (wal_error + unit)) option" where
  "append_batch p w es io = (if wl_truncate_lock w then None else Some (append_batch_locked p w es io))"

section \<open>Truncate and seal\<close>

datatype truncate_outcome = Truncated | Set_len_failed | Truncate_sync_failed

text \<open>\<open>File::set_len\<close>\<close>

definition set_len :: "nat \<Rightarrow> bytes \<Rightarrow> bytes" where
  "set_len n bs = take n bs @ replicate (n - length bs) 0"

definition flusher_truncate :: "wal \<Rightarrow> nat \<Rightarrow> bytes \<Rightarrow> truncate_outcome \<Rightarrow> wal \<times> (wal_error + unit)" where
  "flusher_truncate w offset h io =
     (if wl_poisoned w then (w, Inl WalStorage)
      else let w1 = w\<lparr>wl_size := offset\<rparr>
           in case io of
                Set_len_failed \<Rightarrow> (w1, Inl WalStorage)
              | Truncate_sync_failed \<Rightarrow>
                  (w1\<lparr>wl_file := set_len offset (wl_file w1), wl_poisoned := True\<rparr>, Inl WalStorage)
              | Truncated \<Rightarrow>
                  (w1\<lparr>wl_file := set_len offset (wl_file w1), wl_header := (offset \<ge> 4), wl_hmac := h\<rparr>, Inr ()))"

definition wal_truncate :: "wal \<Rightarrow> nat \<Rightarrow> bytes \<Rightarrow> truncate_outcome \<Rightarrow> (wal \<times> (wal_error + unit)) option" where
  "wal_truncate w offset h io =
     (if wl_truncate_lock w then None
      else Some (if wl_sealed w \<or> \<not> wl_flusher w then (w, Inl WalStorage) else flusher_truncate w offset h io))"

definition rotate_and_seal :: "wal \<Rightarrow> bool \<Rightarrow> bool \<Rightarrow> wal \<times> (wal_error + unit)" where
  "rotate_and_seal w sync_ok rename_ok =
     (let w1 = w\<lparr>wl_sealed := True, wl_flusher := False\<rparr>
      in if \<not> wl_flusher w then (w1, Inl WalStorage)
         else if \<not> sync_ok then (w1\<lparr>wl_poisoned := True\<rparr>, Inl WalStorage)
         else if \<not> rename_ok then (w1, Inl WalStorage)
         else (w1, Inr ()))"

section \<open>Rewriting in the newest format\<close>

fun rewrite_chunks :: "key_manager \<Rightarrow> nat \<Rightarrow> bytes \<Rightarrow> bytes list \<Rightarrow> nat \<times> (wal_error + bytes)" where
  "rewrite_chunks km n current [] = (if current = [] then (n, Inr []) else seal_then (2 ^ 32) km n current (\<lambda>n'. (n', Inr [])))"
| "rewrite_chunks km n current (bs # rest) =
     (if 28 + length bs > MAX_WAL_ENTRY_SIZE then (n, Inl WalStorage)
      else if 28 + length current + length bs > MAX_WAL_ENTRY_SIZE
      then seal_then (2 ^ 32) km n current (\<lambda>n'. rewrite_chunks km n' bs rest)
      else rewrite_chunks km n (current @ bs) rest)"

datatype rewrite_outcome = Rewritten | Rewrite_not_started | Rewrite_torn nat

definition rewrite_as_v3 ::
  "wal_params \<Rightarrow> wal \<Rightarrow> wal_entry list \<Rightarrow> rewrite_outcome \<Rightarrow> wal \<times> (wal_error + unit)" where
  "rewrite_as_v3 p w entries io =
     (case get_integrity_key p of
        Inl e \<Rightarrow> (w, Inl e)
      | Inr key \<Rightarrow>
          (if \<not> wl_flusher w then (w, Inl WalStorage)
           else case bind_res (chain_entries p key zero_hmac (map (\<lambda>e. (we_op e, we_seq e)) entries)) (\<lambda>(es, h).
                       bind_res (serialize_entries (p\<lparr>wp_km := None\<rparr>) es) (\<lambda>parts. Inr (map snd parts, h))) of
                  Inl e \<Rightarrow> (w, Inl e)
                | Inr (parts, h) \<Rightarrow>
                    (let (n, r) = (case wp_km p of
                                     None \<Rightarrow> (wl_nonce w, Inr (concat parts))
                                   | Some km \<Rightarrow> rewrite_chunks km (wl_nonce w) [] parts);
                         w1 = w\<lparr>wl_nonce := n\<rparr>
                     in case r of
                          Inl e \<Rightarrow> (w1, Inl e)
                        | Inr chunks \<Rightarrow>
                            (let total = WAL_V3_HEADER @ chunks
                             in case io of
                                  Rewrite_not_started \<Rightarrow> (w1\<lparr>wl_poisoned := True\<rparr>, Inl WalStorage)
                                | Rewrite_torn k \<Rightarrow> (w1\<lparr>wl_file := take k total, wl_poisoned := True\<rparr>, Inl WalStorage)
                                | Rewritten \<Rightarrow>
                                    (w1\<lparr>wl_file := total, wl_size := length total, wl_header := True, wl_hmac := h\<rparr>, Inr ())))))"

section \<open>Opening and healing\<close>

definition handle_on :: "bytes \<Rightarrow> nat \<Rightarrow> bool \<Rightarrow> wal" where
  "handle_on bs n allow_legacy =
     \<lparr>wl_file = bs, wl_size = length bs, wl_header = (bs \<noteq> []), wl_hmac = zero_hmac, wl_nonce = n,
      wl_allow_legacy = allow_legacy, wl_legacy_used = False, wl_flusher = True, wl_sealed = False,
      wl_truncate_lock = False, wl_poisoned = False\<rparr>"

definition open_read_only :: "bytes \<Rightarrow> nat \<Rightarrow> bool \<Rightarrow> wal" where
  "open_read_only bs n allow_legacy = (handle_on bs n allow_legacy)\<lparr>wl_flusher := False, wl_sealed := True\<rparr>"

definition replay_with_size_and_version ::
  "wal_params \<Rightarrow> wal \<Rightarrow> nat \<Rightarrow> wal \<times> (wal_error + (wal_entry \<times> nat) list \<times> wal_version)" where
  "replay_with_size_and_version p w file_size =
     (case replay_mmap p (wl_file w) of
        Inr r \<Rightarrow> (w, Inr r)
      | Inl _ \<Rightarrow>
          (if \<not> wl_flusher w then (w, Inl WalStorage)
           else case scan_stream p (wl_allow_legacy w) (wl_file w) file_size of
                  Inl e \<Rightarrow> (w, Inl e)
                | Inr (es, ver, legacy) \<Rightarrow> (w\<lparr>wl_legacy_used := (wl_legacy_used w \<or> legacy)\<rparr>, Inr (es, ver))))"

text \<open>The end of the last entry and its HMAC.\<close>

definition verified_end :: "(wal_entry \<times> nat) list \<Rightarrow> bool \<Rightarrow> nat \<times> bytes" where
  "verified_end es has_header =
     (if es \<noteq> [] then (snd (last es), we_checksum (fst (last es)))
      else if has_header then (4, zero_hmac) else (0, zero_hmac))"

text \<open>The copy of a file in an old format, and its sync.\<close>

datatype backup_outcome = Copied | Copy_failed | Backup_sync_failed

definition migrate ::
  "wal_params \<Rightarrow> wal \<Rightarrow> wal_version \<Rightarrow> wal_version \<Rightarrow> (wal_entry \<times> nat) list \<Rightarrow> backup_outcome \<Rightarrow> rewrite_outcome \<Rightarrow>
   wal \<times> (wal_error + unit)" where
  "migrate p w ver min_version es backup io =
     (if backup = Backup_sync_failed then (w, Inl WalStorage)
      else let (w1, r) = rewrite_as_v3 p w (map fst es) io
           in if backup = Copy_failed \<or> r \<noteq> Inr ()
              then if min_version > V1 \<or> ver < min_version then (w1, Inl WalInvalid) else (w1, r)
              else (w1, Inr ()))"

definition open_with_config ::
  "wal_params \<Rightarrow> bool \<Rightarrow> wal_version \<Rightarrow> bytes \<Rightarrow> nat \<Rightarrow> backup_outcome \<Rightarrow> rewrite_outcome \<Rightarrow> truncate_outcome \<Rightarrow>
   wal \<times> (wal_error + unit)" where
  "open_with_config p allow_legacy min_version bs n backup rewrite trunc =
     (let w = handle_on bs n allow_legacy
      in if bs = [] then (w, Inr ())
         else case replay_with_size_and_version p w (length bs) of
                (w1, Inl e) \<Rightarrow> (w1, Inl e)
              | (w1, Inr (es, ver)) \<Rightarrow>
                  (if ver < min_version \<or> ver \<noteq> V3 then migrate p w1 ver min_version es backup rewrite
                   else let (end_pos, h) = verified_end es (length bs \<ge> 4)
                        in if end_pos < length bs
                           then flusher_truncate w1 end_pos h trunc
                           else (w1\<lparr>wl_hmac := h\<rparr>, Inr ())))"

definition recover_from_poison :: "wal_params \<Rightarrow> wal \<Rightarrow> truncate_outcome \<Rightarrow> (wal \<times> (wal_error + unit)) option" where
  "recover_from_poison p w io =
     (if \<not> wl_poisoned w then Some (w, Inr ())
      else case replay p (wl_file w) of
             Inl e \<Rightarrow> Some (w, Inl e)
           | Inr es \<Rightarrow>
               (let file_len = length (wl_file w);
                    (end_pos, h) = verified_end es (file_len \<ge> 4 \<and> wl_header w)
                in if end_pos > file_len then Some (w, Inl (WalCorruption end_pos))
                   else case wal_truncate (w\<lparr>wl_poisoned := False\<rparr>) end_pos h io of
                          None \<Rightarrow> None
                        | Some (w1, Inl e) \<Rightarrow> Some (w1\<lparr>wl_poisoned := True\<rparr>, Inl e)
                        | Some (w1, Inr _) \<Rightarrow> Some (w1\<lparr>wl_size := end_pos, wl_hmac := h\<rparr>, Inr ())))"

definition truncate_uncommitted_tail ::
  "wal_params \<Rightarrow> wal \<Rightarrow> truncate_outcome \<Rightarrow> (wal \<times> (wal_error + nat)) option" where
  "truncate_uncommitted_tail p w io =
     (case replay p (wl_file w) of
        Inl e \<Rightarrow> Some (w, Inl e)
      | Inr es \<Rightarrow>
          (case filter (\<lambda>(e, pos). is_tx_end (we_op e)) es of
             [] \<Rightarrow> Some (w, Inr 0)
           | ends \<Rightarrow>
               (let (e, last_pos) = last ends
                in if last_pos < wl_size w
                   then map_option (\<lambda>(w1, r). (w1, bind_res r (\<lambda>_. Inr (wl_size w - last_pos))))
                          (wal_truncate w last_pos (we_checksum e) io)
                   else Some (w, Inr 0))))"

section \<open>The place of a transaction\<close>

fun rollback_point :: "u64 \<Rightarrow> (wal_entry \<times> nat) list \<Rightarrow> nat \<times> bytes \<Rightarrow> nat \<times> bytes" where
  "rollback_point target [] acc = acc"
| "rollback_point target ((e, pos) # es) acc =
     (let tx = op_tx_id (we_op e)
      in if target < INTERNAL_BASE \<and> tx \<ge> INTERNAL_BASE then rollback_point target es (pos, we_checksum e)
         else if tx > target then acc
         else rollback_point target es (pos, we_checksum e))"

text \<open>The scan reads the whole file even when the place is found.\<close>

definition find_tx_offset :: "wal_params \<Rightarrow> wal \<Rightarrow> u64 \<Rightarrow> wal_error + nat \<times> bytes" where
  "find_tx_offset p w target =
     (if \<not> wl_flusher w then Inl WalStorage
      else bind_res (scan_stream p (wl_allow_legacy w) (wl_file w) (length (wl_file w))) (\<lambda>(es, ver, legacy).
             Inr (rollback_point target es (0, zero_hmac))))"

section \<open>The append of a commit\<close>

text \<open>The lock is held until the end: a truncation inside waits for it.\<close>

definition execute_group_commit_append ::
  "wal_params \<Rightarrow> wal \<Rightarrow> wal_entry list \<Rightarrow> write_outcome \<Rightarrow> truncate_outcome \<Rightarrow> (wal \<times> (wal_error + unit)) option" where
  "execute_group_commit_append p w es io trunc =
     (if wl_truncate_lock w then None
      else let w1 = w\<lparr>wl_truncate_lock := True\<rparr>
           in case append_batch_locked p w1 es io of
                (w2, Inr _) \<Rightarrow> Some (w2\<lparr>wl_truncate_lock := False\<rparr>, Inr ())
              | (w2, Inl e) \<Rightarrow>
                  (case wal_truncate w2 (wl_size w1) (wl_hmac w1) trunc of
                     None \<Rightarrow> None
                   | Some (w3, _) \<Rightarrow>
                       (case (if wl_poisoned w3 then recover_from_poison p w3 trunc else Some (w3, Inr ())) of
                          None \<Rightarrow> None
                        | Some (w4, _) \<Rightarrow> Some (w4\<lparr>wl_truncate_lock := False\<rparr>, Inl e))))"

end
