(* ===== verification/WalCorrect.thy ===== *)
theory WalCorrect
  imports WalFile
begin

text \<open>
  The bytes of the log: an entry is parsed back from its frame, the replay of a file returns its entries with the
  ends of their frames, and the replay of a prefix of a file returns the frames that are whole.
\<close>

section \<open>Frames are read back\<close>

definition op_ok :: "wal_op \<Rightarrow> bool" where
  "op_ok op \<longleftrightarrow> (case op of Put tx k v \<Rightarrow> length k \<le> MAX_REPLAY_KEY | Delete tx k \<Rightarrow> length k \<le> MAX_REPLAY_KEY | TxEnd tx c \<Rightarrow> True)"

definition entry_ok :: "wal_entry \<Rightarrow> bool" where
  "entry_ok e \<longleftrightarrow> length (we_checksum e) = 32 \<and> length (we_prev e) = 32 \<and> op_ok (we_op e)"

lemma u32_back: "n < 2 ^ 32 \<Longrightarrow> get_le (put_u32 n) = n"
  by (rule le32.get_put)

lemma u64_back: "word_of_nat (get_le (put_u64 w)) = w"
  by (rule le64.get_put) simp

lemma crc_back: "word_of_nat (get_le (put_u32 (unat c))) = (c :: u32)"
proof -
  have "unat c < 2 ^ 32" using unsigned_less [of c, where 'a = nat] by simp
  then show ?thesis by (simp add: u32_back)
qed

lemmas codec_width [simp] = le32.put_width le64.put_width

lemma length_op_bytes [simp]: "length (op_bytes op) = op_size op"
  by (simp add: op_bytes_def op_size_def split: wal_op.split)

lemma parse_put_back:
  assumes "length k \<le> MAX_REPLAY_KEY" and "length v \<le> MAX_WAL_ENTRY_SIZE"
  shows "parse_put (put_u64 tx @ put_u32 (length k) @ k @ put_u32 (length v) @ v) = Inr (Put tx k v, 16 + length k + length v)"
proof -
  let ?rem = "put_u64 tx @ put_u32 (length k) @ k @ put_u32 (length v) @ v"
  have s: "slice ?rem 0 8 = Some (put_u64 tx)" "slice ?rem 8 12 = Some (put_u32 (length k))"
    "slice ?rem 12 (12 + length k) = Some k"
    "slice ?rem (12 + length k) (12 + length k + 4) = Some (put_u32 (length v))"
    "slice ?rem (12 + length k + 4) (12 + length k + 4 + length v) = Some v"
    by (simp_all add: slice_def)
  have lens: "get_le (put_u32 (length k)) = length k" "get_le (put_u32 (length v)) = length v"
    using assms by (auto intro!: u32_back simp: MAX_REPLAY_KEY_def MAX_WAL_ENTRY_SIZE_def)
  show ?thesis using assms unfolding parse_put_def s by (simp add: Let_def lens s [simplified] u64_back)
qed

lemma parse_delete_back:
  assumes "length k \<le> MAX_REPLAY_KEY"
  shows "parse_delete (put_u64 tx @ put_u32 (length k) @ k) = Inr (Delete tx k, 12 + length k)"
proof -
  let ?rem = "put_u64 tx @ put_u32 (length k) @ k"
  have s: "slice ?rem 0 8 = Some (put_u64 tx)" "slice ?rem 8 12 = Some (put_u32 (length k))"
    "slice ?rem 12 (12 + length k) = Some k"
    by (simp_all add: slice_def)
  have lens: "get_le (put_u32 (length k)) = length k"
    using assms by (auto intro!: u32_back simp: MAX_REPLAY_KEY_def)
  show ?thesis using assms unfolding parse_delete_def s by (simp add: Let_def lens s [simplified] u64_back)
qed

lemma parse_tx_end_back: "parse_tx_end (put_u64 tx @ [flag_byte c]) = Inr (TxEnd tx c, 9)"
proof -
  have s: "slice (put_u64 tx @ [flag_byte c]) 0 8 = Some (put_u64 tx)" "slice (put_u64 tx @ [flag_byte c]) 8 9 = Some [flag_byte c]"
    by (simp_all add: slice_def)
  show ?thesis unfolding parse_tx_end_def s by (simp add: u64_back flag_byte_def)
qed

lemma parse_op_back:
  assumes "op_ok op" and "op_size op \<le> MAX_WAL_ENTRY_SIZE"
  shows "\<exists>t rem. op_bytes op = t # rem \<and> parse_op t rem = Inr (op, length rem)"
  using assms parse_put_back parse_delete_back parse_tx_end_back
  by (cases op) (auto simp: op_bytes_def op_ok_def parse_op_def op_size_def)

text \<open>The payload of a frame: what follows the length.\<close>

definition frame_data :: "wal_params \<Rightarrow> wal_entry \<Rightarrow> bytes" where
  "frame_data p e =
     (let payload = put_u64 (we_seq e) @ we_checksum e @ we_prev e @ op_bytes (we_op e)
      in put_u32 (unat (wp_crc32 p payload)) @ payload)"

definition frame_fits :: "wal_entry \<Rightarrow> bool" where
  "frame_fits e \<longleftrightarrow> 76 + op_size (we_op e) \<le> MAX_WAL_ENTRY_SIZE"

lemma frame_data_length: "entry_ok e \<Longrightarrow> length (frame_data p e) = 76 + op_size (we_op e)"
  by (simp add: frame_data_def Let_def entry_ok_def)

definition frame_of :: "wal_params \<Rightarrow> wal_entry \<Rightarrow> bytes" where
  "frame_of p e = put_u32 (length (frame_data p e)) @ frame_data p e"

lemma to_bytes_frame:
  assumes "entry_ok e"
  shows "to_bytes p e = (if frame_fits e then Inr (frame_of p e) else Inl WalSerialization)"
proof -
  have "length (we_checksum e) = 32" "length (we_prev e) = 32" using assms by (simp_all add: entry_ok_def)
  then show ?thesis by (simp add: to_bytes_def frame_of_def frame_fits_def frame_data_def Let_def)
qed

lemma from_bytes_back:
  assumes e: "entry_ok e" and "frame_fits e"
  shows "from_bytes_classified p (frame_data p e) = Inr e"
proof -
  let ?payload = "put_u64 (we_seq e) @ we_checksum e @ we_prev e @ op_bytes (we_op e)"
  from assms have "op_ok (we_op e)" "op_size (we_op e) \<le> MAX_WAL_ENTRY_SIZE" by (simp_all add: entry_ok_def frame_fits_def)
  then obtain t rem where op: "op_bytes (we_op e) = t # rem" "parse_op t rem = Inr (we_op e, length rem)"
    using parse_op_back by blast
  have lens: "length (we_checksum e) = 32" "length (we_prev e) = 32" using e by (simp_all add: entry_ok_def)
  have s: "slice ?payload 0 8 = Some (put_u64 (we_seq e))" "slice ?payload 8 40 = Some (we_checksum e)"
    "slice ?payload 40 72 = Some (we_prev e)" "slice ?payload 72 73 = Some [t]"
    using lens by (simp_all add: slice_def op(1))
  have rest: "drop 73 ?payload = rem" using lens by (simp add: op(1))
  have crc: "slice (put_u32 (unat (wp_crc32 p ?payload)) @ ?payload) 0 4 = Some (put_u32 (unat (wp_crc32 p ?payload)))"
    "drop 4 (put_u32 (unat (wp_crc32 p ?payload)) @ ?payload) = ?payload"
    by (simp_all add: slice_def)
  show ?thesis
    unfolding from_bytes_classified_def frame_data_def Let_def crc ok_or_simps bind_res_simps s rest
    by (simp add: crc_back op(2) u64_back)
qed

section \<open>The scan of the mapped file\<close>

lemma frame_length [simp]: "length (frame_of p e) = 4 + length (frame_data p e)"
  by (simp add: frame_of_def)

definition frames :: "wal_params \<Rightarrow> wal_entry list \<Rightarrow> bytes" where
  "frames p es = concat (map (frame_of p) es)"

lemma frames_simps [simp]: "frames p [] = []" "frames p (e # es) = frame_of p e @ frames p es"
  "frames p (es @ es') = frames p es @ frames p es'"
  by (simp_all add: frames_def)

lemma frame_nonempty [simp]: "frame_of p e \<noteq> []"
  by (metis add_is_0 frame_length list.size(3) zero_neq_numeral)

lemma frames_empty [simp]: "frames p es = [] \<longleftrightarrow> es = []"
  by (cases es) simp_all

text \<open>The entries with the ends of their frames, the first of which starts at \<open>pos\<close>.\<close>

fun with_ends :: "wal_params \<Rightarrow> nat \<Rightarrow> wal_entry list \<Rightarrow> (wal_entry \<times> nat) list" where
  "with_ends p pos [] = []"
| "with_ends p pos (e # es) = (e, pos + length (frame_of p e)) # with_ends p (pos + length (frame_of p e)) es"

lemma map_fst_with_ends [simp]: "map fst (with_ends p pos es) = es"
  by (induction es arbitrary: pos) auto

abbreviation entries_ok :: "wal_entry list \<Rightarrow> bool" where
  "entries_ok es \<equiv> \<forall>e \<in> set es. entry_ok e \<and> frame_fits e"

lemma frame_data_bounds:
  assumes "entry_ok e" and "frame_fits e"
  shows "76 < length (frame_data p e)" and "length (frame_data p e) \<le> MAX_WAL_ENTRY_SIZE"
    and "get_le (put_u32 (length (frame_data p e))) = length (frame_data p e)"
proof -
  show fits: "length (frame_data p e) \<le> MAX_WAL_ENTRY_SIZE" using assms by (simp add: frame_data_length frame_fits_def)
  then show "get_le (put_u32 (length (frame_data p e))) = length (frame_data p e)"
    by (intro u32_back) (simp add: MAX_WAL_ENTRY_SIZE_def)
  have "0 < op_size (we_op e)" by (simp add: op_size_def split: wal_op.split)
  then show "76 < length (frame_data p e)" using assms(1) by (simp add: frame_data_length)
qed

lemma slice_loop_frame:
  assumes ok: "entry_ok e" "frame_fits e" and size: "pos + length (frame_of p e) + length rest = fs"
  shows "slice_loop p fs fs (frame_of p e @ rest) pos n =
    bind_res (slice_loop p fs fs rest (pos + length (frame_of p e)) (n + 1)) (\<lambda>es. Inr ((e, pos + length (frame_of p e)) # es))"
proof -
  note b = frame_data_bounds [OF ok, of p]
  have "slice_frame fs fs (frame_of p e @ rest) pos n = Frame (frame_data p e)"
    using size b by (simp add: slice_frame_def frame_of_def Let_def)
  then show ?thesis
    using size by (subst slice_loop.simps) (simp add: Let_def from_bytes_back [OF ok] frame_of_def add.assoc)
qed

lemma slice_loop_frames:
  assumes "entries_ok es" and "pos + length (frames p es) + length rest = fs"
  shows "slice_loop p fs fs (frames p es @ rest) pos n =
    bind_res (slice_loop p fs fs rest (pos + length (frames p es)) (n + length es)) (\<lambda>es'. Inr (with_ends p pos es @ es'))"
  using assms
proof (induction es arbitrary: pos n)
  case Nil
  then show ?case by (cases "slice_loop p fs fs rest pos n") auto
next
  case (Cons e es)
  have "slice_loop p fs fs (frame_of p e @ frames p es @ rest) pos n =
      bind_res (slice_loop p fs fs (frames p es @ rest) (pos + length (frame_of p e)) (n + 1))
        (\<lambda>es'. Inr ((e, pos + length (frame_of p e)) # es'))"
    by (rule slice_loop_frame) (use Cons.prems in auto)
  also have "\<dots> = bind_res (bind_res (slice_loop p fs fs rest (pos + length (frame_of p e) + length (frames p es)) (n + 1 + length es))
        (\<lambda>es'. Inr (with_ends p (pos + length (frame_of p e)) es @ es')))
        (\<lambda>es'. Inr ((e, pos + length (frame_of p e)) # es'))"
    using Cons.IH [of "pos + length (frame_of p e)" "n + 1"] Cons.prems by (simp add: add.assoc)
  finally show ?case
    by (cases "slice_loop p fs fs rest (pos + length (frame_of p e) + length (frames p es)) (n + 1 + length es)")
      (simp_all add: add.assoc)
qed

text \<open>A frame that is cut off.\<close>

lemma slice_loop_torn:
  assumes ok: "entry_ok e" "frame_fits e" and k: "k < length (frame_of p e)" and size: "pos + k = fs"
  shows "slice_loop p fs fs (take k (frame_of p e)) pos n =
    (if k \<ge> 4 \<and> n = 0 \<and> fs > 64 then Inl (WalCorruption pos) else Inr [])"
proof (cases "k < 4")
  case True
  with size show ?thesis by (subst slice_loop.simps) (simp add: slice_frame_def)
next
  case False
  note b = frame_data_bounds [OF ok, of p]
  have "take 4 (take k (frame_of p e)) = put_u32 (length (frame_data p e))" using False by (simp add: frame_of_def min_def)
  then have "slice_frame fs fs (take k (frame_of p e)) pos n =
      (if n = 0 \<and> fs > 64 then Frame_bad (WalCorruption pos) else Frame_none)"
    using False size b k by (simp add: slice_frame_def Let_def)
  with False size show ?thesis by (subst slice_loop.simps) simp
qed

definition journal :: "wal_params \<Rightarrow> wal_entry list \<Rightarrow> bytes" where
  "journal p es = WAL_V3_HEADER @ frames p es"

lemma header_length [simp]: "length WAL_V3_HEADER = 4" "length WAL_V2_HEADER = 4"
  by (simp_all add: WAL_V3_HEADER_def WAL_V2_HEADER_def)

lemma slice_loop_end [simp]: "slice_loop p fs n rest n k = Inr []"
  by (subst slice_loop.simps) simp

lemma replay_v3:
  "replay p (WAL_V3_HEADER @ bs) = slice_loop p (4 + length bs) (4 + length bs) bs 4 0"
proof -
  have ver: "detect_version (WAL_V3_HEADER @ bs) (4 + length bs) = (V3, 4)"
    by (simp add: detect_version_def)
  have "WAL_V3_HEADER \<noteq> []" by (simp add: WAL_V3_HEADER_def)
  then show ?thesis
    by (cases "slice_loop p (4 + length bs) (4 + length bs) bs 4 0")
      (simp_all add: replay_def replay_mmap_def scan_entries_from_slice_def ver)
qed

lemma replay_journal_torn:
  assumes ok: "entries_ok es" "entry_ok e" "frame_fits e" and k: "k < length (frame_of p e)"
  shows "replay p (journal p es @ take k (frame_of p e)) =
    (if es = [] \<and> k > 60 then Inl (WalCorruption 4) else Inr (with_ends p 4 es))"
proof -
  have "replay p (journal p es @ take k (frame_of p e)) =
      slice_loop p (4 + length (frames p es) + k) (4 + length (frames p es) + k) (frames p es @ take k (frame_of p e)) 4 0"
    using k by (simp add: journal_def replay_v3 add.assoc min_def)
  also have "\<dots> = bind_res (slice_loop p (4 + length (frames p es) + k) (4 + length (frames p es) + k)
      (take k (frame_of p e)) (4 + length (frames p es)) (length es)) (\<lambda>es'. Inr (with_ends p 4 es @ es'))"
    using k by (subst slice_loop_frames [OF ok(1)]) simp_all
  finally show ?thesis using slice_loop_torn [OF ok(2,3) k, of "4 + length (frames p es)"] by auto
qed

lemma replay_journal: "entries_ok es \<Longrightarrow> replay p (journal p es) = Inr (with_ends p 4 es)"
  using slice_loop_frames [of es 4 p "[]"] by (simp add: journal_def replay_v3)

section \<open>A journal that is cut off at any byte\<close>

fun whole_frames :: "wal_params \<Rightarrow> nat \<Rightarrow> wal_entry list \<Rightarrow> wal_entry list" where
  "whole_frames p n [] = []"
| "whole_frames p n (e # es) =
     (if length (frame_of p e) \<le> n then e # whole_frames p (n - length (frame_of p e)) es else [])"

lemma whole_frames_all [simp]: "length (frames p es) \<le> n \<Longrightarrow> whole_frames p n es = es"
  by (induction es arbitrary: n) auto

lemma frames_cut:
  "n < length (frames p es) \<Longrightarrow>
   \<exists>e rest k. es = whole_frames p n es @ e # rest \<and> k < length (frame_of p e) \<and>
     take n (frames p es) = frames p (whole_frames p n es) @ take k (frame_of p e) \<and>
     n = length (frames p (whole_frames p n es)) + k"
proof (induction es arbitrary: n)
  case (Cons e es)
  show ?case
  proof (cases "length (frame_of p e) \<le> n")
    case True
    have "n - length (frame_of p e) < length (frames p es)" using Cons.prems True by (simp only: frames_simps length_append)
    from Cons.IH [OF this] obtain e' rest k where
      ih: "es = whole_frames p (n - length (frame_of p e)) es @ e' # rest" "k < length (frame_of p e')"
        "take (n - length (frame_of p e)) (frames p es) =
          frames p (whole_frames p (n - length (frame_of p e)) es) @ take k (frame_of p e')"
        "n - length (frame_of p e) = length (frames p (whole_frames p (n - length (frame_of p e)) es)) + k"
      by blast
    have wf: "whole_frames p n (e # es) = e # whole_frames p (n - length (frame_of p e)) es" using True by simp
    have "take n (frames p (e # es)) = frame_of p e @ take (n - length (frame_of p e)) (frames p es)"
      using True by (simp del: frame_length)
    with ih True show ?thesis unfolding wf by (intro exI [of _ e'] exI [of _ rest] exI [of _ k]) (simp del: frame_length)
  next
    case False
    then show ?thesis by (intro exI [of _ e] exI [of _ es] exI [of _ n]) (simp del: frame_length)
  qed
qed simp

lemma replay_short:
  assumes "length bs < 4"
  shows "replay p bs = Inr []"
proof -
  have "slice_loop p (length bs) (length bs) bs 0 0 = Inr []"
    using assms by (subst slice_loop.simps) (simp add: slice_frame_def)
  then show ?thesis using assms by (simp add: replay_def replay_mmap_def scan_entries_from_slice_def detect_version_def)
qed

lemma replay_prefix:
  assumes ok: "entries_ok es" and n: "n \<le> length (journal p es)"
  shows "replay p (take n (journal p es)) =
    (if 64 < n \<and> whole_frames p (n - 4) es = [] then Inl (WalCorruption 4)
     else Inr (with_ends p 4 (whole_frames p (n - 4) es)))"
proof (cases "n < 4")
  case True
  then have none: "whole_frames p (n - 4) es = []"
    by (cases es) (auto simp: frame_of_def)
  have "replay p (take n (journal p es)) = Inr []" by (rule replay_short) (use True in simp)
  with True none show ?thesis by simp
next
  case False
  then have take: "take n (journal p es) = WAL_V3_HEADER @ take (n - 4) (frames p es)"
    by (simp add: journal_def)
  show ?thesis
  proof (cases "n - 4 < length (frames p es)")
    case True
    obtain e rest k where cut: "es = whole_frames p (n - 4) es @ e # rest" "k < length (frame_of p e)"
      "take (n - 4) (frames p es) = frames p (whole_frames p (n - 4) es) @ take k (frame_of p e)"
      "n - 4 = length (frames p (whole_frames p (n - 4) es)) + k"
      using frames_cut [OF True] by blast
    have oks: "entries_ok (whole_frames p (n - 4) es)" "entry_ok e" "frame_fits e"
      using ok cut(1) by (metis UnCI set_append, metis in_set_conv_decomp, metis in_set_conv_decomp)
    have "take n (journal p es) = journal p (whole_frames p (n - 4) es) @ take k (frame_of p e)"
      unfolding take cut(3) by (simp add: journal_def)
    with replay_journal_torn [OF oks cut(2)] cut(4) False show ?thesis by auto
  next
    case f: False
    then have "take n (journal p es) = journal p es" using n False by (simp add: journal_def)
    moreover have "es = [] \<Longrightarrow> n \<le> 4" using n by (simp add: journal_def)
    ultimately show ?thesis using f replay_journal [OF ok] by auto
  qed
qed

end
