(* ===== verification/WalParse.thy ===== *)
theory WalParse
  imports WalCorrect
begin

text \<open>
  The parser of entries is exact: it accepts the bytes that an entry is written as and no others, so a replayed entry
  is well formed and is written back as the bytes it was read from.
\<close>

section \<open>Bytes of integers\<close>

lemma put_get_le: "length bs = k \<Longrightarrow> put_le k (get_le bs) = bs"
proof (induction bs arbitrary: k)
  case (Cons b bs)
  have "unat b < 256" using unsigned_less [of b, where 'a = nat] by simp
  moreover from this have "(word_of_nat (unat b + 256 * m) :: u8) = b" for m
    by (intro word_unat_eq_iff [THEN iffD2]) (simp add: unat_of_nat del: of_nat_add of_nat_mult of_nat_simps Word.of_nat_unat)
  ultimately show ?case using Cons by (auto simp del: of_nat_add of_nat_mult of_nat_simps Word.of_nat_unat)
qed simp

lemma put_get_u32: "length bs = 4 \<Longrightarrow> put_u32 (get_le bs) = bs"
  by (simp only: put_u32_def put_get_le)

lemma put_get_u64: "length bs = 8 \<Longrightarrow> put_u64 (word_of_nat (get_le bs)) = bs"
  using get_le_less [of bs] by (simp add: put_u64_def unat_of_nat put_get_le)

lemma put_get_crc: "length bs = 4 \<Longrightarrow> put_u32 (unat (word_of_nat (get_le bs) :: u32)) = bs"
  using get_le_less [of bs] by (simp add: unat_of_nat put_get_u32)

lemma slice_split: "slice bs a b = Some m \<Longrightarrow> a \<le> b \<and> b \<le> length bs \<and> length m = b - a \<and> drop a bs = m @ drop b bs"
  by (auto simp: slice_def split: if_splits) (metis append_take_drop_id drop_drop le_add_diff_inverse2)

section \<open>Operations\<close>

lemma parse_put_exact:
  assumes "parse_put rem = Inr (op, n)"
  shows "n \<le> length rem \<and> n + 1 = op_size op \<and> op_ok op \<and> 0 # rem = op_bytes op @ drop n rem"
proof -
  from assms obtain t kl k vl v where s: "slice rem 0 8 = Some t" "slice rem 8 12 = Some kl" "slice rem 12 (12 + get_le kl) = Some k"
    "slice rem (12 + get_le kl) (12 + get_le kl + 4) = Some vl"
    "slice rem (12 + get_le kl + 4) (12 + get_le kl + 4 + get_le vl) = Some v"
    and bound: "get_le kl \<le> MAX_REPLAY_KEY"
    and op: "op = Put (word_of_nat (get_le t)) k v" "n = 12 + get_le kl + 4 + get_le vl"
    by (auto simp: parse_put_def bind_res_Inr Let_def ok_or_def split: if_splits option.splits)
  note p = s [THEN slice_split]
  have "put_u64 (word_of_nat (get_le t)) = t" "put_u32 (length k) = kl" "put_u32 (length v) = vl"
    using p put_get_u64 [of t] put_get_u32 [of kl] put_get_u32 [of vl] by auto
  moreover have "rem = t @ kl @ k @ vl @ v @ drop n rem" using p op(2) by auto
  ultimately show ?thesis using p bound by (auto simp: op op_bytes_def op_size_def op_ok_def)
qed

lemma parse_delete_exact:
  assumes "parse_delete rem = Inr (op, n)"
  shows "n \<le> length rem \<and> n + 1 = op_size op \<and> op_ok op \<and> 1 # rem = op_bytes op @ drop n rem"
proof -
  from assms obtain t kl k where s: "slice rem 0 8 = Some t" "slice rem 8 12 = Some kl" "slice rem 12 (12 + get_le kl) = Some k"
    and bound: "get_le kl \<le> MAX_REPLAY_KEY" and op: "op = Delete (word_of_nat (get_le t)) k" "n = 12 + get_le kl"
    by (auto simp: parse_delete_def bind_res_Inr Let_def ok_or_def split: if_splits option.splits)
  note p = s [THEN slice_split]
  have "put_u64 (word_of_nat (get_le t)) = t" "put_u32 (length k) = kl"
    using p put_get_u64 [of t] put_get_u32 [of kl] by auto
  moreover have "rem = t @ kl @ k @ drop n rem" using p op(2) by auto
  ultimately show ?thesis using p bound by (auto simp: op op_bytes_def op_size_def op_ok_def)
qed

lemma parse_tx_end_exact:
  assumes "parse_tx_end rem = Inr (op, n)"
  shows "n \<le> length rem \<and> n + 1 = op_size op \<and> op_ok op \<and> 2 # rem = op_bytes op @ drop n rem"
proof -
  from assms obtain t c where s: "slice rem 0 8 = Some t" "slice rem 8 9 = Some c" and flag: "\<not> hd c > 1"
    and op: "op = TxEnd (word_of_nat (get_le t)) (hd c = 1)" "n = 9"
    by (auto simp: parse_tx_end_def bind_res_Inr ok_or_def split: if_splits option.splits)
  note p = s [THEN slice_split]
  have "put_u64 (word_of_nat (get_le t)) = t" using p put_get_u64 [of t] by auto
  moreover obtain b where b: "c = [b]" using p by (cases c) auto
  moreover have "b = flag_byte (b = 1)" using flag b by (cases "b = 0") (auto simp: flag_byte_def word_less_nat_alt word_unat_eq_iff)
  moreover have "rem = t @ c @ drop n rem" using p op(2) by auto
  ultimately show ?thesis using p by (auto simp: op op_bytes_def op_size_def op_ok_def)
qed

lemma parse_op_exact:
  "parse_op t rem = Inr (op, n) \<Longrightarrow> n \<le> length rem \<and> n + 1 = op_size op \<and> op_ok op \<and> t # rem = op_bytes op @ drop n rem"
  using parse_put_exact parse_delete_exact parse_tx_end_exact by (auto simp: parse_op_def split: if_splits)

section \<open>Entries\<close>

text \<open>C25: The parser of the log accepts a payload within the limit of a frame exactly when it is the encoding of a well-formed entry, and returns that entry: HMACs of 32 bytes, a key within its limit, a flag of 0 or 1, a matching checksum and no trailing bytes.\<close>

theorem parser_accepts_encodings:
  "from_bytes_classified p data = Inr e \<and> length data \<le> MAX_WAL_ENTRY_SIZE \<longleftrightarrow> entry_ok e \<and> frame_fits e \<and> data = frame_data p e"
proof
  assume parsed: "from_bytes_classified p data = Inr e \<and> length data \<le> MAX_WAL_ENTRY_SIZE"
  let ?payload = "drop 4 data"
  from parsed obtain c q h h' t op n where s: "slice data 0 4 = Some c" "slice ?payload 0 8 = Some q" "slice ?payload 8 40 = Some h"
    "slice ?payload 40 72 = Some h'" "slice ?payload 72 73 = Some t"
    and crc: "word_of_nat (get_le c) = wp_crc32 p ?payload" and op: "parse_op (hd t) (drop 73 ?payload) = Inr (op, n)"
    and len: "length (drop 73 ?payload) \<le> n"
    and e: "e = \<lparr>we_op = op, we_seq = word_of_nat (get_le q), we_checksum = h, we_prev = h'\<rparr>"
    by (auto simp: from_bytes_classified_def bind_res_Inr Let_def ok_or_def not_less simp del: drop_drop split: if_splits option.splits)
  note parts = s [THEN slice_split]
  obtain b where b: "t = [b]" using parts by (cases t) auto
  note exact = parse_op_exact [OF op]
  have ops: "b # drop 73 ?payload = op_bytes op" using exact len b by simp
  have "?payload = q @ h @ h' @ op_bytes op" using parts b ops by simp
  moreover have "data = c @ ?payload" using parts by simp
  moreover have "put_u64 (word_of_nat (get_le q)) = q" using parts by (simp add: put_get_u64)
  moreover have "put_u32 (unat (wp_crc32 p ?payload)) = c" using parts crc put_get_crc [of c] by simp
  ultimately have data: "data = frame_data p e" by (simp add: frame_data_def e Let_def)
  moreover have ok: "entry_ok e" using parts exact by (simp add: entry_ok_def e)
  ultimately show "entry_ok e \<and> frame_fits e \<and> data = frame_data p e"
    using parsed frame_data_length [OF ok, of p] by (simp add: frame_fits_def)
qed (use from_bytes_back frame_data_bounds(2) in auto)

end
