(* ===== verification/WalStream.thy ===== *)
theory WalStream
  imports WalCorrect SstRead
begin

text \<open>
  The scan of the stream accepts exactly the chains of HMACs: what it returns is a chain under the integrity key
  with consecutive sequence numbers, and it returns what was appended, with and without encryption.
\<close>

section \<open>Chains\<close>

definition seq_next :: "u64 option \<Rightarrow> u64 \<Rightarrow> bool" where
  "seq_next prev seq = (case prev of None \<Rightarrow> True | Some s \<Rightarrow> \<not> seq \<le> s \<and> \<not> seq > s + 1)"

fun authentic :: "wal_params \<Rightarrow> bytes \<Rightarrow> bytes \<Rightarrow> u64 option \<Rightarrow> wal_entry list \<Rightarrow> bool" where
  "authentic p key h s [] \<longleftrightarrow> True"
| "authentic p key h s (e # es) \<longleftrightarrow>
     seq_next s (we_seq e) \<and> try_new p (we_op e) (we_seq e) key h = Inr e \<and>
     authentic p key (we_checksum e) (Some (we_seq e)) es"

fun chain_end :: "bytes \<Rightarrow> u64 option \<Rightarrow> wal_entry list \<Rightarrow> bytes \<times> u64 option" where
  "chain_end h s [] = (h, s)"
| "chain_end h s (e # es) = chain_end (we_checksum e) (Some (we_seq e)) es"

lemma authentic_append [simp]:
  "authentic p key h s (xs @ ys) \<longleftrightarrow>
   authentic p key h s xs \<and> authentic p key (fst (chain_end h s xs)) (snd (chain_end h s xs)) ys"
  by (induction xs arbitrary: h s) auto

lemma chain_end_append [simp]:
  "chain_end h s (xs @ ys) = chain_end (fst (chain_end h s xs)) (snd (chain_end h s xs)) ys"
  by (induction xs arbitrary: h s) auto

definition verifier_at :: "bytes \<Rightarrow> bytes \<times> u64 option \<Rightarrow> integrity_verifier" where
  "verifier_at key st = \<lparr>iv_last_hmac = fst st, iv_key = key, iv_last_seq = snd st\<rparr>"

lemma verifier_at_simps [simp]:
  "iv_last_hmac (verifier_at key st) = fst st" "iv_key (verifier_at key st) = key" "iv_last_seq (verifier_at key st) = snd st"
  "(verifier_at key st)\<lparr>iv_last_hmac := c, iv_last_seq := q\<rparr> = verifier_at key (c, q)"
  by (simp_all add: verifier_at_def)

lemma snapshot_simps [simp]:
  "sn_tx_id (snapshot_of e) = op_tx_id (we_op e)" "sn_seq_no (snapshot_of e) = we_seq e"
  "sn_checksum (snapshot_of e) = we_checksum e" "sn_prev_hmac (snapshot_of e) = we_prev e"
  by (simp_all add: snapshot_of_def split: wal_op.split)

lemma committed_flag_back: "committed_flag [flag_byte c] = flag_byte c"
  by (simp add: committed_flag_def flag_byte_def)

lemma verify_v3_iff:
  "verify_and_update_v3 p (verifier_at key (h, s)) (snapshot_of e) offset = Inr iv \<longleftrightarrow>
   seq_next s (we_seq e) \<and> try_new p (we_op e) (we_seq e) key h = Inr e \<and>
   iv = verifier_at key (we_checksum e, Some (we_seq e))"
proof -
  have seq: "seq_follows (verifier_at key (h, s)) (we_seq e) = seq_next s (we_seq e)"
    by (simp add: seq_follows_def seq_next_def)
  have types: "(0 :: u8) \<le> 2" "(1 :: u8) \<le> 2" by (simp_all add: word_le_nat_alt)
  have sum: "verify_and_update_v3 p (verifier_at key (h, s)) (snapshot_of e) offset =
      (if \<not> seq_next s (we_seq e) then Inl (WalCorruption offset)
       else bind_res (compute_checksum_v3 p (we_op e) (we_seq e) key h) (\<lambda>computed.
         if computed \<noteq> we_checksum e \<or> we_prev e \<noteq> h then Inl (WalCorruption offset)
         else Inr (verifier_at key (computed, Some (we_seq e)))))"
    unfolding verify_and_update_v3_def compute_checksum_v3_def
    by (cases "we_op e")
      (simp_all add: seq not_less types committed_flag_back cong: if_cong, simp_all add: snapshot_of_def types committed_flag_back)
  show ?thesis
    unfolding sum try_new_def by (cases e) (auto simp: bind_res_def split: sum.splits if_splits)
qed

lemma verify_entry_accepts:
  assumes "authentic p key h s (e # es)"
  shows "verify_entry p allow V3 (verifier_at key (h, s), legacy) e offset =
    Inr (verifier_at key (we_checksum e, Some (we_seq e)), legacy)"
proof -
  have "verify_and_update_v3 p (verifier_at key (h, s)) (snapshot_of e) offset =
      Inr (verifier_at key (we_checksum e, Some (we_seq e)))"
    using assms by (simp add: verify_v3_iff)
  then show ?thesis by (simp add: verify_entry_def verify_version_def)
qed

lemma verify_entry_authentic:
  assumes "verify_entry p False V3 (verifier_at key st, legacy) e offset = Inr acc"
  shows "authentic p key (fst st) (snd st) [e]" and "acc = (verifier_at key (chain_end (fst st) (snd st) [e]), legacy)"
  using assms verify_v3_iff [of p key "fst st" "snd st" e offset]
  by (auto simp: verify_entry_def verify_version_def split: sum.splits)

section \<open>What is accepted is a chain\<close>

lemma batch_authentic:
  "batch_loop p False V3 start (verifier_at key st, legacy) inner = Inr (es, acc) \<Longrightarrow>
   authentic p key (fst st) (snd st) es \<and> acc = (verifier_at key (chain_end (fst st) (snd st) es), legacy)"
proof (induction "length inner" arbitrary: st inner es acc rule: less_induct)
  case less
  show ?case
  proof (cases "inner = []")
    case True
    then show ?thesis using less.prems by (subst (asm) batch_loop.simps) auto
  next
    case False
    let ?n = "get_le (take 4 inner)"
    from less.prems False obtain e acc1 es1 where
      e: "from_bytes_classified p (take ?n (drop 4 inner)) = Inr e"
      and v: "verify_entry p False V3 (verifier_at key st, legacy) e start = Inr acc1"
      and b: "batch_loop p False V3 start acc1 (drop (4 + ?n) inner) = Inr (es1, acc)" and es: "es = e # es1"
      and len: "\<not> length inner < 4"
      by (subst (asm) batch_loop.simps) (auto simp: Let_def bind_res_Inr split: if_splits sum.splits)
    note a = verify_entry_authentic [OF v]
    have "length (drop (4 + ?n) inner) < length inner" using len by simp
    from less.hyps [OF this b [unfolded a(2)]] a(1) es show ?thesis by simp
  qed
qed

lemma stream_entries_authentic:
  assumes "stream_entries p False V3 start pos fs (verifier_at key st, legacy) raw = Inr (Some (es, acc))"
  shows "authentic p key (fst st) (snd st) es \<and> acc = (verifier_at key (chain_end (fst st) (snd st) es), legacy)"
proof (cases "wp_km p")
  case None
  with assms obtain data e where e: "single_entry p False V3 start pos fs (verifier_at key st, legacy) data = Inr (Some (e, acc))"
    and es: "es = [e]"
    by (auto simp: stream_entries_def bind_res_Inr split: option.splits)
  from e obtain acc1 where "verify_entry p False V3 (verifier_at key st, legacy) e start = Inr acc1" "acc = acc1"
    by (auto simp: single_entry_def bind_res_Inr split: sum.splits if_splits option.splits)
  with verify_entry_authentic [of p key st legacy e start acc1] es show ?thesis by simp
next
  case (Some km)
  with assms obtain plain where "batch_loop p False V3 start (verifier_at key st, legacy) plain = Inr (es, acc)"
    by (auto simp: stream_entries_def bind_res_Inr split: option.splits)
  then show ?thesis by (rule batch_authentic)
qed

lemma stream_loop_authentic:
  "stream_loop p False V3 fs rest pos n (verifier_at key st, legacy) = Inr (xs, l) \<Longrightarrow>
   authentic p key (fst st) (snd st) (map fst xs)"
proof (induction "fs - pos" arbitrary: st rest pos n xs l rule: less_induct)
  case less
  show ?case
  proof (cases "pos \<ge> fs \<or> stream_frame fs rest pos n = Frame_none")
    case True
    then show ?thesis using less.prems by (subst (asm) stream_loop.simps) (auto split: if_splits)
  next
    case False
    with less.prems obtain raw r where raw: "stream_frame fs rest pos n = Frame raw"
      and r: "stream_entries p False V3 pos (pos + 4 + length raw) fs (verifier_at key st, legacy) raw = Inr r"
      and more: "(case r of None \<Rightarrow> Inr ([], legacy)
        | Some (es, acc') \<Rightarrow> bind_res (stream_loop p False V3 fs (drop (4 + length raw) rest) (pos + 4 + length raw) (n + length es) acc')
            (\<lambda>(es', l). Inr (map (\<lambda>e. (e, pos + 4 + length raw)) es @ es', l))) = Inr (xs, l)"
      by (subst (asm) stream_loop.simps) (auto simp: Let_def bind_res_Inr split: frame.splits)
    show ?thesis
    proof (cases r)
      case None
      then show ?thesis using more by simp
    next
      case (Some a)
      obtain es acc where a: "a = (es, acc)" by (cases a)
      note au = stream_entries_authentic [OF r [unfolded Some a]]
      from more au obtain xs' where xs': "stream_loop p False V3 fs (drop (4 + length raw) rest) (pos + 4 + length raw) (n + length es)
          (verifier_at key (chain_end (fst st) (snd st) es), legacy) = Inr (xs', l)"
        and xs: "map fst xs = es @ map fst xs'"
        by (auto simp: Some a bind_res_Inr o_def)
      have "fs - (pos + 4 + length raw) < fs - pos" using False by auto
      from less.hyps [OF this xs'] au show ?thesis by (simp add: xs)
    qed
  qed
qed

lemma verifier_new_at: "verifier_new key = verifier_at key (zero_hmac, None)"
  by (simp add: verifier_new_def verifier_at_def)

section \<open>What was appended is returned\<close>

text \<open>A frame of the file with the entries in it: one entry, or an encrypted batch.\<close>

definition chunk_of :: "wal_params \<Rightarrow> wal_entry list \<Rightarrow> bytes \<Rightarrow> bool" where
  "chunk_of p es bs \<longleftrightarrow>
     (case wp_km p of
        None \<Rightarrow> (\<exists>e. es = [e] \<and> bs = frame_of p e)
      | Some km \<Rightarrow> (\<exists>n enc nonce. km_seal km n (frames p es) = Some (enc, nonce) \<and>
                      bs = put_u32 (12 + length enc) @ nonce @ enc \<and> 12 + length enc \<le> MAX_WAL_ENTRY_SIZE))"

lemma batch_frames:
  "entries_ok es \<Longrightarrow> authentic p key (fst st) (snd st) es \<Longrightarrow>
   batch_loop p allow V3 start (verifier_at key st, l) (frames p es) =
     Inr (es, verifier_at key (chain_end (fst st) (snd st) es), l)"
proof (induction es arbitrary: st)
  case Nil
  then show ?case by (subst batch_loop.simps) simp
next
  case (Cons e es)
  have ok: "entry_ok e" "frame_fits e" using Cons.prems by simp_all
  have len: "get_le (take 4 (frame_of p e)) = length (frame_data p e)"
    using frame_data_bounds [OF ok, of p] by (simp add: frame_of_def)
  have cut: "drop 4 (frame_of p e) = frame_data p e" "drop (4 + length (frame_data p e)) (frame_of p e) = []"
    by (simp_all add: frame_of_def)
  have "verify_entry p allow V3 (verifier_at key st, l) e start = Inr (verifier_at key (we_checksum e, Some (we_seq e)), l)"
    using verify_entry_accepts [of p key "fst st" "snd st" e "[]"] Cons.prems(2) by simp
  then show ?case
    using Cons.IH [of "(we_checksum e, Some (we_seq e))"] Cons.prems
    by (simp, subst batch_loop.simps) (simp add: Let_def len cut from_bytes_back [OF ok])
qed

lemma stream_loop_chunk:
  assumes chunk: "chunk_of p es bs" and ok: "entries_ok es" and km: "km_ok (wp_km p)"
    and au: "authentic p key (fst st) (snd st) es" and size: "pos + length bs + length rest = fs"
  shows "stream_loop p allow V3 fs (bs @ rest) pos n (verifier_at key st, l) =
    bind_res (stream_loop p allow V3 fs rest (pos + length bs) (n + length es)
                (verifier_at key (chain_end (fst st) (snd st) es), l))
      (\<lambda>(xs, l). Inr (map (\<lambda>e. (e, pos + length bs)) es @ xs, l))"
proof -
  obtain raw where raw: "bs = put_u32 (length raw) @ raw" "length raw \<le> MAX_WAL_ENTRY_SIZE"
    and entries: "stream_entries p allow V3 pos (pos + 4 + length raw) fs (verifier_at key st, l) raw =
      Inr (Some (es, verifier_at key (chain_end (fst st) (snd st) es), l))"
  proof (cases "wp_km p")
    case None
    then obtain e where e: "es = [e]" "bs = frame_of p e" using chunk by (auto simp: chunk_of_def)
    have ok': "entry_ok e" "frame_fits e" using ok e by simp_all
    have v: "verify_entry p allow V3 (verifier_at key st, l) e pos = Inr (verifier_at key (we_checksum e, Some (we_seq e)), l)"
      using verify_entry_accepts [of p key "fst st" "snd st" e "[]"] au e(1) by simp
    show thesis
      by (rule that [of "frame_data p e"])
        (use e frame_data_bounds [OF ok'] v in
          \<open>simp_all add: frame_of_def stream_entries_def None open_legacy_def single_entry_def from_bytes_back [OF ok']\<close>)
  next
    case (Some km)
    then obtain m enc nonce where e: "km_seal km m (frames p es) = Some (enc, nonce)"
      "bs = put_u32 (12 + length enc) @ nonce @ enc" "12 + length enc \<le> MAX_WAL_ENTRY_SIZE"
      using chunk by (auto simp: chunk_of_def)
    have k: "length nonce = 12" "km_open km enc nonce = Some (frames p es)"
      using km e(1) unfolding km_ok_def Some by blast+
    show thesis
      by (rule that [of "nonce @ enc"])
        (use e k batch_frames [OF ok au] in \<open>simp_all add: stream_entries_def Some open_batch_def\<close>)
  qed
  have len: "get_le (put_u32 (length raw)) = length raw" using raw(2) by (intro u32_back) (simp add: MAX_WAL_ENTRY_SIZE_def)
  have "stream_frame fs (bs @ rest) pos n = Frame raw"
    using size raw(2) by (simp add: stream_frame_def raw(1) len Let_def)
  moreover have "pos < fs" "bs @ rest = put_u32 (length raw) @ raw @ rest" using size raw(1) by simp_all
  ultimately show ?thesis
    by (subst stream_loop.simps) (simp add: Let_def entries [unfolded add.assoc] raw(1) add.assoc)
qed

definition chunked :: "wal_params \<Rightarrow> wal_entry list \<Rightarrow> bytes \<Rightarrow> bool" where
  "chunked p es bs \<longleftrightarrow> (\<exists>ess bss. list_all2 (chunk_of p) ess bss \<and> concat ess = es \<and> concat bss = bs)"

lemma chunked_Nil [simp]: "chunked p [] []"
  unfolding chunked_def by (rule exI [of _ "[]"]) simp

lemma chunked_append: "chunked p xs as \<Longrightarrow> chunked p ys bs \<Longrightarrow> chunked p (xs @ ys) (as @ bs)"
  unfolding chunked_def by (metis concat_append list_all2_appendI)

lemma chunked_one: "chunk_of p es bs \<Longrightarrow> chunked p es bs"
  unfolding chunked_def by (rule exI [of _ "[es]"], rule exI [of _ "[bs]"]) simp

fun chunk_ends :: "nat \<Rightarrow> wal_entry list list \<Rightarrow> bytes list \<Rightarrow> (wal_entry \<times> nat) list" where
  "chunk_ends pos (es # ess) (bs # bss) = map (\<lambda>e. (e, pos + length bs)) es @ chunk_ends (pos + length bs) ess bss"
| "chunk_ends pos ess bss = []"

lemma map_fst_chunk_ends: "length ess = length bss \<Longrightarrow> map fst (chunk_ends pos ess bss) = concat ess"
  by (induction pos ess bss rule: chunk_ends.induct) (auto simp: o_def)

lemma chunk_ends_plain: "chunk_ends pos (map (\<lambda>e. [e]) es) (map (frame_of p) es) = with_ends p pos es"
  by (induction es arbitrary: pos) auto

lemma stream_loop_chunks:
  assumes "list_all2 (chunk_of p) ess bss" and "entries_ok (concat ess)" and "km_ok (wp_km p)"
    and "authentic p key (fst st) (snd st) (concat ess)" and "pos + length (concat bss) = fs"
  shows "stream_loop p allow V3 fs (concat bss) pos n (verifier_at key st, l) = Inr (chunk_ends pos ess bss, l)"
  using assms
proof (induction arbitrary: st pos n rule: list_all2_induct)
  case Nil
  then show ?case by (subst stream_loop.simps) simp
next
  case (Cons es ess bs bss)
  have xs: "stream_loop p allow V3 fs (concat bss) (pos + length bs) (n + length es)
      (verifier_at key (chain_end (fst st) (snd st) es), l) = Inr (chunk_ends (pos + length bs) ess bss, l)"
    by (rule Cons.IH) (use Cons.prems in auto)
  have "stream_loop p allow V3 fs (bs @ concat bss) pos n (verifier_at key st, l) =
      Inr (map (\<lambda>e. (e, pos + length bs)) es @ chunk_ends (pos + length bs) ess bss, l)"
    by (subst stream_loop_chunk [OF Cons.hyps(1)]) (use Cons.prems xs in auto)
  then show ?case by simp
qed

lemma scan_stream_chunks:
  assumes c: "list_all2 (chunk_of p) ess bss" and "entries_ok (concat ess)" and "km_ok (wp_km p)" and key: "get_integrity_key p = Inr key"
    and "authentic p key zero_hmac None (concat ess)"
  shows "scan_stream p allow (WAL_V3_HEADER @ concat bss) (4 + length (concat bss)) = Inr (chunk_ends 4 ess bss, V3, False)"
proof -
  have "stream_loop p allow V3 (4 + length (concat bss)) (concat bss) 4 0 (verifier_at key (zero_hmac, None), False) =
      Inr (chunk_ends 4 ess bss, False)"
    by (rule stream_loop_chunks [OF c]) (use assms in auto)
  then show ?thesis by (simp add: scan_stream_def key detect_version_def verifier_new_at)
qed

lemma scan_stream_chunked:
  assumes "chunked p es bs" and "entries_ok es" and "km_ok (wp_km p)" and "get_integrity_key p = Inr key"
    and "authentic p key zero_hmac None es"
  shows "\<exists>xs. scan_stream p allow (WAL_V3_HEADER @ bs) (4 + length bs) = Inr (xs, V3, False) \<and> map fst xs = es"
proof -
  obtain ess bss where c: "list_all2 (chunk_of p) ess bss" "concat ess = es" "concat bss = bs"
    using assms(1) unfolding chunked_def by blast
  have "scan_stream p allow (WAL_V3_HEADER @ concat bss) (4 + length (concat bss)) = Inr (chunk_ends 4 ess bss, V3, False)"
    by (rule scan_stream_chunks [OF c(1)]) (use assms c in auto)
  then show ?thesis using map_fst_chunk_ends [OF list_all2_lengthD [OF c(1)]] c by auto
qed

lemma scan_stream_journal:
  assumes km: "wp_km p = None" and "entries_ok es" and "get_integrity_key p = Inr key" and "authentic p key zero_hmac None es"
  shows "scan_stream p allow (journal p es) (length (journal p es)) = Inr (with_ends p 4 es, V3, False)"
proof -
  have "list_all2 (chunk_of p) (map (\<lambda>e. [e]) es) (map (frame_of p) es)"
    by (simp add: chunk_of_def km list.rel_map list_all2_same)
  moreover have "concat (map (\<lambda>e. [e]) es) = es" by (induction es) auto
  ultimately show ?thesis
    using scan_stream_chunks [of p "map (\<lambda>e. [e]) es" "map (frame_of p) es" key allow] assms
    by (simp add: km_ok_def chunk_ends_plain journal_def frames_def)
qed

end
