(* ===== verification/WalLog.thy ===== *)
theory WalLog
  imports WalStream
begin

text \<open>
  The handle of a log: what a sequence of appended batches leaves in the file, and how the handle recovers from
  a write that failed.
\<close>

section \<open>The bytes of a batch\<close>

lemma seal_frame_chunk:
  assumes "wp_km p = Some km" and "seal_frame MAX_WAL_ENTRY_SIZE km n (frames p es) = Inr bs"
  shows "chunked p es bs"
proof -
  from assms(2) obtain enc nonce where "km_seal km n (frames p es) = Some (enc, nonce)"
    "bs = put_u32 (12 + length enc) @ nonce @ enc" "12 + length enc \<le> MAX_WAL_ENTRY_SIZE"
    by (auto simp: seal_frame_def Let_def not_less split: option.splits if_splits)
  then have "chunk_of p es bs" unfolding chunk_of_def assms(1) by auto
  then show ?thesis by (rule chunked_one)
qed

lemma seal_then_Inr:
  "seal_then limit km n plain cont = (m, Inr bs) \<longleftrightarrow>
   (\<exists>as bs'. seal_frame limit km n plain = Inr as \<and> cont (n + 1) = (m, Inr bs') \<and> bs = as @ bs')"
  by (auto simp: seal_then_def bind_res_Inr split: sum.splits prod.splits)

lemma seal_batch_chunked:
  assumes km: "wp_km p = Some km"
  shows "seal_batch km n (frames p cur) (map (\<lambda>e. (is_tx_end (we_op e), frame_of p e)) es) = (m, Inr bs) \<Longrightarrow>
    chunked p (cur @ es) bs"
proof (induction es arbitrary: n cur bs)
  case Nil
  then show ?case
    using chunked_append [OF seal_frame_chunk [OF km, of n cur] chunked_Nil]
    by (cases cur) (auto simp: seal_then_Inr split: if_splits)
next
  case (Cons e es)
  have one: "frame_of p e = frames p [e]" by simp
  consider (split) "frames p cur \<noteq> []" "length (frames p cur) + length (frame_of p e) > MAX_PLAINTEXT"
    | (join) "frames p cur = [] \<or> \<not> length (frames p cur) + length (frame_of p e) > MAX_PLAINTEXT"
    by blast
  then show ?case
  proof cases
    case split
    with Cons.prems obtain as bs' where as: "seal_frame MAX_WAL_ENTRY_SIZE km n (frames p cur) = Inr as" and bs: "bs = as @ bs'"
      and more: "(if is_tx_end (we_op e)
        then seal_then MAX_WAL_ENTRY_SIZE km (n + 1) (frame_of p e)
          (\<lambda>n''. seal_batch km n'' [] (map (\<lambda>e. (is_tx_end (we_op e), frame_of p e)) es))
        else seal_batch km (n + 1) (frame_of p e) (map (\<lambda>e. (is_tx_end (we_op e), frame_of p e)) es)) = (m, Inr bs')"
      by (auto simp: seal_then_Inr simp del: frame_length)
    have "chunked p (e # es) bs'"
    proof (cases "is_tx_end (we_op e)")
      case True
      with more obtain cs ds where cs: "seal_frame MAX_WAL_ENTRY_SIZE km (n + 1) (frames p [e]) = Inr cs"
        and ds: "seal_batch km (n + 1 + 1) (frames p []) (map (\<lambda>e. (is_tx_end (we_op e), frame_of p e)) es) = (m, Inr ds)"
        and bs': "bs' = cs @ ds"
        by (auto simp: seal_then_Inr)
      from chunked_append [OF seal_frame_chunk [OF km cs] Cons.IH [OF ds]] show ?thesis by (simp add: bs')
    next
      case False
      with more have "seal_batch km (n + 1) (frames p [e]) (map (\<lambda>e. (is_tx_end (we_op e), frame_of p e)) es) = (m, Inr bs')" by simp
      from Cons.IH [OF this] show ?thesis by simp
    qed
    from chunked_append [OF seal_frame_chunk [OF km as] this] show ?thesis by (simp add: bs)
  next
    case join
    show ?thesis
    proof (cases "is_tx_end (we_op e)")
      case True
      with Cons.prems join obtain cs ds where cs: "seal_frame MAX_WAL_ENTRY_SIZE km n (frames p (cur @ [e])) = Inr cs"
        and ds: "seal_batch km (n + 1) (frames p []) (map (\<lambda>e. (is_tx_end (we_op e), frame_of p e)) es) = (m, Inr ds)"
        and bs: "bs = cs @ ds"
        by (auto simp: seal_then_Inr simp del: frame_length)
      from chunked_append [OF seal_frame_chunk [OF km cs] Cons.IH [OF ds]] show ?thesis by (simp add: bs)
    next
      case False
      with Cons.prems join
      have "seal_batch km n (frames p (cur @ [e])) (map (\<lambda>e. (is_tx_end (we_op e), frame_of p e)) es) = (m, Inr bs)"
        by (auto simp del: frame_length)
      from Cons.IH [OF this] show ?thesis by simp
    qed
  qed
qed

lemma serialize_entries_Inr:
  "\<forall>e \<in> set es. entry_ok e \<Longrightarrow> serialize_entries p es = Inr parts \<Longrightarrow>
   (\<forall>e \<in> set es. frame_fits e) \<and> parts = map (\<lambda>e. (is_tx_end (we_op e), frame_of p e)) es"
proof (induction es arbitrary: parts)
  case (Cons e es)
  have "entry_ok e" using Cons.prems(1) by simp
  with Cons.prems(2) obtain rest where "frame_fits e" "serialize_entries p es = Inr rest"
    "parts = (is_tx_end (we_op e), frame_of p e) # rest"
    by (auto simp: bind_res_Inr to_bytes_frame split: if_splits)
  with Cons.IH [of rest] Cons.prems(1) show ?case by simp
qed simp

lemma chunked_frames: "wp_km p = None \<Longrightarrow> chunked p es (frames p es)"
proof (induction es)
  case (Cons e es)
  have "chunked p [e] (frame_of p e)" using Cons.prems by (intro chunked_one) (simp add: chunk_of_def)
  from chunked_append [OF this Cons.IH [OF Cons.prems]] show ?case by simp
qed simp

lemma chunked_plain:
  assumes "wp_km p = None" and "chunked p es bs"
  shows "bs = frames p es"
proof -
  obtain ess bss where c: "list_all2 (chunk_of p) ess bss" "concat ess = es" "concat bss = bs"
    using assms(2) unfolding chunked_def by blast
  from c(1) have "concat bss = frames p (concat ess)"
    by (induction rule: list_all2_induct) (auto simp: chunk_of_def assms(1))
  with c show ?thesis by simp
qed

lemma payload_chunked:
  assumes "prepare_append_payload p w es = (w', Inr (bs, h))" and "\<forall>e \<in> set es. entry_ok e" and "es \<noteq> []"
  shows "\<exists>n. w' = w\<lparr>wl_nonce := n\<rparr>" and "entries_ok es" and "chunked p es bs" and "h = we_checksum (last es)"
proof -
  from assms(1,3) obtain parts where s: "\<not> wl_sealed w" "serialize_entries p es = Inr parts"
    by (auto simp: prepare_append_payload_def split: if_splits sum.splits)
  note parts = serialize_entries_Inr [OF assms(2) s(2)]
  show "entries_ok es" using assms(2) parts by simp
  have "(\<exists>n. w' = w\<lparr>wl_nonce := n\<rparr>) \<and> chunked p es bs \<and> h = we_checksum (last es)"
  proof (cases "wp_km p")
    case None
    then have "w' = w \<and> bs = concat (map snd parts) \<and> h = we_checksum (last es)"
      using assms(1,3) s by (auto simp: prepare_append_payload_def)
    moreover have "concat (map snd parts) = frames p es" using parts by (simp add: frames_def o_def)
    moreover have "w = w\<lparr>wl_nonce := wl_nonce w\<rparr>" by simp
    ultimately show ?thesis using chunked_frames [OF None] by metis
  next
    case (Some km)
    then obtain m where m: "seal_batch km (wl_nonce w) [] parts = (m, Inr bs)" "w' = w\<lparr>wl_nonce := m\<rparr>" "h = we_checksum (last es)"
      using assms(1,3) s by (auto simp: prepare_append_payload_def bind_res_Inr split: prod.splits)
    have "chunked p ([] @ es) bs"
      by (rule seal_batch_chunked [OF Some, of "wl_nonce w"]) (use m parts in auto)
    with m show ?thesis by auto
  qed
  then show "\<exists>n. w' = w\<lparr>wl_nonce := n\<rparr>" "chunked p es bs" "h = we_checksum (last es)" by blast+
qed

section \<open>Chaining\<close>

fun seqs_next :: "u64 option \<Rightarrow> u64 list \<Rightarrow> bool" where
  "seqs_next s [] \<longleftrightarrow> True"
| "seqs_next s (q # qs) \<longleftrightarrow> seq_next s q \<and> seqs_next (Some q) qs"

definition hmac_ok :: "wal_params \<Rightarrow> bool" where
  "hmac_ok p \<longleftrightarrow> (\<forall>key m. length (wp_hmac p key m) = 32)"

abbreviation ops_of :: "wal_entry list \<Rightarrow> (wal_op \<times> u64) list" where
  "ops_of es \<equiv> map (\<lambda>e. (we_op e, we_seq e)) es"

lemma try_new_Inr:
  assumes "try_new p op seq key h = Inr e"
  shows "we_op e = op \<and> we_seq e = seq \<and> we_prev e = h" and "hmac_ok p \<Longrightarrow> length (we_checksum e) = 32"
  using assms by (auto simp: try_new_def bind_res_Inr compute_checksum_v3_def wal_hmac_def hmac_ok_def split: if_splits)

lemma chain_entries_Inr:
  "chain_entries p key h ops = Inr (es, h') \<Longrightarrow>
   ops_of es = ops \<and> h' = fst (chain_end h s es) \<and> (seqs_next s (map snd ops) \<longrightarrow> authentic p key h s es) \<and>
   (hmac_ok p \<longrightarrow> length h = 32 \<longrightarrow> (\<forall>(op, q) \<in> set ops. op_ok op) \<longrightarrow> (\<forall>e \<in> set es. entry_ok e) \<and> length h' = 32)"
proof (induction ops arbitrary: h s es h')
  case (Cons o1 ops)
  obtain op q where o1: "o1 = (op, q)" by (cases o1)
  from Cons.prems obtain e es1 where e: "try_new p op q key h = Inr e"
    and es1: "chain_entries p key (we_checksum e) ops = Inr (es1, h')" and es: "es = e # es1"
    by (auto simp: o1 bind_res_Inr)
  note t = try_new_Inr [OF e]
  from Cons.IH [OF es1, of "Some q"] t e show ?case
    by (auto simp: es o1 entry_ok_def)
qed simp

lemma chain_end_some: "es \<noteq> [] \<Longrightarrow> chain_end h s es = (we_checksum (last es), Some (we_seq (last es)))"
  by (induction h s es rule: chain_end.induct) auto

section \<open>The handle\<close>

definition log_state :: "wal_params \<Rightarrow> bytes \<Rightarrow> wal \<Rightarrow> wal_entry list \<Rightarrow> bool" where
  "log_state p key w es \<longleftrightarrow>
     entries_ok es \<and> authentic p key zero_hmac None es \<and>
     (\<exists>bs. chunked p es bs \<and> (wl_file w = WAL_V3_HEADER @ bs \<or> es = [] \<and> wl_file w = [])) \<and>
     wl_size w = length (wl_file w) \<and> wl_header w = (wl_file w \<noteq> []) \<and> wl_hmac w = fst (chain_end zero_hmac None es)"

definition working :: "wal \<Rightarrow> bool" where
  "working w \<longleftrightarrow> wl_flusher w \<and> \<not> wl_sealed w \<and> \<not> wl_poisoned w \<and> \<not> wl_truncate_lock w"

text \<open>A batch of the commit path: prepared and appended.\<close>

definition log_batch :: "wal_params \<Rightarrow> wal \<Rightarrow> (wal_op \<times> u64) list \<Rightarrow> write_outcome \<Rightarrow> wal \<times> (wal_error + unit)" where
  "log_batch p w ops io =
     (case prepare_batch p w ops of
        (w1, Inl e) \<Rightarrow> (w1, Inl e)
      | (w1, Inr (es, prev)) \<Rightarrow> append_batch_locked p w1 es io)"

fun log_batches :: "wal_params \<Rightarrow> wal \<Rightarrow> (wal_op \<times> u64) list list \<Rightarrow> wal \<times> (wal_error + unit)" where
  "log_batches p w [] = (w, Inr ())"
| "log_batches p w (ops # opss) =
     (case log_batch p w ops Written of
        (w1, Inl e) \<Rightarrow> (w1, Inl e)
      | (w1, Inr _) \<Rightarrow> log_batches p w1 opss)"

lemma hmac_length:
  assumes "log_state p key w es"
  shows "length (wl_hmac w) = 32"
  using assms by (cases "es = []") (auto simp: log_state_def chain_end_some entry_ok_def)

text \<open>What an append writes, and what it would leave when it succeeds.\<close>

lemma append_parts:
  assumes log: "log_state p key w es" and work: "working w" and key: "get_integrity_key p = Inr key" and hmac: "hmac_ok p"
    and ops: "\<forall>(op, q) \<in> set ops. op_ok op" and seqs: "seqs_next (snd (chain_end zero_hmac None es)) (map snd ops)"
    and run: "log_batch p w ops io = (w', r)" and reached: "r = Inr () \<or> wl_poisoned w'" and ne: "ops \<noteq> []"
  obtains es' bs m where "ops_of es' = ops" and "entries_ok es'" and "chunked p es' bs"
    and "authentic p key zero_hmac None (es @ es')"
    and "(w', r) = flusher_append (w\<lparr>wl_hmac := fst (chain_end zero_hmac None (es @ es')), wl_nonce := m\<rparr>) bs
        (fst (chain_end zero_hmac None (es @ es'))) io"
proof -
  let ?st = "chain_end zero_hmac None es"
  have h: "wl_hmac w = fst ?st" using log by (simp add: log_state_def)
  from run work key reached obtain es' h' where chain: "chain_entries p key (fst ?st) ops = Inr (es', h')"
    and app: "append_batch_locked p (w\<lparr>wl_hmac := h'\<rparr>) es' io = (w', r)"
    by (auto simp: log_batch_def prepare_batch_def working_def h split: sum.splits)
  have all: "ops_of es' = ops" "h' = fst (chain_end zero_hmac None (es @ es'))"
    "authentic p key (fst ?st) (snd ?st) es'" "\<forall>e \<in> set es'. entry_ok e"
    using chain_entries_Inr [OF chain, of "snd ?st"] seqs hmac ops hmac_length [OF log] h by (auto simp: case_prod_beta)
  have ne': "es' \<noteq> []" using all(1) ne by auto
  from app work ne' reached obtain w1 bs hl where pay: "prepare_append_payload p (w\<lparr>wl_hmac := h'\<rparr>) es' = (w1, Inr (bs, hl))"
    and fl: "(if \<not> wl_flusher w1 then (w1, Inl WalStorage) else flusher_append w1 bs hl io) = (w', r)"
    by (auto simp: append_batch_locked_def working_def prepare_append_payload_def split: prod.splits sum.splits if_splits option.splits)
  note pc = payload_chunked [OF pay all(4) ne']
  obtain m where w1: "w1 = w\<lparr>wl_hmac := h', wl_nonce := m\<rparr>" using pc(1) by auto
  have hl: "hl = h'" using pc(4) all(2) ne' by (simp add: chain_end_some)
  have au: "authentic p key zero_hmac None (es @ es')" using log all(3) by (simp add: log_state_def)
  show thesis
    by (rule that [OF all(1) pc(2,3) au, of m]) (use fl work in \<open>simp add: w1 hl all(2) working_def\<close>)
qed

lemma log_batch_state:
  assumes log: "log_state p key w es" and work: "working w" and key: "get_integrity_key p = Inr key" and hmac: "hmac_ok p"
    and ops: "\<forall>(op, q) \<in> set ops. op_ok op" and seqs: "seqs_next (snd (chain_end zero_hmac None es)) (map snd ops)"
    and run: "log_batch p w ops Written = (w', Inr ())"
  shows "\<exists>es'. ops_of es' = ops \<and> log_state p key w' (es @ es')" and "working w'"
proof -
  have "(\<exists>es'. ops_of es' = ops \<and> log_state p key w' (es @ es')) \<and> working w'"
  proof (cases "ops = []")
    case True
    then have "w' = w"
      using run log work key by (auto simp: log_batch_def prepare_batch_def append_batch_locked_def working_def split: if_splits)
    with log work True show ?thesis by (auto intro!: exI [of _ "[]"])
  next
    case False
    obtain es' bs m where es': "ops_of es' = ops" "entries_ok es'" "chunked p es' bs" "authentic p key zero_hmac None (es @ es')"
      and fl: "(w', Inr ()) = flusher_append (w\<lparr>wl_hmac := fst (chain_end zero_hmac None (es @ es')), wl_nonce := m\<rparr>) bs
        (fst (chain_end zero_hmac None (es @ es'))) Written"
      using append_parts [OF log work key hmac ops seqs run _ False] by blast
    let ?hd = "if \<not> wl_header w \<and> wl_size w = 0 then WAL_V3_HEADER else []"
    from fl have w': "wl_file w' = wl_file w @ ?hd @ bs" "wl_header w' = (wl_header w \<or> \<not> wl_header w \<and> wl_size w = 0)"
      "wl_size w' = wl_size w + length (?hd @ bs)" "wl_hmac w' = fst (chain_end zero_hmac None (es @ es'))" "working w'"
      using work by (auto simp: flusher_append_def working_def Let_def split: if_splits)
    obtain bs0 where bs0: "chunked p es bs0" "wl_file w = WAL_V3_HEADER @ bs0 \<or> es = [] \<and> wl_file w = []"
      and sz: "wl_size w = length (wl_file w)" "wl_header w = (wl_file w \<noteq> [])" and oks: "entries_ok es"
      using log by (auto simp: log_state_def)
    have hd: "WAL_V3_HEADER \<noteq> []" by (simp add: WAL_V3_HEADER_def)
    have disk: "\<exists>bs1. chunked p (es @ es') bs1 \<and> wl_file w' = WAL_V3_HEADER @ bs1"
    proof (cases "wl_file w = []")
      case True
      then have "es = []" using bs0(2) hd by auto
      with True es'(3) w'(1) sz show ?thesis by auto
    next
      case False
      then show ?thesis using w'(1) sz bs0 chunked_append [OF bs0(1) es'(3)] by auto
    qed
    moreover have "wl_size w' = length (wl_file w')" "wl_header w' = (wl_file w' \<noteq> [])" using w' sz disk hd by auto
    ultimately have "log_state p key w' (es @ es')"
      using es' oks w'(4) unfolding log_state_def by (auto simp: ball_Un)
    with es'(1) w'(5) show ?thesis by blast
  qed
  then show "\<exists>es'. ops_of es' = ops \<and> log_state p key w' (es @ es')" "working w'" by blast+
qed

lemma new_log_state: "log_state p key (handle_on [] n allow) []" and new_working: "working (handle_on bs n allow)"
  by (auto simp: log_state_def handle_on_def working_def intro: exI [of _ "[]"])

section \<open>Appends succeed\<close>

definition key_ok :: "bytes \<Rightarrow> bool" where
  "key_ok key \<longleftrightarrow> key \<noteq> [] \<and> length key \<le> 10000"

definition op_fits :: "wal_op \<Rightarrow> bool" where
  "op_fits op \<longleftrightarrow> op_ok op \<and> 76 + op_size op \<le> MAX_WAL_ENTRY_SIZE"

lemma op_fits_ok: "op_fits op \<Longrightarrow> op_ok op"
  by (simp add: op_fits_def)

lemma try_new_exists: "key_ok key \<Longrightarrow> \<exists>e. try_new p op seq key h = Inr e"
  by (simp add: try_new_def compute_checksum_v3_def wal_hmac_def key_ok_def)

lemma chain_entries_exists: "key_ok key \<Longrightarrow> \<exists>es h'. chain_entries p key h ops = Inr (es, h')"
proof (induction ops arbitrary: h)
  case (Cons o1 ops)
  obtain op q where o1: "o1 = (op, q)" by (cases o1)
  obtain e where e: "try_new p op q key h = Inr e" using try_new_exists [OF Cons.prems] by blast
  obtain es h' where "chain_entries p key (we_checksum e) ops = Inr (es, h')" using Cons.IH [OF Cons.prems] by blast
  with e show ?case by (simp add: o1)
qed simp

lemma serialize_entries_exists:
  "wp_km p = None \<Longrightarrow> entries_ok es \<Longrightarrow> serialize_entries p es = Inr (map (\<lambda>e. (is_tx_end (we_op e), frame_of p e)) es)"
  by (induction es) (auto simp: to_bytes_frame)

lemma log_batch_written:
  assumes log: "log_state p key w es" and work: "working w" and key: "get_integrity_key p = Inr key" "key_ok key"
    and hmac: "hmac_ok p" and km: "wp_km p = None" and ops: "\<forall>(op, q) \<in> set ops. op_fits op"
  shows "\<exists>es'. ops_of es' = ops \<and> entries_ok es' \<and>
    (ops \<noteq> [] \<longrightarrow> log_batch p w ops io = flusher_append (w\<lparr>wl_hmac := fst (chain_end zero_hmac None (es @ es'))\<rparr>) (frames p es')
      (fst (chain_end zero_hmac None (es @ es'))) io)"
proof -
  let ?st = "chain_end zero_hmac None es"
  have h: "wl_hmac w = fst ?st" using log by (simp add: log_state_def)
  obtain es' h' where chain: "chain_entries p key (fst ?st) ops = Inr (es', h')" using chain_entries_exists [OF key(2)] by blast
  have "\<forall>(op, q) \<in> set ops. op_ok op" using ops by (auto simp: op_fits_def)
  then have all: "ops_of es' = ops" "h' = fst (chain_end zero_hmac None (es @ es'))" "\<forall>e \<in> set es'. entry_ok e"
    using chain_entries_Inr [OF chain, of "snd ?st"] hmac hmac_length [OF log] h by (auto simp: case_prod_beta)
  have fits: "frame_fits e" if "e \<in> set es'" for e
  proof -
    have "(we_op e, we_seq e) \<in> set ops" using that all(1) by force
    with ops show ?thesis by (auto simp: op_fits_def frame_fits_def)
  qed
  have oks: "entries_ok es'" using all(3) fits by blast
  have "log_batch p w ops io = append_batch_locked p (w\<lparr>wl_hmac := h'\<rparr>) es' io"
    using work chain key(1) by (simp add: log_batch_def prepare_batch_def working_def h)
  moreover have "ops \<noteq> [] \<Longrightarrow> append_batch_locked p (w\<lparr>wl_hmac := h'\<rparr>) es' io =
      flusher_append (w\<lparr>wl_hmac := h'\<rparr>) (frames p es') h' io"
  proof -
    assume "ops \<noteq> []"
    then have ne: "es' \<noteq> []" using all(1) by auto
    then have "we_checksum (last es') = h'" by (simp add: all(2) chain_end_some)
    moreover have "concat (map snd (map (\<lambda>e. (is_tx_end (we_op e), frame_of p e)) es')) = frames p es'" by (simp add: frames_def o_def)
    ultimately show ?thesis
      using ne work serialize_entries_exists [OF km oks]
      by (simp add: append_batch_locked_def prepare_append_payload_def working_def km)
  qed
  ultimately show ?thesis using all(1,2) oks by auto
qed

lemma log_batch_succeeds:
  assumes "log_state p key w es" "working w" "get_integrity_key p = Inr key" "key_ok key" "hmac_ok p" "wp_km p = None"
    and "\<forall>(op, q) \<in> set ops. op_fits op" and seqs: "seqs_next (snd (chain_end zero_hmac None es)) (map snd ops)"
  shows "\<exists>w' es'. log_batch p w ops Written = (w', Inr ()) \<and> ops_of es' = ops \<and> log_state p key w' (es @ es') \<and> working w'"
proof -
  have oks: "\<forall>(op, q) \<in> set ops. op_ok op" using assms(7) by (auto simp: op_fits_def)
  obtain w' r where run: "log_batch p w ops Written = (w', r)" by fastforce
  have "r = Inr ()"
  proof (cases "ops = []")
    case True
    with run assms(2,3) show ?thesis
      by (auto simp: log_batch_def prepare_batch_def append_batch_locked_def working_def split: if_splits)
  next
    case False
    with log_batch_written [OF assms(1-7), of Written] run assms(2) show ?thesis
      by (auto simp: flusher_append_def working_def Let_def split: if_splits)
  qed
  with log_batch_state [OF assms(1-3,5) oks seqs, of w'] run show ?thesis by blast
qed

lemma seqs_next_append [simp]:
  "seqs_next s (xs @ ys) \<longleftrightarrow> seqs_next s xs \<and> seqs_next (if xs = [] then s else Some (last xs)) ys"
  by (induction xs arbitrary: s) auto

lemma chain_end_seq: "snd (chain_end h s es) = (if es = [] then s else Some (last (map we_seq es)))"
  by (induction h s es rule: chain_end.induct) auto

lemma log_batches_state:
  "log_state p key w es \<Longrightarrow> working w \<Longrightarrow> get_integrity_key p = Inr key \<Longrightarrow> hmac_ok p \<Longrightarrow>
   \<forall>(op, q) \<in> set (concat opss). op_ok op \<Longrightarrow>
   seqs_next (snd (chain_end zero_hmac None es)) (map snd (concat opss)) \<Longrightarrow> log_batches p w opss = (w', Inr ()) \<Longrightarrow>
   \<exists>es'. ops_of es' = concat opss \<and> log_state p key w' (es @ es') \<and> working w'"
proof (induction opss arbitrary: w es)
  case Nil
  then show ?case by (auto intro!: exI [of _ "[]"])
next
  case (Cons ops opss)
  from Cons.prems(7) obtain w1 where w1: "log_batch p w ops Written = (w1, Inr ())" and more: "log_batches p w1 opss = (w', Inr ())"
    by (auto split: prod.splits sum.splits)
  have ok: "\<forall>(op, q) \<in> set ops. op_ok op" "\<forall>(op, q) \<in> set (concat opss). op_ok op" using Cons.prems(5) by auto
  have seqs: "seqs_next (snd (chain_end zero_hmac None es)) (map snd ops)" using Cons.prems(6) by simp
  obtain es1 where es1: "ops_of es1 = ops" "log_state p key w1 (es @ es1)" "working w1"
    using log_batch_state [OF Cons.prems(1-4) ok(1) seqs w1] by blast
  have "map we_seq es1 = map snd ops" using arg_cong [OF es1(1), of "map snd"] by (simp add: o_def)
  then have "seqs_next (snd (chain_end zero_hmac None (es @ es1))) (map snd (concat opss))"
    using Cons.prems(6) by (auto simp: chain_end_seq split: if_splits)
  from Cons.IH [OF es1(2,3) Cons.prems(3,4) ok(2) this more] obtain es' where
    "ops_of es' = concat opss" "log_state p key w' ((es @ es1) @ es')" "working w'" by blast
  with es1(1) show ?case by (intro exI [of _ "es1 @ es'"]) simp
qed

end
