(* ===== verification/WalProps.thy ===== *)
theory WalProps
  imports WalLog
begin

text \<open>
  What the write-ahead log promises: what was appended is scanned and replayed, a torn tail costs only the torn
  entries, a poisoned handle recovers, a rollback finds its place; and where it does not hold: the first
  entry of a file, encrypted files, forged entries, reused sequence numbers, and an append that fails in a commit.
\<close>

text \<open>A log for the examples: no encryption, constant checksums.\<close>

definition plain_params :: wal_params where
  "plain_params = \<lparr>wp_crc32 = (\<lambda>_. 7), wp_hmac = (\<lambda>_ m. replicate 32 (word_of_nat (length m))), wp_km = None,
     wp_km_key = [], wp_fallback_key = Some [1], wp_legacy_key = None\<rparr>"

lemma plain_simps [simp]:
  "hmac_ok plain_params" "wp_km plain_params = None" "get_integrity_key plain_params = Inr [1]" "key_ok [1]" "km_ok None"
  by (simp_all add: plain_params_def hmac_ok_def get_integrity_key_def key_ok_def km_ok_def)

definition put_batch :: "(wal_op \<times> u64) list" where
  "put_batch = [(Put 1 [107] [1], 1), (TxEnd 1 True, 2)]"

lemma example_batch: "\<forall>(op, q) \<in> set put_batch. op_fits op" "seqs_next None (map snd put_batch)"
  by (simp_all add: put_batch_def op_fits_def op_ok_def op_size_def MAX_REPLAY_KEY_def MAX_WAL_ENTRY_SIZE_def seq_next_def
      word_le_nat_alt word_less_nat_alt)

lemma example_log:
  obtains w' es where "log_batch plain_params (handle_on [] 0 False) put_batch Written = (w', Inr ())" and "ops_of es = put_batch"
    and "log_state plain_params [1] w' es" and "working w'"
proof -
  from log_batch_succeeds [OF new_log_state new_working, of plain_params "[1]" put_batch 0 False] example_batch
  obtain w' es where "log_batch plain_params (handle_on [] 0 False) put_batch Written = (w', Inr ())" "ops_of es = put_batch"
    "log_state plain_params [1] w' es" "working w'" by auto
  then show thesis by (rule that)
qed

section \<open>What was appended is scanned\<close>

lemma log_file:
  assumes "log_state p key w es"
  shows "(\<exists>bs. chunked p es bs \<and> wl_file w = WAL_V3_HEADER @ bs) \<or> es = [] \<and> wl_file w = []"
  using assms by (auto simp: log_state_def)

lemma log_scanned:
  assumes log: "log_state p key w es" and "km_ok (wp_km p)" and "get_integrity_key p = Inr key"
  shows "\<exists>xs ver. scan_stream p allow (wl_file w) (length (wl_file w)) = Inr (xs, ver, False) \<and> map fst xs = es"
  using log_file [OF log]
proof
  assume "\<exists>bs. chunked p es bs \<and> wl_file w = WAL_V3_HEADER @ bs"
  then obtain bs where "chunked p es bs" "wl_file w = WAL_V3_HEADER @ bs" by blast
  with scan_stream_chunked [of p es bs key allow] assms show ?thesis by (auto simp: log_state_def)
qed (simp add: scan_stream_def)

lemma log_replayed:
  assumes log: "log_state p key w es" and km: "wp_km p = None"
  shows "wl_file w = journal p es \<or> es = [] \<and> wl_file w = []" and "replay p (wl_file w) = Inr (with_ends p 4 es)"
    and "get_integrity_key p = Inr key \<Longrightarrow>
      \<exists>ver. scan_stream p allow (wl_file w) (length (wl_file w)) = Inr (with_ends p 4 es, ver, False)"
proof -
  show disk: "wl_file w = journal p es \<or> es = [] \<and> wl_file w = []"
    using log_file [OF log] chunked_plain [OF km] by (auto simp: journal_def)
  have "entries_ok es" using log by (simp add: log_state_def)
  with disk show "replay p (wl_file w) = Inr (with_ends p 4 es)"
    using replay_journal [of es p] replay_short [of "[]" p] by auto
  show "\<exists>ver. scan_stream p allow (wl_file w) (length (wl_file w)) = Inr (with_ends p 4 es, ver, False)"
    if "get_integrity_key p = Inr key"
  proof -
    have "entries_ok es" "authentic p key zero_hmac None es" using log by (simp_all add: log_state_def)
    then have "scan_stream p allow (journal p es) (length (journal p es)) = Inr (with_ends p 4 es, V3, False)"
      using scan_stream_journal [OF km _ that] by blast
    moreover have "scan_stream p allow [] 0 = Inr ([], V1, False)" by (simp add: scan_stream_def)
    ultimately show ?thesis using disk by auto
  qed
qed

text \<open>C26: Whatever batches of operations a log takes, the scan of its file returns exactly these operations in order, encrypted or not; without encryption the replay returns the same.\<close>

theorem appended_is_scanned:
  assumes "log_batches p (handle_on [] n allow) opss = (w, Inr ())" and "seqs_next None (map snd (concat opss))"
    and "\<forall>(op, q) \<in> set (concat opss). op_ok op"
    and key: "get_integrity_key p = Inr key" and "hmac_ok p" and "km_ok (wp_km p)"
  shows "\<exists>xs ver. scan_stream p allow' (wl_file w) (length (wl_file w)) = Inr (xs, ver, False) \<and>
      ops_of (map fst xs) = concat opss \<and> (wp_km p = None \<longrightarrow> replay p (wl_file w) = Inr xs)"
proof -
  obtain es where es: "ops_of es = concat opss" and log: "log_state p key w es"
    using log_batches_state [OF new_log_state new_working key assms(5,3) _ assms(1)] assms(2) by auto
  show ?thesis
  proof (cases "wp_km p")
    case None
    obtain ver where "scan_stream p allow' (wl_file w) (length (wl_file w)) = Inr (with_ends p 4 es, ver, False)"
      using log_replayed(3) [OF log None key] by blast
    with log_replayed(2) [OF log None] es show ?thesis by (intro exI [of _ "with_ends p 4 es"] exI [of _ ver]) simp
  next
    case (Some km)
    obtain xs ver where "scan_stream p allow' (wl_file w) (length (wl_file w)) = Inr (xs, ver, False)" "map fst xs = es"
      using log_scanned [OF log assms(6) key] by blast
    with es Some show ?thesis by (intro exI [of _ xs] exI [of _ ver]) simp
  qed
qed

lemma example_run:
  obtains w es where "log_batches plain_params (handle_on [] 0 False) [put_batch] = (w, Inr ())" and "ops_of es = put_batch"
    and "log_state plain_params [1] w es" and "working w"
proof -
  obtain w es where "log_batch plain_params (handle_on [] 0 False) put_batch Written = (w, Inr ())" "ops_of es = put_batch"
    "log_state plain_params [1] w es" "working w" by (rule example_log)
  then show thesis by (intro that [of w es]) simp_all
qed

lemma example_concat: "concat [put_batch] = put_batch"
  by simp

lemma example_ok: "\<forall>(op, q) \<in> set (concat [put_batch]). op_ok op" "seqs_next None (map snd (concat [put_batch]))"
  using example_batch by (auto simp: op_fits_def)

theorem appended_is_scanned_witness:
  "\<exists>(w :: wal) xs ver. scan_stream plain_params False (wl_file w) (length (wl_file w)) = Inr (xs, ver, False) \<and>
     ops_of (map fst xs) = put_batch \<and> replay plain_params (wl_file w) = Inr xs"
proof -
  obtain w where run: "log_batches plain_params (handle_on [] 0 False) [put_batch] = (w, Inr ())" by (rule example_run)
  obtain xs ver where "scan_stream plain_params False (wl_file w) (length (wl_file w)) = Inr (xs, ver, False)"
    "ops_of (map fst xs) = concat [put_batch]" "replay plain_params (wl_file w) = Inr xs"
    using appended_is_scanned [OF run example_ok(2,1) plain_simps(3,1), of False] by auto
  then show ?thesis unfolding example_concat by blast
qed

section \<open>A torn tail\<close>

lemma whole_frames_ends:
  "pos \<le> n \<Longrightarrow> with_ends p pos (whole_frames p (n - pos) es) = takeWhile (\<lambda>x. snd x \<le> n) (with_ends p pos es)"
proof (induction es arbitrary: pos)
  case (Cons e es)
  show ?case
  proof (cases "pos + length (frame_of p e) \<le> n")
    case True
    then have "n - pos - length (frame_of p e) = n - (pos + length (frame_of p e))" "length (frame_of p e) \<le> n - pos" by simp_all
    with Cons.IH [OF True] True show ?thesis by (simp del: frame_length)
  next
    case False
    then have "\<not> length (frame_of p e) \<le> n - pos" using Cons.prems by (simp del: frame_length)
    with False show ?thesis by (simp del: frame_length)
  qed
qed simp

lemma replay_cut:
  assumes ok: "entries_ok es"
  shows "replay p (take n (journal p es)) =
    (if 64 < n \<and> es \<noteq> [] \<and> n < snd (hd (with_ends p 4 es)) then Inl (WalCorruption 4)
     else Inr (takeWhile (\<lambda>x. snd x \<le> n) (with_ends p 4 es)))"
proof -
  let ?n = "min n (length (journal p es))"
  have cut: "replay p (take n (journal p es)) =
      (if 64 < ?n \<and> whole_frames p (?n - 4) es = [] then Inl (WalCorruption 4) else Inr (with_ends p 4 (whole_frames p (?n - 4) es)))"
  proof -
    have "take ?n (journal p es) = take n (journal p es)" by (simp add: min_def)
    with replay_prefix [OF ok, of ?n p] show ?thesis by simp
  qed
  show ?thesis
  proof (cases "n < 4")
    case True
    then have "whole_frames p (?n - 4) es = []" by (cases es) (simp_all add: frame_of_def)
    moreover have "takeWhile (\<lambda>x. snd x \<le> n) (with_ends p 4 es) = []" using True by (cases es) simp_all
    ultimately show ?thesis using cut True by simp
  next
    case False
    have none: "whole_frames p (n - 4) es = [] \<longleftrightarrow> es = [] \<or> n < snd (hd (with_ends p 4 es))"
      using False by (cases es) (auto simp del: frame_length)
    have whole: "whole_frames p (?n - 4) es = whole_frames p (n - 4) es"
      by (cases "n \<le> length (journal p es)") (simp_all add: min_def journal_def)
    have "?n \<le> 64" if "es = []" using that by (simp add: journal_def)
    then show ?thesis
      using cut whole none whole_frames_ends [of 4 n p es] False by (auto simp: journal_def min_def split: if_splits)
  qed
qed

text \<open>C27: A log without encryption that is cut after any number of bytes replays to the entries that end within them. The exception is a cut in the first entry that leaves more than 64 bytes: then the replay reports corruption.\<close>

theorem torn_log_replays:
  assumes "log_batches p (handle_on [] n allow) opss = (w, Inr ())" and "seqs_next None (map snd (concat opss))"
    and "\<forall>(op, q) \<in> set (concat opss). op_ok op"
    and "get_integrity_key p = Inr key" and "hmac_ok p" and km: "wp_km p = None"
  shows "\<exists>ys. replay p (wl_file w) = Inr ys \<and> ops_of (map fst ys) = concat opss \<and>
    replay p (take k (wl_file w)) =
      (if 64 < k \<and> ys \<noteq> [] \<and> k < snd (hd ys) then Inl (WalCorruption 4) else Inr (takeWhile (\<lambda>x. snd x \<le> k) ys))"
proof -
  obtain es where es: "ops_of es = concat opss" and log: "log_state p key w es"
    using log_batches_state [OF new_log_state new_working assms(4,5,3) _ assms(1)] assms(2) by auto
  have ok: "entries_ok es" using log by (simp add: log_state_def)
  have "with_ends p 4 es = [] \<longleftrightarrow> es = []" by (cases es) simp_all
  then have "replay p (take k (wl_file w)) = (if 64 < k \<and> with_ends p 4 es \<noteq> [] \<and> k < snd (hd (with_ends p 4 es)) then Inl (WalCorruption 4)
      else Inr (takeWhile (\<lambda>x. snd x \<le> k) (with_ends p 4 es)))"
    using log_replayed(1) [OF log km] replay_cut [OF ok, of p k] replay_short [of "[]" p] by (auto simp: case_prod_beta)
  with log_replayed(2) [OF log km] es show ?thesis by (intro exI [of _ "with_ends p 4 es"]) simp
qed

theorem torn_log_replays_witness:
  "\<exists>(w :: wal) ys. replay plain_params (wl_file w) = Inr ys \<and> ops_of (map fst ys) = put_batch \<and>
     replay plain_params (take 100 (wl_file w)) =
       (if 64 < (100 :: nat) \<and> ys \<noteq> [] \<and> 100 < snd (hd ys) then Inl (WalCorruption 4) else Inr (takeWhile (\<lambda>x. snd x \<le> 100) ys))"
proof -
  obtain w where run: "log_batches plain_params (handle_on [] 0 False) [put_batch] = (w, Inr ())" by (rule example_run)
  show ?thesis
    using torn_log_replays [OF run example_ok(2,1) plain_simps(3,1,2), of 100, unfolded example_concat] by blast
qed

end
