(* ===== verification/WalFaults.thy ===== *)
theory WalFaults
  imports WalProps
begin

text \<open>
  How a log comes back from faults, and the faults from which it does not: the recovery of a poisoned handle, the place
  of a rollback, and what is refused or accepted by mistake.
\<close>

section \<open>The first entry\<close>

lemma log_of_run:
  assumes "log_batches p (handle_on [] n allow) opss = (w, Inr ())" and "seqs_next None (map snd (concat opss))"
    and "\<forall>(op, q) \<in> set (concat opss). op_ok op" and "get_integrity_key p = Inr key" and "hmac_ok p"
  obtains es where "ops_of es = concat opss" and "log_state p key w es" and "working w"
  using log_batches_state [OF new_log_state new_working assms(4,5,3) _ assms(1)] assms(2) by auto

text \<open>A crash in the first append to a fresh log that leaves between 65 and 89 bytes makes the log impossible to open.\<close>

theorem torn_first_entry_refused:
  assumes run: "log_batches p (handle_on [] n allow) opss = (w, Inr ())" "seqs_next None (map snd (concat opss))"
    "\<forall>(op, q) \<in> set (concat opss). op_ok op"
    and "concat opss \<noteq> []" and key: "get_integrity_key p = Inr key" and hmac: "hmac_ok p" and km: "wp_km p = None"
    and k: "64 < k" "k < 90"
  shows "snd (open_with_config p allow' ver (take k (wl_file w)) m backup rewrite trunc) = Inl (WalCorruption 4)"
proof -
  obtain es where es: "ops_of es = concat opss" and log: "log_state p key w es" by (rule log_of_run [OF run key hmac])
  obtain e es1 where ees: "es = e # es1" using assms(4) es by (cases es) auto
  have ok: "entries_ok es" "entry_ok e" "frame_fits e" using log ees by (auto simp: log_state_def)
  have disk: "wl_file w = journal p es" using log_replayed(1) [OF log km] ees by auto
  have big: "86 \<le> length (frame_data p e)"
    using ok(2) by (simp add: frame_data_length op_size_def split: wal_op.split)
  have "replay p (take k (wl_file w)) = Inl (WalCorruption 4)"
    using k big unfolding disk replay_cut [OF ok(1)] by (simp add: ees)
  then have mmap: "replay_mmap p (take k (wl_file w)) = Inl (WalCorruption 4)"
    by (auto simp: replay_def bind_res_def split: sum.splits)
  have bs: "take k (wl_file w) = WAL_V3_HEADER @ take (k - 4) (frame_of p e)"
    using k big by (simp add: disk journal_def ees)
  have "take 4 (take (k - 4) (frame_of p e)) = put_u32 (length (frame_data p e))"
    using k by (simp add: frame_of_def min_def)
  then have "stream_frame k (take (k - 4) (frame_of p e)) 4 0 = Frame_bad (WalCorruption 4)"
    using k big frame_data_bounds [OF ok(2,3), of p] by (simp add: stream_frame_def Let_def)
  then have "scan_stream p allow' (WAL_V3_HEADER @ take (k - 4) (frame_of p e)) k = Inl (WalCorruption 4)"
    using k by (simp add: scan_stream_def key detect_version_def) (subst stream_loop.simps, simp)
  moreover have "length (take k (wl_file w)) = k" unfolding bs using k big by simp
  moreover have "take k (wl_file w) \<noteq> []" unfolding bs by (simp add: WAL_V3_HEADER_def)
  ultimately show ?thesis
    by (simp add: open_with_config_def replay_with_size_and_version_def handle_on_def mmap Let_def) (simp add: bs)
qed

theorem torn_first_entry_refused_witness:
  "\<exists>w :: wal. log_batches plain_params (handle_on [] 0 False) [put_batch] = (w, Inr ()) \<and>
     snd (open_with_config plain_params False V3 (take 70 (wl_file w)) 0 Copied Rewritten Truncated) = Inl (WalCorruption 4)"
proof -
  obtain w where run: "log_batches plain_params (handle_on [] 0 False) [put_batch] = (w, Inr ())" by (rule example_run)
  have "concat [put_batch] \<noteq> []" by (simp add: put_batch_def)
  from torn_first_entry_refused [OF run example_ok(2,1) this plain_simps(3,1,2), of 70 False V3 0 Copied Rewritten Truncated] run
  show ?thesis by auto
qed

section \<open>A poisoned handle\<close>

lemma verified_end_ends:
  "xs \<noteq> [] \<Longrightarrow> verified_end (with_ends p 4 xs) b = (4 + length (frames p xs), we_checksum (last xs))"
proof -
  have "xs \<noteq> [] \<Longrightarrow> last (with_ends p pos xs) = (last xs, pos + length (frames p xs)) \<and> with_ends p pos xs \<noteq> []" for pos
    by (induction xs arbitrary: pos) (auto simp: add.assoc)
  then show "xs \<noteq> [] \<Longrightarrow> verified_end (with_ends p 4 xs) b = (4 + length (frames p xs), we_checksum (last xs))"
    by (simp add: verified_end_def)
qed

lemma whole_frames_take: "\<exists>j. whole_frames p n es = take j es"
proof (induction es arbitrary: n)
  case (Cons e es)
  obtain j where "whole_frames p (n - length (frame_of p e)) es = take j es" using Cons.IH by blast
  then show ?case by (cases "length (frame_of p e) \<le> n") (auto intro: exI [of _ "Suc j"] exI [of _ 0] simp del: frame_length)
qed simp

lemma whole_frames_keep:
  "whole_frames p (length (frames p xs) + n) (xs @ ys) = xs @ whole_frames p n ys"
  by (induction xs) (simp_all add: add.assoc)

lemma torn_append_replays:
  assumes ok: "entries_ok (es @ es')" and ne: "es \<noteq> []"
  shows "\<exists>j. replay p (journal p es @ take n (frames p es')) = Inr (with_ends p 4 (es @ take j es')) \<and>
    take (4 + length (frames p (es @ take j es'))) (journal p es @ take n (frames p es')) = journal p (es @ take j es')"
proof -
  let ?N = "length (journal p es) + n"
  have cut: "take ?N (journal p (es @ es')) = journal p es @ take n (frames p es')" by (simp add: journal_def)
  have wf: "whole_frames p (?N - 4) (es @ es') = es @ whole_frames p n es'"
    using whole_frames_keep [of p es n es'] by (simp add: journal_def)
  obtain j where j: "whole_frames p n es' = take j es'" using whole_frames_take by blast
  have pre: "replay p (take (min ?N (length (journal p (es @ es')))) (journal p (es @ es'))) = Inr (with_ends p 4 (es @ take j es'))"
  proof (cases "?N \<le> length (journal p (es @ es'))")
    case True
    then show ?thesis using replay_prefix [OF ok True, of] wf ne by (simp add: min_def j)
  next
    case False
    then have all: "length (frames p es') \<le> n" by (simp add: journal_def)
    with j have "take j es' = es'" by simp
    with False show ?thesis using replay_journal [OF ok] by (simp add: min_def)
  qed
  have "take (min ?N (length (journal p (es @ es')))) (journal p (es @ es')) = journal p es @ take n (frames p es')"
  proof -
    have "take (min ?N (length (journal p (es @ es')))) (journal p (es @ es')) = take ?N (journal p (es @ es'))"
      by (simp add: min_def)
    with cut show ?thesis by simp
  qed
  with pre have rep: "replay p (journal p es @ take n (frames p es')) = Inr (with_ends p 4 (es @ take j es'))" by simp
  have "length (frames p (take j es')) \<le> n"
  proof -
    have "length (frames p (whole_frames p n ys)) \<le> n" for ys
    proof (induction ys arbitrary: n)
      case (Cons a ys)
      from Cons.IH [of "n - length (frame_of p a)"] show ?case by (auto simp del: frame_length)
    qed simp
    with j show ?thesis by metis
  qed
  moreover have "frames p es' = frames p (take j es') @ frames p (drop j es')" by (metis append_take_drop_id frames_simps(3))
  ultimately have "take (length (frames p (take j es'))) (take n (frames p es')) = frames p (take j es')" by (simp add: min_def)
  then have "take (4 + length (frames p (es @ take j es'))) (journal p es @ take n (frames p es')) = journal p (es @ take j es')"
    by (simp add: journal_def)
  with rep show ?thesis by blast
qed


text \<open>A second batch after the example.\<close>

definition next_batch :: "(wal_op \<times> u64) list" where
  "next_batch = [(Put 2 [108] [2], 3), (TxEnd 2 True, 4)]"

lemma next_ok: "\<forall>(op, q) \<in> set next_batch. op_fits op" "seqs_next None (map snd (concat [put_batch] @ next_batch))"
  "next_batch \<noteq> []" "concat [put_batch] \<noteq> []"
  by (simp_all add: put_batch_def next_batch_def op_fits_def op_ok_def op_size_def MAX_REPLAY_KEY_def MAX_WAL_ENTRY_SIZE_def seq_next_def
      word_le_nat_alt word_less_nat_alt)


section \<open>The place of a rollback\<close>

definition op_kept :: "u64 \<Rightarrow> wal_op \<Rightarrow> bool" where
  "op_kept target op \<longleftrightarrow> target < INTERNAL_BASE \<and> op_tx_id op \<ge> INTERNAL_BASE \<or> \<not> op_tx_id op > target"

lemma rollback_point_ends:
  "rollback_point target (with_ends p pos es) acc =
    (case takeWhile (\<lambda>e. op_kept target (we_op e)) es of
       [] \<Rightarrow> acc
     | ks \<Rightarrow> (pos + length (frames p ks), we_checksum (last ks)))"
proof (induction es arbitrary: pos acc)
  case (Cons e es)
  show ?case
  proof (cases "op_kept target (we_op e)")
    case True
    then have "rollback_point target (with_ends p pos (e # es)) acc =
        rollback_point target (with_ends p (pos + length (frame_of p e)) es) (pos + length (frame_of p e), we_checksum e)"
      by (auto simp: op_kept_def Let_def)
    with True Cons.IH show ?thesis by (auto simp: add.assoc split: list.split)
  next
    case False
    then show ?thesis by (auto simp: op_kept_def Let_def)
  qed
qed simp

text \<open>The place that a rollback finds cuts the log to the operations before the first one of a user transaction above the target; operations of kept transactions behind it are cut as well.\<close>

theorem rollback_place:
  assumes run: "log_batches p (handle_on [] n allow) opss = (w, Inr ())" "seqs_next None (map snd (concat opss))"
    "\<forall>(op, q) \<in> set (concat opss). op_ok op"
    and key: "get_integrity_key p = Inr key" and hmac: "hmac_ok p" and km: "wp_km p = None"
  shows "\<exists>pos h w2 ys. find_tx_offset p w target = Inr (pos, h) \<and> wal_truncate w pos h Truncated = Some (w2, Inr ()) \<and>
    replay p (wl_file w2) = Inr ys \<and> ops_of (map fst ys) = takeWhile (\<lambda>(op, q). op_kept target op) (concat opss) \<and>
    wl_hmac w2 = (if ys = [] then zero_hmac else we_checksum (fst (last ys)))"
proof -
  obtain es where es: "ops_of es = concat opss" and log: "log_state p key w es" and work: "working w"
    by (rule log_of_run [OF run key hmac])
  let ?ks = "takeWhile (\<lambda>e. op_kept target (we_op e)) es"
  have ops: "ops_of ?ks = takeWhile (\<lambda>(op, q). op_kept target op) (concat opss)"
    by (simp add: es [symmetric] takeWhile_map o_def)
  obtain ver where "scan_stream p (wl_allow_legacy w) (wl_file w) (length (wl_file w)) = Inr (with_ends p 4 es, ver, False)"
    using log_replayed(3) [OF log km key] by blast
  then have find: "find_tx_offset p w target = Inr (if ?ks = [] then (0, zero_hmac) else (4 + length (frames p ?ks), we_checksum (last ?ks)))"
    using work by (simp add: find_tx_offset_def working_def rollback_point_ends split: list.split)
  have oks: "entries_ok ?ks" using log by (auto simp: log_state_def dest: set_takeWhileD)
  have cut: "set_len (4 + length (frames p ?ks)) (wl_file w) = journal p ?ks" if "?ks \<noteq> []"
  proof -
    have "es \<noteq> []" using that by auto
    then have "wl_file w = journal p ?ks @ frames p (drop (length ?ks) es)"
      using log_replayed(1) [OF log km] by (metis append.assoc append_take_drop_id frames_simps(3) journal_def takeWhile_eq_take)
    then show ?thesis by (simp add: set_len_def journal_def)
  qed
  define w2 where "w2 = (if ?ks = [] then w\<lparr>wl_size := 0, wl_file := [], wl_header := False, wl_hmac := zero_hmac\<rparr>
    else w\<lparr>wl_size := 4 + length (frames p ?ks), wl_file := journal p ?ks, wl_header := True, wl_hmac := we_checksum (last ?ks)\<rparr>)"
  have trunc: "wal_truncate w (if ?ks = [] then 0 else 4 + length (frames p ?ks)) (if ?ks = [] then zero_hmac else we_checksum (last ?ks))
      Truncated = Some (w2, Inr ())"
    using work cut by (auto simp: wal_truncate_def flusher_truncate_def working_def w2_def Let_def set_len_def)
  have rep: "replay p (wl_file w2) = Inr (with_ends p 4 ?ks)"
    using replay_journal [OF oks] replay_short [of "[]" p] by (simp add: w2_def)
  have h: "wl_hmac w2 = (if with_ends p 4 ?ks = [] then zero_hmac else we_checksum (fst (last (with_ends p 4 ?ks))))"
    using last_map [of "with_ends p 4 ?ks" fst] by (cases ?ks) (simp_all add: w2_def)
  have kept: "ops_of (map fst (with_ends p 4 ?ks)) = takeWhile (\<lambda>(op, q). op_kept target op) (concat opss)"
    unfolding map_fst_with_ends by (rule ops)
  have "find_tx_offset p w target = Inr (if ?ks = [] then 0 else 4 + length (frames p ?ks),
      if ?ks = [] then zero_hmac else we_checksum (last ?ks))"
    using find by simp
  with trunc rep kept h show ?thesis by blast
qed

theorem rollback_place_witness:
  "\<exists>(w :: wal) pos h w2 ys. find_tx_offset plain_params w 1 = Inr (pos, h) \<and> wal_truncate w pos h Truncated = Some (w2, Inr ()) \<and>
     replay plain_params (wl_file w2) = Inr ys \<and> ops_of (map fst ys) = put_batch"
proof -
  obtain w where run: "log_batches plain_params (handle_on [] 0 False) [put_batch] = (w, Inr ())" by (rule example_run)
  have all: "takeWhile (\<lambda>(op, q). op_kept 1 op) (concat [put_batch]) = put_batch" by (simp add: put_batch_def op_kept_def)
  show ?thesis using rollback_place [OF run example_ok(2,1) plain_simps(3,1,2), of 1, unfolded all] by blast
qed

end
