(* ===== verification/WalTrust.thy ===== *)
theory WalTrust
  imports WalFaults
begin

text \<open>
  What the two scans accept. The scan of the stream accepts only chains under the integrity key; the scan that every replay
  uses accepts any checksum, refuses every encrypted file, and so disagrees with the rollback, which
  uses the stream.
\<close>

section \<open>Chains and forgeries\<close>


lemma stream_loop_bad:
  assumes ok: "entry_ok e" "frame_fits e" and km: "wp_km p = None" and size: "pos + length (frame_of p e) + length rest = fs"
    and bad: "verify_entry p False V3 acc e pos = Inl err"
  shows "stream_loop p False V3 fs (frame_of p e @ rest) pos n acc = Inl err"
proof -
  note b = frame_data_bounds [OF ok, of p]
  have "stream_frame fs (frame_of p e @ rest) pos n = Frame (frame_data p e)"
    using b size by (simp add: stream_frame_def frame_of_def Let_def)
  then show ?thesis
    using size by (subst stream_loop.simps)
      (simp add: Let_def stream_entries_def km open_legacy_def single_entry_def from_bytes_back [OF ok] bad)
qed

lemma verify_bad:
  assumes "\<not> (seq_next s (we_seq e) \<and> try_new p (we_op e) (we_seq e) key h = Inr e)" and "key_ok key"
  shows "verify_entry p False V3 (verifier_at key (h, s), l) e offset = Inl (WalCorruption offset)"
proof -
  obtain err where err: "verify_and_update_v3 p (verifier_at key (h, s)) (snapshot_of e) offset = Inl err"
    using assms(1) verify_v3_iff [of p key h s e offset]
    by (cases "verify_and_update_v3 p (verifier_at key (h, s)) (snapshot_of e) offset") auto
  moreover from err have "err = WalCorruption offset"
    using assms(2) by (auto simp: verify_and_update_v3_def wal_hmac_def key_ok_def split: if_splits)
  ultimately show ?thesis by (simp add: verify_entry_def verify_version_def)
qed

text \<open>The replay accepts a well-formed entry with any checksum, also one that the scan of the stream refuses as forged.\<close>

theorem replay_ignores_hmac:
  assumes e: "length (we_checksum e) = 32" "length (we_prev e) = 32" "op_ok (we_op e)" and bs: "to_bytes p e = Inr bs"
    and key: "get_integrity_key p = Inr key" "key_ok key" and km: "wp_km p = None"
    and forged: "try_new p (we_op e) (we_seq e) key zero_hmac \<noteq> Inr e"
  shows "replay p (WAL_V3_HEADER @ bs) = Inr [(e, 4 + length bs)] \<and>
    scan_stream p False (WAL_V3_HEADER @ bs) (length (WAL_V3_HEADER @ bs)) = Inl (WalCorruption 4)"
proof -
  have ok: "entry_ok e" using e by (simp add: entry_ok_def)
  then have fits: "frame_fits e" "bs = frame_of p e" using bs by (auto simp: to_bytes_frame split: if_splits)
  have "verify_entry p False V3 (verifier_new key, False) e 4 = Inl (WalCorruption 4)"
    unfolding verifier_new_at by (rule verify_bad) (use forged key(2) in simp_all)
  then have "stream_loop p False V3 (4 + length (frame_of p e)) (frame_of p e) 4 0 (verifier_new key, False) = Inl (WalCorruption 4)"
    using stream_loop_bad [OF ok fits(1) km, of 4 "[]"] by simp
  then have "scan_stream p False (WAL_V3_HEADER @ bs) (length (WAL_V3_HEADER @ bs)) = Inl (WalCorruption 4)"
    by (simp add: scan_stream_def key(1) detect_version_def fits(2))
  moreover have "replay p (WAL_V3_HEADER @ bs) = Inr [(e, 4 + length bs)]"
    using replay_journal [of "[e]" p] ok fits by (simp add: journal_def)
  ultimately show ?thesis by blast
qed

section \<open>Sequence numbers\<close>

lemma stream_frames:
  assumes km: "wp_km p = None" and "entries_ok es" and "authentic p key (fst st) (snd st) es"
    and "pos + length (frames p es) + length rest = fs"
  shows "stream_loop p allow V3 fs (frames p es @ rest) pos n (verifier_at key st, l) =
    bind_res (stream_loop p allow V3 fs rest (pos + length (frames p es)) (n + length es)
        (verifier_at key (chain_end (fst st) (snd st) es), l)) (\<lambda>(xs, l). Inr (with_ends p pos es @ xs, l))"
  using assms(2-4)
proof (induction es arbitrary: st pos n)
  case Nil
  then show ?case by (cases "stream_loop p allow V3 fs rest pos n (verifier_at key st, l)") auto
next
  case (Cons e es)
  have "chunk_of p [e] (frame_of p e)" by (simp add: chunk_of_def km)
  from stream_loop_chunk [OF this, of key st pos "frames p es @ rest" fs allow n l] Cons.prems
  have one: "stream_loop p allow V3 fs (frame_of p e @ frames p es @ rest) pos n (verifier_at key st, l) =
      bind_res (stream_loop p allow V3 fs (frames p es @ rest) (pos + length (frame_of p e)) (n + 1)
        (verifier_at key (we_checksum e, Some (we_seq e)), l)) (\<lambda>(xs, l). Inr ((e, pos + length (frame_of p e)) # xs, l))"
    by (simp add: km km_ok_def)
  have "stream_loop p allow V3 fs (frames p es @ rest) (pos + length (frame_of p e)) (n + 1)
        (verifier_at key (we_checksum e, Some (we_seq e)), l) =
      bind_res (stream_loop p allow V3 fs rest (pos + length (frame_of p e) + length (frames p es)) (n + 1 + length es)
        (verifier_at key (chain_end (we_checksum e) (Some (we_seq e)) es), l))
        (\<lambda>(xs, l). Inr (with_ends p (pos + length (frame_of p e)) es @ xs, l))"
    using Cons.IH [of "(we_checksum e, Some (we_seq e))"] Cons.prems by (simp add: add.assoc)
  with one show ?case
    by (cases "stream_loop p allow V3 fs rest (pos + length (frame_of p e) + length (frames p es)) (n + 1 + length es)
        (verifier_at key (chain_end (we_checksum e) (Some (we_seq e)) es), l)") (auto simp: add.assoc)
qed

lemma log_batch_legacy: "log_batch p w ops io = (w', r) \<Longrightarrow> wl_allow_legacy w' = wl_allow_legacy w"
  by (auto simp: log_batch_def prepare_batch_def append_batch_locked_def prepare_append_payload_def flusher_append_def Let_def
      split: if_splits sum.splits option.splits prod.splits write_outcome.splits)

lemma log_batches_legacy: "log_batches p w opss = (w', r) \<Longrightarrow> wl_allow_legacy w' = wl_allow_legacy w"
proof (induction opss arbitrary: w)
  case (Cons ops opss)
  obtain w1 r1 where w1: "log_batch p w ops Written = (w1, r1)" by fastforce
  from Cons.prems Cons.IH [of w1] log_batch_legacy [OF w1] show ?case by (cases r1) (auto simp: w1)
qed simp

text \<open>A batch that starts with a sequence number not above the last one of the log is appended and replayed, but no rollback can find its place afterwards.\<close>

theorem reused_number_blocks_rollback:
  assumes run: "log_batches p (handle_on [] n False) opss = (w, Inr ())" "seqs_next None (map snd (concat opss))"
    "\<forall>(op, q) \<in> set (concat opss). op_ok op"
    and earlier: "concat opss \<noteq> []" and ops: "ops \<noteq> []" "\<forall>(op, q) \<in> set ops. op_fits op"
    and key: "get_integrity_key p = Inr key" "key_ok key" and hmac: "hmac_ok p" and km: "wp_km p = None"
    and reused: "snd (hd ops) \<le> snd (last (concat opss))"
  shows "\<exists>w1 ys pos. log_batch p w ops Written = (w1, Inr ()) \<and>
    replay p (wl_file w1) = Inr ys \<and> ops_of (map fst ys) = concat opss @ ops \<and>
    find_tx_offset p w1 target = Inl (WalCorruption pos)"
proof -
  obtain es where es: "ops_of es = concat opss" and log: "log_state p key w es" and work: "working w"
    by (rule log_of_run [OF run key(1) hmac])
  let ?st = "chain_end zero_hmac None es"
  obtain es' where es': "ops_of es' = ops" "entries_ok es'"
    and fl: "log_batch p w ops Written = flusher_append (w\<lparr>wl_hmac := fst (chain_end zero_hmac None (es @ es'))\<rparr>) (frames p es')
      (fst (chain_end zero_hmac None (es @ es'))) Written"
    using log_batch_written [OF log work key hmac km ops(2), of Written] ops(1) by blast
  have ne: "es \<noteq> []" using es earlier by auto
  have oks: "entries_ok (es @ es')" "entries_ok es" using log es'(2) by (auto simp: log_state_def)
  have disk: "wl_file w = journal p es" "wl_header w"
    using log_replayed(1) [OF log km] ne log by (auto simp: log_state_def journal_def WAL_V3_HEADER_def)
  have allow: "\<not> wl_allow_legacy w" using log_batches_legacy [OF run(1)] by (simp add: handle_on_def)
  obtain w1 where w1: "log_batch p w ops Written = (w1, Inr ())" "wl_file w1 = journal p (es @ es')" "wl_flusher w1" "\<not> wl_allow_legacy w1"
    using fl work disk allow by (auto simp: flusher_append_def working_def journal_def Let_def)
  have rep: "replay p (wl_file w1) = Inr (with_ends p 4 (es @ es'))" unfolding w1(2) by (rule replay_journal [OF oks(1)])
  obtain e es1 where e: "es' = e # es1" using es'(1) ops(1) by (cases es') auto
  have "we_seq e = snd (hd ops)" using es'(1) e by auto
  moreover have "snd ?st = Some (snd (last (concat opss)))" using ne by (simp add: es [symmetric] chain_end_seq last_map)
  ultimately have "\<not> seq_next (snd ?st) (we_seq e)" using reused by (simp add: seq_next_def)
  then have bad: "verify_entry p False V3 (verifier_at key ?st, False) e (4 + length (frames p es)) = Inl (WalCorruption (4 + length (frames p es)))"
    using verify_bad [of "snd ?st" e p key "fst ?st"] key(2) by simp
  have "stream_loop p False V3 (4 + length (frames p (es @ es'))) (frames p es @ frames p es') 4 0 (verifier_at key (zero_hmac, None), False) =
      Inl (WalCorruption (4 + length (frames p es)))"
    using oks log stream_loop_bad [OF _ _ km _ bad, of "frames p es1"]
    by (subst stream_frames [OF km]) (simp_all add: e log_state_def)
  then have "scan_stream p False (wl_file w1) (length (wl_file w1)) = Inl (WalCorruption (4 + length (frames p es)))"
    by (simp add: w1(2) journal_def scan_stream_def key(1) detect_version_def verifier_new_at)
  then have "find_tx_offset p w1 target = Inl (WalCorruption (4 + length (frames p es)))"
    using w1(3,4) by (simp add: find_tx_offset_def)
  moreover have "ops_of (map fst (with_ends p 4 (es @ es'))) = concat opss @ ops"
    unfolding map_fst_with_ends using es es'(1) by simp
  ultimately show ?thesis using w1(1) rep by blast
qed

text \<open>The second batch of the example again, with the numbers of the first.\<close>

lemma example_entry:
  obtains e bs where "length (we_checksum e) = 32" "length (we_prev e) = 32" "op_ok (we_op e)" "to_bytes plain_params e = Inr bs"
    and "try_new plain_params (we_op e) (we_seq e) [1] zero_hmac \<noteq> Inr e"
proof -
  let ?e = "\<lparr>we_op = TxEnd 1 True, we_seq = 1, we_checksum = replicate 32 255, we_prev = replicate 32 0\<rparr>"
  have fits: "to_bytes plain_params ?e = Inr (frame_of plain_params ?e)"
    by (subst to_bytes_frame) (simp_all add: entry_ok_def op_ok_def frame_fits_def op_size_def MAX_WAL_ENTRY_SIZE_def)
  have "length (HMAC_DOMAIN @ zero_hmac @ put_u64 1 @ put_u64 1 @ [2, flag_byte True]) = 66" by (simp add: HMAC_DOMAIN_def)
  then have "wp_hmac plain_params [1] (HMAC_DOMAIN @ zero_hmac @ put_u64 1 @ put_u64 1 @ [2, flag_byte True]) = replicate 32 66"
    by (simp only: plain_params_def wal_params.simps) simp
  then have "try_new plain_params (TxEnd 1 True) 1 [1] zero_hmac \<noteq> Inr ?e"
    by (auto simp: try_new_def compute_checksum_v3_def wal_hmac_def)
  then show thesis by (intro that [OF _ _ _ fits]) (simp_all add: op_ok_def)
qed

theorem replay_ignores_hmac_witness:
  "\<exists>(e :: wal_entry) bs. try_new plain_params (we_op e) (we_seq e) [1] zero_hmac \<noteq> Inr e \<and>
     replay plain_params (WAL_V3_HEADER @ bs) = Inr [(e, 4 + length bs)] \<and>
     scan_stream plain_params False (WAL_V3_HEADER @ bs) (length (WAL_V3_HEADER @ bs)) = Inl (WalCorruption 4)"
proof -
  obtain e bs where e: "length (we_checksum e) = 32" "length (we_prev e) = 32" "op_ok (we_op e)" "to_bytes plain_params e = Inr bs"
    "try_new plain_params (we_op e) (we_seq e) [1] zero_hmac \<noteq> Inr e" by (rule example_entry)
  show ?thesis using replay_ignores_hmac [OF e(1-4) plain_simps(3,4,2) e(5)] e(5) by blast
qed


definition reused_batch :: "(wal_op \<times> u64) list" where
  "reused_batch = [(Put 2 [108] [2], 2), (TxEnd 2 True, 3)]"

theorem reused_number_blocks_rollback_witness:
  "\<exists>(w :: wal) w1 ys pos. log_batches plain_params (handle_on [] 0 False) [put_batch] = (w, Inr ()) \<and>
     log_batch plain_params w reused_batch Written = (w1, Inr ()) \<and> replay plain_params (wl_file w1) = Inr ys \<and>
     ops_of (map fst ys) = put_batch @ reused_batch \<and> find_tx_offset plain_params w1 1 = Inl (WalCorruption pos)"
proof -
  obtain w where run: "log_batches plain_params (handle_on [] 0 False) [put_batch] = (w, Inr ())" by (rule example_run)
  have fits: "\<forall>(op, q) \<in> set reused_batch. op_fits op" "reused_batch \<noteq> []"
    "snd (hd reused_batch) \<le> snd (last (concat [put_batch]))"
    by (simp_all add: reused_batch_def put_batch_def op_fits_def op_ok_def op_size_def MAX_REPLAY_KEY_def MAX_WAL_ENTRY_SIZE_def)
  show ?thesis
    using reused_number_blocks_rollback [OF run example_ok(2,1) next_ok(4) fits(2,1) plain_simps(3,4,1,2) fits(3), of 1,
        unfolded example_concat] run by blast
qed

section \<open>Encrypted files\<close>

lemma replay_bad_crc:
  assumes "slice_frame (4 + length bs) (4 + length bs) bs 4 0 = Frame data" and "from_bytes_classified p data = Inl (CrcMismatch c d)"
    and "bs \<noteq> []"
  shows "replay p (WAL_V3_HEADER @ bs) = Inl (WalCorruption 4)"
  using assms unfolding replay_v3 by (subst slice_loop.simps) (simp add: Let_def handle_wal_entry_parse_error_def)

text \<open>The scan of the stream reads back an encrypted log; the replay takes the first bytes of the nonce for a checksum and refuses it, unless they happen to match.\<close>

theorem encrypted_log_refused:
  assumes run: "log_batches p (handle_on [] n allow) opss = (w, Inr ())" "seqs_next None (map snd (concat opss))"
    "\<forall>(op, q) \<in> set (concat opss). op_ok op"
    and "concat opss \<noteq> []" and key: "get_integrity_key p = Inr key" and hmac: "hmac_ok p"
    and km: "wp_km p = Some km" "km_ok (Some km)"
  shows "\<exists>raw rest xs ver. wl_file w = WAL_V3_HEADER @ put_u32 (length raw) @ raw @ rest \<and> 12 \<le> length raw \<and>
    (word_of_nat (get_le (take 4 raw)) \<noteq> wp_crc32 p (drop 4 raw) \<longrightarrow> replay p (wl_file w) = Inl (WalCorruption 4)) \<and>
    scan_stream p allow' (wl_file w) (length (wl_file w)) = Inr (xs, ver, False) \<and> ops_of (map fst xs) = concat opss"
proof -
  obtain es where es: "ops_of es = concat opss" and log: "log_state p key w es" by (rule log_of_run [OF run key hmac])
  obtain xs ver where xs: "scan_stream p allow' (wl_file w) (length (wl_file w)) = Inr (xs, ver, False)" "map fst xs = es"
    using log_scanned [OF log _ key, of allow'] km by auto
  have "es \<noteq> []" using es assms(4) by auto
  then obtain bs where bs: "chunked p es bs" "wl_file w = WAL_V3_HEADER @ bs" using log_file [OF log] by auto
  then obtain ess bss where c: "list_all2 (chunk_of p) ess bss" "concat ess = es" "concat bss = bs" unfolding chunked_def by blast
  with \<open>es \<noteq> []\<close> obtain es1 ess1 b1 bss1 where "ess = es1 # ess1" "bss = b1 # bss1" and b1: "chunk_of p es1 b1"
    by (cases ess; cases bss) auto
  then obtain m enc nonce where raw: "km_seal km m (frames p es1) = Some (enc, nonce)" "b1 = put_u32 (12 + length enc) @ nonce @ enc"
    "12 + length enc \<le> MAX_WAL_ENTRY_SIZE" using km(1) by (auto simp: chunk_of_def)
  have lens: "length nonce = 12" using km(2) raw(1) unfolding km_ok_def by blast
  let ?raw = "nonce @ enc" and ?rest = "concat bss1"
  have disk: "wl_file w = WAL_V3_HEADER @ put_u32 (length ?raw) @ ?raw @ ?rest"
    using bs(2) c(3) \<open>bss = b1 # bss1\<close> raw(2) lens by simp
  have "replay p (wl_file w) = Inl (WalCorruption 4)" if crc: "word_of_nat (get_le (take 4 ?raw)) \<noteq> wp_crc32 p (drop 4 ?raw)"
  proof -
    have len: "get_le (put_u32 (length ?raw)) = length ?raw" using raw(3) lens by (intro u32_back) (simp add: MAX_WAL_ENTRY_SIZE_def)
    have "slice ?raw 0 4 = Some (take 4 ?raw)" using lens by (simp add: slice_def)
    then have bad: "from_bytes_classified p ?raw = Inl (CrcMismatch (word_of_nat (get_le (take 4 ?raw))) (wp_crc32 p (drop 4 ?raw)))"
      using crc by (simp add: from_bytes_classified_def Let_def del: take_append drop_append)
    let ?N = "4 + length (put_u32 (length ?raw) @ ?raw @ ?rest)"
    have "slice_frame ?N ?N (put_u32 (length ?raw) @ ?raw @ ?rest) 4 0 = Frame ?raw"
      using raw(3) lens len by (simp add: slice_frame_def Let_def del: length_append) simp
    moreover have "put_u32 (length ?raw) @ ?raw @ ?rest \<noteq> []" using lens by auto
    ultimately show ?thesis using bad unfolding disk by (intro replay_bad_crc)
  qed
  moreover have "12 \<le> length ?raw" using lens by simp
  ultimately show ?thesis using disk xs es by blast
qed

text \<open>The end of a transaction in an encrypted log: the cipher appends a tag, the nonce is constant.\<close>

definition tag_km :: key_manager where
  "tag_km = \<lparr>km_seal = (\<lambda>n plain. Some (plain @ replicate 16 0, replicate 12 0)),
     km_open = (\<lambda>cipher nonce. Some (take (length cipher - 16) cipher))\<rparr>"

definition crypt_params :: wal_params where
  "crypt_params = plain_params\<lparr>wp_km := Some tag_km, wp_km_key := [1]\<rparr>"

lemma crypt_simps [simp]:
  "hmac_ok crypt_params" "wp_km crypt_params = Some tag_km" "km_ok (Some tag_km)" "get_integrity_key crypt_params = Inr [1]"
  "wp_crc32 crypt_params bs = 7"
  by (simp_all add: crypt_params_def plain_params_def hmac_ok_def tag_km_def km_ok_def get_integrity_key_def)

lemma get_le_zeros: "get_le (replicate n 0) = 0"
  by (induction n) simp_all

lemma crypt_run:
  obtains w where "log_batches crypt_params (handle_on [] 0 False) [[(TxEnd 1 True, 1)]] = (w, Inr ())"
    and "\<exists>rest. wl_file w = WAL_V3_HEADER @ put_u32 118 @ replicate 12 0 @ rest"
proof -
  let ?m = "HMAC_DOMAIN @ zero_hmac @ put_u64 1 @ put_u64 1 @ [2, flag_byte True]"
  define e where "e = \<lparr>we_op = TxEnd 1 True, we_seq = 1, we_checksum = wp_hmac crypt_params [1] ?m, we_prev = zero_hmac\<rparr>"
  have e: "try_new crypt_params (TxEnd 1 True) 1 [1] zero_hmac = Inr e"
    by (simp add: e_def try_new_def compute_checksum_v3_def wal_hmac_def)
  have "length (we_checksum e) = 32" using crypt_simps(1) by (simp add: e_def hmac_ok_def)
  then have ok: "entry_ok e" "frame_fits e" "length (frame_of crypt_params e) = 90"
    by (simp_all add: e_def entry_ok_def op_ok_def frame_fits_def op_size_def MAX_WAL_ENTRY_SIZE_def frame_of_def frame_data_length)
  let ?bs = "put_u32 (12 + 106) @ replicate 12 0 @ frame_of crypt_params e @ replicate 16 0"
  have "serialize_entries crypt_params [e] = Inr [(True, frame_of crypt_params e)]"
    using ok by (simp add: to_bytes_frame MAX_WAL_ENTRY_SIZE_def e_def del: frame_length)
  moreover have "seal_batch tag_km 0 [] [(True, frame_of crypt_params e)] = (1, Inr ?bs)"
    using ok(3) by (simp add: seal_then_def seal_frame_def tag_km_def Let_def MAX_WAL_ENTRY_SIZE_def del: frame_length)
  ultimately have app: "append_batch_locked crypt_params ((handle_on [] 0 False)\<lparr>wl_hmac := we_checksum e\<rparr>) [e] Written =
      flusher_append ((handle_on [] 0 False)\<lparr>wl_hmac := we_checksum e, wl_nonce := 1\<rparr>) ?bs (we_checksum e) Written"
    by (simp add: append_batch_locked_def prepare_append_payload_def handle_on_def del: serialize_entries.simps)
  have prep: "prepare_batch crypt_params (handle_on [] 0 False) [(TxEnd 1 True, 1)] =
      ((handle_on [] 0 False)\<lparr>wl_hmac := we_checksum e\<rparr>, Inr ([e], zero_hmac))"
    using e by (simp add: prepare_batch_def handle_on_def)
  show thesis
  proof (rule that)
    show "log_batches crypt_params (handle_on [] 0 False) [[(TxEnd 1 True, 1)]] =
        (fst (flusher_append ((handle_on [] 0 False)\<lparr>wl_hmac := we_checksum e, wl_nonce := 1\<rparr>) ?bs (we_checksum e) Written), Inr ())"
      by (simp add: log_batch_def prep app) (simp add: flusher_append_def handle_on_def Let_def)
    show "\<exists>rest. wl_file (fst (flusher_append ((handle_on [] 0 False)\<lparr>wl_hmac := we_checksum e, wl_nonce := 1\<rparr>) ?bs (we_checksum e) Written)) =
        WAL_V3_HEADER @ put_u32 118 @ replicate 12 0 @ rest"
      by (simp add: flusher_append_def handle_on_def Let_def)
  qed
qed

theorem encrypted_log_refused_witness:
  "\<exists>(w :: wal) xs ver. log_batches crypt_params (handle_on [] 0 False) [[(TxEnd 1 True, 1)]] = (w, Inr ()) \<and>
     replay crypt_params (wl_file w) = Inl (WalCorruption 4) \<and>
     scan_stream crypt_params False (wl_file w) (length (wl_file w)) = Inr (xs, ver, False) \<and> ops_of (map fst xs) = [(TxEnd 1 True, 1)]"
proof -
  obtain w rest where run: "log_batches crypt_params (handle_on [] 0 False) [[(TxEnd 1 True, 1)]] = (w, Inr ())"
    and disk: "wl_file w = WAL_V3_HEADER @ put_u32 118 @ replicate 12 0 @ rest"
    by (rule crypt_run) blast
  have ok: "seqs_next None (map snd (concat [[(TxEnd 1 True, 1)]]))" "\<forall>(op, q) \<in> set (concat [[(TxEnd 1 True, 1)]]). op_ok op"
    "concat [[(TxEnd 1 True, 1 :: u64)]] \<noteq> []" by (simp_all add: op_ok_def seq_next_def)
  obtain raw rest' xs ver where raw: "wl_file w = WAL_V3_HEADER @ put_u32 (length raw) @ raw @ rest'" "12 \<le> length raw"
    and crc: "word_of_nat (get_le (take 4 raw)) \<noteq> wp_crc32 crypt_params (drop 4 raw) \<longrightarrow> replay crypt_params (wl_file w) = Inl (WalCorruption 4)"
    and xs: "scan_stream crypt_params False (wl_file w) (length (wl_file w)) = Inr (xs, ver, False)"
      "ops_of (map fst xs) = concat [[(TxEnd 1 True, 1)]]"
    using encrypted_log_refused [OF run ok crypt_simps(4,1,2,3), of False] by blast
  have "drop 8 (wl_file w) = raw @ rest'" "drop 8 (wl_file w) = replicate 12 0 @ rest"
    by (simp add: raw(1) WAL_V3_HEADER_def) (simp add: disk WAL_V3_HEADER_def)
  then have "take 4 (raw @ rest') = take 4 (replicate 12 0 @ rest)" by simp
  then have "take 4 raw = replicate 4 0" using raw(2) by (simp add: min_def)
  then have "replay crypt_params (wl_file w) = Inl (WalCorruption 4)"
    using crc get_le_zeros [of 4] by simp
  with run xs show ?thesis by simp
qed

section \<open>The append of a commit\<close>

lemma append_keeps_lock: "append_batch_locked p w es io = (w', r) \<Longrightarrow> wl_truncate_lock w' = wl_truncate_lock w"
  by (auto simp: append_batch_locked_def prepare_append_payload_def flusher_append_def Let_def
      split: if_splits sum.splits option.splits prod.splits write_outcome.splits)

lemma commit_append_answer:
  "execute_group_commit_append p w es io trunc =
    (if wl_truncate_lock w then None
     else case append_batch_locked p (w\<lparr>wl_truncate_lock := True\<rparr>) es io of
            (w', Inr _) \<Rightarrow> Some (w'\<lparr>wl_truncate_lock := False\<rparr>, Inr ())
          | (w', Inl e) \<Rightarrow> None)"
  by (auto simp: execute_group_commit_append_def wal_truncate_def Let_def split: prod.split sum.split dest: append_keeps_lock)

lemma serialize_entries_answer:
  "wp_km p = None \<Longrightarrow> \<forall>e \<in> set es. entry_ok e \<Longrightarrow>
   serialize_entries p es = (if \<forall>e \<in> set es. frame_fits e then Inr (map (\<lambda>e. (is_tx_end (we_op e), frame_of p e)) es) else Inl WalSerialization)"
  by (induction es) (auto simp: to_bytes_frame)

text \<open>C30: The append of a commit returns exactly when every entry fits the limit of a frame and the disk answers: every failed append waits forever for the lock that it holds itself.\<close>

theorem commit_append_returns:
  assumes run: "log_batches p (handle_on [] n allow) opss = (w, Inr ())" "seqs_next None (map snd (concat opss))"
    "\<forall>(op, q) \<in> set (concat opss). op_ok op"
    and ops: "ops \<noteq> []" "\<forall>(op, q) \<in> set ops. op_ok op"
    and key: "get_integrity_key p = Inr key" and hmac: "hmac_ok p" and km: "wp_km p = None"
    and prep: "prepare_batch p w ops = (w1, Inr (es, prev))"
  shows "(\<exists>r. execute_group_commit_append p w1 es io trunc = Some r) \<longleftrightarrow>
    io = Written \<and> (\<forall>(op, q) \<in> set ops. 76 + op_size op \<le> MAX_WAL_ENTRY_SIZE)"
proof -
  obtain es0 where log: "log_state p key w es0" and work: "working w" by (rule log_of_run [OF run key hmac])
  let ?st = "chain_end zero_hmac None es0"
  have h: "wl_hmac w = fst ?st" using log by (simp add: log_state_def)
  from prep work key obtain h' where chain: "chain_entries p key (fst ?st) ops = Inr (es, h')" and w1: "w1 = w\<lparr>wl_hmac := h'\<rparr>"
    by (auto simp: prepare_batch_def working_def h split: sum.splits if_splits)
  have all: "ops_of es = ops" "\<forall>e \<in> set es. entry_ok e"
    using chain_entries_Inr [OF chain, of "snd ?st"] hmac hmac_length [OF log] h ops(2) by (auto simp: case_prod_beta)
  have ne: "es \<noteq> []" using all(1) ops(1) by auto
  have fits: "(\<forall>e \<in> set es. frame_fits e) \<longleftrightarrow> (\<forall>(op, q) \<in> set ops. 76 + op_size op \<le> MAX_WAL_ENTRY_SIZE)"
    unfolding all(1) [symmetric] by (simp add: frame_fits_def)
  show ?thesis
    unfolding fits [symmetric] commit_append_answer
    using work ne serialize_entries_answer [OF km all(2)]
    by (auto simp: w1 working_def append_batch_locked_def prepare_append_payload_def km flusher_append_def Let_def split: write_outcome.split)
qed

theorem commit_append_returns_witness:
  "\<exists>(w :: wal) w1 es prev. prepare_batch plain_params w next_batch = (w1, Inr (es, prev)) \<and>
     (\<exists>r. execute_group_commit_append plain_params w1 es Written Truncated = Some r) \<and>
     execute_group_commit_append plain_params w1 es Sync_failed Truncated = None"
proof -
  obtain w es0 where run: "log_batches plain_params (handle_on [] 0 False) [put_batch] = (w, Inr ())" and work: "working w"
    by (rule example_run)
  obtain es h' where "chain_entries plain_params [1] (wl_hmac w) next_batch = Inr (es, h')" using chain_entries_exists [OF plain_simps(4)] by blast
  then have prep: "prepare_batch plain_params w next_batch = (w\<lparr>wl_hmac := h'\<rparr>, Inr (es, wl_hmac w))"
    using work by (simp add: prepare_batch_def working_def)
  have ok: "\<forall>(op, q) \<in> set next_batch. op_ok op" and size: "\<forall>(op, q) \<in> set next_batch. 76 + op_size op \<le> MAX_WAL_ENTRY_SIZE"
    using next_ok(1) by (auto simp: op_fits_def)
  note returns = commit_append_returns [OF run example_ok(2,1) next_ok(3) ok plain_simps(3,1,2) prep]
  have "\<exists>r. execute_group_commit_append plain_params (w\<lparr>wl_hmac := h'\<rparr>) es Written Truncated = Some r"
    using returns [of Written Truncated] size by blast
  moreover have "execute_group_commit_append plain_params (w\<lparr>wl_hmac := h'\<rparr>) es Sync_failed Truncated = None"
    using returns [of Sync_failed Truncated] by (meson not_Some_eq write_outcome.distinct)
  ultimately show ?thesis using prep by blast
qed

end
