(* ===== verification/Recovery.thy ===== *)
theory Recovery
  imports LsmWrite WalFile
begin

text \<open>
  The opening of a database, \<open>contextra-store/src/lsm/recovery.rs\<close>: the replay of the journals into a MemTable, the
  check of the end of the journals against the manifest, the opening of the files, the flush at the start and the rollbacks
  that were not finished; and the operations that a commit writes to the journal.

  The directory is a value: the journals in their order with their keys, the files that the manifest lists (without a
  manifest all files) in the order of their names, whether it lists any, the last journal end that it has noted, and the
  unfinished rollbacks. Left out are the salt, the locks of the directory, temporary and unlisted files, the removal of old
  journals, the memory budget and the tasks that run in the background.
\<close>

section \<open>What a commit writes to the journal\<close>

fun commit_wal_ops :: "u64 \<Rightarrow> kv index_op list \<Rightarrow> u64 \<Rightarrow> (wal_op \<times> u64) list" where
  "commit_wal_ops tx [] seq = [(TxEnd tx True, seq)]"
| "commit_wal_ops tx (op # ops) seq =
     (case op of
        OpInsert _ (key, val) \<Rightarrow> [(Put tx key val, seq)]
      | OpDelete _ (Some (key, _)) \<Rightarrow> [(Delete tx key, seq)]
      | OpDelete _ None \<Rightarrow> []) @ commit_wal_ops tx ops (seq + 1)"

section \<open>The replay of the journals\<close>

record replay_state =
  rp_mem :: mem_table
  rp_max_seq :: u64
  rp_max_tx :: u64
  rp_size :: nat
  rp_pending :: "(u64 \<times> (u64 \<times> wal_op) list) list"
  rp_hmacs :: "bytes list"
  rp_last :: "bytes option"

definition replay_start :: replay_state where
  "replay_start = \<lparr>rp_mem = mem_table_new, rp_max_seq = 0, rp_max_tx = 0, rp_size = 0, rp_pending = [],
     rp_hmacs = [zero_hmac], rp_last = None\<rparr>"

fun apply_logged :: "mem_table \<times> nat \<Rightarrow> u64 \<times> wal_op \<Rightarrow> mem_table \<times> nat" where
  "apply_logged (mt, sz) (lsn, Put tx key val) = (mt_put mt key val lsn tx, sz + length key + length val)"
| "apply_logged (mt, sz) (lsn, Delete tx key) = (mt_put mt key [] (lsn OR TOMBSTONE_BIT) tx, sz + length key)"
| "apply_logged (mt, sz) (lsn, TxEnd tx committed) = (mt, sz)"

definition raise_tx :: "u64 \<Rightarrow> replay_state \<Rightarrow> replay_state" where
  "raise_tx tx st = (if tx > rp_max_tx st \<and> tx < INTERNAL_BASE then st\<lparr>rp_max_tx := tx\<rparr> else st)"

definition replay_entry :: "replay_state \<Rightarrow> wal_entry \<Rightarrow> replay_state" where
  "replay_entry st e =
     (let lsn = we_seq e;
          st1 = raise_tx (op_tx_id (we_op e))
                  (st\<lparr>rp_hmacs := we_checksum e # rp_hmacs st, rp_max_seq := max (rp_max_seq st) (mask_seq lsn)\<rparr>)
      in case we_op e of
           TxEnd tx committed \<Rightarrow>
             (let ops = (if committed then lookup_or [] (rp_pending st1) tx else []);
                  (mt, sz) = foldl apply_logged (rp_mem st1, rp_size st1) ops
              in st1\<lparr>rp_mem := mt, rp_size := sz, rp_pending := AList.delete tx (rp_pending st1)\<rparr>)
         | op \<Rightarrow>
             (let tx = op_tx_id op
              in st1\<lparr>rp_pending := AList.update tx (lookup_or [] (rp_pending st1) tx @ [(lsn, op)]) (rp_pending st1)\<rparr>))"

text \<open>The operations without an end are dropped with their journal.\<close>

definition replay_journal_entries :: "replay_state \<Rightarrow> wal_entry list \<Rightarrow> replay_state" where
  "replay_journal_entries st es =
     (foldl replay_entry (if es = [] then st else st\<lparr>rp_last := Some (we_checksum (last es))\<rparr>) es)\<lparr>rp_pending := []\<rparr>"

fun replay_journals :: "replay_state \<Rightarrow> (wal_params \<times> bytes) list \<Rightarrow> wal_error + replay_state" where
  "replay_journals st [] = Inr st"
| "replay_journals st ((wp, bs) # logs) =
     bind_res (replay wp bs) (\<lambda>es. replay_journals (replay_journal_entries st (map fst es)) logs)"

definition verify_wal_chain_completeness :: "bytes \<Rightarrow> bytes \<Rightarrow> bool" where
  "verify_wal_chain_completeness wal_tail_hmac high_water_mark \<longleftrightarrow> wal_tail_hmac = high_water_mark"

text \<open>\<open>hwm\<close>: the journal end that the manifest has noted; \<open>listed\<close>: the manifest lists a file.\<close>

definition high_water_ok :: "bytes option \<Rightarrow> bool \<Rightarrow> replay_state \<Rightarrow> bool" where
  "high_water_ok hwm listed st =
     (case hwm of
        None \<Rightarrow> True
      | Some expected \<Rightarrow>
          (let tail_hmac = (case rp_last st of Some h \<Rightarrow> h | None \<Rightarrow> zero_hmac);
               check_hmac = (if expected \<in> set (rp_hmacs st) \<or> listed then expected else tail_hmac)
           in verify_wal_chain_completeness check_hmac expected))"

section \<open>Opening a directory\<close>

datatype open_error = Log_error wal_error | Log_truncated | Open_file sst_error | Open_manifest | Open_engine lsm_error

record directory =
  dr_logs :: "(wal_params \<times> bytes) list"
  dr_files :: "bytes list"
  dr_listed :: bool
  dr_hwm :: "bytes option"
  dr_rollbacks :: "u64 list"

definition map_err :: "('e \<Rightarrow> 'f) \<Rightarrow> 'e + 'a \<Rightarrow> 'f + 'a" where
  "map_err f r = (case r of Inl e \<Rightarrow> Inl (f e) | Inr x \<Rightarrow> Inr x)"

fun open_files :: "lsm_params \<Rightarrow> bytes list \<Rightarrow> sst_error + sst_reader list" where
  "open_files p [] = Inr []"
| "open_files p (bs # files) =
     bind_res (sst_open (lp_crc32 p) (lp_km p) bs) (\<lambda>rd. bind_res (open_files p files) (\<lambda>rds. Inr (rd # rds)))"

definition raise_file :: "u64 \<times> u64 \<Rightarrow> sst_reader \<Rightarrow> u64 \<times> u64" where
  "raise_file m rd =
     (let (max_seq, max_tx) = m; raw = mask_seq (sm_max_seq (rd_meta rd)); tx = sm_max_tx (rd_meta rd)
      in (if raw > max_seq then raw else max_seq, if tx > max_tx \<and> tx < INTERNAL_BASE then tx else max_tx))"

text \<open>The last journal is opened for appending.\<close>

definition open_active ::
  "(wal_params \<times> bytes) list \<Rightarrow> nat \<Rightarrow> backup_outcome \<Rightarrow> rewrite_outcome \<Rightarrow> truncate_outcome \<Rightarrow> wal \<times> (wal_error + unit)" where
  "open_active logs nonce backup rewrite trunc =
     (if logs = [] then (handle_on [] nonce False, Inr ())
      else let (wp, bs) = last logs in open_with_config wp False V3 bs nonce backup rewrite trunc)"

text \<open>The engine before the flush at the start, and its journal.\<close>

definition recover_engine ::
  "lsm_params \<Rightarrow> kv tx_buffer \<Rightarrow> ssi_validator \<Rightarrow> nat \<Rightarrow> backup_outcome \<Rightarrow> rewrite_outcome \<Rightarrow> truncate_outcome \<Rightarrow>
   directory \<Rightarrow> open_error + lsm \<times> wal \<times> nat" where
  "recover_engine p txb ssi nonce backup rewrite trunc dir =
     bind_res (map_err Log_error (replay_journals replay_start (dr_logs dir))) (\<lambda>rs.
       if \<not> high_water_ok (dr_hwm dir) (dr_listed dir) rs then Inl Log_truncated
       else case open_active (dr_logs dir) nonce backup rewrite trunc of
              (_, Inl e) \<Rightarrow> Inl (Log_error e)
            | (wal, Inr _) \<Rightarrow>
                bind_res (map_err Open_file (open_files p (dr_files dir))) (\<lambda>rds.
                  let (max_seq, max_tx) = foldl raise_file (rp_max_seq rs, rp_max_tx rs) rds
                  in Inr (\<lparr>ls_mem = rp_mem rs, ls_imm = [], ls_ssts = sort_files rds, ls_txb = txb, ls_ssi = ssi,
                           ls_registry = registry_new, ls_next_seq = (if max_seq = U64_MAX then U64_MAX else max_seq + 1),
                           ls_committed_tx = max_tx, ls_applied_seq = max_seq, ls_locks = []\<rparr>, wal, rp_size rs)))"

fun finish_rollbacks :: "lsm_params \<Rightarrow> bool \<Rightarrow> bool \<Rightarrow> u64 list \<Rightarrow> lsm \<Rightarrow> lsm_error + lsm" where
  "finish_rollbacks p wal_ok manifest_ok [] st = Inr st"
| "finish_rollbacks p wal_ok manifest_ok (tx # txs) st =
     (case rollback_to_tx p wal_ok manifest_ok st tx of
        (_, Inl e) \<Rightarrow> Inl e
      | (st', Inr _) \<Rightarrow> finish_rollbacks p wal_ok manifest_ok txs st')"

text \<open>\<open>wal_ok\<close> and \<open>manifest_ok\<close> are the answers to the flush and to the rollbacks, \<open>manifest_new\<close> the answer when a
  new manifest is written.\<close>

definition lsm_open ::
  "lsm_params \<Rightarrow> kv tx_buffer \<Rightarrow> ssi_validator \<Rightarrow> nat \<Rightarrow> backup_outcome \<Rightarrow> rewrite_outcome \<Rightarrow> truncate_outcome \<Rightarrow>
   bool \<Rightarrow> bool \<Rightarrow> bool \<Rightarrow> directory \<Rightarrow> open_error + lsm" where
  "lsm_open p txb ssi nonce backup rewrite trunc manifest_new wal_ok manifest_ok dir =
     bind_res (recover_engine p txb ssi nonce backup rewrite trunc dir) (\<lambda>(st, wal, replayed_size).
       if \<not> manifest_new then Inl Open_manifest
       else case (if replayed_size > 0 \<and> dr_logs dir \<noteq> [] then lsm_flush p wal_ok manifest_ok st else (st, Inr ())) of
              (_, Inl e) \<Rightarrow> Inl (Open_engine e)
            | (st1, Inr _) \<Rightarrow>
                map_err Open_engine (finish_rollbacks p wal_ok manifest_ok (sort (dr_rollbacks dir)) st1))"

end
