(* ===== verification/RecoveryReplay.thy ===== *)
theory RecoveryReplay
  imports Recovery LsmRun WalFaults
begin

text \<open>
  The replay of the journals: what it does with the operations of a commit, whole or cut off.
\<close>

section \<open>The operations of a commit\<close>

fun data_ops :: "u64 \<Rightarrow> kv index_op list \<Rightarrow> u64 \<Rightarrow> (wal_op \<times> u64) list" where
  "data_ops tx [] seq = []"
| "data_ops tx (op # ops) seq =
     (case op of
        OpInsert _ (key, val) \<Rightarrow> [(Put tx key val, seq)]
      | OpDelete _ (Some (key, _)) \<Rightarrow> [(Delete tx key, seq)]
      | OpDelete _ None \<Rightarrow> []) @ data_ops tx ops (seq + 1)"

lemma commit_wal_ops_data: "commit_wal_ops tx ops n = data_ops tx ops n @ [(TxEnd tx True, n + of_nat (length ops))]"
  by (induction ops arbitrary: n) (auto simp: algebra_simps)

definition data_of :: "u64 \<Rightarrow> wal_op \<times> u64 \<Rightarrow> bool" where
  "data_of tx e \<longleftrightarrow> \<not> is_tx_end (fst e) \<and> op_tx_id (fst e) = tx"

lemma data_ops_of: "e \<in> set (data_ops tx ops n) \<Longrightarrow> data_of tx e"
  by (induction ops arbitrary: n) (auto simp: data_of_def split: index_op.splits option.splits prod.splits)

lemma apply_logged_data:
  "number_ops ops n = (ups, m) \<Longrightarrow>
   fst (foldl apply_logged (mt, sz) (map prod.swap (data_ops tx ops n))) = foldl (\<lambda>mt (key, val, seq). mt_put mt key val seq tx) mt ups"
proof (induction ops arbitrary: n mt sz ups)
  case (Cons op ops)
  obtain ups' where rest: "number_ops ops (n + 1) = (ups', m)" using Cons.prems by (auto split: prod.splits)
  note IH = Cons.IH [OF this]
  show ?case using Cons.prems rest by (auto simp: IH split: index_op.splits option.splits prod.splits)
qed simp

section \<open>The replay of a commit\<close>

definition pend :: "u64 \<Rightarrow> (u64 \<times> wal_op) list \<Rightarrow> (u64 \<times> (u64 \<times> wal_op) list) list" where
  "pend tx xs = (if xs = [] then [] else [(tx, xs)])"

lemma pend_simps [simp]: "pend tx [] = []" "lookup_or [] (pend tx xs) tx = xs" "AList.delete tx (pend tx xs) = []"
  "AList.update tx (xs @ [x]) (pend tx xs) = pend tx (xs @ [x])"
  by (simp_all add: pend_def lookup_or_def)

lemma raise_tx_simps [simp]:
  "rp_mem (raise_tx tx st) = rp_mem st" "rp_size (raise_tx tx st) = rp_size st" "rp_pending (raise_tx tx st) = rp_pending st"
  "rp_max_seq (raise_tx tx st) = rp_max_seq st" "rp_hmacs (raise_tx tx st) = rp_hmacs st" "rp_last (raise_tx tx st) = rp_last st"
  by (simp_all add: raise_tx_def)

lemma replay_data:
  "\<forall>e \<in> set (ops_of es). data_of tx e \<Longrightarrow> rp_pending st = pend tx xs \<Longrightarrow>
   rp_mem (foldl replay_entry st es) = rp_mem st \<and>
   rp_pending (foldl replay_entry st es) = pend tx (xs @ map prod.swap (ops_of es))"
proof (induction es arbitrary: st xs)
  case (Cons e es)
  have e: "op_tx_id (we_op e) = tx" "\<not> is_tx_end (we_op e)" using Cons.prems(1) by (auto simp: data_of_def)
  let ?st = "replay_entry st e"
  have "rp_mem ?st = rp_mem st" "rp_pending ?st = pend tx (xs @ [(we_seq e, we_op e)])"
    using e Cons.prems(2) by (cases "we_op e"; simp add: replay_entry_def Let_def)+
  with Cons.IH [of ?st "xs @ [(we_seq e, we_op e)]"] Cons.prems(1) show ?case by simp
qed simp

lemma replay_commit:
  assumes ops: "ops_of es = commit_wal_ops tx ops n" and "rp_pending st = []" and num: "number_ops ops n = (ups, m)"
  shows "rp_mem (foldl replay_entry st es) = foldl (\<lambda>mt (key, val, seq). mt_put mt key val seq tx) (rp_mem st) ups"
    and "rp_pending (foldl replay_entry st es) = []"
proof -
  obtain es1 e where es: "es = es1 @ [e]" and es1: "ops_of es1 = data_ops tx ops n" and e: "we_op e = TxEnd tx True"
    using ops unfolding commit_wal_ops_data map_eq_append_conv by auto
  have "\<forall>e \<in> set (ops_of es1). data_of tx e" unfolding es1 using data_ops_of by blast
  from replay_data [OF this, of st "[]"] assms(2) es1
  have mid: "rp_mem (foldl replay_entry st es1) = rp_mem st"
    "rp_pending (foldl replay_entry st es1) = pend tx (map prod.swap (data_ops tx ops n))" by simp_all
  then show "rp_mem (foldl replay_entry st es) = foldl (\<lambda>mt (key, val, seq). mt_put mt key val seq tx) (rp_mem st) ups"
    "rp_pending (foldl replay_entry st es) = []"
    using apply_logged_data [OF num, of "rp_mem st" _ tx]
    by (simp_all add: es replay_entry_def e Let_def case_prod_beta)
qed

section \<open>The greatest numbers\<close>

lemma replay_entry_numbers:
  "rp_max_seq (replay_entry st e) = max (rp_max_seq st) (mask_seq (we_seq e))"
  "rp_max_tx (replay_entry st e) =
     (if op_tx_id (we_op e) < INTERNAL_BASE then max (rp_max_tx st) (op_tx_id (we_op e)) else rp_max_tx st)"
  "rp_hmacs (replay_entry st e) = we_checksum e # rp_hmacs st"
  by (cases "we_op e"; auto simp: replay_entry_def Let_def raise_tx_def max_def split: prod.splits)+

lemma replay_max_seq: "rp_max_seq (foldl replay_entry st es) = foldl max (rp_max_seq st) (map (\<lambda>e. mask_seq (we_seq e)) es)"
  by (induction es arbitrary: st) (simp_all add: replay_entry_numbers)

lemma replay_max_tx:
  "rp_max_tx st \<le> rp_max_tx (foldl replay_entry st es)"
  "e \<in> set es \<Longrightarrow> op_tx_id (we_op e) < INTERNAL_BASE \<Longrightarrow> op_tx_id (we_op e) \<le> rp_max_tx (foldl replay_entry st es)"
proof -
  show mono: "rp_max_tx st \<le> rp_max_tx (foldl replay_entry st es)" for st es
  proof (induction es arbitrary: st)
    case (Cons e es)
    have "rp_max_tx st \<le> rp_max_tx (replay_entry st e)" by (simp add: replay_entry_numbers)
    with Cons [of "replay_entry st e"] show ?case by simp
  qed simp
  show "op_tx_id (we_op e) \<le> rp_max_tx (foldl replay_entry st es)" if "e \<in> set es" "op_tx_id (we_op e) < INTERNAL_BASE"
    using that
  proof (induction es arbitrary: st)
    case (Cons a es)
    show ?case
    proof (cases "a = e")
      case True
      have "op_tx_id (we_op e) \<le> rp_max_tx (replay_entry st e)" using Cons.prems(2) by (simp add: replay_entry_numbers)
      with mono [of "replay_entry st e" es] True show ?thesis by simp
    qed (use Cons in simp)
  qed simp
qed

lemma replay_hmacs: "set (rp_hmacs st) \<subseteq> set (rp_hmacs (foldl replay_entry st es))"
  by (induction es arbitrary: st) (force simp: replay_entry_numbers)+

end
