(* ===== verification/RecoveryCommits.thy ===== *)
theory RecoveryCommits
  imports RecoveryReplay
begin

text \<open>
  The commits that a journal holds: the state that they lead to, the replay of the first of them, and what is left of a
  journal that was cut off.
\<close>

section \<open>Commits\<close>

type_synonym commit = "u64 \<times> kv index_op list"

fun log_commits :: "u64 \<Rightarrow> commit list \<Rightarrow> (wal_op \<times> u64) list list" where
  "log_commits n [] = []"
| "log_commits n ((tx, ops) # cs) = commit_wal_ops tx ops n # log_commits (n + of_nat (length ops) + 1) cs"

definition db_after :: "db \<Rightarrow> commit list \<Rightarrow> db" where
  "db_after d cs = foldl (\<lambda>d (tx, ops). fold apply_op ops d) d cs"

definition commit_to :: "lsm \<Rightarrow> commit \<Rightarrow> lsm" where
  "commit_to st c =
     (let (ups, m) = number_ops (snd c) (ls_next_seq st)
      in advance_visibility (apply_mem_updates (st\<lparr>ls_next_seq := m + 1, ls_ssi := ls_ssi st\<rparr>) ups (fst c)) (fst c))"

abbreviation seqs_of :: "commit list \<Rightarrow> nat" where
  "seqs_of cs \<equiv> sum_list (map (\<lambda>(tx, ops). length ops + 1) cs)"

lemma number_ops_next: "snd (number_ops ops n) = n + of_nat (length ops)"
proof (induction ops arbitrary: n)
  case (Cons op ops)
  from Cons [of "n + 1"] show ?case by (simp add: case_prod_beta algebra_simps)
qed simp

lemma commit_to_fields [simp]:
  "ls_ssts (commit_to st c) = ls_ssts st" "ls_imm (commit_to st c) = ls_imm st"
  "ls_next_seq (commit_to st c) = ls_next_seq st + of_nat (length (snd c)) + 1"
  using number_ops_next [of "snd c" "ls_next_seq st"]
  by (auto simp: commit_to_def Let_def case_prod_beta apply_mem_updates_def)

lemma commit_to_mem:
  "number_ops ops (ls_next_seq st) = (ups, m) \<Longrightarrow>
   ls_mem (commit_to st (tx, ops)) = foldl (\<lambda>mt (key, val, seq). mt_put mt key val seq tx) (ls_mem st) ups"
  by (simp add: commit_to_def Let_def apply_mem_updates_def)

lemma history_commits:
  "holds_history p st H F \<Longrightarrow> unat (ls_next_seq st) + seqs_of cs < 2 ^ 63 \<Longrightarrow>
   \<forall>(tx, ops) \<in> set cs. \<forall>op \<in> set ops. op_readable op \<Longrightarrow>
   \<exists>H'. holds_history p (foldl commit_to st cs) (H @ H') F \<and>
     db_at (ls_applied_seq (foldl commit_to st cs)) (H @ H') = db_after (db_at (ls_applied_seq st) H) cs \<and>
     unat (ls_next_seq (foldl commit_to st cs)) = unat (ls_next_seq st) + seqs_of cs \<and>
     (\<forall>e \<in> set H'. ls_next_seq st \<le> entry_raw e \<and> tx_of e \<in> fst ` set cs)"
proof (induction cs arbitrary: st H)
  case Nil
  then show ?case by (intro exI [of _ "[]"]) (simp add: db_after_def)
next
  case (Cons c cs)
  obtain tx ops where c: "c = (tx, ops)" by (cases c)
  obtain ups m where num: "number_ops ops (ls_next_seq st) = (ups, m)" by (cases "number_ops ops (ls_next_seq st)")
  have room: "unat (ls_next_seq st) + length ops + 1 < 2 ^ 63" using Cons.prems(2) by (simp add: c)
  have small: "\<forall>op \<in> set ops. op_readable op" using Cons.prems(3) by (simp add: c)
  let ?st = "commit_to st c" and ?es = "tagged_updates tx ups"
  have st: "?st = advance_visibility (apply_mem_updates (st\<lparr>ls_next_seq := m + 1, ls_ssi := ls_ssi st\<rparr>) ups tx) tx"
    by (simp add: commit_to_def c num)
  note one = history_commit [OF Cons.prems(1) num room small st]
  have room': "unat (ls_next_seq ?st) + seqs_of cs < 2 ^ 63" using Cons.prems(2) one(4) by (simp add: c)
  have small': "\<forall>(tx, ops) \<in> set cs. \<forall>op \<in> set ops. op_readable op" using Cons.prems(3) by simp
  from Cons.IH [OF one(1) room' small'] obtain H' where H':
    "holds_history p (foldl commit_to ?st cs) ((H @ ?es) @ H') F"
    "db_at (ls_applied_seq (foldl commit_to ?st cs)) ((H @ ?es) @ H') = db_after (db_at (ls_applied_seq ?st) (H @ ?es)) cs"
    "unat (ls_next_seq (foldl commit_to ?st cs)) = unat (ls_next_seq ?st) + seqs_of cs"
    "\<forall>e \<in> set H'. ls_next_seq ?st \<le> entry_raw e \<and> tx_of e \<in> fst ` set cs" by blast
  have es: "ls_next_seq st \<le> entry_raw e \<and> tx_of e = tx" if "e \<in> set ?es" for e
    using number_ops_seqs [OF _ num, of tx] number_ops_readable [OF small num, of tx] room that by (auto simp: seqs_between_def)
  have up: "ls_next_seq st \<le> ls_next_seq ?st" using one(4) by (simp add: word_le_nat_alt del: commit_to_fields)
  have seqs: "\<forall>e \<in> set (?es @ H'). ls_next_seq st \<le> entry_raw e \<and> tx_of e \<in> fst ` set (c # cs)"
  proof
    fix e assume "e \<in> set (?es @ H')"
    then consider "e \<in> set ?es" | "e \<in> set H'" by auto
    then show "ls_next_seq st \<le> entry_raw e \<and> tx_of e \<in> fst ` set (c # cs)"
    proof cases
      case 1
      with es show ?thesis by (simp add: c)
    next
      case 2
      with H'(4) order_trans [OF up] show ?thesis by auto
    qed
  qed
  have db: "db_after (db_at (ls_applied_seq ?st) (H @ ?es)) cs = db_after (db_at (ls_applied_seq st) H) (c # cs)"
    unfolding one(2) by (simp add: db_after_def c)
  have sum: "unat (ls_next_seq ?st) + seqs_of cs = unat (ls_next_seq st) + seqs_of (c # cs)"
    unfolding one(4) by (simp add: c)
  have eq: "foldl commit_to ?st cs = foldl commit_to st (c # cs)" "(H @ ?es) @ H' = H @ (?es @ H')" by simp_all
  show ?case using H'(1-3) seqs unfolding db sum eq by blast
qed

section \<open>The replay of whole commits\<close>

lemma replay_commits:
  "ops_of es = concat (log_commits (ls_next_seq st) cs) \<Longrightarrow> rp_pending rs = [] \<Longrightarrow> rp_mem rs = ls_mem st \<Longrightarrow>
   rp_mem (foldl replay_entry rs es) = ls_mem (foldl commit_to st cs) \<and> rp_pending (foldl replay_entry rs es) = []"
proof (induction cs arbitrary: es st rs)
  case (Cons c cs)
  obtain tx ops where c: "c = (tx, ops)" by (cases c)
  obtain es1 es2 where es: "es = es1 @ es2" "ops_of es1 = commit_wal_ops tx ops (ls_next_seq st)"
    "ops_of es2 = concat (log_commits (ls_next_seq (commit_to st c)) cs)"
    using Cons.prems(1) by (auto simp: c map_eq_append_conv)
  obtain ups m where num: "number_ops ops (ls_next_seq st) = (ups, m)" by (cases "number_ops ops (ls_next_seq st)")
  note one = replay_commit [OF es(2) Cons.prems(2) num]
  have "rp_mem (foldl replay_entry rs es1) = ls_mem (commit_to st c)"
    using one(1) Cons.prems(3) by (simp add: c commit_to_mem [OF num])
  from Cons.IH [OF es(3) one(2) this] show ?case by (simp add: es(1))
qed simp

section \<open>What a cut leaves\<close>

lemma take_concat:
  "[] \<notin> set xss \<Longrightarrow>
   \<exists>m ys. m \<le> length xss \<and> take j (concat xss) = concat (take m xss) @ ys \<and>
     (ys = [] \<or> m < length xss \<and> (\<exists>r < length (xss ! m). ys = take r (xss ! m))) \<and>
     (\<forall>i \<le> length xss. length (concat (take i xss)) \<le> j \<longrightarrow> i \<le> m)"
proof (induction xss arbitrary: j)
  case (Cons xs xss)
  show ?case
  proof (cases "length xs \<le> j")
    case True
    obtain m ys where m: "m \<le> length xss" "take (j - length xs) (concat xss) = concat (take m xss) @ ys"
      "ys = [] \<or> m < length xss \<and> (\<exists>r < length (xss ! m). ys = take r (xss ! m))"
      "\<forall>i \<le> length xss. length (concat (take i xss)) \<le> j - length xs \<longrightarrow> i \<le> m"
      using Cons.IH [of "j - length xs"] Cons.prems by auto
    have "i \<le> Suc m" if "i \<le> length (xs # xss)" "length (concat (take i (xs # xss))) \<le> j" for i
      using that m(4) True by (cases i) auto
    with m(1-3) True show ?thesis by (intro exI [of _ "Suc m"] exI [of _ ys]) auto
  next
    case False
    have "i \<le> 0" if "length (concat (take i (xs # xss))) \<le> j" for i
      using that False by (cases i) auto
    moreover have "\<exists>r < length xs. take j xs = take r xs" using False by (intro exI [of _ j]) simp
    ultimately show ?thesis using False by (intro exI [of _ 0] exI [of _ "take j xs"]) simp
  qed
qed simp

lemma log_commits_nth:
  "m < length cs \<Longrightarrow> \<exists>n'. log_commits n cs ! m = commit_wal_ops (fst (cs ! m)) (snd (cs ! m)) n'"
proof (induction cs arbitrary: n m)
  case (Cons c cs)
  then show ?case by (cases c; cases m) auto
qed simp

lemma log_commits_simps [simp]: "length (log_commits n cs) = length cs" "[] \<notin> set (log_commits n cs)"
  "take m (log_commits n cs) = log_commits n (take m cs)"
proof -
  show "length (log_commits n cs) = length cs" by (induction n cs rule: log_commits.induct) simp_all
  show "[] \<notin> set (log_commits n cs)" by (induction n cs rule: log_commits.induct) (simp_all add: commit_wal_ops_data)
  show "take m (log_commits n cs) = log_commits n (take m cs)"
    by (induction n cs arbitrary: m rule: log_commits.induct) (simp, case_tac m, simp_all)
qed

lemma cut_commits:
  assumes es: "ops_of es = concat (log_commits (ls_next_seq st) cs)"
  shows "\<exists>m \<le> length cs. (\<forall>i \<le> length cs. length (concat (log_commits (ls_next_seq st) (take i cs))) \<le> j \<longrightarrow> i \<le> m) \<and>
    (\<forall>rs. rp_pending rs = [] \<longrightarrow> rp_mem rs = ls_mem st \<longrightarrow>
       rp_mem (foldl replay_entry rs (take j es)) = ls_mem (foldl commit_to st (take m cs))) \<and>
    concat (log_commits (ls_next_seq st) (take m cs)) = ops_of (take (length (concat (log_commits (ls_next_seq st) (take m cs)))) es) \<and>
    length (concat (log_commits (ls_next_seq st) (take m cs))) \<le> j"
proof -
  let ?xss = "log_commits (ls_next_seq st) cs"
  obtain m ys where m: "m \<le> length cs" and split: "take j (concat ?xss) = concat (log_commits (ls_next_seq st) (take m cs)) @ ys"
    and ys: "ys = [] \<or> m < length cs \<and> (\<exists>r < length (?xss ! m). ys = take r (?xss ! m))"
    and most: "\<forall>i \<le> length cs. length (concat (log_commits (ls_next_seq st) (take i cs))) \<le> j \<longrightarrow> i \<le> m"
    using take_concat [of ?xss j] by auto
  have cut: "ops_of (take j es) = concat (log_commits (ls_next_seq st) (take m cs)) @ ys"
    unfolding take_map [symmetric] es split ..
  obtain es1 es2 where es12: "take j es = es1 @ es2" "ops_of es1 = concat (log_commits (ls_next_seq st) (take m cs))" "ops_of es2 = ys"
    using map_eq_append_conv [THEN iffD1, OF cut] by (elim exE conjE) (rule that, simp_all only:)
  have data: "\<exists>tx. \<forall>e \<in> set ys. data_of tx e"
    using ys
  proof
    assume "m < length cs \<and> (\<exists>r < length (?xss ! m). ys = take r (?xss ! m))"
    then obtain r where r: "m < length cs" "r < length (?xss ! m)" "ys = take r (?xss ! m)" by blast
    obtain n' where n': "?xss ! m = commit_wal_ops (fst (cs ! m)) (snd (cs ! m)) n'" using log_commits_nth [OF r(1)] by blast
    have "ys = take r (data_ops (fst (cs ! m)) (snd (cs ! m)) n')" using r(2,3) unfolding n' commit_wal_ops_data by simp
    then have "set ys \<subseteq> set (data_ops (fst (cs ! m)) (snd (cs ! m)) n')" by (simp only: set_take_subset)
    then show ?thesis using data_ops_of by blast
  qed simp
  then obtain tx where tx: "\<forall>e \<in> set (ops_of es2). data_of tx e" using es12(3) by blast
  have mem: "rp_mem (foldl replay_entry rs (take j es)) = ls_mem (foldl commit_to st (take m cs))"
    if "rp_pending rs = []" "rp_mem rs = ls_mem st" for rs
  proof -
    note one = replay_commits [OF es12(2) that]
    from replay_data [OF tx, of "foldl replay_entry rs es1" "[]"] one show ?thesis by (simp add: es12(1))
  qed
  have len: "length es1 = length (concat (log_commits (ls_next_seq st) (take m cs)))" using arg_cong [OF es12(2), of length] by simp
  have "length (es1 @ es2) \<le> j" by (simp add: es12(1) [symmetric])
  then have le: "length es1 \<le> j" by simp
  have "es1 = take (length es1) (take j es)" by (simp add: es12(1))
  then have es1: "es1 = take (length es1) es" using le by (simp add: min_def)
  show ?thesis using m most mem es12(2) es1 le unfolding len by (intro exI [of _ m] conjI) simp_all
qed

end
