(* ===== verification/RecoveryCorrect.thy ===== *)
theory RecoveryCorrect
  imports RecoveryCommits
begin

text \<open>
  The opening of a database after a crash: the journal, cut off at any byte, gives back a prefix of the commits that has
  every commit whose bytes were written.
\<close>

section \<open>The journal of the commits\<close>

definition loggable :: "kv index_op \<Rightarrow> bool" where
  "loggable op =
     (case op of
        OpInsert _ (key, val) \<Rightarrow> length key \<le> MAX_REPLAY_KEY \<and> length val \<le> READABLE_VALUE
      | OpDelete _ (Some (key, _)) \<Rightarrow> length key \<le> MAX_REPLAY_KEY
      | OpDelete _ None \<Rightarrow> False)"

lemma loggable_readable: "loggable op \<Longrightarrow> op_readable op"
  by (auto simp: loggable_def op_readable_def split: index_op.splits prod.splits)

fun upfrom :: "u64 \<Rightarrow> nat \<Rightarrow> u64 list" where
  "upfrom n 0 = []"
| "upfrom n (Suc k) = n # upfrom (n + 1) k"

lemma upfrom_append: "upfrom n (a + b) = upfrom n a @ upfrom (n + of_nat a) b"
  by (induction a arbitrary: n) (simp_all add: algebra_simps)

lemma set_upfrom: "set (upfrom n k) = (\<lambda>i. n + of_nat i) ` {..<k}"
  by (induction k arbitrary: n) (force simp: lessThan_Suc_eq_insert_0 image_image algebra_simps)+

lemma upfrom_seqs_next: "unat n + k < 2 ^ 63 \<Longrightarrow> s = None \<or> s = Some (n - 1) \<and> n \<noteq> 0 \<Longrightarrow> seqs_next s (upfrom n k)"
proof (induction k arbitrary: n s)
  case (Suc k)
  have n1: "unat (n + 1) = unat n + 1" using Suc.prems(1) by (intro unat_Suc [of _ 1]) simp_all
  have "n \<noteq> 0 \<Longrightarrow> n - 1 < n" by (metis add.commute diff_add_cancel measure_unat order_less_irrefl word_less_nat_alt)
  then have "seq_next s n" using Suc.prems(2) by (auto simp: seq_next_def not_le)
  moreover have "n + 1 \<noteq> 0" using n1 by auto
  moreover have "seqs_next (Some n) (upfrom (n + 1) k)"
    using Suc.prems(1) n1 \<open>n + 1 \<noteq> 0\<close> by (intro Suc.IH) simp_all
  ultimately show ?case by simp
qed simp

lemma data_ops_numbers: "\<forall>op \<in> set ops. loggable op \<Longrightarrow> map snd (data_ops tx ops n) = upfrom n (length ops)"
  by (induction ops arbitrary: n) (auto simp: loggable_def split: index_op.splits option.splits prod.splits)

abbreviation commits_ok :: "commit list \<Rightarrow> bool" where
  "commits_ok cs \<equiv> \<forall>(tx, ops) \<in> set cs. \<forall>op \<in> set ops. loggable op"

lemma log_commits_numbers: "commits_ok cs \<Longrightarrow> map snd (concat (log_commits n cs)) = upfrom n (seqs_of cs)"
proof (induction cs arbitrary: n)
  case (Cons c cs)
  obtain tx ops where c: "c = (tx, ops)" by (cases c)
  have "map snd (commit_wal_ops tx ops n) = upfrom n (length ops + 1)"
    using data_ops_numbers [of ops tx n] Cons.prems upfrom_append [of n "length ops" 1] by (simp add: c commit_wal_ops_data)
  moreover have "map snd (concat (log_commits (n + of_nat (length ops) + 1) cs)) = upfrom (n + of_nat (length ops + 1)) (seqs_of cs)"
    using Cons.IH [of "n + of_nat (length ops) + 1"] Cons.prems by (simp add: algebra_simps)
  moreover have "seqs_of (c # cs) = (length ops + 1) + seqs_of cs" by (simp add: c)
  ultimately show ?case
    using upfrom_append [of n "length ops + 1" "seqs_of cs"] by (simp only: c log_commits.simps concat.simps map_append)
qed simp

lemma data_ops_ok: "\<forall>op \<in> set ops. loggable op \<Longrightarrow> \<forall>(op, q) \<in> set (data_ops tx ops n). op_ok op"
  by (induction ops arbitrary: n) (auto simp: loggable_def op_ok_def split: index_op.splits option.splits prod.splits)

lemma log_commits_ok: "commits_ok cs \<Longrightarrow> \<forall>(op, q) \<in> set (concat (log_commits n cs)). op_ok op"
proof (induction n cs rule: log_commits.induct)
  case (2 n tx ops cs)
  then show ?case using data_ops_ok [of ops tx n] by (auto simp: commit_wal_ops_data op_ok_def)
qed simp

lemma log_commits_ends: "tx \<in> fst ` set cs \<Longrightarrow> \<exists>q. (TxEnd tx True, q) \<in> set (concat (log_commits n cs))"
  by (induction n cs rule: log_commits.induct) (auto simp: commit_wal_ops_data)

section \<open>A cut journal\<close>

lemma takeWhile_ends:
  "\<exists>j \<le> length es. takeWhile (\<lambda>x. snd x \<le> k) (with_ends p pos es) = with_ends p pos (take j es) \<and>
     (\<forall>i \<le> length es. pos + length (frames p (take i es)) \<le> k \<longrightarrow> i \<le> j)"
proof (induction es arbitrary: pos)
  case (Cons e es)
  let ?pos = "pos + length (frame_of p e)"
  obtain j where j: "j \<le> length es" "takeWhile (\<lambda>x. snd x \<le> k) (with_ends p ?pos es) = with_ends p ?pos (take j es)"
    "\<forall>i \<le> length es. ?pos + length (frames p (take i es)) \<le> k \<longrightarrow> i \<le> j" using Cons by blast
  show ?case
  proof (cases "?pos \<le> k")
    case True
    have "i \<le> Suc j" if "i \<le> length (e # es)" "pos + length (frames p (take i (e # es))) \<le> k" for i
      using that j(3) by (cases i) (auto simp: add.assoc simp del: frame_length)
    with j(1,2) True show ?thesis by (intro exI [of _ "Suc j"]) (auto simp del: frame_length)
  next
    case False
    have "i \<le> 0" if "pos + length (frames p (take i (e # es))) \<le> k" for i
      using that False by (cases i) (auto simp del: frame_length)
    with False show ?thesis by (intro exI [of _ 0]) (auto simp del: frame_length)
  qed
qed simp

definition first_end :: "(wal_op \<times> u64) list list \<Rightarrow> nat" where
  "first_end opss = (case concat opss of [] \<Rightarrow> 0 | (op, q) # _ \<Rightarrow> 84 + op_size op)"

lemma cut_journal:
  assumes ok: "entries_ok es" and disk: "bs = journal p es \<or> es = [] \<and> bs = []" and ops: "ops_of es = concat opss"
    and k: "k \<le> 64 \<or> first_end opss \<le> k"
  obtains j ver where "replay_mmap p (take k bs) = Inr (with_ends p 4 (take j es), ver)" and "j \<le> length es"
    and "\<And>i. i \<le> length es \<Longrightarrow> length (journal p (take i es)) \<le> k \<Longrightarrow> i \<le> j" and "ver = V3 \<or> j = 0"
proof -
  obtain j where j: "j \<le> length es" "takeWhile (\<lambda>x. snd x \<le> k) (with_ends p 4 es) = with_ends p 4 (take j es)"
    "\<forall>i \<le> length es. 4 + length (frames p (take i es)) \<le> k \<longrightarrow> i \<le> j" using takeWhile_ends by blast
  have "\<not> k < snd (hd (with_ends p 4 es))" if "64 < k" "es \<noteq> []"
  proof -
    obtain e es1 where es: "es = e # es1" using \<open>es \<noteq> []\<close> by (cases es) auto
    obtain rest where "concat opss = (we_op e, we_seq e) # rest" using ops [symmetric] by (simp add: es)
    then have "first_end opss = 84 + op_size (we_op e)" by (simp add: first_end_def)
    with k that(1) ok show ?thesis by (simp add: es frame_data_length)
  qed
  then have rep: "replay p (take k bs) = Inr (with_ends p 4 (take j es))"
    using disk replay_cut [OF ok, of p k] replay_short [of "[]" p] j by auto
  then obtain ver where mmap: "replay_mmap p (take k bs) = Inr (with_ends p 4 (take j es), ver)"
    by (auto simp: replay_def bind_res_def split: sum.splits)
  have "ver = V3 \<or> j = 0"
  proof (cases "4 \<le> k \<and> bs = journal p es")
    case True
    then have "take k bs = WAL_V3_HEADER @ take (k - 4) (frames p es)" by (simp add: journal_def)
    moreover have "WAL_V3_HEADER \<noteq> []" by (simp add: WAL_V3_HEADER_def)
    ultimately show ?thesis using mmap
      by (auto simp: replay_mmap_def scan_entries_from_slice_def detect_version_def bind_res_Inr split: if_splits prod.splits sum.splits)
  next
    case False
    have "j = 0" if "bs = journal p es" "k < 4"
    proof (rule ccontr)
      assume "j \<noteq> 0"
      then obtain e es1 i where "es = e # es1" "j = Suc i" using j(1) by (cases es; cases j) auto
      with j(2) that(2) show False by simp
    qed
    with False disk j(1) show ?thesis by auto
  qed
  with mmap j(1,3) that show thesis by (simp add: journal_def)
qed

lemma open_cut:
  assumes mmap: "replay_mmap p bs = Inr (ys, ver)" and "ver = V3 \<or> ys = []" and key: "get_integrity_key p = Inr key"
  shows "snd (open_with_config p allow V3 bs n Copied Rewritten Truncated) = Inr ()"
proof -
  have rep: "replay_mmap p (wl_file (handle_on bs n allow)) = Inr (ys, ver)" by (simp add: handle_on_def mmap)
  show ?thesis
  proof (cases "ver = V3 \<or> bs = []")
    case True
    then show ?thesis
      by (auto simp: open_with_config_def replay_with_size_and_version_def handle_on_def mmap Let_def flusher_truncate_def
          case_prod_beta)
  next
    case False
    have "snd (rewrite_as_v3 p (handle_on bs n allow) [] Rewritten) = Inr ()"
      by (cases "wp_km p") (simp_all add: rewrite_as_v3_def key handle_on_def Let_def)
    with False assms(2) show ?thesis
      by (simp add: open_with_config_def replay_with_size_and_version_def rep Let_def migrate_def case_prod_beta)
  qed
qed

end
