(* ===== verification/RecoveryCrash.thy ===== *)
theory RecoveryCrash
  imports RecoveryCorrect LsmRollback
begin

text \<open>
  The opening of a database after a crash: the database that is read afterwards is the one after a prefix of the commits.
\<close>

section \<open>The numbers of the files\<close>

lemma sst_input_max:
  assumes "sst_input b3 crc rd es"
  shows "sm_max_seq (rd_meta rd) = foldl max 0 (map entry_raw es)" and "sm_max_tx (rd_meta rd) = foldl max 0 (map tx_of es)"
proof -
  from assms obtain km v m hashes bs meta where w: "km_ok km" "v = 3 \<or> v = 4" "sst_write b3 crc km m hashes v es = Inr (bs, meta)"
    "\<forall>e \<in> set es. length (fst (snd e)) \<le> READABLE_VALUE" and opn: "sst_open crc km bs = Inr rd"
    unfolding sst_input_def by blast
  have v: "3 \<le> v" "v \<le> 4" using w(2) by auto
  obtain blks sealed sb where ents: "concat (map fst blks) = es" and noted: "noted b3 (bloom_new m hashes) es sb"
    and fl: "bs = file_of crc blks sealed (sb_bloom sb) sb" and ok: "file_ok b3 crc km v blks sealed (sb_bloom sb) sb"
    by (rule written_file [OF w(1) v w(3)])
  have "\<forall>e \<in> set (concat (map fst blks)). entry_valid e \<and> length (fst (snd e)) \<le> READABLE_VALUE"
    using noted w(4) by (simp add: ents noted_def)
  from sst_open_file [OF ok sealed_small [OF ok this]] opn have "rd = opened crc km v blks sealed (sb_bloom sb) sb" by (simp add: fl)
  moreover have raw: "map (\<lambda>e. mask_seq (seq_of e)) es = map entry_raw es" by (simp add: entry_raw_def)
  ultimately show "sm_max_seq (rd_meta rd) = foldl max 0 (map entry_raw es)" "sm_max_tx (rd_meta rd) = foldl max 0 (map tx_of es)"
    using noted unfolding noted_def raw by (simp_all add: opened_def Let_def)
qed

lemma sst_input_bound:
  assumes "sst_input b3 crc rd es" and "e \<in> set es"
  shows "entry_raw e \<le> mask_seq (sm_max_seq (rd_meta rd))"
proof -
  have "es \<noteq> []" using assms(2) by auto
  from sst_input_key(2) [OF assms(1) this] assms(2) show ?thesis by simp
qed

lemma foldl_max_in: "foldl max a xs \<in> insert a (set xs)" for a :: "'a::linorder"
  by (induction xs arbitrary: a) (auto simp: max_def split: if_splits)

lemma sst_input_upto:
  assumes "sst_input b3 crc rd es" and "seqs_upto n es"
  shows "mask_seq (sm_max_seq (rd_meta rd)) \<le> n"
proof -
  show ?thesis using assms(2) foldl_max_in [of 0 "map entry_raw es"] by (auto simp: sst_input_max(1) [OF assms(1)] seqs_upto_def entry_raw_def)
qed

lemma raise_files:
  "fst (foldl raise_file m rds) = foldl max (fst m) (map (\<lambda>rd. mask_seq (sm_max_seq (rd_meta rd))) rds)"
  "snd m \<le> snd (foldl raise_file m rds)"
  "rd \<in> set rds \<Longrightarrow> sm_max_tx (rd_meta rd) < INTERNAL_BASE \<Longrightarrow> sm_max_tx (rd_meta rd) \<le> snd (foldl raise_file m rds)"
proof -
  have one: "fst (raise_file m rd) = max (fst m) (mask_seq (sm_max_seq (rd_meta rd)))" "snd m \<le> snd (raise_file m rd)"
    "sm_max_tx (rd_meta rd) < INTERNAL_BASE \<Longrightarrow> sm_max_tx (rd_meta rd) \<le> snd (raise_file m rd)" for m rd
    by (auto simp: raise_file_def Let_def case_prod_beta max_def)
  show "fst (foldl raise_file m rds) = foldl max (fst m) (map (\<lambda>rd. mask_seq (sm_max_seq (rd_meta rd))) rds)"
    by (induction rds arbitrary: m) (simp_all add: one)
  show up: "snd m \<le> snd (foldl raise_file m rds)" for m rds
  proof (induction rds arbitrary: m)
    case (Cons a rds)
    from Cons [of "raise_file m a"] one(2) [of m a] show ?case by simp
  qed simp
  show "rd \<in> set rds \<Longrightarrow> sm_max_tx (rd_meta rd) < INTERNAL_BASE \<Longrightarrow> sm_max_tx (rd_meta rd) \<le> snd (foldl raise_file m rds)"
  proof (induction rds arbitrary: m)
    case (Cons a rds)
    show ?case
    proof (cases "a = rd")
      case True
      with one(3) [of rd m] Cons.prems(2) up [of "raise_file m a" rds] show ?thesis by simp
    qed (use Cons in simp)
  qed simp
qed

section \<open>The opened engine\<close>

text \<open>All that the history needs of another state with the same layers.\<close>

lemma history_reopened:
  assumes hist: "holds_history p st H 0"
    and same: "ls_mem st' = ls_mem st" "ls_imm st' = ls_imm st" "ls_ssts st' = ls_ssts st"
    and seen: "\<forall>e \<in> set H. tx_seen (ls_committed_tx st') e" and up: "seqs_upto (ls_applied_seq st') H"
    and room: "ls_applied_seq st' < ls_next_seq st'" "unat (ls_next_seq st') < 2 ^ 63"
  shows "holds_history p st' H 0"
proof -
  obtain cs ms where st: "in_layers p st cs ms" and sub: "set (concat (cs @ ms)) \<subseteq> set H" and agree: "agree_from 0 (concat (cs @ ms)) H"
    using hist unfolding holds_history_def by blast
  have "in_layers p st' cs ms" using st sub seen unfolding in_layers_def same by blast
  with hist sub agree up room show ?thesis unfolding holds_history_def by auto
qed

text \<open>When all is in the files, they are the history.\<close>

lemma history_flushed:
  assumes hist: "holds_history p st H F" and flushed: "mt_is_empty (ls_mem st)" "ls_imm st = []"
  obtains cs where "holds_history p (st\<lparr>ls_mem := mem_table_new\<rparr>) (concat cs) 0"
    and "list_all2 (sst_input (lp_blake3 p) (lp_crc32 p)) (ls_ssts st) cs"
    and "db_at (ls_applied_seq st) (concat cs) = db_at (ls_applied_seq st) H"
proof -
  obtain cs ms where st: "in_layers p st cs ms" and sub: "set (concat (cs @ ms)) \<subseteq> set H" and agree: "agree_from F (concat (cs @ ms)) H"
    using hist unfolding holds_history_def by blast
  have "list_all2 mem_holds [ls_mem st] ms" using st flushed(2) by (simp add: in_layers_def)
  then obtain m where "ms = [m]" "mem_holds (ls_mem st) m" by (auto simp: list_all2_Cons1)
  then have ms: "ms = [[]]" using mem_holds_empty flushed(1) by blast
  have lay: "in_layers p (st\<lparr>ls_mem := mem_table_new\<rparr>) cs [[]]"
    using st flushed(2) mem_holds_new by (simp add: in_layers_def ms)
  have dist: "versions_distinct (concat cs)" using st layered_distinct [of "cs @ ms"] by (simp add: in_layers_def ms)
  have "holds_history p (st\<lparr>ls_mem := mem_table_new\<rparr>) (concat cs) 0"
    using hist lay dist sub agree_from_refl [of 0 "concat cs"] unfolding holds_history_def ms
    by (intro conjI exI [of _ cs] exI [of _ "[[]]"]) (auto simp: seqs_upto_def)
  moreover have "F \<le> ls_applied_seq st" using hist by (simp add: holds_history_def)
  then have "db_at (ls_applied_seq st) (concat cs) = db_at (ls_applied_seq st) H"
    using agree by (simp add: ms agree_from_def db_at_def)
  ultimately show thesis using st that by (simp add: in_layers_def)
qed

lemma history_get:
  assumes "holds_history p st H F"
  shows "lsm_get p st key = (if validate_key key then Inr (db_at (ls_applied_seq st) H key) else Inl Invalid)"
  using history_read [OF assms, of key "ls_applied_seq st"] history_seqs(1) [OF assms] assms by (simp add: lsm_get_def holds_history_def)

text \<open>The numbers in the journal.\<close>

lemma seqs_of_take: "seqs_of (take i cs) \<le> seqs_of cs"
proof (induction cs arbitrary: i)
  case (Cons c cs)
  then show ?case by (cases i) (auto simp: case_prod_beta)
qed simp

lemma logged_numbers:
  assumes cs: "commits_ok cs" and room: "unat n + seqs_of cs < 2 ^ 63" and es: "ops_of es = concat (log_commits n cs)"
  shows "e \<in> set es \<Longrightarrow> unat (we_seq e) < unat n + seqs_of cs \<and> mask_seq (we_seq e) = we_seq e"
    and "0 < seqs_of cs \<Longrightarrow> \<exists>e \<in> set es. unat (we_seq e) + 1 = unat n + seqs_of cs"
proof -
  have "map we_seq es = map snd (ops_of es)" by (simp add: o_def)
  then have "map we_seq es = upfrom n (seqs_of cs)" using log_commits_numbers [OF cs, of n] by (simp only: es)
  then have set: "we_seq ` set es = (\<lambda>i. n + of_nat i) ` {..<seqs_of cs}" using set_upfrom [of n "seqs_of cs"] by (metis set_map)
  have num: "unat (n + of_nat i) = unat n + i" if "i < seqs_of cs" for i
  proof -
    have small: "unat n + i < 2 ^ 63" using that room by linarith
    then have "unat (of_nat i :: u64) = i" by (simp add: unat_of_nat)
    with small show ?thesis by (subst unat_add_lem [THEN iffD1]) simp_all
  qed
  show "unat (we_seq e) < unat n + seqs_of cs \<and> mask_seq (we_seq e) = we_seq e" if "e \<in> set es"
  proof -
    have "we_seq e \<in> we_seq ` set es" using that by (rule imageI)
    then obtain i where i: "i < seqs_of cs" "we_seq e = n + of_nat i" unfolding set by blast
    then have less: "unat (we_seq e) < unat n + seqs_of cs" using num by simp
    moreover have "mask_seq (we_seq e) = we_seq e" using mask_seq_small [of "we_seq e"] less room by simp
    ultimately show ?thesis ..
  qed
  show "\<exists>e \<in> set es. unat (we_seq e) + 1 = unat n + seqs_of cs" if pos: "0 < seqs_of cs"
  proof -
    let ?i = "seqs_of cs - 1"
    have "?i < seqs_of cs" using pos by simp
    then have "n + of_nat ?i \<in> we_seq ` set es" unfolding set by blast
    then obtain e where "e \<in> set es" "we_seq e = n + of_nat ?i" by auto
    with num [OF \<open>?i < seqs_of cs\<close>] pos show ?thesis by (intro bexI [of _ e]) simp_all
  qed
qed

lemma start_numbers:
  assumes "rs = replay_journal_entries replay_start es"
  shows "rp_max_seq rs = foldl max 0 (map (\<lambda>e. mask_seq (we_seq e)) es)"
    and "e \<in> set es \<Longrightarrow> op_tx_id (we_op e) < INTERNAL_BASE \<Longrightarrow> op_tx_id (we_op e) \<le> rp_max_tx rs"
    and "zero_hmac \<in> set (rp_hmacs rs)"
proof -
  let ?s = "if es = [] then replay_start else replay_start\<lparr>rp_last := Some (we_checksum (last es))\<rparr>"
  have rs: "rs = (foldl replay_entry ?s es)\<lparr>rp_pending := []\<rparr>" by (simp add: assms replay_journal_entries_def)
  show "rp_max_seq rs = foldl max 0 (map (\<lambda>e. mask_seq (we_seq e)) es)"
    by (simp add: rs replay_max_seq) (simp add: replay_start_def)
  show "op_tx_id (we_op e) \<le> rp_max_tx rs" if "e \<in> set es" "op_tx_id (we_op e) < INTERNAL_BASE"
    using replay_max_tx(2) [OF that, of ?s] by (simp add: rs)
  have "zero_hmac \<in> set (rp_hmacs ?s)" by (simp add: replay_start_def)
  then show "zero_hmac \<in> set (rp_hmacs rs)" using replay_hmacs [of ?s es] by (auto simp: rs)
qed

lemma commits_fields: "ls_ssts (foldl commit_to st cs) = ls_ssts st" "ls_imm (foldl commit_to st cs) = ls_imm st"
  by (induction cs arbitrary: st) simp_all

text \<open>The engine that is opened from a journal with the first \<open>j\<close> entries of the commits.\<close>

lemma reopened_history:
  assumes hist: "holds_history p st0 H0 0" and files: "list_all2 (sst_input (lp_blake3 p) (lp_crc32 p)) (ls_ssts st0) cs"
    and H0: "H0 = concat cs" and mem: "ls_mem st0 = mem_table_new" "ls_imm st0 = []"
    and txs: "\<forall>rd \<in> set rds. sm_max_tx (rd_meta rd) < INTERNAL_BASE" and rds: "sort_files rds = ls_ssts st0"
    and commits: "commits_ok cms" and room: "unat (ls_next_seq st0) + seqs_of cms < 2 ^ 63"
    and es: "ops_of es = concat (log_commits (ls_next_seq st0) cms)" and i: "i \<le> length cms"
    and first: "concat (log_commits (ls_next_seq st0) (take i cms)) = ops_of (take (length (concat (log_commits (ls_next_seq st0) (take i cms)))) es)"
      "length (concat (log_commits (ls_next_seq st0) (take i cms))) \<le> j"
    and rs: "rs = replay_journal_entries replay_start (take j es)"
    and rmem: "rp_mem rs = ls_mem (foldl commit_to st0 (take i cms))"
    and nums: "foldl raise_file (rp_max_seq rs, rp_max_tx rs) rds = (max_seq, max_tx)"
    and st: "ls_mem st = rp_mem rs" "ls_imm st = []" "ls_ssts st = sort_files rds" "ls_committed_tx st = max_tx"
      "ls_applied_seq st = max_seq" "ls_next_seq st = (if max_seq = U64_MAX then U64_MAX else max_seq + 1)"
  shows "\<exists>H. holds_history p st H 0 \<and> db_at (ls_applied_seq st) H = db_after (db_at (ls_applied_seq st0) H0) (take i cms)"
proof -
  let ?B = "foldl commit_to st0 (take i cms)" and ?N = "ls_next_seq st0" and ?es = "take j es"
  have sum: "seqs_of (take i cms) \<le> seqs_of cms"
    by (rule seqs_of_take)
  have "\<forall>(tx, ops) \<in> set (take i cms). \<forall>op \<in> set ops. op_readable op"
    using commits loggable_readable set_take_subset [of i cms] by blast
  moreover have "unat ?N + seqs_of (take i cms) < 2 ^ 63" using room sum by linarith
  moreover note history_commits [OF hist, of "take i cms"]
  ultimately obtain H' where B: "holds_history p ?B (H0 @ H') 0"
    and db: "db_at (ls_applied_seq ?B) (H0 @ H') = db_after (db_at (ls_applied_seq st0) H0) (take i cms)"
    and nxt: "unat (ls_next_seq ?B) = unat ?N + seqs_of (take i cms)"
    and new: "\<forall>e \<in> set H'. ?N \<le> entry_raw e \<and> tx_of e \<in> fst ` set (take i cms)"
    by blast
  let ?L = "length (concat (log_commits ?N (take i cms)))"
  have seqs: "unat (we_seq e) < unat ?N + seqs_of cms \<and> mask_seq (we_seq e) = we_seq e" if "e \<in> set ?es" for e
    using logged_numbers(1) [OF commits room es in_set_takeD [OF that]] .
  have keys: "mask_seq (sm_max_seq (rd_meta rd)) \<le> ls_applied_seq st0" if "rd \<in> set rds" for rd
  proof -
    have "rd \<in> set (ls_ssts st0)" using that rds [symmetric] by (simp add: sort_files_def)
    then obtain i where i: "i < length (ls_ssts st0)" "rd = ls_ssts st0 ! i" unfolding in_set_conv_nth by blast
    obtain c where c: "sst_input (lp_blake3 p) (lp_crc32 p) rd c" "c \<in> set cs"
      using list_all2_nthD [OF files i(1)] list_all2_lengthD [OF files] i by simp
    have "seqs_upto (ls_applied_seq st0) c" using hist c(2) by (auto simp: holds_history_def H0 seqs_upto_def)
    with sst_input_upto [OF c(1)] show ?thesis .
  qed
  have max_seq: "max_seq = foldl max (rp_max_seq rs) (map (\<lambda>rd. mask_seq (sm_max_seq (rd_meta rd))) rds)"
    using raise_files(1) [of "(rp_max_seq rs, rp_max_tx rs)" rds] nums by simp
  have small: "unat max_seq + 1 < 2 ^ 63"
  proof -
    consider "max_seq = rp_max_seq rs" | rd where "rd \<in> set rds" "max_seq = mask_seq (sm_max_seq (rd_meta rd))"
      using foldl_max_in [of "rp_max_seq rs" "map (\<lambda>rd. mask_seq (sm_max_seq (rd_meta rd))) rds"] unfolding max_seq by auto
    then show ?thesis
    proof cases
      case 1
      consider "rp_max_seq rs = 0" | e where "e \<in> set ?es" "rp_max_seq rs = mask_seq (we_seq e)"
        using foldl_max_in [of 0 "map (\<lambda>e. mask_seq (we_seq e)) ?es"] unfolding start_numbers(1) [OF rs] by auto
      then show ?thesis
      proof cases
        case (2 e)
        with seqs [OF 2(1)] 1 room show ?thesis by simp
      qed (use 1 in simp)
    next
      case 2
      have "ls_applied_seq st0 < ?N" using hist by (simp add: holds_history_def)
      with keys [OF 2(1)] 2(2) room show ?thesis by (simp add: word_le_nat_alt word_less_nat_alt)
    qed
  qed
  have nxt': "unat (ls_next_seq st) = unat max_seq + 1"
  proof -
    have suc: "unat (max_seq + 1) = unat max_seq + 1" using small by (intro unat_Suc [of _ 1]) simp_all
    then have "max_seq \<noteq> U64_MAX" by (auto simp: U64_MAX_def)
    with suc show ?thesis by (simp add: st(6))
  qed
  have old: "entry_raw e \<le> max_seq \<and> tx_seen max_tx e" if e: "e \<in> set H0" for e
  proof -
    obtain c where c: "c \<in> set cs" "e \<in> set c" using e by (auto simp: H0)
    then obtain q where q: "q < length cs" "c = cs ! q" unfolding in_set_conv_nth by blast
    let ?rd = "ls_ssts st0 ! q"
    have "?rd \<in> set (ls_ssts st0)" using list_all2_lengthD [OF files] q(1) by simp
    then have rd: "sst_input (lp_blake3 p) (lp_crc32 p) ?rd c" "?rd \<in> set rds"
      using list_all2_nthD2 [OF files q(1)] q(2) unfolding rds [symmetric] by (simp_all add: sort_files_def)
    have "mask_seq (sm_max_seq (rd_meta ?rd)) \<le> max_seq"
      unfolding max_seq using rd(2) by (intro foldl_max_le(2)) simp
    moreover have "tx_of e \<le> max_tx"
      using sst_input_txs(2) [OF rd(1) c(2)] raise_files(3) [OF rd(2), of "(rp_max_seq rs, rp_max_tx rs)"] txs rd(2) nums by auto
    ultimately show ?thesis using sst_input_bound [OF rd(1) c(2)] by (auto simp: tx_seen_def)
  qed
  have fresh: "entry_raw e \<le> max_seq \<and> tx_seen max_tx e" if e: "e \<in> set H'" for e
  proof -
    have tx: "tx_of e \<in> fst ` set (take i cms)" using new e by blast
    then have pos: "0 < seqs_of (take i cms)" by (cases "take i cms") (auto simp: case_prod_beta)
    have okq: "commits_ok (take i cms)" using commits set_take_subset [of i cms] by blast
    have roomq: "unat ?N + seqs_of (take i cms) < 2 ^ 63" using room sum by linarith
    obtain e' where e': "e' \<in> set (take ?L es)" "unat (we_seq e') + 1 = unat ?N + seqs_of (take i cms)"
      using logged_numbers(2) [OF okq roomq first(1) [symmetric] pos] by blast
    have sub: "set (take ?L es) \<subseteq> set ?es" using first(2) by (rule set_take_subset_set_take)
    have "seqs_upto (ls_applied_seq ?B) (H0 @ H')" "ls_applied_seq ?B < ls_next_seq ?B"
      using B by (simp_all add: holds_history_def)
    then have "entry_raw e < ls_next_seq ?B" using e by (auto simp: seqs_upto_def intro: le_less_trans)
    then have "entry_raw e \<le> mask_seq (we_seq e')"
      using e' sub nxt seqs by (auto simp: word_le_nat_alt word_less_nat_alt)
    also have "\<dots> \<le> rp_max_seq rs" unfolding start_numbers(1) [OF rs] using e'(1) sub by (intro foldl_max_le(2)) auto
    also have "\<dots> \<le> max_seq" unfolding max_seq by (rule foldl_max_le(1))
    finally have seq: "entry_raw e \<le> max_seq" .
    obtain q where "(TxEnd (tx_of e) True, q) \<in> set (concat (log_commits ?N (take i cms)))" using log_commits_ends [OF tx] by blast
    moreover have "set (concat (log_commits ?N (take i cms))) = set (ops_of (take ?L es))" using first(1) by (rule arg_cong)
    ultimately have "(TxEnd (tx_of e) True, q) \<in> set (ops_of (take ?L es))" by (simp only:)
    then obtain e2 where e2: "e2 \<in> set ?es" "we_op e2 = TxEnd (tx_of e) True" using sub by auto
    have "tx_of e \<le> max_tx" if "tx_of e < INTERNAL_BASE"
    proof -
      have "tx_of e \<le> rp_max_tx rs" using start_numbers(2) [OF rs e2(1)] that by (simp add: e2(2) op_tx_id_def)
      also have "\<dots> \<le> max_tx" using raise_files(2) [of "(rp_max_seq rs, rp_max_tx rs)" rds] nums by simp
      finally show ?thesis .
    qed
    with seq show ?thesis by (auto simp: tx_seen_def)
  qed
  have hist': "holds_history p st (H0 @ H') 0"
  proof (rule history_reopened [OF B])
    show "ls_mem st = ls_mem ?B" "ls_imm st = ls_imm ?B" "ls_ssts st = ls_ssts ?B"
      using rmem rds mem(2) by (simp_all add: st commits_fields)
    show "\<forall>e \<in> set (H0 @ H'). tx_seen (ls_committed_tx st) e" "seqs_upto (ls_applied_seq st) (H0 @ H')"
      using old fresh by (auto simp: st(4,5) seqs_upto_def)
    show "ls_applied_seq st < ls_next_seq st" "unat (ls_next_seq st) < 2 ^ 63"
      using nxt' small by (simp_all add: st(5) word_less_nat_alt)
  qed
  moreover have "db_at (ls_applied_seq st) (H0 @ H') = db_at (ls_applied_seq ?B) (H0 @ H')"
    using B hist' by (intro db_at_above) (simp_all add: holds_history_def)
  ultimately show ?thesis using db by metis
qed

section \<open>Recovery\<close>

lemma frames_length_ops:
  "entries_ok es \<Longrightarrow> entries_ok es' \<Longrightarrow> ops_of es = ops_of es' \<Longrightarrow> length (frames p es) = length (frames p es')"
proof (induction es arbitrary: es')
  case (Cons e es)
  obtain e' es1 where es': "es' = e' # es1" using Cons.prems(3) by (cases es') auto
  with Cons.prems have "we_op e = we_op e'" "length (frames p es) = length (frames p es1)" by (auto intro: Cons.IH)
  with Cons.prems(1,2) show ?case by (simp add: es' frame_data_length)
qed simp

text \<open>What the opening does with a journal of commits that was cut off.\<close>

lemma recover_cut:
  assumes hist: "holds_history p st H F" and km: "km_ok (lp_km p)"
    and flushed: "mt_is_empty (ls_mem st)" "ls_imm st = []"
    and commits: "commits_ok cs" and room: "unat (ls_next_seq st) + seqs_of cs < 2 ^ 63"
    and log: "log_batches wp (handle_on [] n allow) (log_commits (ls_next_seq st) cs) = (w, Inr ())"
    and key: "get_integrity_key wp = Inr key" and hmac: "hmac_ok wp" and plain: "wp_km wp = None"
    and cut: "k \<le> 64 \<or> first_end (log_commits (ls_next_seq st) cs) \<le> k"
    and dir: "dr_logs dir = [(wp, take k (wl_file w))]" "open_files p (dr_files dir) = Inr rds" "sort_files rds = ls_ssts st"
      "\<forall>rd \<in> set rds. sm_max_tx (rd_meta rd) < INTERNAL_BASE" "dr_hwm dir \<in> {None, Some zero_hmac} \<or> dr_listed dir"
  obtains i st' H' wal sz where "i \<le> length cs"
    and "\<And>j wj. j \<le> length cs \<Longrightarrow> log_batches wp (handle_on [] n allow) (log_commits (ls_next_seq st) (take j cs)) = (wj, Inr ()) \<Longrightarrow>
      length (wl_file wj) \<le> k \<Longrightarrow> j \<le> i"
    and "recover_engine p txb ssi nonce Copied Rewritten Truncated dir = Inr (st', wal, sz)"
    and "holds_history p st' H' 0" and "db_at (ls_applied_seq st') H' = db_after (db_at (ls_applied_seq st) H) (take i cs)"
    and "ls_txb st' = txb" and "ls_registry st' = registry_new"
proof -
  let ?N = "ls_next_seq st" and ?st0 = "st\<lparr>ls_mem := mem_table_new\<rparr>"
  have seqs: "seqs_next None (map snd (concat (log_commits ?N cs)))"
    using log_commits_numbers [OF commits] upfrom_seqs_next [OF room, of None] by simp
  obtain es where es: "ops_of es = concat (log_commits ?N cs)" and state: "log_state wp key w es"
    by (rule log_of_run [OF log seqs log_commits_ok [OF commits] key hmac])
  have ok: "entries_ok es" using state by (simp add: log_state_def)
  obtain j ver where mmap: "replay_mmap wp (take k (wl_file w)) = Inr (with_ends wp 4 (take j es), ver)" and j: "j \<le> length es"
    and most: "\<And>i. i \<le> length es \<Longrightarrow> length (journal wp (take i es)) \<le> k \<Longrightarrow> i \<le> j" and ver: "ver = V3 \<or> j = 0"
    using cut_journal [OF ok log_replayed(1) [OF state plain] es cut] by metis
  obtain i where i: "i \<le> length cs"
    and least: "\<forall>q \<le> length cs. length (concat (log_commits ?N (take q cs))) \<le> j \<longrightarrow> q \<le> i"
    and mem: "\<forall>rs. rp_pending rs = [] \<longrightarrow> rp_mem rs = ls_mem ?st0 \<longrightarrow>
      rp_mem (foldl replay_entry rs (take j es)) = ls_mem (foldl commit_to ?st0 (take i cs))"
    and first: "concat (log_commits ?N (take i cs)) = ops_of (take (length (concat (log_commits ?N (take i cs)))) es)"
      "length (concat (log_commits ?N (take i cs))) \<le> j"
    using cut_commits [of es ?st0 cs j] es by auto
  obtain css where H0: "holds_history p ?st0 (concat css) 0"
    and files: "list_all2 (sst_input (lp_blake3 p) (lp_crc32 p)) (ls_ssts st) css"
    and db0: "db_at (ls_applied_seq st) (concat css) = db_at (ls_applied_seq st) H"
    by (rule history_flushed [OF hist flushed])
  define rs where "rs = replay_journal_entries replay_start (take j es)"
  have rmem: "rp_mem rs = ls_mem (foldl commit_to ?st0 (take i cs))"
    using mem unfolding rs_def replay_journal_entries_def by (simp add: replay_start_def)
  obtain max_seq max_tx where nums: "foldl raise_file (rp_max_seq rs, rp_max_tx rs) rds = (max_seq, max_tx)"
    by (cases "foldl raise_file (rp_max_seq rs, rp_max_tx rs) rds")
  define st' where "st' = \<lparr>ls_mem = rp_mem rs, ls_imm = [], ls_ssts = sort_files rds, ls_txb = txb, ls_ssi = ssi,
    ls_registry = registry_new, ls_next_seq = (if max_seq = U64_MAX then U64_MAX else max_seq + 1),
    ls_committed_tx = max_tx, ls_applied_seq = max_seq, ls_locks = []\<rparr>"
  have "\<exists>H'. holds_history p st' H' 0 \<and> db_at (ls_applied_seq st') H' = db_after (db_at (ls_applied_seq ?st0) (concat css)) (take i cs)"
    by (rule reopened_history [OF H0, where cs = css and rds = rds and cms = cs and es = es and j = j and rs = rs and
          max_seq = max_seq and max_tx = max_tx])
      (use files flushed dir(3,4) commits room es i first rmem nums in \<open>simp_all add: st'_def rs_def\<close>)
  then obtain H' where H': "holds_history p st' H' 0"
    "db_at (ls_applied_seq st') H' = db_after (db_at (ls_applied_seq st) H) (take i cs)" by (auto simp: db0)
  obtain wal where wal: "open_active (dr_logs dir) nonce Copied Rewritten Truncated = (wal, Inr ())"
    using open_cut [OF mmap _ key, of False nonce] ver unfolding open_active_def dir(1)
    by (cases "open_with_config wp False V3 (take k (wl_file w)) nonce Copied Rewritten Truncated") auto
  have rep: "replay wp (take k (wl_file w)) = Inr (with_ends wp 4 (take j es))" by (simp add: replay_def mmap)
  have "high_water_ok (dr_hwm dir) (dr_listed dir) rs"
    using dir(5) start_numbers(3) [OF rs_def] by (auto simp: high_water_ok_def verify_wal_chain_completeness_def Let_def split: option.split)
  moreover have "replay_journals replay_start (dr_logs dir) = Inr rs" by (simp add: dir(1) rep rs_def)
  ultimately have "recover_engine p txb ssi nonce Copied Rewritten Truncated dir = Inr (st', wal, rp_size rs)"
    by (simp add: recover_engine_def map_err_def wal dir(2) nums st'_def)
  moreover have "q \<le> i" if q: "q \<le> length cs"
    and wq: "log_batches wp (handle_on [] n allow) (log_commits ?N (take q cs)) = (wq, Inr ())" "length (wl_file wq) \<le> k" for q wq
  proof -
    have split: "concat (log_commits ?N cs) = concat (log_commits ?N (take q cs)) @ concat (drop q (log_commits ?N cs))"
      by (metis append_take_drop_id concat_append log_commits_simps(3))
    have okq: "commits_ok (take q cs)" using commits set_take_subset [of q cs] by blast
    have seqsq: "seqs_next None (map snd (concat (log_commits ?N (take q cs))))" using seqs unfolding split by simp
    obtain eq where eq: "ops_of eq = concat (log_commits ?N (take q cs))" and stateq: "log_state wp key wq eq"
      by (rule log_of_run [OF wq(1) seqsq log_commits_ok [OF okq] key hmac])
    have len: "length eq = length (concat (log_commits ?N (take q cs)))" using arg_cong [OF eq, of length] by simp
    have "ops_of (take (length eq) es) = ops_of eq" unfolding take_map [symmetric] es eq split len by simp
    then have same: "length (frames wp (take (length eq) es)) = length (frames wp eq)"
      using ok stateq by (intro frames_length_ops) (auto simp: log_state_def dest: in_set_takeD)
    have "length eq \<le> j"
    proof (cases "eq = []")
      case False
      then have "wl_file wq = journal wp eq" using log_replayed(1) [OF stateq plain] by blast
      with wq(2) same have "length (journal wp (take (length eq) es)) \<le> k" by (simp add: journal_def)
      moreover have "length eq \<le> length es" using arg_cong [OF es, of length] unfolding split by (simp add: len)
      ultimately show ?thesis by (intro most)
    qed simp
    with least q show ?thesis by (simp add: len)
  qed
  moreover have "ls_txb st' = txb" "ls_registry st' = registry_new" by (simp_all add: st'_def)
  ultimately show thesis using that i H' by blast
qed

text \<open>The flush at the start keeps the database.\<close>

lemma open_invariant:
  assumes eng: "recover_engine p (tx_buffer_new n c) ssi nonce backup rewrite trunc dir = Inr (st, wal, sz)"
    and hist: "holds_history p st H 0" and db: "db_at (ls_applied_seq st) H = d" and km: "km_ok (lp_km p)"
    and fields: "ls_txb st = tx_buffer_new n c" "ls_registry st = registry_new" and none: "dr_rollbacks dir = []"
    and opn: "lsm_open p (tx_buffer_new n c) ssi nonce backup rewrite trunc manifest_new wal_ok manifest_ok dir = Inr st'"
  shows "\<exists>H F. lsm_inv p st' H F (spec_new\<lparr>sp_db := d\<rparr>) \<and> ls_txb st' = tx_buffer_new n c"
proof -
  have inv: "lsm_inv p st H 0 (spec_new\<lparr>sp_db := d\<rparr>)"
    using hist db fields tb_ok_new [of kv_size n c] tx_ops_new [of n c] reg_ok_new
    by (simp add: lsm_inv_def staging_ok_def pins_ok_def spec_new_def)
  consider "st' = st" | "lsm_flush p wal_ok manifest_ok st = (st', Inr ())"
    using opn by (auto simp: lsm_open_def eng none map_err_def split: if_splits sum.splits prod.splits)
  then show ?thesis
  proof cases
    case 2
    from inv_files [OF inv history_flush [OF hist km 2] flush_same_files [OF 2]] flush_same_files [OF 2] fields
    show ?thesis by (auto simp: same_files_def)
  qed (use inv fields in auto)
qed

end
