(* ===== verification/RecoveryProps.thy ===== *)
theory RecoveryProps
  imports RecoveryCrash LsmRollbackProps
begin

text \<open>
  What the opening of a database promises: after a crash it is the database of a prefix of the commits, and what
  runs on it refines it; and where it does not hold.
\<close>

section \<open>After a crash\<close>



section \<open>An example\<close>

definition crash_commits :: "commit list" where
  "crash_commits = [(1, [OpInsert 0 ([107], [1])])]"

definition crash_dir :: "bytes \<Rightarrow> directory" where
  "crash_dir bs = \<lparr>dr_logs = [(plain_params, bs)], dr_files = [], dr_listed = False, dr_hwm = Some zero_hmac, dr_rollbacks = []\<rparr>"

abbreviation example_buffer :: "kv tx_buffer" where
  "example_buffer \<equiv> tx_buffer_new 1 default_config"

lemma crash_log: "log_commits (ls_next_seq example_start) crash_commits = [put_batch]"
  by (simp add: crash_commits_def put_batch_def example_start_def lsm_new_def)

lemma crash_ok:
  "\<forall>op \<in> set []. op_admitted op" "1 + length [] * (cf_max_ops_per_tx default_config + 1) < (2 :: nat) ^ 63"
  "lsm_run example_params [] example_start = (example_start, [])" "lsm_spec_run example_params [] [] spec_new = (spec_new, True)"
  "mt_is_empty (ls_mem example_start)" "ls_imm example_start = []"
  "\<forall>(tx, ops) \<in> set crash_commits. \<forall>op \<in> set ops. loggable op"
  "unat (ls_next_seq example_start) + sum_list (map (\<lambda>(tx, ops). length ops + 1) crash_commits) < 2 ^ 63"
  using empty_table(1)
  by (simp_all add: crash_commits_def loggable_def MAX_REPLAY_KEY_def READABLE_VALUE_def example_start_def lsm_new_def)

lemma crash_dir_ok:
  "dr_logs (crash_dir (take k bs)) = [(plain_params, take k bs)]" "open_files example_params (dr_files (crash_dir bs)) = Inr []"
  "sort_files [] = ls_ssts example_start" "\<forall>rd \<in> set []. sm_max_tx (rd_meta rd) < INTERNAL_BASE"
  "dr_hwm (crash_dir bs) \<in> {None, Some zero_hmac} \<or> dr_listed (crash_dir bs)" "dr_rollbacks (crash_dir bs) = []"
  by (simp_all add: crash_dir_def sort_files_def example_start_def lsm_new_def)

text \<open>The journal has 193 bytes.\<close>

lemma crash_journal:
  obtains w es where "log_batches plain_params (handle_on [] 0 False) [put_batch] = (w, Inr ())"
    and "ops_of es = put_batch" and "length (wl_file w) = 193" and "replay plain_params (wl_file w) = Inr (with_ends plain_params 4 es)"
    and "\<exists>ys ver. replay_mmap plain_params (wl_file w) = Inr (ys, ver) \<and> (ver = V3 \<or> ys = [])"
proof -
  obtain w es where run: "log_batches plain_params (handle_on [] 0 False) [put_batch] = (w, Inr ())" and es: "ops_of es = put_batch"
    and log: "log_state plain_params [1] w es" by (rule example_run)
  obtain e1 e2 where e: "es = [e1, e2]" "we_op e1 = Put 1 [107] [1]" "we_op e2 = TxEnd 1 True"
    using es by (auto simp: put_batch_def map_eq_Cons_conv)
  have disk: "wl_file w = journal plain_params es" using log_replayed(1) [OF log plain_simps(2)] e(1) by blast
  have ok: "entries_ok es" using log by (simp add: log_state_def)
  with disk have len: "length (wl_file w) = 193" by (simp add: journal_def e frame_data_length op_size_def)
  have es': "ops_of es = concat [put_batch]" by (simp only: es example_concat)
  have "first_end [put_batch] \<le> 193" by (simp add: first_end_def put_batch_def op_size_def)
  then obtain j ver where "replay_mmap plain_params (take 193 (wl_file w)) = Inr (with_ends plain_params 4 (take j es), ver)"
    "ver = V3 \<or> j = 0"
    using cut_journal [OF ok disjI1 [OF disk] es' disjI2] by metis
  then have "\<exists>ys ver. replay_mmap plain_params (wl_file w) = Inr (ys, ver) \<and> (ver = V3 \<or> ys = [])" using len by auto
  with run es len log_replayed(2) [OF log plain_simps(2)] show thesis by (intro that)
qed


abbreviation example_memtable :: mem_table where
  "example_memtable \<equiv> mt_put mem_table_new [107] [1] 1 1"

lemma example_memtable_iter: "mt_iter example_memtable = [([107], [1], 1, 1)]"
  by (simp add: mem_table_defs mt_iter_def concat_one Let_def)

lemma crash_replayed:
  assumes "ops_of es = put_batch"
  shows "rp_mem (replay_journal_entries replay_start es) = example_memtable"
    and "rp_size (replay_journal_entries replay_start es) = 2" and "rp_max_seq (replay_journal_entries replay_start es) = 2"
proof -
  obtain e1 e2 where e: "es = [e1, e2]" "we_op e1 = Put 1 [107] [1]" "we_op e2 = TxEnd 1 True" "we_seq e1 = 1" "we_seq e2 = 2"
    using assms by (auto simp: put_batch_def map_eq_Cons_conv)
  have two: "max (1 :: u64) 2 = 2" by (simp add: max_def word_le_nat_alt)
  show "rp_mem (replay_journal_entries replay_start es) = example_memtable"
    "rp_size (replay_journal_entries replay_start es) = 2"
    by (simp_all add: e replay_journal_entries_def replay_entry_def Let_def replay_start_def lookup_or_def raise_tx_def)
  show "rp_max_seq (replay_journal_entries replay_start es) = 2"
    by (simp add: start_numbers(1) [OF refl] e two)
qed

lemma crash_opened:
  obtains w st1 where "log_batches plain_params (handle_on [] 0 False) [put_batch] = (w, Inr ())"
    and "lsm_open example_params example_buffer (new_with_bounds 100) 0 Copied Rewritten Truncated True True True
      (crash_dir (take 193 (wl_file w))) = Inr st1" and "unat (ls_next_seq st1) = 3"
proof -
  obtain w es where run: "log_batches plain_params (handle_on [] 0 False) [put_batch] = (w, Inr ())" and es: "ops_of es = put_batch"
    and len: "length (wl_file w) = 193" and rep: "replay plain_params (wl_file w) = Inr (with_ends plain_params 4 es)"
    and mmap: "\<exists>ys ver. replay_mmap plain_params (wl_file w) = Inr (ys, ver) \<and> (ver = V3 \<or> ys = [])"
    by (rule crash_journal)
  let ?dir = "crash_dir (take 193 (wl_file w))" and ?p = example_params and ?rs = "replay_journal_entries replay_start es"
  have rs: "replay_journals replay_start (dr_logs ?dir) = Inr ?rs" using len rep by (simp add: crash_dir_def)
  obtain wal where wal: "open_active (dr_logs ?dir) 0 Copied Rewritten Truncated = (wal, Inr ())"
    using open_cut [OF _ _ plain_simps(3), of "wl_file w" _ _ False 0] mmap len
    by (cases "open_with_config plain_params False V3 (wl_file w) 0 Copied Rewritten Truncated") (auto simp: open_active_def crash_dir_def)
  define st' where "st' = \<lparr>ls_mem = example_memtable, ls_imm = [], ls_ssts = [], ls_txb = example_buffer, ls_ssi = new_with_bounds 100,
    ls_registry = registry_new, ls_next_seq = 3, ls_committed_tx = rp_max_tx ?rs, ls_applied_seq = 2, ls_locks = []\<rparr>"
  have hwm: "high_water_ok (dr_hwm ?dir) (dr_listed ?dir) ?rs"
    using start_numbers(3) [OF refl, of es] by (simp add: high_water_ok_def crash_dir_def verify_wal_chain_completeness_def Let_def)
  have eng: "recover_engine ?p example_buffer (new_with_bounds 100) 0 Copied Rewritten Truncated ?dir = Inr (st', wal, 2)"
    using hwm by (simp add: recover_engine_def map_err_def rs wal crash_dir_ok(2) crash_replayed [OF es] sort_files_def st'_def U64_MAX_def)
  have holds: "mem_holds (ls_mem st') [([107], [1], 1, 1)]" using mem_holds_put [OF mem_holds_new] by (simp add: st'_def)
  have fl: "flush_entries U64_MAX [ls_mem st'] = [([107], [1], 1, 1)]"
    by (simp add: flush_entries_def group_versions_def example_memtable_iter st'_def lookup_or_def newest_first_def retain_key_versions_def
        max_facts)
  obtain st1 where "lsm_exec ?p (Do_flush True True) st' = (st1, Accepted)" and nxt: "ls_next_seq st1 = ls_next_seq st'"
    by (rule small_flush [OF holds _ _ _ fl]) (simp_all add: st'_def small_file)
  then have "lsm_flush ?p True True st' = (st1, Inr ())"
    by (cases "lsm_flush ?p True True st'") (auto simp: answer_def split: sum.splits)
  then have "lsm_open ?p example_buffer (new_with_bounds 100) 0 Copied Rewritten Truncated True True True ?dir = Inr st1"
    unfolding lsm_open_def eng by (simp add: map_err_def crash_dir_def)
  moreover have "unat (ls_next_seq st1) = 3" by (simp add: nxt st'_def)
  ultimately show thesis using run that by blast
qed


section \<open>Files with internal transactions\<close>

lemma raise_internal:
  "\<forall>rd \<in> set rds. INTERNAL_BASE \<le> sm_max_tx (rd_meta rd) \<Longrightarrow> snd (foldl raise_file m rds) = snd m"
  by (induction rds arbitrary: m) (auto simp: raise_file_def Let_def case_prod_beta)

lemma skipped_files:
  "\<forall>rd \<in> set rds. sst_skipped (rd_meta rd) s t \<Longrightarrow> get_from_ssts p rds key s t = Inr None"
  by (induction rds) auto

text \<open>C31: Files that hold user and internal transactions are hidden after a start. The greatest transaction of such a file is internal, and the start leaves it out; when no journal and no other file has a user transaction, the engine takes none for committed and every read returns nothing.\<close>

theorem internal_tx_hides_files:
  assumes "dr_logs dir = []" and "dr_hwm dir \<in> {None, Some zero_hmac} \<or> dr_listed dir"
    and files: "open_files p (dr_files dir) = Inr rds"
    and mixed: "\<forall>rd \<in> set rds. 0 < sm_min_tx (rd_meta rd) \<and> sm_min_tx (rd_meta rd) < INTERNAL_BASE \<and> INTERNAL_BASE \<le> sm_max_tx (rd_meta rd)"
  shows "\<exists>st wal. recover_engine p txb ssi nonce backup rewrite trunc dir = Inr (st, wal, 0) \<and>
    (\<forall>key. lsm_get p st key = (if validate_key key then Inr None else Inl Invalid))"
proof -
  have tx: "snd (foldl raise_file (0, 0) rds) = 0" using raise_internal [of rds "(0, 0)"] mixed by simp
  obtain max_seq where nums: "foldl raise_file (0, 0) rds = (max_seq, 0)"
    using tx by (cases "foldl raise_file (0, 0) rds") simp
  have hwm: "high_water_ok (dr_hwm dir) (dr_listed dir) replay_start"
    using assms(2) by (auto simp: high_water_ok_def verify_wal_chain_completeness_def Let_def replay_start_def split: option.split)
  obtain st wal where eng: "recover_engine p txb ssi nonce backup rewrite trunc dir = Inr (st, wal, 0)"
    and st: "ls_mem st = mem_table_new" "ls_imm st = []" "ls_ssts st = sort_files rds" "ls_committed_tx st = 0"
    using nums hwm by (simp add: recover_engine_def map_err_def assms(1) files open_active_def replay_start_def)
  have "lsm_get_at_seq p st key (ls_applied_seq st) = Inr None" if "validate_key key" for key
  proof -
    have "get_from_ssts p (rev (ls_ssts st)) key s 0 = Inr None" for s
      using mixed by (intro skipped_files) (auto simp: st sort_files_def sst_skipped_def)
    then show ?thesis using that by (simp add: lsm_get_at_seq_def st empty_table)
  qed
  with eng show ?thesis by (intro exI [of _ st] exI [of _ wal]) (simp add: lsm_get_def lsm_get_at_seq_def)
qed

definition mixed_entries :: "entry list" where
  "mixed_entries = [([107], [1], 1, 1), ([108], [2], 3, INTERNAL_BASE)]"

theorem internal_tx_hides_files_witness:
  "\<exists>bs rd st wal. write_file example_params mixed_entries = Inr rd \<and> sst_open (lp_crc32 example_params) None bs = Inr rd \<and>
     recover_engine example_params example_buffer (new_with_bounds 100) 0 Copied Rewritten Truncated
       ((crash_dir [])\<lparr>dr_logs := [], dr_files := [bs]\<rparr>) = Inr (st, wal, 0) \<and>
     lsm_get example_params st [107] = Inr None"
proof -
  have big: "(1 :: u64) < INTERNAL_BASE" "(0 :: u64) < INTERNAL_BASE" "max 1 INTERNAL_BASE = INTERNAL_BASE" "min 1 INTERNAL_BASE = 1"
    by (simp_all add: INTERNAL_BASE_def U64_MAX_def word_less_nat_alt max_def min_def word_le_nat_alt)
  have sorted: "entries_sorted mixed_entries" by (simp add: mixed_entries_def entry_before_def)
  have small: "\<forall>e \<in> set mixed_entries. entry_valid e \<and> length (fst (snd e)) \<le> READABLE_VALUE"
    by (simp add: mixed_entries_def small_file)
  have cost: "cost mixed_entries + 4 < 2 ^ 64" by (simp add: mixed_entries_def small_file)
  obtain rd where rd: "write_file example_params mixed_entries = Inr rd"
    "sst_input (lp_blake3 example_params) (lp_crc32 example_params) rd mixed_entries"
    by (rule example_write [OF sorted small cost])
  obtain bs where bs: "sst_open (lp_crc32 example_params) None bs = Inr rd"
    using rd(1) by (auto simp: write_file_def example_params_def split: sum.splits prod.splits)
  have "mixed_entries \<noteq> []" by (simp add: mixed_entries_def)
  note meta = sst_input_meta(3,4) [OF rd(2) this]
  have mixed: "\<forall>rd \<in> set [rd]. 0 < sm_min_tx (rd_meta rd) \<and> sm_min_tx (rd_meta rd) < INTERNAL_BASE \<and> INTERNAL_BASE \<le> sm_max_tx (rd_meta rd)"
    by (simp add: meta mixed_entries_def big small_bounds)
  let ?dir = "(crash_dir [])\<lparr>dr_logs := [], dr_files := [bs]\<rparr>"
  have "open_files example_params (dr_files ?dir) = Inr [rd]" using bs by (simp add: example_params_def)
  from internal_tx_hides_files [OF _ _ this mixed, of example_buffer "new_with_bounds 100" 0 Copied Rewritten Truncated]
  obtain st wal where "recover_engine example_params example_buffer (new_with_bounds 100) 0 Copied Rewritten Truncated ?dir = Inr (st, wal, 0)"
    "\<forall>key. lsm_get example_params st key = (if validate_key key then Inr None else Inl Invalid)"
    by (auto simp: crash_dir_def)
  then show ?thesis using rd(1) bs by (auto simp: validate_key_def MAX_KEY_SIZE_def)
qed

end
