(* ===== verification/Manifest.thy ===== *)
theory Manifest
  imports WalFile
begin

text \<open>
  The manifest, \<open>contextra-store/src/manifest\<close>: the log of the files that make up the database. Its entries as bytes
  (\<open>entry.rs\<close>), the file with its appends and the reading of the log (\<open>core.rs\<close>, \<open>recovery.rs\<close>), and its
  replacement by a short one (\<open>rollover.rs\<close>).

  A path is the UTF-8 string of its bytes; paths that are not UTF-8 are left out. What the disk answers is an argument.
  A failed replacement may leave the handle on a file that has no name any more, so the handle keeps both files.
\<close>

section \<open>Paths\<close>

definition cont_byte :: "u8 \<Rightarrow> bool" where
  "cont_byte b \<longleftrightarrow> 128 \<le> b \<and> b \<le> 191"

text \<open>\<open>std::str::from_utf8\<close>\<close>

fun valid_utf8 :: "bytes \<Rightarrow> bool" where
  "valid_utf8 [] \<longleftrightarrow> True"
| "valid_utf8 (a # bs) \<longleftrightarrow>
     (if a \<le> 127 then valid_utf8 bs
      else (case bs of
              [] \<Rightarrow> False
            | b # bs2 \<Rightarrow>
                (if 194 \<le> a \<and> a \<le> 223 then cont_byte b \<and> valid_utf8 bs2
                 else (case bs2 of
                         [] \<Rightarrow> False
                       | c # bs3 \<Rightarrow>
                           (if 224 \<le> a \<and> a \<le> 239
                            then cont_byte b \<and> cont_byte c \<and> (a = 224 \<longrightarrow> 160 \<le> b) \<and> (a = 237 \<longrightarrow> b \<le> 159) \<and> valid_utf8 bs3
                            else (case bs3 of
                                    [] \<Rightarrow> False
                                  | d # bs4 \<Rightarrow>
                                      240 \<le> a \<and> a \<le> 244 \<and> cont_byte b \<and> cont_byte c \<and> cont_byte d \<and>
                                      (a = 240 \<longrightarrow> 144 \<le> b) \<and> (a = 244 \<longrightarrow> b \<le> 143) \<and> valid_utf8 bs4))))))"

abbreviation SLASH :: u8 where
  "SLASH \<equiv> 47"

fun split_at :: "u8 \<Rightarrow> bytes \<Rightarrow> bytes list" where
  "split_at s [] = [[]]"
| "split_at s (b # bs) =
     (if b = s then [] # split_at s bs else case split_at s bs of c # cs \<Rightarrow> (b # c) # cs | [] \<Rightarrow> [[b]])"

text \<open>\<open>Path::file_name\<close>\<close>

definition file_name :: "bytes \<Rightarrow> bytes option" where
  "file_name path =
     (let cs = filter (\<lambda>c. c \<noteq> [] \<and> c \<noteq> [46]) (split_at SLASH path)
      in if cs = [] \<or> last cs = [46, 46] then None else Some (last cs))"

definition path_key :: "bytes \<Rightarrow> bytes" where
  "path_key path = (case file_name path of Some n \<Rightarrow> n | None \<Rightarrow> path)"

section \<open>Entries\<close>

definition MAX_MANIFEST_ENTRY_SIZE :: nat where
  "MAX_MANIFEST_ENTRY_SIZE = 1048576"

datatype manifest_error = Mf_serialization | Mf_storage

datatype manifest_entry =
    Add bytes u64
  | Remove bytes
  | RollbackComplete u64
  | Replace "bytes list" bytes u64 u64
  | WalCheckpoint bytes

definition put_path :: "bytes \<Rightarrow> bytes" where
  "put_path path = put_u32 (length path) @ path"

definition manifest_payload :: "manifest_entry \<Rightarrow> bytes" where
  "manifest_payload e =
     (case e of
        Add path max_tx \<Rightarrow> [0] @ put_u64 max_tx @ put_path path
      | Remove path \<Rightarrow> [1] @ put_path path
      | RollbackComplete target_tx \<Rightarrow> [2] @ put_u64 target_tx
      | Replace removed added added_max_tx rank \<Rightarrow>
          [3] @ put_u64 added_max_tx @ put_u64 0 @ put_path added @ put_u32 (length removed) @ concat (map put_path removed)
      | WalCheckpoint hmac \<Rightarrow> [4] @ hmac)"

text \<open>The size is cut to 32 bits before it is compared.\<close>

definition entry_to_bytes :: "(bytes \<Rightarrow> u32) \<Rightarrow> manifest_entry \<Rightarrow> manifest_error + bytes" where
  "entry_to_bytes crc32 e =
     (let payload = manifest_payload e; total_payload_size = (4 + length payload) mod 2 ^ 32
      in if total_payload_size > MAX_MANIFEST_ENTRY_SIZE then Inl Mf_serialization
         else Inr (put_u32 total_payload_size @ put_u32 (unat (crc32 payload)) @ payload))"

definition utf8_path :: "bytes \<Rightarrow> manifest_error + bytes" where
  "utf8_path bs = (if valid_utf8 bs then Inr bs else Inl Mf_serialization)"

definition parse_add :: "bytes \<Rightarrow> manifest_error + manifest_entry" where
  "parse_add remaining =
     (if length remaining < 12 then Inl Mf_serialization
      else let path_len = get_le (take 4 (drop 8 remaining))
           in if length remaining \<noteq> 12 + path_len then Inl Mf_serialization
              else bind_res (utf8_path (drop 12 remaining)) (\<lambda>path. Inr (Add path (word_of_nat (get_le (take 8 remaining))))))"

definition parse_remove :: "bytes \<Rightarrow> manifest_error + manifest_entry" where
  "parse_remove remaining =
     (if length remaining < 4 then Inl Mf_serialization
      else let path_len = get_le (take 4 remaining)
           in if length remaining \<noteq> 4 + path_len then Inl Mf_serialization
              else bind_res (utf8_path (drop 4 remaining)) (\<lambda>path. Inr (Remove path)))"

definition parse_rollback :: "bytes \<Rightarrow> manifest_error + manifest_entry" where
  "parse_rollback remaining =
     (if length remaining \<noteq> 8 then Inl Mf_serialization else Inr (RollbackComplete (word_of_nat (get_le remaining))))"

text \<open>\<open>removed_count\<close> paths from the offset on; the rest is what follows them.\<close>

fun parse_paths :: "nat \<Rightarrow> bytes \<Rightarrow> manifest_error + bytes list \<times> bytes" where
  "parse_paths 0 rest = Inr ([], rest)"
| "parse_paths (Suc removed_count) rest =
     (if length rest < 4 then Inl Mf_serialization
      else let r_len = get_le (take 4 rest)
           in if length rest < 4 + r_len then Inl Mf_serialization
              else bind_res (utf8_path (take r_len (drop 4 rest))) (\<lambda>path.
                   bind_res (parse_paths removed_count (drop (4 + r_len) rest)) (\<lambda>(paths, rest'). Inr (path # paths, rest'))))"

definition parse_replace :: "bytes \<Rightarrow> manifest_error + manifest_entry" where
  "parse_replace remaining =
     (if length remaining < 24 then Inl Mf_serialization
      else let added_max_tx = get_le (take 8 remaining); rank = get_le (take 8 (drop 8 remaining));
               added_path_len = get_le (take 4 (drop 16 remaining))
           in if length remaining < 20 + added_path_len then Inl Mf_serialization
              else bind_res (utf8_path (take added_path_len (drop 20 remaining))) (\<lambda>added.
                   let rest = drop (20 + added_path_len) remaining
                   in if length rest < 4 then Inl Mf_serialization
                      else let removed_count = get_le (take 4 rest); rest' = drop 4 rest
                           in if removed_count > length rest' div 4 then Inl Mf_serialization
                              else bind_res (parse_paths removed_count rest') (\<lambda>(removed, trailing).
                                   if trailing \<noteq> [] then Inl Mf_serialization
                                   else Inr (Replace removed added (word_of_nat added_max_tx) (word_of_nat rank)))))"

definition parse_checkpoint :: "bytes \<Rightarrow> manifest_error + manifest_entry" where
  "parse_checkpoint remaining = (if length remaining \<noteq> 32 then Inl Mf_serialization else Inr (WalCheckpoint remaining))"

definition entry_from_bytes :: "(bytes \<Rightarrow> u32) \<Rightarrow> bytes \<Rightarrow> manifest_error + manifest_entry" where
  "entry_from_bytes crc32 data =
     (if length data < 5 then Inl Mf_serialization
      else let stored_crc = word_of_nat (get_le (take 4 data)); payload = drop 4 data
           in if stored_crc \<noteq> crc32 payload then Inl Mf_serialization
              else let op_tag = hd payload; remaining = tl payload
                   in if op_tag = 0 then parse_add remaining
                      else if op_tag = 1 then parse_remove remaining
                      else if op_tag = 2 then parse_rollback remaining
                      else if op_tag = 3 then parse_replace remaining
                      else if op_tag = 4 then parse_checkpoint remaining
                      else Inl Mf_serialization)"

section \<open>A frame that is cut off\<close>

text \<open>The length that the paths from \<open>rest\<close> on claim, when the lengths of all of them are there.\<close>

fun claimed_paths :: "nat \<Rightarrow> bytes \<Rightarrow> nat \<Rightarrow> nat option" where
  "claimed_paths 0 rest calculated_len = Some calculated_len"
| "claimed_paths (Suc removed_count) rest calculated_len =
     (if length rest \<ge> 4
      then let r_len = get_le (take 4 rest) in claimed_paths removed_count (drop (4 + r_len) rest) (calculated_len + 4 + r_len)
      else None)"

definition replace_candidate :: "nat \<Rightarrow> bytes \<Rightarrow> bool" where
  "replace_candidate claimed_len remaining \<longleftrightarrow>
     (if length remaining \<ge> 20
      then let added_path_len = get_le (take 4 (drop 16 remaining))
           in if length remaining \<ge> 20 + added_path_len + 4
              then let removed_count = get_le (take 4 (drop (20 + added_path_len) remaining))
                   in case claimed_paths removed_count (drop (24 + added_path_len) remaining) (29 + added_path_len) of
                        None \<Rightarrow> True
                      | Some calculated_len \<Rightarrow> claimed_len = calculated_len
              else True
      else True)"

text \<open>There is no case for the tag 4.\<close>

definition is_valid_tail_truncation_candidate :: "nat \<Rightarrow> bytes \<Rightarrow> bool" where
  "is_valid_tail_truncation_candidate claimed_len partial \<longleftrightarrow>
     (if claimed_len < 10 \<or> claimed_len > MAX_MANIFEST_ENTRY_SIZE then False
      else if length partial \<ge> 5
      then let op_tag = partial ! 4; remaining = drop 5 partial
           in if op_tag = 0
              then \<not> claimed_len < 18 \<and> (length remaining \<ge> 12 \<longrightarrow> claimed_len = 4 + 1 + 8 + 4 + get_le (take 4 (drop 8 remaining)))
              else if op_tag = 1 then length remaining \<ge> 4 \<longrightarrow> claimed_len = 4 + 1 + 4 + get_le (take 4 remaining)
              else if op_tag = 2 then claimed_len = 13
              else if op_tag = 3 then \<not> claimed_len < 30 \<and> replace_candidate claimed_len remaining
              else False
      else True)"

section \<open>The file\<close>

definition MANIFEST_HEADER_MAGIC :: bytes where
  "MANIFEST_HEADER_MAGIC = [77, 70, 77, 78]"

definition CURRENT_MANIFEST_VERSION :: u8 where
  "CURRENT_MANIFEST_VERSION = 1"

abbreviation MANIFEST_HEADER :: bytes where
  "MANIFEST_HEADER \<equiv> MANIFEST_HEADER_MAGIC @ [CURRENT_MANIFEST_VERSION]"

text \<open>\<open>mf_orphan\<close>: the file that the handle is on, when it is no longer the one that has the name.\<close>

record manifest =
  mf_file :: bytes
  mf_orphan :: "bytes option"

definition handle_bytes :: "manifest \<Rightarrow> bytes" where
  "handle_bytes m = (case mf_orphan m of None \<Rightarrow> mf_file m | Some bs \<Rightarrow> bs)"

definition handle_write :: "manifest \<Rightarrow> bytes \<Rightarrow> manifest" where
  "handle_write m bs =
     (case mf_orphan m of None \<Rightarrow> m\<lparr>mf_file := mf_file m @ bs\<rparr> | Some old \<Rightarrow> m\<lparr>mf_orphan := Some (old @ bs)\<rparr>)"

text \<open>A new file gets a header; an existing file is taken as it is.\<close>

definition manifest_open :: "bytes option \<Rightarrow> write_outcome \<Rightarrow> manifest \<times> (manifest_error + unit)" where
  "manifest_open existing io =
     (case existing of
        Some bs \<Rightarrow> (\<lparr>mf_file = bs, mf_orphan = None\<rparr>, Inr ())
      | None \<Rightarrow>
          (case io of
             Written \<Rightarrow> (\<lparr>mf_file = MANIFEST_HEADER, mf_orphan = None\<rparr>, Inr ())
           | Write_failed n \<Rightarrow> (\<lparr>mf_file = take n MANIFEST_HEADER, mf_orphan = None\<rparr>, Inl Mf_storage)
           | Sync_failed \<Rightarrow> (\<lparr>mf_file = MANIFEST_HEADER, mf_orphan = None\<rparr>, Inl Mf_storage)))"

fun batch_bytes :: "(bytes \<Rightarrow> u32) \<Rightarrow> manifest_entry list \<Rightarrow> manifest_error + bytes" where
  "batch_bytes crc32 [] = Inr []"
| "batch_bytes crc32 (e # es) =
     bind_res (entry_to_bytes crc32 e) (\<lambda>bs. bind_res (batch_bytes crc32 es) (\<lambda>more. Inr (bs @ more)))"

definition manifest_append :: "(bytes \<Rightarrow> u32) \<Rightarrow> manifest \<Rightarrow> manifest_entry list \<Rightarrow> write_outcome \<Rightarrow> manifest \<times> (manifest_error + unit)" where
  "manifest_append crc32 m es io =
     (if es = [] then (m, Inr ())
      else case batch_bytes crc32 es of
             Inl e \<Rightarrow> (m, Inl e)
           | Inr bs \<Rightarrow>
               (case io of
                  Written \<Rightarrow> (handle_write m bs, Inr ())
                | Write_failed n \<Rightarrow> (handle_write m (take n bs), Inl Mf_storage)
                | Sync_failed \<Rightarrow> (handle_write m bs, Inl Mf_storage)))"

section \<open>Reading the log\<close>

text \<open>\<open>rest\<close> is the file from the position on.\<close>

function load_loop :: "(bytes \<Rightarrow> u32) \<Rightarrow> bytes \<Rightarrow> manifest_error + manifest_entry list" where
  "load_loop crc32 rest =
     (if length rest < 4 then Inr []
      else let len = get_le (take 4 rest)
           in if len < 5 \<or> len > MAX_MANIFEST_ENTRY_SIZE then Inl Mf_storage
              else if 4 + len \<le> length rest
              then case entry_from_bytes crc32 (take len (drop 4 rest)) of
                     Inl _ \<Rightarrow> Inl Mf_storage
                   | Inr e \<Rightarrow> bind_res (load_loop crc32 (drop (4 + len) rest)) (\<lambda>es. Inr (e # es))
              else if is_valid_tail_truncation_candidate len (drop 4 rest) then Inr [] else Inl Mf_storage)"
  by pat_completeness auto
termination
  by (relation "measure (\<lambda>(crc32, rest). length rest)") auto

declare load_loop.simps [simp del]

definition manifest_load :: "(bytes \<Rightarrow> u32) \<Rightarrow> bytes option \<Rightarrow> manifest_error + manifest_entry list" where
  "manifest_load crc32 file_opt =
     (case file_opt of
        None \<Rightarrow> Inr []
      | Some bs \<Rightarrow>
          (if length bs \<ge> 5 \<and> take 4 bs = MANIFEST_HEADER_MAGIC
           then if bs ! 4 > CURRENT_MANIFEST_VERSION then Inl Mf_storage else load_loop crc32 (drop 5 bs)
           else load_loop crc32 bs))"

section \<open>The files of the database\<close>

type_synonym valid_map = "(bytes \<times> u64) list"

definition valid_step :: "valid_map \<times> u64 \<Rightarrow> manifest_entry \<Rightarrow> valid_map \<times> u64" where
  "valid_step acc e =
     (let (valid, next_rank) = acc
      in case e of
           Add path _ \<Rightarrow> (AList.update (path_key path) next_rank valid, next_rank + 1)
         | Remove path \<Rightarrow> (AList.delete (path_key path) valid, next_rank)
         | RollbackComplete _ \<Rightarrow> acc
         | WalCheckpoint _ \<Rightarrow> acc
         | Replace removed added _ _ \<Rightarrow>
             (AList.update (path_key added) next_rank (foldl (\<lambda>v p. AList.delete (path_key p) v) valid removed), next_rank + 1))"

definition reconstruct_valid_sstables :: "manifest_entry list \<Rightarrow> (bytes \<times> u64) list" where
  "reconstruct_valid_sstables entries = sort_key snd (fst (foldl valid_step ([], 0) entries))"

definition reconstruct_dead_sstables :: "manifest_entry list \<Rightarrow> bytes set" where
  "reconstruct_dead_sstables entries =
     (let valid_set = set (map fst (reconstruct_valid_sstables entries))
      in foldl (\<lambda>dead e.
           case e of
             Remove path \<Rightarrow> if path_key path \<in> valid_set then dead else insert (path_key path) dead
           | Replace removed _ _ _ \<Rightarrow>
               foldl (\<lambda>dead p. if path_key p \<in> valid_set then dead else insert (path_key p) dead) dead removed
           | _ \<Rightarrow> dead) {} entries)"

fun checkpoint_of :: "manifest_entry \<Rightarrow> bytes option" where
  "checkpoint_of (WalCheckpoint hmac) = Some hmac"
| "checkpoint_of _ = None"

definition extract_high_water_mark :: "manifest_entry list \<Rightarrow> bytes option" where
  "extract_high_water_mark entries =
     (case List.map_filter checkpoint_of (rev entries) of [] \<Rightarrow> None | hmac # _ \<Rightarrow> Some hmac)"

section \<open>Replacing the log\<close>

text \<open>The new file is not created or not written; it is written and not renamed; or it has the name, and what follows (the sync
  of the directory, opening the file again) fails.\<close>

datatype rollover_outcome = Rolled | Roll_early | Roll_failed | Roll_late

definition DEFAULT_ROLLOVER_THRESHOLD_BYTES :: nat where
  "DEFAULT_ROLLOVER_THRESHOLD_BYTES = 65536"

definition maybe_rollover ::
  "(bytes \<Rightarrow> u32) \<Rightarrow> manifest \<Rightarrow> manifest_entry list \<Rightarrow> nat \<Rightarrow> rollover_outcome \<Rightarrow> manifest \<times> (manifest_error + bool)" where
  "maybe_rollover crc32 m live_entries threshold_bytes io =
     (if length (handle_bytes m) < threshold_bytes then (m, Inr False)
      else if io = Roll_early then (m, Inl Mf_storage)
      else case batch_bytes crc32 live_entries of
             Inl e \<Rightarrow> (m, Inl e)
           | Inr bs \<Rightarrow>
               (case io of
                  Rolled \<Rightarrow> (\<lparr>mf_file = MANIFEST_HEADER @ bs, mf_orphan = None\<rparr>, Inr True)
                | Roll_late \<Rightarrow> (\<lparr>mf_file = MANIFEST_HEADER @ bs, mf_orphan = Some (handle_bytes m)\<rparr>, Inl Mf_storage)
                | _ \<Rightarrow> (m, Inl Mf_storage)))"

definition manifest_rollover :: "(bytes \<Rightarrow> u32) \<Rightarrow> manifest \<Rightarrow> manifest_entry list \<Rightarrow> rollover_outcome \<Rightarrow> manifest \<times> (manifest_error + unit)" where
  "manifest_rollover crc32 m live_entries io =
     map_prod id (\<lambda>r. bind_res r (\<lambda>_. Inr ())) (maybe_rollover crc32 m live_entries 0 io)"

end
