(* ===== verification/ManifestCorrect.thy ===== *)
theory ManifestCorrect
  imports Manifest WalParse
begin

text \<open>
  The log of the manifest: what was appended is read back, and what is read of a log that was cut off.
\<close>

section \<open>Entries\<close>

definition path_ok :: "bytes \<Rightarrow> bool" where
  "path_ok path \<longleftrightarrow> path \<noteq> [] \<and> valid_utf8 path"

definition mf_ok :: "manifest_entry \<Rightarrow> bool" where
  "mf_ok e \<longleftrightarrow> length (manifest_payload e) + 4 < 2 ^ 32 \<and>
     (case e of
        Add path _ \<Rightarrow> path_ok path
      | Remove path \<Rightarrow> path_ok path
      | RollbackComplete _ \<Rightarrow> True
      | Replace removed added _ _ \<Rightarrow> path_ok added \<and> (\<forall>path \<in> set removed. path_ok path)
      | WalCheckpoint hmac \<Rightarrow> length hmac = 32)"

text \<open>The rank of a replacement is not written.\<close>

fun unranked :: "manifest_entry \<Rightarrow> manifest_entry" where
  "unranked (Replace removed added added_max_tx rank) = Replace removed added added_max_tx 0"
| "unranked e = e"

definition mf_data :: "(bytes \<Rightarrow> u32) \<Rightarrow> manifest_entry \<Rightarrow> bytes" where
  "mf_data crc32 e = put_u32 (unat (crc32 (manifest_payload e))) @ manifest_payload e"

definition mf_frame :: "(bytes \<Rightarrow> u32) \<Rightarrow> manifest_entry \<Rightarrow> bytes" where
  "mf_frame crc32 e = put_u32 (length (mf_data crc32 e)) @ mf_data crc32 e"

lemma length_put_u32 [simp]: "length (put_u32 n) = 4"
  by (simp add: put_u32_def)

lemma length_put_u64 [simp]: "length (put_u64 w) = 8"
  by (simp add: put_u64_def)

lemma length_put_path [simp]: "length (put_path path) = 4 + length path"
  by (simp add: put_path_def)

lemma mf_data_length: "length (mf_data crc32 e) = 4 + length (manifest_payload e)"
  by (simp add: mf_data_def)

lemma get_u64_back [simp]: "word_of_nat (get_le (put_u64 w)) = w"
  by (rule le64.get_put) simp

lemma entry_bytes_frame:
  assumes "entry_to_bytes crc32 e = Inr bs" and "mf_ok e"
  shows "bs = mf_frame crc32 e" and "length (mf_data crc32 e) \<le> MAX_MANIFEST_ENTRY_SIZE"
  using assms by (auto simp: entry_to_bytes_def Let_def mf_frame_def mf_data_def mf_ok_def split: if_splits)

lemma parse_paths_back:
  "\<forall>path \<in> set paths. path_ok path \<and> length path < 2 ^ 32 \<Longrightarrow>
   parse_paths (length paths) (concat (map put_path paths) @ rest) = Inr (paths, rest)"
  by (induction paths) (simp_all add: put_path_def u32_back utf8_path_def path_ok_def)

lemma paths_length: "4 * length paths \<le> length (concat (map put_path paths))"
  by (induction paths) simp_all

lemma path_in_paths: "path \<in> set paths \<Longrightarrow> length path \<le> length (concat (map put_path paths))"
  by (induction paths) auto

lemma entry_back:
  assumes "mf_ok e"
  shows "entry_from_bytes crc32 (mf_data crc32 e) = Inr (unranked e)"
proof -
  have crc: "word_of_nat (get_le (put_u32 (unat (c :: u32)))) = c" for c
    using unsigned_less [of c, where 'a = nat] by (simp add: u32_back)
  have small: "length (manifest_payload e) + 4 < 2 ^ 32" using assms by (simp add: mf_ok_def)
  show ?thesis
  proof (cases e)
    case (Add path max_tx)
    then have "length path < 2 ^ 32" "path_ok path" using assms by (simp_all add: mf_ok_def manifest_payload_def)
    then show ?thesis
      by (simp add: entry_from_bytes_def mf_data_def crc Let_def Add manifest_payload_def parse_add_def put_path_def u32_back utf8_path_def path_ok_def)
  next
    case (Remove path)
    then have "length path < 2 ^ 32" "path_ok path" using assms by (simp_all add: mf_ok_def manifest_payload_def)
    then show ?thesis
      by (simp add: entry_from_bytes_def mf_data_def crc Let_def Remove manifest_payload_def parse_remove_def put_path_def u32_back utf8_path_def path_ok_def)
  next
    case (RollbackComplete tx)
    then show ?thesis
      by (simp add: entry_from_bytes_def mf_data_def crc Let_def manifest_payload_def parse_rollback_def)
  next
    case (WalCheckpoint hmac)
    then show ?thesis using assms
      by (simp add: entry_from_bytes_def mf_data_def crc Let_def manifest_payload_def parse_checkpoint_def mf_ok_def)
  next
    case (Replace removed added tx rank)
    have paths: "path_ok added" "\<forall>path \<in> set removed. path_ok path" using assms by (simp_all add: mf_ok_def Replace)
    have len: "length added < 2 ^ 32" "length (concat (map put_path removed)) < 2 ^ 32"
      using small by (simp_all add: Replace manifest_payload_def)
    then have "\<forall>path \<in> set removed. path_ok path \<and> length path < 2 ^ 32" "length removed < 2 ^ 32"
      using paths(2) path_in_paths paths_length [of removed] by (fastforce, simp)
    with paths len parse_paths_back [of removed "[]"] paths_length [of removed] show ?thesis
      by (simp add: entry_from_bytes_def mf_data_def crc Let_def Replace manifest_payload_def parse_replace_def put_path_def [of added] u32_back utf8_path_def path_ok_def)
  qed
qed

section \<open>Frames\<close>

definition mf_fits :: "manifest_entry \<Rightarrow> bool" where
  "mf_fits e \<longleftrightarrow> 4 + length (manifest_payload e) \<le> MAX_MANIFEST_ENTRY_SIZE"

definition mf_frames :: "(bytes \<Rightarrow> u32) \<Rightarrow> manifest_entry list \<Rightarrow> bytes" where
  "mf_frames crc32 es = concat (map (mf_frame crc32) es)"

lemma mf_frames_simps [simp]: "mf_frames crc32 [] = []" "mf_frames crc32 (e # es) = mf_frame crc32 e @ mf_frames crc32 es"
  "mf_frames crc32 (es @ es') = mf_frames crc32 es @ mf_frames crc32 es'"
  by (simp_all add: mf_frames_def)

lemma mf_frame_length: "length (mf_frame crc32 e) = 8 + length (manifest_payload e)"
  by (simp add: mf_frame_def mf_data_length)

lemma batch_bytes_frames:
  "batch_bytes crc32 es = Inr bs \<Longrightarrow> \<forall>e \<in> set es. mf_ok e \<Longrightarrow> bs = mf_frames crc32 es \<and> (\<forall>e \<in> set es. mf_fits e)"
proof (induction es arbitrary: bs)
  case (Cons e es)
  then obtain b more where b: "entry_to_bytes crc32 e = Inr b" and more: "batch_bytes crc32 es = Inr more" and bs: "bs = b @ more"
    by (auto simp: bind_res_Inr)
  have ok: "mf_ok e" using Cons.prems(2) by simp
  from entry_bytes_frame [OF b ok] Cons.IH [OF more] Cons.prems(2) bs show ?case by (simp add: mf_fits_def mf_data_length)
qed simp

lemma mf_frame_parts:
  assumes "mf_ok e" and "mf_fits e"
  shows "get_le (take 4 (mf_frame crc32 e @ rest)) = 4 + length (manifest_payload e)"
    and "5 \<le> 4 + length (manifest_payload e)" and "4 + length (manifest_payload e) \<le> MAX_MANIFEST_ENTRY_SIZE"
proof -
  show max: "4 + length (manifest_payload e) \<le> MAX_MANIFEST_ENTRY_SIZE" using assms(2) by (simp add: mf_fits_def)
  then show "get_le (take 4 (mf_frame crc32 e @ rest)) = 4 + length (manifest_payload e)"
    by (simp add: mf_frame_def mf_data_length u32_back MAX_MANIFEST_ENTRY_SIZE_def)
  show "5 \<le> 4 + length (manifest_payload e)" by (cases e) (simp_all add: manifest_payload_def)
qed

lemma load_frame:
  assumes "mf_ok e" and "mf_fits e"
  shows "load_loop crc32 (mf_frame crc32 e @ rest) = bind_res (load_loop crc32 rest) (\<lambda>es. Inr (unranked e # es))"
proof -
  note parts = mf_frame_parts(1) [OF assms, of crc32 rest] mf_frame_parts(2,3) [OF assms]
  let ?xs = "mf_frame crc32 e @ rest" and ?n = "4 + length (manifest_payload e)"
  have cut: "take ?n (drop 4 ?xs) = mf_data crc32 e" "drop (4 + ?n) ?xs = rest" "4 + ?n \<le> length ?xs" "\<not> length ?xs < 4"
    by (simp_all add: mf_frame_def mf_data_length)
  have "\<not> ?n < 5" "\<not> ?n > MAX_MANIFEST_ENTRY_SIZE" using parts(2,3) by linarith+
  then show ?thesis
    unfolding load_loop.simps [of crc32 ?xs] Let_def parts(1) cut(1,2) entry_back [OF assms(1)] using cut(3,4) by simp
qed

lemma load_frames:
  "\<forall>e \<in> set es. mf_ok e \<and> mf_fits e \<Longrightarrow>
   load_loop crc32 (mf_frames crc32 es @ rest) = bind_res (load_loop crc32 rest) (\<lambda>es'. Inr (map unranked es @ es'))"
proof (induction es)
  case Nil
  then show ?case by (cases "load_loop crc32 rest") simp_all
next
  case (Cons e es)
  then show ?case by (cases "load_loop crc32 rest") (simp_all add: load_frame)
qed

lemma load_nothing [simp]: "length rest < 4 \<Longrightarrow> load_loop crc32 rest = Inr []"
  by (simp add: load_loop.simps)

section \<open>A torn frame\<close>

lemma take_drop_take: "a + k \<le> n \<Longrightarrow> take k (drop a (take n xs)) = take k (drop a xs)"
  by (simp add: drop_take min_def)

lemma claimed_paths_cut:
  "\<forall>path \<in> set paths. length path < 2 ^ 32 \<Longrightarrow>
   claimed_paths (length paths) (take n (concat (map put_path paths))) c \<in> {None, Some (c + length (concat (map put_path paths)))}"
proof (induction paths arbitrary: n c)
  case (Cons path paths)
  show ?case
  proof (cases "n < 4")
    case False
    then have "take 4 (take n (put_path path @ concat (map put_path paths))) = put_u32 (length path)"
      by (simp add: put_path_def min_def)
    moreover have "drop (4 + length path) (take n (put_path path @ concat (map put_path paths))) =
        take (n - (4 + length path)) (concat (map put_path paths))"
    proof -
      have "drop (4 + length path) (put_path path @ concat (map put_path paths)) = concat (map put_path paths)" by simp
      then show ?thesis by (simp only: drop_take)
    qed
    ultimately show ?thesis
      using Cons.IH [of "n - (4 + length path)" "c + 4 + length path"] Cons.prems False
      by (simp add: u32_back Let_def add.assoc)
  qed simp
qed simp

lemma replace_candidate_cut:
  assumes ok: "mf_ok (Replace removed added tx rank)" and p: "p = tl (manifest_payload (Replace removed added tx rank))"
  shows "replace_candidate (5 + length p) (take n p)"
proof -
  have small: "length p + 5 < 2 ^ 32" using ok by (simp add: mf_ok_def p manifest_payload_def)
  then have len: "length added < 2 ^ 32" "length (concat (map put_path removed)) < 2 ^ 32" by (simp_all add: p manifest_payload_def)
  then have paths: "\<forall>path \<in> set removed. length path < 2 ^ 32" "length removed < 2 ^ 32"
    using path_in_paths paths_length [of removed] by (fastforce, simp)
  let ?cs = "concat (map put_path removed)"
  have split: "p = (put_u64 tx @ put_u64 0) @ put_u32 (length added) @ added @ put_u32 (length removed) @ ?cs"
    by (simp add: p manifest_payload_def put_path_def)
  have total: "5 + length p = 29 + length added + length ?cs" by (simp add: split)
  show ?thesis
  proof (cases "20 \<le> length (take n p)")
    case True
    have added: "get_le (take 4 (drop 16 (take n p))) = length added"
    proof -
      have "take 4 (drop 16 (take n p)) = take 4 (drop 16 p)" using True by (intro take_drop_take) simp
      also have "\<dots> = put_u32 (length added)" by (simp add: split)
      finally have "take 4 (drop 16 (take n p)) = put_u32 (length added)" .
      then show ?thesis using len(1) by (simp add: u32_back)
    qed
    show ?thesis
    proof (cases "20 + length added + 4 \<le> length (take n p)")
      case more: True
      have "take 4 (drop (20 + length added) (take n p)) = take 4 (drop (20 + length added) p)"
        using more by (intro take_drop_take) simp
      also have "\<dots> = put_u32 (length removed)" by (simp add: split)
      finally have count: "get_le (take 4 (drop (20 + length added) (take n p))) = length removed" using paths(2) by (simp add: u32_back)
      have rest: "drop (24 + length added) (take n p) = take (n - (24 + length added)) ?cs"
      proof -
        have "drop (24 + length added) p = ?cs" by (simp add: split)
        then show ?thesis by (simp only: drop_take)
      qed
      have "claimed_paths (length removed) (take (n - (24 + length added)) ?cs) (29 + length added) \<in> {None, Some (5 + length p)}"
        using claimed_paths_cut [OF paths(1), of "n - (24 + length added)" "29 + length added"] by (simp add: total)
      then show ?thesis using True more by (auto simp: replace_candidate_def added count rest Let_def)
    qed (use True in \<open>auto simp: replace_candidate_def added Let_def\<close>)
  qed (auto simp: replace_candidate_def)
qed

lemma candidate_cut:
  assumes ok: "mf_ok e" and fits: "mf_fits e" and n: "n < length (mf_data crc32 e)"
  shows "is_valid_tail_truncation_candidate (length (mf_data crc32 e)) (take n (mf_data crc32 e)) \<longleftrightarrow>
    n < 5 \<or> (\<forall>hmac. e \<noteq> WalCheckpoint hmac)"
proof -
  let ?d = "mf_data crc32 e" and ?p = "tl (manifest_payload e)"
  have len: "length ?d = 5 + length ?p" by (cases e) (simp_all add: mf_data_length manifest_payload_def)
  have max: "length ?d \<le> MAX_MANIFEST_ENTRY_SIZE" using fits by (simp add: mf_fits_def mf_data_length)
  have ten: "10 \<le> length ?d"
    using ok by (cases e) (auto simp: mf_data_length manifest_payload_def mf_ok_def path_ok_def Suc_le_eq)
  show ?thesis
  proof (cases "n < 5")
    case False
    have d: "drop 5 ?d = ?p" "?d ! 4 = hd (manifest_payload e)"
      by (cases e; simp add: mf_data_def manifest_payload_def nth_append)+
    have tag: "take n ?d ! 4 = hd (manifest_payload e)" using False d(2) by simp
    have rem: "drop 5 (take n ?d) = take (n - 5) ?p" using d(1) by (simp only: drop_take)
    let ?c = "is_valid_tail_truncation_candidate (length ?d) (take n ?d)"
    have five: "5 \<le> length (take n ?d)" using False n by simp
    have cand: "?c \<longleftrightarrow>
        (if hd (manifest_payload e) = 0
         then \<not> length ?d < 18 \<and> (length (take (n - 5) ?p) \<ge> 12 \<longrightarrow> length ?d = 17 + get_le (take 4 (drop 8 (take (n - 5) ?p))))
         else if hd (manifest_payload e) = 1 then length (take (n - 5) ?p) \<ge> 4 \<longrightarrow> length ?d = 9 + get_le (take 4 (take (n - 5) ?p))
         else if hd (manifest_payload e) = 2 then length ?d = 13
         else if hd (manifest_payload e) = 3 then \<not> length ?d < 30 \<and> replace_candidate (length ?d) (take (n - 5) ?p)
         else False)"
      using max ten five unfolding is_valid_tail_truncation_candidate_def Let_def tag rem by simp
    have tail: "take 4 (drop a (take (n - 5) ?p)) = take 4 (drop a ?p)" if "a + 4 \<le> length (take (n - 5) ?p)" for a
      using that by (intro take_drop_take) simp
    have small: "length ?d < 2 ^ 32" using max by (simp add: MAX_MANIFEST_ENTRY_SIZE_def)
    show ?thesis
    proof (cases e)
      case (Add path tx)
      then have "length ?d = 17 + length path" "path \<noteq> []" "length path < 2 ^ 32"
        using ok small by (auto simp: mf_data_length manifest_payload_def mf_ok_def path_ok_def)
      moreover have "get_le (take 4 (drop 8 ?p)) = length path"
        using calculation by (simp add: Add manifest_payload_def put_path_def u32_back)
      ultimately show ?thesis using cand tail [of 8] by (cases path) (simp_all add: Add manifest_payload_def)
    next
      case (Remove path)
      then have "length ?d = 9 + length path" "length path < 2 ^ 32"
        using small by (auto simp: mf_data_length manifest_payload_def)
      moreover have "get_le (take 4 ?p) = length path"
        using calculation by (simp add: Remove manifest_payload_def put_path_def u32_back)
      ultimately show ?thesis using cand tail [of 0] by (simp add: Remove manifest_payload_def)
    next
      case (RollbackComplete tx)
      then show ?thesis using cand by (simp add: mf_data_length manifest_payload_def)
    next
      case (WalCheckpoint hmac)
      then show ?thesis using cand False by (simp add: manifest_payload_def)
    next
      case (Replace removed added tx rank)
      have "replace_candidate (length ?d) (take (n - 5) ?p)"
        using replace_candidate_cut [of removed added tx rank ?p "n - 5"] ok unfolding len by (simp add: Replace)
      moreover have "30 \<le> length ?d" using ok by (auto simp: Replace mf_data_length manifest_payload_def mf_ok_def path_ok_def Suc_le_eq)
      moreover have "hd (manifest_payload e) = 3" by (simp add: Replace manifest_payload_def)
      ultimately have ?c unfolding cand by simp
      then show ?thesis by (simp add: Replace)
    qed
  qed (use max ten n in \<open>simp add: is_valid_tail_truncation_candidate_def\<close>)
qed

text \<open>What is read of a log whose last frame is cut off.\<close>

fun whole_entries :: "nat \<Rightarrow> manifest_entry list \<Rightarrow> manifest_entry list" where
  "whole_entries n [] = []"
| "whole_entries n (e # es) =
     (if 8 + length (manifest_payload e) \<le> n then e # whole_entries (n - (8 + length (manifest_payload e))) es else [])"

text \<open>The entry in which the cut is, and the bytes of it that are left.\<close>

fun torn_entry :: "nat \<Rightarrow> manifest_entry list \<Rightarrow> (manifest_entry \<times> nat) option" where
  "torn_entry n [] = None"
| "torn_entry n (e # es) =
     (if 8 + length (manifest_payload e) \<le> n then torn_entry (n - (8 + length (manifest_payload e))) es else Some (e, n))"

definition torn_checkpoint :: "nat \<Rightarrow> manifest_entry list \<Rightarrow> bool" where
  "torn_checkpoint n es \<longleftrightarrow> (\<exists>hmac k. torn_entry n es = Some (WalCheckpoint hmac, k) \<and> 9 \<le> k)"

lemma load_torn_frame:
  assumes ok: "mf_ok e" "mf_fits e" and n: "n < length (mf_frame crc32 e)"
  shows "load_loop crc32 (take n (mf_frame crc32 e)) = (if 9 \<le> n \<and> (\<exists>hmac. e = WalCheckpoint hmac) then Inl Mf_storage else Inr [])"
proof (cases "n < 4")
  case False
  let ?n = "4 + length (manifest_payload e)"
  have bounds: "\<not> ?n < 5" "\<not> ?n > MAX_MANIFEST_ENTRY_SIZE" using mf_frame_parts(2,3) [OF ok] by linarith+
  have "take 4 (take n (mf_frame crc32 e)) = put_u32 (length (mf_data crc32 e))" using False by (simp add: mf_frame_def min_def)
  moreover have "?n < 2 ^ 32" using bounds by (simp add: MAX_MANIFEST_ENTRY_SIZE_def)
  ultimately have len: "get_le (take 4 (take n (mf_frame crc32 e))) = ?n" by (simp add: u32_back mf_data_length)
  have drop: "drop 4 (take n (mf_frame crc32 e)) = take (n - 4) (mf_data crc32 e)"
  proof -
    have "drop 4 (mf_frame crc32 e) = mf_data crc32 e" by (simp add: mf_frame_def)
    then show ?thesis by (simp only: drop_take)
  qed
  have short: "\<not> 4 + ?n \<le> length (take n (mf_frame crc32 e))" "\<not> length (take n (mf_frame crc32 e)) < 4"
    using n False by (simp_all add: mf_frame_length)
  have "n - 4 < length (mf_data crc32 e)" using n False by (simp add: mf_frame_length mf_data_length)
  from candidate_cut [OF ok this] have cand: "is_valid_tail_truncation_candidate ?n (take (n - 4) (mf_data crc32 e)) \<longleftrightarrow>
      n < 9 \<or> (\<forall>hmac. e \<noteq> WalCheckpoint hmac)" using False by (auto simp: mf_data_length)
  show ?thesis
    unfolding load_loop.simps [of crc32 "take n (mf_frame crc32 e)"] Let_def len drop cand using bounds short by auto
qed simp

lemma load_cut:
  "\<forall>e \<in> set es. mf_ok e \<and> mf_fits e \<Longrightarrow>
   load_loop crc32 (take n (mf_frames crc32 es)) =
     (if torn_checkpoint n es then Inl Mf_storage else Inr (map unranked (whole_entries n es)))"
proof (induction es arbitrary: n)
  case (Cons e es)
  have ok: "mf_ok e" "mf_fits e" and rest: "\<forall>e \<in> set es. mf_ok e \<and> mf_fits e" using Cons.prems by simp_all
  show ?case
  proof (cases "8 + length (manifest_payload e) \<le> n")
    case True
    then have "take n (mf_frames crc32 (e # es)) = mf_frame crc32 e @ take (n - (8 + length (manifest_payload e))) (mf_frames crc32 es)"
      by (simp add: mf_frame_length)
    with Cons.IH [OF rest, of "n - (8 + length (manifest_payload e))"] True show ?thesis
      by (simp add: load_frame [OF ok] torn_checkpoint_def)
  next
    case False
    then have "take n (mf_frames crc32 (e # es)) = take n (mf_frame crc32 e)" by (simp add: mf_frame_length)
    with load_torn_frame [OF ok, of n crc32] False show ?thesis by (auto simp: mf_frame_length torn_checkpoint_def)
  qed
qed (simp add: torn_checkpoint_def)

end
