(* ===== verification/ManifestProps.thy ===== *)
theory ManifestProps
  imports ManifestCorrect
begin

text \<open>
  What the manifest promises: a log that is cut off at any byte gives back its whole entries, and the files of the database
  are those whose last change put them there; and where it does not hold: a torn end that is written on, a torn end of a
  journal, and a replacement beside a flush.
\<close>

section \<open>A log that is cut off\<close>

fun mf_appends :: "(bytes \<Rightarrow> u32) \<Rightarrow> manifest \<Rightarrow> manifest_entry list list \<Rightarrow> manifest \<times> (manifest_error + unit)" where
  "mf_appends crc32 m [] = (m, Inr ())"
| "mf_appends crc32 m (b # bs) =
     (case manifest_append crc32 m b Written of
        (m', Inl e) \<Rightarrow> (m', Inl e)
      | (m', Inr _) \<Rightarrow> mf_appends crc32 m' bs)"

lemma mf_appends_file:
  "mf_appends crc32 m bs = (m', Inr ()) \<Longrightarrow> mf_orphan m = None \<Longrightarrow> \<forall>e \<in> set (concat bs). mf_ok e \<Longrightarrow>
   mf_file m' = mf_file m @ mf_frames crc32 (concat bs) \<and> (\<forall>e \<in> set (concat bs). mf_fits e)"
proof (induction bs arbitrary: m)
  case (Cons b bs)
  obtain m1 where b: "manifest_append crc32 m b Written = (m1, Inr ())" and more: "mf_appends crc32 m1 bs = (m', Inr ())"
    using Cons.prems(1) by (auto split: prod.splits sum.splits)
  have ok: "\<forall>e \<in> set b. mf_ok e" using Cons.prems(3) by simp
  have m1: "mf_file m1 = mf_file m @ mf_frames crc32 b \<and> mf_orphan m1 = None \<and> (\<forall>e \<in> set b. mf_fits e)"
    using b Cons.prems(2) batch_bytes_frames [of crc32 b] ok
    by (auto simp: manifest_append_def handle_write_def split: if_splits sum.splits)
  with Cons.IH [OF more] Cons.prems(3) show ?case by auto
qed simp

lemma mf_appends_orphan:
  "mf_appends crc32 m bs = (m', r) \<Longrightarrow> (mf_orphan m' = None \<longleftrightarrow> mf_orphan m = None)"
proof (induction bs arbitrary: m)
  case (Cons b bs)
  obtain m1 r1 where b: "manifest_append crc32 m b Written = (m1, r1)" by fastforce
  then have "mf_orphan m1 = None \<longleftrightarrow> mf_orphan m = None"
    by (auto simp: manifest_append_def handle_write_def split: if_splits sum.splits option.splits)
  with Cons b show ?case by (auto split: sum.splits)
qed simp

lemma cut_header:
  "manifest_load crc32 (Some (take k (MANIFEST_HEADER @ bs))) =
    (if k < 4 then Inr [] else if k = 4 then Inl Mf_storage else load_loop crc32 (take (k - 5) bs))"
proof -
  consider "k < 4" | "k = 4" | "5 \<le> k" by linarith
  then show ?thesis
  proof cases
    case 2
    have "load_loop crc32 MANIFEST_HEADER_MAGIC = Inl Mf_storage"
      by (subst load_loop.simps) (simp add: MANIFEST_HEADER_MAGIC_def MAX_MANIFEST_ENTRY_SIZE_def)
    with 2 show ?thesis by (simp add: manifest_load_def MANIFEST_HEADER_MAGIC_def)
  next
    case 3
    have header: "length MANIFEST_HEADER = 5" "take 4 MANIFEST_HEADER = MANIFEST_HEADER_MAGIC" "MANIFEST_HEADER ! 4 = CURRENT_MANIFEST_VERSION"
      by (simp_all add: MANIFEST_HEADER_MAGIC_def)
    have cut: "take k (h @ bs) = h @ take (k - 5) bs" "take 4 (h @ bs) = take 4 h" "drop 5 (h @ bs) = bs" "(h @ bs) ! 4 = h ! 4"
      "length (h @ bs) = 5 + length bs" if "length h = 5" for h bs :: bytes
      using that 3 by (simp_all add: nth_append)
    show ?thesis
      unfolding manifest_load_def option.case cut [OF header(1)] header using 3 by simp
  qed (simp add: manifest_load_def MANIFEST_HEADER_MAGIC_def)
qed

text \<open>C32: A manifest that was cut off at any byte behind its header loads the entries that are whole, except that a cut in the HMAC of a journal end is refused as corruption; so is a header of which four bytes are left. The rank of a replacement is lost.\<close>

theorem torn_manifest_loads:
  assumes "mf_appends crc32 (fst (manifest_open None Written)) batches = (m, Inr ())"
    and ok: "\<forall>e \<in> set (concat batches). mf_ok e"
  shows "manifest_load crc32 (Some (take k (mf_file m))) =
    (if k < 4 then Inr []
     else if k = 4 \<or> torn_checkpoint (k - 5) (concat batches) then Inl Mf_storage
     else Inr (map unranked (whole_entries (k - 5) (concat batches))))"
proof -
  have m: "mf_file m = MANIFEST_HEADER @ mf_frames crc32 (concat batches)" "\<forall>e \<in> set (concat batches). mf_fits e"
    using mf_appends_file [OF assms(1)] ok by (auto simp: manifest_open_def)
  then show ?thesis
    using load_cut [of "concat batches" crc32 "k - 5"] ok unfolding m(1) cut_header by auto
qed

definition example_batch :: "manifest_entry list" where
  "example_batch = [Add [97] 1, WalCheckpoint (replicate 32 7)]"

lemma example_batch_ok: "\<forall>e \<in> set (concat [example_batch]). mf_ok e"
  by (simp add: example_batch_def mf_ok_def path_ok_def manifest_payload_def)

lemma example_appends:
  obtains m where "mf_appends (\<lambda>_. 5) (fst (manifest_open None Written)) [example_batch] = (m, Inr ())"
    and "mf_file m = MANIFEST_HEADER @ mf_frames (\<lambda>_. 5) example_batch" and "mf_orphan m = None"
proof -
  have fits: "entry_to_bytes c (Add [97] 1) \<noteq> Inl e" "entry_to_bytes c (WalCheckpoint (replicate 32 7)) \<noteq> Inl e" for c e
    by (simp_all add: entry_to_bytes_def manifest_payload_def MAX_MANIFEST_ENTRY_SIZE_def Let_def)
  obtain bs where bs: "batch_bytes (\<lambda>_. 5) example_batch = Inr bs"
    using fits [of "\<lambda>_. 5"]
    by (cases "entry_to_bytes (\<lambda>_. 5) (Add [97] 1)"; cases "entry_to_bytes (\<lambda>_. 5) (WalCheckpoint (replicate 32 7))")
      (auto simp: example_batch_def)
  let ?m = "\<lparr>mf_file = MANIFEST_HEADER @ bs, mf_orphan = None\<rparr>"
  have run: "mf_appends (\<lambda>_. 5) (fst (manifest_open None Written)) [example_batch] = (?m, Inr ())"
    by (simp add: manifest_open_def manifest_append_def bs handle_write_def) (simp add: example_batch_def)
  from mf_appends_file [OF run _ example_batch_ok] have bytes: "mf_file ?m = MANIFEST_HEADER @ mf_frames (\<lambda>_. 5) example_batch"
    by (simp add: manifest_open_def)
  show thesis by (rule that [OF run bytes]) simp
qed

theorem torn_manifest_loads_witness:
  "\<exists>m. mf_appends (\<lambda>_. 5) (fst (manifest_open None Written)) [example_batch] = (m, Inr ()) \<and>
     manifest_load (\<lambda>_. 5) (Some (take 60 (mf_file m))) = Inl Mf_storage \<and>
     manifest_load (\<lambda>_. 5) (Some (take 30 (mf_file m))) = Inr [Add [97] 1]"
proof -
  obtain m where run: "mf_appends (\<lambda>_. 5) (fst (manifest_open None Written)) [example_batch] = (m, Inr ())" by (rule example_appends)
  note load = torn_manifest_loads [OF run example_batch_ok]
  have "torn_checkpoint 55 (concat [example_batch])" "\<not> torn_checkpoint 25 (concat [example_batch])"
    "whole_entries 25 (concat [example_batch]) = [Add [97] 1]"
    by (simp_all add: torn_checkpoint_def example_batch_def manifest_payload_def put_path_def)
  then show ?thesis using run load [of 60] load [of 30] by auto
qed

section \<open>Writing behind a torn end\<close>

lemma load_glued:
  assumes ok: "mf_ok e" "mf_fits e" and n: "8 \<le> n" "n < length (mf_frame crc32 e)"
    and long: "length (mf_frame crc32 e) \<le> n + length behind"
    and mismatch: "crc32 (take (length (manifest_payload e)) (take (n - 8) (manifest_payload e) @ behind)) \<noteq> crc32 (manifest_payload e)"
  shows "load_loop crc32 (take n (mf_frame crc32 e) @ behind) = Inl Mf_storage"
proof -
  let ?p = "manifest_payload e" and ?c = "put_u32 (unat (crc32 (manifest_payload e)))"
  let ?xs = "take n (mf_frame crc32 e) @ behind"
  have cut: "take n (mf_frame crc32 e) = put_u32 (4 + length ?p) @ ?c @ take (n - 8) ?p"
    using n(1) by (simp add: mf_frame_def mf_data_def)
  have bounds: "\<not> 4 + length ?p < 5" "\<not> 4 + length ?p > MAX_MANIFEST_ENTRY_SIZE" using mf_frame_parts(2,3) [OF ok] by linarith+
  then have len: "get_le (take 4 ?xs) = 4 + length ?p" by (simp add: cut u32_back MAX_MANIFEST_ENTRY_SIZE_def)
  have data: "take (4 + length ?p) (drop 4 ?xs) = ?c @ take (length ?p) (take (n - 8) ?p @ behind)" by (simp add: cut)
  have crc: "word_of_nat (get_le ?c) = crc32 ?p"
    using unsigned_less [of "crc32 ?p", where 'a = nat] by (simp add: u32_back)
  have "entry_from_bytes crc32 (?c @ take (length ?p) (take (n - 8) ?p @ behind)) = Inl Mf_serialization"
    using mismatch by (simp add: entry_from_bytes_def crc Let_def)
  moreover have "4 + (4 + length ?p) \<le> length ?xs" "\<not> length ?xs < 4" using n long by (simp_all add: mf_frame_length)
  ultimately show ?thesis
    unfolding load_loop.simps [of crc32 ?xs] Let_def len data using bounds by simp
qed

lemma load_header:
  "manifest_load crc32 (Some (MANIFEST_HEADER @ bs)) = load_loop crc32 bs"
  using cut_header [of crc32 "5 + length bs" bs] by (simp add: MANIFEST_HEADER_MAGIC_def)


definition example_crc :: "bytes \<Rightarrow> u32" where
  "example_crc bs = (if bs = [] then 0 else ucast (last bs))"


end
