(* ===== verification/ManifestFiles.thy ===== *)
theory ManifestFiles
  imports ManifestProps
begin

text \<open>
  The files of the database as the manifest lists them, and the replacement of the manifest by a short one.
\<close>

section \<open>The last change of a file\<close>

text \<open>\<open>Some True\<close>: the entry puts the file into the database; \<open>Some False\<close>: it takes it out.\<close>

fun file_change :: "bytes \<Rightarrow> manifest_entry \<Rightarrow> bool option" where
  "file_change f (Add path _) = (if path_key path = f then Some True else None)"
| "file_change f (Remove path) = (if path_key path = f then Some False else None)"
| "file_change f (Replace removed added _ _) =
     (if path_key added = f then Some True else if f \<in> path_key ` set removed then Some False else None)"
| "file_change f _ = None"

fun last_change :: "bytes \<Rightarrow> manifest_entry list \<Rightarrow> bool option" where
  "last_change f [] = None"
| "last_change f (e # es) = (case last_change f es of None \<Rightarrow> file_change f e | Some c \<Rightarrow> Some c)"

lemma last_change_snoc: "last_change f (es @ [e]) = (case file_change f e of None \<Rightarrow> last_change f es | Some c \<Rightarrow> Some c)"
  by (induction es) (auto split: option.splits)

lemma keys_update [simp]: "fst ` set (AList.update k v xs) = insert k (fst ` set xs)"
  by (simp add: dom_update)

lemma keys_delete [simp]: "fst ` set (AList.delete k xs) = fst ` set xs - {k}"
  using delete_keys [of k xs] by (metis set_map set_removeAll)

lemma keys_delete_all: "fst ` set (foldl (\<lambda>v p. AList.delete (path_key p) v) valid ps) = fst ` set valid - path_key ` set ps"
  by (induction ps arbitrary: valid) auto

lemma valid_keys: "f \<in> fst ` set (fst (foldl valid_step ([], 0) es)) \<longleftrightarrow> last_change f es = Some True"
proof (induction es rule: rev_induct)
  case (snoc e es)
  obtain valid rank where acc: "foldl valid_step ([], 0) es = (valid, rank)" by fastforce
  have step: "foldl valid_step ([], 0) (es @ [e]) = valid_step (valid, rank) e" by (simp add: acc)
  from snoc acc have keys: "f \<in> fst ` set valid \<longleftrightarrow> last_change f es = Some True" by simp
  show ?case unfolding step last_change_snoc using keys
    by (cases e) (auto simp del: set_map simp: valid_step_def keys_delete_all)
qed simp

lemma valid_set: "set (map fst (reconstruct_valid_sstables es)) = {f. last_change f es = Some True}"
  using valid_keys by (auto simp: reconstruct_valid_sstables_def)

fun entry_removes :: "manifest_entry \<Rightarrow> bytes set" where
  "entry_removes (Remove path) = {path_key path}"
| "entry_removes (Replace removed _ _ _) = path_key ` set removed"
| "entry_removes _ = {}"

lemma dead_fold_paths:
  "foldl (\<lambda>dead p. if path_key p \<in> valid then dead else insert (path_key p) dead) dead ps = dead \<union> (path_key ` set ps - valid)"
  by (induction ps arbitrary: dead) auto

lemma dead_set: "reconstruct_dead_sstables es = (\<Union> (entry_removes ` set es)) - set (map fst (reconstruct_valid_sstables es))"
proof -
  have "foldl (\<lambda>dead e. case e of
             Remove path \<Rightarrow> if path_key path \<in> valid then dead else insert (path_key path) dead
           | Replace removed _ _ _ \<Rightarrow> foldl (\<lambda>dead p. if path_key p \<in> valid then dead else insert (path_key p) dead) dead removed
           | _ \<Rightarrow> dead) dead es = dead \<union> (\<Union> (entry_removes ` set es) - valid)" for dead valid
    by (induction es arbitrary: dead) (auto simp: dead_fold_paths split: manifest_entry.splits)
  then show ?thesis by (simp add: reconstruct_dead_sstables_def Let_def)
qed

lemma removed_change: "f \<in> \<Union> (entry_removes ` set es) \<Longrightarrow> last_change f es \<noteq> None"
proof (induction es)
  case (Cons e es)
  then show ?case by (cases e) (auto split: option.splits)
qed simp

lemma change_removed: "last_change f es = Some False \<Longrightarrow> f \<in> \<Union> (entry_removes ` set es)"
proof (induction es)
  case (Cons e es)
  then show ?case by (cases e) (auto split: option.splits if_splits)
qed simp

lemma distinct_keys_sort: "distinct (map fst xs) \<Longrightarrow> distinct (map fst (sort_key snd xs))"
  by (simp add: distinct_map)

text \<open>C34: The files of the database are those whose last change in the manifest put them there, each once; the files that may be deleted are those whose last change took them out; a file that the manifest never names is neither.\<close>

theorem live_files_by_last_change:
  "set (map fst (reconstruct_valid_sstables es)) = {f. last_change f es = Some True} \<and>
   distinct (map fst (reconstruct_valid_sstables es)) \<and>
   reconstruct_dead_sstables es = {f. last_change f es = Some False}"
proof (intro conjI)
  have "distinct (map fst (fst (foldl valid_step ([], 0) es)))"
  proof (induction es rule: rev_induct)
    case (snoc e es)
    have all: "distinct (map fst (foldl (\<lambda>v p. AList.delete (path_key p) v) valid ps))" if "distinct (map fst valid)" for valid :: valid_map and ps
      using that by (induction ps arbitrary: valid) (simp_all add: distinct_delete)
    obtain valid rank where acc: "foldl valid_step ([], 0) es = (valid, rank)" by fastforce
    have step: "foldl valid_step ([], 0) (es @ [e]) = valid_step (valid, rank) e" by (simp add: acc)
    from snoc acc have "distinct (map fst valid)" by simp
    then show ?case unfolding step by (cases e) (simp_all add: valid_step_def distinct_update distinct_delete all)
  qed simp
  then show "distinct (map fst (reconstruct_valid_sstables es))"
    unfolding reconstruct_valid_sstables_def by (metis distinct_keys_sort)
  show "reconstruct_dead_sstables es = {f. last_change f es = Some False}"
    unfolding dead_set valid_set using removed_change change_removed by fastforce
qed (rule valid_set)

section \<open>The replacement of the manifest\<close>

lemma load_mf_frames:
  assumes "batch_bytes crc32 es = Inr bs" and "\<forall>e \<in> set es. mf_ok e"
  shows "manifest_load crc32 (Some (MANIFEST_HEADER @ bs)) = Inr (map unranked es)"
  using batch_bytes_frames [OF assms] assms(2) load_frames [of es crc32 "[]"] unfolding load_header by simp

text \<open>C35: A replacement of the manifest by the entries of the live files leaves exactly those: the files are the ones of the list, whatever the manifest listed before, no file counts as removed, and the noted end of the journal is gone.\<close>

theorem rollover_keeps_only_live:
  assumes "manifest_rollover crc32 m (map (\<lambda>(path, tx). Add path tx) live) Rolled = (m', Inr ())"
    and ok: "\<forall>e \<in> set (map (\<lambda>(path, tx). Add path tx) live). mf_ok e"
  shows "\<exists>es. manifest_load crc32 (Some (mf_file m')) = Inr es \<and>
    set (map fst (reconstruct_valid_sstables es)) = (path_key \<circ> fst) ` set live \<and>
    reconstruct_dead_sstables es = {} \<and> extract_high_water_mark es = None"
proof -
  let ?es = "map (\<lambda>(path, tx). Add path tx) live"
  obtain bs where bs: "batch_bytes crc32 ?es = Inr bs" and m': "mf_file m' = MANIFEST_HEADER @ bs"
    using assms(1) by (auto simp: manifest_rollover_def maybe_rollover_def split: sum.splits if_splits)
  have "map unranked ?es = ?es" by auto
  then have load: "manifest_load crc32 (Some (mf_file m')) = Inr ?es" using load_mf_frames [OF bs ok] by (simp only: m')
  have change: "last_change f ?es = (if f \<in> (path_key \<circ> fst) ` set live then Some True else None)" for f
    by (induction live) (auto split: option.splits)
  have no_mark: "List.map_filter checkpoint_of (rev ?es) = []" by (auto simp: List.map_filter_def filter_empty_conv)
  have "set (map fst (reconstruct_valid_sstables ?es)) = (path_key \<circ> fst) ` set live" "reconstruct_dead_sstables ?es = {}"
    unfolding valid_set change using change removed_change [of _ ?es] by (auto simp: dead_set valid_set split: if_splits)
  with load no_mark show ?thesis by (auto simp: extract_high_water_mark_def)
qed

lemma entry_written: "mf_fits e \<Longrightarrow> entry_to_bytes crc32 e = Inr (mf_frame crc32 e)"
  by (simp add: entry_to_bytes_def mf_fits_def MAX_MANIFEST_ENTRY_SIZE_def Let_def mf_frame_def mf_data_def)

definition example_live :: "(bytes \<times> u64) list" where
  "example_live = [([98], 2)]"

lemma example_live_ok:
  "\<forall>e \<in> set (map (\<lambda>(path, tx). Add path tx) example_live). mf_ok e" "mf_fits (Add [98] 2)" "mf_fits (Add [99] 3)"
  by (simp_all add: example_live_def mf_ok_def path_ok_def manifest_payload_def mf_fits_def MAX_MANIFEST_ENTRY_SIZE_def)

theorem rollover_keeps_only_live_witness:
  "\<exists>m m' es. manifest_load (\<lambda>_. 5) (Some (mf_file m)) = Inr example_batch \<and>
     manifest_rollover (\<lambda>_. 5) m (map (\<lambda>(path, tx). Add path tx) example_live) Rolled = (m', Inr ()) \<and>
     manifest_load (\<lambda>_. 5) (Some (mf_file m')) = Inr es \<and> set (map fst (reconstruct_valid_sstables es)) = {[98]} \<and>
     extract_high_water_mark example_batch \<noteq> None \<and> extract_high_water_mark es = None"
proof -
  obtain m where "mf_appends (\<lambda>_. 5) (fst (manifest_open None Written)) [example_batch] = (m, Inr ())"
    and bytes: "mf_file m = MANIFEST_HEADER @ mf_frames (\<lambda>_. 5) example_batch" and "mf_orphan m = None" by (rule example_appends)
  have es: "\<forall>e \<in> set example_batch. mf_ok e \<and> mf_fits e" "map unranked example_batch = example_batch"
    using example_batch_ok by (simp_all add: example_batch_def mf_fits_def manifest_payload_def MAX_MANIFEST_ENTRY_SIZE_def)
  have load: "manifest_load (\<lambda>_. 5) (Some (mf_file m)) = Inr example_batch"
    using load_frames [OF es(1), of "\<lambda>_. 5" "[]"] unfolding bytes load_header by (simp add: es(2))
  obtain m' where roll: "manifest_rollover (\<lambda>_. 5) m (map (\<lambda>(path, tx). Add path tx) example_live) Rolled = (m', Inr ())"
    using example_live_ok(2) by (simp add: manifest_rollover_def maybe_rollover_def example_live_def entry_written)
  have mark: "extract_high_water_mark example_batch \<noteq> None"
    by (simp add: example_batch_def extract_high_water_mark_def List.map_filter_def)
  have "(path_key \<circ> fst) ` set example_live = {[98]}" by (simp add: example_live_def path_key_def file_name_def)
  with rollover_keeps_only_live [OF roll example_live_ok(1)] load roll mark show ?thesis by auto
qed

lemma batch_error: "batch_bytes crc32 es \<noteq> Inl Mf_storage"
proof (induction es)
  case (Cons e es)
  have "entry_to_bytes crc32 e \<noteq> Inl Mf_storage" by (simp add: entry_to_bytes_def Let_def)
  with Cons show ?case by (cases "entry_to_bytes crc32 e"; cases "batch_bytes crc32 es") auto
qed simp

text \<open>C36: A replacement that fails after the renaming reports an error but has taken effect; the handle stays on the old file: whatever is appended from then on is reported as written and does not reach the manifest.\<close>

theorem late_rollover_loses_appends:
  assumes "manifest_rollover crc32 m live Roll_late = (m1, Inl Mf_storage)" and "\<forall>e \<in> set live. mf_ok e"
    and "mf_appends crc32 m1 batches = (m2, Inr ())"
  shows "mf_file m2 = mf_file m1 \<and> manifest_load crc32 (Some (mf_file m2)) = Inr (map unranked live)"
proof -
  obtain bs where bs: "batch_bytes crc32 live = Inr bs" and m1: "mf_file m1 = MANIFEST_HEADER @ bs" "mf_orphan m1 \<noteq> None"
    using assms(1) batch_error [of crc32 live] by (auto simp: manifest_rollover_def maybe_rollover_def split: sum.splits if_splits)
  have "mf_file m' = mf_file m" if "mf_appends crc32 m bs = (m', r)" "mf_orphan m \<noteq> None" for m m' bs r
    using that
  proof (induction bs arbitrary: m)
    case (Cons b bs)
    obtain ma ra where b: "manifest_append crc32 m b Written = (ma, ra)" by fastforce
    then have "mf_orphan ma \<noteq> None \<and> mf_file ma = mf_file m"
      using Cons.prems(2) by (auto simp: manifest_append_def handle_write_def split: if_splits sum.splits option.splits)
    with Cons b show ?case by (cases ra) auto
  qed simp
  from this [OF assms(3) m1(2)] have same: "mf_file m2 = mf_file m1" .
  with load_mf_frames [OF bs assms(2)] show ?thesis by (simp add: m1(1))
qed

theorem late_rollover_loses_appends_witness:
  "\<exists>m m1 m2. mf_file m = MANIFEST_HEADER \<and>
     manifest_rollover (\<lambda>_. 5) m [Add [98] 2] Roll_late = (m1, Inl Mf_storage) \<and>
     mf_appends (\<lambda>_. 5) m1 [[Add [99] 3]] = (m2, Inr ()) \<and> manifest_load (\<lambda>_. 5) (Some (mf_file m2)) = Inr [Add [98] 2]"
proof -
  define m where "m = \<lparr>mf_file = MANIFEST_HEADER, mf_orphan = None\<rparr>"
  obtain m1 where roll: "manifest_rollover (\<lambda>_. 5) m [Add [98] 2] Roll_late = (m1, Inl Mf_storage)"
    using example_live_ok(2) by (simp add: manifest_rollover_def maybe_rollover_def entry_written)
  obtain m2 where more: "mf_appends (\<lambda>_. 5) m1 [[Add [99] 3]] = (m2, Inr ())"
    using example_live_ok(3) by (simp add: manifest_append_def entry_written)
  have "\<forall>e \<in> set [Add [98] 2]. mf_ok e" using example_live_ok(1) by (simp add: example_live_def)
  from late_rollover_loses_appends [OF roll this more] have "manifest_load (\<lambda>_. 5) (Some (mf_file m2)) = Inr [Add [98] 2]"
    unfolding list.map unranked.simps by (rule conjunct2)
  moreover have "mf_file m = MANIFEST_HEADER" by (simp add: m_def)
  ultimately show ?thesis using roll more by blast
qed

end
