(* ===== verification/Tenant.thy ===== *)
theory Tenant
  imports LsmWrite Manifest
begin

text \<open>
  The separation of tenants, \<open>contextra-store/src/tenant_codec.rs\<close>: the keys of a tenant begin with its number, and
  \<open>TenantScopedStorage\<close> puts the prefix before every key that goes to the engine and takes it off every key that comes back.
  An operation that has no key goes to the engine as it is.
\<close>

section \<open>Keys\<close>

text \<open>A number as \<open>format!\<close> writes it, and as \<open>str::parse\<close> reads it: a plus sign and leading zeros are accepted.\<close>

fun dec_digits :: "nat \<Rightarrow> bytes" where
  "dec_digits n = (if n < 10 then [word_of_nat (48 + n)] else dec_digits (n div 10) @ [word_of_nat (48 + n mod 10)])"

declare dec_digits.simps [simp del]

definition is_digit :: "u8 \<Rightarrow> bool" where
  "is_digit b \<longleftrightarrow> 48 \<le> b \<and> b \<le> 57"

definition digits_value :: "bytes \<Rightarrow> nat" where
  "digits_value ds = foldl (\<lambda>n d. 10 * n + (unat d - 48)) 0 ds"

definition parse_u64 :: "bytes \<Rightarrow> u64 option" where
  "parse_u64 s =
     (let ds = (case s of b # bs \<Rightarrow> if b = 43 then bs else s | [] \<Rightarrow> [])
      in if ds = [] \<or> \<not> list_all is_digit ds \<or> digits_value ds \<ge> 2 ^ 64 then None else Some (word_of_nat (digits_value ds)))"

abbreviation COLON :: u8 where
  "COLON \<equiv> 58"

definition tenant_prefix :: "u64 \<Rightarrow> bytes" where
  "tenant_prefix tenant_id = [116, COLON] @ dec_digits (unat tenant_id) @ [COLON]"

definition collection_prefix :: "u64 \<Rightarrow> u64 \<Rightarrow> bytes" where
  "collection_prefix tenant_id collection = tenant_prefix tenant_id @ dec_digits (unat collection) @ [COLON]"

definition encode_chunk_key :: "u64 \<Rightarrow> u64 \<Rightarrow> u64 \<Rightarrow> bytes" where
  "encode_chunk_key tenant_id collection doc_id =
     collection_prefix tenant_id collection @ [99, 104, 117, 110, 107, COLON] @ dec_digits (unat doc_id)"

definition encode_graph_key :: "u64 \<Rightarrow> u64 \<Rightarrow> u64 \<Rightarrow> bytes" where
  "encode_graph_key tenant_id collection entity_id =
     collection_prefix tenant_id collection @ [103, 114, 97, 112, 104, COLON] @ dec_digits (unat entity_id)"

definition decode_tenant_id :: "bytes \<Rightarrow> u64 option" where
  "decode_tenant_id key =
     (if \<not> valid_utf8 key \<or> take 2 key \<noteq> [116, COLON] then None
      else let rest = drop 2 key; number = takeWhile (\<lambda>b. b \<noteq> COLON) rest
           in if COLON \<notin> set rest then None
              else case parse_u64 number of None \<Rightarrow> None | Some n \<Rightarrow> if n = 0 then None else Some n)"

section \<open>The storage of a tenant\<close>

definition make_key :: "u64 \<Rightarrow> bytes \<Rightarrow> bytes" where
  "make_key t key = tenant_prefix t @ key"

definition strip_key :: "u64 \<Rightarrow> bytes \<Rightarrow> bytes option" where
  "strip_key t key = (if prefix (tenant_prefix t) key then Some (drop (length (tenant_prefix t)) key) else None)"

definition filter_strip_batch :: "u64 \<Rightarrow> (bytes \<times> bytes) list \<Rightarrow> (bytes \<times> bytes) list" where
  "filter_strip_batch t batch = List.map_filter (\<lambda>(k, v). map_option (\<lambda>k'. (k', v)) (strip_key t k)) batch"

definition tenant_get :: "lsm_params \<Rightarrow> lsm \<Rightarrow> u64 \<Rightarrow> bytes \<Rightarrow> lsm_error + bytes option" where
  "tenant_get p st t key = lsm_get p st (make_key t key)"

definition tenant_get_at_seq :: "lsm_params \<Rightarrow> lsm \<Rightarrow> u64 \<Rightarrow> bytes \<Rightarrow> u64 \<Rightarrow> lsm_error + bytes option" where
  "tenant_get_at_seq p st t key seq_no = lsm_get_at_seq p st (make_key t key) seq_no"

definition tenant_get_tracked :: "lsm_params \<Rightarrow> lsm \<Rightarrow> u64 \<Rightarrow> u64 \<Rightarrow> bytes \<Rightarrow> lsm \<times> (lsm_error + bytes option)" where
  "tenant_get_tracked p st t tx key = get_tracked p st tx (make_key t key)"

definition tenant_get_at_seq_tracked :: "lsm_params \<Rightarrow> lsm \<Rightarrow> u64 \<Rightarrow> u64 \<Rightarrow> bytes \<Rightarrow> u64 \<Rightarrow> lsm \<times> (lsm_error + bytes option)" where
  "tenant_get_at_seq_tracked p st t tx key seq = get_at_seq_tracked p st tx (make_key t key) seq"

definition tenant_put :: "lsm_params \<Rightarrow> bool \<Rightarrow> u64 \<Rightarrow> lsm \<Rightarrow> u64 \<Rightarrow> u64 \<Rightarrow> bytes \<Rightarrow> bytes \<Rightarrow> lsm \<times> (lsm_error + unit)" where
  "tenant_put p memory_ok now st t tx key val = lsm_put p memory_ok now st tx (make_key t key) val"

definition tenant_put_if_absent ::
  "lsm_params \<Rightarrow> bool \<Rightarrow> u64 \<Rightarrow> lsm \<Rightarrow> u64 \<Rightarrow> u64 \<Rightarrow> bytes \<Rightarrow> bytes \<Rightarrow> lsm \<times> (lsm_error + bool)" where
  "tenant_put_if_absent p memory_ok now st t tx key val = put_if_absent p memory_ok now st tx (make_key t key) val"

text \<open>The engine has the \<open>put_batch\<close> of the trait; every put has its own answers.\<close>

fun put_batch_default :: "lsm_params \<Rightarrow> lsm \<Rightarrow> u64 \<Rightarrow> ((bool \<times> u64) \<times> bytes \<times> bytes) list \<Rightarrow> lsm \<times> (lsm_error + unit)" where
  "put_batch_default p st tx [] = (st, Inr ())"
| "put_batch_default p st tx (((memory_ok, now), key, val) # entries) =
     (case lsm_put p memory_ok now st tx key val of
        (st', Inl e) \<Rightarrow> (st', Inl e)
      | (st', Inr _) \<Rightarrow> put_batch_default p st' tx entries)"

definition tenant_put_batch :: "lsm_params \<Rightarrow> lsm \<Rightarrow> u64 \<Rightarrow> u64 \<Rightarrow> ((bool \<times> u64) \<times> bytes \<times> bytes) list \<Rightarrow> lsm \<times> (lsm_error + unit)" where
  "tenant_put_batch p st t tx entries = put_batch_default p st tx (map (\<lambda>(a, k, v). (a, make_key t k, v)) entries)"

definition tenant_delete :: "lsm_params \<Rightarrow> bool \<Rightarrow> u64 \<Rightarrow> lsm \<Rightarrow> u64 \<Rightarrow> u64 \<Rightarrow> bytes \<Rightarrow> lsm \<times> (lsm_error + unit)" where
  "tenant_delete p memory_ok now st t tx key = lsm_delete p memory_ok now st tx (make_key t key)"

definition tenant_delete_many :: "lsm_params \<Rightarrow> bool \<Rightarrow> u64 \<Rightarrow> lsm \<Rightarrow> u64 \<Rightarrow> u64 \<Rightarrow> bytes list \<Rightarrow> lsm \<times> (lsm_error + nat)" where
  "tenant_delete_many p memory_ok now st t tx keys = lsm_delete_many p memory_ok now st tx (map (make_key t) keys)"

definition tenant_delete_prefix :: "lsm_params \<Rightarrow> bool \<Rightarrow> u64 \<Rightarrow> lsm \<Rightarrow> u64 \<Rightarrow> u64 \<Rightarrow> bytes \<Rightarrow> lsm \<times> (lsm_error + nat)" where
  "tenant_delete_prefix p memory_ok now st t tx pfx = lsm_delete_prefix p memory_ok now st tx (make_key t pfx)"

definition tenant_commit :: "lsm_params \<Rightarrow> bool \<Rightarrow> wal_outcome \<Rightarrow> lsm \<Rightarrow> u64 \<Rightarrow> u64 \<Rightarrow> lsm \<times> (lsm_error + unit) option" where
  "tenant_commit p memory_ok wal st t tx = lsm_commit p memory_ok wal st tx"

definition tenant_rollback :: "lsm_params \<Rightarrow> lsm \<Rightarrow> u64 \<Rightarrow> u64 \<Rightarrow> lsm" where
  "tenant_rollback p st t tx = lsm_rollback p st tx"

definition tenant_rollback_to_tx :: "lsm_params \<Rightarrow> bool \<Rightarrow> bool \<Rightarrow> lsm \<Rightarrow> u64 \<Rightarrow> u64 \<Rightarrow> lsm \<times> (lsm_error + unit)" where
  "tenant_rollback_to_tx p wal_ok manifest_ok st t tx = rollback_to_tx p wal_ok manifest_ok st tx"

definition tenant_flush :: "lsm_params \<Rightarrow> bool \<Rightarrow> bool \<Rightarrow> lsm \<Rightarrow> u64 \<Rightarrow> lsm \<times> (lsm_error + unit)" where
  "tenant_flush p wal_ok manifest_ok st t = lsm_flush p wal_ok manifest_ok st"

definition tenant_stats :: "lsm \<Rightarrow> u64 \<Rightarrow> storage_stats" where
  "tenant_stats st t = lsm_stats st"

definition tenant_last_seq_no :: "lsm \<Rightarrow> u64 \<Rightarrow> u64" where
  "tenant_last_seq_no st t = last_seq_no st"

definition tenant_last_tx_id :: "lsm \<Rightarrow> u64 \<Rightarrow> u64" where
  "tenant_last_tx_id st t = last_tx_id st"

definition tenant_pin_checkpoint :: "u64 \<Rightarrow> lsm \<Rightarrow> u64 \<Rightarrow> u64 \<Rightarrow> lsm" where
  "tenant_pin_checkpoint now st t seq_no = pin_checkpoint now st seq_no"

definition tenant_unpin_checkpoint :: "lsm \<Rightarrow> u64 \<Rightarrow> u64 \<Rightarrow> lsm" where
  "tenant_unpin_checkpoint st t seq_no = unpin_checkpoint st seq_no"

section \<open>Scans\<close>

definition tenant_scan_prefix :: "lsm_params \<Rightarrow> lsm \<Rightarrow> u64 \<Rightarrow> bytes \<Rightarrow> lsm_error + (bytes \<times> bytes) list" where
  "tenant_scan_prefix p st t pfx = bind_res (lsm_scan_prefix p st (make_key t pfx)) (\<lambda>raw. Inr (filter_strip_batch t raw))"

definition tenant_scan_prefix_tracked ::
  "lsm_params \<Rightarrow> lsm \<Rightarrow> u64 \<Rightarrow> u64 \<Rightarrow> bytes \<Rightarrow> lsm \<times> (lsm_error + (bytes \<times> bytes) list)" where
  "tenant_scan_prefix_tracked p st t tx pfx =
     (let (st', r) = scan_prefix_tracked p st tx (make_key t pfx) in (st', bind_res r (\<lambda>raw. Inr (filter_strip_batch t raw))))"

definition tenant_scan_prefix_at :: "lsm_params \<Rightarrow> lsm \<Rightarrow> u64 \<Rightarrow> bytes \<Rightarrow> u64 \<Rightarrow> lsm_error + (bytes \<times> bytes) list" where
  "tenant_scan_prefix_at p st t pfx seq_no =
     bind_res (scan_prefix_at p st (make_key t pfx) seq_no) (\<lambda>raw. Inr (filter_strip_batch t raw))"

definition strip_page :: "u64 \<Rightarrow> (bytes \<times> bytes) list \<times> bytes option \<Rightarrow> (bytes \<times> bytes) list \<times> bytes option" where
  "strip_page t pg = (filter_strip_batch t (fst pg), Option.bind (snd pg) (strip_key t))"

definition tenant_scan_prefix_bounded ::
  "lsm_params \<Rightarrow> lsm \<Rightarrow> u64 \<Rightarrow> bytes \<Rightarrow> nat \<Rightarrow> bytes option \<Rightarrow> lsm_error + (bytes \<times> bytes) list \<times> bytes option" where
  "tenant_scan_prefix_bounded p st t pfx limit cursor =
     bind_res (scan_prefix_bounded p st (make_key t pfx) limit (map_option (make_key t) cursor)) (\<lambda>pg. Inr (strip_page t pg))"

definition physical_start :: "u64 \<Rightarrow> bound \<Rightarrow> bound" where
  "physical_start t b =
     (case b of Included k \<Rightarrow> Included (make_key t k) | Excluded k \<Rightarrow> Excluded (make_key t k) | Unbounded \<Rightarrow> Included (tenant_prefix t))"

definition physical_end :: "u64 \<Rightarrow> bound \<Rightarrow> bound" where
  "physical_end t b =
     (case b of Included k \<Rightarrow> Included (make_key t k) | Excluded k \<Rightarrow> Excluded (make_key t k)
      | Unbounded \<Rightarrow> (case upper_bound_for_prefix (tenant_prefix t) of Some ub \<Rightarrow> Excluded ub | None \<Rightarrow> Unbounded))"

definition tenant_scan :: "lsm_params \<Rightarrow> lsm \<Rightarrow> u64 \<Rightarrow> bound \<Rightarrow> bound \<Rightarrow> nat option \<Rightarrow> lsm_error + (bytes \<times> bytes) list" where
  "tenant_scan p st t start end' limit =
     bind_res (lsm_scan p st (physical_start t start) (physical_end t end') limit) (\<lambda>raw. Inr (filter_strip_batch t raw))"

definition tenant_scan_bounded ::
  "lsm_params \<Rightarrow> lsm \<Rightarrow> u64 \<Rightarrow> bound \<Rightarrow> bound \<Rightarrow> nat \<Rightarrow> bytes option \<Rightarrow> lsm_error + (bytes \<times> bytes) list \<times> bytes option" where
  "tenant_scan_bounded p st t start end' limit cursor =
     bind_res (scan_bounded p st (physical_start t start) (physical_end t end') limit (map_option (make_key t) cursor))
       (\<lambda>pg. Inr (strip_page t pg))"

end
