(* ===== verification/TenantCorrect.thy ===== *)
theory TenantCorrect
  imports Tenant LsmCorrect
begin

text \<open>
  The keys of tenants: numbers are read back, a tenant is told by the prefix of a key, and the bounds of a scan hold nothing
  but keys of the tenant.
\<close>

section \<open>Numbers\<close>

lemma dec_digit_value: "n < 10 \<Longrightarrow> unat (word_of_nat (48 + n) :: u8) = 48 + n"
  by (subst unat_of_nat) simp

lemma dec_digits_digits: "list_all is_digit (dec_digits n) \<and> dec_digits n \<noteq> []"
proof (induction n rule: dec_digits.induct)
  case (1 n)
  have d: "is_digit (word_of_nat (48 + m))" if "m < 10" for m
    using that dec_digit_value [OF that] by (simp add: is_digit_def word_le_nat_alt)
  show ?case
  proof (cases "n < 10")
    case False
    then show ?thesis using 1 [OF False] d [of "n mod 10"] by (simp add: dec_digits.simps [of n])
  qed (use d [of n] in \<open>simp add: dec_digits.simps [of n]\<close>)
qed

lemma dec_digits_value: "digits_value (dec_digits n) = n"
proof (induction n rule: dec_digits.induct)
  case (1 n)
  show ?case
  proof (cases "n < 10")
    case True
    then show ?thesis using dec_digit_value [OF True] by (simp add: dec_digits.simps [of n] digits_value_def)
  next
    case False
    have "digits_value (ds @ [d]) = 10 * digits_value ds + (unat d - 48)" for ds d by (simp add: digits_value_def)
    then show ?thesis using 1 [OF False] dec_digit_value [of "n mod 10"] False by (simp add: dec_digits.simps [of n])
  qed
qed

lemma dec_digits_inj: "dec_digits n = dec_digits m \<longleftrightarrow> n = m"
  by (metis dec_digits_value)

lemma digit_no_sign: "is_digit b \<Longrightarrow> b \<noteq> COLON \<and> b \<noteq> 43 \<and> b \<le> 127"
  by (auto simp: is_digit_def word_le_nat_alt)

lemma digits_no_colon: "list_all is_digit ds \<Longrightarrow> takeWhile (\<lambda>b. b \<noteq> COLON) (ds @ COLON # r) = ds"
  using digit_no_sign by (subst takeWhile_append2) (auto simp: list_all_iff)

lemma parse_dec: "parse_u64 (dec_digits (unat (n :: u64))) = Some n"
proof -
  obtain d ds where ds: "dec_digits (unat n) = d # ds" using dec_digits_digits [of "unat n"] by (cases "dec_digits (unat n)") auto
  then have "is_digit d" using dec_digits_digits [of "unat n"] by simp
  then have "d \<noteq> 43" using digit_no_sign by blast
  moreover have "unat n < 2 ^ 64" using unsigned_less [of n, where 'a = nat] by simp
  ultimately show ?thesis using dec_digits_digits [of "unat n"] dec_digits_value [of "unat n"] by (simp add: parse_u64_def ds)
qed

text \<open>A number and the colon behind it.\<close>

lemma number_split: "dec_digits n @ COLON # r = dec_digits m @ COLON # r' \<longleftrightarrow> n = m \<and> r = r'"
proof
  assume eq: "dec_digits n @ COLON # r = dec_digits m @ COLON # r'"
  then have "takeWhile (\<lambda>b. b \<noteq> COLON) (dec_digits n @ COLON # r) = takeWhile (\<lambda>b. b \<noteq> COLON) (dec_digits m @ COLON # r')" by simp
  then have "dec_digits n = dec_digits m" using dec_digits_digits by (simp add: digits_no_colon)
  with eq show "n = m \<and> r = r'" by (simp add: dec_digits_inj)
qed simp

lemma number_prefix: "prefix (dec_digits n @ COLON # r) (dec_digits m @ COLON # r') \<longleftrightarrow> n = m \<and> prefix r r'"
proof
  assume "prefix (dec_digits n @ COLON # r) (dec_digits m @ COLON # r')"
  then obtain s where "dec_digits m @ COLON # r' = dec_digits n @ COLON # (r @ s)" by (auto simp: prefix_def)
  then show "n = m \<and> prefix r r'" by (simp add: number_split)
qed (auto simp: prefix_def)

lemma unat_eq [simp]: "unat (a :: u64) = unat b \<longleftrightarrow> a = b"
  by (simp add: word_unat_eq_iff)

lemma tenant_prefix_split:
  "prefix (tenant_prefix t @ r) (tenant_prefix u @ r') \<longleftrightarrow> t = u \<and> prefix r r'"
  "tenant_prefix t @ r = tenant_prefix u @ r' \<longleftrightarrow> t = u \<and> r = r'"
  by (simp_all add: tenant_prefix_def number_prefix number_split)

lemma tenant_key: "prefix (tenant_prefix t) (make_key u k) \<longleftrightarrow> t = u"
  using tenant_prefix_split(1) [of t "[]" u k] by (simp add: make_key_def)

lemma make_key_inj: "make_key t k = make_key u k' \<longleftrightarrow> t = u \<and> k = k'"
  by (simp add: make_key_def tenant_prefix_split)

lemma strip_make [simp]: "strip_key t (make_key u k) = (if t = u then Some k else None)"
  by (simp add: strip_key_def tenant_key) (simp add: make_key_def)

section \<open>The codec\<close>

lemma utf8_ascii: "list_all (\<lambda>b. b \<le> 127) as \<Longrightarrow> valid_utf8 (as @ bs) \<longleftrightarrow> valid_utf8 bs"
  by (induction as) simp_all

lemma tenant_prefix_ascii: "list_all (\<lambda>b. b \<le> 127) (tenant_prefix t)"
  using dec_digits_digits [of "unat t"] digit_no_sign by (auto simp: tenant_prefix_def list_all_iff)

lemma decode_make_key: "decode_tenant_id (make_key t k) = (if t \<noteq> 0 \<and> valid_utf8 k then Some t else None)"
proof -
  have "valid_utf8 (make_key t k) \<longleftrightarrow> valid_utf8 k" unfolding make_key_def by (rule utf8_ascii [OF tenant_prefix_ascii])
  then show ?thesis
    using digits_no_colon [of "dec_digits (unat t)" k] dec_digits_digits [of "unat t"] parse_dec [of t]
    by (cases "t = 0") (simp_all add: decode_tenant_id_def make_key_def tenant_prefix_def)
qed

lemma digits_utf8: "valid_utf8 (dec_digits n)"
  using utf8_ascii [of "dec_digits n" "[]"] dec_digits_digits [of n] digit_no_sign by (auto simp: list_all_iff)

lemma chunk_key: "encode_chunk_key t c d = make_key t (dec_digits (unat c) @ COLON # [99, 104, 117, 110, 107, COLON] @ dec_digits (unat d))"
  by (simp add: encode_chunk_key_def collection_prefix_def make_key_def)

lemma graph_key: "encode_graph_key t c d = make_key t (dec_digits (unat c) @ COLON # [103, 114, 97, 112, 104, COLON] @ dec_digits (unat d))"
  by (simp add: encode_graph_key_def collection_prefix_def make_key_def)

lemma key_utf8: "list_all (\<lambda>b. b \<le> 127) mid \<Longrightarrow> valid_utf8 (dec_digits n @ mid @ dec_digits m)"
  using utf8_ascii [of "dec_digits n" "mid @ dec_digits m"] utf8_ascii [of mid "dec_digits m"] digits_utf8 dec_digits_digits [of n] digit_no_sign
  by (auto simp: list_all_iff)

section \<open>Bounds\<close>

lemma between_prefix:
  fixes k :: bytes
  shows "P @ a \<le> k \<Longrightarrow> k \<le> P @ b \<Longrightarrow> prefix P k"
proof (induction P arbitrary: k)
  case (Cons p P)
  obtain c k' where k: "k = c # k'" using Cons.prems(1) by (cases k) auto
  with Cons have "c = p" "P @ a \<le> k'" "k' \<le> P @ b" by (auto split: if_splits)
  with Cons.IH k show ?case by simp
qed simp

lemma bound_prefix:
  fixes k :: bytes
  shows "Q @ x # a \<le> k \<Longrightarrow> k < Q @ [x + 1] \<Longrightarrow> prefix (Q @ [x]) k"
proof (induction Q arbitrary: k)
  case Nil
  then obtain c k' where k: "k = c # k'" by (cases k) auto
  with Nil have "x \<le> c" "c < x + 1" by (auto split: if_splits)
  then have "c = x" by (metis word_le_less_eq inc_le leD)
  with k show ?case by simp
next
  case (Cons p Q)
  obtain c k' where k: "k = c # k'" using Cons.prems(1) by (cases k) auto
  with Cons have "c = p" "Q @ x # a \<le> k'" "k' < Q @ [x + 1]" by (auto split: if_splits)
  with Cons.IH k show ?case by simp
qed

lemma prefix_order:
  fixes a :: bytes
  shows "P @ a \<le> P @ b \<longleftrightarrow> a \<le> b" "P @ a < P @ b \<longleftrightarrow> a < b"
  by (induction P) auto

lemma tenant_upper: "upper_bound_for_prefix (tenant_prefix t) = Some (butlast (tenant_prefix t) @ [COLON + 1])"
  by (simp add: upper_bound_for_prefix.simps tenant_prefix_def)

lemma physical_range:
  "above (physical_start t a) k \<and> below (physical_end t b) k \<longleftrightarrow> (\<exists>k'. k = make_key t k' \<and> above a k' \<and> below b k')"
proof
  let ?P = "tenant_prefix t" and ?Q = "[116, COLON] @ dec_digits (unat t)"
  have P: "?P = ?Q @ [COLON]" by (simp add: tenant_prefix_def)
  assume range: "above (physical_start t a) k \<and> below (physical_end t b) k"
  have low: "\<exists>r. ?P @ r \<le> k" using range
    by (cases a) (auto simp: physical_start_def make_key_def intro: less_imp_le exI [of _ "[]"])
  then obtain r where r: "?P @ r \<le> k" by blast
  have "prefix ?P k"
  proof (cases b)
    case Unbounded
    then have "k < butlast ?P @ [COLON + 1]" using range by (simp add: physical_end_def tenant_upper)
    moreover have "butlast ?P = ?Q" by (simp add: tenant_prefix_def butlast_append)
    ultimately have "k < ?Q @ [COLON + 1]" by (simp only:)
    with r bound_prefix [of ?Q COLON r k] show ?thesis by (simp add: P)
  qed (use r range between_prefix [of ?P r k] in \<open>auto simp: physical_end_def make_key_def dest: less_imp_le\<close>)
  then obtain k' where "k = make_key t k'" by (auto simp: prefix_def make_key_def)
  moreover from this have "above a k' \<and> below b k'"
    using range by (cases a; cases b) (auto simp: physical_start_def physical_end_def make_key_def prefix_order)
  ultimately show "\<exists>k'. k = make_key t k' \<and> above a k' \<and> below b k'" by blast
next
  assume "\<exists>k'. k = make_key t k' \<and> above a k' \<and> below b k'"
  then obtain k' where k: "k = make_key t k'" "above a k'" "below b k'" by blast
  have "make_key t k' < butlast (tenant_prefix t) @ [COLON + 1]"
    using prefix_below_bound [OF tenant_upper, where k = "make_key t k'"] by (simp add: tenant_key)
  moreover have "tenant_prefix t \<le> make_key t k'" using prefix_order(1) [of "tenant_prefix t" "[]" k'] by (simp add: make_key_def)
  ultimately show "above (physical_start t a) k \<and> below (physical_end t b) k"
    using k by (cases a; cases b) (auto simp: physical_start_def physical_end_def tenant_upper make_key_def prefix_order)
qed

section \<open>Scans\<close>

definition tenant_view :: "u64 \<Rightarrow> db \<Rightarrow> db" where
  "tenant_view t d k = d (make_key t k)"

lemma strip_batch:
  assumes "\<forall>e \<in> set xs. prefix (tenant_prefix t) (fst e)"
  shows "map (\<lambda>(k, v). (make_key t k, v)) (filter_strip_batch t xs) = xs" and "length (filter_strip_batch t xs) = length xs"
    and "filter_strip_batch t (take n xs) = take n (filter_strip_batch t xs)"
proof -
  have xs: "xs = map (\<lambda>(k, v). (make_key t k, v)) ys \<Longrightarrow> filter_strip_batch t xs = ys" for xs ys
    by (induction ys arbitrary: xs) (auto simp: filter_strip_batch_def)
  obtain ys where ys: "xs = map (\<lambda>(k, v). (make_key t k, v)) ys"
  proof
    show "xs = map (\<lambda>(k, v). (make_key t k, v)) (map (\<lambda>(k, v). (drop (length (tenant_prefix t)) k, v)) xs)"
      using assms by (induction xs) (auto simp: make_key_def prefix_def)
  qed
  then have "take n xs = map (\<lambda>(k, v). (make_key t k, v)) (take n ys)" by (simp add: take_map)
  from xs [OF ys] xs [OF this] ys show "map (\<lambda>(k, v). (make_key t k, v)) (filter_strip_batch t xs) = xs" "length (filter_strip_batch t xs) = length xs"
    "filter_strip_batch t (take n xs) = take n (filter_strip_batch t xs)" by simp_all
qed

lemma strip_scan:
  assumes scan: "is_scan R d xs" and R: "\<And>k. R k \<Longrightarrow> prefix (tenant_prefix t) k"
  shows "is_scan (\<lambda>k. R (make_key t k)) (tenant_view t d) (filter_strip_batch t xs)"
    and "\<forall>e \<in> set xs. prefix (tenant_prefix t) (fst e)"
proof -
  show own: "\<forall>e \<in> set xs. prefix (tenant_prefix t) (fst e)" using scan R by (auto simp: is_scan_def)
  let ?ys = "filter_strip_batch t xs"
  have xs: "xs = map (\<lambda>(k, v). (make_key t k, v)) ?ys" using strip_batch(1) [OF own] by simp
  have "sorted_wrt (<) (map fst xs)" using scan by (simp add: is_scan_def)
  then have "sorted_wrt (<) (map fst ?ys)"
    by (subst (asm) xs) (simp add: sorted_wrt_map case_prod_beta make_key_def prefix_order)
  moreover have "(k, v) \<in> set ?ys \<longleftrightarrow> (make_key t k, v) \<in> set xs" for k v
    by (subst (2) xs) (force simp: make_key_inj)
  ultimately show "is_scan (\<lambda>k. R (make_key t k)) (tenant_view t d) ?ys"
    using scan by (simp add: is_scan_def tenant_view_def)
qed

lemma own_key: "prefix (tenant_prefix t) k \<longleftrightarrow> (\<exists>k'. k = make_key t k')"
  by (auto simp: prefix_def make_key_def)

lemma filter_strip_append [simp]: "filter_strip_batch t (xs @ ys) = filter_strip_batch t xs @ filter_strip_batch t ys"
  by (simp add: filter_strip_batch_def List.map_filter_def)

text \<open>The pages of a tenant are the pages below without the prefix.\<close>

definition own_page :: "u64 \<Rightarrow> lsm_error + (bytes \<times> bytes) list \<times> bytes option \<Rightarrow> bool" where
  "own_page t r \<longleftrightarrow> (\<forall>xs next'. r = Inr (xs, next') \<longrightarrow> (\<forall>c. next' = Some c \<longrightarrow> prefix (tenant_prefix t) c))"

lemma all_pages_strip:
  assumes "\<And>c. own_page t (page (map_option (make_key t) c))"
    and "\<And>c. page' c = bind_res (page (map_option (make_key t) c)) (\<lambda>pg. Inr (strip_page t pg))"
  shows "all_pages fuel page' c =
    map_option (\<lambda>r. bind_res r (\<lambda>xs. Inr (filter_strip_batch t xs))) (all_pages fuel page (map_option (make_key t) c))"
proof (induction fuel arbitrary: c)
  case (Suc fuel)
  show ?case
  proof (cases "page (map_option (make_key t) c)")
    case (Inr pg)
    obtain xs next' where pg: "pg = (xs, next')" by fastforce
    show ?thesis
    proof (cases next')
      case (Some k)
      then obtain c' where k: "k = make_key t c'" using assms(1) [of c] Inr pg by (auto simp: own_page_def own_key)
      have "all_pages fuel page' (Some c') =
          map_option (\<lambda>r. bind_res r (\<lambda>xs. Inr (filter_strip_batch t xs))) (all_pages fuel page (Some k))"
        using Suc.IH [of "Some c'"] by (simp add: k)
      moreover have "bind_res (bind_res r f) g = bind_res r (\<lambda>x. bind_res (f x) g)" for r :: "lsm_error + (bytes \<times> bytes) list"
        and f g :: "(bytes \<times> bytes) list \<Rightarrow> lsm_error + (bytes \<times> bytes) list" by (cases r) simp_all
      ultimately show ?thesis
        using Inr assms(2) [of c] by (cases "all_pages fuel page (Some k)") (auto simp: pg Some k strip_page_def)
    qed (use Inr assms(2) [of c] in \<open>simp add: pg strip_page_def\<close>)
  qed (simp add: assms(2))
qed simp

lemma own_page_of:
  assumes "\<And>m. r = Inr m \<Longrightarrow> \<forall>e \<in> set (g m). prefix (tenant_prefix t) (fst e)"
  shows "own_page t (bind_res r (\<lambda>m. Inr (page_of limit (g m))))"
proof (cases r)
  case (Inr m)
  let ?rs = "take_limit (Some limit) (g m)"
  have sub: "set ?rs \<subseteq> set (g m)" by (auto simp: take_limit_def dest: in_set_takeD)
  have "prefix (tenant_prefix t) (fst (last ?rs))" if "length ?rs = limit" "length (g m) > limit"
  proof -
    have "?rs \<noteq> []" using that by (auto simp: take_limit_def split: if_splits)
    then show ?thesis using assms [OF Inr] sub last_in_set [of ?rs] by blast
  qed
  with Inr show ?thesis by (auto simp: own_page_def page_of_def Let_def)
qed (simp add: own_page_def)

lemma own_pages:
  assumes hist: "holds_history p st H F"
  shows "own_page t (scan_bounded p st (physical_start t a) (physical_end t b) limit (map_option (make_key t) cursor))"
    and "own_page t (scan_prefix_bounded p st (make_key t pfx) limit (map_option (make_key t) cursor))"
proof -
  have F: "F \<le> U64_MAX" by (simp add: U64_MAX_def)
  let ?s = "case cursor of Some c \<Rightarrow> Excluded c | None \<Rightarrow> a"
  let ?ps = "physical_start t ?s" and ?pe = "physical_end t b"
  have start: "(case map_option (make_key t) cursor of Some c \<Rightarrow> Excluded c | None \<Rightarrow> physical_start t a) = ?ps"
    by (cases cursor) (simp_all add: physical_start_def)
  have range: "case collect_visible_entries p st (By_range ?ps ?pe) (\<lambda>k _ _. check_in_range k ?ps ?pe) True of
      Inl e \<Rightarrow> True \<and> e = Limit_exceeded
    | Inr m \<Rightarrow> is_scan (\<lambda>k. in_mode (By_range ?ps ?pe) k \<and> check_in_range k ?ps ?pe) (db_at U64_MAX H) (live_entries m)"
    by (rule history_collect [OF hist F]) (simp add: U64_MAX_def)
  show "own_page t (scan_bounded p st (physical_start t a) (physical_end t b) limit (map_option (make_key t) cursor))"
    unfolding scan_bounded_def Let_def start
    by (rule own_page_of) (use range in \<open>auto simp: is_scan_def check_in_range_def physical_range tenant_key\<close>)
  let ?c = "map_option (make_key t) cursor"
  let ?pred = "\<lambda>k. (case ?c of Some cb \<Rightarrow> \<not> k \<le> cb | None \<Rightarrow> True) \<and> prefix (make_key t pfx) k"
  have pre: "case collect_visible_entries p st (By_prefix (make_key t pfx)) (\<lambda>k _ _. ?pred k) True of
      Inl e \<Rightarrow> True \<and> e = Limit_exceeded
    | Inr m \<Rightarrow> is_scan (\<lambda>k. in_mode (By_prefix (make_key t pfx)) k \<and> ?pred k) (db_at U64_MAX H) (live_entries m)"
    by (rule history_collect [OF hist F]) (simp add: U64_MAX_def)
  have sub: "set (live_entries (filter P m)) \<subseteq> set (live_entries m)" for P m by (force simp: live_entries_def)
  have own: "prefix (make_key t pfx) k \<Longrightarrow> prefix (tenant_prefix t) k" for k by (auto simp: make_key_def prefix_def)
  show "own_page t (scan_prefix_bounded p st (make_key t pfx) limit ?c)"
    unfolding scan_prefix_bounded_def
    by (rule own_page_of) (use pre sub own in \<open>fastforce simp: is_scan_def\<close>)
qed

end
