(* ===== verification/TenantProps.thy ===== *)
theory TenantProps
  imports TenantCorrect
begin

text \<open>
  What the separation of tenants promises over the runs of the engine: a tenant reads and scans its own part of the database,
  page by page as well, and nothing that other tenants do changes it, as long as no two tenants use the same transaction.
\<close>

section \<open>The codec\<close>

text \<open>C40: The keys of the codec are told apart by tenant, collection, kind and number, the prefix of a tenant or of a collection matches exactly its own keys, and the tenant is read back from every key, except that of the system and keys that are not UTF-8.\<close>

theorem tenant_codec_separates:
  "decode_tenant_id (encode_chunk_key t c d) = (if t = 0 then None else Some t) \<and>
   decode_tenant_id (encode_graph_key t c d) = (if t = 0 then None else Some t) \<and>
   decode_tenant_id (make_key t k) = (if t \<noteq> 0 \<and> valid_utf8 k then Some t else None) \<and>
   (encode_chunk_key t c d = encode_chunk_key t' c' d' \<longleftrightarrow> t = t' \<and> c = c' \<and> d = d') \<and>
   (encode_graph_key t c d = encode_graph_key t' c' d' \<longleftrightarrow> t = t' \<and> c = c' \<and> d = d') \<and>
   encode_chunk_key t c d \<noteq> encode_graph_key t' c' d' \<and>
   (prefix (collection_prefix t c) (encode_chunk_key t' c' d') \<longleftrightarrow> t = t' \<and> c = c') \<and>
   (prefix (collection_prefix t c) (encode_graph_key t' c' d') \<longleftrightarrow> t = t' \<and> c = c') \<and>
   (prefix (tenant_prefix t) (make_key t' k) \<longleftrightarrow> t = t')"
proof -
  have col: "collection_prefix t c = tenant_prefix t @ dec_digits (unat c) @ COLON # []" by (simp add: collection_prefix_def)
  have chunk: "decode_tenant_id (encode_chunk_key t c d) = (if t = 0 then None else Some t)"
    using key_utf8 [of "COLON # [99, 104, 117, 110, 107, COLON]" "unat c" "unat d"] by (simp add: chunk_key decode_make_key)
  have graph: "decode_tenant_id (encode_graph_key t c d) = (if t = 0 then None else Some t)"
    using key_utf8 [of "COLON # [103, 114, 97, 112, 104, COLON]" "unat c" "unat d"] by (simp add: graph_key decode_make_key)
  have parts: "encode_chunk_key t c d = encode_chunk_key t' c' d' \<longleftrightarrow> t = t' \<and> c = c' \<and> d = d'"
    "encode_graph_key t c d = encode_graph_key t' c' d' \<longleftrightarrow> t = t' \<and> c = c' \<and> d = d'"
    "encode_chunk_key t c d \<noteq> encode_graph_key t' c' d'"
    unfolding chunk_key graph_key make_key_inj number_split by (auto simp: dec_digits_inj)
  have pre: "prefix (collection_prefix t c) (encode_chunk_key t' c' d') \<longleftrightarrow> t = t' \<and> c = c'"
    "prefix (collection_prefix t c) (encode_graph_key t' c' d') \<longleftrightarrow> t = t' \<and> c = c'"
    unfolding col chunk_key graph_key make_key_def tenant_prefix_split number_prefix by auto
  show ?thesis using chunk graph parts pre decode_make_key tenant_key by blast
qed

text \<open>A number that the codec never writes is read as well.\<close>

lemma decode_accepts_unwritten:
  "decode_tenant_id [116, COLON, 43, 55, COLON] = Some 7 \<and> decode_tenant_id [116, COLON, 48, 55, COLON] = Some 7"
  by (simp add: decode_tenant_id_def parse_u64_def digits_value_def is_digit_def)

section \<open>Runs of several tenants\<close>

text \<open>The operation of a tenant on the engine below.\<close>

fun scope_op :: "u64 \<Rightarrow> lsm_op \<Rightarrow> lsm_op" where
  "scope_op t (Do_put ok now tx k v) = Do_put ok now tx (make_key t k) v"
| "scope_op t (Do_put_if_absent ok now tx k v) = Do_put_if_absent ok now tx (make_key t k) v"
| "scope_op t (Do_delete ok now tx k) = Do_delete ok now tx (make_key t k)"
| "scope_op t (Do_delete_many ok now tx ks) = Do_delete_many ok now tx (map (make_key t) ks)"
| "scope_op t (Do_get k) = Do_get (make_key t k)"
| "scope_op t (Do_get_tracked tx k) = Do_get_tracked tx (make_key t k)"
| "scope_op t (Do_get_at k s) = Do_get_at (make_key t k) s"
| "scope_op t op = op"

fun tenant_exec :: "lsm_params \<Rightarrow> u64 \<Rightarrow> lsm_op \<Rightarrow> lsm \<Rightarrow> lsm \<times> lsm_out" where
  "tenant_exec p t (Do_put ok now tx k v) st = map_prod id (answer (\<lambda>_. Accepted)) (tenant_put p ok now st t tx k v)"
| "tenant_exec p t (Do_put_if_absent ok now tx k v) st = map_prod id (answer Flagged) (tenant_put_if_absent p ok now st t tx k v)"
| "tenant_exec p t (Do_delete ok now tx k) st = map_prod id (answer (\<lambda>_. Accepted)) (tenant_delete p ok now st t tx k)"
| "tenant_exec p t (Do_delete_many ok now tx ks) st = map_prod id (answer Counted) (tenant_delete_many p ok now st t tx ks)"
| "tenant_exec p t (Do_get k) st = (st, answer Found (tenant_get p st t k))"
| "tenant_exec p t (Do_get_tracked tx k) st = map_prod id (answer Found) (tenant_get_tracked p st t tx k)"
| "tenant_exec p t (Do_get_at k s) st = (st, answer Found (tenant_get_at_seq p st t k s))"
| "tenant_exec p t (Do_pin now) st = (tenant_pin_checkpoint now st t (tenant_last_seq_no st t), Pinned (tenant_last_seq_no st t))"
| "tenant_exec p t (Do_unpin s) st = (tenant_unpin_checkpoint st t s, Accepted)"
| "tenant_exec p t (Do_rollback tx) st = (tenant_rollback p st t tx, Accepted)"
| "tenant_exec p t (Do_commit ok wal tx) st =
     map_prod id (\<lambda>r. case r of None \<Rightarrow> Hangs | Some x \<Rightarrow> answer (\<lambda>_. Accepted) x) (tenant_commit p ok wal st t tx)"
| "tenant_exec p t (Do_flush wal_ok manifest_ok) st = map_prod id (answer (\<lambda>_. Accepted)) (tenant_flush p wal_ok manifest_ok st t)"
| "tenant_exec p t op st = lsm_exec p op st"

lemmas tenant_defs = tenant_put_def tenant_put_if_absent_def tenant_delete_def tenant_delete_many_def tenant_get_def
  tenant_get_tracked_def tenant_get_at_seq_def tenant_pin_checkpoint_def tenant_last_seq_no_def tenant_unpin_checkpoint_def
  tenant_rollback_def tenant_commit_def tenant_flush_def

lemma tenant_exec_scope: "tenant_exec p t op st = lsm_exec p (scope_op t op) st"
  by (cases op) (simp_all add: tenant_defs)

fun tenant_run :: "lsm_params \<Rightarrow> (u64 \<times> lsm_op) list \<Rightarrow> lsm \<Rightarrow> lsm \<times> lsm_out list" where
  "tenant_run p [] st = (st, [])"
| "tenant_run p ((t, op) # ops) st =
     (let (st1, out) = tenant_exec p t op st; (st2, outs) = tenant_run p ops st1 in (st2, out # outs))"

abbreviation scoped :: "(u64 \<times> lsm_op) list \<Rightarrow> lsm_op list" where
  "scoped ops \<equiv> map (\<lambda>(t, op). scope_op t op) ops"

lemma tenant_run_scope: "tenant_run p ops st = lsm_run p (scoped ops) st"
  by (induction ops arbitrary: st) (auto simp: tenant_exec_scope)

lemma scoped_admitted: "\<forall>(t, op) \<in> set ops. op_admitted op \<Longrightarrow> \<forall>op \<in> set (scoped ops). op_admitted op"
proof -
  have "op_admitted (scope_op t op) \<longleftrightarrow> op_admitted op" for t op by (cases op) simp_all
  then show "\<forall>(t, op) \<in> set ops. op_admitted op \<Longrightarrow> \<forall>op \<in> set (scoped ops). op_admitted op" by auto
qed

section \<open>A tenant reads its own part\<close>

lemma tenant_inv_reads:
  assumes inv: "lsm_inv p st H F sp"
  shows "tenant_get p st t k = (if validate_key (make_key t k) then Inr (tenant_view t (sp_db sp) k) else Inl Invalid)"
    and "\<exists>xs. tenant_scan_prefix p st t pfx = Inr xs \<and> is_scan (prefix pfx) (tenant_view t (sp_db sp)) xs"
    and "(s, d) \<in> set (sp_pins sp) \<Longrightarrow> \<exists>xs. tenant_scan_prefix_at p st t pfx s = Inr xs \<and> is_scan (prefix pfx) (tenant_view t d) xs"
    and "\<exists>xs. is_scan (\<lambda>k. above a k \<and> below b k) (tenant_view t (sp_db sp)) xs \<and>
       (\<forall>limit. tenant_scan p st t a b limit = Inr (if limit = None \<or> limit = Some 0 then xs else take (the limit) xs))"
    and "\<exists>xs. tenant_scan_prefix p st t pfx = Inr xs \<and>
       tenant_delete_prefix p ok now st t tx pfx = tenant_delete_many p ok now st t tx (map fst xs)"
proof -
  have own: "prefix (make_key t pfx) k \<Longrightarrow> prefix (tenant_prefix t) k" for k pfx
    by (auto simp: make_key_def prefix_def)
  have strip: "is_scan (prefix pfx) (tenant_view t d) (filter_strip_batch t xs)" if "is_scan (prefix (make_key t pfx)) d xs" for d xs
    using strip_scan(1) [OF that own] by (simp add: make_key_def same_prefix_prefix)
  show "tenant_get p st t k = (if validate_key (make_key t k) then Inr (tenant_view t (sp_db sp) k) else Inl Invalid)"
    using inv_read(1) [OF inv] by (simp add: tenant_get_def lsm_get_def tenant_view_def)
  show "\<exists>xs. tenant_scan_prefix p st t pfx = Inr xs \<and> is_scan (prefix pfx) (tenant_view t (sp_db sp)) xs"
    using inv_scans(1) [OF inv, of "make_key t pfx"] strip by (auto simp: tenant_scan_prefix_def)
  show "\<exists>xs. tenant_scan_prefix_at p st t pfx s = Inr xs \<and> is_scan (prefix pfx) (tenant_view t d) xs"
    if "(s, d) \<in> set (sp_pins sp)"
    using inv_scans(2) [OF inv that, of "make_key t pfx"] strip by (auto simp: tenant_scan_prefix_at_def)
  obtain raw where raw: "lsm_scan_prefix p st (make_key t pfx) = Inr raw" "is_scan (prefix (make_key t pfx)) (sp_db sp) raw"
    using inv_scans(1) [OF inv] by blast
  have "map fst raw = map (make_key t) (map fst (filter_strip_batch t raw))"
    by (subst strip_batch(1) [OF strip_scan(2) [OF raw(2) own], symmetric]) (simp_all add: case_prod_beta comp_def)
  then show "\<exists>xs. tenant_scan_prefix p st t pfx = Inr xs \<and>
       tenant_delete_prefix p ok now st t tx pfx = tenant_delete_many p ok now st t tx (map fst xs)"
    by (simp add: tenant_scan_prefix_def raw(1) tenant_delete_prefix_def lsm_delete_prefix_def tenant_delete_many_def)
  obtain xs where xs: "is_scan (\<lambda>k. above (physical_start t a) k \<and> below (physical_end t b) k) (sp_db sp) xs"
    and limit: "\<And>limit. lsm_scan p st (physical_start t a) (physical_end t b) limit =
      Inr (if limit = None \<or> limit = Some 0 then xs else take (the limit) xs)"
    using inv_scans(3) [OF inv] by blast
  have in_range: "above (physical_start t a) k \<and> below (physical_end t b) k \<Longrightarrow> prefix (tenant_prefix t) k" for k
    unfolding physical_range by (auto simp: tenant_key)
  note s = strip_scan [OF xs in_range]
  have "is_scan (\<lambda>k. above a k \<and> below b k) (tenant_view t (sp_db sp)) (filter_strip_batch t xs)"
    using s(1) unfolding physical_range by (simp add: make_key_inj)
  moreover have "tenant_scan p st t a b limit =
      Inr (if limit = None \<or> limit = Some 0 then filter_strip_batch t xs else take (the limit) (filter_strip_batch t xs))" for limit
    by (simp add: tenant_scan_def limit strip_batch(3) [OF s(2)])
  ultimately show "\<exists>xs. is_scan (\<lambda>k. above a k \<and> below b k) (tenant_view t (sp_db sp)) xs \<and>
       (\<forall>limit. tenant_scan p st t a b limit = Inr (if limit = None \<or> limit = Some 0 then xs else take (the limit) xs))" by blast
qed

text \<open>C38: After any run of operations of any tenants, point reads and scans of a tenant return its part of the database of the committed transactions: a prefix scan, a scan at a pinned snapshot and a range scan with any bounds and limit miss no key of the tenant and return none of another.\<close>

theorem tenant_reads_own_part:
  assumes "km_ok (lp_km p)" and "\<forall>(t, op) \<in> set ops. op_admitted op"
    and "1 + length ops * (cf_max_ops_per_tx c + 1) < 2 ^ 63"
    and "tenant_run p ops (lsm_new (tx_buffer_new n c) ssi) = (st, outs)"
  shows "\<exists>sp. lsm_spec_run p (scoped ops) outs spec_new = (sp, True) \<and>
    (\<forall>k. validate_key (make_key t k) \<longrightarrow> tenant_get p st t k = Inr (tenant_view t (sp_db sp) k)) \<and>
    (\<exists>xs. tenant_scan_prefix p st t pfx = Inr xs \<and> is_scan (prefix pfx) (tenant_view t (sp_db sp)) xs) \<and>
    (\<forall>(s, d) \<in> set (sp_pins sp). \<exists>xs. tenant_scan_prefix_at p st t pfx s = Inr xs \<and> is_scan (prefix pfx) (tenant_view t d) xs) \<and>
    (\<exists>xs. is_scan (\<lambda>k. above a k \<and> below b k) (tenant_view t (sp_db sp)) xs \<and>
       (\<forall>limit. tenant_scan p st t a b limit = Inr (if limit = None \<or> limit = Some 0 then xs else take (the limit) xs))) \<and>
    (\<exists>xs. tenant_scan_prefix p st t pfx = Inr xs \<and>
       tenant_delete_prefix p ok now st t tx pfx = tenant_delete_many p ok now st t tx (map fst xs))"
proof -
  have room: "1 + length (scoped ops) * (cf_max_ops_per_tx c + 1) < 2 ^ 63" using assms(3) by simp
  obtain H F sp where run: "lsm_spec_run p (scoped ops) outs spec_new = (sp, True)" and inv: "lsm_inv p st H F sp"
    by (rule run_reaches [OF assms(1) scoped_admitted [OF assms(2)] room assms(4) [unfolded tenant_run_scope]])
  from run tenant_inv_reads [OF inv] show ?thesis by (intro exI [of _ sp] conjI ballI allI) auto
qed

definition tenant_example :: "(u64 \<times> lsm_op) list" where
  "tenant_example =
     [(1, Do_put True 0 1 [107] [5]), (1, Do_commit True Appended 1), (2, Do_put True 0 2 [107] [6]), (2, Do_commit True Appended 2)]"

lemma tenant_example_ok:
  "\<forall>(t, op) \<in> set tenant_example. op_admitted op" "1 + length tenant_example * (cf_max_ops_per_tx default_config + 1) < 2 ^ 63"
  by (simp_all add: tenant_example_def READABLE_VALUE_def default_config_def)

theorem tenant_reads_own_part_witness:
  "\<exists>st outs sp xs. tenant_run example_params tenant_example example_start = (st, outs) \<and>
     lsm_spec_run example_params (scoped tenant_example) outs spec_new = (sp, True) \<and>
     tenant_scan example_params st 1 Unbounded Unbounded None = Inr xs \<and>
     is_scan (\<lambda>_. True) (tenant_view 1 (sp_db sp)) xs"
proof -
  obtain st outs where run: "tenant_run example_params tenant_example example_start = (st, outs)"
    by (cases "tenant_run example_params tenant_example example_start")
  have all: "(\<lambda>k. above Unbounded k \<and> below Unbounded k) = (\<lambda>_. True)" by simp
  from tenant_reads_own_part [OF example_km tenant_example_ok run [unfolded example_start_def], of 1 "[]" Unbounded Unbounded True 0 1,
      unfolded all]
  obtain sp xs where "lsm_spec_run example_params (scoped tenant_example) outs spec_new = (sp, True)"
    and "is_scan (\<lambda>_. True) (tenant_view 1 (sp_db sp)) xs"
    and "\<And>limit. tenant_scan example_params st 1 Unbounded Unbounded limit =
        Inr (if limit = None \<or> limit = Some 0 then xs else take (the limit) xs)" by blast
  then show ?thesis using run by (intro exI [of _ st] exI [of _ outs] exI [of _ sp] exI [of _ xs]) simp
qed



section \<open>Tenants do not disturb each other\<close>

text \<open>The transaction that an operation writes or commits.\<close>

fun writes_in :: "lsm_op \<Rightarrow> u64 option" where
  "writes_in (Do_put ok now tx k v) = Some tx"
| "writes_in (Do_put_if_absent ok now tx k v) = Some tx"
| "writes_in (Do_delete ok now tx k) = Some tx"
| "writes_in (Do_delete_many ok now tx ks) = Some tx"
| "writes_in (Do_commit ok wal tx) = Some tx"
| "writes_in _ = None"

definition owned_ops :: "(u64 \<Rightarrow> u64) \<Rightarrow> (u64 \<times> lsm_op) list \<Rightarrow> bool" where
  "owned_ops owner ops \<longleftrightarrow> (\<forall>(t, op) \<in> set ops. \<forall>tx. writes_in op = Some tx \<longrightarrow> owner tx = t)"

fun written_key :: "kv index_op \<Rightarrow> bytes option" where
  "written_key (OpInsert _ (k, v)) = Some k"
| "written_key (OpDelete _ (Some (k, v))) = Some k"
| "written_key (OpDelete _ None) = None"

definition staged_owned :: "(u64 \<Rightarrow> u64) \<Rightarrow> lsm_spec \<Rightarrow> bool" where
  "staged_owned owner sp \<longleftrightarrow> (\<forall>tx. \<forall>op \<in> set (sp_staged sp tx). \<forall>k. written_key op = Some k \<longrightarrow> prefix (tenant_prefix (owner tx)) k)"

lemma fold_apply_other:
  "\<forall>op \<in> set ops. \<forall>k. written_key op = Some k \<longrightarrow> prefix (tenant_prefix t) k \<Longrightarrow> t \<noteq> u \<Longrightarrow>
   tenant_view u (fold apply_op ops d) = tenant_view u d"
proof (induction ops arbitrary: d)
  case (Cons op ops)
  have "apply_op op d (make_key u k) = d (make_key u k)" for k
    using Cons.prems tenant_key [of t u k] by (cases "(op, d)" rule: apply_op.cases) auto
  then have "tenant_view u (apply_op op d) = tenant_view u d" by (simp add: tenant_view_def fun_eq_iff)
  with Cons show ?case by simp
qed simp

lemma step_owned:
  assumes "staged_owned owner sp" and "\<forall>tx. writes_in op = Some tx \<longrightarrow> owner tx = t"
  shows "staged_owned owner (lsm_spec_step p (scope_op t op) out sp)"
    and "t \<noteq> u \<Longrightarrow> tenant_view u (sp_db (lsm_spec_step p (scope_op t op) out sp)) = tenant_view u (sp_db sp)"
proof -
  show "staged_owned owner (lsm_spec_step p (scope_op t op) out sp)"
    using assms by (cases op) (auto simp: staged_owned_def spec_stage_def op_put_def op_del_def tenant_key split: lsm_out.splits)
  show "tenant_view u (sp_db (lsm_spec_step p (scope_op t op) out sp)) = tenant_view u (sp_db sp)" if "t \<noteq> u"
  proof (cases op)
    case (Do_commit ok wal tx)
    then have "\<forall>op \<in> set (sp_staged sp tx). \<forall>k. written_key op = Some k \<longrightarrow> prefix (tenant_prefix t) k"
      using assms unfolding staged_owned_def Do_commit by fastforce
    then show ?thesis using fold_apply_other [OF _ that] by (simp add: Do_commit)
  qed (auto simp: spec_stage_def split: lsm_out.splits)
qed

lemma run_owned:
  "staged_owned owner sp \<Longrightarrow> owned_ops owner ops \<Longrightarrow> length ops = length outs \<Longrightarrow>
   staged_owned owner (fst (lsm_spec_run p (scoped ops) outs sp)) \<and>
   (u \<notin> fst ` set ops \<longrightarrow> tenant_view u (sp_db (fst (lsm_spec_run p (scoped ops) outs sp))) = tenant_view u (sp_db sp))"
proof (induction ops arbitrary: outs sp)
  case (Cons x ops)
  obtain t op out outs' where x: "x = (t, op)" and outs: "outs = out # outs'" using Cons.prems(3) by (cases x; cases outs) auto
  have "\<forall>tx. writes_in op = Some tx \<longrightarrow> owner tx = t" "owned_ops owner ops"
    using Cons.prems(2) by (auto simp: owned_ops_def x)
  note step = step_owned [OF Cons.prems(1) this(1), where p = p and out = out]
  from Cons.IH [OF step(1) \<open>owned_ops owner ops\<close>, of outs'] Cons.prems(3) step(2) [of u] show ?case
    by (cases "t = u") (auto simp: x outs case_prod_beta)
qed simp

text \<open>C37: What other tenants do does not change what a tenant sees: after any run, further operations of other tenants, commits, flushes, compactions and rollbacks of their transactions among them, leave every point read and every scan of the tenant as they were, as long as every transaction is written and committed by one tenant only.\<close>

theorem tenants_do_not_interfere:
  assumes "km_ok (lp_km p)" and "\<forall>(t, op) \<in> set (ops1 @ ops2). op_admitted op"
    and "1 + length (ops1 @ ops2) * (cf_max_ops_per_tx c + 1) < 2 ^ 63"
    and "tenant_run p ops1 (lsm_new (tx_buffer_new n c) ssi) = (st1, outs1)" and "tenant_run p ops2 st1 = (st2, outs2)"
    and "owned_ops owner (ops1 @ ops2)" and "u \<notin> fst ` set ops2"
  shows "tenant_get p st2 u k = tenant_get p st1 u k \<and> tenant_scan_prefix p st2 u pfx = tenant_scan_prefix p st1 u pfx \<and>
    tenant_scan p st2 u a b limit = tenant_scan p st1 u a b limit"
proof -
  let ?st0 = "lsm_new (tx_buffer_new n c) ssi"
  have adm: "\<forall>op \<in> set (scoped ops1). op_admitted op" "\<forall>op \<in> set (scoped (ops1 @ ops2)). op_admitted op"
    using scoped_admitted [of ops1] scoped_admitted [OF assms(2)] assms(2) by simp_all
  have room: "1 + length (scoped ops1) * (cf_max_ops_per_tx c + 1) < 2 ^ 63" "1 + length (scoped (ops1 @ ops2)) * (cf_max_ops_per_tx c + 1) < 2 ^ 63"
    using assms(3) by (simp_all add: algebra_simps)
  note runs = assms(4,5) [unfolded tenant_run_scope]
  have all: "lsm_run p (scoped (ops1 @ ops2)) ?st0 = (st2, outs1 @ outs2)" using runs by (simp add: lsm_run_append)
  obtain H1 F1 sp1 where sp1: "lsm_spec_run p (scoped ops1) outs1 spec_new = (sp1, True)" and inv1: "lsm_inv p st1 H1 F1 sp1"
    by (rule run_reaches [OF assms(1) adm(1) room(1) runs(1)])
  obtain H2 F2 sp2 where sp2: "lsm_spec_run p (scoped (ops1 @ ops2)) (outs1 @ outs2) spec_new = (sp2, True)" and inv2: "lsm_inv p st2 H2 F2 sp2"
    by (rule run_reaches [OF assms(1) adm(2) room(2) all])
  have len: "length ops1 = length outs1" "length ops2 = length outs2" using lsm_run_length runs by fastforce+
  have own: "owned_ops owner ops1" "owned_ops owner ops2" using assms(6) by (auto simp: owned_ops_def)
  have "staged_owned owner spec_new" by (simp add: staged_owned_def spec_new_def)
  from run_owned [OF this own(1) len(1), of p] sp1 have owned: "staged_owned owner sp1" by simp
  have "sp2 = fst (lsm_spec_run p (scoped ops2) outs2 sp1)"
    using spec_run_append [of "scoped ops1" outs1 p "scoped ops2" outs2 spec_new] len(1) sp1 sp2 by simp
  with run_owned [OF owned own(2) len(2), of p u] assms(7) have view: "tenant_view u (sp_db sp2) = tenant_view u (sp_db sp1)" by simp
  note reads1 = tenant_inv_reads [OF inv1, where t = u] and reads2 = tenant_inv_reads [OF inv2, where t = u, unfolded view]
  have "tenant_scan_prefix p st2 u pfx = tenant_scan_prefix p st1 u pfx"
    using reads1(2) [of pfx] reads2(2) [of pfx] is_scan_unique by metis
  moreover have "tenant_scan p st2 u a b limit = tenant_scan p st1 u a b limit"
    using reads1(4) [of a b] reads2(4) [of a b] is_scan_unique by metis
  ultimately show ?thesis by (simp add: reads1(1) reads2(1))
qed

theorem tenants_do_not_interfere_witness:
  "\<exists>st1 outs1 st2 outs2. tenant_run example_params (take 2 tenant_example) example_start = (st1, outs1) \<and>
     tenant_run example_params (drop 2 tenant_example) st1 = (st2, outs2) \<and>
     tenant_get example_params st2 1 [107] = tenant_get example_params st1 1 [107] \<and>
     tenant_scan_prefix example_params st2 1 [] = tenant_scan_prefix example_params st1 1 []"
proof -
  obtain st1 outs1 where run1: "tenant_run example_params (take 2 tenant_example) example_start = (st1, outs1)"
    by (cases "tenant_run example_params (take 2 tenant_example) example_start")
  obtain st2 outs2 where run2: "tenant_run example_params (drop 2 tenant_example) st1 = (st2, outs2)"
    by (cases "tenant_run example_params (drop 2 tenant_example) st1")
  have split: "take 2 tenant_example @ drop 2 tenant_example = tenant_example" by (rule append_take_drop_id)
  have owned: "owned_ops (\<lambda>tx. tx) tenant_example" "1 \<notin> fst ` set (drop 2 tenant_example)"
    by (auto simp: owned_ops_def tenant_example_def)
  from tenants_do_not_interfere [OF example_km _ _ run1 [unfolded example_start_def] run2, unfolded split, OF tenant_example_ok owned, of "[107]" "[]"]
  show ?thesis using run1 run2 by blast
qed

end
